(* ===== verification/GoPrelude.thy ===== *)
theory GoPrelude
  imports Main "HOL-Library.Word" "HOL-Library.Sublist"
begin

text \<open>
  Shared vocabulary of the development: the machine integers of Go, results that carry an
  error, the few operations of Go's standard library the modelled packages call
  (\<^verbatim>\<open>fmt\<close> number verbs, \<^verbatim>\<open>encoding/binary\<close> big-endian reads), and the generic
  lemmas on words, bits and lists used by several components.  Go's \<^verbatim>\<open>int\<close> is taken at
  its 64-bit width; values of type \<^verbatim>\<open>int\<close> are HOL integers, and every place where a
  conversion truncates is written as a conversion to a word.
\<close>

unbundle bit_operations_syntax

named_theorems go_defs \<open>definitional unfoldings of constants and small helpers\<close>

section \<open>Machine integers and results\<close>

type_synonym u8 = "8 word"
type_synonym u16 = "16 word"
type_synonym u32 = "32 word"
type_synonym u64 = "64 word"
type_synonym bytes = "u8 list"

text \<open>The octets of a string constant.\<close>

definition go_bytes :: "string \<Rightarrow> bytes" where
  "go_bytes s = map of_char s"

text \<open>Early return on error: the Go pattern \<^verbatim>\<open>if err != nil { return err }\<close>.\<close>

definition res_bind :: "'e + 'a \<Rightarrow> ('a \<Rightarrow> 'e + 'b) \<Rightarrow> 'e + 'b" where
  "res_bind r f = (case r of Inl e \<Rightarrow> Inl e | Inr x \<Rightarrow> f x)"

lemma res_bind_simps [simp]:
  "res_bind (Inl e) f = Inl e"
  "res_bind (Inr x) f = f x"
  by (simp_all add: res_bind_def)

lemma res_bind_eq_Inr [simp]:
  "res_bind r f = Inr y \<longleftrightarrow> (\<exists>x. r = Inr x \<and> f x = Inr y)"
  by (simp add: res_bind_def split: sum.split)

definition is_ok :: "'e + 'a \<Rightarrow> bool" where
  "is_ok r = (case r of Inl _ \<Rightarrow> False | Inr _ \<Rightarrow> True)"

lemma is_ok_simps [simp]: "\<not> is_ok (Inl e)" "is_ok (Inr x)"
  by (simp_all add: is_ok_def)

lemma is_ok_iff: "is_ok r \<longleftrightarrow> (\<exists>x. r = Inr x)"
  by (cases r) simp_all

lemma is_ok_res_bind:
  "is_ok (res_bind r f) \<longleftrightarrow> (\<exists>x. r = Inr x \<and> is_ok (f x))"
  by (cases r) simp_all

section \<open>Generic lemmas\<close>

lemma ex_nat_split: "(\<exists>n::nat. P n) \<longleftrightarrow> P 0 \<or> (\<exists>n. P (Suc n))"
  by (metis not0_implies_Suc)

subsection \<open>Bits of masks\<close>

named_theorems mask_bits \<open>single-bit and low-bit masks as bits\<close>

lemma bit_int_power:
  "bit (16::int) n \<longleftrightarrow> n = 4" "bit (32::int) n \<longleftrightarrow> n = 5"
  "bit (64::int) n \<longleftrightarrow> n = 6" "bit (128::int) n \<longleftrightarrow> n = 7"
  using bit_exp_iff [of 4 n, where 'a = int] bit_exp_iff [of 5 n, where 'a = int]
    bit_exp_iff [of 6 n, where 'a = int] bit_exp_iff [of 7 n, where 'a = int]
  by auto

lemma and_mask7 [mask_bits]: "(w::'a::len word) AND 127 = take_bit 7 w"
  by (simp add: take_bit_eq_mask mask_eq_exp_minus_1)

lemma and_bit7 [mask_bits]: "(w::'a::len word) AND 128 = 0 \<longleftrightarrow> \<not> bit w 7"
  using and_exp_eq_0_iff_not_bit [of w 7] by simp

section \<open>Number verbs of package fmt\<close>

definition digit_char :: "nat \<Rightarrow> char" where
  "digit_char d = (if d < 10 then char_of (48 + d) else char_of (87 + d))"

fun digits_base :: "nat \<Rightarrow> nat \<Rightarrow> string" where
  "digits_base b n =
     (if b < 2 \<or> n < b then [digit_char n] else digits_base b (n div b) @ [digit_char (n mod b)])"

declare digits_base.simps [simp del]

text \<open>\<^verbatim>\<open>%d\<close> on unsigned and signed operands; \<^verbatim>\<open>%#v\<close> prints unsigned operands in hexadecimal.\<close>

definition fmt_d :: "nat \<Rightarrow> string" where
  "fmt_d n = digits_base 10 n"

definition fmt_di :: "int \<Rightarrow> string" where
  "fmt_di i = (if i < 0 then ''-'' @ fmt_d (nat (- i)) else fmt_d (nat i))"

definition fmt_sharp_v :: "nat \<Rightarrow> string" where
  "fmt_sharp_v n = ''0x'' @ digits_base 16 n"

section \<open>Big-endian reads of package encoding/binary\<close>

definition be_uint16 :: "u8 \<Rightarrow> u8 \<Rightarrow> u16" where
  "be_uint16 b0 b1 = ucast b1 OR push_bit 8 (ucast b0)"

definition be_uint32 :: "u8 \<Rightarrow> u8 \<Rightarrow> u8 \<Rightarrow> u8 \<Rightarrow> u32" where
  "be_uint32 b0 b1 b2 b3 =
     ucast b3 OR push_bit 8 (ucast b2) OR push_bit 16 (ucast b1) OR push_bit 24 (ucast b0)"

section \<open>Transition systems\<close>

text \<open>
  A component that moves from state to state by a step relation.  The locale is interpreted
  on the step relation of each such component; its lemma lifts an inductive invariant to
  the reachable states.
\<close>

inductive reachable :: "('s \<Rightarrow> bool) \<Rightarrow> ('s \<Rightarrow> 's \<Rightarrow> bool) \<Rightarrow> 's \<Rightarrow> bool"
  for init :: "'s \<Rightarrow> bool" and step :: "'s \<Rightarrow> 's \<Rightarrow> bool" where
  reachable_init: "init s \<Longrightarrow> reachable init step s"
| reachable_step: "reachable init step s \<Longrightarrow> step s t \<Longrightarrow> reachable init step t"

locale inductive_invariant =
  fixes init :: "'s \<Rightarrow> bool" and step :: "'s \<Rightarrow> 's \<Rightarrow> bool" and inv :: "'s \<Rightarrow> bool"
  assumes inv_init: "init s \<Longrightarrow> inv s"
    and inv_step: "inv s \<Longrightarrow> step s t \<Longrightarrow> inv t"
begin

lemma reachable_inv: "reachable init step s \<Longrightarrow> inv s"
  by (induction rule: reachable.induct) (auto intro: inv_init inv_step)

end

end
