(* ===== verification/BPF_Constants.thy ===== *)
theory BPF_Constants
  imports GoPrelude
begin

text \<open>
  Package \<^verbatim>\<open>bpf\<close>, file \<^verbatim>\<open>constants.go\<close>: registers, ALU operators, jump tests, kernel
  extensions and the bit patterns opcodes are built from.  Go declares the first three as
  named \<^verbatim>\<open>uint16\<close> types, so a value outside the declared constants is possible and the
  code's default branches matter; they are therefore words here and not enumerations.
\<close>

type_synonym Register = u16
type_synonym ALUOp = u16
type_synonym JumpTest = u16
type_synonym Extension = int

definition RegA :: Register where [go_defs]: "RegA = 0"
definition RegX :: Register where [go_defs]: "RegX = 1"

definition ALUOpAdd :: ALUOp where [go_defs]: "ALUOpAdd = 0x00"
definition ALUOpSub :: ALUOp where [go_defs]: "ALUOpSub = 0x10"
definition ALUOpMul :: ALUOp where [go_defs]: "ALUOpMul = 0x20"
definition ALUOpDiv :: ALUOp where [go_defs]: "ALUOpDiv = 0x30"
definition ALUOpOr :: ALUOp where [go_defs]: "ALUOpOr = 0x40"
definition ALUOpAnd :: ALUOp where [go_defs]: "ALUOpAnd = 0x50"
definition ALUOpShiftLeft :: ALUOp where [go_defs]: "ALUOpShiftLeft = 0x60"
definition ALUOpShiftRight :: ALUOp where [go_defs]: "ALUOpShiftRight = 0x70"
definition aluOpNeg :: ALUOp where [go_defs]: "aluOpNeg = 0x80"
definition ALUOpMod :: ALUOp where [go_defs]: "ALUOpMod = 0x90"
definition ALUOpXor :: ALUOp where [go_defs]: "ALUOpXor = 0xa0"

definition JumpEqual :: JumpTest where [go_defs]: "JumpEqual = 0"
definition JumpNotEqual :: JumpTest where [go_defs]: "JumpNotEqual = 1"
definition JumpGreaterThan :: JumpTest where [go_defs]: "JumpGreaterThan = 2"
definition JumpLessThan :: JumpTest where [go_defs]: "JumpLessThan = 3"
definition JumpGreaterOrEqual :: JumpTest where [go_defs]: "JumpGreaterOrEqual = 4"
definition JumpLessOrEqual :: JumpTest where [go_defs]: "JumpLessOrEqual = 5"
definition JumpBitsSet :: JumpTest where [go_defs]: "JumpBitsSet = 6"
definition JumpBitsNotSet :: JumpTest where [go_defs]: "JumpBitsNotSet = 7"

definition extOffset :: int where [go_defs]: "extOffset = -0x1000"
definition ExtLen :: Extension where [go_defs]: "ExtLen = 1"
definition ExtProto :: Extension where [go_defs]: "ExtProto = 0"
definition ExtType :: Extension where [go_defs]: "ExtType = 4"
definition ExtPayloadOffset :: Extension where [go_defs]: "ExtPayloadOffset = 52"
definition ExtInterfaceIndex :: Extension where [go_defs]: "ExtInterfaceIndex = 8"
definition ExtNetlinkAttr :: Extension where [go_defs]: "ExtNetlinkAttr = 12"
definition ExtNetlinkAttrNested :: Extension where [go_defs]: "ExtNetlinkAttrNested = 16"
definition ExtMark :: Extension where [go_defs]: "ExtMark = 20"
definition ExtQueue :: Extension where [go_defs]: "ExtQueue = 24"
definition ExtLinkLayerType :: Extension where [go_defs]: "ExtLinkLayerType = 28"
definition ExtRXHash :: Extension where [go_defs]: "ExtRXHash = 32"
definition ExtCPUID :: Extension where [go_defs]: "ExtCPUID = 36"
definition ExtVLANTag :: Extension where [go_defs]: "ExtVLANTag = 44"
definition ExtVLANTagPresent :: Extension where [go_defs]: "ExtVLANTagPresent = 48"
definition ExtVLANProto :: Extension where [go_defs]: "ExtVLANProto = 60"
definition ExtRand :: Extension where [go_defs]: "ExtRand = 56"

text \<open>Masks that select the parts of an opcode.\<close>

definition opMaskCls :: u16 where [go_defs]: "opMaskCls = 0x7"
definition opMaskLoadDest :: u16 where [go_defs]: "opMaskLoadDest = 0x01"
definition opMaskLoadWidth :: u16 where [go_defs]: "opMaskLoadWidth = 0x18"
definition opMaskLoadMode :: u16 where [go_defs]: "opMaskLoadMode = 0xe0"
definition opMaskOperandSrc :: u16 where [go_defs]: "opMaskOperandSrc = 0x08"
definition opMaskOperator :: u16 where [go_defs]: "opMaskOperator = 0xf0"
definition opMaskJumpConst :: u16 where [go_defs]: "opMaskJumpConst = 0x0f"
definition opMaskJumpCond :: u16 where [go_defs]: "opMaskJumpCond = 0xf0"

text \<open>Instruction classes.\<close>

definition opClsLoadA :: u16 where [go_defs]: "opClsLoadA = 0"
definition opClsLoadX :: u16 where [go_defs]: "opClsLoadX = 1"
definition opClsStoreA :: u16 where [go_defs]: "opClsStoreA = 2"
definition opClsStoreX :: u16 where [go_defs]: "opClsStoreX = 3"
definition opClsALU :: u16 where [go_defs]: "opClsALU = 4"
definition opClsJump :: u16 where [go_defs]: "opClsJump = 5"
definition opClsReturn :: u16 where [go_defs]: "opClsReturn = 6"
definition opClsMisc :: u16 where [go_defs]: "opClsMisc = 7"

text \<open>Addressing modes and load widths.\<close>

definition opAddrModeImmediate :: u16 where [go_defs]: "opAddrModeImmediate = 0x00"
definition opAddrModeAbsolute :: u16 where [go_defs]: "opAddrModeAbsolute = 0x20"
definition opAddrModeIndirect :: u16 where [go_defs]: "opAddrModeIndirect = 0x40"
definition opAddrModeScratch :: u16 where [go_defs]: "opAddrModeScratch = 0x60"
definition opAddrModePacketLen :: u16 where [go_defs]: "opAddrModePacketLen = 0x80"
definition opAddrModeMemShift :: u16 where [go_defs]: "opAddrModeMemShift = 0xa0"

definition opLoadWidth4 :: u16 where [go_defs]: "opLoadWidth4 = 0x00"
definition opLoadWidth2 :: u16 where [go_defs]: "opLoadWidth2 = 0x08"
definition opLoadWidth1 :: u16 where [go_defs]: "opLoadWidth1 = 0x10"

text \<open>Operand sources, jump conditions, return sources and register moves.\<close>

definition opALUSrcConstant :: u16 where [go_defs]: "opALUSrcConstant = 0x00"
definition opALUSrcX :: u16 where [go_defs]: "opALUSrcX = 0x08"

definition opJumpAlways :: u16 where [go_defs]: "opJumpAlways = 0x00"
definition opJumpEqual :: u16 where [go_defs]: "opJumpEqual = 0x10"
definition opJumpGT :: u16 where [go_defs]: "opJumpGT = 0x20"
definition opJumpGE :: u16 where [go_defs]: "opJumpGE = 0x30"
definition opJumpSet :: u16 where [go_defs]: "opJumpSet = 0x40"

definition opRetSrcConstant :: u16 where [go_defs]: "opRetSrcConstant = 0x00"
definition opRetSrcA :: u16 where [go_defs]: "opRetSrcA = 0x10"

definition opMiscTAX :: u16 where [go_defs]: "opMiscTAX = 0x00"
definition opMiscTXA :: u16 where [go_defs]: "opMiscTXA = 0x80"

text \<open>The ALU operators that take an operand, in the order the disassembler lists them.\<close>

definition aluOps :: "ALUOp list" where
  "aluOps = [ALUOpAdd, ALUOpSub, ALUOpMul, ALUOpDiv, ALUOpOr, ALUOpAnd,
             ALUOpShiftLeft, ALUOpShiftRight, ALUOpMod, ALUOpXor]"

lemma set_aluOps:
  "op \<in> set aluOps \<longleftrightarrow>
     op = 0x00 \<or> op = 0x10 \<or> op = 0x20 \<or> op = 0x30 \<or> op = 0x40 \<or> op = 0x50 \<or>
     op = 0x60 \<or> op = 0x70 \<or> op = 0x90 \<or> op = 0xa0"
  by (simp add: aluOps_def go_defs)

end
