(* ===== verification/BPF_Instructions.thy ===== *)
theory BPF_Instructions
  imports BPF_Constants
begin

text \<open>
  Package \<^verbatim>\<open>bpf\<close>, file \<^verbatim>\<open>instructions.go\<close>: the instruction types of the package (the
  implementations of the open interface \<^verbatim>\<open>Instruction\<close>), their encoding into raw
  instructions (the \<^verbatim>\<open>Assemble\<close> methods), the decoder
  (\<^verbatim>\<open>RawInstruction.Disassemble\<close>) and the assembler notation (the \<^verbatim>\<open>String\<close> methods).
\<close>

section \<open>Data\<close>

record RawInstruction =
  Op :: u16
  Jt :: u8
  Jf :: u8
  K :: u32

definition raw :: "u16 \<Rightarrow> u8 \<Rightarrow> u8 \<Rightarrow> u32 \<Rightarrow> RawInstruction" where
  [go_defs]: "raw op jt jf k = \<lparr>Op = op, Jt = jt, Jf = jf, K = k\<rparr>"

datatype Instruction =
    RawInst RawInstruction
  | LoadConstant Register u32
  | LoadScratch Register int
  | LoadAbsolute u32 int
  | LoadIndirect u32 int
  | LoadMemShift u32
  | LoadExtension Extension
  | StoreScratch Register int
  | ALUOpConstant ALUOp u32
  | ALUOpX ALUOp
  | NegateA
  | Jump u32
  | JumpIf JumpTest u32 u8 u8
  | RetA
  | RetConstant u32
  | TXA
  | TAX

datatype asm_error =
    InvalidScratchSlot int
  | InvalidSourceRegister Register
  | InvalidTargetRegister Register
  | InvalidLoadByteLength u16
  | UnknownJumpTest JumpTest

section \<open>Assemble\<close>

text \<open>
  The error of the last switch formats \<^verbatim>\<open>sz\<close>, the still unset opcode bits, and not the
  rejected \<^verbatim>\<open>loadSize\<close>; the model keeps that.
\<close>

definition assembleLoad :: "Register \<Rightarrow> int \<Rightarrow> u16 \<Rightarrow> u32 \<Rightarrow> asm_error + RawInstruction" where
  "assembleLoad dst loadSize mode k =
     res_bind (if dst = RegA then Inr opClsLoadA
               else if dst = RegX then Inr opClsLoadX
               else Inl (InvalidTargetRegister dst)) (\<lambda>cls.
     let sz = 0 in
     res_bind (if loadSize = 1 then Inr opLoadWidth1
               else if loadSize = 2 then Inr opLoadWidth2
               else if loadSize = 4 then Inr opLoadWidth4
               else Inl (InvalidLoadByteLength sz)) (\<lambda>sz.
     Inr (raw (cls OR sz OR mode) 0 0 k)))"

definition RawInstruction_Assemble :: "RawInstruction \<Rightarrow> asm_error + RawInstruction" where
  "RawInstruction_Assemble ri = Inr ri"

definition LoadConstant_Assemble :: "Register \<Rightarrow> u32 \<Rightarrow> asm_error + RawInstruction" where
  "LoadConstant_Assemble dst val = assembleLoad dst 4 opAddrModeImmediate val"

definition LoadScratch_Assemble :: "Register \<Rightarrow> int \<Rightarrow> asm_error + RawInstruction" where
  "LoadScratch_Assemble dst n =
     (if n < 0 \<or> n > 15 then Inl (InvalidScratchSlot n)
      else assembleLoad dst 4 opAddrModeScratch (word_of_int n))"

definition LoadAbsolute_Assemble :: "u32 \<Rightarrow> int \<Rightarrow> asm_error + RawInstruction" where
  "LoadAbsolute_Assemble off sz = assembleLoad RegA sz opAddrModeAbsolute off"

definition LoadIndirect_Assemble :: "u32 \<Rightarrow> int \<Rightarrow> asm_error + RawInstruction" where
  "LoadIndirect_Assemble off sz = assembleLoad RegA sz opAddrModeIndirect off"

definition LoadMemShift_Assemble :: "u32 \<Rightarrow> asm_error + RawInstruction" where
  "LoadMemShift_Assemble off = assembleLoad RegX 1 opAddrModeMemShift off"

definition LoadExtension_Assemble :: "Extension \<Rightarrow> asm_error + RawInstruction" where
  "LoadExtension_Assemble num =
     (if num = ExtLen then assembleLoad RegA 4 opAddrModePacketLen 0
      else assembleLoad RegA 4 opAddrModeAbsolute (word_of_int (extOffset + num)))"

definition StoreScratch_Assemble :: "Register \<Rightarrow> int \<Rightarrow> asm_error + RawInstruction" where
  "StoreScratch_Assemble src n =
     (if n < 0 \<or> n > 15 then Inl (InvalidScratchSlot n)
      else res_bind (if src = RegA then Inr opClsStoreA
                     else if src = RegX then Inr opClsStoreX
                     else Inl (InvalidSourceRegister src)) (\<lambda>op.
           Inr (raw op 0 0 (word_of_int n))))"

definition ALUOpConstant_Assemble :: "ALUOp \<Rightarrow> u32 \<Rightarrow> asm_error + RawInstruction" where
  "ALUOpConstant_Assemble op val = Inr (raw (opClsALU OR opALUSrcConstant OR op) 0 0 val)"

definition ALUOpX_Assemble :: "ALUOp \<Rightarrow> asm_error + RawInstruction" where
  "ALUOpX_Assemble op = Inr (raw (opClsALU OR opALUSrcX OR op) 0 0 0)"

definition NegateA_Assemble :: "asm_error + RawInstruction" where
  "NegateA_Assemble = Inr (raw (opClsALU OR aluOpNeg) 0 0 0)"

definition Jump_Assemble :: "u32 \<Rightarrow> asm_error + RawInstruction" where
  "Jump_Assemble skip = Inr (raw (opClsJump OR opJumpAlways) 0 0 skip)"

definition JumpIf_Assemble :: "JumpTest \<Rightarrow> u32 \<Rightarrow> u8 \<Rightarrow> u8 \<Rightarrow> asm_error + RawInstruction" where
  "JumpIf_Assemble cond val skipTrue skipFalse =
     res_bind (if cond = JumpEqual then Inr (opJumpEqual, False)
               else if cond = JumpNotEqual then Inr (opJumpEqual, True)
               else if cond = JumpGreaterThan then Inr (opJumpGT, False)
               else if cond = JumpLessThan then Inr (opJumpGE, True)
               else if cond = JumpGreaterOrEqual then Inr (opJumpGE, False)
               else if cond = JumpLessOrEqual then Inr (opJumpGT, True)
               else if cond = JumpBitsSet then Inr (opJumpSet, False)
               else if cond = JumpBitsNotSet then Inr (opJumpSet, True)
               else Inl (UnknownJumpTest cond)) (\<lambda>(c, flip).
     let (jt, jf) = (if flip then (skipFalse, skipTrue) else (skipTrue, skipFalse)) in
     Inr (raw (opClsJump OR c) jt jf val))"

definition RetA_Assemble :: "asm_error + RawInstruction" where
  "RetA_Assemble = Inr (raw (opClsReturn OR opRetSrcA) 0 0 0)"

definition RetConstant_Assemble :: "u32 \<Rightarrow> asm_error + RawInstruction" where
  "RetConstant_Assemble val = Inr (raw (opClsReturn OR opRetSrcConstant) 0 0 val)"

definition TXA_Assemble :: "asm_error + RawInstruction" where
  "TXA_Assemble = Inr (raw (opClsMisc OR opMiscTXA) 0 0 0)"

definition TAX_Assemble :: "asm_error + RawInstruction" where
  "TAX_Assemble = Inr (raw (opClsMisc OR opMiscTAX) 0 0 0)"

text \<open>The dynamic dispatch of the interface method.\<close>

fun Instruction_Assemble :: "Instruction \<Rightarrow> asm_error + RawInstruction" where
  "Instruction_Assemble (RawInst ri) = RawInstruction_Assemble ri"
| "Instruction_Assemble (LoadConstant d v) = LoadConstant_Assemble d v"
| "Instruction_Assemble (LoadScratch d n) = LoadScratch_Assemble d n"
| "Instruction_Assemble (LoadAbsolute off sz) = LoadAbsolute_Assemble off sz"
| "Instruction_Assemble (LoadIndirect off sz) = LoadIndirect_Assemble off sz"
| "Instruction_Assemble (LoadMemShift off) = LoadMemShift_Assemble off"
| "Instruction_Assemble (LoadExtension num) = LoadExtension_Assemble num"
| "Instruction_Assemble (StoreScratch s n) = StoreScratch_Assemble s n"
| "Instruction_Assemble (ALUOpConstant op v) = ALUOpConstant_Assemble op v"
| "Instruction_Assemble (ALUOpX op) = ALUOpX_Assemble op"
| "Instruction_Assemble NegateA = NegateA_Assemble"
| "Instruction_Assemble (Jump skip) = Jump_Assemble skip"
| "Instruction_Assemble (JumpIf c v t f) = JumpIf_Assemble c v t f"
| "Instruction_Assemble RetA = RetA_Assemble"
| "Instruction_Assemble (RetConstant v) = RetConstant_Assemble v"
| "Instruction_Assemble TXA = TXA_Assemble"
| "Instruction_Assemble TAX = TAX_Assemble"

lemmas assemble_defs =
  assembleLoad_def RawInstruction_Assemble_def LoadConstant_Assemble_def LoadScratch_Assemble_def
  LoadAbsolute_Assemble_def LoadIndirect_Assemble_def LoadMemShift_Assemble_def
  LoadExtension_Assemble_def StoreScratch_Assemble_def ALUOpConstant_Assemble_def
  ALUOpX_Assemble_def NegateA_Assemble_def Jump_Assemble_def JumpIf_Assemble_def
  RetA_Assemble_def RetConstant_Assemble_def TXA_Assemble_def TAX_Assemble_def

section \<open>Disassemble\<close>

text \<open>
  The switches of \<^verbatim>\<open>RawInstruction.Disassemble\<close>, one definition per instruction class.
  Returning \<open>RawInst ri\<close> is the source's \<^verbatim>\<open>return ri\<close>.  The class switch is exhaustive
  because the mask leaves three bits, so its panicking default is the last
  \<open>else\<close> branch below, which is unreachable (lemma \<open>op_class_cases\<close>).
\<close>

definition disassemble_load :: "RawInstruction \<Rightarrow> Instruction" where
  "disassemble_load ri =
     (let reg = Op ri AND opMaskLoadDest;
          width = Op ri AND opMaskLoadWidth;
          mode = Op ri AND opMaskLoadMode;
          by_size = (\<lambda>sz::int.
            if mode = opAddrModeImmediate then
              (if sz \<noteq> 4 then RawInst ri else LoadConstant reg (K ri))
            else if mode = opAddrModeScratch then
              (if sz \<noteq> 4 \<or> K ri > 15 then RawInst ri else LoadScratch reg (uint (K ri)))
            else if mode = opAddrModeAbsolute then
              (if uint (K ri) > extOffset + 0xffffffff
               then LoadExtension (uint (word_of_int (- extOffset) + K ri))
               else LoadAbsolute (K ri) sz)
            else if mode = opAddrModeIndirect then LoadIndirect (K ri) sz
            else if mode = opAddrModePacketLen then
              (if sz \<noteq> 4 then RawInst ri else LoadExtension ExtLen)
            else if mode = opAddrModeMemShift then LoadMemShift (K ri)
            else RawInst ri)
      in if width = opLoadWidth4 then by_size 4
         else if width = opLoadWidth2 then by_size 2
         else if width = opLoadWidth1 then by_size 1
         else RawInst ri)"

definition disassemble_store :: "u16 \<Rightarrow> Register \<Rightarrow> RawInstruction \<Rightarrow> Instruction" where
  "disassemble_store cls src ri =
     (if Op ri \<noteq> cls \<or> K ri > 15 then RawInst ri else StoreScratch src (uint (K ri)))"

definition disassemble_alu :: "RawInstruction \<Rightarrow> Instruction" where
  "disassemble_alu ri =
     (let op = Op ri AND opMaskOperator in
      if op \<in> set aluOps then
        (if Op ri AND opMaskOperandSrc \<noteq> 0 then ALUOpX op else ALUOpConstant op (K ri))
      else if op = aluOpNeg then NegateA
      else RawInst ri)"

definition disassemble_jump :: "RawInstruction \<Rightarrow> Instruction" where
  "disassemble_jump ri =
     (let cond = Op ri AND opMaskJumpCond in
      if Op ri AND opMaskJumpConst \<noteq> opClsJump then RawInst ri
      else if cond = opJumpAlways then Jump (K ri)
      else if cond = opJumpEqual then
        (if Jt ri = 0 then JumpIf JumpNotEqual (K ri) (Jf ri) 0
         else JumpIf JumpEqual (K ri) (Jt ri) (Jf ri))
      else if cond = opJumpGT then
        (if Jt ri = 0 then JumpIf JumpLessOrEqual (K ri) (Jf ri) 0
         else JumpIf JumpGreaterThan (K ri) (Jt ri) (Jf ri))
      else if cond = opJumpGE then
        (if Jt ri = 0 then JumpIf JumpLessThan (K ri) (Jf ri) 0
         else JumpIf JumpGreaterOrEqual (K ri) (Jt ri) (Jf ri))
      else if cond = opJumpSet then JumpIf JumpBitsSet (K ri) (Jt ri) (Jf ri)
      else RawInst ri)"

definition disassemble_return :: "RawInstruction \<Rightarrow> Instruction" where
  "disassemble_return ri =
     (if Op ri = opClsReturn OR opRetSrcA then RetA
      else if Op ri = opClsReturn OR opRetSrcConstant then RetConstant (K ri)
      else RawInst ri)"

definition disassemble_misc :: "RawInstruction \<Rightarrow> Instruction" where
  "disassemble_misc ri =
     (if Op ri = opClsMisc OR opMiscTAX then TAX
      else if Op ri = opClsMisc OR opMiscTXA then TXA
      else RawInst ri)"

definition RawInstruction_Disassemble :: "RawInstruction \<Rightarrow> Instruction option" where
  "RawInstruction_Disassemble ri =
     (let cls = Op ri AND opMaskCls in
      if cls = opClsLoadA \<or> cls = opClsLoadX then Some (disassemble_load ri)
      else if cls = opClsStoreA then Some (disassemble_store opClsStoreA RegA ri)
      else if cls = opClsStoreX then Some (disassemble_store opClsStoreX RegX ri)
      else if cls = opClsALU then Some (disassemble_alu ri)
      else if cls = opClsJump then Some (disassemble_jump ri)
      else if cls = opClsReturn then Some (disassemble_return ri)
      else if cls = opClsMisc then Some (disassemble_misc ri)
      else None)"

lemmas disassemble_defs =
  disassemble_load_def disassemble_store_def disassemble_alu_def disassemble_jump_def
  disassemble_return_def disassemble_misc_def

lemma op_class_cases:
  fixes w :: u16
  shows "w AND 7 \<in> {0, 1, 2, 3, 4, 5, 6, 7}"
proof -
  have "w AND 7 \<le> 7"
    by (rule word_and_le1)
  then have "unat (w AND 7) \<le> 7"
    by (simp add: word_le_nat_alt)
  then have "unat (w AND 7) \<in> {0, 1, 2, 3, 4, 5, 6, 7}"
    by auto
  then have "(of_nat (unat (w AND 7)) :: u16) \<in> of_nat ` {0, 1, 2, 3, 4, 5, 6, 7}"
    by (rule imageI)
  then show ?thesis
    by (simp only: of_nat_unat ucast_id image_insert image_empty
        semiring_1_class.of_nat_0 semiring_1_class.of_nat_1 of_nat_numeral)
qed

lemma Disassemble_total: "\<exists>i. RawInstruction_Disassemble ri = Some i"
  using op_class_cases [of "Op ri"]
  by (auto simp: RawInstruction_Disassemble_def go_defs)

text \<open>
  What the decoder returns for an encoded instruction.  Several instructions have one
  encoding; \<open>canonical\<close> picks the form the decoder chooses.  A test with no true-branch
  skip is decoded as the negated test, a bits-not-set test as the bits-set test with the
  skips exchanged, and an absolute load in the last 4096 offsets as an extension.
\<close>

fun canonical :: "Instruction \<Rightarrow> Instruction" where
  "canonical (JumpIf c v t f) =
     (if t = 0 \<and> c = JumpEqual then JumpIf JumpNotEqual v f 0
      else if t = 0 \<and> c = JumpGreaterThan then JumpIf JumpLessOrEqual v f 0
      else if t = 0 \<and> c = JumpGreaterOrEqual then JumpIf JumpLessThan v f 0
      else if f \<noteq> 0 \<and> c = JumpNotEqual then JumpIf JumpEqual v f t
      else if f \<noteq> 0 \<and> c = JumpLessOrEqual then JumpIf JumpGreaterThan v f t
      else if f \<noteq> 0 \<and> c = JumpLessThan then JumpIf JumpGreaterOrEqual v f t
      else if c = JumpBitsNotSet then JumpIf JumpBitsSet v f t
      else JumpIf c v t f)"
| "canonical (LoadAbsolute off sz) =
     (if uint off > extOffset + 0xffffffff then LoadExtension (uint (0x1000 + off))
      else LoadAbsolute off sz)"
| "canonical (RawInst ri) = (case RawInstruction_Disassemble ri of None \<Rightarrow> RawInst ri | Some i \<Rightarrow> i)"
| "canonical i = i"

text \<open>Operand values that have an encoding of their own: known operators, extension numbers
  below 4096.\<close>

fun encodable :: "Instruction \<Rightarrow> bool" where
  "encodable (ALUOpConstant op v) = (op \<in> set aluOps)"
| "encodable (ALUOpX op) = (op \<in> set aluOps)"
| "encodable (LoadExtension num) = (0 \<le> num \<and> num < 0x1000)"
| "encodable i = True"

end
