(* ===== verification/BPF_Format.thy ===== *)
theory BPF_Format
  imports BPF_Instructions
begin

text \<open>
  Package \<^verbatim>\<open>bpf\<close>, file \<^verbatim>\<open>instructions.go\<close>: the \<^verbatim>\<open>String\<close> methods, which print an
  instruction in assembler notation.  Raw instructions have no such method.  Values outside
  the declared constants are printed with \<^verbatim>\<open>%#v\<close>, Go syntax: unsigned fields in
  hexadecimal, signed ones in decimal.
\<close>

definition unknown :: "string \<Rightarrow> string \<Rightarrow> string" where
  "unknown name flds = ''unknown instruction: bpf.'' @ name @ ''{'' @ flds @ ''}''"

definition LoadConstant_String :: "Register \<Rightarrow> u32 \<Rightarrow> string" where
  "LoadConstant_String dst val =
     (if dst = RegA then ''ld #'' @ fmt_d (unat val)
      else if dst = RegX then ''ldx #'' @ fmt_d (unat val)
      else unknown ''LoadConstant''
        (''Dst:'' @ fmt_sharp_v (unat dst) @ '', Val:'' @ fmt_sharp_v (unat val)))"

definition LoadScratch_String :: "Register \<Rightarrow> int \<Rightarrow> string" where
  "LoadScratch_String dst n =
     (if dst = RegA then ''ld M['' @ fmt_di n @ '']''
      else if dst = RegX then ''ldx M['' @ fmt_di n @ '']''
      else unknown ''LoadScratch'' (''Dst:'' @ fmt_sharp_v (unat dst) @ '', N:'' @ fmt_di n))"

definition LoadExtension_String :: "Extension \<Rightarrow> string" where
  "LoadExtension_String num =
     (if num = ExtLen then ''ld #len''
      else if num = ExtProto then ''ld #proto''
      else if num = ExtType then ''ld #type''
      else if num = ExtPayloadOffset then ''ld #poff''
      else if num = ExtInterfaceIndex then ''ld #ifidx''
      else if num = ExtNetlinkAttr then ''ld #nla''
      else if num = ExtNetlinkAttrNested then ''ld #nlan''
      else if num = ExtMark then ''ld #mark''
      else if num = ExtQueue then ''ld #queue''
      else if num = ExtLinkLayerType then ''ld #hatype''
      else if num = ExtRXHash then ''ld #rxhash''
      else if num = ExtCPUID then ''ld #cpu''
      else if num = ExtVLANTag then ''ld #vlan_tci''
      else if num = ExtVLANTagPresent then ''ld #vlan_avail''
      else if num = ExtVLANProto then ''ld #vlan_tpid''
      else if num = ExtRand then ''ld #rand''
      else unknown ''LoadExtension'' (''Num:'' @ fmt_di num))"

definition LoadAbsolute_String :: "u32 \<Rightarrow> int \<Rightarrow> string" where
  "LoadAbsolute_String off sz =
     (if sz = 1 then ''ldb ['' @ fmt_d (unat off) @ '']''
      else if sz = 2 then ''ldh ['' @ fmt_d (unat off) @ '']''
      else if sz = 4 then
        (if uint off > extOffset + 0xffffffff then LoadExtension_String (uint (off + 0x1000))
         else ''ld ['' @ fmt_d (unat off) @ '']'')
      else unknown ''LoadAbsolute''
        (''Off:'' @ fmt_sharp_v (unat off) @ '', Size:'' @ fmt_di sz))"

definition LoadIndirect_String :: "u32 \<Rightarrow> int \<Rightarrow> string" where
  "LoadIndirect_String off sz =
     (if sz = 1 then ''ldb [x + '' @ fmt_d (unat off) @ '']''
      else if sz = 2 then ''ldh [x + '' @ fmt_d (unat off) @ '']''
      else if sz = 4 then ''ld [x + '' @ fmt_d (unat off) @ '']''
      else unknown ''LoadIndirect''
        (''Off:'' @ fmt_sharp_v (unat off) @ '', Size:'' @ fmt_di sz))"

definition LoadMemShift_String :: "u32 \<Rightarrow> string" where
  "LoadMemShift_String off = ''ldx 4*(['' @ fmt_d (unat off) @ '']&0xf)''"

definition StoreScratch_String :: "Register \<Rightarrow> int \<Rightarrow> string" where
  "StoreScratch_String src n =
     (if src = RegA then ''st M['' @ fmt_di n @ '']''
      else if src = RegX then ''stx M['' @ fmt_di n @ '']''
      else unknown ''StoreScratch'' (''Src:'' @ fmt_sharp_v (unat src) @ '', N:'' @ fmt_di n))"

definition ALUOpConstant_String :: "ALUOp \<Rightarrow> u32 \<Rightarrow> string" where
  "ALUOpConstant_String op val =
     (if op = ALUOpAdd then ''add #'' @ fmt_d (unat val)
      else if op = ALUOpSub then ''sub #'' @ fmt_d (unat val)
      else if op = ALUOpMul then ''mul #'' @ fmt_d (unat val)
      else if op = ALUOpDiv then ''div #'' @ fmt_d (unat val)
      else if op = ALUOpMod then ''mod #'' @ fmt_d (unat val)
      else if op = ALUOpAnd then ''and #'' @ fmt_d (unat val)
      else if op = ALUOpOr then ''or #'' @ fmt_d (unat val)
      else if op = ALUOpXor then ''xor #'' @ fmt_d (unat val)
      else if op = ALUOpShiftLeft then ''lsh #'' @ fmt_d (unat val)
      else if op = ALUOpShiftRight then ''rsh #'' @ fmt_d (unat val)
      else unknown ''ALUOpConstant''
        (''Op:'' @ fmt_sharp_v (unat op) @ '', Val:'' @ fmt_sharp_v (unat val)))"

definition ALUOpX_String :: "ALUOp \<Rightarrow> string" where
  "ALUOpX_String op =
     (if op = ALUOpAdd then ''add x''
      else if op = ALUOpSub then ''sub x''
      else if op = ALUOpMul then ''mul x''
      else if op = ALUOpDiv then ''div x''
      else if op = ALUOpMod then ''mod x''
      else if op = ALUOpAnd then ''and x''
      else if op = ALUOpOr then ''or x''
      else if op = ALUOpXor then ''xor x''
      else if op = ALUOpShiftLeft then ''lsh x''
      else if op = ALUOpShiftRight then ''rsh x''
      else unknown ''ALUOpX'' (''Op:'' @ fmt_sharp_v (unat op)))"

definition NegateA_String :: string where
  "NegateA_String = ''neg''"

definition Jump_String :: "u32 \<Rightarrow> string" where
  "Jump_String skip = ''ja '' @ fmt_d (unat skip)"

definition conditionalJump :: "u32 \<Rightarrow> u8 \<Rightarrow> u8 \<Rightarrow> string \<Rightarrow> string \<Rightarrow> string" where
  "conditionalJump val skipTrue skipFalse positiveJump negativeJump =
     (if skipTrue > 0 then
        (if skipFalse > 0 then
           positiveJump @ '' #'' @ fmt_d (unat val) @ '','' @ fmt_d (unat skipTrue) @ '','' @
             fmt_d (unat skipFalse)
         else positiveJump @ '' #'' @ fmt_d (unat val) @ '','' @ fmt_d (unat skipTrue))
      else negativeJump @ '' #'' @ fmt_d (unat val) @ '','' @ fmt_d (unat skipFalse))"

definition jset_String :: "u32 \<Rightarrow> u8 \<Rightarrow> u8 \<Rightarrow> string" where
  "jset_String val skipTrue skipFalse =
     (if skipFalse > 0 then
        ''jset #'' @ fmt_d (unat val) @ '','' @ fmt_d (unat skipTrue) @ '','' @ fmt_d (unat skipFalse)
      else ''jset #'' @ fmt_d (unat val) @ '','' @ fmt_d (unat skipTrue))"

definition JumpIf_String :: "JumpTest \<Rightarrow> u32 \<Rightarrow> u8 \<Rightarrow> u8 \<Rightarrow> string" where
  "JumpIf_String cond val skipTrue skipFalse =
     (if cond = JumpEqual then conditionalJump val skipTrue skipFalse ''jeq'' ''jneq''
      else if cond = JumpNotEqual then ''jneq #'' @ fmt_d (unat val) @ '','' @ fmt_d (unat skipTrue)
      else if cond = JumpGreaterThan then conditionalJump val skipTrue skipFalse ''jgt'' ''jle''
      else if cond = JumpLessThan then ''jlt #'' @ fmt_d (unat val) @ '','' @ fmt_d (unat skipTrue)
      else if cond = JumpGreaterOrEqual then conditionalJump val skipTrue skipFalse ''jge'' ''jlt''
      else if cond = JumpLessOrEqual then ''jle #'' @ fmt_d (unat val) @ '','' @ fmt_d (unat skipTrue)
      else if cond = JumpBitsSet then jset_String val skipTrue skipFalse
      else if cond = JumpBitsNotSet then jset_String val skipFalse skipTrue
      else unknown ''JumpIf''
        (''Cond:'' @ fmt_sharp_v (unat cond) @ '', Val:'' @ fmt_sharp_v (unat val) @
         '', SkipTrue:'' @ fmt_sharp_v (unat skipTrue) @
         '', SkipFalse:'' @ fmt_sharp_v (unat skipFalse)))"

definition RetA_String :: string where
  "RetA_String = ''ret a''"

definition RetConstant_String :: "u32 \<Rightarrow> string" where
  "RetConstant_String val = ''ret #'' @ fmt_d (unat val)"

definition TXA_String :: string where
  "TXA_String = ''txa''"

definition TAX_String :: string where
  "TAX_String = ''tax''"

fun Instruction_String :: "Instruction \<Rightarrow> string option" where
  "Instruction_String (RawInst ri) = None"
| "Instruction_String (LoadConstant d v) = Some (LoadConstant_String d v)"
| "Instruction_String (LoadScratch d n) = Some (LoadScratch_String d n)"
| "Instruction_String (LoadAbsolute off sz) = Some (LoadAbsolute_String off sz)"
| "Instruction_String (LoadIndirect off sz) = Some (LoadIndirect_String off sz)"
| "Instruction_String (LoadMemShift off) = Some (LoadMemShift_String off)"
| "Instruction_String (LoadExtension num) = Some (LoadExtension_String num)"
| "Instruction_String (StoreScratch s n) = Some (StoreScratch_String s n)"
| "Instruction_String (ALUOpConstant op v) = Some (ALUOpConstant_String op v)"
| "Instruction_String (ALUOpX op) = Some (ALUOpX_String op)"
| "Instruction_String NegateA = Some NegateA_String"
| "Instruction_String (Jump skip) = Some (Jump_String skip)"
| "Instruction_String (JumpIf c v t f) = Some (JumpIf_String c v t f)"
| "Instruction_String RetA = Some RetA_String"
| "Instruction_String (RetConstant v) = Some (RetConstant_String v)"
| "Instruction_String TXA = Some TXA_String"
| "Instruction_String TAX = Some TAX_String"

section \<open>Properties\<close>

text \<open>The negated tests print only their true-branch skip, so they are printed in full
  exactly when the false-branch skip is zero.\<close>

fun prints_in_full :: "Instruction \<Rightarrow> bool" where
  "prints_in_full (RawInst ri) = False"
| "prints_in_full (LoadAbsolute off sz) = (sz = 4 \<or> uint off \<le> extOffset + 0xffffffff)"
| "prints_in_full (JumpIf c v t f) =
     (c \<in> {JumpNotEqual, JumpLessThan, JumpLessOrEqual} \<longrightarrow> f = 0)"
| "prints_in_full i = True"

text \<open>
  The assembler notation of an instruction is that of its canonical form: what is
  printed before assembling and what is printed after disassembling the result agree,
  for every instruction that prints in full.
\<close>

lemma string_canonical:
  assumes "prints_in_full i"
  shows "Instruction_String (canonical i) = Instruction_String i"
proof (cases i)
  case (JumpIf c v t f)
  have pos: "0 < w \<longleftrightarrow> w \<noteq> 0" for w :: u8
    by (simp add: word_greater_zero_iff)
  with JumpIf assms show ?thesis
    by (auto simp: JumpIf_String_def conditionalJump_def jset_String_def go_defs)
qed (use assms in \<open>auto simp: LoadAbsolute_String_def extOffset_def add.commute\<close>)

text \<open>
  A negated test with a false-branch skip prints without it: the notation of
  not-equal, less-than and less-or-equal jumps does not depend on the false-branch skip,
  although the encoding does.
\<close>

lemma negated_jump_string_drops_skip:
  "\<forall>c\<in>{JumpNotEqual, JumpLessThan, JumpLessOrEqual}.
     Instruction_String (JumpIf c v t f) = Instruction_String (JumpIf c v t f') \<and>
     (f \<noteq> f' \<longrightarrow> Instruction_Assemble (JumpIf c v t f) \<noteq> Instruction_Assemble (JumpIf c v t f'))"
  by (auto simp: JumpIf_String_def go_defs assemble_defs)

end
