(* ===== verification/BPF_Asm.thy ===== *)
theory BPF_Asm
  imports BPF_Instructions
begin

text \<open>
  Package \<^verbatim>\<open>bpf\<close>, file \<^verbatim>\<open>asm.go\<close>: assembling and disassembling whole programs.  The
  two loops only use the \<^verbatim>\<open>Instruction\<close> interface, so their lemmas are proved in a locale
  that states what the interface promises, and the locale is interpreted on the package's
  own instruction types.
\<close>

section \<open>The two loops\<close>

datatype prog_error = AssemblingInstruction nat asm_error

text \<open>The loop body of \<^verbatim>\<open>Assemble\<close>: \<open>i\<close> is the index of the next instruction.\<close>

fun assemble_from :: "('i \<Rightarrow> asm_error + 'r) \<Rightarrow> nat \<Rightarrow> 'i list \<Rightarrow> prog_error + 'r list" where
  "assemble_from enc i [] = Inr []"
| "assemble_from enc i (inst # insts) =
     (case enc inst of
        Inl err \<Rightarrow> Inl (AssemblingInstruction (i + 1) err)
      | Inr r \<Rightarrow> res_bind (assemble_from enc (i + 1) insts) (\<lambda>rs. Inr (r # rs)))"

definition Assemble :: "Instruction list \<Rightarrow> prog_error + RawInstruction list" where
  "Assemble insts = assemble_from Instruction_Assemble 0 insts"

fun is_raw :: "Instruction \<Rightarrow> bool" where
  "is_raw (RawInst ri) = True"
| "is_raw _ = False"

text \<open>The result is \<open>None\<close> where the code would panic.\<close>

fun disassemble_from ::
  "('r \<Rightarrow> 'i option) \<Rightarrow> ('i \<Rightarrow> bool) \<Rightarrow> bool \<Rightarrow> 'r list \<Rightarrow> ('i list \<times> bool) option" where
  "disassemble_from dec israw allDecoded [] = Some ([], allDecoded)"
| "disassemble_from dec israw allDecoded (r # rs) =
     (case dec r of
        None \<Rightarrow> None
      | Some i \<Rightarrow>
          (case disassemble_from dec israw (if israw i then False else allDecoded) rs of
             None \<Rightarrow> None
           | Some (insts, all) \<Rightarrow> Some (i # insts, all)))"

definition Disassemble :: "RawInstruction list \<Rightarrow> (Instruction list \<times> bool) option" where
  "Disassemble rs = disassemble_from RawInstruction_Disassemble is_raw True rs"

section \<open>What the loops rely on\<close>

locale instruction_codec =
  fixes enc :: "'i \<Rightarrow> asm_error + 'r"
    and dec :: "'r \<Rightarrow> 'i option"
    and israw :: "'i \<Rightarrow> bool"
    and norm :: "'i \<Rightarrow> 'i"
    and wf :: "'i \<Rightarrow> bool"
  assumes dec_enc: "wf i \<Longrightarrow> enc i = Inr r \<Longrightarrow> dec r = Some (norm i)"
    and enc_dec: "dec r = Some i \<Longrightarrow> \<exists>r'. enc i = Inr r' \<and> dec r' = Some i"
    and dec_total: "\<exists>i. dec r = Some i"
begin

lemma assemble_Inr_iff:
  "assemble_from enc k is = Inr rs \<longleftrightarrow> list_all2 (\<lambda>i r. enc i = Inr r) is rs"
  by (induction "is" arbitrary: k rs)
    (auto simp: list_all2_Cons1 split: sum.splits)

lemma assemble_error:
  "assemble_from enc k is = Inl e \<longleftrightarrow>
     (\<exists>n err. n < length is \<and> enc (is ! n) = Inl err \<and> e = AssemblingInstruction (k + n + 1) err \<and>
        (\<forall>m<n. is_ok (enc (is ! m))))"
proof (induction "is" arbitrary: k)
  case Nil
  then show ?case by simp
next
  case (Cons i "is")
  show ?case
    using Cons.IH [of "Suc k"]
    by (subst ex_nat_split) (cases "enc i", auto simp: res_bind_def All_less_Suc2 split: sum.splits)
qed

lemma assemble_is_ok: "is_ok (assemble_from enc k is) \<longleftrightarrow> list_all (\<lambda>i. is_ok (enc i)) is"
  by (induction "is" arbitrary: k) (auto simp: is_ok_res_bind is_ok_iff split: sum.split)

lemma disassemble_eq:
  "disassemble_from dec israw b rs =
     Some (map (\<lambda>r. the (dec r)) rs, b \<and> (\<forall>r\<in>set rs. \<not> israw (the (dec r))))"
proof (induction rs arbitrary: b)
  case Nil
  then show ?case by simp
next
  case (Cons r rs)
  obtain i where "dec r = Some i"
    using dec_total by blast
  with Cons show ?case by auto
qed

lemma disassemble_assemble:
  assumes "list_all wf is" "assemble_from enc k is = Inr rs"
  shows "map (\<lambda>r. the (dec r)) rs = map norm is"
proof -
  from assms(2) have "list_all2 (\<lambda>i r. enc i = Inr r) is rs"
    by (simp add: assemble_Inr_iff)
  then show ?thesis
    using assms(1) by (induction rule: list_all2_induct) (auto dest: dec_enc)
qed

lemma reassemble:
  "\<exists>rs'. assemble_from enc k (map (\<lambda>r. the (dec r)) rs) = Inr rs' \<and>
     map (\<lambda>r. the (dec r)) rs' = map (\<lambda>r. the (dec r)) rs"
proof (induction rs arbitrary: k)
  case Nil
  then show ?case by simp
next
  case (Cons r rs)
  obtain i where i: "dec r = Some i"
    using dec_total by blast
  obtain r' where r': "enc i = Inr r'" "dec r' = Some i"
    using enc_dec [OF i] by blast
  obtain rs' where "assemble_from enc (Suc k) (map (\<lambda>r. the (dec r)) rs) = Inr rs'"
      "map (\<lambda>r. the (dec r)) rs' = map (\<lambda>r. the (dec r)) rs"
    using Cons.IH by blast
  with i r' show ?case
    by (intro exI [of _ "r' # rs'"]) simp
qed

end

section \<open>The package's instructions provide the interface\<close>

lemma uint_scratch_slot:
  "0 \<le> n \<Longrightarrow> n \<le> 15 \<Longrightarrow> uint (word_of_int n :: u32) = n"
  "0 \<le> n \<Longrightarrow> n \<le> 15 \<Longrightarrow> \<not> 15 < (word_of_int n :: u32)"
  by (auto simp: word_less_def uint_word_of_int)

lemma uint_extension_operand:
  assumes "0 \<le> num" "num < 0x1000"
  shows "uint (word_of_int (num - 0x1000) :: u32) = 0xfffff000 + num"
    and "uint (0x1000 + (word_of_int (num - 0x1000) :: u32)) = num"
proof -
  have "(num - 0x1000) mod 0x100000000 = ((num - 0x1000) + 0x100000000) mod 0x100000000"
    by (rule mod_add_self2 [symmetric])
  also have "\<dots> = 0xfffff000 + num"
    using assms by simp
  finally have m: "(num - 0x1000) mod 0x100000000 = 0xfffff000 + num" .
  then show "uint (word_of_int (num - 0x1000) :: u32) = 0xfffff000 + num"
    by (simp add: uint_word_of_int del: of_int_diff)
  have "0x1000 + (word_of_int (num - 0x1000) :: u32) = word_of_int num"
    by simp
  then show "uint (0x1000 + (word_of_int (num - 0x1000) :: u32)) = num"
    using assms by (simp add: uint_word_of_int)
qed

lemma Disassemble_Assemble:
  assumes "encodable i" "Instruction_Assemble i = Inr r"
  shows "RawInstruction_Disassemble r = Some (canonical i)"
proof (cases i)
  case (RawInst ri)
  with assms Disassemble_total [of ri] show ?thesis
    by (auto simp: assemble_defs)
next
  case (LoadExtension num)
  with assms(1) have "uint (word_of_int (num - 0x1000) :: u32) = 0xfffff000 + num"
      "uint (0x1000 + (word_of_int (num - 0x1000) :: u32)) = num" "0 \<le> num"
    using uint_extension_operand [of num] by simp_all
  with LoadExtension assms(2) show ?thesis
    by (cases "num = 1")
      (auto simp: assemble_defs go_defs RawInstruction_Disassemble_def disassemble_defs)
qed (use assms in \<open>auto simp: assemble_defs go_defs RawInstruction_Disassemble_def disassemble_defs
      set_aluOps uint_scratch_slot split: if_splits\<close>)

text \<open>
  Conversely, whatever the decoder returns is either the raw instruction itself or an
  instruction in canonical form that can be encoded.
\<close>

definition decoded_ok :: "RawInstruction \<Rightarrow> Instruction \<Rightarrow> bool" where
  "decoded_ok ri i \<longleftrightarrow>
     i = RawInst ri \<or> (\<not> is_raw i \<and> encodable i \<and> canonical i = i \<and> is_ok (Instruction_Assemble i))"

lemma and_1_cases: "(w::u16) AND 1 = 0 \<or> w AND 1 = 1"
  by (simp add: and_one_eq mod2_eq_if)

lemma extension_number_bound:
  assumes "(0xffffefff :: int) < uint (k :: u32)"
  shows "uint (0x1000 + k) < 0x1000"
proof -
  have "uint (0x1000 + k) = (0x1000 + uint k) mod 0x100000000"
    by (simp add: uint_word_ariths)
  also have "\<dots> = (0x1000 + uint k - 0x100000000) mod 0x100000000"
    by (rule minus_mod_self2 [symmetric])
  also have "\<dots> = uint k - 0xfffff000"
    using assms uint_lt2p [of k] by simp
  finally show ?thesis
    using uint_lt2p [of k] by simp
qed

lemma decoded_load: "decoded_ok ri (disassemble_load ri)"
  using and_1_cases [of "Op ri"]
  by (auto simp: disassemble_load_def decoded_ok_def go_defs assemble_defs Let_def
      extension_number_bound word_less_def)

lemma decoded_rest:
  "decoded_ok ri (disassemble_store opClsStoreA RegA ri)"
  "decoded_ok ri (disassemble_store opClsStoreX RegX ri)"
  "decoded_ok ri (disassemble_alu ri)"
  "decoded_ok ri (disassemble_jump ri)"
  "decoded_ok ri (disassemble_return ri)"
  "decoded_ok ri (disassemble_misc ri)"
  by (auto simp: disassemble_defs decoded_ok_def go_defs assemble_defs Let_def word_less_def)

lemma decoded: "RawInstruction_Disassemble ri = Some i \<Longrightarrow> decoded_ok ri i"
  by (auto simp: RawInstruction_Disassemble_def Let_def decoded_load decoded_rest split: if_splits)

interpretation bpf_codec:
  instruction_codec Instruction_Assemble RawInstruction_Disassemble is_raw canonical encodable
proof unfold_locales
  fix i r
  assume "encodable i" "Instruction_Assemble i = Inr r"
  then show "RawInstruction_Disassemble r = Some (canonical i)"
    by (rule Disassemble_Assemble)
next
  fix r i
  assume dec: "RawInstruction_Disassemble r = Some i"
  show "\<exists>r'. Instruction_Assemble i = Inr r' \<and> RawInstruction_Disassemble r' = Some i"
  proof (cases "i = RawInst r")
    case True
    with dec show ?thesis by (simp add: RawInstruction_Assemble_def)
  next
    case False
    with decoded [OF dec] have "encodable i" "canonical i = i" "is_ok (Instruction_Assemble i)"
      by (simp_all add: decoded_ok_def)
    then show ?thesis
      using Disassemble_Assemble [of i] by (auto simp: is_ok_iff)
  qed
next
  fix r
  show "\<exists>i. RawInstruction_Disassemble r = Some i"
    by (rule Disassemble_total)
qed

lemma is_raw_canonical_iff: "\<not> is_raw i \<Longrightarrow> \<not> is_raw (canonical i)"
  by (cases i) auto

section \<open>Properties of whole programs\<close>

text \<open>
  C29: Decoding a program assembled from encodable instructions (known ALU operations and
  extension numbers below 4096) gives the canonical form of every instruction and
  reports \<^verbatim>\<open>allDecoded\<close> exactly when no undecodable raw instruction was in the input.
\<close>

theorem program_roundtrip:
  assumes "list_all encodable insts" "Assemble insts = Inr rs"
  shows "Disassemble rs =
    Some (map canonical insts, \<forall>i\<in>set insts. \<not> is_raw (canonical i))"
proof -
  have eq: "map (\<lambda>r. the (RawInstruction_Disassemble r)) rs = map canonical insts"
    using bpf_codec.disassemble_assemble assms by (auto simp: Assemble_def)
  have "(\<forall>r\<in>set rs. \<not> is_raw (the (RawInstruction_Disassemble r))) \<longleftrightarrow>
      list_all (\<lambda>i. \<not> is_raw i) (map (\<lambda>r. the (RawInstruction_Disassemble r)) rs)"
    by (simp add: list_all_iff)
  with eq show ?thesis
    by (simp add: Disassemble_def bpf_codec.disassemble_eq list_all_iff)
qed

theorem program_roundtrip_witness:
  "list_all encodable [LoadAbsolute 12 2, JumpIf JumpNotEqual 0x800 0 1, RetConstant 4096, RetConstant 0] \<and>
   (\<exists>rs. Assemble [LoadAbsolute 12 2, JumpIf JumpNotEqual 0x800 0 1, RetConstant 4096, RetConstant 0] = Inr rs \<and>
      Disassemble rs =
        Some ([LoadAbsolute 12 2, JumpIf JumpEqual 0x800 1 0, RetConstant 4096, RetConstant 0], True))"
proof -
  let ?p = "[LoadAbsolute 12 2, JumpIf JumpNotEqual 0x800 0 1, RetConstant 4096, RetConstant 0]"
  have wf: "list_all encodable ?p" by simp
  obtain rs where rs: "Assemble ?p = Inr rs"
    by (simp add: Assemble_def assemble_defs go_defs)
  from program_roundtrip [OF wf rs] wf rs show ?thesis
    by (auto simp: go_defs)
qed

text \<open>
  Disassembling never panics, what it returns can always be assembled again, and the
  result disassembles to the same program: decoding is idempotent up to encoding.
\<close>

lemma program_reassemble:
  "\<exists>insts b rs'. Disassemble rs = Some (insts, b) \<and> Assemble insts = Inr rs' \<and>
     Disassemble rs' = Some (insts, b)"
proof -
  let ?d = "\<lambda>r. the (RawInstruction_Disassemble r)"
  obtain rs' where rs': "Assemble (map ?d rs) = Inr rs'" "map ?d rs' = map ?d rs"
    using bpf_codec.reassemble [of 0 rs] by (auto simp: Assemble_def)
  have all: "(\<forall>r\<in>set xs. \<not> is_raw (?d r)) \<longleftrightarrow> list_all (\<lambda>i. \<not> is_raw i) (map ?d xs)" for xs
    by (simp add: list_all_iff)
  show ?thesis
    unfolding Disassemble_def bpf_codec.disassemble_eq all
    using rs' by auto
qed

text \<open>
  Assembling stops at the first instruction that has no encoding and reports its
  one-based position and its error; it succeeds when every instruction has an encoding.
\<close>

lemma assemble_first_error:
  "Assemble insts = Inl e \<longleftrightarrow>
     (\<exists>n err. n < length insts \<and> Instruction_Assemble (insts ! n) = Inl err \<and>
        e = AssemblingInstruction (n + 1) err \<and>
        list_all (\<lambda>i. is_ok (Instruction_Assemble i)) (take n insts))"
  by (auto simp: Assemble_def bpf_codec.assemble_error list_all_length)

end
