(* ===== verification/BPF_VM.thy ===== *)
theory BPF_VM
  imports BPF_Asm
begin

text \<open>
  Package \<^verbatim>\<open>bpf\<close>, files \<^verbatim>\<open>vm.go\<close> and \<^verbatim>\<open>vm_instructions.go\<close>: the validator
  \<^verbatim>\<open>NewVM\<close> and the interpreter \<^verbatim>\<open>VM.Run\<close>.  A run-time panic of Go is a value of
  \<open>vm_panic\<close>.  The interpreter's loop is a total function, because the program counter
  only grows; the same loop body also gives a step relation, for the invariant.
\<close>

section \<open>Instruction helpers\<close>

datatype vm_panic =
    IndexOutOfRange
  | IntegerDivideByZero
  | InvalidLoadSize int
  | UnimplementedExtension Extension

text \<open>Indexing a slice or array panics outside its length.\<close>

definition index_of :: "'a list \<Rightarrow> int \<Rightarrow> vm_panic + 'a" where
  "index_of xs i = (if 0 \<le> i \<and> i < int (length xs) then Inr (xs ! nat i) else Inl IndexOutOfRange)"

definition aluOpCommon :: "ALUOp \<Rightarrow> u32 \<Rightarrow> u32 \<Rightarrow> vm_panic + u32" where
  "aluOpCommon op a v =
     (if op = ALUOpAdd then Inr (a + v)
      else if op = ALUOpSub then Inr (a - v)
      else if op = ALUOpMul then Inr (a * v)
      else if op = ALUOpDiv then (if v = 0 then Inl IntegerDivideByZero else Inr (a div v))
      else if op = ALUOpOr then Inr (a OR v)
      else if op = ALUOpAnd then Inr (a AND v)
      else if op = ALUOpShiftLeft then Inr (push_bit (unat v) a)
      else if op = ALUOpShiftRight then Inr (drop_bit (unat v) a)
      else if op = ALUOpMod then (if v = 0 then Inl IntegerDivideByZero else Inr (a mod v))
      else if op = ALUOpXor then Inr (a XOR v)
      else Inr a)"

definition aluOpConstant :: "ALUOp \<Rightarrow> u32 \<Rightarrow> u32 \<Rightarrow> vm_panic + u32" where
  "aluOpConstant op val a = aluOpCommon op a val"

definition aluOpX :: "ALUOp \<Rightarrow> u32 \<Rightarrow> u32 \<Rightarrow> vm_panic + (u32 \<times> bool)" where
  "aluOpX op a x =
     (if x = 0 \<and> (op = ALUOpDiv \<or> op = ALUOpMod) then Inr (0, False)
      else res_bind (aluOpCommon op a x) (\<lambda>r. Inr (r, True)))"

definition jump_test :: "JumpTest \<Rightarrow> u32 \<Rightarrow> u32 \<Rightarrow> bool" where
  "jump_test cond inV value =
     (if cond = JumpEqual then value = inV
      else if cond = JumpNotEqual then value \<noteq> inV
      else if cond = JumpGreaterThan then value > inV
      else if cond = JumpLessThan then value < inV
      else if cond = JumpGreaterOrEqual then value \<ge> inV
      else if cond = JumpLessOrEqual then value \<le> inV
      else if cond = JumpBitsSet then value AND inV \<noteq> 0
      else if cond = JumpBitsNotSet then value AND inV = 0
      else False)"

definition jumpIf :: "JumpTest \<Rightarrow> u32 \<Rightarrow> u8 \<Rightarrow> u8 \<Rightarrow> u32 \<Rightarrow> nat" where
  "jumpIf cond val skipTrue skipFalse value =
     (if jump_test cond val value then unat skipTrue else unat skipFalse)"

definition inBounds :: "int \<Rightarrow> int \<Rightarrow> int \<Rightarrow> bool" where
  "inBounds inLen offset sz \<longleftrightarrow> offset + sz \<le> inLen"

definition loadCommon :: "bytes \<Rightarrow> int \<Rightarrow> int \<Rightarrow> vm_panic + (u32 \<times> bool)" where
  "loadCommon inp offset sz =
     (if \<not> inBounds (int (length inp)) offset sz then Inr (0, False)
      else if sz = 1 then res_bind (index_of inp offset) (\<lambda>b. Inr (ucast b, True))
      else if sz = 2 then
        res_bind (index_of inp offset) (\<lambda>b0. res_bind (index_of inp (offset + 1)) (\<lambda>b1.
        Inr (ucast (be_uint16 b0 b1), True)))
      else if sz = 4 then
        res_bind (index_of inp offset) (\<lambda>b0. res_bind (index_of inp (offset + 1)) (\<lambda>b1.
        res_bind (index_of inp (offset + 2)) (\<lambda>b2. res_bind (index_of inp (offset + 3)) (\<lambda>b3.
        Inr (be_uint32 b0 b1 b2 b3, True)))))
      else Inl (InvalidLoadSize sz))"

definition loadAbsolute :: "u32 \<Rightarrow> int \<Rightarrow> bytes \<Rightarrow> vm_panic + (u32 \<times> bool)" where
  "loadAbsolute off sz inp = loadCommon inp (uint off) sz"

definition loadConstant :: "Register \<Rightarrow> u32 \<Rightarrow> u32 \<Rightarrow> u32 \<Rightarrow> u32 \<times> u32" where
  "loadConstant dst val a x =
     (if dst = RegA then (val, x) else if dst = RegX then (a, val) else (a, x))"

definition loadExtension :: "Extension \<Rightarrow> bytes \<Rightarrow> vm_panic + u32" where
  "loadExtension num inp =
     (if num = ExtLen then Inr (of_nat (length inp)) else Inl (UnimplementedExtension num))"

definition loadIndirect :: "u32 \<Rightarrow> int \<Rightarrow> bytes \<Rightarrow> u32 \<Rightarrow> vm_panic + (u32 \<times> bool)" where
  "loadIndirect off sz inp x = loadCommon inp (uint off + uint x) sz"

definition loadMemShift :: "u32 \<Rightarrow> bytes \<Rightarrow> vm_panic + (u32 \<times> bool)" where
  "loadMemShift off inp =
     (if \<not> inBounds (int (length inp)) (uint off) 0 then Inr (0, False)
      else res_bind (index_of inp (uint off)) (\<lambda>b. Inr (ucast (b AND 0x0f) * 4, True)))"

definition loadScratch ::
  "Register \<Rightarrow> int \<Rightarrow> u32 list \<Rightarrow> u32 \<Rightarrow> u32 \<Rightarrow> vm_panic + (u32 \<times> u32)" where
  "loadScratch dst n scratch a x =
     (if dst = RegA then res_bind (index_of scratch n) (\<lambda>v. Inr (v, x))
      else if dst = RegX then res_bind (index_of scratch n) (\<lambda>v. Inr (a, v))
      else Inr (a, x))"

definition storeScratch ::
  "Register \<Rightarrow> int \<Rightarrow> u32 list \<Rightarrow> u32 \<Rightarrow> u32 \<Rightarrow> vm_panic + u32 list" where
  "storeScratch src n scratch a x =
     (if src = RegA then res_bind (index_of scratch n) (\<lambda>_. Inr (scratch[nat n := a]))
      else if src = RegX then res_bind (index_of scratch n) (\<lambda>_. Inr (scratch[nat n := x]))
      else Inr scratch)"

section \<open>NewVM\<close>

datatype newvm_error =
    EmptyProgram
  | JumpPastBounds u32
  | JumpTruePastBounds u8
  | JumpFalsePastBounds u8
  | DivideByZeroConstant
  | ExtensionNotImplemented Extension
  | MustEndWithReturn
  | NotAssemblable prog_error

record VM =
  vm_filter :: "Instruction list"

text \<open>One iteration of the validation loop; \<open>check\<close> is the number of instructions after
  this one.\<close>

fun check_instruction :: "nat \<Rightarrow> Instruction \<Rightarrow> newvm_error option" where
  "check_instruction check (Jump skip) =
     (if check \<le> unat skip then Some (JumpPastBounds skip) else None)"
| "check_instruction check (JumpIf c v skipTrue skipFalse) =
     (if check \<le> unat skipTrue then Some (JumpTruePastBounds skipTrue)
      else if check \<le> unat skipFalse then Some (JumpFalsePastBounds skipFalse)
      else None)"
| "check_instruction check (ALUOpConstant op v) =
     (if v \<noteq> 0 then None
      else if op = ALUOpDiv \<or> op = ALUOpMod then Some DivideByZeroConstant
      else None)"
| "check_instruction check (LoadExtension num) =
     (if num = ExtLen then None else Some (ExtensionNotImplemented num))"
| "check_instruction check _ = None"

fun check_program :: "Instruction list \<Rightarrow> newvm_error option" where
  "check_program [] = None"
| "check_program (ins # rest) =
     (case check_instruction (length rest) ins of
        Some e \<Rightarrow> Some e
      | None \<Rightarrow> check_program rest)"

fun is_return :: "Instruction \<Rightarrow> bool" where
  "is_return RetA = True"
| "is_return (RetConstant v) = True"
| "is_return _ = False"

text \<open>The two results of \<^verbatim>\<open>NewVM\<close>: when only the assembly check fails, a VM and an error
  are returned together.\<close>

definition NewVM :: "Instruction list \<Rightarrow> VM option \<times> newvm_error option" where
  "NewVM prog =
     (if prog = [] then (None, Some EmptyProgram)
      else case check_program prog of
        Some e \<Rightarrow> (None, Some e)
      | None \<Rightarrow>
          if \<not> is_return (last prog) then (None, Some MustEndWithReturn)
          else (Some \<lparr>vm_filter = prog\<rparr>,
                case Assemble prog of Inl e \<Rightarrow> Some (NotAssemblable e) | Inr _ \<Rightarrow> None))"

definition accepted :: "Instruction list \<Rightarrow> bool" where
  "accepted prog \<longleftrightarrow> NewVM prog = (Some \<lparr>vm_filter = prog\<rparr>, None)"

section \<open>Run\<close>

record vm_state =
  regA :: u32
  regX :: u32
  regScratch :: "u32 list"
  pc :: nat
  ok :: bool

datatype vm_result =
    Returned int
  | UnknownInstruction nat
  | Panicked vm_panic

datatype vm_next = Continue vm_state | Stop vm_result

definition or_panic :: "vm_panic + 'a \<Rightarrow> ('a \<Rightarrow> vm_next) \<Rightarrow> vm_next" where
  "or_panic r f = (case r of Inl p \<Rightarrow> Stop (Panicked p) | Inr x \<Rightarrow> f x)"

lemma or_panic_simps [simp]:
  "or_panic (Inl p) f = Stop (Panicked p)"
  "or_panic (Inr x) f = f x"
  by (simp_all add: or_panic_def)

text \<open>The type switch of the loop body; the loop's \<^verbatim>\<open>i++\<close> is in \<open>vm_advance\<close>.\<close>

fun vm_exec :: "bytes \<Rightarrow> vm_state \<Rightarrow> Instruction \<Rightarrow> vm_next" where
  "vm_exec inp s (ALUOpConstant op v) =
     or_panic (aluOpConstant op v (regA s)) (\<lambda>a. Continue (s\<lparr>regA := a\<rparr>))"
| "vm_exec inp s (ALUOpX op) =
     or_panic (aluOpX op (regA s) (regX s)) (\<lambda>(a, b). Continue (s\<lparr>regA := a, ok := b\<rparr>))"
| "vm_exec inp s (Jump skip) = Continue (s\<lparr>pc := pc s + unat skip\<rparr>)"
| "vm_exec inp s (JumpIf c v t f) = Continue (s\<lparr>pc := pc s + jumpIf c v t f (regA s)\<rparr>)"
| "vm_exec inp s (LoadAbsolute off sz) =
     or_panic (loadAbsolute off sz inp) (\<lambda>(a, b). Continue (s\<lparr>regA := a, ok := b\<rparr>))"
| "vm_exec inp s (LoadConstant dst v) =
     (let (a, x) = loadConstant dst v (regA s) (regX s) in Continue (s\<lparr>regA := a, regX := x\<rparr>))"
| "vm_exec inp s (LoadExtension num) =
     or_panic (loadExtension num inp) (\<lambda>a. Continue (s\<lparr>regA := a\<rparr>))"
| "vm_exec inp s (LoadIndirect off sz) =
     or_panic (loadIndirect off sz inp (regX s)) (\<lambda>(a, b). Continue (s\<lparr>regA := a, ok := b\<rparr>))"
| "vm_exec inp s (LoadMemShift off) =
     or_panic (loadMemShift off inp) (\<lambda>(x, b). Continue (s\<lparr>regX := x, ok := b\<rparr>))"
| "vm_exec inp s (LoadScratch dst n) =
     or_panic (loadScratch dst n (regScratch s) (regA s) (regX s))
       (\<lambda>(a, x). Continue (s\<lparr>regA := a, regX := x\<rparr>))"
| "vm_exec inp s RetA = Stop (Returned (uint (regA s)))"
| "vm_exec inp s (RetConstant v) = Stop (Returned (uint v))"
| "vm_exec inp s (StoreScratch src n) =
     or_panic (storeScratch src n (regScratch s) (regA s) (regX s))
       (\<lambda>m. Continue (s\<lparr>regScratch := m\<rparr>))"
| "vm_exec inp s TAX = Continue (s\<lparr>regX := regA s\<rparr>)"
| "vm_exec inp s TXA = Continue (s\<lparr>regA := regX s\<rparr>)"
| "vm_exec inp s NegateA = Stop (UnknownInstruction (pc s))"
| "vm_exec inp s (RawInst ri) = Stop (UnknownInstruction (pc s))"

definition vm_init :: vm_state where
  "vm_init = \<lparr>regA = 0, regX = 0, regScratch = replicate 16 0, pc = 0, ok = True\<rparr>"

definition vm_advance :: "vm_state \<Rightarrow> vm_state" where
  "vm_advance s = s\<lparr>pc := pc s + 1\<rparr>"

lemma vm_exec_pc: "vm_exec inp s i = Continue s' \<Longrightarrow> pc s \<le> pc s'"
  by (cases i) (auto simp: or_panic_def Let_def split: sum.splits prod.splits)

function run_from :: "Instruction list \<Rightarrow> bytes \<Rightarrow> vm_state \<Rightarrow> vm_result" where
  "run_from prog inp s =
     (if pc s < length prog \<and> ok s then
        (case vm_exec inp s (prog ! pc s) of
           Stop r \<Rightarrow> r
         | Continue s' \<Rightarrow> run_from prog inp (vm_advance s'))
      else Returned 0)"
  by pat_completeness auto
termination
  by (relation "measure (\<lambda>(prog, inp, s). length prog - pc s)")
    (auto simp: vm_advance_def dest!: vm_exec_pc)

declare run_from.simps [simp del]

definition Run :: "VM \<Rightarrow> bytes \<Rightarrow> vm_result" where
  "Run v inp = run_from (vm_filter v) inp vm_init"

section \<open>The interpreter as a transition system\<close>

text \<open>A configuration is the program, the packet and the machine state; a machine starts
  only on a program that the validator accepts.\<close>

type_synonym vm_config = "Instruction list \<times> bytes \<times> vm_state"

definition vm_start :: "vm_config \<Rightarrow> bool" where
  "vm_start c = (case c of (prog, inp, s) \<Rightarrow> accepted prog \<and> s = vm_init)"

inductive vm_step :: "vm_config \<Rightarrow> vm_config \<Rightarrow> bool" where
  vm_stepI: "pc s < length prog \<Longrightarrow> ok s \<Longrightarrow> vm_exec inp s (prog ! pc s) = Continue s' \<Longrightarrow>
     vm_step (prog, inp, s) (prog, inp, vm_advance s')"

inductive_cases vm_stepE: "vm_step c d"

text \<open>What the validator establishes for every position of the program.\<close>

lemma check_program_None:
  "check_program prog = None \<longleftrightarrow>
     (\<forall>n<length prog. check_instruction (length prog - Suc n) (prog ! n) = None)"
proof (induction prog)
  case Nil
  then show ?case by simp
next
  case (Cons ins rest)
  then show ?case
    by (auto simp: All_less_Suc2 split: option.splits)
qed

lemma Assemble_ok_iff: "is_ok (Assemble prog) \<longleftrightarrow> list_all (\<lambda>i. is_ok (Instruction_Assemble i)) prog"
  by (simp add: Assemble_def bpf_codec.assemble_is_ok)

lemma accepted_iff:
  "accepted prog \<longleftrightarrow> prog \<noteq> [] \<and> check_program prog = None \<and> is_return (last prog) \<and>
     list_all (\<lambda>i. is_ok (Instruction_Assemble i)) prog"
  using Assemble_ok_iff [of prog]
  by (auto simp: accepted_def NewVM_def split: option.splits sum.splits)

lemma acceptedD:
  assumes "accepted prog" "n < length prog"
  shows "check_instruction (length prog - Suc n) (prog ! n) = None"
    and "is_ok (Instruction_Assemble (prog ! n))"
    and "\<not> is_return (prog ! n) \<Longrightarrow> Suc n < length prog"
proof -
  show "check_instruction (length prog - Suc n) (prog ! n) = None"
      "is_ok (Instruction_Assemble (prog ! n))"
    using assms by (auto simp: accepted_iff check_program_None list_all_length)
  have "is_return (prog ! (length prog - 1))"
    using assms(1) by (auto simp: accepted_iff last_conv_nth)
  moreover assume "\<not> is_return (prog ! n)"
  ultimately have "n \<noteq> length prog - 1"
    by auto
  with assms(2) show "Suc n < length prog"
    by linarith
qed

definition vm_inv :: "Instruction list \<Rightarrow> vm_state \<Rightarrow> bool" where
  "vm_inv prog s \<longleftrightarrow> length (regScratch s) = 16 \<and> (ok s \<longrightarrow> pc s < length prog)"

lemma vm_exec_scratch:
  "vm_exec inp s i = Continue s' \<Longrightarrow> length (regScratch s') = length (regScratch s)"
  by (cases i)
    (auto simp: or_panic_def Let_def storeScratch_def index_of_def split: sum.splits prod.splits if_splits)

lemma vm_exec_target:
  assumes "accepted prog" "pc s < length prog" "vm_exec inp s (prog ! pc s) = Continue s'"
  shows "Suc (pc s') < length prog"
proof -
  have next_pc: "\<not> is_return (prog ! pc s)"
    using assms(3) by (cases "prog ! pc s") auto
  show ?thesis
    using assms(3) acceptedD(1) [OF assms(1,2)] acceptedD(3) [OF assms(1,2) next_pc]
    by (cases "prog ! pc s")
      (auto simp: or_panic_def Let_def jumpIf_def split: sum.splits prod.splits if_splits)
qed

lemma vm_inv_init: "accepted prog \<Longrightarrow> vm_inv prog vm_init"
  by (simp add: vm_inv_def vm_init_def accepted_iff)

lemma vm_inv_exec:
  assumes "accepted prog" "vm_inv prog s" "pc s < length prog"
    and "vm_exec inp s (prog ! pc s) = Continue s'"
  shows "vm_inv prog (vm_advance s')"
  using vm_exec_target [OF assms(1,3,4)] vm_exec_scratch [OF assms(4)] assms(2)
  by (simp add: vm_inv_def vm_advance_def)

definition vm_config_inv :: "vm_config \<Rightarrow> bool" where
  "vm_config_inv c = (case c of (prog, inp, s) \<Rightarrow> accepted prog \<and> vm_inv prog s)"

interpretation vm_ts: inductive_invariant vm_start vm_step vm_config_inv
  by unfold_locales
    (auto simp: vm_start_def vm_config_inv_def vm_inv_init elim!: vm_stepE intro: vm_inv_exec)

text \<open>The only panic left in a validated program.\<close>

lemma vm_exec_no_panic:
  assumes "accepted prog" "vm_inv prog s" "pc s < length prog"
    and "vm_exec inp s (prog ! pc s) = Stop (Panicked p)"
  shows "\<exists>off. prog ! pc s = LoadMemShift off \<and> uint off = int (length inp)"
  using assms(2-4) acceptedD(1,2) [OF assms(1,3)]
  by (cases "prog ! pc s")
    (auto simp: or_panic_def Let_def vm_inv_def assemble_defs aluOpConstant_def aluOpX_def
      aluOpCommon_def loadAbsolute_def loadIndirect_def loadCommon_def loadMemShift_def
      loadExtension_def loadScratch_def storeScratch_def index_of_def inBounds_def
      split: sum.splits prod.splits if_splits)

text \<open>The function \<open>run_from\<close> follows the step relation to a configuration where the
  loop ends: either its guard fails or the current instruction stops the machine.\<close>

definition vm_halts :: "vm_config \<Rightarrow> vm_result \<Rightarrow> bool" where
  "vm_halts c r = (case c of (prog, inp, s) \<Rightarrow>
     if pc s < length prog \<and> ok s then vm_exec inp s (prog ! pc s) = Stop r else r = Returned 0)"

lemma run_from_simulates:
  assumes "reachable vm_start vm_step (prog, inp, s)"
  shows "\<exists>t. reachable vm_start vm_step (prog, inp, t) \<and>
    vm_halts (prog, inp, t) (run_from prog inp s)"
  using assms
proof (induction prog inp s rule: run_from.induct)
  case (1 prog inp s)
  show ?case
  proof (cases "pc s < length prog \<and> ok s")
    case run: True
    show ?thesis
    proof (cases "vm_exec inp s (prog ! pc s)")
      case (Continue s')
      with run 1 have "reachable vm_start vm_step (prog, inp, vm_advance s')"
        by (blast intro: reachable_step vm_stepI)
      with 1(1) [OF run Continue] run Continue show ?thesis
        by (simp add: run_from.simps [of prog inp s])
    next
      case (Stop r)
      with run 1(2) show ?thesis
        by (intro exI [of _ s]) (simp add: run_from.simps [of prog inp s] vm_halts_def)
    qed
  next
    case False
    with 1(2) show ?thesis
      by (intro exI [of _ s]) (auto simp: run_from.simps [of prog inp s] vm_halts_def)
  qed
qed

lemma Run_halts:
  assumes "accepted prog"
  obtains t where "vm_inv prog t" "vm_halts (prog, inp, t) (Run \<lparr>vm_filter = prog\<rparr> inp)"
proof -
  have "reachable vm_start vm_step (prog, inp, vm_init)"
    by (rule reachable_init) (simp add: vm_start_def assms)
  from run_from_simulates [OF this] obtain t
    where "reachable vm_start vm_step (prog, inp, t)"
      "vm_halts (prog, inp, t) (Run \<lparr>vm_filter = prog\<rparr> inp)"
    by (auto simp: Run_def)
  moreover from this(1) have "vm_inv prog t"
    using vm_ts.reachable_inv by (auto simp: vm_config_inv_def)
  ultimately show ?thesis
    using that by blast
qed

lemma vm_exec_Returned: "vm_exec inp s i = Stop (Returned n) \<Longrightarrow> 0 \<le> n \<and> n < 2 ^ 32"
  using uint_lt2p [where 'a = 32]
  by (cases i) (auto simp: or_panic_def Let_def split: sum.splits prod.splits)

lemma vm_exec_Unknown:
  "vm_exec inp s i = Stop (UnknownInstruction n) \<Longrightarrow> n = pc s \<and> (is_raw i \<or> i = NegateA)"
  by (cases i) (auto simp: or_panic_def Let_def split: sum.splits prod.splits)

section \<open>Properties of the virtual machine\<close>

text \<open>
  C6: On a program that NewVM accepts, Run always ends.  Provided no
  load-memory-shift instruction addresses exactly the byte after the packet, it never
  panics: it returns a number of bytes that fits in 32 bits, or it reports the position of
  an instruction the machine does not implement (a raw instruction or a negation).
\<close>

theorem vm_run_safe:
  assumes "accepted prog"
    and "list_all (\<lambda>i. i \<noteq> LoadMemShift (of_nat (length inp))) prog" "length inp < 2 ^ 32"
  shows "(\<exists>n. Run \<lparr>vm_filter = prog\<rparr> inp = Returned n \<and> 0 \<le> n \<and> n < 2 ^ 32) \<or>
    (\<exists>n. Run \<lparr>vm_filter = prog\<rparr> inp = UnknownInstruction n \<and> n < length prog \<and>
       (is_raw (prog ! n) \<or> prog ! n = NegateA))"
proof -
  obtain t where t: "vm_inv prog t" "vm_halts (prog, inp, t) (Run \<lparr>vm_filter = prog\<rparr> inp)"
    using Run_halts [OF assms(1)] by blast
  show ?thesis
  proof (cases "pc t < length prog \<and> ok t")
    case True
    with t(2) have stop: "vm_exec inp t (prog ! pc t) = Stop (Run \<lparr>vm_filter = prog\<rparr> inp)"
      by (simp add: vm_halts_def)
    have "Run \<lparr>vm_filter = prog\<rparr> inp \<noteq> Panicked p" for p
    proof
      assume "Run \<lparr>vm_filter = prog\<rparr> inp = Panicked p"
      with stop vm_exec_no_panic [OF assms(1) t(1)] True obtain off
        where "prog ! pc t = LoadMemShift off" "uint off = int (length inp)"
        by auto
      then have "off = of_nat (length inp)"
        by (metis of_int_of_nat_eq word_of_int_uint)
      with \<open>prog ! pc t = LoadMemShift off\<close> True assms(2) show False
        by (auto simp: list_all_length)
    qed
    with stop True show ?thesis
      by (cases "Run \<lparr>vm_filter = prog\<rparr> inp") (auto dest: vm_exec_Returned vm_exec_Unknown)
  next
    case False
    with t(2) show ?thesis by (auto simp: vm_halts_def)
  qed
qed

theorem vm_run_safe_witness:
  "accepted [LoadMemShift 0, LoadIndirect 1 2, RetA] \<and>
   (\<exists>n. Run \<lparr>vm_filter = [LoadMemShift 0, LoadIndirect 1 2, RetA]\<rparr> [0x45, 0, 0, 0x54] = Returned n \<and>
      0 \<le> n \<and> n < 2 ^ 32)"
proof -
  let ?p = "[LoadMemShift 0, LoadIndirect 1 2, RetA]"
  have acc: "accepted ?p"
    by (simp add: accepted_iff assemble_defs go_defs)
  have off: "list_all (\<lambda>i. i \<noteq> LoadMemShift (of_nat (length [0x45, 0, 0, 0x54 :: u8]))) ?p"
    by simp
  show ?thesis
    using acc vm_run_safe [OF acc off] by (auto simp: less_Suc_eq)
qed

text \<open>
  Whenever the machine is about to execute an instruction of an accepted program, the
  program counter is inside the program (so control never runs off its end while the
  machine is running) and the sixteen scratch slots are intact.
\<close>

lemma vm_reachable_inv:
  assumes "reachable vm_start vm_step (prog, inp, s)"
  shows "length (regScratch s) = 16 \<and> (ok s \<longrightarrow> pc s < length prog)"
  using vm_ts.reachable_inv [OF assms] by (simp add: vm_config_inv_def vm_inv_def)

text \<open>Executing the canonical form of an instruction is executing the instruction, except
  for raw instructions and absolute loads that are decoded as extensions.\<close>

fun vm_stable :: "Instruction \<Rightarrow> bool" where
  "vm_stable (RawInst ri) = False"
| "vm_stable (LoadAbsolute off sz) = (uint off \<le> extOffset + 0xffffffff)"
| "vm_stable i = True"

lemma vm_exec_canonical: "vm_stable i \<Longrightarrow> vm_exec inp s (canonical i) = vm_exec inp s i"
  by (cases i) (auto simp: jumpIf_def jump_test_def go_defs not_less)

lemma run_from_canonical:
  "list_all vm_stable prog \<Longrightarrow> run_from (map canonical prog) inp s = run_from prog inp s"
proof (induction prog inp s rule: run_from.induct)
  case (1 prog inp s)
  show ?case
  proof (cases "pc s < length prog \<and> ok s")
    case True
    then have "vm_exec inp s (map canonical prog ! pc s) = vm_exec inp s (prog ! pc s)"
      using 1(2) by (simp add: vm_exec_canonical list_all_length)
    with True 1 show ?thesis
      by (simp add: run_from.simps [of prog inp s] run_from.simps [of "map canonical prog" inp s]
          split: vm_next.splits)
  next
    case False
    then show ?thesis
      by (auto simp: run_from.simps [of prog inp s] run_from.simps [of "map canonical prog" inp s])
  qed
qed

lemma check_instruction_canonical:
  "vm_stable i \<Longrightarrow> check_instruction n (canonical i) = None \<longleftrightarrow> check_instruction n i = None"
  by (cases i) (auto simp: go_defs not_less)

lemma is_return_canonical: "vm_stable i \<Longrightarrow> is_return (canonical i) = is_return i"
  by (cases i) auto

lemma Assemble_canonical:
  "vm_stable i \<Longrightarrow> is_ok (Instruction_Assemble (canonical i)) = is_ok (Instruction_Assemble i)"
  by (cases i) (auto simp: assemble_defs go_defs not_less)

lemma accepted_canonical:
  assumes "list_all vm_stable prog"
  shows "accepted (map canonical prog) = accepted prog"
proof (cases "prog = []")
  case False
  then have "vm_stable (last prog)"
    using assms by (simp add: list_all_iff)
  moreover have "check_program (map canonical prog) = None \<longleftrightarrow> check_program prog = None"
    using assms by (simp add: check_program_None check_instruction_canonical list_all_length)
  ultimately show ?thesis
    using False assms
    by (simp add: accepted_iff last_map is_return_canonical list.pred_map list_all_length
        Assemble_canonical)
qed simp

text \<open>
  C30: Assembling a program and disassembling the result gives a program that NewVM
  treats alike and that computes the same result on every packet, provided its
  instructions are encodable (known ALU operations, extension numbers below 4096) and it has
  no raw instruction and no absolute load among the offsets reserved for extensions.
\<close>

theorem vm_assembled_program:
  assumes "list_all encodable prog" "list_all vm_stable prog" "Assemble prog = Inr rs"
    and "Disassemble rs = Some (prog', all)"
  shows "all \<and> accepted prog' = accepted prog \<and>
    Run \<lparr>vm_filter = prog'\<rparr> inp = Run \<lparr>vm_filter = prog\<rparr> inp"
proof -
  have eq: "map (\<lambda>r. the (RawInstruction_Disassemble r)) rs = map canonical prog"
    using bpf_codec.disassemble_assemble [of prog 0 rs] assms(1,3) by (simp add: Assemble_def)
  have raw: "vm_stable i \<Longrightarrow> \<not> is_raw (canonical i)" for i
    by (cases i) auto
  have "(\<forall>r\<in>set rs. \<not> is_raw (the (RawInstruction_Disassemble r))) \<longleftrightarrow>
      list_all (\<lambda>i. \<not> is_raw i) (map (\<lambda>r. the (RawInstruction_Disassemble r)) rs)"
    by (simp add: list_all_iff)
  with assms(2,4) raw have "prog' = map canonical prog" "all"
    unfolding Disassemble_def bpf_codec.disassemble_eq eq by (auto simp: list_all_iff)
  then show ?thesis
    using assms(2) by (simp add: accepted_canonical run_from_canonical Run_def)
qed

theorem vm_assembled_program_witness:
  "\<exists>rs prog' b.
     Assemble [LoadExtension ExtLen, JumpIf JumpBitsNotSet 1 0 1, TAX, RetA] = Inr rs \<and>
     Disassemble rs = Some (prog', b) \<and> b \<and>
     Run \<lparr>vm_filter = prog'\<rparr> [1, 2, 3] =
       Run \<lparr>vm_filter = [LoadExtension ExtLen, JumpIf JumpBitsNotSet 1 0 1, TAX, RetA]\<rparr> [1, 2, 3]"
proof -
  let ?p = "[LoadExtension ExtLen, JumpIf JumpBitsNotSet 1 0 1, TAX, RetA]"
  have wf: "list_all encodable ?p" "list_all vm_stable ?p"
    by (simp_all add: go_defs)
  obtain rs where rs: "Assemble ?p = Inr rs"
    by (simp add: Assemble_def assemble_defs go_defs)
  obtain prog' b where dis: "Disassemble rs = Some (prog', b)"
    using bpf_codec.disassemble_eq [of True rs] by (simp add: Disassemble_def)
  show ?thesis
    using vm_assembled_program [OF wf rs dis, of "[1, 2, 3]"] rs dis by blast
qed

text \<open>
  C36: The bounds check of the load-memory-shift instruction tests for an access of zero
  bytes, so it lets the offset just past the packet through: on a packet of any length
  below 2^32 an accepted two-instruction program makes Run panic with an index out of
  range.
\<close>

theorem memshift_panics:
  assumes "length inp < 2 ^ 32"
  shows "accepted [LoadMemShift (of_nat (length inp)), RetConstant 1] \<and>
    Run \<lparr>vm_filter = [LoadMemShift (of_nat (length inp)), RetConstant 1]\<rparr> inp =
      Panicked IndexOutOfRange"
proof -
  have off: "uint (of_nat (length inp) :: u32) = int (length inp)"
    using assms by (simp add: unsigned_of_nat take_bit_nat_eq_self)
  have "accepted [LoadMemShift (of_nat (length inp)), RetConstant 1]"
    by (simp add: accepted_iff assemble_defs go_defs)
  moreover have "vm_exec inp vm_init (LoadMemShift (of_nat (length inp))) =
      Stop (Panicked IndexOutOfRange)"
    by (simp add: loadMemShift_def inBounds_def off index_of_def)
  ultimately show ?thesis
    by (simp add: Run_def run_from.simps vm_init_def)
qed

theorem memshift_panics_witness:
  "Run \<lparr>vm_filter = [LoadMemShift 1, RetConstant 1]\<rparr> [7] = Panicked IndexOutOfRange"
  using memshift_panics [of "[7]"] by simp

end
