(* ===== verification/HPACK_Varint.thy ===== *)
theory HPACK_Varint
  imports GoPrelude
begin

text \<open>
  Package \<^verbatim>\<open>hpack\<close>: errors, the variable-length integers (\<^verbatim>\<open>appendVarInt\<close> of
  \<^verbatim>\<open>encode.go\<close>, \<^verbatim>\<open>readVarInt\<close> of \<^verbatim>\<open>hpack.go\<close>) and the interface every parser of
  the decoder offers: what it read does not change when more bytes arrive.
\<close>

section \<open>Errors\<close>

datatype decoding_error =
    TruncatedHeaders
  | InvalidEncoding
  | InvalidIndex u64
  | TableSizeUpdateTooLarge
  | VarintOverflow

datatype hpack_error =
    ErrNeedMore
  | ErrStringLength
  | ErrInvalidHuffman
  | DecodingError decoding_error
  | PanicBadN
  | PanicIndex
  | PanicTable
  | Diverges

text \<open>The last four are not error values of the source: a panic on a bad prefix length, a
  panic of an index or slice expression that is out of range, a panic of the header tables, and a
  computation that does not return.  That the decoder never ends in one of them is a theorem.\<close>

text \<open>An index expression \<^verbatim>\<open>xs[i]\<close>, and the slice expressions \<^verbatim>\<open>p[:n]\<close> and \<^verbatim>\<open>p[n:]\<close>.\<close>

definition index_expr :: "'a list \<Rightarrow> int \<Rightarrow> hpack_error + 'a" where
  "index_expr xs i = (if 0 \<le> i \<and> i < int (length xs) then Inr (xs ! nat i) else Inl PanicIndex)"

definition slice_at :: "nat \<Rightarrow> bytes \<Rightarrow> hpack_error + bytes \<times> bytes" where
  "slice_at n p = (if n \<le> length p then Inr (take n p, drop n p) else Inl PanicIndex)"

definition InvalidIndexError_Error :: "u64 \<Rightarrow> string" where
  "InvalidIndexError_Error e = ''invalid indexed representation index '' @ fmt_di (sint e)"

definition DecodingError_Error :: "decoding_error \<Rightarrow> string" where
  "DecodingError_Error de = ''decoding error: '' @
     (case de of
        TruncatedHeaders \<Rightarrow> ''truncated headers''
      | InvalidEncoding \<Rightarrow> ''invalid encoding''
      | InvalidIndex i \<Rightarrow> InvalidIndexError_Error i
      | TableSizeUpdateTooLarge \<Rightarrow> ''dynamic table size update too large''
      | VarintOverflow \<Rightarrow> ''varint integer overflow'')"

section \<open>Incremental parsers\<close>

locale incremental_parser =
  fixes parse :: "bytes \<Rightarrow> hpack_error + 'a \<times> bytes"
  assumes parse_more: "parse p = Inr (a, r) \<Longrightarrow> parse (p @ q) = Inr (a, r @ q)"
    and parse_fatal: "parse p = Inl e \<Longrightarrow> e \<noteq> ErrNeedMore \<Longrightarrow> parse (p @ q) = Inl e"
    and parse_consumes: "parse p = Inr (a, r) \<Longrightarrow> \<exists>c. c \<noteq> [] \<and> p = c @ r"
begin

lemma parse_shorter: "parse p = Inr (a, r) \<Longrightarrow> length r < length p"
  using parse_consumes by fastforce

lemma parse_unread: "parse p = Inr (a, []) \<Longrightarrow> parse (p @ r) = Inr (a, r)"
  using parse_more [of p a "[]" r] by simp

lemma parse_truncated:
  "parse (p @ q) = Inr (a, r) \<Longrightarrow> length r < length q \<Longrightarrow> parse p = Inl ErrNeedMore"
proof (cases "parse p")
  case (Inl e)
  assume full: "parse (p @ q) = Inr (a, r)" and "length r < length q"
  show ?thesis
  proof (rule ccontr)
    assume "parse p \<noteq> Inl ErrNeedMore"
    with Inl have "parse (p @ q) = Inl e"
      by (simp add: parse_fatal)
    with full show False by simp
  qed
next
  case (Inr x)
  assume full: "parse (p @ q) = Inr (a, r)" and len: "length r < length q"
  obtain b s where "parse p = Inr (b, s)"
    using Inr by (cases x) simp
  then have "parse (p @ q) = Inr (b, s @ q)"
    by (rule parse_more)
  with full len show ?thesis by auto
qed

end

section \<open>appendVarInt\<close>

function appendVarInt_loop :: "u64 \<Rightarrow> bytes" where
  "appendVarInt_loop i =
     (if i \<ge> 128 then ucast (0x80 OR (i AND 0x7f)) # appendVarInt_loop (drop_bit 7 i)
      else [ucast i])"
  by pat_completeness auto
termination
proof (relation "measure unat")
  fix i :: u64
  assume "i \<ge> 128"
  then have "128 \<le> unat i"
    by (simp add: word_le_nat_alt)
  then show "(drop_bit 7 i, i) \<in> measure unat"
    by (simp add: drop_bit_eq_div unat_div)
qed simp

declare appendVarInt_loop.simps [simp del]

definition varint_max :: "nat \<Rightarrow> u64" where
  [go_defs]: "varint_max n = push_bit n 1 - 1"

definition appendVarInt :: "bytes \<Rightarrow> nat \<Rightarrow> u64 \<Rightarrow> bytes" where
  "appendVarInt dst n i =
     (let k = varint_max n in
      if i < k then dst @ [ucast i]
      else dst @ [ucast k] @ appendVarInt_loop (i - k))"

section \<open>readVarInt\<close>

fun readVarInt_loop :: "u64 \<Rightarrow> nat \<Rightarrow> bytes \<Rightarrow> hpack_error + u64 \<times> bytes" where
  "readVarInt_loop i m [] = Inl ErrNeedMore"
| "readVarInt_loop i m (b # p) =
     (let i' = i + push_bit m (ucast (b AND 127)) in
      if b AND 128 = 0 then Inr (i', p)
      else if m + 7 \<ge> 63 then Inl (DecodingError VarintOverflow)
      else readVarInt_loop i' (m + 7) p)"

definition readVarInt :: "nat \<Rightarrow> bytes \<Rightarrow> hpack_error + u64 \<times> bytes" where
  "readVarInt n p =
     (if n < 1 \<or> n > 8 then Inl PanicBadN
      else case p of
        [] \<Rightarrow> Inl ErrNeedMore
      | b # rest \<Rightarrow>
          let i = (if n < 8 then ucast b AND varint_max n else ucast b) in
          if i < varint_max n then Inr (i, rest)
          else readVarInt_loop i 0 rest)"

lemma readVarInt_loop_more:
  "readVarInt_loop i m p = Inr (a, r) \<Longrightarrow> readVarInt_loop i m (p @ q) = Inr (a, r @ q)"
  by (induction i m p rule: readVarInt_loop.induct) (auto simp: Let_def split: if_splits)

lemma readVarInt_loop_fatal:
  "readVarInt_loop i m p = Inl e \<Longrightarrow> e \<noteq> ErrNeedMore \<Longrightarrow> readVarInt_loop i m (p @ q) = Inl e"
  by (induction i m p rule: readVarInt_loop.induct) (auto simp: Let_def split: if_splits)

lemma readVarInt_loop_suffix: "readVarInt_loop i m p = Inr (a, r) \<Longrightarrow> suffix r p"
  by (induction i m p rule: readVarInt_loop.induct)
    (auto simp: Let_def suffix_ConsI split: if_splits)

interpretation varint: incremental_parser "readVarInt n" for n
proof unfold_locales
  fix p q a r
  assume "readVarInt n p = Inr (a, r)"
  then show "readVarInt n (p @ q) = Inr (a, r @ q)"
    by (auto simp: readVarInt_def Let_def readVarInt_loop_more split: list.splits if_splits)
next
  fix p q e
  assume "readVarInt n p = Inl e" "e \<noteq> ErrNeedMore"
  then show "readVarInt n (p @ q) = Inl e"
    by (auto simp: readVarInt_def Let_def readVarInt_loop_fatal split: list.splits if_splits)
next
  fix p a r
  assume "readVarInt n p = Inr (a, r)"
  then obtain b rest where "p = b # rest" "suffix r rest"
    by (auto simp: readVarInt_def Let_def split: list.splits if_splits dest: readVarInt_loop_suffix)
  then show "\<exists>c. c \<noteq> [] \<and> p = c @ r"
    by (auto simp: suffix_def intro: exI [of _ "b # _"])
qed

section \<open>Round trip\<close>

text \<open>The encoder sets flag bits in the byte at the position where it appended.\<close>

definition or_at :: "nat \<Rightarrow> u8 \<Rightarrow> bytes \<Rightarrow> bytes" where
  "or_at first fl dst = dst[first := dst ! first OR fl]"

lemma or_at_append [simp]: "or_at (length dst) fl (dst @ b # bs) = dst @ (b OR fl) # bs"
  by (simp add: or_at_def list_update_append nth_append)

lemma or_at_Cons [simp]: "or_at 0 fl (b # bs) = (b OR fl) # bs"
  by (simp add: or_at_def)

lemma continuation_byte:
  fixes i :: u64
  shows "ucast ((ucast (0x80 OR (i AND 0x7f)) :: u8) AND 127) = i AND 0x7f"
    and "(ucast (0x80 OR (i AND 0x7f)) :: u8) AND 128 \<noteq> 0"
  unfolding mask_bits
  by (rule bit_word_eqI) (auto simp: bit_simps bit_int_power)

lemma final_byte:
  fixes i :: u64
  assumes "i < 128"
  shows "ucast ((ucast i :: u8) AND 127) = i" and "(ucast i :: u8) AND 128 = 0"
proof -
  have i: "take_bit 7 i = i"
    using assms by (simp add: word_unat_eq_iff unsigned_take_bit_eq take_bit_nat_eq_self word_less_nat_alt)
  show "ucast ((ucast i :: u8) AND 127) = i"
    unfolding mask_bits by (subst (2) i [symmetric]) (rule bit_word_eqI, auto simp: bit_simps)
  show "(ucast i :: u8) AND 128 = 0"
    unfolding mask_bits by (subst i [symmetric]) (auto simp: bit_simps)
qed

lemma split_low7: "push_bit m (i AND 0x7f) + push_bit (m + 7) (drop_bit 7 i) = push_bit m (i::u64)"
proof -
  have "(i AND 0x7f) + push_bit 7 (drop_bit 7 i) = i"
    unfolding mask_bits by (metis add.commute bits_ident)
  then have "push_bit m ((i AND 0x7f) + push_bit 7 (drop_bit 7 i)) = push_bit m i"
    by simp
  then show ?thesis
    by (simp only: push_bit_add push_bit_push_bit)
qed

lemma drop7_bound: "unat (i::u64) < 2 ^ (7 + k) \<Longrightarrow> unat (drop_bit 7 i) < 2 ^ k"
  by (simp add: drop_bit_eq_div unat_div power_add less_mult_imp_div_less mult.commute)

lemma readVarInt_loop_append:
  assumes "unat i < 2 ^ (63 - m)" "m < 63"
  shows "readVarInt_loop acc m (appendVarInt_loop i @ rest) = Inr (acc + push_bit m i, rest)"
  using assms
proof (induction i arbitrary: acc m rule: appendVarInt_loop.induct)
  case (1 i)
  show ?case
  proof (cases "i \<ge> 128")
    case True
    then have "2 ^ 7 \<le> unat i"
      by (simp add: word_le_nat_alt)
    with 1(2) have "(2::nat) ^ 7 < 2 ^ (63 - m)"
      by linarith
    then have m: "7 < 63 - m"
      by (simp only: power_strict_increasing_iff)
    have "unat (drop_bit 7 i) < 2 ^ (63 - (m + 7))"
      using 1(2) m by (intro drop7_bound) simp
    then have IH: "readVarInt_loop acc' (m + 7) (appendVarInt_loop (drop_bit 7 i) @ rest) =
        Inr (acc' + push_bit (m + 7) (drop_bit 7 i), rest)" for acc'
      using 1(1) [OF True] m by simp
    have "acc + push_bit m (i AND 0x7f) + push_bit (m + 7) (drop_bit 7 i) = acc + push_bit m i"
      by (simp only: add.assoc split_low7)
    with True m show ?thesis
      by (simp only: appendVarInt_loop.simps [of i] if_True append_Cons readVarInt_loop.simps
          continuation_byte Let_def if_False IH) simp
  next
    case False
    then show ?thesis
      by (simp add: appendVarInt_loop.simps [of i] final_byte not_le)
  qed
qed

lemma drop7_large:
  assumes "2 ^ (7 + k) \<le> unat (i::u64)"
  shows "2 ^ k \<le> unat (drop_bit 7 i)"
proof -
  have "(2::nat) ^ k * 128 \<le> unat i"
    using assms by (simp add: power_add)
  then show ?thesis
    by (simp add: drop_bit_eq_div unat_div less_eq_div_iff_mult_less_eq)
qed

lemma readVarInt_loop_overflow:
  assumes "2 ^ (7 * Suc j) \<le> unat i" "m + 7 * Suc j = 63"
  shows "readVarInt_loop acc m (appendVarInt_loop i @ rest) = Inl (DecodingError VarintOverflow)"
  using assms
proof (induction j arbitrary: i acc m)
  case 0
  then have "i \<ge> 128"
    by (simp add: word_le_nat_alt)
  with 0 show ?case
    by (simp add: appendVarInt_loop.simps [of i] continuation_byte)
next
  case (Suc j)
  have large: "2 ^ (7 * Suc j) \<le> unat (drop_bit 7 i)"
    using Suc.prems(1) by (intro drop7_large) simp
  have "(2::nat) ^ 7 \<le> 2 ^ (7 * Suc (Suc j))"
    by (rule power_increasing) simp_all
  with Suc.prems(1) have "2 ^ 7 \<le> unat i"
    by linarith
  then have "i \<ge> 128"
    by (simp add: word_le_nat_alt)
  with Suc.prems(2) Suc.IH [OF large, of "m + 7"] show ?case
    by (simp add: appendVarInt_loop.simps [of i] continuation_byte)
qed

lemma varint_max_eq_mask: "varint_max n = mask n"
  by (simp add: varint_max_def mask_eq_exp_minus_1 push_bit_of_1)

lemma unat_varint_max:
  assumes "n \<le> 8"
  shows "unat (varint_max n) = 2 ^ n - 1"
proof -
  have "n \<in> {0, 1, 2, 3, 4, 5, 6, 7, 8}"
    using assms by auto
  then show ?thesis
    by (auto simp: varint_max_def)
qed

lemma take_bit_8_ucast: "take_bit 8 (ucast (b::u8) :: u64) = ucast b"
  by (rule bit_word_eqI) (auto simp: bit_simps dest: bit_imp_le_length)

lemma first_byte:
  assumes "1 \<le> n" "n \<le> 8" "i \<le> varint_max n" "take_bit n fl = 0"
  shows "(if n < 8 then ucast ((ucast i :: u8) OR fl) AND varint_max n
          else ucast ((ucast i :: u8) OR fl)) = i"
proof -
  have "unat i < 2 ^ n"
    using assms(3) unat_varint_max [OF assms(2)] by (auto simp: word_le_nat_alt intro: le_less_trans)
  then have i: "take_bit n i = i"
    by (simp add: word_unat_eq_iff unsigned_take_bit_eq take_bit_nat_eq_self)
  have "take_bit n (ucast ((ucast i :: u8) OR fl) :: u64) = take_bit n i"
  proof (rule bit_word_eqI)
    fix k
    have "bit (take_bit n fl) k = False"
      using assms(4) by simp
    then show "bit (take_bit n (ucast ((ucast i :: u8) OR fl) :: u64)) k = bit (take_bit n i) k"
      using assms(2) by (auto simp: bit_simps)
  qed
  with i show ?thesis
    using assms(2)
    by (cases "n < 8")
      (auto simp: varint_max_eq_mask take_bit_8_ucast le_less simp flip: take_bit_eq_mask)
qed

text \<open>The encoding is the prefix byte followed by the continuation bytes, if any.\<close>

lemma appendVarInt_split:
  "appendVarInt dst n i =
     dst @ ucast (if i < varint_max n then i else varint_max n) #
       (if i < varint_max n then [] else appendVarInt_loop (i - varint_max n))"
  by (simp add: appendVarInt_def Let_def)

lemma readVarInt_first:
  assumes "1 \<le> n" "n \<le> 8" "i \<le> varint_max n" "take_bit n fl = 0"
  shows "readVarInt n (((ucast i :: u8) OR fl) # rest) =
    (if i < varint_max n then Inr (i, rest) else readVarInt_loop i 0 rest)"
  using first_byte [OF assms] assms(1,2) by (auto simp: readVarInt_def Let_def)

text \<open>What \<^verbatim>\<open>readVarInt\<close> reads back from an integer written with an \<open>n\<close>-bit prefix
  whose remaining bits carry the flags \<open>fl\<close>.\<close>

lemma readVarInt_appendVarInt:
  assumes "1 \<le> n" "n \<le> 8" "take_bit n fl = 0" "unat i < 2 ^ 63"
  shows "readVarInt n (or_at 0 fl (appendVarInt [] n i) @ rest) = Inr (i, rest)"
proof -
  have le: "(if i < varint_max n then i else varint_max n) \<le> varint_max n"
    by (simp add: less_imp_le)
  show ?thesis
  proof (cases "i < varint_max n")
    case True
    then show ?thesis
      using readVarInt_first [OF assms(1,2) le assms(3)]
      by (simp add: appendVarInt_split)
  next
    case False
    have "unat (i - varint_max n) \<le> unat i"
      using False by (simp add: word_le_nat_alt [symmetric] word_sub_le not_less)
    then have "readVarInt_loop (varint_max n) 0 (appendVarInt_loop (i - varint_max n) @ rest) = Inr (i, rest)"
      using assms(4) by (subst readVarInt_loop_append) auto
    with False show ?thesis
      using readVarInt_first [OF assms(1,2) le assms(3)]
      by (simp add: appendVarInt_split)
  qed
qed

lemma length_appendVarInt [simp]: "length dst < length (appendVarInt dst n i)"
  by (simp add: appendVarInt_split)

lemma appendVarInt_append: "appendVarInt dst n i = dst @ appendVarInt [] n i"
  by (simp add: appendVarInt_split)

text \<open>
  Variable-length integers round-trip.  An integer written with an n-bit prefix
  (n from 1 to 8), whatever flags the encoder puts in the unused bits of the prefix byte
  and whatever follows, is read back exactly, and the bytes after it are left over, when
  its part beyond the prefix is below 2^63; from there on the decoder reports an overflow.
\<close>

lemma varint_roundtrip:
  assumes "1 \<le> n" "n \<le> 8" "take_bit n fl = 0"
  shows "readVarInt n (or_at 0 fl (appendVarInt [] n i) @ rest) =
    (if i < varint_max n \<or> i - varint_max n < 2 ^ 63 then Inr (i, rest)
     else Inl (DecodingError VarintOverflow))"
proof -
  have le: "(if i < varint_max n then i else varint_max n) \<le> varint_max n"
    by (simp add: less_imp_le)
  let ?k = "varint_max n"
  have pow: "unat ((2::u64) ^ 63) = 2 ^ 63"
    by simp
  show ?thesis
  proof (cases "i < ?k")
    case True
    then show ?thesis
      using readVarInt_first [OF assms(1,2) le assms(3)] by (simp add: appendVarInt_split)
  next
    case False
    have "readVarInt_loop ?k 0 (appendVarInt_loop (i - ?k) @ rest) =
        (if i - ?k < 2 ^ 63 then Inr (i, rest) else Inl (DecodingError VarintOverflow))"
    proof (cases "i - ?k < 2 ^ 63")
      case True
      then have "unat (i - ?k) < 2 ^ 63"
        unfolding word_less_nat_alt pow .
      then show ?thesis
        using True by (subst readVarInt_loop_append) auto
    next
      case False
      then have "2 ^ (7 * Suc 8) \<le> unat (i - ?k)"
        unfolding word_less_nat_alt pow by simp
      then show ?thesis
        using False readVarInt_loop_overflow [of 8 "i - ?k" 0] by simp
    qed
    with False show ?thesis
      using readVarInt_first [OF assms(1,2) le assms(3)] by (simp add: appendVarInt_split)
  qed
qed

end
