(* ===== verification/HPACK_Huffman.thy ===== *)
theory HPACK_Huffman
  imports HPACK_Varint HPACK_Huffman_Tables
begin

text \<open>
  Package \<^verbatim>\<open>hpack\<close>, file \<^verbatim>\<open>huffman.go\<close>: the decoding trie built at start-up, the
  decoder and the encoder of Huffman-coded strings.  The 256 children of an internal node
  are a function on octets.  The decoder's bit counters are natural numbers: they stay
  below 64, so their 8-bit width never matters.  The two loops of the decoder are
  \<^theory_text>\<open>partial_function\<close>s, since that they end depends on the contents of the trie; that
  they do is part of the theorems.
\<close>

section \<open>The decoding trie\<close>

datatype hnode = Internal "u8 \<Rightarrow> hnode option" | Leaf nat u8

type_synonym hchildren = "u8 \<Rightarrow> hnode option"

definition newInternalNode :: hchildren where
  "newInternalNode = (\<lambda>_. None)"

text \<open>\<open>None\<close> is the index panic: a leaf has no children, and the filled range must lie within
  the 256 slots.\<close>

definition fill_leaves :: "u8 \<Rightarrow> u32 \<Rightarrow> nat \<Rightarrow> hchildren \<Rightarrow> hchildren option" where
  "fill_leaves symb code codeLen cur =
     (let shift = 8 - codeLen; start = unat (ucast (push_bit shift code) :: u8) in
      if start + 2 ^ shift > 256 then None
      else Some (fold (\<lambda>i ch. ch(of_nat i := Some (Leaf codeLen symb))) [start ..< start + 2 ^ shift] cur))"

fun addDecoderNode :: "u8 \<Rightarrow> u32 \<Rightarrow> nat \<Rightarrow> hchildren \<Rightarrow> hchildren option" where
  "addDecoderNode symb code codeLen cur =
     (if codeLen > 8 then
        let rest = codeLen - 8; i = ucast (drop_bit rest code) in
        (case (case cur i of None \<Rightarrow> Internal newInternalNode | Some n \<Rightarrow> n) of
           Leaf _ _ \<Rightarrow> None
         | Internal ch \<Rightarrow>
             (case addDecoderNode symb code rest ch of
                None \<Rightarrow> None
              | Some ch' \<Rightarrow> Some (cur(i := Some (Internal ch')))))
      else fill_leaves symb code codeLen cur)"

declare addDecoderNode.simps [simp del]

fun init_from :: "nat \<Rightarrow> (u32 \<times> nat) list \<Rightarrow> hchildren \<Rightarrow> hchildren option" where
  "init_from i [] root = Some root"
| "init_from i ((code, len) # rest) root =
     (case addDecoderNode (of_nat i) code len root of
        None \<Rightarrow> None
      | Some root' \<Rightarrow> init_from (Suc i) rest root')"

definition huffman_init :: "hchildren option" where
  "huffman_init =
     (if length huffmanCodes \<noteq> 256 then None
      else init_from 0 (zip huffmanCodes huffmanCodeLen) newInternalNode)"

definition rootHuffmanNode :: hchildren where
  "rootHuffmanNode = (case huffman_init of None \<Rightarrow> newInternalNode | Some r \<Rightarrow> r)"

section \<open>The decoder\<close>

partial_function (option) decode_inner ::
  "hchildren \<Rightarrow> int \<Rightarrow> u64 \<Rightarrow> hchildren \<Rightarrow> nat \<Rightarrow> nat \<Rightarrow> bytes \<Rightarrow>
     (hpack_error + hchildren \<times> nat \<times> nat \<times> bytes) option" where
  "decode_inner root maxLen cur n cbits sbits buf =
     (if cbits \<ge> 8 then
        (case n (ucast (drop_bit (cbits - 8) cur)) of
           None \<Rightarrow> Some (Inl ErrInvalidHuffman)
         | Some (Leaf codeLen symb) \<Rightarrow>
             if maxLen \<noteq> 0 \<and> int (length buf) = maxLen then Some (Inl ErrStringLength)
             else decode_inner root maxLen cur root (cbits - codeLen) (cbits - codeLen) (buf @ [symb])
         | Some (Internal ch) \<Rightarrow> decode_inner root maxLen cur ch (cbits - 8) sbits buf)
      else Some (Inr (n, cbits, sbits, buf)))"

fun decode_bytes ::
  "hchildren \<Rightarrow> int \<Rightarrow> u64 \<Rightarrow> hchildren \<Rightarrow> nat \<Rightarrow> nat \<Rightarrow> bytes \<Rightarrow> bytes \<Rightarrow>
     (hpack_error + u64 \<times> hchildren \<times> nat \<times> nat \<times> bytes) option" where
  "decode_bytes root maxLen cur n cbits sbits buf [] = Some (Inr (cur, n, cbits, sbits, buf))"
| "decode_bytes root maxLen cur n cbits sbits buf (b # v) =
     (let cur' = push_bit 8 cur OR ucast b in
      case decode_inner root maxLen cur' n (cbits + 8) (sbits + 8) buf of
        None \<Rightarrow> None
      | Some (Inl e) \<Rightarrow> Some (Inl e)
      | Some (Inr (n', cbits', sbits', buf')) \<Rightarrow>
          decode_bytes root maxLen cur' n' cbits' sbits' buf' v)"

partial_function (option) decode_tail ::
  "hchildren \<Rightarrow> int \<Rightarrow> u64 \<Rightarrow> hchildren \<Rightarrow> nat \<Rightarrow> nat \<Rightarrow> bytes \<Rightarrow>
     (hpack_error + nat \<times> nat \<times> bytes) option" where
  "decode_tail root maxLen cur n cbits sbits buf =
     (if cbits > 0 then
        (case n (ucast (push_bit (8 - cbits) cur)) of
           None \<Rightarrow> Some (Inl ErrInvalidHuffman)
         | Some (Internal ch) \<Rightarrow> Some (Inr (cbits, sbits, buf))
         | Some (Leaf codeLen symb) \<Rightarrow>
             if codeLen > cbits then Some (Inr (cbits, sbits, buf))
             else if maxLen \<noteq> 0 \<and> int (length buf) = maxLen then Some (Inl ErrStringLength)
             else decode_tail root maxLen cur root (cbits - codeLen) (cbits - codeLen) (buf @ [symb]))
      else Some (Inr (cbits, sbits, buf)))"

definition huffmanDecode :: "int \<Rightarrow> bytes \<Rightarrow> (hpack_error + bytes) option" where
  "huffmanDecode maxLen v =
     (case decode_bytes rootHuffmanNode maxLen 0 rootHuffmanNode 0 0 [] v of
        None \<Rightarrow> None
      | Some (Inl e) \<Rightarrow> Some (Inl e)
      | Some (Inr (cur, n, cbits, sbits, buf)) \<Rightarrow>
          (case decode_tail rootHuffmanNode maxLen cur n cbits sbits buf of
             None \<Rightarrow> None
           | Some (Inl e) \<Rightarrow> Some (Inl e)
           | Some (Inr (cbits', sbits', buf')) \<Rightarrow>
               if sbits' > 7 then Some (Inl ErrInvalidHuffman)
               else let m = push_bit cbits' 1 - 1 in
                 if cur AND m \<noteq> m then Some (Inl ErrInvalidHuffman)
                 else Some (Inr buf')))"

definition HuffmanDecodeToString :: "bytes \<Rightarrow> (hpack_error + bytes) option" where
  "HuffmanDecodeToString v = huffmanDecode 0 v"

text \<open>The destination is a parameter: what its \<^verbatim>\<open>Write\<close> returns for the decoded bytes.\<close>

definition HuffmanDecode :: "(bytes \<Rightarrow> int \<times> 'e option) \<Rightarrow> bytes \<Rightarrow> (int \<times> (hpack_error + 'e) option) option" where
  "HuffmanDecode w v =
     (case huffmanDecode 0 v of
        None \<Rightarrow> None
      | Some (Inl e) \<Rightarrow> Some (0, Some (Inl e))
      | Some (Inr buf) \<Rightarrow> Some (case w buf of (n, err) \<Rightarrow> (n, map_option Inr err)))"

section \<open>The encoder\<close>

definition or_last :: "bytes \<Rightarrow> u8 \<Rightarrow> bytes" where
  "or_last dst t = or_at (length dst - 1) t dst"

function append_code_loop :: "u32 \<Rightarrow> bytes \<Rightarrow> nat \<Rightarrow> nat \<Rightarrow> bytes \<times> nat" where
  "append_code_loop code dst rembits nbits =
     (if rembits > nbits then
        (or_last dst (ucast (push_bit (rembits - nbits) code)), rembits - nbits)
      else
        let dst' = or_last dst (ucast (drop_bit (nbits - rembits) code)); nbits' = nbits - rembits in
        if nbits' = 0 then (dst', 8)
        else append_code_loop code (dst' @ [0]) 8 nbits')"
  by pat_completeness auto
termination
  by (relation "measure (\<lambda>(code, dst, rembits, nbits). 2 * nbits + (if rembits = 0 then 1 else 0))")
    auto

declare append_code_loop.simps [simp del]

definition appendByteToHuffmanCode :: "bytes \<Rightarrow> nat \<Rightarrow> u8 \<Rightarrow> bytes \<times> nat" where
  "appendByteToHuffmanCode dst rembits c = append_code_loop (code_of c) dst rembits (code_len c)"

fun append_huffman_loop :: "bytes \<Rightarrow> nat \<Rightarrow> bytes \<Rightarrow> bytes \<times> nat" where
  "append_huffman_loop dst rembits [] = (dst, rembits)"
| "append_huffman_loop dst rembits (c # s) =
     (let dst' = (if rembits = 8 then dst @ [0] else dst);
          (dst'', rembits') = appendByteToHuffmanCode dst' rembits c
      in append_huffman_loop dst'' rembits' s)"

definition AppendHuffmanString :: "bytes \<Rightarrow> bytes \<Rightarrow> bytes" where
  "AppendHuffmanString dst s =
     (let (dst', rembits) = append_huffman_loop dst 8 s in
      if rembits < 8 then or_last dst' (ucast (drop_bit (30 - rembits) (0x3fffffff :: u32)))
      else dst')"

definition HuffmanEncodeLength :: "bytes \<Rightarrow> u64" where
  "HuffmanEncodeLength s = (fold (\<lambda>c n. n + of_nat (code_len c)) s 0 + 7) div 8"

section \<open>Bit strings\<close>

text \<open>The bits of a byte string and of a code, most significant first.\<close>

definition path_bit :: "bytes \<Rightarrow> nat \<Rightarrow> bool" where
  "path_bit p k = bit (p ! (k div 8)) (7 - k mod 8)"

definition code_bit :: "u32 \<Rightarrow> nat \<Rightarrow> nat \<Rightarrow> bool" where
  "code_bit code len k = bit code (len - 1 - k)"

definition agrees :: "bytes \<Rightarrow> u32 \<Rightarrow> nat \<Rightarrow> bool" where
  "agrees p code len \<longleftrightarrow> (\<forall>k < min (8 * length p) len. path_bit p k = code_bit code len k)"

lemma path_bit_Cons:
  "path_bit (b # p) k = (if k < 8 then bit b (7 - k) else path_bit p (k - 8))"
proof (cases "k < 8")
  case False
  then obtain j where "k = j + 8"
    by (metis add.commute le_add_diff_inverse not_less)
  moreover have "(j + 8) div 8 = Suc (j div 8)"
    by simp
  ultimately show ?thesis
    by (simp add: path_bit_def)
qed (simp add: path_bit_def)

lemma agreesD:
  "agrees p code len \<Longrightarrow> k < 8 * length p \<Longrightarrow> k < len \<Longrightarrow> path_bit p k = code_bit code len k"
  by (simp add: agrees_def)

lemma byte_eqI: "(\<And>k. k < 8 \<Longrightarrow> bit (a::u8) (7 - k) = bit b (7 - k)) \<Longrightarrow> a = b"
proof (rule bit_word_eqI)
  fix n
  assume eq: "\<And>k. k < 8 \<Longrightarrow> bit a (7 - k) = bit b (7 - k)" and "n < LENGTH(8)"
  then have "7 - (7 - n) = n"
    by simp
  with eq [of "7 - n"] show "bit a n = bit b n"
    by simp
qed

lemma code_bit_drop:
  "8 < len \<Longrightarrow> k < len - 8 \<Longrightarrow> code_bit code (len - 8) k = code_bit code len (k + 8)"
  by (simp add: code_bit_def)

text \<open>The first octet of a code longer than eight bits.\<close>

definition code_head :: "u32 \<Rightarrow> nat \<Rightarrow> u8" where
  "code_head code len = ucast (drop_bit (len - 8) code)"

lemma bit_code_head:
  "8 < len \<Longrightarrow> len \<le> 32 \<Longrightarrow> k < 8 \<Longrightarrow> bit (code_head code len) (7 - k) = code_bit code len k"
  by (auto simp: code_head_def code_bit_def bit_simps)

lemma agrees_Cons_long:
  assumes "8 < len" "len \<le> 32"
  shows "agrees (b # p) code len \<longleftrightarrow> b = code_head code len \<and> agrees p code (len - 8)"
proof
  assume L: "agrees (b # p) code len"
  have "bit b (7 - k) = bit (code_head code len) (7 - k)" if "k < 8" for k
    using agreesD [OF L, of k] assms that by (simp add: path_bit_Cons bit_code_head)
  moreover have "path_bit p k = code_bit code (len - 8) k" if "k < min (8 * length p) (len - 8)" for k
  proof -
    have "path_bit (b # p) (k + 8) = code_bit code len (k + 8)"
      using that by (intro agreesD [OF L]) auto
    then show ?thesis
      using assms that by (simp add: path_bit_Cons code_bit_drop)
  qed
  ultimately show "b = code_head code len \<and> agrees p code (len - 8)"
    by (auto simp: agrees_def intro: byte_eqI)
next
  assume R: "b = code_head code len \<and> agrees p code (len - 8)"
  show "agrees (b # p) code len"
    unfolding agrees_def
  proof (intro allI impI)
    fix k
    assume k: "k < min (8 * length (b # p)) len"
    show "path_bit (b # p) k = code_bit code len k"
    proof (cases "k < 8")
      case True
      with R assms show ?thesis
        by (simp add: path_bit_Cons bit_code_head)
    next
      case False
      then have "path_bit p (k - 8) = code_bit code (len - 8) (k - 8)"
        using R k by (intro agreesD) auto
      moreover have "k - 8 < len - 8"
        using False k by auto
      ultimately show ?thesis
        using False assms code_bit_drop [of len "k - 8" code] by (simp add: path_bit_Cons)
    qed
  qed
qed

lemma agrees_Nil [simp]: "agrees [] code len"
  by (simp add: agrees_def)

section \<open>What the trie contains\<close>

text \<open>The node reached from a node's children by a path of octets.\<close>

fun descend :: "hchildren \<Rightarrow> bytes \<Rightarrow> hnode option" where
  "descend ch [] = Some (Internal ch)"
| "descend ch (b # p) =
     (case ch b of
        None \<Rightarrow> None
      | Some (Internal ch') \<Rightarrow> descend ch' p
      | Some (Leaf l s) \<Rightarrow> if p = [] then Some (Leaf l s) else None)"

lemma all_less_rev: "(\<forall>k<len. Q (len - 1 - k)) \<longleftrightarrow> (\<forall>n<(len::nat). Q n)"
proof safe
  fix n
  assume "\<forall>k<len. Q (len - 1 - k)" "n < len"
  moreover have "len - 1 - n < len" "len - 1 - (len - 1 - n) = n"
    using \<open>n < len\<close> by auto
  ultimately show "Q n"
    by metis
qed simp

lemma nat_div_eq_iff:
  fixes c n r :: nat
  assumes "0 < r"
  shows "n div r = c \<longleftrightarrow> c * r \<le> n \<and> n < c * r + r"
  using assms div_times_less_eq_dividend [of n r] dividend_less_div_times [OF assms, of n]
  by (auto intro!: div_nat_eqI simp: mult.commute add.commute)

lemma byte_image_iff:
  fixes b :: u8
  assumes "y \<le> 256"
  shows "b \<in> of_nat ` {x..<y} \<longleftrightarrow> x \<le> unat b \<and> unat b < y"
proof
  assume "b \<in> of_nat ` {x..<y}"
  then obtain n where n: "b = of_nat n" "x \<le> n" "n < y"
    by auto
  then have "unat b = n"
    using assms by (simp add: unsigned_of_nat take_bit_nat_eq_self)
  with n show "x \<le> unat b \<and> unat b < y"
    by simp
next
  assume "x \<le> unat b \<and> unat b < y"
  then have "unat b \<in> {x..<y}"
    by simp
  then have "(of_nat (unat b) :: u8) \<in> of_nat ` {x..<y}"
    by (rule imageI)
  then show "b \<in> of_nat ` {x..<y}"
    by (simp only: of_nat_unat ucast_id)
qed

lemma fold_fun_upd:
  "fold (\<lambda>i ch. ch(f i := v)) xs g b = (if b \<in> f ` set xs then v else g b)"
  by (induction xs arbitrary: g) auto

text \<open>The slots filled for a code of at most eight bits are the octets that start with it.\<close>

lemma short_code_start:
  fixes code :: u32
  assumes "1 \<le> len" "len \<le> 8" "unat code < 2 ^ len"
  shows "unat (ucast (push_bit (8 - len) code) :: u8) = unat code * 2 ^ (8 - len)"
proof -
  have "unat code * 2 ^ (8 - len) < 2 ^ len * 2 ^ (8 - len)"
    using assms(3) by simp
  also have "(2::nat) ^ len * 2 ^ (8 - len) = 2 ^ 8"
    using assms by (simp flip: power_add)
  finally have less: "unat code * 2 ^ (8 - len) < 256"
    by simp
  have "unat (push_bit (8 - len) code) = take_bit 32 (push_bit (8 - len) (unat code))"
    by (simp add: unsigned_push_bit_eq)
  also have "\<dots> = unat code * 2 ^ (8 - len)"
    using less by (simp add: push_bit_eq_mult take_bit_nat_eq_self)
  finally have "unat (push_bit (8 - len) code) = unat code * 2 ^ (8 - len)" .
  then show ?thesis
    using less by (simp add: unsigned_ucast_eq take_bit_nat_eq_self)
qed

lemma agrees_short_iff:
  assumes "1 \<le> len" "len \<le> 8" "unat code < 2 ^ len"
  shows "agrees [b] code len \<longleftrightarrow> unat b div 2 ^ (8 - len) = unat code"
proof -
  have b: "bit (unat b div 2 ^ (8 - len)) n = (n < len \<and> bit b (8 - len + n))" for n
  proof -
    have "bit (unat b div 2 ^ (8 - len)) n = bit b (8 - len + n)"
      by (simp add: bit_unsigned_iff flip: drop_bit_eq_div) (simp add: bit_simps)
    then show ?thesis
      using assms bit_imp_le_length [of b "8 - len + n"] by auto
  qed
  have c: "bit (unat code) n = (n < len \<and> bit code n)" for n
  proof -
    have "bit (take_bit len (unat code)) n = bit (unat code) n"
      using assms(3) by (simp add: take_bit_nat_eq_self)
    then show ?thesis
      by (auto simp: bit_simps)
  qed
  have "agrees [b] code len \<longleftrightarrow> (\<forall>k<len. bit b (8 - len + (len - 1 - k)) = bit code (len - 1 - k))"
    using assms by (auto simp: agrees_def path_bit_Cons code_bit_def min_def)
  also have "\<dots> \<longleftrightarrow> (\<forall>n<len. bit b (8 - len + n) = bit code n)"
    by (rule all_less_rev)
  also have "\<dots> \<longleftrightarrow> unat b div 2 ^ (8 - len) = unat code"
    by (auto simp: bit_eq_iff b c)
  finally show ?thesis .
qed

text \<open>Only the low \<open>len\<close> bits of the code count.\<close>

lemma unat_take_bit_less: "unat (take_bit len (code::u32)) < 2 ^ len"
  by (simp add: unsigned_take_bit_eq)

lemma short_code_low:
  fixes code :: u32
  assumes "1 \<le> len" "len \<le> 8"
  shows "(ucast (push_bit (8 - len) code) :: u8) = ucast (push_bit (8 - len) (take_bit len code))"
    and "agrees [b] code len = agrees [b] (take_bit len code) len"
proof -
  show "(ucast (push_bit (8 - len) code) :: u8) = ucast (push_bit (8 - len) (take_bit len code))"
    by (rule bit_word_eqI) (use assms in \<open>auto simp: bit_simps\<close>)
  show "agrees [b] code len = agrees [b] (take_bit len code) len"
    using assms by (auto simp: agrees_def code_bit_def bit_simps)
qed

lemma fill_leaves_spec:
  assumes "1 \<le> len" "len \<le> 8"
  shows "fill_leaves symb code len ch =
    Some (\<lambda>b. if agrees [b] code len then Some (Leaf len symb) else ch b)"
proof -
  let ?c = "unat (take_bit len code)" and ?r = "2 ^ (8 - len) :: nat"
  have start: "unat (ucast (push_bit (8 - len) code) :: u8) = ?c * ?r"
    by (subst short_code_low(1) [OF assms]) (rule short_code_start [OF assms unat_take_bit_less])
  have "?c * ?r + ?r = (?c + 1) * ?r"
    by simp
  also have "\<dots> \<le> 2 ^ len * ?r"
    using unat_take_bit_less [of len code] by (intro mult_le_mono1) simp
  also have "\<dots> = 256"
    using assms by (simp flip: power_add)
  finally have fits: "?c * ?r + ?r \<le> 256" .
  have "b \<in> of_nat ` set [?c * ?r ..< ?c * ?r + ?r] \<longleftrightarrow> agrees [b] code len" for b :: u8
  proof -
    have "b \<in> of_nat ` set [?c * ?r ..< ?c * ?r + ?r] \<longleftrightarrow> ?c * ?r \<le> unat b \<and> unat b < ?c * ?r + ?r"
      using fits by (simp only: set_upt byte_image_iff)
    also have "\<dots> \<longleftrightarrow> unat b div ?r = ?c"
      by (rule nat_div_eq_iff [symmetric]) simp
    finally show ?thesis
      by (simp only: short_code_low(2) [OF assms, of b code]
          agrees_short_iff [OF assms unat_take_bit_less])
  qed
  then show ?thesis
    using fits by (simp add: fill_leaves_def Let_def start fold_fun_upd fun_eq_iff)
qed

lemma agrees_Cons_short: "len \<le> 8 \<Longrightarrow> agrees (b # p) code len = agrees [b] code len"
  by (auto simp: agrees_def path_bit_Cons)

text \<open>
  The effect of adding a code: paths that agree with it lead to its leaf (or, when shorter
  than the code, to an internal node), all others are unchanged.  Adding fails only when a
  leaf is in the way.
\<close>

lemma addDecoderNode_Some:
  assumes "1 \<le> len" "len \<le> 32"
    and "\<And>p l s. agrees p code len \<Longrightarrow> 8 * length p < len \<Longrightarrow> descend ch p \<noteq> Some (Leaf l s)"
  shows "\<exists>ch'. addDecoderNode symb code len ch = Some ch'"
  using assms
proof (induction len arbitrary: ch rule: less_induct)
  case (less len)
  show ?case
  proof (cases "len > 8")
    case long: True
    let ?i = "code_head code len"
    have noleaf: "ch ?i \<noteq> Some (Leaf l s)" for l s
    proof
      assume "ch ?i = Some (Leaf l s)"
      then have "descend ch [?i] = Some (Leaf l s)"
        by simp
      with less.prems(3) [of "[?i]"] long less.prems(2) show False
        by (simp add: agrees_Cons_long)
    qed
    define ch1 where "ch1 = (case ch ?i of Some (Internal c) \<Rightarrow> c | _ \<Rightarrow> newInternalNode)"
    have sub: "(case ch ?i of None \<Rightarrow> Internal newInternalNode | Some n \<Rightarrow> n) = Internal ch1"
      using noleaf by (auto simp: ch1_def split: option.splits hnode.splits)
    have "descend ch1 p \<noteq> Some (Leaf l s)" if "agrees p code (len - 8)" "8 * length p < len - 8" for p l s
    proof -
      have "descend ch (?i # p) \<noteq> Some (Leaf l s)"
        using that long less.prems(2) by (intro less.prems(3)) (simp_all add: agrees_Cons_long)
      then show ?thesis
        using noleaf by (cases p) (auto simp: ch1_def newInternalNode_def split: option.splits hnode.splits)
    qed
    then obtain ch' where "addDecoderNode symb code (len - 8) ch1 = Some ch'"
      using less.IH [of "len - 8" ch1] long less.prems(2) by fastforce
    with long sub show ?thesis
      by (subst addDecoderNode.simps) (simp add: code_head_def Let_def)
  next
    case False
    with less.prems(1) show ?thesis
      by (subst addDecoderNode.simps) (simp add: fill_leaves_spec)
  qed
qed

lemma addDecoderNode_long:
  assumes "8 < len" "addDecoderNode symb code len ch = Some ch'"
  obtains ch1 ch1' where "addDecoderNode symb code (len - 8) ch1 = Some ch1'"
    and "ch' = ch(code_head code len := Some (Internal ch1'))"
    and "\<And>p. p \<noteq> [] \<Longrightarrow> descend ch1 p = descend ch (code_head code len # p)"
proof -
  let ?i = "code_head code len"
  from assms obtain ch1 ch1'
    where sub: "(case ch ?i of None \<Rightarrow> Internal newInternalNode | Some n \<Rightarrow> n) = Internal ch1"
      and rec: "addDecoderNode symb code (len - 8) ch1 = Some ch1'" "ch' = ch(?i := Some (Internal ch1'))"
    by (subst (asm) addDecoderNode.simps)
      (auto simp: code_head_def Let_def split: option.splits hnode.splits)
  have "descend ch1 p = descend ch (?i # p)" if "p \<noteq> []" for p
  proof (cases "ch ?i")
    case None
    with sub have "ch1 = newInternalNode"
      by simp
    with None that show ?thesis
      by (cases p) (simp_all add: newInternalNode_def)
  next
    case (Some n)
    with sub show ?thesis by simp
  qed
  with rec show ?thesis
    using that by blast
qed

lemma descend_addDecoderNode:
  assumes "1 \<le> len" "len \<le> 32" "addDecoderNode symb code len ch = Some ch'"
  shows "if agrees p code len
     then (8 * length p < len \<longrightarrow> (\<exists>c. descend ch' p = Some (Internal c))) \<and>
       (len \<le> 8 * length p \<and> 8 * length p < len + 8 \<longrightarrow>
          descend ch' p = Some (Leaf (len - 8 * (length p - 1)) symb))
     else descend ch' p = descend ch p"
  using assms
proof (induction len arbitrary: ch ch' p rule: less_induct)
  case (less len)
  show ?case
  proof (cases p)
    case Nil
    with less.prems(1) show ?thesis by auto
  next
    case (Cons b q)
    show ?thesis
    proof (cases "len > 8")
      case long: True
      obtain ch1 ch1' where rec: "addDecoderNode symb code (len - 8) ch1 = Some ch1'"
        and ch': "ch' = ch(code_head code len := Some (Internal ch1'))"
        and sub: "\<And>p. p \<noteq> [] \<Longrightarrow> descend ch1 p = descend ch (code_head code len # p)"
        by (rule addDecoderNode_long [OF long less.prems(3)]) blast
      have IH: "if agrees q code (len - 8)
         then (8 * length q < len - 8 \<longrightarrow> (\<exists>c. descend ch1' q = Some (Internal c))) \<and>
           (len - 8 \<le> 8 * length q \<and> 8 * length q < len - 8 + 8 \<longrightarrow>
              descend ch1' q = Some (Leaf (len - 8 - 8 * (length q - 1)) symb))
         else descend ch1' q = descend ch1 q"
        using less.IH [of "len - 8" ch1 ch1' q] rec long less.prems(2) by simp
      show ?thesis
      proof (cases "b = code_head code len")
        case True
        with Cons ch' have d: "descend ch' p = descend ch1' q"
          by simp
        have ag: "agrees p code len = agrees q code (len - 8)"
          using True Cons long less.prems(2) by (simp add: agrees_Cons_long)
        show ?thesis
        proof (cases "agrees q code (len - 8)")
          case False
          then have "q \<noteq> []" by auto
          with False IH ag d True Cons sub [of q] show ?thesis by simp
        next
          case agq: True
          have l: "length p = Suc (length q)" and q: "0 < length q" if "len \<le> 8 * length p"
            using that long Cons by auto
          have "8 * length q < len - 8 \<longleftrightarrow> 8 * length p < len" "len - 8 \<le> 8 * length q \<longleftrightarrow> len \<le> 8 * length p"
              "8 * length q < len - 8 + 8 \<longleftrightarrow> 8 * length p < len + 8"
            using Cons long by auto
          moreover have "len - 8 - 8 * (length q - 1) = len - 8 * (length p - 1)" if "len \<le> 8 * length p"
            using l [OF that] q [OF that] by (cases "length q") auto
          ultimately show ?thesis
            using agq IH ag d by simp
        qed
      next
        case False
        with Cons ch' long less.prems(2) show ?thesis
          by (simp add: agrees_Cons_long)
      qed
    next
      case short: False
      then have ch': "ch' = (\<lambda>b. if agrees [b] code len then Some (Leaf len symb) else ch b)"
        using less.prems by (subst (asm) addDecoderNode.simps) (simp add: fill_leaves_spec)
      have ag: "agrees (b # q) code len = agrees [b] code len"
        using short by (intro agrees_Cons_short) simp
      have "q = []" if "8 * length p < len + 8"
        using that short Cons by (cases q) auto
      with ch' short Cons show ?thesis
        by (auto simp only: ag) auto
    qed
  qed
qed

text \<open>Two codes that agree on their common length.\<close>

definition clash :: "u32 \<Rightarrow> nat \<Rightarrow> u32 \<Rightarrow> nat \<Rightarrow> bool" where
  "clash c l d m \<longleftrightarrow> (\<forall>k < min l m. code_bit c l k = code_bit d m k)"

lemma clashI:
  assumes "agrees p c l" "agrees p d m" "min l m \<le> 8 * length p"
  shows "clash c l d m"
  unfolding clash_def
proof (intro allI impI)
  fix k
  assume "k < min l m"
  with assms(3) agreesD [OF assms(1), of k] agreesD [OF assms(2), of k]
  show "code_bit c l k = code_bit d m k"
    by simp
qed

text \<open>The trie \<open>ch\<close> holds exactly the codes of the list \<open>S\<close> of symbols, codes and lengths.\<close>

definition leads_to :: "hchildren \<Rightarrow> u8 \<times> u32 \<times> nat \<Rightarrow> bool" where
  "leads_to ch e = (case e of (s, c, l) \<Rightarrow> \<forall>p. agrees p c l \<longrightarrow>
     (8 * length p < l \<longrightarrow> (\<exists>x. descend ch p = Some (Internal x))) \<and>
     (l \<le> 8 * length p \<and> 8 * length p < l + 8 \<longrightarrow>
        descend ch p = Some (Leaf (l - 8 * (length p - 1)) s)))"

definition trie_holds :: "hchildren \<Rightarrow> (u8 \<times> u32 \<times> nat) list \<Rightarrow> bool" where
  "trie_holds ch S \<longleftrightarrow>
     (\<forall>e \<in> set S. leads_to ch e) \<and>
     (\<forall>p l s. descend ch p = Some (Leaf l s) \<longrightarrow>
        (\<exists>(s', c, m) \<in> set S. agrees p c m \<and> m \<le> 8 * length p))"

lemma trie_holds_add:
  assumes tr: "trie_holds ch S" and len: "1 \<le> l" "l \<le> 32"
    and free: "\<And>s' d m. (s', d, m) \<in> set S \<Longrightarrow> \<not> clash c l d m"
  shows "\<exists>ch'. addDecoderNode s c l ch = Some ch' \<and> trie_holds ch' (S @ [(s, c, l)])"
proof -
  have "descend ch p \<noteq> Some (Leaf k x)" if "agrees p c l" "8 * length p < l" for p k x
  proof
    assume "descend ch p = Some (Leaf k x)"
    then obtain s' d m where "(s', d, m) \<in> set S" "agrees p d m" "m \<le> 8 * length p"
      using tr unfolding trie_holds_def by blast
    with that free [of s' d m] clashI [of p c l d m] show False by simp
  qed
  then obtain ch' where add: "addDecoderNode s c l ch = Some ch'"
    using addDecoderNode_Some [OF len, of c ch s] by blast
  note desc = descend_addDecoderNode [OF len add]
  have new: "leads_to ch' (s, c, l)"
    using desc by (auto simp: leads_to_def)
  have old: "leads_to ch' (s', d, m)" if mem: "(s', d, m) \<in> set S" for s' d m
    unfolding leads_to_def prod.case
  proof (intro allI impI)
    fix p
    assume ag: "agrees p d m"
    have "leads_to ch (s', d, m)"
      using tr mem by (auto simp: trie_holds_def)
    then have ch: "(8 * length p < m \<longrightarrow> (\<exists>x. descend ch p = Some (Internal x))) \<and>
        (m \<le> 8 * length p \<and> 8 * length p < m + 8 \<longrightarrow>
           descend ch p = Some (Leaf (m - 8 * (length p - 1)) s'))"
      using ag unfolding leads_to_def by blast
    show "(8 * length p < m \<longrightarrow> (\<exists>x. descend ch' p = Some (Internal x))) \<and>
        (m \<le> 8 * length p \<and> 8 * length p < m + 8 \<longrightarrow>
           descend ch' p = Some (Leaf (m - 8 * (length p - 1)) s'))"
    proof (cases "agrees p c l")
      case True
      then have "8 * length p < min l m"
        using clashI [OF True ag] free [OF mem] by linarith
      with True desc [of p] show ?thesis by auto
    next
      case False
      with desc [of p] ch show ?thesis by simp
    qed
  qed
  have leaves: "\<exists>(s', d, m) \<in> set (S @ [(s, c, l)]). agrees p d m \<and> m \<le> 8 * length p"
    if leaf: "descend ch' p = Some (Leaf k x)" for p k x
  proof (cases "agrees p c l")
    case True
    with desc [of p] leaf have "l \<le> 8 * length p"
      by (cases "8 * length p < l") auto
    with True show ?thesis by auto
  next
    case False
    with desc [of p] leaf have "descend ch p = Some (Leaf k x)"
      by simp
    then have "\<exists>(s', d, m) \<in> set S. agrees p d m \<and> m \<le> 8 * length p"
      using tr unfolding trie_holds_def by blast
    then show ?thesis by auto
  qed
  have "\<forall>e \<in> set (S @ [(s, c, l)]). leads_to ch' e"
    using new old by auto
  with leaves add show ?thesis
    unfolding trie_holds_def by blast
qed

subsection \<open>The table's codes do not clash\<close>

lemma clash_div:
  assumes "l \<le> m" "unat c < 2 ^ l" "unat d < 2 ^ m" "m \<le> 32" "clash c l d m"
  shows "unat c = unat d div 2 ^ (m - l)"
proof (rule bit_eqI)
  fix n
  have c: "bit c n = (n < l \<and> bit c n)"
  proof -
    have "bit (take_bit l (unat c)) n = bit (unat c) n"
      using assms(2) by (simp add: take_bit_nat_eq_self)
    then show ?thesis by (auto simp: bit_simps)
  qed
  have d: "bit d k = (k < m \<and> bit d k)" for k
  proof -
    have "bit (take_bit m (unat d)) k = bit (unat d) k"
      using assms(3) by (simp add: take_bit_nat_eq_self)
    then show ?thesis by (auto simp: bit_simps)
  qed
  have "bit c n = bit d (m - l + n)"
  proof (cases "n < l")
    case True
    then have "code_bit c l (l - 1 - n) = code_bit d m (l - 1 - n)"
      using assms(1,5) by (auto simp: clash_def)
    moreover have "l - 1 - (l - 1 - n) = n" "m - 1 - (l - 1 - n) = m - l + n"
      using True assms(1) by auto
    ultimately show ?thesis
      by (simp add: code_bit_def)
  next
    case False
    with c d [of "m - l + n"] assms(1) show ?thesis by auto
  qed
  then show "bit (unat c) n = bit (unat d div 2 ^ (m - l)) n"
    by (simp add: bit_simps flip: drop_bit_eq_div)
qed

lemma clash_not_apart:
  assumes "l \<le> m" "unat c < 2 ^ l" "unat d < 2 ^ m" "m \<le> 30" "clash c l d m"
  shows "\<not> apart (code_interval c l) (code_interval d m)"
proof -
  let ?s = "2 ^ (m - l) :: nat" and ?t = "2 ^ (30 - m) :: nat"
  have "unat d div ?s = unat c"
    using clash_div [OF assms(1-3) _ assms(5)] assms(4) by simp
  then have "unat c * ?s \<le> unat d" "unat d < unat c * ?s + ?s"
    by (simp_all add: nat_div_eq_iff)
  then have "unat c * ?s * ?t \<le> unat d * ?t" "unat d * ?t < (unat c * ?s + ?s) * ?t"
    by simp_all
  moreover have "?s * ?t = 2 ^ (30 - l)"
    using assms(1,4) by (simp flip: power_add)
  ultimately have "unat c * 2 ^ (30 - l) \<le> unat d * ?t" "unat d * ?t < unat c * 2 ^ (30 - l) + 2 ^ (30 - l)"
    by (simp_all add: mult.assoc distrib_right)
  then have "int (unat c * 2 ^ (30 - l)) \<le> int (unat d * ?t)"
      "int (unat d * ?t) < int (unat c * 2 ^ (30 - l) + 2 ^ (30 - l))"
    by linarith+
  then have le: "uint c * 2 ^ (30 - l) \<le> uint d * 2 ^ (30 - m)"
      "uint d * 2 ^ (30 - m) < uint c * 2 ^ (30 - l) + 2 ^ (30 - l)"
    by simp_all
  have "(0::int) < 2 ^ (30 - m)"
    by simp
  with le show ?thesis
    unfolding apart_def code_interval_def fst_conv snd_conv by linarith
qed

lemma clash_sym: "clash c l d m = clash d m c l"
  by (auto simp: clash_def min.commute)

lemma codes_do_not_clash:
  assumes "a \<noteq> b"
  shows "\<not> clash (code_of a) (code_len a) (code_of b) (code_len b)"
proof (cases "code_len a \<le> code_len b")
  case True
  then show ?thesis
    using clash_not_apart [of "code_len a" "code_len b"] code_bounds code_apart [OF assms] by metis
next
  case False
  then show ?thesis
    using clash_not_apart [of "code_len b" "code_len a" "code_of b" "code_of a"] code_bounds
      code_apart [of b a] assms clash_sym by (metis linear)
qed

subsection \<open>Start-up\<close>

definition table_entry :: "nat \<Rightarrow> u8 \<times> u32 \<times> nat" where
  "table_entry j = (of_nat j, code_of (of_nat j), code_len (of_nat j))"

lemma unat_of_nat_byte: "j < 256 \<Longrightarrow> unat (of_nat j :: u8) = j"
  by (simp add: unsigned_of_nat take_bit_nat_eq_self)

lemma init_from_spec:
  assumes "i + n = 256" "trie_holds ch (map table_entry [0..<i])"
  shows "\<exists>root. init_from i (drop i (zip huffmanCodes huffmanCodeLen)) ch = Some root \<and>
    trie_holds root (map table_entry [0..<256])"
  using assms
proof (induction n arbitrary: i ch)
  case 0
  then show ?case by (simp add: length_tables)
next
  case (Suc n)
  then have i: "i < 256" by simp
  let ?c = "of_nat i :: u8"
  have step: "drop i (zip huffmanCodes huffmanCodeLen) =
      (code_of ?c, code_len ?c) # drop (Suc i) (zip huffmanCodes huffmanCodeLen)"
    using i by (simp add: Cons_nth_drop_Suc [symmetric] length_tables code_of_def code_len_def
        unat_of_nat_byte)
  have "\<not> clash (code_of ?c) (code_len ?c) d m" if "(s', d, m) \<in> set (map table_entry [0..<i])" for s' d m
  proof -
    from that obtain j where j: "j < i" "(s', d, m) = table_entry j"
      by auto
    then have "unat (of_nat j :: u8) \<noteq> unat ?c"
      using i by (simp add: unat_of_nat_byte)
    then have "?c \<noteq> of_nat j"
      by metis
    with j codes_do_not_clash show ?thesis
      by (simp add: table_entry_def)
  qed
  then obtain ch' where add: "addDecoderNode ?c (code_of ?c) (code_len ?c) ch = Some ch'"
      "trie_holds ch' (map table_entry [0..<i] @ [(?c, code_of ?c, code_len ?c)])"
    using trie_holds_add [OF Suc.prems(2), of "code_len ?c" "code_of ?c" ?c] code_bounds [of ?c]
    by fastforce
  then have "trie_holds ch' (map table_entry [0..<Suc i])"
    by (simp add: table_entry_def)
  with Suc.IH [of "Suc i" ch'] Suc.prems(1) step add(1) show ?case
    by simp
qed

lemma rootHuffmanNode_holds: "trie_holds rootHuffmanNode (map table_entry [0..<256])"
  and huffman_init_Some: "huffman_init = Some rootHuffmanNode"
proof -
  have "descend newInternalNode p \<noteq> Some (Leaf l s)" for p l s
    by (cases p) (simp_all add: newInternalNode_def)
  then have "trie_holds newInternalNode (map table_entry [0..<0])"
    by (simp add: trie_holds_def)
  from init_from_spec [OF _ this, of 256] obtain root
    where root: "huffman_init = Some root" "trie_holds root (map table_entry [0..<256])"
    unfolding huffman_init_def length_tables by auto
  have "rootHuffmanNode = root"
    unfolding rootHuffmanNode_def root(1) by simp
  with root show "trie_holds rootHuffmanNode (map table_entry [0..<256])"
      "huffman_init = Some rootHuffmanNode"
    by blast+
qed

lemma root_leads_to: "leads_to rootHuffmanNode (c, code_of c, code_len c)"
proof -
  have "of_nat (unat c) = c"
    by (simp only: of_nat_unat ucast_id)
  then have "table_entry (unat c) = (c, code_of c, code_len c)"
    by (simp only: table_entry_def)
  moreover have "table_entry (unat c) \<in> set (map table_entry [0..<256])"
    by (simp add: image_eqI)
  ultimately show ?thesis
    using rootHuffmanNode_holds unfolding trie_holds_def by metis
qed

lemma root_internal:
  "agrees p (code_of c) (code_len c) \<Longrightarrow> 8 * length p < code_len c \<Longrightarrow>
     \<exists>x. descend rootHuffmanNode p = Some (Internal x)"
  and root_leaf:
  "agrees p (code_of c) (code_len c) \<Longrightarrow> code_len c \<le> 8 * length p \<Longrightarrow>
     8 * length p < code_len c + 8 \<Longrightarrow>
     descend rootHuffmanNode p = Some (Leaf (code_len c - 8 * (length p - 1)) c)"
  using root_leads_to [of c] by (auto simp: leads_to_def)

end
