(* ===== verification/HPACK_Huffman_Correct.thy ===== *)
theory HPACK_Huffman_Correct
  imports HPACK_Huffman
begin

text \<open>
  Correctness of the Huffman coder of package \<^verbatim>\<open>hpack\<close>: what the encoder writes, bit by
  bit, and that the decoder reads it back.
\<close>

section \<open>The encoder, bit by bit\<close>

text \<open>The bits of an encoded string: the codes one after the other, then ones.\<close>

fun code_stream :: "bytes \<Rightarrow> nat \<Rightarrow> bool" where
  "code_stream [] k = True"
| "code_stream (c # s) k =
     (if k < code_len c then code_bit (code_of c) (code_len c) k
      else code_stream s (k - code_len c))"

definition stream_len :: "bytes \<Rightarrow> nat" where
  "stream_len s = sum_list (map code_len s)"

lemma stream_len_simps [simp]:
  "stream_len [] = 0" "stream_len (c # s) = code_len c + stream_len s"
  by (simp_all add: stream_len_def)

lemma code_stream_append:
  "code_stream (s @ t) k = (if k < stream_len s then code_stream s k else code_stream t (k - stream_len s))"
  by (induction s arbitrary: k) auto

text \<open>The first \<open>P\<close> bits of \<open>dst\<close> are those of \<open>f\<close>, the others are zero.\<close>

definition holds :: "bytes \<Rightarrow> nat \<Rightarrow> (nat \<Rightarrow> bool) \<Rightarrow> bool" where
  "holds dst P f \<longleftrightarrow> P \<le> 8 * length dst \<and> (\<forall>k < 8 * length dst. path_bit dst k = (k < P \<and> f k))"

lemma path_bit_append:
  "path_bit (p @ q) k = (if k < 8 * length p then path_bit p k else path_bit q (k - 8 * length p))"
proof (induction p arbitrary: k)
  case (Cons b p)
  show ?case
    using Cons.IH [of "k - 8"] by (auto simp: path_bit_Cons)
qed simp

lemma path_bit_eqI:
  assumes "length p = length q" "\<And>k. k < 8 * length p \<Longrightarrow> path_bit p k = path_bit q k"
  shows "p = q"
  using assms
proof (induction p q rule: list_induct2)
  case (Cons b p c q)
  have "bit b (7 - k) = bit c (7 - k)" if "k < 8" for k
    using Cons.prems [of k] that by (simp add: path_bit_Cons)
  then have "b = c"
    by (rule byte_eqI)
  moreover have "path_bit p k = path_bit q k" if "k < 8 * length p" for k
    using Cons.prems [of "k + 8"] that by (simp add: path_bit_Cons)
  ultimately show ?case
    using Cons.IH by blast
qed simp

lemma or_last_snoc: "or_last (xs @ [x]) t = xs @ [x OR t]"
  by (simp add: or_last_def)

lemma length_or_last [simp]: "length (or_last dst t) = length dst"
  by (simp add: or_last_def or_at_def)

lemma path_bit_or_last:
  assumes "dst \<noteq> []" "k < 8 * length dst"
  shows "path_bit (or_last dst t) k =
    (path_bit dst k \<or> 8 * (length dst - 1) \<le> k \<and> bit t (8 * length dst - 1 - k))"
proof -
  obtain xs x where dst: "dst = xs @ [x]"
    using assms(1) by (metis append_butlast_last_id)
  have "k - 8 * length xs < 8 \<and> 7 - (k - 8 * length xs) = 8 * length dst - 1 - k" if "8 * length xs \<le> k"
    using assms(2) that by (auto simp: dst)
  with assms(2) show ?thesis
    by (auto simp: dst or_last_snoc path_bit_append path_bit_Cons bit_simps)
qed

text \<open>One octet of a code: the bits the loop adds to the last octet when \<open>n\<close> bits are left
  and there is room for \<open>r\<close>.\<close>

definition code_octet :: "u32 \<Rightarrow> nat \<Rightarrow> nat \<Rightarrow> u8" where
  "code_octet code r n = (if r > n then ucast (push_bit (r - n) code) else ucast (drop_bit (n - r) code))"

lemma bit_code_octet:
  "n \<le> 32 \<Longrightarrow> r \<le> 8 \<Longrightarrow> bit (code_octet code r n) j \<longleftrightarrow> j < 8 \<and> r \<le> j + n \<and> bit code (j + n - r)"
  by (auto simp: code_octet_def bit_simps add.commute)

lemma holds_code_octet:
  assumes "1 \<le> r" "r \<le> 8" "dst \<noteq> []" "n \<le> 32" "r = 8 \<or> unat code < 2 ^ n"
    and "holds dst (8 * length dst - r) f"
  defines "P \<equiv> 8 * length dst - r"
  shows "holds (or_last dst (code_octet code r n)) (min (8 * length dst) (P + n))
    (\<lambda>k. if k < P then f k else code_bit code n (k - P))"
  unfolding holds_def length_or_last
proof (intro conjI allI impI)
  fix k
  assume k: "k < 8 * length dst"
  have len: "8 \<le> 8 * length dst"
    using assms(3) by (cases dst) auto
  have high: "\<not> bit code j" if "n \<le> j" "unat code < 2 ^ n" for j
  proof -
    have "bit (take_bit n (unat code)) j = bit (unat code) j"
      using that(2) by (simp add: take_bit_nat_eq_self)
    with that(1) show ?thesis by (simp add: bit_simps)
  qed
  have old: "path_bit dst k = (k < P \<and> f k)"
    using assms(6) k by (simp add: holds_def P_def)
  have octet: "path_bit (or_last dst (code_octet code r n)) k =
      (path_bit dst k \<or> 8 * (length dst - 1) \<le> k \<and>
        r \<le> 8 * length dst - 1 - k + n \<and> bit code (8 * length dst - 1 - k + n - r))"
    using assms k by (auto simp: path_bit_or_last bit_code_octet)
  show "path_bit (or_last dst (code_octet code r n)) k =
      (k < min (8 * length dst) (P + n) \<and> (if k < P then f k else code_bit code n (k - P)))"
  proof (cases "k < P")
    case True
    then have "n \<le> 8 * length dst - 1 - k + n - r"
      by (simp add: P_def)
    with True high assms(5) have "\<not> (8 * (length dst - 1) \<le> k \<and> bit code (8 * length dst - 1 - k + n - r))"
      by (auto simp: P_def)
    with True octet old k show ?thesis by auto
  next
    case False
    have "8 * (length dst - 1) \<le> k"
      using False assms(2) len by (auto simp: P_def)
    moreover have "r \<le> 8 * length dst - 1 - k + n \<longleftrightarrow> k < P + n"
      unfolding P_def using k assms(1,2) len by linarith
    moreover have "8 * length dst - 1 - k + n - r = n - 1 - (k - P)" if "k < P + n"
      unfolding P_def using that [unfolded P_def] k assms(1,2) len False [unfolded P_def] by linarith
    ultimately show ?thesis
      using octet old k False by (auto simp: code_bit_def)
  qed
qed simp

text \<open>The whole code of one octet, across as many output octets as it needs.  \<open>r'\<close> is the
  room left in the last octet, with 8 for "none".\<close>

definition room :: "nat \<Rightarrow> nat" where
  "room r = (if r = 8 then 0 else r)"

lemma holds_cong:
  "holds dst P f \<Longrightarrow> (\<And>k. k < P \<Longrightarrow> f k = g k) \<Longrightarrow> P = Q \<Longrightarrow> holds dst Q g"
  by (auto simp: holds_def)

lemma holds_zero_octet: "holds dst P f \<Longrightarrow> holds (dst @ [0]) P f"
  by (auto simp: holds_def path_bit_append path_bit_Cons)

lemma append_code_loop_holds:
  assumes "1 \<le> r" "r \<le> 8" "dst \<noteq> []" "1 \<le> n" "n \<le> 32" "r = 8 \<or> unat code < 2 ^ n"
    and "holds dst (8 * length dst - r) f" "append_code_loop code dst r n = (d, r')"
  shows "1 \<le> r' \<and> r' \<le> 8 \<and> d \<noteq> [] \<and> 8 * length d = 8 * length dst - r + n + room r' \<and>
    holds d (8 * length dst - r + n)
      (\<lambda>k. if k < 8 * length dst - r then f k else code_bit code n (k - (8 * length dst - r)))"
  using assms
proof (induction n arbitrary: dst r f rule: less_induct)
  case (less n)
  let ?P = "8 * length dst - r"
  let ?g = "\<lambda>k. if k < ?P then f k else code_bit code n (k - ?P)"
  let ?dst = "or_last dst (code_octet code r n)"
  have len: "8 \<le> 8 * length dst"
    using less.prems(3) by (cases dst) auto
  have octet: "holds ?dst (min (8 * length dst) (?P + n)) ?g"
    using holds_code_octet less.prems(1-3,5-7) by blast
  have ne: "?dst \<noteq> []"
    using less.prems(3) by (metis length_0_conv length_or_last)
  show ?case
  proof (cases "r > n")
    case True
    then have eq: "d = ?dst" "r' = r - n"
      using less.prems(8) by (auto simp: append_code_loop.simps [of code dst r n] code_octet_def)
    have "min (8 * length dst) (?P + n) = ?P + n"
      using True len less.prems(2) by linarith
    with octet eq ne True len less.prems(2,4) show ?thesis
      by (auto simp: room_def)
  next
    case False
    have m: "min (8 * length dst) (?P + n) = 8 * length dst"
      using False len less.prems(2) by linarith
    show ?thesis
    proof (cases "n = r")
      case True
      then have eq: "d = ?dst" "r' = 8"
        using less.prems(8) by (simp_all add: append_code_loop.simps [of code dst r r] code_octet_def)
      with octet ne True m len less.prems(2) show ?thesis
        by (simp add: room_def)
    next
      case n_r: False
      then have rec: "append_code_loop code (?dst @ [0]) 8 (n - r) = (d, r')"
        using False less.prems(8)
        by (simp add: append_code_loop.simps [of code dst r n] code_octet_def Let_def)
      have base: "8 * length (?dst @ [0]) - 8 = 8 * length dst"
        by simp
      have h: "holds (?dst @ [0]) (8 * length dst) ?g"
        using holds_zero_octet [OF octet] m by simp
      have IH: "1 \<le> r' \<and> r' \<le> 8 \<and> d \<noteq> [] \<and> 8 * length d = 8 * length dst + (n - r) + room r' \<and>
          holds d (8 * length dst + (n - r))
            (\<lambda>k. if k < 8 * length dst then ?g k else code_bit code (n - r) (k - 8 * length dst))"
        by (rule less.IH [of "n - r" 8 "?dst @ [0]" ?g, unfolded base])
          (use rec h False n_r less.prems(1,5) in simp_all)
      have eqP: "8 * length dst + (n - r) = ?P + n"
        using False len less.prems(2) by linarith
      have tail: "code_bit code (n - r) (k - 8 * length dst) = code_bit code n (k - ?P)"
        if "8 * length dst \<le> k" for k
      proof -
        have "n - r - 1 - (k - 8 * length dst) = n - 1 - (k - ?P)"
          using that False len less.prems(2) by linarith
        then show ?thesis by (simp add: code_bit_def)
      qed
      have "holds d (?P + n) ?g"
        by (rule holds_cong [OF IH [THEN conjunct2, THEN conjunct2, THEN conjunct2, THEN conjunct2]])
          (use eqP tail in auto)
      with IH eqP show ?thesis by simp
    qed
  qed
qed

lemma append_huffman_loop_holds:
  assumes "1 \<le> r" "r \<le> 8" "8 * length dst = P + room r" "holds dst P f"
    and "append_huffman_loop dst r s = (d, r')"
  shows "1 \<le> r' \<and> r' \<le> 8 \<and> 8 * length d = P + stream_len s + room r' \<and>
    holds d (P + stream_len s) (\<lambda>k. if k < P then f k else code_stream s (k - P))"
  using assms
proof (induction s arbitrary: dst r P f)
  case Nil
  then show ?case
    by (auto intro: holds_cong)
next
  case (Cons c s)
  define dst1 where "dst1 = (if r = 8 then dst @ [0] else dst)"
  obtain d1 r1 where one: "append_code_loop (code_of c) dst1 r (code_len c) = (d1, r1)"
    by fastforce
  have P: "8 * length dst1 - r = P" "dst1 \<noteq> []" "holds dst1 P f"
    using Cons.prems(1-4) holds_zero_octet by (auto simp: dst1_def room_def split: if_splits)
  have rec: "append_huffman_loop d1 r1 s = (d, r')"
    using Cons.prems(5) one by (simp add: appendByteToHuffmanCode_def dst1_def [symmetric])
  let ?f = "\<lambda>k. if k < P then f k else code_bit (code_of c) (code_len c) (k - P)"
  have "1 \<le> r1 \<and> r1 \<le> 8 \<and> 8 * length d1 = P + code_len c + room r1 \<and> holds d1 (P + code_len c) ?f"
    using append_code_loop_holds [OF Cons.prems(1,2) P(2) _ _ _ _ one, of f] P(3) code_bounds [of c]
    unfolding P(1) by simp
  with Cons.IH [OF _ _ _ _ rec, of "P + code_len c" ?f]
  have IH: "1 \<le> r' \<and> r' \<le> 8 \<and> 8 * length d = P + code_len c + stream_len s + room r' \<and>
      holds d (P + code_len c + stream_len s)
        (\<lambda>k. if k < P + code_len c then ?f k else code_stream s (k - (P + code_len c)))"
    by simp
  have "holds d (P + stream_len (c # s)) (\<lambda>k. if k < P then f k else code_stream (c # s) (k - P))"
    by (rule holds_cong [OF IH [THEN conjunct2, THEN conjunct2, THEN conjunct2]]) auto
  with IH show ?case by simp
qed

lemma bit_mask_octet:
  "r < 8 \<Longrightarrow> r \<le> n \<Longrightarrow> n \<le> 32 \<Longrightarrow> bit (ucast (drop_bit (n - r) (mask n :: u32)) :: u8) j \<longleftrightarrow> j < r"
  by (auto simp: bit_simps)

lemma eos_octet: "r < 8 \<Longrightarrow> bit (ucast (drop_bit (30 - r) (0x3fffffff :: u32)) :: u8) j \<longleftrightarrow> j < r"
  using bit_mask_octet [of r 30 j] by (simp add: mask_eq_exp_minus_1)

text \<open>The bits of the encoded string, and how many octets there are.\<close>

lemma AppendHuffmanString_bits:
  fixes dst s
  defines "out \<equiv> AppendHuffmanString dst s"
  shows "8 * length out < 8 * length dst + stream_len s + 8"
    and "8 * length dst + stream_len s \<le> 8 * length out"
    and "k < 8 * length out \<Longrightarrow> path_bit out k =
      (if k < 8 * length dst then path_bit dst k else code_stream s (k - 8 * length dst))"
proof -
  let ?P = "8 * length dst"
  let ?f = "\<lambda>k. if k < ?P then path_bit dst k else code_stream s (k - ?P)"
  obtain d r where loop: "append_huffman_loop dst 8 s = (d, r)"
    by fastforce
  have "holds dst ?P (path_bit dst)"
    by (simp add: holds_def)
  from append_huffman_loop_holds [OF _ _ _ this loop]
  have r: "1 \<le> r" "r \<le> 8" "8 * length d = ?P + stream_len s + room r"
    and h: "holds d (?P + stream_len s) ?f"
    by (simp_all add: room_def)
  have out: "out = (if r < 8 then or_last d (ucast (drop_bit (30 - r) (0x3fffffff :: u32))) else d)"
    by (simp add: out_def AppendHuffmanString_def loop)
  then have len: "length out = length d"
    by simp
  with r show "8 * length out < ?P + stream_len s + 8" "?P + stream_len s \<le> 8 * length out"
    by (auto simp: room_def)
  assume k: "k < 8 * length out"
  have pad: "code_stream s (k - ?P)" if "?P + stream_len s \<le> k"
  proof -
    have "\<not> k - ?P < stream_len s"
      using that by linarith
    then show ?thesis
      using code_stream_append [of s "[]" "k - ?P"] by simp
  qed
  show "path_bit out k = ?f k"
  proof (cases "r < 8")
    case True
    then have "d \<noteq> []"
      using r by (auto simp: room_def)
    then have "path_bit out k = (path_bit d k \<or> 8 * (length d - 1) \<le> k \<and> 8 * length d - 1 - k < r)"
      using out True k len by (simp add: path_bit_or_last eos_octet)
    moreover have "8 * (length d - 1) \<le> k \<and> 8 * length d - 1 - k < r \<longleftrightarrow> ?P + stream_len s \<le> k"
      using True r(1,3) k len by (auto simp: room_def)
    moreover have "path_bit d k = (k < ?P + stream_len s \<and> ?f k)"
      using h k len by (simp add: holds_def)
    ultimately show ?thesis
      using pad by auto
  next
    case False
    with r h k len out show ?thesis
      by (auto simp: holds_def room_def)
  qed
qed

lemma AppendHuffmanString_append: "AppendHuffmanString dst s = dst @ AppendHuffmanString [] s"
proof (rule path_bit_eqI)
  show "length (AppendHuffmanString dst s) = length (dst @ AppendHuffmanString [] s)"
    using AppendHuffmanString_bits(1,2) [of dst s] AppendHuffmanString_bits(1,2) [of "[]" s] by simp
  then show "path_bit (AppendHuffmanString dst s) k = path_bit (dst @ AppendHuffmanString [] s) k"
    if "k < 8 * length (AppendHuffmanString dst s)" for k
    using that AppendHuffmanString_bits(3) [of k dst s] AppendHuffmanString_bits(3) [of "k - 8 * length dst" "[]" s]
    by (auto simp: path_bit_append)
qed

end
