(* ===== verification/HPACK_Huffman_Roundtrip.thy ===== *)
theory HPACK_Huffman_Roundtrip
  imports HPACK_Huffman_Correct
begin

text \<open>
  Correctness of the Huffman decoder of package \<^verbatim>\<open>hpack\<close>: it returns on every input, it
  accepts exactly the strings the encoder writes, and it gives back what was encoded.
\<close>

section \<open>The leaves of the trie\<close>

lemma descend_snoc:
  "descend ch p = Some (Internal n) \<Longrightarrow> descend ch (p @ [b]) = n b"
  by (induction ch p rule: descend.induct) (auto split: option.splits hnode.splits if_splits)

lemma descend_beyond_leaf:
  "descend ch p = Some (Leaf l s) \<Longrightarrow> q \<noteq> [] \<Longrightarrow> descend ch (p @ q) = None"
  by (induction ch p rule: descend.induct) (auto split: option.splits hnode.splits if_splits)

lemma agrees_take: "agrees (p @ q) c m \<Longrightarrow> agrees p c m"
  unfolding agrees_def path_bit_append length_append
  by (metis add.commute add_mult_distrib2 min_less_iff_conj trans_less_add2)

lemma root_leaf_is_code:
  assumes "descend rootHuffmanNode p = Some (Leaf l x)"
  shows "agrees p (code_of x) (code_len x)" "p \<noteq> []" "code_len x = 8 * (length p - 1) + l" "1 \<le> l" "l \<le> 8"
proof -
  obtain s' c m where "(s', c, m) \<in> set (map table_entry [0..<256])" and ag: "agrees p c m" "m \<le> 8 * length p"
    using rootHuffmanNode_holds assms unfolding trie_holds_def by blast
  then have cm: "c = code_of s'" "m = code_len s'"
    by (auto simp: table_entry_def)
  let ?k = "(m + 7) div 8"
  have m: "5 \<le> m"
    using code_bounds [of s'] cm by simp
  have k: "?k \<le> length p" "1 \<le> ?k" "m \<le> 8 * ?k" "8 * ?k < m + 8"
    using ag(2) m by presburger+
  have "agrees (take ?k p) c m"
    using ag(1) agrees_take [of "take ?k p" "drop ?k p"] by simp
  then have leaf: "descend rootHuffmanNode (take ?k p) = Some (Leaf (m - 8 * (?k - 1)) s')"
    using root_leaf [of "take ?k p" s'] k cm by (simp add: min_absorb2)
  have "drop ?k p = []"
  proof (rule ccontr)
    assume "drop ?k p \<noteq> []"
    from descend_beyond_leaf [OF leaf this] assms show False by simp
  qed
  with k(1) have p: "take ?k p = p" "length p = ?k"
    by auto
  with leaf assms have eq: "x = s'" "l = m - 8 * (length p - 1)"
    by auto
  show "agrees p (code_of x) (code_len x)"
    using ag(1) eq cm by simp
  show "p \<noteq> []" "code_len x = 8 * (length p - 1) + l" "1 \<le> l" "l \<le> 8"
    using k p eq cm m by auto
qed

text \<open>An octet that starts with at most seven ones and ends in zeros never completes a code.\<close>

lemma ones_octet:
  fixes cur :: u64
  assumes "1 \<le> c" "c \<le> 7" "\<forall>k<c. bit cur (c - 1 - k)"
  shows "(ucast (push_bit (8 - c) cur) :: u8) = 255 - mask (8 - c)"
proof -
  have "(255::u8) - mask (8 - c) = NOT (mask (8 - c))"
    by (simp add: not_eq_complement)
  moreover have "(ucast (push_bit (8 - c) cur) :: u8) = NOT (mask (8 - c))"
  proof (rule bit_word_eqI)
    fix n
    assume "n < LENGTH(8)"
    then have n: "n < 8" by simp
    have "bit cur (n - (8 - c)) \<longleftrightarrow> True" if "8 - c \<le> n"
      using assms(3)[rule_format, of "c - 1 - (n - (8 - c))"] assms(1,2) n that by (simp add: add.commute)
    with n show "bit (ucast (push_bit (8 - c) cur) :: u8) n = bit (NOT (mask (8 - c)) :: u8) n"
      by (auto simp: bit_simps)
  qed
  ultimately show ?thesis by simp
qed

definition completes :: "hnode option \<Rightarrow> nat \<Rightarrow> bool" where
  "completes n c \<longleftrightarrow> (case n of None \<Rightarrow> True | Some (Internal _) \<Rightarrow> False | Some (Leaf l _) \<Rightarrow> l \<le> c)"

lemma completes_short:
  assumes "agrees [b] (code_of x) (code_len x)" "c < code_len x" "c < 8"
  shows "\<not> completes (rootHuffmanNode b) c"
proof -
  have root: "descend rootHuffmanNode [b] = rootHuffmanNode b"
    using descend_snoc [of rootHuffmanNode "[]" rootHuffmanNode b] by simp
  show ?thesis
  proof (cases "code_len x \<le> 8")
    case True
    then have "rootHuffmanNode b = Some (Leaf (code_len x) x)"
      using root_leaf [OF assms(1)] root code_bounds [of x] by simp
    with assms(2) show ?thesis by (simp add: completes_def)
  next
    case False
    then obtain y where "rootHuffmanNode b = Some (Internal y)"
      using root_internal [OF assms(1)] root by auto
    then show ?thesis by (simp add: completes_def)
  qed
qed

lemma padding_codes:
  "code_of 61 = 0x20" "code_of 69 = 0x60" "code_of 85 = 0x70" "code_of 119 = 0x78"
  "code_of 38 = 0xf8" "code_of 88 = 0xfc" "code_of 33 = 0x3f8"
  by (simp_all add: code_of_def huffmanCodes_def)

lemma padding_lengths:
  "code_len 61 = 6" "code_len 69 = 7" "code_len 85 = 7" "code_len 119 = 7" "code_len 38 = 8"
  "code_len 88 = 8" "code_len 33 = 10"
  by (simp_all add: code_len_def huffmanCodeLen_def)

lemma padding_octets:
  "agrees [0x80] (code_of 61) (code_len 61)" "agrees [0xc0] (code_of 69) (code_len 69)"
  "agrees [0xe0] (code_of 85) (code_len 85)" "agrees [0xf0] (code_of 119) (code_len 119)"
  "agrees [0xf8] (code_of 38) (code_len 38)" "agrees [0xfc] (code_of 88) (code_len 88)"
  "agrees [0xfe] (code_of 33) (code_len 33)"
  by (simp_all add: padding_codes padding_lengths agrees_short_iff agrees_Cons_long code_head_def)

lemma padding_not_complete:
  fixes cur :: u64
  assumes "1 \<le> c" "c \<le> 7" "\<forall>k<c. bit cur (c - 1 - k)"
  shows "\<not> completes (rootHuffmanNode (ucast (push_bit (8 - c) cur))) c"
proof -
  have "c = 1 \<or> c = 2 \<or> c = 3 \<or> c = 4 \<or> c = 5 \<or> c = 6 \<or> c = 7"
    using assms(1,2) by linarith
  then show ?thesis
    unfolding ones_octet [OF assms]
    using completes_short [OF padding_octets(1), of 1] completes_short [OF padding_octets(2), of 2]
      completes_short [OF padding_octets(3), of 3] completes_short [OF padding_octets(4), of 4]
      completes_short [OF padding_octets(5), of 5] completes_short [OF padding_octets(6), of 6]
      completes_short [OF padding_octets(7), of 7]
    by (elim disjE) (simp_all add: padding_lengths mask_eq_exp_minus_1)
qed

section \<open>Reading the bit stream\<close>

text \<open>What the decoder has still to read: the octets \<open>p\<close> that led from the root to the
  current node, the \<open>c\<close> pending low bits of \<open>cur\<close>, and the input \<open>v\<close>.\<close>

definition st :: "bytes \<Rightarrow> u64 \<Rightarrow> nat \<Rightarrow> bytes \<Rightarrow> nat \<Rightarrow> bool" where
  "st p cur c v k =
     (if k < 8 * length p then path_bit p k
      else if k < 8 * length p + c then bit cur (8 * length p + c - 1 - k)
      else path_bit v (k - (8 * length p + c)))"

definition st_len :: "bytes \<Rightarrow> nat \<Rightarrow> bytes \<Rightarrow> nat" where
  "st_len p c v = 8 * length p + c + 8 * length v"

text \<open>Reading the codes of \<open>s\<close> leads from one state of the decoder to another.\<close>

definition reads :: "bytes \<Rightarrow> u64 \<Rightarrow> nat \<Rightarrow> bytes \<Rightarrow> bytes \<Rightarrow> bytes \<Rightarrow> u64 \<Rightarrow> nat \<Rightarrow> bytes \<Rightarrow> bool" where
  "reads p cur c v s p' cur' c' v' \<longleftrightarrow>
     st_len p c v = stream_len s + st_len p' c' v' \<and>
     (\<forall>k < st_len p c v. st p cur c v k =
        (if k < stream_len s then code_stream s k else st p' cur' c' v' (k - stream_len s)))"

lemma stream_len_append [simp]: "stream_len (s @ t) = stream_len s + stream_len t"
  by (simp add: stream_len_def)

lemma reads_refl: "reads p cur c v [] p cur c v"
  by (simp add: reads_def)

lemma reads_trans:
  assumes "reads p cur c v s p' cur' c' v'" "reads p' cur' c' v' t p'' cur'' c'' v''"
  shows "reads p cur c v (s @ t) p'' cur'' c'' v''"
  using assms by (auto simp: reads_def code_stream_append)

definition next_octet :: "u64 \<Rightarrow> nat \<Rightarrow> u8" where
  "next_octet cur c = (if c \<ge> 8 then ucast (drop_bit (c - 8) cur) else ucast (push_bit (8 - c) cur))"

lemma bit_next_octet:
  "c \<le> 64 \<Longrightarrow> k < 8 \<Longrightarrow> k < c \<Longrightarrow> bit (next_octet cur c) (7 - k) = bit cur (c - 1 - k)"
  by (auto simp: next_octet_def bit_simps)

lemma path_bit_next_octet:
  assumes "c \<le> 64" "k < 8 * length p + 8" "k < 8 * length p + c"
  shows "path_bit (p @ [next_octet cur c]) k = st p cur c v k"
proof (cases "k < 8 * length p")
  case False
  then have "k - 8 * length p < 8" "k - 8 * length p < c"
    using assms by auto
  moreover have "8 * length p + c - 1 - k = c - 1 - (k - 8 * length p)"
    using False by simp
  ultimately show ?thesis
    using False assms bit_next_octet [of c "k - 8 * length p" cur]
    by (simp add: path_bit_append path_bit_Cons st_def)
qed (simp add: path_bit_append st_def)

lemma reads_internal:
  assumes "8 \<le> c" "c \<le> 64"
  shows "reads p cur c v [] (p @ [next_octet cur c]) cur (c - 8) v"
proof -
  have "st p cur c v k = st (p @ [next_octet cur c]) cur (c - 8) v k" for k
  proof (cases "k < 8 * length p + 8")
    case True
    with assms path_bit_next_octet [of c k p cur v] show ?thesis
      by (simp add: st_def)
  next
    case False
    with assms show ?thesis by (auto simp: st_def)
  qed
  with assms show ?thesis
    by (simp add: reads_def st_len_def)
qed

lemma reads_leaf:
  assumes "descend rootHuffmanNode p = Some (Internal n)" "n (next_octet cur c) = Some (Leaf l x)"
    and "l \<le> c" "c \<le> 64"
  shows "reads p cur c v [x] [] cur (c - l) v"
proof -
  let ?p = "p @ [next_octet cur c]"
  have "descend rootHuffmanNode ?p = Some (Leaf l x)"
    using descend_snoc [OF assms(1)] assms(2) by simp
  note leaf = root_leaf_is_code [OF this]
  have len: "code_len x = 8 * length p + l"
    using leaf(3) by simp
  have "st p cur c v k = code_bit (code_of x) (code_len x) k" if "k < code_len x" for k
    using that len leaf(5) assms(3,4) agreesD [OF leaf(1), of k] path_bit_next_octet [of c k p cur v]
    by simp
  moreover have "st p cur c v k = st [] cur (c - l) v (k - code_len x)" if "\<not> k < code_len x" for k
    using that len assms(3) by (auto simp: st_def add.commute)
  ultimately show ?thesis
    using len assms(3) by (simp add: reads_def st_len_def)
qed

lemma reads_load:
  assumes "c \<le> 56"
  shows "reads p cur c (b # v) [] p (push_bit 8 cur OR ucast b) (c + 8) v"
proof -
  let ?L = "8 * length p + c"
  have "st p cur c (b # v) k = st p (push_bit 8 cur OR ucast b) (c + 8) v k" for k
  proof (cases "k < ?L")
    case True
    then have "8 * length p \<le> k \<Longrightarrow> ?L + 8 - 1 - k - 8 = ?L - 1 - k"
        "8 * length p \<le> k \<Longrightarrow> 8 \<le> ?L + 8 - 1 - k \<and> ?L + 8 - 1 - k < 64"
      using assms by auto
    moreover have "\<not> bit b j" if "8 \<le> j" for j
      using that bit_imp_le_length [of b j] by auto
    ultimately show ?thesis
      using True by (auto simp: st_def bit_simps)
  next
    case False
    show ?thesis
    proof (cases "k < ?L + 8")
      case True
      then have "?L + 8 - 1 - k = 7 - (k - ?L)" "7 - (k - ?L) < 8"
        using False by auto
      with True False show ?thesis
        by (auto simp: st_def path_bit_Cons bit_simps)
    next
      case far: False
      then have "k - ?L - 8 = k - (8 * length p + (c + 8))"
        by simp
      moreover have "\<not> k - ?L < 8"
        using far by linarith
      ultimately show ?thesis
        using far by (simp add: st_def path_bit_Cons)
    qed
  qed
  then show ?thesis
    by (simp add: reads_def st_len_def)
qed

section \<open>The decoder reads the stream\<close>

text \<open>The loops return on every input, and what they have appended to the output is what
  they have read.\<close>

definition reached :: "bytes \<Rightarrow> u64 \<Rightarrow> nat \<Rightarrow> bytes \<Rightarrow> bytes \<Rightarrow>
    hchildren \<Rightarrow> u64 \<Rightarrow> nat \<Rightarrow> nat \<Rightarrow> bytes \<Rightarrow> bytes \<Rightarrow> bool" where
  "reached p cur c v buf n' cur' c' sb buf' v' \<longleftrightarrow>
     (\<exists>p' s. c' < 8 \<and> descend rootHuffmanNode p' = Some (Internal n') \<and> sb = 8 * length p' + c' \<and>
        buf' = buf @ s \<and> reads p cur c v s p' cur' c' v')"

lemma reached_stay:
  "c < 8 \<Longrightarrow> descend rootHuffmanNode p = Some (Internal n) \<Longrightarrow> reached p cur c v buf n cur c (8 * length p + c) buf v"
  using reads_refl by (fastforce simp: reached_def)

lemma reached_trans:
  assumes "reads p cur c v s p1 cur1 c1 v1" "reached p1 cur1 c1 v1 (buf @ s) n' cur' c' sb buf' v'"
  shows "reached p cur c v buf n' cur' c' sb buf' v'"
  using assms(2) reads_trans [OF assms(1)] by (fastforce simp: reached_def)

lemma decode_inner_reads:
  assumes "descend rootHuffmanNode p = Some (Internal n)" "c \<le> 64"
  shows "\<exists>r. decode_inner rootHuffmanNode maxLen cur n c (8 * length p + c) buf = Some r \<and>
    (\<forall>n' c' sb buf'. r = Inr (n', c', sb, buf') \<longrightarrow> reached p cur c v buf n' cur c' sb buf' v)"
  using assms
proof (induction c arbitrary: p n buf rule: less_induct)
  case (less c)
  note step = decode_inner.simps [of rootHuffmanNode maxLen cur n c]
  show ?case
  proof (cases "8 \<le> c")
    case False
    then show ?thesis
      using reached_stay [OF _ less.prems(1), of c] by (simp add: step)
  next
    case c: True
    then have oct: "ucast (drop_bit (c - 8) cur) = next_octet cur c"
      by (simp add: next_octet_def)
    show ?thesis
    proof (cases "n (next_octet cur c)")
      case None
      with c oct show ?thesis by (simp add: step)
    next
      case (Some node)
      show ?thesis
      proof (cases node)
        case (Internal ch)
        let ?p = "p @ [next_octet cur c]"
        have eq: "decode_inner rootHuffmanNode maxLen cur n c (8 * length p + c) buf =
            decode_inner rootHuffmanNode maxLen cur ch (c - 8) (8 * length ?p + (c - 8)) buf"
          using c oct Some Internal by (simp add: step)
        have "descend rootHuffmanNode ?p = Some (Internal ch)"
          using descend_snoc [OF less.prems(1)] Some Internal by simp
        from less.IH [OF _ this, of "c - 8" buf] c less.prems(2) show ?thesis
          unfolding eq using reached_trans [OF reads_internal [OF c less.prems(2), of p cur v], of buf]
          by (simp only: append_Nil2) force
      next
        case (Leaf l x)
        have "descend rootHuffmanNode (p @ [next_octet cur c]) = Some (Leaf l x)"
          using descend_snoc [OF less.prems(1)] Some Leaf by simp
        note l = root_leaf_is_code(4,5) [OF this]
        have rd: "reads p cur c v [x] [] cur (c - l) v"
          using reads_leaf [OF less.prems(1)] Some Leaf l c less.prems(2) by simp
        show ?thesis
        proof (cases "maxLen \<noteq> 0 \<and> int (length buf) = maxLen")
          case True
          with c oct Some Leaf show ?thesis by (simp add: step)
        next
          case False
          have eq: "decode_inner rootHuffmanNode maxLen cur n c (8 * length p + c) buf =
              decode_inner rootHuffmanNode maxLen cur rootHuffmanNode (c - l) (8 * length ([] :: bytes) + (c - l)) (buf @ [x])"
            using c oct Some Leaf False by (simp add: step) blast
          have "c - l < c" "c - l \<le> 64"
            using c l less.prems(2) by auto
          from less.IH [OF this(1) descend.simps(1) this(2), of "buf @ [x]"] show ?thesis
            unfolding eq by (elim ex_forward conj_forward) (auto intro: reached_trans [OF rd])
        qed
      qed
    qed
  qed
qed

lemma decode_bytes_reads:
  assumes "descend rootHuffmanNode p = Some (Internal n)" "c < 8"
  shows "\<exists>r. decode_bytes rootHuffmanNode maxLen cur n c (8 * length p + c) buf v = Some r \<and>
    (\<forall>cur' n' c' sb buf'. r = Inr (cur', n', c', sb, buf') \<longrightarrow> reached p cur c v buf n' cur' c' sb buf' [])"
  using assms
proof (induction v arbitrary: p n c cur buf)
  case Nil
  then show ?case
    by (simp add: reached_stay)
next
  case (Cons b v)
  let ?cur = "push_bit 8 cur OR ucast b"
  obtain r where "decode_inner rootHuffmanNode maxLen ?cur n (c + 8) (8 * length p + (c + 8)) buf = Some r"
    and inner: "\<And>n' c' sb buf'. r = Inr (n', c', sb, buf') \<Longrightarrow> reached p ?cur (c + 8) v buf n' ?cur c' sb buf' v"
    using decode_inner_reads [OF Cons.prems(1), of "c + 8" maxLen ?cur buf v] Cons.prems(2) by auto
  then have r: "decode_inner rootHuffmanNode maxLen ?cur n (c + 8) (8 * length p + c + 8) buf = Some r"
    by (simp add: add.assoc)
  show ?case
  proof (cases r)
    case (Inl e)
    with r show ?thesis by simp
  next
    case (Inr t)
    obtain n1 c1 sb1 buf1 where t: "t = (n1, c1, sb1, buf1)"
      by (cases t)
    with inner Inr obtain p1 s1 where
      one: "c1 < 8" "descend rootHuffmanNode p1 = Some (Internal n1)" "sb1 = 8 * length p1 + c1"
        "buf1 = buf @ s1" "reads p ?cur (c + 8) v s1 p1 ?cur c1 v"
      unfolding reached_def by blast
    have load: "reads p cur c (b # v) s1 p1 ?cur c1 v"
      using reads_trans [OF reads_load one(5)] Cons.prems(2) by simp
    have "decode_bytes rootHuffmanNode maxLen cur n c (8 * length p + c) buf (b # v) =
        decode_bytes rootHuffmanNode maxLen ?cur n1 c1 (8 * length p1 + c1) (buf @ s1) v"
      using r Inr t one(3,4) by simp
    with Cons.IH [OF one(2,1), of ?cur "buf @ s1"] reached_trans [OF load] show ?thesis
      by metis
  qed
qed

lemma decode_tail_reads:
  assumes "descend rootHuffmanNode p = Some (Internal n)" "c < 8"
  shows "\<exists>r. decode_tail rootHuffmanNode maxLen cur n c (8 * length p + c) buf = Some r \<and>
    (\<forall>c' sb buf'. r = Inr (c', sb, buf') \<longrightarrow> (\<exists>n'. reached p cur c [] buf n' cur c' sb buf' []))"
  using assms
proof (induction c arbitrary: p n buf rule: less_induct)
  case (less c)
  note step = decode_tail.simps [of rootHuffmanNode maxLen cur n c]
  have oct: "ucast (push_bit (8 - c) cur) = next_octet cur c"
    using less.prems(2) by (simp add: next_octet_def)
  note stay = reached_stay [OF less.prems(2,1), of cur "[]" buf]
  show ?case
  proof (cases "0 < c \<and> completes (n (next_octet cur c)) c \<and> n (next_octet cur c) \<noteq> None \<and>
      \<not> (maxLen \<noteq> 0 \<and> int (length buf) = maxLen)")
    case False
    have "decode_tail rootHuffmanNode maxLen cur n c (8 * length p + c) buf = Some (Inr (c, 8 * length p + c, buf)) \<or>
        (\<exists>e. decode_tail rootHuffmanNode maxLen cur n c (8 * length p + c) buf = Some (Inl e))"
      using False unfolding step oct
      by (auto simp: completes_def split: option.splits hnode.splits)
    with stay show ?thesis by auto
  next
    case True
    then obtain l x where Leaf: "n (next_octet cur c) = Some (Leaf l x)" "l \<le> c"
      by (cases "the (n (next_octet cur c))") (auto simp: completes_def)
    have "descend rootHuffmanNode (p @ [next_octet cur c]) = Some (Leaf l x)"
      using descend_snoc [OF less.prems(1)] Leaf(1) by simp
    note l = root_leaf_is_code(4) [OF this]
    have rd: "reads p cur c [] [x] [] cur (c - l) []"
      using reads_leaf [OF less.prems(1) Leaf] less.prems(2) by simp
    have eq: "decode_tail rootHuffmanNode maxLen cur n c (8 * length p + c) buf =
        decode_tail rootHuffmanNode maxLen cur rootHuffmanNode (c - l) (8 * length ([] :: bytes) + (c - l)) (buf @ [x])"
      using Leaf True unfolding step oct by simp blast
    have less': "c - l < c" "c - l < 8"
      using l Leaf(2) less.prems(2) by linarith+
    show ?thesis
      unfolding eq using less.IH [OF less'(1) descend.simps(1) less'(2), of "buf @ [x]"]
      by (elim ex_forward conj_forward) (blast intro: reached_trans [OF rd])+
  qed
qed

text \<open>The decoder is about to read the codes of \<open>s\<close> and then fewer than eight ones.\<close>

definition expects :: "hchildren \<Rightarrow> bytes \<Rightarrow> u64 \<Rightarrow> nat \<Rightarrow> bytes \<Rightarrow> bytes \<Rightarrow> bool" where
  "expects n p cur c v s \<longleftrightarrow>
     descend rootHuffmanNode p = Some (Internal n) \<and>
     stream_len s \<le> st_len p c v \<and> st_len p c v < stream_len s + 8 \<and>
     (\<forall>k < st_len p c v. st p cur c v k = code_stream s k) \<and>
     (s \<noteq> [] \<longrightarrow> 8 * length p < code_len (hd s))"

lemma expects_internal:
  assumes "expects n p cur c v s" "reads p cur c v [] p' cur' c' v'"
    and "descend rootHuffmanNode p' = Some (Internal n')" "s \<noteq> [] \<Longrightarrow> 8 * length p' < code_len (hd s)"
  shows "expects n' p' cur' c' v' s"
  using assms by (simp add: expects_def reads_def)

lemma expects_leaf:
  assumes "expects n p cur c v (x # s)" "reads p cur c v [x] [] cur' c' v'"
  shows "expects rootHuffmanNode [] cur' c' v' s"
proof -
  have "st [] cur' c' v' k = code_stream s k" if "k < st_len [] c' v'" for k
  proof -
    have "st p cur c v (code_len x + k) = st [] cur' c' v' k"
      using assms(2) that by (simp add: reads_def)
    moreover have "code_len x + k < st_len p c v"
      using assms(2) that by (simp add: reads_def)
    then have "st p cur c v (code_len x + k) = code_stream (x # s) (code_len x + k)"
      using assms(1) by (simp only: expects_def)
    ultimately show ?thesis by simp
  qed
  moreover have "s \<noteq> [] \<longrightarrow> 0 < code_len (hd s)"
    using code_bounds [of "hd s"] by simp
  ultimately show ?thesis
    using assms by (simp add: expects_def reads_def)
qed

text \<open>The node found for the next octet, when the octet is whole or holds the rest of the code.\<close>

lemma expects_child:
  assumes "expects n p cur c v (x # s)" "c \<le> 64" "8 \<le> c \<or> code_len x \<le> 8 * length p + c"
  shows "code_len x \<le> 8 * length p + 8 \<Longrightarrow>
      n (next_octet cur c) = Some (Leaf (code_len x - 8 * length p) x)"
    and "8 * length p + 8 < code_len x \<Longrightarrow> \<exists>ch. n (next_octet cur c) = Some (Internal ch)"
proof -
  let ?p = "p @ [next_octet cur c]"
  have child: "descend rootHuffmanNode ?p = n (next_octet cur c)"
    using assms(1) descend_snoc by (simp add: expects_def)
  have len: "code_len x \<le> st_len p c v" "8 * length p < code_len x"
    using assms(1) by (auto simp: expects_def)
  have "agrees ?p (code_of x) (code_len x)"
    unfolding agrees_def
  proof (intro allI impI)
    fix k
    assume "k < min (8 * length ?p) (code_len x)"
    then have k: "k < 8 * length p + 8" "k < code_len x" "k < 8 * length p + c" "k < st_len p c v"
      using assms(3) len by auto
    have "st p cur c v k = code_stream (x # s) k"
      using assms(1) k(4) by (simp only: expects_def)
    then show "path_bit ?p k = code_bit (code_of x) (code_len x) k"
      using path_bit_next_octet [OF assms(2) k(1,3), of cur v] k(2) by simp
  qed
  from root_leaf [OF this] root_internal [OF this] len child
  show "code_len x \<le> 8 * length p + 8 \<Longrightarrow>
      n (next_octet cur c) = Some (Leaf (code_len x - 8 * length p) x)"
    "8 * length p + 8 < code_len x \<Longrightarrow> \<exists>ch. n (next_octet cur c) = Some (Internal ch)"
    by auto
qed

definition fits_limit :: "int \<Rightarrow> bytes \<Rightarrow> bytes \<Rightarrow> bool" where
  "fits_limit maxLen buf s \<longleftrightarrow> maxLen = 0 \<or> int (length buf + length s) \<le> maxLen"

lemma decode_inner_expects:
  assumes "expects n p cur c v s" "c \<le> 64" "fits_limit maxLen buf s"
  shows "\<exists>n' p' c' s1 s2. decode_inner rootHuffmanNode maxLen cur n c (8 * length p + c) buf =
      Some (Inr (n', c', 8 * length p' + c', buf @ s1)) \<and> c' < 8 \<and> s = s1 @ s2 \<and> expects n' p' cur c' v s2"
  using assms
proof (induction c arbitrary: n p buf s rule: less_induct)
  case (less c)
  note step = decode_inner.simps [of rootHuffmanNode maxLen cur n c]
  show ?case
  proof (cases "8 \<le> c")
    case False
    then have "decode_inner rootHuffmanNode maxLen cur n c (8 * length p + c) buf =
        Some (Inr (n, c, 8 * length p + c, buf @ []))"
      by (simp add: step)
    with False less.prems(1) show ?thesis
      by (metis append_Nil not_less)
  next
    case c: True
    then have oct: "ucast (drop_bit (c - 8) cur) = next_octet cur c"
      by (simp add: next_octet_def)
    obtain x t where s: "s = x # t"
      using less.prems(1) c by (cases s) (auto simp: expects_def st_len_def)
    note ex = less.prems(1) [unfolded s]
    have desc: "descend rootHuffmanNode p = Some (Internal n)"
      using ex by (simp add: expects_def)
    show ?thesis
    proof (cases "code_len x \<le> 8 * length p + 8")
      case False
      then obtain ch where ch: "n (next_octet cur c) = Some (Internal ch)"
        using expects_child(2) [OF ex less.prems(2)] c by auto
      let ?p = "p @ [next_octet cur c]"
      have "expects ch ?p cur (c - 8) v s"
        by (rule expects_internal [OF less.prems(1) reads_internal [OF c less.prems(2)]])
          (use descend_snoc [OF desc] ch False s in auto)
      from less.IH [OF _ this _ less.prems(3)] c less.prems(2) ch oct show ?thesis
        by (simp add: step)
    next
      case True
      define l where "l = code_len x - 8 * length p"
      have leaf: "n (next_octet cur c) = Some (Leaf l x)"
        using expects_child(1) [OF ex less.prems(2)] c True by (simp add: l_def)
      have l: "1 \<le> l" "l \<le> c"
        using ex True c by (auto simp: l_def expects_def)
      have "expects rootHuffmanNode [] cur (c - l) v t"
        by (rule expects_leaf [OF ex reads_leaf [OF desc leaf l(2) less.prems(2)]])
      moreover have "fits_limit maxLen (buf @ [x]) t"
        using less.prems(3) s by (simp add: fits_limit_def)
      moreover have "\<not> (maxLen \<noteq> 0 \<and> int (length buf) = maxLen)"
        using less.prems(3) s by (auto simp: fits_limit_def)
      moreover have "c - l < c" "c - l \<le> 64"
        using l less.prems(2) by auto
      ultimately obtain n' p' c' s1 s2 where
        "decode_inner rootHuffmanNode maxLen cur rootHuffmanNode (c - l) (8 * length ([] :: bytes) + (c - l)) (buf @ [x]) =
          Some (Inr (n', c', 8 * length p' + c', (buf @ [x]) @ s1))" and
        rest: "c' < 8" "t = s1 @ s2" "expects n' p' cur c' v s2"
        and lim: "\<not> (maxLen \<noteq> 0 \<and> int (length buf) = maxLen)"
        using less.IH [of "c - l" rootHuffmanNode "[]" t "buf @ [x]"] by (elim meta_impE) auto
      then have "decode_inner rootHuffmanNode maxLen cur n c (8 * length p + c) buf =
          Some (Inr (n', c', 8 * length p' + c', buf @ (x # s1)))"
        using c oct leaf by (auto simp: step)
      with rest s show ?thesis
        by (metis append_Cons)
    qed
  qed
qed

lemma decode_bytes_expects:
  assumes "expects n p cur c v s" "c < 8" "fits_limit maxLen buf s"
  shows "\<exists>cur' n' p' c' s1 s2. decode_bytes rootHuffmanNode maxLen cur n c (8 * length p + c) buf v =
      Some (Inr (cur', n', c', 8 * length p' + c', buf @ s1)) \<and> c' < 8 \<and> s = s1 @ s2 \<and>
      expects n' p' cur' c' [] s2"
  using assms
proof (induction v arbitrary: n p cur c buf s)
  case Nil
  then show ?case
    by (metis append_Nil append_Nil2 decode_bytes.simps(1))
next
  case (Cons b v)
  let ?cur = "push_bit 8 cur OR ucast b"
  have "expects n p ?cur (c + 8) v s"
    by (rule expects_internal [OF Cons.prems(1) reads_load]) (use Cons.prems(1,2) in \<open>auto simp: expects_def\<close>)
  from decode_inner_expects [OF this _ Cons.prems(3)] Cons.prems(2)
  obtain n1 p1 c1 s1 s2 where
    one: "decode_inner rootHuffmanNode maxLen ?cur n (c + 8) (8 * length p + (c + 8)) buf =
        Some (Inr (n1, c1, 8 * length p1 + c1, buf @ s1))" "c1 < 8" "s = s1 @ s2" "expects n1 p1 ?cur c1 v s2"
    by auto
  have "fits_limit maxLen (buf @ s1) s2"
    using Cons.prems(3) one(3) by (simp add: fits_limit_def add.assoc)
  from Cons.IH [OF one(4,2) this] obtain cur' n' p' c' s3 s4 where
    two: "decode_bytes rootHuffmanNode maxLen ?cur n1 c1 (8 * length p1 + c1) (buf @ s1) v =
        Some (Inr (cur', n', c', 8 * length p' + c', (buf @ s1) @ s3))" "c' < 8" "s2 = s3 @ s4"
      "expects n' p' cur' c' [] s4"
    by blast
  have "decode_bytes rootHuffmanNode maxLen cur n c (8 * length p + c) buf (b # v) =
      Some (Inr (cur', n', c', 8 * length p' + c', buf @ (s1 @ s3)))"
    using one(1) two(1) by (simp add: add.assoc)
  with two one(3) show ?case
    by (metis append_assoc)
qed

lemma decode_tail_expects:
  assumes "expects n p cur c [] s" "c < 8" "fits_limit maxLen buf s"
  shows "\<exists>c'. decode_tail rootHuffmanNode maxLen cur n c (8 * length p + c) buf = Some (Inr (c', c', buf @ s)) \<and>
      c' < 8 \<and> (\<forall>k<c'. bit cur k)"
  using assms
proof (induction s arbitrary: n p c buf)
  case Nil
  note step = decode_tail.simps [of rootHuffmanNode maxLen cur n c]
  have p: "p = []"
    using Nil.prems(1) by (cases p) (auto simp: expects_def st_len_def)
  then have n: "n = rootHuffmanNode" and ones: "\<And>k. k < c \<Longrightarrow> st [] cur c [] k"
    using Nil.prems(1) by (auto simp: expects_def st_len_def)
  have "bit cur (c - 1 - k)" if "k < c" for k
    using ones [OF that] that by (simp add: st_def)
  then have "\<not> completes (rootHuffmanNode (ucast (push_bit (8 - c) cur))) c" if "0 < c"
    using padding_not_complete [of c cur] that Nil.prems(2) by simp
  then have "decode_tail rootHuffmanNode maxLen cur n c (8 * length p + c) buf = Some (Inr (c, c, buf))"
    using step [of c buf] n p
    by (cases "c = 0") (auto simp: completes_def split: option.splits hnode.splits)
  moreover have "bit cur k" if "k < c" for k
  proof -
    have "c - 1 - (c - 1 - k) = k" "c - 1 - k < c"
      using that by auto
    with \<open>\<And>k. k < c \<Longrightarrow> bit cur (c - 1 - k)\<close> show ?thesis by metis
  qed
  ultimately show ?case
    using Nil.prems(2) by auto
next
  case (Cons x s)
  note step = decode_tail.simps [of rootHuffmanNode maxLen cur n c]
  have oct: "ucast (push_bit (8 - c) cur) = next_octet cur c"
    using Cons.prems(2) by (simp add: next_octet_def)
  have desc: "descend rootHuffmanNode p = Some (Internal n)"
    and len: "8 * length p < code_len x" "code_len x \<le> 8 * length p + c"
    using Cons.prems(1) by (auto simp: expects_def st_len_def)
  define l where "l = code_len x - 8 * length p"
  have leaf: "n (next_octet cur c) = Some (Leaf l x)"
    using expects_child(1) [OF Cons.prems(1)] Cons.prems(2) len by (simp add: l_def)
  have l: "1 \<le> l" "l \<le> c"
    using len by (auto simp: l_def)
  have "expects rootHuffmanNode [] cur (c - l) [] s"
    using expects_leaf [OF Cons.prems(1) reads_leaf [OF desc leaf l(2)]] Cons.prems(2) by simp
  moreover have "fits_limit maxLen (buf @ [x]) s"
    using Cons.prems(3) by (simp add: fits_limit_def)
  ultimately obtain c' where
    IH: "decode_tail rootHuffmanNode maxLen cur rootHuffmanNode (c - l) (8 * length ([] :: bytes) + (c - l)) (buf @ [x]) =
      Some (Inr (c', c', (buf @ [x]) @ s))" "c' < 8" "\<forall>k<c'. bit cur k"
    using Cons.IH [of rootHuffmanNode "[]" "c - l" "buf @ [x]"] less_imp_diff_less [OF Cons.prems(2)] by auto
  have "\<not> (maxLen \<noteq> 0 \<and> int (length buf) = maxLen)"
    using Cons.prems(3) by (auto simp: fits_limit_def)
  then have "decode_tail rootHuffmanNode maxLen cur n c (8 * length p + c) buf =
      Some (Inr (c', c', buf @ (x # s)))"
    using IH(1) leaf l unfolding step oct by auto
  with IH(2,3) show ?case by blast
qed

section \<open>Correctness\<close>

lemma and_ones_iff:
  fixes cur :: u64
  assumes "c < 64"
  shows "cur AND (push_bit c 1 - 1) = push_bit c 1 - 1 \<longleftrightarrow> (\<forall>k<c. bit cur k)"
proof -
  have "push_bit c 1 - 1 = (mask c :: u64)"
    by (simp add: mask_eq_exp_minus_1 push_bit_eq_mult)
  then show ?thesis
    using assms by (auto simp: bit_eq_iff bit_simps) (metis order.strict_trans)
qed

text \<open>A string is the encoding of \<open>s\<close> when its bits are the codes of \<open>s\<close> and fewer than eight ones.\<close>

lemma is_encoding_iff:
  "v = AppendHuffmanString [] s \<longleftrightarrow>
     stream_len s \<le> 8 * length v \<and> 8 * length v < stream_len s + 8 \<and>
     (\<forall>k < 8 * length v. path_bit v k = code_stream s k)"
proof
  assume "v = AppendHuffmanString [] s"
  then show "stream_len s \<le> 8 * length v \<and> 8 * length v < stream_len s + 8 \<and>
     (\<forall>k < 8 * length v. path_bit v k = code_stream s k)"
    using AppendHuffmanString_bits(1,2) [of "[]" s] AppendHuffmanString_bits(3) [of _ "[]" s] by simp
next
  assume R: "stream_len s \<le> 8 * length v \<and> 8 * length v < stream_len s + 8 \<and>
     (\<forall>k < 8 * length v. path_bit v k = code_stream s k)"
  then have "length v = length (AppendHuffmanString [] s)"
    using AppendHuffmanString_bits(1,2) [of "[]" s] by simp
  with R show "v = AppendHuffmanString [] s"
    using AppendHuffmanString_bits(3) [of _ "[]" s] by (intro path_bit_eqI) auto
qed

lemma huffmanDecode_sound:
  "\<exists>r. huffmanDecode maxLen v = Some r \<and> (\<forall>s. r = Inr s \<longrightarrow> v = AppendHuffmanString [] s)"
proof -
  have root: "descend rootHuffmanNode [] = Some (Internal rootHuffmanNode)"
    by simp
  obtain r where r: "decode_bytes rootHuffmanNode maxLen 0 rootHuffmanNode 0 0 [] v = Some r"
    and bytes: "\<And>cur n c sb buf. r = Inr (cur, n, c, sb, buf) \<Longrightarrow> reached [] 0 0 v [] n cur c sb buf []"
    using decode_bytes_reads [OF root, of 0 maxLen 0 "[]" v] by auto
  show ?thesis
  proof (cases r)
    case (Inl e)
    with r show ?thesis by (simp add: huffmanDecode_def)
  next
    case (Inr t)
    obtain cur n c sb buf where t: "t = (cur, n, c, sb, buf)"
      by (cases t)
    with bytes Inr obtain p s1 where
      one: "c < 8" "descend rootHuffmanNode p = Some (Internal n)" "sb = 8 * length p + c" "buf = s1"
        "reads [] 0 0 v s1 p cur c []"
      unfolding reached_def by auto
    obtain q where q: "decode_tail rootHuffmanNode maxLen cur n c (8 * length p + c) s1 = Some q"
      and tail: "\<And>c' sb buf'. q = Inr (c', sb, buf') \<Longrightarrow> \<exists>n'. reached p cur c [] s1 n' cur c' sb buf' []"
      using decode_tail_reads [OF one(2,1), of maxLen cur s1] by auto
    have enc: "v = AppendHuffmanString [] buf'"
      if "q = Inr (c', sb', buf')" "sb' \<le> 7" "cur AND (push_bit c' 1 - 1) = push_bit c' 1 - 1" for c' sb' buf'
    proof -
      from tail [OF that(1)] obtain p' s2 where
        two: "c' < 8" "sb' = 8 * length p' + c'" "buf' = s1 @ s2" "reads p cur c [] s2 p' cur c' []"
        unfolding reached_def by auto
      with that(2) have "p' = []" by (cases p') auto
      with reads_trans [OF one(5) two(4)] two(3) have rd: "reads [] 0 0 v buf' [] cur c' []"
        by simp
      have "bit cur k" if "k < c'" for k
        using and_ones_iff [of c' cur] \<open>c' < 8\<close> that(1) \<open>cur AND _ = _\<close> by simp
      moreover have "code_stream buf' k" if "\<not> k < stream_len buf'" for k
        using that code_stream_append [of buf' "[]" k] by simp
      ultimately show ?thesis
        using rd two(1) unfolding is_encoding_iff by (auto simp: reads_def st_len_def st_def)
    qed
    have "\<exists>w. huffmanDecode maxLen v = Some w \<and> (\<forall>s. w = Inr s \<longrightarrow>
        (\<exists>c' sb'. q = Inr (c', sb', s) \<and> sb' \<le> 7 \<and> cur AND (push_bit c' 1 - 1) = push_bit c' 1 - 1))"
      using r Inr t one(3,4) q
      by (cases q) (auto simp: huffmanDecode_def Let_def split: prod.splits)
    with enc show ?thesis by blast
  qed
qed

lemma huffmanDecode_complete:
  assumes "fits_limit maxLen [] s"
  shows "huffmanDecode maxLen (AppendHuffmanString [] s) = Some (Inr s)"
proof -
  let ?v = "AppendHuffmanString [] s"
  have "s \<noteq> [] \<longrightarrow> 0 < code_len (hd s)"
    using code_bounds [of "hd s"] by simp
  then have "expects rootHuffmanNode [] 0 0 ?v s"
    using is_encoding_iff [of ?v s] by (simp add: expects_def st_len_def st_def)
  from decode_bytes_expects [OF this _ assms] obtain cur n p c s1 s2 where
    one: "decode_bytes rootHuffmanNode maxLen 0 rootHuffmanNode 0 0 [] ?v =
      Some (Inr (cur, n, c, 8 * length p + c, s1))" "c < 8" "s = s1 @ s2" "expects n p cur c [] s2"
    by auto
  have "fits_limit maxLen s1 s2"
    using assms one(3) by (simp add: fits_limit_def)
  from decode_tail_expects [OF one(4,2) this] obtain c' where
    two: "decode_tail rootHuffmanNode maxLen cur n c (8 * length p + c) s1 = Some (Inr (c', c', s1 @ s2))"
      "c' < 8" "\<forall>k<c'. bit cur k"
    by blast
  have "cur AND (push_bit c' 1 - 1) = push_bit c' 1 - 1"
    using and_ones_iff [of c' cur] two(2,3) by simp
  with one two show ?thesis
    by (simp add: huffmanDecode_def Let_def)
qed

text \<open>The only errors.\<close>

definition huff_ok :: "hpack_error + 'a \<Rightarrow> bool" where
  "huff_ok r = (case r of Inl e \<Rightarrow> e = ErrInvalidHuffman \<or> e = ErrStringLength | Inr _ \<Rightarrow> True)"

lemma decode_inner_ok: "decode_inner root maxLen cur n c sb buf = Some r \<Longrightarrow> huff_ok r"
  by (rule decode_inner.raw_induct [where P = "\<lambda>_ _ _ _ _ _ _ r. huff_ok r"])
    (auto simp: huff_ok_def split: if_splits option.splits hnode.splits)

lemma decode_tail_ok: "decode_tail root maxLen cur n c sb buf = Some r \<Longrightarrow> huff_ok r"
  by (rule decode_tail.raw_induct [where P = "\<lambda>_ _ _ _ _ _ _ r. huff_ok r"])
    (auto simp: huff_ok_def split: if_splits option.splits hnode.splits)

lemma decode_bytes_ok: "decode_bytes root maxLen cur n c sb buf v = Some r \<Longrightarrow> huff_ok r"
proof (induction root maxLen cur n c sb buf v rule: decode_bytes.induct)
  case (2 root maxLen cur n c sb buf b v)
  then show ?case
    using decode_inner_ok [of root maxLen "push_bit 8 cur OR ucast b" n "c + 8" "sb + 8" buf]
    by (fastforce simp: Let_def huff_ok_def split: option.splits sum.splits)
qed (auto simp: huff_ok_def)

lemma huffmanDecode_errors:
  "huffmanDecode maxLen v = Some (Inl e) \<Longrightarrow> e = ErrInvalidHuffman \<or> e = ErrStringLength"
  using decode_bytes_ok decode_tail_ok
  by (fastforce simp: huffmanDecode_def Let_def huff_ok_def split: option.splits sum.splits if_splits)

text \<open>C5.  The Huffman decoder is the exact inverse of the encoder: on every input
  \<^verbatim>\<open>HuffmanDecodeToString\<close> returns, and it returns the string \<open>s\<close> precisely when the
  input is what \<^verbatim>\<open>AppendHuffmanString\<close> writes for \<open>s\<close>; every other input (a code that is not
  in the table, padding longer than seven bits or not all ones, an encoded EOS) is refused.\<close>

theorem huffman_decode_iff:
  "HuffmanDecodeToString v \<noteq> None \<and>
   (HuffmanDecodeToString v = Some (Inr s) \<longleftrightarrow> v = AppendHuffmanString [] s)"
  using huffmanDecode_sound [of 0 v] huffmanDecode_complete [of 0 s]
  by (auto simp: HuffmanDecodeToString_def fits_limit_def)

text \<open>The length the encoder announces is the length it writes; the count does not wrap for
  strings that fit in memory.\<close>

lemma fold_code_len:
  "fold (\<lambda>c n. n + of_nat (code_len c)) s (of_nat k :: u64) = of_nat (k + stream_len s)"
proof (induction s arbitrary: k)
  case (Cons c s)
  have "(of_nat k + of_nat (code_len c) :: u64) = of_nat (k + code_len c)"
    by simp
  then show ?case
    using Cons.IH [of "k + code_len c"] by (simp add: add.assoc)
qed simp

lemma stream_len_le: "stream_len s \<le> 30 * length s"
proof (induction s)
  case (Cons c s)
  then show ?case using code_bounds [of c] by simp
qed simp

lemma HuffmanEncodeLength_eq:
  assumes "length s < 2 ^ 59"
  shows "unat (HuffmanEncodeLength s) = length (AppendHuffmanString [] s)"
proof -
  have small: "stream_len s + 7 < 2 ^ 64"
    using stream_len_le [of s] assms by simp
  have "HuffmanEncodeLength s = of_nat (stream_len s + 7) div 8"
    using fold_code_len [of s 0] by (simp add: HuffmanEncodeLength_def add.commute)
  then have "unat (HuffmanEncodeLength s) = (stream_len s + 7) div 8"
    using small by (simp only: unat_div unsigned_of_nat) (simp add: take_bit_nat_eq_self)
  moreover have "length (AppendHuffmanString [] s) = (stream_len s + 7) div 8"
    using AppendHuffmanString_bits(1,2) [of "[]" s] by simp
  ultimately show ?thesis by simp
qed

end
