(* ===== verification/HPACK_Tables.thy ===== *)
theory HPACK_Tables
  imports HPACK_Varint
begin

text \<open>
  Package \<^verbatim>\<open>hpack\<close>: header fields, the header field table of \<^verbatim>\<open>tables.go\<close> with its two
  search maps, the static table, and the dynamic table of \<^verbatim>\<open>hpack.go\<close> with its evictions.
  An operation that may panic returns an option, with \<open>None\<close> for the panic.  Looking up a
  key that is not in a Go map gives zero.
\<close>

section \<open>Header fields\<close>

record HeaderField =
  Name :: bytes
  Value :: bytes
  Sensitive :: bool

definition IsPseudo :: "HeaderField \<Rightarrow> bool" where
  "IsPseudo hf = (Name hf \<noteq> [] \<and> hd (Name hf) = 0x3a)"

definition Size :: "HeaderField \<Rightarrow> u32" where
  "Size hf = of_nat (length (Name hf) + length (Value hf) + 32)"

section \<open>Header field tables\<close>

record headerFieldTable =
  ents :: "HeaderField list"
  evictCount :: u64
  byName :: "bytes \<rightharpoonup> u64"
  byNameValue :: "bytes \<times> bytes \<rightharpoonup> u64"

definition map_get :: "('k \<rightharpoonup> u64) \<Rightarrow> 'k \<Rightarrow> u64" where
  "map_get m k = (case m k of None \<Rightarrow> 0 | Some v \<Rightarrow> v)"

definition table_init :: headerFieldTable where
  "table_init = \<lparr>ents = [], evictCount = 0, byName = Map.empty, byNameValue = Map.empty\<rparr>"

definition addEntry :: "HeaderField \<Rightarrow> headerFieldTable \<Rightarrow> headerFieldTable" where
  "addEntry f t =
     (let uid = of_nat (length (ents t)) + evictCount t + 1 in
      t\<lparr>byName := (byName t)(Name f \<mapsto> uid),
        byNameValue := (byNameValue t)((Name f, Value f) \<mapsto> uid),
        ents := ents t @ [f]\<rparr>)"

definition map_evict :: "'k \<Rightarrow> u64 \<Rightarrow> ('k \<rightharpoonup> u64) \<Rightarrow> ('k \<rightharpoonup> u64)" where
  "map_evict k uid m = (if map_get m k = uid then m(k := None) else m)"

fun evict_maps :: "u64 \<Rightarrow> HeaderField list \<Rightarrow> headerFieldTable \<Rightarrow> headerFieldTable" where
  "evict_maps uid [] t = t"
| "evict_maps uid (f # fs) t =
     evict_maps (uid + 1) fs
       (t\<lparr>byName := map_evict (Name f) uid (byName t),
          byNameValue := map_evict (Name f, Value f) uid (byNameValue t)\<rparr>)"

definition evictOldest :: "nat \<Rightarrow> headerFieldTable \<Rightarrow> headerFieldTable option" where
  "evictOldest n t =
     (if n > length (ents t) then None
      else
        let t' = evict_maps (evictCount t + 1) (take n (ents t)) t in
        if evictCount t + of_nat n < evictCount t then None
        else Some (t'\<lparr>ents := drop n (ents t), evictCount := evictCount t + of_nat n\<rparr>))"

text \<open>The pointer comparison \<^verbatim>\<open>t != staticTable\<close> is the flag \<open>static\<close>.\<close>

definition idToIndex :: "bool \<Rightarrow> headerFieldTable \<Rightarrow> u64 \<Rightarrow> u64 option" where
  "idToIndex static t uid =
     (if uid \<le> evictCount t then None
      else
        let k = uid - evictCount t - 1 in
        if \<not> static then Some (of_nat (length (ents t)) - k) else Some (k + 1))"

definition search :: "bool \<Rightarrow> headerFieldTable \<Rightarrow> HeaderField \<Rightarrow> (u64 \<times> bool) option" where
  "search static t f =
     (let exact = map_get (byNameValue t) (Name f, Value f); name = map_get (byName t) (Name f) in
      if \<not> Sensitive f \<and> exact \<noteq> 0 then map_option (\<lambda>i. (i, True)) (idToIndex static t exact)
      else if name \<noteq> 0 then map_option (\<lambda>i. (i, False)) (idToIndex static t name)
      else Some (0, False))"

section \<open>The static table\<close>

definition entry :: "string \<Rightarrow> string \<Rightarrow> HeaderField" where
  "entry n v = \<lparr>Name = go_bytes n, Value = go_bytes v, Sensitive = False\<rparr>"

definition staticTableEntries :: "HeaderField list" where
  "staticTableEntries = [
      entry '':authority'' '''',
      entry '':method'' ''GET'',
      entry '':method'' ''POST'',
      entry '':path'' ''/'',
      entry '':path'' ''/index.html'',
      entry '':scheme'' ''http'',
      entry '':scheme'' ''https'',
      entry '':status'' ''200'',
      entry '':status'' ''204'',
      entry '':status'' ''206'',
      entry '':status'' ''304'',
      entry '':status'' ''400'',
      entry '':status'' ''404'',
      entry '':status'' ''500'',
      entry ''accept-charset'' '''',
      entry ''accept-encoding'' ''gzip, deflate'',
      entry ''accept-language'' '''',
      entry ''accept-ranges'' '''',
      entry ''accept'' '''',
      entry ''access-control-allow-origin'' '''',
      entry ''age'' '''',
      entry ''allow'' '''',
      entry ''authorization'' '''',
      entry ''cache-control'' '''',
      entry ''content-disposition'' '''',
      entry ''content-encoding'' '''',
      entry ''content-language'' '''',
      entry ''content-length'' '''',
      entry ''content-location'' '''',
      entry ''content-range'' '''',
      entry ''content-type'' '''',
      entry ''cookie'' '''',
      entry ''date'' '''',
      entry ''etag'' '''',
      entry ''expect'' '''',
      entry ''expires'' '''',
      entry ''from'' '''',
      entry ''host'' '''',
      entry ''if-match'' '''',
      entry ''if-modified-since'' '''',
      entry ''if-none-match'' '''',
      entry ''if-range'' '''',
      entry ''if-unmodified-since'' '''',
      entry ''last-modified'' '''',
      entry ''link'' '''',
      entry ''location'' '''',
      entry ''max-forwards'' '''',
      entry ''proxy-authenticate'' '''',
      entry ''proxy-authorization'' '''',
      entry ''range'' '''',
      entry ''referer'' '''',
      entry ''refresh'' '''',
      entry ''retry-after'' '''',
      entry ''server'' '''',
      entry ''set-cookie'' '''',
      entry ''strict-transport-security'' '''',
      entry ''transfer-encoding'' '''',
      entry ''user-agent'' '''',
      entry ''vary'' '''',
      entry ''via'' '''',
      entry ''www-authenticate'' '''']"

definition newStaticTable :: headerFieldTable where
  "newStaticTable = fold addEntry staticTableEntries table_init"

definition staticTable :: headerFieldTable where
  "staticTable = newStaticTable"

section \<open>Dynamic tables\<close>

record dynamicTable =
  dtable :: headerFieldTable
  dsize :: u32
  maxSize :: u32
  allowedMaxSize :: u32

fun evict_loop :: "u32 \<Rightarrow> u32 \<Rightarrow> HeaderField list \<Rightarrow> u32 \<times> nat" where
  "evict_loop mx sz [] = (sz, 0)"
| "evict_loop mx sz (f # fs) =
     (if sz > mx then
        let (sz', n) = evict_loop mx (sz - Size f) fs in (sz', Suc n)
      else (sz, 0))"

definition evict :: "dynamicTable \<Rightarrow> dynamicTable option" where
  "evict dt =
     (let (sz, n) = evict_loop (maxSize dt) (dsize dt) (ents (dtable dt)) in
      case evictOldest n (dtable dt) of
        None \<Rightarrow> None
      | Some t \<Rightarrow> Some (dt\<lparr>dsize := sz, dtable := t\<rparr>))"

definition setMaxSize :: "u32 \<Rightarrow> dynamicTable \<Rightarrow> dynamicTable option" where
  "setMaxSize v dt = evict (dt\<lparr>maxSize := v\<rparr>)"

definition dyn_add :: "HeaderField \<Rightarrow> dynamicTable \<Rightarrow> dynamicTable option" where
  "dyn_add f dt = evict (dt\<lparr>dtable := addEntry f (dtable dt), dsize := dsize dt + Size f\<rparr>)"

definition dyn_empty :: "u32 \<Rightarrow> dynamicTable" where
  "dyn_empty allowed = \<lparr>dtable = table_init, dsize = 0, maxSize = 0, allowedMaxSize = allowed\<rparr>"

section \<open>The search maps\<close>

text \<open>The position of the newest entry that satisfies a predicate.\<close>

fun last_idx :: "('a \<Rightarrow> bool) \<Rightarrow> 'a list \<Rightarrow> nat option" where
  "last_idx P [] = None"
| "last_idx P (x # xs) =
     (case last_idx P xs of Some k \<Rightarrow> Some (Suc k) | None \<Rightarrow> if P x then Some 0 else None)"

lemma last_idx_snoc: "last_idx P (xs @ [y]) = (if P y then Some (length xs) else last_idx P xs)"
  by (induction xs) auto

lemma last_idx_Some:
  "last_idx P xs = Some k \<Longrightarrow> k < length xs \<and> P (xs ! k) \<and> (\<forall>j. k < j \<and> j < length xs \<longrightarrow> \<not> P (xs ! j))"
proof (induction xs arbitrary: k)
  case (Cons x xs)
  show ?case
  proof (cases "last_idx P xs")
    case None
    have "\<not> P (xs ! j)" if "j < length xs" for j
      using None that by (induction xs arbitrary: j) (auto simp: nth_Cons' split: option.splits if_splits)
    with Cons.prems None show ?thesis
      by (auto simp: nth_Cons' split: if_splits)
  next
    case (Some m)
    with Cons.IH [OF Some] Cons.prems show ?thesis
      by (auto simp: nth_Cons split: nat.splits)
  qed
qed simp

lemma last_idx_None: "last_idx P xs = None \<longleftrightarrow> (\<forall>x \<in> set xs. \<not> P x)"
  by (induction xs) (auto split: option.splits)

definition same_name :: "bytes \<Rightarrow> HeaderField \<Rightarrow> bool" where
  "same_name nm f \<longleftrightarrow> Name f = nm"

definition same_pair :: "bytes \<times> bytes \<Rightarrow> HeaderField \<Rightarrow> bool" where
  "same_pair k f \<longleftrightarrow> (Name f, Value f) = k"

lemma key_iff: "same_name k f \<longleftrightarrow> k = Name f" "same_pair p f \<longleftrightarrow> p = (Name f, Value f)"
  by (auto simp: same_name_def same_pair_def)

text \<open>A search map sends every key to the unique id of the newest entry with that key.\<close>

definition indexes :: "u64 \<Rightarrow> HeaderField list \<Rightarrow> ('k \<Rightarrow> HeaderField \<Rightarrow> bool) \<Rightarrow> ('k \<rightharpoonup> u64) \<Rightarrow> bool" where
  "indexes ec es key m \<longleftrightarrow>
     (\<forall>k. m k = map_option (\<lambda>i. of_nat (unat ec + i + 1)) (last_idx (key k) es))"

definition table_inv :: "headerFieldTable \<Rightarrow> bool" where
  "table_inv t \<longleftrightarrow>
     unat (evictCount t) + length (ents t) < 2 ^ 64 \<and>
     indexes (evictCount t) (ents t) same_name (byName t) \<and>
     indexes (evictCount t) (ents t) same_pair (byNameValue t)"

lemma table_inv_init: "table_inv table_init"
  by (simp add: table_inv_def table_init_def indexes_def)

lemma indexes_snoc:
  assumes "indexes ec es key m" "\<And>k. key k f \<longleftrightarrow> k = kf"
  shows "indexes ec (es @ [f]) key (m(kf \<mapsto> of_nat (length es) + ec + 1))"
proof -
  have "of_nat (length es) + ec + 1 = (of_nat (unat ec + length es + 1) :: u64)"
    by (simp add: add.commute)
  with assms show ?thesis
    by (auto simp: indexes_def last_idx_snoc)
qed

lemma addEntry_simps [simp]:
  "ents (addEntry f t) = ents t @ [f]" "evictCount (addEntry f t) = evictCount t"
  by (simp_all add: addEntry_def Let_def)

lemma table_inv_addEntry:
  assumes "table_inv t" "unat (evictCount t) + length (ents t) + 1 < 2 ^ 64"
  shows "table_inv (addEntry f t)"
  using assms indexes_snoc [of "evictCount t" "ents t" same_name "byName t" f "Name f", OF _ key_iff(1)]
    indexes_snoc [of "evictCount t" "ents t" same_pair "byNameValue t" f "(Name f, Value f)", OF _ key_iff(2)]
  by (simp add: table_inv_def addEntry_def Let_def)

lemma unat_plus_one: "unat (w::u64) + 1 < 2 ^ 64 \<Longrightarrow> unat (w + 1) = unat w + 1"
  by (simp add: unat_word_ariths)

lemma of_nat_u64_eq_iff: "a < 2 ^ 64 \<Longrightarrow> b < 2 ^ 64 \<Longrightarrow> (of_nat a :: u64) = of_nat b \<longleftrightarrow> a = b"
  by (simp add: word_unat_eq_iff unsigned_of_nat take_bit_nat_eq_self)

lemma indexes_evict:
  assumes "indexes ec (f # es) key m" "\<And>k. key k f \<longleftrightarrow> k = kf" "unat ec + length (f # es) < 2 ^ 64"
  shows "indexes (ec + 1) es key (map_evict kf (ec + 1) m)"
  unfolding indexes_def
proof
  fix k
  have ec: "unat (ec + 1) = unat ec + 1"
    using assms(3) by (intro unat_plus_one) simp
  have id: "ec + 1 = of_nat (unat ec + 1)"
    by simp
  have m: "m k' = map_option (\<lambda>i. of_nat (unat ec + i + 1)) (last_idx (key k') (f # es))" for k'
    using assms(1) by (simp add: indexes_def)
  show "map_evict kf (ec + 1) m k = map_option (\<lambda>i. of_nat (unat (ec + 1) + i + 1)) (last_idx (key k) es)"
  proof (cases "last_idx (key k) es")
    case None
    then show ?thesis
      using m [of k] assms(2) [of k] by (auto simp: map_evict_def map_get_def)
  next
    case (Some i)
    have i: "i < length es"
      using last_idx_Some [OF Some] by simp
    have mk: "m k = Some (of_nat (unat ec + Suc i + 1))"
      using m [of k] Some by simp
    have "unat ec + Suc i + 1 < 2 ^ 64" "unat ec + 1 < 2 ^ 64"
      using i assms(3) by auto
    from of_nat_u64_eq_iff [OF this] have "of_nat (unat ec + Suc i + 1) \<noteq> (of_nat (unat ec + 1) :: u64)"
      by simp
    then have "k = kf \<Longrightarrow> map_get m kf \<noteq> ec + 1"
      unfolding id using mk by (simp only: map_get_def option.case) simp
    then have "map_evict kf (ec + 1) m k = m k"
      by (auto simp: map_evict_def)
    with mk Some ec show ?thesis by (simp add: add.assoc)
  qed
qed

lemma evict_maps_same [simp]:
  "ents (evict_maps uid fs t) = ents t" "evictCount (evict_maps uid fs t) = evictCount t"
  by (induction uid fs t rule: evict_maps.induct) simp_all

lemma evict_maps_indexes:
  assumes "unat ec + length (fs @ es) < 2 ^ 64"
    and "indexes ec (fs @ es) same_name (byName t)" "indexes ec (fs @ es) same_pair (byNameValue t)"
  shows "indexes (ec + of_nat (length fs)) es same_name (byName (evict_maps (ec + 1) fs t)) \<and>
    indexes (ec + of_nat (length fs)) es same_pair (byNameValue (evict_maps (ec + 1) fs t))"
  using assms
proof (induction fs arbitrary: ec t)
  case (Cons f fs)
  let ?t = "t\<lparr>byName := map_evict (Name f) (ec + 1) (byName t),
      byNameValue := map_evict (Name f, Value f) (ec + 1) (byNameValue t)\<rparr>"
  have "indexes (ec + 1) (fs @ es) same_name (byName ?t)"
    using indexes_evict [of ec f "fs @ es" same_name "byName t" "Name f", OF _ key_iff(1)] Cons.prems by simp
  moreover have "indexes (ec + 1) (fs @ es) same_pair (byNameValue ?t)"
    using indexes_evict [of ec f "fs @ es" same_pair "byNameValue t" "(Name f, Value f)", OF _ key_iff(2)] Cons.prems by simp
  moreover have "unat (ec + 1) + length (fs @ es) < 2 ^ 64"
    using Cons.prems(1) unat_plus_one [of ec] by simp
  ultimately have "indexes (ec + 1 + of_nat (length fs)) es same_name (byName (evict_maps (ec + 1 + 1) fs ?t)) \<and>
      indexes (ec + 1 + of_nat (length fs)) es same_pair (byNameValue (evict_maps (ec + 1 + 1) fs ?t))"
    by (intro Cons.IH)
  then show ?case
    by (simp add: add.assoc)
qed simp

lemma evictOldest_inv:
  assumes "table_inv t" "n \<le> length (ents t)"
  shows "\<exists>t'. evictOldest n t = Some t' \<and> table_inv t' \<and> ents t' = drop n (ents t) \<and>
    unat (evictCount t') = unat (evictCount t) + n"
proof -
  have small: "unat (evictCount t) + n < 2 ^ 64"
    using assms by (simp add: table_inv_def)
  then have n: "unat (evictCount t + of_nat n) = unat (evictCount t) + n"
    by (simp add: unat_word_ariths unsigned_of_nat take_bit_nat_eq_self)
  then have "\<not> evictCount t + of_nat n < evictCount t"
    by (simp add: word_less_nat_alt)
  moreover have "length (take n (ents t)) = n"
    using assms(2) by simp
  ultimately show ?thesis
    using assms n evict_maps_indexes [of "evictCount t" "take n (ents t)" "drop n (ents t)" t]
    by (auto simp: evictOldest_def table_inv_def Let_def)
qed

section \<open>What a search finds\<close>

text \<open>The entry an index refers to: the static table counts from the oldest entry, a dynamic
  table from the newest.\<close>

definition tab_at :: "bool \<Rightarrow> headerFieldTable \<Rightarrow> u64 \<Rightarrow> HeaderField option" where
  "tab_at static t i =
     (if i = 0 \<or> unat i > length (ents t) then None
      else Some (ents t ! (if static then unat i - 1 else length (ents t) - unat i)))"

definition index_of_pos :: "bool \<Rightarrow> headerFieldTable \<Rightarrow> nat \<Rightarrow> u64" where
  "index_of_pos static t k = of_nat (if static then k + 1 else length (ents t) - k)"

lemma idToIndex_pos:
  assumes "table_inv t" "k < length (ents t)"
  shows "idToIndex static t (of_nat (unat (evictCount t) + k + 1)) = Some (index_of_pos static t k)"
    and "(of_nat (unat (evictCount t) + k + 1) :: u64) \<noteq> 0"
proof -
  let ?id = "of_nat (unat (evictCount t) + k + 1) :: u64"
  have "unat (evictCount t) + k + 1 < 2 ^ 64"
    using assms by (simp add: table_inv_def)
  then have id: "unat ?id = unat (evictCount t) + k + 1"
    by (simp only: unsigned_of_nat) (simp add: take_bit_nat_eq_self)
  then show "?id \<noteq> 0"
    by (metis add_is_0 unsigned_0 zero_neq_one)
  have "?id - evictCount t - 1 = of_nat k"
    by simp
  moreover have "\<not> ?id \<le> evictCount t"
    using id by (simp add: word_le_nat_alt del: of_nat_add)
  moreover have "(of_nat (length (ents t)) - of_nat k :: u64) = of_nat (length (ents t) - k)"
    using assms(2) by (simp add: of_nat_diff)
  ultimately show "idToIndex static t ?id = Some (index_of_pos static t k)"
    unfolding idToIndex_def Let_def by (simp add: index_of_pos_def)
qed

lemma map_get_indexes:
  assumes "indexes (evictCount t) (ents t) key m"
  shows "map_get m k = (case last_idx (key k) (ents t) of None \<Rightarrow> 0
    | Some i \<Rightarrow> of_nat (unat (evictCount t) + i + 1))"
  using assms by (simp add: indexes_def map_get_def split: option.splits)

text \<open>The specification of a search: the position of the newest entry with the same name and
  value (which a sensitive field never asks for), or else of the newest one with the same name.\<close>

definition newest_match :: "HeaderField list \<Rightarrow> HeaderField \<Rightarrow> (nat \<times> bool) option" where
  "newest_match es f =
     (case (if Sensitive f then None else last_idx (same_pair (Name f, Value f)) es) of
        Some k \<Rightarrow> Some (k, True)
      | None \<Rightarrow> map_option (\<lambda>k. (k, False)) (last_idx (same_name (Name f)) es))"

lemma newest_match_Some:
  "newest_match es f = Some (k, b) \<Longrightarrow> k < length es \<and> Name (es ! k) = Name f \<and>
     (b \<longrightarrow> Value (es ! k) = Value f \<and> \<not> Sensitive f)"
  by (auto simp: newest_match_def key_iff dest!: last_idx_Some split: option.splits if_splits)

lemma search_eq:
  assumes "table_inv t"
  shows "search static t f = Some
    (case newest_match (ents t) f of None \<Rightarrow> (0, False) | Some (k, b) \<Rightarrow> (index_of_pos static t k, b))"
proof -
  have m: "map_get (byNameValue t) (Name f, Value f) = (case last_idx (same_pair (Name f, Value f)) (ents t)
      of None \<Rightarrow> 0 | Some i \<Rightarrow> of_nat (unat (evictCount t) + i + 1))"
    "map_get (byName t) (Name f) = (case last_idx (same_name (Name f)) (ents t)
      of None \<Rightarrow> 0 | Some i \<Rightarrow> of_nat (unat (evictCount t) + i + 1))"
    using assms by (auto simp: table_inv_def intro!: map_get_indexes)
  have id: "idToIndex static t (of_nat (unat (evictCount t) + k + 1)) = Some (index_of_pos static t k)"
    "(of_nat (unat (evictCount t) + k + 1) :: u64) \<noteq> 0" if "last_idx P (ents t) = Some k" for P k
    using idToIndex_pos [OF assms] last_idx_Some [OF that] by blast+
  show ?thesis
    unfolding search_def Let_def m newest_match_def using id
    by (cases "last_idx (same_pair (Name f, Value f)) (ents t)";
        cases "last_idx (same_name (Name f)) (ents t)") simp_all
qed

lemma tab_at_index_of_pos:
  assumes "table_inv t" "k < length (ents t)"
  shows "tab_at static t (index_of_pos static t k) = Some (ents t ! k)"
    and "index_of_pos static t k \<noteq> 0" "unat (index_of_pos static t k) \<le> length (ents t)"
proof -
  let ?n = "if static then k + 1 else length (ents t) - k"
  have "?n < 2 ^ 64" "?n \<noteq> 0" "?n \<le> length (ents t)"
    using assms by (auto simp: table_inv_def)
  moreover from this have u: "unat (index_of_pos static t k) = ?n"
    unfolding index_of_pos_def by (simp only: unsigned_of_nat) (simp add: take_bit_nat_eq_self)
  ultimately show "index_of_pos static t k \<noteq> 0" "unat (index_of_pos static t k) \<le> length (ents t)"
    by (metis unsigned_0, simp)
  then show "tab_at static t (index_of_pos static t k) = Some (ents t ! k)"
    using u assms(2) by (auto simp: tab_at_def)
qed

section \<open>What a dynamic table holds\<close>

text \<open>RFC 7541: the size of an entry, and the entries kept under a bound: the longest run of
  newest entries that fits.\<close>

definition hf_size :: "HeaderField \<Rightarrow> nat" where
  "hf_size f = length (Name f) + length (Value f) + 32"

definition total_size :: "HeaderField list \<Rightarrow> nat" where
  "total_size es = sum_list (map hf_size es)"

fun fit :: "nat \<Rightarrow> HeaderField list \<Rightarrow> HeaderField list" where
  "fit m [] = []"
| "fit m (f # fs) = (if total_size (f # fs) \<le> m then f # fs else fit m fs)"

lemma total_size_simps [simp]:
  "total_size [] = 0" "total_size (f # fs) = hf_size f + total_size fs" "total_size (xs @ ys) = total_size xs + total_size ys"
  by (simp_all add: total_size_def)

lemma fit_id: "total_size es \<le> m \<Longrightarrow> fit m es = es"
  by (cases es) simp_all

lemma suffix_fit: "suffix (fit m es) es"
  by (induction es) (auto simp: suffix_ConsI)

lemma total_fit: "total_size (fit m es) \<le> m"
  by (induction es) auto

lemma total_suffix: "suffix xs ys \<Longrightarrow> total_size xs \<le> total_size ys"
  by (auto simp: suffix_def)

text \<open>Nothing longer fits.\<close>

lemma fit_greatest: "suffix xs es \<Longrightarrow> total_size xs \<le> m \<Longrightarrow> suffix xs (fit m es)"
proof (induction es)
  case (Cons f fs)
  then show ?case
    using total_suffix [of xs "f # fs"] by (auto simp: suffix_Cons)
qed simp

lemma fit_mono: "suffix xs ys \<Longrightarrow> m \<le> n \<Longrightarrow> suffix (fit m xs) (fit n ys)"
  by (meson fit_greatest le_trans suffix_fit suffix_order.trans total_fit)

subsection \<open>The interface\<close>

text \<open>
  What the encoder and the decoder rely on in a dynamic table.  \<open>used\<close> counts the entries
  ever added, which bounds the life of the unique ids.
\<close>

locale header_store =
  fixes inv :: "'t \<Rightarrow> bool" and items :: "'t \<Rightarrow> HeaderField list" and cap :: "'t \<Rightarrow> nat"
    and used :: "'t \<Rightarrow> nat" and add :: "HeaderField \<Rightarrow> 't \<Rightarrow> 't option"
    and resize :: "u32 \<Rightarrow> 't \<Rightarrow> 't option"
  assumes items_fit: "inv t \<Longrightarrow> total_size (items t) \<le> cap t"
    and add_law: "inv t \<Longrightarrow> cap t + hf_size f < 2 ^ 32 \<Longrightarrow> Suc (used t) < 2 ^ 64 \<Longrightarrow>
      \<exists>t'. add f t = Some t' \<and> inv t' \<and> items t' = fit (cap t) (items t @ [f]) \<and> cap t' = cap t \<and>
        used t' = Suc (used t)"
    and resize_law: "inv t \<Longrightarrow>
      \<exists>t'. resize v t = Some t' \<and> inv t' \<and> items t' = fit (unat v) (items t) \<and> cap t' = unat v \<and>
        used t' = used t"
begin

text \<open>A store whose entries are the newest ones of another: the relation between the
  encoder's table and the decoder's.\<close>

lemma add_newest:
  assumes "inv t" "inv u" "suffix (items t) (items u)" "cap t \<le> cap u" "cap u + hf_size f < 2 ^ 32"
    and "Suc (used t) < 2 ^ 64" "Suc (used u) < 2 ^ 64"
  shows "\<exists>t' u'. add f t = Some t' \<and> add f u = Some u' \<and> inv t' \<and> inv u' \<and>
    suffix (items t') (items u') \<and> cap t' = cap t \<and> cap u' = cap u \<and>
    used t' = Suc (used t) \<and> used u' = Suc (used u)"
proof -
  have "suffix (fit (cap t) (items t @ [f])) (fit (cap u) (items u @ [f]))"
    using assms(3,4) by (intro fit_mono) (auto simp: suffix_def)
  moreover have "cap t + hf_size f < 2 ^ 32"
    using assms(4,5) by linarith
  ultimately show ?thesis
    using add_law [OF assms(1), of f] add_law [OF assms(2,5)] assms(6,7) by fastforce
qed

lemma resize_newest:
  assumes "inv u" "suffix (items t) (items u)" "total_size (items t) \<le> unat v"
  shows "\<exists>u'. resize v u = Some u' \<and> inv u' \<and> suffix (items t) (items u') \<and> cap u' = unat v \<and>
    used u' = used u"
  using resize_law [OF assms(1), of v] fit_greatest [OF assms(2,3)] by auto

lemma shrink_newest:
  assumes "inv t" "suffix (items t) es"
  shows "\<exists>t'. resize v t = Some t' \<and> inv t' \<and> suffix (items t') es \<and>
    total_size (items t') \<le> min (unat v) (total_size (items t)) \<and> cap t' = unat v \<and> used t' = used t"
proof -
  obtain t' where t': "resize v t = Some t'" "inv t'" "items t' = fit (unat v) (items t)"
      "cap t' = unat v" "used t' = used t"
    using resize_law [OF assms(1)] by blast
  moreover have "suffix (items t') es"
    using t'(3) suffix_fit [of "unat v" "items t"] assms(2) suffix_order.trans by metis
  moreover have "total_size (items t') \<le> min (unat v) (total_size (items t))"
    using t'(3) total_fit [of "unat v" "items t"] total_suffix [OF suffix_fit, of "unat v" "items t"] by simp
  ultimately show ?thesis by blast
qed

end

subsection \<open>The code's dynamic table\<close>

definition dyn_inv :: "dynamicTable \<Rightarrow> bool" where
  "dyn_inv dt \<longleftrightarrow>
     table_inv (dtable dt) \<and> total_size (ents (dtable dt)) \<le> unat (maxSize dt) \<and>
     dsize dt = of_nat (total_size (ents (dtable dt)))"

abbreviation dyn_items :: "dynamicTable \<Rightarrow> HeaderField list" where
  "dyn_items dt \<equiv> ents (dtable dt)"

definition dyn_used :: "dynamicTable \<Rightarrow> nat" where
  "dyn_used dt = unat (evictCount (dtable dt)) + length (ents (dtable dt))"

lemma Size_eq: "Size f = of_nat (hf_size f)"
  by (simp add: Size_def hf_size_def)

lemma evict_loop_fit:
  assumes "total_size es < 2 ^ 32" "sz = of_nat (total_size es)"
  shows "\<exists>n. evict_loop mx sz es = (of_nat (total_size (fit (unat mx) es)), n) \<and> n \<le> length es \<and>
    fit (unat mx) es = drop n es"
  using assms
proof (induction es arbitrary: sz)
  case (Cons f fs)
  have gt: "sz > mx \<longleftrightarrow> total_size (f # fs) > unat mx"
    using Cons.prems by (simp add: word_less_nat_alt unsigned_of_nat take_bit_nat_eq_self del: total_size_simps)
  show ?case
  proof (cases "sz > mx")
    case True
    have "sz - Size f = of_nat (total_size fs)"
      using Cons.prems(2) by (simp add: Size_eq)
    from Cons.IH [OF _ this] Cons.prems(1) True gt show ?thesis
      by auto
  next
    case False
    with gt Cons.prems(2) show ?thesis by auto
  qed
qed simp

text \<open>What holds even if the 32-bit byte count wraps: the count is right modulo $2^{32}$, it
  never exceeds the bound, and evicting does not panic.\<close>

definition dyn_weak :: "dynamicTable \<Rightarrow> bool" where
  "dyn_weak dt \<longleftrightarrow>
     table_inv (dtable dt) \<and> dsize dt = of_nat (total_size (ents (dtable dt))) \<and> dsize dt \<le> maxSize dt"

lemma evict_loop_weak:
  "evict_loop mx (of_nat (total_size es)) es = (sz, n) \<Longrightarrow>
     n \<le> length es \<and> sz = of_nat (total_size (drop n es)) \<and> sz \<le> mx"
proof (induction es arbitrary: n)
  case (Cons f fs)
  have "of_nat (total_size (f # fs)) - Size f = of_nat (total_size fs)"
    by (simp add: Size_eq)
  with Cons show ?case
    by (cases "evict_loop mx (of_nat (total_size fs)) fs")
      (auto simp del: total_size_simps simp: linorder_not_less split: if_splits)
qed simp

lemma evict_weak:
  assumes "table_inv (dtable dt)" "dsize dt = of_nat (total_size (dyn_items dt))"
  shows "\<exists>dt'. evict dt = Some dt' \<and> dyn_weak dt' \<and> maxSize dt' = maxSize dt \<and>
    allowedMaxSize dt' = allowedMaxSize dt \<and> dyn_used dt' = dyn_used dt"
proof -
  obtain sz n where n: "evict_loop (maxSize dt) (dsize dt) (dyn_items dt) = (sz, n)"
    by fastforce
  then have le: "n \<le> length (dyn_items dt)" "sz = of_nat (total_size (drop n (dyn_items dt)))" "sz \<le> maxSize dt"
    using evict_loop_weak assms(2) by metis+
  from evictOldest_inv [OF assms(1) le(1)] n le show ?thesis
    by (auto simp: evict_def dyn_weak_def dyn_used_def)
qed

lemma evict_spec:
  assumes "table_inv (dtable dt)" "total_size (dyn_items dt) < 2 ^ 32" "dsize dt = of_nat (total_size (dyn_items dt))"
  shows "\<exists>dt'. evict dt = Some dt' \<and> dyn_inv dt' \<and> dyn_items dt' = fit (unat (maxSize dt)) (dyn_items dt) \<and>
    maxSize dt' = maxSize dt \<and> allowedMaxSize dt' = allowedMaxSize dt \<and> dyn_used dt' = dyn_used dt"
proof -
  obtain n where n: "evict_loop (maxSize dt) (dsize dt) (dyn_items dt) =
      (of_nat (total_size (fit (unat (maxSize dt)) (dyn_items dt))), n)"
      "n \<le> length (dyn_items dt)" "fit (unat (maxSize dt)) (dyn_items dt) = drop n (dyn_items dt)"
    using evict_loop_fit [OF assms(2,3)] by blast
  obtain t where t: "evictOldest n (dtable dt) = Some t" "table_inv t" "ents t = drop n (dyn_items dt)"
      "unat (evictCount t) = unat (evictCount (dtable dt)) + n"
    using evictOldest_inv [OF assms(1) n(2)] by blast
  have "total_size (ents t) \<le> unat (maxSize dt)"
    using total_fit [of "unat (maxSize dt)" "dyn_items dt"] n(3) t(3) by simp
  with n t show ?thesis
    by (simp add: evict_def dyn_inv_def dyn_used_def)
qed

lemma setMaxSize_spec:
  assumes "dyn_inv dt"
  shows "\<exists>dt'. setMaxSize v dt = Some dt' \<and> dyn_inv dt' \<and> dyn_items dt' = fit (unat v) (dyn_items dt) \<and>
    maxSize dt' = v \<and> allowedMaxSize dt' = allowedMaxSize dt \<and> dyn_used dt' = dyn_used dt"
proof -
  have "total_size (dyn_items dt) < 2 ^ 32"
    using assms unsigned_less [of "maxSize dt", where 'a = nat] by (simp add: dyn_inv_def)
  with assms evict_spec [of "dt\<lparr>maxSize := v\<rparr>"] show ?thesis
    by (simp add: setMaxSize_def dyn_inv_def dyn_used_def)
qed

lemma dyn_add_spec:
  assumes "dyn_inv dt" "unat (maxSize dt) + hf_size f < 2 ^ 32" "Suc (dyn_used dt) < 2 ^ 64"
  shows "\<exists>dt'. dyn_add f dt = Some dt' \<and> dyn_inv dt' \<and>
    dyn_items dt' = fit (unat (maxSize dt)) (dyn_items dt @ [f]) \<and>
    maxSize dt' = maxSize dt \<and> allowedMaxSize dt' = allowedMaxSize dt \<and> dyn_used dt' = Suc (dyn_used dt)"
proof -
  let ?dt = "dt\<lparr>dtable := addEntry f (dtable dt), dsize := dsize dt + Size f\<rparr>"
  have ents: "dyn_items ?dt = dyn_items dt @ [f]" "evictCount (dtable ?dt) = evictCount (dtable dt)"
    by (simp_all add: addEntry_def Let_def)
  have "table_inv (dtable ?dt)"
    using table_inv_addEntry [of "dtable dt" f] assms(1,3) by (simp add: dyn_inv_def dyn_used_def)
  moreover have "total_size (dyn_items ?dt) < 2 ^ 32"
    using assms(1,2) ents by (simp add: dyn_inv_def)
  moreover have "dsize ?dt = of_nat (total_size (dyn_items ?dt))"
    using assms(1) ents by (simp add: dyn_inv_def Size_eq)
  ultimately show ?thesis
    using evict_spec [of ?dt] ents by (simp add: dyn_add_def dyn_used_def)
qed

lemma setMaxSize_weak:
  "dyn_weak dt \<Longrightarrow> \<exists>dt'. setMaxSize v dt = Some dt' \<and> dyn_weak dt' \<and> maxSize dt' = v \<and>
     allowedMaxSize dt' = allowedMaxSize dt \<and> dyn_used dt' = dyn_used dt"
  using evict_weak [of "dt\<lparr>maxSize := v\<rparr>"] by (simp add: setMaxSize_def dyn_weak_def dyn_used_def)

lemma dyn_add_weak:
  assumes "dyn_weak dt" "Suc (dyn_used dt) < 2 ^ 64"
  shows "\<exists>dt'. dyn_add f dt = Some dt' \<and> dyn_weak dt' \<and> maxSize dt' = maxSize dt \<and>
     allowedMaxSize dt' = allowedMaxSize dt \<and> dyn_used dt' = Suc (dyn_used dt)"
proof -
  let ?dt = "dt\<lparr>dtable := addEntry f (dtable dt), dsize := dsize dt + Size f\<rparr>"
  have "table_inv (dtable ?dt)"
    using table_inv_addEntry [of "dtable dt" f] assms by (simp add: dyn_weak_def dyn_used_def)
  moreover have "dsize ?dt = of_nat (total_size (dyn_items ?dt))"
    using assms(1) by (simp add: dyn_weak_def Size_eq)
  ultimately show ?thesis
    using evict_weak [of ?dt] by (simp add: dyn_add_def dyn_used_def)
qed

interpretation dyn: header_store dyn_inv dyn_items "\<lambda>dt. unat (maxSize dt)" dyn_used dyn_add setMaxSize
proof unfold_locales
  fix t f v
  show "dyn_inv t \<Longrightarrow> total_size (dyn_items t) \<le> unat (maxSize t)"
    by (simp add: dyn_inv_def)
  show "dyn_inv t \<Longrightarrow> unat (maxSize t) + hf_size f < 2 ^ 32 \<Longrightarrow> Suc (dyn_used t) < 2 ^ 64 \<Longrightarrow>
      \<exists>t'. dyn_add f t = Some t' \<and> dyn_inv t' \<and>
        dyn_items t' = fit (unat (maxSize t)) (dyn_items t @ [f]) \<and>
        unat (maxSize t') = unat (maxSize t) \<and> dyn_used t' = Suc (dyn_used t)"
    using dyn_add_spec by fastforce
  show "dyn_inv t \<Longrightarrow> \<exists>t'. setMaxSize v t = Some t' \<and> dyn_inv t' \<and>
      dyn_items t' = fit (unat v) (dyn_items t) \<and> unat (maxSize t') = unat v \<and> dyn_used t' = dyn_used t"
    using setMaxSize_spec by fastforce
qed

subsection \<open>The static table\<close>

lemma fold_addEntry:
  "table_inv t \<Longrightarrow> unat (evictCount t) + length (ents t) + length fs < 2 ^ 64 \<Longrightarrow>
     table_inv (fold addEntry fs t) \<and> ents (fold addEntry fs t) = ents t @ fs"
  by (induction fs arbitrary: t) (simp_all add: table_inv_addEntry)

lemma length_staticTableEntries: "length staticTableEntries = 61"
  by (simp add: staticTableEntries_def)

lemma staticTable_inv: "table_inv staticTable"
  and ents_staticTable: "ents staticTable = staticTableEntries"
  using fold_addEntry [OF table_inv_init, of staticTableEntries]
  by (simp_all add: staticTable_def newStaticTable_def length_staticTableEntries)
    (simp_all add: table_init_def)

subsection \<open>Sequences of operations\<close>

datatype dyn_op = AddField HeaderField | SetMax u32

definition dyn_do :: "dyn_op \<Rightarrow> dynamicTable \<Rightarrow> dynamicTable option" where
  "dyn_do op dt = (case op of AddField f \<Rightarrow> dyn_add f dt | SetMax v \<Rightarrow> setMaxSize v dt)"

fun dyn_run :: "dyn_op list \<Rightarrow> dynamicTable \<Rightarrow> dynamicTable option" where
  "dyn_run [] dt = Some dt"
| "dyn_run (op # ops) dt = (case dyn_do op dt of None \<Rightarrow> None | Some dt' \<Rightarrow> dyn_run ops dt')"

text \<open>The specification: a list of entries and a bound.\<close>

fun spec_do :: "dyn_op \<Rightarrow> HeaderField list \<times> nat \<Rightarrow> HeaderField list \<times> nat" where
  "spec_do (AddField f) (es, m) = (fit m (es @ [f]), m)"
| "spec_do (SetMax v) (es, m) = (fit (unat v) es, unat v)"

definition small_op :: "dyn_op \<Rightarrow> bool" where
  "small_op op = (case op of AddField f \<Rightarrow> hf_size f < 2 ^ 31 | SetMax v \<Rightarrow> v < 2 ^ 31)"

lemma dyn_do_refines:
  assumes "dyn_inv dt" "maxSize dt < 2 ^ 31" "small_op op" "Suc (dyn_used dt) < 2 ^ 64"
  shows "\<exists>dt'. dyn_do op dt = Some dt' \<and> dyn_inv dt' \<and> maxSize dt' < 2 ^ 31 \<and>
    dyn_used dt' \<le> Suc (dyn_used dt) \<and>
    (dyn_items dt', unat (maxSize dt')) = spec_do op (dyn_items dt, unat (maxSize dt))"
proof (cases op)
  case (AddField f)
  have "unat (maxSize dt) < 2 ^ 31"
    using assms(2) by (simp add: word_less_nat_alt)
  then have "unat (maxSize dt) + hf_size f < 2 ^ 32"
    using assms(3) AddField by (simp add: small_op_def)
  from dyn_add_spec [OF assms(1) this assms(4)] assms(2) AddField show ?thesis
    by (auto simp: dyn_do_def)
next
  case (SetMax v)
  with setMaxSize_spec [OF assms(1), of v] assms(3) show ?thesis
    by (auto simp: dyn_do_def small_op_def)
qed

lemma dyn_run_refines:
  assumes "dyn_inv dt" "maxSize dt < 2 ^ 31" "list_all small_op ops" "dyn_used dt + length ops < 2 ^ 64"
  shows "\<exists>dt'. dyn_run ops dt = Some dt' \<and> dyn_inv dt' \<and>
    (dyn_items dt', unat (maxSize dt')) = fold spec_do ops (dyn_items dt, unat (maxSize dt))"
  using assms
proof (induction ops arbitrary: dt)
  case (Cons op ops)
  obtain dt' where dt': "dyn_do op dt = Some dt'" "dyn_inv dt'" "maxSize dt' < 2 ^ 31"
      "dyn_used dt' \<le> Suc (dyn_used dt)"
      "(dyn_items dt', unat (maxSize dt')) = spec_do op (dyn_items dt, unat (maxSize dt))"
    using dyn_do_refines [OF Cons.prems(1,2), of op] Cons.prems(3,4) by auto
  with Cons.IH [OF dt'(2,3)] Cons.prems(3,4) show ?case
    by simp
qed simp

lemma dyn_inv_empty: "dyn_inv (dyn_empty allowed)"
  by (simp add: dyn_inv_def dyn_empty_def table_inv_init) (simp add: table_init_def)

text \<open>C13.  The dynamic table refines its specification.  Whatever entries are added and
  whatever bounds are set, starting from the empty table, no operation panics; the entries
  are the newest ones that fit the current bound, oldest first; the byte count and both
  search maps describe exactly those entries; and a search returns the HPACK index of the
  newest entry with the same name and value, or else of the newest one with the same name.
  Sizes up to 2 GiB are far below the point where the 32-bit byte count could wrap.\<close>

theorem dynamic_table_refines:
  assumes "list_all small_op ops" "length ops < 2 ^ 64"
  shows "\<exists>dt. dyn_run ops (dyn_empty allowed) = Some dt \<and>
    (ents (dtable dt), unat (maxSize dt)) = fold spec_do ops ([], 0) \<and>
    unat (dsize dt) = total_size (ents (dtable dt)) \<and>
    (\<forall>f. search False (dtable dt) f = Some
      (case newest_match (ents (dtable dt)) f of
         None \<Rightarrow> (0, False)
       | Some (k, b) \<Rightarrow> (of_nat (length (ents (dtable dt)) - k), b)))"
proof -
  have empty: "maxSize (dyn_empty allowed) = 0" "dyn_items (dyn_empty allowed) = []"
      "dyn_used (dyn_empty allowed) = 0"
    by (simp_all add: dyn_empty_def table_init_def dyn_used_def)
  then obtain dt where dt: "dyn_run ops (dyn_empty allowed) = Some dt" "dyn_inv dt"
      "(dyn_items dt, unat (maxSize dt)) = fold spec_do ops ([], 0)"
    using dyn_run_refines [OF dyn_inv_empty, of allowed ops] assms by auto
  have "total_size (dyn_items dt) < 2 ^ 32"
    using dt(2) unsigned_less [of "maxSize dt", where 'a = nat] by (simp add: dyn_inv_def)
  then have "unat (dsize dt) = total_size (dyn_items dt)"
    using dt(2) by (simp add: dyn_inv_def unsigned_of_nat take_bit_nat_eq_self)
  moreover have "table_inv (dtable dt)"
    using dt(2) by (simp add: dyn_inv_def)
  from search_eq [OF this, of False]
  have "search False (dtable dt) f = Some (case newest_match (dyn_items dt) f of
      None \<Rightarrow> (0, False) | Some (k, b) \<Rightarrow> (of_nat (length (dyn_items dt) - k), b))" for f
    by (simp add: index_of_pos_def split: option.split)
  ultimately show ?thesis
    using dt by simp
qed

theorem dynamic_table_refines_witness:
  "\<exists>dt. dyn_run [SetMax 70, AddField (entry ''a'' ''b''), AddField (entry ''c'' ''d''), AddField (entry ''e'' ''f'')]
      (dyn_empty 4096) = Some dt \<and> ents (dtable dt) = [entry ''c'' ''d'', entry ''e'' ''f''] \<and>
    search False (dtable dt) (entry ''e'' ''f'') = Some (1, True)"
proof -
  have ops: "list_all small_op [SetMax 70, AddField (entry ''a'' ''b''), AddField (entry ''c'' ''d''),
      AddField (entry ''e'' ''f'')]"
    by (simp add: small_op_def hf_size_def entry_def go_bytes_def)
  obtain dt where dt: "dyn_run [SetMax 70, AddField (entry ''a'' ''b''), AddField (entry ''c'' ''d''),
        AddField (entry ''e'' ''f'')] (dyn_empty 4096) = Some dt"
      "(ents (dtable dt), unat (maxSize dt)) = ([entry ''c'' ''d'', entry ''e'' ''f''], 70)"
      "search False (dtable dt) (entry ''e'' ''f'') = Some
        (case newest_match (ents (dtable dt)) (entry ''e'' ''f'') of
           None \<Rightarrow> (0, False)
         | Some (k, b) \<Rightarrow> (of_nat (length (ents (dtable dt)) - k), b))"
    using dynamic_table_refines [OF ops, of 4096] by (auto simp: hf_size_def entry_def go_bytes_def)
  then show ?thesis
    by (auto simp: newest_match_def same_pair_def entry_def go_bytes_def)
qed

end
