(* ===== verification/HPACK_Decode.thy ===== *)
theory HPACK_Decode
  imports HPACK_Huffman_Roundtrip HPACK_Tables
begin

text \<open>
  Package \<^verbatim>\<open>hpack\<close>, the decoder of \<^verbatim>\<open>hpack.go\<close>.  The emit callback is the list of its
  calls so far.  Parsing functions that update the decoder return the new decoder and the
  error, if any.  A length converted from \<^verbatim>\<open>int\<close> to \<^verbatim>\<open>uint64\<close> is not negative, so
  comparisons of lengths are comparisons of natural numbers.
\<close>

section \<open>The decoder\<close>

record Decoder =
  dynTab :: dynamicTable
  emitted :: "HeaderField list"
  emitEnabled :: bool
  maxStrLen :: int
  dbuf :: bytes
  saveBuf :: bytes

definition NewDecoder :: "u32 \<Rightarrow> Decoder option" where
  "NewDecoder maxDynamicTableSize =
     (case setMaxSize maxDynamicTableSize (dyn_empty maxDynamicTableSize) of
        None \<Rightarrow> None
      | Some dt \<Rightarrow> Some \<lparr>dynTab = dt, emitted = [], emitEnabled = True, maxStrLen = 0, dbuf = [], saveBuf = []\<rparr>)"

definition SetMaxStringLength :: "int \<Rightarrow> Decoder \<Rightarrow> Decoder" where
  "SetMaxStringLength n d = d\<lparr>maxStrLen := n\<rparr>"

definition SetEmitEnabled :: "bool \<Rightarrow> Decoder \<Rightarrow> Decoder" where
  "SetEmitEnabled v d = d\<lparr>emitEnabled := v\<rparr>"

definition Decoder_SetMaxDynamicTableSize :: "u32 \<Rightarrow> Decoder \<Rightarrow> Decoder option" where
  "Decoder_SetMaxDynamicTableSize v d = map_option (\<lambda>dt. d\<lparr>dynTab := dt\<rparr>) (setMaxSize v (dynTab d))"

definition SetAllowedMaxDynamicTableSize :: "u32 \<Rightarrow> Decoder \<Rightarrow> Decoder" where
  "SetAllowedMaxDynamicTableSize v d = d\<lparr>dynTab := (dynTab d)\<lparr>allowedMaxSize := v\<rparr>\<rparr>"

definition maxTableIndex :: "Decoder \<Rightarrow> nat" where
  "maxTableIndex d = length (ents (dtable (dynTab d))) + length (ents staticTable)"

definition dec_at :: "Decoder \<Rightarrow> u64 \<Rightarrow> hpack_error + HeaderField option" where
  "dec_at d i =
     (if i = 0 then Inr None
      else if unat i \<le> length (ents staticTable) then res_bind (index_expr (ents staticTable) (uint i - 1)) (\<lambda>hf. Inr (Some hf))
      else if unat i > maxTableIndex d then Inr None
      else
        let dt = dtable (dynTab d) in
        res_bind (index_expr (ents dt) (int (length (ents dt)) - (uint i - int (length (ents staticTable))))) (\<lambda>hf. Inr (Some hf)))"

definition readString :: "int \<Rightarrow> bool \<Rightarrow> bytes \<Rightarrow> hpack_error + bytes \<times> bytes" where
  "readString mx wantStr p =
     (if p = [] then Inl ErrNeedMore
      else
        res_bind (index_expr p 0) (\<lambda>b.
          let isHuff = (b AND 128 \<noteq> 0) in
          res_bind (readVarInt 7 p) (\<lambda>(strLen, p).
            if mx \<noteq> 0 \<and> strLen > word_of_int mx then Inl ErrStringLength
            else if length p < unat strLen then Inl ErrNeedMore
            else
              res_bind (slice_at (unat strLen) p) (\<lambda>(v, rest).
                if \<not> isHuff then Inr (if wantStr then v else [], rest)
                else if wantStr then
                  (case huffmanDecode mx v of
                     None \<Rightarrow> Inl Diverges
                   | Some (Inl e) \<Rightarrow> Inl e
                   | Some (Inr s) \<Rightarrow> Inr (s, rest))
                else Inr ([], rest)))))"

definition callEmit :: "HeaderField \<Rightarrow> Decoder \<Rightarrow> Decoder \<times> hpack_error option" where
  "callEmit hf d =
     (if maxStrLen d \<noteq> 0 \<and> (int (length (Name hf)) > maxStrLen d \<or> int (length (Value hf)) > maxStrLen d)
      then (d, Some ErrStringLength)
      else (if emitEnabled d then d\<lparr>emitted := emitted d @ [hf]\<rparr> else d, None))"

definition parseFieldIndexed :: "Decoder \<Rightarrow> Decoder \<times> hpack_error option" where
  "parseFieldIndexed d =
     (case readVarInt 7 (dbuf d) of
        Inl e \<Rightarrow> (d, Some e)
      | Inr (idx, buf) \<Rightarrow>
          (case dec_at d idx of
             Inl e \<Rightarrow> (d, Some e)
           | Inr None \<Rightarrow> (d, Some (DecodingError (InvalidIndex idx)))
           | Inr (Some hf) \<Rightarrow>
               callEmit \<lparr>Name = Name hf, Value = Value hf, Sensitive = False\<rparr> (d\<lparr>dbuf := buf\<rparr>)))"

datatype indexType = indexedTrue | indexedFalse | indexedNever

definition indexed :: "indexType \<Rightarrow> bool" where
  "indexed v = (v = indexedTrue)"

definition sensitive :: "indexType \<Rightarrow> bool" where
  "sensitive v = (v = indexedNever)"

definition read_name :: "Decoder \<Rightarrow> bool \<Rightarrow> u64 \<Rightarrow> bytes \<Rightarrow> hpack_error + bytes \<times> bytes" where
  "read_name d wantStr nameIdx buf =
     (if nameIdx > 0 then
        (case dec_at d nameIdx of
           Inl e \<Rightarrow> Inl e
         | Inr None \<Rightarrow> Inl (DecodingError (InvalidIndex nameIdx))
         | Inr (Some ihf) \<Rightarrow> Inr (Name ihf, buf))
      else readString (maxStrLen d) wantStr buf)"

definition parseFieldLiteral :: "nat \<Rightarrow> indexType \<Rightarrow> Decoder \<Rightarrow> Decoder \<times> hpack_error option" where
  "parseFieldLiteral n it d =
     (let wantStr = emitEnabled d \<or> indexed it in
      case readVarInt n (dbuf d) of
        Inl e \<Rightarrow> (d, Some e)
      | Inr (nameIdx, buf) \<Rightarrow>
          (case read_name d wantStr nameIdx buf of
             Inl e \<Rightarrow> (d, Some e)
           | Inr (name, buf) \<Rightarrow>
               (case readString (maxStrLen d) wantStr buf of
                  Inl e \<Rightarrow> (d, Some e)
                | Inr (val, buf) \<Rightarrow>
                    let hf = \<lparr>Name = name, Value = val, Sensitive = False\<rparr>; d1 = d\<lparr>dbuf := buf\<rparr> in
                    case (if indexed it then dyn_add hf (dynTab d1) else Some (dynTab d1)) of
                      None \<Rightarrow> (d1, Some PanicTable)
                    | Some dt \<Rightarrow> callEmit (hf\<lparr>Sensitive := sensitive it\<rparr>) (d1\<lparr>dynTab := dt\<rparr>))))"

definition parseDynamicTableSizeUpdate :: "Decoder \<Rightarrow> Decoder \<times> hpack_error option" where
  "parseDynamicTableSizeUpdate d =
     (case readVarInt 5 (dbuf d) of
        Inl e \<Rightarrow> (d, Some e)
      | Inr (sz, buf) \<Rightarrow>
          if sz > ucast (allowedMaxSize (dynTab d)) then (d, Some (DecodingError TableSizeUpdateTooLarge))
          else
            (case setMaxSize (ucast sz) (dynTab d) of
               None \<Rightarrow> (d, Some PanicTable)
             | Some dt \<Rightarrow> (d\<lparr>dynTab := dt, dbuf := buf\<rparr>, None)))"

text \<open>The precondition is that the buffer is not empty; otherwise the index expression panics.\<close>

definition parseHeaderFieldRepr :: "Decoder \<Rightarrow> Decoder \<times> hpack_error option" where
  "parseHeaderFieldRepr d =
     (case index_expr (dbuf d) 0 of
        Inl e \<Rightarrow> (d, Some e)
      | Inr b \<Rightarrow>
          if b AND 128 \<noteq> 0 then parseFieldIndexed d
          else if b AND 192 = 64 then parseFieldLiteral 6 indexedTrue d
          else if b AND 240 = 0 then parseFieldLiteral 4 indexedFalse d
          else if b AND 240 = 16 then parseFieldLiteral 4 indexedNever d
          else if b AND 224 = 32 then parseDynamicTableSizeUpdate d
          else (d, Some (DecodingError InvalidEncoding)))"

section \<open>Index and slice expressions\<close>

text \<open>The guards of the code keep every index and slice expression in range.\<close>

definition dec_lookup :: "Decoder \<Rightarrow> u64 \<Rightarrow> HeaderField option" where
  "dec_lookup d i =
     (if i = 0 then None
      else if unat i \<le> length (ents staticTable) then Some (ents staticTable ! (unat i - 1))
      else if unat i > maxTableIndex d then None
      else
        let dt = dtable (dynTab d) in
        Some (ents dt ! (length (ents dt) - (unat i - length (ents staticTable)))))"

lemma dec_at_lookup [simp]: "dec_at d i = Inr (dec_lookup d i)"
proof -
  have u: "uint i = int (unat i)" by simp
  have "0 < unat i" if "i \<noteq> 0" using that by (simp add: unat_gt_0)
  then show ?thesis
    unfolding dec_at_def dec_lookup_def u
    by (auto simp: index_expr_def maxTableIndex_def Let_def nat_diff_distrib' of_nat_diff simp del: of_nat_unat)
qed

lemma index_expr_head [simp]: "p \<noteq> [] \<Longrightarrow> index_expr p 0 = Inr (hd p)"
  by (simp add: index_expr_def hd_conv_nth)

lemma readString_alt:
  "readString mx wantStr p =
     (if p = [] then Inl ErrNeedMore
      else
        let isHuff = (hd p AND 128 \<noteq> 0) in
        case readVarInt 7 p of
          Inl e \<Rightarrow> Inl e
        | Inr (strLen, p') \<Rightarrow>
            if mx \<noteq> 0 \<and> strLen > word_of_int mx then Inl ErrStringLength
            else if length p' < unat strLen then Inl ErrNeedMore
            else if \<not> isHuff then
              Inr (if wantStr then take (unat strLen) p' else [], drop (unat strLen) p')
            else if wantStr then
              (case huffmanDecode mx (take (unat strLen) p') of
                 None \<Rightarrow> Inl Diverges
               | Some (Inl e) \<Rightarrow> Inl e
               | Some (Inr s) \<Rightarrow> Inr (s, drop (unat strLen) p'))
            else Inr ([], drop (unat strLen) p'))"
  by (simp add: readString_def slice_at_def Let_def res_bind_def split: sum.split)

lemma parseHeaderFieldRepr_alt:
  "dbuf d \<noteq> [] \<Longrightarrow> parseHeaderFieldRepr d =
     (let b = hd (dbuf d) in
      if b AND 128 \<noteq> 0 then parseFieldIndexed d
      else if b AND 192 = 64 then parseFieldLiteral 6 indexedTrue d
      else if b AND 240 = 0 then parseFieldLiteral 4 indexedFalse d
      else if b AND 240 = 16 then parseFieldLiteral 4 indexedNever d
      else if b AND 224 = 32 then parseDynamicTableSizeUpdate d
      else (d, Some (DecodingError InvalidEncoding)))"
  by (simp add: parseHeaderFieldRepr_def)

section \<open>Incremental parsing\<close>

lemma hd_append_nonempty: "p \<noteq> [] \<Longrightarrow> hd (p @ q) = hd p"
  by simp

interpretation str: incremental_parser "readString mx wantStr" for mx wantStr
proof unfold_locales
  fix p q :: bytes and a r
  assume ok: "readString mx wantStr p = Inr (a, r)"
  then obtain n p' where v: "p \<noteq> []" "readVarInt 7 p = Inr (n, p')"
    by (auto simp: readString_alt Let_def split: if_splits sum.splits)
  show "readString mx wantStr (p @ q) = Inr (a, r @ q)"
    using ok v varint.parse_more [OF v(2), of q]
    by (auto simp: readString_alt Let_def split: if_splits option.splits sum.splits)
  obtain c where "c \<noteq> []" "p = c @ p'"
    using varint.parse_consumes [OF v(2)] by blast
  moreover have "r = drop (unat n) p'"
    using ok v by (auto simp: readString_alt Let_def split: if_splits option.splits sum.splits)
  then have "p' = take (unat n) p' @ r"
    by simp
  ultimately show "\<exists>c. c \<noteq> [] \<and> p = c @ r"
    by (metis append_assoc append_is_Nil_conv)
next
  fix p q :: bytes and e
  assume err: "readString mx wantStr p = Inl e" "e \<noteq> ErrNeedMore"
  then have p: "p \<noteq> []"
    by (auto simp: readString_alt)
  show "readString mx wantStr (p @ q) = Inl e"
  proof (cases "readVarInt 7 p")
    case (Inl e')
    then have "e' = e"
      using err p by (simp add: readString_alt)
    with varint.parse_fatal [OF Inl, of q] err(2) p show ?thesis
      by (simp add: readString_alt)
  next
    case (Inr x)
    obtain n p' where x: "x = (n, p')" by (cases x)
    with varint.parse_more [of 7 p n p' q] Inr err p show ?thesis
      by (auto simp: readString_alt Let_def split: if_splits option.splits sum.splits)
  qed
qed

text \<open>The parser of one representation: while it needs more, the decoder is unchanged; any
  other outcome stays the same when more bytes follow.\<close>

definition with_buf :: "bytes \<Rightarrow> Decoder \<Rightarrow> Decoder" where
  "with_buf q d = d\<lparr>dbuf := dbuf d @ q\<rparr>"

definition stable :: "(Decoder \<Rightarrow> Decoder \<times> hpack_error option) \<Rightarrow> Decoder \<Rightarrow> bool" where
  "stable f d \<longleftrightarrow>
     (case f d of (d', eo) \<Rightarrow>
        (eo = Some ErrNeedMore \<longrightarrow> d' = d) \<and>
        (eo \<noteq> Some ErrNeedMore \<longrightarrow> (\<forall>q. f (with_buf q d) = (with_buf q d', eo))) \<and>
        (eo = None \<longrightarrow> length (dbuf d') < length (dbuf d)))"

lemma callEmit_buf:
  "callEmit hf (d\<lparr>dbuf := b\<rparr>) = map_prod (\<lambda>d'. d'\<lparr>dbuf := b\<rparr>) (\<lambda>e. e) (callEmit hf d)"
  by (simp add: callEmit_def)

lemma callEmit_not_more: "callEmit hf d = (d', eo) \<Longrightarrow> eo \<noteq> Some ErrNeedMore \<and> dbuf d' = dbuf d"
  by (auto simp: callEmit_def split: if_splits)

lemma dec_lookup_buf [simp]: "dec_lookup (d\<lparr>dbuf := b\<rparr>) i = dec_lookup d i"
  by (simp add: dec_lookup_def maxTableIndex_def)

lemma with_buf_simps [simp]:
  "dbuf (with_buf q d) = dbuf d @ q" "dynTab (with_buf q d) = dynTab d" "emitEnabled (with_buf q d) = emitEnabled d"
  "maxStrLen (with_buf q d) = maxStrLen d" "dec_lookup (with_buf q d) i = dec_lookup d i"
  "emitted (with_buf q d) = emitted d" "saveBuf (with_buf q d) = saveBuf d"
  "(with_buf q d)\<lparr>dbuf := b\<rparr> = d\<lparr>dbuf := b\<rparr>"
  by (simp_all add: with_buf_def)

lemma callEmit_stable:
  assumes "callEmit hf (d\<lparr>dbuf := b\<rparr>) = (d', eo)"
  shows "callEmit hf (d\<lparr>dbuf := b @ q\<rparr>) = (with_buf q d', eo)"
  using assms by (auto simp: callEmit_def with_buf_def split: if_splits)

lemma stable_indexed: "stable parseFieldIndexed d"
proof (cases "readVarInt 7 (dbuf d)")
  case (Inl e)
  then show ?thesis
    using varint.parse_fatal [OF Inl] by (simp add: stable_def parseFieldIndexed_def)
next
  case (Inr x)
  obtain idx buf where x: "x = (idx, buf)" by (cases x)
  with Inr have v: "readVarInt 7 (dbuf d) = Inr (idx, buf)" by simp
  note more = varint.parse_more [OF v] and less = varint.parse_shorter [OF v]
  show ?thesis
  proof (cases "dec_lookup d idx")
    case None
    with v more show ?thesis by (simp add: stable_def parseFieldIndexed_def)
  next
    case (Some hf)
    let ?hf = "\<lparr>Name = Name hf, Value = Value hf, Sensitive = False\<rparr>"
    obtain d' eo where emit: "callEmit ?hf (d\<lparr>dbuf := buf\<rparr>) = (d', eo)"
      by fastforce
    with v more less Some callEmit_not_more [OF emit] callEmit_stable [OF emit] show ?thesis
      by (simp add: stable_def parseFieldIndexed_def)
  qed
qed

lemma read_name_more:
  "read_name d w i p = Inr (a, r) \<Longrightarrow> read_name (with_buf q d) w i (p @ q) = Inr (a, r @ q)"
  by (auto simp: read_name_def str.parse_more split: if_splits option.splits)

lemma read_name_fatal:
  "read_name d w i p = Inl e \<Longrightarrow> e \<noteq> ErrNeedMore \<Longrightarrow> read_name (with_buf q d) w i (p @ q) = Inl e"
  by (auto simp: read_name_def str.parse_fatal split: if_splits option.splits)

lemma read_name_shorter: "read_name d w i p = Inr (a, r) \<Longrightarrow> length r \<le> length p"
  by (auto simp: read_name_def dest: str.parse_shorter split: if_splits option.splits)

text \<open>The three steps of a literal as one parser.\<close>

definition literal_parse :: "nat \<Rightarrow> indexType \<Rightarrow> Decoder \<Rightarrow> bytes \<Rightarrow> hpack_error + (bytes \<times> bytes) \<times> bytes" where
  "literal_parse n it d p =
     res_bind (readVarInt n p) (\<lambda>(i, p1).
       res_bind (read_name d (emitEnabled d \<or> indexed it) i p1) (\<lambda>(name, p2).
         res_bind (readString (maxStrLen d) (emitEnabled d \<or> indexed it) p2) (\<lambda>(val, p3).
           Inr ((name, val), p3))))"

lemma dynTab_dbuf_commute: "d\<lparr>dbuf := b, dynTab := t\<rparr> = d\<lparr>dynTab := t, dbuf := b\<rparr>"
  by simp

lemma parseFieldLiteral_alt:
  "parseFieldLiteral n it d =
     (case literal_parse n it d (dbuf d) of
        Inl e \<Rightarrow> (d, Some e)
      | Inr ((name, val), buf) \<Rightarrow>
          (case (if indexed it then dyn_add \<lparr>Name = name, Value = val, Sensitive = False\<rparr> (dynTab d)
                 else Some (dynTab d)) of
             None \<Rightarrow> (d\<lparr>dbuf := buf\<rparr>, Some PanicTable)
           | Some dt \<Rightarrow>
               callEmit \<lparr>Name = name, Value = val, Sensitive = sensitive it\<rparr> (d\<lparr>dynTab := dt, dbuf := buf\<rparr>)))"
proof -
  obtain w where w: "(emitEnabled d \<or> indexed it) = w" by blast
  show ?thesis
    unfolding parseFieldLiteral_def literal_parse_def res_bind_def Let_def w
    by (simp add: dynTab_dbuf_commute split: sum.split prod.split option.split)
qed

lemma literal_parse_more:
  assumes "literal_parse n it d p = Inr (a, r)"
  shows "literal_parse n it (with_buf q d) (p @ q) = Inr (a, r @ q) \<and> length r < length p"
proof -
  let ?w = "emitEnabled d \<or> indexed it"
  obtain i p1 name p2 val where
    v: "readVarInt n p = Inr (i, p1)" and nm: "read_name d ?w i p1 = Inr (name, p2)" and
    vl: "readString (maxStrLen d) ?w p2 = Inr (val, r)" and a: "a = (name, val)"
    using assms by (auto simp: literal_parse_def)
  show ?thesis
    using varint.parse_more [OF v, of q] read_name_more [OF nm, of q] str.parse_more [OF vl, of q]
      varint.parse_shorter [OF v] read_name_shorter [OF nm] str.parse_shorter [OF vl] a
    by (simp add: literal_parse_def)
qed

lemma literal_parse_fatal:
  "literal_parse n it d p = Inl e \<Longrightarrow> e \<noteq> ErrNeedMore \<Longrightarrow>
     literal_parse n it (with_buf q d) (p @ q) = Inl e"
  unfolding literal_parse_def
  by (cases "readVarInt n p")
    (auto simp: res_bind_def varint.parse_fatal varint.parse_more str.parse_fatal str.parse_more
      read_name_fatal read_name_more split: sum.splits)

lemma stable_literal: "stable (parseFieldLiteral n it) d"
proof (cases "literal_parse n it d (dbuf d)")
  case (Inl e)
  then show ?thesis
    using literal_parse_fatal [OF Inl] by (simp add: stable_def parseFieldLiteral_alt)
next
  case (Inr x)
  obtain name val buf where x: "x = ((name, val), buf)" by (cases x) auto
  with Inr have p: "literal_parse n it d (dbuf d) = Inr ((name, val), buf)" by simp
  note more = literal_parse_more [OF p]
  let ?hf = "\<lparr>Name = name, Value = val, Sensitive = False\<rparr>"
  show ?thesis
  proof (cases "if indexed it then dyn_add ?hf (dynTab d) else Some (dynTab d)")
    case None
    then have "indexed it" "dyn_add ?hf (dynTab d) = None"
      by (auto split: if_splits)
    with p more show ?thesis
      by (simp add: stable_def parseFieldLiteral_alt with_buf_def)
  next
    case (Some dt)
    let ?emit = "callEmit \<lparr>Name = name, Value = val, Sensitive = sensitive it\<rparr>"
    let ?d = "d\<lparr>dynTab := dt\<rparr>"
    obtain d' eo where emit: "?emit (?d\<lparr>dbuf := buf\<rparr>) = (d', eo)"
      by fastforce
    have one: "parseFieldLiteral n it d = (d', eo)"
      unfolding parseFieldLiteral_alt p by (simp only: Some emit sum.case prod.case option.case)
    have add: "(if indexed it then dyn_add ?hf (dynTab (with_buf q d)) else Some (dynTab (with_buf q d))) = Some dt" for q
      using Some by (simp only: with_buf_simps)
    have upd: "(with_buf q d)\<lparr>dynTab := dt, dbuf := b\<rparr> = ?d\<lparr>dbuf := b\<rparr>" for q b
      by (simp add: with_buf_def)
    have more': "literal_parse n it (with_buf q d) (dbuf (with_buf q d)) = Inr ((name, val), buf @ q)" for q
      using more by simp
    have "parseFieldLiteral n it (with_buf q d) = (with_buf q d', eo)" for q
      unfolding parseFieldLiteral_alt more'
      by (simp only: add upd callEmit_stable [OF emit] sum.case prod.case option.case)
    with one more callEmit_not_more [OF emit] show ?thesis
      by (simp add: stable_def)
  qed
qed

lemma stable_size_update: "stable parseDynamicTableSizeUpdate d"
proof (cases "readVarInt 5 (dbuf d)")
  case (Inl e)
  then show ?thesis
    using varint.parse_fatal [OF Inl] by (simp add: stable_def parseDynamicTableSizeUpdate_def)
next
  case (Inr x)
  obtain sz buf where x: "x = (sz, buf)" by (cases x)
  with Inr have v: "readVarInt 5 (dbuf d) = Inr (sz, buf)" by simp
  show ?thesis
    using v varint.parse_more [OF v] varint.parse_shorter [OF v]
    by (simp add: stable_def parseDynamicTableSizeUpdate_def with_buf_def split: option.split)
qed

lemma stable_repr: "dbuf d \<noteq> [] \<Longrightarrow> stable parseHeaderFieldRepr d"
  using stable_indexed [of d] stable_literal [of _ _ d] stable_size_update [of d]
  by (auto simp: stable_def parseHeaderFieldRepr_alt Let_def hd_append_nonempty)

section \<open>Writing to the decoder\<close>

lemma repr_consumes:
  "dbuf d \<noteq> [] \<Longrightarrow> parseHeaderFieldRepr d = (d', None) \<Longrightarrow> length (dbuf d') < length (dbuf d)"
  using stable_repr [of d] by (simp add: stable_def)

function write_loop :: "Decoder \<Rightarrow> Decoder \<times> hpack_error option" where
  "write_loop d =
     (if dbuf d = [] then (d, None)
      else
        (case parseHeaderFieldRepr d of
           (d', None) \<Rightarrow> write_loop d'
         | (d', Some e) \<Rightarrow> (d', Some e)))"
  by pat_completeness auto
termination
  by (relation "measure (\<lambda>d. length (dbuf d))") (auto dest: repr_consumes [OF _ sym])

declare write_loop.simps [simp del]

definition Write :: "bytes \<Rightarrow> Decoder \<Rightarrow> Decoder \<times> nat \<times> hpack_error option" where
  "Write p d =
     (if p = [] then (d, 0, None)
      else
        let d1 = (if saveBuf d = [] then d\<lparr>dbuf := p\<rparr> else d\<lparr>dbuf := saveBuf d @ p, saveBuf := []\<rparr>) in
        case write_loop d1 of
          (d2, Some ErrNeedMore) \<Rightarrow>
            if maxStrLen d2 \<noteq> 0 \<and> int (length (dbuf d2)) > 2 * (maxStrLen d2 + 8)
            then (d2, 0, Some ErrStringLength)
            else (d2\<lparr>saveBuf := saveBuf d2 @ dbuf d2\<rparr>, length p, None)
        | (d2, err) \<Rightarrow> (d2, length p, err))"

definition Close :: "Decoder \<Rightarrow> Decoder \<times> hpack_error option" where
  "Close d =
     (if saveBuf d \<noteq> [] then (d\<lparr>saveBuf := []\<rparr>, Some (DecodingError TruncatedHeaders)) else (d, None))"

text \<open>The callback is replaced during the call and restored afterwards.\<close>

definition DecodeFull :: "bytes \<Rightarrow> Decoder \<Rightarrow> Decoder \<times> (hpack_error + HeaderField list)" where
  "DecodeFull p d =
     (case Write p (d\<lparr>emitted := []\<rparr>) of
        (d1, n, Some e) \<Rightarrow> (d1\<lparr>emitted := emitted d\<rparr>, Inl e)
      | (d1, n, None) \<Rightarrow>
          (case Close d1 of
             (d2, Some e) \<Rightarrow> (d2\<lparr>emitted := emitted d\<rparr>, Inl e)
           | (d2, None) \<Rightarrow> (d2\<lparr>emitted := emitted d\<rparr>, Inr (emitted d2))))"

section \<open>Splitting the input\<close>

text \<open>A loop over \<open>p @ q\<close> is the loop over \<open>p\<close> and then over what it left and \<open>q\<close>.\<close>

lemma write_loop_append:
  "write_loop (with_buf q d) =
     (case write_loop d of
        (d', None) \<Rightarrow> write_loop (with_buf q d')
      | (d', Some ErrNeedMore) \<Rightarrow> write_loop (with_buf q d')
      | (d', Some e) \<Rightarrow> (with_buf q d', Some e))"
proof (induction d rule: write_loop.induct)
  case (1 d)
  show ?case
  proof (cases "dbuf d = []")
    case True
    then have "write_loop d = (d, None)"
      by (simp add: write_loop.simps [of d])
    then show ?thesis by simp
  next
    case False
    obtain d' eo where rep: "parseHeaderFieldRepr d = (d', eo)"
      by fastforce
    note st = stable_repr [OF False, unfolded stable_def rep, simplified]
    show ?thesis
    proof (cases eo)
      case None
      have "write_loop d = write_loop d'" "write_loop (with_buf q d) = write_loop (with_buf q d')"
        using False rep None st by (simp_all add: write_loop.simps [of d] write_loop.simps [of "with_buf q d"])
      with "1.IH" [OF False, of d' eo] rep None show ?thesis by simp
    next
      case (Some e)
      then have w: "write_loop d = (d', Some e)"
        using False rep by (simp add: write_loop.simps [of d])
      show ?thesis
      proof (cases "e = ErrNeedMore")
        case True
        with w st Some show ?thesis by simp
      next
        case ne: False
        then have "write_loop (with_buf q d) = (with_buf q d', Some e)"
          using False rep Some st by (simp add: write_loop.simps [of "with_buf q d"])
        with w ne show ?thesis by (cases e) simp_all
      qed
    qed
  qed
qed

lemma repr_keeps:
  "parseHeaderFieldRepr d = (d', eo) \<Longrightarrow> saveBuf d' = saveBuf d \<and> maxStrLen d' = maxStrLen d \<and>
     emitEnabled d' = emitEnabled d"
  by (cases "dbuf d = []") (auto simp: parseHeaderFieldRepr_def index_expr_def Let_def parseFieldIndexed_def parseFieldLiteral_alt
      parseDynamicTableSizeUpdate_def callEmit_def split: if_splits sum.splits option.splits)

lemma write_loop_keeps:
  "write_loop d = (d', eo) \<Longrightarrow> saveBuf d' = saveBuf d \<and> maxStrLen d' = maxStrLen d \<and>
     emitEnabled d' = emitEnabled d \<and> (eo = None \<longrightarrow> dbuf d' = []) \<and> (eo = Some ErrNeedMore \<longrightarrow> dbuf d' \<noteq> [])"
proof (induction d rule: write_loop.induct)
  case (1 d)
  show ?case
  proof (cases "dbuf d = []")
    case True
    with "1.prems" show ?thesis by (simp add: write_loop.simps [of d])
  next
    case False
    obtain d1 e1 where rep: "parseHeaderFieldRepr d = (d1, e1)"
      by fastforce
    note keep = repr_keeps [OF rep] and st = stable_repr [OF False, unfolded stable_def rep, simplified]
    show ?thesis
    proof (cases e1)
      case None
      then have "write_loop d1 = (d', eo)"
        using "1.prems" False rep by (simp add: write_loop.simps [of d])
      with "1.IH" [OF False rep [symmetric] None] keep show ?thesis by auto
    next
      case (Some e)
      then have "d' = d1" "eo = Some e"
        using "1.prems" False rep by (simp_all add: write_loop.simps [of d])
      with keep st False Some show ?thesis by auto
    qed
  qed
qed

fun write_chunks :: "bytes list \<Rightarrow> Decoder \<Rightarrow> Decoder \<times> hpack_error option" where
  "write_chunks [] d = (d, None)"
| "write_chunks (p # ps) d =
     (case Write p d of
        (d', n, None) \<Rightarrow> write_chunks ps d'
      | (d', n, Some e) \<Rightarrow> (d', Some e))"

text \<open>What a caller can observe later: everything but the buffer that is only valid during
  a call of \<^verbatim>\<open>Write\<close>.\<close>

definition forget :: "Decoder \<times> hpack_error option \<Rightarrow> Decoder \<times> hpack_error option" where
  "forget x = ((fst x)\<lparr>dbuf := []\<rparr>, snd x)"

definition settle :: "Decoder \<times> hpack_error option \<Rightarrow> Decoder \<times> hpack_error option" where
  "settle x = (case x of (d, Some ErrNeedMore) \<Rightarrow> (d\<lparr>saveBuf := dbuf d\<rparr>, None) | _ \<Rightarrow> x)"

definition load :: "bytes \<Rightarrow> Decoder \<Rightarrow> Decoder" where
  "load p d = d\<lparr>dbuf := saveBuf d @ p, saveBuf := []\<rparr>"

lemma write_chunks_one:
  assumes "maxStrLen d = 0" "p \<noteq> []"
  shows "write_chunks [p] d = settle (write_loop (load p d))"
proof -
  obtain d' eo where loop: "write_loop (load p d) = (d', eo)"
    by fastforce
  have "maxStrLen d' = 0" "saveBuf d' = []"
    using write_loop_keeps [OF loop] assms(1) by (auto simp: load_def)
  moreover have "(if saveBuf d = [] then d\<lparr>dbuf := p\<rparr> else d\<lparr>dbuf := saveBuf d @ p, saveBuf := []\<rparr>) = load p d"
    by (simp add: load_def)
  ultimately show ?thesis
    using assms(2) loop
    by (simp add: Write_def settle_def Let_def split: option.split hpack_error.split)
qed

lemma write_chunks_Cons:
  "write_chunks (p # ps) d =
     (case write_chunks [p] d of (d', None) \<Rightarrow> write_chunks ps d' | (d', Some e) \<Rightarrow> (d', Some e))"
  by (simp split: prod.split option.split)

lemma write_chunks_keeps: "write_chunks [p] d = (d', eo) \<Longrightarrow> maxStrLen d = 0 \<Longrightarrow> maxStrLen d' = 0"
  using write_chunks_one [of d p] write_loop_keeps [of "load p d"]
  by (cases "p = []") (auto simp: Write_def settle_def load_def split: prod.splits option.splits hpack_error.splits)

lemma write_two:
  assumes "maxStrLen d = 0" "p \<noteq> []" "q \<noteq> []"
  shows "forget (write_chunks [p, q] d) = forget (write_chunks [p @ q] d)"
proof -
  obtain d' eo where loop: "write_loop (load p d) = (d', eo)"
    by fastforce
  note keep = write_loop_keeps [OF loop]
  have sv: "maxStrLen d' = 0" "saveBuf d' = []"
    using keep assms(1) by (auto simp: load_def)
  have "with_buf q (load p d) = load (p @ q) d"
    by (simp add: load_def with_buf_def)
  then have whole: "write_chunks [p @ q] d = settle (write_loop (with_buf q (load p d)))"
    using write_chunks_one [OF assms(1), of "p @ q"] assms(2) by (simp del: write_chunks.simps)
  have first: "write_chunks [p] d = settle (d', eo)"
    using write_chunks_one [OF assms(1,2)] loop by simp
  note app = write_loop_append [of q "load p d", unfolded loop prod.case]
  note two = write_chunks_Cons [of p "[q]" d, unfolded first settle_def]
  consider "eo = None" | "eo = Some ErrNeedMore" | e where "eo = Some e" "e \<noteq> ErrNeedMore"
    by (cases eo) auto
  then show ?thesis
  proof cases
    case 1
    then have "load q d' = with_buf q d'"
      using keep sv by (simp add: load_def with_buf_def)
    then show ?thesis
      using 1 whole app two write_chunks_one [OF sv(1) assms(3)] by (simp del: write_chunks.simps)
  next
    case 2
    then have "load q (d'\<lparr>saveBuf := dbuf d'\<rparr>) = with_buf q d'"
      using sv by (simp add: load_def with_buf_def)
    then show ?thesis
      using 2 whole app two write_chunks_one [of "d'\<lparr>saveBuf := dbuf d'\<rparr>" q] sv(1) assms(3)
      by (simp del: write_chunks.simps)
  next
    case 3
    then show ?thesis
      using whole app two
      by (cases e) (simp_all add: settle_def forget_def with_buf_def del: write_chunks.simps)
  qed
qed

lemma write_chunks_nothing: "concat ps = [] \<Longrightarrow> write_chunks ps d = (d, None)"
  by (induction ps) (auto simp: Write_def)

text \<open>C9.  The decoder does not see how its input is cut up: with no limit on string
  lengths, writing a header block in any number of pieces, of any sizes, leaves the decoder
  in the same state (table, emitted fields, saved bytes) and gives the same error, if any,
  as writing it in one call.\<close>

theorem write_chunks_concat:
  assumes "maxStrLen d = 0"
  shows "forget (write_chunks ps d) = forget (write_chunks [concat ps] d)"
  using assms
proof (induction ps arbitrary: d)
  case Nil
  then show ?case by (simp add: Write_def)
next
  case (Cons p ps)
  obtain d' eo where first: "write_chunks [p] d = (d', eo)"
    by fastforce
  note keep = write_chunks_keeps [OF first Cons.prems]
  consider "p = []" | "p \<noteq> []" "concat ps = []" | "p \<noteq> []" "concat ps \<noteq> []"
    by blast
  then show ?case
  proof cases
    case 1
    with Cons.IH [OF Cons.prems] show ?thesis by (simp add: Write_def)
  next
    case 2
    then have "write_chunks (p # ps) d = write_chunks [p] d"
      by (simp only: write_chunks_Cons [of p ps d] first prod.case write_chunks_nothing) (simp split: option.split)
    then show ?thesis
      by (simp only: concat.simps 2(2) append_Nil2)
  next
    case 3
    have "forget (write_chunks (p # ps) d) = forget (write_chunks [p, concat ps] d)"
      unfolding write_chunks_Cons [of p ps d] write_chunks_Cons [of p "[concat ps]" d] first prod.case
      using Cons.IH [OF keep] by (simp split: option.split)
    with write_two [OF Cons.prems 3] show ?thesis by simp
  qed
qed

definition start_decoder :: Decoder where
  "start_decoder = \<lparr>dynTab = (dyn_empty 4096)\<lparr>maxSize := 4096\<rparr>, emitted = [], emitEnabled = True, maxStrLen = 0,
     dbuf = [], saveBuf = []\<rparr>"

theorem write_chunks_concat_witness:
  "forget (write_chunks [[0x82, 0x40], [], [0x01, 0x61, 0x01], [0x62]] start_decoder) =
   forget (write_chunks [[0x82, 0x40, 0x01, 0x61, 0x01, 0x62]] start_decoder)"
  using write_chunks_concat [of start_decoder "[[0x82, 0x40], [], [0x01, 0x61, 0x01], [0x62]]"]
  by (simp add: start_decoder_def)

section \<open>Safety\<close>

text \<open>The decoder ends in no panic, and its table stays within the bound that was allowed.\<close>

definition dec_safe :: "Decoder \<Rightarrow> bool" where
  "dec_safe d \<longleftrightarrow> dyn_weak (dynTab d) \<and> maxSize (dynTab d) \<le> allowedMaxSize (dynTab d)"

definition no_panic :: "hpack_error \<Rightarrow> bool" where
  "no_panic e \<longleftrightarrow> e \<noteq> PanicBadN \<and> e \<noteq> PanicIndex \<and> e \<noteq> PanicTable \<and> e \<noteq> Diverges"

lemma no_panic_simps [simp]:
  "no_panic ErrNeedMore" "no_panic ErrStringLength" "no_panic ErrInvalidHuffman" "no_panic (DecodingError x)"
  by (simp_all add: no_panic_def)

lemma readVarInt_loop_no_panic: "readVarInt_loop i m p = Inl e \<Longrightarrow> no_panic e"
  by (induction i m p rule: readVarInt_loop.induct) (auto simp: Let_def split: if_splits)

lemma readVarInt_no_panic: "readVarInt n p = Inl e \<Longrightarrow> 1 \<le> n \<Longrightarrow> n \<le> 8 \<Longrightarrow> no_panic e"
  by (cases p) (auto simp: readVarInt_def Let_def dest: readVarInt_loop_no_panic split: if_splits)

lemma huffmanDecode_cases:
  obtains (err) e where "huffmanDecode mx v = Some (Inl e)" "no_panic e"
  | (ok) s where "huffmanDecode mx v = Some (Inr s)"
proof -
  obtain r where r: "huffmanDecode mx v = Some r"
    using huffmanDecode_sound [of mx v] by auto
  with that huffmanDecode_errors [of mx v] show thesis
    by (cases r) auto
qed

lemma readString_no_panic: "readString mx w p = Inl e \<Longrightarrow> no_panic e"
proof (cases "readVarInt 7 p")
  case (Inl e')
  moreover assume "readString mx w p = Inl e"
  ultimately show ?thesis
    using readVarInt_no_panic [OF Inl] by (auto simp: readString_alt split: if_splits)
next
  case (Inr x)
  moreover assume "readString mx w p = Inl e"
  moreover obtain n p' where "x = (n, p')" by (cases x)
  ultimately show ?thesis
    by (cases rule: huffmanDecode_cases [of mx "take (unat n) p'"])
      (auto simp: readString_alt Let_def split: if_splits)
qed

lemma literal_parse_no_panic: "literal_parse n it d p = Inl e \<Longrightarrow> 1 \<le> n \<Longrightarrow> n \<le> 8 \<Longrightarrow> no_panic e"
proof -
  obtain w where w: "(emitEnabled d \<or> indexed it) = w" by blast
  show "literal_parse n it d p = Inl e \<Longrightarrow> 1 \<le> n \<Longrightarrow> n \<le> 8 \<Longrightarrow> no_panic e"
    unfolding literal_parse_def w
    by (auto simp: res_bind_def read_name_def intro: readVarInt_no_panic
        split: sum.splits if_splits option.splits) (erule readString_no_panic)+
qed

lemma callEmit_safe:
  "callEmit hf d = (d', eo) \<Longrightarrow> dynTab d' = dynTab d \<and> dbuf d' = dbuf d \<and> (\<forall>e. eo = Some e \<longrightarrow> no_panic e)"
  by (auto simp: callEmit_def split: if_splits)

text \<open>One more representation: \<open>dyn_used\<close> grows by at most one, and the buffer shrinks.\<close>

definition safe_step :: "Decoder \<Rightarrow> Decoder \<times> hpack_error option \<Rightarrow> bool" where
  "safe_step d r \<longleftrightarrow>
     (case r of (d', eo) \<Rightarrow>
        dec_safe d' \<and> allowedMaxSize (dynTab d') = allowedMaxSize (dynTab d) \<and>
        (\<forall>e. eo = Some e \<longrightarrow> no_panic e) \<and> dyn_used (dynTab d') \<le> Suc (dyn_used (dynTab d)))"

lemma safe_step_stay: "dec_safe d \<Longrightarrow> no_panic e \<Longrightarrow> safe_step d (d, Some e)"
  by (simp add: safe_step_def)

lemma safe_step_emit:
  assumes "dyn_weak dt" "maxSize dt = maxSize (dynTab d)" "allowedMaxSize dt = allowedMaxSize (dynTab d)"
    and "dyn_used dt \<le> Suc (dyn_used (dynTab d))" "dec_safe d" "dynTab d1 = dt"
  shows "safe_step d (callEmit hf d1)"
proof -
  obtain d' eo where r: "callEmit hf d1 = (d', eo)"
    by fastforce
  from callEmit_safe [OF r] have "dynTab d' = dt" "\<forall>e. eo = Some e \<longrightarrow> no_panic e"
    using assms(6) by auto
  with assms(1-5) r show ?thesis
    by (simp add: safe_step_def dec_safe_def)
qed

lemma indexed_safe:
  assumes "dec_safe d"
  shows "safe_step d (parseFieldIndexed d)"
proof (cases "readVarInt 7 (dbuf d)")
  case (Inl e)
  with readVarInt_no_panic [OF Inl] safe_step_stay [OF assms] show ?thesis
    by (simp add: parseFieldIndexed_def)
next
  case (Inr x)
  obtain idx buf where x: "x = (idx, buf)" by (cases x)
  have weak: "dyn_weak (dynTab d)"
    using assms by (simp add: dec_safe_def)
  have "safe_step d (callEmit hf (d\<lparr>dbuf := buf\<rparr>))" for hf
    by (rule safe_step_emit [OF weak]) (simp_all add: assms)
  with Inr x safe_step_stay [OF assms] show ?thesis
    by (simp add: parseFieldIndexed_def split: option.split)
qed

lemma literal_safe:
  assumes "dec_safe d" "1 \<le> n" "n \<le> 8" "Suc (dyn_used (dynTab d)) < 2 ^ 64"
  shows "safe_step d (parseFieldLiteral n it d)"
proof (cases "literal_parse n it d (dbuf d)")
  case (Inl e)
  with literal_parse_no_panic assms(2,3) safe_step_stay [OF assms(1)] show ?thesis
    by (simp add: parseFieldLiteral_alt)
next
  case (Inr x)
  obtain name val buf where x: "x = ((name, val), buf)" by (cases x) auto
  let ?hf = "\<lparr>Name = name, Value = val, Sensitive = False\<rparr>"
  have weak: "dyn_weak (dynTab d)"
    using assms(1) by (simp add: dec_safe_def)
  obtain dt where dt: "(if indexed it then dyn_add ?hf (dynTab d) else Some (dynTab d)) = Some dt" "dyn_weak dt"
      "maxSize dt = maxSize (dynTab d)" "allowedMaxSize dt = allowedMaxSize (dynTab d)"
      "dyn_used dt \<le> Suc (dyn_used (dynTab d))"
    using dyn_add_weak [OF weak assms(4), of ?hf] weak by (cases "indexed it") auto
  show ?thesis
    unfolding parseFieldLiteral_alt Inr x sum.case prod.case dt(1) option.case
    by (rule safe_step_emit [OF dt(2-5) assms(1)]) simp
qed

lemma u64_le_u32:
  fixes s :: u64 and a :: u32
  assumes "\<not> s > ucast a"
  shows "ucast s \<le> a"
proof -
  have "unat s \<le> unat a"
  proof -
    have "unat (ucast a :: u64) = unat a"
      using unsigned_less [of a, where 'a = nat] by (simp add: unsigned_ucast_eq take_bit_nat_eq_self)
    with assms show ?thesis by (simp add: word_less_nat_alt not_less)
  qed
  then show ?thesis
    by (simp add: word_le_nat_alt unsigned_ucast_eq) (meson le_trans take_bit_nat_less_eq_self)
qed

lemma size_update_safe:
  assumes "dec_safe d"
  shows "safe_step d (parseDynamicTableSizeUpdate d)"
proof (cases "readVarInt 5 (dbuf d)")
  case (Inl e)
  with readVarInt_no_panic [OF Inl] safe_step_stay [OF assms] show ?thesis
    by (simp add: parseDynamicTableSizeUpdate_def)
next
  case (Inr x)
  obtain sz buf where x: "x = (sz, buf)" by (cases x)
  have weak: "dyn_weak (dynTab d)"
    using assms by (simp add: dec_safe_def)
  show ?thesis
  proof (cases "sz > ucast (allowedMaxSize (dynTab d))")
    case True
    with Inr x safe_step_stay [OF assms] show ?thesis
      by (simp add: parseDynamicTableSizeUpdate_def)
  next
    case False
    note le = u64_le_u32 [OF False]
    from setMaxSize_weak [OF weak, of "ucast sz"] Inr x False le show ?thesis
      by (auto simp: parseDynamicTableSizeUpdate_def safe_step_def dec_safe_def)
  qed
qed

lemma repr_safe:
  assumes "dec_safe d" "Suc (dyn_used (dynTab d)) < 2 ^ 64" "dbuf d \<noteq> []"
  shows "safe_step d (parseHeaderFieldRepr d)"
  using indexed_safe [OF assms(1)] literal_safe [OF assms(1) _ _ assms(2)] size_update_safe [OF assms(1)]
    safe_step_stay [OF assms(1)] assms(3)
  by (simp add: parseHeaderFieldRepr_alt Let_def)

lemma write_loop_safe:
  assumes "dec_safe d" "dyn_used (dynTab d) + length (dbuf d) < 2 ^ 64" "write_loop d = (d', eo)"
  shows "dec_safe d' \<and> allowedMaxSize (dynTab d') = allowedMaxSize (dynTab d) \<and>
    (\<forall>e. eo = Some e \<longrightarrow> no_panic e)"
  using assms
proof (induction d rule: write_loop.induct)
  case (1 d)
  show ?case
  proof (cases "dbuf d = []")
    case True
    with "1.prems" show ?thesis by (simp add: write_loop.simps [of d])
  next
    case False
    obtain d1 e1 where rep: "parseHeaderFieldRepr d = (d1, e1)"
      by fastforce
    have "Suc (dyn_used (dynTab d)) < 2 ^ 64"
      using "1.prems"(2) False by (cases "dbuf d") auto
    note step = repr_safe [OF "1.prems"(1) this False, unfolded rep safe_step_def prod.case]
    show ?thesis
    proof (cases e1)
      case None
      then have "length (dbuf d1) < length (dbuf d)" "write_loop d1 = (d', eo)"
        using "1.prems"(3) False rep repr_consumes by (simp_all add: write_loop.simps [of d])
      with "1.IH" [OF False rep [symmetric] None] step "1.prems"(2) show ?thesis by auto
    next
      case (Some e)
      then have "d' = d1" "eo = Some e"
        using "1.prems"(3) False rep by (simp_all add: write_loop.simps [of d])
      with step Some show ?thesis by auto
    qed
  qed
qed

text \<open>C7.  The decoder is safe on hostile input.  Whatever bytes are written to it, \<^verbatim>\<open>Write\<close>
  returns, every index and slice expression is in range, no table and no integer reader panics, the table's
  byte count stays within its current bound and that bound within the one that was allowed.
  The only requirement is that fewer than $2^{64}$ entries are ever added.\<close>

theorem decoder_safe:
  assumes "dec_safe d" "dyn_used (dynTab d) + length (saveBuf d) + length p < 2 ^ 64"
    and "Write p d = (d', n, eo)"
  shows "dsize (dynTab d') \<le> maxSize (dynTab d') \<and> maxSize (dynTab d') \<le> allowedMaxSize (dynTab d') \<and>
    allowedMaxSize (dynTab d') = allowedMaxSize (dynTab d) \<and> dec_safe d' \<and>
    (\<forall>e. eo = Some e \<longrightarrow> e \<notin> {PanicBadN, PanicIndex, PanicTable, Diverges, ErrNeedMore})"
proof (cases "p = []")
  case True
  with assms show ?thesis by (auto simp: Write_def dec_safe_def dyn_weak_def)
next
  case False
  have load: "(if saveBuf d = [] then d\<lparr>dbuf := p\<rparr> else d\<lparr>dbuf := saveBuf d @ p, saveBuf := []\<rparr>) = load p d"
    by (simp add: load_def)
  obtain d2 e2 where loop: "write_loop (load p d) = (d2, e2)"
    by fastforce
  have "dec_safe (load p d)" "dyn_used (dynTab (load p d)) + length (dbuf (load p d)) < 2 ^ 64"
    using assms(1,2) by (simp_all add: load_def dec_safe_def)
  note safe = write_loop_safe [OF this loop]
  have "dynTab d' = dynTab d2 \<and> (\<forall>e. eo = Some e \<longrightarrow> no_panic e \<and> e \<noteq> ErrNeedMore)"
    using assms(3) False safe unfolding Write_def Let_def load loop
    by (auto simp: no_panic_def split: option.splits hpack_error.splits if_splits)
  with safe show ?thesis
    by (auto simp: dec_safe_def dyn_weak_def no_panic_def load_def)
qed

lemma start_decoder_safe: "dec_safe start_decoder" "dyn_inv (dynTab start_decoder)"
  using table_inv_init
  by (simp_all add: dec_safe_def dyn_weak_def dyn_inv_def start_decoder_def dyn_empty_def) (simp_all add: table_init_def)

theorem decoder_safe_witness:
  "dec_safe start_decoder \<and>
   (case Write [0x82, 0x3f, 0xff] start_decoder of (d', n, eo) \<Rightarrow>
      dsize (dynTab d') \<le> maxSize (dynTab d') \<and> eo \<noteq> Some PanicTable)"
proof -
  obtain d' n eo where w: "Write [0x82, 0x3f, 0xff] start_decoder = (d', n, eo)"
    by (cases "Write [0x82, 0x3f, 0xff] start_decoder")
  have "dyn_used (dynTab start_decoder) = 0" "saveBuf start_decoder = []"
    by (simp_all add: start_decoder_def dyn_used_def dyn_empty_def table_init_def)
  then show ?thesis
    using decoder_safe [OF start_decoder_safe(1) _ w] start_decoder_safe(1) w by auto
qed

end
