(* ===== verification/HPACK_Encode.thy ===== *)
theory HPACK_Encode
  imports HPACK_Decode
begin

text \<open>
  Package \<^verbatim>\<open>hpack\<close>, the encoder of \<^verbatim>\<open>encode.go\<close>, and the theorem that the decoder reads
  back what the encoder writes.  The underlying writer is a parameter: what one call of its
  \<^verbatim>\<open>Write\<close> method returns.
\<close>

section \<open>The encoder\<close>

definition uint32Max :: u32 where
  "uint32Max = NOT 0"

definition initialHeaderTableSize :: u32 where
  "initialHeaderTableSize = 4096"

record Encoder =
  edynTab :: dynamicTable
  minSize :: u32
  maxSizeLimit :: u32
  tableSizeUpdate :: bool
  ebuf :: bytes

definition NewEncoder :: "Encoder option" where
  "NewEncoder =
     (case setMaxSize initialHeaderTableSize (dyn_empty 0) of
        None \<Rightarrow> None
      | Some dt \<Rightarrow> Some \<lparr>edynTab = dt, minSize = uint32Max, maxSizeLimit = initialHeaderTableSize,
          tableSizeUpdate = False, ebuf = []\<rparr>)"

definition encodeTypeByte :: "bool \<Rightarrow> bool \<Rightarrow> u8" where
  "encodeTypeByte indexing sens = (if sens then 0x10 else if indexing then 0x40 else 0)"

definition appendHpackString :: "bytes \<Rightarrow> bytes \<Rightarrow> bytes" where
  "appendHpackString dst s =
     (let huffmanLength = HuffmanEncodeLength s in
      if huffmanLength < of_nat (length s) then
        let first = length dst in
        or_at first 0x80 (AppendHuffmanString (appendVarInt dst 7 huffmanLength) s)
      else appendVarInt dst 7 (of_nat (length s)) @ s)"

definition appendTableSize :: "bytes \<Rightarrow> u32 \<Rightarrow> bytes" where
  "appendTableSize dst v = or_at (length dst) 0x20 (appendVarInt dst 5 (ucast v))"

definition appendIndexed :: "bytes \<Rightarrow> u64 \<Rightarrow> bytes" where
  "appendIndexed dst i = or_at (length dst) 0x80 (appendVarInt dst 7 i)"

definition appendNewName :: "bytes \<Rightarrow> HeaderField \<Rightarrow> bool \<Rightarrow> bytes" where
  "appendNewName dst f indexing =
     appendHpackString (appendHpackString (dst @ [encodeTypeByte indexing (Sensitive f)]) (Name f)) (Value f)"

definition appendIndexedName :: "bytes \<Rightarrow> HeaderField \<Rightarrow> u64 \<Rightarrow> bool \<Rightarrow> bytes" where
  "appendIndexedName dst f i indexing =
     (let n = (if indexing then 6 else 4) in
      appendHpackString
        (or_at (length dst) (encodeTypeByte indexing (Sensitive f)) (appendVarInt dst n i)) (Value f))"

definition searchTable :: "Encoder \<Rightarrow> HeaderField \<Rightarrow> (u64 \<times> bool) option" where
  "searchTable e f =
     (case search True staticTable f of
        None \<Rightarrow> None
      | Some (i, nameValueMatch) \<Rightarrow>
          if nameValueMatch then Some (i, True)
          else
            (case search False (dtable (edynTab e)) f of
               None \<Rightarrow> None
             | Some (j, nameValueMatch) \<Rightarrow>
                 if nameValueMatch \<or> (i = 0 \<and> j \<noteq> 0)
                 then Some (j + of_nat (length (ents staticTable)), nameValueMatch)
                 else Some (i, False)))"

definition SetMaxDynamicTableSize :: "u32 \<Rightarrow> Encoder \<Rightarrow> Encoder option" where
  "SetMaxDynamicTableSize v e =
     (let v = (if v > maxSizeLimit e then maxSizeLimit e else v);
          e1 = (if v < minSize e then e\<lparr>minSize := v\<rparr> else e);
          e2 = e1\<lparr>tableSizeUpdate := True\<rparr> in
      map_option (\<lambda>dt. e2\<lparr>edynTab := dt\<rparr>) (setMaxSize v (edynTab e2)))"

definition SetMaxDynamicTableSizeLimit :: "u32 \<Rightarrow> Encoder \<Rightarrow> Encoder option" where
  "SetMaxDynamicTableSizeLimit v e =
     (let e1 = e\<lparr>maxSizeLimit := v\<rparr> in
      if maxSize (edynTab e1) > v then
        map_option (\<lambda>dt. e1\<lparr>tableSizeUpdate := True, edynTab := dt\<rparr>) (setMaxSize v (edynTab e1))
      else Some e1)"

definition shouldIndex :: "Encoder \<Rightarrow> HeaderField \<Rightarrow> bool" where
  "shouldIndex e f = (\<not> Sensitive f \<and> Size f \<le> maxSize (edynTab e))"

text \<open>\<^verbatim>\<open>WriteField\<close> up to the call of the writer: the pending table size updates, then the field.\<close>

definition flush_size_update :: "Encoder \<Rightarrow> Encoder" where
  "flush_size_update e =
     (if tableSizeUpdate e then
        let e1 = e\<lparr>tableSizeUpdate := False\<rparr>;
            e2 = (if minSize e1 < maxSize (edynTab e1)
                  then e1\<lparr>ebuf := appendTableSize (ebuf e1) (minSize e1)\<rparr> else e1);
            e3 = e2\<lparr>minSize := uint32Max\<rparr> in
        e3\<lparr>ebuf := appendTableSize (ebuf e3) (maxSize (edynTab e3))\<rparr>
      else e)"

definition encode_field :: "HeaderField \<Rightarrow> Encoder \<Rightarrow> Encoder option" where
  "encode_field f e =
     (let e1 = flush_size_update (e\<lparr>ebuf := []\<rparr>) in
      case searchTable e1 f of
        None \<Rightarrow> None
      | Some (idx, nameValueMatch) \<Rightarrow>
          if nameValueMatch then Some (e1\<lparr>ebuf := appendIndexed (ebuf e1) idx\<rparr>)
          else
            let indexing = shouldIndex e1 f in
            case (if indexing then dyn_add f (edynTab e1) else Some (edynTab e1)) of
              None \<Rightarrow> None
            | Some dt \<Rightarrow>
                let e2 = e1\<lparr>edynTab := dt\<rparr> in
                if idx = 0 then Some (e2\<lparr>ebuf := appendNewName (ebuf e2) f indexing\<rparr>)
                else Some (e2\<lparr>ebuf := appendIndexedName (ebuf e2) f idx indexing\<rparr>))"

datatype 'e write_error = WriterError 'e | ErrShortWrite

definition WriteField :: "(bytes \<Rightarrow> int \<times> 'e option) \<Rightarrow> HeaderField \<Rightarrow> Encoder \<Rightarrow>
    (Encoder \<times> 'e write_error option) option" where
  "WriteField w f e =
     map_option
       (\<lambda>e'. case w (ebuf e') of
          (n, Some err) \<Rightarrow> (e', Some (WriterError err))
        | (n, None) \<Rightarrow> (e', if n \<noteq> int (length (ebuf e')) then Some ErrShortWrite else None))
       (encode_field f e)"

section \<open>What each piece of the encoding reads back as\<close>

text \<open>Strings are far from the length at which a 64-bit count of bits wraps.\<close>

definition small_string :: "bytes \<Rightarrow> bool" where
  "small_string s \<longleftrightarrow> length s < 2 ^ 31"

lemma appendVarInt_Cons: "\<exists>b bs. appendVarInt [] n i = b # bs"
  by (simp add: appendVarInt_split)

lemma or_at_appendVarInt: "or_at (length dst) fl (appendVarInt dst n i) = dst @ or_at 0 fl (appendVarInt [] n i)"
  using appendVarInt_Cons [of n i] by (auto simp: appendVarInt_append [of dst])

lemma or_at_zero [simp]: "or_at 0 0 (b # bs) = b # bs"
  by simp

text \<open>The first octet of a prefixed integer carries the flags of the prefix.\<close>

definition int_octets :: "u8 \<Rightarrow> nat \<Rightarrow> u64 \<Rightarrow> bytes" where
  "int_octets fl n i = or_at 0 fl (appendVarInt [] n i)"

lemma int_octets_Cons:
  "int_octets fl n i = (ucast (if i < varint_max n then i else varint_max n) OR fl) # tl (int_octets fl n i)"
  by (simp add: int_octets_def appendVarInt_split)

lemma int_octets_nonempty: "int_octets fl n i \<noteq> []"
  by (subst int_octets_Cons) simp

lemma readVarInt_int_octets:
  "1 \<le> n \<Longrightarrow> n \<le> 8 \<Longrightarrow> take_bit n fl = 0 \<Longrightarrow> unat i < 2 ^ 63 \<Longrightarrow>
     readVarInt n (int_octets fl n i @ rest) = Inr (i, rest)"
  unfolding int_octets_def by (rule readVarInt_appendVarInt)

lemma int_octets_high:
  assumes "n \<le> 7" "n \<le> k" "k < 8"
  shows "bit (hd (int_octets fl n i @ rest)) k = bit fl k"
proof -
  let ?i = "if i < varint_max n then i else varint_max n"
  have "\<not> bit ?i k"
  proof -
    have "?i \<le> varint_max n" by (simp add: less_imp_le)
    then have "unat ?i < 2 ^ n"
      using unat_varint_max [of n] assms(1) le_less_trans [of "unat ?i" "2 ^ n - 1" "2 ^ n"]
      by (simp add: word_le_nat_alt)
    then have "take_bit n ?i = ?i"
      by (simp add: word_unat_eq_iff unsigned_take_bit_eq take_bit_nat_eq_self)
    then have "bit (take_bit n ?i) k = bit ?i k" by (rule arg_cong)
    with assms(2) show ?thesis by (simp add: bit_take_bit_iff)
  qed
  then show ?thesis
    using assms(3) by (subst int_octets_Cons) (auto simp: bit_simps)
qed

definition string_octets :: "bytes \<Rightarrow> bytes" where
  "string_octets s = appendHpackString [] s"

lemma appendHpackString_append: "appendHpackString dst s = dst @ string_octets s"
proof -
  obtain b bs where v: "appendVarInt [] 7 (HuffmanEncodeLength s) = b # bs"
    using appendVarInt_Cons by blast
  have "AppendHuffmanString (dst @ b # bs) s = dst @ b # bs @ AppendHuffmanString [] s"
      "AppendHuffmanString (b # bs) s = b # bs @ AppendHuffmanString [] s"
    using AppendHuffmanString_append [of "dst @ b # bs" s] AppendHuffmanString_append [of "b # bs" s] by simp_all
  with v show ?thesis
    by (simp add: string_octets_def appendHpackString_def Let_def appendVarInt_append [of dst])
qed

lemma unat_u64_of_nat: "n < 2 ^ 64 \<Longrightarrow> unat (of_nat n :: u64) = n"
  by (simp add: unsigned_of_nat take_bit_nat_eq_self)

lemma string_octets_plain:
  assumes "\<not> HuffmanEncodeLength s < of_nat (length s)"
  shows "string_octets s = int_octets 0 7 (of_nat (length s)) @ s"
proof -
  obtain b bs where "appendVarInt [] 7 (of_nat (length s)) = b # bs"
    using appendVarInt_Cons by blast
  with assms show ?thesis
    by (simp add: string_octets_def appendHpackString_def int_octets_def)
qed

lemma string_octets_huffman:
  assumes "HuffmanEncodeLength s < of_nat (length s)"
  shows "string_octets s = int_octets 0x80 7 (HuffmanEncodeLength s) @ AppendHuffmanString [] s"
proof -
  obtain b bs where "appendVarInt [] 7 (HuffmanEncodeLength s) = b # bs"
    using appendVarInt_Cons by blast
  with assms AppendHuffmanString_append [of "appendVarInt [] 7 (HuffmanEncodeLength s)" s] show ?thesis
    by (simp add: string_octets_def appendHpackString_def Let_def int_octets_def)
qed

lemma int_octets_not_Nil [simp]: "int_octets fl n i \<noteq> []"
  by (subst int_octets_Cons) simp

text \<open>A string comes back exactly, in plain or Huffman form.\<close>

lemma limit_not_exceeded:
  assumes "fits_limit mx [] s" "mx < 2 ^ 63" "unat n \<le> length s"
  shows "\<not> (mx \<noteq> 0 \<and> n > (word_of_int mx :: u64))"
proof
  assume n: "mx \<noteq> 0 \<and> n > (word_of_int mx :: u64)"
  with assms(1) have "int (length s) \<le> mx"
    by (simp add: fits_limit_def)
  moreover from this assms(2) have "unat (word_of_int mx :: u64) = nat mx"
    by (simp add: unsigned_of_int take_bit_int_eq_self)
  moreover have "length s \<le> nat mx"
    using \<open>int (length s) \<le> mx\<close> by linarith
  ultimately show False
    using n assms(3) by (simp add: word_less_nat_alt)
qed

lemma readString_octets:
  assumes "small_string s" "fits_limit mx [] s" "mx < 2 ^ 63"
  shows "readString mx True (string_octets s @ rest) = Inr (s, rest)"
proof -
  have len: "length s < 2 ^ 59" "unat (of_nat (length s) :: u64) = length s"
    using assms by (simp_all add: small_string_def unat_u64_of_nat)
  note limit = limit_not_exceeded [OF assms(2,3)]
  show ?thesis
  proof (cases "HuffmanEncodeLength s < of_nat (length s)")
    case False
    have "unat (of_nat (length s) :: u64) < 2 ^ 63"
      using len by simp
    from readVarInt_int_octets [OF _ _ _ this, of 7 0 "s @ rest"]
    have "readVarInt 7 (int_octets 0 7 (of_nat (length s)) @ s @ rest) = Inr (of_nat (length s), s @ rest)"
      by simp
    moreover have "hd (int_octets 0 7 (of_nat (length s)) @ s @ rest) AND 128 = 0"
      using int_octets_high [of 7 7 0] by (simp add: and_bit7)
    ultimately show ?thesis
      using len(2) limit [of "of_nat (length s)"] string_octets_plain [OF False] by (auto simp: readString_alt)
  next
    case True
    let ?n = "HuffmanEncodeLength s" and ?h = "AppendHuffmanString [] s"
    have n: "unat ?n = length ?h"
      using HuffmanEncodeLength_eq [OF len(1)] .
    have "unat ?n < 2 ^ 63"
      using True len by (simp add: word_less_nat_alt)
    from readVarInt_int_octets [OF _ _ _ this, of 7 "0x80" "?h @ rest"]
    have "readVarInt 7 (int_octets 0x80 7 ?n @ ?h @ rest) = Inr (?n, ?h @ rest)"
      by simp
    moreover have "hd (int_octets 0x80 7 ?n @ ?h @ rest) AND 128 \<noteq> 0"
      using int_octets_high [of 7 7 "0x80"] by (simp add: and_bit7)
    moreover have "unat ?n \<le> length s"
      using True len(2) by (simp add: word_less_nat_alt)
    ultimately show ?thesis
      using n limit [of ?n] string_octets_huffman [OF True] huffmanDecode_complete [OF assms(2)]
      by (auto simp: readString_alt)
  qed
qed

text \<open>The octets of integers and strings take little more than what they carry.\<close>

lemma appendVarInt_loop_length: "unat i < 2 ^ (7 * k) \<Longrightarrow> 1 \<le> k \<Longrightarrow> length (appendVarInt_loop i) \<le> k"
proof (induction i arbitrary: k rule: appendVarInt_loop.induct)
  case (1 i)
  show ?case
  proof (cases "i \<ge> 128")
    case False
    with "1.prems" show ?thesis by (simp add: appendVarInt_loop.simps [of i])
  next
    case True
    then have "128 \<le> unat i"
      by (simp add: word_le_nat_alt)
    then have "1 < k"
      using "1.prems" by (cases "k = 1") auto
    then obtain k' where k: "k = Suc k'" "1 \<le> k'"
      by (cases k) auto
    have "unat (drop_bit 7 i) < 2 ^ (7 * k')"
      using "1.prems"(1) k(1) by (simp add: drop_bit_eq_div unat_div power_add less_mult_imp_div_less)
    with "1.IH" [OF True this k(2)] True k(1) show ?thesis
      by (simp add: appendVarInt_loop.simps [of i])
  qed
qed

lemma int_octets_length:
  assumes "unat i < 2 ^ (7 * k)" "1 \<le> k"
  shows "length (int_octets fl n i) \<le> Suc k"
proof -
  have "unat (i - varint_max n) < 2 ^ (7 * k)" if "\<not> i < varint_max n"
    using that assms(1) by (simp add: not_less unat_sub)
  from appendVarInt_loop_length [OF this assms(2)] show ?thesis
    using assms(2) by (simp add: int_octets_def appendVarInt_split)
qed

lemma string_octets_length:
  assumes "small_string s"
  shows "length (string_octets s) \<le> length s + 6"
proof -
  have len: "length s < 2 ^ 31" "unat (of_nat (length s) :: u64) = length s"
    using assms by (simp_all add: small_string_def unat_u64_of_nat)
  show ?thesis
  proof (cases "HuffmanEncodeLength s < of_nat (length s)")
    case False
    with int_octets_length [of "of_nat (length s)" 5 0 7] len string_octets_plain show ?thesis by simp
  next
    case True
    have "unat (HuffmanEncodeLength s) = length (AppendHuffmanString [] s)"
      using HuffmanEncodeLength_eq len(1) by simp
    moreover have "unat (HuffmanEncodeLength s) < length s"
      using True len(2) by (simp add: word_less_nat_alt)
    ultimately show ?thesis
      using int_octets_length [of "HuffmanEncodeLength s" 5 "0x80" 7] len(1) string_octets_huffman [OF True] by simp
  qed
qed

section \<open>What the decoder does with each representation\<close>

definition decoder_field :: "HeaderField \<Rightarrow> Decoder \<Rightarrow> Decoder" where
  "decoder_field f d = d\<lparr>emitted := emitted d @ [f]\<rparr>"

text \<open>The decoder's limit on names and values.\<close>

definition field_fits :: "Decoder \<Rightarrow> HeaderField \<Rightarrow> bool" where
  "field_fits d f \<longleftrightarrow> fits_limit (maxStrLen d) [] (Name f) \<and> fits_limit (maxStrLen d) [] (Value f) \<and> maxStrLen d < 2 ^ 63"

lemma word8_eq:
  "a = b \<longleftrightarrow> bit a 0 = bit b 0 \<and> bit a 1 = bit b 1 \<and> bit a 2 = bit b 2 \<and> bit a 3 = bit b 3 \<and>
     bit a 4 = bit b 4 \<and> bit a 5 = bit b 5 \<and> bit a 6 = bit b 6 \<and> bit a 7 = bit (b::u8) 7"
proof -
  have "(\<forall>n<8. P n) \<longleftrightarrow> P 0 \<and> P 1 \<and> P 2 \<and> P 3 \<and> P 4 \<and> P 5 \<and> P 6 \<and> P (7::nat)" for P
    by (simp add: numeral_eq_Suc All_less_Suc) blast
  from this [of "\<lambda>n. bit a n = bit b n"] show ?thesis
    by (simp add: bit_eq_iff)
qed

lemma hd_bits:
  fixes b :: u8
  shows "b AND 128 = 0 \<longleftrightarrow> \<not> bit b 7"
    and "b AND 192 = 64 \<longleftrightarrow> \<not> bit b 7 \<and> bit b 6"
    and "b AND 240 = 0 \<longleftrightarrow> \<not> bit b 7 \<and> \<not> bit b 6 \<and> \<not> bit b 5 \<and> \<not> bit b 4"
    and "b AND 240 = 16 \<longleftrightarrow> \<not> bit b 7 \<and> \<not> bit b 6 \<and> \<not> bit b 5 \<and> bit b 4"
    and "b AND 224 = 32 \<longleftrightarrow> \<not> bit b 7 \<and> \<not> bit b 6 \<and> bit b 5"
  unfolding word8_eq bit_and_iff by (simp; blast)+

lemma parse_indexed:
  assumes "dbuf d = int_octets 0x80 7 i @ rest" "unat i < 2 ^ 63" "dec_lookup d i = Some hf"
    and "field_fits d hf" "emitEnabled d"
  shows "parseHeaderFieldRepr d =
    (decoder_field \<lparr>Name = Name hf, Value = Value hf, Sensitive = False\<rparr> (d\<lparr>dbuf := rest\<rparr>), None)"
proof -
  have "readVarInt 7 (dbuf d) = Inr (i, rest)"
    unfolding assms(1) using assms(2) by (intro readVarInt_int_octets) simp_all
  moreover have "hd (dbuf d) AND 128 \<noteq> 0"
    using int_octets_high [of 7 7 "0x80" i rest] by (simp add: hd_bits assms(1) del: hd_append2)
  moreover have "dbuf d \<noteq> []" using int_octets_nonempty by (simp add: assms(1))
  ultimately show ?thesis
    using assms(3-5)
    by (auto simp: parseHeaderFieldRepr_alt parseFieldIndexed_def callEmit_def decoder_field_def field_fits_def fits_limit_def)
qed

text \<open>The flags and the prefix length of the three literal representations.\<close>

fun literal_flags :: "indexType \<Rightarrow> u8" where
  "literal_flags indexedTrue = 0x40"
| "literal_flags indexedFalse = 0"
| "literal_flags indexedNever = 0x10"

fun literal_prefix :: "indexType \<Rightarrow> nat" where
  "literal_prefix indexedTrue = 6"
| "literal_prefix indexedFalse = 4"
| "literal_prefix indexedNever = 4"

lemma parse_literal_dispatch:
  assumes "dbuf d = int_octets (literal_flags it) (literal_prefix it) i @ rest"
  shows "parseHeaderFieldRepr d = parseFieldLiteral (literal_prefix it) it d"
proof -
  have hi: "bit (hd (dbuf d)) k = bit (literal_flags it) k" if "literal_prefix it \<le> k" "k < 8" for k
    unfolding assms using that by (intro int_octets_high) (cases it; simp)
  have ne: "dbuf d \<noteq> []" using int_octets_nonempty by (simp add: assms)
  show ?thesis
    unfolding parseHeaderFieldRepr_alt [OF ne] Let_def hd_bits
    using hi [of 7] hi [of 6] hi [of 5] hi [of 4] by (cases it) simp_all
qed

definition name_octets :: "u64 \<Rightarrow> bytes \<Rightarrow> bytes" where
  "name_octets i nm = (if i = 0 then string_octets nm else [])"

lemma parse_literal:
  assumes "dbuf d = int_octets (literal_flags it) (literal_prefix it) i @ name_octets i nm @ string_octets v @ rest"
    and "unat i < 2 ^ 63" "i \<noteq> 0 \<Longrightarrow> \<exists>hf. dec_lookup d i = Some hf \<and> Name hf = nm"
    and "field_fits d \<lparr>Name = nm, Value = v, Sensitive = sensitive it\<rparr>" "emitEnabled d" "small_string nm" "small_string v"
    and "(if indexed it then dyn_add \<lparr>Name = nm, Value = v, Sensitive = False\<rparr> (dynTab d) else Some (dynTab d)) =
      Some dt"
  shows "parseHeaderFieldRepr d =
    (decoder_field \<lparr>Name = nm, Value = v, Sensitive = sensitive it\<rparr> (d\<lparr>dynTab := dt, dbuf := rest\<rparr>), None)"
proof -
  have fit: "fits_limit (maxStrLen d) [] nm" "fits_limit (maxStrLen d) [] v" "maxStrLen d < 2 ^ 63"
    using assms(4) by (simp_all add: field_fits_def)
  have "readVarInt (literal_prefix it) (dbuf d) = Inr (i, name_octets i nm @ string_octets v @ rest)"
    unfolding assms(1) using assms(2) by (intro readVarInt_int_octets) (cases it; simp)+
  moreover have "read_name d True i (name_octets i nm @ string_octets v @ rest) = Inr (nm, string_octets v @ rest)"
  proof (cases "i = 0")
    case True
    with readString_octets [OF assms(6) fit(1,3)] show ?thesis
      by (simp add: read_name_def name_octets_def)
  next
    case False
    with assms(3) show ?thesis
      by (auto simp: read_name_def name_octets_def word_greater_zero_iff)
  qed
  ultimately have "literal_parse (literal_prefix it) it d (dbuf d) = Inr ((nm, v), rest)"
    using assms(5,7) readString_octets fit(2,3) by (simp add: literal_parse_def)
  then show ?thesis
    using assms(5) fit(1,2) unfolding parse_literal_dispatch [OF assms(1)] parseFieldLiteral_alt
    by (simp only: assms(8) sum.case prod.case option.case) (auto simp: callEmit_def decoder_field_def fits_limit_def)
qed

lemma ucast_u32_u64:
  fixes v a :: u32
  shows "unat (ucast v :: u64) = unat v" "(ucast v :: u64) > ucast a \<longleftrightarrow> v > a" "(ucast (ucast v :: u64) :: u32) = v"
proof -
  have u: "unat (ucast w :: u64) = unat w" for w :: u32
    using unsigned_less [of w, where 'a = nat] by (simp add: unsigned_ucast_eq take_bit_nat_eq_self)
  show "unat (ucast v :: u64) = unat v" "(ucast v :: u64) > ucast a \<longleftrightarrow> v > a"
    by (simp_all add: word_less_nat_alt u)
  show "(ucast (ucast v :: u64) :: u32) = v"
    by (rule bit_word_eqI) (simp add: bit_simps)
qed

lemma parse_size_update:
  assumes "dbuf d = int_octets 0x20 5 (ucast v) @ rest" "v \<le> allowedMaxSize (dynTab d)"
    and "setMaxSize v (dynTab d) = Some dt"
  shows "parseHeaderFieldRepr d = (d\<lparr>dynTab := dt, dbuf := rest\<rparr>, None)"
proof -
  have "unat (ucast v :: u64) < 2 ^ 63"
    using unsigned_less [of v, where 'a = nat] by (simp add: ucast_u32_u64)
  then have "readVarInt 5 (dbuf d) = Inr (ucast v, rest)"
    unfolding assms(1) by (intro readVarInt_int_octets) simp_all
  moreover have hi: "bit (hd (dbuf d)) k = bit (0x20::u8) k" if "5 \<le> k" "k < 8" for k
    unfolding assms(1) using that by (intro int_octets_high) simp_all
  have ne: "dbuf d \<noteq> []" using int_octets_nonempty by (simp add: assms(1))
  have "parseHeaderFieldRepr d = parseDynamicTableSizeUpdate d"
    unfolding parseHeaderFieldRepr_alt [OF ne] Let_def hd_bits using hi [of 7] hi [of 6] hi [of 5] by simp
  ultimately show ?thesis
    using assms(2,3) by (simp add: parseDynamicTableSizeUpdate_def ucast_u32_u64)
qed

end
