(* ===== verification/HPACK_Roundtrip.thy ===== *)
theory HPACK_Roundtrip
  imports HPACK_Encode
begin

text \<open>
  The two ends of an HPACK connection: an encoder whose table may be resized between fields
  and a decoder that follows it.  The relation kept between the two is that the encoder's
  entries are the newest ones of the decoder's table.
\<close>

section \<open>The shared index space\<close>

text \<open>The entry an index names, over the entries \<open>es\<close> of a dynamic table.\<close>

definition index_at :: "HeaderField list \<Rightarrow> u64 \<Rightarrow> HeaderField option" where
  "index_at es i =
     (if i = 0 then None
      else if unat i \<le> 61 then Some (staticTableEntries ! (unat i - 1))
      else if unat i > length es + 61 then None
      else Some (es ! (length es - (unat i - 61))))"

lemma dec_lookup_eq: "dec_lookup d i = index_at (dyn_items (dynTab d)) i"
  by (simp add: dec_lookup_def index_at_def maxTableIndex_def ents_staticTable length_staticTableEntries Let_def)

lemma index_at_newest:
  assumes "suffix es es'" "index_at es i = Some hf"
  shows "index_at es' i = Some hf"
proof -
  obtain xs where es': "es' = xs @ es"
    using assms(1) by (auto simp: suffix_def)
  show ?thesis
  proof (cases "unat i \<le> 61")
    case True
    with assms(2) show ?thesis by (auto simp: index_at_def split: if_splits)
  next
    case False
    then have "length es - (unat i - 61) < length es" "unat i \<le> length es + 61" "es ! (length es - (unat i - 61)) = hf"
      using assms(2) by (auto simp: index_at_def split: if_splits)
    moreover have "length es' - (unat i - 61) = length xs + (length es - (unat i - 61))"
      using False calculation(2) es' by simp
    ultimately show ?thesis
      using False es' by (auto simp: index_at_def nth_append)
  qed
qed

lemma length_le_total: "32 * length es \<le> total_size es"
  by (induction es) (auto simp: hf_size_def)

lemma index_at_static:
  assumes "k < 61"
  shows "index_at es (of_nat (k + 1)) = Some (staticTableEntries ! k)" "unat (of_nat (k + 1) :: u64) = k + 1"
    "(of_nat (k + 1) :: u64) \<noteq> 0"
proof -
  show u: "unat (of_nat (k + 1) :: u64) = k + 1"
    using assms by (intro unat_u64_of_nat) simp
  then show "(of_nat (k + 1) :: u64) \<noteq> 0"
    by (metis add_is_0 unsigned_0 zero_neq_one)
  with u assms show "index_at es (of_nat (k + 1)) = Some (staticTableEntries ! k)"
    by (simp add: index_at_def)
qed

lemma index_at_dynamic:
  assumes "k < length es" "length es < 2 ^ 32"
  shows "index_at es (of_nat (length es - k) + 61) = Some (es ! k)"
    "unat (of_nat (length es - k) + 61 :: u64) = length es - k + 61" "(of_nat (length es - k) :: u64) \<noteq> 0"
    "(of_nat (length es - k) + 61 :: u64) \<noteq> 0"
proof -
  have "(of_nat (length es - k) + 61 :: u64) = of_nat (length es - k + 61)"
    by simp
  then show u: "unat (of_nat (length es - k) + 61 :: u64) = length es - k + 61"
    using assms(2) by (simp only:) (rule unat_u64_of_nat, simp)
  have "unat (of_nat (length es - k) :: u64) = length es - k"
    using assms(2) by (intro unat_u64_of_nat) simp
  with assms(1) show "(of_nat (length es - k) :: u64) \<noteq> 0"
    by (metis unsigned_0 zero_less_diff less_numeral_extra(3))
  show nz: "(of_nat (length es - k) + 61 :: u64) \<noteq> 0"
    using u by (metis add_is_0 unsigned_0 zero_neq_numeral)
  with u assms(1) show "index_at es (of_nat (length es - k) + 61) = Some (es ! k)"
    by (simp add: index_at_def)
qed

text \<open>What the encoder finds in its two tables: an exact match if either table has one, the
  static table first; else a match of the name.\<close>

lemma searchTable_eq:
  assumes "dyn_inv (edynTab e)"
  defines "E \<equiv> dyn_items (edynTab e)"
  shows "searchTable e f = Some
    (case (newest_match staticTableEntries f, newest_match E f) of
       (Some (k, True), _) \<Rightarrow> (of_nat (k + 1), True)
     | (_, Some (k, True)) \<Rightarrow> (of_nat (length E - k) + 61, True)
     | (Some (k, False), _) \<Rightarrow> (of_nat (k + 1), False)
     | (None, Some (k, False)) \<Rightarrow> (of_nat (length E - k) + 61, False)
     | (None, None) \<Rightarrow> (0, False))"
proof -
  have inv: "table_inv (dtable (edynTab e))" and len: "length E < 2 ^ 32"
    using assms length_le_total [of E] unsigned_less [of "maxSize (edynTab e)", where 'a = nat]
    by (auto simp: dyn_inv_def E_def)
  have s: "search True staticTable f = Some (case newest_match staticTableEntries f of
      None \<Rightarrow> (0, False) | Some (k, b) \<Rightarrow> (of_nat (k + 1), b))"
    using search_eq [OF staticTable_inv, of True f] by (simp add: ents_staticTable index_of_pos_def split: option.split)
  have t: "search False (dtable (edynTab e)) f = Some (case newest_match E f of
      None \<Rightarrow> (0, False) | Some (k, b) \<Rightarrow> (of_nat (length E - k), b))"
    using search_eq [OF inv, of False f] by (simp add: index_of_pos_def E_def split: option.split)
  have st: "(of_nat (k + 1) :: u64) \<noteq> 0" if "newest_match staticTableEntries f = Some (k, b)" for k b
    using newest_match_Some [OF that] index_at_static(3) [of k] by (simp add: length_staticTableEntries)
  have dy: "(of_nat (length E - k) :: u64) \<noteq> 0" if "newest_match E f = Some (k, b)" for k b
    using newest_match_Some [OF that] index_at_dynamic(3) [OF _ len] by simp
  show ?thesis
    unfolding searchTable_def s t ents_staticTable length_staticTableEntries
    using st dy by (auto split: option.splits bool.splits)
qed

lemma searchTable_spec:
  assumes "dyn_inv (edynTab e)"
  shows "\<exists>i b. searchTable e f = Some (i, b) \<and> unat i < 2 ^ 63 \<and>
    (i \<noteq> 0 \<longrightarrow> (\<exists>hf. index_at (dyn_items (edynTab e)) i = Some hf \<and> Name hf = Name f \<and>
       (b \<longrightarrow> Value hf = Value f))) \<and> (b \<longrightarrow> i \<noteq> 0 \<and> \<not> Sensitive f)"
proof -
  let ?E = "dyn_items (edynTab e)"
  have len: "length ?E < 2 ^ 32"
    using assms length_le_total [of ?E] unsigned_less [of "maxSize (edynTab e)", where 'a = nat]
    by (auto simp: dyn_inv_def)
  have static: "k < 61 \<and> Name (staticTableEntries ! k) = Name f \<and>
      (b \<longrightarrow> Value (staticTableEntries ! k) = Value f \<and> \<not> Sensitive f)"
    if "newest_match staticTableEntries f = Some (k, b)" for k b
    using newest_match_Some [OF that] by (simp add: length_staticTableEntries)
  consider k b where "searchTable e f = Some (of_nat (k + 1), b)" "newest_match staticTableEntries f = Some (k, b)"
    | k b where "searchTable e f = Some (of_nat (length ?E - k) + 61, b)" "newest_match ?E f = Some (k, b)"
    | "searchTable e f = Some (0, False)"
    using searchTable_eq [OF assms, of f] by (auto split: option.splits bool.splits)
  then show ?thesis
  proof cases
    case 1
    with static [OF 1(2)] index_at_static(1) [of k ?E] index_at_static(2,3) [of k] show ?thesis by auto
  next
    case 2
    with newest_match_Some [OF 2(2)] index_at_dynamic [OF _ len, of k] len show ?thesis by auto
  next
    case 3
    then show ?thesis by auto
  qed
qed

section \<open>One field\<close>

definition in_sync :: "Encoder \<Rightarrow> Decoder \<Rightarrow> bool" where
  "in_sync e d \<longleftrightarrow>
     dyn_inv (edynTab e) \<and> dyn_inv (dynTab d) \<and>
     suffix (dyn_items (edynTab e)) (dyn_items (dynTab d)) \<and>
     (\<not> tableSizeUpdate e \<longrightarrow> maxSize (edynTab e) \<le> maxSize (dynTab d) \<and> minSize e = uint32Max) \<and>
     total_size (dyn_items (edynTab e)) \<le> unat (minSize e) \<and>
     maxSize (edynTab e) \<le> allowedMaxSize (dynTab d) \<and> allowedMaxSize (dynTab d) < 2 ^ 31 \<and>
     maxSize (dynTab d) < 2 ^ 31 \<and> 0 \<le> maxStrLen d \<and> emitEnabled d \<and> saveBuf d = []"

definition field_ok :: "HeaderField \<Rightarrow> bool" where
  "field_ok f \<longleftrightarrow> hf_size f < 2 ^ 31"

text \<open>
  Reading representations takes the decoder from \<open>d\<close> to \<open>d'\<close>, whatever follows.  None is longer than
  what the decoder is willing to keep while it waits for the rest.
\<close>

definition short_for :: "Decoder \<Rightarrow> bytes \<Rightarrow> bool" where
  "short_for d p \<longleftrightarrow> maxStrLen d = 0 \<or> int (length p) \<le> 2 * (maxStrLen d + 8)"

fun steps :: "bytes list \<Rightarrow> Decoder \<Rightarrow> Decoder \<Rightarrow> bool" where
  "steps [] d d' \<longleftrightarrow> d' = d"
| "steps (p # ps) d d' \<longleftrightarrow>
     p \<noteq> [] \<and> short_for d p \<and>
     (\<exists>d1. (\<forall>rest. parseHeaderFieldRepr (d\<lparr>dbuf := p @ rest\<rparr>) = (d1\<lparr>dbuf := rest\<rparr>, None)) \<and> steps ps d1 d')"

definition reads_to :: "bytes \<Rightarrow> Decoder \<Rightarrow> Decoder \<Rightarrow> bool" where
  "reads_to p d d' \<longleftrightarrow> (\<exists>ps. p = concat ps \<and> steps ps d d')"

lemma steps_append: "steps (ps @ qs) d d' \<longleftrightarrow> (\<exists>d1. steps ps d d1 \<and> steps qs d1 d')"
  by (induction ps arbitrary: d) auto

lemma reads_to_Nil: "reads_to [] d d"
  unfolding reads_to_def by (rule exI [of _ "[]"]) simp

lemma reads_to_append: "reads_to p d d1 \<Longrightarrow> reads_to q d1 d2 \<Longrightarrow> reads_to (p @ q) d d2"
  unfolding reads_to_def by (metis concat_append steps_append)

lemma reads_to_repr:
  assumes "p \<noteq> []" "short_for d p" "\<And>rest. parseHeaderFieldRepr (d\<lparr>dbuf := p @ rest\<rparr>) = (d'\<lparr>dbuf := rest\<rparr>, None)"
  shows "reads_to p d d'"
  unfolding reads_to_def by (rule exI [of _ "[p]"]) (use assms in auto)

lemma reads_to_write_loop:
  assumes "reads_to p d d'"
  shows "write_loop (d\<lparr>dbuf := p @ rest\<rparr>) = write_loop (d'\<lparr>dbuf := rest\<rparr>)"
proof -
  have "steps ps d d' \<Longrightarrow> write_loop (d\<lparr>dbuf := concat ps @ rest\<rparr>) = write_loop (d'\<lparr>dbuf := rest\<rparr>)" for ps
    by (induction ps arbitrary: d) (auto simp: write_loop.simps [of "_\<lparr>dbuf := _ @ _\<rparr>"])
  with assms show ?thesis by (auto simp: reads_to_def)
qed

lemma steps_maxStrLen: "steps ps d d' \<Longrightarrow> maxStrLen d' = maxStrLen d"
proof (induction ps arbitrary: d)
  case (Cons p ps)
  then obtain d1 where d1: "\<And>rest. parseHeaderFieldRepr (d\<lparr>dbuf := p @ rest\<rparr>) = (d1\<lparr>dbuf := rest\<rparr>, None)" "steps ps d1 d'"
    by auto
  with repr_keeps [OF d1(1)] Cons.IH show ?case by simp
qed simp

lemma reads_to_maxStrLen: "reads_to p d d' \<Longrightarrow> maxStrLen d' = maxStrLen d"
  using steps_maxStrLen by (auto simp: reads_to_def)

subsection \<open>Table size updates\<close>

lemma appendTableSize_octets: "appendTableSize dst v = dst @ int_octets 0x20 5 (ucast v)"
  by (simp add: appendTableSize_def or_at_appendVarInt int_octets_def)

lemma size_update_reads:
  assumes "dyn_inv (dynTab d)" "suffix es (dyn_items (dynTab d))" "total_size es \<le> unat v"
    and "v \<le> allowedMaxSize (dynTab d)" "0 \<le> maxStrLen d"
  shows "\<exists>dt. reads_to (int_octets 0x20 5 (ucast v)) d (d\<lparr>dynTab := dt\<rparr>) \<and> dyn_inv dt \<and>
    suffix es (dyn_items dt) \<and> maxSize dt = v \<and> allowedMaxSize dt = allowedMaxSize (dynTab d) \<and>
    dyn_used dt = dyn_used (dynTab d)"
proof -
  obtain dt where dt: "setMaxSize v (dynTab d) = Some dt" "dyn_inv dt"
      "dyn_items dt = fit (unat v) (dyn_items (dynTab d))" "maxSize dt = v"
      "allowedMaxSize dt = allowedMaxSize (dynTab d)" "dyn_used dt = dyn_used (dynTab d)"
    using setMaxSize_spec [OF assms(1), of v] by blast
  have "reads_to (int_octets 0x20 5 (ucast v)) d (d\<lparr>dynTab := dt\<rparr>)"
  proof (rule reads_to_repr)
    fix rest
    show "parseHeaderFieldRepr (d\<lparr>dbuf := int_octets 0x20 5 (ucast v) @ rest\<rparr>) = (d\<lparr>dynTab := dt\<rparr>\<lparr>dbuf := rest\<rparr>, None)"
      using parse_size_update [of "d\<lparr>dbuf := int_octets 0x20 5 (ucast v) @ rest\<rparr>" v rest dt] assms(4) dt(1)
      by (simp add: dynTab_dbuf_commute)
    show "short_for d (int_octets 0x20 5 (ucast v))"
      using int_octets_length [of "ucast v" 5 "0x20" 5] unsigned_less [of v, where 'a = nat] assms(5)
      by (simp add: short_for_def ucast_u32_u64)
  qed simp
  moreover have "suffix es (dyn_items dt)"
    using fit_greatest [OF assms(2,3)] dt(3) by simp
  ultimately show ?thesis
    using dt by blast
qed

text \<open>Flushing the pending updates leaves the two ends in step, with nothing pending.\<close>

lemma flush_reads:
  assumes "in_sync e d" "ebuf e = []"
  shows "\<exists>d'. reads_to (ebuf (flush_size_update e)) d d' \<and> in_sync (flush_size_update e) d' \<and>
    emitted d' = emitted d \<and> dyn_used (dynTab d') = dyn_used (dynTab d) \<and>
    allowedMaxSize (dynTab d') = allowedMaxSize (dynTab d) \<and>
    \<not> tableSizeUpdate (flush_size_update e) \<and> edynTab (flush_size_update e) = edynTab e"
proof (cases "tableSizeUpdate e")
  case False
  then show ?thesis
    using assms reads_to_Nil by (auto simp: flush_size_update_def)
next
  case True
  let ?E = "dyn_items (edynTab e)" and ?max = "maxSize (edynTab e)" and ?min = "minSize e"
  let ?low = "if ?min < ?max then int_octets 0x20 5 (ucast ?min) else []"
  have buf: "ebuf (flush_size_update e) = ?low @ int_octets 0x20 5 (ucast ?max)"
    using True assms(2) by (simp add: flush_size_update_def Let_def appendTableSize_octets)
  have s: "dyn_inv (dynTab d)" "suffix ?E (dyn_items (dynTab d))" "total_size ?E \<le> unat ?min"
      "?max \<le> allowedMaxSize (dynTab d)" "total_size ?E \<le> unat ?max" "0 \<le> maxStrLen d"
    using assms(1) by (auto simp: in_sync_def dyn_inv_def)
  obtain dt1 where dt1: "reads_to ?low d (d\<lparr>dynTab := dt1\<rparr>)" "dyn_inv dt1" "suffix ?E (dyn_items dt1)"
      "allowedMaxSize dt1 = allowedMaxSize (dynTab d)" "dyn_used dt1 = dyn_used (dynTab d)"
  proof (cases "?min < ?max")
    case True
    with size_update_reads [OF s(1-3) _ s(6)] s(4) that show thesis by fastforce
  next
    case False
    with s that [of "dynTab d"] reads_to_Nil [of d] show thesis by simp
  qed
  obtain dt2 where dt2: "reads_to (int_octets 0x20 5 (ucast ?max)) (d\<lparr>dynTab := dt1\<rparr>) (d\<lparr>dynTab := dt2\<rparr>)"
      "dyn_inv dt2" "suffix ?E (dyn_items dt2)" "maxSize dt2 = ?max"
      "allowedMaxSize dt2 = allowedMaxSize (dynTab d)" "dyn_used dt2 = dyn_used (dynTab d)"
    using size_update_reads [of "d\<lparr>dynTab := dt1\<rparr>" ?E ?max] dt1 s(4-6) by auto
  have "total_size ?E \<le> unat uint32Max"
    using s(5) unsigned_less [of ?max, where 'a = nat] by (simp add: uint32Max_def unsigned_minus_1_eq_mask mask_eq_exp_minus_1)
  moreover have "?max < 2 ^ 31"
    using assms(1) by (auto simp: in_sync_def)
  ultimately have "in_sync (flush_size_update e) (d\<lparr>dynTab := dt2\<rparr>)"
    using assms(1) dt2 True by (simp add: in_sync_def flush_size_update_def Let_def)
  with reads_to_append [OF dt1(1) dt2(1)] dt2(5,6) True show ?thesis
    unfolding buf by (intro exI [of _ "d\<lparr>dynTab := dt2\<rparr>"]) (simp add: flush_size_update_def Let_def)
qed

subsection \<open>The field itself\<close>

lemma appendIndexed_octets: "appendIndexed dst i = dst @ int_octets 0x80 7 i"
  by (simp add: appendIndexed_def or_at_appendVarInt int_octets_def)

definition index_kind :: "HeaderField \<Rightarrow> bool \<Rightarrow> indexType" where
  "index_kind f indexing = (if Sensitive f then indexedNever else if indexing then indexedTrue else indexedFalse)"

lemma literal_octets:
  assumes "indexing \<Longrightarrow> \<not> Sensitive f"
  shows "(if i = 0 then appendNewName dst f indexing else appendIndexedName dst f i indexing) =
    dst @ int_octets (literal_flags (index_kind f indexing)) (literal_prefix (index_kind f indexing)) i @
      name_octets i (Name f) @ string_octets (Value f)"
proof -
  let ?it = "index_kind f indexing"
  have fl: "encodeTypeByte indexing (Sensitive f) = literal_flags ?it" "(if indexing then 6 else 4) = literal_prefix ?it"
    using assms by (auto simp: encodeTypeByte_def index_kind_def)
  have zero: "int_octets (literal_flags ?it) (literal_prefix ?it) 0 = [literal_flags ?it]"
    by (cases ?it) (simp_all add: int_octets_def appendVarInt_def varint_max_def)
  show ?thesis
    by (simp add: appendNewName_def appendIndexedName_def fl zero appendHpackString_append or_at_appendVarInt
        name_octets_def flip: int_octets_def)
qed

lemma encode_indexed_reads:
  assumes "in_sync e d" "index_at (dyn_items (edynTab e)) i = Some hf" "unat i < 2 ^ 63"
    and "Name hf = Name f" "Value hf = Value f" "\<not> Sensitive f" "field_fits d f"
  shows "reads_to (int_octets 0x80 7 i) d (decoder_field f d)"
proof (rule reads_to_repr)
  fix rest
  have at: "dec_lookup (d\<lparr>dbuf := b\<rparr>) i = Some hf" for b
    using index_at_newest [OF _ assms(2)] assms(1) by (simp add: dec_lookup_eq in_sync_def)
  have f: "\<lparr>Name = Name hf, Value = Value hf, Sensitive = False\<rparr> = f"
    using assms(4-6) by simp
  have fits: "field_fits (d\<lparr>dbuf := b\<rparr>) hf" for b
    using assms(4,5,7) by (simp add: field_fits_def)
  show "parseHeaderFieldRepr (d\<lparr>dbuf := int_octets 0x80 7 i @ rest\<rparr>) = ((decoder_field f d)\<lparr>dbuf := rest\<rparr>, None)"
    using parse_indexed [OF _ assms(3) at fits, of "int_octets 0x80 7 i @ rest" rest] assms(1)
    unfolding f by (simp add: in_sync_def decoder_field_def)
  show "short_for d (int_octets 0x80 7 i)"
    using int_octets_length [of i 9 "0x80" 7] assms(1,3) by (simp add: short_for_def in_sync_def)
qed simp

lemma literal_short:
  assumes "field_fits d f" "unat i < 2 ^ 63" "small_string (Name f)" "small_string (Value f)"
  shows "short_for d (int_octets fl n i @ name_octets i (Name f) @ string_octets (Value f))"
proof -
  have "length (int_octets fl n i) \<le> (if i = 0 then 2 else 10)"
    using int_octets_length [of i 1 fl n] int_octets_length [of i 9 fl n] assms(2) by (cases "i = 0") simp_all
  moreover have "length (name_octets i (Name f)) \<le> (if i = 0 then length (Name f) + 6 else 0)"
    using string_octets_length [OF assms(3)] by (simp add: name_octets_def)
  ultimately show ?thesis
    using string_octets_length [OF assms(4)] assms(1)
    by (auto simp: short_for_def field_fits_def fits_limit_def split: if_splits)
qed

lemma encode_literal_reads:
  assumes "in_sync e d" "unat i < 2 ^ 63" "field_ok f" "field_fits d f" "indexing \<Longrightarrow> \<not> Sensitive f"
    and "i \<noteq> 0 \<Longrightarrow> \<exists>hf. index_at (dyn_items (edynTab e)) i = Some hf \<and> Name hf = Name f"
    and "(if indexing then dyn_add f (dynTab d) else Some (dynTab d)) = Some dt"
  shows "reads_to (int_octets (literal_flags (index_kind f indexing)) (literal_prefix (index_kind f indexing)) i @
      name_octets i (Name f) @ string_octets (Value f)) d (decoder_field f (d\<lparr>dynTab := dt\<rparr>))"
proof (rule reads_to_repr)
  fix rest
  let ?it = "index_kind f indexing"
  let ?p = "int_octets (literal_flags ?it) (literal_prefix ?it) i @ name_octets i (Name f) @ string_octets (Value f)"
  let ?d = "d\<lparr>dbuf := ?p @ rest\<rparr>"
  have small: "small_string (Name f)" "small_string (Value f)"
    using assms(3) by (auto simp: field_ok_def small_string_def hf_size_def)
  have at: "i \<noteq> 0 \<Longrightarrow> \<exists>hf. dec_lookup ?d i = Some hf \<and> Name hf = Name f"
    using assms(1,6) index_at_newest by (fastforce simp: dec_lookup_eq in_sync_def)
  have add: "(if indexed ?it then dyn_add \<lparr>Name = Name f, Value = Value f, Sensitive = False\<rparr> (dynTab ?d)
      else Some (dynTab ?d)) = Some dt"
    using assms(5,7) by (cases f) (auto simp: index_kind_def indexed_def split: if_splits)
  have f: "\<lparr>Name = Name f, Value = Value f, Sensitive = sensitive ?it\<rparr> = f"
    by (cases f) (simp add: index_kind_def sensitive_def)
  show "parseHeaderFieldRepr ?d = ((decoder_field f (d\<lparr>dynTab := dt\<rparr>))\<lparr>dbuf := rest\<rparr>, None)"
    using parse_literal [OF _ assms(2) at _ _ small add, of rest] assms(1,4)
    unfolding f by (simp add: in_sync_def decoder_field_def field_fits_def)
  show "short_for d ?p"
    by (rule literal_short [OF assms(4,2) small])
qed simp

lemma add_in_sync:
  assumes "in_sync e d" "\<not> tableSizeUpdate e" "field_ok f"
    and "Suc (dyn_used (edynTab e)) < 2 ^ 64" "Suc (dyn_used (dynTab d)) < 2 ^ 64"
  shows "\<exists>et dt. dyn_add f (edynTab e) = Some et \<and> dyn_add f (dynTab d) = Some dt \<and>
    in_sync (e\<lparr>edynTab := et\<rparr>) (d\<lparr>dynTab := dt\<rparr>) \<and>
    dyn_used et = Suc (dyn_used (edynTab e)) \<and> dyn_used dt = Suc (dyn_used (dynTab d)) \<and>
    allowedMaxSize dt = allowedMaxSize (dynTab d)"
proof -
  have sync: "dyn_inv (edynTab e)" "dyn_inv (dynTab d)" "suffix (dyn_items (edynTab e)) (dyn_items (dynTab d))"
      "maxSize (edynTab e) \<le> maxSize (dynTab d)" "maxSize (dynTab d) < 2 ^ 31"
    using assms(1,2) by (auto simp: in_sync_def)
  have le: "unat (maxSize (edynTab e)) \<le> unat (maxSize (dynTab d))" "unat (maxSize (dynTab d)) < 2 ^ 31"
    using sync(4,5) by (simp_all add: word_le_nat_alt word_less_nat_alt)
  have room: "unat (maxSize (dynTab d)) + hf_size f < 2 ^ 32" "unat (maxSize (edynTab e)) + hf_size f < 2 ^ 32"
    using le assms(3) by (auto simp: field_ok_def)
  obtain et where et: "dyn_add f (edynTab e) = Some et" "dyn_inv et" "maxSize et = maxSize (edynTab e)"
      "dyn_used et = Suc (dyn_used (edynTab e))"
    using dyn_add_spec [OF sync(1) room(2) assms(4)] by blast
  obtain dt where dt: "dyn_add f (dynTab d) = Some dt" "dyn_inv dt" "maxSize dt = maxSize (dynTab d)"
      "allowedMaxSize dt = allowedMaxSize (dynTab d)" "dyn_used dt = Suc (dyn_used (dynTab d))"
    using dyn_add_spec [OF sync(2) room(1) assms(5)] by blast
  have "suffix (dyn_items et) (dyn_items dt)"
    using dyn.add_newest [OF sync(1-3) le(1) room(1) assms(4,5)] et(1) dt(1) by simp
  moreover have "total_size (dyn_items et) \<le> unat uint32Max"
    using et(2) unsigned_less [of "maxSize et", where 'a = nat]
    by (simp add: dyn_inv_def uint32Max_def unsigned_minus_1_eq_mask mask_eq_exp_minus_1)
  ultimately have "in_sync (e\<lparr>edynTab := et\<rparr>) (d\<lparr>dynTab := dt\<rparr>)"
    using assms(1,2) et dt by (simp add: in_sync_def)
  with et dt show ?thesis by blast
qed

lemma in_sync_cong:
  "in_sync e d \<Longrightarrow> edynTab e' = edynTab e \<Longrightarrow> minSize e' = minSize e \<Longrightarrow> tableSizeUpdate e' = tableSizeUpdate e \<Longrightarrow>
     in_sync e' (decoder_field f d)"
  by (simp add: in_sync_def decoder_field_def)

text \<open>Encoding one field does not panic, and the decoder that reads the octets emits that field
  and stays in step.\<close>

lemma encode_field_reads:
  assumes "in_sync e d" "field_ok f" "field_fits d f"
    and "Suc (dyn_used (edynTab e)) < 2 ^ 64" "Suc (dyn_used (dynTab d)) < 2 ^ 64"
  shows "\<exists>e' d'. encode_field f e = Some e' \<and> reads_to (ebuf e') d d' \<and> in_sync e' d' \<and>
    emitted d' = emitted d @ [f] \<and> dyn_used (edynTab e') \<le> Suc (dyn_used (edynTab e)) \<and>
    dyn_used (dynTab d') \<le> Suc (dyn_used (dynTab d)) \<and>
    allowedMaxSize (dynTab d') = allowedMaxSize (dynTab d)"
proof -
  define e1 where "e1 = flush_size_update (e\<lparr>ebuf := []\<rparr>)"
  have "in_sync (e\<lparr>ebuf := []\<rparr>) d"
    using assms(1) by (simp add: in_sync_def)
  from flush_reads [OF this] obtain d1 where d1: "reads_to (ebuf e1) d d1" "in_sync e1 d1" "emitted d1 = emitted d"
      "dyn_used (dynTab d1) = dyn_used (dynTab d)" "\<not> tableSizeUpdate e1" "edynTab e1 = edynTab e"
      "allowedMaxSize (dynTab d1) = allowedMaxSize (dynTab d)"
    by (auto simp: e1_def)
  have fits: "field_fits d1 f"
    using assms(3) reads_to_maxStrLen [OF d1(1)] by (simp add: field_fits_def)
  obtain i b where i: "searchTable e1 f = Some (i, b)" "unat i < 2 ^ 63"
      "i \<noteq> 0 \<Longrightarrow> \<exists>hf. index_at (dyn_items (edynTab e1)) i = Some hf \<and> Name hf = Name f \<and> (b \<longrightarrow> Value hf = Value f)"
      "b \<Longrightarrow> i \<noteq> 0 \<and> \<not> Sensitive f"
    using searchTable_spec [of e1 f] d1(2) by (auto simp: in_sync_def)
  show ?thesis
  proof (cases b)
    case True
    let ?e = "e1\<lparr>ebuf := ebuf e1 @ int_octets 0x80 7 i\<rparr>"
    have "encode_field f e = Some ?e"
      using True i(1) by (simp add: encode_field_def e1_def [symmetric] Let_def appendIndexed_octets)
    moreover have "reads_to (int_octets 0x80 7 i) d1 (decoder_field f d1)"
      using encode_indexed_reads [OF d1(2) _ i(2) _ _ _ fits] i(3,4) True by blast
    note reads_to_append [OF d1(1) this]
    moreover have "in_sync ?e (decoder_field f d1)"
      by (rule in_sync_cong [OF d1(2)]) simp_all
    ultimately show ?thesis
      using d1 by (intro exI [of _ ?e] exI [of _ "decoder_field f d1"]) (simp add: decoder_field_def)
  next
    case False
    define ix where "ix = shouldIndex e1 f"
    have ix: "ix \<Longrightarrow> \<not> Sensitive f"
      by (simp add: ix_def shouldIndex_def)
    obtain et dt where t: "(if ix then dyn_add f (edynTab e1) else Some (edynTab e1)) = Some et"
        "(if ix then dyn_add f (dynTab d1) else Some (dynTab d1)) = Some dt"
        "in_sync (e1\<lparr>edynTab := et\<rparr>) (d1\<lparr>dynTab := dt\<rparr>)"
        "dyn_used et \<le> Suc (dyn_used (edynTab e))" "dyn_used dt \<le> Suc (dyn_used (dynTab d))"
        "allowedMaxSize dt = allowedMaxSize (dynTab d)"
    proof (cases ix)
      case True
      with add_in_sync [OF d1(2,5) assms(2)] d1(4,6,7) assms(4,5) that show thesis by auto
    next
      case False
      have "in_sync (e1\<lparr>edynTab := edynTab e1\<rparr>) (d1\<lparr>dynTab := dynTab d1\<rparr>)"
        using d1(2) by simp
      with False that [of "edynTab e1" "dynTab d1"] d1(4,6,7) show thesis by simp
    qed
    let ?p = "int_octets (literal_flags (index_kind f ix)) (literal_prefix (index_kind f ix)) i @
      name_octets i (Name f) @ string_octets (Value f)"
    let ?e = "e1\<lparr>edynTab := et, ebuf := ebuf e1 @ ?p\<rparr>" and ?d = "decoder_field f (d1\<lparr>dynTab := dt\<rparr>)"
    have "encode_field f e = Some (e1\<lparr>edynTab := et, ebuf :=
        (if i = 0 then appendNewName (ebuf e1) f ix else appendIndexedName (ebuf e1) f i ix)\<rparr>)"
      unfolding encode_field_def e1_def [symmetric] Let_def i(1) ix_def [symmetric] option.case prod.case t(1)
      using False by simp
    moreover have "(if i = 0 then appendNewName (ebuf e1) f ix else appendIndexedName (ebuf e1) f i ix) = ebuf e1 @ ?p"
      by (rule literal_octets) (rule ix)
    ultimately have "encode_field f e = Some ?e"
      by simp
    moreover have "reads_to ?p d1 ?d"
      by (rule encode_literal_reads [OF d1(2) i(2) assms(2) fits ix _ t(2)]) (use i(3) in blast)+
    note reads_to_append [OF d1(1) this]
    moreover have "in_sync ?e ?d"
      by (rule in_sync_cong [OF t(3)]) simp_all
    ultimately show ?thesis
      using d1 t(4-6) by (intro exI [of _ ?e] exI [of _ ?d]) (simp add: decoder_field_def)
  qed
qed

section \<open>Header blocks\<close>

text \<open>What a client does with an encoder between and within header blocks.\<close>

datatype enc_op = Field HeaderField | MaxTableSize u32 | TableSizeLimit u32

fun enc_run :: "enc_op list \<Rightarrow> Encoder \<Rightarrow> (Encoder \<times> bytes) option" where
  "enc_run [] e = Some (e, [])"
| "enc_run (Field f # ops) e =
     (case encode_field f e of
        None \<Rightarrow> None
      | Some e' \<Rightarrow> map_option (\<lambda>(e'', out). (e'', ebuf e' @ out)) (enc_run ops e'))"
| "enc_run (MaxTableSize v # ops) e =
     (case SetMaxDynamicTableSize v e of None \<Rightarrow> None | Some e' \<Rightarrow> enc_run ops e')"
| "enc_run (TableSizeLimit v # ops) e =
     (case SetMaxDynamicTableSizeLimit v e of None \<Rightarrow> None | Some e' \<Rightarrow> enc_run ops e')"

fun fields_of :: "enc_op list \<Rightarrow> HeaderField list" where
  "fields_of [] = []"
| "fields_of (Field f # ops) = f # fields_of ops"
| "fields_of (_ # ops) = fields_of ops"

definition op_ok :: "u32 \<Rightarrow> enc_op \<Rightarrow> bool" where
  "op_ok allowed op = (case op of Field f \<Rightarrow> field_ok f | MaxTableSize v \<Rightarrow> v \<le> allowed | TableSizeLimit v \<Rightarrow> True)"

text \<open>Shrinking and growing the encoder's table between fields.\<close>

lemma resize_in_sync:
  assumes "in_sync e d" "v \<le> allowedMaxSize (dynTab d)" "m = minSize e \<or> m = v"
  shows "\<exists>et. setMaxSize v (edynTab e) = Some et \<and> dyn_used et = dyn_used (edynTab e) \<and>
    in_sync (e\<lparr>minSize := m, tableSizeUpdate := True, edynTab := et\<rparr>) d"
proof -
  have sync: "dyn_inv (edynTab e)" "suffix (dyn_items (edynTab e)) (dyn_items (dynTab d))"
      "total_size (dyn_items (edynTab e)) \<le> unat (minSize e)"
    using assms(1) by (auto simp: in_sync_def)
  obtain et where et: "setMaxSize v (edynTab e) = Some et" "dyn_inv et" "maxSize et = v"
      "dyn_items et = fit (unat v) (dyn_items (edynTab e))" "dyn_used et = dyn_used (edynTab e)"
    using setMaxSize_spec [OF sync(1), of v] by blast
  have "suffix (dyn_items et) (dyn_items (dynTab d))"
      "total_size (dyn_items et) \<le> min (unat v) (total_size (dyn_items (edynTab e)))"
    using dyn.shrink_newest [OF sync(1,2), of v] et(1) by auto
  with sync(3) assms(3) have "suffix (dyn_items et) (dyn_items (dynTab d))" "total_size (dyn_items et) \<le> unat m"
    by auto
  with assms(1,2) et show ?thesis
    by (simp add: in_sync_def)
qed

lemma SetMaxDynamicTableSize_in_sync:
  assumes "in_sync e d" "v \<le> allowedMaxSize (dynTab d)"
  shows "\<exists>e'. SetMaxDynamicTableSize v e = Some e' \<and> in_sync e' d \<and> dyn_used (edynTab e') = dyn_used (edynTab e)"
proof -
  define w where "w = (if v > maxSizeLimit e then maxSizeLimit e else v)"
  define m where "m = (if w < minSize e then w else minSize e)"
  have w: "w \<le> allowedMaxSize (dynTab d)"
    using assms(2) by (auto simp: w_def)
  have m: "m = minSize e \<or> m = w"
    by (simp add: m_def)
  obtain et where et: "setMaxSize w (edynTab e) = Some et" "dyn_used et = dyn_used (edynTab e)"
      "in_sync (e\<lparr>minSize := m, tableSizeUpdate := True, edynTab := et\<rparr>) d"
    using resize_in_sync [OF assms(1) w m] by blast
  have "SetMaxDynamicTableSize v e = Some (e\<lparr>minSize := m, tableSizeUpdate := True, edynTab := et\<rparr>)"
    unfolding SetMaxDynamicTableSize_def w_def [symmetric] Let_def using et(1) by (simp add: m_def)
  with et show ?thesis by simp
qed

lemma SetMaxDynamicTableSizeLimit_in_sync:
  assumes "in_sync e d"
  shows "\<exists>e'. SetMaxDynamicTableSizeLimit v e = Some e' \<and> in_sync e' d \<and> dyn_used (edynTab e') = dyn_used (edynTab e)"
proof (cases "maxSize (edynTab e) > v")
  case True
  then have "v \<le> allowedMaxSize (dynTab d)"
    using assms by (auto simp: in_sync_def)
  from resize_in_sync [OF assms this, of "minSize e"] obtain et where
    et: "setMaxSize v (edynTab e) = Some et" "dyn_used et = dyn_used (edynTab e)"
      "in_sync (e\<lparr>tableSizeUpdate := True, edynTab := et\<rparr>) d"
    by auto
  then have "in_sync (e\<lparr>maxSizeLimit := v, tableSizeUpdate := True, edynTab := et\<rparr>) d"
    by (simp add: in_sync_def)
  with True et show ?thesis
    by (simp add: SetMaxDynamicTableSizeLimit_def)
next
  case False
  then show ?thesis
    using assms by (simp add: SetMaxDynamicTableSizeLimit_def in_sync_def)
qed

lemma enc_run_reads:
  assumes "in_sync e d" "list_all (op_ok (allowedMaxSize (dynTab d))) ops"
    and "dyn_used (edynTab e) + length ops < 2 ^ 64" "dyn_used (dynTab d) + length ops < 2 ^ 64"
    and "\<forall>f \<in> set (fields_of ops). field_fits d f"
  shows "\<exists>e' out d'. enc_run ops e = Some (e', out) \<and> reads_to out d d' \<and> in_sync e' d' \<and>
    emitted d' = emitted d @ fields_of ops \<and> allowedMaxSize (dynTab d') = allowedMaxSize (dynTab d) \<and>
    dyn_used (edynTab e') \<le> dyn_used (edynTab e) + length ops \<and>
    dyn_used (dynTab d') \<le> dyn_used (dynTab d) + length ops"
  using assms
proof (induction ops arbitrary: e d)
  case Nil
  then show ?case using reads_to_Nil by fastforce
next
  case (Cons op ops)
  show ?case
  proof (cases op)
    case (Field f)
    obtain e1 d1 where one: "encode_field f e = Some e1" "reads_to (ebuf e1) d d1" "in_sync e1 d1"
        "emitted d1 = emitted d @ [f]" "dyn_used (edynTab e1) \<le> Suc (dyn_used (edynTab e))"
        "dyn_used (dynTab d1) \<le> Suc (dyn_used (dynTab d))" "allowedMaxSize (dynTab d1) = allowedMaxSize (dynTab d)"
      using encode_field_reads [OF Cons.prems(1), of f] Cons.prems(2-5) Field by (auto simp: op_ok_def)
    have "\<forall>g \<in> set (fields_of ops). field_fits d1 g"
      using Cons.prems(5) Field reads_to_maxStrLen [OF one(2)] by (simp add: field_fits_def)
    then obtain e2 out d2 where "enc_run ops e1 = Some (e2, out)" "reads_to out d1 d2" "in_sync e2 d2"
        "emitted d2 = emitted d1 @ fields_of ops" "allowedMaxSize (dynTab d2) = allowedMaxSize (dynTab d1)"
        "dyn_used (edynTab e2) \<le> dyn_used (edynTab e1) + length ops"
        "dyn_used (dynTab d2) \<le> dyn_used (dynTab d1) + length ops"
      using Cons.IH [OF one(3)] Cons.prems(2-4) one(5-7) by auto
    with one reads_to_append [OF one(2), of out d2] Field show ?thesis
      by auto
  next
    case (MaxTableSize v)
    obtain e1 where one: "SetMaxDynamicTableSize v e = Some e1" "in_sync e1 d" "dyn_used (edynTab e1) = dyn_used (edynTab e)"
      using SetMaxDynamicTableSize_in_sync [OF Cons.prems(1)] Cons.prems(2) MaxTableSize by (auto simp: op_ok_def)
    with Cons.IH [OF one(2)] Cons.prems(2-5) MaxTableSize show ?thesis
      by fastforce
  next
    case (TableSizeLimit v)
    obtain e1 where one: "SetMaxDynamicTableSizeLimit v e = Some e1" "in_sync e1 d"
        "dyn_used (edynTab e1) = dyn_used (edynTab e)"
      using SetMaxDynamicTableSizeLimit_in_sync [OF Cons.prems(1)] by blast
    with Cons.IH [OF one(2)] Cons.prems(2-5) TableSizeLimit show ?thesis
      by fastforce
  qed
qed

lemma in_sync_view:
  "in_sync e d \<Longrightarrow> d\<lparr>dbuf := b, emitted := x\<rparr> = d'\<lparr>dbuf := b', emitted := x'\<rparr> \<Longrightarrow> in_sync e d'"
  by (cases d; cases d') (simp add: in_sync_def)

lemma reads_to_DecodeFull:
  assumes "reads_to out (d\<lparr>emitted := []\<rparr>) d'" "in_sync e d" "in_sync e' d'"
  shows "\<exists>D. DecodeFull out d = (D, Inr (emitted d')) \<and> in_sync e' D \<and> dynTab D = dynTab d' \<and>
    maxStrLen D = maxStrLen d'"
proof -
  let ?d = "d\<lparr>emitted := []\<rparr>"
  have loop: "write_loop (?d\<lparr>dbuf := out\<rparr>) = (d'\<lparr>dbuf := []\<rparr>, None)"
    using reads_to_write_loop [OF assms(1), of "[]"] by (simp add: write_loop.simps [of "d'\<lparr>dbuf := []\<rparr>"])
  have save: "saveBuf d = []" "saveBuf d' = []"
    using assms(2,3) by (auto simp: in_sync_def)
  obtain d2 n where w: "Write out ?d = (d2, n, None)" "d2\<lparr>dbuf := []\<rparr> = d'\<lparr>dbuf := []\<rparr>"
  proof (cases "out = []")
    case True
    then have "?d\<lparr>dbuf := []\<rparr> = d'\<lparr>dbuf := []\<rparr>"
      using loop by (simp add: write_loop.simps [of "?d\<lparr>dbuf := []\<rparr>"])
    with True that [of ?d 0] show thesis by (simp add: Write_def)
  next
    case False
    with loop save that [of "d'\<lparr>dbuf := []\<rparr>" "length out"] show thesis by (simp add: Write_def Let_def)
  qed
  have eq: "saveBuf d2 = saveBuf d'" "emitted d2 = emitted d'" "dynTab d2 = dynTab d'" "maxStrLen d2 = maxStrLen d'"
    using w(2) by (cases d2; cases d'; simp)+
  have "DecodeFull out d = (d2\<lparr>emitted := emitted d\<rparr>, Inr (emitted d'))"
    using w(1) eq save by (simp add: DecodeFull_def Close_def)
  moreover have "in_sync e' (d2\<lparr>emitted := emitted d\<rparr>)"
    by (rule in_sync_view [OF assms(3), where b = "[]" and x = "[]" and b' = "[]" and x' = "[]"]) (use w(2) in \<open>cases d2; cases d'; simp\<close>)
  ultimately show ?thesis
    using eq(3,4) by simp
qed

text \<open>A connection: each header block is encoded, sent, and decoded before the next.\<close>

fun session :: "enc_op list list \<Rightarrow> Encoder \<Rightarrow> Decoder \<Rightarrow> (hpack_error + HeaderField list) list option" where
  "session [] e d = Some []"
| "session (ops # blocks) e d =
     (case enc_run ops e of
        None \<Rightarrow> None
      | Some (e', out) \<Rightarrow>
          (case DecodeFull out d of (d', r) \<Rightarrow> map_option (\<lambda>rs. r # rs) (session blocks e' d')))"

lemma session_reads:
  assumes "in_sync e d" "list_all (list_all (op_ok (allowedMaxSize (dynTab d)))) blocks"
    and "dyn_used (edynTab e) + length (concat blocks) < 2 ^ 64"
    and "dyn_used (dynTab d) + length (concat blocks) < 2 ^ 64" "maxStrLen d = 0"
  shows "session blocks e d = Some (map (\<lambda>ops. Inr (fields_of ops)) blocks)"
  using assms
proof (induction blocks arbitrary: e d)
  case (Cons ops blocks)
  let ?d = "d\<lparr>emitted := []\<rparr>"
  have "in_sync e ?d" "field_fits ?d f" for f
    using Cons.prems(1,5) by (simp_all add: in_sync_def field_fits_def fits_limit_def)
  from enc_run_reads [OF this(1), of ops] this(2) Cons.prems(2-4) obtain e1 out d1 where
    one: "enc_run ops e = Some (e1, out)" "reads_to out ?d d1" "in_sync e1 d1" "emitted d1 = fields_of ops"
      "allowedMaxSize (dynTab d1) = allowedMaxSize (dynTab d)"
      "dyn_used (edynTab e1) \<le> dyn_used (edynTab e) + length ops"
      "dyn_used (dynTab d1) \<le> dyn_used (dynTab d) + length ops"
    by auto
  obtain D where D: "DecodeFull out d = (D, Inr (emitted d1))" "in_sync e1 D" "dynTab D = dynTab d1" "maxStrLen D = maxStrLen d1"
    using reads_to_DecodeFull [OF one(2) Cons.prems(1) one(3)] by blast
  have "session blocks e1 D = Some (map (\<lambda>ops. Inr (fields_of ops)) blocks)"
    using Cons.prems(2-5) one(5-7) D(3,4) reads_to_maxStrLen [OF one(2)] by (intro Cons.IH [OF D(2)]) auto
  with one D show ?case by simp
qed simp

text \<open>A new encoder and a new decoder are in step.\<close>

lemma new_in_sync:
  assumes "4096 \<le> allowed" "allowed < 2 ^ 31"
  obtains e d where "NewEncoder = Some e" "NewDecoder allowed = Some d" "in_sync e d" "maxStrLen d = 0" "saveBuf d = []"
    "dyn_used (edynTab e) = 0" "dyn_used (dynTab d) = 0" "allowedMaxSize (dynTab d) = allowed"
proof -
  have empty: "dyn_items (dyn_empty a) = []" "dyn_used (dyn_empty a) = 0" "allowedMaxSize (dyn_empty a) = a" for a
    by (simp_all add: dyn_empty_def table_init_def dyn_used_def)
  obtain et where et: "setMaxSize initialHeaderTableSize (dyn_empty 0) = Some et" "dyn_inv et"
      "dyn_items et = []" "maxSize et = 4096" "dyn_used et = 0"
    using setMaxSize_spec [OF dyn_inv_empty, of initialHeaderTableSize 0] empty
    by (auto simp: initialHeaderTableSize_def)
  obtain dt where dt: "setMaxSize allowed (dyn_empty allowed) = Some dt" "dyn_inv dt"
      "dyn_items dt = []" "maxSize dt = allowed" "allowedMaxSize dt = allowed" "dyn_used dt = 0"
    using setMaxSize_spec [OF dyn_inv_empty, of allowed allowed] empty by auto
  let ?e = "\<lparr>edynTab = et, minSize = uint32Max, maxSizeLimit = initialHeaderTableSize,
    tableSizeUpdate = False, ebuf = []\<rparr>"
  let ?d = "\<lparr>dynTab = dt, emitted = [], emitEnabled = True, maxStrLen = 0, dbuf = [], saveBuf = []\<rparr>"
  have "in_sync ?e ?d"
    using et dt assms by (simp add: in_sync_def)
  with et dt that [of ?e ?d] show thesis
    by (simp add: NewEncoder_def NewDecoder_def)
qed

text \<open>C1.  HPACK round trip.  Start an encoder and a decoder that allows a table of at least
  4096 bytes.  Whatever header fields are written, in however many header blocks, and however
  the encoder's table size and its limit are changed in between (never beyond what the decoder
  allows), neither end panics, and decoding each block gives exactly the fields that were
  written to it, in order, with names, values and the sensitive mark.  Fields are below
  2 GiB and fewer than $2^{64}$ operations are made.\<close>

theorem hpack_roundtrip:
  assumes "4096 \<le> allowed" "allowed < 2 ^ 31"
    and "list_all (list_all (op_ok allowed)) blocks" "length (concat blocks) < 2 ^ 64"
  shows "\<exists>e d. NewEncoder = Some e \<and> NewDecoder allowed = Some d \<and>
    session blocks e d = Some (map (\<lambda>ops. Inr (fields_of ops)) blocks)"
proof -
  obtain e d where new: "NewEncoder = Some e" "NewDecoder allowed = Some d" "in_sync e d" "maxStrLen d = 0" "saveBuf d = []"
      "dyn_used (edynTab e) = 0" "dyn_used (dynTab d) = 0" "allowedMaxSize (dynTab d) = allowed"
    by (rule new_in_sync [OF assms(1,2)])
  have "session blocks e d = Some (map (\<lambda>ops. Inr (fields_of ops)) blocks)"
    using session_reads [OF new(3), of blocks] assms(3,4) new by simp
  with new(1,2) show ?thesis by blast
qed

theorem hpack_roundtrip_witness:
  "\<exists>e d. NewEncoder = Some e \<and> NewDecoder 8192 = Some d \<and>
    session [[Field (entry '':method'' ''GET''), Field (entry ''x'' ''y'')], [MaxTableSize 0],
        [TableSizeLimit 100, Field (entry ''x'' ''y''), Field ((entry ''cookie'' ''z'')\<lparr>Sensitive := True\<rparr>)]] e d =
      Some [Inr [entry '':method'' ''GET'', entry ''x'' ''y''], Inr [],
        Inr [entry ''x'' ''y'', (entry ''cookie'' ''z'')\<lparr>Sensitive := True\<rparr>]]"
  using hpack_roundtrip [of 8192 "[[Field (entry '':method'' ''GET''), Field (entry ''x'' ''y'')], [MaxTableSize 0],
        [TableSizeLimit 100, Field (entry ''x'' ''y''), Field ((entry ''cookie'' ''z'')\<lparr>Sensitive := True\<rparr>)]]"]
  by (simp add: op_ok_def field_ok_def hf_size_def entry_def go_bytes_def)

end
