(* ===== verification/HTTP2_DataBuffer.thy ===== *)
theory HTTP2_DataBuffer
  imports GoPrelude
begin

text \<open>
  Package \<^verbatim>\<open>http2\<close>, file \<^verbatim>\<open>databuffer.go\<close>: the chunked buffer that holds the DATA of a
  stream.  A chunk taken from its pool may hold anything, so the operations that allocate
  take the stale contents \<open>junk\<close> as an argument; results hold for all of them.  \<open>None\<close> stands
  for a panic or a loop that does not end; that the operations return is part of their
  correctness.
\<close>

section \<open>Chunks\<close>

definition dataChunkSizeClasses :: "nat list" where
  "dataChunkSizeClasses = [1024, 2048, 4096, 8192, 16384]"

fun chunk_class :: "int \<Rightarrow> nat list \<Rightarrow> nat" where
  "chunk_class sz [] = 0"
| "chunk_class sz [n] = n"
| "chunk_class sz (n # m # ns) = (if sz \<le> int n then n else chunk_class sz (m # ns))"

definition getDataBufferChunk :: "(nat \<Rightarrow> u8) \<Rightarrow> int \<Rightarrow> bytes" where
  "getDataBufferChunk junk sz = map junk [0 ..< chunk_class sz dataChunkSizeClasses]"

definition putDataBufferChunk :: "bytes \<Rightarrow> unit option" where
  "putDataBufferChunk p = (if length p \<in> set dataChunkSizeClasses then Some () else None)"

section \<open>The buffer\<close>

record dataBuffer =
  chunks :: "bytes list"
  rpos :: nat
  wpos :: nat
  bsize :: int
  expected :: int

datatype buffer_error = errReadEmpty

definition bytesFromFirstChunk :: "dataBuffer \<Rightarrow> bytes" where
  "bytesFromFirstChunk b =
     (if length (chunks b) = 1 then drop (rpos b) (take (wpos b) (hd (chunks b)))
      else drop (rpos b) (hd (chunks b)))"

text \<open>Indexing the first chunk of an empty list and slicing past a bound panic.\<close>

definition first_chunk_ok :: "dataBuffer \<Rightarrow> bool" where
  "first_chunk_ok b \<longleftrightarrow>
     chunks b \<noteq> [] \<and> rpos b \<le> length (hd (chunks b)) \<and>
     (length (chunks b) = 1 \<longrightarrow> rpos b \<le> wpos b \<and> wpos b \<le> length (hd (chunks b)))"

text \<open>One round of the read loop, with room for \<open>k\<close> more bytes.\<close>

definition read_round :: "nat \<Rightarrow> dataBuffer \<Rightarrow> (bytes \<times> dataBuffer) option" where
  "read_round k b =
     (if \<not> first_chunk_ok b then None
      else
        let out = take k (bytesFromFirstChunk b);
            b1 = b\<lparr>rpos := rpos b + length out, bsize := bsize b - int (length out)\<rparr> in
        if rpos b1 = length (hd (chunks b1)) then
          (case putDataBufferChunk (hd (chunks b1)) of
             None \<Rightarrow> None
           | Some _ \<Rightarrow> Some (out, b1\<lparr>chunks := tl (chunks b1), rpos := 0\<rparr>))
        else Some (out, b1))"

partial_function (option) read_loop :: "nat \<Rightarrow> bytes \<Rightarrow> dataBuffer \<Rightarrow> (bytes \<times> dataBuffer) option" where
  "read_loop k acc b =
     (if k > 0 \<and> bsize b > 0 then
        (case read_round k b of
           None \<Rightarrow> None
         | Some (out, b') \<Rightarrow> read_loop (k - length out) (acc @ out) b')
      else Some (acc, b))"

definition dataBuffer_Read :: "nat \<Rightarrow> dataBuffer \<Rightarrow> (buffer_error + bytes \<times> dataBuffer) option" where
  "dataBuffer_Read k b =
     (if bsize b = 0 then Some (Inl errReadEmpty)
      else map_option Inr (read_loop k [] b))"

definition dataBuffer_Len :: "dataBuffer \<Rightarrow> int" where
  "dataBuffer_Len b = bsize b"

definition lastChunkOrAlloc :: "(nat \<Rightarrow> u8) \<Rightarrow> int \<Rightarrow> dataBuffer \<Rightarrow> dataBuffer" where
  "lastChunkOrAlloc junk want b =
     (if chunks b \<noteq> [] \<and> wpos b < length (last (chunks b)) then b
      else b\<lparr>chunks := chunks b @ [getDataBufferChunk junk want], wpos := 0\<rparr>)"

text \<open>One round of the write loop: as much of \<open>p\<close> as the last chunk holds.\<close>

definition write_round :: "(nat \<Rightarrow> u8) \<Rightarrow> bytes \<Rightarrow> dataBuffer \<Rightarrow> nat \<times> dataBuffer" where
  "write_round junk p b =
     (let want = (if expected b > int (length p) then expected b else int (length p));
          b1 = lastChunkOrAlloc junk want b;
          c = last (chunks b1);
          n = min (length c - wpos b1) (length p) in
      (n, b1\<lparr>chunks := butlast (chunks b1) @ [take (wpos b1) c @ take n p @ drop (wpos b1 + n) c],
             wpos := wpos b1 + n, bsize := bsize b1 + int n, expected := expected b1 - int n\<rparr>))"

partial_function (option) dataBuffer_Write :: "(nat \<Rightarrow> u8) \<Rightarrow> bytes \<Rightarrow> dataBuffer \<Rightarrow> dataBuffer option" where
  "dataBuffer_Write junk p b =
     (if p = [] then Some b
      else case write_round junk p b of (n, b') \<Rightarrow> dataBuffer_Write junk (drop n p) b')"

section \<open>The bytes a buffer holds\<close>

fun contents_from :: "nat \<Rightarrow> nat \<Rightarrow> bytes list \<Rightarrow> bytes" where
  "contents_from r w [] = []"
| "contents_from r w [c] = drop r (take w c)"
| "contents_from r w (c # cs) = drop r c @ contents_from 0 w cs"

definition contents :: "dataBuffer \<Rightarrow> bytes" where
  "contents b = contents_from (rpos b) (wpos b) (chunks b)"

definition db_inv :: "dataBuffer \<Rightarrow> bool" where
  "db_inv b \<longleftrightarrow>
     bsize b = int (length (contents b)) \<and>
     (\<forall>c \<in> set (chunks b). length c \<in> set dataChunkSizeClasses) \<and>
     (chunks b = [] \<longrightarrow> rpos b = 0) \<and>
     (chunks b \<noteq> [] \<longrightarrow> rpos b < length (hd (chunks b)) \<and> wpos b \<le> length (last (chunks b))) \<and>
     (length (chunks b) = 1 \<longrightarrow> rpos b \<le> wpos b) \<and> (length (chunks b) > 1 \<longrightarrow> 0 < wpos b)"

lemma chunk_class_mem: "ns \<noteq> [] \<Longrightarrow> chunk_class sz ns \<in> set ns"
  by (induction sz ns rule: chunk_class.induct) auto

lemma class_pos: "n \<in> set dataChunkSizeClasses \<Longrightarrow> 0 < n"
  by (auto simp: dataChunkSizeClasses_def)

lemma length_getDataBufferChunk:
  "length (getDataBufferChunk junk sz) \<in> set dataChunkSizeClasses" "getDataBufferChunk junk sz \<noteq> []"
proof -
  have "chunk_class sz dataChunkSizeClasses \<in> set dataChunkSizeClasses"
    by (rule chunk_class_mem) (simp add: dataChunkSizeClasses_def)
  then show "length (getDataBufferChunk junk sz) \<in> set dataChunkSizeClasses" "getDataBufferChunk junk sz \<noteq> []"
    using class_pos [of "chunk_class sz dataChunkSizeClasses"] by (auto simp: getDataBufferChunk_def)
qed

lemma contents_from_snoc:
  "contents_from r w (cs @ [c]) = (if cs = [] then drop r (take w c) else drop r (hd cs) @ concat (tl cs) @ take w c)"
proof (induction cs arbitrary: r)
  case (Cons d cs)
  then show ?case by (cases cs) auto
qed simp

subsection \<open>Reading\<close>

lemma contents_Cons:
  "chunks b = c # cs \<Longrightarrow> contents b =
     bytesFromFirstChunk b @ (if cs = [] then [] else contents_from 0 (wpos b) cs)"
  by (cases cs) (simp_all add: contents_def bytesFromFirstChunk_def)

lemma length_first:
  "db_inv b \<Longrightarrow> chunks b = c # cs \<Longrightarrow>
     length (bytesFromFirstChunk b) = (if cs = [] then wpos b else length c) - rpos b \<and>
     (cs \<noteq> [] \<longrightarrow> bytesFromFirstChunk b \<noteq> [])"
  by (auto simp: db_inv_def bytesFromFirstChunk_def)

lemma read_round_spec:
  assumes "db_inv b" "0 < k" "0 < bsize b"
  shows "\<exists>out b'. read_round k b = Some (out, b') \<and> db_inv b' \<and> out \<noteq> [] \<and> length out \<le> k \<and>
    contents b = out @ contents b'"
proof -
  have ne: "contents b \<noteq> []"
    using assms(1,3) by (auto simp: db_inv_def)
  then obtain c cs where cs: "chunks b = c # cs"
    by (cases "chunks b") (auto simp: contents_def)
  let ?F = "bytesFromFirstChunk b" and ?rest = "if cs = [] then [] else contents_from 0 (wpos b) cs"
  define out where "out = take k ?F"
  have inv: "rpos b < length c" "wpos b \<le> length (last (c # cs))" "length c \<in> set dataChunkSizeClasses"
      "cs = [] \<Longrightarrow> rpos b \<le> wpos b" "cs \<noteq> [] \<Longrightarrow> 0 < wpos b"
    using assms(1) cs by (auto simp: db_inv_def)
  have cont: "contents b = ?F @ ?rest"
    by (rule contents_Cons [OF cs])
  have F: "length ?F = (if cs = [] then wpos b else length c) - rpos b" "?F \<noteq> []"
    using length_first [OF assms(1) cs] ne cont by (auto split: if_splits)
  have out: "out \<noteq> []" "length out \<le> k" "?F = out @ drop (length out) ?F"
    using F(2) assms(2) by (auto simp: out_def min_def)
  have ok: "first_chunk_ok b"
    using cs inv by (auto simp: first_chunk_ok_def)
  let ?b1 = "b\<lparr>rpos := rpos b + length out, bsize := bsize b - int (length out)\<rparr>"
  have size: "bsize b = int (length (?F @ ?rest))"
    using assms(1) cont by (simp add: db_inv_def)
  have le: "length out \<le> length ?F"
    by (simp add: out_def)
  show ?thesis
  proof (cases "rpos b + length out = length c")
    case True
    let ?b2 = "?b1\<lparr>chunks := cs, rpos := 0\<rparr>"
    have whole: "length out = length ?F"
      using True le F(1) inv by (auto split: if_splits)
    then have "?F = out"
      using out(3) by simp
    then have "contents b = out @ contents ?b2"
      using cont by (cases cs) (simp_all add: contents_def)
    moreover have "db_inv ?b2"
      using assms(1) cs size whole inv class_pos unfolding db_inv_def
      by (cases cs) (auto simp: contents_def)
    moreover have "read_round k b = Some (out, ?b2)"
      using ok cs True inv(3) by (simp add: read_round_def Let_def out_def [symmetric] putDataBufferChunk_def)
    ultimately show ?thesis
      using out by blast
  next
    case False
    have first: "bytesFromFirstChunk ?b1 = drop (length out) ?F"
      using cs by (simp add: bytesFromFirstChunk_def add.commute)
    have c1: "contents ?b1 = drop (length out) ?F @ ?rest"
      using contents_Cons [of ?b1 c cs] cs first by simp
    then have "contents b = out @ contents ?b1"
      using cont out(3) by simp
    moreover have "rpos b + length out < length c" "cs = [] \<Longrightarrow> rpos b + length out \<le> wpos b"
      using False le F(1) inv by (auto split: if_splits)
    then have "db_inv ?b1"
      using assms(1) cs size le c1 unfolding db_inv_def by auto
    moreover have "read_round k b = Some (out, ?b1)"
      using ok cs False by (simp add: read_round_def Let_def out_def [symmetric])
    ultimately show ?thesis
      using out by blast
  qed
qed

lemma read_loop_spec:
  assumes "db_inv b"
  shows "\<exists>b'. read_loop k acc b = Some (acc @ take k (contents b), b') \<and> db_inv b' \<and>
    contents b' = drop k (contents b)"
  using assms
proof (induction "length (contents b)" arbitrary: k acc b rule: less_induct)
  case less
  have size: "bsize b = int (length (contents b))"
    using less.prems by (simp add: db_inv_def)
  show ?case
  proof (cases "k > 0 \<and> bsize b > 0")
    case False
    then have "read_loop k acc b = Some (acc, b)" "k = 0 \<or> contents b = []"
      using size by (auto simp: read_loop.simps [of k acc b])
    with less.prems show ?thesis by auto
  next
    case True
    then obtain out b1 where one: "read_round k b = Some (out, b1)" "db_inv b1" "out \<noteq> []" "length out \<le> k"
        "contents b = out @ contents b1"
      using read_round_spec [OF less.prems] by blast
    have "length (contents b1) < length (contents b)"
      using one(3,5) by simp
    from less.hyps [OF this one(2), of "k - length out" "acc @ out"] True one show ?thesis
      by (simp add: read_loop.simps [of k acc b])
  qed
qed

subsection \<open>Writing\<close>

text \<open>A buffer with room in its last chunk.\<close>

definition has_room :: "dataBuffer \<Rightarrow> bool" where
  "has_room b \<longleftrightarrow>
     chunks b \<noteq> [] \<and> wpos b < length (last (chunks b)) \<and> bsize b = int (length (contents b)) \<and>
     (\<forall>c \<in> set (chunks b). length c \<in> set dataChunkSizeClasses) \<and> rpos b < length (hd (chunks b)) \<and>
     (length (chunks b) = 1 \<longrightarrow> rpos b \<le> wpos b)"

lemma lastChunkOrAlloc_spec:
  assumes "db_inv b"
  shows "has_room (lastChunkOrAlloc junk want b)" "contents (lastChunkOrAlloc junk want b) = contents b"
proof -
  let ?n = "getDataBufferChunk junk want"
  let ?b = "b\<lparr>chunks := chunks b @ [?n], wpos := 0\<rparr>"
  have "has_room (lastChunkOrAlloc junk want b) \<and> contents (lastChunkOrAlloc junk want b) = contents b"
  proof (cases "chunks b \<noteq> [] \<and> wpos b < length (last (chunks b))")
    case True
    with assms show ?thesis by (simp add: lastChunkOrAlloc_def has_room_def db_inv_def)
  next
    case False
    then have b: "lastChunkOrAlloc junk want b = ?b"
      by (auto simp: lastChunkOrAlloc_def)
    have cont: "contents ?b = contents b"
    proof (cases "chunks b" rule: rev_cases)
      case Nil
      then show ?thesis by (simp add: contents_def)
    next
      case (snoc cs c)
      then have "wpos b = length c"
        using False assms by (auto simp: db_inv_def)
      moreover have "chunks ?b = (cs @ [c]) @ [?n]"
        using snoc by simp
      ultimately show ?thesis
        using snoc contents_from_snoc [of "rpos b" 0 "cs @ [c]" ?n] contents_from_snoc [of "rpos b" "wpos b" cs c]
        by (cases cs) (simp_all add: contents_def)
    qed
    have "has_room ?b"
      using assms cont length_getDataBufferChunk [of junk want] unfolding has_room_def db_inv_def
      by (cases "chunks b") (auto simp: Suc_le_eq)
    with cont b show ?thesis by simp
  qed
  then show "has_room (lastChunkOrAlloc junk want b)" "contents (lastChunkOrAlloc junk want b) = contents b"
    by auto
qed

lemma fill_last_chunk:
  assumes "has_room b" "n \<le> length (last (chunks b)) - wpos b" "n \<le> length p" "0 < n"
  defines "c \<equiv> last (chunks b)"
  shows "db_inv (b\<lparr>chunks := butlast (chunks b) @ [take (wpos b) c @ take n p @ drop (wpos b + n) c],
      wpos := wpos b + n, bsize := bsize b + int n, expected := e\<rparr>)" (is "db_inv ?b")
    and "contents (b\<lparr>chunks := butlast (chunks b) @ [take (wpos b) c @ take n p @ drop (wpos b + n) c],
      wpos := wpos b + n, bsize := bsize b + int n, expected := e\<rparr>) = contents b @ take n p"
proof -
  let ?cs = "butlast (chunks b)" and ?c = "take (wpos b) c @ take n p @ drop (wpos b + n) c"
  have single: "?cs = [] \<Longrightarrow> length (chunks b) = 1"
    using assms(1) by (cases "chunks b") (auto simp: has_room_def split: if_splits)
  have room: "chunks b = ?cs @ [c]" "wpos b < length c" "bsize b = int (length (contents b))"
      "\<forall>c \<in> set (chunks b). length c \<in> set dataChunkSizeClasses" "rpos b < length (hd (chunks b))"
      "?cs = [] \<Longrightarrow> rpos b \<le> wpos b"
    using assms(1) single by (auto simp: has_room_def c_def)
  have len: "length ?c = length c" "take (wpos b + n) ?c = take (wpos b) c @ take n p"
    using assms(2,3) room(2) by (auto simp: c_def)
  have "contents_from (rpos b) (wpos b + n) (?cs @ [?c]) = contents_from (rpos b) (wpos b) (?cs @ [c]) @ take n p"
    using room(2,6) unfolding contents_from_snoc len(2) by simp
  then show cont: "contents ?b = contents b @ take n p"
    using room(1) by (simp add: contents_def)
  have "length c \<in> set dataChunkSizeClasses" "\<forall>d \<in> set ?cs. length d \<in> set dataChunkSizeClasses"
    using room(4) unfolding room(1) [symmetric] by (auto simp: c_def dest: in_set_butlastD)
      (metis assms(1) has_room_def last_in_set)
  moreover have "rpos b < length (hd (?cs @ [?c]))"
    using room(1,5) len(1) by (cases ?cs) (metis append_Nil list.sel(1), metis append_Cons list.sel(1))
  moreover have "wpos b + n \<le> length c"
    using assms(2) room(2) by (simp add: c_def)
  moreover have "length (chunks b) \<le> Suc 0 \<Longrightarrow> ?cs = []"
    by (simp flip: length_0_conv)
  ultimately show "db_inv ?b"
    using room(3,6) cont len(1) assms(3,4) unfolding db_inv_def by (auto simp: length_greater_0_conv)
qed

lemma write_round_spec:
  assumes "db_inv b" "p \<noteq> []"
  shows "\<exists>n b'. write_round junk p b = (n, b') \<and> 0 < n \<and> db_inv b' \<and> contents b' = contents b @ take n p"
proof -
  define want where "want = (if expected b > int (length p) then expected b else int (length p))"
  define b1 where "b1 = lastChunkOrAlloc junk want b"
  define n where "n = min (length (last (chunks b1)) - wpos b1) (length p)"
  note room = lastChunkOrAlloc_spec [OF assms(1), of junk want, folded b1_def]
  have n: "n \<le> length (last (chunks b1)) - wpos b1" "n \<le> length p" "0 < n"
    using room(1) assms(2) by (auto simp: n_def has_room_def)
  from fill_last_chunk [OF room(1) n, of "expected b1 - int n"] room(2) n(3) show ?thesis
    unfolding write_round_def want_def [symmetric] b1_def [symmetric] n_def [symmetric] Let_def by simp
qed

lemma dataBuffer_Write_spec:
  assumes "db_inv b"
  shows "\<exists>b'. dataBuffer_Write junk p b = Some b' \<and> db_inv b' \<and> contents b' = contents b @ p"
  using assms
proof (induction "length p" arbitrary: p b rule: less_induct)
  case less
  show ?case
  proof (cases "p = []")
    case True
    with less.prems show ?thesis by (simp add: dataBuffer_Write.simps [of junk "[]" b])
  next
    case False
    then obtain n b1 where one: "write_round junk p b = (n, b1)" "0 < n" "db_inv b1" "contents b1 = contents b @ take n p"
      using write_round_spec [OF less.prems] by blast
    have "length (drop n p) < length p"
      using False one(2) by simp
    from less.hyps [OF this one(3)] False one show ?thesis
      by (simp add: dataBuffer_Write.simps [of junk p b])
  qed
qed

section \<open>The interface of a pipe's buffer\<close>

text \<open>
  The interface \<^verbatim>\<open>pipeBuffer\<close> of \<^verbatim>\<open>pipe.go\<close> with what its users rely on: a queue of
  bytes.  A write always succeeds; a read of a buffer that is not empty returns as many
  bytes as fit.
\<close>

locale pipe_buffer =
  fixes inv :: "'b \<Rightarrow> bool" and content :: "'b \<Rightarrow> bytes" and blen :: "'b \<Rightarrow> int"
    and bread :: "nat \<Rightarrow> 'b \<Rightarrow> (buffer_error + bytes \<times> 'b) option" and bwrite :: "bytes \<Rightarrow> 'b \<Rightarrow> 'b option"
  assumes len_law: "inv b \<Longrightarrow> blen b = int (length (content b))"
    and write_law: "inv b \<Longrightarrow> \<exists>b'. bwrite p b = Some b' \<and> inv b' \<and> content b' = content b @ p"
    and read_law: "inv b \<Longrightarrow> content b \<noteq> [] \<Longrightarrow>
      \<exists>b'. bread k b = Some (Inr (take k (content b), b')) \<and> inv b' \<and> content b' = drop k (content b)"
    and read_empty_law: "inv b \<Longrightarrow> content b = [] \<Longrightarrow> bread k b = Some (Inl errReadEmpty)"

interpretation db: pipe_buffer db_inv contents dataBuffer_Len dataBuffer_Read "dataBuffer_Write junk" for junk
proof unfold_locales
  fix b p k
  assume inv: "db_inv b"
  show "dataBuffer_Len b = int (length (contents b))"
    using inv by (simp add: dataBuffer_Len_def db_inv_def)
  show "\<exists>b'. dataBuffer_Write junk p b = Some b' \<and> db_inv b' \<and> contents b' = contents b @ p"
    by (rule dataBuffer_Write_spec [OF inv])
  show "dataBuffer_Read k b = Some (Inl errReadEmpty)" if "contents b = []"
    using inv that by (simp add: dataBuffer_Read_def db_inv_def)
  show "\<exists>b'. dataBuffer_Read k b = Some (Inr (take k (contents b), b')) \<and> db_inv b' \<and> contents b' = drop k (contents b)"
    if "contents b \<noteq> []"
  proof -
    have "bsize b \<noteq> 0"
      using inv that by (simp add: db_inv_def)
    with read_loop_spec [OF inv, of k "[]"] show ?thesis
      by (auto simp: dataBuffer_Read_def)
  qed
qed

section \<open>Any sequence of operations\<close>

datatype buf_op = WriteOp bytes | ReadOp nat

fun buf_run :: "(nat \<Rightarrow> u8) \<Rightarrow> buf_op list \<Rightarrow> dataBuffer \<Rightarrow> (bytes list \<times> dataBuffer) option" where
  "buf_run junk [] b = Some ([], b)"
| "buf_run junk (WriteOp p # ops) b =
     (case dataBuffer_Write junk p b of None \<Rightarrow> None | Some b' \<Rightarrow> buf_run junk ops b')"
| "buf_run junk (ReadOp k # ops) b =
     (case dataBuffer_Read k b of
        None \<Rightarrow> None
      | Some (Inl e) \<Rightarrow> map_option (apfst (\<lambda>outs. [] # outs)) (buf_run junk ops b)
      | Some (Inr (out, b')) \<Rightarrow> map_option (apfst (\<lambda>outs. out # outs)) (buf_run junk ops b'))"

text \<open>The same sequence on a plain queue of bytes.\<close>

fun queue_run :: "buf_op list \<Rightarrow> bytes \<Rightarrow> bytes list \<times> bytes" where
  "queue_run [] q = ([], q)"
| "queue_run (WriteOp p # ops) q = queue_run ops (q @ p)"
| "queue_run (ReadOp k # ops) q = apfst (\<lambda>outs. take k q # outs) (queue_run ops (drop k q))"

definition new_buffer :: "int \<Rightarrow> dataBuffer" where
  "new_buffer e = \<lparr>chunks = [], rpos = 0, wpos = 0, bsize = 0, expected = e\<rparr>"

lemma db_inv_new: "db_inv (new_buffer e)" "contents (new_buffer e) = []"
  by (simp_all add: db_inv_def new_buffer_def contents_def)

lemma buf_run_queue:
  "db_inv b \<Longrightarrow> \<exists>b'. buf_run junk ops b = Some (fst (queue_run ops (contents b)), b') \<and> db_inv b' \<and>
     contents b' = snd (queue_run ops (contents b))"
proof (induction ops arbitrary: b)
  case (Cons op ops)
  show ?case
  proof (cases op)
    case (WriteOp p)
    obtain b' where "dataBuffer_Write junk p b = Some b'" "db_inv b'" "contents b' = contents b @ p"
      using db.write_law [OF Cons.prems] by blast
    with Cons.IH [of b'] WriteOp show ?thesis by simp
  next
    case (ReadOp k)
    show ?thesis
    proof (cases "contents b = []")
      case True
      with Cons.IH [OF Cons.prems] db.read_empty_law [OF Cons.prems] ReadOp show ?thesis by fastforce
    next
      case False
      obtain b' where "dataBuffer_Read k b = Some (Inr (take k (contents b), b'))" "db_inv b'"
          "contents b' = drop k (contents b)"
        using db.read_law [OF Cons.prems False] by blast
      with Cons.IH [of b'] ReadOp show ?thesis by fastforce
    qed
  qed
qed simp

text \<open>
  C12.  The chunked buffer is a queue of bytes.  For every sequence of writes and reads, of
  any sizes, whatever the recycled chunks contained and whatever size was announced, no
  operation panics or fails to return, the bytes read are those a plain queue gives, in
  the same pieces, and the length reported is the number of bytes still held.
\<close>

theorem dataBuffer_refines_queue:
  "\<exists>b'. buf_run junk ops (new_buffer e) = Some (fst (queue_run ops []), b') \<and>
    dataBuffer_Len b' = int (length (snd (queue_run ops [])))"
  using buf_run_queue [OF db_inv_new(1), of junk ops e] db.len_law by (auto simp: db_inv_new(2))

end
