(* ===== verification/HTTP2_Pipe.thy ===== *)
theory HTTP2_Pipe
  imports HTTP2_DataBuffer
begin

text \<open>
  Package \<^verbatim>\<open>http2\<close>, file \<^verbatim>\<open>pipe.go\<close>: the pipe between the goroutine that receives the DATA of
  a stream and the one that reads its body.  Every method runs with the mutex held, so the
  methods are atomic steps; a \<^verbatim>\<open>Read\<close> that has nothing to return waits, which is the
  outcome \<open>ReadWaits\<close>, and is tried again after it is woken.  The buffer is an interface: the
  methods take its operations as arguments.  Functions to run before a read error are
  recorded in the list \<open>ran\<close>.  The done channel is \<open>None\<close> before it is made, and then says
  whether it is closed.  \<open>None\<close> as a result stands for a panic.
\<close>

section \<open>The pipe\<close>

record ('b, 'e, 'f) pipe =
  pbuf :: "'b option"
  perr :: "'e option"
  breakErr :: "'e option"
  donec :: "bool option"
  readFn :: "'f option"
  ran :: "'f list"

datatype 'e read_outcome = ReadWaits | ReadBytes bytes | ReadFails 'e | BufferFails buffer_error

datatype write_outcome = WroteToBuffer nat | Discarded nat | ErrClosedPipeWrite

definition pipe_Len :: "('b \<Rightarrow> int) \<Rightarrow> ('b, 'e, 'f) pipe \<Rightarrow> int" where
  "pipe_Len blen p = (case pbuf p of None \<Rightarrow> 0 | Some b \<Rightarrow> blen b)"

text \<open>The end of the loop body of \<^verbatim>\<open>Read\<close>: no data to return.\<close>

definition read_at_end :: "('b, 'e, 'f) pipe \<Rightarrow> ('b, 'e, 'f) pipe \<times> 'e read_outcome" where
  "read_at_end p =
     (case perr p of
        None \<Rightarrow> (p, ReadWaits)
      | Some e \<Rightarrow>
          let p1 = (case readFn p of None \<Rightarrow> p | Some f \<Rightarrow> p\<lparr>ran := ran p @ [f], readFn := None\<rparr>) in
          (p1\<lparr>pbuf := None\<rparr>, ReadFails e))"

definition pipe_Read :: "('b \<Rightarrow> int) \<Rightarrow> (nat \<Rightarrow> 'b \<Rightarrow> (buffer_error + bytes \<times> 'b) option) \<Rightarrow> nat \<Rightarrow>
    ('b, 'e, 'f) pipe \<Rightarrow> (('b, 'e, 'f) pipe \<times> 'e read_outcome) option" where
  "pipe_Read blen bread k p =
     (case breakErr p of
        Some e \<Rightarrow> Some (p, ReadFails e)
      | None \<Rightarrow>
          (case pbuf p of
             Some b \<Rightarrow>
               if blen b > 0 then
                 (case bread k b of
                    None \<Rightarrow> None
                  | Some (Inl e) \<Rightarrow> Some (p, BufferFails e)
                  | Some (Inr (out, b')) \<Rightarrow> Some (p\<lparr>pbuf := Some b'\<rparr>, ReadBytes out))
               else Some (read_at_end p)
           | None \<Rightarrow> Some (read_at_end p)))"

definition pipe_Write :: "(bytes \<Rightarrow> 'b \<Rightarrow> 'b option) \<Rightarrow> bytes \<Rightarrow> ('b, 'e, 'f) pipe \<Rightarrow>
    (('b, 'e, 'f) pipe \<times> write_outcome) option" where
  "pipe_Write bwrite d p =
     (if perr p \<noteq> None then Some (p, ErrClosedPipeWrite)
      else if breakErr p \<noteq> None then Some (p, Discarded (length d))
      else case pbuf p of
        None \<Rightarrow> None
      | Some b \<Rightarrow> map_option (\<lambda>b'. (p\<lparr>pbuf := Some b'\<rparr>, WroteToBuffer (length d))) (bwrite d b))"

definition closeDoneLocked :: "('b, 'e, 'f) pipe \<Rightarrow> ('b, 'e, 'f) pipe" where
  "closeDoneLocked p = (case donec p of None \<Rightarrow> p | Some _ \<Rightarrow> p\<lparr>donec := Some True\<rparr>)"

text \<open>The destination of the error is one of two fields of the pipe.\<close>

datatype err_dst = DstErr | DstBreak

definition closeWithError :: "err_dst \<Rightarrow> 'e option \<Rightarrow> 'f option \<Rightarrow> ('b, 'e, 'f) pipe \<Rightarrow>
    ('b, 'e, 'f) pipe option" where
  "closeWithError dst err fn p =
     (if err = None then None
      else if (case dst of DstErr \<Rightarrow> perr p | DstBreak \<Rightarrow> breakErr p) \<noteq> None then Some p
      else
        let p1 = p\<lparr>readFn := fn\<rparr>;
            p2 = (case dst of DstErr \<Rightarrow> p1\<lparr>perr := err\<rparr> | DstBreak \<Rightarrow> p1\<lparr>pbuf := None, breakErr := err\<rparr>) in
        Some (closeDoneLocked p2))"

definition CloseWithError :: "'e option \<Rightarrow> ('b, 'e, 'f) pipe \<Rightarrow> ('b, 'e, 'f) pipe option" where
  "CloseWithError err p = closeWithError DstErr err None p"

definition BreakWithError :: "'e option \<Rightarrow> ('b, 'e, 'f) pipe \<Rightarrow> ('b, 'e, 'f) pipe option" where
  "BreakWithError err p = closeWithError DstBreak err None p"

definition closeWithErrorAndCode :: "'e option \<Rightarrow> 'f option \<Rightarrow> ('b, 'e, 'f) pipe \<Rightarrow> ('b, 'e, 'f) pipe option" where
  "closeWithErrorAndCode err fn p = closeWithError DstErr err fn p"

definition pipe_Err :: "('b, 'e, 'f) pipe \<Rightarrow> 'e option" where
  "pipe_Err p = (if breakErr p \<noteq> None then breakErr p else perr p)"

definition pipe_Done :: "('b, 'e, 'f) pipe \<Rightarrow> ('b, 'e, 'f) pipe" where
  "pipe_Done p =
     (if donec p = None then
        let p1 = p\<lparr>donec := Some False\<rparr> in
        if perr p1 \<noteq> None \<or> breakErr p1 \<noteq> None then closeDoneLocked p1 else p1
      else p)"

section \<open>Interleavings\<close>

text \<open>
  Writer, reader and closers take turns in any order.  The state carries the bytes accepted
  by the buffer and the bytes delivered to the reader so far.
\<close>

type_synonym ('b, 'e, 'f) pipe_state = "('b, 'e, 'f) pipe \<times> bytes \<times> bytes"

definition after_write :: "bytes \<Rightarrow> write_outcome \<Rightarrow> bytes \<Rightarrow> bytes" where
  "after_write d w acc = (case w of WroteToBuffer _ \<Rightarrow> acc @ d | _ \<Rightarrow> acc)"

definition after_read :: "'e read_outcome \<Rightarrow> bytes \<Rightarrow> bytes" where
  "after_read r del = (case r of ReadBytes out \<Rightarrow> del @ out | _ \<Rightarrow> del)"

inductive pipe_step :: "('b \<Rightarrow> int) \<Rightarrow> (nat \<Rightarrow> 'b \<Rightarrow> (buffer_error + bytes \<times> 'b) option) \<Rightarrow>
    (bytes \<Rightarrow> 'b \<Rightarrow> 'b option) \<Rightarrow> ('b, 'e, 'f) pipe_state \<Rightarrow> ('b, 'e, 'f) pipe_state \<Rightarrow> bool"
  for blen bread bwrite where
  step_write: "pipe_Write bwrite d p = Some (p', w) \<Longrightarrow>
     pipe_step blen bread bwrite (p, acc, del) (p', after_write d w acc, del)"
| step_read: "pipe_Read blen bread k p = Some (p', r) \<Longrightarrow>
     pipe_step blen bread bwrite (p, acc, del) (p', acc, after_read r del)"
| step_close: "closeWithError dst err fn p = Some p' \<Longrightarrow>
     pipe_step blen bread bwrite (p, acc, del) (p', acc, del)"
| step_done: "pipe_step blen bread bwrite (p, acc, del) (pipe_Done p, acc, del)"

inductive_cases pipe_stepE: "pipe_step blen bread bwrite s t"

definition pipe_start :: "('b \<Rightarrow> bool) \<Rightarrow> ('b \<Rightarrow> bytes) \<Rightarrow> ('b, 'e, 'f) pipe_state \<Rightarrow> bool" where
  "pipe_start ok content s \<longleftrightarrow>
     (case s of (p, acc, del) \<Rightarrow>
        (\<exists>b. pbuf p = Some b \<and> ok b \<and> content b = []) \<and> perr p = None \<and> breakErr p = None \<and>
        donec p = None \<and> acc = [] \<and> del = [])"

definition closed :: "('b, 'e, 'f) pipe \<Rightarrow> bool" where
  "closed p \<longleftrightarrow> perr p \<noteq> None \<or> breakErr p \<noteq> None"

definition pipe_inv :: "('b \<Rightarrow> bool) \<Rightarrow> ('b \<Rightarrow> bytes) \<Rightarrow> ('b, 'e, 'f) pipe_state \<Rightarrow> bool" where
  "pipe_inv ok content s \<longleftrightarrow>
     (case s of (p, acc, del) \<Rightarrow>
        prefix del acc \<and>
        (\<forall>b. pbuf p = Some b \<longrightarrow> ok b \<and> acc = del @ content b) \<and>
        (pbuf p = None \<longrightarrow> closed p) \<and> (pbuf p = None \<and> breakErr p = None \<longrightarrow> acc = del) \<and>
        (breakErr p \<noteq> None \<longrightarrow> pbuf p = None) \<and>
        (\<forall>c. donec p = Some c \<longrightarrow> c = closed p))"

lemma closeDoneLocked_simps [simp]:
  "pbuf (closeDoneLocked p) = pbuf p" "perr (closeDoneLocked p) = perr p"
  "breakErr (closeDoneLocked p) = breakErr p" "closed (closeDoneLocked p) = closed p"
  "donec (closeDoneLocked p) = (if donec p = None then None else Some True)"
  by (auto simp: closeDoneLocked_def closed_def split: option.split)

lemma read_at_end_simps:
  "read_at_end p = (p', r) \<Longrightarrow>
     (perr p = None \<and> p' = p \<and> r = ReadWaits) \<or>
     (\<exists>e. perr p = Some e \<and> r = ReadFails e \<and> pbuf p' = None \<and> perr p' = perr p \<and> breakErr p' = breakErr p \<and>
        donec p' = donec p)"
  by (auto simp: read_at_end_def Let_def split: option.splits)

context pipe_buffer
begin

lemma pipe_Read_cases:
  assumes "pipe_inv inv content (p, acc, del)"
  obtains (broken) e where "breakErr p = Some e" "pipe_Read blen bread k p = Some (p, ReadFails e)"
  | (data) b b' where "breakErr p = None" "pbuf p = Some b" "content b \<noteq> []" "inv b'" "content b' = drop k (content b)"
      "pipe_Read blen bread k p = Some (p\<lparr>pbuf := Some b'\<rparr>, ReadBytes (take k (content b)))"
  | (at_end) p' r where "breakErr p = None" "acc = del" "read_at_end p = (p', r)" "pipe_Read blen bread k p = Some (p', r)"
proof (cases "breakErr p")
  case (Some e)
  then show ?thesis using broken by (simp add: pipe_Read_def)
next
  case None
  show ?thesis
  proof (cases "pbuf p")
    case N: None
    then have "acc = del"
      using assms None by (simp add: pipe_inv_def)
    then show ?thesis
      using None N at_end by (cases "read_at_end p") (simp add: pipe_Read_def)
  next
    case (Some b)
    then have b: "inv b" "acc = del @ content b"
      using assms by (auto simp: pipe_inv_def)
    show ?thesis
    proof (cases "content b = []")
      case True
      then have "acc = del" "\<not> blen b > 0"
        using b len_law [OF b(1)] by auto
      then show ?thesis
        using None Some at_end by (cases "read_at_end p") (simp add: pipe_Read_def)
    next
      case False
      then obtain b' where b': "bread k b = Some (Inr (take k (content b), b'))" "inv b'" "content b' = drop k (content b)"
        using read_law [OF b(1) False] by blast
      moreover have "blen b > 0"
        using False len_law [OF b(1)] by simp
      ultimately show ?thesis
        using None Some False data by (simp add: pipe_Read_def)
    qed
  qed
qed

lemma pipe_Write_cases:
  assumes "pipe_inv inv content (p, acc, del)"
  obtains (err) "perr p \<noteq> None" "pipe_Write bwrite d p = Some (p, ErrClosedPipeWrite)"
  | (broken) "perr p = None" "breakErr p \<noteq> None" "pipe_Write bwrite d p = Some (p, Discarded (length d))"
  | (data) b b' where "perr p = None" "breakErr p = None" "pbuf p = Some b" "inv b'" "content b' = content b @ d"
      "pipe_Write bwrite d p = Some (p\<lparr>pbuf := Some b'\<rparr>, WroteToBuffer (length d))"
proof (cases "closed p")
  case True
  then show ?thesis using err broken by (auto simp: pipe_Write_def closed_def)
next
  case False
  then obtain b where b: "pbuf p = Some b" "inv b"
    using assms by (auto simp: pipe_inv_def)
  obtain b' where "bwrite d b = Some b'" "inv b'" "content b' = content b @ d"
    using write_law [OF b(2)] by blast
  with b False data show ?thesis by (auto simp: pipe_Write_def closed_def)
qed

lemma pipe_inv_step:
  assumes "pipe_inv inv content s" "pipe_step blen bread bwrite s t"
  shows "pipe_inv inv content t"
  using assms(2)
proof (cases rule: pipe_step.cases)
  case (step_write d p p' w acc del)
  have inv: "pipe_inv inv content (p, acc, del)"
    using assms(1) step_write(1) by simp
  show ?thesis
    using inv
    by (cases rule: pipe_Write_cases [OF inv, of d])
      (use step_write in \<open>auto simp: pipe_inv_def after_write_def closed_def prefix_def\<close>)
next
  case (step_read k p p' r acc del)
  have inv: "pipe_inv inv content (p, acc, del)"
    using assms(1) step_read(1) by simp
  from inv show ?thesis
  proof (cases rule: pipe_Read_cases [where k = k])
    case (broken e)
    with inv step_read show ?thesis by (auto simp: after_read_def)
  next
    case (data b b')
    then have "acc = del @ content b"
      using inv by (auto simp: pipe_inv_def)
    with data inv step_read show ?thesis
      by (auto simp: pipe_inv_def after_read_def closed_def take_is_prefix)
  next
    case (at_end q r')
    with inv step_read read_at_end_simps [OF at_end(3)] show ?thesis
      by (auto simp: pipe_inv_def after_read_def closed_def) metis+
  qed
next
  case (step_close dst err fn p p' acc del)
  then show ?thesis
    using assms(1)
    by (cases dst) (auto simp: closeWithError_def Let_def pipe_inv_def closed_def split: if_splits)
next
  case (step_done p acc del)
  then show ?thesis
    using assms(1) by (auto simp: pipe_Done_def Let_def pipe_inv_def closed_def)
qed

lemma pipe_inv_start: "pipe_start inv content s \<Longrightarrow> pipe_inv inv content s"
  by (auto simp: pipe_start_def pipe_inv_def closed_def)

text \<open>What the invariant gives: the methods return, a read waits only on an open pipe with nothing
  to deliver, and an error of a pipe that was not broken comes after all the data.\<close>

lemma pipe_inv_read:
  assumes "pipe_inv inv content (p, acc, del)"
  shows "\<exists>p' r. pipe_Read blen bread k p = Some (p', r) \<and>
    (r = ReadWaits \<longrightarrow> \<not> closed p \<and> del = acc) \<and>
    (\<forall>e. r = ReadFails e \<longrightarrow> breakErr p = Some e \<or> breakErr p = None \<and> perr p = Some e \<and> del = acc) \<and>
    (\<forall>out. r = ReadBytes out \<longrightarrow> prefix (del @ out) acc) \<and> (\<forall>e. r \<noteq> BufferFails e)"
  using assms
proof (cases rule: pipe_Read_cases [where k = k])
  case (data b b')
  then have "acc = del @ content b"
    using assms by (auto simp: pipe_inv_def)
  with data show ?thesis by (auto simp: take_is_prefix)
next
  case (at_end p' r)
  with read_at_end_simps [OF at_end(3)] show ?thesis by (auto simp: closed_def)
qed auto

lemma pipe_inv_write:
  assumes "pipe_inv inv content (p, acc, del)"
  shows "\<exists>p' w. pipe_Write bwrite d p = Some (p', w)"
  using assms by (cases rule: pipe_Write_cases [where d = d]) auto

end

interpretation pipe_ts: inductive_invariant "pipe_start db_inv contents"
  "pipe_step dataBuffer_Len dataBuffer_Read (dataBuffer_Write junk)" "pipe_inv db_inv contents" for junk
  by unfold_locales (use db.pipe_inv_start db.pipe_inv_step in blast)+

text \<open>
  C8.  The pipe delivers a stream's data in order and loses none.  In every state that any
  interleaving of writes, reads, closes and breaks leads to: what has been delivered is an
  initial part of what was accepted; \<^verbatim>\<open>Read\<close> and \<^verbatim>\<open>Write\<close> return without a panic; a read
  waits only if the pipe is open and everything accepted has been delivered; unless the
  pipe was broken, a read fails only after everything accepted has been delivered, and
  with the error the pipe was closed with; the done channel is closed exactly when the
  pipe is.
\<close>

theorem pipe_delivers_in_order:
  assumes "reachable (pipe_start db_inv contents) (pipe_step dataBuffer_Len dataBuffer_Read (dataBuffer_Write junk))
    (p, acc, del)"
  shows "prefix del acc \<and> (\<exists>p' w. pipe_Write (dataBuffer_Write junk) d p = Some (p', w)) \<and>
    (\<forall>c. donec p = Some c \<longrightarrow> c = (perr p \<noteq> None \<or> breakErr p \<noteq> None)) \<and>
    (\<exists>p' r. pipe_Read dataBuffer_Len dataBuffer_Read k p = Some (p', r) \<and>
      (r = ReadWaits \<longrightarrow> perr p = None \<and> breakErr p = None \<and> del = acc) \<and>
      (\<forall>e. r = ReadFails e \<longrightarrow> breakErr p = Some e \<or> breakErr p = None \<and> perr p = Some e \<and> del = acc) \<and>
      (\<forall>out. r = ReadBytes out \<longrightarrow> prefix (del @ out) acc))"
proof -
  have inv: "pipe_inv db_inv contents (p, acc, del)"
    by (rule pipe_ts.reachable_inv [OF assms])
  then show ?thesis
    using db.pipe_inv_read [OF inv, of k] db.pipe_inv_write [OF inv, of junk d]
    by (fastforce simp: pipe_inv_def closed_def)
qed

definition new_pipe :: "(dataBuffer, string, nat) pipe" where
  "new_pipe = \<lparr>pbuf = Some (new_buffer 0), perr = None, breakErr = None, donec = None, readFn = None, ran = []\<rparr>"

theorem pipe_delivers_in_order_witness:
  "\<exists>p' r. pipe_Read dataBuffer_Len dataBuffer_Read 5 new_pipe = Some (p', r) \<and> (\<forall>e. r \<noteq> ReadFails e)"
proof -
  have "reachable (pipe_start db_inv contents) (pipe_step dataBuffer_Len dataBuffer_Read (dataBuffer_Write (\<lambda>_. 0)))
      (new_pipe, [], [])"
    by (rule reachable_init) (simp add: pipe_start_def new_pipe_def db_inv_new)
  from pipe_delivers_in_order [OF this, of "[]" 5] show ?thesis
    by (auto simp: new_pipe_def)
qed

end
