(* ===== verification/HTTP2_Flow.thy ===== *)
theory HTTP2_Flow
  imports GoPrelude
begin

text \<open>
  Package \<^verbatim>\<open>http2\<close>, file \<^verbatim>\<open>flow.go\<close>: flow-control windows.  A stream's window points to the
  window of its connection, which all streams share, so windows live in a store; a pointer
  is an address of the store.  Windows are signed 32-bit integers.  \<open>None\<close> stands for a panic.
\<close>

type_synonym i32 = "32 word"

record flow =
  window :: i32
  conn :: "nat option"

type_synonym flow_store = "nat \<Rightarrow> flow"

definition setConnFlow :: "flow_store \<Rightarrow> nat \<Rightarrow> nat \<Rightarrow> flow_store" where
  "setConnFlow h f cf = h(f := (h f)\<lparr>conn := Some cf\<rparr>)"

definition available :: "flow_store \<Rightarrow> nat \<Rightarrow> i32" where
  "available h f =
     (let n = window (h f) in
      case conn (h f) of
        None \<Rightarrow> n
      | Some c \<Rightarrow> if sint (window (h c)) < sint n then window (h c) else n)"

definition sub_window :: "flow_store \<Rightarrow> nat \<Rightarrow> i32 \<Rightarrow> flow_store" where
  "sub_window h f n = h(f := (h f)\<lparr>window := window (h f) - n\<rparr>)"

definition take_flow :: "flow_store \<Rightarrow> nat \<Rightarrow> i32 \<Rightarrow> flow_store option" where
  "take_flow h f n =
     (if sint n > sint (available h f) then None
      else
        let h1 = sub_window h f n in
        Some (case conn (h f) of None \<Rightarrow> h1 | Some c \<Rightarrow> sub_window h1 c n))"

definition add_flow :: "flow_store \<Rightarrow> nat \<Rightarrow> i32 \<Rightarrow> flow_store \<times> bool" where
  "add_flow h f n =
     (let remain = 0x7fffffff - window (h f) in
      if sint n > sint remain then (h, False)
      else (h(f := (h f)\<lparr>window := window (h f) + n\<rparr>), True))"

section \<open>Signed arithmetic\<close>

text \<open>A value in the signed range is its own signed reading.\<close>

lemma sint_range: "- (2 ^ 31) \<le> sint (w::i32)" "sint (w::i32) < 2 ^ 31"
  using sint_greater_eq [of w] sint_less [of w] by simp_all

lemma sint_of_int32:
  assumes "- (2 ^ 31) \<le> i" "i < 2 ^ 31"
  shows "sint (word_of_int i :: i32) = i"
  using assms by (simp add: signed_of_int signed_take_bit_int_eq_self)

lemma sint_sub32:
  assumes "- (2 ^ 31) \<le> sint a - sint b" "sint a - sint b < 2 ^ 31"
  shows "sint (a - b :: i32) = sint a - sint b"
proof -
  have "a - b = word_of_int (sint a - sint b)"
    by simp
  then show ?thesis
    using sint_of_int32 [OF assms] by simp
qed

lemma sint_add32:
  assumes "- (2 ^ 31) \<le> sint a + sint b" "sint a + sint b < 2 ^ 31"
  shows "sint (a + b :: i32) = sint a + sint b"
proof -
  have "a + b = word_of_int (sint a + sint b)"
    by simp
  then show ?thesis
    using sint_of_int32 [OF assms] by simp
qed

section \<open>Correctness\<close>

lemma available_le: "sint (available h f) \<le> sint (window (h f))"
  by (simp add: available_def Let_def split: option.split)

lemma available_le_conn: "conn (h f) = Some c \<Longrightarrow> sint (available h f) \<le> sint (window (h c))"
  by (simp add: available_def Let_def)

text \<open>Taking at most what is available keeps both windows from going below zero, and takes the
  same amount from both.\<close>

lemma take_flow_windows:
  assumes "conn (h f) = Some c" "c \<noteq> f" "0 \<le> sint n" "sint n \<le> sint (available h f)"
  shows "\<exists>h'. take_flow h f n = Some h' \<and>
    sint (window (h' f)) = sint (window (h f)) - sint n \<and> 0 \<le> sint (window (h' f)) \<and>
    sint (window (h' c)) = sint (window (h c)) - sint n \<and> 0 \<le> sint (window (h' c)) \<and>
    (\<forall>g. g \<noteq> f \<and> g \<noteq> c \<longrightarrow> h' g = h g)"
proof -
  have le: "sint n \<le> sint (window (h f))" "sint n \<le> sint (window (h c))"
    using assms(4) available_le [of h f] available_le_conn [of h f c, OF assms(1)] by linarith+
  have "sint (window (h f) - n) = sint (window (h f)) - sint n" "sint (window (h c) - n) = sint (window (h c)) - sint n"
    using le assms(3) sint_range(2) [of "window (h f)"] sint_range(2) [of "window (h c)"]
    by (intro sint_sub32; linarith)+
  with assms le show ?thesis
    by (auto simp: take_flow_def sub_window_def Let_def)
qed

text \<open>
  C31.  Flow control never overdraws: writing \<open>n\<close> bytes on a stream whose window and
  connection window allow it deducts exactly \<open>n\<close> from both, leaves both at zero or more and
  every other stream's window alone; a request for more than is available panics and is the
  only request that does.
\<close>

theorem take_flow_correct:
  assumes "conn (h f) = Some c" "c \<noteq> f" "0 \<le> sint n"
  shows "(case take_flow h f n of
      None \<Rightarrow> sint n > min (sint (window (h f))) (sint (window (h c)))
    | Some h' \<Rightarrow>
        sint n \<le> min (sint (window (h f))) (sint (window (h c))) \<and>
        sint (window (h' f)) = sint (window (h f)) - sint n \<and> 0 \<le> sint (window (h' f)) \<and>
        sint (window (h' c)) = sint (window (h c)) - sint n \<and> 0 \<le> sint (window (h' c)) \<and>
        (\<forall>g. g \<noteq> f \<and> g \<noteq> c \<longrightarrow> h' g = h g))"
proof (cases "sint n \<le> sint (available h f)")
  case True
  moreover have "sint (available h f) = min (sint (window (h f))) (sint (window (h c)))"
    using assms(1) by (auto simp: available_def Let_def)
  ultimately show ?thesis
    using take_flow_windows [OF assms True] by auto
next
  case False
  moreover have "sint (available h f) = min (sint (window (h f))) (sint (window (h c)))"
    using assms(1) by (auto simp: available_def Let_def)
  moreover have "take_flow h f n = None"
    using False by (simp add: take_flow_def)
  ultimately show ?thesis
    by auto
qed

text \<open>A store with a connection window of 100 bytes and a stream window of 70.\<close>

definition sample_store :: flow_store where
  "sample_store = (\<lambda>a. if a = 0 then \<lparr>window = 100, conn = None\<rparr> else \<lparr>window = 70, conn = Some 0\<rparr>)"

theorem take_flow_correct_witness:
  "\<exists>h'. take_flow sample_store 1 64 = Some h' \<and> sint (window (h' 1)) = 6 \<and> sint (window (h' 0)) = 36"
  using take_flow_correct [of sample_store 1 0 64]
  by (cases "take_flow sample_store 1 64") (auto simp: sample_store_def)

text \<open>
  \<^verbatim>\<open>add\<close> on a window that is not negative: it succeeds exactly when the sum stays
  within $2^{31}-1$, and then adds; otherwise it changes nothing.
\<close>

lemma add_flow_nonneg:
  assumes "0 \<le> sint (window (h f))"
  shows "add_flow h f n =
    (if sint (window (h f)) + sint n \<le> 2 ^ 31 - 1
     then (h(f := (h f)\<lparr>window := word_of_int (sint (window (h f)) + sint n)\<rparr>), True)
     else (h, False))"
proof -
  have "sint (0x7fffffff - window (h f)) = 0x7fffffff - sint (window (h f))"
    using sint_sub32 [of "0x7fffffff" "window (h f)"] assms sint_range(2) [of "window (h f)"] by simp
  then show ?thesis
    by (auto simp: add_flow_def Let_def)
qed

text \<open>
  \<^verbatim>\<open>add\<close> on a negative window (which a smaller initial window size from the peer
  produces) refuses every increment that is not negative: the room up to $2^{31}-1$ is
  computed in 32 bits and wraps around to a negative number.  A window update that brings the
  window back is reported as an overflow, although the sum is far below the limit.
\<close>

lemma add_flow_negative_refuses:
  assumes "sint (window (h f)) < 0" "0 \<le> sint n"
  shows "add_flow h f n = (h, False) \<and> sint (window (h f)) + sint n \<le> 2 ^ 31 - 1"
proof -
  let ?w = "window (h f)"
  have eq: "(0x7fffffff - ?w :: i32) = word_of_int (0x7fffffff - sint ?w - 2 ^ 32)"
    by (simp add: word_of_int_eq_iff take_bit_eq_mod)
  have "sint (word_of_int (0x7fffffff - sint ?w - 2 ^ 32) :: i32) = 0x7fffffff - sint ?w - 2 ^ 32"
    using assms(1) sint_range(1) [of ?w] by (intro sint_of_int32) simp_all
  then have "sint (0x7fffffff - ?w) = 0x7fffffff - sint ?w - 2 ^ 32"
    by (simp only: eq)
  then have "sint (0x7fffffff - ?w) < 0"
    using sint_range(1) [of ?w] by simp
  then show ?thesis
    using assms sint_range(2) [of n] by (simp add: add_flow_def Let_def)
qed

lemma add_flow_negative_refuses_witness:
  "add_flow (\<lambda>_. \<lparr>window = - 10, conn = None\<rparr>) 0 30 = (\<lambda>_. \<lparr>window = - 10, conn = None\<rparr>, False)"
  using add_flow_negative_refuses [of "\<lambda>_. \<lparr>window = - 10, conn = None\<rparr>" 0 30] by simp

end
