(* ===== verification/HTTP2_Protocol.thy ===== *)
theory HTTP2_Protocol
  imports GoPrelude
begin

text \<open>
  Package \<^verbatim>\<open>http2\<close>: the error codes and error values of \<^verbatim>\<open>errors.go\<close>, the settings of
  \<^verbatim>\<open>http2.go\<close> and the priority parameters of \<^verbatim>\<open>frame.go\<close>.  Error codes and setting numbers are
  words, because the peer may send numbers that have no name.
\<close>

section \<open>Error codes\<close>

type_synonym ErrCode = u32

definition ErrCodeNo :: ErrCode where [go_defs]: "ErrCodeNo = 0x0"
definition ErrCodeProtocol :: ErrCode where [go_defs]: "ErrCodeProtocol = 0x1"
definition ErrCodeInternal :: ErrCode where [go_defs]: "ErrCodeInternal = 0x2"
definition ErrCodeFlowControl :: ErrCode where [go_defs]: "ErrCodeFlowControl = 0x3"
definition ErrCodeSettingsTimeout :: ErrCode where [go_defs]: "ErrCodeSettingsTimeout = 0x4"
definition ErrCodeStreamClosed :: ErrCode where [go_defs]: "ErrCodeStreamClosed = 0x5"
definition ErrCodeFrameSize :: ErrCode where [go_defs]: "ErrCodeFrameSize = 0x6"
definition ErrCodeRefusedStream :: ErrCode where [go_defs]: "ErrCodeRefusedStream = 0x7"
definition ErrCodeCancel :: ErrCode where [go_defs]: "ErrCodeCancel = 0x8"
definition ErrCodeCompression :: ErrCode where [go_defs]: "ErrCodeCompression = 0x9"
definition ErrCodeConnect :: ErrCode where [go_defs]: "ErrCodeConnect = 0xa"
definition ErrCodeEnhanceYourCalm :: ErrCode where [go_defs]: "ErrCodeEnhanceYourCalm = 0xb"
definition ErrCodeInadequateSecurity :: ErrCode where [go_defs]: "ErrCodeInadequateSecurity = 0xc"
definition ErrCodeHTTP11Required :: ErrCode where [go_defs]: "ErrCodeHTTP11Required = 0xd"

definition errCodeName :: "ErrCode \<rightharpoonup> string" where
  "errCodeName =
     [ErrCodeNo \<mapsto> ''NO_ERROR'',
      ErrCodeProtocol \<mapsto> ''PROTOCOL_ERROR'',
      ErrCodeInternal \<mapsto> ''INTERNAL_ERROR'',
      ErrCodeFlowControl \<mapsto> ''FLOW_CONTROL_ERROR'',
      ErrCodeSettingsTimeout \<mapsto> ''SETTINGS_TIMEOUT'',
      ErrCodeStreamClosed \<mapsto> ''STREAM_CLOSED'',
      ErrCodeFrameSize \<mapsto> ''FRAME_SIZE_ERROR'',
      ErrCodeRefusedStream \<mapsto> ''REFUSED_STREAM'',
      ErrCodeCancel \<mapsto> ''CANCEL'',
      ErrCodeCompression \<mapsto> ''COMPRESSION_ERROR'',
      ErrCodeConnect \<mapsto> ''CONNECT_ERROR'',
      ErrCodeEnhanceYourCalm \<mapsto> ''ENHANCE_YOUR_CALM'',
      ErrCodeInadequateSecurity \<mapsto> ''INADEQUATE_SECURITY'',
      ErrCodeHTTP11Required \<mapsto> ''HTTP_1_1_REQUIRED'']"

definition ErrCode_String :: "ErrCode \<Rightarrow> string" where
  "ErrCode_String e =
     (case errCodeName e of Some s \<Rightarrow> s | None \<Rightarrow> ''unknown error code 0x'' @ digits_base 16 (unat e))"

section \<open>Error values\<close>

text \<open>The causes of a malformed header list.\<close>

datatype header_error =
  PseudoHeaderError bytes
| DuplicatePseudoHeaderError bytes
| HeaderFieldNameError bytes
| HeaderFieldValueError bytes
| ErrMixPseudoHeaderTypes
| ErrPseudoAfterRegular

record StreamError =
  se_StreamID :: u32
  se_Code :: ErrCode
  se_Cause :: "header_error option"

definition streamError :: "u32 \<Rightarrow> ErrCode \<Rightarrow> StreamError" where
  "streamError i code = \<lparr>se_StreamID = i, se_Code = code, se_Cause = None\<rparr>"

text \<open>
  The errors that reading and writing frames return: those of the package, those of package
  \<^verbatim>\<open>io\<close>, and \<open>UnderlyingError\<close> for an error that the underlying reader or writer made.
  \<open>Panic\<close> stands for a run-time panic.
\<close>

datatype 'e http2_error =
  ConnectionError ErrCode
| StreamErr StreamError
| ConnError ErrCode string
| ErrFrameTooLarge
| ErrStreamID
| ErrDepStreamID
| ErrPadLength
| ErrPadBytes
| ErrWindowIncrement
| ErrIllegalReadsMeta
| IoEOF
| IoUnexpectedEOF
| IoShortWrite
| UnderlyingError 'e
| Panic

definition ConnectionError_Error :: "ErrCode \<Rightarrow> string" where
  "ConnectionError_Error e = ''connection error: '' @ ErrCode_String e"

definition connError_Error :: "ErrCode \<Rightarrow> string \<Rightarrow> string" where
  "connError_Error c reason = ''http2: connection error: '' @ ErrCode_String c @ '': '' @ reason"

section \<open>Settings\<close>

type_synonym SettingID = u16

definition SettingHeaderTableSize :: SettingID where [go_defs]: "SettingHeaderTableSize = 0x1"
definition SettingEnablePush :: SettingID where [go_defs]: "SettingEnablePush = 0x2"
definition SettingMaxConcurrentStreams :: SettingID where [go_defs]: "SettingMaxConcurrentStreams = 0x3"
definition SettingInitialWindowSize :: SettingID where [go_defs]: "SettingInitialWindowSize = 0x4"
definition SettingMaxFrameSize :: SettingID where [go_defs]: "SettingMaxFrameSize = 0x5"
definition SettingMaxHeaderListSize :: SettingID where [go_defs]: "SettingMaxHeaderListSize = 0x6"

definition settingName :: "SettingID \<rightharpoonup> string" where
  "settingName =
     [SettingHeaderTableSize \<mapsto> ''HEADER_TABLE_SIZE'',
      SettingEnablePush \<mapsto> ''ENABLE_PUSH'',
      SettingMaxConcurrentStreams \<mapsto> ''MAX_CONCURRENT_STREAMS'',
      SettingInitialWindowSize \<mapsto> ''INITIAL_WINDOW_SIZE'',
      SettingMaxFrameSize \<mapsto> ''MAX_FRAME_SIZE'',
      SettingMaxHeaderListSize \<mapsto> ''MAX_HEADER_LIST_SIZE'']"

definition SettingID_String :: "SettingID \<Rightarrow> string" where
  "SettingID_String s = (case settingName s of Some v \<Rightarrow> v | None \<Rightarrow> ''UNKNOWN_SETTING_'' @ fmt_d (unat s))"

record Setting =
  set_ID :: SettingID
  set_Val :: u32

definition Setting_String :: "Setting \<Rightarrow> string" where
  "Setting_String s = ''['' @ SettingID_String (set_ID s) @ '' = '' @ fmt_d (unat (set_Val s)) @ '']''"

definition Setting_Valid :: "Setting \<Rightarrow> 'e http2_error option" where
  "Setting_Valid s =
     (if set_ID s = SettingEnablePush then
        (if set_Val s \<noteq> 1 \<and> set_Val s \<noteq> 0 then Some (ConnectionError ErrCodeProtocol) else None)
      else if set_ID s = SettingInitialWindowSize then
        (if set_Val s > 0x7fffffff then Some (ConnectionError ErrCodeFlowControl) else None)
      else if set_ID s = SettingMaxFrameSize then
        (if set_Val s < 16384 \<or> set_Val s > 0xffffff then Some (ConnectionError ErrCodeProtocol) else None)
      else None)"

section \<open>Priorities\<close>

record PriorityParam =
  StreamDep :: u32
  Exclusive :: bool
  Weight :: u8

definition PriorityParam_IsZero :: "PriorityParam \<Rightarrow> bool" where
  "PriorityParam_IsZero p \<longleftrightarrow> p = \<lparr>StreamDep = 0, Exclusive = False, Weight = 0\<rparr>"

end
