(* ===== verification/HTTP2_WriteSched.thy ===== *)
theory HTTP2_WriteSched
  imports HTTP2_Flow HTTP2_Protocol
begin

text \<open>
  Package \<^verbatim>\<open>http2\<close>, file \<^verbatim>\<open>writesched.go\<close> (with the frame writers of \<^verbatim>\<open>write.go\<close> it
  inspects): requests to write a frame, the splitting of DATA frames under flow control, the
  write queues and their pool, and the interface of the write schedulers as a locale.

  Streams and their connection live in a store: a stream holds the address of its flow-control
  window and of its connection, whose largest frame size the peer's settings change at any time.
  Queues are shared by pointer between a scheduler and its pool, so they live in a store of
  their own.  \<open>None\<close> as the result of an operation stands for a panic.
\<close>

section \<open>Frame writers\<close>

record writeData =
  wd_streamID :: u32
  wd_p :: bytes
  wd_endStream :: bool

record writeResHeaders =
  rh_streamID :: u32
  rh_httpResCode :: int
  rh_h :: "(bytes \<times> bytes list) list"
  rh_trailers :: "bytes list option"
  rh_endStream :: bool
  rh_date :: bytes
  rh_contentType :: bytes
  rh_contentLength :: bytes

text \<open>A push promise, less the function that allocates its stream; the URL by the parts written.\<close>

record writePushPromise =
  pp_streamID :: u32
  pp_method :: bytes
  pp_scheme :: bytes
  pp_host :: bytes
  pp_requestURI :: bytes
  pp_h :: "(bytes \<times> bytes list) list"
  pp_promisedID :: u32

datatype writeFramer =
  FlushFrameWriter
| WriteSettings "(u16 \<times> u32) list"
| WriteGoAway u32 u32
| WriteData writeData
| HandlerPanicRST u32
| WriteStreamError StreamError
| WritePingAck bytes
| WriteSettingsAck
| WriteResHeaders writeResHeaders
| WritePushPromise writePushPromise
| Write100Continue u32
| WriteWindowUpdate u32 u32

text \<open>The argument may be nil, and then the function panics.\<close>

fun writeEndsStream :: "writeFramer option \<Rightarrow> bool option" where
  "writeEndsStream (Some (WriteData v)) = Some (wd_endStream v)"
| "writeEndsStream (Some (WriteResHeaders v)) = Some (rh_endStream v)"
| "writeEndsStream None = None"
| "writeEndsStream (Some _) = Some False"

section \<open>Requests\<close>

record stream =
  stream_sc :: nat
  stream_id :: u32
  stream_flow :: nat

record net =
  flows :: flow_store
  maxFrameSize :: "nat \<Rightarrow> i32"

record FrameWriteRequest =
  fw_write :: "writeFramer option"
  fw_stream :: "stream option"
  fw_done :: "nat option"

definition empty_request :: FrameWriteRequest where
  "empty_request = \<lparr>fw_write = None, fw_stream = None, fw_done = None\<rparr>"

definition StreamID :: "FrameWriteRequest \<Rightarrow> u32" where
  "StreamID wr =
     (case fw_stream wr of
        None \<Rightarrow> (case fw_write wr of Some (WriteStreamError se) \<Rightarrow> se_StreamID se | _ \<Rightarrow> 0)
      | Some st \<Rightarrow> stream_id st)"

definition DataSize :: "FrameWriteRequest \<Rightarrow> nat" where
  "DataSize wr = (case fw_write wr of Some (WriteData wd) \<Rightarrow> length (wd_p wd) | _ \<Rightarrow> 0)"

text \<open>What \<^verbatim>\<open>Consume\<close> lets through: the least of the window, the limit and the frame size.\<close>

definition consume_allowed :: "net \<Rightarrow> stream \<Rightarrow> i32 \<Rightarrow> i32" where
  "consume_allowed w st n =
     (let allowed = available (flows w) (stream_flow st);
          allowed = (if sint n < sint allowed then n else allowed)
      in if sint (maxFrameSize w (stream_sc st)) < sint allowed
         then maxFrameSize w (stream_sc st) else allowed)"

definition Consume ::
  "net \<Rightarrow> FrameWriteRequest \<Rightarrow> i32 \<Rightarrow> (FrameWriteRequest \<times> FrameWriteRequest \<times> nat \<times> net) option"
where
  "Consume w wr n =
     (case fw_write wr of
        Some (WriteData wd) \<Rightarrow>
          if wd_p wd = [] then Some (wr, empty_request, 1, w)
          else (case fw_stream wr of
                  None \<Rightarrow> None
                | Some st \<Rightarrow>
                    let allowed = consume_allowed w st n in
                    if sint allowed \<le> 0 then Some (empty_request, empty_request, 0, w)
                    else if int (length (wd_p wd)) > sint allowed then
                      (case take_flow (flows w) (stream_flow st) allowed of
                         None \<Rightarrow> None
                       | Some h \<Rightarrow>
                           Some (\<lparr>fw_write = Some (WriteData \<lparr>wd_streamID = wd_streamID wd,
                                    wd_p = take (nat (sint allowed)) (wd_p wd), wd_endStream = False\<rparr>),
                                  fw_stream = fw_stream wr, fw_done = None\<rparr>,
                                 \<lparr>fw_write = Some (WriteData \<lparr>wd_streamID = wd_streamID wd,
                                    wd_p = drop (nat (sint allowed)) (wd_p wd), wd_endStream = wd_endStream wd\<rparr>),
                                  fw_stream = fw_stream wr, fw_done = fw_done wr\<rparr>,
                                 2, w\<lparr>flows := h\<rparr>))
                    else
                      (case take_flow (flows w) (stream_flow st) (word_of_int (int (length (wd_p wd)))) of
                         None \<Rightarrow> None
                       | Some h \<Rightarrow> Some (wr, empty_request, 1, w\<lparr>flows := h\<rparr>)))
      | _ \<Rightarrow> Some (wr, empty_request, 1, w))"

text \<open>
  The channel of a request: a bounded buffer, and receivers that wait on it.  A send that must
  not block goes to a waiting receiver, or into the buffer, or fails.
\<close>

record 'e go_chan =
  ch_cap :: nat
  ch_buf :: "'e list"
  ch_waiting :: nat
  ch_received :: "'e list"

definition try_send :: "'e go_chan \<Rightarrow> 'e \<Rightarrow> 'e go_chan option" where
  "try_send c e =
     (if ch_waiting c > 0 then
        Some (c\<lparr>ch_waiting := ch_waiting c - 1, ch_received := ch_received c @ [e]\<rparr>)
      else if length (ch_buf c) < ch_cap c then Some (c\<lparr>ch_buf := ch_buf c @ [e]\<rparr>)
      else None)"

definition replyToWriter ::
  "(nat \<Rightarrow> 'e go_chan) \<Rightarrow> FrameWriteRequest \<Rightarrow> 'e \<Rightarrow> ((nat \<Rightarrow> 'e go_chan) \<times> FrameWriteRequest) option"
where
  "replyToWriter chans wr err =
     (case fw_done wr of
        None \<Rightarrow> Some (chans, wr)
      | Some ch \<Rightarrow>
          (case try_send (chans ch) err of
             None \<Rightarrow> None
           | Some c \<Rightarrow> Some (chans(ch := c), wr\<lparr>fw_write := None\<rparr>)))"

section \<open>Queues\<close>

record writeQueue =
  wq_s :: "FrameWriteRequest list"

definition wq_empty :: "writeQueue \<Rightarrow> bool" where
  "wq_empty q \<longleftrightarrow> length (wq_s q) = 0"

definition wq_push :: "writeQueue \<Rightarrow> FrameWriteRequest \<Rightarrow> writeQueue" where
  "wq_push q wr = q\<lparr>wq_s := wq_s q @ [wr]\<rparr>"

text \<open>
  The elements are moved one place to the left, the last cell is cleared and cut off.  Go's
  \<^verbatim>\<open>copy\<close> leaves the last cell as it was.
\<close>

definition wq_shift :: "writeQueue \<Rightarrow> (FrameWriteRequest \<times> writeQueue) option" where
  "wq_shift q =
     (if length (wq_s q) = 0 then None
      else
        let s = wq_s q;
            wr = s ! 0;
            s1 = drop 1 s @ [last s];
            s2 = s1[length s1 - 1 := empty_request]
        in Some (wr, q\<lparr>wq_s := take (length s2 - 1) s2\<rparr>))"

definition wq_consume ::
  "net \<Rightarrow> writeQueue \<Rightarrow> i32 \<Rightarrow> (FrameWriteRequest \<times> bool \<times> writeQueue \<times> net) option"
where
  "wq_consume w q n =
     (if length (wq_s q) = 0 then Some (empty_request, False, q, w)
      else
        (case Consume w (wq_s q ! 0) n of
           None \<Rightarrow> None
         | Some (consumed, rest, numresult, w') \<Rightarrow>
             if numresult = 0 then Some (empty_request, False, q, w')
             else if numresult = 1 then
               (case wq_shift q of None \<Rightarrow> None | Some (_, q') \<Rightarrow> Some (consumed, True, q', w'))
             else if numresult = 2 then Some (consumed, True, q\<lparr>wq_s := (wq_s q)[0 := rest]\<rparr>, w')
             else Some (consumed, True, q, w')))"

text \<open>Queues are objects: a store of queues, the next free address, and the pool of addresses.\<close>

record queue_store =
  queues :: "nat \<Rightarrow> writeQueue"
  next_queue :: nat

definition new_queue :: "queue_store \<Rightarrow> writeQueue \<Rightarrow> nat \<times> queue_store" where
  "new_queue qs q =
     (next_queue qs, \<lparr>queues = (queues qs)(next_queue qs := q), next_queue = next_queue qs + 1\<rparr>)"

text \<open>\<^verbatim>\<open>put\<close> clears every cell of the queue and cuts it to length zero.\<close>

definition pool_put :: "queue_store \<Rightarrow> nat list \<Rightarrow> nat \<Rightarrow> queue_store \<times> nat list" where
  "pool_put qs p a =
     (let s = wq_s (queues qs a);
          cleared = map (\<lambda>_. empty_request) s;
          q = (queues qs a)\<lparr>wq_s := take 0 cleared\<rparr>
      in (qs\<lparr>queues := (queues qs)(a := q)\<rparr>, p @ [a]))"

definition pool_get :: "queue_store \<Rightarrow> nat list \<Rightarrow> nat \<times> queue_store \<times> nat list" where
  "pool_get qs p =
     (let ln = length p in
      if ln = 0 then (let (a, qs') = new_queue qs \<lparr>wq_s = []\<rparr> in (a, qs', p))
      else (let x = ln - 1 in (p ! x, qs, take x p)))"

text \<open>The arguments of the scheduler calls that manage streams.\<close>

record OpenStreamOptions =
  PusherID :: u32

section \<open>What a request puts on the wire\<close>

text \<open>
  The octets of a DATA frame and the marks of its end (the END_STREAM flag, and the channel its
  sender waits on) in order; every other frame as one unit.  A frame and the frames it is split
  into put the same units on the wire.
\<close>

datatype wire_unit =
  Octet "stream option" u32 u8
| Last "stream option" u32 bool "nat option"
| Whole FrameWriteRequest

definition wire :: "FrameWriteRequest \<Rightarrow> wire_unit list" where
  "wire wr =
     (case fw_write wr of
        Some (WriteData wd) \<Rightarrow>
          if wd_p wd = [] then [Whole wr]
          else map (Octet (fw_stream wr) (wd_streamID wd)) (wd_p wd) @
            (if wd_endStream wd \<or> fw_done wr \<noteq> None
             then [Last (fw_stream wr) (wd_streamID wd) (wd_endStream wd) (fw_done wr)] else [])
      | _ \<Rightarrow> [Whole wr])"

definition wires :: "FrameWriteRequest list \<Rightarrow> wire_unit list" where
  "wires wrs = concat (map wire wrs)"

lemma wires_simps [simp]:
  "wires [] = []" "wires (wr # wrs) = wire wr @ wires wrs" "wires (xs @ ys) = wires xs @ wires ys"
  by (simp_all add: wires_def)

section \<open>Queues and consumption\<close>

lemma wq_shift_Cons: "wq_s q = x # xs \<Longrightarrow> wq_shift q = Some (x, q\<lparr>wq_s := xs\<rparr>)"
  by (simp add: wq_shift_def Let_def list_update_append)

lemma wq_shift_None_iff: "wq_shift q = None \<longleftrightarrow> wq_s q = []"
  by (simp add: wq_shift_def Let_def)

lemma wq_eqI: "wq_s q = wq_s q' \<Longrightarrow> q = (q'::writeQueue)"
  by simp

text \<open>The bytes a request for \<open>n\<close> may write on a stream, as an integer.\<close>

definition budget :: "net \<Rightarrow> stream \<Rightarrow> i32 \<Rightarrow> int" where
  "budget w st n = min (min (sint (available (flows w) (stream_flow st))) (sint n)) (sint (maxFrameSize w (stream_sc st)))"

lemma consume_allowed_budget: "sint (consume_allowed w st n) = budget w st n"
  by (auto simp: consume_allowed_def budget_def Let_def)

lemma budget_le_available: "budget w st n \<le> sint (available (flows w) (stream_flow st))"
  by (simp add: budget_def)

lemma budget_range: "budget w st n < 2 ^ 31"
  using budget_le_available [of w st n] sint_range(2) [of "available (flows w) (stream_flow st)"] by simp

text \<open>The window store after \<open>k\<close> bytes have been taken from a stream's window.\<close>

definition charge :: "net \<Rightarrow> stream \<Rightarrow> int \<Rightarrow> net" where
  "charge w st k = w\<lparr>flows := the (take_flow (flows w) (stream_flow st) (word_of_int k))\<rparr>"

lemma take_flow_available:
  "sint n \<le> sint (available h f) \<Longrightarrow> \<exists>h'. take_flow h f n = Some h'"
  by (simp add: take_flow_def Let_def)

lemma take_flow_budget:
  assumes "0 < k" "k \<le> budget w st n"
  shows "take_flow (flows w) (stream_flow st) (word_of_int k) = Some (flows (charge w st k))"
proof -
  have "sint (word_of_int k :: i32) = k"
    using assms budget_range [of w st n] by (intro sint_of_int32) auto
  then have "sint (word_of_int k :: i32) \<le> sint (available (flows w) (stream_flow st))"
    using assms(2) budget_le_available [of w st n] by simp
  then obtain h where "take_flow (flows w) (stream_flow st) (word_of_int k) = Some h"
    using take_flow_available by blast
  then show ?thesis
    by (simp add: charge_def)
qed

lemma take_flow_allowed:
  assumes "0 < budget w st n"
  shows "take_flow (flows w) (stream_flow st) (consume_allowed w st n) = Some (flows (charge w st (budget w st n)))"
proof -
  have "consume_allowed w st n = word_of_int (budget w st n)"
    by (simp flip: consume_allowed_budget)
  then show ?thesis
    using take_flow_budget [OF assms order_refl] by simp
qed

text \<open>A DATA frame, and the request that carries part of it.\<close>

definition data_request :: "stream \<Rightarrow> u32 \<Rightarrow> bytes \<Rightarrow> bool \<Rightarrow> nat option \<Rightarrow> FrameWriteRequest" where
  "data_request st sid p e d =
     \<lparr>fw_write = Some (WriteData \<lparr>wd_streamID = sid, wd_p = p, wd_endStream = e\<rparr>), fw_stream = Some st, fw_done = d\<rparr>"

lemma data_request_sel [simp]:
  "StreamID (data_request st sid p e d) = stream_id st"
  "DataSize (data_request st sid p e d) = length p"
  "fw_write (data_request st sid p e d) = Some (WriteData \<lparr>wd_streamID = sid, wd_p = p, wd_endStream = e\<rparr>)"
  "fw_stream (data_request st sid p e d) = Some st"
  "fw_done (data_request st sid p e d) = d"
  by (simp_all add: data_request_def StreamID_def DataSize_def)

lemma wire_data:
  "p \<noteq> [] \<Longrightarrow> wire (data_request st sid p e d) =
     map (Octet (Some st) sid) p @ (if e \<or> d \<noteq> None then [Last (Some st) sid e d] else [])"
  by (simp add: wire_def)

lemma Consume_data:
  assumes "p \<noteq> []"
  shows "Consume w (data_request st sid p e d) n =
    (let b = budget w st n in
     if b \<le> 0 then Some (empty_request, empty_request, 0, w)
     else if b < int (length p) then
       Some (data_request st sid (take (nat b) p) False None, data_request st sid (drop (nat b) p) e d, 2, charge w st b)
     else Some (data_request st sid p e d, empty_request, 1, charge w st (int (length p))))"
proof -
  have upd: "w\<lparr>flows := flows (charge w st k)\<rparr> = charge w st k" for k
    by (simp add: charge_def)
  have "0 < int (length p)"
    using assms by simp
  then show ?thesis
    using assms take_flow_allowed [of w st n] take_flow_budget [of "int (length p)" w st n]
    by (simp add: Consume_def consume_allowed_budget Let_def upd data_request_def)
qed

text \<open>A request with data to send names the stream it sends on; every other is consumed whole.\<close>

definition has_stream :: "FrameWriteRequest \<Rightarrow> bool" where
  "has_stream wr \<longleftrightarrow> (DataSize wr > 0 \<longrightarrow> fw_stream wr \<noteq> None)"

lemma data_request_cases:
  assumes "has_stream wr" "DataSize wr > 0"
  obtains st sid p e d where "wr = data_request st sid p e d" "p \<noteq> []"
proof -
  obtain wd where wd: "fw_write wr = Some (WriteData wd)"
    using assms(2) by (auto simp: DataSize_def split: option.splits writeFramer.splits)
  obtain st where "fw_stream wr = Some st"
    using assms by (auto simp: has_stream_def)
  then have "wr = data_request st (wd_streamID wd) (wd_p wd) (wd_endStream wd) (fw_done wr)"
    using wd by (simp add: data_request_def)
  moreover have "wd_p wd \<noteq> []"
    using assms(2) wd by (auto simp: DataSize_def)
  ultimately show ?thesis
    by (rule that)
qed

lemma Consume_other: "DataSize wr = 0 \<Longrightarrow> Consume w wr n = Some (wr, empty_request, 1, w)"
  unfolding Consume_def DataSize_def
  by (cases "fw_write wr"; simp; cases "the (fw_write wr)"; simp)

lemma wire_other: "DataSize wr = 0 \<Longrightarrow> wire wr = [Whole wr]"
  unfolding wire_def DataSize_def
  by (cases "fw_write wr"; simp; cases "the (fw_write wr)"; simp)

text \<open>What one call takes from the front of a queue.\<close>

definition blocked :: "net \<Rightarrow> i32 \<Rightarrow> FrameWriteRequest \<Rightarrow> bool" where
  "blocked w n wr \<longleftrightarrow>
     DataSize wr > 0 \<and> (case fw_stream wr of None \<Rightarrow> False | Some st \<Rightarrow> budget w st n \<le> 0)"

lemma wire_split:
  assumes "0 < k" "k < length p"
  shows "wire (data_request st sid (take k p) False None) @ wire (data_request st sid (drop k p) e d)
    = wire (data_request st sid p e d)"
proof -
  have "take k p \<noteq> []" "drop k p \<noteq> []" "p \<noteq> []"
    using assms by auto
  then show ?thesis
    by (simp add: wire_data flip: map_append append_assoc)
qed

text \<open>
  Consuming from the front of a queue: nothing changes when the queue is empty or its first
  frame has no room; otherwise what is written together with what is left is what was queued.
\<close>

lemma wq_consume_stuck:
  assumes "wq_s q = [] \<or> (blocked w n (hd (wq_s q)))"
  shows "wq_consume w q n = Some (empty_request, False, q, w)"
proof (cases "wq_s q")
  case (Cons x xs)
  with assms have "has_stream x" "DataSize x > 0" and b: "blocked w n x"
    by (auto simp: has_stream_def blocked_def split: option.splits)
  then show ?thesis
    using Cons by (elim data_request_cases [of x]) (auto simp: wq_consume_def blocked_def Consume_data)
qed (simp add: wq_consume_def)

definition took :: "net \<Rightarrow> FrameWriteRequest \<Rightarrow> net" where
  "took w wr =
     (if DataSize wr = 0 then w
      else case fw_stream wr of None \<Rightarrow> w | Some st \<Rightarrow> charge w st (int (DataSize wr)))"

definition consumes :: "FrameWriteRequest list \<Rightarrow> FrameWriteRequest \<Rightarrow> FrameWriteRequest list \<Rightarrow> bool" where
  "consumes xs wr ys \<longleftrightarrow>
     xs \<noteq> [] \<and> wires xs = wire wr @ wires ys \<and> has_stream wr \<and>
     StreamID wr = StreamID (hd xs) \<and> DataSize wr \<le> DataSize (hd xs) \<and>
     (ys = tl xs \<and> wr = hd xs \<or>
      (\<exists>r. ys = r # tl xs \<and> has_stream r \<and> StreamID r = StreamID (hd xs) \<and>
           DataSize wr + DataSize r = DataSize (hd xs) \<and> DataSize wr > 0 \<and> DataSize r > 0))"

lemma wq_consume_go:
  assumes "wq_s q = x # xs" "has_stream x" "\<not> blocked w n x"
  shows "\<exists>wr q'. wq_consume w q n = Some (wr, True, q', took w wr) \<and> consumes (wq_s q) wr (wq_s q')"
proof (cases "DataSize x = 0")
  case True
  then show ?thesis
    using assms by (simp add: wq_consume_def Consume_other wq_shift_Cons took_def consumes_def)
next
  case False
  with assms(2) obtain st sid p e d where x: "x = data_request st sid p e d" and p: "p \<noteq> []"
    by (auto elim: data_request_cases)
  let ?b = "budget w st n"
  from assms(3) p have b: "?b > 0"
    by (simp add: blocked_def x)
  show ?thesis
  proof (cases "?b < int (length p)")
    case True
    let ?c = "data_request st sid (take (nat ?b) p) False None"
    let ?r = "data_request st sid (drop (nat ?b) p) e d"
    have "wq_consume w q n = Some (?c, True, q\<lparr>wq_s := ?r # xs\<rparr>, took w ?c)"
      using assms(1) b True p by (simp add: wq_consume_def x Consume_data Let_def took_def)
    moreover have "wires (wq_s q) = wire ?c @ wires (?r # xs)"
      using wire_split [of "nat ?b" p st sid e d] b True assms(1) x by simp
    ultimately show ?thesis
      using assms(1) b True by (auto simp: consumes_def x has_stream_def)
  next
    case False
    then show ?thesis
      using assms(1) b p by (simp add: wq_consume_def x Consume_data Let_def took_def wq_shift_Cons consumes_def has_stream_def)
  qed
qed

lemma wq_consume_ok:
  assumes "list_all has_stream (wq_s q)"
  obtains (stuck) "wq_s q = [] \<or> blocked w n (hd (wq_s q))" "wq_consume w q n = Some (empty_request, False, q, w)"
  | (go) wr q' where "wq_s q \<noteq> []" "\<not> blocked w n (hd (wq_s q))"
      "wq_consume w q n = Some (wr, True, q', took w wr)" "consumes (wq_s q) wr (wq_s q')"
proof (cases "wq_s q = [] \<or> blocked w n (hd (wq_s q))")
  case True
  then show ?thesis
    using stuck wq_consume_stuck [OF True] by simp
next
  case False
  then obtain x xs where q: "wq_s q = x # xs"
    by (cases "wq_s q") auto
  with assms False have "has_stream x" "\<not> blocked w n x"
    by auto
  from wq_consume_go [OF q this] show ?thesis
    using False q by (auto intro: go)
qed

lemma consumes_has_stream:
  "consumes xs wr ys \<Longrightarrow> list_all has_stream xs \<Longrightarrow> list_all has_stream ys"
  by (cases xs) (auto simp: consumes_def)

lemma consumes_ids:
  "consumes xs wr ys \<Longrightarrow> \<forall>x\<in>set xs. StreamID x = i \<Longrightarrow> \<forall>y\<in>set ys. StreamID y = i"
  by (cases xs) (auto simp: consumes_def)

lemma charge_windows:
  assumes "conn (flows w (stream_flow st)) = Some c" "c \<noteq> stream_flow st" "0 < k" "k \<le> budget w st n"
  shows "sint (window (flows (charge w st k) (stream_flow st))) = sint (window (flows w (stream_flow st))) - k \<and>
    sint (window (flows (charge w st k) c)) = sint (window (flows w c)) - k \<and>
    0 \<le> sint (window (flows (charge w st k) (stream_flow st))) \<and> 0 \<le> sint (window (flows (charge w st k) c)) \<and>
    (\<forall>g. g \<noteq> stream_flow st \<and> g \<noteq> c \<longrightarrow> flows (charge w st k) g = flows w g)"
proof -
  have k: "sint (word_of_int k :: i32) = k"
    using assms(3,4) budget_range [of w st n] by (intro sint_of_int32) auto
  have "k \<le> sint (available (flows w) (stream_flow st))"
    using assms(4) budget_le_available [of w st n] by linarith
  then obtain h where "take_flow (flows w) (stream_flow st) (word_of_int k) = Some h"
    "sint (window (h (stream_flow st))) = sint (window (flows w (stream_flow st))) - k" "0 \<le> sint (window (h (stream_flow st)))"
    "sint (window (h c)) = sint (window (flows w c)) - k" "0 \<le> sint (window (h c))"
    "\<forall>g. g \<noteq> stream_flow st \<and> g \<noteq> c \<longrightarrow> h g = flows w g"
    using take_flow_windows [of "flows w" "stream_flow st" c "word_of_int k", unfolded k, OF assms(1,2)] assms(3) by fastforce
  then show ?thesis
    by (simp add: charge_def)
qed

lemma charge_maxFrameSize [simp]: "maxFrameSize (charge w st k) = maxFrameSize w"
  by (simp add: charge_def)

text \<open>
  C18.  Consuming a DATA frame for at most \<open>n\<close> bytes: the call returns, and with \<open>b\<close> the least
  of the stream window, the connection window, the limit and the largest frame size, it
  returns no frame and leaves the windows alone when \<open>b\<close> is not positive; otherwise it returns
  the first \<open>min b (length p)\<close> bytes, as one frame when that is all and else as two, which put
  the same octets and the same end marks on the wire as the frame did, and it takes exactly the
  bytes of the first frame from both windows, which stay at zero or more, and from no other.
\<close>

theorem consume_splits_exactly:
  assumes "p \<noteq> []" "conn (flows w (stream_flow st)) = Some c" "c \<noteq> stream_flow st"
  shows "\<exists>f r k w'. Consume w (data_request st sid p e d) n = Some (f, r, k, w') \<and>
    (let b = min (min (min (sint (window (flows w (stream_flow st)))) (sint (window (flows w c)))) (sint n))
               (sint (maxFrameSize w (stream_sc st)));
         m = min (nat b) (length p)
     in if b \<le> 0 then k = 0 \<and> w' = w
        else k = (if int (length p) \<le> b then 1 else 2) \<and> DataSize f = m \<and>
          wires (if k = 1 then [f] else [f, r]) = wire (data_request st sid p e d) \<and>
          maxFrameSize w' = maxFrameSize w \<and>
          sint (window (flows w' (stream_flow st))) = sint (window (flows w (stream_flow st))) - int m \<and>
          sint (window (flows w' c)) = sint (window (flows w c)) - int m \<and>
          0 \<le> sint (window (flows w' (stream_flow st))) \<and> 0 \<le> sint (window (flows w' c)) \<and>
          (\<forall>g. g \<noteq> stream_flow st \<and> g \<noteq> c \<longrightarrow> flows w' g = flows w g))"
proof -
  let ?b = "budget w st n"
  have b: "min (min (min (sint (window (flows w (stream_flow st)))) (sint (window (flows w c)))) (sint n))
      (sint (maxFrameSize w (stream_sc st))) = ?b"
    using assms(2) by (auto simp: budget_def available_def Let_def)
  consider (none) "?b \<le> 0" | (whole) "0 < ?b" "int (length p) \<le> ?b" | (split) "0 < ?b" "?b < int (length p)"
    by linarith
  then show ?thesis
  proof cases
    case none
    then show ?thesis
      using assms(1) by (simp add: b Consume_data Let_def)
  next
    case whole
    then have m: "min (nat ?b) (length p) = length p"
      by linarith
    show ?thesis
      using whole assms(1) charge_windows [OF assms(2,3), of "int (length p)" n]
      by (simp add: b m Consume_data Let_def)
  next
    case split
    then have m: "min (nat ?b) (length p) = nat ?b" "int (nat ?b) = ?b"
      by linarith+
    show ?thesis
      using split assms(1) charge_windows [OF assms(2,3), of ?b n] wire_split [of "nat ?b" p st sid e d]
      by (simp add: b m Consume_data Let_def)
  qed
qed

text \<open>A stream on the windows of the sample store, over a connection that takes frames of 16384 bytes.\<close>

definition sample_net :: net where
  "sample_net = \<lparr>flows = sample_store, maxFrameSize = (\<lambda>_. 16384)\<rparr>"

definition sample_stream :: stream where
  "sample_stream = \<lparr>stream_sc = 0, stream_id = 3, stream_flow = 1\<rparr>"

theorem consume_splits_exactly_witness:
  "\<exists>f r k w'. Consume sample_net (data_request sample_stream 3 (replicate 80 7) True (Some 0)) 0x7fffffff
     = Some (f, r, k, w') \<and> k = 2 \<and> DataSize f = 70 \<and>
     wires [f, r] = wire (data_request sample_stream 3 (replicate 80 7) True (Some 0)) \<and>
     sint (window (flows w' 1)) = 0 \<and> sint (window (flows w' 0)) = 30"
  using consume_splits_exactly [of "replicate 80 7" sample_net sample_stream 0 3 True "Some 0" "0x7fffffff"]
  by (auto simp: sample_net_def sample_stream_def sample_store_def)

section \<open>The interface of the schedulers\<close>

text \<open>
  What a caller of \<^verbatim>\<open>WriteScheduler\<close> sees: a frame pushed, a frame popped, a pop that found
  nothing to write, and the calls that open, close or reprioritise streams, which may discard
  the frames queued on the streams of the given set.
\<close>

datatype sched_event =
  Pushed FrameWriteRequest
| Popped FrameWriteRequest
| Stuck
| Managed "u32 set"

text \<open>Between two calls the peer may move windows and the largest frame size as it likes.\<close>

inductive sched_run ::
  "('s \<Rightarrow> net \<Rightarrow> sched_event \<Rightarrow> 's \<Rightarrow> net \<Rightarrow> bool) \<Rightarrow> 's \<Rightarrow> sched_event list \<Rightarrow> 's \<Rightarrow> bool"
  for step :: "'s \<Rightarrow> net \<Rightarrow> sched_event \<Rightarrow> 's \<Rightarrow> net \<Rightarrow> bool" where
  run_start: "sched_run step s [] s"
| run_call: "sched_run step s es s1 \<Longrightarrow> step s1 w e s2 w' \<Longrightarrow> sched_run step s (es @ [e]) s2"

primrec pushed_on :: "u32 \<Rightarrow> sched_event list \<Rightarrow> FrameWriteRequest list" where
  "pushed_on i [] = []"
| "pushed_on i (e # es) =
     (case e of Pushed wr \<Rightarrow> if StreamID wr = i then [wr] else [] | _ \<Rightarrow> []) @ pushed_on i es"

primrec popped_on :: "u32 \<Rightarrow> sched_event list \<Rightarrow> FrameWriteRequest list" where
  "popped_on i [] = []"
| "popped_on i (e # es) =
     (case e of Popped wr \<Rightarrow> if StreamID wr = i then [wr] else [] | _ \<Rightarrow> []) @ popped_on i es"

definition discarded_on :: "u32 \<Rightarrow> sched_event list \<Rightarrow> bool" where
  "discarded_on i es \<longleftrightarrow> list_ex (\<lambda>e. case e of Managed D \<Rightarrow> i \<in> D | _ \<Rightarrow> False) es"

lemma on_append [simp]:
  "pushed_on i (es @ es') = pushed_on i es @ pushed_on i es'"
  "popped_on i (es @ es') = popped_on i es @ popped_on i es'"
  "discarded_on i (es @ es') \<longleftrightarrow> discarded_on i es \<or> discarded_on i es'"
  by (induction es) (simp_all add: discarded_on_def)

lemma wires_subseq: "subseq xs ys \<Longrightarrow> subseq (wires xs) (wires ys)"
  by (induction rule: list_emb.induct) (auto intro: list_emb_append_mono)

locale write_scheduler =
  fixes step :: "'s \<Rightarrow> net \<Rightarrow> sched_event \<Rightarrow> 's \<Rightarrow> net \<Rightarrow> bool"
    and ok :: "'s \<Rightarrow> bool"
    and queue :: "'s \<Rightarrow> u32 \<Rightarrow> FrameWriteRequest list"
  assumes step_ok: "ok s \<Longrightarrow> step s w e s' w' \<Longrightarrow> ok s'"
    and step_push: "ok s \<Longrightarrow> step s w (Pushed wr) s' w' \<Longrightarrow>
      queue s' = (queue s)(StreamID wr := queue s (StreamID wr) @ [wr])"
    and step_pop: "ok s \<Longrightarrow> step s w (Popped wr) s' w' \<Longrightarrow>
      \<exists>ys. consumes (queue s (StreamID wr)) wr ys \<and> queue s' = (queue s)(StreamID wr := ys)"
    and step_stuck: "ok s \<Longrightarrow> step s w Stuck s' w' \<Longrightarrow> queue s' = queue s"
    and step_managed: "ok s \<Longrightarrow> step s w (Managed D) s' w' \<Longrightarrow>
      subseq (queue s' i) (queue s i) \<and> (i \<notin> D \<longrightarrow> queue s' i = queue s i)"
begin

lemma run_ok: "sched_run step s es s' \<Longrightarrow> ok s \<Longrightarrow> ok s'"
  by (induction rule: sched_run.induct) (auto intro: step_ok)

lemma step_order:
  assumes "ok s" "step s w e s' w'"
  shows "subseq (wires (popped_on i [e]) @ wires (queue s' i)) (wires (queue s i) @ wires (pushed_on i [e])) \<and>
    (\<not> discarded_on i [e] \<longrightarrow>
      wires (popped_on i [e]) @ wires (queue s' i) = wires (queue s i) @ wires (pushed_on i [e]))"
proof (cases e)
  case (Pushed wr)
  then show ?thesis
    using step_push [OF assms(1)] assms(2) by (auto simp: discarded_on_def)
next
  case (Popped wr)
  then show ?thesis
    using step_pop [OF assms(1)] assms(2) by (fastforce simp: consumes_def)
next
  case Stuck
  then show ?thesis
    using step_stuck [OF assms(1)] assms(2) by simp
next
  case (Managed D)
  then show ?thesis
    using step_managed [OF assms(1)] assms(2) by (auto simp: discarded_on_def intro: wires_subseq)
qed

text \<open>Over a whole run: nothing is reordered, repeated or made up on a stream.\<close>

lemma run_in_order:
  assumes "sched_run step s es s'" "ok s"
  shows "subseq (wires (popped_on i es) @ wires (queue s' i)) (wires (queue s i) @ wires (pushed_on i es))"
  using assms
proof (induction rule: sched_run.induct)
  case (run_call s es s1 w e s2 w')
  have "subseq (wires (popped_on i [e]) @ wires (queue s2 i)) (wires (queue s1 i) @ wires (pushed_on i [e]))"
    using step_order run_ok run_call by blast
  then have "subseq (wires (popped_on i (es @ [e])) @ wires (queue s2 i))
      ((wires (popped_on i es) @ wires (queue s1 i)) @ wires (pushed_on i [e]))"
    by (simp add: list_emb_append_mono)
  also have "subseq \<dots> ((wires (queue s i) @ wires (pushed_on i es)) @ wires (pushed_on i [e]))"
    using run_call.IH [OF run_call.prems] by (rule list_emb_append_mono) simp
  finally show ?case
    by simp
qed simp

text \<open>And where no call discards the stream's frames, nothing is lost either.\<close>

lemma run_exact:
  assumes "sched_run step s es s'" "ok s" "\<not> discarded_on i es"
  shows "wires (popped_on i es) @ wires (queue s' i) = wires (queue s i) @ wires (pushed_on i es)"
  using assms
proof (induction rule: sched_run.induct)
  case (run_call s es s1 w e s2 w')
  have "wires (popped_on i [e]) @ wires (queue s2 i) = wires (queue s1 i) @ wires (pushed_on i [e])"
    using step_order run_ok run_call by fastforce
  then show ?case
    using run_call by (simp flip: append_assoc) (simp add: append_assoc)
qed simp

end

end
