(* ===== verification/HTTP2_Priority.thy ===== *)
theory HTTP2_Priority
  imports HTTP2_WriteSched Complex_Main "HOL-Library.Log_Nat"
begin

text \<open>
  Package \<^verbatim>\<open>http2\<close>, file \<^verbatim>\<open>writesched_priority.go\<close>: the scheduler that follows the priority tree.

  The tree is built of nodes linked by pointers (parent, first child, previous and next
  sibling), so nodes live in a store and a pointer is an address of it, \<open>None\<close> for nil; the root,
  which is a field of the scheduler, has address 0.  Loops over pointers are partial functions
  whose value is \<open>None\<close> when the loop does not end or the code panics.

  \<^verbatim>\<open>sort.Sort\<close> is given a comparison that is not a strict order, for which its documentation
  promises no particular result; it is an argument of the operations that use it.
\<close>

type_synonym i64 = "64 word"

definition priorityDefaultWeight :: u8 where
  "priorityDefaultWeight = 15"

record PriorityWriteSchedulerConfig =
  MaxClosedNodesInTree :: int
  MaxIdleNodesInTree :: int
  ThrottleOutOfOrderWrites :: bool

datatype priorityNodeState = PriorityNodeOpen | PriorityNodeClosed | PriorityNodeIdle

record priorityNode =
  pn_q :: writeQueue
  pn_id :: u32
  pn_weight :: u8
  pn_state :: priorityNodeState
  pn_bytes :: i64
  pn_subtreeBytes :: i64
  pn_parent :: "nat option"
  pn_kids :: "nat option"
  pn_prev :: "nat option"
  pn_next :: "nat option"

type_synonym node_heap = "nat \<Rightarrow> priorityNode"

text \<open>The zero value of a node.\<close>

definition zero_node :: priorityNode where
  "zero_node =
     \<lparr>pn_q = \<lparr>wq_s = []\<rparr>, pn_id = 0, pn_weight = 0, pn_state = PriorityNodeOpen, pn_bytes = 0, pn_subtreeBytes = 0,
      pn_parent = None, pn_kids = None, pn_prev = None, pn_next = None\<rparr>"

text \<open>An assignment to a field of the node a pointer leads to.\<close>

definition assign :: "nat \<Rightarrow> (priorityNode \<Rightarrow> priorityNode) \<Rightarrow> node_heap \<Rightarrow> node_heap" where
  "assign a f h = h(a := f (h a))"

definition unlink_node :: "node_heap \<Rightarrow> nat \<Rightarrow> nat \<Rightarrow> node_heap" where
  "unlink_node h n p =
     (let h = (case pn_prev (h n) of
                 None \<Rightarrow> assign p (\<lambda>m. m\<lparr>pn_kids := pn_next (h n)\<rparr>) h
               | Some v \<Rightarrow> assign v (\<lambda>m. m\<lparr>pn_next := pn_next (h n)\<rparr>) h)
      in case pn_next (h n) of
           None \<Rightarrow> h
         | Some x \<Rightarrow> assign x (\<lambda>m. m\<lparr>pn_prev := pn_prev (h n)\<rparr>) h)"

definition link_node :: "node_heap \<Rightarrow> nat \<Rightarrow> nat option \<Rightarrow> node_heap" where
  "link_node h n parent =
     (let h = assign n (\<lambda>m. m\<lparr>pn_parent := parent\<rparr>) h in
      case parent of
        None \<Rightarrow> assign n (\<lambda>m. m\<lparr>pn_next := None, pn_prev := None\<rparr>) h
      | Some p \<Rightarrow>
          let h = assign n (\<lambda>m. m\<lparr>pn_next := pn_kids (h p), pn_prev := None\<rparr>) h;
              h = (case pn_next (h n) of None \<Rightarrow> h | Some x \<Rightarrow> assign x (\<lambda>m. m\<lparr>pn_prev := Some n\<rparr>) h)
          in assign p (\<lambda>m. m\<lparr>pn_kids := Some n\<rparr>) h)"

definition setParent :: "node_heap \<Rightarrow> nat \<Rightarrow> nat option \<Rightarrow> node_heap option" where
  "setParent h n parent =
     (if Some n = parent then None
      else if pn_parent (h n) = parent then Some h
      else
        let h = (case pn_parent (h n) of None \<Rightarrow> h | Some p \<Rightarrow> unlink_node h n p)
        in Some (link_node h n parent))"

text \<open>\<^verbatim>\<open>addBytes\<close>: the loop up to the root, and the method.\<close>

partial_function (option) add_subtree_bytes :: "node_heap \<Rightarrow> nat option \<Rightarrow> i64 \<Rightarrow> node_heap option" where
  "add_subtree_bytes h n b =
     (case n of
        None \<Rightarrow> Some h
      | Some a \<Rightarrow>
          add_subtree_bytes (assign a (\<lambda>m. m\<lparr>pn_subtreeBytes := pn_subtreeBytes m + b\<rparr>) h) (pn_parent (h a)) b)"

definition addBytes :: "node_heap \<Rightarrow> nat \<Rightarrow> i64 \<Rightarrow> node_heap option" where
  "addBytes h n b = add_subtree_bytes (assign n (\<lambda>m. m\<lparr>pn_bytes := pn_bytes m + b\<rparr>) h) (Some n) b"

section \<open>Order of siblings\<close>

text \<open>
  Go's \<^verbatim>\<open>float64\<close> where the comparison uses it: a rational rounded to 53 significant bits, ties
  to even.  The magnitudes here are far from overflow and from the subnormal range.
\<close>

definition pow2 :: "int \<Rightarrow> rat" where
  "pow2 e = (if 0 \<le> e then 2 ^ nat e else 1 / 2 ^ nat (- e))"

definition round_half_even :: "rat \<Rightarrow> int" where
  "round_half_even x =
     (let f = \<lfloor>x\<rfloor>; d = x - of_int f in if d < 1 / 2 \<or> d = 1 / 2 \<and> even f then f else f + 1)"

definition binade :: "rat \<Rightarrow> int" where
  "binade x =
     (let (p, q) = quotient_of x; k = bitlen p - bitlen q in if x < pow2 k then k - 1 else k)"

definition round_positive :: "rat \<Rightarrow> rat" where
  "round_positive x = (let u = pow2 (binade x - 52) in of_int (round_half_even (x / u)) * u)"

definition float64 :: "rat \<Rightarrow> rat" where
  "float64 x = (if x = 0 then 0 else if x < 0 then - round_positive (- x) else round_positive x)"

text \<open>
  \<^verbatim>\<open>Less\<close> on two nodes.  The sum \<^verbatim>\<open>weight+1\<close> is taken in eight bits.  A quotient by a zero
  weight is infinite, or not a number when both are zero, and no comparison with the latter holds.
\<close>

definition sibling_Less :: "node_heap \<Rightarrow> nat \<Rightarrow> nat \<Rightarrow> bool" where
  "sibling_Less h i k =
     (let wi = rat_of_nat (unat (pn_weight (h i) + 1));
          bi = float64 (rat_of_int (sint (pn_subtreeBytes (h i))));
          wk = rat_of_nat (unat (pn_weight (h k) + 1));
          bk = float64 (rat_of_int (sint (pn_subtreeBytes (h k))))
      in if bi = 0 \<and> bk = 0 then wi \<ge> wk
         else if bk = 0 then False
         else if wk = 0 then wi > 0
         else float64 (bi / bk) \<le> float64 (wi / wk))"

section \<open>The scheduler\<close>

record priorityWriteScheduler =
  ps_heap :: node_heap
  ps_fresh :: nat
  ps_nodes :: "u32 \<rightharpoonup> nat"
  ps_maxID :: u32
  ps_closedNodes :: "nat list"
  ps_idleNodes :: "nat list"
  ps_maxClosedNodesInTree :: int
  ps_maxIdleNodesInTree :: int
  ps_writeThrottleLimit :: i32
  ps_enableWriteThrottle :: bool
  ps_tmp :: "nat list"
  ps_queuePool :: "nat list"
  ps_store :: queue_store

definition root_node :: nat where
  "root_node = 0"

definition default_config :: PriorityWriteSchedulerConfig where
  "default_config = \<lparr>MaxClosedNodesInTree = 10, MaxIdleNodesInTree = 10, ThrottleOutOfOrderWrites = False\<rparr>"

definition NewPriorityWriteScheduler :: "PriorityWriteSchedulerConfig option \<Rightarrow> priorityWriteScheduler" where
  "NewPriorityWriteScheduler c =
     (let cfg = (case c of None \<Rightarrow> default_config | Some cfg \<Rightarrow> cfg) in
      \<lparr>ps_heap = (\<lambda>_. zero_node), ps_fresh = 1, ps_nodes = [0 \<mapsto> root_node], ps_maxID = 0,
       ps_closedNodes = [], ps_idleNodes = [],
       ps_maxClosedNodesInTree = MaxClosedNodesInTree cfg, ps_maxIdleNodesInTree = MaxIdleNodesInTree cfg,
       ps_writeThrottleLimit = (if ThrottleOutOfOrderWrites cfg then 1024 else 0x7fffffff),
       ps_enableWriteThrottle = ThrottleOutOfOrderWrites cfg, ps_tmp = [], ps_queuePool = [],
       ps_store = \<lparr>queues = (\<lambda>_. \<lparr>wq_s = []\<rparr>), next_queue = 0\<rparr>\<rparr>)"

text \<open>A new node with the default weight and a queue from the pool, not yet linked.\<close>

definition new_node :: "priorityWriteScheduler \<Rightarrow> u32 \<Rightarrow> priorityNodeState \<Rightarrow> nat \<times> priorityWriteScheduler" where
  "new_node ws streamID st =
     (let (a, store, pool) = pool_get (ps_store ws) (ps_queuePool ws);
          n = ps_fresh ws
      in (n, ws\<lparr>ps_store := store, ps_queuePool := pool, ps_fresh := n + 1,
            ps_heap := (ps_heap ws)(n := zero_node\<lparr>pn_q := queues store a, pn_id := streamID,
              pn_weight := priorityDefaultWeight, pn_state := st\<rparr>)\<rparr>))"

definition on_heap :: "priorityWriteScheduler \<Rightarrow> node_heap option \<Rightarrow> priorityWriteScheduler option" where
  "on_heap ws r = map_option (\<lambda>h. ws\<lparr>ps_heap := h\<rparr>) r"

definition priority_OpenStream ::
  "priorityWriteScheduler \<Rightarrow> u32 \<Rightarrow> OpenStreamOptions \<Rightarrow> priorityWriteScheduler option"
where
  "priority_OpenStream ws streamID options =
     (case ps_nodes ws streamID of
        Some cur \<Rightarrow>
          if pn_state (ps_heap ws cur) \<noteq> PriorityNodeIdle then None
          else Some (ws\<lparr>ps_heap := assign cur (\<lambda>m. m\<lparr>pn_state := PriorityNodeOpen\<rparr>) (ps_heap ws)\<rparr>)
      | None \<Rightarrow>
          let parent = (case ps_nodes ws (PusherID options) of None \<Rightarrow> root_node | Some p \<Rightarrow> p);
              (n, ws) = new_node ws streamID PriorityNodeOpen
          in map_option (\<lambda>ws. ws\<lparr>ps_nodes := (ps_nodes ws)(streamID \<mapsto> n),
                 ps_maxID := (if streamID > ps_maxID ws then streamID else ps_maxID ws)\<rparr>)
               (on_heap ws (setParent (ps_heap ws) n (Some parent))))"

text \<open>
  \<^verbatim>\<open>removeNode\<close>: the loop reads \<^verbatim>\<open>k.next\<close> after \<open>k\<close> has moved to its new parent.
\<close>

partial_function (option) move_kids :: "node_heap \<Rightarrow> nat option \<Rightarrow> nat \<Rightarrow> node_heap option" where
  "move_kids h k n =
     (case k of
        None \<Rightarrow> Some h
      | Some a \<Rightarrow>
          (case setParent h a (pn_parent (h n)) of
             None \<Rightarrow> None
           | Some h' \<Rightarrow> move_kids h' (pn_next (h' a)) n))"

definition removeNode :: "priorityWriteScheduler \<Rightarrow> nat \<Rightarrow> priorityWriteScheduler option" where
  "removeNode ws n =
     (case move_kids (ps_heap ws) (pn_kids (ps_heap ws n)) n of
        None \<Rightarrow> None
      | Some h \<Rightarrow>
          (case setParent h n None of
             None \<Rightarrow> None
           | Some h \<Rightarrow> Some (ws\<lparr>ps_heap := h, ps_nodes := (ps_nodes ws)(pn_id (h n) := None)\<rparr>)))"

text \<open>The list of nodes is the list of closed or of idle nodes; its new value is returned with the scheduler.\<close>

definition addClosedOrIdleNode ::
  "priorityWriteScheduler \<Rightarrow> nat list \<Rightarrow> int \<Rightarrow> nat \<Rightarrow> (priorityWriteScheduler \<times> nat list) option"
where
  "addClosedOrIdleNode ws list maxSize n =
     (if maxSize = 0 then Some (ws, list)
      else if int (length list) = maxSize then
        (case removeNode ws (list ! 0) of
           None \<Rightarrow> None
         | Some ws' \<Rightarrow> Some (ws', drop 1 list @ [n]))
      else Some (ws, list @ [n]))"

text \<open>A closed node is kept for a while, or removed at once.\<close>

definition retire_node :: "priorityWriteScheduler \<Rightarrow> nat \<Rightarrow> priorityWriteScheduler option" where
  "retire_node ws n =
     (if ps_maxClosedNodesInTree ws > 0 then
        map_option (\<lambda>(ws, l). ws\<lparr>ps_closedNodes := l\<rparr>)
          (addClosedOrIdleNode ws (ps_closedNodes ws) (ps_maxClosedNodesInTree ws) n)
      else removeNode ws n)"

definition priority_CloseStream :: "priorityWriteScheduler \<Rightarrow> u32 \<Rightarrow> priorityWriteScheduler option" where
  "priority_CloseStream ws streamID =
     (if streamID = 0 then None
      else
        (case ps_nodes ws streamID of
           None \<Rightarrow> None
         | Some n \<Rightarrow>
             if pn_state (ps_heap ws n) \<noteq> PriorityNodeOpen then None
             else
               let h = assign n (\<lambda>m. m\<lparr>pn_state := PriorityNodeClosed\<rparr>) (ps_heap ws) in
               (case addBytes h n (- pn_bytes (h n)) of
                  None \<Rightarrow> None
                | Some h \<Rightarrow>
                    let (q, store) = new_queue (ps_store ws) (pn_q (h n));
                        (store, pool) = pool_put store (ps_queuePool ws) q;
                        ws = ws\<lparr>ps_heap := assign n (\<lambda>m. m\<lparr>pn_q := \<lparr>wq_s = []\<rparr>\<rparr>) h,
                               ps_store := store, ps_queuePool := pool\<rparr>
                    in retire_node ws n)))"

text \<open>
  \<^verbatim>\<open>AdjustStream\<close>: the search for \<open>n\<close> among the ancestors of the new parent, and the loop that
  moves the other children of the new parent below \<open>n\<close>.
\<close>

partial_function (option) depends_on :: "node_heap \<Rightarrow> nat option \<Rightarrow> nat \<Rightarrow> bool option" where
  "depends_on h x n =
     (case x of
        None \<Rightarrow> Some False
      | Some a \<Rightarrow> if a = n then Some True else depends_on h (pn_parent (h a)) n)"

partial_function (option) adopt_siblings :: "node_heap \<Rightarrow> nat option \<Rightarrow> nat \<Rightarrow> node_heap option" where
  "adopt_siblings h k n =
     (case k of
        None \<Rightarrow> Some h
      | Some a \<Rightarrow>
          let nxt = pn_next (h a) in
          (case (if a \<noteq> n then setParent h a (Some n) else Some h) of
             None \<Rightarrow> None
           | Some h' \<Rightarrow> adopt_siblings h' nxt n))"

definition reprioritise :: "node_heap \<Rightarrow> nat \<Rightarrow> nat \<Rightarrow> PriorityParam \<Rightarrow> node_heap option" where
  "reprioritise h n parent priority =
     Option.bind (depends_on h (pn_parent (h parent)) n) (\<lambda>below.
     Option.bind (if below then setParent h parent (pn_parent (h n)) else Some h) (\<lambda>h.
     Option.bind (if Exclusive priority then adopt_siblings h (pn_kids (h parent)) n else Some h) (\<lambda>h.
     map_option (assign n (\<lambda>m. m\<lparr>pn_weight := Weight priority\<rparr>)) (setParent h n (Some parent)))))"

definition adjust_node ::
  "priorityWriteScheduler \<Rightarrow> nat \<Rightarrow> PriorityParam \<Rightarrow> priorityWriteScheduler option"
where
  "adjust_node ws n priority =
     (case ps_nodes ws (StreamDep priority) of
        None \<Rightarrow>
          on_heap ws (map_option (assign n (\<lambda>m. m\<lparr>pn_weight := priorityDefaultWeight\<rparr>))
            (setParent (ps_heap ws) n (Some root_node)))
      | Some parent \<Rightarrow>
          if n = parent then Some ws
          else on_heap ws (reprioritise (ps_heap ws) n parent priority))"

definition priority_AdjustStream ::
  "priorityWriteScheduler \<Rightarrow> u32 \<Rightarrow> PriorityParam \<Rightarrow> priorityWriteScheduler option"
where
  "priority_AdjustStream ws streamID priority =
     (if streamID = 0 then None
      else
        (case ps_nodes ws streamID of
           Some n \<Rightarrow> adjust_node ws n priority
         | None \<Rightarrow>
             if streamID \<le> ps_maxID ws \<or> ps_maxIdleNodesInTree ws = 0 then Some ws
             else
               let (n, ws) = new_node (ws\<lparr>ps_maxID := streamID\<rparr>) streamID PriorityNodeIdle in
               Option.bind (on_heap ws (setParent (ps_heap ws) n (Some root_node))) (\<lambda>ws.
               let ws = ws\<lparr>ps_nodes := (ps_nodes ws)(streamID \<mapsto> n)\<rparr> in
               Option.bind (addClosedOrIdleNode ws (ps_idleNodes ws) (ps_maxIdleNodesInTree ws) n) (\<lambda>(ws, l).
               adjust_node (ws\<lparr>ps_idleNodes := l\<rparr>) n priority))))"

definition push_on :: "priorityWriteScheduler \<Rightarrow> nat \<Rightarrow> FrameWriteRequest \<Rightarrow> priorityWriteScheduler" where
  "push_on ws n wr = ws\<lparr>ps_heap := assign n (\<lambda>m. m\<lparr>pn_q := wq_push (pn_q m) wr\<rparr>) (ps_heap ws)\<rparr>"

definition priority_Push :: "priorityWriteScheduler \<Rightarrow> FrameWriteRequest \<Rightarrow> priorityWriteScheduler option" where
  "priority_Push ws wr =
     (let i = StreamID wr in
      if i = 0 then Some (push_on ws root_node wr)
      else
        (case ps_nodes ws i of
           Some n \<Rightarrow> Some (push_on ws n wr)
         | None \<Rightarrow> if DataSize wr > 0 then None else Some (push_on ws root_node wr)))"

section \<open>The walk\<close>

text \<open>Whether the weight of some node, from the given sibling on, differs from \<open>w\<close>.\<close>

partial_function (option) need_sort :: "node_heap \<Rightarrow> u8 \<Rightarrow> nat option \<Rightarrow> bool option" where
  "need_sort h w k =
     (case k of
        None \<Rightarrow> Some False
      | Some a \<Rightarrow> if pn_weight (h a) \<noteq> w then Some True else need_sort h w (pn_next (h a)))"

text \<open>Take the children out of the tree, in order; and put a list of nodes back, the last one first.\<close>

partial_function (option) take_kids :: "node_heap \<Rightarrow> nat \<Rightarrow> nat list \<Rightarrow> (node_heap \<times> nat list) option" where
  "take_kids h n tmp =
     (case pn_kids (h n) of
        None \<Rightarrow> Some (h, tmp)
      | Some k \<Rightarrow>
          (case setParent h k None of
             None \<Rightarrow> None
           | Some h' \<Rightarrow> take_kids h' n (tmp @ [k])))"

fun put_kids :: "node_heap \<Rightarrow> nat \<Rightarrow> nat list \<Rightarrow> node_heap option" where
  "put_kids h n [] = Some h"
| "put_kids h n (k # ks) =
     (case put_kids h n ks of None \<Rightarrow> None | Some h' \<Rightarrow> setParent h' k (Some n))"

type_synonym sorter = "(nat \<Rightarrow> nat \<Rightarrow> bool) \<Rightarrow> nat list \<Rightarrow> nat list"

definition sort_kids :: "sorter \<Rightarrow> priorityWriteScheduler \<Rightarrow> nat \<Rightarrow> priorityWriteScheduler option" where
  "sort_kids srt ws n =
     (case take_kids (ps_heap ws) n [] of
        None \<Rightarrow> None
      | Some (h, tmp) \<Rightarrow>
          let tmp = srt (sibling_Less h) tmp in
          map_option (\<lambda>h. ws\<lparr>ps_heap := h, ps_tmp := tmp\<rparr>) (put_kids h n tmp))"

text \<open>The children are sorted unless there are none or all have the same weight.\<close>

definition ordered_kids :: "sorter \<Rightarrow> priorityWriteScheduler \<Rightarrow> nat \<Rightarrow> priorityWriteScheduler option" where
  "ordered_kids srt ws n =
     (case pn_kids (ps_heap ws n) of
        None \<Rightarrow> Some ws
      | Some k \<Rightarrow>
          Option.bind (need_sort (ps_heap ws) (pn_weight (ps_heap ws k)) (pn_next (ps_heap ws k))) (\<lambda>needSort.
          if \<not> needSort then Some ws else sort_kids srt ws n))"

text \<open>The flag passed to the children: the root does not count as open.\<close>

definition open_below :: "node_heap \<Rightarrow> nat \<Rightarrow> bool \<Rightarrow> bool" where
  "open_below h n openParent =
     (if pn_id (h n) \<noteq> 0 then openParent \<or> pn_state (h n) = PriorityNodeOpen else openParent)"

text \<open>
  The variables the visitor of \<^verbatim>\<open>Pop\<close> changes: the scheduler, the windows, and the named results
  \<^verbatim>\<open>wr, ok\<close>.
\<close>

record pop_state =
  po_ws :: priorityWriteScheduler
  po_net :: net
  po_wr :: FrameWriteRequest
  po_ok :: bool

type_synonym visitor = "pop_state \<Rightarrow> nat \<Rightarrow> bool \<Rightarrow> (pop_state \<times> bool) option"

definition visit_node :: "visitor \<Rightarrow> pop_state \<Rightarrow> nat \<Rightarrow> bool \<Rightarrow> (pop_state \<times> bool) option" where
  "visit_node f s n openParent =
     (if wq_empty (pn_q (ps_heap (po_ws s) n)) then Some (s, False) else f s n openParent)"

text \<open>
  \<^verbatim>\<open>walkReadyInOrder\<close> and its loop over the children, which call each other: visiting a node, and
  visiting the siblings from a given one on.  The first argument is the sorting function and the
  visitor.
\<close>

datatype walk_call = Visit nat bool | Siblings "nat option" bool

partial_function (option) walkReadyInOrder ::
  "sorter \<times> visitor \<Rightarrow> pop_state \<Rightarrow> walk_call \<Rightarrow> (pop_state \<times> bool) option"
where
  "walkReadyInOrder env s call =
     (case call of
        Visit n openParent \<Rightarrow>
          Option.bind (visit_node (snd env) s n openParent) (\<lambda>(s1, stop).
          if stop then Some (s1, True)
          else Option.bind (ordered_kids (fst env) (po_ws s1) n) (\<lambda>ws.
            walkReadyInOrder env (s1\<lparr>po_ws := ws\<rparr>)
              (Siblings (pn_kids (ps_heap ws n)) (open_below (ps_heap (po_ws s1)) n openParent))))
      | Siblings k openParent \<Rightarrow>
          (case k of
             None \<Rightarrow> Some (s, False)
           | Some a \<Rightarrow>
               Option.bind (walkReadyInOrder env s (Visit a openParent)) (\<lambda>(s1, stop).
               if stop then Some (s1, True)
               else walkReadyInOrder env s1 (Siblings (pn_next (ps_heap (po_ws s1) a)) openParent))))"

definition pop_visit :: visitor where
  "pop_visit s n openParent =
     (let ws = po_ws s;
          limit = (if openParent then ps_writeThrottleLimit ws else 0x7fffffff)
      in case wq_consume (po_net s) (pn_q (ps_heap ws n)) limit of
        None \<Rightarrow> None
      | Some (wr, ok, q, w) \<Rightarrow>
          let ws = ws\<lparr>ps_heap := assign n (\<lambda>m. m\<lparr>pn_q := q\<rparr>) (ps_heap ws)\<rparr>;
              s = s\<lparr>po_ws := ws, po_net := w, po_wr := wr, po_ok := ok\<rparr>
          in if \<not> ok then Some (s, False)
          else
            (case addBytes (ps_heap ws) n (of_nat (DataSize wr)) of
               None \<Rightarrow> None
             | Some h \<Rightarrow>
                 let ws = ws\<lparr>ps_heap := h\<rparr>;
                     ws = (if openParent then
                             (let l = ps_writeThrottleLimit ws + 1024
                              in ws\<lparr>ps_writeThrottleLimit := (if sint l < 0 then 0x7fffffff else l)\<rparr>)
                           else if ps_enableWriteThrottle ws then ws\<lparr>ps_writeThrottleLimit := 1024\<rparr>
                           else ws)
                 in Some (s\<lparr>po_ws := ws\<rparr>, True)))"

definition priority_Pop ::
  "sorter \<Rightarrow> net \<Rightarrow> priorityWriteScheduler \<Rightarrow> (FrameWriteRequest \<times> bool \<times> priorityWriteScheduler \<times> net) option"
where
  "priority_Pop srt w ws =
     map_option (\<lambda>(s, _). (po_wr s, po_ok s, po_ws s, po_net s))
       (walkReadyInOrder (srt, pop_visit) \<lparr>po_ws = ws, po_net = w, po_wr = empty_request, po_ok = False\<rparr>
         (Visit root_node False))"

end
