(* ===== verification/HTTP2_Priority_Tree.thy ===== *)
theory HTTP2_Priority_Tree
  imports HTTP2_Priority "HOL-Library.Multiset"
begin

text \<open>
  The pointer structure of the priority tree: the sibling lists of the heap represent lists of
  children, the links are consistent, and moving a node with \<^verbatim>\<open>setParent\<close> implements moving it
  between these lists.  Termination of the loops that climb to the root.
\<close>

section \<open>Neighbours in a list\<close>

fun first :: "'a list \<Rightarrow> 'a option" where
  "first [] = None"
| "first (x # xs) = Some x"

fun next_in :: "'a list \<Rightarrow> 'a \<Rightarrow> 'a option" where
  "next_in (x # y # zs) a = (if a = x then Some y else next_in (y # zs) a)"
| "next_in _ a = None"

fun prev_in :: "'a list \<Rightarrow> 'a \<Rightarrow> 'a option" where
  "prev_in (x # y # zs) a = (if a = y then Some x else prev_in (y # zs) a)"
| "prev_in _ a = None"

lemma first_None [simp]: "first xs = None \<longleftrightarrow> xs = []"
  by (cases xs) simp_all

lemma first_Some: "first xs = Some x \<longleftrightarrow> (\<exists>ys. xs = x # ys)"
  by (cases xs) auto

lemma first_mem [dest]: "first xs = Some x \<Longrightarrow> x \<in> set xs"
  by (cases xs) auto

lemma next_in_mem: "next_in xs a = Some b \<Longrightarrow> a \<in> set xs \<and> b \<in> set (tl xs)"
  by (induction xs a rule: next_in.induct) (auto split: if_splits)

lemma prev_in_mem: "prev_in xs b = Some a \<Longrightarrow> b \<in> set (tl xs) \<and> a \<in> set xs"
  by (induction xs b rule: prev_in.induct) (auto split: if_splits)

lemma next_in_notin [simp]: "a \<notin> set xs \<Longrightarrow> next_in xs a = None"
  by (induction xs a rule: next_in.induct) auto

lemma prev_in_notin [simp]: "a \<notin> set xs \<Longrightarrow> prev_in xs a = None"
  by (induction xs a rule: prev_in.induct) auto

lemma next_in_Cons: "n \<notin> set xs \<Longrightarrow> next_in (n # xs) a = (if a = n then first xs else next_in xs a)"
  by (cases xs) auto

lemma prev_in_Cons: "n \<notin> set xs \<Longrightarrow> distinct xs \<Longrightarrow>
    prev_in (n # xs) a = (if first xs = Some a then Some n else prev_in xs a)"
  by (cases xs) auto

lemma prev_in_first: "distinct xs \<Longrightarrow> first xs = Some a \<Longrightarrow> prev_in xs a = None"
  by (cases xs) (auto dest: prev_in_mem simp: prev_in_Cons)

lemma prev_next_in: "distinct xs \<Longrightarrow> prev_in xs b = Some a \<longleftrightarrow> next_in xs a = Some b"
proof (induction xs)
  case (Cons x xs)
  then show ?case
    using next_in_mem [of xs a b] prev_in_mem [of xs b a] prev_in_first [of xs b]
    by (auto simp: prev_in_Cons next_in_Cons split: if_splits)
qed simp

lemma neighbour_irrefl: "distinct xs \<Longrightarrow> next_in xs a \<noteq> Some a" "distinct xs \<Longrightarrow> prev_in xs a \<noteq> Some a"
proof -
  show "distinct xs \<Longrightarrow> next_in xs a \<noteq> Some a"
    by (induction xs a rule: next_in.induct) auto
  then show "distinct xs \<Longrightarrow> prev_in xs a \<noteq> Some a"
    by (simp add: prev_next_in)
qed

lemma prev_in_None: "distinct xs \<Longrightarrow> a \<in> set xs \<Longrightarrow> prev_in xs a = None \<longleftrightarrow> first xs = Some a"
proof (induction xs)
  case (Cons x xs)
  then show ?case
    by (auto simp: prev_in_Cons)
qed simp

lemma remove1_neighbours:
  assumes "distinct xs" "n \<in> set xs"
  shows "first (remove1 n xs) = (if prev_in xs n = None then next_in xs n else first xs)"
    and "a \<noteq> n \<Longrightarrow> next_in (remove1 n xs) a = (if prev_in xs n = Some a then next_in xs n else next_in xs a)"
    and "a \<noteq> n \<Longrightarrow> prev_in (remove1 n xs) a = (if next_in xs n = Some a then prev_in xs n else prev_in xs a)"
proof -
  have first: "first (remove1 n xs) = (if prev_in xs n = None then next_in xs n else first xs)"
    if "distinct xs" "n \<in> set xs" for xs :: "'a list"
    using that by (cases xs) (auto simp: prev_in_None next_in_Cons)
  show "first (remove1 n xs) = (if prev_in xs n = None then next_in xs n else first xs)"
    using assms by (rule first)
  have nxt: "next_in (remove1 n xs) a = (if prev_in xs n = Some a then next_in xs n else next_in xs a)" if "a \<noteq> n" for a
    using assms that
  proof (induction xs)
    case (Cons x xs)
    then show ?case
      using prev_in_None [of xs n] next_in_mem [of xs a n] first [of xs]
      by (cases "x = n") (auto simp: prev_in_Cons next_in_Cons first_Some prev_next_in split: if_splits)
  qed simp
  then show "next_in (remove1 n xs) a = (if prev_in xs n = Some a then next_in xs n else next_in xs a)" if "a \<noteq> n"
    using that .
  show "prev_in (remove1 n xs) a = (if next_in xs n = Some a then prev_in xs n else prev_in xs a)" if "a \<noteq> n"
  proof -
    have "next_in (remove1 n xs) n = None"
      using assms(1) by simp
    moreover have "next_in xs b = Some a \<Longrightarrow> next_in xs n = Some a \<Longrightarrow> b = n" for b
      using prev_next_in [OF assms(1)] by (metis option.inject)
    ultimately have "prev_in (remove1 n xs) a = Some b \<longleftrightarrow>
        (if next_in xs n = Some a then prev_in xs n else prev_in xs a) = Some b" for b
      using prev_next_in [of "remove1 n xs" a b] prev_next_in [OF assms(1)] assms nxt [of b] that
      by (cases "b = n") (auto split: if_splits)
    then show ?thesis
      by (metis option.exhaust)
  qed
qed

section \<open>Linked lists of children\<close>

type_synonym forest = "nat \<Rightarrow> nat list"

text \<open>
  The heap represents the lists \<open>K\<close>, except for the links of the nodes in \<open>N\<close>, which are in no
  list: the first child, the neighbours and the parents are those of the lists.
\<close>

definition linked_but :: "nat set \<Rightarrow> node_heap \<Rightarrow> forest \<Rightarrow> bool" where
  "linked_but N h K \<longleftrightarrow>
     (\<forall>p. pn_kids (h p) = first (K p) \<and> distinct (K p)) \<and>
     (\<forall>a p. a \<in> set (K p) \<longrightarrow> a \<notin> N \<and> pn_prev (h a) = prev_in (K p) a \<and> pn_next (h a) = next_in (K p) a) \<and>
     (\<forall>a p. a \<notin> N \<longrightarrow> pn_parent (h a) = Some p \<longleftrightarrow> a \<in> set (K p)) \<and>
     (\<forall>a. a \<notin> N \<longrightarrow> pn_parent (h a) = None \<longrightarrow> pn_prev (h a) = None \<and> pn_next (h a) = None)"

abbreviation linked :: "node_heap \<Rightarrow> forest \<Rightarrow> bool" where
  "linked \<equiv> linked_but {}"

lemma linked_butD:
  assumes "linked_but N h K"
  shows "pn_kids (h p) = first (K p)" "distinct (K p)"
    and "a \<in> set (K p) \<Longrightarrow> a \<notin> N" "a \<in> set (K p) \<Longrightarrow> pn_prev (h a) = prev_in (K p) a"
    and "a \<in> set (K p) \<Longrightarrow> pn_next (h a) = next_in (K p) a"
    and "a \<notin> N \<Longrightarrow> pn_parent (h a) = Some p \<longleftrightarrow> a \<in> set (K p)"
    and "a \<notin> N \<Longrightarrow> pn_parent (h a) = None \<Longrightarrow> pn_prev (h a) = None"
    and "a \<notin> N \<Longrightarrow> pn_parent (h a) = None \<Longrightarrow> pn_next (h a) = None"
  using assms unfolding linked_but_def by blast+

lemma linked_unique_list: "linked_but N h K \<Longrightarrow> a \<in> set (K p) \<Longrightarrow> a \<in> set (K p') \<Longrightarrow> p = p'"
  using linked_butD(3,6) by (metis option.inject)

lemma assign_apply: "assign a f h b = (if b = a then f (h b) else h b)"
  by (simp add: assign_def)

text \<open>Nodes differ in their links only.\<close>

definition same_data :: "priorityNode \<Rightarrow> priorityNode \<Rightarrow> bool" where
  "same_data m m' \<longleftrightarrow>
     pn_q m = pn_q m' \<and> pn_id m = pn_id m' \<and> pn_weight m = pn_weight m' \<and> pn_state m = pn_state m' \<and>
     pn_bytes m = pn_bytes m' \<and> pn_subtreeBytes m = pn_subtreeBytes m'"

lemma same_data_refl [simp]: "same_data m m"
  by (simp add: same_data_def)

lemma same_data_trans [trans]: "same_data m m' \<Longrightarrow> same_data m' m'' \<Longrightarrow> same_data m m''"
  by (simp add: same_data_def)

lemma unlink_fields:
  assumes "pn_prev (h n) \<noteq> Some n" "pn_next (h n) \<noteq> Some n"
  shows "pn_kids (unlink_node h n p a) = (if a = p \<and> pn_prev (h n) = None then pn_next (h n) else pn_kids (h a))"
    and "pn_next (unlink_node h n p a) = (if pn_prev (h n) = Some a then pn_next (h n) else pn_next (h a))"
    and "pn_prev (unlink_node h n p a) = (if pn_next (h n) = Some a then pn_prev (h n) else pn_prev (h a))"
  using assms by (auto simp: unlink_node_def Let_def assign_apply split: option.split)

lemma unlink_data [simp]:
  "pn_parent (unlink_node h n p a) = pn_parent (h a)" "same_data (unlink_node h n p a) (h a)"
  by (auto simp: unlink_node_def Let_def assign_apply same_data_def split: option.split)

lemma link_fields:
  assumes "pn_kids (h p) \<noteq> Some n" "p \<noteq> n"
  shows "pn_kids (link_node h n (Some p) a) = (if a = p then Some n else pn_kids (h a))"
    and "pn_next (link_node h n (Some p) a) = (if a = n then pn_kids (h p) else pn_next (h a))"
    and "pn_prev (link_node h n (Some p) a) = (if a = n then None else if pn_kids (h p) = Some a then Some n else pn_prev (h a))"
  using assms by (auto simp: link_node_def Let_def assign_apply split: option.split)

lemma link_data [simp]:
  "pn_parent (link_node h n new a) = (if a = n then new else pn_parent (h a))" "same_data (link_node h n new a) (h a)"
  by (auto simp: link_node_def Let_def assign_apply same_data_def split: option.split)

lemma link_none_fields:
  shows "pn_kids (link_node h n None a) = pn_kids (h a)"
    and "pn_next (link_node h n None a) = (if a = n then None else pn_next (h a))"
    and "pn_prev (link_node h n None a) = (if a = n then None else pn_prev (h a))"
  by (auto simp: link_node_def Let_def assign_apply)

lemma unlink_linked:
  assumes "linked h K" "pn_parent (h n) = Some p"
  shows "linked_but {n} (unlink_node h n p) (K(p := remove1 n (K p)))"
proof -
  note D = linked_butD [OF assms(1), simplified]
  have n: "n \<in> set (K p)"
    using assms(2) D(6) by blast
  have d: "distinct (K p)"
    by (rule D(2))
  note prev = D(4) [OF n] and nxt = D(5) [OF n]
  note irrefl = neighbour_irrefl [OF d, of n]
  note fields = unlink_fields [of h n p, unfolded prev nxt, OF irrefl(2,1)]
  have out: "a \<notin> set (K p)" if "a \<in> set (K p')" "p' \<noteq> p" for a p'
    using that linked_unique_list [OF assms(1)] by blast
  have far: "prev_in (K p) n \<noteq> Some a" "next_in (K p) n \<noteq> Some a" if "a \<notin> set (K p)" for a
    using that prev_in_mem next_in_mem by (metis list.set_sel(2) n list.distinct(1) empty_iff empty_set)+
  have mem: "\<exists>p. a \<in> set (K p)" if "next_in (K p) n = Some a \<or> prev_in (K p) n = Some a" for a
    using that far by blast
  have lone: "next_in (K p) n \<noteq> Some a" "prev_in (K p) n \<noteq> Some a" if "pn_parent (h a) = None" for a
    using that mem D(6) by (metis option.distinct(1))+
  show ?thesis
    unfolding linked_but_def
    by (auto simp: fields D remove1_neighbours [OF d n] d prev_in_None [OF d n] n out far mem lone dest: out split: if_splits)
qed

lemma link_linked:
  assumes "linked_but {n} h K" "p \<noteq> n"
  shows "linked (link_node h n (Some p)) (K(p := n # K p))"
proof -
  note D = linked_butD [OF assms(1), simplified]
  have n: "n \<notin> set (K p')" for p'
    using D(3) by blast
  have head: "first (K p) \<noteq> Some n"
    using n [of p] by blast
  note fields = link_fields [of h p n, unfolded D(1), OF head assms(2)]
  have out: "a \<notin> set (K p)" if "a \<in> set (K p')" "p' \<noteq> p" for a p'
    using that linked_unique_list [OF assms(1)] by blast
  have lone: "first (K p) \<noteq> Some a" if "pn_parent (h a) = None" "a \<noteq> n" for a
    using that D(6) by (metis first_mem option.distinct(1))
  show ?thesis
    unfolding linked_but_def
    by (auto simp: fields D next_in_Cons prev_in_Cons n lone dest: out split: if_splits)
qed

lemma link_none_linked:
  assumes "linked_but {n} h K"
  shows "linked (link_node h n None) K"
proof -
  note D = linked_butD [OF assms(1), simplified]
  have n: "n \<notin> set (K p')" for p'
    using D(3) by blast
  show ?thesis
    unfolding linked_but_def by (auto simp: link_none_fields D n split: if_splits)
qed

lemma lone_linked: "linked h K \<Longrightarrow> pn_parent (h n) = None \<Longrightarrow> linked_but {n} h K"
  unfolding linked_but_def by (metis empty_iff option.distinct(1) singletonD)

text \<open>What \<^verbatim>\<open>setParent\<close> does to the lists of children.\<close>

definition move_node :: "nat option \<Rightarrow> nat \<Rightarrow> nat option \<Rightarrow> forest \<Rightarrow> forest" where
  "move_node old n new K =
     (if old = new then K
      else
        let K = (case old of None \<Rightarrow> K | Some p \<Rightarrow> K(p := remove1 n (K p)))
        in case new of None \<Rightarrow> K | Some p \<Rightarrow> K(p := n # K p))"

lemma setParent_linked:
  assumes "linked h K" "new \<noteq> Some n"
  shows "\<exists>h'. setParent h n new = Some h' \<and> linked h' (move_node (pn_parent (h n)) n new K) \<and>
    (\<forall>a. pn_parent (h' a) = (if a = n then new else pn_parent (h a))) \<and> (\<forall>a. same_data (h' a) (h a))"
proof (cases "pn_parent (h n) = new")
  case True
  then have "setParent h n new = Some h"
    using assms(2) by (auto simp: setParent_def)
  then show ?thesis
    using assms(1) True by (auto simp: move_node_def)
next
  case False
  let ?h = "case pn_parent (h n) of None \<Rightarrow> h | Some p \<Rightarrow> unlink_node h n p"
  let ?K = "case pn_parent (h n) of None \<Rightarrow> K | Some p \<Rightarrow> K(p := remove1 n (K p))"
  have set: "setParent h n new = Some (link_node ?h n new)"
    using False assms(2) by (auto simp: setParent_def)
  have mid: "linked_but {n} ?h ?K"
    using unlink_linked [OF assms(1)] lone_linked [OF assms(1)] by (simp split: option.split)
  have old: "pn_parent (?h a) = pn_parent (h a)" "same_data (?h a) (h a)" for a
    by (auto split: option.split)
  have new: "linked (link_node ?h n new) (move_node (pn_parent (h n)) n new K)"
    using False assms(2) link_none_linked [OF mid] link_linked [OF mid]
    by (cases new) (auto simp: move_node_def Let_def)
  have "same_data (link_node ?h n new a) (h a)" for a
    using same_data_trans link_data(2) old(2) by blast
  then show ?thesis
    using set new old by auto
qed

section \<open>Chains of parents\<close>

abbreviation parents :: "node_heap \<Rightarrow> nat \<Rightarrow> nat option" where
  "parents h \<equiv> (\<lambda>a. pn_parent (h a))"

text \<open>The chain of parents from a node ends.\<close>

inductive grounded :: "(nat \<Rightarrow> nat option) \<Rightarrow> nat \<Rightarrow> bool" for P where
  grounded_top: "P a = None \<Longrightarrow> grounded P a"
| grounded_up: "P a = Some p \<Longrightarrow> grounded P p \<Longrightarrow> grounded P a"

text \<open>\<open>b\<close> is \<open>a\<close> or an ancestor of it.\<close>

inductive above :: "(nat \<Rightarrow> nat option) \<Rightarrow> nat \<Rightarrow> nat \<Rightarrow> bool" for P where
  above_refl [intro!, simp]: "above P a a"
| above_up: "P a = Some p \<Longrightarrow> above P p b \<Longrightarrow> above P a b"

inductive_cases above_cases: "above P a b"

lemma above_iff: "above P a b \<longleftrightarrow> a = b \<or> (\<exists>p. P a = Some p \<and> above P p b)"
  by (auto intro: above_up elim: above_cases)

lemma above_trans: "above P a b \<Longrightarrow> above P b c \<Longrightarrow> above P a c"
  by (induction rule: above.induct) (auto intro: above_up)

lemma above_parent: "above P a b \<Longrightarrow> P b = Some c \<Longrightarrow> above P a c"
  by (rule above_trans) (auto intro: above_up)

text \<open>No node is its own proper ancestor.\<close>

lemma grounded_irrefl:
  assumes "grounded P a" "P a = Some p"
  shows "\<not> above P p a"
proof -
  have "grounded P a \<Longrightarrow> P a = Some p \<Longrightarrow> above P p b \<Longrightarrow> b \<noteq> a" for a p b
  proof (induction arbitrary: p b rule: grounded.induct)
    case (grounded_up a q)
    show ?case
    proof
      assume "b = a"
      with grounded_up have "above P q a"
        by simp
      then obtain r where "P q = Some r" "above P r q"
        using grounded_up.hyps(1) by (metis above_iff above_parent)
      then show False
        using grounded_up.IH by blast
    qed
  qed simp
  then show ?thesis
    using assms by blast
qed

lemma grounded_avoid:
  "grounded P a \<Longrightarrow> (\<And>b. above P a b \<Longrightarrow> P' b = P b) \<Longrightarrow> grounded P' a"
proof (induction rule: grounded.induct)
  case (grounded_up a p)
  have "grounded P' p"
    using grounded_up above_up by metis
  moreover have "P' a = Some p"
    using grounded_up by simp
  ultimately show ?case
    by (rule grounded.grounded_up [rotated])
qed (simp add: grounded.grounded_top)

text \<open>A change of some links leaves all chains finite if those from the changed nodes are.\<close>

lemma grounded_change:
  assumes "\<And>x. grounded P x" "\<And>x. x \<notin> S \<Longrightarrow> P' x = P x" "\<And>x. x \<in> S \<Longrightarrow> grounded P' x"
  shows "grounded P' x"
proof -
  have "grounded P x \<Longrightarrow> grounded P' x" for x
    by (induction rule: grounded.induct) (metis assms(2,3) grounded.intros)+
  then show ?thesis
    using assms(1) .
qed

lemma grounded_move:
  assumes "\<And>x. grounded P x" "\<And>p. new = Some p \<Longrightarrow> \<not> above P p n"
  shows "grounded (P(n := new)) x"
proof (rule grounded_change [OF assms(1), where S = "{n}"])
  fix y
  assume "y \<in> {n}"
  then show "grounded (P(n := new)) y"
  proof (cases new)
    case (Some p)
    have "c \<noteq> n" if "above P p c" for c
      using that assms(2) [OF Some] by blast
    then have "grounded (P(n := new)) p"
      by (intro grounded_avoid [OF assms(1)]) simp
    then show ?thesis
      using grounded_up [of "P(n := new)" n p] Some \<open>y \<in> {n}\<close> by simp
  qed (auto intro: grounded_top)
qed simp

lemma above_change:
  "above P a b \<Longrightarrow> (\<And>c. above P a c \<Longrightarrow> P' c = P c) \<Longrightarrow> above P' a b"
proof (induction rule: above.induct)
  case (above_up a p b)
  have "above P' p b"
    using above_up.IH above_up.prems above.above_up [of P, OF above_up.hyps(1)] by simp
  then show ?case
    using above_up.hyps(1) above_up.prems [of a] by (auto intro: above.above_up)
qed simp

section \<open>Loops that climb\<close>

text \<open>\<^verbatim>\<open>addBytes\<close> ends, and adds to the node and to each of its ancestors once.\<close>

lemma add_subtree_bytes_Some:
  assumes "grounded (parents h) a"
  shows "\<exists>h'. add_subtree_bytes h (Some a) b = Some h' \<and>
    (\<forall>x. h' x = (h x)\<lparr>pn_subtreeBytes := pn_subtreeBytes (h x) + (if above (parents h) a x then b else 0)\<rparr>)"
proof -
  have "grounded P a \<Longrightarrow> parents h = P \<Longrightarrow> \<exists>h'. add_subtree_bytes h (Some a) b = Some h' \<and>
    (\<forall>x. h' x = (h x)\<lparr>pn_subtreeBytes := pn_subtreeBytes (h x) + (if above P a x then b else 0)\<rparr>)" for P
  proof (induction arbitrary: h rule: grounded.induct)
    case (grounded_top a)
    then have "above P a x \<longleftrightarrow> x = a" for x
      by (subst above_iff) auto
    moreover have "pn_parent (h a) = None"
      using grounded_top by auto
    ultimately show ?case
      by (simp add: add_subtree_bytes.simps [of h "Some a"] add_subtree_bytes.simps [of _ None] assign_apply)
  next
    case (grounded_up a p)
    let ?h = "assign a (\<lambda>m. m\<lparr>pn_subtreeBytes := pn_subtreeBytes m + b\<rparr>) h"
    have "parents ?h = P"
      using grounded_up.prems by (auto simp: assign_apply)
    then obtain h' where h': "add_subtree_bytes ?h (Some p) b = Some h'"
      "\<forall>x. h' x = (?h x)\<lparr>pn_subtreeBytes := pn_subtreeBytes (?h x) + (if above P p x then b else 0)\<rparr>"
      using grounded_up.IH by blast
    have "\<not> above P p a"
      using grounded_irrefl grounded_up.hyps by (blast intro: grounded.grounded_up)
    moreover have "above P a x \<longleftrightarrow> x = a \<or> above P p x" for x
      using grounded_up.hyps(1) by (subst above_iff) auto
    moreover have "add_subtree_bytes h (Some a) b = Some h'"
      using h'(1) grounded_up.hyps(1) grounded_up.prems by (subst add_subtree_bytes.simps) auto
    ultimately show ?case
      using h'(2) by (auto simp: assign_apply)
  qed
  then show ?thesis
    using assms by blast
qed

lemma addBytes_Some:
  assumes "grounded (parents h) n"
  shows "\<exists>h'. addBytes h n b = Some h' \<and>
    (\<forall>x. h' x = (h x)\<lparr>pn_bytes := pn_bytes (h x) + (if x = n then b else 0),
      pn_subtreeBytes := pn_subtreeBytes (h x) + (if above (parents h) n x then b else 0)\<rparr>)"
proof -
  let ?h = "assign n (\<lambda>m. m\<lparr>pn_bytes := pn_bytes m + b\<rparr>) h"
  have "parents ?h = parents h"
    by (auto simp: assign_apply)
  then show ?thesis
    using add_subtree_bytes_Some [of ?h n b] assms by (auto simp: addBytes_def assign_apply)
qed

text \<open>The search of \<^verbatim>\<open>AdjustStream\<close> ends, and finds out whether one node is above the other.\<close>

lemma depends_on_Some:
  assumes "grounded (parents h) a"
  shows "depends_on h (Some a) n = Some (above (parents h) a n)"
  using assms
proof (induction rule: grounded.induct)
  case (grounded_top a)
  then show ?case
    by (subst depends_on.simps, subst above_iff) (simp add: depends_on.simps [of h None])
next
  case (grounded_up a p)
  then show ?case
    by (subst depends_on.simps, subst above_iff) auto
qed

section \<open>The tree invariant\<close>

definition tree_ok :: "node_heap \<Rightarrow> forest \<Rightarrow> bool" where
  "tree_ok h K \<longleftrightarrow> linked h K \<and> (\<forall>a. grounded (parents h) a)"

lemma tree_okD:
  assumes "tree_ok h K"
  shows "linked h K" "grounded (parents h) a" "pn_kids (h p) = first (K p)" "distinct (K p)"
    and "pn_parent (h a) = Some p \<longleftrightarrow> a \<in> set (K p)"
    and "a \<in> set (K p) \<Longrightarrow> pn_next (h a) = next_in (K p) a"
    and "a \<in> set (K p) \<Longrightarrow> \<not> above (parents h) p a"
proof -
  show linked: "linked h K" and ground: "grounded (parents h) a" for a
    using assms by (auto simp: tree_ok_def)
  note D = linked_butD [OF linked, simplified]
  show "pn_kids (h p) = first (K p)" "distinct (K p)" "pn_parent (h a) = Some p \<longleftrightarrow> a \<in> set (K p)"
    "a \<in> set (K p) \<Longrightarrow> pn_next (h a) = next_in (K p) a"
    by (fact D)+
  show "a \<in> set (K p) \<Longrightarrow> \<not> above (parents h) p a"
    using grounded_irrefl [OF ground, of a p] D(6) by blast
qed

text \<open>Changes of the data of the nodes leave the tree as it is.\<close>

definition same_links :: "priorityNode \<Rightarrow> priorityNode \<Rightarrow> bool" where
  "same_links m m' \<longleftrightarrow>
     pn_parent m = pn_parent m' \<and> pn_kids m = pn_kids m' \<and> pn_prev m = pn_prev m' \<and> pn_next m = pn_next m'"

lemma tree_ok_same_links:
  assumes "tree_ok h K" "\<forall>a. same_links (h' a) (h a)"
  shows "tree_ok h' K" "parents h' = parents h"
proof -
  show P: "parents h' = parents h"
    using assms(2) by (simp add: same_links_def)
  have "linked h' K"
    using tree_okD(1) [OF assms(1)] assms(2) by (simp add: linked_but_def same_links_def)
  then show "tree_ok h' K"
    using tree_okD(2) [OF assms(1)] unfolding tree_ok_def P by blast
qed

lemma setParent_ok:
  assumes "tree_ok h K" "\<And>p. new = Some p \<Longrightarrow> \<not> above (parents h) p n"
  shows "\<exists>h'. setParent h n new = Some h' \<and> tree_ok h' (move_node (pn_parent (h n)) n new K) \<and>
    parents h' = (parents h)(n := new) \<and> (\<forall>a. same_data (h' a) (h a))"
proof -
  have "new \<noteq> Some n"
    using assms(2) by blast
  with tree_okD(1) [OF assms(1)] obtain h' where h': "setParent h n new = Some h'"
    "linked h' (move_node (pn_parent (h n)) n new K)"
    "\<forall>a. pn_parent (h' a) = (if a = n then new else pn_parent (h a))" "\<forall>a. same_data (h' a) (h a)"
    using setParent_linked by blast
  have P: "parents h' = (parents h)(n := new)"
    using h'(3) by auto
  have "grounded ((parents h)(n := new)) a" for a
    by (rule grounded_move [OF tree_okD(2) [OF assms(1)]]) (rule assms(2))
  then have "tree_ok h' (move_node (pn_parent (h n)) n new K)"
    using h'(2) P by (simp add: tree_ok_def)
  then show ?thesis
    using h'(1,4) P by blast
qed

lemma next_in_split: "distinct (xs @ a # ys) \<Longrightarrow> next_in (xs @ a # ys) a = first ys"
proof (induction xs)
  case Nil
  then show ?case
    by (simp add: next_in_Cons)
next
  case (Cons x xs)
  then show ?case
    by (auto simp: next_in_Cons)
qed

text \<open>
  The loop of \<^verbatim>\<open>removeNode\<close>: once the first child is in its new list, the rest of the loop
  walks along that list, where every node has its place already.
\<close>

lemma move_kids_idle:
  assumes "tree_ok h K" "pn_parent (h n) = Some p" "K p = xs @ ys"
  shows "move_kids h (first ys) n = Some h"
  using assms(3)
proof (induction ys arbitrary: xs)
  case Nil
  then show ?case
    by (simp add: move_kids.simps [of h None])
next
  case (Cons a ys)
  have a: "a \<in> set (K p)"
    using Cons.prems by simp
  have "pn_parent (h a) = Some p"
    using tree_okD(5) [OF assms(1)] a by simp
  moreover have "a \<noteq> p"
    using tree_okD(7) [OF assms(1) a] by auto
  ultimately have "setParent h a (pn_parent (h n)) = Some h"
    using assms(2) by (simp add: setParent_def)
  moreover have "pn_next (h a) = first ys"
    using tree_okD(4) [OF assms(1), of p] tree_okD(6) [OF assms(1) a] next_in_split [of xs a ys] unfolding Cons.prems by simp
  ultimately have "move_kids h (first (a # ys)) n = move_kids h (first ys) n"
    by (simp add: move_kids.simps [of h "Some a"])
  then show ?case
    using Cons.IH [of "xs @ [a]"] Cons.prems by simp
qed

text \<open>So the loop moves the first child and no other.\<close>

lemma move_kids_first:
  assumes "tree_ok h K" "K n = k # ks"
  shows "move_kids h (pn_kids (h n)) n = setParent h k (pn_parent (h n))"
    and "p = pn_parent (h n) \<Longrightarrow> \<exists>h'. setParent h k p = Some h' \<and> tree_ok h' (move_node (Some n) k p K) \<and>
      parents h' = (parents h)(k := p) \<and> (\<forall>a. same_data (h' a) (h a))"
proof -
  have k: "pn_parent (h k) = Some n" "k \<noteq> n"
    using tree_okD(5) [OF assms(1), of k n] tree_okD(7) [OF assms(1), of k n] assms(2) by auto
  have up: "\<not> above (parents h) p k" if "pn_parent (h n) = Some p" for p
    using grounded_irrefl [OF tree_okD(2) [OF assms(1)], of n p] that k(1) above_parent [of "parents h" p k n] by blast
  then obtain h' where h': "setParent h k (pn_parent (h n)) = Some h'"
    "tree_ok h' (move_node (Some n) k (pn_parent (h n)) K)"
    "parents h' = (parents h)(k := pn_parent (h n))" "\<forall>a. same_data (h' a) (h a)"
    using setParent_ok [OF assms(1), of "pn_parent (h n)" k] k(1) by metis
  then show "p = pn_parent (h n) \<Longrightarrow> \<exists>h'. setParent h k p = Some h' \<and> tree_ok h' (move_node (Some n) k p K) \<and>
      parents h' = (parents h)(k := p) \<and> (\<forall>a. same_data (h' a) (h a))"
    by blast
  have "move_kids h' (pn_next (h' k)) n = Some h'"
  proof (cases "pn_parent (h n)")
    case None
    then have "pn_parent (h' k) = None"
      using fun_cong [OF h'(3), of k] by simp
    then have "pn_next (h' k) = None"
      using linked_butD(8) [OF tree_okD(1) [OF h'(2)]] by simp
    then show ?thesis
      by (simp add: move_kids.simps [of h' None])
  next
    case (Some p)
    have "p \<noteq> n"
      using grounded_irrefl [OF tree_okD(2) [OF assms(1)], of n p] Some by auto
    then have K': "move_node (Some n) k (pn_parent (h n)) K p = [k] @ K p"
      using Some by (simp add: move_node_def)
    moreover have "pn_parent (h' n) = Some p"
      using fun_cong [OF h'(3), of n] Some k(2) by simp
    moreover have "pn_next (h' k) = first (K p)"
      using tree_okD(6) [OF h'(2), of k p] next_in_split [of "[]" k "K p"] tree_okD(4) [OF h'(2), of p] unfolding K' by simp
    ultimately show ?thesis
      using move_kids_idle [OF h'(2)] by simp
  qed
  then show "move_kids h (pn_kids (h n)) n = setParent h k (pn_parent (h n))"
    using tree_okD(3) [OF assms(1), of n] assms(2) h'(1) by (simp add: move_kids.simps [of h "Some k"])
qed

section \<open>Loops over siblings\<close>

lemma linked_next:
  assumes "linked h K" "K p = xs @ a # ys"
  shows "pn_next (h a) = first ys" "pn_parent (h a) = Some p"
proof -
  have "a \<in> set (K p)"
    using assms(2) by simp
  then show "pn_next (h a) = first ys" "pn_parent (h a) = Some p"
    using linked_butD(2,5,6) [OF assms(1)] next_in_split [of xs a ys] assms(2) by (metis empty_iff)+
qed

lemma need_sort_Some:
  assumes "linked h K" "K p = xs @ ys"
  shows "need_sort h w (first ys) = Some (\<exists>k \<in> set ys. pn_weight (h k) \<noteq> w)"
  using assms(2)
proof (induction ys arbitrary: xs)
  case Nil
  then show ?case
    by (simp add: need_sort.simps [of h w None])
next
  case (Cons a ys)
  have "need_sort h w (first ys) = Some (\<exists>k \<in> set ys. pn_weight (h k) \<noteq> w)"
    using Cons.IH [of "xs @ [a]"] Cons.prems by simp
  then show ?case
    using linked_next(1) [OF assms(1) Cons.prems] by (simp add: need_sort.simps [of h w "Some a"])
qed

text \<open>The other children of \<open>q\<close> become children of \<open>n\<close>.\<close>

lemma adopt_siblings_Some:
  assumes "linked h K" "K q = xs @ ys" "q \<noteq> n"
  shows "\<exists>h' K'. adopt_siblings h (first ys) n = Some h' \<and> linked h' K' \<and>
    parents h' = (\<lambda>a. if a \<in> set ys \<and> a \<noteq> n then Some n else pn_parent (h a)) \<and> (\<forall>a. same_data (h' a) (h a))"
  using assms(1,2)
proof (induction ys arbitrary: h K xs)
  case Nil
  then show ?case
    by (auto simp: adopt_siblings.simps [of h None])
next
  case (Cons a ys)
  note a = linked_next [OF Cons.prems]
  show ?case
  proof (cases "a = n")
    case True
    then have "adopt_siblings h (first (a # ys)) n = adopt_siblings h (first ys) n"
      using a by (simp add: adopt_siblings.simps [of h "Some n"])
    moreover have "(\<lambda>b. if b \<in> set (a # ys) \<and> b \<noteq> n then Some n else pn_parent (h b)) =
        (\<lambda>b. if b \<in> set ys \<and> b \<noteq> n then Some n else pn_parent (h b))"
      using True by auto
    ultimately show ?thesis
      using Cons.IH [of h K "xs @ [a]"] Cons.prems by simp
  next
    case False
    then obtain h1 where h1: "setParent h a (Some n) = Some h1"
      "linked h1 (move_node (Some q) a (Some n) K)" "\<forall>b. pn_parent (h1 b) = (if b = a then Some n else pn_parent (h b))"
      "\<forall>b. same_data (h1 b) (h b)"
      using setParent_linked [OF Cons.prems(1), of "Some n" a] a(2) by auto
    have "distinct (K q)"
      using linked_butD(2) [OF Cons.prems(1)] .
    then have "move_node (Some q) a (Some n) K q = xs @ ys"
      using Cons.prems(2) assms(3) by (auto simp: move_node_def remove1_append)
    from Cons.IH [OF h1(2) this] obtain h' K' where h': "adopt_siblings h1 (first ys) n = Some h'" "linked h' K'"
      "parents h' = (\<lambda>b. if b \<in> set ys \<and> b \<noteq> n then Some n else pn_parent (h1 b))" "\<forall>b. same_data (h' b) (h1 b)"
      by blast
    have "adopt_siblings h (first (a # ys)) n = Some h'"
      using a h1(1) h'(1) False by (simp add: adopt_siblings.simps [of h "Some a"])
    moreover have "parents h' = (\<lambda>b. if b \<in> set (a # ys) \<and> b \<noteq> n then Some n else pn_parent (h b))"
      using h'(3) h1(3) False by auto
    moreover have "\<forall>b. same_data (h' b) (h b)"
      using h'(4) h1(4) same_data_trans by blast
    ultimately show ?thesis
      using h'(2) by blast
  qed
qed

text \<open>Taking out the children of a node and putting a list of nodes under it.\<close>

lemma take_kids_Some:
  assumes "linked h K"
  shows "\<exists>h'. take_kids h n tmp = Some (h', tmp @ K n) \<and> linked h' (K(n := [])) \<and>
    parents h' = (\<lambda>a. if a \<in> set (K n) then None else pn_parent (h a)) \<and> (\<forall>a. same_data (h' a) (h a))"
  using assms
proof (induction "K n" arbitrary: h K tmp)
  case Nil
  then have "pn_kids (h n) = None"
    using linked_butD(1) [OF Nil(2), of n] by simp
  then show ?case
    using Nil by (auto simp: take_kids.simps [of h n] fun_upd_idem)
next
  case (Cons k ks)
  note k = linked_next [OF Cons.prems, of n "[]" k ks, simplified, OF Cons.hyps(2) [symmetric]]
  obtain h1 where h1: "setParent h k None = Some h1"
    "linked h1 (move_node (Some n) k None K)" "\<forall>b. pn_parent (h1 b) = (if b = k then None else pn_parent (h b))"
    "\<forall>b. same_data (h1 b) (h b)"
    using setParent_linked [OF Cons.prems, of None k] k(2) by auto
  have K1: "move_node (Some n) k None K = K(n := ks)"
    using Cons.hyps(2) [symmetric] by (simp add: move_node_def)
  obtain h' where h': "take_kids h1 n (tmp @ [k]) = Some (h', (tmp @ [k]) @ ks)" "linked h' (K(n := []))"
    "parents h' = (\<lambda>a. if a \<in> set ks then None else pn_parent (h1 a))" "\<forall>a. same_data (h' a) (h1 a)"
    using Cons.hyps(1) [of "K(n := ks)" h1 "tmp @ [k]"] h1(2) K1 by auto
  have "take_kids h n tmp = Some (h', tmp @ K n)"
    using linked_butD(1) [OF Cons.prems, of n] Cons.hyps(2) [symmetric] h1(1) h'(1) by (simp add: take_kids.simps [of h n])
  moreover have "parents h' = (\<lambda>a. if a \<in> set (K n) then None else pn_parent (h a))"
    using h'(3) h1(3) Cons.hyps(2) [symmetric] by auto
  moreover have "\<forall>b. same_data (h' b) (h b)"
    using h'(4) h1(4) same_data_trans by blast
  ultimately show ?case
    using h'(2) by blast
qed

lemma put_kids_Some:
  assumes "linked h K" "n \<notin> set ks" "distinct ks" "\<forall>k \<in> set ks. pn_parent (h k) = None"
  shows "\<exists>h'. put_kids h n ks = Some h' \<and> linked h' (K(n := ks @ K n)) \<and>
    parents h' = (\<lambda>a. if a \<in> set ks then Some n else pn_parent (h a)) \<and> (\<forall>a. same_data (h' a) (h a))"
  using assms(2-)
proof (induction ks)
  case Nil
  then show ?case
    using assms(1) by (auto simp: fun_upd_idem)
next
  case (Cons k ks)
  from Cons.IH Cons.prems obtain h1 where h1: "put_kids h n ks = Some h1" "linked h1 (K(n := ks @ K n))"
    "parents h1 = (\<lambda>a. if a \<in> set ks then Some n else pn_parent (h a))" "\<forall>a. same_data (h1 a) (h a)"
    unfolding distinct.simps list.set by blast
  have k: "pn_parent (h1 k) = None"
    using fun_cong [OF h1(3), of k] Cons.prems by simp
  obtain h' where h': "setParent h1 k (Some n) = Some h'" "linked h' (move_node None k (Some n) (K(n := ks @ K n)))"
    "\<forall>a. pn_parent (h' a) = (if a = k then Some n else pn_parent (h1 a))" "\<forall>a. same_data (h' a) (h1 a)"
    using setParent_linked [OF h1(2), of "Some n" k] Cons.prems(1) k by auto
  have "linked h' (K(n := (k # ks) @ K n))"
    using h'(2) by (simp add: move_node_def)
  moreover have "parents h' = (\<lambda>a. if a \<in> set (k # ks) then Some n else pn_parent (h a))"
    using h'(3) fun_cong [OF h1(3)] by auto
  moreover have "\<forall>b. same_data (h' b) (h b)"
    using h'(4) h1(4) same_data_trans by blast
  moreover have "put_kids h n (k # ks) = Some h'"
    using h1(1) h'(1) by simp
  ultimately show ?case
    by blast
qed

section \<open>Reprioritisation\<close>

text \<open>
  Section 5.3.3 of RFC 7540 on the parents of the nodes: if the new parent \<open>q\<close> depends on \<open>n\<close>, it
  first takes the place of \<open>n\<close>; an exclusive dependency makes the other children of \<open>q\<close> children
  of \<open>n\<close>; and \<open>n\<close> becomes a child of \<open>q\<close>.
\<close>

definition lift_parent :: "(nat \<Rightarrow> nat option) \<Rightarrow> nat \<Rightarrow> nat \<Rightarrow> nat \<Rightarrow> nat option" where
  "lift_parent P n q = (if above P q n then P(q := P n) else P)"

definition reparent :: "(nat \<Rightarrow> nat option) \<Rightarrow> nat \<Rightarrow> nat \<Rightarrow> bool \<Rightarrow> nat \<Rightarrow> nat option" where
  "reparent P n q excl =
     (let P = lift_parent P n q
      in (\<lambda>a. if excl \<and> P a = Some q \<and> a \<noteq> n then Some n else P a)(n := Some q))"

lemma lift_parent_above:
  assumes "\<And>x. grounded P x" "n \<noteq> q"
  shows "\<not> above (lift_parent P n q) q n"
proof (cases "above P q n")
  case True
  have no: "\<not> above P g n" if "P n = Some g" for g
    using grounded_irrefl [OF assms(1) that] .
  have q: "\<not> above P g q" if "P n = Some g" for g
    using no [OF that] above_trans True by blast
  show ?thesis
  proof
    assume "above (lift_parent P n q) q n"
    with True assms(2) obtain g where g: "P n = Some g" "above (P(q := P n)) g n"
      by (subst (asm) above_iff) (auto simp: lift_parent_def)
    have "above P g n"
    proof (rule above_change [where P = "P(q := P n)"])
      show "above (P(q := P n)) g n"
        by (rule g(2))
      have "c \<noteq> q" if "above (P(q := P n)) g c" for c
      proof
        assume "c = q"
        have "above P b c" if "above (P(q := P n)) b c" "\<not> above P b q" for b
          using that
        proof (induction rule: above.induct)
          case (above_up a p b)
          then have "a \<noteq> q"
            by auto
          then have "P a = Some p"
            using above_up.hyps(1) by simp
          moreover have "\<not> above P p q"
            using above_up.prems \<open>P a = Some p\<close> by (blast intro: above.above_up)
          ultimately show ?case
            using above_up.IH by (blast intro: above.above_up)
        qed simp
        then show False
          using that q [OF g(1)] \<open>c = q\<close> by blast
      qed
      then show "P c = (P(q := P n)) c" if "above (P(q := P n)) g c" for c
        using that by simp
    qed
    then show False
      using no [OF g(1)] by blast
  qed
qed (simp add: lift_parent_def)

lemma reparent_grounded:
  assumes "\<And>x. grounded P x" "n \<noteq> q" "\<not> above P q n"
    and "P' = (\<lambda>a. if excl \<and> P a = Some q \<and> a \<noteq> n then Some n else P a)(n := Some q)"
  shows "grounded P' x"
proof (rule grounded_change [OF assms(1), where S = "insert n {a. P a = Some q}"])
  have "P' b = P b" if "above P q b" for b
  proof -
    have "b \<noteq> n"
      using that assms(3) by blast
    moreover have "P b \<noteq> Some q"
      using grounded_irrefl [OF assms(1), of b q] that by blast
    ultimately show ?thesis
      by (simp add: assms(4))
  qed
  then have q: "grounded P' q"
    using grounded_avoid [OF assms(1)] by blast
  then have n: "grounded P' n"
    using grounded_up [of P' n q] by (simp add: assms(4))
  show "grounded P' y" if "y \<in> insert n {a. P a = Some q}" for y
    using that n q grounded_up [of P' y n] grounded_up [of P' y q] by (cases excl; cases "y = n") (auto simp: assms(4))
qed (auto simp: assms(4))

lemma depends_on_parent:
  assumes "tree_ok h K" "n \<noteq> q"
  shows "depends_on h (pn_parent (h q)) n = Some (above (parents h) q n)"
proof (cases "pn_parent (h q)")
  case None
  then show ?thesis
    using assms(2) by (subst above_iff) (simp add: depends_on.simps [of h None])
next
  case (Some p)
  then show ?thesis
    using assms(2) depends_on_Some [OF tree_okD(2) [OF assms(1)], of p n] by (subst above_iff) simp
qed

lemma lift_step:
  assumes "tree_ok h K" "n \<noteq> q"
  shows "\<exists>h' K'. (if above (parents h) q n then setParent h q (pn_parent (h n)) else Some h) = Some h' \<and>
    tree_ok h' K' \<and> parents h' = lift_parent (parents h) n q \<and> (\<forall>a. same_data (h' a) (h a))"
proof (cases "above (parents h) q n")
  case True
  have "\<not> above (parents h) p q" if "pn_parent (h n) = Some p" for p
    using grounded_irrefl [OF tree_okD(2) [OF assms(1)], of n p] that True above_trans by blast
  then show ?thesis
    using True setParent_ok [OF assms(1), of "pn_parent (h n)" q] by (auto simp: lift_parent_def)
next
  case False
  then show ?thesis
    using assms(1) by (auto simp: lift_parent_def)
qed

lemma adopt_step:
  assumes "linked h K" "n \<noteq> q"
  shows "\<exists>h' K'. (if excl then adopt_siblings h (pn_kids (h q)) n else Some h) = Some h' \<and> linked h' K' \<and>
    parents h' = (\<lambda>a. if excl \<and> pn_parent (h a) = Some q \<and> a \<noteq> n then Some n else pn_parent (h a)) \<and>
    (\<forall>a. same_data (h' a) (h a))"
proof (cases excl)
  case True
  have "pn_kids (h q) = first (K q)" "\<And>a. pn_parent (h a) = Some q \<longleftrightarrow> a \<in> set (K q)"
    using linked_butD(1,6) [OF assms(1)] by auto
  then show ?thesis
    using True adopt_siblings_Some [OF assms(1), of q "[]" "K q" n] assms(2) by simp
next
  case False
  then show ?thesis
    using assms(1) by auto
qed

text \<open>Same data, except for the weight of one node.\<close>

lemma reprioritise_Some:
  assumes "tree_ok h K" "n \<noteq> q"
  shows "\<exists>h' K'. reprioritise h n q pr = Some h' \<and> tree_ok h' K' \<and>
    parents h' = reparent (parents h) n q (Exclusive pr) \<and>
    (\<forall>a. same_data (h' a) (if a = n then (h a)\<lparr>pn_weight := Weight pr\<rparr> else h a))"
proof -
  obtain h1 K1 where h1: "(if above (parents h) q n then setParent h q (pn_parent (h n)) else Some h) = Some h1"
    "tree_ok h1 K1" "parents h1 = lift_parent (parents h) n q" "\<forall>a. same_data (h1 a) (h a)"
    using lift_step [OF assms] by blast
  obtain h2 K2 where h2: "(if Exclusive pr then adopt_siblings h1 (pn_kids (h1 q)) n else Some h1) = Some h2"
    "linked h2 K2" "parents h2 = (\<lambda>a. if Exclusive pr \<and> pn_parent (h1 a) = Some q \<and> a \<noteq> n then Some n else pn_parent (h1 a))"
    "\<forall>a. same_data (h2 a) (h1 a)"
    using adopt_step [OF tree_okD(1) [OF h1(2)] assms(2)] by blast
  obtain h3 K3 where h3: "setParent h2 n (Some q) = Some h3" "linked h3 K3"
    "\<forall>a. pn_parent (h3 a) = (if a = n then Some q else pn_parent (h2 a))" "\<forall>a. same_data (h3 a) (h2 a)"
    using setParent_linked [OF h2(2), of "Some q" n] assms(2) by blast
  have P: "parents h3 = reparent (parents h) n q (Exclusive pr)"
    using h3(3) fun_cong [OF h2(3)] by (auto simp: reparent_def simp flip: h1(3))
  have "\<not> above (parents h1) q n"
    unfolding h1(3) by (rule lift_parent_above [OF tree_okD(2) [OF assms(1)] assms(2)])
  then have "grounded (parents h3) x" for x
    by (rule reparent_grounded [OF tree_okD(2) [OF h1(2)] assms(2), where excl = "Exclusive pr"])
      (simp add: P reparent_def Let_def flip: h1(3))
  then have ok: "tree_ok h3 K3"
    using h3(2) by (simp add: tree_ok_def)
  let ?h = "assign n (\<lambda>m. m\<lparr>pn_weight := Weight pr\<rparr>) h3"
  have "\<forall>a. same_links (?h a) (h3 a)"
    by (simp add: assign_apply same_links_def)
  note keep = tree_ok_same_links [OF ok this]
  moreover have "reprioritise h n q pr = Some ?h"
    unfolding reprioritise_def depends_on_parent [OF assms] using h1(1) h2(1) h3(1) by simp
  moreover have "parents ?h = reparent (parents h) n q (Exclusive pr)"
    using P keep(2) by simp
  moreover have "same_data (h3 a) (h a)" for a
    using h1(4) h2(4) h3(4) same_data_trans by blast
  then have "\<forall>a. same_data (?h a) (if a = n then (h a)\<lparr>pn_weight := Weight pr\<rparr> else h a)"
    by (simp add: assign_apply same_data_def)
  ultimately show ?thesis
    using keep(1) by blast
qed

section \<open>Sorting\<close>

text \<open>The sorting function rearranges its argument.\<close>

definition permutes_list :: "sorter \<Rightarrow> bool" where
  "permutes_list srt \<longleftrightarrow> (\<forall>less xs. mset (srt less xs) = mset xs)"

lemma sort_kids_Some:
  assumes "tree_ok (ps_heap ws) K" "permutes_list srt"
  shows "\<exists>h' K' tmp. sort_kids srt ws n = Some (ws\<lparr>ps_heap := h', ps_tmp := tmp\<rparr>) \<and> tree_ok h' K' \<and>
    parents h' = parents (ps_heap ws) \<and> (\<forall>a. same_data (h' a) (ps_heap ws a)) \<and> (\<forall>x. x \<noteq> n \<longrightarrow> K' x = K x)"
proof -
  let ?h = "ps_heap ws"
  note D = tree_okD [OF assms(1)]
  obtain h1 where h1: "take_kids ?h n [] = Some (h1, K n)" "linked h1 (K(n := []))"
    "parents h1 = (\<lambda>a. if a \<in> set (K n) then None else pn_parent (?h a))" "\<forall>a. same_data (h1 a) (?h a)"
    using take_kids_Some [OF D(1), of n "[]"] by auto
  let ?ks = "srt (sibling_Less h1) (K n)"
  have "mset ?ks = mset (K n)"
    using assms(2) by (simp add: permutes_list_def)
  then have ks: "set ?ks = set (K n)" "distinct ?ks"
    using D(4) [of n] mset_eq_setD mset_eq_imp_distinct_iff by blast+
  have "n \<notin> set ?ks"
    using ks(1) D(7) [of n n] by auto
  moreover have "\<forall>k \<in> set ?ks. pn_parent (h1 k) = None"
    using ks(1) fun_cong [OF h1(3)] by simp
  ultimately obtain h2 where h2: "put_kids h1 n ?ks = Some h2" "linked h2 (K(n := ?ks))"
    "parents h2 = (\<lambda>a. if a \<in> set (K n) then Some n else pn_parent (h1 a))" "\<forall>a. same_data (h2 a) (h1 a)"
    using put_kids_Some [OF h1(2), of n ?ks] ks by auto
  have "pn_parent (?h x) = Some n" if "x \<in> set (K n)" for x
    using that D(5) by blast
  then have P: "parents h2 = parents ?h"
    using h2(3) fun_cong [OF h1(3)] by (auto simp: fun_eq_iff)
  have "tree_ok h2 (K(n := ?ks))"
    using h2(2) D(2) by (simp add: tree_ok_def P)
  moreover have "sort_kids srt ws n = Some (ws\<lparr>ps_heap := h2, ps_tmp := ?ks\<rparr>)"
    using h1(1) h2(1) by (simp add: sort_kids_def Let_def)
  moreover have "\<forall>a. same_data (h2 a) (?h a)"
    using h1(4) h2(4) same_data_trans by blast
  ultimately show ?thesis
    using P by (intro exI [of _ h2] exI [of _ "K(n := ?ks)"] exI [of _ ?ks]) simp
qed

lemma ordered_kids_Some:
  assumes "tree_ok (ps_heap ws) K" "permutes_list srt"
  shows "\<exists>h' K' tmp. ordered_kids srt ws n = Some (ws\<lparr>ps_heap := h', ps_tmp := tmp\<rparr>) \<and> tree_ok h' K' \<and>
    parents h' = parents (ps_heap ws) \<and> (\<forall>a. same_data (h' a) (ps_heap ws a)) \<and> (\<forall>x. x \<noteq> n \<longrightarrow> K' x = K x)"
proof (cases "K n")
  case Nil
  then have "ordered_kids srt ws n = Some (ws\<lparr>ps_heap := ps_heap ws, ps_tmp := ps_tmp ws\<rparr>)"
    using tree_okD(3) [OF assms(1), of n] by (simp add: ordered_kids_def)
  then show ?thesis
    using assms(1) by (intro exI [of _ "ps_heap ws"] exI [of _ K] exI [of _ "ps_tmp ws"]) simp
next
  case (Cons k ks)
  have "pn_next (ps_heap ws k) = first ks"
    using linked_next(1) [OF tree_okD(1) [OF assms(1)], of n "[]"] Cons by simp
  then obtain b where "need_sort (ps_heap ws) (pn_weight (ps_heap ws k)) (pn_next (ps_heap ws k)) = Some b"
    using need_sort_Some [OF tree_okD(1) [OF assms(1)], of n "[k]" ks] Cons by simp
  then have "ordered_kids srt ws n = (if b then sort_kids srt ws n else Some (ws\<lparr>ps_heap := ps_heap ws, ps_tmp := ps_tmp ws\<rparr>))"
    using tree_okD(3) [OF assms(1), of n] Cons by (simp add: ordered_kids_def)
  then show ?thesis
    using sort_kids_Some [OF assms, of n] assms(1)
    by (cases b) (simp, intro exI [of _ "ps_heap ws"] exI [of _ K] exI [of _ "ps_tmp ws"], simp)
qed

end
