(* ===== verification/HTTP2_Priority_Walk.thy ===== *)
theory HTTP2_Priority_Walk
  imports HTTP2_Priority_Tree
begin

text \<open>
  The walk over the priority tree: it ends, it changes nothing but the order of siblings until it
  finds a node it can take a frame from, and it finds one exactly if there is one below its start.
\<close>

section \<open>Nodes below a node\<close>

lemma above_down: "above P m n \<Longrightarrow> m = n \<or> (\<exists>k. P k = Some n \<and> above P m k)"
  by (induction rule: above.induct) (auto intro: above_up)

text \<open>With finitely many links, the relation between children and parents is well-founded.\<close>

lemma wf_children:
  assumes "\<And>x. grounded P x" "finite {a. P a \<noteq> None}"
  shows "wf {(k, n). P k = Some n}"
proof (rule finite_acyclic_wf)
  have "{(k, n). P k = Some n} \<subseteq> (\<lambda>k. (k, the (P k))) ` {a. P a \<noteq> None}"
    by force
  then show "finite {(k, n). P k = Some n}"
    using assms(2) finite_surj by blast
  have "(a, b) \<in> {(k, n). P k = Some n}\<^sup>+ \<Longrightarrow> \<exists>p. P a = Some p \<and> above P p b" for a b
    by (induction rule: trancl_induct) (auto intro: above_parent)
  then show "acyclic {(k, n). P k = Some n}"
    using grounded_irrefl [OF assms(1)] unfolding acyclic_def by blast
qed

section \<open>What a walk may change\<close>

definition reordered :: "priorityWriteScheduler \<Rightarrow> priorityWriteScheduler \<Rightarrow> bool" where
  "reordered ws ws' \<longleftrightarrow>
     (\<exists>h tmp. ws' = ws\<lparr>ps_heap := h, ps_tmp := tmp\<rparr> \<and> parents h = parents (ps_heap ws) \<and>
       (\<forall>a. same_data (h a) (ps_heap ws a)))"

lemma reordered_refl [simp]: "reordered ws ws"
  unfolding reordered_def by (intro exI [of _ "ps_heap ws"] exI [of _ "ps_tmp ws"]) simp

lemma reordered_trans:
  assumes "reordered a b" "reordered b c"
  shows "reordered a c"
proof -
  obtain h t where b: "b = a\<lparr>ps_heap := h, ps_tmp := t\<rparr>" "parents h = parents (ps_heap a)" "\<forall>x. same_data (h x) (ps_heap a x)"
    using assms(1) unfolding reordered_def by blast
  obtain h' t' where c: "c = b\<lparr>ps_heap := h', ps_tmp := t'\<rparr>" "parents h' = parents (ps_heap b)" "\<forall>x. same_data (h' x) (ps_heap b x)"
    using assms(2) unfolding reordered_def by blast
  have "\<forall>x. same_data (h' x) (ps_heap a x)"
    using b c(3) same_data_trans by fastforce
  then show ?thesis
    unfolding reordered_def using b c by (intro exI [of _ h'] exI [of _ t']) simp
qed

lemma reordered_sel:
  assumes "reordered ws ws'"
  shows "parents (ps_heap ws') = parents (ps_heap ws)" "pn_q (ps_heap ws' a) = pn_q (ps_heap ws a)"
    and "same_data (ps_heap ws' a) (ps_heap ws a)" "ps_writeThrottleLimit ws' = ps_writeThrottleLimit ws"
  using assms by (auto simp: reordered_def same_data_def)

definition frames_ok :: "priorityWriteScheduler \<Rightarrow> bool" where
  "frames_ok ws \<longleftrightarrow> (\<forall>a. list_all has_stream (wq_s (pn_q (ps_heap ws a)))) \<and> 0 < sint (ps_writeThrottleLimit ws)"

lemma frames_ok_reordered: "reordered ws ws' \<Longrightarrow> frames_ok ws \<Longrightarrow> frames_ok ws'"
  by (simp add: frames_ok_def reordered_sel)

text \<open>A node from whose queue nothing can be taken.\<close>

definition stuck_node :: "net \<Rightarrow> priorityWriteScheduler \<Rightarrow> nat \<Rightarrow> bool" where
  "stuck_node w ws m \<longleftrightarrow>
     (let s = wq_s (pn_q (ps_heap ws m)) in s = [] \<or> blocked w 0x7fffffff (hd s))"

lemma stuck_node_reordered: "reordered ws ws' \<Longrightarrow> stuck_node w ws' m \<longleftrightarrow> stuck_node w ws m"
  by (simp add: stuck_node_def reordered_sel)

text \<open>A positive limit does not block a frame that the windows and the frame size let through.\<close>

lemma blocked_limit: "0 < sint l \<Longrightarrow> blocked w l wr \<longleftrightarrow> blocked w 0x7fffffff wr"
  by (auto simp: blocked_def budget_def min_def split: option.splits)

section \<open>The visitor\<close>

definition pop_limit :: "priorityWriteScheduler \<Rightarrow> bool \<Rightarrow> i32" where
  "pop_limit ws openParent = (if openParent then ps_writeThrottleLimit ws else 0x7fffffff)"

lemma pop_limit_pos: "frames_ok ws \<Longrightarrow> 0 < sint (pop_limit ws op)"
  by (simp add: pop_limit_def frames_ok_def)

lemma visit_stuck:
  assumes "frames_ok (po_ws s)" "stuck_node (po_net s) (po_ws s) n" "\<not> po_ok s" "po_wr s = empty_request"
  shows "visit_node pop_visit s n op = Some (s, False)"
proof (cases "wq_empty (pn_q (ps_heap (po_ws s) n))")
  case False
  let ?q = "pn_q (ps_heap (po_ws s) n)"
  have "blocked (po_net s) (pop_limit (po_ws s) op) (hd (wq_s ?q))"
    using assms(2) False blocked_limit [OF pop_limit_pos [OF assms(1)]]
    by (simp add: stuck_node_def Let_def wq_empty_def)
  then have "wq_consume (po_net s) ?q (pop_limit (po_ws s) op) = Some (empty_request, False, ?q, po_net s)"
    by (intro wq_consume_stuck) simp
  moreover have "assign n (\<lambda>m. m\<lparr>pn_q := ?q\<rparr>) (ps_heap (po_ws s)) = ps_heap (po_ws s)"
    by (simp add: assign_def)
  ultimately show ?thesis
    using False assms(3,4) by (simp add: visit_node_def pop_visit_def Let_def flip: pop_limit_def)
qed (simp add: visit_node_def)

text \<open>A frame was taken from the queue of node \<open>n\<close>, whose queue is now \<open>ys\<close>.\<close>

definition taken :: "nat \<Rightarrow> FrameWriteRequest list \<Rightarrow> priorityWriteScheduler \<Rightarrow> priorityWriteScheduler \<Rightarrow> bool" where
  "taken n ys ws ws' \<longleftrightarrow>
     (\<exists>h l. ws' = ws\<lparr>ps_heap := h, ps_writeThrottleLimit := l\<rparr> \<and> 0 < sint l \<and>
       (\<forall>a. same_links (h a) (ps_heap ws a) \<and> pn_id (h a) = pn_id (ps_heap ws a) \<and>
         pn_state (h a) = pn_state (ps_heap ws a) \<and> pn_weight (h a) = pn_weight (ps_heap ws a) \<and>
         wq_s (pn_q (h a)) = (if a = n then ys else wq_s (pn_q (ps_heap ws a)))))"

lemma throttle_pos:
  fixes l :: i32
  assumes "0 < sint l"
  shows "0 < sint (if sint (l + 1024) < 0 then 0x7fffffff else l + 1024)"
proof (cases "sint l + 1024 < 2 ^ 31")
  case True
  then show ?thesis
    using assms sint_add32 [of l 1024] by simp
next
  case False
  have "l + 1024 = word_of_int (sint l + 1024 - 2 ^ 32)"
    by (simp add: word_of_int_eq_iff take_bit_eq_mod)
  moreover have "sint (word_of_int (sint l + 1024 - 2 ^ 32) :: i32) = sint l + 1024 - 2 ^ 32"
    using False sint_range(2) [of l] by (intro sint_of_int32) simp_all
  ultimately have "sint (l + 1024) = sint l + 1024 - 2 ^ 32"
    by (simp only:)
  then show ?thesis
    using sint_range(2) [of l] by simp
qed

lemma visit_go:
  assumes "frames_ok (po_ws s)" "\<not> stuck_node (po_net s) (po_ws s) n" "grounded (parents (ps_heap (po_ws s))) n"
  shows "\<exists>s' ys. visit_node pop_visit s n op = Some (s', True) \<and> po_ok s' \<and> po_net s' = took (po_net s) (po_wr s') \<and>
    consumes (wq_s (pn_q (ps_heap (po_ws s) n))) (po_wr s') ys \<and> taken n ys (po_ws s) (po_ws s')"
proof -
  let ?ws = "po_ws s" and ?q = "pn_q (ps_heap (po_ws s) n)"
  have ne: "wq_s ?q \<noteq> []" and nb: "\<not> blocked (po_net s) (pop_limit ?ws op) (hd (wq_s ?q))"
    using assms(2) blocked_limit [OF pop_limit_pos [OF assms(1)]] by (auto simp: stuck_node_def Let_def)
  have "list_all has_stream (wq_s ?q)"
    using assms(1) by (simp add: frames_ok_def)
  then obtain wr q' where q': "wq_consume (po_net s) ?q (pop_limit ?ws op) = Some (wr, True, q', took (po_net s) wr)"
    "consumes (wq_s ?q) wr (wq_s q')"
    by (rule wq_consume_ok [where w = "po_net s" and n = "pop_limit ?ws op"]) (use ne nb in auto)
  let ?h = "assign n (\<lambda>m. m\<lparr>pn_q := q'\<rparr>) (ps_heap ?ws)"
  have "parents ?h = parents (ps_heap ?ws)"
    by (auto simp: assign_apply)
  then obtain h where h: "addBytes ?h n (of_nat (DataSize wr)) = Some h"
    "\<forall>x. \<exists>b c. h x = (?h x)\<lparr>pn_bytes := b, pn_subtreeBytes := c\<rparr>"
    using addBytes_Some [of ?h n "of_nat (DataSize wr)"] assms(3) by auto
  define l where "l = (if op then (if sint (ps_writeThrottleLimit ?ws + 1024) < 0 then 0x7fffffff else ps_writeThrottleLimit ?ws + 1024)
    else if ps_enableWriteThrottle ?ws then 1024 else ps_writeThrottleLimit ?ws)"
  let ?s = "s\<lparr>po_ws := ?ws\<lparr>ps_heap := h, ps_writeThrottleLimit := l\<rparr>, po_net := took (po_net s) wr, po_wr := wr, po_ok := True\<rparr>"
  have "visit_node pop_visit s n op = Some (?s, True)"
    using ne q'(1) h(1) by (simp add: visit_node_def wq_empty_def pop_visit_def Let_def l_def flip: pop_limit_def)
  moreover have "0 < sint l"
    using assms(1) throttle_pos [of "ps_writeThrottleLimit ?ws"] by (simp add: frames_ok_def l_def)
  moreover have "same_links (h a) (ps_heap ?ws a) \<and> pn_id (h a) = pn_id (ps_heap ?ws a) \<and>
      pn_state (h a) = pn_state (ps_heap ?ws a) \<and> pn_weight (h a) = pn_weight (ps_heap ?ws a) \<and>
      wq_s (pn_q (h a)) = (if a = n then wq_s q' else wq_s (pn_q (ps_heap ?ws a)))" for a
    using h(2) [rule_format, of a] by (auto simp: same_links_def assign_apply)
  then have "taken n (wq_s q') ?ws (po_ws ?s)"
    using \<open>0 < sint l\<close> unfolding taken_def by (intro exI [of _ h] exI [of _ l]) simp
  ultimately show ?thesis
    using q'(2) by (intro exI [of _ ?s] exI [of _ "wq_s q'"]) simp
qed

section \<open>The walk\<close>

text \<open>
  The states a walk passes through: the tree is well formed, no frame has been taken yet.
\<close>

definition walking :: "(nat \<Rightarrow> nat option) \<Rightarrow> forest \<Rightarrow> pop_state \<Rightarrow> bool" where
  "walking P K s \<longleftrightarrow>
     tree_ok (ps_heap (po_ws s)) K \<and> parents (ps_heap (po_ws s)) = P \<and> frames_ok (po_ws s) \<and>
     \<not> po_ok s \<and> po_wr s = empty_request"

text \<open>
  The two ways a walk over the nodes in \<open>B\<close> ends: it took a frame from one of them, or all of
  them are stuck and only children of nodes in \<open>B\<close> have been reordered.
\<close>

definition walk_took :: "nat set \<Rightarrow> pop_state \<Rightarrow> pop_state \<Rightarrow> bool" where
  "walk_took B s s' \<longleftrightarrow>
     (\<exists>m ws ys. m \<in> B \<and> reordered (po_ws s) ws \<and> \<not> stuck_node (po_net s) ws m \<and>
       consumes (wq_s (pn_q (ps_heap ws m))) (po_wr s') ys \<and> taken m ys ws (po_ws s') \<and>
       (\<exists>K. tree_ok (ps_heap ws) K) \<and> po_ok s' \<and> po_net s' = took (po_net s) (po_wr s'))"

definition walk_none :: "(nat \<Rightarrow> nat option) \<Rightarrow> forest \<Rightarrow> nat set \<Rightarrow> pop_state \<Rightarrow> pop_state \<Rightarrow> bool" where
  "walk_none P K B s s' \<longleftrightarrow>
     (\<forall>m \<in> B. stuck_node (po_net s) (po_ws s) m) \<and> reordered (po_ws s) (po_ws s') \<and> po_net s' = po_net s \<and>
     (\<exists>K'. walking P K' s' \<and> (\<forall>x. x \<notin> B \<longrightarrow> K' x = K x))"

definition walk_result ::
  "(nat \<Rightarrow> nat option) \<Rightarrow> forest \<Rightarrow> nat set \<Rightarrow> pop_state \<Rightarrow> (pop_state \<times> bool) option \<Rightarrow> bool"
where
  "walk_result P K B s r \<longleftrightarrow>
     (\<exists>s'. r = Some (s', True) \<and> walk_took B s s' \<or> r = Some (s', False) \<and> walk_none P K B s s')"

lemma walk_took_weaken:
  assumes "walk_took B s1 s'" "reordered (po_ws s) (po_ws s1)" "po_net s1 = po_net s" "B \<subseteq> B'"
  shows "walk_took B' s s'"
  using assms reordered_trans unfolding walk_took_def by (metis subsetD)

lemma walk_none_trans:
  assumes "walk_none P K B s s1" "\<And>K1. walking P K1 s1 \<Longrightarrow> \<forall>x. x \<notin> B \<longrightarrow> K1 x = K x \<Longrightarrow> walk_none P K1 B' s1 s2"
  shows "walk_none P K (B \<union> B') s s2"
proof -
  obtain K1 where K1: "walking P K1 s1" "\<forall>x. x \<notin> B \<longrightarrow> K1 x = K x"
    using assms(1) unfolding walk_none_def by blast
  note second = assms(2) [OF K1]
  have ro: "reordered (po_ws s) (po_ws s1)" "po_net s1 = po_net s"
    using assms(1) by (simp_all add: walk_none_def)
  have "\<forall>m \<in> B'. stuck_node (po_net s) (po_ws s) m"
    using second ro stuck_node_reordered [OF ro(1)] by (simp add: walk_none_def)
  moreover have "\<exists>K'. walking P K' s2 \<and> (\<forall>x. x \<notin> B \<union> B' \<longrightarrow> K' x = K x)"
    using second K1(2) unfolding walk_none_def by (metis UnCI)
  ultimately show ?thesis
    using assms(1) second reordered_trans unfolding walk_none_def by (metis Un_iff)
qed

text \<open>A walk that found nothing, followed by another.\<close>

lemma walk_result_trans:
  assumes "walk_none P K B s s1"
    and "\<And>K1. walking P K1 s1 \<Longrightarrow> \<forall>x. x \<notin> B \<longrightarrow> K1 x = K x \<Longrightarrow> walk_result P K1 B' s1 r"
  shows "walk_result P K (B \<union> B') s r"
proof -
  obtain K1 where K1: "walking P K1 s1" "\<forall>x. x \<notin> B \<longrightarrow> K1 x = K x"
    and ro: "reordered (po_ws s) (po_ws s1)" "po_net s1 = po_net s"
    using assms(1) unfolding walk_none_def by blast
  from assms(2) [OF K1] consider s' where "r = Some (s', True)" "walk_took B' s1 s'" | s' where "r = Some (s', False)"
    unfolding walk_result_def by blast
  then show ?thesis
  proof cases
    case (1 s')
    have "walk_took (B \<union> B') s s'"
      by (rule walk_took_weaken [OF 1(2) ro]) blast
    then show ?thesis
      using 1(1) by (simp add: walk_result_def)
  next
    case (2 s')
    have "walk_none P K (B \<union> B') s s'"
      by (rule walk_none_trans [OF assms(1)]) (use assms(2) 2 in \<open>simp add: walk_result_def\<close>)
    then show ?thesis
      using 2 by (simp add: walk_result_def)
  qed
qed

definition below :: "(nat \<Rightarrow> nat option) \<Rightarrow> nat \<Rightarrow> nat set" where
  "below P n = {m. above P m n}"

lemma below_step: "below P n = {n} \<union> (\<Union>k \<in> {k. P k = Some n}. below P k)"
  using above_down [of P _ n] by (auto simp: below_def intro: above_parent)

lemma walk_siblings:
  assumes "\<And>k s K op. k \<in> set ys \<Longrightarrow> walking P K s \<Longrightarrow>
      walk_result P K (below P k) s (walkReadyInOrder (srt, pop_visit) s (Visit k op))"
    and "walking P K s" "K p = xs @ ys"
  shows "walk_result P K (\<Union>k \<in> set ys. below P k) s (walkReadyInOrder (srt, pop_visit) s (Siblings (first ys) op))"
  using assms
proof (induction ys arbitrary: xs s K)
  case Nil
  then have "walk_none P K {} s s"
    by (auto simp: walk_none_def)
  then show ?case
    by (simp add: walkReadyInOrder.simps [of _ s "Siblings None op"] walk_result_def)
next
  case (Cons a ys)
  let ?walk = "walkReadyInOrder (srt, pop_visit)"
  let ?B = "\<Union>k \<in> set ys. below P k"
  have B: "(\<Union>k \<in> set (a # ys). below P k) = below P a \<union> ?B"
    by simp
  have unfold: "?walk s (Siblings (first (a # ys)) op) =
      Option.bind (?walk s (Visit a op)) (\<lambda>(s1, stop). if stop then Some (s1, True)
        else ?walk s1 (Siblings (pn_next (ps_heap (po_ws s1) a)) op))"
    by (simp add: walkReadyInOrder.simps [of _ s "Siblings (Some a) op"])
  have p: "p \<notin> below P a"
    using Cons.prems(2,3) tree_okD(7) [of "ps_heap (po_ws s)" K a p] by (simp add: walking_def below_def)
  have "walk_result P K (below P a) s (?walk s (Visit a op))"
    using Cons.prems by simp
  then consider s' where "?walk s (Visit a op) = Some (s', True)" "walk_took (below P a) s s'"
    | s1 where "?walk s (Visit a op) = Some (s1, False)" "walk_none P K (below P a) s s1"
    unfolding walk_result_def by blast
  then show ?case
  proof cases
    case (1 s')
    then have "walk_took (below P a \<union> ?B) s s'"
      by (intro walk_took_weaken [OF 1(2)]) auto
    then show ?thesis
      using 1(1) unfolding unfold B by (simp add: walk_result_def)
  next
    case (2 s1)
    show ?thesis
      unfolding B
    proof (rule walk_result_trans [OF 2(2)])
      fix K1
      assume K1: "walking P K1 s1" "\<forall>x. x \<notin> below P a \<longrightarrow> K1 x = K x"
      then have K1p: "K1 p = xs @ a # ys"
        using p Cons.prems(3) by simp
      have "linked (ps_heap (po_ws s1)) K1"
        using K1(1) by (simp add: walking_def tree_ok_def)
      then have "?walk s (Siblings (first (a # ys)) op) = ?walk s1 (Siblings (first ys) op)"
        using 2(1) linked_next(1) K1p unfolding unfold by fastforce
      then show "walk_result P K1 ?B s1 (?walk s (Siblings (first (a # ys)) op))"
        using Cons.IH [of K1 s1 "xs @ [a]"] Cons.prems(1) K1(1) K1p by simp
    qed
  qed
qed

text \<open>The walk from any node of the tree.\<close>

lemma walk_visit:
  assumes "finite {a. P a \<noteq> None}" "permutes_list srt" "walking P K s"
  shows "walk_result P K (below P n) s (walkReadyInOrder (srt, pop_visit) s (Visit n op))"
proof -
  have "grounded P x" for x
    using assms(3) tree_okD(2) unfolding walking_def by blast
  then have "wf {(k, n). P k = Some n}"
    using wf_children assms(1) by blast
  then show ?thesis
    using assms(3)
  proof (induction n arbitrary: s K op rule: wf_induct_rule)
    case (less n)
    let ?walk = "walkReadyInOrder (srt, pop_visit)" and ?ws = "po_ws s"
    have s: "tree_ok (ps_heap ?ws) K" "parents (ps_heap ?ws) = P" "frames_ok ?ws" "\<not> po_ok s" "po_wr s = empty_request"
      using less.prems by (simp_all add: walking_def)
    show ?case
    proof (cases "stuck_node (po_net s) ?ws n")
      case False
      then obtain s' ys where s': "visit_node pop_visit s n op = Some (s', True)" "po_ok s'" "po_net s' = took (po_net s) (po_wr s')"
        "consumes (wq_s (pn_q (ps_heap ?ws n))) (po_wr s') ys" "taken n ys ?ws (po_ws s')"
        using visit_go [OF s(3) False, of op] tree_okD(2) [OF s(1), of n] by blast
      have "walk_took (below P n) s s'"
        unfolding walk_took_def using s' s(1) False by (intro exI [of _ n] exI [of _ ?ws] exI [of _ ys]) (auto simp: below_def)
      moreover have "?walk s (Visit n op) = Some (s', True)"
        using s'(1) by (simp add: walkReadyInOrder.simps [of _ s "Visit n op"])
      ultimately show ?thesis
        by (simp add: walk_result_def)
    next
      case True
      obtain h1 K1 tmp where k: "ordered_kids srt ?ws n = Some (?ws\<lparr>ps_heap := h1, ps_tmp := tmp\<rparr>)" "tree_ok h1 K1"
        "parents h1 = P" "\<forall>a. same_data (h1 a) (ps_heap ?ws a)" "\<forall>x. x \<noteq> n \<longrightarrow> K1 x = K x"
        using ordered_kids_Some [OF s(1) assms(2), of n] s(2) by auto
      let ?s1 = "s\<lparr>po_ws := ?ws\<lparr>ps_heap := h1, ps_tmp := tmp\<rparr>\<rparr>"
      have ro: "reordered ?ws (po_ws ?s1)"
        unfolding reordered_def using k(3,4) s(2) by (intro exI [of _ h1] exI [of _ tmp]) simp
      have w1: "walking P K1 ?s1"
        using k(2,3) s frames_ok_reordered [OF ro s(3)] by (simp add: walking_def)
      have none: "walk_none P K {n} s ?s1"
        unfolding walk_none_def using True ro w1 k(5) by auto
      have "?walk s (Visit n op) = ?walk ?s1 (Siblings (first (K1 n)) (open_below (ps_heap ?ws) n op))"
        using visit_stuck [OF s(3) True s(4,5)] k(1) tree_okD(3) [OF k(2), of n]
        by (simp add: walkReadyInOrder.simps [of _ s "Visit n op"])
      moreover have "walk_result P K2 (\<Union>k \<in> {k. P k = Some n}. below P k) ?s1
          (?walk ?s1 (Siblings (first (K1 n)) (open_below (ps_heap ?ws) n op)))" if "walking P K2 ?s1" for K2
      proof -
        have K2: "set (K2 n) = {k. P k = Some n}" "first (K2 n) = first (K1 n)"
          using that w1 tree_okD(3,5) unfolding walking_def by (force, metis)
        have "walk_result P K2 (\<Union>k \<in> set (K2 n). below P k) ?s1
          (?walk ?s1 (Siblings (first (K2 n)) (open_below (ps_heap ?ws) n op)))"
          by (rule walk_siblings [where p = n and xs = "[]"]) (use less.IH K2 that in auto)
        then show ?thesis
          unfolding K2 .
      qed
      ultimately show ?thesis
        unfolding below_step [of P n] using walk_result_trans [OF none] by simp
    qed
  qed
qed

end
