(* ===== verification/HTTP2_WriteSched_Priority.thy ===== *)
theory HTTP2_WriteSched_Priority
  imports HTTP2_Priority_Walk
begin

text \<open>
  The operations of the priority scheduler as steps of the scheduler interface: the invariant of
  its state, what each operation does to the frames queued on a stream, and the properties of
  every run.
\<close>

section \<open>Invariant\<close>

text \<open>
  Every node of the tree but the root is registered under its stream; a node that is not
  registered is out of the tree, and no other node is registered under its stream.
\<close>

definition prio_nodes :: "priorityWriteScheduler \<Rightarrow> bool" where
  "prio_nodes ws \<longleftrightarrow>
     root_node < ps_fresh ws \<and> ps_nodes ws 0 = Some root_node \<and> pn_id (ps_heap ws root_node) = 0 \<and>
     pn_parent (ps_heap ws root_node) = None \<and>
     (\<forall>i a. ps_nodes ws i = Some a \<longrightarrow> a < ps_fresh ws \<and> pn_id (ps_heap ws a) = i) \<and>
     (\<forall>a < ps_fresh ws. ps_nodes ws (pn_id (ps_heap ws a)) = Some a \<or> ps_nodes ws (pn_id (ps_heap ws a)) = None) \<and>
     (\<forall>a p. pn_parent (ps_heap ws a) = Some p \<longrightarrow>
       a < ps_fresh ws \<and> p < ps_fresh ws \<and> ps_nodes ws (pn_id (ps_heap ws a)) = Some a)"

definition prio_max :: "priorityWriteScheduler \<Rightarrow> bool" where
  "prio_max ws \<longleftrightarrow> (\<forall>a < ps_fresh ws. pn_id (ps_heap ws a) \<le> ps_maxID ws)"

definition prio_lists :: "priorityWriteScheduler \<Rightarrow> bool" where
  "prio_lists ws \<longleftrightarrow>
     (\<forall>a \<in> set (ps_closedNodes ws) \<union> set (ps_idleNodes ws). root_node < a \<and> a < ps_fresh ws)"

text \<open>The queue of a node holds frames of its stream; the root holds frames that are never split.\<close>

definition prio_frames :: "priorityWriteScheduler \<Rightarrow> bool" where
  "prio_frames ws \<longleftrightarrow> frames_ok ws \<and>
     (\<forall>wr \<in> set (wq_s (pn_q (ps_heap ws root_node))). DataSize wr = 0) \<and>
     (\<forall>a. a \<noteq> root_node \<longrightarrow> (\<forall>wr \<in> set (wq_s (pn_q (ps_heap ws a))). StreamID wr = pn_id (ps_heap ws a)))"

definition prio_pool :: "priorityWriteScheduler \<Rightarrow> bool" where
  "prio_pool ws \<longleftrightarrow>
     (\<forall>q \<in> set (ps_queuePool ws). q < next_queue (ps_store ws) \<and> wq_s (queues (ps_store ws) q) = [])"

definition prio_tree :: "priorityWriteScheduler \<Rightarrow> bool" where
  "prio_tree ws \<longleftrightarrow> (\<exists>K. tree_ok (ps_heap ws) K)"

definition prio_ok :: "priorityWriteScheduler \<Rightarrow> bool" where
  "prio_ok ws \<longleftrightarrow>
     prio_tree ws \<and> prio_nodes ws \<and> prio_max ws \<and> prio_lists ws \<and> prio_frames ws \<and> prio_pool ws"

lemmas prio_defs = prio_nodes_def prio_max_def prio_lists_def prio_frames_def prio_pool_def frames_ok_def

lemma prio_okD:
  assumes "prio_ok ws"
  shows "prio_tree ws" "prio_nodes ws" "prio_max ws" "prio_lists ws" "prio_frames ws" "prio_pool ws"
  using assms by (simp_all add: prio_ok_def)

lemma prio_ok_new:
  shows "prio_ok (NewPriorityWriteScheduler c)"
proof -
  have "linked (\<lambda>_. zero_node) (\<lambda>_. [])"
    by (simp add: linked_but_def zero_node_def)
  moreover have "grounded (parents (\<lambda>_. zero_node)) a" for a
    by (rule grounded_top) (simp add: zero_node_def)
  ultimately have "tree_ok (\<lambda>_. zero_node) (\<lambda>_. [])"
    by (simp add: tree_ok_def)
  then show ?thesis
    by (auto simp: prio_ok_def prio_tree_def prio_defs NewPriorityWriteScheduler_def Let_def root_node_def zero_node_def)
qed

text \<open>Consequences.\<close>

lemma prio_registered:
  "prio_nodes ws \<Longrightarrow> ps_nodes ws i = Some a \<Longrightarrow> a < ps_fresh ws \<and> pn_id (ps_heap ws a) = i"
  by (simp add: prio_nodes_def)

lemma prio_registered_inj:
  "prio_nodes ws \<Longrightarrow> ps_nodes ws i = Some a \<Longrightarrow> ps_nodes ws j = Some a \<Longrightarrow> i = j"
  by (metis prio_registered)

lemma prio_root_id:
  assumes "prio_nodes ws" "a < ps_fresh ws"
  shows "pn_id (ps_heap ws a) = 0 \<longleftrightarrow> a = root_node"
  using assms unfolding prio_nodes_def by (metis option.distinct(1) option.inject)

lemma prio_finite:
  assumes "prio_nodes ws"
  shows "finite {a. pn_parent (ps_heap ws a) \<noteq> None}"
proof -
  have "{a. pn_parent (ps_heap ws a) \<noteq> None} \<subseteq> {..< ps_fresh ws}"
    using assms by (auto simp: prio_nodes_def)
  then show ?thesis
    using finite_subset by blast
qed

section \<open>The frames queued on a stream\<close>

definition prio_queue :: "priorityWriteScheduler \<Rightarrow> u32 \<Rightarrow> FrameWriteRequest list" where
  "prio_queue ws i =
     filter (\<lambda>wr. StreamID wr = i) (wq_s (pn_q (ps_heap ws root_node))) @
     (if i = 0 then [] else case ps_nodes ws i of None \<Rightarrow> [] | Some a \<Rightarrow> wq_s (pn_q (ps_heap ws a)))"

text \<open>Operations that change no queue and register or forget no stream.\<close>

lemma prio_queue_same:
  assumes "ps_nodes ws' = ps_nodes ws" "\<And>a. wq_s (pn_q (ps_heap ws' a)) = wq_s (pn_q (ps_heap ws a))"
  shows "prio_queue ws' = prio_queue ws"
  using assms by (auto simp: prio_queue_def fun_eq_iff split: option.split)

section \<open>Push\<close>

text \<open>Data is sent on a stream, and streams other than the connection itself have ids other than 0.\<close>

definition well_addressed :: "FrameWriteRequest \<Rightarrow> bool" where
  "well_addressed wr \<longleftrightarrow> has_stream wr \<and> (DataSize wr > 0 \<longrightarrow> StreamID wr \<noteq> 0)"

lemma push_on_tree:
  assumes "prio_tree ws"
  shows "prio_tree (push_on ws n wr)"
proof -
  obtain K where K: "tree_ok (ps_heap ws) K"
    using assms by (auto simp: prio_tree_def)
  have "tree_ok (ps_heap (push_on ws n wr)) K"
    by (rule tree_ok_same_links(1) [OF K]) (simp add: push_on_def assign_apply same_links_def)
  then show ?thesis
    by (auto simp: prio_tree_def)
qed

lemma push_on_ok:
  assumes "prio_ok ws" "well_addressed wr"
    and "if n = root_node then DataSize wr = 0 else StreamID wr = pn_id (ps_heap ws n)"
  shows "prio_ok (push_on ws n wr)"
  unfolding prio_ok_def
proof (intro conjI)
  note ok = prio_okD [OF assms(1)]
  show "prio_tree (push_on ws n wr)"
    by (rule push_on_tree [OF ok(1)])
  have sel: "pn_id (ps_heap (push_on ws n wr) a) = pn_id (ps_heap ws a)"
    "pn_parent (ps_heap (push_on ws n wr) a) = pn_parent (ps_heap ws a)"
    "wq_s (pn_q (ps_heap (push_on ws n wr) a)) = wq_s (pn_q (ps_heap ws a)) @ (if a = n then [wr] else [])"
    "ps_nodes (push_on ws n wr) = ps_nodes ws" "ps_fresh (push_on ws n wr) = ps_fresh ws"
    "ps_writeThrottleLimit (push_on ws n wr) = ps_writeThrottleLimit ws" for a
    by (simp_all add: push_on_def assign_apply wq_push_def)
  show "prio_nodes (push_on ws n wr)"
    using ok(2) by (simp add: prio_nodes_def sel)
  show "prio_max (push_on ws n wr)" "prio_lists (push_on ws n wr)" "prio_pool (push_on ws n wr)"
    using ok(3,4,6) by (simp_all add: prio_max_def prio_lists_def prio_pool_def sel) (simp_all add: push_on_def)
  show "prio_frames (push_on ws n wr)"
    using ok(5) assms(2,3) by (auto simp: prio_frames_def frames_ok_def sel well_addressed_def split: if_splits)
qed

lemma priority_Push_cases:
  assumes "prio_ok ws" "priority_Push ws wr = Some ws'" "well_addressed wr"
  obtains (root) "ws' = push_on ws root_node wr" "DataSize wr = 0" "StreamID wr = 0 \<or> ps_nodes ws (StreamID wr) = None"
  | (stream) n where "ws' = push_on ws n wr" "StreamID wr \<noteq> 0" "ps_nodes ws (StreamID wr) = Some n" "n \<noteq> root_node"
proof -
  have "n \<noteq> root_node" if "ps_nodes ws (StreamID wr) = Some n" "StreamID wr \<noteq> 0" for n
    using prio_registered_inj [OF prio_okD(2) [OF assms(1)], of "StreamID wr" root_node 0] that prio_okD(2) [OF assms(1)]
    by (auto simp: prio_nodes_def)
  then show ?thesis
    using assms(2,3) root stream
    by (cases "ps_nodes ws (StreamID wr)") (auto simp: priority_Push_def Let_def well_addressed_def split: if_splits)
qed

lemma priority_Push_ok:
  assumes "prio_ok ws" "priority_Push ws wr = Some ws'" "well_addressed wr"
  shows "prio_ok ws'"
  using assms
proof (cases rule: priority_Push_cases)
  case root
  then show ?thesis
    using push_on_ok [OF assms(1,3)] by simp
next
  case (stream n)
  then show ?thesis
    using push_on_ok [OF assms(1,3)] prio_registered [OF prio_okD(2) [OF assms(1)]] by simp
qed

lemma priority_Push_queue:
  assumes "prio_ok ws" "priority_Push ws wr = Some ws'" "well_addressed wr"
  shows "prio_queue ws' = (prio_queue ws)(StreamID wr := prio_queue ws (StreamID wr) @ [wr])"
  using assms
proof (cases rule: priority_Push_cases)
  case root
  then show ?thesis
    using prio_registered_inj [OF prio_okD(2) [OF assms(1)], of _ root_node 0] prio_okD(2) [OF assms(1)]
    by (auto simp: prio_queue_def fun_eq_iff push_on_def assign_apply wq_push_def prio_nodes_def split: option.split)
next
  case (stream n)
  have other: "a \<noteq> n" if "ps_nodes ws i = Some a" "i \<noteq> StreamID wr" for i a
    using that stream(3) prio_registered_inj [OF prio_okD(2) [OF assms(1)]] by blast
  show ?thesis
    using stream other
    by (auto simp: prio_queue_def fun_eq_iff push_on_def assign_apply wq_push_def split: option.split)
qed

text \<open>Pushing panics exactly on data for a stream that is not registered.\<close>

lemma priority_Push_None_iff:
  "priority_Push ws wr = None \<longleftrightarrow> StreamID wr \<noteq> 0 \<and> ps_nodes ws (StreamID wr) = None \<and> DataSize wr > 0"
  by (auto simp: priority_Push_def Let_def split: option.split)

section \<open>Pop\<close>

lemma reordered_ok:
  assumes "prio_ok ws" "reordered ws ws'" "tree_ok (ps_heap ws') K"
  shows "prio_ok ws'" "prio_queue ws' = prio_queue ws"
proof -
  obtain h tmp where ws': "ws' = ws\<lparr>ps_heap := h, ps_tmp := tmp\<rparr>" and P: "\<And>a. pn_parent (h a) = pn_parent (ps_heap ws a)"
    and d: "\<forall>a. same_data (h a) (ps_heap ws a)"
    using assms(2) unfolding reordered_def by metis
  have sel: "pn_id (h a) = pn_id (ps_heap ws a)" "pn_q (h a) = pn_q (ps_heap ws a)" for a
    using d by (simp_all add: same_data_def)
  show "prio_ok ws'"
    using assms(1,3) by (auto simp: prio_ok_def prio_tree_def prio_defs ws' P sel)
  show "prio_queue ws' = prio_queue ws"
    by (rule prio_queue_same) (simp_all add: ws' sel)
qed

lemma consumes_sizes: "consumes xs wr ys \<Longrightarrow> \<forall>x \<in> set xs. DataSize x = 0 \<Longrightarrow> \<forall>y \<in> set ys. DataSize y = 0"
  by (cases xs) (auto simp: consumes_def)

lemma taken_ok:
  assumes "prio_ok ws" "taken m ys ws ws'" "consumes (wq_s (pn_q (ps_heap ws m))) wr ys"
  shows "prio_ok ws'"
proof -
  obtain h l where ws': "ws' = ws\<lparr>ps_heap := h, ps_writeThrottleLimit := l\<rparr>" and l: "0 < sint l"
    and d: "\<forall>a. same_links (h a) (ps_heap ws a) \<and> pn_id (h a) = pn_id (ps_heap ws a) \<and>
         pn_state (h a) = pn_state (ps_heap ws a) \<and> pn_weight (h a) = pn_weight (ps_heap ws a) \<and>
         wq_s (pn_q (h a)) = (if a = m then ys else wq_s (pn_q (ps_heap ws a)))"
    using assms(2) unfolding taken_def by blast
  note ok = prio_okD [OF assms(1)]
  let ?xs = "wq_s (pn_q (ps_heap ws m))"
  have fr: "list_all has_stream ys" "m = root_node \<Longrightarrow> \<forall>wr \<in> set ys. DataSize wr = 0"
    "m \<noteq> root_node \<Longrightarrow> \<forall>wr \<in> set ys. StreamID wr = pn_id (ps_heap ws m)"
    using ok(5) consumes_has_stream [OF assms(3)] consumes_sizes [OF assms(3)]
      consumes_ids [OF assms(3), of "pn_id (ps_heap ws m)"]
    unfolding prio_frames_def frames_ok_def by blast+
  have sel: "pn_id (h a) = pn_id (ps_heap ws a)" "pn_parent (h a) = pn_parent (ps_heap ws a)"
    "wq_s (pn_q (h a)) = (if a = m then ys else wq_s (pn_q (ps_heap ws a)))" for a
    using d by (simp_all add: same_links_def)
  show ?thesis
    unfolding prio_ok_def
  proof (intro conjI)
    obtain K where "tree_ok (ps_heap ws) K"
      using ok(1) by (auto simp: prio_tree_def)
    then show "prio_tree ws'"
      unfolding prio_tree_def using tree_ok_same_links(1) [of _ K h] d by (auto simp: ws')
    show "prio_nodes ws'" "prio_max ws'" "prio_lists ws'" "prio_pool ws'"
      using ok(2,3,4,6) by (simp_all add: prio_nodes_def prio_max_def prio_lists_def prio_pool_def ws' sel)
    show "prio_frames ws'"
      using ok(5) fr l by (auto simp: prio_frames_def frames_ok_def ws' sel split: if_splits)
  qed
qed

text \<open>What taking a frame from a node does to the frames queued on the streams.\<close>

lemma taken_sel:
  assumes "taken m ys ws ws'"
  shows "ps_nodes ws' = ps_nodes ws" "wq_s (pn_q (ps_heap ws' a)) = (if a = m then ys else wq_s (pn_q (ps_heap ws a)))"
  using assms by (auto simp: taken_def)

lemma taken_root_queue:
  assumes "prio_ok ws" "taken root_node ys ws ws'" "consumes (wq_s (pn_q (ps_heap ws root_node))) wr ys"
  shows "wq_s (pn_q (ps_heap ws root_node)) = wr # ys"
    and "\<exists>zs. consumes (prio_queue ws (StreamID wr)) wr zs \<and> prio_queue ws' = (prio_queue ws)(StreamID wr := zs)"
proof -
  note ok = prio_okD [OF assms(1)]
  let ?xs = "wq_s (pn_q (ps_heap ws root_node))"
  have "DataSize (hd ?xs) = 0" "has_stream (hd ?xs)"
    using ok(5) assms(3) by (auto simp: prio_frames_def frames_ok_def consumes_def list_all_iff)
  then show xs: "?xs = wr # ys"
    using assms(3) by (auto simp: consumes_def)
  have nodes: "a \<noteq> root_node" if "ps_nodes ws i = Some a" "i \<noteq> 0" for i a
    using that prio_registered_inj [OF ok(2), of i root_node 0] ok(2) by (auto simp: prio_nodes_def)
  have "has_stream wr"
    using \<open>has_stream (hd ?xs)\<close> xs by simp
  then have "consumes (prio_queue ws (StreamID wr)) wr (tl (prio_queue ws (StreamID wr)))"
    by (simp add: prio_queue_def xs consumes_def)
  moreover have "prio_queue ws' = (prio_queue ws)(StreamID wr := tl (prio_queue ws (StreamID wr)))"
    using nodes by (auto simp: prio_queue_def fun_eq_iff taken_sel [OF assms(2)] xs split: option.split)
  ultimately show "\<exists>zs. consumes (prio_queue ws (StreamID wr)) wr zs \<and> prio_queue ws' = (prio_queue ws)(StreamID wr := zs)"
    by blast
qed

lemma taken_node_queue:
  assumes "prio_ok ws" "taken m ys ws ws'" "consumes (wq_s (pn_q (ps_heap ws m))) wr ys"
    and "m \<noteq> root_node" "ps_nodes ws (pn_id (ps_heap ws m)) = Some m" "wq_s (pn_q (ps_heap ws root_node)) = []"
  shows "consumes (prio_queue ws (StreamID wr)) wr ys" "prio_queue ws' = (prio_queue ws)(StreamID wr := ys)"
proof -
  note ok = prio_okD [OF assms(1)]
  let ?i = "pn_id (ps_heap ws m)"
  have i: "?i \<noteq> 0"
    using prio_root_id [OF ok(2), of m] prio_registered [OF ok(2) assms(5)] assms(4) by simp
  have "StreamID (hd (wq_s (pn_q (ps_heap ws m)))) = ?i"
    using ok(5) assms(3,4) by (simp add: prio_frames_def consumes_def)
  then have wr: "StreamID wr = ?i"
    using assms(3) by (simp add: consumes_def)
  have "prio_queue ws ?i = wq_s (pn_q (ps_heap ws m))"
    using assms(5,6) i by (simp add: prio_queue_def)
  then show "consumes (prio_queue ws (StreamID wr)) wr ys"
    using assms(3) wr by simp
  have other: "a \<noteq> m" if "ps_nodes ws j = Some a" "j \<noteq> ?i" for j a
    using that assms(5) prio_registered_inj [OF ok(2)] by blast
  show "prio_queue ws' = (prio_queue ws)(StreamID wr := ys)"
    using other assms(4,5,6) i wr
    by (auto simp: prio_queue_def fun_eq_iff taken_sel [OF assms(2)] split: option.split)
qed

text \<open>The nodes of the tree are those below the root.\<close>

definition in_tree :: "priorityWriteScheduler \<Rightarrow> nat \<Rightarrow> bool" where
  "in_tree ws m \<longleftrightarrow> above (parents (ps_heap ws)) m root_node"

lemma in_tree_registered:
  "prio_nodes ws \<Longrightarrow> in_tree ws m \<Longrightarrow> ps_nodes ws (pn_id (ps_heap ws m)) = Some m"
  unfolding in_tree_def by (subst (asm) above_iff) (auto simp: prio_nodes_def)

lemma priority_Pop_cases:
  assumes "prio_ok ws" "permutes_list srt"
  obtains (none) ws' where "priority_Pop srt w ws = Some (empty_request, False, ws', w)" "prio_ok ws'"
      "prio_queue ws' = prio_queue ws" "\<forall>m. in_tree ws m \<longrightarrow> stuck_node w ws m"
  | (some) wr ws' ys m where "priority_Pop srt w ws = Some (wr, True, ws', took w wr)" "prio_ok ws'"
      "consumes (prio_queue ws (StreamID wr)) wr ys" "prio_queue ws' = (prio_queue ws)(StreamID wr := ys)"
      "in_tree ws m" "\<not> stuck_node w ws m"
      "wq_s (pn_q (ps_heap ws root_node)) \<noteq> [] \<longrightarrow> wr = hd (wq_s (pn_q (ps_heap ws root_node)))"
proof -
  note ok = prio_okD [OF assms(1)]
  let ?P = "parents (ps_heap ws)" and ?rq = "wq_s (pn_q (ps_heap ws root_node))"
  let ?s = "\<lparr>po_ws = ws, po_net = w, po_wr = empty_request, po_ok = False\<rparr>"
  let ?walk = "walkReadyInOrder (srt, pop_visit) ?s (Visit root_node False)"
  obtain K where K: "tree_ok (ps_heap ws) K"
    using ok(1) by (auto simp: prio_tree_def)
  have fr: "frames_ok ws"
    using ok(5) by (simp add: prio_frames_def)
  show ?thesis
  proof (cases "?rq = []")
    case False
    have nb: "\<not> stuck_node w ws root_node"
      using False ok(5) by (simp add: stuck_node_def prio_frames_def blocked_def Let_def)
    then obtain s' ys where s': "visit_node pop_visit ?s root_node False = Some (s', True)" "po_ok s'"
      "po_net s' = took w (po_wr s')" "consumes ?rq (po_wr s') ys" "taken root_node ys ws (po_ws s')"
      using visit_go [of ?s root_node False] fr tree_okD(2) [OF K, of root_node] by auto
    have "?walk = Some (s', True)"
      using s'(1) by (simp add: walkReadyInOrder.simps [of _ ?s "Visit root_node False"])
    then have pop: "priority_Pop srt w ws = Some (po_wr s', True, po_ws s', took w (po_wr s'))"
      using s'(2,3) by (simp add: priority_Pop_def)
    obtain zs where zs: "consumes (prio_queue ws (StreamID (po_wr s'))) (po_wr s') zs"
      "prio_queue (po_ws s') = (prio_queue ws)(StreamID (po_wr s') := zs)"
      using taken_root_queue(2) [OF assms(1) s'(5,4)] by blast
    show ?thesis
      by (rule some [OF pop taken_ok [OF assms(1) s'(5,4)] zs _ nb])
        (use taken_root_queue(1) [OF assms(1) s'(5,4)] in \<open>auto simp: in_tree_def\<close>)
  next
    case True
    have "walking ?P K ?s"
      using K fr by (simp add: walking_def)
    then have "walk_result ?P K (below ?P root_node) ?s ?walk"
      by (rule walk_visit [OF prio_finite [OF ok(2)] assms(2)])
    then consider s' where "?walk = Some (s', True)" "walk_took (below ?P root_node) ?s s'"
      | s' where "?walk = Some (s', False)" "walk_none ?P K (below ?P root_node) ?s s'"
      unfolding walk_result_def by blast
    then show ?thesis
    proof cases
      case (1 s')
      then obtain m ws1 ys K1 where m: "m \<in> below ?P root_node" "reordered ws ws1" "\<not> stuck_node w ws1 m"
        "consumes (wq_s (pn_q (ps_heap ws1 m))) (po_wr s') ys" "taken m ys ws1 (po_ws s')" "tree_ok (ps_heap ws1) K1"
        "po_ok s'" "po_net s' = took w (po_wr s')"
        unfolding walk_took_def by auto
      note ro = reordered_ok [OF assms(1) m(2,6)]
      have pop: "priority_Pop srt w ws = Some (po_wr s', True, po_ws s', took w (po_wr s'))"
        using 1(1) m(7,8) by (simp add: priority_Pop_def)
      have tree: "in_tree ws m"
        using m(1) by (simp add: below_def in_tree_def)
      have ns: "\<not> stuck_node w ws m"
        using m(3) stuck_node_reordered [OF m(2)] by simp
      then have "m \<noteq> root_node"
        using True by (auto simp: stuck_node_def)
      moreover have "in_tree ws1 m"
        using tree by (simp add: in_tree_def reordered_sel(1) [OF m(2)])
      then have "ps_nodes ws1 (pn_id (ps_heap ws1 m)) = Some m"
        using in_tree_registered prio_okD(2) [OF ro(1)] by blast
      moreover have "wq_s (pn_q (ps_heap ws1 root_node)) = []"
        using True by (simp add: reordered_sel(2) [OF m(2)])
      ultimately show ?thesis
        using taken_node_queue [OF ro(1) m(5,4)] taken_ok [OF ro(1) m(5,4)] ro(2) tree ns pop True
        by (intro some [of "po_wr s'" "po_ws s'" ys m]) simp_all
    next
      case (2 s')
      then obtain K' where "reordered ws (po_ws s')" "tree_ok (ps_heap (po_ws s')) K'" "po_net s' = w"
        "\<not> po_ok s'" "po_wr s' = empty_request" "\<forall>m \<in> below ?P root_node. stuck_node w ws m"
        unfolding walk_none_def walking_def by auto
      then show ?thesis
        using reordered_ok [OF assms(1)] 2(1)
        by (intro none [of "po_ws s'"]) (auto simp: priority_Pop_def in_tree_def below_def)
    qed
  qed
qed

section \<open>New nodes\<close>

lemma pool_get_empty:
  assumes "prio_pool ws" "pool_get (ps_store ws) (ps_queuePool ws) = (q, store, pool)"
  shows "wq_s (queues store q) = []" "prio_pool (ws\<lparr>ps_store := store, ps_queuePool := pool\<rparr>)"
proof (atomize (full), cases "ps_queuePool ws" rule: rev_cases)
  case Nil
  then show "wq_s (queues store q) = [] \<and> prio_pool (ws\<lparr>ps_store := store, ps_queuePool := pool\<rparr>)"
    using assms by (auto simp: pool_get_def new_queue_def Let_def prio_pool_def)
next
  case (snoc qs a)
  then show "wq_s (queues store q) = [] \<and> prio_pool (ws\<lparr>ps_store := store, ps_queuePool := pool\<rparr>)"
    using assms by (auto simp: pool_get_def Let_def prio_pool_def)
qed

text \<open>A stream that is new to the scheduler gets a node below an existing one.\<close>

lemma add_node_ok:
  assumes "prio_ok ws" "\<forall>a < ps_fresh ws. pn_id (ps_heap ws a) \<noteq> i" "p < ps_fresh ws"
    and "new_node ws i st = (n, ws1)" "i \<le> m" "ps_maxID ws \<le> m"
  shows "\<exists>h. setParent (ps_heap ws1) n (Some p) = Some h \<and> n = ps_fresh ws \<and>
    prio_ok (ws1\<lparr>ps_heap := h, ps_nodes := (ps_nodes ws1)(i \<mapsto> n), ps_maxID := m\<rparr>) \<and>
    prio_queue (ws1\<lparr>ps_heap := h, ps_nodes := (ps_nodes ws1)(i \<mapsto> n), ps_maxID := m\<rparr>) = prio_queue ws \<and>
    (\<forall>a. a \<noteq> n \<longrightarrow> pn_id (h a) = pn_id (ps_heap ws a))"
proof -
  note ok = prio_okD [OF assms(1)]
  obtain q store pool where get: "pool_get (ps_store ws) (ps_queuePool ws) = (q, store, pool)"
    using prod_cases3 by blast
  let ?h = "(ps_heap ws)(ps_fresh ws := zero_node\<lparr>pn_q := queues store q, pn_id := i, pn_weight := priorityDefaultWeight, pn_state := st\<rparr>)"
  have n: "n = ps_fresh ws" and ws1: "ws1 = ws\<lparr>ps_store := store, ps_queuePool := pool, ps_fresh := n + 1, ps_heap := ?h\<rparr>"
    using assms(4) get by (auto simp: new_node_def Let_def)
  obtain K where K: "tree_ok (ps_heap ws) K"
    using ok(1) by (auto simp: prio_tree_def)
  have lone: "pn_parent (ps_heap ws n) = None"
    using ok(2) n by (auto simp: prio_nodes_def) (metis less_irrefl not_Some_eq)
  moreover have "pn_kids (ps_heap ws n) = None"
    using tree_okD(3,5) [OF K] ok(2) n by (auto simp: prio_nodes_def) (metis first_None list.set_sel(1) less_irrefl)
  ultimately have "same_links (?h a) (ps_heap ws a)" for a
    using linked_butD(7,8) [OF tree_okD(1) [OF K], of n] n by (simp add: same_links_def zero_node_def)
  note keep = tree_ok_same_links [OF K, of ?h, rule_format, OF this]
  have "\<not> above (parents ?h) p n"
    using assms(3) ok(2) n unfolding keep(2) prio_nodes_def
    by (metis above_cases above_down less_irrefl)
  then obtain h where h: "setParent ?h n (Some p) = Some h" "tree_ok h (move_node (pn_parent (?h n)) n (Some p) K)"
    "parents h = (parents ?h)(n := Some p)" "\<forall>a. same_data (h a) (?h a)"
    using setParent_ok [OF keep(1), of "Some p" n] by auto
  let ?ws = "ws1\<lparr>ps_heap := h, ps_nodes := (ps_nodes ws1)(i \<mapsto> n), ps_maxID := m\<rparr>"
  have sel: "pn_id (h a) = (if a = n then i else pn_id (ps_heap ws a))"
    "wq_s (pn_q (h a)) = (if a = n then [] else wq_s (pn_q (ps_heap ws a)))"
    "pn_parent (h a) = (if a = n then Some p else pn_parent (ps_heap ws a))" for a
    using h(4) pool_get_empty(1) [OF ok(6) get] fun_cong [OF h(3), of a] fun_cong [OF keep(2), of a] n
    by (auto simp: same_data_def)
  have root: "root_node < n"
    using ok(2) n by (simp add: prio_nodes_def)
  have free: "ps_nodes ws i = None"
    using assms(2) prio_registered [OF ok(2)] by (cases "ps_nodes ws i") auto
  have "prio_ok ?ws"
    unfolding prio_ok_def
  proof (intro conjI)
    show "prio_tree ?ws"
      using h(2) by (auto simp: prio_tree_def)
    show "prio_nodes ?ws"
      using ok(2) assms(2,3) root free unfolding prio_nodes_def
      by (auto simp: ws1 sel n less_Suc_eq)
    show "prio_max ?ws"
      using ok(3) assms(5,6) by (auto simp: prio_max_def ws1 sel n less_Suc_eq intro: order_trans)
    show "prio_lists ?ws"
      using ok(4) by (auto simp: prio_lists_def ws1 n less_Suc_eq)
    show "prio_frames ?ws"
      using ok(5) root by (auto simp: prio_frames_def frames_ok_def ws1 sel)
    show "prio_pool ?ws"
      using pool_get_empty(2) [OF ok(6) get] by (simp add: prio_pool_def ws1)
  qed
  moreover have "a \<noteq> n" if "ps_nodes ws j = Some a" for j a
    using prio_registered [OF ok(2) that] n by simp
  then have "prio_queue ?ws = prio_queue ws"
    using free root by (auto simp: prio_queue_def ws1 sel fun_eq_iff split: option.split)
  ultimately show ?thesis
    using h(1) n sel(1) by (intro exI [of _ h]) (simp add: ws1)
qed

text \<open>A stream id is used once: no node but the registered one has it.\<close>

definition unused :: "priorityWriteScheduler \<Rightarrow> u32 \<Rightarrow> bool" where
  "unused ws i \<longleftrightarrow> (\<forall>a < ps_fresh ws. pn_id (ps_heap ws a) = i \<longrightarrow> ps_nodes ws i = Some a)"

text \<open>Changes of the state of a node.\<close>

lemma set_state_ok:
  assumes "prio_ok ws" "ws' = ws\<lparr>ps_heap := assign n (\<lambda>m. m\<lparr>pn_state := st\<rparr>) (ps_heap ws)\<rparr>"
  shows "prio_ok ws'" "prio_queue ws' = prio_queue ws"
proof -
  note ok = prio_okD [OF assms(1)]
  obtain K where K: "tree_ok (ps_heap ws) K"
    using ok(1) by (auto simp: prio_tree_def)
  have sel: "same_links (ps_heap ws' a) (ps_heap ws a)" "pn_id (ps_heap ws' a) = pn_id (ps_heap ws a)"
    "pn_parent (ps_heap ws' a) = pn_parent (ps_heap ws a)" "pn_q (ps_heap ws' a) = pn_q (ps_heap ws a)" for a
    by (simp_all add: assms(2) assign_apply same_links_def)
  have "tree_ok (ps_heap ws') K"
    by (rule tree_ok_same_links(1) [OF K]) (simp add: sel)
  then have "prio_tree ws'"
    by (auto simp: prio_tree_def)
  then show "prio_ok ws'"
    using ok unfolding prio_ok_def prio_defs by (simp add: sel) (simp add: assms(2))
  show "prio_queue ws' = prio_queue ws"
    by (rule prio_queue_same) (simp_all add: sel, simp add: assms(2))
qed

lemma priority_OpenStream_ok:
  assumes "prio_ok ws" "unused ws i" "priority_OpenStream ws i opts = Some ws'"
  shows "prio_ok ws'" "prio_queue ws' = prio_queue ws"
proof (atomize (full), cases "ps_nodes ws i")
  case (Some c)
  then show "prio_ok ws' \<and> prio_queue ws' = prio_queue ws"
    using assms(3) set_state_ok [OF assms(1) refl] by (auto simp: priority_OpenStream_def split: if_splits)
next
  case None
  let ?p = "case ps_nodes ws (PusherID opts) of None \<Rightarrow> root_node | Some p \<Rightarrow> p"
  note ok = prio_okD [OF assms(1)]
  have "?p < ps_fresh ws"
    using ok(2) by (auto simp: prio_nodes_def split: option.split)
  moreover have "\<forall>a < ps_fresh ws. pn_id (ps_heap ws a) \<noteq> i"
    using assms(2) None by (auto simp: unused_def)
  moreover obtain n ws1 where new: "new_node ws i PriorityNodeOpen = (n, ws1)"
    by fastforce
  moreover have "i \<le> (if i > ps_maxID ws then i else ps_maxID ws)" "ps_maxID ws \<le> (if i > ps_maxID ws then i else ps_maxID ws)"
    by auto
  ultimately obtain h where h: "setParent (ps_heap ws1) n (Some ?p) = Some h"
    "prio_ok (ws1\<lparr>ps_heap := h, ps_nodes := (ps_nodes ws1)(i \<mapsto> n), ps_maxID := if i > ps_maxID ws then i else ps_maxID ws\<rparr>)"
    "prio_queue (ws1\<lparr>ps_heap := h, ps_nodes := (ps_nodes ws1)(i \<mapsto> n), ps_maxID := if i > ps_maxID ws then i else ps_maxID ws\<rparr>) = prio_queue ws"
    using add_node_ok [OF assms(1)] by blast
  have "ps_maxID ws1 = ps_maxID ws"
    using new by (auto simp: new_node_def Let_def split: prod.splits)
  then have "ws' = ws1\<lparr>ps_heap := h, ps_nodes := (ps_nodes ws1)(i \<mapsto> n), ps_maxID := if i > ps_maxID ws then i else ps_maxID ws\<rparr>"
    using assms(3) None new h(1) by (auto simp: priority_OpenStream_def on_heap_def)
  then show "prio_ok ws' \<and> prio_queue ws' = prio_queue ws"
    using h(2,3) by simp
qed

section \<open>Removing a node\<close>

lemma removeNode_heap:
  assumes "tree_ok (ps_heap ws) K"
  shows "\<exists>h K'. removeNode ws n = Some (ws\<lparr>ps_heap := h, ps_nodes := (ps_nodes ws)(pn_id (ps_heap ws n) := None)\<rparr>) \<and>
    tree_ok h K' \<and> (\<forall>a. same_data (h a) (ps_heap ws a)) \<and>
    parents h = (case K n of [] \<Rightarrow> parents (ps_heap ws) | k # _ \<Rightarrow> (parents (ps_heap ws))(k := pn_parent (ps_heap ws n)))(n := None)"
proof -
  let ?P = "case K n of [] \<Rightarrow> parents (ps_heap ws) | k # _ \<Rightarrow> (parents (ps_heap ws))(k := pn_parent (ps_heap ws n))"
  have "\<exists>h1 K1. move_kids (ps_heap ws) (pn_kids (ps_heap ws n)) n = Some h1 \<and> tree_ok h1 K1 \<and>
      (\<forall>a. same_data (h1 a) (ps_heap ws a)) \<and> parents h1 = ?P"
  proof (cases "K n")
    case Nil
    then show ?thesis
      using tree_okD(3) [OF assms, of n] assms by (auto simp: move_kids.simps [of _ None])
  next
    case (Cons k ks)
    then show ?thesis
      using move_kids_first(1) [OF assms Cons] move_kids_first(2) [OF assms Cons refl] by auto
  qed
  then obtain h1 K1 where h1: "move_kids (ps_heap ws) (pn_kids (ps_heap ws n)) n = Some h1" "tree_ok h1 K1"
    "\<forall>a. same_data (h1 a) (ps_heap ws a)" "parents h1 = ?P"
    by blast
  obtain h2 K2 where h2: "setParent h1 n None = Some h2" "tree_ok h2 K2" "parents h2 = (parents h1)(n := None)"
    "\<forall>a. same_data (h2 a) (h1 a)"
    using setParent_ok [OF h1(2), of None n] by blast
  have data: "\<forall>a. same_data (h2 a) (ps_heap ws a)"
    using h1(3) h2(4) same_data_trans by blast
  then have "pn_id (h2 n) = pn_id (ps_heap ws n)"
    by (simp add: same_data_def)
  then have "removeNode ws n = Some (ws\<lparr>ps_heap := h2, ps_nodes := (ps_nodes ws)(pn_id (ps_heap ws n) := None)\<rparr>)"
    using h1(1) h2(1) by (simp add: removeNode_def)
  then show ?thesis
    using h2(2,3) data h1(4) by auto
qed

definition evicted :: "priorityWriteScheduler \<Rightarrow> priorityWriteScheduler \<Rightarrow> u32 set" where
  "evicted ws ws' = {i. ps_nodes ws i \<noteq> None \<and> ps_nodes ws' i = None}"

text \<open>The streams that lose frames are those whose nodes are removed.\<close>

definition drops :: "u32 set \<Rightarrow> priorityWriteScheduler \<Rightarrow> priorityWriteScheduler \<Rightarrow> bool" where
  "drops D ws ws' \<longleftrightarrow>
     (\<forall>i. subseq (prio_queue ws' i) (prio_queue ws i) \<and> (i \<notin> D \<longrightarrow> prio_queue ws' i = prio_queue ws i))"

lemma drops_same: "prio_queue ws' = prio_queue ws \<Longrightarrow> drops D ws ws'"
  by (simp add: drops_def)

lemma drops_mono: "drops D ws ws' \<Longrightarrow> D \<subseteq> D' \<Longrightarrow> drops D' ws ws'"
  by (auto simp: drops_def)

lemma drops_trans: "drops D ws ws' \<Longrightarrow> drops D' ws' ws'' \<Longrightarrow> drops (D \<union> D') ws ws''"
  by (auto simp: drops_def intro: subseq_order.order_trans)

lemma removeNode_ok:
  assumes "prio_ok ws" "root_node < n" "n < ps_fresh ws"
  shows "\<exists>ws'. removeNode ws n = Some ws' \<and> prio_ok ws' \<and> drops (evicted ws ws') ws ws' \<and>
    (\<exists>h. ws' = ws\<lparr>ps_heap := h, ps_nodes := (ps_nodes ws)(pn_id (ps_heap ws n) := None)\<rparr>)"
proof -
  note ok = prio_okD [OF assms(1)]
  obtain K where K: "tree_ok (ps_heap ws) K"
    using ok(1) by (auto simp: prio_tree_def)
  let ?H = "ps_heap ws" and ?i = "pn_id (ps_heap ws n)"
  obtain h K' where h: "removeNode ws n = Some (ws\<lparr>ps_heap := h, ps_nodes := (ps_nodes ws)(?i := None)\<rparr>)" "tree_ok h K'"
    "\<forall>a. same_data (h a) (?H a)"
    "parents h = (case K n of [] \<Rightarrow> parents ?H | k # _ \<Rightarrow> (parents ?H)(k := pn_parent (?H n)))(n := None)"
    using removeNode_heap [OF K, of n] by blast
  let ?ws = "ws\<lparr>ps_heap := h, ps_nodes := (ps_nodes ws)(?i := None)\<rparr>"
  have sel: "pn_id (h a) = pn_id (?H a)" "pn_q (h a) = pn_q (?H a)" for a
    using h(3) by (simp_all add: same_data_def)
  have i: "?i \<noteq> 0"
    using prio_root_id [OF ok(2) assms(3)] assms(2) by simp
  have other: "pn_id (?H a) \<noteq> ?i" if "ps_nodes ws (pn_id (?H a)) = Some a" "a \<noteq> n" for a
    using ok(2) assms(3) that unfolding prio_nodes_def by (metis option.distinct(1) option.inject)
  have par: "a \<noteq> n \<and> a < ps_fresh ws \<and> p < ps_fresh ws \<and> ps_nodes ws (pn_id (?H a)) = Some a" if asm: "pn_parent (h a) = Some p" for a p
  proof -
    have "a \<noteq> n"
      using asm fun_cong [OF h(4), of n] by auto
    moreover have "a < ps_fresh ws \<and> p < ps_fresh ws \<and> ps_nodes ws (pn_id (?H a)) = Some a"
    proof (cases "pn_parent (?H a) = Some p")
      case True
      then show ?thesis
        using ok(2) by (simp add: prio_nodes_def)
    next
      case False
      then obtain ks where "K n = a # ks" "pn_parent (?H n) = Some p"
        using asm fun_cong [OF h(4), of a] \<open>a \<noteq> n\<close> by (auto split: list.splits if_splits)
      then show ?thesis
        using tree_okD(5) [OF K, of a n] ok(2) by (simp add: prio_nodes_def)
    qed
    ultimately show ?thesis
      by blast
  qed
  have "prio_ok ?ws"
    unfolding prio_ok_def
  proof (intro conjI)
    show "prio_tree ?ws"
      using h(2) by (auto simp: prio_tree_def)
    have root: "pn_parent (h root_node) = None"
      using par [of root_node] prio_root_id [OF ok(2)] fun_cong [OF h(4), of root_node] ok(2) tree_okD(5) [OF K, of root_node n] assms(2)
      by (auto simp: prio_nodes_def split: list.splits if_splits)
    have "ps_nodes ?ws (pn_id (h a)) = Some a" if "pn_parent (h a) = Some p" for a p
      using par [OF that] other [of a] by (simp add: sel)
    moreover have "ps_nodes ?ws (pn_id (h a)) = Some a \<or> ps_nodes ?ws (pn_id (h a)) = None" if "a < ps_fresh ws" for a
      using ok(2) that by (simp add: sel prio_nodes_def)
    moreover have "a < ps_fresh ws \<and> pn_id (h a) = j" if "ps_nodes ?ws j = Some a" for j a
      using that prio_registered [OF ok(2), of j a] by (simp add: sel split: if_splits)
    moreover have "root_node < ps_fresh ws \<and> ps_nodes ?ws 0 = Some root_node \<and> pn_id (h root_node) = 0"
      using ok(2) i by (simp add: prio_nodes_def sel)
    ultimately show "prio_nodes ?ws"
      using par root unfolding prio_nodes_def by simp
    show "prio_max ?ws" "prio_lists ?ws" "prio_frames ?ws" "prio_pool ?ws"
      using ok(3-6) by (simp_all add: prio_defs sel)
  qed
  moreover have "drops (evicted ws ?ws) ws ?ws"
    using i by (auto simp: drops_def evicted_def prio_queue_def sel split: option.split)
  ultimately show ?thesis
    using h(1) by blast
qed

lemma addClosedOrIdleNode_ok:
  assumes "prio_ok ws" "\<forall>a \<in> set list. root_node < a \<and> a < ps_fresh ws"
  shows "\<exists>ws' list'. addClosedOrIdleNode ws list maxSize n = Some (ws', list') \<and> prio_ok ws' \<and>
    drops (evicted ws ws') ws ws' \<and> set list' \<subseteq> insert n (set list) \<and>
    (\<exists>h nodes. ws' = ws\<lparr>ps_heap := h, ps_nodes := nodes\<rparr> \<and> (\<forall>i. nodes i = ps_nodes ws i \<or> nodes i = None)) \<and>
    (n \<notin> set list \<longrightarrow> ps_nodes ws (pn_id (ps_heap ws n)) = Some n \<longrightarrow> ps_nodes ws' (pn_id (ps_heap ws n)) = Some n) \<and>
    (int (length list) = maxSize \<and> maxSize \<noteq> 0 \<longrightarrow> ps_nodes ws' (pn_id (ps_heap ws (hd list))) = None)"
proof (cases "int (length list) = maxSize \<and> maxSize \<noteq> 0")
  case True
  then obtain a as where list: "list = a # as"
    by (cases list) auto
  then have a: "root_node < a" "a < ps_fresh ws"
    using assms(2) by auto
  then obtain ws' h where ws': "removeNode ws a = Some ws'" "prio_ok ws'" "drops (evicted ws ws') ws ws'"
    "ws' = ws\<lparr>ps_heap := h, ps_nodes := (ps_nodes ws)(pn_id (ps_heap ws a) := None)\<rparr>"
    using removeNode_ok [OF assms(1)] by blast
  have keep: "ps_nodes ws' (pn_id (ps_heap ws n)) = Some n"
    if "n \<notin> set list" "ps_nodes ws (pn_id (ps_heap ws n)) = Some n"
  proof -
    have "n \<noteq> a"
      using that(1) list by auto
    then have "pn_id (ps_heap ws n) \<noteq> pn_id (ps_heap ws a)"
      using that(2) a(2) prio_okD(2) [OF assms(1)] unfolding prio_nodes_def by (metis option.distinct(1) option.inject)
    then show ?thesis
      using that(2) by (simp add: ws'(4))
  qed
  have "addClosedOrIdleNode ws list maxSize n = Some (ws', as @ [n])"
    using True list ws'(1) by (simp add: addClosedOrIdleNode_def)
  moreover have "\<exists>h nodes. ws' = ws\<lparr>ps_heap := h, ps_nodes := nodes\<rparr> \<and> (\<forall>i. nodes i = ps_nodes ws i \<or> nodes i = None)"
    using ws'(4) by (intro exI [of _ h] exI [of _ "(ps_nodes ws)(pn_id (ps_heap ws a) := None)"]) simp
  moreover have "set (as @ [n]) \<subseteq> insert n (set list)"
    using list by auto
  moreover have "ps_nodes ws' (pn_id (ps_heap ws (hd list))) = None"
    by (simp add: ws'(4) list)
  ultimately show ?thesis
    using ws'(2,3) keep by blast
next
  case False
  then have "\<exists>list'. addClosedOrIdleNode ws list maxSize n = Some (ws, list') \<and> set list' \<subseteq> insert n (set list)"
    by (auto simp: addClosedOrIdleNode_def)
  moreover have "drops (evicted ws ws) ws ws"
    by (rule drops_same) simp
  moreover have "\<exists>h nodes. ws = ws\<lparr>ps_heap := h, ps_nodes := nodes\<rparr> \<and> (\<forall>i. nodes i = ps_nodes ws i \<or> nodes i = None)"
    by (intro exI [of _ "ps_heap ws"] exI [of _ "ps_nodes ws"]) simp
  ultimately show ?thesis
    using assms(1) False by blast
qed

section \<open>Closing a stream\<close>

text \<open>The state once the stream is marked closed, its bytes are taken back and its queue is emptied.\<close>

lemma close_node_ok:
  assumes "prio_ok ws" "ps_nodes ws i = Some n" "i \<noteq> 0"
    and "addBytes (assign n (\<lambda>m. m\<lparr>pn_state := PriorityNodeClosed\<rparr>) (ps_heap ws)) n b = Some h"
    and "new_queue (ps_store ws) (pn_q (h n)) = (q, store)" "pool_put store (ps_queuePool ws) q = (store', pool)"
    and "ws' = ws\<lparr>ps_heap := assign n (\<lambda>m. m\<lparr>pn_q := \<lparr>wq_s = []\<rparr>\<rparr>) h, ps_store := store', ps_queuePool := pool\<rparr>"
  shows "prio_ok ws'" "drops {i} ws ws'"
proof -
  note ok = prio_okD [OF assms(1)]
  obtain K where K: "tree_ok (ps_heap ws) K"
    using ok(1) by (auto simp: prio_tree_def)
  let ?h0 = "assign n (\<lambda>m. m\<lparr>pn_state := PriorityNodeClosed\<rparr>) (ps_heap ws)"
  have "tree_ok ?h0 K"
    by (rule tree_ok_same_links(1) [OF K]) (simp add: assign_apply same_links_def)
  then obtain h' where "addBytes ?h0 n b = Some h'" "\<forall>x. \<exists>y z. h' x = (?h0 x)\<lparr>pn_bytes := y, pn_subtreeBytes := z\<rparr>"
    using addBytes_Some [OF tree_okD(2), of ?h0 K n b] by blast
  then have h: "\<exists>y z. h x = (?h0 x)\<lparr>pn_bytes := y, pn_subtreeBytes := z\<rparr>" for x
    using assms(4) by simp
  have sel: "same_links (ps_heap ws' a) (ps_heap ws a)" "pn_id (ps_heap ws' a) = pn_id (ps_heap ws a)"
    "pn_parent (ps_heap ws' a) = pn_parent (ps_heap ws a)"
    "wq_s (pn_q (ps_heap ws' a)) = (if a = n then [] else wq_s (pn_q (ps_heap ws a)))" for a
    using h [of a] by (auto simp: assms(7) assign_apply same_links_def)
  have n: "n \<noteq> root_node"
    using prio_registered [OF ok(2) assms(2)] prio_root_id [OF ok(2), of n] assms(3) by auto
  show "prio_ok ws'"
    unfolding prio_ok_def
  proof (intro conjI)
    have "tree_ok (ps_heap ws') K"
      by (rule tree_ok_same_links(1) [OF K]) (simp add: sel)
    then show "prio_tree ws'"
      by (auto simp: prio_tree_def)
    show "prio_nodes ws'" "prio_max ws'" "prio_lists ws'"
      using ok(2-4) by (simp_all add: prio_nodes_def prio_max_def prio_lists_def sel) (simp_all add: assms(7))
    show "prio_frames ws'"
      using ok(5) n by (auto simp: prio_frames_def frames_ok_def sel) (simp add: assms(7))
    show "prio_pool ws'"
      using ok(6) assms(5,6) by (auto simp: prio_pool_def assms(7) new_queue_def pool_put_def Let_def less_Suc_eq)
  qed
  have nodes: "ps_nodes ws' = ps_nodes ws"
    by (simp add: assms(7))
  have other: "a \<noteq> n" if "ps_nodes ws j = Some a" "j \<noteq> i" for j a
    using that assms(2) prio_registered_inj [OF ok(2)] by blast
  have "prio_queue ws' j = prio_queue ws j" if "j \<noteq> i" for j
    using other [OF _ that] n by (cases "ps_nodes ws j") (simp_all add: prio_queue_def nodes sel)
  moreover have "subseq (prio_queue ws' i) (prio_queue ws i)"
    using n assms(2,3) by (simp add: prio_queue_def nodes sel list_emb_prefix)
  ultimately show "drops {i} ws ws'"
    unfolding drops_def by (metis singletonI subseq_order.order_refl)
qed

lemma upd_lists:
  "prio_tree (ws\<lparr>ps_closedNodes := l\<rparr>) = prio_tree ws" "prio_nodes (ws\<lparr>ps_closedNodes := l\<rparr>) = prio_nodes ws"
  "prio_max (ws\<lparr>ps_closedNodes := l\<rparr>) = prio_max ws" "prio_frames (ws\<lparr>ps_closedNodes := l\<rparr>) = prio_frames ws"
  "prio_pool (ws\<lparr>ps_closedNodes := l\<rparr>) = prio_pool ws"
  "prio_tree (ws\<lparr>ps_idleNodes := l\<rparr>) = prio_tree ws" "prio_nodes (ws\<lparr>ps_idleNodes := l\<rparr>) = prio_nodes ws"
  "prio_max (ws\<lparr>ps_idleNodes := l\<rparr>) = prio_max ws" "prio_frames (ws\<lparr>ps_idleNodes := l\<rparr>) = prio_frames ws"
  "prio_pool (ws\<lparr>ps_idleNodes := l\<rparr>) = prio_pool ws"
  by (simp_all add: prio_tree_def prio_nodes_def prio_max_def prio_frames_def prio_pool_def frames_ok_def)

lemma retire_node_ok:
  assumes "prio_ok ws" "root_node < n" "n < ps_fresh ws"
  shows "\<exists>ws'. retire_node ws n = Some ws' \<and> prio_ok ws' \<and> drops (evicted ws ws') ws ws'"
proof (cases "ps_maxClosedNodesInTree ws > 0")
  case False
  then show ?thesis
    using removeNode_ok [OF assms] by (auto simp: retire_node_def)
next
  case True
  have lists: "\<forall>a \<in> set (ps_closedNodes ws). root_node < a \<and> a < ps_fresh ws"
    using prio_okD(4) [OF assms(1)] by (simp add: prio_lists_def)
  obtain ws2 l h nodes where ws2: "addClosedOrIdleNode ws (ps_closedNodes ws) (ps_maxClosedNodesInTree ws) n = Some (ws2, l)"
    "prio_ok ws2" "drops (evicted ws ws2) ws ws2" "set l \<subseteq> insert n (set (ps_closedNodes ws))"
    "ws2 = ws\<lparr>ps_heap := h, ps_nodes := nodes\<rparr>"
    using addClosedOrIdleNode_ok [OF assms(1) lists, of "ps_maxClosedNodesInTree ws" n] by metis
  let ?ws = "ws2\<lparr>ps_closedNodes := l\<rparr>"
  have fresh: "ps_fresh ws2 = ps_fresh ws"
    by (simp add: ws2(5))
  have "prio_lists ?ws"
    using prio_okD(4) [OF ws2(2)] ws2(4) fresh lists assms(2,3) unfolding prio_lists_def by auto
  then have "prio_ok ?ws"
    using ws2(2) by (simp add: prio_ok_def upd_lists)
  moreover have "prio_queue ?ws = prio_queue ws2"
    by (rule prio_queue_same) simp_all
  moreover have "evicted ws ?ws = evicted ws ws2"
    by (simp add: evicted_def)
  ultimately have "drops (evicted ws ?ws) ws ?ws" "prio_ok ?ws"
    using ws2(3) unfolding drops_def by simp_all
  then show ?thesis
    using True ws2(1) by (simp add: retire_node_def)
qed

lemma priority_CloseStream_ok:
  assumes "prio_ok ws" "priority_CloseStream ws i = Some ws'"
  shows "prio_ok ws'" "drops (insert i (evicted ws ws')) ws ws'"
proof -
  obtain n where n: "ps_nodes ws i = Some n" and i: "i \<noteq> 0" and st: "pn_state (ps_heap ws n) = PriorityNodeOpen"
    using assms(2) by (auto simp: priority_CloseStream_def split: if_splits option.splits)
  let ?h0 = "assign n (\<lambda>m. m\<lparr>pn_state := PriorityNodeClosed\<rparr>) (ps_heap ws)"
  obtain h where h: "addBytes ?h0 n (- pn_bytes (?h0 n)) = Some h"
    using assms(2) n i st by (auto simp: priority_CloseStream_def Let_def split: option.splits)
  obtain q store store' pool where q: "new_queue (ps_store ws) (pn_q (h n)) = (q, store)"
    "pool_put store (ps_queuePool ws) q = (store', pool)"
    by fastforce
  define ws1 where "ws1 = ws\<lparr>ps_heap := assign n (\<lambda>m. m\<lparr>pn_q := \<lparr>wq_s = []\<rparr>\<rparr>) h, ps_store := store', ps_queuePool := pool\<rparr>"
  note ws1 = close_node_ok [OF assms(1) n i h q ws1_def]
  have nodes: "ps_nodes ws1 = ps_nodes ws" "ps_fresh ws1 = ps_fresh ws"
    by (simp_all add: ws1_def)
  have m: "root_node < n" "n < ps_fresh ws1"
    using prio_registered [OF prio_okD(2) [OF assms(1)] n] prio_root_id [OF prio_okD(2) [OF assms(1)], of n] i nodes(2)
    by (auto simp: root_node_def)
  have "retire_node ws1 n = Some ws'"
    using assms(2) n i st h q by (simp add: priority_CloseStream_def Let_def ws1_def)
  then have "prio_ok ws' \<and> drops (evicted ws1 ws') ws1 ws'"
    using retire_node_ok [OF ws1(1) m] by auto
  moreover have "evicted ws1 ws' = evicted ws ws'"
    by (simp add: evicted_def nodes)
  ultimately show "prio_ok ws'" "drops (insert i (evicted ws ws')) ws ws'"
    using drops_trans [OF ws1(2)] by auto
qed

section \<open>Reprioritising a stream\<close>

text \<open>A node moves in the tree; its weight changes.\<close>

lemma adjusted_ok:
  assumes "prio_ok ws" "tree_ok h K'"
    and "\<forall>a. \<exists>w. same_data (h a) ((ps_heap ws a)\<lparr>pn_weight := w\<rparr>)"
    and "pn_parent (h root_node) = None"
    and "\<forall>a p. pn_parent (h a) = Some p \<longrightarrow> a < ps_fresh ws \<and> p < ps_fresh ws \<and> ps_nodes ws (pn_id (ps_heap ws a)) = Some a"
  shows "prio_ok (ws\<lparr>ps_heap := h\<rparr>)" "prio_queue (ws\<lparr>ps_heap := h\<rparr>) = prio_queue ws"
proof -
  note ok = prio_okD [OF assms(1)]
  have sel: "pn_id (h a) = pn_id (ps_heap ws a)" "pn_q (h a) = pn_q (ps_heap ws a)" for a
    using assms(3) [rule_format, of a] by (auto simp: same_data_def)
  have "prio_tree (ws\<lparr>ps_heap := h\<rparr>)"
    using assms(2) by (auto simp: prio_tree_def)
  moreover have "prio_nodes (ws\<lparr>ps_heap := h\<rparr>)"
    using ok(2) assms(4,5) unfolding prio_nodes_def by (simp add: sel)
  moreover have "prio_max (ws\<lparr>ps_heap := h\<rparr>)" "prio_lists (ws\<lparr>ps_heap := h\<rparr>)"
    "prio_frames (ws\<lparr>ps_heap := h\<rparr>)" "prio_pool (ws\<lparr>ps_heap := h\<rparr>)"
    using ok(3-6) by (simp_all add: prio_defs sel)
  ultimately show "prio_ok (ws\<lparr>ps_heap := h\<rparr>)"
    by (simp add: prio_ok_def)
  show "prio_queue (ws\<lparr>ps_heap := h\<rparr>) = prio_queue ws"
    by (rule prio_queue_same) (simp_all add: sel)
qed

lemma reparent_parents:
  assumes "reparent P n q excl a = Some p"
  shows "a = n \<or> a = q \<or> P a \<noteq> None" "p = q \<or> p = n \<or> P a = Some p \<or> P n = Some p"
  using assms by (auto simp: reparent_def lift_parent_def Let_def split: if_splits)

lemma adjust_node_ok:
  assumes "prio_ok ws" "ps_nodes ws i = Some n" "i \<noteq> 0"
  shows "\<exists>ws'. adjust_node ws n pr = Some ws' \<and> prio_ok ws' \<and> prio_queue ws' = prio_queue ws \<and> ps_nodes ws' = ps_nodes ws"
proof -
  note ok = prio_okD [OF assms(1)]
  obtain K where K: "tree_ok (ps_heap ws) K"
    using ok(1) by (auto simp: prio_tree_def)
  let ?H = "ps_heap ws"
  note n = prio_registered [OF ok(2) assms(2)]
  have root: "n \<noteq> root_node" "pn_parent (?H root_node) = None" "root_node < ps_fresh ws"
    using n prio_root_id [OF ok(2), of n] assms(3) ok(2) by (auto simp: prio_nodes_def)
  have reg: "a < ps_fresh ws \<and> p < ps_fresh ws \<and> ps_nodes ws (pn_id (?H a)) = Some a" if "pn_parent (?H a) = Some p" for a p
    using ok(2) that by (simp add: prio_nodes_def)
  have n': "n < ps_fresh ws \<and> ps_nodes ws (pn_id (?H n)) = Some n"
    using n assms(2) by simp
  show ?thesis
  proof (cases "ps_nodes ws (StreamDep pr)")
    case None
    have "\<not> above (parents ?H) root_node n"
      using root by (subst above_iff) auto
    then obtain h K' where h: "setParent ?H n (Some root_node) = Some h" "tree_ok h K'"
      "parents h = (parents ?H)(n := Some root_node)" "\<forall>a. same_data (h a) (?H a)"
      using setParent_ok [OF K, of "Some root_node" n] by blast
    let ?h = "assign n (\<lambda>m. m\<lparr>pn_weight := priorityDefaultWeight\<rparr>) h"
    have keep: "tree_ok ?h K'" "parents ?h = parents h"
      by (rule tree_ok_same_links [OF h(2)]; simp add: assign_apply same_links_def)+
    have par: "pn_parent (?h a) = (if a = n then Some root_node else pn_parent (?H a))" for a
      using fun_cong [OF keep(2), of a] fun_cong [OF h(3), of a] by simp
    have "\<forall>a. \<exists>w. same_data (?h a) ((?H a)\<lparr>pn_weight := w\<rparr>)"
      using h(4) by (auto simp: assign_apply same_data_def)
    note fin = adjusted_ok [OF assms(1) keep(1) this]
    have "\<forall>a p. pn_parent (?h a) = Some p \<longrightarrow> a < ps_fresh ws \<and> p < ps_fresh ws \<and> ps_nodes ws (pn_id (?H a)) = Some a"
      using reg n' root(3) by (auto simp: par split: if_splits)
    moreover have "pn_parent (?h root_node) = None"
      using root by (simp add: par)
    moreover have "adjust_node ws n pr = Some (ws\<lparr>ps_heap := ?h\<rparr>)"
      using None h(1) by (simp add: adjust_node_def on_heap_def)
    ultimately show ?thesis
      using fin by auto
  next
    case (Some q)
    show ?thesis
    proof (cases "n = q")
      case True
      then show ?thesis
        using Some assms(1) by (simp add: adjust_node_def)
    next
      case False
      obtain h K' where h: "reprioritise ?H n q pr = Some h" "tree_ok h K'"
        "parents h = reparent (parents ?H) n q (Exclusive pr)"
        "\<forall>a. same_data (h a) (if a = n then (?H a)\<lparr>pn_weight := Weight pr\<rparr> else ?H a)"
        using reprioritise_Some [OF K False] by blast
      have q: "q < ps_fresh ws \<and> ps_nodes ws (pn_id (?H q)) = Some q"
        using prio_registered [OF ok(2) Some] Some by simp
      have "\<forall>a. \<exists>w. same_data (h a) ((?H a)\<lparr>pn_weight := w\<rparr>)"
        using h(4) by (auto simp: same_data_def split: if_splits)
      note fin = adjusted_ok [OF assms(1) h(2) this]
      have "pn_parent (h root_node) = None"
        using fun_cong [OF h(3), of root_node] root above_iff [of "parents ?H" root_node n]
        by (auto simp: reparent_def lift_parent_def Let_def)
      moreover have "a < ps_fresh ws \<and> p < ps_fresh ws \<and> ps_nodes ws (pn_id (?H a)) = Some a" if "pn_parent (h a) = Some p" for a p
        using reparent_parents [of "parents ?H" n q "Exclusive pr" a p] that fun_cong [OF h(3), of a] reg n' q
        by (metis option.exhaust)
      moreover have "adjust_node ws n pr = Some (ws\<lparr>ps_heap := h\<rparr>)"
        using Some False h(1) by (simp add: adjust_node_def on_heap_def)
      ultimately show ?thesis
        using fin by auto
    qed
  qed
qed

lemma priority_AdjustStream_ok:
  assumes "prio_ok ws" "i \<noteq> 0"
  shows "\<exists>ws'. priority_AdjustStream ws i pr = Some ws' \<and> prio_ok ws' \<and> drops (evicted ws ws') ws ws' \<and>
    (i > ps_maxID ws \<and> ps_maxIdleNodesInTree ws \<noteq> 0 \<and> int (length (ps_idleNodes ws)) = ps_maxIdleNodesInTree ws \<longrightarrow>
      ps_nodes ws' (pn_id (ps_heap ws (hd (ps_idleNodes ws)))) = None)"
proof (cases "ps_nodes ws i")
  case (Some n)
  then obtain ws' where "adjust_node ws n pr = Some ws'" "prio_ok ws'" "prio_queue ws' = prio_queue ws"
    using adjust_node_ok [OF assms(1) _ assms(2)] by blast
  moreover have "\<not> i > ps_maxID ws"
    using prio_registered [OF prio_okD(2) [OF assms(1)] Some] prio_okD(3) [OF assms(1)] by (auto simp: prio_max_def not_less)
  ultimately show ?thesis
    using Some assms(2) drops_same by (auto simp: priority_AdjustStream_def)
next
  case None
  note ok = prio_okD [OF assms(1)]
  show ?thesis
  proof (cases "i \<le> ps_maxID ws \<or> ps_maxIdleNodesInTree ws = 0")
    case True
    then show ?thesis
      using None assms drops_same by (auto simp: priority_AdjustStream_def)
  next
    case False
    let ?ws0 = "ws\<lparr>ps_maxID := i\<rparr>"
    have fresh: "\<forall>a < ps_fresh ws. pn_id (ps_heap ws a) \<noteq> i"
      using ok(3) False unfolding prio_max_def by auto
    have root: "root_node < ps_fresh ws"
      using ok(2) by (simp add: prio_nodes_def)
    obtain n ws1 where new: "new_node ws i PriorityNodeIdle = (n, ws1)"
      by fastforce
    have new0: "new_node ?ws0 i PriorityNodeIdle = (n, ws1\<lparr>ps_maxID := i\<rparr>)"
      using new by (auto simp: new_node_def Let_def split: prod.splits)
    have heap1: "ps_idleNodes ws1 = ps_idleNodes ws" "ps_nodes ws1 = ps_nodes ws" "ps_fresh ws1 = ps_fresh ws + 1"
      "ps_maxIdleNodesInTree ws1 = ps_maxIdleNodesInTree ws"
      using new by (auto simp: new_node_def Let_def split: prod.splits)
    have "ps_maxID ws \<le> i"
      using False by auto
    then obtain h where h: "setParent (ps_heap ws1) n (Some root_node) = Some h" "n = ps_fresh ws"
      "prio_ok (ws1\<lparr>ps_heap := h, ps_nodes := (ps_nodes ws1)(i \<mapsto> n), ps_maxID := i\<rparr>)"
      "prio_queue (ws1\<lparr>ps_heap := h, ps_nodes := (ps_nodes ws1)(i \<mapsto> n), ps_maxID := i\<rparr>) = prio_queue ws"
      "\<forall>a. a \<noteq> n \<longrightarrow> pn_id (h a) = pn_id (ps_heap ws a)"
      using add_node_ok [OF assms(1) fresh root new order_refl] by blast
    define ws2 where "ws2 = ws1\<lparr>ps_heap := h, ps_nodes := (ps_nodes ws1)(i \<mapsto> n), ps_maxID := i\<rparr>"
    have old: "\<forall>a. a \<noteq> n \<longrightarrow> pn_id (ps_heap ws2 a) = pn_id (ps_heap ws a)"
      using h(5) by (simp add: ws2_def)
    have ws2: "prio_ok ws2" "prio_queue ws2 = prio_queue ws" "ps_nodes ws2 i = Some n"
      using h(3,4) by (simp_all add: ws2_def)
    have lists: "\<forall>a \<in> set (ps_idleNodes ws2). root_node < a \<and> a < ps_fresh ws2" "n \<notin> set (ps_idleNodes ws2)"
      using prio_okD(4) [OF ws2(1)] ok(4) h(2) unfolding prio_lists_def by (auto simp: ws2_def heap1)
    have id: "pn_id (ps_heap ws2 n) = i"
      using prio_registered [OF prio_okD(2) [OF ws2(1)] ws2(3)] by simp
    obtain ws3 l h3 nodes where ws3: "addClosedOrIdleNode ws2 (ps_idleNodes ws2) (ps_maxIdleNodesInTree ws2) n = Some (ws3, l)"
      "prio_ok ws3" "drops (evicted ws2 ws3) ws2 ws3" "set l \<subseteq> insert n (set (ps_idleNodes ws2))"
      "ws3 = ws2\<lparr>ps_heap := h3, ps_nodes := nodes\<rparr>" "ps_nodes ws3 i = Some n"
      "int (length (ps_idleNodes ws2)) = ps_maxIdleNodesInTree ws2 \<longrightarrow> ps_maxIdleNodesInTree ws2 \<noteq> 0 \<longrightarrow>
        ps_nodes ws3 (pn_id (ps_heap ws2 (hd (ps_idleNodes ws2)))) = None"
      using addClosedOrIdleNode_ok [OF ws2(1) lists(1), of "ps_maxIdleNodesInTree ws2" n] lists(2) ws2(3) id by metis
    let ?ws4 = "ws3\<lparr>ps_idleNodes := l\<rparr>"
    have "n < ps_fresh ws2" "root_node < n"
      using h(2) heap1(3) root by (simp_all add: ws2_def)
    moreover have "ps_fresh ws3 = ps_fresh ws2"
      by (simp add: ws3(5))
    ultimately have "prio_lists ?ws4"
      using prio_okD(4) [OF ws3(2)] ws3(4) lists(1) unfolding prio_lists_def by auto
    then have ws4: "prio_ok ?ws4"
      using ws3(2) by (simp add: prio_ok_def upd_lists)
    then obtain ws' where ws': "adjust_node ?ws4 n pr = Some ws'" "prio_ok ws'" "prio_queue ws' = prio_queue ?ws4" "ps_nodes ws' = ps_nodes ?ws4"
      using adjust_node_ok [OF ws4, of i n pr] ws3(6) assms(2) by auto
    have "prio_queue ?ws4 = prio_queue ws3"
      by (rule prio_queue_same) simp_all
    then have "drops (evicted ws2 ws3) ws ws'"
      using ws3(3) ws'(3) ws2(2) by (simp add: drops_def)
    moreover have "evicted ws2 ws3 \<subseteq> evicted ws ws'"
      using ws'(4) ws3(6) by (auto simp: evicted_def ws2_def heap1 split: if_splits)
    ultimately have "drops (evicted ws ws') ws ws'"
      by (rule drops_mono)
    moreover have "priority_AdjustStream ws i pr = Some ws'"
    proof -
      have "ws1\<lparr>ps_maxID := i, ps_heap := h, ps_nodes := (ps_nodes ws1)(i \<mapsto> n)\<rparr> = ws2"
        by (simp add: ws2_def)
      moreover have "ps_idleNodes ws1 = ps_idleNodes ws2" "ps_maxIdleNodesInTree ws1 = ps_maxIdleNodesInTree ws2"
        by (simp_all add: ws2_def)
      ultimately show ?thesis
        using None False assms(2) new0 h(1) ws3(1) ws'(1)
        by (simp add: priority_AdjustStream_def on_heap_def Let_def)
    qed
    moreover have "ps_nodes ws' (pn_id (ps_heap ws (hd (ps_idleNodes ws)))) = None"
      if "int (length (ps_idleNodes ws)) = ps_maxIdleNodesInTree ws"
    proof -
      have "ps_idleNodes ws \<noteq> []"
        using that False by auto
      then have "hd (ps_idleNodes ws) < ps_fresh ws"
        using ok(4) by (simp add: prio_lists_def)
      then have "pn_id (ps_heap ws2 (hd (ps_idleNodes ws))) = pn_id (ps_heap ws (hd (ps_idleNodes ws)))"
        using old h(2) by simp
      moreover have "ps_maxIdleNodesInTree ws2 = ps_maxIdleNodesInTree ws"
        by (simp add: ws2_def heap1)
      ultimately show ?thesis
        using ws3(7) that False ws'(4) by (simp add: ws2_def heap1)
    qed
    ultimately show ?thesis
      using ws'(2) by blast
  qed
qed

section \<open>Runs\<close>

inductive priority_step ::
  "sorter \<Rightarrow> priorityWriteScheduler \<Rightarrow> net \<Rightarrow> sched_event \<Rightarrow> priorityWriteScheduler \<Rightarrow> net \<Rightarrow> bool"
  for srt :: sorter where
  priority_push: "well_addressed wr \<Longrightarrow> priority_Push ws wr = Some ws' \<Longrightarrow> priority_step srt ws w (Pushed wr) ws' w"
| priority_pop: "priority_Pop srt w ws = Some (wr, True, ws', w') \<Longrightarrow> priority_step srt ws w (Popped wr) ws' w'"
| priority_stuck: "priority_Pop srt w ws = Some (wr, False, ws', w') \<Longrightarrow> priority_step srt ws w Stuck ws' w'"
| priority_open: "unused ws i \<Longrightarrow> priority_OpenStream ws i opts = Some ws' \<Longrightarrow> priority_step srt ws w (Managed {}) ws' w"
| priority_close: "priority_CloseStream ws i = Some ws' \<Longrightarrow>
    priority_step srt ws w (Managed (insert i (evicted ws ws'))) ws' w"
| priority_adjust: "priority_AdjustStream ws i pr = Some ws' \<Longrightarrow>
    priority_step srt ws w (Managed (evicted ws ws')) ws' w"

inductive_cases priority_step_cases:
  "priority_step srt ws w (Pushed wr) ws' w'" "priority_step srt ws w (Popped wr) ws' w'"
  "priority_step srt ws w Stuck ws' w'" "priority_step srt ws w (Managed D) ws' w'"

lemma priority_Adjust_Some:
  assumes "prio_ok ws" "priority_AdjustStream ws i pr = Some ws'"
  shows "prio_ok ws'" "drops (evicted ws ws') ws ws'"
  using priority_AdjustStream_ok [OF assms(1), of i pr] assms(2) by (auto simp: priority_AdjustStream_def split: if_splits)

lemma priority_Pop_Some:
  assumes "prio_ok ws" "permutes_list srt" "priority_Pop srt w ws = Some (wr, b, ws', w')"
  shows "prio_ok ws'" "\<not> b \<Longrightarrow> prio_queue ws' = prio_queue ws"
    and "b \<Longrightarrow> \<exists>ys. consumes (prio_queue ws (StreamID wr)) wr ys \<and> prio_queue ws' = (prio_queue ws)(StreamID wr := ys)"
  using assms(1,2) by (atomize (full), cases rule: priority_Pop_cases [where w = w]) (use assms(3) in auto)

lemma priority_step_managed:
  assumes "prio_ok ws" "priority_step srt ws w (Managed D) ws' w'"
  shows "prio_ok ws'" "drops D ws ws'"
  using assms(2) priority_OpenStream_ok [OF assms(1)] priority_CloseStream_ok [OF assms(1)] priority_Adjust_Some [OF assms(1)]
  by (auto elim!: priority_step_cases intro: drops_same)

lemma priority_step_ok:
  assumes "permutes_list srt" "prio_ok ws" "priority_step srt ws w e ws' w'"
  shows "prio_ok ws'"
proof (cases e)
  case (Pushed wr)
  then show ?thesis
    using assms(2,3) priority_Push_ok by (blast elim: priority_step_cases)
next
  case (Popped wr)
  then obtain wr where "priority_Pop srt w ws = Some (wr, True, ws', w')"
    using assms(3) by (blast elim: priority_step_cases)
  then show ?thesis
    by (rule priority_Pop_Some(1) [OF assms(2,1)])
next
  case Stuck
  then obtain wr where "priority_Pop srt w ws = Some (wr, False, ws', w')"
    using assms(3) by (blast elim: priority_step_cases)
  then show ?thesis
    by (rule priority_Pop_Some(1) [OF assms(2,1)])
next
  case (Managed D)
  then show ?thesis
    using priority_step_managed(1) assms by blast
qed

lemma priority_scheduler:
  assumes "permutes_list srt"
  shows "write_scheduler (priority_step srt) prio_ok prio_queue"
proof
  fix ws w e ws' w' wr D i
  assume ok: "prio_ok ws"
  show "priority_step srt ws w e ws' w' \<Longrightarrow> prio_ok ws'"
    by (rule priority_step_ok [OF assms ok])
  show "priority_step srt ws w (Pushed wr) ws' w' \<Longrightarrow>
      prio_queue ws' = (prio_queue ws)(StreamID wr := prio_queue ws (StreamID wr) @ [wr])"
    by (erule priority_step_cases) (rule priority_Push_queue [OF ok])
  show "priority_step srt ws w (Popped wr) ws' w' \<Longrightarrow> \<exists>ys. consumes (prio_queue ws (StreamID wr)) wr ys \<and>
      prio_queue ws' = (prio_queue ws)(StreamID wr := ys)"
    by (erule priority_step_cases) (rule priority_Pop_Some(3) [OF ok assms]; simp)
  show "priority_step srt ws w Stuck ws' w' \<Longrightarrow> prio_queue ws' = prio_queue ws"
    using priority_Pop_Some(2) [OF ok assms] by (blast elim: priority_step_cases)
  show "priority_step srt ws w (Managed D) ws' w' \<Longrightarrow>
      subseq (prio_queue ws' i) (prio_queue ws i) \<and> (i \<notin> D \<longrightarrow> prio_queue ws' i = prio_queue ws i)"
    using priority_step_managed(2) [OF ok] by (simp add: drops_def)
qed

end
