(* ===== verification/HTTP2_WriteSched_Random.thy ===== *)
theory HTTP2_WriteSched_Random
  imports HTTP2_WriteSched
begin

text \<open>
  Package \<^verbatim>\<open>http2\<close>, file \<^verbatim>\<open>writesched_random.go\<close>: the scheduler that ignores priorities.  The
  order in which Go iterates over a map is unspecified, so \<^verbatim>\<open>Pop\<close> takes the order of the keys
  as an argument; the results hold for every order.
\<close>

record randomWriteScheduler =
  rs_zero :: writeQueue
  rs_sq :: "u32 \<rightharpoonup> nat"
  rs_queuePool :: "nat list"
  rs_store :: queue_store

definition NewRandomWriteScheduler :: randomWriteScheduler where
  "NewRandomWriteScheduler =
     \<lparr>rs_zero = \<lparr>wq_s = []\<rparr>, rs_sq = Map.empty, rs_queuePool = [],
      rs_store = \<lparr>queues = (\<lambda>_. \<lparr>wq_s = []\<rparr>), next_queue = 0\<rparr>\<rparr>"

definition random_OpenStream :: "randomWriteScheduler \<Rightarrow> u32 \<Rightarrow> OpenStreamOptions \<Rightarrow> randomWriteScheduler" where
  "random_OpenStream ws streamID options = ws"

definition random_CloseStream :: "randomWriteScheduler \<Rightarrow> u32 \<Rightarrow> randomWriteScheduler" where
  "random_CloseStream ws streamID =
     (case rs_sq ws streamID of
        None \<Rightarrow> ws
      | Some q \<Rightarrow>
          let (st, p) = pool_put (rs_store ws) (rs_queuePool ws) q
          in ws\<lparr>rs_sq := (rs_sq ws)(streamID := None), rs_store := st, rs_queuePool := p\<rparr>)"

definition random_AdjustStream :: "randomWriteScheduler \<Rightarrow> u32 \<Rightarrow> PriorityParam \<Rightarrow> randomWriteScheduler" where
  "random_AdjustStream ws streamID priority = ws"

definition store_push :: "queue_store \<Rightarrow> nat \<Rightarrow> FrameWriteRequest \<Rightarrow> queue_store" where
  "store_push st q wr = st\<lparr>queues := (queues st)(q := wq_push (queues st q) wr)\<rparr>"

definition random_Push :: "randomWriteScheduler \<Rightarrow> FrameWriteRequest \<Rightarrow> randomWriteScheduler" where
  "random_Push ws wr =
     (let i = StreamID wr in
      if i = 0 then ws\<lparr>rs_zero := wq_push (rs_zero ws) wr\<rparr>
      else
        (case rs_sq ws i of
           Some q \<Rightarrow> ws\<lparr>rs_store := store_push (rs_store ws) q wr\<rparr>
         | None \<Rightarrow>
             let (q, st, p) = pool_get (rs_store ws) (rs_queuePool ws)
             in ws\<lparr>rs_sq := (rs_sq ws)(i \<mapsto> q), rs_queuePool := p, rs_store := store_push st q wr\<rparr>))"

text \<open>The loop of \<^verbatim>\<open>Pop\<close> over the streams, in the given order.\<close>

primrec random_pop_loop ::
  "net \<Rightarrow> randomWriteScheduler \<Rightarrow> u32 list \<Rightarrow> (FrameWriteRequest \<times> bool \<times> randomWriteScheduler \<times> net) option"
where
  "random_pop_loop w ws [] = Some (empty_request, False, ws, w)"
| "random_pop_loop w ws (i # is) =
     (case rs_sq ws i of
        None \<Rightarrow> random_pop_loop w ws is
      | Some q \<Rightarrow>
          (case wq_consume w (queues (rs_store ws) q) 0x7fffffff of
             None \<Rightarrow> None
           | Some (wr, consumed, q', w') \<Rightarrow>
               let ws' = ws\<lparr>rs_store := (rs_store ws)\<lparr>queues := (queues (rs_store ws))(q := q')\<rparr>\<rparr> in
               if consumed then Some (wr, True, ws', w') else random_pop_loop w' ws' is))"

definition random_Pop ::
  "net \<Rightarrow> randomWriteScheduler \<Rightarrow> u32 list \<Rightarrow> (FrameWriteRequest \<times> bool \<times> randomWriteScheduler \<times> net) option"
where
  "random_Pop w ws order =
     (if \<not> wq_empty (rs_zero ws) then
        (case wq_shift (rs_zero ws) of
           None \<Rightarrow> None
         | Some (wr, q) \<Rightarrow> Some (wr, True, ws\<lparr>rs_zero := q\<rparr>, w))
      else random_pop_loop w ws order)"

section \<open>Steps and invariant\<close>

definition iteration_order :: "randomWriteScheduler \<Rightarrow> u32 list \<Rightarrow> bool" where
  "iteration_order ws order \<longleftrightarrow> set order = dom (rs_sq ws) \<and> distinct order"

inductive random_step :: "randomWriteScheduler \<Rightarrow> net \<Rightarrow> sched_event \<Rightarrow> randomWriteScheduler \<Rightarrow> net \<Rightarrow> bool" where
  random_push: "has_stream wr \<Longrightarrow> random_step ws w (Pushed wr) (random_Push ws wr) w"
| random_pop: "iteration_order ws order \<Longrightarrow> random_Pop w ws order = Some (wr, True, ws', w') \<Longrightarrow>
    random_step ws w (Popped wr) ws' w'"
| random_stuck: "iteration_order ws order \<Longrightarrow> random_Pop w ws order = Some (wr, False, ws', w') \<Longrightarrow>
    random_step ws w Stuck ws' w'"
| random_open: "random_step ws w (Managed {}) (random_OpenStream ws i opts) w"
| random_close: "random_step ws w (Managed {i}) (random_CloseStream ws i) w"
| random_adjust: "random_step ws w (Managed {}) (random_AdjustStream ws i p) w"

inductive_cases random_step_cases:
  "random_step ws w (Pushed wr) ws' w'" "random_step ws w (Popped wr) ws' w'"
  "random_step ws w Stuck ws' w'" "random_step ws w (Managed D) ws' w'"

text \<open>The frames queued on a stream; stream zero is the connection itself.\<close>

definition random_queue :: "randomWriteScheduler \<Rightarrow> u32 \<Rightarrow> FrameWriteRequest list" where
  "random_queue ws i =
     (if i = 0 then wq_s (rs_zero ws)
      else case rs_sq ws i of None \<Rightarrow> [] | Some q \<Rightarrow> wq_s (queues (rs_store ws) q))"

definition stream_frames :: "u32 \<Rightarrow> FrameWriteRequest list \<Rightarrow> bool" where
  "stream_frames i xs \<longleftrightarrow> (\<forall>wr \<in> set xs. StreamID wr = i \<and> has_stream wr)"

lemma stream_frames_simps [simp]:
  "stream_frames i []" "stream_frames i (xs @ ys) \<longleftrightarrow> stream_frames i xs \<and> stream_frames i ys"
  "stream_frames i (x # xs) \<longleftrightarrow> StreamID x = i \<and> has_stream x \<and> stream_frames i xs"
  by (auto simp: stream_frames_def)

lemma stream_frames_consumes: "consumes xs wr ys \<Longrightarrow> stream_frames i xs \<Longrightarrow> stream_frames i ys"
  using consumes_has_stream [of xs wr ys] consumes_ids [of xs wr ys i] by (auto simp: stream_frames_def list_all_iff)

text \<open>
  The queues of the streams and the queues in the pool are different objects, those in the
  pool are empty, and each stream's queue holds frames of that stream.
\<close>

definition random_shape :: "randomWriteScheduler \<Rightarrow> bool" where
  "random_shape ws \<longleftrightarrow>
     finite (dom (rs_sq ws)) \<and> rs_sq ws 0 = None \<and>
     inj_on (rs_sq ws) (dom (rs_sq ws)) \<and> distinct (rs_queuePool ws) \<and>
     ran (rs_sq ws) \<inter> set (rs_queuePool ws) = {} \<and>
     (\<forall>q \<in> ran (rs_sq ws) \<union> set (rs_queuePool ws). q < next_queue (rs_store ws)) \<and>
     (\<forall>q \<in> set (rs_queuePool ws). wq_s (queues (rs_store ws) q) = [])"

definition random_ok :: "randomWriteScheduler \<Rightarrow> bool" where
  "random_ok ws \<longleftrightarrow> random_shape ws \<and> (\<forall>i. stream_frames i (random_queue ws i))"

lemma random_ok_new: "random_ok NewRandomWriteScheduler"
  by (simp add: random_ok_def random_shape_def NewRandomWriteScheduler_def random_queue_def)

lemma random_queue_new [simp]: "random_queue NewRandomWriteScheduler i = []"
  by (simp add: NewRandomWriteScheduler_def random_queue_def)

text \<open>Two streams never share a queue object.\<close>

lemma random_sq_inj:
  "random_ok ws \<Longrightarrow> rs_sq ws i = Some q \<Longrightarrow> rs_sq ws j = Some q \<Longrightarrow> i = j"
  unfolding random_ok_def random_shape_def inj_on_def by (metis domI)

lemma random_shape_lt:
  "random_shape ws \<Longrightarrow> a \<in> ran (rs_sq ws) \<union> set (rs_queuePool ws) \<Longrightarrow> a < next_queue (rs_store ws)"
  by (simp add: random_shape_def)

lemma random_queue_all: "random_ok ws \<Longrightarrow> list_all has_stream (random_queue ws i)"
  by (simp add: random_ok_def stream_frames_def list_all_iff)

text \<open>Replacing the contents of one stream's queue object changes that stream's queue only.\<close>

lemma random_store_upd:
  assumes "random_ok ws" "rs_sq ws i = Some q"
    and "ws' = ws\<lparr>rs_store := (rs_store ws)\<lparr>queues := (queues (rs_store ws))(q := q')\<rparr>\<rparr>"
  shows "random_queue ws' = (random_queue ws)(i := wq_s q')"
    and "stream_frames i (wq_s q') \<Longrightarrow> random_ok ws'"
proof -
  have i: "i \<noteq> 0"
    using assms by (auto simp: random_ok_def random_shape_def)
  have other: "rs_sq ws j = Some a \<Longrightarrow> j \<noteq> i \<Longrightarrow> a \<noteq> q" for j a
    using random_sq_inj assms(1,2) by blast
  show queue: "random_queue ws' = (random_queue ws)(i := wq_s q')"
    using assms(2,3) i other
    by (auto simp: random_queue_def fun_eq_iff split: option.splits)
  have "q \<notin> set (rs_queuePool ws)"
    using assms(1,2) by (auto simp: random_ok_def random_shape_def ran_def)
  then have "random_shape ws'"
    using assms(1) by (simp add: random_ok_def random_shape_def assms(3))
  then show "stream_frames i (wq_s q') \<Longrightarrow> random_ok ws'"
    using assms(1) unfolding random_ok_def queue by simp
qed

text \<open>A queue taken from the pool, or made, is empty and belongs to no stream.\<close>

lemma pool_get_fresh:
  assumes "random_shape ws" "pool_get (rs_store ws) (rs_queuePool ws) = (q, st, p)"
  shows "q \<notin> ran (rs_sq ws) \<and> q \<notin> set p \<and> q < next_queue st \<and> set p \<subseteq> set (rs_queuePool ws) \<and> distinct p \<and>
    next_queue (rs_store ws) \<le> next_queue st \<and> wq_s (queues st q) = [] \<and>
    (\<forall>a < next_queue (rs_store ws). queues st a = queues (rs_store ws) a)"
proof (cases "rs_queuePool ws" rule: rev_cases)
  case Nil
  then show ?thesis
    using assms by (auto simp: pool_get_def new_queue_def Let_def random_shape_def)
next
  case (snoc ps a)
  then show ?thesis
    using assms by (auto simp: pool_get_def Let_def random_shape_def)
qed

text \<open>The state after a stream's first frame is pushed.\<close>

lemma random_fresh_upd:
  assumes "random_ok ws" "rs_sq ws i = None" "i \<noteq> 0"
    and "pool_get (rs_store ws) (rs_queuePool ws) = (q, st, p)"
    and "ws' = ws\<lparr>rs_sq := (rs_sq ws)(i \<mapsto> q), rs_queuePool := p, rs_store := store_push st q wr\<rparr>"
  shows "random_queue ws' = (random_queue ws)(i := [wr])" and "random_shape ws'"
proof -
  have shape: "random_shape ws"
    using assms(1) by (simp add: random_ok_def)
  note get = pool_get_fresh [OF shape assms(4)]
  have lt: "rs_sq ws j = Some a \<Longrightarrow> a < next_queue (rs_store ws) \<and> a \<noteq> q" for j a
    using shape get by (auto simp: random_shape_def ran_def)
  show "random_queue ws' = (random_queue ws)(i := [wr])"
    using assms(2,3) get lt
    by (auto simp: random_queue_def assms(5) store_push_def wq_push_def fun_eq_iff split: option.split)
  have "inj_on (rs_sq ws') (dom (rs_sq ws'))"
    using shape lt by (auto simp: random_shape_def inj_on_def assms(5)) (metis domI)+
  moreover have "ran (rs_sq ws') = insert q (ran (rs_sq ws))"
    using assms(2) by (simp add: assms(5))
  moreover have "\<forall>a \<in> ran (rs_sq ws) \<union> set (rs_queuePool ws). a < next_queue st"
    using get random_shape_lt [OF shape] by (meson less_le_trans)
  moreover have "\<forall>a \<in> set p. wq_s (queues st a) = []"
    using get random_shape_lt [OF shape] shape unfolding random_shape_def by (metis UnCI subsetD)
  ultimately show "random_shape ws'"
    using shape get assms(3) unfolding random_shape_def
    by (auto simp: assms(5) store_push_def)
qed

lemma random_Push_queue:
  assumes "random_ok ws"
  shows "random_queue (random_Push ws wr) = (random_queue ws)(StreamID wr := random_queue ws (StreamID wr) @ [wr])"
proof -
  consider (zero) "StreamID wr = 0" | (known) q where "StreamID wr \<noteq> 0" "rs_sq ws (StreamID wr) = Some q"
    | (fresh) "StreamID wr \<noteq> 0" "rs_sq ws (StreamID wr) = None"
    by (cases "rs_sq ws (StreamID wr)") auto
  then show ?thesis
  proof cases
    case zero
    then show ?thesis
      by (auto simp: random_Push_def random_queue_def wq_push_def fun_eq_iff split: option.split)
  next
    case known
    then show ?thesis
      using random_store_upd(1) [OF assms known(2) refl]
      by (simp add: random_Push_def store_push_def random_queue_def wq_push_def)
  next
    case fresh
    then show ?thesis
      using random_fresh_upd(1) [OF assms fresh(2,1) _ refl]
      by (cases "pool_get (rs_store ws) (rs_queuePool ws)") (simp add: random_Push_def random_queue_def)
  qed
qed

lemma random_Push_shape:
  assumes "random_ok ws"
  shows "random_shape (random_Push ws wr)"
proof (cases "StreamID wr = 0")
  case True
  then show ?thesis
    using assms by (simp add: random_Push_def random_ok_def random_shape_def)
next
  case False
  have shape: "random_shape ws"
    using assms by (simp add: random_ok_def)
  show ?thesis
  proof (cases "rs_sq ws (StreamID wr)")
    case None
    then show ?thesis
      using random_fresh_upd(2) [OF assms None False _ refl] False
      by (cases "pool_get (rs_store ws) (rs_queuePool ws)") (simp add: random_Push_def)
  next
    case (Some q)
    then have "q \<notin> set (rs_queuePool ws)"
      using shape by (auto simp: random_shape_def ran_def)
    then show ?thesis
      using shape Some False by (auto simp: random_Push_def store_push_def random_shape_def)
  qed
qed

lemma random_Push_ok:
  assumes "random_ok ws" "has_stream wr"
  shows "random_ok (random_Push ws wr)"
  using random_Push_shape [OF assms(1)] assms unfolding random_ok_def
  by (simp add: random_Push_queue [OF assms(1)])

lemma random_CloseStream_queue:
  assumes "random_ok ws" "i \<noteq> 0"
  shows "random_queue (random_CloseStream ws i) = (random_queue ws)(i := [])"
proof (cases "rs_sq ws i")
  case (Some q)
  have other: "rs_sq ws j = Some a \<Longrightarrow> j \<noteq> i \<Longrightarrow> a \<noteq> q" for j a
    using random_sq_inj assms(1) Some by blast
  show ?thesis
    using Some other assms(2)
    by (auto simp: random_CloseStream_def pool_put_def random_queue_def Let_def fun_eq_iff split: option.split)
qed (use assms(2) in \<open>auto simp: random_CloseStream_def random_queue_def fun_eq_iff\<close>)

lemma random_CloseStream_zero: "random_ok ws \<Longrightarrow> random_CloseStream ws 0 = ws"
  by (simp add: random_CloseStream_def random_ok_def random_shape_def)

lemma random_CloseStream_shape:
  assumes "random_ok ws"
  shows "random_shape (random_CloseStream ws i)"
proof (cases "rs_sq ws i")
  case None
  then show ?thesis
    using assms by (simp add: random_CloseStream_def random_ok_def)
next
  case (Some q)
  let ?m = "rs_sq ws" and ?m' = "(rs_sq ws)(i := None)"
  have shape: "random_shape ws"
    using assms by (simp add: random_ok_def)
  have "q \<in> ran ?m" "q \<notin> set (rs_queuePool ws)"
    using shape Some by (auto simp: random_shape_def ran_def)
  moreover have "q \<notin> ran ?m'"
    using random_sq_inj [OF assms Some] by (auto simp: ran_def)
  moreover have "ran ?m' \<subseteq> ran ?m"
    by (auto simp: ran_def)
  moreover have "inj_on ?m' (dom ?m')"
    using shape by (auto simp: random_shape_def inj_on_def)
  ultimately show ?thesis
    using shape Some unfolding random_shape_def
    by (auto simp: random_CloseStream_def pool_put_def Let_def)
qed

lemma random_CloseStream_ok: "random_ok ws \<Longrightarrow> random_ok (random_CloseStream ws i)"
  using random_CloseStream_shape [of ws i] random_CloseStream_queue [of ws i] random_CloseStream_zero [of ws]
  by (cases "i = 0") (auto simp: random_ok_def)

text \<open>
  \<^verbatim>\<open>Pop\<close>: it returns on every order; without control frames, it takes from the first stream in
  the order that has a frame and room for it, and says there is none exactly when every stream
  is empty or has no room.
\<close>

definition idle_stream :: "net \<Rightarrow> randomWriteScheduler \<Rightarrow> u32 \<Rightarrow> bool" where
  "idle_stream w ws i \<longleftrightarrow> random_queue ws i = [] \<or> blocked w 0x7fffffff (hd (random_queue ws i))"

lemma random_pop_loop_cases:
  assumes "random_ok ws" "set is \<subseteq> dom (rs_sq ws)"
  obtains (none) "\<forall>i \<in> set is. idle_stream w ws i" "random_pop_loop w ws is = Some (empty_request, False, ws, w)"
  | (some) i ys wr ws' where "i \<in> set is" "i \<noteq> 0" "\<not> idle_stream w ws i"
      "random_pop_loop w ws is = Some (wr, True, ws', took w wr)" "random_ok ws'"
      "consumes (random_queue ws i) wr ys" "random_queue ws' = (random_queue ws)(i := ys)"
  using assms(2)
proof (induction "is" arbitrary: thesis)
  case (Cons i "is")
  then obtain q where q: "rs_sq ws i = Some q"
    by auto
  have i: "i \<noteq> 0"
    using assms(1) q by (auto simp: random_ok_def random_shape_def)
  have queue: "wq_s (queues (rs_store ws) q) = random_queue ws i"
    using q i by (simp add: random_queue_def)
  have "list_all has_stream (wq_s (queues (rs_store ws) q))"
    using random_queue_all [OF assms(1)] queue by simp
  then show ?case
  proof (cases rule: wq_consume_ok [where w = w and n = "0x7fffffff"])
    case stuck
    then have eq: "random_pop_loop w ws (i # is) = random_pop_loop w ws is" and idle: "idle_stream w ws i"
      using q queue by (simp_all add: idle_stream_def)
    show ?thesis
    proof (rule Cons.IH)
      show thesis if "\<forall>i \<in> set is. idle_stream w ws i" "random_pop_loop w ws is = Some (empty_request, False, ws, w)"
        using Cons.prems(1) that eq idle by simp
      show thesis if "j \<in> set is" "j \<noteq> 0" "\<not> idle_stream w ws j"
        "random_pop_loop w ws is = Some (wr, True, ws', took w wr)" "random_ok ws'"
        "consumes (random_queue ws j) wr ys" "random_queue ws' = (random_queue ws)(j := ys)"
        for j ys wr ws'
        using Cons.prems(2) [of j wr ws' ys] that eq by simp
      show "set is \<subseteq> dom (rs_sq ws)"
        using Cons.prems(3) by simp
    qed
  next
    case (go wr q')
    let ?ws' = "ws\<lparr>rs_store := (rs_store ws)\<lparr>queues := (queues (rs_store ws))(q := q')\<rparr>\<rparr>"
    have c: "consumes (random_queue ws i) wr (wq_s q')"
      using go(4) queue by simp
    have upd: "random_queue ?ws' = (random_queue ws)(i := wq_s q')"
      by (rule random_store_upd(1) [OF assms(1) q refl])
    have "stream_frames i (wq_s q')"
      using stream_frames_consumes [OF c] assms(1) by (simp add: random_ok_def)
    then have ok: "random_ok ?ws'"
      by (rule random_store_upd(2) [OF assms(1) q refl])
    have pop: "random_pop_loop w ws (i # is) = Some (wr, True, ?ws', took w wr)"
      using q go(3) by simp
    have idle: "\<not> idle_stream w ws i"
      using go(1,2) queue by (simp add: idle_stream_def)
    show ?thesis
      by (rule Cons.prems(2) [OF _ i idle pop ok c upd]) simp
  qed
qed simp

lemma random_Pop_cases:
  assumes "random_ok ws" "iteration_order ws order"
  obtains (control) wr wrs ws' where "random_queue ws 0 = wr # wrs" "random_Pop w ws order = Some (wr, True, ws', w)"
      "random_ok ws'" "random_queue ws' = (random_queue ws)(0 := wrs)"
  | (none) "random_queue ws 0 = []" "\<forall>i. idle_stream w ws i" "random_Pop w ws order = Some (empty_request, False, ws, w)"
  | (some) i ys wr ws' where "random_queue ws 0 = []" "i \<noteq> 0" "\<not> idle_stream w ws i"
      "random_Pop w ws order = Some (wr, True, ws', took w wr)" "random_ok ws'"
      "consumes (random_queue ws i) wr ys" "random_queue ws' = (random_queue ws)(i := ys)"
proof (cases "wq_s (rs_zero ws)")
  case Nil
  then have pop: "random_Pop w ws order = random_pop_loop w ws order" and zero: "random_queue ws 0 = []"
    by (simp_all add: random_Pop_def wq_empty_def random_queue_def)
  have "set order \<subseteq> dom (rs_sq ws)"
    using assms(2) by (simp add: iteration_order_def)
  with assms(1) show ?thesis
  proof (cases rule: random_pop_loop_cases [where w = w])
    case none': none
    have "random_queue ws i = []" if "i \<notin> set order" for i
      using that assms(2) zero by (auto simp: iteration_order_def random_queue_def split: option.split)
    then have "\<forall>i. idle_stream w ws i"
      using none'(1) unfolding idle_stream_def by metis
    then show ?thesis
      using none zero none'(2) pop by simp
  next
    case some': (some i ys wr ws')
    show ?thesis
      by (rule some [OF zero some'(2,3) _ some'(5-7)]) (use some'(4) pop in simp)
  qed
next
  case (Cons wr wrs)
  let ?ws' = "ws\<lparr>rs_zero := (rs_zero ws)\<lparr>wq_s := wrs\<rparr>\<rparr>"
  have upd: "random_queue ?ws' = (random_queue ws)(0 := wrs)"
    by (auto simp: random_queue_def fun_eq_iff split: option.split)
  have "random_queue ws 0 = wr # wrs"
    using Cons by (simp add: random_queue_def)
  moreover have "random_Pop w ws order = Some (wr, True, ?ws', w)"
    using Cons by (simp add: random_Pop_def wq_empty_def wq_shift_Cons)
  moreover from calculation have "stream_frames 0 wrs"
    using assms(1) unfolding random_ok_def by (metis stream_frames_simps(3))
  then have "random_ok ?ws'"
    using assms(1) upd by (simp add: random_ok_def random_shape_def)
  ultimately show ?thesis
    using upd by (rule control)
qed

lemma random_Pop_ok:
  assumes "random_ok ws" "iteration_order ws order" "random_Pop w ws order = Some (wr, b, ws', w')"
  shows "random_ok ws'"
  using assms(1,2) by (cases rule: random_Pop_cases [where w = w]) (use assms in auto)

lemma control_consumes:
  assumes "random_ok ws" "random_queue ws 0 = wr # wrs"
  shows "StreamID wr = 0" "consumes (random_queue ws 0) wr wrs"
proof -
  have "stream_frames 0 (wr # wrs)"
    using assms unfolding random_ok_def by metis
  then show "StreamID wr = 0" "consumes (random_queue ws 0) wr wrs"
    using assms(2) by (simp_all add: consumes_def)
qed

lemma stream_consumes_id:
  assumes "random_ok ws" "consumes (random_queue ws i) wr ys"
  shows "StreamID wr = i"
proof -
  have "stream_frames i (random_queue ws i)"
    using assms(1) by (simp add: random_ok_def)
  then show ?thesis
    using assms(2) by (cases "random_queue ws i") (auto simp: consumes_def)
qed

section \<open>The scheduler keeps the interface\<close>

lemma random_step_ok: "random_ok ws \<Longrightarrow> random_step ws w e ws' w' \<Longrightarrow> random_ok ws'"
  by (erule random_step.cases)
    (auto intro: random_Push_ok random_CloseStream_ok simp: random_OpenStream_def random_AdjustStream_def
      elim: random_Pop_ok)

lemma random_step_pop:
  assumes "random_ok ws" "random_step ws w (Popped wr) ws' w'"
  shows "\<exists>ys. consumes (random_queue ws (StreamID wr)) wr ys \<and> random_queue ws' = (random_queue ws)(StreamID wr := ys)"
proof -
  obtain order where order: "iteration_order ws order" and pop: "random_Pop w ws order = Some (wr, True, ws', w')"
    using assms(2) by (blast elim: random_step_cases)
  from assms(1) order show ?thesis
    by (cases rule: random_Pop_cases [where w = w])
      (use pop control_consumes [OF assms(1)] stream_consumes_id [OF assms(1)] in \<open>fastforce+\<close>)
qed

lemma random_step_stuck:
  assumes "random_ok ws" "random_step ws w Stuck ws' w'"
  shows "random_queue ws' = random_queue ws"
proof -
  obtain order wr where order: "iteration_order ws order" and pop: "random_Pop w ws order = Some (wr, False, ws', w')"
    using assms(2) by (blast elim: random_step_cases)
  from assms(1) order show ?thesis
    by (cases rule: random_Pop_cases [where w = w]) (use pop in auto)
qed

lemma random_step_managed:
  assumes "random_ok ws" "random_step ws w (Managed D) ws' w'"
  shows "subseq (random_queue ws' i) (random_queue ws i) \<and> (i \<notin> D \<longrightarrow> random_queue ws' i = random_queue ws i)"
proof -
  consider "ws' = ws" | j where "D = {j}" "ws' = random_CloseStream ws j"
    using assms(2) by (auto elim!: random_step_cases simp: random_OpenStream_def random_AdjustStream_def)
  then show ?thesis
  proof cases
    case (2 j)
    then show ?thesis
      using random_CloseStream_queue [OF assms(1), of j] random_CloseStream_zero [OF assms(1)] by (cases "j = 0") auto
  qed simp
qed

interpretation random: write_scheduler random_step random_ok random_queue
proof
  fix ws w e ws' w' wr D i
  assume ok: "random_ok ws"
  show "random_step ws w e ws' w' \<Longrightarrow> random_ok ws'"
    by (rule random_step_ok [OF ok])
  show "random_step ws w (Pushed wr) ws' w' \<Longrightarrow>
      random_queue ws' = (random_queue ws)(StreamID wr := random_queue ws (StreamID wr) @ [wr])"
    by (erule random_step_cases) (simp add: random_Push_queue [OF ok])
  show "random_step ws w (Popped wr) ws' w' \<Longrightarrow> \<exists>ys. consumes (random_queue ws (StreamID wr)) wr ys \<and>
      random_queue ws' = (random_queue ws)(StreamID wr := ys)"
    by (rule random_step_pop [OF ok])
  show "random_step ws w Stuck ws' w' \<Longrightarrow> random_queue ws' = random_queue ws"
    by (rule random_step_stuck [OF ok])
  show "random_step ws w (Managed D) ws' w' \<Longrightarrow>
      subseq (random_queue ws' i) (random_queue ws i) \<and> (i \<notin> D \<longrightarrow> random_queue ws' i = random_queue ws i)"
    by (rule random_step_managed [OF ok])
qed

text \<open>
  C17.  In every run of the scheduler, whatever the peer does to the windows and in whatever
  order Go walks the map: the octets, end marks and frames popped on a stream followed by those
  still queued are a subsequence of those pushed on it, so nothing is reordered, repeated or made
  up; and as long as the stream is not closed they are all of them, so nothing is lost.
\<close>

theorem random_frames_in_order:
  assumes "sched_run random_step NewRandomWriteScheduler es ws"
  shows "subseq (wires (popped_on i es) @ wires (random_queue ws i)) (wires (pushed_on i es)) \<and>
    (\<not> discarded_on i es \<longrightarrow> wires (popped_on i es) @ wires (random_queue ws i) = wires (pushed_on i es))"
  using random.run_in_order [OF assms random_ok_new, of i] random.run_exact [OF assms random_ok_new, of i] by simp

text \<open>A DATA frame of 80 bytes, pushed and popped on a window of 70.\<close>

definition sample_data :: FrameWriteRequest where
  "sample_data = data_request sample_stream 3 (replicate 80 7) True (Some 0)"

lemma sample_pop:
  "\<exists>ws' w'. random_Pop sample_net (random_Push NewRandomWriteScheduler sample_data) [3] =
     Some (data_request sample_stream 3 (replicate 70 7) False None, True, ws', w')"
proof -
  have b: "budget sample_net sample_stream 0x7fffffff = 70"
    by (simp add: budget_def sample_net_def sample_stream_def available_def sample_store_def)
  have q: "wq_consume sample_net \<lparr>wq_s = [sample_data]\<rparr> 0x7fffffff =
    Some (data_request sample_stream 3 (replicate 70 7) False None, True,
      \<lparr>wq_s = [data_request sample_stream 3 (replicate 10 7) True (Some 0)]\<rparr>, charge sample_net sample_stream 70)"
    by (simp add: wq_consume_def sample_data_def Consume_data b)
  have "StreamID sample_data = 3"
    by (simp add: sample_data_def sample_stream_def)
  then show ?thesis
    by (simp add: random_Push_def NewRandomWriteScheduler_def pool_get_def new_queue_def store_push_def wq_push_def
        random_Pop_def wq_empty_def q)
qed

lemma sample_push_order: "iteration_order (random_Push NewRandomWriteScheduler sample_data) [3]"
  by (simp add: iteration_order_def random_Push_def NewRandomWriteScheduler_def pool_get_def new_queue_def
      sample_data_def sample_stream_def)

lemma sample_push_run:
  "sched_run random_step NewRandomWriteScheduler [Pushed sample_data] (random_Push NewRandomWriteScheduler sample_data)"
proof -
  have "random_step NewRandomWriteScheduler sample_net (Pushed sample_data)
    (random_Push NewRandomWriteScheduler sample_data) sample_net"
    by (rule random_push) (simp add: has_stream_def sample_data_def)
  from run_call [where step = random_step, OF run_start this] show ?thesis
    by simp
qed

theorem random_frames_in_order_witness:
  "\<exists>ws. sched_run random_step NewRandomWriteScheduler
      [Pushed sample_data, Popped (data_request sample_stream 3 (replicate 70 7) False None)] ws \<and>
    wires [data_request sample_stream 3 (replicate 70 7) False None] @ wires (random_queue ws 3) = wires [sample_data]"
proof -
  obtain ws where run: "sched_run random_step NewRandomWriteScheduler
      [Pushed sample_data, Popped (data_request sample_stream 3 (replicate 70 7) False None)] ws"
    using run_call [where step = random_step, OF sample_push_run random_pop [OF sample_push_order]] sample_pop by fastforce
  have "StreamID sample_data = 3"
    by (simp add: sample_data_def sample_stream_def)
  then show ?thesis
    using run random_frames_in_order [OF run, of 3] by (auto simp: discarded_on_def sample_stream_def)
qed

text \<open>
  C19.  \<^verbatim>\<open>Pop\<close> returns in every reachable state, for every iteration order.  It writes a control
  frame first if there is one.  It finds a frame exactly when there is a control frame or a
  stream whose first frame is not held back by flow control, so no stream that could write is
  passed over for ever by a pop that reports nothing to do.
\<close>

theorem random_pop_makes_progress:
  assumes "sched_run random_step NewRandomWriteScheduler es ws" "iteration_order ws order"
  shows "\<exists>wr b ws' w'. random_Pop w ws order = Some (wr, b, ws', w') \<and>
    (b \<longleftrightarrow> random_queue ws 0 \<noteq> [] \<or> (\<exists>i. random_queue ws i \<noteq> [] \<and> \<not> blocked w 0x7fffffff (hd (random_queue ws i)))) \<and>
    (random_queue ws 0 \<noteq> [] \<longrightarrow> wr = hd (random_queue ws 0) \<and> w' = w)"
proof -
  have "random_ok ws"
    using random.run_ok [OF assms(1) random_ok_new] .
  then show ?thesis
    using assms(2)
  proof (cases rule: random_Pop_cases [where w = w])
    case none
    then show ?thesis
      by (auto simp: idle_stream_def)
  qed (auto simp: idle_stream_def)
qed

theorem random_pop_makes_progress_witness:
  "\<exists>wr ws' w'. random_Pop sample_net (random_Push NewRandomWriteScheduler sample_data) [3] = Some (wr, True, ws', w')"
  using random_pop_makes_progress [OF sample_push_run sample_push_order, of sample_net] sample_pop by force

end
