(* ===== verification/HTTP2_Priority_Properties.thy ===== *)
theory HTTP2_Priority_Properties
  imports HTTP2_WriteSched_Priority HTTP2_WriteSched_Random
begin

text \<open>
  The properties of the priority scheduler over all its runs, and three behaviours that its
  comments and the interface do not lead one to expect.
\<close>

section \<open>An instance of sort.Sort\<close>

text \<open>The insertion sort that \<^verbatim>\<open>sort.Sort\<close> applies to short slices: the elements before are sorted.\<close>

primrec insert_back :: "(nat \<Rightarrow> nat \<Rightarrow> bool) \<Rightarrow> nat \<Rightarrow> nat list \<Rightarrow> nat list" where
  "insert_back lt x [] = [x]"
| "insert_back lt x (y # ys) = (if lt x y then y # insert_back lt x ys else x # y # ys)"

definition go_insertion_sort :: sorter where
  "go_insertion_sort lt xs = rev (fold (insert_back lt) xs [])"

lemma mset_insert_back: "mset (insert_back lt x ys) = add_mset x (mset ys)"
  by (induction ys) simp_all

lemma go_insertion_sort_permutes: "permutes_list go_insertion_sort"
proof -
  have "mset (fold (insert_back lt) xs ys) = mset xs + mset ys" for lt xs ys
    by (induction xs arbitrary: ys) (simp_all add: mset_insert_back)
  then show ?thesis
    by (simp add: permutes_list_def go_insertion_sort_def)
qed

interpretation prio: write_scheduler "priority_step go_insertion_sort" prio_ok prio_queue
  by (rule priority_scheduler [OF go_insertion_sort_permutes])

section \<open>Order and progress\<close>

text \<open>
  C20.  In every run of the priority scheduler, for every sorting function and whatever the peer
  does to the windows: the octets, end marks and frames popped on a stream followed by those still
  queued are a subsequence of those pushed on it; and they are all of them unless a call closed
  the stream or removed its node from the tree.
\<close>

theorem priority_frames_in_order:
  assumes "permutes_list srt" "sched_run (priority_step srt) (NewPriorityWriteScheduler c) es ws"
  shows "subseq (wires (popped_on i es) @ wires (prio_queue ws i)) (wires (pushed_on i es)) \<and>
    (\<not> discarded_on i es \<longrightarrow> wires (popped_on i es) @ wires (prio_queue ws i) = wires (pushed_on i es))"
proof -
  have "prio_queue (NewPriorityWriteScheduler c) i = []"
    by (simp add: prio_queue_def NewPriorityWriteScheduler_def Let_def zero_node_def)
  then show ?thesis
    using write_scheduler.run_in_order [OF priority_scheduler [OF assms(1)] assms(2) prio_ok_new, of i]
      write_scheduler.run_exact [OF priority_scheduler [OF assms(1)] assms(2) prio_ok_new, of i]
    by simp
qed

text \<open>A scheduler that keeps no closed nodes and one idle node.\<close>

definition small_config :: PriorityWriteSchedulerConfig where
  "small_config = \<lparr>MaxClosedNodesInTree = 0, MaxIdleNodesInTree = 1, ThrottleOutOfOrderWrites = False\<rparr>"

definition pushed_by :: "u32 \<Rightarrow> OpenStreamOptions" where
  "pushed_by i = \<lparr>PusherID = i\<rparr>"

definition sched0 :: priorityWriteScheduler where
  "sched0 = NewPriorityWriteScheduler (Some small_config)"

lemmas eval_defs = NewPriorityWriteScheduler_def small_config_def pushed_by_def priority_OpenStream_def new_node_def
  pool_get_def new_queue_def on_heap_def setParent_def unlink_node_def link_node_def assign_def zero_node_def root_node_def Let_def

text \<open>Stream 1, and streams 3 and 5 that it pushed.\<close>

definition sched1 :: priorityWriteScheduler where
  "sched1 = the (priority_OpenStream sched0 1 (pushed_by 0))"

definition sched3 :: priorityWriteScheduler where
  "sched3 = the (priority_OpenStream sched1 3 (pushed_by 1))"

definition sched5 :: priorityWriteScheduler where
  "sched5 = the (priority_OpenStream sched3 5 (pushed_by 1))"

lemma sched_opens:
  "priority_OpenStream sched0 1 (pushed_by 0) = Some sched1"
  "priority_OpenStream sched1 3 (pushed_by 1) = Some sched3"
  "priority_OpenStream sched3 5 (pushed_by 1) = Some sched5"
  by (simp_all add: sched5_def sched3_def sched1_def sched0_def eval_defs)

lemma sched_unused: "unused sched0 1" "unused sched1 3" "unused sched3 5"
  by (auto simp: unused_def sched3_def sched1_def sched0_def eval_defs less_Suc_eq)

lemma sched5_run:
  "sched_run (priority_step srt) (NewPriorityWriteScheduler (Some small_config)) [Managed {}, Managed {}, Managed {}] sched5"
proof -
  have open_step: "priority_step srt ws w (Managed {}) ws' w" if "unused ws i" "priority_OpenStream ws i opts = Some ws'" for ws w ws' i opts
    using that by (rule priority_open)
  have "sched_run (priority_step srt) sched0 [Managed {}] sched1"
    using run_call [where step = "priority_step srt" and es = "[]", OF run_start open_step [OF sched_unused(1) sched_opens(1)]] by simp
  then have "sched_run (priority_step srt) sched0 [Managed {}, Managed {}] sched3"
    using run_call [where step = "priority_step srt" and es = "[Managed {}]", OF _ open_step [OF sched_unused(2) sched_opens(2)]] by simp
  then show ?thesis
    using run_call [where step = "priority_step srt" and es = "[Managed {}, Managed {}]", OF _ open_step [OF sched_unused(3) sched_opens(3)]]
    by (simp add: sched0_def)
qed

lemma sched5_facts:
  "ps_nodes sched5 1 = Some 1" "ps_nodes sched5 3 = Some 2" "ps_nodes sched5 5 = Some 3"
  "pn_kids (ps_heap sched5 1) = Some 3" "pn_next (ps_heap sched5 3) = Some 2" "pn_parent (ps_heap sched5 2) = Some 1"
  by (simp_all add: sched5_def sched3_def sched1_def sched0_def eval_defs)

text \<open>Data for stream 3 is pushed.\<close>

definition sched_data :: priorityWriteScheduler where
  "sched_data = push_on sched5 2 sample_data"

lemma sample_data_id: "StreamID sample_data = 3" "DataSize sample_data = 80" "well_addressed sample_data"
  by (simp_all add: sample_data_def sample_stream_def well_addressed_def has_stream_def)

lemma sched_data_push: "priority_Push sched5 sample_data = Some sched_data"
  by (simp add: priority_Push_def sample_data_id sched5_facts sched_data_def Let_def)

lemma sched_data_run:
  "sched_run (priority_step srt) (NewPriorityWriteScheduler (Some small_config))
     [Managed {}, Managed {}, Managed {}, Pushed sample_data] sched_data"
  using run_call [where step = "priority_step srt", OF sched5_run priority_push [OF sample_data_id(3) sched_data_push]] by simp

theorem priority_frames_in_order_witness:
  "wires (prio_queue sched_data 3) = wires [sample_data]"
  using priority_frames_in_order [OF go_insertion_sort_permutes sched_data_run, of 3]
  by (simp add: sample_data_id discarded_on_def)

text \<open>
  C21.  \<^verbatim>\<open>Pop\<close> returns in every reachable state: the walk over the tree ends and nothing panics,
  for every sorting function.  It finds a frame exactly when some node of the tree below the
  root has a frame that is not held back by flow control, and it takes frames of the root (the
  control frames) first.
\<close>

theorem priority_pop_makes_progress:
  assumes "permutes_list srt" "sched_run (priority_step srt) (NewPriorityWriteScheduler c) es ws"
  shows "\<exists>wr b ws' w'. priority_Pop srt w ws = Some (wr, b, ws', w') \<and>
    (b \<longleftrightarrow> (\<exists>m. in_tree ws m \<and> \<not> stuck_node w ws m)) \<and>
    (wq_s (pn_q (ps_heap ws root_node)) \<noteq> [] \<longrightarrow> b \<and> wr = hd (wq_s (pn_q (ps_heap ws root_node))))"
proof -
  have ok: "prio_ok ws"
    using write_scheduler.run_ok [OF priority_scheduler [OF assms(1)] assms(2) prio_ok_new] .
  have root: "\<not> stuck_node w ws root_node" if "wq_s (pn_q (ps_heap ws root_node)) \<noteq> []"
    using that prio_okD(5) [OF ok] by (simp add: stuck_node_def prio_frames_def blocked_def Let_def)
  from ok assms(1) show ?thesis
    by (cases rule: priority_Pop_cases [where w = w]) (use root in \<open>auto simp: in_tree_def\<close>)
qed

lemma sched_data_tree: "in_tree sched_data 2" "\<not> stuck_node sample_net sched_data 2"
proof -
  have "parents (ps_heap sched_data) 2 = Some 1" "parents (ps_heap sched_data) 1 = Some 0"
    by (simp_all add: sched_data_def push_on_def sched5_def sched3_def sched1_def sched0_def eval_defs)
  then show "in_tree sched_data 2"
    unfolding in_tree_def root_node_def by (blast intro: above_up)
  have "wq_s (pn_q (ps_heap sched_data 2)) = [sample_data]"
    by (simp add: sched_data_def push_on_def wq_push_def sched5_def sched3_def sched1_def sched0_def eval_defs)
  then show "\<not> stuck_node sample_net sched_data 2"
    by (simp add: stuck_node_def blocked_def sample_data_def budget_def available_def sample_net_def sample_stream_def sample_store_def)
qed

theorem priority_pop_makes_progress_witness:
  "\<exists>wr ws' w'. priority_Pop go_insertion_sort sample_net sched_data = Some (wr, True, ws', w')"
  using priority_pop_makes_progress [OF go_insertion_sort_permutes sched_data_run, of sample_net] sched_data_tree by auto

section \<open>The tree\<close>

text \<open>
  C22.  In every reachable state the nodes form a forest: the children of each node are a doubly
  linked list without repetitions whose members point back to it, a node without parent has no
  siblings, and every chain of parents ends.  The streams are registered under their own nodes, and
  every node of the tree is registered.
\<close>

theorem priority_tree_well_formed:
  assumes "permutes_list srt" "sched_run (priority_step srt) (NewPriorityWriteScheduler c) es ws"
  shows "(\<exists>K. linked (ps_heap ws) K) \<and> (\<forall>a. grounded (parents (ps_heap ws)) a) \<and>
    (\<forall>i n. ps_nodes ws i = Some n \<longrightarrow> pn_id (ps_heap ws n) = i) \<and>
    (\<forall>n. in_tree ws n \<longrightarrow> ps_nodes ws (pn_id (ps_heap ws n)) = Some n)"
proof -
  have ok: "prio_ok ws"
    using write_scheduler.run_ok [OF priority_scheduler [OF assms(1)] assms(2) prio_ok_new] .
  then show ?thesis
    using prio_okD(1,2) [OF ok] prio_registered in_tree_registered
    unfolding prio_tree_def tree_ok_def by blast
qed

theorem priority_tree_well_formed_witness:
  "\<exists>K. linked (ps_heap sched5) K"
  using priority_tree_well_formed [OF go_insertion_sort_permutes sched5_run] by blast

text \<open>
  C23.  \<^verbatim>\<open>AdjustStream\<close> on a registered stream that is to depend on another registered one returns and moves the
  nodes as section 5.3.3 of RFC 7540 says (see \<^term>\<open>reparent\<close>); the moved stream gets the given
  weight, and otherwise every node keeps its frames, its weight, its state and its counters, also the
  counters of bytes in subtrees, which the code does not adjust when a node moves.
\<close>

theorem adjust_follows_rfc7540:
  assumes "permutes_list srt" "sched_run (priority_step srt) (NewPriorityWriteScheduler c) es ws"
    and "ps_nodes ws i = Some n" "i \<noteq> 0" "ps_nodes ws (StreamDep pr) = Some q" "n \<noteq> q"
  shows "\<exists>ws'. priority_AdjustStream ws i pr = Some ws' \<and>
    parents (ps_heap ws') = reparent (parents (ps_heap ws)) n q (Exclusive pr) \<and>
    (\<forall>a. same_data (ps_heap ws' a) (if a = n then (ps_heap ws a)\<lparr>pn_weight := Weight pr\<rparr> else ps_heap ws a))"
proof -
  have "prio_ok ws"
    using write_scheduler.run_ok [OF priority_scheduler [OF assms(1)] assms(2) prio_ok_new] .
  then obtain K where "tree_ok (ps_heap ws) K"
    using prio_okD(1) by (auto simp: prio_tree_def)
  then obtain h where h: "reprioritise (ps_heap ws) n q pr = Some h"
    "parents h = reparent (parents (ps_heap ws)) n q (Exclusive pr)"
    "\<forall>a. same_data (h a) (if a = n then (ps_heap ws a)\<lparr>pn_weight := Weight pr\<rparr> else ps_heap ws a)"
    using reprioritise_Some [of "ps_heap ws" K n q pr] assms(6) by blast
  have "priority_AdjustStream ws i pr = Some (ws\<lparr>ps_heap := h\<rparr>)"
    using h(1) assms(3-6) by (simp add: priority_AdjustStream_def adjust_node_def on_heap_def)
  then show ?thesis
    using h(2,3) by (intro exI [of _ "ws\<lparr>ps_heap := h\<rparr>"]) simp
qed

theorem adjust_follows_rfc7540_witness:
  "\<exists>ws'. priority_AdjustStream sched5 1 \<lparr>StreamDep = 3, Exclusive = True, Weight = 7\<rparr> = Some ws' \<and>
    parents (ps_heap ws') 1 = Some 2 \<and> parents (ps_heap ws') 2 = Some 0 \<and> pn_weight (ps_heap ws' 1) = 7"
proof -
  define pr where "pr = \<lparr>StreamDep = 3, Exclusive = True, Weight = 7\<rparr>"
  have pr: "StreamDep pr = 3" "Exclusive pr" "Weight pr = 7"
    by (simp_all add: pr_def)
  obtain ws' where ws': "priority_AdjustStream sched5 1 pr = Some ws'"
    "parents (ps_heap ws') = reparent (parents (ps_heap sched5)) 1 2 True"
    "\<forall>a. same_data (ps_heap ws' a) (if a = 1 then (ps_heap sched5 a)\<lparr>pn_weight := Weight pr\<rparr> else ps_heap sched5 a)"
    using adjust_follows_rfc7540 [OF go_insertion_sort_permutes sched5_run, of 1 1 pr 2] sched5_facts pr(1,2) by auto
  have w: "pn_weight (ps_heap ws' 1) = 7"
    using ws'(3) [rule_format, of 1] pr(3) by (simp add: same_data_def)
  have P: "parents (ps_heap sched5) 2 = Some 1" "parents (ps_heap sched5) 1 = Some 0"
    by (simp_all add: sched5_def sched3_def sched1_def sched0_def eval_defs)
  then have "above (parents (ps_heap sched5)) 2 1"
    by (blast intro: above_up)
  then have "parents (ps_heap ws') 1 = Some 2" "parents (ps_heap ws') 2 = Some 0"
    using P fun_cong [OF ws'(2), of 1] fun_cong [OF ws'(2), of 2] by (simp_all add: reparent_def lift_parent_def)
  then show ?thesis
    using ws'(1) w by (auto simp: pr_def)
qed

text \<open>
  C24.  Counting bytes: in every reachable state \<^verbatim>\<open>addBytes\<close> ends and adds the amount to the bytes
  of the node, and once to the subtree counter of the node and of each of its ancestors, in
  64-bit arithmetic; nothing else changes.
\<close>

theorem add_bytes_climbs:
  assumes "permutes_list srt" "sched_run (priority_step srt) (NewPriorityWriteScheduler c) es ws"
  shows "\<exists>h. addBytes (ps_heap ws) n b = Some h \<and>
    (\<forall>x. h x = (ps_heap ws x)\<lparr>pn_bytes := pn_bytes (ps_heap ws x) + (if x = n then b else 0),
      pn_subtreeBytes := pn_subtreeBytes (ps_heap ws x) + (if above (parents (ps_heap ws)) n x then b else 0)\<rparr>)"
proof (rule addBytes_Some)
  have "prio_ok ws"
    using write_scheduler.run_ok [OF priority_scheduler [OF assms(1)] assms(2) prio_ok_new] .
  then show "grounded (parents (ps_heap ws)) n"
    using prio_okD(1) tree_okD(2) unfolding prio_tree_def by blast
qed

theorem add_bytes_climbs_witness:
  "\<exists>h. addBytes (ps_heap sched5) 2 70 = Some h \<and> pn_subtreeBytes (h 1) = 70 \<and> pn_subtreeBytes (h 3) = 0"
proof -
  obtain h where h: "addBytes (ps_heap sched5) 2 70 = Some h"
    "\<forall>x. pn_subtreeBytes (h x) = pn_subtreeBytes (ps_heap sched5 x) + (if above (parents (ps_heap sched5)) 2 x then 70 else 0)"
    using add_bytes_climbs [OF go_insertion_sort_permutes sched5_run, of 2 70] by auto
  have P: "parents (ps_heap sched5) 2 = Some 1" "parents (ps_heap sched5) 1 = Some 0" "parents (ps_heap sched5) 0 = None"
    "pn_subtreeBytes (ps_heap sched5 1) = 0" "pn_subtreeBytes (ps_heap sched5 3) = 0"
    by (simp_all add: sched5_def sched3_def sched1_def sched0_def eval_defs)
  then have "above (parents (ps_heap sched5)) 2 1" "\<not> above (parents (ps_heap sched5)) 2 3"
    by (simp_all add: above_iff [of _ 2] above_iff [of _ "Suc 0"] above_iff [of _ 0])
  then show ?thesis
    using h P(4,5) by simp
qed

section \<open>Behaviours against the documentation\<close>

text \<open>
  C37.  Removing a node moves its first child to the node's parent and no other: the second child
  still has the removed node as its parent and is out of the tree, so no \<^verbatim>\<open>Pop\<close> takes its
  frames.  The loop of \<^verbatim>\<open>removeNode\<close> is meant to move them all.
\<close>

theorem remove_orphans_second_child:
  assumes "permutes_list srt" "sched_run (priority_step srt) (NewPriorityWriteScheduler c) es ws"
    and "ps_nodes ws i = Some n" "i \<noteq> 0" "pn_kids (ps_heap ws n) = Some k" "pn_next (ps_heap ws k) = Some k'"
  shows "\<exists>ws'. removeNode ws n = Some ws' \<and> pn_parent (ps_heap ws' k) = pn_parent (ps_heap ws n) \<and>
    pn_parent (ps_heap ws' k') = Some n \<and> \<not> in_tree ws' k'"
proof -
  have ok: "prio_ok ws"
    using write_scheduler.run_ok [OF priority_scheduler [OF assms(1)] assms(2) prio_ok_new] .
  then obtain K where K: "tree_ok (ps_heap ws) K"
    using prio_okD(1) by (auto simp: prio_tree_def)
  obtain ks where ks: "K n = k # ks"
    using tree_okD(3) [OF K, of n] assms(5) by (cases "K n") simp_all
  then have "first ks = Some k'"
    using linked_next(1) [OF tree_okD(1) [OF K], of n "[]" k ks] assms(6) by simp
  then obtain ks' where ks': "K n = k # k' # ks'"
    using ks by (auto simp: first_Some)
  have "distinct (K n)" "pn_parent (ps_heap ws k') = Some n"
    using tree_okD(4) [OF K, of n] tree_okD(5) [OF K, of k' n] ks' by simp_all
  moreover have "k \<noteq> n" "k' \<noteq> n"
    using tree_okD(7) [OF K, of k n] tree_okD(7) [OF K, of k' n] ks' by auto
  moreover have "n \<noteq> root_node"
    using prio_registered [OF prio_okD(2) [OF ok] assms(3)] prio_root_id [OF prio_okD(2) [OF ok], of n] assms(4) by auto
  moreover have "pn_parent (ps_heap ws root_node) = None"
    using prio_okD(2) [OF ok] by (simp add: prio_nodes_def)
  moreover obtain h where h: "removeNode ws n = Some (ws\<lparr>ps_heap := h, ps_nodes := (ps_nodes ws)(pn_id (ps_heap ws n) := None)\<rparr>)"
    "parents h = ((parents (ps_heap ws))(k := pn_parent (ps_heap ws n)))(n := None)"
    using removeNode_heap [OF K, of n] ks' by auto
  ultimately have par: "pn_parent (h k) = pn_parent (ps_heap ws n)" "pn_parent (h k') = Some n" "pn_parent (h n) = None" "k' \<noteq> root_node"
    using fun_cong [OF h(2), of k] fun_cong [OF h(2), of k'] fun_cong [OF h(2), of n] ks' by auto
  then have "\<not> above (parents h) k' root_node"
    using \<open>n \<noteq> root_node\<close> by (simp add: above_iff [of _ k'] above_iff [of _ n])
  then show ?thesis
    using h(1) par by (simp add: in_tree_def)
qed

theorem remove_orphans_second_child_witness:
  "\<exists>ws'. removeNode sched5 1 = Some ws' \<and> pn_parent (ps_heap ws' 3) = Some 0 \<and> pn_parent (ps_heap ws' 2) = Some 1 \<and>
    \<not> in_tree ws' 2"
proof -
  have "pn_parent (ps_heap sched5 1) = Some 0"
    by (simp add: sched5_def sched3_def sched1_def sched0_def eval_defs)
  then show ?thesis
    using remove_orphans_second_child [OF go_insertion_sort_permutes sched5_run, of 1 1 3 2] sched5_facts by simp
qed

text \<open>
  C38.  A stream that was prioritised while idle and then opened stays in the list of idle nodes: when
  the list is full and a PRIORITY frame arrives for a later stream, the node of the open stream is
  removed.  Pushing data on the open stream and closing it then panic.
\<close>

theorem opened_stream_evicted:
  assumes "permutes_list srt" "sched_run (priority_step srt) (NewPriorityWriteScheduler c) es ws"
    and "ps_idleNodes ws = n # ns" "int (length (ps_idleNodes ws)) = ps_maxIdleNodesInTree ws"
    and "pn_id (ps_heap ws n) = j" "pn_state (ps_heap ws n) = PriorityNodeOpen" "i > ps_maxID ws"
  shows "\<exists>ws'. priority_AdjustStream ws i pr = Some ws' \<and> priority_CloseStream ws' j = None \<and>
    (\<forall>wr. StreamID wr = j \<and> DataSize wr > 0 \<longrightarrow> priority_Push ws' wr = None)"
proof -
  have ok: "prio_ok ws"
    using write_scheduler.run_ok [OF priority_scheduler [OF assms(1)] assms(2) prio_ok_new] .
  have "i \<noteq> 0"
    using assms(7) by auto
  then obtain ws' where ws': "priority_AdjustStream ws i pr = Some ws'" "ps_nodes ws' j = None" "prio_ok ws'"
    using priority_AdjustStream_ok [OF ok, of i pr] assms(3-5,7) by auto
  moreover have "j \<noteq> 0"
    using prio_okD(2) [OF ws'(3)] ws'(2) by (auto simp: prio_nodes_def)
  ultimately show ?thesis
    by (auto simp: priority_CloseStream_def priority_Push_None_iff)
qed

definition self_dependent :: "u32 \<Rightarrow> PriorityParam" where
  "self_dependent i = \<lparr>StreamDep = i, Exclusive = False, Weight = 7\<rparr>"

definition sched_idle :: priorityWriteScheduler where
  "sched_idle = the (priority_AdjustStream sched0 3 (self_dependent 3))"

definition sched_opened :: priorityWriteScheduler where
  "sched_opened = the (priority_OpenStream sched_idle 3 (pushed_by 0))"

lemmas eval_adjust = priority_AdjustStream_def adjust_node_def addClosedOrIdleNode_def self_dependent_def

lemma sched_idle_calls:
  "priority_AdjustStream sched0 3 (self_dependent 3) = Some sched_idle" "unused sched_idle 3" "evicted sched0 sched_idle = {}"
  "priority_OpenStream sched_idle 3 (pushed_by 0) = Some sched_opened"
  by (auto simp: evicted_def unused_def sched_opened_def sched_idle_def sched0_def eval_defs eval_adjust less_Suc_eq)

lemma sched_opened_run:
  "sched_run (priority_step srt) (NewPriorityWriteScheduler (Some small_config)) [Managed {}, Managed {}] sched_opened"
proof -
  have "sched_run (priority_step srt) sched0 [Managed {}] sched_idle"
    using run_call [where step = "priority_step srt" and es = "[]", OF run_start priority_adjust [OF sched_idle_calls(1)]]
      sched_idle_calls(3) by simp
  then show ?thesis
    using run_call [where step = "priority_step srt" and es = "[Managed {}]", OF _ priority_open [OF sched_idle_calls(2,4)]]
    by (simp add: sched0_def)
qed

theorem opened_stream_evicted_witness:
  "\<exists>ws'. priority_AdjustStream sched_opened 5 (self_dependent 5) = Some ws' \<and> priority_CloseStream ws' 3 = None \<and>
    priority_Push ws' sample_data = None"
proof -
  have "ps_idleNodes sched_opened = [1]" "ps_maxIdleNodesInTree sched_opened = 1" "pn_id (ps_heap sched_opened 1) = 3"
    "pn_state (ps_heap sched_opened 1) = PriorityNodeOpen" "ps_maxID sched_opened = 3"
    by (simp_all add: sched_opened_def sched_idle_def sched0_def eval_defs eval_adjust)
  then show ?thesis
    using opened_stream_evicted [OF go_insertion_sort_permutes sched_opened_run, of 1 "[]" 3 5 "self_dependent 5"] sample_data_id
    by auto
qed

lemma word_255_plus_1: "(255 :: u8) + 1 = 0"
  by simp

text \<open>
  The highest weight counts as the lowest: \<^verbatim>\<open>weight+1\<close> is computed in eight bits, so a sibling
  whose weight is 255 (256 in the terms of the RFC) never comes before one that has another weight while
  neither subtree has sent a byte, and comes after it.
\<close>

lemma highest_weight_sorts_last:
  assumes "pn_weight (h i) = 255" "pn_weight (h k) \<noteq> 255" "pn_subtreeBytes (h i) = 0" "pn_subtreeBytes (h k) = 0"
  shows "\<not> sibling_Less h i k \<and> sibling_Less h k i"
proof -
  have "pn_weight (h k) + 1 \<noteq> 0"
    using assms(2) add_right_cancel [of "pn_weight (h k)" 1 255] by (metis word_255_plus_1)
  then have "0 < rat_of_nat (unat (pn_weight (h k) + 1))"
    by (simp add: unat_gt_0 del: of_nat_unat)
  then show ?thesis
    using assms by (simp add: sibling_Less_def float64_def)
qed

lemma highest_weight_sorts_last_witness:
  "sibling_Less (\<lambda>n. zero_node\<lparr>pn_weight := (if n = 0 then 255 else 0)\<rparr>) 1 0"
  using highest_weight_sorts_last [of "\<lambda>n. zero_node\<lparr>pn_weight := (if n = 0 then 255 else 0)\<rparr>" 0 1]
  by (simp add: zero_node_def)

end
