(* ===== verification/HTTP2_Frame.thy ===== *)
theory HTTP2_Frame
  imports HTTP2_Protocol HPACK_Decode
begin

text \<open>
  Package \<^verbatim>\<open>http2\<close>, file \<^verbatim>\<open>frame.go\<close>: frame headers, the frame types, the parser of each type, the
  \<^verbatim>\<open>Framer\<close> with its reading and writing methods.  The merging of header frames
  (\<^verbatim>\<open>readMetaFrame\<close>) is in a theory of its own.

  The underlying reader is what it still has to deliver: some octets and then end of file or an
  error.  The underlying writer is the list of the calls of its \<^verbatim>\<open>Write\<close> method so far; what the next
  call returns is an argument of the writing methods.  Frames are values: that \<^verbatim>\<open>ReadFrame\<close>
  invalidates the frame it returned before is seen in the framer's copy of it.  Logging is left out.
\<close>

section \<open>Frame types and flags\<close>

type_synonym FrameType = u8
type_synonym Flags = u8

definition frameHeaderLen :: nat where [go_defs]: "frameHeaderLen = 9"

definition FrameData :: FrameType where [go_defs]: "FrameData = 0x0"
definition FrameHeaders :: FrameType where [go_defs]: "FrameHeaders = 0x1"
definition FramePriority :: FrameType where [go_defs]: "FramePriority = 0x2"
definition FrameRSTStream :: FrameType where [go_defs]: "FrameRSTStream = 0x3"
definition FrameSettings :: FrameType where [go_defs]: "FrameSettings = 0x4"
definition FramePushPromise :: FrameType where [go_defs]: "FramePushPromise = 0x5"
definition FramePing :: FrameType where [go_defs]: "FramePing = 0x6"
definition FrameGoAway :: FrameType where [go_defs]: "FrameGoAway = 0x7"
definition FrameWindowUpdate :: FrameType where [go_defs]: "FrameWindowUpdate = 0x8"
definition FrameContinuation :: FrameType where [go_defs]: "FrameContinuation = 0x9"

definition frameName :: "FrameType \<rightharpoonup> string" where
  "frameName =
     [FrameData \<mapsto> ''DATA'',
      FrameHeaders \<mapsto> ''HEADERS'',
      FramePriority \<mapsto> ''PRIORITY'',
      FrameRSTStream \<mapsto> ''RST_STREAM'',
      FrameSettings \<mapsto> ''SETTINGS'',
      FramePushPromise \<mapsto> ''PUSH_PROMISE'',
      FramePing \<mapsto> ''PING'',
      FrameGoAway \<mapsto> ''GOAWAY'',
      FrameWindowUpdate \<mapsto> ''WINDOW_UPDATE'',
      FrameContinuation \<mapsto> ''CONTINUATION'']"

definition FrameType_String :: "FrameType \<Rightarrow> string" where
  "FrameType_String t = (case frameName t of Some s \<Rightarrow> s | None \<Rightarrow> ''UNKNOWN_FRAME_TYPE_'' @ fmt_d (unat t))"

definition Flags_Has :: "Flags \<Rightarrow> Flags \<Rightarrow> bool" where
  "Flags_Has f v \<longleftrightarrow> f AND v = v"

definition FlagDataEndStream :: Flags where [go_defs]: "FlagDataEndStream = 0x1"
definition FlagDataPadded :: Flags where [go_defs]: "FlagDataPadded = 0x8"
definition FlagHeadersEndStream :: Flags where [go_defs]: "FlagHeadersEndStream = 0x1"
definition FlagHeadersEndHeaders :: Flags where [go_defs]: "FlagHeadersEndHeaders = 0x4"
definition FlagHeadersPadded :: Flags where [go_defs]: "FlagHeadersPadded = 0x8"
definition FlagHeadersPriority :: Flags where [go_defs]: "FlagHeadersPriority = 0x20"
definition FlagSettingsAck :: Flags where [go_defs]: "FlagSettingsAck = 0x1"
definition FlagPingAck :: Flags where [go_defs]: "FlagPingAck = 0x1"
definition FlagContinuationEndHeaders :: Flags where [go_defs]: "FlagContinuationEndHeaders = 0x4"
definition FlagPushPromiseEndHeaders :: Flags where [go_defs]: "FlagPushPromiseEndHeaders = 0x4"
definition FlagPushPromisePadded :: Flags where [go_defs]: "FlagPushPromisePadded = 0x8"

definition flagName :: "FrameType \<Rightarrow> Flags \<rightharpoonup> string" where
  "flagName t =
     (if t = FrameData then [FlagDataEndStream \<mapsto> ''END_STREAM'', FlagDataPadded \<mapsto> ''PADDED'']
      else if t = FrameHeaders then
        [FlagHeadersEndStream \<mapsto> ''END_STREAM'', FlagHeadersEndHeaders \<mapsto> ''END_HEADERS'',
         FlagHeadersPadded \<mapsto> ''PADDED'', FlagHeadersPriority \<mapsto> ''PRIORITY'']
      else if t = FrameSettings then [FlagSettingsAck \<mapsto> ''ACK'']
      else if t = FramePing then [FlagPingAck \<mapsto> ''ACK'']
      else if t = FrameContinuation then [FlagContinuationEndHeaders \<mapsto> ''END_HEADERS'']
      else if t = FramePushPromise then
        [FlagPushPromiseEndHeaders \<mapsto> ''END_HEADERS'', FlagPushPromisePadded \<mapsto> ''PADDED'']
      else Map.empty)"

section \<open>Frame headers\<close>

record FrameHeader =
  fh_valid :: bool
  fh_Type :: FrameType
  fh_Flags :: Flags
  fh_Length :: u32
  fh_StreamID :: u32

text \<open>The names of the flags that are set, by increasing bit, joined by bars.\<close>

fun debug_flags :: "FrameType \<Rightarrow> Flags \<Rightarrow> nat list \<Rightarrow> bool \<Rightarrow> string" where
  "debug_flags t fl [] some = []"
| "debug_flags t fl (i # bits) some =
     (if fl AND push_bit i 1 = 0 then debug_flags t fl bits some
      else (if some then ''|'' else []) @
        (case flagName t (push_bit i 1) of Some name \<Rightarrow> name | None \<Rightarrow> ''0x'' @ digits_base 16 (2 ^ i)) @
        debug_flags t fl bits True)"

definition FrameHeader_writeDebug :: "FrameHeader \<Rightarrow> string" where
  "FrameHeader_writeDebug h =
     FrameType_String (fh_Type h) @
     (if fh_Flags h \<noteq> 0 then '' flags='' @ debug_flags (fh_Type h) (fh_Flags h) [0..<8] False else []) @
     (if fh_StreamID h \<noteq> 0 then '' stream='' @ fmt_d (unat (fh_StreamID h)) else []) @
     '' len='' @ fmt_d (unat (fh_Length h))"

definition FrameHeader_String :: "FrameHeader \<Rightarrow> string" where
  "FrameHeader_String h = ''[FrameHeader '' @ FrameHeader_writeDebug h @ '']''"

text \<open>A reader: the octets it still delivers, and then an error, or end of file if there is none.\<close>

record 'e reader =
  rd_data :: bytes
  rd_end :: "'e option"

text \<open>\<^verbatim>\<open>io.ReadFull\<close> with a buffer of \<open>n\<close> octets.\<close>

definition io_ReadFull :: "nat \<Rightarrow> 'e reader \<Rightarrow> ('e http2_error + bytes) \<times> 'e reader" where
  "io_ReadFull n r =
     (if n \<le> length (rd_data r) then (Inr (take n (rd_data r)), r\<lparr>rd_data := drop n (rd_data r)\<rparr>)
      else
        (Inl (case rd_end r of
                Some e \<Rightarrow> UnderlyingError e
              | None \<Rightarrow> if rd_data r = [] then IoEOF else IoUnexpectedEOF),
         r\<lparr>rd_data := []\<rparr>))"

definition readFrameHeader :: "'e reader \<Rightarrow> ('e http2_error + FrameHeader) \<times> 'e reader" where
  "readFrameHeader r =
     (case io_ReadFull frameHeaderLen r of
        (Inl e, r') \<Rightarrow> (Inl e, r')
      | (Inr buf, r') \<Rightarrow>
          (Inr \<lparr>fh_valid = True, fh_Type = buf ! 3, fh_Flags = buf ! 4,
                fh_Length = push_bit 16 (ucast (buf ! 0)) OR push_bit 8 (ucast (buf ! 1)) OR ucast (buf ! 2),
                fh_StreamID = be_uint32 (buf ! 5) (buf ! 6) (buf ! 7) (buf ! 8) AND 0x7fffffff\<rparr>, r'))"

definition ReadFrameHeader :: "'e reader \<Rightarrow> ('e http2_error + FrameHeader) \<times> 'e reader" where
  "ReadFrameHeader r = readFrameHeader r"

section \<open>Frames\<close>

text \<open>The merged header frame; its \<^verbatim>\<open>HeadersFrame\<close> by header and priority.\<close>

record MetaHeadersFrame =
  mh_Header :: FrameHeader
  mh_Priority :: PriorityParam
  mh_Fields :: "HeaderField list"
  mh_Truncated :: bool

datatype Frame =
  DataFrame FrameHeader bytes
| HeadersFrame FrameHeader PriorityParam bytes
| PriorityFrame FrameHeader PriorityParam
| RSTStreamFrame FrameHeader ErrCode
| SettingsFrame FrameHeader bytes
| PushPromiseFrame FrameHeader u32 bytes
| PingFrame FrameHeader bytes
| GoAwayFrame FrameHeader u32 ErrCode bytes
| WindowUpdateFrame FrameHeader u32
| ContinuationFrame FrameHeader bytes
| UnknownFrame FrameHeader bytes
| MetaFrame MetaHeadersFrame

primrec Frame_Header :: "Frame \<Rightarrow> FrameHeader" where
  "Frame_Header (DataFrame h d) = h"
| "Frame_Header (HeadersFrame h p b) = h"
| "Frame_Header (PriorityFrame h p) = h"
| "Frame_Header (RSTStreamFrame h c) = h"
| "Frame_Header (SettingsFrame h p) = h"
| "Frame_Header (PushPromiseFrame h i b) = h"
| "Frame_Header (PingFrame h d) = h"
| "Frame_Header (GoAwayFrame h i c d) = h"
| "Frame_Header (WindowUpdateFrame h i) = h"
| "Frame_Header (ContinuationFrame h b) = h"
| "Frame_Header (UnknownFrame h p) = h"
| "Frame_Header (MetaFrame m) = mh_Header m"

definition invalid_header :: "FrameHeader \<Rightarrow> FrameHeader" where
  "invalid_header h = h\<lparr>fh_valid := False\<rparr>"

primrec Frame_invalidate :: "Frame \<Rightarrow> Frame" where
  "Frame_invalidate (DataFrame h d) = DataFrame (invalid_header h) d"
| "Frame_invalidate (HeadersFrame h p b) = HeadersFrame (invalid_header h) p b"
| "Frame_invalidate (PriorityFrame h p) = PriorityFrame (invalid_header h) p"
| "Frame_invalidate (RSTStreamFrame h c) = RSTStreamFrame (invalid_header h) c"
| "Frame_invalidate (SettingsFrame h p) = SettingsFrame (invalid_header h) p"
| "Frame_invalidate (PushPromiseFrame h i b) = PushPromiseFrame (invalid_header h) i b"
| "Frame_invalidate (PingFrame h d) = PingFrame (invalid_header h) d"
| "Frame_invalidate (GoAwayFrame h i c d) = GoAwayFrame (invalid_header h) i c d"
| "Frame_invalidate (WindowUpdateFrame h i) = WindowUpdateFrame (invalid_header h) i"
| "Frame_invalidate (ContinuationFrame h b) = ContinuationFrame (invalid_header h) b"
| "Frame_invalidate (UnknownFrame h p) = UnknownFrame (invalid_header h) p"
| "Frame_invalidate (MetaFrame m) = MetaFrame (m\<lparr>mh_Header := invalid_header (mh_Header m)\<rparr>)"

text \<open>
  The accessors of a frame's octets (\<^verbatim>\<open>Data\<close>, \<^verbatim>\<open>HeaderBlockFragment\<close>, \<^verbatim>\<open>DebugData\<close>, \<^verbatim>\<open>Payload\<close>)
  panic on a frame that is no longer valid.
\<close>

definition checkValid :: "FrameHeader \<Rightarrow> 'a \<Rightarrow> 'e http2_error + 'a" where
  "checkValid h x = (if fh_valid h then Inr x else Inl Panic)"

fun Frame_payload :: "Frame \<Rightarrow> 'e http2_error + bytes" where
  "Frame_payload (DataFrame h d) = checkValid h d"
| "Frame_payload (HeadersFrame h p b) = checkValid h b"
| "Frame_payload (PushPromiseFrame h i b) = checkValid h b"
| "Frame_payload (GoAwayFrame h i c d) = checkValid h d"
| "Frame_payload (ContinuationFrame h b) = checkValid h b"
| "Frame_payload (UnknownFrame h p) = checkValid h p"
| "Frame_payload f = Inl Panic"

text \<open>The flag tests of the frame types.\<close>

fun Frame_StreamEnded :: "Frame \<Rightarrow> bool" where
  "Frame_StreamEnded (DataFrame h d) = Flags_Has (fh_Flags h) FlagDataEndStream"
| "Frame_StreamEnded (HeadersFrame h p b) = Flags_Has (fh_Flags h) FlagHeadersEndStream"
| "Frame_StreamEnded (MetaFrame m) = Flags_Has (fh_Flags (mh_Header m)) FlagHeadersEndStream"
| "Frame_StreamEnded f = False"

fun Frame_HeadersEnded :: "Frame \<Rightarrow> bool" where
  "Frame_HeadersEnded (HeadersFrame h p b) = Flags_Has (fh_Flags h) FlagHeadersEndHeaders"
| "Frame_HeadersEnded (ContinuationFrame h b) = Flags_Has (fh_Flags h) FlagContinuationEndHeaders"
| "Frame_HeadersEnded (PushPromiseFrame h i b) = Flags_Has (fh_Flags h) FlagPushPromiseEndHeaders"
| "Frame_HeadersEnded f = False"

definition SettingsFrame_IsAck :: "FrameHeader \<Rightarrow> bool" where
  "SettingsFrame_IsAck h = Flags_Has (fh_Flags h) FlagSettingsAck"

definition PingFrame_IsAck :: "FrameHeader \<Rightarrow> bool" where
  "PingFrame_IsAck h = Flags_Has (fh_Flags h) FlagPingAck"

definition HeadersFrame_HasPriority :: "FrameHeader \<Rightarrow> bool" where
  "HeadersFrame_HasPriority h = Flags_Has (fh_Flags h) FlagHeadersPriority"

section \<open>Parsing\<close>

text \<open>
  Slices and fixed reads panic out of range.  The parsers get a payload whose length is that of the
  header.
\<close>

definition slice_to :: "bytes \<Rightarrow> int \<Rightarrow> 'e http2_error + bytes" where
  "slice_to p n = (if 0 \<le> n \<and> n \<le> int (length p) then Inr (take (nat n) p) else Inl Panic)"

fun BigEndian_Uint32 :: "bytes \<Rightarrow> 'e http2_error + u32" where
  "BigEndian_Uint32 (b0 # b1 # b2 # b3 # r) = Inr (be_uint32 b0 b1 b2 b3)"
| "BigEndian_Uint32 p = Inl Panic"

fun frame_readByte :: "bytes \<Rightarrow> 'e http2_error + bytes \<times> u8" where
  "frame_readByte [] = Inl IoUnexpectedEOF"
| "frame_readByte (b # p) = Inr (p, b)"

definition frame_readUint32 :: "bytes \<Rightarrow> 'e http2_error + bytes \<times> u32" where
  "frame_readUint32 p =
     (if length p < 4 then Inl IoUnexpectedEOF
      else res_bind (BigEndian_Uint32 p) (\<lambda>v. Inr (drop 4 p, v)))"

type_synonym 'e frameParser = "FrameHeader \<Rightarrow> bytes \<Rightarrow> 'e http2_error + Frame"

definition parseDataFrame :: "'e frameParser" where
  "parseDataFrame fh payload =
     (if fh_StreamID fh = 0 then Inl (ConnError ErrCodeProtocol ''DATA frame with stream ID 0'')
      else
        res_bind (if Flags_Has (fh_Flags fh) FlagDataPadded then frame_readByte payload else Inr (payload, 0))
          (\<lambda>(payload, padSize).
             if int (unat padSize) > int (length payload)
             then Inl (ConnError ErrCodeProtocol ''pad size larger than data payload'')
             else res_bind (slice_to payload (int (length payload) - int (unat padSize)))
               (\<lambda>data. Inr (DataFrame fh data))))"

text \<open>The settings of a payload in order; an octet too few panics.\<close>

fun settings_Value :: "bytes \<Rightarrow> SettingID \<Rightarrow> 'e http2_error + u32 option" where
  "settings_Value [] s = Inr None"
| "settings_Value (b0 # b1 # b2 # b3 # b4 # b5 # buf) s =
     (if be_uint16 b0 b1 = s then Inr (Some (be_uint32 b2 b3 b4 b5)) else settings_Value buf s)"
| "settings_Value buf s = Inl Panic"

definition SettingsFrame_Value :: "FrameHeader \<Rightarrow> bytes \<Rightarrow> SettingID \<Rightarrow> 'e http2_error + u32 option" where
  "SettingsFrame_Value fh p s = res_bind (checkValid fh p) (\<lambda>buf. settings_Value buf s)"

fun foreach_setting :: "bytes \<Rightarrow> (Setting \<Rightarrow> 's \<Rightarrow> 's \<times> 'e http2_error option) \<Rightarrow> 's \<Rightarrow> 's \<times> 'e http2_error option" where
  "foreach_setting [] fn acc = (acc, None)"
| "foreach_setting (b0 # b1 # b2 # b3 # b4 # b5 # buf) fn acc =
     (case fn \<lparr>set_ID = be_uint16 b0 b1, set_Val = be_uint32 b2 b3 b4 b5\<rparr> acc of
        (acc', Some e) \<Rightarrow> (acc', Some e)
      | (acc', None) \<Rightarrow> foreach_setting buf fn acc')"
| "foreach_setting buf fn acc = (acc, Some Panic)"

definition ForeachSetting ::
  "FrameHeader \<Rightarrow> bytes \<Rightarrow> (Setting \<Rightarrow> 's \<Rightarrow> 's \<times> 'e http2_error option) \<Rightarrow> 's \<Rightarrow> 's \<times> 'e http2_error option"
where
  "ForeachSetting fh p fn acc = (if fh_valid fh then foreach_setting p fn acc else (acc, Some Panic))"

definition parseSettingsFrame :: "'e frameParser" where
  "parseSettingsFrame fh p =
     (if Flags_Has (fh_Flags fh) FlagSettingsAck \<and> fh_Length fh > 0 then Inl (ConnectionError ErrCodeFrameSize)
      else if fh_StreamID fh \<noteq> 0 then Inl (ConnectionError ErrCodeProtocol)
      else if length p mod 6 \<noteq> 0 then Inl (ConnectionError ErrCodeFrameSize)
      else
        res_bind (SettingsFrame_Value fh p SettingInitialWindowSize)
          (\<lambda>v. case v of
                 Some v \<Rightarrow> if v > 0x7fffffff then Inl (ConnectionError ErrCodeFlowControl) else Inr (SettingsFrame fh p)
               | None \<Rightarrow> Inr (SettingsFrame fh p)))"

definition parsePingFrame :: "'e frameParser" where
  "parsePingFrame fh payload =
     (if length payload \<noteq> 8 then Inl (ConnectionError ErrCodeFrameSize)
      else if fh_StreamID fh \<noteq> 0 then Inl (ConnectionError ErrCodeProtocol)
      else Inr (PingFrame fh payload))"

definition parseGoAwayFrame :: "'e frameParser" where
  "parseGoAwayFrame fh p =
     (if fh_StreamID fh \<noteq> 0 then Inl (ConnectionError ErrCodeProtocol)
      else if length p < 8 then Inl (ConnectionError ErrCodeFrameSize)
      else
        res_bind (BigEndian_Uint32 p) (\<lambda>i.
        res_bind (BigEndian_Uint32 (drop 4 p)) (\<lambda>c.
        Inr (GoAwayFrame fh (i AND 0x7fffffff) c (drop 8 p)))))"

definition parseUnknownFrame :: "'e frameParser" where
  "parseUnknownFrame fh p = Inr (UnknownFrame fh p)"

definition parseWindowUpdateFrame :: "'e frameParser" where
  "parseWindowUpdateFrame fh p =
     (if length p \<noteq> 4 then Inl (ConnectionError ErrCodeFrameSize)
      else
        res_bind (BigEndian_Uint32 p) (\<lambda>v.
        let inc = v AND 0x7fffffff in
        if inc = 0 then
          (if fh_StreamID fh = 0 then Inl (ConnectionError ErrCodeProtocol)
           else Inl (StreamErr (streamError (fh_StreamID fh) ErrCodeProtocol)))
        else Inr (WindowUpdateFrame fh inc)))"

text \<open>The priority fields of a HEADERS frame.\<close>

definition read_priority :: "bytes \<Rightarrow> 'e http2_error + bytes \<times> PriorityParam" where
  "read_priority p =
     res_bind (frame_readUint32 p) (\<lambda>(p, v).
     let dep = v AND 0x7fffffff in
     res_bind (frame_readByte p) (\<lambda>(p, w).
     Inr (p, \<lparr>StreamDep = dep, Exclusive = (v \<noteq> dep), Weight = w\<rparr>)))"

definition zero_priority :: PriorityParam where
  "zero_priority = \<lparr>StreamDep = 0, Exclusive = False, Weight = 0\<rparr>"

definition parseHeadersFrame :: "'e frameParser" where
  "parseHeadersFrame fh p =
     (if fh_StreamID fh = 0 then Inl (ConnError ErrCodeProtocol ''HEADERS frame with stream ID 0'')
      else
        res_bind (if Flags_Has (fh_Flags fh) FlagHeadersPadded then frame_readByte p else Inr (p, 0)) (\<lambda>(p, padLength).
        res_bind (if Flags_Has (fh_Flags fh) FlagHeadersPriority then read_priority p else Inr (p, zero_priority)) (\<lambda>(p, pr).
        if int (length p) - int (unat padLength) \<le> 0
        then Inl (StreamErr (streamError (fh_StreamID fh) ErrCodeProtocol))
        else res_bind (slice_to p (int (length p) - int (unat padLength))) (\<lambda>b.
          Inr (HeadersFrame fh pr b)))))"

definition parsePriorityFrame :: "'e frameParser" where
  "parsePriorityFrame fh payload =
     (if fh_StreamID fh = 0 then Inl (ConnError ErrCodeProtocol ''PRIORITY frame with stream ID 0'')
      else if length payload \<noteq> 5 then
        Inl (ConnError ErrCodeFrameSize (''PRIORITY frame payload size was '' @ fmt_d (length payload) @ ''; want 5''))
      else
        res_bind (BigEndian_Uint32 payload) (\<lambda>v.
        let streamID = v AND 0x7fffffff in
        Inr (PriorityFrame fh \<lparr>StreamDep = streamID, Exclusive = (streamID \<noteq> v), Weight = payload ! 4\<rparr>)))"

definition parseRSTStreamFrame :: "'e frameParser" where
  "parseRSTStreamFrame fh p =
     (if length p \<noteq> 4 then Inl (ConnectionError ErrCodeFrameSize)
      else if fh_StreamID fh = 0 then Inl (ConnectionError ErrCodeProtocol)
      else res_bind (BigEndian_Uint32 p) (\<lambda>c. Inr (RSTStreamFrame fh c)))"

definition parseContinuationFrame :: "'e frameParser" where
  "parseContinuationFrame fh p =
     (if fh_StreamID fh = 0 then Inl (ConnError ErrCodeProtocol ''CONTINUATION frame with stream ID 0'')
      else Inr (ContinuationFrame fh p))"

definition parsePushPromise :: "'e frameParser" where
  "parsePushPromise fh p =
     (if fh_StreamID fh = 0 then Inl (ConnectionError ErrCodeProtocol)
      else
        res_bind (if Flags_Has (fh_Flags fh) FlagPushPromisePadded then frame_readByte p else Inr (p, 0)) (\<lambda>(p, padLength).
        res_bind (frame_readUint32 p) (\<lambda>(p, i).
        if int (unat padLength) > int (length p) then Inl (ConnectionError ErrCodeProtocol)
        else res_bind (slice_to p (int (length p) - int (unat padLength))) (\<lambda>b.
          Inr (PushPromiseFrame fh (i AND 0x7fffffff) b)))))"

definition typeFrameParser :: "FrameType \<Rightarrow> 'e frameParser" where
  "typeFrameParser t =
     (if t = FrameData then parseDataFrame
      else if t = FrameHeaders then parseHeadersFrame
      else if t = FramePriority then parsePriorityFrame
      else if t = FrameRSTStream then parseRSTStreamFrame
      else if t = FrameSettings then parseSettingsFrame
      else if t = FramePushPromise then parsePushPromise
      else if t = FramePing then parsePingFrame
      else if t = FrameGoAway then parseGoAwayFrame
      else if t = FrameWindowUpdate then parseWindowUpdateFrame
      else if t = FrameContinuation then parseContinuationFrame
      else parseUnknownFrame)"

section \<open>The framer\<close>

datatype error_detail = Reason string | InvalidHeader header_error

record 'e Framer =
  fr_r :: "'e reader"
  fr_lastFrame :: "Frame option"
  fr_errDetail :: "error_detail option"
  fr_lastHeaderStream :: u32
  fr_maxReadSize :: u32
  fr_w :: "bytes list"
  fr_wbuf :: bytes
  fr_AllowIllegalWrites :: bool
  fr_AllowIllegalReads :: bool
  fr_ReadMetaHeaders :: "Decoder option"
  fr_MaxHeaderListSize :: u32

definition frame_maxFrameSize :: u32 where [go_defs]: "frame_maxFrameSize = 0xffffff"

definition SetMaxReadFrameSize :: "u32 \<Rightarrow> 'e Framer \<Rightarrow> 'e Framer" where
  "SetMaxReadFrameSize v fr = fr\<lparr>fr_maxReadSize := (if v > frame_maxFrameSize then frame_maxFrameSize else v)\<rparr>"

definition NewFramer :: "bytes list \<Rightarrow> 'e reader \<Rightarrow> 'e Framer" where
  "NewFramer w r =
     SetMaxReadFrameSize frame_maxFrameSize
       \<lparr>fr_r = r, fr_lastFrame = None, fr_errDetail = None, fr_lastHeaderStream = 0, fr_maxReadSize = 0,
        fr_w = w, fr_wbuf = [], fr_AllowIllegalWrites = False, fr_AllowIllegalReads = False,
        fr_ReadMetaHeaders = None, fr_MaxHeaderListSize = 0\<rparr>"

definition Framer_ErrorDetail :: "'e Framer \<Rightarrow> error_detail option" where
  "Framer_ErrorDetail fr = fr_errDetail fr"

definition maxHeaderListSize :: "'e Framer \<Rightarrow> u32" where
  "maxHeaderListSize fr = (if fr_MaxHeaderListSize fr = 0 then 0x1000000 else fr_MaxHeaderListSize fr)"

fun terminalReadFrameError :: "'e http2_error option \<Rightarrow> bool" where
  "terminalReadFrameError (Some (StreamErr _)) = False"
| "terminalReadFrameError err = (err \<noteq> None)"

subsection \<open>Reading\<close>

definition Framer_connError :: "ErrCode \<Rightarrow> string \<Rightarrow> 'e Framer \<Rightarrow> 'e http2_error \<times> 'e Framer" where
  "Framer_connError code reason fr = (ConnectionError code, fr\<lparr>fr_errDetail := Some (Reason reason)\<rparr>)"

text \<open>The contiguity of header blocks: an error for a frame that may not follow.\<close>

definition order_error :: "FrameHeader \<Rightarrow> Frame option \<Rightarrow> u32 \<Rightarrow> 'e http2_error + string option" where
  "order_error fh prev lastHeaderStream =
     (if lastHeaderStream \<noteq> 0 then
        (if fh_Type fh \<noteq> FrameContinuation then
           (case prev of
              None \<Rightarrow> Inl Panic
            | Some lf \<Rightarrow> Inr (Some (''got '' @ FrameType_String (fh_Type fh) @ '' for stream '' @
                fmt_d (unat (fh_StreamID fh)) @ ''; expected CONTINUATION following '' @
                FrameType_String (fh_Type (Frame_Header lf)) @ '' for stream '' @ fmt_d (unat lastHeaderStream))))
         else if fh_StreamID fh \<noteq> lastHeaderStream then
           Inr (Some (''got CONTINUATION for stream '' @ fmt_d (unat (fh_StreamID fh)) @ ''; expected stream '' @
             fmt_d (unat lastHeaderStream)))
         else Inr None)
      else if fh_Type fh = FrameContinuation then
        Inr (Some (''unexpected CONTINUATION for stream '' @ fmt_d (unat (fh_StreamID fh))))
      else Inr None)"

definition checkFrameOrder :: "Frame \<Rightarrow> 'e Framer \<Rightarrow> 'e http2_error option \<times> 'e Framer" where
  "checkFrameOrder f fr =
     (let prev = fr_lastFrame fr; fr = fr\<lparr>fr_lastFrame := Some f\<rparr>; fh = Frame_Header f in
      if fr_AllowIllegalReads fr then (None, fr)
      else
        (case order_error fh prev (fr_lastHeaderStream fr) of
           Inl e \<Rightarrow> (Some e, fr)
         | Inr (Some reason) \<Rightarrow> map_prod Some (\<lambda>fr. fr) (Framer_connError ErrCodeProtocol reason fr)
         | Inr None \<Rightarrow>
             (None,
              if fh_Type fh = FrameHeaders \<or> fh_Type fh = FrameContinuation then
                fr\<lparr>fr_lastHeaderStream :=
                  (if Flags_Has (fh_Flags fh) FlagHeadersEndHeaders then 0 else fh_StreamID fh)\<rparr>
              else fr)))"

text \<open>\<^verbatim>\<open>ReadFrame\<close> up to the merging of header frames.\<close>

definition read_frame :: "'e Framer \<Rightarrow> ('e http2_error + Frame) \<times> 'e Framer" where
  "read_frame fr =
     (let fr = fr\<lparr>fr_errDetail := None, fr_lastFrame := map_option Frame_invalidate (fr_lastFrame fr)\<rparr> in
      case readFrameHeader (fr_r fr) of
        (Inl e, r) \<Rightarrow> (Inl e, fr\<lparr>fr_r := r\<rparr>)
      | (Inr fh, r) \<Rightarrow>
          if fh_Length fh > fr_maxReadSize fr then (Inl ErrFrameTooLarge, fr\<lparr>fr_r := r\<rparr>)
          else
            (case io_ReadFull (unat (fh_Length fh)) r of
               (Inl e, r) \<Rightarrow> (Inl e, fr\<lparr>fr_r := r\<rparr>)
             | (Inr payload, r) \<Rightarrow>
                 let fr = fr\<lparr>fr_r := r\<rparr> in
                 (case typeFrameParser (fh_Type fh) fh payload of
                    Inl (ConnError code reason) \<Rightarrow> map_prod Inl (\<lambda>fr. fr) (Framer_connError code reason fr)
                  | Inl e \<Rightarrow> (Inl e, fr)
                  | Inr f \<Rightarrow>
                      (case checkFrameOrder f fr of
                         (Some e, fr) \<Rightarrow> (Inl e, fr)
                       | (None, fr) \<Rightarrow> (Inr f, fr)))))"

subsection \<open>Writing\<close>

type_synonym 'e write_result = "bytes \<Rightarrow> int \<times> 'e option"

definition startWrite :: "FrameType \<Rightarrow> Flags \<Rightarrow> u32 \<Rightarrow> 'e Framer \<Rightarrow> 'e Framer" where
  "startWrite ftype flags streamID f =
     f\<lparr>fr_wbuf := [0, 0, 0, ftype, flags, ucast (drop_bit 24 streamID), ucast (drop_bit 16 streamID),
       ucast (drop_bit 8 streamID), ucast streamID]\<rparr>"

definition endWrite :: "'e write_result \<Rightarrow> 'e Framer \<Rightarrow> 'e http2_error option \<times> 'e Framer" where
  "endWrite w f =
     (let len = length (fr_wbuf f) - frameHeaderLen in
      if len \<ge> 2 ^ 24 then (Some ErrFrameTooLarge, f)
      else
        let buf = [of_nat (drop_bit 16 len), of_nat (drop_bit 8 len), of_nat len] @ drop 3 (fr_wbuf f);
            f = f\<lparr>fr_wbuf := buf, fr_w := fr_w f @ [buf]\<rparr>
        in case w buf of
             (n, Some e) \<Rightarrow> (Some (UnderlyingError e), f)
           | (n, None) \<Rightarrow> (if n \<noteq> int (length buf) then Some IoShortWrite else None, f))"

definition writeByte :: "u8 \<Rightarrow> 'e Framer \<Rightarrow> 'e Framer" where
  "writeByte v f = f\<lparr>fr_wbuf := fr_wbuf f @ [v]\<rparr>"

definition writeBytes :: "bytes \<Rightarrow> 'e Framer \<Rightarrow> 'e Framer" where
  "writeBytes v f = f\<lparr>fr_wbuf := fr_wbuf f @ v\<rparr>"

definition writeUint16 :: "u16 \<Rightarrow> 'e Framer \<Rightarrow> 'e Framer" where
  "writeUint16 v f = f\<lparr>fr_wbuf := fr_wbuf f @ [ucast (drop_bit 8 v), ucast v]\<rparr>"

definition writeUint32 :: "u32 \<Rightarrow> 'e Framer \<Rightarrow> 'e Framer" where
  "writeUint32 v f =
     f\<lparr>fr_wbuf := fr_wbuf f @ [ucast (drop_bit 24 v), ucast (drop_bit 16 v), ucast (drop_bit 8 v), ucast v]\<rparr>"

definition validStreamIDOrZero :: "u32 \<Rightarrow> bool" where
  "validStreamIDOrZero streamID \<longleftrightarrow> streamID AND 0x80000000 = 0"

definition validStreamID :: "u32 \<Rightarrow> bool" where
  "validStreamID streamID \<longleftrightarrow> streamID \<noteq> 0 \<and> streamID AND 0x80000000 = 0"

text \<open>A flag that is set under a condition.\<close>

definition flag_if :: "bool \<Rightarrow> Flags \<Rightarrow> Flags" where
  "flag_if c v = (if c then v else 0)"

text \<open>The padding is an option because a nil slice and an empty one are told apart.\<close>

definition WriteDataPadded ::
  "'e write_result \<Rightarrow> u32 \<Rightarrow> bool \<Rightarrow> bytes \<Rightarrow> bytes option \<Rightarrow> 'e Framer \<Rightarrow> 'e http2_error option \<times> 'e Framer"
where
  "WriteDataPadded w streamID endStream data pad f =
     (let ps = (case pad of None \<Rightarrow> [] | Some ps \<Rightarrow> ps) in
      if \<not> validStreamID streamID \<and> \<not> fr_AllowIllegalWrites f then (Some ErrStreamID, f)
      else if length ps > 255 then (Some ErrPadLength, f)
      else if \<not> fr_AllowIllegalWrites f \<and> (\<exists>b \<in> set ps. b \<noteq> 0) then (Some ErrPadBytes, f)
      else
        let flags = flag_if endStream FlagDataEndStream OR flag_if (pad \<noteq> None) FlagDataPadded;
            f = startWrite FrameData flags streamID f;
            f = (if pad \<noteq> None then writeByte (of_nat (length ps)) f else f);
            f = writeBytes data f;
            f = writeBytes ps f
        in endWrite w f)"

definition Framer_WriteData ::
  "'e write_result \<Rightarrow> u32 \<Rightarrow> bool \<Rightarrow> bytes \<Rightarrow> 'e Framer \<Rightarrow> 'e http2_error option \<times> 'e Framer"
where
  "Framer_WriteData w streamID endStream data f = WriteDataPadded w streamID endStream data None f"

definition Framer_WriteSettings :: "'e write_result \<Rightarrow> Setting list \<Rightarrow> 'e Framer \<Rightarrow> 'e http2_error option \<times> 'e Framer" where
  "Framer_WriteSettings w settings f =
     endWrite w (fold (\<lambda>s f. writeUint32 (set_Val s) (writeUint16 (set_ID s) f)) settings (startWrite FrameSettings 0 0 f))"

definition Framer_WriteSettingsAck :: "'e write_result \<Rightarrow> 'e Framer \<Rightarrow> 'e http2_error option \<times> 'e Framer" where
  "Framer_WriteSettingsAck w f = endWrite w (startWrite FrameSettings FlagSettingsAck 0 f)"

text \<open>The argument of \<^verbatim>\<open>WritePing\<close> is an array of eight octets.\<close>

definition Framer_WritePing :: "'e write_result \<Rightarrow> bool \<Rightarrow> bytes \<Rightarrow> 'e Framer \<Rightarrow> 'e http2_error option \<times> 'e Framer" where
  "Framer_WritePing w ack data f = endWrite w (writeBytes data (startWrite FramePing (flag_if ack FlagPingAck) 0 f))"

definition Framer_WriteGoAway ::
  "'e write_result \<Rightarrow> u32 \<Rightarrow> ErrCode \<Rightarrow> bytes \<Rightarrow> 'e Framer \<Rightarrow> 'e http2_error option \<times> 'e Framer"
where
  "Framer_WriteGoAway w maxStreamID code debugData f =
     endWrite w (writeBytes debugData (writeUint32 code (writeUint32 (maxStreamID AND 0x7fffffff)
       (startWrite FrameGoAway 0 0 f))))"

definition Framer_WriteWindowUpdate ::
  "'e write_result \<Rightarrow> u32 \<Rightarrow> u32 \<Rightarrow> 'e Framer \<Rightarrow> 'e http2_error option \<times> 'e Framer"
where
  "Framer_WriteWindowUpdate w streamID incr f =
     (if (incr < 1 \<or> incr > 2147483647) \<and> \<not> fr_AllowIllegalWrites f then (Some ErrWindowIncrement, f)
      else endWrite w (writeUint32 incr (startWrite FrameWindowUpdate 0 streamID f)))"

record HeadersFrameParam =
  hp_StreamID :: u32
  hp_BlockFragment :: bytes
  hp_EndStream :: bool
  hp_EndHeaders :: bool
  hp_PadLength :: u8
  hp_Priority :: PriorityParam

text \<open>The dependency with the exclusive bit.\<close>

definition dependency_word :: "PriorityParam \<Rightarrow> u32" where
  "dependency_word p = (if Exclusive p then StreamDep p OR 0x80000000 else StreamDep p)"

definition Framer_WriteHeaders ::
  "'e write_result \<Rightarrow> HeadersFrameParam \<Rightarrow> 'e Framer \<Rightarrow> 'e http2_error option \<times> 'e Framer"
where
  "Framer_WriteHeaders w p f =
     (if \<not> validStreamID (hp_StreamID p) \<and> \<not> fr_AllowIllegalWrites f then (Some ErrStreamID, f)
      else
        let prio = \<not> PriorityParam_IsZero (hp_Priority p);
            flags = flag_if (hp_PadLength p \<noteq> 0) FlagHeadersPadded OR flag_if (hp_EndStream p) FlagHeadersEndStream OR
              flag_if (hp_EndHeaders p) FlagHeadersEndHeaders OR flag_if prio FlagHeadersPriority;
            f = startWrite FrameHeaders flags (hp_StreamID p) f;
            f = (if hp_PadLength p \<noteq> 0 then writeByte (hp_PadLength p) f else f)
        in if prio \<and> \<not> validStreamIDOrZero (StreamDep (hp_Priority p)) \<and> \<not> fr_AllowIllegalWrites f
           then (Some ErrDepStreamID, f)
           else
             let f = (if prio then writeByte (Weight (hp_Priority p)) (writeUint32 (dependency_word (hp_Priority p)) f) else f);
                 f = writeBytes (hp_BlockFragment p) f;
                 f = writeBytes (replicate (unat (hp_PadLength p)) 0) f
             in endWrite w f)"

definition Framer_WritePriority ::
  "'e write_result \<Rightarrow> u32 \<Rightarrow> PriorityParam \<Rightarrow> 'e Framer \<Rightarrow> 'e http2_error option \<times> 'e Framer"
where
  "Framer_WritePriority w streamID p f =
     (if \<not> validStreamID streamID \<and> \<not> fr_AllowIllegalWrites f then (Some ErrStreamID, f)
      else if \<not> validStreamIDOrZero (StreamDep p) then (Some ErrDepStreamID, f)
      else endWrite w (writeByte (Weight p) (writeUint32 (dependency_word p) (startWrite FramePriority 0 streamID f))))"

definition Framer_WriteRSTStream ::
  "'e write_result \<Rightarrow> u32 \<Rightarrow> ErrCode \<Rightarrow> 'e Framer \<Rightarrow> 'e http2_error option \<times> 'e Framer"
where
  "Framer_WriteRSTStream w streamID code f =
     (if \<not> validStreamID streamID \<and> \<not> fr_AllowIllegalWrites f then (Some ErrStreamID, f)
      else endWrite w (writeUint32 code (startWrite FrameRSTStream 0 streamID f)))"

definition Framer_WriteContinuation ::
  "'e write_result \<Rightarrow> u32 \<Rightarrow> bool \<Rightarrow> bytes \<Rightarrow> 'e Framer \<Rightarrow> 'e http2_error option \<times> 'e Framer"
where
  "Framer_WriteContinuation w streamID endHeaders headerBlockFragment f =
     (if \<not> validStreamID streamID \<and> \<not> fr_AllowIllegalWrites f then (Some ErrStreamID, f)
      else endWrite w (writeBytes headerBlockFragment
        (startWrite FrameContinuation (flag_if endHeaders FlagContinuationEndHeaders) streamID f)))"

record PushPromiseParam =
  pq_StreamID :: u32
  pq_PromiseID :: u32
  pq_BlockFragment :: bytes
  pq_EndHeaders :: bool
  pq_PadLength :: u8

definition Framer_WritePushPromise ::
  "'e write_result \<Rightarrow> PushPromiseParam \<Rightarrow> 'e Framer \<Rightarrow> 'e http2_error option \<times> 'e Framer"
where
  "Framer_WritePushPromise w p f =
     (if \<not> validStreamID (pq_StreamID p) \<and> \<not> fr_AllowIllegalWrites f then (Some ErrStreamID, f)
      else
        let flags = flag_if (pq_PadLength p \<noteq> 0) FlagPushPromisePadded OR flag_if (pq_EndHeaders p) FlagPushPromiseEndHeaders;
            f = startWrite FramePushPromise flags (pq_StreamID p) f;
            f = (if pq_PadLength p \<noteq> 0 then writeByte (pq_PadLength p) f else f)
        in if \<not> validStreamID (pq_PromiseID p) \<and> \<not> fr_AllowIllegalWrites f then (Some ErrStreamID, f)
           else
             let f = writeUint32 (pq_PromiseID p) f;
                 f = writeBytes (pq_BlockFragment p) f;
                 f = writeBytes (replicate (unat (pq_PadLength p)) 0) f
             in endWrite w f)"

definition Framer_WriteRawFrame ::
  "'e write_result \<Rightarrow> FrameType \<Rightarrow> Flags \<Rightarrow> u32 \<Rightarrow> bytes \<Rightarrow> 'e Framer \<Rightarrow> 'e http2_error option \<times> 'e Framer"
where
  "Framer_WriteRawFrame w t flags streamID payload f = endWrite w (writeBytes payload (startWrite t flags streamID f))"

end
