(* ===== verification/HTTP2_Frame_Roundtrip.thy ===== *)
theory HTTP2_Frame_Roundtrip
  imports HTTP2_Frame
begin

text \<open>
  What the writing methods put on the wire, and that reading gives it back.
\<close>

section \<open>Octets of integers\<close>

definition octets32 :: "u32 \<Rightarrow> bytes" where
  "octets32 v = [ucast (drop_bit 24 v), ucast (drop_bit 16 v), ucast (drop_bit 8 v), ucast v]"

definition octets16 :: "u16 \<Rightarrow> bytes" where
  "octets16 v = [ucast (drop_bit 8 v), ucast v]"

definition octets24 :: "nat \<Rightarrow> bytes" where
  "octets24 n = [of_nat (drop_bit 16 n), of_nat (drop_bit 8 n), of_nat n]"

lemma length_octets [simp]: "length (octets32 v) = 4" "length (octets16 x) = 2" "length (octets24 n) = 3"
  by (simp_all add: octets32_def octets16_def octets24_def)

lemma be_uint32_octets:
  "be_uint32 (ucast (drop_bit 24 v)) (ucast (drop_bit 16 v)) (ucast (drop_bit 8 v)) (ucast (v :: u32)) = v"
proof (rule bit_word_eqI)
  fix n assume n: "n < LENGTH(32)"
  consider "n < 8" | "8 \<le> n" "n < 16" | "16 \<le> n" "n < 24" | "24 \<le> n"
    by linarith
  then show "bit (be_uint32 (ucast (drop_bit 24 v)) (ucast (drop_bit 16 v)) (ucast (drop_bit 8 v)) (ucast v)) n = bit v n"
    using n by cases (auto simp: be_uint32_def bit_simps)
qed

lemma be_uint16_octets: "be_uint16 (ucast (drop_bit 8 v)) (ucast (v :: u16)) = v"
proof (rule bit_word_eqI)
  fix n assume n: "n < LENGTH(16)"
  then show "bit (be_uint16 (ucast (drop_bit 8 v)) (ucast v)) n = bit v n"
    by (cases "n < 8") (auto simp: be_uint16_def bit_simps)
qed

lemma length_field_octets:
  assumes "n < 2 ^ 24"
  shows "push_bit 16 (ucast (of_nat (drop_bit 16 n) :: u8)) OR push_bit 8 (ucast (of_nat (drop_bit 8 n) :: u8)) OR
    ucast (of_nat n :: u8) = (of_nat n :: u32)"
proof (rule bit_word_eqI)
  fix k assume k: "k < LENGTH(32)"
  have hi: "\<not> bit n k" if "24 \<le> k"
    using assms that by (metis bit_take_bit_iff linorder_not_less take_bit_nat_eq_self)
  consider "k < 8" | "8 \<le> k" "k < 16" | "16 \<le> k" "k < 24" | "24 \<le> k"
    by linarith
  then show "bit (push_bit 16 (ucast (of_nat (drop_bit 16 n) :: u8)) OR push_bit 8 (ucast (of_nat (drop_bit 8 n) :: u8)) OR
    ucast (of_nat n :: u8) :: u32) k = bit (of_nat n :: u32) k"
    using k hi by cases (auto simp: bit_simps)
qed

lemma BigEndian_Uint32_octets [simp]: "BigEndian_Uint32 (octets32 v @ r) = Inr v" "BigEndian_Uint32 (octets32 v) = Inr v"
  by (simp_all add: octets32_def be_uint32_octets)

lemma and_mask31 [simp]: "(v :: u32) AND 0x7fffffff = take_bit 31 v"
  by (simp add: take_bit_eq_mask mask_eq_exp_minus_1)

lemma and_bit31: "(v :: u32) AND 0x80000000 = 0 \<longleftrightarrow> \<not> bit v 31"
  using and_exp_eq_0_iff_not_bit [of v 31] by simp

lemma take_bit_31_id: "\<not> bit (v :: u32) 31 \<Longrightarrow> take_bit 31 v = v"
proof (rule bit_word_eqI)
  fix n assume "\<not> bit v 31" "n < LENGTH(32)"
  then show "bit (take_bit 31 v) n = bit v n"
    by (cases "n = 31") (auto simp: bit_simps)
qed

lemma take_bit_31_small: "(v :: u32) \<le> 0x7fffffff \<Longrightarrow> take_bit 31 v = v"
  by (simp add: word_unat_eq_iff word_le_nat_alt unsigned_take_bit_eq take_bit_nat_eq_self)

section \<open>The wire format\<close>

definition frame_wire :: "FrameType \<Rightarrow> Flags \<Rightarrow> u32 \<Rightarrow> bytes \<Rightarrow> bytes" where
  "frame_wire t fl i p = octets24 (length p) @ [t, fl] @ octets32 i @ p"

definition frame_header :: "FrameType \<Rightarrow> Flags \<Rightarrow> u32 \<Rightarrow> nat \<Rightarrow> FrameHeader" where
  "frame_header t fl i n = \<lparr>fh_valid = True, fh_Type = t, fh_Flags = fl, fh_Length = of_nat n, fh_StreamID = take_bit 31 i\<rparr>"

lemma endWrite_wire:
  assumes "fr_wbuf f = [0, 0, 0, t, fl] @ octets32 i @ p" "length p < 2 ^ 24" "w (frame_wire t fl i p) = (int (length p) + 9, None)"
  shows "endWrite w f = (None, f\<lparr>fr_wbuf := frame_wire t fl i p, fr_w := fr_w f @ [frame_wire t fl i p]\<rparr>)"
  using assms by (simp add: endWrite_def frame_wire_def octets24_def Let_def frameHeaderLen_def)

lemma readFrameHeader_wire:
  assumes "rd_data r = frame_wire t fl i p @ rest" "length p < 2 ^ 24"
  shows "readFrameHeader r = (Inr (frame_header t fl i (length p)), r\<lparr>rd_data := p @ rest\<rparr>)"
proof -
  have "io_ReadFull frameHeaderLen r = (Inr (octets24 (length p) @ [t, fl] @ octets32 i), r\<lparr>rd_data := p @ rest\<rparr>)"
    using assms(1) by (simp add: io_ReadFull_def frameHeaderLen_def frame_wire_def octets24_def octets32_def)
  then show ?thesis
    using length_field_octets [OF assms(2)]
    by (simp add: readFrameHeader_def frame_header_def octets24_def octets32_def be_uint32_octets)
qed

lemma startWrite_wbuf: "fr_wbuf (startWrite t fl i f) = [0, 0, 0, t, fl] @ octets32 i"
  by (simp add: startWrite_def octets32_def)

section \<open>Calls of the writing methods\<close>

datatype write_call =
  CallData u32 bool bytes "bytes option"
| CallHeaders HeadersFrameParam
| CallPriority u32 PriorityParam
| CallRSTStream u32 ErrCode
| CallSettings "Setting list"
| CallSettingsAck
| CallPushPromise PushPromiseParam
| CallPing bool bytes
| CallGoAway u32 ErrCode bytes
| CallWindowUpdate u32 u32
| CallContinuation u32 bool bytes
| CallRawFrame FrameType Flags u32 bytes

primrec do_call :: "'e write_result \<Rightarrow> write_call \<Rightarrow> 'e Framer \<Rightarrow> 'e http2_error option \<times> 'e Framer" where
  "do_call w (CallData i e d pad) f = WriteDataPadded w i e d pad f"
| "do_call w (CallHeaders p) f = Framer_WriteHeaders w p f"
| "do_call w (CallPriority i p) f = Framer_WritePriority w i p f"
| "do_call w (CallRSTStream i c) f = Framer_WriteRSTStream w i c f"
| "do_call w (CallSettings ss) f = Framer_WriteSettings w ss f"
| "do_call w CallSettingsAck f = Framer_WriteSettingsAck w f"
| "do_call w (CallPushPromise p) f = Framer_WritePushPromise w p f"
| "do_call w (CallPing ack d) f = Framer_WritePing w ack d f"
| "do_call w (CallGoAway i c d) f = Framer_WriteGoAway w i c d f"
| "do_call w (CallWindowUpdate i n) f = Framer_WriteWindowUpdate w i n f"
| "do_call w (CallContinuation i e b) f = Framer_WriteContinuation w i e b f"
| "do_call w (CallRawFrame t fl i p) f = Framer_WriteRawFrame w t fl i p f"

text \<open>Type, flags, stream and payload of the frame a call stands for.\<close>

definition pad_octets :: "u8 \<Rightarrow> bytes" where
  "pad_octets n = replicate (unat n) 0"

definition length_octet :: "u8 \<Rightarrow> bytes" where
  "length_octet n = (if n \<noteq> 0 then [n] else [])"

definition setting_octets :: "Setting \<Rightarrow> bytes" where
  "setting_octets s = octets16 (set_ID s) @ octets32 (set_Val s)"

definition priority_octets :: "PriorityParam \<Rightarrow> bytes" where
  "priority_octets p = octets32 (dependency_word p) @ [Weight p]"

primrec call_type :: "write_call \<Rightarrow> FrameType" where
  "call_type (CallData i e d pad) = FrameData"
| "call_type (CallHeaders p) = FrameHeaders"
| "call_type (CallPriority i p) = FramePriority"
| "call_type (CallRSTStream i c) = FrameRSTStream"
| "call_type (CallSettings ss) = FrameSettings"
| "call_type CallSettingsAck = FrameSettings"
| "call_type (CallPushPromise p) = FramePushPromise"
| "call_type (CallPing ack d) = FramePing"
| "call_type (CallGoAway i c d) = FrameGoAway"
| "call_type (CallWindowUpdate i n) = FrameWindowUpdate"
| "call_type (CallContinuation i e b) = FrameContinuation"
| "call_type (CallRawFrame t fl i p) = t"

primrec call_flags :: "write_call \<Rightarrow> Flags" where
  "call_flags (CallData i e d pad) = flag_if e FlagDataEndStream OR flag_if (pad \<noteq> None) FlagDataPadded"
| "call_flags (CallHeaders p) =
     flag_if (hp_PadLength p \<noteq> 0) FlagHeadersPadded OR flag_if (hp_EndStream p) FlagHeadersEndStream OR
     flag_if (hp_EndHeaders p) FlagHeadersEndHeaders OR flag_if (\<not> PriorityParam_IsZero (hp_Priority p)) FlagHeadersPriority"
| "call_flags (CallPriority i p) = 0"
| "call_flags (CallRSTStream i c) = 0"
| "call_flags (CallSettings ss) = 0"
| "call_flags CallSettingsAck = FlagSettingsAck"
| "call_flags (CallPushPromise p) =
     flag_if (pq_PadLength p \<noteq> 0) FlagPushPromisePadded OR flag_if (pq_EndHeaders p) FlagPushPromiseEndHeaders"
| "call_flags (CallPing ack d) = flag_if ack FlagPingAck"
| "call_flags (CallGoAway i c d) = 0"
| "call_flags (CallWindowUpdate i n) = 0"
| "call_flags (CallContinuation i e b) = flag_if e FlagContinuationEndHeaders"
| "call_flags (CallRawFrame t fl i p) = fl"

primrec call_stream :: "write_call \<Rightarrow> u32" where
  "call_stream (CallData i e d pad) = i"
| "call_stream (CallHeaders p) = hp_StreamID p"
| "call_stream (CallPriority i p) = i"
| "call_stream (CallRSTStream i c) = i"
| "call_stream (CallSettings ss) = 0"
| "call_stream CallSettingsAck = 0"
| "call_stream (CallPushPromise p) = pq_StreamID p"
| "call_stream (CallPing ack d) = 0"
| "call_stream (CallGoAway i c d) = 0"
| "call_stream (CallWindowUpdate i n) = i"
| "call_stream (CallContinuation i e b) = i"
| "call_stream (CallRawFrame t fl i p) = i"

primrec call_payload :: "write_call \<Rightarrow> bytes" where
  "call_payload (CallData i e d pad) = (case pad of None \<Rightarrow> d | Some ps \<Rightarrow> of_nat (length ps) # d @ ps)"
| "call_payload (CallHeaders p) =
     length_octet (hp_PadLength p) @
     (if PriorityParam_IsZero (hp_Priority p) then [] else priority_octets (hp_Priority p)) @
     hp_BlockFragment p @ pad_octets (hp_PadLength p)"
| "call_payload (CallPriority i p) = priority_octets p"
| "call_payload (CallRSTStream i c) = octets32 c"
| "call_payload (CallSettings ss) = concat (map setting_octets ss)"
| "call_payload CallSettingsAck = []"
| "call_payload (CallPushPromise p) =
     length_octet (pq_PadLength p) @ octets32 (pq_PromiseID p) @ pq_BlockFragment p @ pad_octets (pq_PadLength p)"
| "call_payload (CallPing ack d) = d"
| "call_payload (CallGoAway i c d) = octets32 (i AND 0x7fffffff) @ octets32 c @ d"
| "call_payload (CallWindowUpdate i n) = octets32 n"
| "call_payload (CallContinuation i e b) = b"
| "call_payload (CallRawFrame t fl i p) = p"

definition call_wire :: "write_call \<Rightarrow> bytes" where
  "call_wire c = frame_wire (call_type c) (call_flags c) (call_stream c) (call_payload c)"

definition call_header :: "write_call \<Rightarrow> FrameHeader" where
  "call_header c = frame_header (call_type c) (call_flags c) (call_stream c) (length (call_payload c))"

text \<open>The frame that the other end should see.\<close>

fun call_frame :: "write_call \<Rightarrow> Frame" where
  "call_frame (CallData i e d pad) = DataFrame (call_header (CallData i e d pad)) d"
| "call_frame (CallHeaders p) = HeadersFrame (call_header (CallHeaders p)) (hp_Priority p) (hp_BlockFragment p)"
| "call_frame (CallPriority i p) = PriorityFrame (call_header (CallPriority i p)) p"
| "call_frame (CallRSTStream i c) = RSTStreamFrame (call_header (CallRSTStream i c)) c"
| "call_frame (CallSettings ss) = SettingsFrame (call_header (CallSettings ss)) (concat (map setting_octets ss))"
| "call_frame CallSettingsAck = SettingsFrame (call_header CallSettingsAck) []"
| "call_frame (CallPushPromise p) =
     PushPromiseFrame (call_header (CallPushPromise p)) (pq_PromiseID p) (pq_BlockFragment p)"
| "call_frame (CallPing ack d) = PingFrame (call_header (CallPing ack d)) d"
| "call_frame (CallGoAway i c d) = GoAwayFrame (call_header (CallGoAway i c d)) (i AND 0x7fffffff) c d"
| "call_frame (CallWindowUpdate i n) = WindowUpdateFrame (call_header (CallWindowUpdate i n)) n"
| "call_frame (CallContinuation i e b) = ContinuationFrame (call_header (CallContinuation i e b)) b"
| "call_frame (CallRawFrame t fl i p) = UnknownFrame (call_header (CallRawFrame t fl i p)) p"

text \<open>What the writing methods check of their arguments.\<close>

fun call_allowed :: "write_call \<Rightarrow> bool" where
  "call_allowed (CallData i e d pad) \<longleftrightarrow>
     validStreamID i \<and> (case pad of None \<Rightarrow> True | Some ps \<Rightarrow> length ps \<le> 255 \<and> (\<forall>b \<in> set ps. b = 0))"
| "call_allowed (CallHeaders p) \<longleftrightarrow> validStreamID (hp_StreamID p) \<and> validStreamIDOrZero (StreamDep (hp_Priority p))"
| "call_allowed (CallPriority i p) \<longleftrightarrow> validStreamID i \<and> validStreamIDOrZero (StreamDep p)"
| "call_allowed (CallRSTStream i c) \<longleftrightarrow> validStreamID i"
| "call_allowed (CallPushPromise p) \<longleftrightarrow> validStreamID (pq_StreamID p) \<and> validStreamID (pq_PromiseID p)"
| "call_allowed (CallWindowUpdate i n) \<longleftrightarrow> 1 \<le> n \<and> n \<le> 2147483647"
| "call_allowed (CallContinuation i e b) \<longleftrightarrow> validStreamID i"
| "call_allowed _ \<longleftrightarrow> True"

lemma fold_settings_wbuf:
  "fold (\<lambda>s f. writeUint32 (set_Val s) (writeUint16 (set_ID s) f)) ss f =
     f\<lparr>fr_wbuf := fr_wbuf f @ concat (map setting_octets ss)\<rparr>"
  by (induction ss arbitrary: f) (simp_all add: writeUint32_def writeUint16_def setting_octets_def octets16_def octets32_def)

lemma WriteSettings_alt:
  "Framer_WriteSettings w ss f =
     endWrite w (f\<lparr>fr_wbuf := [0, 0, 0, FrameSettings, 0, 0, 0, 0, 0] @ concat (map setting_octets ss)\<rparr>)"
  unfolding Framer_WriteSettings_def fold_settings_wbuf by (simp add: startWrite_def)

lemmas write_defs = WriteDataPadded_def Framer_WriteHeaders_def Framer_WritePriority_def Framer_WriteRSTStream_def
  WriteSettings_alt Framer_WriteSettingsAck_def Framer_WritePushPromise_def Framer_WritePing_def
  Framer_WriteGoAway_def Framer_WriteWindowUpdate_def Framer_WriteContinuation_def Framer_WriteRawFrame_def
  writeByte_def writeBytes_def writeUint32_def writeUint16_def startWrite_def Let_def

text \<open>An allowed call makes exactly one call of the underlying writer, with the frame.\<close>

lemma do_call_endWrite:
  assumes "call_allowed c"
  shows "do_call w c f = endWrite w (f\<lparr>fr_wbuf := [0, 0, 0, call_type c, call_flags c] @ octets32 (call_stream c) @ call_payload c\<rparr>)"
  using assms
  by (cases c) (auto simp: write_defs octets32_def octets16_def length_octet_def pad_octets_def priority_octets_def
    validStreamID_def validStreamIDOrZero_def not_le not_less
    split: option.split)

lemma do_call_writes:
  assumes "call_allowed c" "length (call_payload c) < 2 ^ 24" "w (call_wire c) = (int (length (call_wire c)), None)"
  shows "do_call w c f = (None, f\<lparr>fr_wbuf := call_wire c, fr_w := fr_w f @ [call_wire c]\<rparr>)"
proof -
  have "int (length (call_wire c)) = int (length (call_payload c)) + 9"
    by (simp add: call_wire_def frame_wire_def)
  then show ?thesis
    using assms by (simp add: do_call_endWrite endWrite_wire [where t = "call_type c" and fl = "call_flags c" and i = "call_stream c"]
      call_wire_def)
qed

section \<open>Parsing what was written\<close>

text \<open>What the parser refuses although it can be written.\<close>

fun call_readable :: "write_call \<Rightarrow> bool" where
  "call_readable (CallHeaders p) \<longleftrightarrow> hp_BlockFragment p \<noteq> []"
| "call_readable (CallSettings ss) \<longleftrightarrow>
     (case find (\<lambda>s. set_ID s = SettingInitialWindowSize) ss of None \<Rightarrow> True | Some s \<Rightarrow> set_Val s \<le> 0x7fffffff)"
| "call_readable (CallPing ack d) \<longleftrightarrow> length d = 8"
| "call_readable (CallWindowUpdate i n) \<longleftrightarrow> validStreamIDOrZero i"
| "call_readable (CallRawFrame t fl i p) \<longleftrightarrow> 9 < t \<and> validStreamIDOrZero i"
| "call_readable _ \<longleftrightarrow> True"

lemma settings_Value_octets:
  "settings_Value (concat (map setting_octets ss)) i = Inr (map_option set_Val (find (\<lambda>s. set_ID s = i) ss))"
  by (induction ss) (simp_all add: setting_octets_def octets16_def octets32_def be_uint16_octets be_uint32_octets)

lemma length_settings [simp]: "length (concat (map setting_octets ss)) = 6 * length ss"
  by (induction ss) (simp_all add: setting_octets_def)

lemma flag_bits [simp]:
  "Flags_Has (flag_if a FlagDataEndStream OR flag_if b FlagDataPadded) FlagDataPadded = b"
  "Flags_Has (flag_if a FlagPushPromisePadded OR flag_if b FlagPushPromiseEndHeaders) FlagPushPromisePadded = a"
  by (simp_all add: Flags_Has_def flag_if_def go_defs)

lemma headers_flag_bits [simp]:
  "Flags_Has (flag_if a FlagHeadersPadded OR flag_if b FlagHeadersEndStream OR flag_if c FlagHeadersEndHeaders OR
     flag_if d FlagHeadersPriority) FlagHeadersPadded = a"
  "Flags_Has (flag_if a FlagHeadersPadded OR flag_if b FlagHeadersEndStream OR flag_if c FlagHeadersEndHeaders OR
     flag_if d FlagHeadersPriority) FlagHeadersPriority = d"
  by (simp_all add: Flags_Has_def flag_if_def go_defs)

lemma dependency_word_bits:
  assumes "validStreamIDOrZero (StreamDep p)"
  shows "take_bit 31 (dependency_word p) = StreamDep p" "(dependency_word p \<noteq> StreamDep p) = Exclusive p"
proof -
  have b: "\<not> bit (StreamDep p) 31"
    using assms by (simp add: validStreamIDOrZero_def and_bit31)
  have "take_bit 31 (StreamDep p OR 0x80000000) = take_bit 31 (StreamDep p)"
    by (simp add: take_bit_or)
  then show "take_bit 31 (dependency_word p) = StreamDep p"
    using b by (simp add: dependency_word_def take_bit_31_id)
  have "bit (0x80000000 :: u32) 31"
    by simp
  then have "bit (StreamDep p OR 0x80000000) 31"
    by (simp add: bit_or_iff)
  then have "StreamDep p OR 0x80000000 \<noteq> StreamDep p"
    using b by metis
  then show "(dependency_word p \<noteq> StreamDep p) = Exclusive p"
    by (simp add: dependency_word_def)
qed

lemma valid_id_bits: "validStreamID i \<Longrightarrow> take_bit 31 i = i \<and> i \<noteq> 0" "validStreamIDOrZero i \<Longrightarrow> take_bit 31 i = i"
  by (simp_all add: validStreamID_def validStreamIDOrZero_def and_bit31 take_bit_31_id)

lemmas parse_defs = parseDataFrame_def parseHeadersFrame_def parsePriorityFrame_def parseRSTStreamFrame_def
  parseSettingsFrame_def parsePushPromise_def parsePingFrame_def parseGoAwayFrame_def parseWindowUpdateFrame_def
  parseContinuationFrame_def parseUnknownFrame_def

lemmas frame_types = FrameData_def FrameHeaders_def FramePriority_def FrameRSTStream_def FrameSettings_def
  FramePushPromise_def FramePing_def FrameGoAway_def FrameWindowUpdate_def FrameContinuation_def

lemma parse_data_wire:
  assumes "call_allowed (CallData i e d pad)"
  shows "parseDataFrame (call_header (CallData i e d pad)) (call_payload (CallData i e d pad)) = Inr (call_frame (CallData i e d pad))"
proof (cases pad)
  case None
  then show ?thesis
    using assms valid_id_bits(1) [of i]
    by (simp add: parseDataFrame_def call_header_def frame_header_def slice_to_def)
next
  case (Some ps)
  then have "uint (of_nat (length ps) :: u8) = int (length ps)"
    using assms by (simp add: uint_nat unat_of_nat)
  then show ?thesis
    using Some assms valid_id_bits(1) [of i]
    by (simp add: parseDataFrame_def call_header_def frame_header_def slice_to_def)
qed

lemma frame_readUint32_octets [simp]: "frame_readUint32 (octets32 v @ r) = Inr (r, v)"
  by (simp add: frame_readUint32_def)

lemma read_priority_octets:
  assumes "validStreamIDOrZero (StreamDep p)"
  shows "read_priority (priority_octets p @ r) = Inr (r, p)"
  using dependency_word_bits [OF assms]
  by (cases p) (simp add: read_priority_def priority_octets_def Let_def)

lemma parse_headers_wire:
  assumes "call_allowed (CallHeaders p)" "hp_BlockFragment p \<noteq> []"
  shows "parseHeadersFrame (call_header (CallHeaders p)) (call_payload (CallHeaders p)) = Inr (call_frame (CallHeaders p))"
proof -
  let ?body = "hp_BlockFragment p @ pad_octets (hp_PadLength p)"
  let ?prio = "if PriorityParam_IsZero (hp_Priority p) then [] else priority_octets (hp_Priority p)"
  have len: "int (length ?body) - int (unat (hp_PadLength p)) = int (length (hp_BlockFragment p))"
    by (simp add: pad_octets_def)
  have pos: "\<not> int (length ?body) \<le> int (unat (hp_PadLength p))"
    using assms(2) by (simp add: pad_octets_def)
  have pr: "(if \<not> PriorityParam_IsZero (hp_Priority p) then read_priority (?prio @ ?body) else Inr (?prio @ ?body, zero_priority)) =
      (Inr (?body, hp_Priority p) :: 'a http2_error + bytes \<times> PriorityParam)"
    using assms(1) by (simp add: PriorityParam_IsZero_def zero_priority_def read_priority_octets)
  have pd: "(if hp_PadLength p \<noteq> 0 then frame_readByte (length_octet (hp_PadLength p) @ ?prio @ ?body)
      else Inr (length_octet (hp_PadLength p) @ ?prio @ ?body, 0)) = (Inr (?prio @ ?body, hp_PadLength p) :: 'a http2_error + bytes \<times> u8)"
    by (simp add: length_octet_def)
  have "slice_to ?body (int (length (hp_BlockFragment p))) = (Inr (hp_BlockFragment p) :: 'a http2_error + bytes)"
    by (simp add: slice_to_def)
  then show ?thesis
    using assms valid_id_bits(1) [of "hp_StreamID p"] len pos pd pr
    by (simp add: parseHeadersFrame_def call_header_def frame_header_def del: length_append)
qed

lemma parse_push_promise_wire:
  assumes "call_allowed (CallPushPromise p)"
  shows "parsePushPromise (call_header (CallPushPromise p)) (call_payload (CallPushPromise p)) = Inr (call_frame (CallPushPromise p))"
proof -
  let ?body = "pq_BlockFragment p @ pad_octets (pq_PadLength p)"
  have len: "\<not> int (unat (pq_PadLength p)) > int (length ?body)"
    "int (length ?body) - int (unat (pq_PadLength p)) = int (length (pq_BlockFragment p))"
    by (simp_all add: pad_octets_def)
  have pd: "(if pq_PadLength p \<noteq> 0 then frame_readByte (length_octet (pq_PadLength p) @ r)
      else Inr (length_octet (pq_PadLength p) @ r, 0)) = (Inr (r, pq_PadLength p) :: 'a http2_error + bytes \<times> u8)" for r
    by (simp add: length_octet_def)
  have "slice_to ?body (int (length (pq_BlockFragment p))) = (Inr (pq_BlockFragment p) :: 'a http2_error + bytes)"
    by (simp add: slice_to_def)
  then show ?thesis
    using assms valid_id_bits(1) [of "pq_StreamID p"] valid_id_bits(1) [of "pq_PromiseID p"] len pd
    by (simp add: parsePushPromise_def call_header_def frame_header_def del: length_append)
qed

lemma parse_settings_wire:
  assumes "call_readable (CallSettings ss)" "length (call_payload (CallSettings ss)) < 2 ^ 24"
  shows "parseSettingsFrame (call_header (CallSettings ss)) (call_payload (CallSettings ss)) = Inr (call_frame (CallSettings ss))"
  using assms
  by (auto simp: parseSettingsFrame_def call_header_def frame_header_def SettingsFrame_Value_def checkValid_def
    settings_Value_octets Flags_Has_def FlagSettingsAck_def split: option.splits)

lemma parse_wire:
  assumes "call_allowed c" "call_readable c" "length (call_payload c) < 2 ^ 24"
  shows "typeFrameParser (call_type c) (call_header c) (call_payload c) = Inr (call_frame c)"
proof (cases c)
  case (CallData i e d pad)
  then show ?thesis
    using parse_data_wire assms(1) by (simp add: typeFrameParser_def)
next
  case (CallHeaders p)
  then show ?thesis
    using parse_headers_wire [of p] assms(1,2) by (simp add: typeFrameParser_def frame_types del: call_payload.simps call_frame.simps)
next
  case (CallPriority i p)
  then show ?thesis
    using assms(1) dependency_word_bits [of p] valid_id_bits(1) [of i]
    by (cases p) (auto simp: typeFrameParser_def frame_types parsePriorityFrame_def call_header_def frame_header_def
      priority_octets_def nth_append Let_def)
next
  case (CallRSTStream i c)
  then show ?thesis
    using assms(1) valid_id_bits(1) [of i]
    by (simp add: typeFrameParser_def frame_types parseRSTStreamFrame_def call_header_def frame_header_def)
next
  case (CallSettings ss)
  then show ?thesis
    using parse_settings_wire [of ss] assms(2,3) by (simp add: typeFrameParser_def frame_types del: call_payload.simps call_frame.simps)
next
  case CallSettingsAck
  then show ?thesis
    by (simp add: typeFrameParser_def frame_types parseSettingsFrame_def call_header_def frame_header_def
      SettingsFrame_Value_def checkValid_def)
next
  case (CallPushPromise p)
  then show ?thesis
    using parse_push_promise_wire [of p] assms(1) by (simp add: typeFrameParser_def frame_types del: call_payload.simps call_frame.simps)
next
  case (CallPing ack d)
  then show ?thesis
    using assms(2) by (simp add: typeFrameParser_def frame_types parsePingFrame_def call_header_def frame_header_def)
next
  case (CallGoAway i c d)
  have "drop 4 (octets32 x @ r) = r" "drop 8 (octets32 x @ octets32 y @ r) = r" for x y r
    by (simp_all add: octets32_def)
  then show ?thesis
    using CallGoAway by (simp add: typeFrameParser_def frame_types parseGoAwayFrame_def call_header_def frame_header_def)
next
  case (CallWindowUpdate i n)
  have "take_bit 31 n = n" "n \<noteq> 0"
    using assms(1) CallWindowUpdate by (auto simp: take_bit_31_small)
  then show ?thesis
    using CallWindowUpdate assms(1,2) valid_id_bits(2) [of i]
    by (auto simp: typeFrameParser_def frame_types parseWindowUpdateFrame_def call_header_def frame_header_def Let_def)
next
  case (CallContinuation i e b)
  then show ?thesis
    using assms(1) valid_id_bits(1) [of i]
    by (simp add: typeFrameParser_def frame_types parseContinuationFrame_def call_header_def frame_header_def)
next
  case (CallRawFrame t fl i p)
  then show ?thesis
    using assms(2) by (auto simp: typeFrameParser_def frame_types parseUnknownFrame_def)
qed

section \<open>Reading what was written\<close>

lemma call_header_sel [simp]:
  "fh_Type (call_header c) = call_type c" "fh_Flags (call_header c) = call_flags c" "fh_valid (call_header c)"
  "length (call_payload c) < 2 ^ 24 \<Longrightarrow> unat (fh_Length (call_header c)) = length (call_payload c)"
  by (simp_all add: call_header_def frame_header_def unat_of_nat)

lemma call_frame_header [simp]: "Frame_Header (call_frame c) = call_header c"
  by (cases c) simp_all

definition before_read :: "'e Framer \<Rightarrow> 'e Framer" where
  "before_read g = g\<lparr>fr_errDetail := None, fr_lastFrame := map_option Frame_invalidate (fr_lastFrame g)\<rparr>"

lemma read_call:
  assumes "call_allowed c" "call_readable c" "length (call_payload c) < 2 ^ 24" "length (call_payload c) \<le> unat (fr_maxReadSize g)"
    and "rd_data (fr_r g) = call_wire c @ rest"
  shows "read_frame g =
    (case checkFrameOrder (call_frame c) ((before_read g)\<lparr>fr_r := (fr_r g)\<lparr>rd_data := rest\<rparr>\<rparr>) of
       (Some e, fr) \<Rightarrow> (Inl e, fr) | (None, fr) \<Rightarrow> (Inr (call_frame c), fr))"
proof -
  let ?r = "(fr_r g)\<lparr>rd_data := call_payload c @ rest\<rparr>"
  have "readFrameHeader (fr_r g) = (Inr (call_header c), ?r)"
    using readFrameHeader_wire [of "fr_r g"] assms(3,5) by (simp add: call_wire_def call_header_def)
  moreover have "\<not> fh_Length (call_header c) > fr_maxReadSize g"
    using assms(3,4) by (simp add: word_less_nat_alt)
  moreover have "io_ReadFull (length (call_payload c)) ?r = (Inr (call_payload c), (fr_r g)\<lparr>rd_data := rest\<rparr>)"
    by (simp add: io_ReadFull_def)
  ultimately show ?thesis
    using assms(3) by (simp add: read_frame_def before_read_def Let_def parse_wire [OF assms(1-3)])
qed

text \<open>The calls whose frames may follow one another: header blocks are contiguous.  The argument is the stream of the
  unfinished header block, or 0.\<close>

definition block_after :: "FrameHeader \<Rightarrow> u32 \<Rightarrow> u32" where
  "block_after fh i =
     (if fh_Type fh = FrameHeaders \<or> fh_Type fh = FrameContinuation
      then (if Flags_Has (fh_Flags fh) FlagHeadersEndHeaders then 0 else fh_StreamID fh) else i)"

definition may_follow :: "u32 \<Rightarrow> FrameHeader \<Rightarrow> bool" where
  "may_follow i fh \<longleftrightarrow> (if i \<noteq> 0 then fh_Type fh = FrameContinuation \<and> fh_StreamID fh = i else fh_Type fh \<noteq> FrameContinuation)"

fun in_order :: "u32 \<Rightarrow> FrameHeader list \<Rightarrow> bool" where
  "in_order i [] \<longleftrightarrow> True"
| "in_order i (fh # fhs) \<longleftrightarrow> may_follow i fh \<and> in_order (block_after fh i) fhs"

lemma checkFrameOrder_legal:
  fixes fr :: "'e Framer"
  assumes "\<not> fr_AllowIllegalReads fr" "may_follow (fr_lastHeaderStream fr) (Frame_Header f)"
  shows "checkFrameOrder f fr =
    (None, fr\<lparr>fr_lastFrame := Some f, fr_lastHeaderStream := block_after (Frame_Header f) (fr_lastHeaderStream fr)\<rparr>)"
proof -
  have "order_error (Frame_Header f) (fr_lastFrame fr) (fr_lastHeaderStream fr) = (Inr None :: 'e http2_error + string option)"
    using assms(2) by (auto simp: order_error_def may_follow_def split: if_splits)
  then show ?thesis
    using assms(1) by (simp add: checkFrameOrder_def block_after_def Let_def)
qed

lemma checkFrameOrder_illegal:
  assumes "\<not> fr_AllowIllegalReads fr" "\<not> may_follow (fr_lastHeaderStream fr) (Frame_Header f)"
    "fr_lastHeaderStream fr \<noteq> 0 \<longrightarrow> fr_lastFrame fr \<noteq> None"
  shows "\<exists>reason. checkFrameOrder f fr =
    (Some (ConnectionError ErrCodeProtocol), fr\<lparr>fr_lastFrame := Some f, fr_errDetail := Some (Reason reason)\<rparr>)"
  using assms
  by (auto simp: checkFrameOrder_def order_error_def may_follow_def Framer_connError_def Let_def split: if_splits option.splits)

text \<open>
  A run of reads: the results of \<open>n\<close> calls, or fewer when one returns a terminal error.
\<close>

fun read_run :: "nat \<Rightarrow> 'e Framer \<Rightarrow> ('e http2_error + Frame) list \<times> 'e Framer" where
  "read_run 0 fr = ([], fr)"
| "read_run (Suc n) fr =
     (case read_frame fr of
        (Inl e, fr1) \<Rightarrow>
          if terminalReadFrameError (Some e) then ([Inl e], fr1)
          else (case read_run n fr1 of (rs, fr2) \<Rightarrow> (Inl e # rs, fr2))
      | (Inr f, fr1) \<Rightarrow> (case read_run n fr1 of (rs, fr2) \<Rightarrow> (Inr f # rs, fr2)))"

fun write_run :: "'e write_result \<Rightarrow> write_call list \<Rightarrow> 'e Framer \<Rightarrow> 'e http2_error option list \<times> 'e Framer" where
  "write_run w [] f = ([], f)"
| "write_run w (c # cs) f =
     (case do_call w c f of (e, f1) \<Rightarrow> (case write_run w cs f1 of (es, f2) \<Rightarrow> (e # es, f2)))"

definition call_legal :: "write_call \<Rightarrow> bool" where
  "call_legal c \<longleftrightarrow> call_allowed c \<and> call_readable c \<and> length (call_payload c) < 2 ^ 24"

lemma write_run_calls:
  assumes "\<forall>c \<in> set cs. call_legal c" "\<forall>b. w b = (int (length b), None)"
  shows "\<exists>f'. write_run w cs f = (replicate (length cs) None, f') \<and> fr_w f' = fr_w f @ map call_wire cs"
  using assms(1)
proof (induction cs arbitrary: f)
  case (Cons c cs)
  have "do_call w c f = (None, f\<lparr>fr_wbuf := call_wire c, fr_w := fr_w f @ [call_wire c]\<rparr>)"
    using do_call_writes [of c w f] Cons.prems assms(2) by (simp add: call_legal_def)
  then show ?case
    using Cons.IH [of "f\<lparr>fr_wbuf := call_wire c, fr_w := fr_w f @ [call_wire c]\<rparr>"] Cons.prems by auto
qed simp

lemma read_run_calls:
  assumes "\<forall>c \<in> set cs. call_legal c \<and> length (call_payload c) \<le> unat (fr_maxReadSize g)"
    "in_order (fr_lastHeaderStream g) (map call_header cs)" "\<not> fr_AllowIllegalReads g"
    "rd_data (fr_r g) = concat (map call_wire cs) @ rest"
  shows "\<exists>g'. read_run (length cs) g = (map (\<lambda>c. Inr (call_frame c)) cs, g') \<and> fr_r g' = (fr_r g)\<lparr>rd_data := rest\<rparr>"
  using assms
proof (induction cs arbitrary: g)
  case Nil
  then show ?case by simp
next
  case (Cons c cs)
  let ?g = "(before_read g)\<lparr>fr_r := (fr_r g)\<lparr>rd_data := concat (map call_wire cs) @ rest\<rparr>,
    fr_lastFrame := Some (call_frame c), fr_lastHeaderStream := block_after (call_header c) (fr_lastHeaderStream g)\<rparr>"
  have "read_frame g = (Inr (call_frame c), ?g)"
    using Cons.prems read_call [of c g "concat (map call_wire cs) @ rest"]
    by (simp add: call_legal_def checkFrameOrder_legal before_read_def)
  then show ?case
    using Cons.IH [of ?g] Cons.prems by (auto simp: before_read_def)
qed

end
