(* ===== verification/HTTP2_Frame_Properties.thy ===== *)
theory HTTP2_Frame_Properties
  imports HTTP2_Frame_Roundtrip
begin

text \<open>
  The properties of the framer: frames come back as they were written, no input makes it panic
  or return a malformed frame, and the header blocks it returns are contiguous.
\<close>

section \<open>Round trip\<close>

lemma NewFramer_sel [simp]:
  "fr_w (NewFramer ws r) = ws" "fr_lastHeaderStream (NewFramer ws r) = 0" "\<not> fr_AllowIllegalReads (NewFramer ws r)"
  "fr_r (NewFramer ws r) = r" "fr_maxReadSize (NewFramer ws r) = 0xffffff" "fr_lastFrame (NewFramer ws r) = None"
  by (simp_all add: NewFramer_def SetMaxReadFrameSize_def frame_maxFrameSize_def)

text \<open>
  C25.  Frames come back as they were written: after any sequence of calls of the writing
  methods with arguments the reader accepts and with contiguous header blocks, over a writer that
  takes all it is given, each call has made exactly one call of the writer, and a new framer that
  reads the octets returns exactly these frames in order and leaves nothing.
\<close>

theorem frames_roundtrip:
  assumes "\<forall>c \<in> set cs. call_legal c" "in_order 0 (map call_header cs)" "\<forall>b. w b = (int (length b), None)"
  shows "\<exists>f' g'. write_run w cs (NewFramer [] r) = (replicate (length cs) None, f') \<and> length (fr_w f') = length cs \<and>
    read_run (length cs) (NewFramer [] \<lparr>rd_data = concat (fr_w f'), rd_end = e\<rparr>) = (map (\<lambda>c. Inr (call_frame c)) cs, g') \<and>
    rd_data (fr_r g') = []"
proof -
  obtain f' where f': "write_run w cs (NewFramer [] r) = (replicate (length cs) None, f')" "fr_w f' = map call_wire cs"
    using write_run_calls [OF assms(1,3), of "NewFramer [] r"] by auto
  let ?g = "NewFramer [] \<lparr>rd_data = concat (fr_w f'), rd_end = e\<rparr>"
  have "\<exists>g'. read_run (length cs) ?g = (map (\<lambda>c. Inr (call_frame c)) cs, g') \<and> fr_r g' = (fr_r ?g)\<lparr>rd_data := []\<rparr>"
    by (rule read_run_calls) (use assms(1,2) f'(2) in \<open>auto simp: call_legal_def\<close>)
  then show ?thesis
    using f' by auto
qed

definition sample_calls :: "write_call list" where
  "sample_calls =
    [CallSettings [\<lparr>set_ID = SettingInitialWindowSize, set_Val = 65535\<rparr>],
     CallHeaders \<lparr>hp_StreamID = 3, hp_BlockFragment = [0x82], hp_EndStream = False, hp_EndHeaders = False, hp_PadLength = 2,
       hp_Priority = \<lparr>StreamDep = 1, Exclusive = True, Weight = 7\<rparr>\<rparr>,
     CallContinuation 3 True [0x86],
     CallData 3 True [1, 2, 3] (Some [0])]"

lemma sample_calls_ok:
  "\<forall>c \<in> set sample_calls. call_legal c" "in_order 0 (map call_header sample_calls)" "length sample_calls = 4"
  by (simp_all add: sample_calls_def call_legal_def validStreamID_def validStreamIDOrZero_def length_octet_def pad_octets_def
    priority_octets_def PriorityParam_IsZero_def setting_octets_def may_follow_def block_after_def call_header_def
    frame_header_def go_defs flag_if_def Flags_Has_def)

theorem frames_roundtrip_witness:
  "\<exists>f' g'. write_run (\<lambda>b. (int (length b), None)) sample_calls (NewFramer [] \<lparr>rd_data = [], rd_end = None :: nat option\<rparr>) =
      (replicate 4 None, f') \<and> length (fr_w f') = 4 \<and>
    read_run 4 (NewFramer [] \<lparr>rd_data = concat (fr_w f'), rd_end = None :: nat option\<rparr>) =
      (map (\<lambda>c. Inr (call_frame c)) sample_calls, g')"
  using frames_roundtrip [of sample_calls "\<lambda>b. (int (length b), None :: nat option)" "\<lparr>rd_data = [], rd_end = None\<rparr>" None]
    sample_calls_ok by auto

section \<open>What the reader returns\<close>

text \<open>A frame that conforms to its type: the checks of RFC 7540 that do not depend on the connection.\<close>

definition id31 :: "u32 \<Rightarrow> bool" where
  "id31 i \<longleftrightarrow> take_bit 31 i = i"

fun first_setting :: "bytes \<Rightarrow> SettingID \<Rightarrow> u32 option" where
  "first_setting (b0 # b1 # b2 # b3 # b4 # b5 # buf) s =
     (if be_uint16 b0 b1 = s then Some (be_uint32 b2 b3 b4 b5) else first_setting buf s)"
| "first_setting buf s = None"

fun body_ok :: "Frame \<Rightarrow> bool" where
  "body_ok (DataFrame h d) \<longleftrightarrow> fh_Type h = FrameData \<and> fh_StreamID h \<noteq> 0 \<and> length d \<le> unat (fh_Length h)"
| "body_ok (HeadersFrame h p b) \<longleftrightarrow> fh_Type h = FrameHeaders \<and> fh_StreamID h \<noteq> 0 \<and> id31 (StreamDep p) \<and> b \<noteq> [] \<and>
     length b \<le> unat (fh_Length h)"
| "body_ok (PriorityFrame h p) \<longleftrightarrow> fh_Type h = FramePriority \<and> fh_StreamID h \<noteq> 0 \<and> id31 (StreamDep p) \<and> fh_Length h = 5"
| "body_ok (RSTStreamFrame h c) \<longleftrightarrow> fh_Type h = FrameRSTStream \<and> fh_StreamID h \<noteq> 0 \<and> fh_Length h = 4"
| "body_ok (SettingsFrame h p) \<longleftrightarrow> fh_Type h = FrameSettings \<and> fh_StreamID h = 0 \<and> length p mod 6 = 0 \<and>
     length p = unat (fh_Length h) \<and> (Flags_Has (fh_Flags h) FlagSettingsAck \<longrightarrow> p = []) \<and>
     (\<forall>v. first_setting p SettingInitialWindowSize = Some v \<longrightarrow> v \<le> 0x7fffffff)"
| "body_ok (PushPromiseFrame h i b) \<longleftrightarrow> fh_Type h = FramePushPromise \<and> fh_StreamID h \<noteq> 0 \<and> id31 i \<and>
     length b \<le> unat (fh_Length h)"
| "body_ok (PingFrame h d) \<longleftrightarrow> fh_Type h = FramePing \<and> fh_StreamID h = 0 \<and> length d = 8"
| "body_ok (GoAwayFrame h i c d) \<longleftrightarrow> fh_Type h = FrameGoAway \<and> fh_StreamID h = 0 \<and> id31 i \<and> length d + 8 = unat (fh_Length h)"
| "body_ok (WindowUpdateFrame h n) \<longleftrightarrow> fh_Type h = FrameWindowUpdate \<and> id31 n \<and> n \<noteq> 0"
| "body_ok (ContinuationFrame h b) \<longleftrightarrow> fh_Type h = FrameContinuation \<and> fh_StreamID h \<noteq> 0 \<and> length b = unat (fh_Length h)"
| "body_ok (UnknownFrame h p) \<longleftrightarrow> fh_Type h > 9 \<and> length p = unat (fh_Length h)"
| "body_ok (MetaFrame m) \<longleftrightarrow> False"

definition frame_ok :: "u32 \<Rightarrow> Frame \<Rightarrow> bool" where
  "frame_ok mx f \<longleftrightarrow>
     body_ok f \<and> fh_valid (Frame_Header f) \<and> id31 (fh_StreamID (Frame_Header f)) \<and> fh_Length (Frame_Header f) \<le> mx"

text \<open>A parser that gets a payload of the announced length does not panic and returns a frame of its type.\<close>

definition parses_ok :: "'e frameParser \<Rightarrow> FrameType \<Rightarrow> bool" where
  "parses_ok P t \<longleftrightarrow>
     (\<forall>fh p. fh_Type fh = t \<and> fh_valid fh \<and> id31 (fh_StreamID fh) \<and> length p = unat (fh_Length fh) \<longrightarrow>
        P fh p \<noteq> Inl Panic \<and> (\<forall>f. P fh p = Inr f \<longrightarrow> Frame_Header f = fh \<and> body_ok f))"

lemma id31_take_bit [simp]: "id31 (take_bit 31 v)"
  by (simp add: id31_def)

text \<open>The optional parts of a payload: the reader runs out of octets or leaves no more than it got.\<close>

definition shortens :: "nat \<Rightarrow> 'e http2_error + bytes \<times> 'a \<Rightarrow> bool" where
  "shortens n r \<longleftrightarrow> (case r of Inl e \<Rightarrow> e = IoUnexpectedEOF | Inr (q, x) \<Rightarrow> length q \<le> n)"

lemma shortens_byte: "shortens (length p) (if c then frame_readByte p else Inr (p, 0))"
  by (cases p) (simp_all add: shortens_def)

lemma shortens_Uint32: "shortens (length p) (frame_readUint32 p)"
  by (cases p rule: BigEndian_Uint32.cases) (simp_all add: frame_readUint32_def shortens_def)

lemma shortens_priority: "shortens (length p) (if c then read_priority p else Inr (p, zero_priority))"
  by (cases p rule: BigEndian_Uint32.cases; cases "drop 4 p")
    (auto simp: read_priority_def frame_readUint32_def shortens_def Let_def)

lemma priority_id31: "(if c then read_priority p else Inr (p, zero_priority)) = Inr (q, pr) \<Longrightarrow> id31 (StreamDep pr)"
  by (auto simp: read_priority_def zero_priority_def id31_def Let_def split: if_splits)

lemma slice_front:
  assumes "unat (k :: u8) \<le> length p"
  shows "slice_to p (int (length p) - int (unat k)) = Inr (take (length p - unat k) p)"
proof -
  have "slice_to p (int (length p) - int m) = Inr (take (length p - m) p)" if "m \<le> length p" for m
    using that by (simp add: slice_to_def nat_diff_distrib')
  then show ?thesis
    using assms by blast
qed

lemma parses_okI:
  assumes "\<And>fh p. fh_Type fh = t \<Longrightarrow> fh_valid fh \<Longrightarrow> id31 (fh_StreamID fh) \<Longrightarrow> length p = unat (fh_Length fh) \<Longrightarrow>
    P fh p \<noteq> Inl Panic \<and> (\<forall>f. P fh p = Inr f \<longrightarrow> Frame_Header f = fh \<and> body_ok f)"
  shows "parses_ok P t"
  using assms unfolding parses_ok_def by blast

lemmas parses_simps = shortens_def slice_front not_less not_le less_imp_le

lemma data_parses: "parses_ok (parseDataFrame :: 'e frameParser) FrameData"
proof (rule parses_okI)
  fix fh :: FrameHeader and p :: bytes
  assume a: "fh_Type fh = FrameData" "length p = unat (fh_Length fh)"
  obtain r :: "'e http2_error + bytes \<times> u8" where
    r: "(if Flags_Has (fh_Flags fh) FlagDataPadded then frame_readByte p else Inr (p, 0)) = r" "shortens (length p) r"
    using shortens_byte by blast
  show "(parseDataFrame fh p :: 'e http2_error + Frame) \<noteq> Inl Panic \<and>
      (\<forall>f. (parseDataFrame fh p :: 'e http2_error + Frame) = Inr f \<longrightarrow> Frame_Header f = fh \<and> body_ok f)"
    unfolding parseDataFrame_def r(1)
    using a r(2) by (cases r) (auto simp: parses_simps simp del: of_nat_unat split: if_split_asm)
qed

lemma headers_parses: "parses_ok (parseHeadersFrame :: 'e frameParser) FrameHeaders"
proof (rule parses_okI)
  fix fh :: FrameHeader and p :: bytes
  assume a: "fh_Type fh = FrameHeaders" "length p = unat (fh_Length fh)"
  let ?P = "parseHeadersFrame fh p :: 'e http2_error + Frame"
  obtain r :: "'e http2_error + bytes \<times> u8" where
    r: "(if Flags_Has (fh_Flags fh) FlagHeadersPadded then frame_readByte p else Inr (p, 0)) = r" "shortens (length p) r"
    using shortens_byte by blast
  show "?P \<noteq> Inl Panic \<and> (\<forall>f. ?P = Inr f \<longrightarrow> Frame_Header f = fh \<and> body_ok f)"
  proof (cases r)
    case (Inl e)
    then show ?thesis
      unfolding parseHeadersFrame_def r(1) using r(2) by (auto simp: parses_simps)
  next
    case (Inr x)
    obtain q b where x: "x = (q, b)" by (cases x)
    obtain y :: "'e http2_error + bytes \<times> PriorityParam" where
      y: "(if Flags_Has (fh_Flags fh) FlagHeadersPriority then read_priority q else Inr (q, zero_priority)) = y" "shortens (length q) y"
      using shortens_priority by blast
    have "id31 (StreamDep pr)" if "y = Inr (q', pr)" for q' pr
      using priority_id31 y(1) that by blast
    then show ?thesis
      unfolding parseHeadersFrame_def r(1) Inr x res_bind_simps prod.case y(1)
      using a r(2) y(2) Inr x
      by (cases y) (auto simp: parses_simps simp del: of_nat_unat split: if_split_asm, meson diff_le_self le_trans)
  qed
qed

lemma push_promise_parses: "parses_ok (parsePushPromise :: 'e frameParser) FramePushPromise"
proof (rule parses_okI)
  fix fh :: FrameHeader and p :: bytes
  assume a: "fh_Type fh = FramePushPromise" "length p = unat (fh_Length fh)"
  let ?P = "parsePushPromise fh p :: 'e http2_error + Frame"
  obtain r :: "'e http2_error + bytes \<times> u8" where
    r: "(if Flags_Has (fh_Flags fh) FlagPushPromisePadded then frame_readByte p else Inr (p, 0)) = r" "shortens (length p) r"
    using shortens_byte by blast
  show "?P \<noteq> Inl Panic \<and> (\<forall>f. ?P = Inr f \<longrightarrow> Frame_Header f = fh \<and> body_ok f)"
  proof (cases r)
    case (Inl e)
    then show ?thesis
      unfolding parsePushPromise_def r(1) using r(2) by (auto simp: parses_simps)
  next
    case (Inr x)
    obtain q b where x: "x = (q, b)" by (cases x)
    obtain y :: "'e http2_error + bytes \<times> u32" where y: "frame_readUint32 q = y" "shortens (length q) y"
      using shortens_Uint32 by blast
    then show ?thesis
      unfolding parsePushPromise_def r(1) Inr x res_bind_simps prod.case y(1)
      using a r(2) y(2) Inr x by (cases y) (auto simp: parses_simps simp del: of_nat_unat split: if_split_asm)
  qed
qed

lemma BigEndian_ok: "4 \<le> length p \<Longrightarrow> BigEndian_Uint32 p = Inr (be_uint32 (p ! 0) (p ! 1) (p ! 2) (p ! 3))"
  by (cases p rule: BigEndian_Uint32.cases) simp_all

lemma settings_Value_ok: "length p mod 6 = 0 \<Longrightarrow> settings_Value p s = Inr (first_setting p s)"
proof (induction p s rule: settings_Value.induct)
  case (2 b0 b1 b2 b3 b4 b5 buf s)
  have "length (b0 # b1 # b2 # b3 # b4 # b5 # buf) mod 6 = length buf mod 6"
    by simp
  then show ?case
    using 2 by simp
qed simp_all

lemma fixed_parses:
  "parses_ok parsePriorityFrame FramePriority" "parses_ok parseRSTStreamFrame FrameRSTStream" "parses_ok parsePingFrame FramePing"
  "parses_ok parseGoAwayFrame FrameGoAway" "parses_ok parseWindowUpdateFrame FrameWindowUpdate"
  "parses_ok parseContinuationFrame FrameContinuation"
  by (rule parses_okI, auto simp: parse_defs BigEndian_ok Let_def word_unat_eq_iff split: if_split_asm)+

lemma settings_parses: "parses_ok parseSettingsFrame FrameSettings"
proof (rule parses_okI)
  fix fh :: FrameHeader and p :: bytes
  assume a: "fh_Type fh = FrameSettings" "fh_valid fh" "length p = unat (fh_Length fh)"
  have len: "p = []" if "\<not> 0 < fh_Length fh"
    using that a(3) by (simp add: word_gt_0)
  show "parseSettingsFrame fh p \<noteq> Inl Panic \<and> (\<forall>f. parseSettingsFrame fh p = Inr f \<longrightarrow> Frame_Header f = fh \<and> body_ok f)"
  proof (cases "length p mod 6 = 0")
    case True
    then show ?thesis
      using a len
      by (auto simp: parseSettingsFrame_def SettingsFrame_Value_def checkValid_def not_less settings_Value_ok
        split: option.splits if_split_asm)
  qed (auto simp: parseSettingsFrame_def)
qed

lemma unknown_parses: "9 < t \<Longrightarrow> parses_ok parseUnknownFrame t"
  by (rule parses_okI) (auto simp: parseUnknownFrame_def)

lemma typeFrameParser_ok: "parses_ok (typeFrameParser t) t"
proof (cases "9 < t")
  case True
  then show ?thesis
    using unknown_parses by (auto simp: typeFrameParser_def frame_types)
next
  case False
  then have "unat t \<in> {0, 1, 2, 3, 4, 5, 6, 7, 8, 9}"
    by (auto simp: word_less_nat_alt)
  then have "t \<in> {0, 1, 2, 3, 4, 5, 6, 7, 8, 9}"
    by (simp add: word_unat_eq_iff)
  then show ?thesis
    using data_parses headers_parses push_promise_parses settings_parses fixed_parses
    by (auto simp: typeFrameParser_def frame_types)
qed

text \<open>One call of \<^verbatim>\<open>ReadFrame\<close>.\<close>

definition framer_inv :: "'e Framer \<Rightarrow> bool" where
  "framer_inv fr \<longleftrightarrow> (fr_lastHeaderStream fr \<noteq> 0 \<longrightarrow> fr_lastFrame fr \<noteq> None)"

definition read_error :: "'e Framer \<Rightarrow> 'e http2_error \<Rightarrow> 'e Framer \<Rightarrow> bool" where
  "read_error g e g' \<longleftrightarrow>
     e \<noteq> Panic \<and> framer_inv g' \<and> fr_lastHeaderStream g' = fr_lastHeaderStream g \<and> fr_maxReadSize g' = fr_maxReadSize g \<and>
     fr_AllowIllegalReads g' = fr_AllowIllegalReads g \<and> (\<exists>used. rd_data (fr_r g) = used @ rd_data (fr_r g'))"

definition frame_size :: "Frame \<Rightarrow> nat" where
  "frame_size f = 9 + unat (fh_Length (Frame_Header f))"

definition read_ok :: "'e Framer \<Rightarrow> Frame \<Rightarrow> 'e Framer \<Rightarrow> bool" where
  "read_ok g f g' \<longleftrightarrow>
     frame_ok (fr_maxReadSize g) f \<and> framer_inv g' \<and> fr_maxReadSize g' = fr_maxReadSize g \<and>
     fr_AllowIllegalReads g' = fr_AllowIllegalReads g \<and>
     (\<not> fr_AllowIllegalReads g \<longrightarrow> may_follow (fr_lastHeaderStream g) (Frame_Header f) \<and>
        fr_lastHeaderStream g' = block_after (Frame_Header f) (fr_lastHeaderStream g)) \<and>
     (\<exists>used. rd_data (fr_r g) = used @ rd_data (fr_r g') \<and> length used = frame_size f)"

lemma io_ReadFull_cases:
  "(\<exists>e. io_ReadFull n r = (Inl e, r\<lparr>rd_data := []\<rparr>) \<and> e \<noteq> Panic \<and> (\<forall>c m. e \<noteq> ConnError c m)) \<or>
   io_ReadFull n r = (Inr (take n (rd_data r)), r\<lparr>rd_data := drop n (rd_data r)\<rparr>) \<and> n \<le> length (rd_data r)"
  by (auto simp: io_ReadFull_def split: option.split)

lemma readFrameHeader_cases:
  "(\<exists>e. readFrameHeader r = (Inl e, r\<lparr>rd_data := []\<rparr>) \<and> e \<noteq> Panic) \<or>
   (\<exists>fh. readFrameHeader r = (Inr fh, r\<lparr>rd_data := drop 9 (rd_data r)\<rparr>) \<and> 9 \<le> length (rd_data r) \<and> fh_valid fh \<and>
      id31 (fh_StreamID fh))"
  using io_ReadFull_cases [of frameHeaderLen r] by (auto simp: readFrameHeader_def frameHeaderLen_def)

lemma checkFrameOrder_cases:
  assumes "framer_inv fr"
  obtains (bad) e fr' where "checkFrameOrder f fr = (Some e, fr')" "e \<noteq> Panic" "fr_r fr' = fr_r fr" "fr_maxReadSize fr' = fr_maxReadSize fr"
      "fr_AllowIllegalReads fr' = fr_AllowIllegalReads fr" "framer_inv fr'" "fr_lastHeaderStream fr' = fr_lastHeaderStream fr"
  | (good) fr' where "checkFrameOrder f fr = (None, fr')" "fr_r fr' = fr_r fr" "fr_maxReadSize fr' = fr_maxReadSize fr"
      "fr_AllowIllegalReads fr' = fr_AllowIllegalReads fr" "framer_inv fr'"
      "\<not> fr_AllowIllegalReads fr \<longrightarrow> may_follow (fr_lastHeaderStream fr) (Frame_Header f) \<and>
         fr_lastHeaderStream fr' = block_after (Frame_Header f) (fr_lastHeaderStream fr)"
proof (cases "fr_AllowIllegalReads fr")
  case True
  then show ?thesis
    by (intro good [of "fr\<lparr>fr_lastFrame := Some f\<rparr>"]) (simp_all add: checkFrameOrder_def framer_inv_def Let_def)
next
  case False
  show ?thesis
  proof (cases "may_follow (fr_lastHeaderStream fr) (Frame_Header f)")
    case True
    show ?thesis
      by (rule good [OF checkFrameOrder_legal [OF False True]]) (simp_all add: framer_inv_def True False)
  next
    case bad': False
    obtain reason where err: "checkFrameOrder f fr =
        (Some (ConnectionError ErrCodeProtocol), fr\<lparr>fr_lastFrame := Some f, fr_errDetail := Some (Reason reason)\<rparr>)"
      using checkFrameOrder_illegal [OF False bad'] assms by (auto simp: framer_inv_def)
    show ?thesis
      by (rule bad [OF err]) (use assms in \<open>simp_all add: framer_inv_def\<close>)
  qed
qed

lemma drop_used [simp]: "\<exists>used. xs = used @ drop n xs"
  by (metis append_take_drop_id)

text \<open>Parsing and the check of the order, once the payload is there.\<close>

lemma finish_cases:
  assumes "framer_inv fr" "fh_valid fh" "id31 (fh_StreamID fh)" "length p = unat (fh_Length fh)"
  obtains (error) e fr' where
    "(case typeFrameParser (fh_Type fh) fh p of
        Inl (ConnError code reason) \<Rightarrow> map_prod Inl (\<lambda>fr. fr) (Framer_connError code reason fr)
      | Inl e \<Rightarrow> (Inl e, fr)
      | Inr f \<Rightarrow> (case checkFrameOrder f fr of (Some e, fr) \<Rightarrow> (Inl e, fr) | (None, fr) \<Rightarrow> (Inr f, fr))) = (Inl e, fr')"
    "fr_r fr' = fr_r fr" "read_error fr e fr'"
  | (frame) f fr' where
    "(case typeFrameParser (fh_Type fh) fh p of
        Inl (ConnError code reason) \<Rightarrow> map_prod Inl (\<lambda>fr. fr) (Framer_connError code reason fr)
      | Inl e \<Rightarrow> (Inl e, fr)
      | Inr f \<Rightarrow> (case checkFrameOrder f fr of (Some e, fr) \<Rightarrow> (Inl e, fr) | (None, fr) \<Rightarrow> (Inr f, fr))) = (Inr f, fr')"
    "fr_r fr' = fr_r fr" "fr_maxReadSize fr' = fr_maxReadSize fr" "fr_AllowIllegalReads fr' = fr_AllowIllegalReads fr"
    "framer_inv fr'" "Frame_Header f = fh" "body_ok f"
    "\<not> fr_AllowIllegalReads fr \<longrightarrow> may_follow (fr_lastHeaderStream fr) (Frame_Header f) \<and>
       fr_lastHeaderStream fr' = block_after (Frame_Header f) (fr_lastHeaderStream fr)"
proof (cases "typeFrameParser (fh_Type fh) fh p :: 'a http2_error + Frame")
  case (Inl e)
  then have "e \<noteq> Panic"
    using typeFrameParser_ok [of "fh_Type fh", where 'a = 'a] assms(2-4) by (auto simp: parses_ok_def)
  moreover have "framer_inv (fr\<lparr>fr_errDetail := x\<rparr>)" for x
    using assms(1) by (simp add: framer_inv_def)
  ultimately show ?thesis
    using error Inl assms(1) by (cases e) (simp_all add: read_error_def Framer_connError_def)
next
  case (Inr f)
  then have f: "Frame_Header f = fh" "body_ok f"
    using typeFrameParser_ok [of "fh_Type fh", where 'a = 'a] assms(2-4) by (auto simp: parses_ok_def)
  show ?thesis
    using assms(1)
  proof (cases rule: checkFrameOrder_cases [where f = f])
    case (bad e fr')
    then show ?thesis
      by (intro error [of e fr']) (simp_all add: Inr read_error_def)
  next
    case (good fr')
    then show ?thesis
      by (intro frame [of f fr']) (simp_all add: Inr f)
  qed
qed

lemma before_read_sel [simp]:
  "fr_r (before_read g) = fr_r g" "fr_maxReadSize (before_read g) = fr_maxReadSize g"
  "fr_lastHeaderStream (before_read g) = fr_lastHeaderStream g" "fr_AllowIllegalReads (before_read g) = fr_AllowIllegalReads g"
  "framer_inv ((before_read g)\<lparr>fr_r := r\<rparr>) = framer_inv g"
  by (simp_all add: before_read_def framer_inv_def)

lemma read_frame_cases:
  assumes "framer_inv g"
  obtains (error) e g' where "read_frame g = (Inl e, g')" "read_error g e g'"
  | (frame) f g' where "read_frame g = (Inr f, g')" "read_ok g f g'"
proof -
  let ?r = "fr_r g"
  note read = read_frame_def before_read_def [symmetric] Let_def
  have stop: thesis if "read_frame g = (Inl e, (before_read g)\<lparr>fr_r := ?r\<lparr>rd_data := drop n (rd_data ?r)\<rparr>\<rparr>)" "e \<noteq> Panic" for e n
    by (rule error [OF that(1)]) (use assms that(2) in \<open>simp add: read_error_def\<close>)
  consider (no_header) e where "readFrameHeader ?r = (Inl e, ?r\<lparr>rd_data := []\<rparr>)" "e \<noteq> Panic"
    | (header) fh where "readFrameHeader ?r = (Inr fh, ?r\<lparr>rd_data := drop 9 (rd_data ?r)\<rparr>)" "9 \<le> length (rd_data ?r)" "fh_valid fh"
        "id31 (fh_StreamID fh)"
    using readFrameHeader_cases [of ?r] by blast
  then show thesis
  proof cases
    case no_header
    then show thesis
      using stop [of e "length (rd_data ?r)"] by (simp add: read)
  next
    case header
    let ?n = "unat (fh_Length fh)"
    let ?r1 = "?r\<lparr>rd_data := drop 9 (rd_data ?r)\<rparr>"
    consider (large) "fh_Length fh > fr_maxReadSize g"
      | (no_payload) e where "\<not> fh_Length fh > fr_maxReadSize g" "io_ReadFull ?n ?r1 = (Inl e, ?r\<lparr>rd_data := []\<rparr>)" "e \<noteq> Panic"
      | (payload) "\<not> fh_Length fh > fr_maxReadSize g"
          "io_ReadFull ?n ?r1 = (Inr (take ?n (drop 9 (rd_data ?r))), ?r\<lparr>rd_data := drop (9 + ?n) (rd_data ?r)\<rparr>)"
          "?n \<le> length (rd_data ?r) - 9"
      using io_ReadFull_cases [of ?n ?r1] by (auto simp: add.commute)
    then show thesis
    proof cases
      case large
      then show thesis
        using header stop [of ErrFrameTooLarge 9] by (simp add: read)
    next
      case no_payload
      then show thesis
        using header stop [of e "length (rd_data ?r)"] by (simp add: read)
    next
      case payload
      let ?p = "take ?n (drop 9 (rd_data ?r))"
      let ?g = "(before_read g)\<lparr>fr_r := ?r\<lparr>rd_data := drop (9 + ?n) (rd_data ?r)\<rparr>\<rparr>"
      have len: "length ?p = ?n"
        using payload(3) by simp
      have used: "\<exists>used. rd_data ?r = used @ drop (9 + ?n) (rd_data ?r) \<and> length used = 9 + ?n"
        using payload(3) header(2) by (intro exI [of _ "take (9 + ?n) (rd_data ?r)"]) simp
      from assms have "framer_inv ?g"
        by simp
      then show thesis
        using header(3,4) len
      proof (cases rule: finish_cases)
        case (error e g')
        then have "read_frame g = (Inl e, g')"
          using header payload by (simp add: read)
        then show thesis
          using that(1) error(2,3) used by (simp add: read_error_def)
      next
        case (frame f g')
        then have "read_frame g = (Inr f, g')"
          using header payload by (simp add: read)
        then show thesis
          using that(2) frame used header payload by (simp add: read_ok_def frame_ok_def frame_size_def not_less)
      qed
    qed
  qed
qed

text \<open>The frames among the results of a run.\<close>

fun frames_of :: "('e http2_error + Frame) list \<Rightarrow> Frame list" where
  "frames_of [] = []"
| "frames_of (Inr f # rs) = f # frames_of rs"
| "frames_of (Inl e # rs) = frames_of rs"

lemma read_run_ok:
  assumes "framer_inv g" "read_run n g = (rs, g')"
  shows "Inl Panic \<notin> set rs \<and> (\<forall>f \<in> set (frames_of rs). frame_ok (fr_maxReadSize g) f) \<and>
    (\<not> fr_AllowIllegalReads g \<longrightarrow> in_order (fr_lastHeaderStream g) (map Frame_Header (frames_of rs))) \<and>
    (\<exists>used. rd_data (fr_r g) = used @ rd_data (fr_r g') \<and> sum_list (map frame_size (frames_of rs)) \<le> length used)"
  using assms
proof (induction n arbitrary: g rs g')
  case 0
  then show ?case by auto
next
  case (Suc n)
  from Suc.prems(1) show ?case
  proof (cases rule: read_frame_cases)
    case (error e g1)
    obtain rs1 g2 where run: "read_run n g1 = (rs1, g2)" by fastforce
    show ?thesis
      using Suc.prems(2) error Suc.IH [OF _ run] run by (auto simp: read_error_def split: if_splits)
  next
    case (frame f g1)
    obtain rs1 g2 where run: "read_run n g1 = (rs1, g2)" by fastforce
    obtain used1 used2 where "rd_data (fr_r g) = used1 @ rd_data (fr_r g1)" "length used1 = frame_size f"
      "rd_data (fr_r g1) = used2 @ rd_data (fr_r g2)" "sum_list (map frame_size (frames_of rs1)) \<le> length used2"
      using frame(2) Suc.IH [OF _ run] by (auto simp: read_ok_def)
    then have "\<exists>used. rd_data (fr_r g) = used @ rd_data (fr_r g2) \<and>
        sum_list (map frame_size (frames_of (Inr f # rs1))) \<le> length used"
      by (intro exI [of _ "used1 @ used2"]) simp
    then show ?thesis
      using Suc.prems(2) frame Suc.IH [OF _ run] run by (auto simp: read_ok_def)
  qed
qed

text \<open>
  C26.  Whatever octets arrive, and whatever limit is set, reading frames does not panic, and every
  frame it returns conforms to its type: its length is within the limit, its stream number has 31 bits
  and is zero or not as the type demands, sizes and increments are as the RFC demands, and the
  variable part lies within the payload.  Each frame takes its nine octets and its payload from the
  input.
\<close>

theorem frames_read_well_formed:
  assumes "fr_lastHeaderStream g = 0" "read_run n g = (rs, g')"
  shows "Inl Panic \<notin> set rs \<and> (\<forall>f \<in> set (frames_of rs). frame_ok (fr_maxReadSize g) f) \<and>
    (\<exists>used. rd_data (fr_r g) = used @ rd_data (fr_r g') \<and> sum_list (map frame_size (frames_of rs)) \<le> length used)"
  using read_run_ok [of g n rs g'] assms by (simp add: framer_inv_def)

definition ping_reader :: "nat reader" where
  "ping_reader = \<lparr>rd_data = [0, 0, 8, 6, 1, 0, 0, 0, 0] @ [1, 2, 3, 4, 5, 6, 7, 8], rd_end = None\<rparr>"

lemma ping_read:
  "read_run 1 (NewFramer [] ping_reader) =
     ([Inr (PingFrame \<lparr>fh_valid = True, fh_Type = 6, fh_Flags = 1, fh_Length = 8, fh_StreamID = 0\<rparr> [1, 2, 3, 4, 5, 6, 7, 8])],
      snd (read_frame (NewFramer [] ping_reader)))"
  by (simp add: ping_reader_def read_frame_def readFrameHeader_def io_ReadFull_def frameHeaderLen_def Let_def be_uint32_def
    typeFrameParser_def frame_types parsePingFrame_def checkFrameOrder_def order_error_def)

theorem frames_read_well_formed_witness:
  "frame_ok 0xffffff (PingFrame \<lparr>fh_valid = True, fh_Type = 6, fh_Flags = 1, fh_Length = 8, fh_StreamID = 0\<rparr> [1, 2, 3, 4, 5, 6, 7, 8])"
  using frames_read_well_formed [OF _ ping_read] by simp

text \<open>
  C28.  Header blocks that HEADERS frames begin are contiguous: in every run of reads with \<^verbatim>\<open>AllowIllegalReads\<close> off,
  errors of single streams included, among the frames returned a HEADERS or CONTINUATION frame without
  END_HEADERS is followed by a CONTINUATION frame of the same stream, and a CONTINUATION frame comes in no
  other place.  The reader does not track the blocks of PUSH_PROMISE frames.
\<close>

theorem header_blocks_contiguous:
  assumes "fr_lastHeaderStream g = 0" "\<not> fr_AllowIllegalReads g" "read_run n g = (rs, g')"
  shows "in_order 0 (map Frame_Header (frames_of rs))"
  using read_run_ok [of g n rs g'] assms by (simp add: framer_inv_def)

theorem header_blocks_contiguous_witness:
  "\<exists>rs g'. read_run 4 (NewFramer [] \<lparr>rd_data = concat (map call_wire sample_calls), rd_end = None :: nat option\<rparr>) = (rs, g') \<and>
    in_order 0 (map Frame_Header (frames_of rs)) \<and> map fh_Type (map Frame_Header (frames_of rs)) = [4, 1, 9, 0]"
proof -
  let ?g = "NewFramer [] \<lparr>rd_data = concat (map call_wire sample_calls), rd_end = None :: nat option\<rparr>"
  have fit: "\<forall>c \<in> set sample_calls. length (call_payload c) \<le> 0xffffff"
    using sample_calls_ok(1) by (auto simp: call_legal_def)
  obtain g' where run: "read_run 4 ?g = (map (\<lambda>c. Inr (call_frame c)) sample_calls, g')"
    using read_run_calls [of sample_calls ?g "[]"] sample_calls_ok fit by auto
  have "map fh_Type (map Frame_Header (frames_of (map (\<lambda>c. Inr (call_frame c)) sample_calls))) = [4, 1, 9, 0]"
    by (simp add: sample_calls_def go_defs)
  then show ?thesis
    using header_blocks_contiguous [OF _ _ run] run by auto
qed

section \<open>Behaviours against the documentation\<close>

text \<open>
  A PUSH_PROMISE frame without END_HEADERS cannot be continued: the CONTINUATION frame of its stream,
  which the RFC demands next, is refused with a connection error.  The check of the order only knows
  blocks that a HEADERS frame begins.
\<close>

lemma push_promise_not_continued:
  assumes "call_legal (CallPushPromise p)" "\<not> pq_EndHeaders p" "call_legal (CallContinuation (pq_StreamID p) e b)"
  shows "\<exists>g'. read_run 2 (NewFramer [] \<lparr>rd_data = call_wire (CallPushPromise p) @ call_wire (CallContinuation (pq_StreamID p) e b), rd_end = x\<rparr>) =
    ([Inr (call_frame (CallPushPromise p)), Inl (ConnectionError ErrCodeProtocol)], g')"
proof -
  let ?c = "CallPushPromise p" and ?d = "CallContinuation (pq_StreamID p) e b"
  let ?g = "NewFramer [] \<lparr>rd_data = call_wire ?c @ call_wire ?d, rd_end = x\<rparr>"
  have max: "length (call_payload c) \<le> unat (fr_maxReadSize ?g)" if "call_legal c" for c
    using that by (simp add: call_legal_def)
  have "may_follow 0 (call_header ?c)"
    by (simp add: may_follow_def frame_types)
  then obtain g1 where g1: "read_frame ?g = (Inr (call_frame ?c), g1)" "fr_r g1 = \<lparr>rd_data = call_wire ?d, rd_end = x\<rparr>"
    "fr_lastHeaderStream g1 = 0" "\<not> fr_AllowIllegalReads g1" "fr_maxReadSize g1 = 0xffffff"
    using read_call [of ?c ?g "call_wire ?d"] assms(1) max [OF assms(1)]
    by (simp add: call_legal_def checkFrameOrder_legal block_after_def frame_types del: call_frame.simps call_payload.simps)
  have "\<not> may_follow 0 (call_header ?d)"
    by (simp add: may_follow_def)
  then obtain g2 where "read_frame g1 = (Inl (ConnectionError ErrCodeProtocol), g2)"
    using read_call [of ?d g1 "[]"] checkFrameOrder_illegal [of "(before_read g1)\<lparr>fr_r := (fr_r g1)\<lparr>rd_data := []\<rparr>\<rparr>" "call_frame ?d"]
      assms(3) g1(2-5) max [OF assms(3)] by (fastforce simp: call_legal_def simp del: call_frame.simps call_payload.simps)
  then show ?thesis
    using g1(1) by (simp add: numeral_2_eq_2 del: call_frame.simps)
qed

lemma push_promise_not_continued_witness:
  "\<exists>f g'. read_run 2 (NewFramer [] \<lparr>rd_data = [0, 0, 5, 5, 0, 0, 0, 0, 1, 0, 0, 0, 2, 0x82] @ [0, 0, 1, 9, 4, 0, 0, 0, 1, 0x84],
      rd_end = None :: nat option\<rparr>) = ([Inr f, Inl (ConnectionError ErrCodeProtocol)], g')"
proof -
  define p where "p = \<lparr>pq_StreamID = 1, pq_PromiseID = 2, pq_BlockFragment = [0x82], pq_EndHeaders = False, pq_PadLength = 0\<rparr>"
  have "call_wire (CallPushPromise p) = [0, 0, 5, 5, 0, 0, 0, 0, 1, 0, 0, 0, 2, 0x82]"
    "call_wire (CallContinuation 1 True [0x84]) = [0, 0, 1, 9, 4, 0, 0, 0, 1, 0x84]"
    by (simp_all add: p_def call_wire_def frame_wire_def octets24_def octets32_def frame_types flag_if_def go_defs length_octet_def pad_octets_def drop_bit_eq_div)
  moreover have "call_legal (CallPushPromise p)" "call_legal (CallContinuation 1 True [0x84])" "\<not> pq_EndHeaders p" "pq_StreamID p = 1"
    by (simp_all add: p_def call_legal_def validStreamID_def length_octet_def pad_octets_def)
  ultimately show ?thesis
    using push_promise_not_continued [of p True "[0x84]" None] by auto
qed

end
