(* ===== verification/HTTPLex.thy ===== *)
theory HTTPLex
  imports GoPrelude
begin

text \<open>
  Package \<^verbatim>\<open>httplex\<close>, file \<^verbatim>\<open>httplex.go\<close>: which octets tokens, header names, header values and hosts may
  have, and the search for a token in a list-valued header.  A \<^verbatim>\<open>range\<close> loop over a string decodes
  UTF-8; that part of the language comes first.  \<^verbatim>\<open>PunycodeHostPort\<close>, which calls packages \<^verbatim>\<open>net\<close> and
  \<^verbatim>\<open>idna\<close>, is left out.
\<close>

section \<open>Ranging over a string\<close>

text \<open>
  The first rune of a string that is not empty, and the number of octets it takes.  Octets that are not valid
  UTF-8 give the replacement character, one octet at a time.
\<close>

definition utf8_tail :: "nat \<Rightarrow> nat \<Rightarrow> nat \<Rightarrow> bool" where
  "utf8_tail lo hi b \<longleftrightarrow> lo \<le> b \<and> b \<le> hi"

definition rune_of :: "nat \<Rightarrow> nat \<Rightarrow> nat \<Rightarrow> nat \<Rightarrow> nat \<times> nat" where
  "rune_of b0 b1 b2 b3 =
     (if b0 < 0x80 then (b0, 1)
      else if 0xc2 \<le> b0 \<and> b0 \<le> 0xdf \<and> utf8_tail 0x80 0xbf b1 then (b0 mod 0x20 * 64 + b1 mod 64, 2)
      else if 0xe0 \<le> b0 \<and> b0 \<le> 0xef \<and>
        utf8_tail (if b0 = 0xe0 then 0xa0 else 0x80) (if b0 = 0xed then 0x9f else 0xbf) b1 \<and> utf8_tail 0x80 0xbf b2
      then (b0 mod 0x10 * 4096 + b1 mod 64 * 64 + b2 mod 64, 3)
      else if 0xf0 \<le> b0 \<and> b0 \<le> 0xf4 \<and>
        utf8_tail (if b0 = 0xf0 then 0x90 else 0x80) (if b0 = 0xf4 then 0x8f else 0xbf) b1 \<and> utf8_tail 0x80 0xbf b2 \<and>
        utf8_tail 0x80 0xbf b3
      then (b0 mod 0x08 * 262144 + b1 mod 64 * 4096 + b2 mod 64 * 64 + b3 mod 64, 4)
      else (0xfffd, 1))"

text \<open>An octet beyond the end counts as 0, which no valid sequence has.\<close>

definition decode_rune :: "bytes \<Rightarrow> nat \<times> nat" where
  "decode_rune p =
     (let b = (\<lambda>i. if i < length p then unat (p ! i) else 0) in rune_of (b 0) (b 1) (b 2) (b 3))"

lemma decode_rune_pos: "0 < snd (decode_rune p)"
  by (simp add: decode_rune_def rune_of_def)

text \<open>The pairs of position and rune that the loop visits.\<close>

function range_from :: "nat \<Rightarrow> bytes \<Rightarrow> (nat \<times> nat) list" where
  "range_from i p =
     (if p = [] then [] else (i, fst (decode_rune p)) # range_from (i + snd (decode_rune p)) (drop (snd (decode_rune p)) p))"
  by auto
termination
  by (relation "measure (\<lambda>(i, p). length p)") (auto simp: decode_rune_pos)

declare range_from.simps [simp del]

definition go_range :: "bytes \<Rightarrow> (nat \<times> nat) list" where
  "go_range p = range_from 0 p"

lemma decode_rune_ascii: "unat b < 0x80 \<Longrightarrow> decode_rune (b # p) = (unat b, 1)"
  by (simp add: decode_rune_def rune_of_def)

lemma mod_window:
  fixes b :: nat
  assumes "q * m \<le> b" "b < q * m + m"
  shows "b mod m = b - q * m"
proof -
  have "b mod m = (b - q * m + q * m) mod m"
    using assms(1) by simp
  also have "\<dots> = (b - q * m) mod m"
    by (rule mod_mult_self1)
  finally show ?thesis
    using assms by (simp add: less_diff_conv2)
qed

lemma leading_bits:
  "194 \<le> (b :: nat) \<Longrightarrow> b \<le> 223 \<Longrightarrow> 2 \<le> b mod 32" "224 < (b :: nat) \<Longrightarrow> b \<le> 239 \<Longrightarrow> 1 \<le> b mod 16"
  "240 < (b :: nat) \<Longrightarrow> b \<le> 244 \<Longrightarrow> 1 \<le> b mod 8" "160 \<le> (b :: nat) \<Longrightarrow> b \<le> 191 \<Longrightarrow> 32 \<le> b mod 64"
  "144 \<le> (b :: nat) \<Longrightarrow> b \<le> 191 \<Longrightarrow> 16 \<le> b mod 64"
  using mod_window [of 6 32 b] mod_window [of 14 16 b] mod_window [of 30 8 b] mod_window [of 2 64 b] by simp_all

lemma rune_of_other: "0x80 \<le> b0 \<Longrightarrow> 0x80 \<le> fst (rune_of b0 b1 b2 b3)"
  using leading_bits(1-3) [of b0] leading_bits(4,5) [of b1]
  by (cases "b0 = 224"; cases "b0 = 240") (auto simp: rune_of_def utf8_tail_def)

lemma decode_rune_other: "0x80 \<le> unat b \<Longrightarrow> 0x80 \<le> fst (decode_rune (b # p))"
  using rune_of_other by (simp add: decode_rune_def)

lemma all_less_Suc_eq_first: "(\<forall>k < Suc n. P k) \<longleftrightarrow> P 0 \<and> (\<forall>k < n. P (Suc k))"
  by (auto simp: less_Suc_eq_0_disj)

text \<open>A test of every rune that only characters of one octet pass is a test of every octet.\<close>

lemma range_ascii:
  assumes "\<And>i r. P i r \<Longrightarrow> r < 0x80"
  shows "(\<forall>(j, r) \<in> set (range_from i p). P j r) \<longleftrightarrow> (\<forall>k < length p. P (i + k) (unat (p ! k)))"
proof (induction i p rule: range_from.induct)
  case (1 i p)
  show ?case
  proof (cases p)
    case Nil
    then show ?thesis by (simp add: range_from.simps)
  next
    case (Cons b q)
    show ?thesis
    proof (cases "unat b < 0x80")
      case True
      then have "(\<forall>(j, r) \<in> set (range_from i p). P j r) \<longleftrightarrow> P i (unat b) \<and> (\<forall>k < length q. P (Suc i + k) (unat (q ! k)))"
        using 1 Cons by (simp add: range_from.simps [of i "b # q"] decode_rune_ascii)
      also have "\<dots> \<longleftrightarrow> (\<forall>k < length p. P (i + k) (unat (p ! k)))"
        by (simp add: Cons all_less_Suc_eq_first)
      finally show ?thesis .
    next
      case False
      then have "\<not> P i (fst (decode_rune p))" "\<not> P i (unat b)"
        using decode_rune_other [of b q] assms Cons by (meson not_le)+
      then show ?thesis
        using Cons by (auto simp: range_from.simps [of i "b # q"])
    qed
  qed
qed

lemma go_range_ascii:
  assumes "\<And>i r. P i r \<Longrightarrow> r < 0x80"
  shows "(\<forall>(j, r) \<in> set (go_range p). P j r) \<longleftrightarrow> (\<forall>k < length p. P k (unat (p ! k)))"
  using range_ascii [of P 0 p] assms by (simp add: go_range_def)

section \<open>Tokens\<close>

text \<open>The characters of a table, by code: the digits and letters, and some others.\<close>

definition alphanumerics :: "nat list" where
  "alphanumerics = [0x30..<0x3a] @ [0x41..<0x5b] @ [0x61..<0x7b]"

definition isTokenTable :: "bool list" where
  "isTokenTable =
     map (\<lambda>c. c \<in> set ([0x21, 0x23, 0x24, 0x25, 0x26, 0x27, 0x2a, 0x2b, 0x2d, 0x2e, 0x5e, 0x5f, 0x60, 0x7c, 0x7e] @ alphanumerics))
       [0..<127]"

definition IsTokenRune :: "nat \<Rightarrow> bool" where
  "IsTokenRune r \<longleftrightarrow> r < length isTokenTable \<and> isTokenTable ! r"

definition isNotToken :: "nat \<Rightarrow> bool" where
  "isNotToken r \<longleftrightarrow> \<not> IsTokenRune r"

definition isOWS :: "u8 \<Rightarrow> bool" where
  "isOWS b \<longleftrightarrow> b = 0x20 \<or> b = 0x09"

text \<open>The two loops of \<^verbatim>\<open>trimOWS\<close>.\<close>

fun trim_front :: "bytes \<Rightarrow> bytes" where
  "trim_front [] = []"
| "trim_front (b # x) = (if isOWS b then trim_front x else b # x)"

function trim_back :: "bytes \<Rightarrow> bytes" where
  "trim_back x = (if x \<noteq> [] \<and> isOWS (last x) then trim_back (butlast x) else x)"
  by auto
termination
  by (relation "measure length") auto

declare trim_back.simps [simp del]

definition trimOWS :: "bytes \<Rightarrow> bytes" where
  "trimOWS x = trim_back (trim_front x)"

definition lowerASCII :: "u8 \<Rightarrow> u8" where
  "lowerASCII b = (if 0x41 \<le> b \<and> b \<le> 0x5a then b + 0x20 else b)"

definition tokenEqual :: "bytes \<Rightarrow> bytes \<Rightarrow> bool" where
  "tokenEqual t1 t2 \<longleftrightarrow>
     length t1 = length t2 \<and>
     list_all (\<lambda>(i, b). b < 0x80 \<and> lowerASCII (of_nat b) = lowerASCII (t2 ! i)) (go_range t1)"

text \<open>The part before the first comma and the part after it.\<close>

definition cut_comma :: "bytes \<Rightarrow> (bytes \<times> bytes) option" where
  "cut_comma v =
     (let n = length (takeWhile (\<lambda>b. b \<noteq> 0x2c) v) in if n < length v then Some (take n v, drop (n + 1) v) else None)"

lemma length_trim_front: "length (trim_front x) \<le> length x"
  by (induction x) auto

lemma length_trim_back: "length (trim_back x) \<le> length x"
  by (induction x rule: trim_back.induct) (subst trim_back.simps, auto)

lemma length_trimOWS: "length (trimOWS x) \<le> length x"
  unfolding trimOWS_def using length_trim_front length_trim_back le_trans by blast

lemma cut_comma_shorter: "cut_comma v = Some (a, b) \<Longrightarrow> length b < length v"
  by (auto simp: cut_comma_def Let_def split: if_splits)

function headerValueContainsToken :: "bytes \<Rightarrow> bytes \<Rightarrow> bool" where
  "headerValueContainsToken v token =
     (case cut_comma (trimOWS v) of
        Some (a, b) \<Rightarrow> tokenEqual (trimOWS a) token \<or> headerValueContainsToken b token
      | None \<Rightarrow> tokenEqual (trimOWS v) token)"
  by auto
termination
proof (relation "measure (\<lambda>(v, token). length v)")
  fix v token :: bytes and x a b
  assume "cut_comma (trimOWS v) = Some x" "(a, b) = x"
  then show "((b, token), v, token) \<in> measure (\<lambda>(v, token). length v)"
    using cut_comma_shorter [of "trimOWS v" a b] length_trimOWS [of v] by simp
qed simp

declare headerValueContainsToken.simps [simp del]

definition HeaderValuesContainsToken :: "bytes list \<Rightarrow> bytes \<Rightarrow> bool" where
  "HeaderValuesContainsToken values token = list_ex (\<lambda>v. headerValueContainsToken v token) values"

section \<open>Names, values and hosts\<close>

definition isLWS :: "u8 \<Rightarrow> bool" where
  "isLWS b \<longleftrightarrow> b = 0x20 \<or> b = 0x09"

definition isCTL :: "u8 \<Rightarrow> bool" where
  "isCTL b \<longleftrightarrow> b < 0x20 \<or> b = 0x7f"

definition ValidHeaderFieldName :: "bytes \<Rightarrow> bool" where
  "ValidHeaderFieldName v \<longleftrightarrow> v \<noteq> [] \<and> list_all (\<lambda>(i, r). IsTokenRune r) (go_range v)"

definition validHostByte :: "bool list" where
  "validHostByte =
     map (\<lambda>c. c \<in> set (alphanumerics @ [0x21, 0x24, 0x25, 0x26, 0x28, 0x29, 0x2a, 0x2b, 0x2c, 0x2d, 0x2e, 0x3a, 0x3b, 0x3d,
                                       0x5b, 0x27, 0x5d, 0x5f, 0x7e]))
       [0..<256]"

definition ValidHostHeader :: "bytes \<Rightarrow> bool" where
  "ValidHostHeader h \<longleftrightarrow> list_all (\<lambda>b. validHostByte ! unat b) h"

definition ValidHeaderFieldValue :: "bytes \<Rightarrow> bool" where
  "ValidHeaderFieldValue v \<longleftrightarrow> list_all (\<lambda>b. \<not> (isCTL b \<and> \<not> isLWS b)) v"

definition httplex_isASCII :: "bytes \<Rightarrow> bool" where
  "httplex_isASCII s \<longleftrightarrow> list_all (\<lambda>b. b < 0x80) s"

text \<open>From package \<^verbatim>\<open>http2\<close>: a name on the wire has no upper-case letters.\<close>

definition validWireHeaderFieldName :: "bytes \<Rightarrow> bool" where
  "validWireHeaderFieldName v \<longleftrightarrow>
     v \<noteq> [] \<and> list_all (\<lambda>(i, r). IsTokenRune r \<and> \<not> (0x41 \<le> r \<and> r \<le> 0x5a)) (go_range v)"

section \<open>Properties\<close>

text \<open>White space is cut off at both ends.\<close>

lemma trim_front_dropWhile: "trim_front x = dropWhile isOWS x"
  by (induction x) auto

lemma trim_back_rev: "trim_back x = rev (dropWhile isOWS (rev x))"
proof (induction x rule: rev_induct)
  case Nil
  then show ?case by (simp add: trim_back.simps)
next
  case (snoc b x)
  then show ?case by (simp add: trim_back.simps [of "x @ [b]"])
qed

lemma trimOWS_spec: "trimOWS x = rev (dropWhile isOWS (rev (dropWhile isOWS x)))"
  by (simp add: trimOWS_def trim_front_dropWhile trim_back_rev)

lemma trimOWS_idem: "trimOWS (trimOWS x) = trimOWS x"
proof -
  define y where "y = dropWhile isOWS x"
  define u where "u = rev (dropWhile isOWS (rev y))"
  have "y = u @ rev (takeWhile isOWS (rev y))"
    unfolding u_def by (metis rev_append rev_rev_ident takeWhile_dropWhile_id)
  then have "u = [] \<or> hd u = hd y \<and> y \<noteq> []"
    by (metis Nil_is_append_conv hd_append2)
  then have "dropWhile isOWS u = u"
    using hd_dropWhile [of isOWS x] by (cases u) (auto simp: y_def)
  then show ?thesis
    by (simp add: trimOWS_spec flip: y_def u_def) (simp add: u_def)
qed

lemma trimOWS_Cons: "isOWS b \<Longrightarrow> trimOWS (b # x) = trimOWS x"
  by (simp add: trimOWS_def)

lemma trimOWS_snoc:
  assumes "isOWS b"
  shows "trimOWS (x @ [b]) = trimOWS x"
proof (cases "\<forall>c \<in> set x. isOWS c")
  case True
  then have none: "dropWhile isOWS (x @ [b]) = []" "dropWhile isOWS x = []"
    using assms by (auto simp: dropWhile_eq_Nil_conv)
  show ?thesis
    unfolding trimOWS_spec none ..
next
  case False
  then obtain c where "c \<in> set x" "\<not> isOWS c"
    by blast
  then show ?thesis
    using assms by (simp add: trimOWS_spec dropWhile_append1)
qed

text \<open>The parts of a value between commas.\<close>

fun comma_parts :: "bytes \<Rightarrow> bytes list" where
  "comma_parts [] = [[]]"
| "comma_parts (b # v) =
     (if b = 0x2c then [] # comma_parts v else (b # hd (comma_parts v)) # tl (comma_parts v))"

lemma comma_parts_not_Nil [simp]: "comma_parts v \<noteq> []"
  by (induction v) auto

lemma cut_comma_parts:
  "cut_comma v = None \<Longrightarrow> comma_parts v = [v]" "cut_comma v = Some (a, b) \<Longrightarrow> comma_parts v = a # comma_parts b"
  by (induction v arbitrary: a b) (auto simp: cut_comma_def Let_def split: if_splits)

lemma comma_parts_snoc: "b \<noteq> 0x2c \<Longrightarrow> comma_parts (x @ [b]) = butlast (comma_parts x) @ [last (comma_parts x) @ [b]]"
proof (induction x)
  case (Cons a x)
  obtain y ys where "comma_parts x = y # ys"
    by (cases "comma_parts x") auto
  then show ?case
    using Cons by (cases ys) auto
qed simp

lemma trim_parts: "map trimOWS (comma_parts (trimOWS v)) = map trimOWS (comma_parts v)"
proof -
  have front: "map trimOWS (comma_parts (trim_front v)) = map trimOWS (comma_parts v)" for v
  proof (induction v)
    case (Cons b v)
    obtain y ys where "comma_parts v = y # ys"
      by (cases "comma_parts v") auto
    moreover have "isOWS b \<Longrightarrow> b \<noteq> 0x2c"
      by (auto simp: isOWS_def)
    ultimately show ?case
      using Cons by (auto simp: trimOWS_Cons)
  qed simp
  have rear: "map trimOWS (comma_parts (trim_back v)) = map trimOWS (comma_parts v)" for v
  proof (induction v rule: rev_induct)
    case (snoc b v)
    have "map trimOWS (comma_parts (v @ [b])) = map trimOWS (comma_parts v)" if "isOWS b"
    proof -
      have "b \<noteq> 0x2c"
        using that by (auto simp: isOWS_def)
      moreover have "map trimOWS (comma_parts v) = map trimOWS (butlast (comma_parts v)) @ [trimOWS (last (comma_parts v))]"
        using map_append [of trimOWS "butlast (comma_parts v)" "[last (comma_parts v)]"] by simp
      ultimately show ?thesis
        using that by (simp add: comma_parts_snoc trimOWS_snoc)
    qed
    then show ?case
      using snoc by (simp add: trim_back.simps [of "v @ [b]"])
  qed (simp add: trim_back.simps)
  show ?thesis
    using front [of v] rear [of "trim_front v"] by (simp add: trimOWS_def)
qed

definition same_token :: "bytes \<Rightarrow> bytes \<Rightarrow> bool" where
  "same_token t1 t2 \<longleftrightarrow> list_all (\<lambda>b. b < 0x80) t1 \<and> map lowerASCII t1 = map lowerASCII t2"

lemma tokenEqual_iff: "tokenEqual t1 t2 \<longleftrightarrow> same_token t1 t2"
proof -
  have "list_all (\<lambda>(i, b). b < 0x80 \<and> lowerASCII (of_nat b) = lowerASCII (t2 ! i)) (go_range t1) \<longleftrightarrow>
      (\<forall>k < length t1. unat (t1 ! k) < 0x80 \<and> lowerASCII (t1 ! k) = lowerASCII (t2 ! k))"
    using go_range_ascii [of "\<lambda>i b. b < 0x80 \<and> lowerASCII (of_nat b) = lowerASCII (t2 ! i)" t1]
    by (simp add: list_all_iff)
  moreover have "unat b < 0x80 \<longleftrightarrow> b < 0x80" for b :: u8
    by (simp add: word_less_nat_alt)
  ultimately show ?thesis
    unfolding tokenEqual_def same_token_def list_eq_iff_nth_eq [of "map lowerASCII t1"] list_all_length by auto
qed

text \<open>
  The search for a token in a header value is the one of RFC 7230: the value is cut at its commas, white
  space around each part is dropped, and the value contains the token when some part has only ASCII octets and
  is the token but for the case of its letters.
\<close>

lemma contains_token_iff:
  "headerValueContainsToken v token \<longleftrightarrow>
     list_ex (\<lambda>part. same_token (rev (dropWhile isOWS (rev (dropWhile isOWS part)))) token) (comma_parts v)"
proof (induction v token rule: headerValueContainsToken.induct)
  case (1 v token)
  have "list_ex (\<lambda>part. same_token (trimOWS part) token) (comma_parts w) =
      list_ex (\<lambda>part. same_token part token) (map trimOWS (comma_parts w))" for w
    by (simp add: list_ex_iff)
  then have whole: "list_ex (\<lambda>part. same_token (trimOWS part) token) (comma_parts v) =
      list_ex (\<lambda>part. same_token (trimOWS part) token) (comma_parts (trimOWS v))"
    by (simp add: trim_parts)
  show ?case
  proof (cases "cut_comma (trimOWS v)")
    case None
    then show ?thesis
      using whole cut_comma_parts(1) [OF None]
      by (simp add: headerValueContainsToken.simps [of v] tokenEqual_iff trimOWS_idem flip: trimOWS_spec)
  next
    case (Some x)
    obtain a b where x: "x = (a, b)" by (cases x)
    then show ?thesis
      using 1 Some whole cut_comma_parts(2) [of "trimOWS v" a b]
      by (simp add: headerValueContainsToken.simps [of v] tokenEqual_iff flip: trimOWS_spec)
  qed
qed

lemma valid_name_octets:
  "validWireHeaderFieldName v \<longleftrightarrow> v \<noteq> [] \<and> (\<forall>b \<in> set v. IsTokenRune (unat b) \<and> \<not> (0x41 \<le> b \<and> b \<le> 0x5a))"
proof -
  have "IsTokenRune r \<Longrightarrow> r < 0x80" for r
    by (simp add: IsTokenRune_def isTokenTable_def)
  then have "list_all (\<lambda>(i, r). IsTokenRune r \<and> \<not> (0x41 \<le> r \<and> r \<le> 0x5a)) (go_range v) \<longleftrightarrow>
      (\<forall>k < length v. IsTokenRune (unat (v ! k)) \<and> \<not> (0x41 \<le> unat (v ! k) \<and> unat (v ! k) \<le> 0x5a))"
    using go_range_ascii [of "\<lambda>i r. IsTokenRune r \<and> \<not> (0x41 \<le> r \<and> r \<le> 0x5a)" v] by (simp add: list_all_iff)
  then show ?thesis
    by (auto simp: validWireHeaderFieldName_def all_set_conv_all_nth word_le_nat_alt)
qed

end
