(* ===== verification/HTTP2_Meta.thy ===== *)
theory HTTP2_Meta
  imports HTTP2_Frame_Properties HTTPLex
begin

text \<open>
  Package \<^verbatim>\<open>http2\<close>, the rest of \<^verbatim>\<open>frame.go\<close>: \<^verbatim>\<open>ReadFrame\<close> with \<^verbatim>\<open>ReadMetaHeaders\<close> set, which reads a
  header block of one HEADERS and its CONTINUATION frames, runs the HPACK decoder over it and
  checks the fields as they are emitted.
\<close>

section \<open>The merged header frame\<close>

fun PseudoValue :: "bytes \<Rightarrow> HeaderField list \<Rightarrow> bytes" where
  "PseudoValue pseudo [] = []"
| "PseudoValue pseudo (hf # hfs) =
     (if \<not> IsPseudo hf then []
      else if tl (Name hf) = pseudo then Value hf
      else PseudoValue pseudo hfs)"

fun RegularFields :: "HeaderField list \<Rightarrow> HeaderField list" where
  "RegularFields [] = []"
| "RegularFields (hf # hfs) = (if \<not> IsPseudo hf then hf # hfs else RegularFields hfs)"

fun PseudoFields :: "HeaderField list \<Rightarrow> HeaderField list" where
  "PseudoFields [] = []"
| "PseudoFields (hf # hfs) = (if \<not> IsPseudo hf then [] else hf # PseudoFields hfs)"

definition request_pseudos :: "bytes list" where
  "request_pseudos = [go_bytes '':method'', go_bytes '':path'', go_bytes '':scheme'', go_bytes '':authority'']"

definition status_pseudo :: bytes where
  "status_pseudo = go_bytes '':status''"

text \<open>The loop of \<^verbatim>\<open>checkPseudos\<close>, with the fields it has passed.\<close>

fun check_pseudos :: "HeaderField list \<Rightarrow> bool \<Rightarrow> bool \<Rightarrow> HeaderField list \<Rightarrow> header_error option" where
  "check_pseudos seen isRequest isResponse [] =
     (if isRequest \<and> isResponse then Some ErrMixPseudoHeaderTypes else None)"
| "check_pseudos seen isRequest isResponse (hf # pf) =
     (if Name hf \<in> set request_pseudos \<or> Name hf = status_pseudo then
        (if Name hf \<in> set (map Name seen) then Some (DuplicatePseudoHeaderError (Name hf))
         else check_pseudos (seen @ [hf]) (isRequest \<or> Name hf \<in> set request_pseudos)
                (isResponse \<or> Name hf = status_pseudo) pf)
      else Some (PseudoHeaderError (Name hf)))"

definition checkPseudos :: "HeaderField list \<Rightarrow> header_error option" where
  "checkPseudos hfs = check_pseudos [] False False (PseudoFields hfs)"

section \<open>The callback\<close>

text \<open>The variables the callback of \<^verbatim>\<open>readMetaFrame\<close> captures.\<close>

record meta_state =
  ms_Fields :: "HeaderField list"
  ms_Truncated :: bool
  ms_remainSize :: u32
  ms_sawRegular :: bool
  ms_invalid :: "header_error option"

text \<open>The callback, and whether emission stays enabled.\<close>

definition meta_check :: "HeaderField \<Rightarrow> meta_state \<Rightarrow> meta_state" where
  "meta_check hf ms =
     (let ms = (if \<not> ValidHeaderFieldValue (Value hf)
                then ms\<lparr>ms_invalid := Some (HeaderFieldValueError (Value hf))\<rparr> else ms);
          isPseudo = (take 1 (Name hf) = [0x3a]) in
      if isPseudo then
        (if ms_sawRegular ms then ms\<lparr>ms_invalid := Some ErrPseudoAfterRegular\<rparr> else ms)
      else
        let ms = ms\<lparr>ms_sawRegular := True\<rparr> in
        if \<not> validWireHeaderFieldName (Name hf)
        then ms\<lparr>ms_invalid := Some (HeaderFieldNameError (Name hf))\<rparr> else ms)"

definition meta_emit :: "HeaderField \<Rightarrow> meta_state \<Rightarrow> meta_state \<times> bool" where
  "meta_emit hf ms =
     (let ms = meta_check hf ms in
      if ms_invalid ms \<noteq> None then (ms, False)
      else
        let size = Size hf in
        if size > ms_remainSize ms then (ms\<lparr>ms_Truncated := True\<rparr>, False)
        else (ms\<lparr>ms_remainSize := ms_remainSize ms - size, ms_Fields := ms_Fields ms @ [hf]\<rparr>, True))"

text \<open>
  The HPACK decoder with this callback.  A representation emits at most one field, and it does so
  as its last action; the decoder's own record of emitted fields is that of other callbacks and is
  kept.
\<close>

definition meta_repr :: "Decoder \<Rightarrow> meta_state \<Rightarrow> Decoder \<times> meta_state \<times> hpack_error option" where
  "meta_repr d ms =
     (case parseHeaderFieldRepr (d\<lparr>emitted := []\<rparr>) of
        (d', eo) \<Rightarrow>
          (case emitted d' of
             [] \<Rightarrow> (d'\<lparr>emitted := emitted d\<rparr>, ms, eo)
           | hf # _ \<Rightarrow>
               (case meta_emit hf ms of
                  (ms', on) \<Rightarrow>
                    ((if on then d' else SetEmitEnabled False d')\<lparr>emitted := emitted d\<rparr>, ms', eo))))"

lemma meta_repr_consumes:
  assumes "dbuf d \<noteq> []" "meta_repr d ms = (d', ms', None)"
  shows "length (dbuf d') < length (dbuf d)"
proof -
  obtain d1 eo where p: "parseHeaderFieldRepr (d\<lparr>emitted := []\<rparr>) = (d1, eo)" by fastforce
  then have "eo = None" "dbuf d' = dbuf d1"
    using assms(2) by (auto simp: meta_repr_def SetEmitEnabled_def split: list.splits prod.splits if_splits)
  then show ?thesis
    using repr_consumes [of "d\<lparr>emitted := []\<rparr>" d1] p assms(1) by simp
qed

function meta_write_loop :: "Decoder \<Rightarrow> meta_state \<Rightarrow> Decoder \<times> meta_state \<times> hpack_error option" where
  "meta_write_loop d ms =
     (if dbuf d = [] then (d, ms, None)
      else
        (case meta_repr d ms of
           (d', ms', None) \<Rightarrow> meta_write_loop d' ms'
         | (d', ms', Some e) \<Rightarrow> (d', ms', Some e)))"
  by pat_completeness auto
termination
  by (relation "measure (\<lambda>(d, ms). length (dbuf d))") (auto dest: meta_repr_consumes [OF _ sym])

declare meta_write_loop.simps [simp del]

definition meta_Write :: "bytes \<Rightarrow> Decoder \<Rightarrow> meta_state \<Rightarrow> Decoder \<times> meta_state \<times> hpack_error option" where
  "meta_Write p d ms =
     (if p = [] then (d, ms, None)
      else
        let d1 = (if saveBuf d = [] then d\<lparr>dbuf := p\<rparr> else d\<lparr>dbuf := saveBuf d @ p, saveBuf := []\<rparr>) in
        case meta_write_loop d1 ms of
          (d2, ms2, Some ErrNeedMore) \<Rightarrow>
            if maxStrLen d2 \<noteq> 0 \<and> int (length (dbuf d2)) > 2 * (maxStrLen d2 + 8)
            then (d2, ms2, Some ErrStringLength)
            else (d2\<lparr>saveBuf := saveBuf d2 @ dbuf d2\<rparr>, ms2, None)
        | (d2, ms2, err) \<Rightarrow> (d2, ms2, err))"

section \<open>Reading a header block\<close>

text \<open>The conversion to \<^verbatim>\<open>int\<close>, which has 64 bits.\<close>

definition maxHeaderStringLen :: "'e Framer \<Rightarrow> int" where
  "maxHeaderStringLen fr =
     (let v = maxHeaderListSize fr in
      if ucast (ucast v :: u64) = v then sint (ucast v :: u64) else 0)"

text \<open>Any error of the decoder closes the connection; a panic of it stays one.\<close>

definition hpack_failure :: "hpack_error \<Rightarrow> 'e http2_error" where
  "hpack_failure e =
     (if e = PanicBadN \<or> e = PanicIndex \<or> e = PanicTable \<or> e = Diverges then Panic else ConnectionError ErrCodeCompression)"

definition meta_init :: "'e Framer \<Rightarrow> meta_state" where
  "meta_init fr =
     \<lparr>ms_Fields = [], ms_Truncated = False, ms_remainSize = maxHeaderListSize fr, ms_sawRegular = False, ms_invalid = None\<rparr>"

definition meta_setup :: "'e Framer \<Rightarrow> 'e Framer" where
  "meta_setup fr =
     fr\<lparr>fr_ReadMetaHeaders :=
       map_option (\<lambda>d. SetMaxStringLength (maxHeaderStringLen fr) (SetEmitEnabled True d)) (fr_ReadMetaHeaders fr)\<rparr>"

text \<open>
  After the last frame of the block.  If the block is a single frame, it is also the framer's last
  frame, so that its octets are dropped and it is invalid there too.
\<close>

fun meta_release :: "Frame \<Rightarrow> Frame" where
  "meta_release (HeadersFrame h p b) = HeadersFrame (invalid_header h) p []"
| "meta_release f = f"

definition meta_finish ::
    "FrameHeader \<Rightarrow> PriorityParam \<Rightarrow> Decoder \<Rightarrow> meta_state \<Rightarrow> 'e Framer \<Rightarrow> ('e http2_error + Frame) \<times> 'e Framer" where
  "meta_finish h pr d ms fr =
     (let mh = \<lparr>mh_Header = invalid_header h, mh_Priority = pr, mh_Fields = ms_Fields ms, mh_Truncated = ms_Truncated ms\<rparr>;
          fr = fr\<lparr>fr_lastFrame := map_option meta_release (fr_lastFrame fr)\<rparr>;
          malformed = (\<lambda>e fr. (Inl (StreamErr \<lparr>se_StreamID = fh_StreamID h, se_Code = ErrCodeProtocol, se_Cause = Some e\<rparr>),
                               fr\<lparr>fr_errDetail := Some (InvalidHeader e)\<rparr>)) in
      case Close d of
        (d, Some e) \<Rightarrow> (Inl (ConnectionError ErrCodeCompression), fr\<lparr>fr_ReadMetaHeaders := Some d\<rparr>)
      | (d, None) \<Rightarrow>
          let fr = fr\<lparr>fr_ReadMetaHeaders := Some d\<rparr> in
          (case ms_invalid ms of
             Some e \<Rightarrow> malformed e fr
           | None \<Rightarrow>
               (case checkPseudos (mh_Fields mh) of
                  Some e \<Rightarrow> malformed e fr
                | None \<Rightarrow> (Inr (MetaFrame mh), fr))))"

lemma checkFrameOrder_reader: "checkFrameOrder f fr = (eo, fr') \<Longrightarrow> fr_r fr' = fr_r fr"
  by (auto simp: checkFrameOrder_def Let_def Framer_connError_def split: sum.splits option.splits if_splits)

lemma read_frame_shorter:
  assumes "read_frame g = (Inr f, g')"
  shows "length (rd_data (fr_r g')) < length (rd_data (fr_r g))"
proof -
  let ?r = "fr_r g"
  obtain fh where hd: "readFrameHeader ?r = (Inr fh, ?r\<lparr>rd_data := drop 9 (rd_data ?r)\<rparr>)" "9 \<le> length (rd_data ?r)"
    using readFrameHeader_cases [of ?r] assms by (auto simp: read_frame_def Let_def)
  let ?r1 = "?r\<lparr>rd_data := drop 9 (rd_data ?r)\<rparr>" and ?n = "unat (fh_Length fh)"
  have "\<exists>p. io_ReadFull ?n ?r1 = (Inr p, ?r1\<lparr>rd_data := drop ?n (rd_data ?r1)\<rparr>)"
    using io_ReadFull_cases [of ?n ?r1] assms hd(1) by (auto simp: read_frame_def Let_def split: if_splits)
  then have "fr_r g' = ?r1\<lparr>rd_data := drop ?n (rd_data ?r1)\<rparr>"
    using assms hd(1)
    by (auto simp: read_frame_def Let_def Framer_connError_def dest: checkFrameOrder_reader
        split: if_splits sum.splits http2_error.splits prod.splits option.splits)
  then show ?thesis
    using hd(2) by simp
qed

function meta_loop ::
    "FrameHeader \<Rightarrow> PriorityParam \<Rightarrow> Frame \<Rightarrow> meta_state \<Rightarrow> 'e Framer \<Rightarrow> ('e http2_error + Frame) \<times> 'e Framer" where
  "meta_loop h pr hc ms fr =
     (case (fr_ReadMetaHeaders fr, Frame_payload hc) of
        (None, _) \<Rightarrow> (Inl Panic, fr)
      | (_, Inl e) \<Rightarrow> (Inl e, fr)
      | (Some d, Inr frag) \<Rightarrow>
          (case meta_Write frag d ms of
             (d, ms, Some e) \<Rightarrow> (Inl (hpack_failure e), fr\<lparr>fr_ReadMetaHeaders := Some d\<rparr>)
           | (d, ms, None) \<Rightarrow>
               if Frame_HeadersEnded hc then meta_finish h pr d ms fr
               else
                 (case read_frame (fr\<lparr>fr_ReadMetaHeaders := Some d\<rparr>) of
                    (Inl e, fr) \<Rightarrow> (Inl e, fr)
                  | (Inr (ContinuationFrame ch b), fr) \<Rightarrow> meta_loop h pr (ContinuationFrame ch b) ms fr
                  | (Inr (HeadersFrame ch cp b), fr) \<Rightarrow>
                      (case meta_loop ch cp (HeadersFrame ch cp b) (meta_init fr) (meta_setup fr) of
                         (Inl e, fr) \<Rightarrow> (Inl e, fr)
                       | (Inr _, fr) \<Rightarrow> (Inl Panic, fr))
                  | (Inr _, fr) \<Rightarrow> (Inl Panic, fr))))"
  by pat_completeness auto
termination
  by (relation "measure (\<lambda>(h, pr, hc, ms, fr). length (rd_data (fr_r fr)))")
    (auto simp: meta_setup_def dest!: read_frame_shorter [OF sym])

declare meta_loop.simps [simp del]

definition readMetaFrame ::
    "FrameHeader \<Rightarrow> PriorityParam \<Rightarrow> bytes \<Rightarrow> 'e Framer \<Rightarrow> ('e http2_error + Frame) \<times> 'e Framer" where
  "readMetaFrame h pr b fr =
     (if fr_AllowIllegalReads fr then (Inl ErrIllegalReadsMeta, fr)
      else meta_loop h pr (HeadersFrame h pr b) (meta_init fr) (meta_setup fr))"

text \<open>The frame of a HEADERS header is a \<^verbatim>\<open>HeadersFrame\<close>; the conversion panics on any other.\<close>

definition ReadFrame :: "'e Framer \<Rightarrow> ('e http2_error + Frame) \<times> 'e Framer" where
  "ReadFrame fr =
     (case read_frame fr of
        (Inl e, fr) \<Rightarrow> (Inl e, fr)
      | (Inr f, fr) \<Rightarrow>
          if fh_Type (Frame_Header f) = FrameHeaders \<and> fr_ReadMetaHeaders fr \<noteq> None then
            (case f of
               HeadersFrame h pr b \<Rightarrow> readMetaFrame h pr b fr
             | _ \<Rightarrow> (Inl Panic, fr))
          else (Inr f, fr))"

end
