(* ===== verification/HTTP2_Meta_Properties.thy ===== *)
theory HTTP2_Meta_Properties
  imports HTTP2_Meta
begin

text \<open>
  The properties of \<^verbatim>\<open>ReadFrame\<close> with \<^verbatim>\<open>ReadMetaHeaders\<close> set: what its documentation promises of the
  header lists it returns, and that no input makes it panic.
\<close>

section \<open>What the callback keeps\<close>

definition field_valid :: "HeaderField \<Rightarrow> bool" where
  "field_valid hf \<longleftrightarrow> ValidHeaderFieldValue (Value hf) \<and> (IsPseudo hf \<or> validWireHeaderFieldName (Name hf))"

definition meta_inv :: "u32 \<Rightarrow> meta_state \<Rightarrow> bool" where
  "meta_inv mx ms \<longleftrightarrow>
     list_all field_valid (ms_Fields ms) \<and> list_all (\<lambda>hf. \<not> IsPseudo hf) (RegularFields (ms_Fields ms)) \<and>
     (\<not> ms_sawRegular ms \<longrightarrow> list_all IsPseudo (ms_Fields ms)) \<and>
     (mx \<le> 0x7fffffef \<longrightarrow> total_size (ms_Fields ms) + unat (ms_remainSize ms) = unat mx)"

lemma is_pseudo_prefix: "take 1 (Name hf) = [0x3a] \<longleftrightarrow> IsPseudo hf"
  by (cases "Name hf") (auto simp: IsPseudo_def)

lemma RegularFields_snoc_pseudo: "list_all IsPseudo hfs \<Longrightarrow> IsPseudo hf \<Longrightarrow> RegularFields (hfs @ [hf]) = []"
  by (induction hfs) auto

lemma RegularFields_snoc_regular: "\<not> IsPseudo hf \<Longrightarrow> RegularFields (hfs @ [hf]) = RegularFields hfs @ [hf]"
  by (induction hfs) auto

lemma total_size_snoc: "total_size (hfs @ [hf]) = total_size hfs + hf_size hf"
  by (simp add: total_size_def)

lemma meta_check_sel [simp]:
  "ms_Fields (meta_check hf ms) = ms_Fields ms" "ms_remainSize (meta_check hf ms) = ms_remainSize ms"
  "ms_Truncated (meta_check hf ms) = ms_Truncated ms"
  by (simp_all add: meta_check_def Let_def)

lemma meta_check_valid:
  assumes "ms_invalid (meta_check hf ms) = None"
  shows "field_valid hf" "IsPseudo hf \<longrightarrow> \<not> ms_sawRegular ms" "ms_sawRegular (meta_check hf ms) = (ms_sawRegular ms \<or> \<not> IsPseudo hf)"
  using assms unfolding meta_check_def Let_def is_pseudo_prefix by (auto simp: field_valid_def split: if_splits)

text \<open>The sizes do not wrap: the decoder emits no name or value longer than the limit.\<close>

definition fits :: "u32 \<Rightarrow> HeaderField \<Rightarrow> bool" where
  "fits mx hf \<longleftrightarrow> length (Name hf) \<le> unat mx \<and> length (Value hf) \<le> unat mx"

lemma meta_emit_inv:
  assumes "meta_inv mx ms" "fits mx hf" "meta_emit hf ms = (ms', on)"
  shows "meta_inv mx ms'"
proof (cases "on")
  case False
  then have ms': "ms_Fields ms' = ms_Fields ms" "ms_remainSize ms' = ms_remainSize ms" "ms_sawRegular ms' = ms_sawRegular (meta_check hf ms)"
    using assms(3) by (auto simp: meta_emit_def Let_def split: if_splits)
  have "ms_sawRegular ms \<longrightarrow> ms_sawRegular (meta_check hf ms)"
    by (simp add: meta_check_def Let_def)
  with ms' assms(1) show ?thesis by (auto simp: meta_inv_def)
next
  case True
  then have inv: "ms_invalid (meta_check hf ms) = None" and size: "Size hf \<le> ms_remainSize ms"
    and ms': "ms' = (meta_check hf ms)\<lparr>ms_remainSize := ms_remainSize ms - Size hf, ms_Fields := ms_Fields ms @ [hf]\<rparr>"
    using assms(3) by (auto simp: meta_emit_def Let_def split: if_splits)
  have "hf_size hf < 2 ^ 32" if "mx \<le> 0x7fffffef"
    using that assms(2) by (simp add: word_le_nat_alt fits_def hf_size_def)
  then have "unat (Size hf) = hf_size hf" if "mx \<le> 0x7fffffef"
    using that by (simp only: Size_eq unsigned_of_nat) (simp add: take_bit_nat_eq_self)
  moreover have "unat (ms_remainSize ms - Size hf) = unat (ms_remainSize ms) - unat (Size hf)"
    using size by (simp add: unat_sub)
  ultimately show ?thesis
    using assms(1) ms' size meta_check_valid [OF inv]
    by (cases "IsPseudo hf")
      (auto simp: meta_inv_def total_size_snoc RegularFields_snoc_pseudo RegularFields_snoc_regular word_le_nat_alt)
qed

section \<open>The decoder with the callback\<close>

lemma callEmit_emitted:
  assumes "callEmit hf d = (d', eo)"
  shows "emitted d' = emitted d \<or>
    emitted d' = emitted d @ [hf] \<and> eo = None \<and> (maxStrLen d \<noteq> 0 \<longrightarrow> int (length (Name hf)) \<le> maxStrLen d \<and> int (length (Value hf)) \<le> maxStrLen d)"
  using assms by (auto simp: callEmit_def split: if_splits)

lemma repr_emitted:
  assumes "parseHeaderFieldRepr d = (d', eo)"
  obtains "emitted d' = emitted d"
  | hf where "emitted d' = emitted d @ [hf]" "eo = None"
      "maxStrLen d \<noteq> 0 \<longrightarrow> int (length (Name hf)) \<le> maxStrLen d \<and> int (length (Value hf)) \<le> maxStrLen d"
proof -
  have "emitted d' = emitted d \<or> (\<exists>hf. emitted d' = emitted d @ [hf] \<and> eo = None \<and>
      (maxStrLen d \<noteq> 0 \<longrightarrow> int (length (Name hf)) \<le> maxStrLen d \<and> int (length (Value hf)) \<le> maxStrLen d))"
    using assms
    by (auto simp: parseHeaderFieldRepr_def parseFieldIndexed_def parseFieldLiteral_alt parseDynamicTableSizeUpdate_def Let_def
        split: if_splits sum.splits option.splits dest!: callEmit_emitted)
  with that show thesis by blast
qed

text \<open>The state of the decoder and the callback: \<open>n\<close> is the number of octets the decoder may still get.\<close>

definition meta_dec :: "u32 \<Rightarrow> nat \<Rightarrow> Decoder \<Rightarrow> meta_state \<Rightarrow> bool" where
  "meta_dec mx n d ms \<longleftrightarrow>
     dec_safe d \<and> maxStrLen d = int (unat mx) \<and> mx \<noteq> 0 \<and> meta_inv mx ms \<and> dyn_used (dynTab d) + n < 2 ^ 64"

lemma meta_repr_safe:
  assumes "meta_dec mx (n + length (dbuf d)) d ms" "dbuf d \<noteq> []" "meta_repr d ms = (d', ms', eo)"
  shows "meta_dec mx (if eo = None \<or> eo = Some ErrNeedMore then n + length (dbuf d') else 0) d' ms' \<and>
    (\<forall>e. eo = Some e \<longrightarrow> no_panic e) \<and> saveBuf d' = saveBuf d"
proof -
  let ?d = "d\<lparr>emitted := []\<rparr>"
  obtain d1 where p: "parseHeaderFieldRepr ?d = (d1, eo)"
    using assms(3) by (auto simp: meta_repr_def split: prod.splits list.splits)
  have d': "dynTab d' = dynTab d1" "dbuf d' = dbuf d1" "saveBuf d' = saveBuf d1" "maxStrLen d' = maxStrLen d1"
    using assms(3) p by (auto simp: meta_repr_def SetEmitEnabled_def split: prod.splits list.splits if_splits)
  have mx: "maxStrLen d = int (unat mx)" "mx \<noteq> 0" "unat mx \<noteq> 0" and safe: "dec_safe ?d" "Suc (dyn_used (dynTab ?d)) < 2 ^ 64"
    and inv: "meta_inv mx ms"
    using assms(1,2) by (auto simp: meta_dec_def dec_safe_def unat_eq_zero Suc_le_eq)
      (cases "dbuf d"; simp)
  have nonempty: "dbuf ?d \<noteq> []" using assms(2) by simp
  note step = repr_safe [OF safe nonempty, unfolded p safe_step_def prod.case] and keep = repr_keeps [OF p]
  note st = stable_repr [of ?d, unfolded stable_def p prod.case]
  have used: "dyn_used (dynTab d1) + (if eo = None \<or> eo = Some ErrNeedMore then n + length (dbuf d1) else 0) < 2 ^ 64"
    using step st safe(2) assms(1,2) by (auto simp: meta_dec_def split: if_splits)
  have "meta_inv mx ms'"
    using p
  proof (cases rule: repr_emitted)
    case 1
    then show ?thesis
      using inv assms(3) p by (simp add: meta_repr_def)
  next
    case (2 hf)
    then have "fits mx hf"
      using mx by (simp add: fits_def del: of_nat_unat)
    then show ?thesis
      using 2(1) assms(3) p inv meta_emit_inv [of mx ms hf ms'] by (auto simp: meta_repr_def split: prod.splits)
  qed
  then show ?thesis
    using d' step keep used mx by (auto simp: meta_dec_def dec_safe_def)
qed

lemma meta_write_loop_safe:
  assumes "meta_dec mx (n + length (dbuf d)) d ms" "meta_write_loop d ms = (d', ms', eo)"
  shows "meta_dec mx (if eo = None \<or> eo = Some ErrNeedMore then n + length (dbuf d') else 0) d' ms' \<and>
    (\<forall>e. eo = Some e \<longrightarrow> no_panic e) \<and> saveBuf d' = saveBuf d \<and> (eo = None \<longrightarrow> dbuf d' = [])"
  using assms
proof (induction d ms rule: meta_write_loop.induct)
  case (1 d ms)
  show ?case
  proof (cases "dbuf d = []")
    case True
    with "1.prems" show ?thesis by (simp add: meta_write_loop.simps [of d])
  next
    case False
    obtain d1 ms1 e1 where rep: "meta_repr d ms = (d1, ms1, e1)" by (cases "meta_repr d ms")
    note step = meta_repr_safe [OF "1.prems"(1) False rep]
    show ?thesis
    proof (cases e1)
      case None
      then have "meta_write_loop d1 ms1 = (d', ms', eo)"
        using "1.prems"(2) False rep by (simp add: meta_write_loop.simps [of d])
      with "1.IH" [OF False rep [symmetric] refl None] step None show ?thesis by auto
    next
      case (Some e)
      then show ?thesis
        using "1.prems"(2) False rep step by (auto simp: meta_write_loop.simps [of d])
    qed
  qed
qed

lemma meta_Write_safe:
  assumes "meta_dec mx (n + length (saveBuf d) + length p) d ms" "meta_Write p d ms = (d', ms', eo)"
  shows "(\<forall>e. eo = Some e \<longrightarrow> no_panic e) \<and> meta_dec mx 0 d' ms' \<and>
    (eo = None \<longrightarrow> meta_dec mx (n + length (saveBuf d')) d' ms')"
proof (cases "p = []")
  case True
  with assms show ?thesis by (auto simp: meta_Write_def meta_dec_def)
next
  case False
  have load: "(if saveBuf d = [] then d\<lparr>dbuf := p\<rparr> else d\<lparr>dbuf := saveBuf d @ p, saveBuf := []\<rparr>) = load p d"
    by (simp add: load_def)
  obtain d2 ms2 e2 where loop: "meta_write_loop (load p d) ms = (d2, ms2, e2)"
    by (cases "meta_write_loop (load p d) ms")
  have "meta_dec mx (n + length (dbuf (load p d))) (load p d) ms"
    using assms(1) by (simp add: load_def meta_dec_def dec_safe_def)
  note safe = meta_write_loop_safe [OF this loop]
  show ?thesis
    using assms(2) False safe unfolding meta_Write_def Let_def load loop
    by (auto simp: meta_dec_def dec_safe_def load_def split: option.splits hpack_error.splits if_splits)
qed

section \<open>The lists of fields\<close>

lemma check_pseudos_iff:
  "check_pseudos seen rq rp pf = None \<longleftrightarrow>
     distinct (map Name pf) \<and> set (map Name pf) \<inter> set (map Name seen) = {} \<and>
     set (map Name pf) \<subseteq> insert status_pseudo (set request_pseudos) \<and>
     \<not> ((rq \<or> set (map Name pf) \<inter> set request_pseudos \<noteq> {}) \<and> (rp \<or> status_pseudo \<in> set (map Name pf)))"
  by (induction seen rq rp pf rule: check_pseudos.induct) (auto 0 3)

definition fields_ok :: "u32 \<Rightarrow> HeaderField list \<Rightarrow> bool" where
  "fields_ok mx hfs \<longleftrightarrow>
     hfs = PseudoFields hfs @ RegularFields hfs \<and>
     list_all IsPseudo (PseudoFields hfs) \<and> list_all (\<lambda>hf. \<not> IsPseudo hf) (RegularFields hfs) \<and>
     distinct (map Name (PseudoFields hfs)) \<and>
     (set (map Name (PseudoFields hfs)) \<subseteq> set request_pseudos \<or> set (map Name (PseudoFields hfs)) \<subseteq> {status_pseudo}) \<and>
     list_all (\<lambda>hf. validWireHeaderFieldName (Name hf)) (RegularFields hfs) \<and>
     list_all (\<lambda>hf. ValidHeaderFieldValue (Value hf)) hfs \<and>
     (mx \<le> 0x7fffffef \<longrightarrow> total_size hfs \<le> unat mx)"

lemma fields_split: "hfs = PseudoFields hfs @ RegularFields hfs" "list_all IsPseudo (PseudoFields hfs)"
  by (induction hfs) auto

lemma RegularFields_subset: "set (RegularFields hfs) \<subseteq> set hfs"
  by (induction hfs) auto

lemma meta_fields_ok:
  assumes "meta_inv mx ms" "checkPseudos (ms_Fields ms) = None"
  shows "fields_ok mx (ms_Fields ms)"
proof -
  let ?fs = "ms_Fields ms"
  have "list_all (\<lambda>hf. validWireHeaderFieldName (Name hf)) (RegularFields ?fs)"
    using assms(1) RegularFields_subset [of ?fs] by (auto simp: meta_inv_def list_all_iff field_valid_def)
  moreover have "list_all (\<lambda>hf. ValidHeaderFieldValue (Value hf)) ?fs"
    using assms(1) by (auto simp: meta_inv_def list_all_iff field_valid_def)
  moreover have "set (map Name (PseudoFields ?fs)) \<subseteq> set request_pseudos \<or> set (map Name (PseudoFields ?fs)) \<subseteq> {status_pseudo}"
    "distinct (map Name (PseudoFields ?fs))"
    using assms(2) unfolding checkPseudos_def check_pseudos_iff by blast+
  ultimately show ?thesis
    using assms(1) fields_split [of ?fs] by (auto simp: fields_ok_def meta_inv_def)
qed

section \<open>Reading a block\<close>

lemma maxHeaderListSize_nonzero: "maxHeaderListSize fr \<noteq> 0"
  by (simp add: maxHeaderListSize_def)

lemma maxHeaderStringLen_eq: "maxHeaderStringLen fr = int (unat (maxHeaderListSize fr))"
proof -
  have "ucast (ucast v :: u64) = v" for v :: u32
    by (rule bit_word_eqI) (simp add: bit_simps)
  moreover have "signed_take_bit 63 (uint v) = uint v" for v :: u32
  proof (rule signed_take_bit_int_eq_self)
    show "- (2 ^ 63) \<le> uint v"
      by (rule order_trans [OF _ unsigned_greater_eq]) simp
    show "uint v < 2 ^ 63"
      using unsigned_less [of v, where 'a = int] by simp
  qed
  then have "sint (ucast v :: u64) = uint v" for v :: u32
    by (simp add: signed_ucast_eq)
  ultimately show ?thesis by (simp add: maxHeaderStringLen_def Let_def)
qed

lemma checkFrameOrder_keeps:
  "checkFrameOrder f fr = (eo, fr') \<Longrightarrow>
     fr_ReadMetaHeaders fr' = fr_ReadMetaHeaders fr \<and> fr_MaxHeaderListSize fr' = fr_MaxHeaderListSize fr"
  by (auto simp: checkFrameOrder_def Let_def Framer_connError_def split: sum.splits option.splits if_splits)

lemma read_frame_keeps:
  "read_frame g = (r, g') \<Longrightarrow>
     fr_ReadMetaHeaders g' = fr_ReadMetaHeaders g \<and> fr_MaxHeaderListSize g' = fr_MaxHeaderListSize g"
  by (auto simp: read_frame_def Let_def Framer_connError_def dest: checkFrameOrder_keeps
      split: if_splits sum.splits http2_error.splits prod.splits option.splits)

text \<open>What a call leaves as it was, and the octets it takes.\<close>

definition kept :: "'e Framer \<Rightarrow> 'e Framer \<Rightarrow> bool" where
  "kept g g' \<longleftrightarrow>
     fr_maxReadSize g' = fr_maxReadSize g \<and> fr_AllowIllegalReads g' = fr_AllowIllegalReads g \<and>
     fr_MaxHeaderListSize g' = fr_MaxHeaderListSize g \<and> (\<exists>used. rd_data (fr_r g) = used @ rd_data (fr_r g'))"

lemma kept_trans: "kept g1 g2 \<Longrightarrow> kept g2 g3 \<Longrightarrow> kept g1 g3"
  by (fastforce simp: kept_def)

lemma read_frame_kept:
  assumes "framer_inv g" "read_frame g = (r, g')"
  shows "kept g g'"
  using assms(1)
proof (cases rule: read_frame_cases)
  case (error e g1)
  then show ?thesis
    using assms(2) read_frame_keeps [OF assms(2)] by (auto simp: kept_def read_error_def)
next
  case (frame f g1)
  then show ?thesis
    using assms(2) read_frame_keeps [OF assms(2)] by (auto simp: kept_def read_ok_def)
qed

text \<open>A framer between two calls: its decoder is safe, and what is still to come does not exhaust the counters.\<close>

definition meta_framer :: "'e Framer \<Rightarrow> bool" where
  "meta_framer g \<longleftrightarrow>
     framer_inv g \<and> \<not> fr_AllowIllegalReads g \<and>
     (\<exists>d. fr_ReadMetaHeaders g = Some d \<and> dec_safe d \<and>
        dyn_used (dynTab d) + length (saveBuf d) + length (rd_data (fr_r g)) < 2 ^ 64)"

definition block_result :: "u32 \<Rightarrow> FrameHeader \<Rightarrow> ('e http2_error + Frame) \<times> 'e Framer \<Rightarrow> 'e Framer \<Rightarrow> bool" where
  "block_result mx h r g \<longleftrightarrow>
     (case r of (Inl e, g') \<Rightarrow> e \<noteq> Panic \<and> (terminalReadFrameError (Some e) \<or> meta_framer g') \<and> kept g g'
      | (Inr f, g') \<Rightarrow> (\<exists>m. f = MetaFrame m \<and> mh_Header m = invalid_header h \<and> fields_ok mx (mh_Fields m)) \<and> meta_framer g' \<and> kept g g')"

lemma meta_finish_result:
  assumes "framer_inv fr" "\<not> fr_AllowIllegalReads fr"
    "meta_dec mx (length (rd_data (fr_r fr)) + length (saveBuf d)) d ms"
  shows "block_result mx h (meta_finish h pr d ms fr) fr"
proof -
  have "framer_inv (fr\<lparr>fr_lastFrame := map_option meta_release (fr_lastFrame fr), fr_ReadMetaHeaders := x\<rparr>)"
    "framer_inv (fr\<lparr>fr_lastFrame := map_option meta_release (fr_lastFrame fr), fr_ReadMetaHeaders := x, fr_errDetail := y\<rparr>)" for x y
    using assms(1) by (simp_all add: framer_inv_def)
  then show ?thesis
    using assms(2,3) meta_fields_ok [of mx ms]
    by (auto simp: meta_finish_def Let_def Close_def block_result_def meta_framer_def kept_def meta_dec_def split: option.split)
qed

lemma meta_loop_result:
  assumes "framer_inv fr" "\<not> fr_AllowIllegalReads fr" "fr_ReadMetaHeaders fr = Some d" "Frame_payload hc = (Inr frag :: 'e http2_error + bytes)"
    and "Frame_HeadersEnded hc \<or> fr_lastHeaderStream fr \<noteq> 0"
    and "meta_dec mx (length (rd_data (fr_r fr)) + length (saveBuf d) + length frag) d ms"
  shows "block_result mx h (meta_loop h pr hc ms (fr :: 'e Framer)) fr"
  using assms
proof (induction h pr hc ms fr arbitrary: d frag rule: meta_loop.induct)
  case (1 h pr hc ms fr)
  obtain d1 ms1 eo where w: "meta_Write frag d ms = (d1, ms1, eo)" by (cases "meta_Write frag d ms")
  note safe = meta_Write_safe [OF "1.prems"(6) w]
  let ?fr = "fr\<lparr>fr_ReadMetaHeaders := Some d1\<rparr>"
  have inv: "framer_inv ?fr"
    using "1.prems"(1) by (simp add: framer_inv_def)
  consider (failed) e where "eo = Some e" | (ended) "eo = None" "Frame_HeadersEnded hc"
    | (more) "eo = None" "\<not> Frame_HeadersEnded hc"
    by (cases eo) auto
  then show ?case
  proof cases
    case failed
    then show ?thesis
      using safe w "1.prems"(3,4) by (simp add: meta_loop.simps [of h] block_result_def hpack_failure_def no_panic_def kept_def)
  next
    case ended
    then show ?thesis
      using safe w "1.prems" meta_finish_result [OF "1.prems"(1,2), of mx d1 ms1] by (simp add: meta_loop.simps [of h])
  next
    case more
    note dec = safe [THEN conjunct2, THEN conjunct2, rule_format, OF more(1)]
    from inv show ?thesis
    proof (cases rule: read_frame_cases)
      case (error e g)
      then have "meta_framer g" "e \<noteq> Panic" "kept fr g"
        using read_frame_keeps [OF error(1)] "1.prems"(2) dec by (auto simp: read_error_def meta_framer_def meta_dec_def kept_def)
      then show ?thesis
        using more w error(1) "1.prems"(3,4) by (simp add: meta_loop.simps [of h] block_result_def)
    next
      case (frame f g)
      then have "fh_Type (Frame_Header f) = FrameContinuation" "body_ok f" "fh_valid (Frame_Header f)"
        using more "1.prems"(2,5) by (auto simp: read_ok_def may_follow_def frame_ok_def)
      then obtain ch b where f: "f = ContinuationFrame ch b" "fh_valid ch" "length b = unat (fh_Length ch)" "fh_StreamID ch \<noteq> 0"
        by (cases f) (auto simp: go_defs)
      have "block_result mx h (meta_loop h pr (ContinuationFrame ch b) ms1 g) g"
      proof (rule "1.IH"(2) [where d = d1 and frag = b])
        show "Frame_HeadersEnded (ContinuationFrame ch b) \<or> fr_lastHeaderStream g \<noteq> 0"
          using frame(2) f \<open>fh_Type (Frame_Header f) = FrameContinuation\<close> "1.prems"(2)
          by (auto simp: read_ok_def block_after_def go_defs)
        show "meta_dec mx (length (rd_data (fr_r g)) + length (saveBuf d1) + length b) d1 ms1"
          using dec frame(2) f(1,3) by (auto simp: read_ok_def frame_size_def meta_dec_def)
      qed (use more w frame read_frame_keeps [OF frame(1)] "1.prems"(2,3,4) f in \<open>auto simp: read_ok_def checkValid_def\<close>)
      moreover have "kept fr g"
        using read_frame_kept [OF inv frame(1)] by (simp add: kept_def)
      ultimately show ?thesis
        using more w frame(1) f(1) "1.prems"(3,4)
        by (auto simp: meta_loop.simps [of h] block_result_def split: sum.splits dest: kept_trans)
    qed
  qed
qed

text \<open>One call of \<^verbatim>\<open>ReadFrame\<close>.\<close>

definition frame_returned :: "'e Framer \<Rightarrow> Frame \<Rightarrow> bool" where
  "frame_returned g f \<longleftrightarrow>
     (case f of
        MetaFrame m \<Rightarrow> fh_Type (mh_Header m) = FrameHeaders \<and> fh_StreamID (mh_Header m) \<noteq> 0 \<and>
          fields_ok (maxHeaderListSize g) (mh_Fields m)
      | HeadersFrame h p b \<Rightarrow> False
      | _ \<Rightarrow> frame_ok (fr_maxReadSize g) f)"

definition call_result :: "('e http2_error + Frame) \<times> 'e Framer \<Rightarrow> 'e Framer \<Rightarrow> bool" where
  "call_result r g \<longleftrightarrow>
     (case r of (Inl e, g') \<Rightarrow> e \<noteq> Panic \<and> (terminalReadFrameError (Some e) \<or> meta_framer g') \<and> kept g g'
      | (Inr f, g') \<Rightarrow> frame_returned g f \<and> meta_framer g' \<and> kept g g')"

lemma maxHeaderListSize_kept: "kept g g' \<Longrightarrow> maxHeaderListSize g' = maxHeaderListSize g"
  by (simp add: kept_def maxHeaderListSize_def)

lemma meta_framer_after:
  assumes "meta_framer g" "framer_inv g'" "kept g g'" "fr_ReadMetaHeaders g' = fr_ReadMetaHeaders g"
  shows "meta_framer g'"
  using assms by (auto simp: meta_framer_def kept_def)

lemma readMetaFrame_result:
  assumes "meta_framer g" "fh_valid h" "Flags_Has (fh_Flags h) FlagHeadersEndHeaders \<or> fr_lastHeaderStream g \<noteq> 0"
    and "\<And>d. fr_ReadMetaHeaders g = Some d \<Longrightarrow>
      dyn_used (dynTab d) + length (saveBuf d) + length b + length (rd_data (fr_r g)) < 2 ^ 64"
  shows "block_result (maxHeaderListSize g) h (readMetaFrame h pr b g) g"
proof -
  obtain d where d: "fr_ReadMetaHeaders g = Some d" "dec_safe d" "framer_inv g" "\<not> fr_AllowIllegalReads g"
    using assms(1) by (auto simp: meta_framer_def)
  let ?g = "meta_setup g" and ?d = "SetMaxStringLength (maxHeaderStringLen g) (SetEmitEnabled True d)"
  have "block_result (maxHeaderListSize g) h (meta_loop h pr (HeadersFrame h pr b) (meta_init g) ?g) ?g"
  proof (rule meta_loop_result [where d = ?d and frag = b])
    have "meta_inv (maxHeaderListSize g) (meta_init g)"
      by (simp add: meta_inv_def meta_init_def total_size_def)
    then show "meta_dec (maxHeaderListSize g) (length (rd_data (fr_r ?g)) + length (saveBuf ?d) + length b) ?d (meta_init g)"
      using d(2) assms(4) [OF d(1)] maxHeaderListSize_nonzero [of g]
      by (simp add: meta_dec_def meta_setup_def SetMaxStringLength_def SetEmitEnabled_def dec_safe_def maxHeaderStringLen_eq)
  qed (use d assms(2,3) in \<open>auto simp: meta_setup_def framer_inv_def checkValid_def\<close>)
  moreover have "kept ?g = kept g"
    by (simp add: kept_def meta_setup_def fun_eq_iff)
  moreover have "readMetaFrame h pr b g = meta_loop h pr (HeadersFrame h pr b) (meta_init g) ?g"
    using d(4) by (simp add: readMetaFrame_def)
  ultimately show ?thesis
    by (simp only: block_result_def)
qed

lemma ReadFrame_result:
  assumes "meta_framer g"
  shows "call_result (ReadFrame g) g"
proof -
  obtain d where d: "fr_ReadMetaHeaders g = Some d" "framer_inv g" "\<not> fr_AllowIllegalReads g"
      "dyn_used (dynTab d) + length (saveBuf d) + length (rd_data (fr_r g)) < 2 ^ 64"
    using assms by (auto simp: meta_framer_def)
  from d(2) show ?thesis
  proof (cases rule: read_frame_cases)
    case (error e g')
    note kept = read_frame_kept [OF d(2) error(1)] and keeps = read_frame_keeps [OF error(1)]
    have "meta_framer g'"
      using meta_framer_after [OF assms _ kept] keeps error(2) by (simp add: read_error_def)
    with error kept show ?thesis
      by (simp add: ReadFrame_def call_result_def read_error_def)
  next
    case (frame f g')
    note kept = read_frame_kept [OF d(2) frame(1)] and keeps = read_frame_keeps [OF frame(1)]
    have mf: "meta_framer g'" and ok: "frame_ok (fr_maxReadSize g) f"
      using meta_framer_after [OF assms _ kept] keeps frame(2) by (simp_all add: read_ok_def)
    show ?thesis
    proof (cases "fh_Type (Frame_Header f) = FrameHeaders")
      case False
      then show ?thesis
        using frame(1) mf ok kept
        by (cases f) (auto simp: ReadFrame_def call_result_def frame_returned_def frame_ok_def)
    next
      case True
      then obtain h pr b where f: "f = HeadersFrame h pr b" "fh_valid h" "fh_StreamID h \<noteq> 0" "length b \<le> unat (fh_Length h)"
        using ok by (cases f) (auto simp: frame_ok_def go_defs)
      have "block_result (maxHeaderListSize g') h (readMetaFrame h pr b g') g'"
      proof (rule readMetaFrame_result [OF mf f(2)])
        show "Flags_Has (fh_Flags h) FlagHeadersEndHeaders \<or> fr_lastHeaderStream g' \<noteq> 0"
          using frame(2) f True d(3) by (auto simp: read_ok_def block_after_def)
        show "dyn_used (dynTab d') + length (saveBuf d') + length b + length (rd_data (fr_r g')) < 2 ^ 64"
          if "fr_ReadMetaHeaders g' = Some d'" for d'
          using that d(1,4) keeps frame(2) f(1,4) by (auto simp: read_ok_def frame_size_def)
      qed
      moreover have "ReadFrame g = readMetaFrame h pr b g'"
        using frame(1) True f(1) d(1) keeps by (simp add: ReadFrame_def)
      ultimately show ?thesis
        using kept True f(1,3) maxHeaderListSize_kept [OF kept]
        by (auto simp: call_result_def block_result_def frame_returned_def invalid_header_def split: sum.splits dest: kept_trans)
    qed
  qed
qed

section \<open>A run of reads\<close>

fun ReadFrame_run :: "nat \<Rightarrow> 'e Framer \<Rightarrow> ('e http2_error + Frame) list \<times> 'e Framer" where
  "ReadFrame_run 0 fr = ([], fr)"
| "ReadFrame_run (Suc n) fr =
     (case ReadFrame fr of
        (Inl e, fr1) \<Rightarrow>
          if terminalReadFrameError (Some e) then ([Inl e], fr1)
          else (case ReadFrame_run n fr1 of (rs, fr2) \<Rightarrow> (Inl e # rs, fr2))
      | (Inr f, fr1) \<Rightarrow> (case ReadFrame_run n fr1 of (rs, fr2) \<Rightarrow> (Inr f # rs, fr2)))"

lemma frame_returned_kept: "kept g g' \<Longrightarrow> frame_returned g' f = frame_returned g f"
  using maxHeaderListSize_kept [of g g'] by (auto simp: frame_returned_def kept_def split: Frame.split)

lemma ReadFrame_run_result:
  assumes "meta_framer g" "ReadFrame_run n g = (rs, g')"
  shows "Inl Panic \<notin> set rs \<and> (\<forall>f \<in> set (frames_of rs). frame_returned g f) \<and> kept g g'"
  using assms
proof (induction n arbitrary: g rs g')
  case 0
  then show ?case by (simp add: kept_def)
next
  case (Suc n)
  obtain r g1 where one: "ReadFrame g = (r, g1)" by fastforce
  obtain rs1 g2 where run: "ReadFrame_run n g1 = (rs1, g2)" by fastforce
  note res = ReadFrame_result [OF Suc.prems(1), unfolded one call_result_def]
  have ih: "Inl Panic \<notin> set rs1 \<and> (\<forall>f \<in> set (frames_of rs1). frame_returned g f) \<and> kept g g2" if "meta_framer g1" "kept g g1"
    using Suc.IH [OF that(1) run] that(2) frame_returned_kept [OF that(2)] kept_trans by blast
  show ?case
    using res ih Suc.prems(2) one run by (cases r) (auto split: if_splits)
qed

text \<open>
  C27.  Whatever octets arrive, reading frames with \<^verbatim>\<open>ReadMetaHeaders\<close> set to a new HPACK decoder does not
  panic, returns merged header frames in place of HEADERS frames, and every header list it returns is as
  the documentation of \<^verbatim>\<open>MetaHeadersFrame\<close> promises: pseudo header fields come first, they are known, not
  repeated and not those of a request and a response together; the names of regular fields are
  lower-case tokens; no value has control characters; and the list is no larger than the limit that was
  set, if that limit is at most 0x7fffffef.  Every other frame conforms to its type.
\<close>

theorem header_lists_well_formed:
  assumes "NewDecoder sz = Some d" "length (rd_data r) < 2 ^ 64"
    and "ReadFrame_run n ((NewFramer w r)\<lparr>fr_ReadMetaHeaders := Some d, fr_MaxHeaderListSize := mx\<rparr>) = (rs, g')"
  shows "Inl Panic \<notin> set rs \<and>
    (\<forall>f \<in> set (frames_of rs).
       (case f of
          MetaFrame m \<Rightarrow> fh_Type (mh_Header m) = FrameHeaders \<and> fh_StreamID (mh_Header m) \<noteq> 0 \<and>
            fields_ok (if mx = 0 then 0x1000000 else mx) (mh_Fields m)
        | HeadersFrame h p b \<Rightarrow> False
        | _ \<Rightarrow> frame_ok 0xffffff f))"
proof -
  let ?g = "(NewFramer w r)\<lparr>fr_ReadMetaHeaders := Some d, fr_MaxHeaderListSize := mx\<rparr>"
  have "dyn_weak (dyn_empty sz)" "dyn_used (dyn_empty sz) = 0" "allowedMaxSize (dyn_empty sz) = sz"
    using dyn_inv_empty [of sz] by (simp_all add: dyn_empty_def table_init_def dyn_used_def dyn_weak_def dyn_inv_def)
  then have "dec_safe d" "dyn_used (dynTab d) = 0" "saveBuf d = []"
    using assms(1) setMaxSize_weak [of "dyn_empty sz" sz] by (auto simp: NewDecoder_def dec_safe_def split: option.splits)
  then have "meta_framer ?g"
    using assms(2) by (simp add: meta_framer_def framer_inv_def)
  note run = ReadFrame_run_result [OF this assms(3)]
  have sel: "maxHeaderListSize ?g = (if mx = 0 then 0x1000000 else mx)" "fr_maxReadSize ?g = 0xffffff"
    by (simp_all add: maxHeaderListSize_def)
  show ?thesis
    using run unfolding frame_returned_def sel by blast
qed

definition sample_framer :: "bytes \<Rightarrow> nat Framer" where
  "sample_framer p =
     (NewFramer [] \<lparr>rd_data = p, rd_end = None\<rparr>)\<lparr>fr_ReadMetaHeaders := NewDecoder 4096, fr_MaxHeaderListSize := 0\<rparr>"

definition sample_headers :: MetaHeadersFrame where
  "sample_headers =
     \<lparr>mh_Header = \<lparr>fh_valid = False, fh_Type = 1, fh_Flags = 5, fh_Length = 2, fh_StreamID = 1\<rparr>, mh_Priority = zero_priority,
      mh_Fields = [entry '':method'' ''GET'', entry '':scheme'' ''http''], mh_Truncated = False\<rparr>"

lemma sample_headers_read:
  "fst (ReadFrame_run 1 (sample_framer [0, 0, 2, 1, 5, 0, 0, 0, 1, 0x82, 0x86])) = [Inr (MetaFrame sample_headers)]"
  by code_simp

theorem header_lists_well_formed_witness:
  "NewDecoder 4096 \<noteq> None \<and>
   fst (ReadFrame_run 1 (sample_framer [0, 0, 2, 1, 5, 0, 0, 0, 1, 0x82, 0x86])) = [Inr (MetaFrame sample_headers)] \<and>
   fields_ok 0x1000000 (mh_Fields sample_headers)"
proof -
  obtain dt where "setMaxSize 4096 (dyn_empty 4096) = Some dt"
    using setMaxSize_spec [OF dyn_inv_empty, of 4096 4096] by blast
  then obtain d where d: "NewDecoder 4096 = Some d"
    by (simp add: NewDecoder_def)
  let ?p = "[0, 0, 2, 1, 5, 0, 0, 0, 1, 0x82, 0x86] :: bytes"
  obtain g' where run: "ReadFrame_run 1 (sample_framer ?p) = ([Inr (MetaFrame sample_headers)], g')"
    using sample_headers_read by (metis prod.collapse)
  have "fields_ok 0x1000000 (mh_Fields sample_headers)"
    using header_lists_well_formed [OF d _ run [unfolded sample_framer_def d]] by simp
  with d run show ?thesis by simp
qed

section \<open>A header block that is interrupted\<close>

lemma read_refused:
  fixes g :: "'e Framer"
  assumes "rd_data (fr_r g) = frame_wire t fl s bad @ rest" "length bad < 2 ^ 24" "length bad \<le> unat (fr_maxReadSize g)"
    and "typeFrameParser t (frame_header t fl s (length bad)) bad = (Inl (StreamErr se) :: 'e http2_error + Frame)"
  shows "read_frame g = (Inl (StreamErr se), (before_read g)\<lparr>fr_r := (fr_r g)\<lparr>rd_data := rest\<rparr>\<rparr>)"
proof -
  have "unat (fh_Length (frame_header t fl s (length bad))) = length bad"
    using assms(2) by (simp add: frame_header_def unsigned_of_nat take_bit_nat_eq_self)
  moreover have "io_ReadFull (length bad) ((fr_r g)\<lparr>rd_data := bad @ rest\<rparr>) = (Inr bad, (fr_r g)\<lparr>rd_data := rest\<rparr>)"
    by (simp add: io_ReadFull_def)
  ultimately show ?thesis
    using assms(3,4) readFrameHeader_wire [OF assms(1,2)]
    by (simp add: read_frame_def before_read_def Let_def word_less_nat_alt frame_header_def)
qed

text \<open>
  C39.  Let a HEADERS frame begin a header block that it does not end, let its fragment be decoded, and let the next
  frame be one whose parser reports a stream error.  Although only a CONTINUATION frame is allowed there,
  the reader gives the stream error, after which the connection goes on; the CONTINUATION frame that follows is
  returned bare, and the HPACK decoder is left as it was after the fragment of the HEADERS frame, so that it
  has not seen the rest of the block and its table no longer follows the peer's.
\<close>

theorem interrupted_block_not_decoded:
  fixes g :: "'e Framer"
  assumes "\<not> fr_AllowIllegalReads g" "fr_lastHeaderStream g = 0" "fr_ReadMetaHeaders g = Some d"
    and "call_allowed (CallHeaders p)" "hp_BlockFragment p \<noteq> []" "\<not> hp_EndHeaders p"
    and "typeFrameParser t (frame_header t fl s (length bad)) bad = (Inl (StreamErr se) :: 'e http2_error + Frame)"
    and "\<forall>x \<in> {call_payload (CallHeaders p), bad, c}. length x < 2 ^ 24 \<and> length x \<le> unat (fr_maxReadSize g)"
    and "rd_data (fr_r g) =
      call_wire (CallHeaders p) @ frame_wire t fl s bad @ call_wire (CallContinuation (hp_StreamID p) e c) @ rest"
    and "meta_Write (hp_BlockFragment p) (SetMaxStringLength (maxHeaderStringLen g) (SetEmitEnabled True d)) (meta_init g) = (d1, ms, None)"
  shows "\<exists>g'. ReadFrame_run 2 g = ([Inl (StreamErr se), Inr (call_frame (CallContinuation (hp_StreamID p) e c))], g') \<and>
    fr_ReadMetaHeaders g' = Some d1 \<and> rd_data (fr_r g') = rest"
proof -
  let ?hc = "CallHeaders p" and ?cc = "CallContinuation (hp_StreamID p) e c"
  let ?h = "call_header ?hc" and ?r1 = "frame_wire t fl s bad @ call_wire ?cc @ rest"
  have id: "take_bit 31 (hp_StreamID p) = hp_StreamID p" "hp_StreamID p \<noteq> 0"
    using assms(4) valid_id_bits by auto
  then have sid: "fh_StreamID ?h = hp_StreamID p" "fh_StreamID (call_header ?cc) = hp_StreamID p"
    by (simp_all add: call_header_def frame_header_def)
  have flags: "\<not> Flags_Has (call_flags ?hc) FlagHeadersEndHeaders"
    using assms(6) by (simp add: Flags_Has_def flag_if_def go_defs)
  let ?g1 = "(before_read g)\<lparr>fr_r := (fr_r g)\<lparr>rd_data := ?r1\<rparr>, fr_lastFrame := Some (call_frame ?hc), fr_lastHeaderStream := hp_StreamID p\<rparr>"
  have "checkFrameOrder (call_frame ?hc) ((before_read g)\<lparr>fr_r := (fr_r g)\<lparr>rd_data := ?r1\<rparr>\<rparr>) = (None, ?g1)"
    using assms(1,2) flags sid checkFrameOrder_legal [of "(before_read g)\<lparr>fr_r := (fr_r g)\<lparr>rd_data := ?r1\<rparr>\<rparr>" "call_frame ?hc"]
    by (simp add: before_read_def may_follow_def block_after_def frame_types)
  then have first: "read_frame g = (Inr (call_frame ?hc), ?g1)"
    using read_call [of ?hc g ?r1] assms(4,5,8,9) by simp
  have prep: "meta_setup ?g1 = ?g1\<lparr>fr_ReadMetaHeaders := Some (SetMaxStringLength (maxHeaderStringLen g) (SetEmitEnabled True d))\<rparr>"
      "meta_init ?g1 = meta_init g"
    using assms(3) by (simp_all add: meta_setup_def meta_init_def maxHeaderStringLen_def maxHeaderListSize_def before_read_def)
  let ?g2 = "?g1\<lparr>fr_ReadMetaHeaders := Some d1\<rparr>"
  let ?g3 = "(before_read ?g2)\<lparr>fr_r := (fr_r ?g2)\<lparr>rd_data := call_wire ?cc @ rest\<rparr>\<rparr>"
  have "read_frame ?g2 = (Inl (StreamErr se), ?g3)"
    using assms(7,8) by (intro read_refused [where bad = bad and t = t and fl = fl and s = s]) (simp_all add: before_read_def)
  then have "meta_loop ?h (hp_Priority p) (call_frame ?hc) (meta_init ?g1) (meta_setup ?g1) = (Inl (StreamErr se), ?g3)"
    using assms(10) flags unfolding prep by (subst meta_loop.simps) (simp add: call_header_def frame_header_def checkValid_def)
  then have one: "ReadFrame g = (Inl (StreamErr se), ?g3)"
    using first assms(1,3) by (simp add: ReadFrame_def readMetaFrame_def before_read_def frame_types)
  obtain g' where g': "checkFrameOrder (call_frame ?cc) ((before_read ?g3)\<lparr>fr_r := (fr_r ?g3)\<lparr>rd_data := rest\<rparr>\<rparr>) = (None, g')"
      "fr_ReadMetaHeaders g' = Some d1" "rd_data (fr_r g') = rest"
    using assms(1) sid id checkFrameOrder_legal [of "(before_read ?g3)\<lparr>fr_r := (fr_r ?g3)\<lparr>rd_data := rest\<rparr>\<rparr>" "call_frame ?cc"]
    by (simp add: before_read_def may_follow_def frame_types)
  then have "read_frame ?g3 = (Inr (call_frame ?cc), g')"
    using read_call [of ?cc ?g3 rest] assms(4,8) by (simp add: before_read_def)
  then have "ReadFrame ?g3 = (Inr (call_frame ?cc), g')"
    by (simp add: ReadFrame_def frame_types)
  with one g' show ?thesis
    by (simp add: numeral_2_eq_2)
qed

text \<open>
  A HEADERS frame, a WINDOW_UPDATE frame with a zero increment, and a CONTINUATION frame with a literal that is to
  be added to the table: the table stays empty.
\<close>

definition sample_begin :: HeadersFrameParam where
  "sample_begin = \<lparr>hp_StreamID = 1, hp_BlockFragment = [0x82], hp_EndStream = True, hp_EndHeaders = False, hp_PadLength = 0,
     hp_Priority = zero_priority\<rparr>"

definition sample_rest :: write_call where
  "sample_rest = CallContinuation 1 True [0x40, 1, 0x61, 1, 0x62]"

definition decoder_table :: "('e http2_error + Frame) list \<times> 'e Framer \<Rightarrow> HeaderField list option" where
  "decoder_table r = map_option (\<lambda>d. dyn_items (dynTab d)) (fr_ReadMetaHeaders (snd r))"

lemma sample_fragment:
  "case NewDecoder 4096 of None \<Rightarrow> False | Some d \<Rightarrow>
     (case meta_Write [0x82] (SetMaxStringLength 0x1000000 (SetEmitEnabled True d)) (meta_init (sample_framer [])) of
        (d1, ms, eo) \<Rightarrow> dyn_items (dynTab d1) = [] \<and> eo = None)"
  by code_simp

theorem interrupted_block_not_decoded_witness:
  "(let r = ReadFrame_run 2 (sample_framer
        (call_wire (CallHeaders sample_begin) @ frame_wire FrameWindowUpdate 0 1 [0, 0, 0, 0] @ call_wire sample_rest)) in
    fst r = [Inl (StreamErr (streamError 1 ErrCodeProtocol)), Inr (call_frame sample_rest)] \<and> decoder_table r = Some [])"
proof -
  let ?g = "sample_framer (call_wire (CallHeaders sample_begin) @ frame_wire FrameWindowUpdate 0 1 [0, 0, 0, 0] @ call_wire sample_rest)"
  obtain d d1 ms where d: "NewDecoder 4096 = Some d" "dyn_items (dynTab d1) = []"
      "meta_Write [0x82] (SetMaxStringLength 0x1000000 (SetEmitEnabled True d)) (meta_init (sample_framer [])) = (d1, ms, None)"
    using sample_fragment by (auto split: option.splits prod.splits)
  have mx: "maxHeaderStringLen ?g = 0x1000000" "meta_init ?g = meta_init (sample_framer [])"
    by (simp_all add: maxHeaderStringLen_eq maxHeaderListSize_def meta_init_def sample_framer_def)
  have sel: "\<not> fr_AllowIllegalReads ?g" "fr_lastHeaderStream ?g = 0" "fr_ReadMetaHeaders ?g = Some d"
    using d(1) by (simp_all add: sample_framer_def)
  have begins: "call_allowed (CallHeaders sample_begin)" "hp_BlockFragment sample_begin \<noteq> []" "\<not> hp_EndHeaders sample_begin"
    by (simp_all add: sample_begin_def zero_priority_def validStreamID_def validStreamIDOrZero_def)
  have bad: "typeFrameParser FrameWindowUpdate (frame_header FrameWindowUpdate 0 1 (length [0, 0, 0, 0 :: u8])) [0, 0, 0, 0] =
      (Inl (StreamErr (streamError 1 ErrCodeProtocol)) :: nat http2_error + Frame)"
    by code_simp
  have sizes: "\<forall>x \<in> {call_payload (CallHeaders sample_begin), [0, 0, 0, 0], [0x40, 1, 0x61, 1, 0x62]}.
      length x < 2 ^ 24 \<and> length x \<le> unat (fr_maxReadSize ?g)"
    by (simp add: sample_begin_def zero_priority_def PriorityParam_IsZero_def length_octet_def pad_octets_def sample_framer_def)
  have data: "rd_data (fr_r ?g) = call_wire (CallHeaders sample_begin) @ frame_wire FrameWindowUpdate 0 1 [0, 0, 0, 0] @
      call_wire (CallContinuation (hp_StreamID sample_begin) True [0x40, 1, 0x61, 1, 0x62]) @ []"
    by (simp add: sample_framer_def sample_rest_def sample_begin_def)
  have "meta_Write (hp_BlockFragment sample_begin) (SetMaxStringLength (maxHeaderStringLen ?g) (SetEmitEnabled True d)) (meta_init ?g) = (d1, ms, None)"
    unfolding mx using d(3) by (simp add: sample_begin_def)
  note interrupted_block_not_decoded [OF sel begins bad sizes data this]
  then show ?thesis
    using d(2) by (auto simp: decoder_table_def sample_rest_def sample_begin_def Let_def)
qed

end
