(* ===== verification/HTTP2_Meta_Roundtrip.thy ===== *)
theory HTTP2_Meta_Roundtrip
  imports HTTP2_Meta_Properties HPACK_Roundtrip
begin

text \<open>
  Header lists across a connection: the HPACK encoder, the writing and the reading of HEADERS and
  CONTINUATION frames, and the HPACK decoder with the checks of the callback, composed.
\<close>

section \<open>Decoding with emission switched off\<close>

lemma readString_skip:
  "readString mx True p = Inr (s, r) \<Longrightarrow> readString mx False p = Inr ([], r)"
  "readString mx True p = Inl ErrNeedMore \<Longrightarrow> readString mx False p = Inl ErrNeedMore"
  using huffmanDecode_errors
  by (fastforce simp: readString_alt Let_def split: if_splits sum.splits prod.splits option.splits)+

text \<open>One representation, with emission on or off and with any record of emitted fields.\<close>

definition view :: "HeaderField list \<Rightarrow> bool \<Rightarrow> Decoder \<Rightarrow> Decoder" where
  "view x on d = d\<lparr>emitted := x, emitEnabled := on\<rparr>"

lemma view_sel [simp]:
  "emitted (view x on d) = x" "emitEnabled (view x on d) = on" "dbuf (view x on d) = dbuf d" "dynTab (view x on d) = dynTab d"
  "saveBuf (view x on d) = saveBuf d" "maxStrLen (view x on d) = maxStrLen d" "dec_lookup (view x on d) i = dec_lookup d i"
  "(view x on d)\<lparr>dbuf := b\<rparr> = view x on (d\<lparr>dbuf := b\<rparr>)" "(view x on d)\<lparr>dynTab := t\<rparr> = view x on (d\<lparr>dynTab := t\<rparr>)"
  "(view x on d)\<lparr>emitted := y\<rparr> = view y on d" "view y on' (view x on d) = view y on' d"
  "(view x on d)\<lparr>saveBuf := v\<rparr> = view x on (d\<lparr>saveBuf := v\<rparr>)"
  by (simp_all add: view_def dec_lookup_def maxTableIndex_def)

definition seen_as :: "HeaderField list \<Rightarrow> bool \<Rightarrow> Decoder \<Rightarrow> Decoder \<times> hpack_error option \<Rightarrow> Decoder \<times> hpack_error option" where
  "seen_as x on d r = (case r of (d', eo) \<Rightarrow>
     (view (x @ (if on then drop (length (emitted d)) (emitted d') else [])) on d', eo))"

lemma callEmit_view:
  assumes "emitEnabled d" "snd (callEmit hf d) = None"
    and "on \<or> length (Name hf') \<le> length (Name hf) \<and> length (Value hf') \<le> length (Value hf)" "on \<longrightarrow> hf' = hf"
  shows "callEmit hf' (view x on d) = seen_as x on d (callEmit hf d)"
  using assms by (auto simp: callEmit_def seen_as_def view_def split: if_splits)

lemma read_name_skip:
  "read_name d True i p = Inr (s, r) \<Longrightarrow> \<exists>s'. read_name d False i p = Inr (s', r) \<and> length s' \<le> length s"
  "read_name d True i p = Inl ErrNeedMore \<Longrightarrow> read_name d False i p = Inl ErrNeedMore"
  using readString_skip [of "maxStrLen d" p] by (auto simp: read_name_def split: if_splits option.splits)

lemma read_name_view [simp]: "read_name (view x on d) w i p = read_name d w i p"
  by (simp add: read_name_def)

lemma literal_parse_view:
  assumes "emitEnabled d" "literal_parse n it d p = Inr ((name, val), r)"
  shows "\<exists>name' val'. literal_parse n it (view x on d) p = Inr ((name', val'), r) \<and> length name' \<le> length name \<and> length val' \<le> length val \<and>
    (on \<or> indexed it \<longrightarrow> name' = name \<and> val' = val)"
proof (cases "on \<or> indexed it")
  case True
  with assms show ?thesis by (auto simp: literal_parse_def)
next
  case False
  obtain i p1 p2 where r: "readVarInt n p = Inr (i, p1)" "read_name d True i p1 = Inr (name, p2)"
      "readString (maxStrLen d) True p2 = Inr (val, r)"
    using assms by (auto simp: literal_parse_def)
  obtain s' where "read_name d False i p1 = Inr (s', p2)" "length s' \<le> length name"
    using read_name_skip(1) [OF r(2)] by blast
  with False r(1) readString_skip(1) [OF r(3)] show ?thesis by (auto simp: literal_parse_def)
qed

lemma literal_parse_view_more:
  assumes "emitEnabled d" "literal_parse n it d p = Inl ErrNeedMore"
  shows "literal_parse n it (view x on d) p = Inl ErrNeedMore"
proof (cases "on \<or> indexed it")
  case True
  with assms show ?thesis by (auto simp: literal_parse_def)
next
  case False
  show ?thesis
    using assms False readString_skip(2)
    by (auto simp: literal_parse_def res_bind_def read_name_skip(2) dest!: read_name_skip(1) split: sum.splits)
qed

definition seen_ok :: "(Decoder \<Rightarrow> Decoder \<times> hpack_error option) \<Rightarrow> Decoder \<Rightarrow> bool" where
  "seen_ok f d \<longleftrightarrow>
     (\<forall>d' eo x on. f d = (d', eo) \<and> (eo = None \<or> eo = Some ErrNeedMore) \<longrightarrow> f (view x on d) = seen_as x on d (d', eo))"

lemma emit_seen:
  assumes "emitEnabled d" "callEmit hf (d\<lparr>dynTab := t, dbuf := b\<rparr>) = (d', eo)" "eo = None \<or> eo = Some ErrNeedMore"
    and "length (Name hf') \<le> length (Name hf) \<and> length (Value hf') \<le> length (Value hf)" "on \<longrightarrow> hf' = hf"
  shows "callEmit hf' (view x on (d\<lparr>dynTab := t, dbuf := b\<rparr>)) = seen_as x on d (d', eo)"
proof -
  have "eo = None"
    using callEmit_not_more [OF assms(2)] assms(3) by auto
  then show ?thesis
    using callEmit_view [of "d\<lparr>dynTab := t, dbuf := b\<rparr>" hf on hf' x] assms by (simp add: seen_as_def)
qed

lemma indexed_seen: "emitEnabled d \<Longrightarrow> seen_ok parseFieldIndexed d"
  unfolding seen_ok_def
proof (intro allI impI)
  fix d' eo x on
  assume on: "emitEnabled d" and p: "parseFieldIndexed d = (d', eo) \<and> (eo = None \<or> eo = Some ErrNeedMore)"
  have emit: "callEmit hf (d\<lparr>dbuf := b\<rparr>) = (d', eo) \<Longrightarrow> callEmit hf (view x on (d\<lparr>dbuf := b\<rparr>)) = seen_as x on d (d', eo)" for hf b
    using emit_seen [OF on, where t = "dynTab d" and hf = hf and hf' = hf] p by simp
  show "parseFieldIndexed (view x on d) = seen_as x on d (d', eo)"
    using p emit by (auto simp: parseFieldIndexed_def seen_as_def split: sum.splits option.splits)
qed

lemma literal_seen: "emitEnabled d \<Longrightarrow> seen_ok (parseFieldLiteral n it) d"
  unfolding seen_ok_def
proof (intro allI impI)
  fix d' eo x on
  assume on: "emitEnabled d" and p: "parseFieldLiteral n it d = (d', eo) \<and> (eo = None \<or> eo = Some ErrNeedMore)"
  show "parseFieldLiteral n it (view x on d) = seen_as x on d (d', eo)"
  proof (cases "literal_parse n it d (dbuf d)")
    case (Inl e)
    then have "d' = d" "e = ErrNeedMore" "eo = Some e"
      using p by (auto simp: parseFieldLiteral_alt)
    with Inl literal_parse_view_more [OF on, of n it "dbuf d" x on] show ?thesis
      by (simp add: parseFieldLiteral_alt seen_as_def)
  next
    case (Inr y)
    obtain name val b where y: "y = ((name, val), b)" by (cases y) auto
    obtain name' val' where v: "literal_parse n it (view x on d) (dbuf d) = Inr ((name', val'), b)"
        "length name' \<le> length name" "length val' \<le> length val" "on \<or> indexed it \<longrightarrow> name' = name \<and> val' = val"
      using literal_parse_view [OF on Inr [unfolded y], of x on] by blast
    obtain t where t: "(if indexed it then dyn_add \<lparr>Name = name, Value = val, Sensitive = False\<rparr> (dynTab d) else Some (dynTab d)) = Some t"
      using p Inr y by (fastforce simp: parseFieldLiteral_alt split: option.splits if_splits)
    then have t': "(if indexed it then dyn_add \<lparr>Name = name', Value = val', Sensitive = False\<rparr> (dynTab d) else Some (dynTab d)) = Some t"
      using v(4) by (auto split: if_splits)
    have "callEmit \<lparr>Name = name, Value = val, Sensitive = sensitive it\<rparr> (d\<lparr>dynTab := t, dbuf := b\<rparr>) = (d', eo)"
      using p Inr y t by (simp add: parseFieldLiteral_alt)
    then have "callEmit \<lparr>Name = name', Value = val', Sensitive = sensitive it\<rparr> (view x on (d\<lparr>dynTab := t, dbuf := b\<rparr>)) =
        seen_as x on d (d', eo)"
      by (rule emit_seen [OF on]) (use p v in auto)
    then show ?thesis
      using v(1) t' by (cases "indexed it") (auto simp: parseFieldLiteral_alt)
  qed
qed

lemma size_update_seen: "emitEnabled d \<Longrightarrow> seen_ok parseDynamicTableSizeUpdate d"
  by (auto simp: seen_ok_def seen_as_def parseDynamicTableSizeUpdate_def view_def split: sum.splits option.splits if_splits)

lemma repr_view:
  assumes "emitEnabled d" "parseHeaderFieldRepr d = (d', eo)" "eo = None \<or> eo = Some ErrNeedMore"
  shows "parseHeaderFieldRepr (view x on d) = seen_as x on d (d', eo)"
  using assms(2,3) indexed_seen [OF assms(1)] literal_seen [OF assms(1)] size_update_seen [OF assms(1)]
  unfolding parseHeaderFieldRepr_def view_sel by (auto simp: seen_ok_def seen_as_def index_expr_def split: if_splits sum.splits)

section \<open>The callback over a header block\<close>

text \<open>The callback over a list of fields, until it switches emission off.\<close>

fun meta_fields :: "HeaderField list \<Rightarrow> meta_state \<Rightarrow> meta_state \<times> bool" where
  "meta_fields [] ms = (ms, True)"
| "meta_fields (hf # hfs) ms =
     (case meta_emit hf ms of (ms', on) \<Rightarrow> if on then meta_fields hfs ms' else (ms', False))"

lemma meta_fields_append:
  "meta_fields (es @ fs) ms = (case meta_fields es ms of (ms', on) \<Rightarrow> if on then meta_fields fs ms' else (ms', False))"
  by (induction es arbitrary: ms) (auto split: prod.split)

lemma meta_repr_view:
  assumes "emitEnabled d" "parseHeaderFieldRepr d = (d', eo)" "eo = None \<or> eo = Some ErrNeedMore"
    and "meta_fields (emitted d) ms0 = (M, on)"
  shows "\<exists>M' on'. meta_repr (view x on d) M = (view x on' d', M', eo) \<and> meta_fields (emitted d') ms0 = (M', on')"
proof -
  have p: "parseHeaderFieldRepr (view [] on d) = seen_as [] on d (d', eo)"
    using repr_view [OF assms(1-3)] .
  from assms(2) show ?thesis
  proof (cases rule: repr_emitted)
    case 1
    with p assms(4) show ?thesis
      by (intro exI [of _ M] exI [of _ on]) (simp add: meta_repr_def seen_as_def)
  next
    case (2 hf)
    show ?thesis
    proof (cases on)
      case False
      with p 2 assms(4) show ?thesis
        by (intro exI [of _ M] exI [of _ False]) (simp add: meta_repr_def seen_as_def meta_fields_append)
    next
      case True
      obtain M' on' where e: "meta_emit hf M = (M', on')" by fastforce
      have "SetEmitEnabled False (view y on d') = view y False d'" for y
        by (simp add: SetEmitEnabled_def view_def)
      with True p 2 e assms(4) show ?thesis
        by (intro exI [of _ M'] exI [of _ on']) (auto simp: meta_repr_def seen_as_def meta_fields_append)
    qed
  qed
qed

text \<open>A part of a representation is kept until the rest arrives.\<close>

lemma partial_repr:
  assumes "\<And>rest. parseHeaderFieldRepr (d\<lparr>dbuf := p @ rest\<rparr>) = (d1\<lparr>dbuf := rest\<rparr>, None)" "p = b @ r" "b \<noteq> []" "r \<noteq> []"
  shows "parseHeaderFieldRepr (d\<lparr>dbuf := b\<rparr>) = (d\<lparr>dbuf := b\<rparr>, Some ErrNeedMore)"
proof -
  obtain d2 eo where r: "parseHeaderFieldRepr (d\<lparr>dbuf := b\<rparr>) = (d2, eo)" by fastforce
  note st = stable_repr [of "d\<lparr>dbuf := b\<rparr>", unfolded stable_def r prod.case]
  have "eo = Some ErrNeedMore"
  proof (rule ccontr)
    assume "eo \<noteq> Some ErrNeedMore"
    then have "parseHeaderFieldRepr (with_buf r (d\<lparr>dbuf := b\<rparr>)) = (with_buf r d2, eo)"
      using st assms(3) by simp
    with assms(1) [of "[]"] assms(2) have "with_buf r d2 = d1\<lparr>dbuf := []\<rparr>"
      by (simp add: with_buf_def)
    then have "dbuf d2 @ r = []"
      by (metis Decoder.select_convs(5) Decoder.surjective Decoder.update_convs(5) with_buf_simps(1))
    with assms(4) show False by simp
  qed
  with st r assms(3) show ?thesis by simp
qed

lemma short_for_prefix: "short_for d (b @ r) \<Longrightarrow> short_for d b"
  by (auto simp: short_for_def)

lemma meta_loop_steps:
  assumes "steps ps d d'" "concat ps = buf @ q" "emitEnabled d" "meta_fields (emitted d) ms0 = (M, on)"
  shows "\<exists>ps2 d1 s1 M1 on1.
    meta_write_loop (view x on (d\<lparr>dbuf := buf\<rparr>)) M = (view x on1 (d1\<lparr>dbuf := s1\<rparr>), M1, if s1 = [] then None else Some ErrNeedMore) \<and>
    meta_fields (emitted d1) ms0 = (M1, on1) \<and> steps ps2 d1 d' \<and> concat ps2 = s1 @ q \<and>
    emitEnabled d1 \<and> saveBuf d1 = saveBuf d \<and> (s1 \<noteq> [] \<longrightarrow> short_for d1 s1) \<and> (q = [] \<longrightarrow> s1 = [])"
  using assms
proof (induction ps arbitrary: d M on buf)
  case Nil
  then show ?case
    by (intro exI [of _ "[]"] exI [of _ d] exI [of _ M] exI [of _ on])
      (simp add: meta_write_loop.simps [of "view x on (d\<lparr>dbuf := []\<rparr>)"] short_for_def)
next
  case (Cons p ps)
  obtain d1 where p: "p \<noteq> []" "short_for d p" "steps ps d1 d'"
      "\<And>rest. parseHeaderFieldRepr (d\<lparr>dbuf := p @ rest\<rparr>) = (d1\<lparr>dbuf := rest\<rparr>, None)"
    using Cons.prems(1) by auto
  have "\<exists>us. p = buf @ us \<or> buf = p @ us"
    using Cons.prems(2) by (auto simp: append_eq_append_conv2)
  then consider (none) "buf = []" | (whole) buf' where "buf = p @ buf'" "buf \<noteq> []" | (part) r where "p = buf @ r" "buf \<noteq> []" "r \<noteq> []"
    by (metis append_Nil2)
  then show ?case
  proof cases
    case none
    then show ?thesis
      using Cons.prems
      by (intro exI [of _ "p # ps"] exI [of _ d] exI [of _ "[]"] exI [of _ M] exI [of _ on])
        (simp add: meta_write_loop.simps [of "view x on (d\<lparr>dbuf := []\<rparr>)"] short_for_def)
  next
    case whole
    have "emitEnabled (d\<lparr>dbuf := p @ buf'\<rparr>)" "meta_fields (emitted (d\<lparr>dbuf := p @ buf'\<rparr>)) ms0 = (M, on)"
      using Cons.prems(3,4) by simp_all
    from meta_repr_view [where x = x, OF this(1) p(4) _ this(2)] obtain M1 on1 where
      m: "meta_repr (view x on (d\<lparr>dbuf := p @ buf'\<rparr>)) M = (view x on1 (d1\<lparr>dbuf := buf'\<rparr>), M1, None)"
        "meta_fields (emitted d1) ms0 = (M1, on1)"
      by auto
    have keep: "emitEnabled d1" "saveBuf d1 = saveBuf d"
      using repr_keeps [OF p(4)] Cons.prems(3) by simp_all
    have "concat ps = buf' @ q"
      using Cons.prems(2) whole by simp
    with Cons.IH [OF p(3) this keep(1) m(2)] m(1) whole keep(2) p(1) show ?thesis
      by (simp add: meta_write_loop.simps [of "view x on (d\<lparr>dbuf := p @ buf'\<rparr>)"])
  next
    case part
    note more = partial_repr [OF p(4) part(1,2,3)]
    have "emitEnabled (d\<lparr>dbuf := buf\<rparr>)" "meta_fields (emitted (d\<lparr>dbuf := buf\<rparr>)) ms0 = (M, on)"
      using Cons.prems(3,4) by simp_all
    from meta_repr_view [where x = x, OF this(1) more _ this(2)] obtain M1 on1 where
      m: "meta_repr (view x on (d\<lparr>dbuf := buf\<rparr>)) M = (view x on1 (d\<lparr>dbuf := buf\<rparr>), M1, Some ErrNeedMore)"
        "meta_fields (emitted d) ms0 = (M1, on1)"
      by auto
    have "meta_write_loop (view x on (d\<lparr>dbuf := buf\<rparr>)) M = (view x on1 (d\<lparr>dbuf := buf\<rparr>), M1, Some ErrNeedMore)"
      using m(1) part(2) by (simp add: meta_write_loop.simps [of "view x on (d\<lparr>dbuf := buf\<rparr>)"])
    moreover have "q \<noteq> []" "short_for d buf"
      using Cons.prems(2) part short_for_prefix [of d buf r] p(2) by auto
    ultimately show ?thesis
      using Cons.prems(1-3) part(2) m(2)
      by (intro exI [of _ "p # ps"] exI [of _ d] exI [of _ buf] exI [of _ M1] exI [of _ on1]) simp
  qed
qed

lemma meta_Write_steps:
  assumes "steps ps d d'" "concat ps = s @ p @ q" "emitEnabled d" "saveBuf d = []" "meta_fields (emitted d) ms0 = (M, on)"
    and "p @ q = [] \<longrightarrow> s = []"
  shows "\<exists>ps2 d1 s1 M1 on1 b1. meta_Write p (view x on (d\<lparr>saveBuf := s, dbuf := b\<rparr>)) M = (view x on1 (d1\<lparr>saveBuf := s1, dbuf := b1\<rparr>), M1, None) \<and>
    meta_fields (emitted d1) ms0 = (M1, on1) \<and> steps ps2 d1 d' \<and> concat ps2 = s1 @ q \<and> emitEnabled d1 \<and> saveBuf d1 = [] \<and>
    (q = [] \<longrightarrow> s1 = [])"
proof (cases "p = []")
  case True
  with assms show ?thesis
    by (intro exI [of _ ps] exI [of _ d] exI [of _ s] exI [of _ M] exI [of _ on] exI [of _ b]) (simp add: meta_Write_def)
next
  case False
  let ?D = "view x on (d\<lparr>saveBuf := s, dbuf := b\<rparr>)"
  have cut: "concat ps = (s @ p) @ q"
    using assms(2) by simp
  have load: "(if saveBuf ?D = [] then ?D\<lparr>dbuf := p\<rparr> else ?D\<lparr>dbuf := saveBuf ?D @ p, saveBuf := []\<rparr>) = view x on (d\<lparr>dbuf := s @ p\<rparr>)"
    using assms(4) by (cases d) (auto simp: view_def)
  obtain ps2 d1 s1 M1 on1 where
    l: "meta_write_loop (view x on (d\<lparr>dbuf := s @ p\<rparr>)) M = (view x on1 (d1\<lparr>dbuf := s1\<rparr>), M1, if s1 = [] then None else Some ErrNeedMore)"
      "meta_fields (emitted d1) ms0 = (M1, on1)" "steps ps2 d1 d'" "concat ps2 = s1 @ q" "emitEnabled d1" "saveBuf d1 = saveBuf d"
      "s1 \<noteq> [] \<longrightarrow> short_for d1 s1" "q = [] \<longrightarrow> s1 = []"
    using meta_loop_steps [OF assms(1) cut assms(3,5), of x] by blast
  have same: "d1\<lparr>saveBuf := [], dbuf := z\<rparr> = d1\<lparr>dbuf := z\<rparr>" for z
    using l(6) assms(4) by (cases d1) simp
  have "meta_Write p ?D M = (view x on1 (d1\<lparr>saveBuf := s1, dbuf := s1\<rparr>), M1, None)"
    unfolding meta_Write_def Let_def load l(1) using False l(6,7) assms(4) same [of "[]"]
    by (auto simp: short_for_def view_def)
  with l assms(4) show ?thesis
    by (intro exI [of _ ps2] exI [of _ d1] exI [of _ s1] exI [of _ M1] exI [of _ on1]) auto
qed

section \<open>A header block in frames\<close>

lemma read_legal:
  assumes "call_legal c" "length (call_payload c) \<le> unat (fr_maxReadSize g)" "\<not> fr_AllowIllegalReads g"
    and "may_follow (fr_lastHeaderStream g) (call_header c)" "rd_data (fr_r g) = call_wire c @ rest"
  shows "read_frame g = (Inr (call_frame c),
    (before_read g)\<lparr>fr_r := (fr_r g)\<lparr>rd_data := rest\<rparr>, fr_lastFrame := Some (call_frame c),
      fr_lastHeaderStream := block_after (call_header c) (fr_lastHeaderStream g)\<rparr>)"
  using assms read_call [of c g rest] by (simp add: call_legal_def checkFrameOrder_legal before_read_def)

fun continuation_calls :: "u32 \<Rightarrow> bytes list \<Rightarrow> write_call list" where
  "continuation_calls i [] = []"
| "continuation_calls i (b # bs) = CallContinuation i (bs = []) b # continuation_calls i bs"

definition block_calls :: "HeadersFrameParam \<Rightarrow> bytes list \<Rightarrow> write_call list" where
  "block_calls hp bs =
     CallHeaders (hp\<lparr>hp_BlockFragment := hd bs, hp_EndHeaders := (tl bs = [])\<rparr>) # continuation_calls (hp_StreamID hp) (tl bs)"

text \<open>What reading a block does to the framer, apart from the decoder.\<close>

definition block_read :: "'e Framer \<Rightarrow> bytes \<Rightarrow> 'e Framer \<Rightarrow> bool" where
  "block_read g rest g' \<longleftrightarrow>
     fr_r g' = (fr_r g)\<lparr>rd_data := rest\<rparr> \<and> fr_lastHeaderStream g' = 0 \<and> \<not> fr_AllowIllegalReads g' \<and>
     fr_maxReadSize g' = fr_maxReadSize g \<and> fr_MaxHeaderListSize g' = fr_MaxHeaderListSize g"

lemma continuation_header:
  "fh_Type (call_header (CallContinuation i e b)) = FrameContinuation" "fh_StreamID (call_header (CallContinuation i e b)) = take_bit 31 i"
  "Flags_Has (fh_Flags (call_header (CallContinuation i e b))) FlagHeadersEndHeaders = e" "fh_valid (call_header (CallContinuation i e b))"
  by (simp_all add: call_header_def frame_header_def go_defs flag_if_def Flags_Has_def)

lemma block_after_calls:
  "block_after (call_header (CallContinuation i e b)) j = (if e then 0 else take_bit 31 i)"
  "block_after (call_header (CallHeaders p)) j = (if hp_EndHeaders p then 0 else take_bit 31 (hp_StreamID p))"
  by (simp_all add: block_after_def flag_if_def Flags_Has_def go_defs call_header_def frame_header_def)

lemma valid_stream_31: "validStreamID i \<Longrightarrow> take_bit 31 i = i \<and> i \<noteq> 0"
  by (simp add: validStreamID_def and_bit31 take_bit_31_id)

lemma steps_nothing: "steps ps d d' \<Longrightarrow> concat ps = [] \<Longrightarrow> d' = d"
  by (cases ps) auto

lemma meta_loop_calls:
  fixes g :: "'e Framer"
  assumes "steps ps d d'" "concat ps = s @ frag @ concat bs" "emitEnabled d" "saveBuf d = []" "meta_fields (emitted d) ms0 = (M, on)"
    and "frag @ concat bs = [] \<longrightarrow> s = []" "fr_ReadMetaHeaders g = Some (view x on (d\<lparr>saveBuf := s, dbuf := b\<rparr>))"
    and "Frame_payload hc = (Inr frag :: 'e http2_error + bytes)" "Frame_HeadersEnded hc = (bs = [])"
    and "rd_data (fr_r g) = concat (map call_wire (continuation_calls i bs)) @ rest" "\<not> fr_AllowIllegalReads g"
    and "fr_lastHeaderStream g = (if bs = [] then 0 else i)" "validStreamID i"
    and "\<forall>b \<in> set bs. length b < 2 ^ 24 \<and> length b \<le> unat (fr_maxReadSize g)"
  shows "\<exists>g' b' M1 on1. meta_loop h pr hc M g = meta_finish h pr (view x on1 (d'\<lparr>saveBuf := [], dbuf := b'\<rparr>)) M1 g' \<and>
    meta_fields (emitted d') ms0 = (M1, on1) \<and> block_read g rest g'"
  using assms
proof (induction bs arbitrary: ps d s frag M on b hc g)
  case Nil
  have cut: "concat ps = s @ frag @ []" "frag @ [] = [] \<longrightarrow> s = []"
    using Nil.prems(2,6) by simp_all
  obtain ps2 d1 s1 M1 on1 b1 where
    w: "meta_Write frag (view x on (d\<lparr>saveBuf := s, dbuf := b\<rparr>)) M = (view x on1 (d1\<lparr>saveBuf := s1, dbuf := b1\<rparr>), M1, None)"
      "meta_fields (emitted d1) ms0 = (M1, on1)" "steps ps2 d1 d'" "concat ps2 = s1 @ []" "[] = [] \<longrightarrow> s1 = []"
    using meta_Write_steps [where x = x and b = b, OF Nil.prems(1) cut(1) Nil.prems(3-5) cut(2)] by blast
  then have d': "s1 = []" "d' = d1"
    using steps_nothing [OF w(3)] by auto
  have "meta_loop h pr hc M g = meta_finish h pr (view x on1 (d'\<lparr>saveBuf := [], dbuf := b1\<rparr>)) M1 g"
    using Nil.prems(7-9) w(1) d' by (simp add: meta_loop.simps [of h])
  moreover have "block_read g rest g"
    using Nil.prems(10-12) by (simp add: block_read_def)
  ultimately show ?case
    using w(2) d'(2) by blast
next
  case (Cons b0 bs)
  have cut: "concat ps = s @ frag @ b0 @ concat bs" "frag @ b0 @ concat bs = [] \<longrightarrow> s = []"
    using Cons.prems(2,6) by simp_all
  obtain ps2 d1 s1 M1 on1 b1 where
    w: "meta_Write frag (view x on (d\<lparr>saveBuf := s, dbuf := b\<rparr>)) M = (view x on1 (d1\<lparr>saveBuf := s1, dbuf := b1\<rparr>), M1, None)"
      "meta_fields (emitted d1) ms0 = (M1, on1)" "steps ps2 d1 d'" "concat ps2 = s1 @ b0 @ concat bs" "emitEnabled d1" "saveBuf d1 = []"
      "b0 @ concat bs = [] \<longrightarrow> s1 = []"
    using meta_Write_steps [where x = x and b = b, OF Cons.prems(1) cut(1) Cons.prems(3-5) cut(2)] by blast
  let ?c = "CallContinuation i (bs = []) b0"
  let ?g = "g\<lparr>fr_ReadMetaHeaders := Some (view x on1 (d1\<lparr>saveBuf := s1, dbuf := b1\<rparr>))\<rparr>"
  let ?rest = "concat (map call_wire (continuation_calls i bs)) @ rest"
  let ?g1 = "(before_read ?g)\<lparr>fr_r := (fr_r ?g)\<lparr>rd_data := ?rest\<rparr>, fr_lastFrame := Some (call_frame ?c),
      fr_lastHeaderStream := block_after (call_header ?c) (fr_lastHeaderStream ?g)\<rparr>"
  have i: "take_bit 31 i = i" "i \<noteq> 0"
    using valid_stream_31 [OF Cons.prems(13)] by simp_all
  have "read_frame ?g = (Inr (call_frame ?c), ?g1)"
    by (rule read_legal) (use Cons.prems(10-14) i in \<open>simp_all add: call_legal_def may_follow_def continuation_header\<close>)
  then have loop: "meta_loop h pr hc M g = meta_loop h pr (call_frame ?c) M1 ?g1"
    using Cons.prems(7-9) w(1) by (simp add: meta_loop.simps [of h pr hc])
  have "\<exists>g' b' M2 on2. meta_loop h pr (call_frame ?c) M1 ?g1 = meta_finish h pr (view x on2 (d'\<lparr>saveBuf := [], dbuf := b'\<rparr>)) M2 g' \<and>
    meta_fields (emitted d') ms0 = (M2, on2) \<and> block_read ?g1 rest g'"
  proof (rule Cons.IH [OF w(3,4,5,6,2,7)])
    show "fr_ReadMetaHeaders ?g1 = Some (view x on1 (d1\<lparr>saveBuf := s1, dbuf := b1\<rparr>))"
      by (simp add: before_read_def)
    show "Frame_payload (call_frame ?c) = Inr b0"
      by (simp add: checkValid_def continuation_header)
    show "Frame_HeadersEnded (call_frame ?c) = (bs = [])"
      by (simp add: Flags_Has_def flag_if_def go_defs)
    show "fr_lastHeaderStream ?g1 = (if bs = [] then 0 else i)"
      using i by (simp add: block_after_calls)
  qed (use Cons.prems(11,13,14) in \<open>simp_all add: before_read_def\<close>)
  then obtain g' b' M2 on2 where r: "meta_loop h pr (call_frame ?c) M1 ?g1 = meta_finish h pr (view x on2 (d'\<lparr>saveBuf := [], dbuf := b'\<rparr>)) M2 g'"
    "meta_fields (emitted d') ms0 = (M2, on2)" "block_read ?g1 rest g'"
    by blast
  from r(3) have "block_read g rest g'"
    by (simp add: block_read_def before_read_def)
  with r loop show ?case by auto
qed

lemma headers_header:
  "fh_Type (call_header (CallHeaders p)) = FrameHeaders" "fh_StreamID (call_header (CallHeaders p)) = take_bit 31 (hp_StreamID p)"
  "Flags_Has (fh_Flags (call_header (CallHeaders p))) FlagHeadersEndHeaders = hp_EndHeaders p" "fh_valid (call_header (CallHeaders p))"
  by (simp_all add: call_header_def frame_header_def go_defs flag_if_def Flags_Has_def)

text \<open>The decoder as a header block finds it.\<close>

definition fresh :: "u32 \<Rightarrow> Decoder \<Rightarrow> Decoder" where
  "fresh mx D = D\<lparr>emitted := [], emitEnabled := True, maxStrLen := int (unat mx)\<rparr>"

lemma fresh_sel [simp]:
  "saveBuf (fresh mx D) = saveBuf D" "dbuf (fresh mx D) = dbuf D" "emitted (fresh mx D) = []" "emitEnabled (fresh mx D)"
  "dynTab (fresh mx D) = dynTab D" "maxStrLen (fresh mx D) = int (unat mx)"
  by (simp_all add: fresh_def)

definition block_legal :: "HeadersFrameParam \<Rightarrow> bytes list \<Rightarrow> u32 \<Rightarrow> bool" where
  "block_legal hp bs mx \<longleftrightarrow>
     bs \<noteq> [] \<and> hd bs \<noteq> [] \<and> (\<forall>c \<in> set (block_calls hp bs). call_legal c \<and> length (call_payload c) \<le> unat mx)"

lemma continuation_calls_set: "b \<in> set bs \<Longrightarrow> \<exists>e. CallContinuation i e b \<in> set (continuation_calls i bs)"
  by (induction bs) auto

lemma ReadFrame_block:
  fixes g :: "'e Framer"
  assumes "reads_to (concat bs) (fresh (maxHeaderListSize g) D) d'" "saveBuf D = []" "fr_ReadMetaHeaders g = Some D"
    and "block_legal hp bs (fr_maxReadSize g)" "rd_data (fr_r g) = concat (map call_wire (block_calls hp bs)) @ rest"
    and "\<not> fr_AllowIllegalReads g" "fr_lastHeaderStream g = 0"
  shows "\<exists>g' b' M on. ReadFrame g =
      meta_finish (call_header (hd (block_calls hp bs))) (hp_Priority hp) (view (emitted D) on (d'\<lparr>saveBuf := [], dbuf := b'\<rparr>)) M g' \<and>
    meta_fields (emitted d') (meta_init g) = (M, on) \<and> block_read g rest g'"
proof -
  let ?d = "fresh (maxHeaderListSize g) D"
  let ?p = "hp\<lparr>hp_BlockFragment := hd bs, hp_EndHeaders := (tl bs = [])\<rparr>" and ?i = "hp_StreamID hp"
  let ?c = "CallHeaders ?p" and ?cs = "continuation_calls ?i (tl bs)"
  let ?rest = "concat (map call_wire ?cs) @ rest"
  let ?g = "(before_read g)\<lparr>fr_r := (fr_r g)\<lparr>rd_data := ?rest\<rparr>, fr_lastFrame := Some (call_frame ?c),
      fr_lastHeaderStream := block_after (call_header ?c) (fr_lastHeaderStream g)\<rparr>"
  obtain ps where ps: "concat bs = concat ps" "steps ps ?d d'"
    using assms(1) by (auto simp: reads_to_def)
  have legal: "call_legal ?c" "length (call_payload ?c) \<le> unat (fr_maxReadSize g)" "bs \<noteq> []"
      "\<And>c. c \<in> set ?cs \<Longrightarrow> call_legal c \<and> length (call_payload c) \<le> unat (fr_maxReadSize g)"
    using assms(4) by (simp_all add: block_legal_def block_calls_def)
  then have i: "validStreamID ?i"
    by (simp add: call_legal_def)
  have read: "read_frame g = (Inr (call_frame ?c), ?g)"
    by (rule read_legal [OF legal(1,2)]) (use assms(5-7) in \<open>simp_all add: block_calls_def may_follow_def headers_header go_defs\<close>)
  have keep: "fr_ReadMetaHeaders ?g = Some D" "\<not> fr_AllowIllegalReads ?g" "meta_init ?g = meta_init g" "maxHeaderListSize ?g = maxHeaderListSize g"
    using assms(3,6) by (simp_all add: before_read_def meta_init_def maxHeaderListSize_def)
  let ?h = "call_header ?c" and ?hc = "call_frame ?c"
  have "ReadFrame g = meta_loop ?h (hp_Priority hp) ?hc (meta_init g) (meta_setup ?g)"
    using read keep by (simp add: ReadFrame_def readMetaFrame_def headers_header)
  moreover have "\<exists>g' b' M on. meta_loop ?h (hp_Priority hp) ?hc (meta_init g) (meta_setup ?g) =
      meta_finish ?h (hp_Priority hp) (view (emitted D) on (d'\<lparr>saveBuf := [], dbuf := b'\<rparr>)) M g' \<and>
    meta_fields (emitted d') (meta_init g) = (M, on) \<and> block_read (meta_setup ?g) rest g'"
  proof (rule meta_loop_calls [OF ps(2), where frag = "hd bs" and bs = "tl bs" and s = "[]" and b = "dbuf D" and i = ?i])
    show "concat ps = [] @ hd bs @ concat (tl bs)"
      using ps(1) legal(3) by (cases bs) simp_all
    have "SetMaxStringLength (maxHeaderStringLen ?g) (SetEmitEnabled True D) = view (emitted D) True (?d\<lparr>saveBuf := [], dbuf := dbuf D\<rparr>)"
      using assms(2) keep(4)
      by (cases D) (simp add: SetMaxStringLength_def SetEmitEnabled_def view_def fresh_def maxHeaderStringLen_eq)
    then show "fr_ReadMetaHeaders (meta_setup ?g) = Some (view (emitted D) True (?d\<lparr>saveBuf := [], dbuf := dbuf D\<rparr>))"
      using keep(1) by (simp add: meta_setup_def)
    show "Frame_payload ?hc = (Inr (hd bs) :: 'e http2_error + bytes)" "Frame_HeadersEnded ?hc = (tl bs = [])"
      using headers_header [of ?p] by (simp_all add: checkValid_def)
    show "fr_lastHeaderStream (meta_setup ?g) = (if tl bs = [] then 0 else ?i)"
      using valid_stream_31 [OF i] by (simp add: meta_setup_def block_after_calls)
    show "\<forall>b \<in> set (tl bs). length b < 2 ^ 24 \<and> length b \<le> unat (fr_maxReadSize (meta_setup ?g))"
      using legal(4) continuation_calls_set [of _ "tl bs" ?i]
      by (fastforce simp: meta_setup_def before_read_def call_legal_def)
  qed (use assms(2) keep(2) i in \<open>simp_all add: meta_setup_def\<close>)
  moreover have "block_read (meta_setup ?g) rest = block_read g rest"
    by (simp add: block_read_def before_read_def meta_setup_def fun_eq_iff)
  moreover have "hd (block_calls hp bs) = ?c"
    by (simp add: block_calls_def)
  ultimately show ?thesis
    by (simp only:)
qed

section \<open>What a header list is received as\<close>

text \<open>The specification: the first fault of a field decides; else the fields are taken while they fit.\<close>

definition field_fault :: "bool \<Rightarrow> HeaderField \<Rightarrow> header_error option" where
  "field_fault regular hf =
     (if IsPseudo hf \<and> regular then Some ErrPseudoAfterRegular
      else if \<not> IsPseudo hf \<and> \<not> validWireHeaderFieldName (Name hf) then Some (HeaderFieldNameError (Name hf))
      else if \<not> ValidHeaderFieldValue (Value hf) then Some (HeaderFieldValueError (Value hf))
      else None)"

fun judge :: "bool \<Rightarrow> nat \<Rightarrow> HeaderField list \<Rightarrow> header_error + HeaderField list \<times> bool" where
  "judge regular left [] = Inr ([], False)"
| "judge regular left (hf # hfs) =
     (case field_fault regular hf of
        Some e \<Rightarrow> Inl e
      | None \<Rightarrow>
          if left < hf_size hf then Inr ([], True)
          else map_sum (\<lambda>e. e) (map_prod ((#) hf) (\<lambda>t. t)) (judge (regular \<or> \<not> IsPseudo hf) (left - hf_size hf) hfs))"

definition received :: "u32 \<Rightarrow> FrameHeader \<Rightarrow> PriorityParam \<Rightarrow> HeaderField list \<Rightarrow> 'e http2_error + Frame" where
  "received mx h pr hfs =
     (let malformed = (\<lambda>e. Inl (StreamErr \<lparr>se_StreamID = fh_StreamID h, se_Code = ErrCodeProtocol, se_Cause = Some e\<rparr>)) in
      case judge False (unat mx) hfs of
        Inl e \<Rightarrow> malformed e
      | Inr (gs, trunc) \<Rightarrow>
          (case checkPseudos gs of
             Some e \<Rightarrow> malformed e
           | None \<Rightarrow> Inr (MetaFrame \<lparr>mh_Header = invalid_header h, mh_Priority = pr, mh_Fields = gs, mh_Truncated = trunc\<rparr>)))"

lemma meta_check_fault:
  assumes "ms_invalid ms = None"
  shows "ms_invalid (meta_check hf ms) = field_fault (ms_sawRegular ms) hf"
    "ms_sawRegular (meta_check hf ms) = (ms_sawRegular ms \<or> \<not> IsPseudo hf)"
  using assms unfolding meta_check_def Let_def is_pseudo_prefix field_fault_def by (auto split: if_splits)

lemma meta_fields_judge:
  assumes "ms_invalid ms = None" "\<not> ms_Truncated ms" "\<forall>hf \<in> set hfs. hf_size hf < 2 ^ 32" "meta_fields hfs ms = (M, on)"
  shows "case judge (ms_sawRegular ms) (unat (ms_remainSize ms)) hfs of
      Inl e \<Rightarrow> ms_invalid M = Some e
    | Inr (gs, t) \<Rightarrow> ms_invalid M = None \<and> ms_Fields M = ms_Fields ms @ gs \<and> ms_Truncated M = t"
  using assms
proof (induction hfs arbitrary: ms)
  case Nil
  then show ?case by simp
next
  case (Cons hf hfs)
  have "hf_size hf < 2 ^ 32"
    using Cons.prems(3) by simp
  then have size: "unat (Size hf) = hf_size hf"
    by (simp only: Size_eq unsigned_of_nat) (simp add: take_bit_nat_eq_self)
  note check = meta_check_fault [OF Cons.prems(1), of hf]
  consider (bad) e where "field_fault (ms_sawRegular ms) hf = Some e" | (large) "field_fault (ms_sawRegular ms) hf = None" "unat (ms_remainSize ms) < hf_size hf"
    | (ok) "field_fault (ms_sawRegular ms) hf = None" "\<not> unat (ms_remainSize ms) < hf_size hf"
    by (cases "field_fault (ms_sawRegular ms) hf") auto
  then show ?case
  proof cases
    case bad
    then show ?thesis
      using Cons.prems(4) check by (auto simp: meta_emit_def Let_def)
  next
    case large
    then show ?thesis
      using Cons.prems(4) check size by (auto simp: meta_emit_def Let_def word_less_nat_alt)
  next
    case ok
    let ?ms = "(meta_check hf ms)\<lparr>ms_remainSize := ms_remainSize ms - Size hf, ms_Fields := ms_Fields ms @ [hf]\<rparr>"
    have le: "Size hf \<le> ms_remainSize ms"
      using ok(2) size by (simp add: word_le_nat_alt)
    then have room: "unat (ms_remainSize ms - Size hf) = unat (ms_remainSize ms) - hf_size hf"
      using size by (simp add: unat_sub)
    have "\<not> ms_remainSize ms < Size hf"
      using le by (simp add: not_less)
    then have "meta_emit hf ms = (?ms, True)"
      using ok(1) check(1) by (simp add: meta_emit_def Let_def)
    then have "meta_fields hfs ?ms = (M, on)"
      using Cons.prems(4) by simp
    from Cons.IH [OF _ _ _ this] have "case judge (ms_sawRegular ms \<or> \<not> IsPseudo hf) (unat (ms_remainSize ms) - hf_size hf) hfs of
        Inl e \<Rightarrow> ms_invalid M = Some e
      | Inr (gs, t) \<Rightarrow> ms_invalid M = None \<and> ms_Fields M = ms_Fields ms @ hf # gs \<and> ms_Truncated M = t"
      using Cons.prems(2,3) check ok(1) room by (auto split: sum.splits)
    then show ?thesis
      using ok by (auto split: sum.splits)
  qed
qed

lemma meta_finish_received:
  assumes "saveBuf d = []" "meta_fields hfs (meta_init g) = (M, on)" "\<forall>hf \<in> set hfs. hf_size hf < 2 ^ 32"
  shows "\<exists>g2. meta_finish h pr d M g' = (received (maxHeaderListSize g) h pr hfs, g2) \<and> fr_ReadMetaHeaders g2 = Some d \<and>
    fr_r g2 = fr_r g' \<and> fr_lastHeaderStream g2 = fr_lastHeaderStream g' \<and> fr_AllowIllegalReads g2 = fr_AllowIllegalReads g' \<and>
    fr_maxReadSize g2 = fr_maxReadSize g' \<and> fr_MaxHeaderListSize g2 = fr_MaxHeaderListSize g'"
  using meta_fields_judge [OF _ _ assms(3,2)] assms(1)
  by (auto simp: meta_finish_def received_def Let_def Close_def meta_init_def split: sum.splits option.splits)

lemma received_error: "received mx h pr hfs = Inl e \<Longrightarrow> \<not> terminalReadFrameError (Some e)"
  by (cases "judge False (unat mx) hfs") (auto simp: received_def Let_def split: option.splits)

text \<open>A well-formed list that fits is received whole.\<close>

lemma judge_pseudo:
  assumes "list_all IsPseudo ps" "list_all (\<lambda>hf. ValidHeaderFieldValue (Value hf)) ps" "total_size ps \<le> n"
  shows "judge False n (ps @ rs) = map_sum (\<lambda>e. e) (map_prod ((@) ps) (\<lambda>t. t)) (judge False (n - total_size ps) rs)"
  using assms
proof (induction ps arbitrary: n)
  case Nil
  then show ?case by (simp add: total_size_def map_prod_def map_sum.id [unfolded id_def])
next
  case (Cons p ps)
  then have "judge False (n - hf_size p) (ps @ rs) =
      map_sum (\<lambda>e. e) (map_prod ((@) ps) (\<lambda>t. t)) (judge False (n - hf_size p - total_size ps) rs)"
    by (simp add: total_size_def)
  with Cons.prems show ?case
    by (cases "judge False (n - hf_size p - total_size ps) rs") (auto simp: field_fault_def total_size_def)
qed

lemma judge_regular:
  assumes "list_all (\<lambda>hf. \<not> IsPseudo hf \<and> validWireHeaderFieldName (Name hf) \<and> ValidHeaderFieldValue (Value hf)) rs" "total_size rs \<le> n"
  shows "judge b n rs = Inr (rs, False)"
  using assms
proof (induction rs arbitrary: n b)
  case (Cons r rs)
  then have "judge True (n - hf_size r) rs = Inr (rs, False)"
    by (simp add: total_size_def)
  with Cons.prems show ?case
    by (simp add: field_fault_def total_size_def)
qed simp

lemma received_whole:
  assumes "fields_ok mx hfs" "total_size hfs \<le> unat mx"
  shows "received mx h pr hfs =
    Inr (MetaFrame \<lparr>mh_Header = invalid_header h, mh_Priority = pr, mh_Fields = hfs, mh_Truncated = False\<rparr>)"
proof -
  let ?ps = "PseudoFields hfs" and ?rs = "RegularFields hfs"
  have split: "hfs = ?ps @ ?rs"
    using assms(1) by (simp add: fields_ok_def)
  have v: "list_all (\<lambda>hf. ValidHeaderFieldValue (Value hf)) ?ps" "list_all (\<lambda>hf. ValidHeaderFieldValue (Value hf)) ?rs"
    using assms(1) split by (metis fields_ok_def list_all_append)+
  have size: "total_size ?ps + total_size ?rs \<le> unat mx"
    using assms(2) by (subst (asm) split) (simp add: total_size_def)
  have "judge False (unat mx - total_size ?ps) ?rs = Inr (?rs, False)"
    using assms(1) v(2) size by (intro judge_regular) (auto simp: fields_ok_def list_all_iff)
  then have "judge False (unat mx) (?ps @ ?rs) = Inr (?ps @ ?rs, False)"
    using judge_pseudo [OF _ v(1), of "unat mx" ?rs] assms(1) size by (simp add: fields_ok_def)
  moreover have "status_pseudo \<notin> set request_pseudos"
    by (simp add: status_pseudo_def request_pseudos_def go_bytes_def)
  then have "checkPseudos hfs = None"
    using assms(1) unfolding checkPseudos_def check_pseudos_iff fields_ok_def by auto
  ultimately show ?thesis
    using split by (simp add: received_def)
qed

section \<open>A connection\<close>

text \<open>Each header list is encoded, cut into fragments and written as HEADERS and CONTINUATION frames.\<close>

fun block_run :: "(bytes \<Rightarrow> bytes list) \<Rightarrow> (enc_op list \<times> HeadersFrameParam) list \<Rightarrow> Encoder \<Rightarrow> write_call list option" where
  "block_run ct [] e = Some []"
| "block_run ct ((ops, hp) # blocks) e =
     (case enc_run ops e of
        None \<Rightarrow> None
      | Some (e', out) \<Rightarrow> map_option ((@) (block_calls hp (ct out))) (block_run ct blocks e'))"

definition cuts :: "(bytes \<Rightarrow> bytes list) \<Rightarrow> bool" where
  "cuts ct \<longleftrightarrow>
     (\<forall>p. p \<noteq> [] \<longrightarrow> concat (ct p) = p \<and> ct p \<noteq> [] \<and> hd (ct p) \<noteq> [] \<and> (\<forall>b \<in> set (ct p). length b \<le> 0xff0000))"

definition list_ok :: "u32 \<Rightarrow> u32 \<Rightarrow> enc_op list \<times> HeadersFrameParam \<Rightarrow> bool" where
  "list_ok allowed mx b \<longleftrightarrow>
     (case b of (ops, hp) \<Rightarrow>
        list_all (op_ok allowed) ops \<and> fields_of ops \<noteq> [] \<and> list_all (fits mx) (fields_of ops) \<and>
        validStreamID (hp_StreamID hp) \<and> validStreamIDOrZero (StreamDep (hp_Priority hp)))"

definition arrives :: "u32 \<Rightarrow> enc_op list \<times> HeadersFrameParam \<Rightarrow> 'e http2_error + Frame \<Rightarrow> bool" where
  "arrives mx b r \<longleftrightarrow>
     (case b of (ops, hp) \<Rightarrow>
        \<exists>h. fh_Type h = FrameHeaders \<and> fh_StreamID h = hp_StreamID hp \<and>
          Flags_Has (fh_Flags h) FlagHeadersEndStream = hp_EndStream hp \<and> r = received mx h (hp_Priority hp) (fields_of ops))"

lemma continuation_calls_legal:
  assumes "\<forall>b \<in> set bs. length b \<le> 0xff0000" "validStreamID i" "c \<in> set (continuation_calls i bs)"
  shows "call_legal c \<and> length (call_payload c) \<le> 0xffffff"
  using assms by (induction bs) (auto simp: call_legal_def)

lemma block_legal_cut:
  assumes "cuts ct" "out \<noteq> []" "validStreamID (hp_StreamID hp)" "validStreamIDOrZero (StreamDep (hp_Priority hp))"
  shows "block_legal hp (ct out) 0xffffff" "\<forall>c \<in> set (block_calls hp (ct out)). call_legal c" "concat (ct out) = out"
proof -
  have c: "concat (ct out) = out" "ct out \<noteq> []" "hd (ct out) \<noteq> []" "\<forall>b \<in> set (ct out). length b \<le> 0xff0000"
    using assms(1,2) by (auto simp: cuts_def)
  then have frag: "length (hd (ct out)) \<le> 0xff0000" and tail: "\<forall>b \<in> set (tl (ct out)). length b \<le> 0xff0000"
    by (auto dest: list.set_sel(2))
  have "unat (hp_PadLength hp) < 256"
    using unsigned_less [of "hp_PadLength hp", where 'a = nat] by simp
  with frag have "length (hd (ct out)) + unat (hp_PadLength hp) < 0xff0100"
    by linarith
  with frag tail have "call_legal cl \<and> length (call_payload cl) \<le> 0xffffff" if "cl \<in> set (block_calls hp (ct out))" for cl
    using that assms(3,4) c(3) continuation_calls_legal [of "tl (ct out)" "hp_StreamID hp"]
    by (auto simp: block_calls_def call_legal_def length_octet_def priority_octets_def pad_octets_def)
  with c show "block_legal hp (ct out) 0xffffff" "\<forall>c \<in> set (block_calls hp (ct out)). call_legal c" "concat (ct out) = out"
    by (simp_all add: block_legal_def)
qed

text \<open>One header list: the encoder and the decoder stay in step whatever the callback makes of the fields.\<close>

lemma block_received:
  fixes D :: Decoder
  assumes "in_sync e (fresh mx D)" "saveBuf D = []" "cuts ct" "list_ok (allowedMaxSize (dynTab D)) mx (ops, hp)"
    and "dyn_used (edynTab e) + length ops < 2 ^ 64" "dyn_used (dynTab D) + length ops < 2 ^ 64" "enc_run ops e = Some (e', out)"
  obtains d' where "out \<noteq> []" "in_sync e' d'" "allowedMaxSize (dynTab d') = allowedMaxSize (dynTab D)"
    "dyn_used (edynTab e') \<le> dyn_used (edynTab e) + length ops" "dyn_used (dynTab d') \<le> dyn_used (dynTab D) + length ops"
    "maxStrLen d' = int (unat mx)"
    "\<And>g :: 'e Framer. \<And>rest. fr_ReadMetaHeaders g = Some D \<Longrightarrow> maxHeaderListSize g = mx \<Longrightarrow> fr_maxReadSize g = 0xffffff \<Longrightarrow>
      rd_data (fr_r g) = concat (map call_wire (block_calls hp (ct out))) @ rest \<Longrightarrow> \<not> fr_AllowIllegalReads g \<Longrightarrow>
      fr_lastHeaderStream g = 0 \<Longrightarrow>
      \<exists>r g' on b. ReadFrame g = (r, g') \<and> arrives mx (ops, hp) r \<and> block_read g rest g' \<and>
        fr_ReadMetaHeaders g' = Some (view (emitted D) on (d'\<lparr>saveBuf := [], dbuf := b\<rparr>))"
proof -
  have ops: "list_all (op_ok (allowedMaxSize (dynTab D))) ops" "fields_of ops \<noteq> []" "\<forall>f \<in> set (fields_of ops). fits mx f"
      "validStreamID (hp_StreamID hp)" "validStreamIDOrZero (StreamDep (hp_Priority hp))"
    using assms(4) by (auto simp: list_ok_def list_all_iff)
  have "int (unat mx) < 2 ^ 63"
    using unsigned_less [of mx, where 'a = int] by simp
  with ops(3) have "\<forall>f \<in> set (fields_of ops). field_fits (fresh mx D) f"
    by (simp add: fits_def field_fits_def fits_limit_def del: of_nat_unat)
  with enc_run_reads [OF assms(1), of ops] assms(5-7) ops(1) obtain d' where
    d': "reads_to out (fresh mx D) d'" "in_sync e' d'" "emitted d' = fields_of ops" "allowedMaxSize (dynTab d') = allowedMaxSize (dynTab D)"
      "dyn_used (edynTab e') \<le> dyn_used (edynTab e) + length ops" "dyn_used (dynTab d') \<le> dyn_used (dynTab D) + length ops"
    by auto
  have out: "out \<noteq> []"
    using d'(1,3) ops(2) steps_nothing by (fastforce simp: reads_to_def)
  note cut = block_legal_cut [OF assms(3) out ops(4,5)]
  have "op_ok a op \<Longrightarrow> op = Field f \<Longrightarrow> hf_size f < 2 ^ 32" for a op f
    by (simp add: op_ok_def field_ok_def)
  then have sizes: "\<forall>hf \<in> set (fields_of ops). hf_size hf < 2 ^ 32"
    using ops(1) by (induction ops rule: fields_of.induct) auto
  have "\<exists>r g' on b. ReadFrame g = (r, g') \<and> arrives mx (ops, hp) r \<and> block_read g rest g' \<and>
        fr_ReadMetaHeaders g' = Some (view (emitted D) on (d'\<lparr>saveBuf := [], dbuf := b\<rparr>))"
    if g: "fr_ReadMetaHeaders g = Some D" "maxHeaderListSize g = mx" "fr_maxReadSize g = 0xffffff"
      "rd_data (fr_r g) = concat (map call_wire (block_calls hp (ct out))) @ rest" "\<not> fr_AllowIllegalReads g"
      "fr_lastHeaderStream g = 0" for g :: "'e Framer" and rest
  proof -
    let ?h = "call_header (hd (block_calls hp (ct out)))"
    obtain g1 b M on where r: "ReadFrame g = meta_finish ?h (hp_Priority hp) (view (emitted D) on (d'\<lparr>saveBuf := [], dbuf := b\<rparr>)) M g1"
        "meta_fields (emitted d') (meta_init g) = (M, on)" "block_read g rest g1"
      using ReadFrame_block [where g = g and D = D and d' = d' and hp = hp and bs = "ct out" and rest = rest] d'(1) assms(2) g cut by auto
    obtain g2 where g2: "ReadFrame g = (received mx ?h (hp_Priority hp) (fields_of ops), g2)"
        "fr_ReadMetaHeaders g2 = Some (view (emitted D) on (d'\<lparr>saveBuf := [], dbuf := b\<rparr>))" "block_read g rest g2"
      using meta_finish_received [OF _ r(2), where h = ?h and pr = "hp_Priority hp" and g' = g1 and
          d = "view (emitted D) on (d'\<lparr>saveBuf := [], dbuf := b\<rparr>)"] r(1,3) sizes d'(3) g(2)
      by (auto simp: block_read_def)
    moreover have "fh_Type ?h = FrameHeaders" "fh_StreamID ?h = hp_StreamID hp" "Flags_Has (fh_Flags ?h) FlagHeadersEndStream = hp_EndStream hp"
      using valid_stream_31 [OF ops(4)]
      by (simp_all add: block_calls_def call_header_def frame_header_def go_defs flag_if_def Flags_Has_def)
    ultimately show ?thesis
      unfolding arrives_def prod.case by blast
  qed
  with that out d' reads_to_maxStrLen [OF d'(1)] show thesis by simp
qed

lemma enc_run_total:
  assumes "in_sync e (fresh mx D)" "list_ok (allowedMaxSize (dynTab D)) mx (ops, hp)"
    and "dyn_used (edynTab e) + length ops < 2 ^ 64" "dyn_used (dynTab D) + length ops < 2 ^ 64"
  shows "\<exists>e' out. enc_run ops e = Some (e', out)"
proof -
  have "int (unat mx) < 2 ^ 63"
    using unsigned_less [of mx, where 'a = int] by simp
  then have "\<forall>f \<in> set (fields_of ops). field_fits (fresh mx D) f"
    using assms(2) by (auto simp: list_ok_def list_all_iff fits_def field_fits_def fits_limit_def simp del: of_nat_unat)
  with enc_run_reads [OF assms(1), of ops] assms(2-4) show ?thesis
    by (auto simp: list_ok_def)
qed

lemma in_sync_fresh:
  assumes "in_sync e d" "maxStrLen d = int (unat mx)" "dynTab D = dynTab d" "saveBuf D = []"
  shows "in_sync e (fresh mx D)"
  using assms by (simp add: in_sync_def)

lemma in_sync_fresh_new: "in_sync e d \<Longrightarrow> in_sync e (fresh mx d)"
  by (simp add: in_sync_def)

lemma blocks_received:
  assumes "in_sync e (fresh mx D)" "saveBuf D = []" "cuts ct" "list_all (list_ok (allowedMaxSize (dynTab D)) mx) blocks"
    and "dyn_used (edynTab e) + length (concat (map fst blocks)) < 2 ^ 64" "dyn_used (dynTab D) + length (concat (map fst blocks)) < 2 ^ 64"
  shows "\<exists>cs. block_run ct blocks e = Some cs \<and> (\<forall>c \<in> set cs. call_legal c) \<and>
    (\<forall>(g :: 'e Framer) rest. fr_ReadMetaHeaders g = Some D \<and> maxHeaderListSize g = mx \<and> fr_maxReadSize g = 0xffffff \<and>
       rd_data (fr_r g) = concat (map call_wire cs) @ rest \<and> \<not> fr_AllowIllegalReads g \<and> fr_lastHeaderStream g = 0 \<longrightarrow>
       (\<exists>rs g'. ReadFrame_run (length blocks) g = (rs, g') \<and> list_all2 (arrives mx) blocks rs \<and> rd_data (fr_r g') = rest))"
  using assms
proof (induction blocks arbitrary: e D)
  case Nil
  then show ?case by simp
next
  case (Cons b blocks)
  obtain ops hp where b: "b = (ops, hp)" by (cases b)
  have ok: "list_ok (allowedMaxSize (dynTab D)) mx (ops, hp)"
    using Cons.prems(4) b by simp
  have used: "dyn_used (edynTab e) + length ops < 2 ^ 64" "dyn_used (dynTab D) + length ops < 2 ^ 64"
    using Cons.prems(5,6) b by simp_all
  obtain e' out where enc: "enc_run ops e = Some (e', out)"
    using enc_run_total [OF Cons.prems(1) ok used] by blast
  obtain d' where d': "out \<noteq> []" "in_sync e' d'" "allowedMaxSize (dynTab d') = allowedMaxSize (dynTab D)"
      "dyn_used (edynTab e') \<le> dyn_used (edynTab e) + length ops" "dyn_used (dynTab d') \<le> dyn_used (dynTab D) + length ops"
      "maxStrLen d' = int (unat mx)"
    and one: "\<And>g :: 'e Framer. \<And>rest. fr_ReadMetaHeaders g = Some D \<Longrightarrow> maxHeaderListSize g = mx \<Longrightarrow> fr_maxReadSize g = 0xffffff \<Longrightarrow>
      rd_data (fr_r g) = concat (map call_wire (block_calls hp (ct out))) @ rest \<Longrightarrow> \<not> fr_AllowIllegalReads g \<Longrightarrow>
      fr_lastHeaderStream g = 0 \<Longrightarrow>
      \<exists>r g' on b. ReadFrame g = (r, g') \<and> arrives mx (ops, hp) r \<and> block_read g rest g' \<and>
        fr_ReadMetaHeaders g' = Some (view (emitted D) on (d'\<lparr>saveBuf := [], dbuf := b\<rparr>))"
    by (rule block_received [OF Cons.prems(1-3) ok used enc]) blast
  define next_ok where "next_ok D' \<longleftrightarrow> dynTab D' = dynTab d' \<and> saveBuf D' = []" for D' :: Decoder
  have ih: "\<exists>cs. block_run ct blocks e' = Some cs \<and> (\<forall>c \<in> set cs. call_legal c) \<and>
    (\<forall>(g :: 'e Framer) rest. fr_ReadMetaHeaders g = Some D' \<and> maxHeaderListSize g = mx \<and> fr_maxReadSize g = 0xffffff \<and>
       rd_data (fr_r g) = concat (map call_wire cs) @ rest \<and> \<not> fr_AllowIllegalReads g \<and> fr_lastHeaderStream g = 0 \<longrightarrow>
       (\<exists>rs g'. ReadFrame_run (length blocks) g = (rs, g') \<and> list_all2 (arrives mx) blocks rs \<and> rd_data (fr_r g') = rest))"
    if "next_ok D'" for D'
    by (rule Cons.IH) (use that Cons.prems(3-6) d' b in_sync_fresh [OF d'(2,6)] in \<open>auto simp: next_ok_def\<close>)
  have "next_ok d'"
    using d'(2) by (simp add: next_ok_def in_sync_def)
  then obtain cs where cs: "block_run ct blocks e' = Some cs" "\<forall>c \<in> set cs. call_legal c"
    using ih by blast
  let ?cs = "block_calls hp (ct out) @ cs"
  have run: "block_run ct (b # blocks) e = Some ?cs"
    using enc cs(1) b by simp
  have legal: "\<forall>c \<in> set ?cs. call_legal c"
    using cs(2) block_legal_cut(2) [OF Cons.prems(3) d'(1)] ok by (auto simp: list_ok_def)
  have "\<exists>rs g'. ReadFrame_run (length (b # blocks)) g = (rs, g') \<and> list_all2 (arrives mx) (b # blocks) rs \<and> rd_data (fr_r g') = rest"
    if g: "fr_ReadMetaHeaders g = Some D" "maxHeaderListSize g = mx" "fr_maxReadSize g = 0xffffff"
       "rd_data (fr_r g) = concat (map call_wire ?cs) @ rest" "\<not> fr_AllowIllegalReads g" "fr_lastHeaderStream g = 0"
    for g :: "'e Framer" and rest
  proof -
    have "rd_data (fr_r g) = concat (map call_wire (block_calls hp (ct out))) @ concat (map call_wire cs) @ rest"
      using g(4) by simp
    from one [OF g(1-3) this g(5,6)] obtain r g1 on bf where r: "ReadFrame g = (r, g1)" "arrives mx (ops, hp) r"
        "block_read g (concat (map call_wire cs) @ rest) g1"
        "fr_ReadMetaHeaders g1 = Some (view (emitted D) on (d'\<lparr>saveBuf := [], dbuf := bf\<rparr>))"
      by blast
    have "next_ok (view (emitted D) on (d'\<lparr>saveBuf := [], dbuf := bf\<rparr>))"
      by (simp add: next_ok_def)
    moreover have "maxHeaderListSize g1 = mx" "fr_maxReadSize g1 = 0xffffff" "rd_data (fr_r g1) = concat (map call_wire cs) @ rest"
        "\<not> fr_AllowIllegalReads g1" "fr_lastHeaderStream g1 = 0"
      using r(3) g(2,3) by (auto simp: block_read_def maxHeaderListSize_def)
    ultimately obtain rs g2 where rs: "ReadFrame_run (length blocks) g1 = (rs, g2)" "list_all2 (arrives mx) blocks rs" "rd_data (fr_r g2) = rest"
      using ih cs(1) r(4) by fastforce
    have "\<not> terminalReadFrameError (Some e0)" if "r = Inl e0" for e0
      using r(2) that by (auto simp: arrives_def dest!: received_error [OF sym])
    then show ?thesis
      using r(1,2) rs b by (cases r) auto
  qed
  with run legal show ?case by blast
qed

text \<open>
  C2.  Header lists across a connection.  An encoder's header blocks (with changes of its table size in
  between, never beyond what the decoder allows) are cut into fragments at arbitrary places and written as
  HEADERS and CONTINUATION frames, in any streams, with any padding and priority.  A framer that reads the
  octets with \<^verbatim>\<open>ReadMetaHeaders\<close> and any limit on header lists returns for each block, in order, exactly
  what its fields deserve: the error of the first faulty field, or the fields that fit within the limit;
  a well-formed list within the limit comes back whole.  A malformed or oversized list never disturbs the
  lists after it: the HPACK decoder stays in step with the encoder.  The lists are not empty, and each name and
  each value is no longer than the limit, since longer ones end the connection; a list is oversized by its total.
\<close>

theorem header_lists_roundtrip:
  fixes x :: "'x option"
  assumes "4096 \<le> allowed" "allowed < 2 ^ 31" "mx \<noteq> 0"
    and "list_all (list_ok allowed mx) blocks" "length (concat (map fst blocks)) < 2 ^ 64" "cuts ct"
    and "\<forall>b. w b = (int (length b), None)"
  shows "\<exists>e d cs f g rs.
    NewEncoder = Some e \<and> NewDecoder allowed = Some d \<and> block_run ct blocks e = Some cs \<and>
    write_run w cs (NewFramer [] r) = (replicate (length cs) None, f) \<and>
    ReadFrame_run (length blocks)
      ((NewFramer [] \<lparr>rd_data = concat (fr_w f), rd_end = x\<rparr>)\<lparr>fr_ReadMetaHeaders := Some d, fr_MaxHeaderListSize := mx\<rparr>) = (rs, g) \<and>
    list_all2 (arrives mx) blocks rs \<and>
    list_all2 (\<lambda>(ops, hp) r. fields_ok mx (fields_of ops) \<and> total_size (fields_of ops) \<le> unat mx \<longrightarrow>
      (\<exists>m. r = Inr (MetaFrame m) \<and> mh_Fields m = fields_of ops \<and> \<not> mh_Truncated m \<and> mh_Priority m = hp_Priority hp \<and>
        fh_StreamID (mh_Header m) = hp_StreamID hp \<and> Frame_StreamEnded (MetaFrame m) = hp_EndStream hp)) blocks rs \<and>
    rd_data (fr_r g) = []"
proof -
  obtain e d where new: "NewEncoder = Some e" "NewDecoder allowed = Some d" "in_sync e d" "maxStrLen d = 0" "saveBuf d = []"
      "dyn_used (edynTab e) = 0" "dyn_used (dynTab d) = 0" "allowedMaxSize (dynTab d) = allowed"
    by (rule new_in_sync [OF assms(1,2)])
  obtain cs where cs: "block_run ct blocks e = Some cs" "\<forall>c \<in> set cs. call_legal c"
      "\<And>(g :: 'x Framer) rest. fr_ReadMetaHeaders g = Some d \<and> maxHeaderListSize g = mx \<and> fr_maxReadSize g = 0xffffff \<and>
       rd_data (fr_r g) = concat (map call_wire cs) @ rest \<and> \<not> fr_AllowIllegalReads g \<and> fr_lastHeaderStream g = 0 \<Longrightarrow>
       \<exists>rs g'. ReadFrame_run (length blocks) g = (rs, g') \<and> list_all2 (arrives mx) blocks rs \<and> rd_data (fr_r g') = rest"
    using blocks_received [OF in_sync_fresh_new [OF new(3)] new(5) assms(6), of mx blocks] assms(4,5) new(6-8) by auto
  obtain f where f: "write_run w cs (NewFramer [] r) = (replicate (length cs) None, f)" "fr_w f = map call_wire cs"
    using write_run_calls [OF cs(2) assms(7), of "NewFramer [] r"] by auto
  let ?g = "(NewFramer [] \<lparr>rd_data = concat (fr_w f), rd_end = x\<rparr>)\<lparr>fr_ReadMetaHeaders := Some d, fr_MaxHeaderListSize := mx\<rparr>"
  obtain rs g where rs: "ReadFrame_run (length blocks) ?g = (rs, g)" "list_all2 (arrives mx) blocks rs" "rd_data (fr_r g) = []"
    using cs(3) [of ?g "[]"] f(2) assms(3) by (auto simp: maxHeaderListSize_def)
  have "list_all2 (\<lambda>(ops, hp) r. fields_ok mx (fields_of ops) \<and> total_size (fields_of ops) \<le> unat mx \<longrightarrow>
      (\<exists>m. r = Inr (MetaFrame m) \<and> mh_Fields m = fields_of ops \<and> \<not> mh_Truncated m \<and> mh_Priority m = hp_Priority hp \<and>
        fh_StreamID (mh_Header m) = hp_StreamID hp \<and> Frame_StreamEnded (MetaFrame m) = hp_EndStream hp)) blocks rs"
    using rs(2) by (rule list.rel_mono_strong) (auto simp: arrives_def received_whole invalid_header_def)
  with new(1,2) cs(1) f(1) rs show ?thesis
    by blast
qed

text \<open>Fragments of 16384 octets.\<close>

function fragments :: "bytes \<Rightarrow> bytes list" where
  "fragments p = (if p = [] then [] else take 16384 p # fragments (drop 16384 p))"
  by pat_completeness auto
termination
  by (relation "measure length") (auto simp: length_greater_0_conv)

declare fragments.simps [simp del]

lemma fragments_Nil [simp]: "fragments [] = []"
  by (simp add: fragments.simps [of "[]"])

lemma fragments_concat: "concat (fragments p) = p"
  by (induction p rule: fragments.induct) (simp add: fragments.simps)

lemma fragments_size: "b \<in> set (fragments p) \<Longrightarrow> length b \<le> 16384 \<and> b \<noteq> []"
proof (induction p rule: fragments.induct)
  case (1 p)
  then show ?case
    by (cases "p = []") (auto simp: fragments.simps [of p])
qed

lemma cuts_fragments: "cuts fragments"
proof -
  have "length b \<le> 0xff0000" if "b \<in> set (fragments p)" for b p
    using fragments_size [OF that] by simp
  moreover have "fragments p \<noteq> [] \<and> hd (fragments p) \<noteq> []" if "p \<noteq> []" for p
    using that by (simp add: fragments.simps [of p])
  ultimately show ?thesis
    by (simp add: cuts_def fragments_concat)
qed

definition sample_param :: "u32 \<Rightarrow> HeadersFrameParam" where
  "sample_param i = \<lparr>hp_StreamID = i, hp_BlockFragment = [], hp_EndStream = True, hp_EndHeaders = False, hp_PadLength = 7,
     hp_Priority = \<lparr>StreamDep = 1, Exclusive = False, Weight = 3\<rparr>\<rparr>"

definition sample_blocks :: "(enc_op list \<times> HeadersFrameParam) list" where
  "sample_blocks =
    [([Field (entry '':method'' ''GET''), Field (entry ''x'' ''y'')], sample_param 1),
     ([Field (entry ''Upper'' ''z'')], sample_param 3),
     ([MaxTableSize 0, Field (entry '':status'' ''200'')], sample_param 5)]"

theorem header_lists_roundtrip_witness:
  "\<exists>e d cs f g rs.
    NewEncoder = Some e \<and> NewDecoder 8192 = Some d \<and> block_run fragments sample_blocks e = Some cs \<and>
    write_run (\<lambda>b. (int (length b), None)) cs (NewFramer [] \<lparr>rd_data = [], rd_end = None :: nat option\<rparr>) = (replicate (length cs) None, f) \<and>
    ReadFrame_run 3
      ((NewFramer [] \<lparr>rd_data = concat (fr_w f), rd_end = None :: nat option\<rparr>)
         \<lparr>fr_ReadMetaHeaders := Some d, fr_MaxHeaderListSize := 1000\<rparr>) = (rs, g) \<and>
    list_all2 (arrives 1000) sample_blocks rs"
proof -
  have "list_all (list_ok 8192 1000) sample_blocks" "length (concat (map fst sample_blocks)) < 2 ^ 64" "length sample_blocks = 3"
    by (simp_all add: sample_blocks_def list_ok_def op_ok_def field_ok_def hf_size_def entry_def go_bytes_def fits_def sample_param_def
        validStreamID_def validStreamIDOrZero_def)
  then show ?thesis
    using header_lists_roundtrip [of 8192 1000 sample_blocks fragments "\<lambda>b. (int (length b), None :: nat option)"
        "\<lparr>rd_data = [], rd_end = None\<rparr>" "None :: nat option"] cuts_fragments by auto
qed

end
