(* ===== verification/HTTP2_Write.thy ===== *)
theory HTTP2_Write
  imports HTTP2_Meta_Roundtrip HTTP2_WriteSched "HOL-Library.List_Lexorder"
begin

text \<open>
  Package \<^verbatim>\<open>http2\<close>, files \<^verbatim>\<open>write.go\<close> and \<^verbatim>\<open>headermap.go\<close>: what each frame writer does with the
  connection it is given: its framer, its HPACK encoder with the buffer the encoder writes to, and its
  calls of \<^verbatim>\<open>Flush\<close>, \<^verbatim>\<open>Sleep\<close> and \<^verbatim>\<open>CloseConn\<close>, which are recorded.
\<close>

section \<open>The connection\<close>

datatype context_event = Flushed | Slept nat | ClosedConn

record 'e writeContext =
  cx_Framer :: "'e Framer"
  cx_enc :: Encoder
  cx_buf :: bytes
  cx_events :: "context_event list"

definition new_context :: "Encoder \<Rightarrow> 'e Framer \<Rightarrow> 'e writeContext" where
  "new_context e f = \<lparr>cx_Framer = f, cx_enc = e, cx_buf = [], cx_events = []\<rparr>"

definition on_framer ::
  "('e Framer \<Rightarrow> 'e http2_error option \<times> 'e Framer) \<Rightarrow> 'e writeContext \<Rightarrow> 'e http2_error option \<times> 'e writeContext" where
  "on_framer op cx = (case op (cx_Framer cx) of (err, f) \<Rightarrow> (err, cx\<lparr>cx_Framer := f\<rparr>))"

text \<open>The result of \<^verbatim>\<open>Flush\<close> is a parameter.\<close>

definition Flush :: "'e option \<Rightarrow> 'e writeContext \<Rightarrow> 'e http2_error option \<times> 'e writeContext" where
  "Flush fl cx = (map_option UnderlyingError fl, cx\<lparr>cx_events := cx_events cx @ [Flushed]\<rparr>)"

section \<open>Encoding header fields\<close>

text \<open>The encoder writes to a buffer, which takes all it is given.  \<open>None\<close> stands for a panic.\<close>

definition encKV :: "bytes \<Rightarrow> bytes \<Rightarrow> 'e writeContext \<Rightarrow> 'e writeContext option" where
  "encKV k v cx =
     (case WriteField (\<lambda>p. (int (length p), None :: unit option)) \<lparr>Name = k, Value = v, Sensitive = False\<rparr> (cx_enc cx) of
        None \<Rightarrow> None
      | Some (enc, _) \<Rightarrow> Some (cx\<lparr>cx_enc := enc, cx_buf := cx_buf cx @ ebuf enc\<rparr>))"

text \<open>
  \<^verbatim>\<open>http.CanonicalHeaderKey\<close> on names of letters and hyphens: the first letter and those after a
  hyphen in upper case.
\<close>

fun canonical_key :: "bool \<Rightarrow> bytes \<Rightarrow> bytes" where
  "canonical_key upper [] = []"
| "canonical_key upper (b # bs) =
     (if upper \<and> 0x61 \<le> b \<and> b \<le> 0x7a then b - 32
      else if \<not> upper \<and> 0x41 \<le> b \<and> b \<le> 0x5a then b + 32 else b) # canonical_key (b = 0x2d) bs"

definition common_names :: "string list" where
  "common_names =
    [''accept'', ''accept-charset'', ''accept-encoding'', ''accept-language'', ''accept-ranges'', ''age'',
     ''access-control-allow-origin'', ''allow'', ''authorization'', ''cache-control'', ''content-disposition'',
     ''content-encoding'', ''content-language'', ''content-length'', ''content-location'', ''content-range'',
     ''content-type'', ''cookie'', ''date'', ''etag'', ''expect'', ''expires'', ''from'', ''host'', ''if-match'',
     ''if-modified-since'', ''if-none-match'', ''if-unmodified-since'', ''last-modified'', ''link'', ''location'',
     ''max-forwards'', ''proxy-authenticate'', ''proxy-authorization'', ''range'', ''referer'', ''refresh'',
     ''retry-after'', ''server'', ''set-cookie'', ''strict-transport-security'', ''trailer'', ''transfer-encoding'',
     ''user-agent'', ''vary'', ''via'', ''www-authenticate'']"

definition common_headers :: "bytes list" where
  "common_headers = map go_bytes common_names"

definition commonLowerHeader :: "bytes \<rightharpoonup> bytes" where
  "commonLowerHeader = map_of (map (\<lambda>v. (canonical_key True v, v)) common_headers)"

definition commonCanonHeader :: "bytes \<rightharpoonup> bytes" where
  "commonCanonHeader = map_of (map (\<lambda>v. (v, canonical_key True v)) common_headers)"

text \<open>\<^verbatim>\<open>strings.ToLower\<close>; what it does to text beyond ASCII depends on Unicode tables and is a parameter.\<close>

definition ToLower :: "(bytes \<Rightarrow> bytes) \<Rightarrow> bytes \<Rightarrow> bytes" where
  "ToLower ulow s = (if list_all (\<lambda>b. b < 0x80) s then map lowerASCII s else ulow s)"

definition lowerHeader :: "(bytes \<Rightarrow> bytes) \<Rightarrow> bytes \<Rightarrow> bytes" where
  "lowerHeader ulow v = (case commonLowerHeader v of Some s \<Rightarrow> s | None \<Rightarrow> ToLower ulow v)"

text \<open>
  A header map by its entries.  Its keys are distinct and \<^verbatim>\<open>Less\<close> is the order of strings, so that
  sorting has one result.
\<close>

type_synonym http_header = "(bytes \<times> bytes list) list"

definition sorter_Keys :: "http_header \<Rightarrow> bytes list" where
  "sorter_Keys h = sort (map fst h)"

definition header_values :: "http_header \<Rightarrow> bytes \<Rightarrow> bytes list" where
  "header_values h k = (case map_of h k of None \<Rightarrow> [] | Some vv \<Rightarrow> vv)"

fun encode_values :: "bytes \<Rightarrow> bytes list \<Rightarrow> 'e writeContext \<Rightarrow> 'e writeContext option" where
  "encode_values k [] cx = Some cx"
| "encode_values k (v # vv) cx =
     (if \<not> ValidHeaderFieldValue v then encode_values k vv cx
      else if k = go_bytes ''transfer-encoding'' \<and> v \<noteq> go_bytes ''trailers'' then encode_values k vv cx
      else (case encKV k v cx of None \<Rightarrow> None | Some cx \<Rightarrow> encode_values k vv cx))"

fun encode_keys :: "(bytes \<Rightarrow> bytes) \<Rightarrow> http_header \<Rightarrow> bytes list \<Rightarrow> 'e writeContext \<Rightarrow> 'e writeContext option" where
  "encode_keys ulow h [] cx = Some cx"
| "encode_keys ulow h (k # ks) cx =
     (let vv = header_values h k; k = lowerHeader ulow k in
      if \<not> validWireHeaderFieldName k then encode_keys ulow h ks cx
      else (case encode_values k vv cx of None \<Rightarrow> None | Some cx \<Rightarrow> encode_keys ulow h ks cx))"

definition encodeHeaders :: "(bytes \<Rightarrow> bytes) \<Rightarrow> http_header \<Rightarrow> bytes list option \<Rightarrow> 'e writeContext \<Rightarrow> 'e writeContext option" where
  "encodeHeaders ulow h keys cx = encode_keys ulow h (case keys of None \<Rightarrow> sorter_Keys h | Some ks \<Rightarrow> ks) cx"

section \<open>Splitting a header block\<close>

type_synonym 'e block_writer = "bytes \<Rightarrow> bool \<Rightarrow> bool \<Rightarrow> 'e writeContext \<Rightarrow> 'e http2_error option \<times> 'e writeContext"

definition write_maxFrameSize :: nat where [go_defs]: "write_maxFrameSize = 16384"

function split_loop :: "'e block_writer \<Rightarrow> bool \<Rightarrow> bytes \<Rightarrow> 'e writeContext \<Rightarrow> 'e http2_error option \<times> 'e writeContext" where
  "split_loop fn first headerBlock cx =
     (if headerBlock = [] then (None, cx)
      else
        let frag = (if length headerBlock > write_maxFrameSize then take write_maxFrameSize headerBlock else headerBlock);
            rest = drop (length frag) headerBlock in
        (case fn frag first (rest = []) cx of
           (Some err, cx) \<Rightarrow> (Some err, cx)
         | (None, cx) \<Rightarrow> split_loop fn False rest cx))"
  by pat_completeness auto
termination
  by (relation "measure (\<lambda>(fn, first, hb, cx). length hb)") (auto simp: write_maxFrameSize_def)

declare split_loop.simps [simp del]

definition splitHeaderBlock :: "bytes \<Rightarrow> 'e block_writer \<Rightarrow> 'e writeContext \<Rightarrow> 'e http2_error option \<times> 'e writeContext" where
  "splitHeaderBlock headerBlock fn cx = split_loop fn True headerBlock cx"

definition res_param :: "writeResHeaders \<Rightarrow> HeadersFrameParam" where
  "res_param rw = \<lparr>hp_StreamID = rh_streamID rw, hp_BlockFragment = [], hp_EndStream = rh_endStream rw, hp_EndHeaders = False,
     hp_PadLength = 0, hp_Priority = zero_priority\<rparr>"

definition res_writeHeaderBlock :: "'e write_result \<Rightarrow> writeResHeaders \<Rightarrow> 'e block_writer" where
  "res_writeHeaderBlock w rw frag firstFrag lastFrag cx =
     (if firstFrag then on_framer (Framer_WriteHeaders w ((res_param rw)\<lparr>hp_BlockFragment := frag, hp_EndHeaders := lastFrag\<rparr>)) cx
      else on_framer (Framer_WriteContinuation w (rh_streamID rw) lastFrag frag) cx)"

definition push_writeHeaderBlock :: "'e write_result \<Rightarrow> writePushPromise \<Rightarrow> 'e block_writer" where
  "push_writeHeaderBlock w pw frag firstFrag lastFrag cx =
     (if firstFrag then
        on_framer (Framer_WritePushPromise w
          \<lparr>pq_StreamID = pp_streamID pw, pq_PromiseID = pp_promisedID pw, pq_BlockFragment = frag, pq_EndHeaders = lastFrag,
           pq_PadLength = 0\<rparr>) cx
      else on_framer (Framer_WriteContinuation w (pp_streamID pw) lastFrag frag) cx)"

section \<open>The frame writers\<close>

definition httpCodeString :: "int \<Rightarrow> bytes" where
  "httpCodeString code = go_bytes (fmt_di code)"

definition encKV_unless_empty :: "bytes \<Rightarrow> bytes \<Rightarrow> 'e writeContext \<Rightarrow> 'e writeContext option" where
  "encKV_unless_empty k v cx = (if v \<noteq> [] then encKV k v cx else Some cx)"

definition encode_response :: "(bytes \<Rightarrow> bytes) \<Rightarrow> writeResHeaders \<Rightarrow> 'e writeContext \<Rightarrow> 'e writeContext option" where
  "encode_response ulow rw cx =
     Option.bind (if rh_httpResCode rw \<noteq> 0 then encKV (go_bytes '':status'') (httpCodeString (rh_httpResCode rw)) cx else Some cx) (\<lambda>cx.
     Option.bind (encodeHeaders ulow (rh_h rw) (rh_trailers rw) cx) (\<lambda>cx.
     Option.bind (encKV_unless_empty (go_bytes ''content-type'') (rh_contentType rw) cx) (\<lambda>cx.
     Option.bind (encKV_unless_empty (go_bytes ''content-length'') (rh_contentLength rw) cx) (\<lambda>cx.
       encKV_unless_empty (go_bytes ''date'') (rh_date rw) cx))))"

definition res_writeFrame ::
  "(bytes \<Rightarrow> bytes) \<Rightarrow> 'e write_result \<Rightarrow> writeResHeaders \<Rightarrow> 'e writeContext \<Rightarrow> 'e http2_error option \<times> 'e writeContext" where
  "res_writeFrame ulow w rw cx =
     (case encode_response ulow rw (cx\<lparr>cx_buf := []\<rparr>) of
        None \<Rightarrow> (Some Panic, cx)
      | Some cx \<Rightarrow>
          if cx_buf cx = [] \<and> rh_trailers rw = None then (Some Panic, cx)
          else splitHeaderBlock (cx_buf cx) (res_writeHeaderBlock w rw) cx)"

definition push_writeFrame ::
  "(bytes \<Rightarrow> bytes) \<Rightarrow> 'e write_result \<Rightarrow> writePushPromise \<Rightarrow> 'e writeContext \<Rightarrow> 'e http2_error option \<times> 'e writeContext" where
  "push_writeFrame ulow w pw cx =
     (case Option.bind (encKV (go_bytes '':method'') (pp_method pw) (cx\<lparr>cx_buf := []\<rparr>)) (\<lambda>cx.
           Option.bind (encKV (go_bytes '':scheme'') (pp_scheme pw) cx) (\<lambda>cx.
           Option.bind (encKV (go_bytes '':authority'') (pp_host pw) cx) (\<lambda>cx.
           Option.bind (encKV (go_bytes '':path'') (pp_requestURI pw) cx) (\<lambda>cx.
             encodeHeaders ulow (pp_h pw) None cx)))) of
        None \<Rightarrow> (Some Panic, cx)
      | Some cx \<Rightarrow>
          if cx_buf cx = [] then (Some Panic, cx)
          else splitHeaderBlock (cx_buf cx) (push_writeHeaderBlock w pw) cx)"

definition continue_writeFrame :: "'e write_result \<Rightarrow> u32 \<Rightarrow> 'e writeContext \<Rightarrow> 'e http2_error option \<times> 'e writeContext" where
  "continue_writeFrame w streamID cx =
     (case encKV (go_bytes '':status'') (go_bytes ''100'') (cx\<lparr>cx_buf := []\<rparr>) of
        None \<Rightarrow> (Some Panic, cx)
      | Some cx \<Rightarrow>
          on_framer (Framer_WriteHeaders w
            \<lparr>hp_StreamID = streamID, hp_BlockFragment = cx_buf cx, hp_EndStream = False, hp_EndHeaders = True, hp_PadLength = 0,
             hp_Priority = zero_priority\<rparr>) cx)"

definition goaway_writeFrame ::
  "'e option \<Rightarrow> 'e write_result \<Rightarrow> u32 \<Rightarrow> ErrCode \<Rightarrow> 'e writeContext \<Rightarrow> 'e http2_error option \<times> 'e writeContext" where
  "goaway_writeFrame fl w maxStreamID code cx =
     (case on_framer (Framer_WriteGoAway w maxStreamID code []) cx of
        (err, cx) \<Rightarrow>
          if code \<noteq> 0 then
            let cx = snd (Flush fl cx) in
            (err, cx\<lparr>cx_events := cx_events cx @ [Slept 50, ClosedConn]\<rparr>)
          else (err, cx))"

fun writeFrame ::
  "(bytes \<Rightarrow> bytes) \<Rightarrow> 'e option \<Rightarrow> 'e write_result \<Rightarrow> writeFramer \<Rightarrow> 'e writeContext \<Rightarrow> 'e http2_error option \<times> 'e writeContext" where
  "writeFrame ulow fl w FlushFrameWriter cx = Flush fl cx"
| "writeFrame ulow fl w (WriteSettings s) cx =
     on_framer (Framer_WriteSettings w (map (\<lambda>(i, v). \<lparr>set_ID = i, set_Val = v\<rparr>) s)) cx"
| "writeFrame ulow fl w (WriteGoAway maxStreamID code) cx = goaway_writeFrame fl w maxStreamID code cx"
| "writeFrame ulow fl w (WriteData wd) cx = on_framer (Framer_WriteData w (wd_streamID wd) (wd_endStream wd) (wd_p wd)) cx"
| "writeFrame ulow fl w (HandlerPanicRST streamID) cx = on_framer (Framer_WriteRSTStream w streamID ErrCodeInternal) cx"
| "writeFrame ulow fl w (WriteStreamError se) cx = on_framer (Framer_WriteRSTStream w (se_StreamID se) (se_Code se)) cx"
| "writeFrame ulow fl w (WritePingAck data) cx = on_framer (Framer_WritePing w True data) cx"
| "writeFrame ulow fl w WriteSettingsAck cx = on_framer (Framer_WriteSettingsAck w) cx"
| "writeFrame ulow fl w (WriteResHeaders rw) cx = res_writeFrame ulow w rw cx"
| "writeFrame ulow fl w (WritePushPromise pw) cx = push_writeFrame ulow w pw cx"
| "writeFrame ulow fl w (Write100Continue streamID) cx = continue_writeFrame w streamID cx"
| "writeFrame ulow fl w (WriteWindowUpdate streamID n) cx = on_framer (Framer_WriteWindowUpdate w streamID n) cx"

fun staysWithinBuffer :: "writeFramer \<Rightarrow> int \<Rightarrow> bool" where
  "staysWithinBuffer (WriteSettings s) mx = (int (frameHeaderLen + 6 * length s) \<le> mx)"
| "staysWithinBuffer (WriteData wd) mx = (int (frameHeaderLen + length (wd_p wd)) \<le> mx)"
| "staysWithinBuffer (HandlerPanicRST streamID) mx = (int (frameHeaderLen + 4) \<le> mx)"
| "staysWithinBuffer (WriteStreamError se) mx = (int (frameHeaderLen + 4) \<le> mx)"
| "staysWithinBuffer (WritePingAck data) mx = (int (frameHeaderLen + length data) \<le> mx)"
| "staysWithinBuffer WriteSettingsAck mx = (int frameHeaderLen \<le> mx)"
| "staysWithinBuffer (Write100Continue streamID) mx = (9 + 2 * (int (length '':status'') + int (length ''100'')) \<le> mx)"
| "staysWithinBuffer (WriteWindowUpdate streamID n) mx = (int (frameHeaderLen + 4) \<le> mx)"
| "staysWithinBuffer _ mx = False"

section \<open>What a header list is encoded as\<close>

text \<open>The fields of a header map, in the order of its keys.\<close>

definition value_sent :: "bytes \<Rightarrow> bytes \<Rightarrow> bool" where
  "value_sent k v \<longleftrightarrow> ValidHeaderFieldValue v \<and> (k = go_bytes ''transfer-encoding'' \<longrightarrow> v = go_bytes ''trailers'')"

definition plain_field :: "bytes \<Rightarrow> bytes \<Rightarrow> HeaderField" where
  "plain_field k v = \<lparr>Name = k, Value = v, Sensitive = False\<rparr>"

definition key_fields :: "(bytes \<Rightarrow> bytes) \<Rightarrow> http_header \<Rightarrow> bytes \<Rightarrow> HeaderField list" where
  "key_fields ulow h k =
     (if validWireHeaderFieldName (lowerHeader ulow k)
      then map (plain_field (lowerHeader ulow k)) (filter (value_sent (lowerHeader ulow k)) (header_values h k)) else [])"

definition header_fields :: "(bytes \<Rightarrow> bytes) \<Rightarrow> http_header \<Rightarrow> bytes list option \<Rightarrow> HeaderField list" where
  "header_fields ulow h keys = concat (map (key_fields ulow h) (case keys of None \<Rightarrow> sorter_Keys h | Some ks \<Rightarrow> ks))"

definition optional_field :: "string \<Rightarrow> bytes \<Rightarrow> HeaderField list" where
  "optional_field k v = (if v \<noteq> [] then [plain_field (go_bytes k) v] else [])"

definition status_fields :: "int \<Rightarrow> HeaderField list" where
  "status_fields code = (if code \<noteq> 0 then [plain_field status_pseudo (httpCodeString code)] else [])"

definition res_fields :: "(bytes \<Rightarrow> bytes) \<Rightarrow> writeResHeaders \<Rightarrow> HeaderField list" where
  "res_fields ulow rw =
     status_fields (rh_httpResCode rw) @ header_fields ulow (rh_h rw) (rh_trailers rw) @ optional_field ''content-type'' (rh_contentType rw) @
     optional_field ''content-length'' (rh_contentLength rw) @ optional_field ''date'' (rh_date rw)"

definition enc_fields :: "HeaderField list \<Rightarrow> 'e writeContext \<Rightarrow> 'e writeContext option" where
  "enc_fields fs cx =
     map_option (\<lambda>(e, out). cx\<lparr>cx_enc := e, cx_buf := cx_buf cx @ out\<rparr>) (enc_run (map Field fs) (cx_enc cx))"

lemma enc_run_append:
  "enc_run (xs @ ys) e =
     (case enc_run xs e of None \<Rightarrow> None | Some (e1, out) \<Rightarrow> map_option (\<lambda>(e2, out'). (e2, out @ out')) (enc_run ys e1))"
proof (induction xs arbitrary: e)
  case Nil
  then show ?case by (simp add: map_option_case split: option.split)
next
  case (Cons op xs)
  then show ?case
    by (cases op) (auto simp: map_option_case split: option.split)
qed

lemma enc_fields_append: "enc_fields (fs @ gs) cx = Option.bind (enc_fields fs cx) (enc_fields gs)"
  by (auto simp: enc_fields_def enc_run_append map_option_case split: option.split)

lemma enc_fields_bind: "enc_fields (fs @ gs) = (\<lambda>cx. Option.bind (enc_fields fs cx) (enc_fields gs))"
  by (rule ext) (rule enc_fields_append)

lemma enc_fields_Nil [simp]: "enc_fields [] cx = Some cx"
  by (simp add: enc_fields_def)

lemma encKV_fields: "encKV k v cx = enc_fields [plain_field k v] cx"
  by (auto simp: encKV_def enc_fields_def WriteField_def plain_field_def split: option.split)

lemma enc_fields_Cons: "enc_fields (f # fs) cx = Option.bind (enc_fields [f] cx) (enc_fields fs)"
  using enc_fields_append [of "[f]" fs cx] by simp

lemma encode_values_fields: "encode_values k vv cx = enc_fields (map (plain_field k) (filter (value_sent k) vv)) cx"
proof (induction vv arbitrary: cx)
  case (Cons v vv)
  show ?case
    using Cons.IH by (auto simp: value_sent_def encKV_fields enc_fields_Cons [of "plain_field k v" "map _ _"] split: option.split)
qed simp

lemma encode_keys_fields: "encode_keys ulow h ks cx = enc_fields (concat (map (key_fields ulow h) ks)) cx"
  by (induction ks arbitrary: cx) (auto simp: key_fields_def encode_values_fields enc_fields_append Let_def split: option.split)

lemma encodeHeaders_fields: "encodeHeaders ulow h keys cx = enc_fields (header_fields ulow h keys) cx"
  by (simp add: encodeHeaders_def encode_keys_fields header_fields_def)

lemma encKV_unless_empty_fields: "encKV_unless_empty (go_bytes k) v cx = enc_fields (optional_field k v) cx"
  by (simp add: encKV_unless_empty_def optional_field_def encKV_fields)

lemma encode_response_fields: "encode_response ulow rw cx = enc_fields (res_fields ulow rw) cx"
  by (simp add: encode_response_def res_fields_def status_fields_def enc_fields_bind encodeHeaders_fields encKV_unless_empty_fields
      encKV_fields status_pseudo_def)

text \<open>The table of common names never gives anything but the name in lower case.\<close>

lemma lower_canonical:
  assumes "list_all (\<lambda>b. b < 0x41 \<or> 0x5a < b \<and> b < 0x80) v"
  shows "map lowerASCII (canonical_key upper v) = v \<and> list_all (\<lambda>b. b < 0x80) (canonical_key upper v)"
  using assms
proof (induction v arbitrary: upper)
  case (Cons b v)
  have "0x41 \<le> b - 32 \<and> b - 32 \<le> 0x5a \<and> b - 32 < 0x80" if "0x61 \<le> b" "b \<le> 0x7a"
    using that by (auto simp: word_le_nat_alt word_less_nat_alt unat_sub)
  moreover have "b < 0x80" "\<not> (0x41 \<le> b \<and> b \<le> 0x5a)"
    using Cons.prems by (auto simp: word_less_nat_alt word_le_nat_alt)
  ultimately show ?case
    using Cons by (auto simp: lowerASCII_def)
qed simp

lemma common_headers_lower: "list_all (list_all (\<lambda>b. b < 0x41 \<or> 0x5a < b \<and> b < 0x80)) common_headers"
proof -
  define letters where "letters = ''abcdefghijklmnopqrstuvwxyz-''"
  have "list_all (list_all (\<lambda>c. c \<in> set letters)) common_names"
    unfolding common_names_def letters_def by simp
  moreover have "list_all (\<lambda>b. b < 0x41 \<or> 0x5a < b \<and> b < 0x80) (go_bytes letters)"
    by (simp add: go_bytes_def letters_def)
  ultimately show ?thesis
    by (fastforce simp: common_headers_def go_bytes_def list_all_iff)
qed

lemma lowerHeader_ToLower: "lowerHeader ulow v = ToLower ulow v"
proof (cases "commonLowerHeader v")
  case None
  then show ?thesis by (simp add: lowerHeader_def)
next
  case (Some s)
  then have "(v, s) \<in> (\<lambda>u. (canonical_key True u, u)) ` set common_headers"
    unfolding commonLowerHeader_def set_map [symmetric] by (rule map_of_SomeD)
  then have "v = canonical_key True s" "list_all (\<lambda>b. b < 0x41 \<or> 0x5a < b \<and> b < 0x80) s"
    using common_headers_lower by (auto simp: list_all_iff)
  with lower_canonical [of s True] Some show ?thesis
    by (simp add: lowerHeader_def ToLower_def)
qed

section \<open>What a response arrives as\<close>

lemma string_octets_not_Nil: "string_octets s \<noteq> []"
  by (cases "HuffmanEncodeLength s < of_nat (length s)") (simp_all add: string_octets_plain string_octets_huffman)

lemma encode_field_not_Nil: "encode_field f e = Some e' \<Longrightarrow> ebuf e' \<noteq> []"
  by (auto simp: encode_field_def Let_def appendIndexed_octets appendNewName_def appendIndexedName_def appendHpackString_append
      string_octets_not_Nil split: option.splits if_splits)

lemma enc_run_not_Nil: "enc_run (map Field fs) e = Some (e', out) \<Longrightarrow> fs \<noteq> [] \<Longrightarrow> out \<noteq> []"
  by (cases fs) (auto split: option.splits dest: encode_field_not_Nil)

lemma write_run_append:
  "write_run w (xs @ ys) f = (case write_run w xs f of (es, f1) \<Rightarrow> (case write_run w ys f1 of (es', f2) \<Rightarrow> (es @ es', f2)))"
  by (induction xs arbitrary: f) (auto split: prod.split)

definition takes_all :: "'e write_result \<Rightarrow> bool" where
  "takes_all w \<longleftrightarrow> (\<forall>b. w b = (int (length b), None))"

lemma do_call_legal:
  assumes "call_legal c" "takes_all w"
  shows "fst (do_call w c f) = None"
  using do_call_writes [of c w f] assms by (simp add: call_legal_def takes_all_def)

lemma frag_eq: "(if length hb > n then take n hb else hb) = take n hb" "drop (length (take n hb)) hb = drop n hb"
  by (simp, cases "n \<le> length hb", simp_all)

lemma fragments_Nil_iff: "fragments p = [] \<longleftrightarrow> p = []"
  by (simp add: fragments.simps [of p])

lemma split_loop_step:
  assumes "hb \<noteq> []" "fn (take 16384 hb) first (drop 16384 hb = []) cx = (None, cx1)"
  shows "split_loop fn first hb cx = split_loop fn False (drop 16384 hb) cx1"
  unfolding split_loop.simps [of fn first hb] write_maxFrameSize_def frag_eq Let_def using assms by simp

lemma split_loop_rest:
  assumes "takes_all w" "\<forall>c \<in> set (continuation_calls (rh_streamID rw) (fragments hb)). call_legal c"
  shows "split_loop (res_writeHeaderBlock w rw) False hb cx =
    (None, cx\<lparr>cx_Framer := snd (write_run w (continuation_calls (rh_streamID rw) (fragments hb)) (cx_Framer cx))\<rparr>)"
  using assms(2)
proof (induction hb arbitrary: cx rule: fragments.induct)
  case (1 hb)
  show ?case
  proof (cases "hb = []")
    case True
    then show ?thesis by (simp add: split_loop.simps [of _ _ "[]"])
  next
    case False
    let ?frag = "take 16384 hb" and ?rest = "drop 16384 hb"
    let ?c = "CallContinuation (rh_streamID rw) (fragments ?rest = []) ?frag"
    have fr: "fragments hb = ?frag # fragments ?rest"
      using False by (simp add: fragments.simps [of hb])
    obtain f1 where one: "do_call w ?c (cx_Framer cx) = (None, f1)"
      using do_call_legal [OF _ assms(1), of ?c "cx_Framer cx"] "1.prems" fr by (metis continuation_calls.simps(2) list.set_intros(1) prod.collapse)
    have "split_loop (res_writeHeaderBlock w rw) False hb cx = split_loop (res_writeHeaderBlock w rw) False ?rest (cx\<lparr>cx_Framer := f1\<rparr>)"
      by (rule split_loop_step [OF False])
        (use one in \<open>simp add: res_writeHeaderBlock_def on_framer_def fragments_Nil_iff del: drop_eq_Nil\<close>)
    also have "\<dots> = (None, cx\<lparr>cx_Framer := snd (write_run w (continuation_calls (rh_streamID rw) (fragments ?rest)) f1)\<rparr>)"
      using "1.IH" [OF False, of "cx\<lparr>cx_Framer := f1\<rparr>"] "1.prems" fr by simp
    finally show ?thesis
      using fr one by (simp split: prod.split)
  qed
qed

lemma splitHeaderBlock_calls:
  assumes "takes_all w" "\<forall>c \<in> set (block_calls (res_param rw) (fragments hb)). call_legal c" "hb \<noteq> []"
  shows "splitHeaderBlock hb (res_writeHeaderBlock w rw) cx =
    (None, cx\<lparr>cx_Framer := snd (write_run w (block_calls (res_param rw) (fragments hb)) (cx_Framer cx))\<rparr>)"
proof -
  let ?frag = "take 16384 hb" and ?rest = "drop 16384 hb"
  let ?c = "CallHeaders ((res_param rw)\<lparr>hp_BlockFragment := ?frag, hp_EndHeaders := (?rest = [])\<rparr>)"
  have bc: "block_calls (res_param rw) (fragments hb) = ?c # continuation_calls (rh_streamID rw) (fragments ?rest)"
    using assms(3) by (simp add: block_calls_def fragments.simps [of hb] fragments_Nil_iff res_param_def)
  then obtain f1 where one: "do_call w ?c (cx_Framer cx) = (None, f1)"
    using do_call_legal [OF _ assms(1), of ?c "cx_Framer cx"] assms(2) by (metis list.set_intros(1) prod.collapse)
  have "splitHeaderBlock hb (res_writeHeaderBlock w rw) cx = split_loop (res_writeHeaderBlock w rw) False ?rest (cx\<lparr>cx_Framer := f1\<rparr>)"
    unfolding splitHeaderBlock_def
    by (rule split_loop_step [OF assms(3)]) (use one in \<open>simp add: res_writeHeaderBlock_def on_framer_def del: drop_eq_Nil\<close>)
  also have "\<dots> = (None, cx\<lparr>cx_Framer := snd (write_run w (continuation_calls (rh_streamID rw) (fragments ?rest)) f1)\<rparr>)"
    using split_loop_rest [OF assms(1), of rw ?rest] assms(2) bc by simp
  finally show ?thesis
    using bc one by (simp split: prod.split)
qed

text \<open>Responses, one after the other, as header blocks.\<close>

fun write_frames ::
  "(bytes \<Rightarrow> bytes) \<Rightarrow> 'e option \<Rightarrow> 'e write_result \<Rightarrow> writeFramer list \<Rightarrow> 'e writeContext \<Rightarrow> 'e http2_error option list \<times> 'e writeContext" where
  "write_frames ulow fl w [] cx = ([], cx)"
| "write_frames ulow fl w (fw # fws) cx =
     (case writeFrame ulow fl w fw cx of (eo, cx) \<Rightarrow> (case write_frames ulow fl w fws cx of (eos, cx) \<Rightarrow> (eo # eos, cx)))"

definition res_block :: "(bytes \<Rightarrow> bytes) \<Rightarrow> writeResHeaders \<Rightarrow> enc_op list \<times> HeadersFrameParam" where
  "res_block ulow rw = (map Field (res_fields ulow rw), res_param rw)"

lemma writeFrame_block:
  assumes "takes_all w" "validStreamID (rh_streamID rw)" "res_fields ulow rw \<noteq> []"
    and "enc_run (map Field (res_fields ulow rw)) (cx_enc cx) = Some (e, out)"
  shows "writeFrame ulow fl w (WriteResHeaders rw) cx =
    (None, cx\<lparr>cx_enc := e, cx_buf := out,
       cx_Framer := snd (write_run w (block_calls (res_param rw) (fragments out)) (cx_Framer cx))\<rparr>)"
proof -
  have out: "out \<noteq> []"
    using enc_run_not_Nil [OF assms(4,3)] .
  have "\<forall>c \<in> set (block_calls (res_param rw) (fragments out)). call_legal c"
    by (rule block_legal_cut(2) [OF cuts_fragments out])
      (use assms(2) in \<open>simp_all add: res_param_def zero_priority_def validStreamIDOrZero_def\<close>)
  from splitHeaderBlock_calls [OF assms(1) this out] show ?thesis
    using out assms(4) by (simp add: res_writeFrame_def encode_response_fields enc_fields_def)
qed

lemma responses_written:
  assumes "takes_all w" "\<forall>rw \<in> set rws. validStreamID (rh_streamID rw) \<and> res_fields ulow rw \<noteq> []"
    and "block_run fragments (map (res_block ulow) rws) (cx_enc cx) = Some cs"
  shows "\<exists>cx'. write_frames ulow fl w (map WriteResHeaders rws) cx = (replicate (length rws) None, cx') \<and>
    cx_Framer cx' = snd (write_run w cs (cx_Framer cx)) \<and> cx_events cx' = cx_events cx"
  using assms(2,3)
proof (induction rws arbitrary: cx cs)
  case (Cons rw rws)
  obtain e out cs' where r: "enc_run (map Field (res_fields ulow rw)) (cx_enc cx) = Some (e, out)"
      "block_run fragments (map (res_block ulow) rws) e = Some cs'" "cs = block_calls (res_param rw) (fragments out) @ cs'"
    using Cons.prems(2) by (auto simp: res_block_def [of ulow rw] split: option.splits)
  let ?cx = "cx\<lparr>cx_enc := e, cx_buf := out,
       cx_Framer := snd (write_run w (block_calls (res_param rw) (fragments out)) (cx_Framer cx))\<rparr>"
  have one: "writeFrame ulow fl w (WriteResHeaders rw) cx = (None, ?cx)"
    using writeFrame_block [OF assms(1) _ _ r(1)] Cons.prems(1) by simp
  have "\<exists>cx'. write_frames ulow fl w (map WriteResHeaders rws) ?cx = (replicate (length rws) None, cx') \<and>
      cx_Framer cx' = snd (write_run w cs' (cx_Framer ?cx)) \<and> cx_events cx' = cx_events ?cx"
    by (rule Cons.IH) (use Cons.prems(1) r(2) in auto)
  with one r(3) show ?case
    by (auto simp: write_run_append split: prod.split)
qed simp

text \<open>What the code sends of a header map is well-formed, whatever the map holds.\<close>

lemma wire_name_not_pseudo: "validWireHeaderFieldName (Name hf) \<Longrightarrow> \<not> IsPseudo hf"
  by (cases "Name hf") (auto simp: valid_name_octets IsPseudo_def IsTokenRune_def isTokenTable_def alphanumerics_def)

lemma pseudo_then_regular:
  assumes "list_all IsPseudo ps" "list_all (\<lambda>hf. \<not> IsPseudo hf) rs"
  shows "PseudoFields (ps @ rs) = ps" "RegularFields (ps @ rs) = rs"
proof -
  have "PseudoFields rs = []" "RegularFields rs = rs"
    using assms(2) by (cases rs; simp)+
  then show "PseudoFields (ps @ rs) = ps" "RegularFields (ps @ rs) = rs"
    using assms(1) by (induction ps) simp_all
qed

lemma header_fields_valid:
  "list_all (\<lambda>hf. validWireHeaderFieldName (Name hf) \<and> ValidHeaderFieldValue (Value hf)) (header_fields ulow h keys)"
  by (auto simp: header_fields_def key_fields_def plain_field_def value_sent_def list_all_iff split: if_splits)

lemma optional_field_valid:
  "ValidHeaderFieldValue v \<Longrightarrow> validWireHeaderFieldName (go_bytes k) \<Longrightarrow>
     list_all (\<lambda>hf. validWireHeaderFieldName (Name hf) \<and> ValidHeaderFieldValue (Value hf)) (optional_field k v)"
  by (simp add: optional_field_def plain_field_def)

lemma decimal_digits: "c \<in> set (digits_base 10 n) \<Longrightarrow> c \<in> set ''0123456789''"
proof (induction "10 :: nat" n rule: digits_base.induct)
  case (1 n)
  have digit: "digit_char d \<in> set ''0123456789''" if "d < 10" for d
  proof -
    have "list_all (\<lambda>d. digit_char d \<in> set ''0123456789'') [0..<10]"
      by code_simp
    with that show ?thesis by (simp add: list_all_iff)
  qed
  show ?case
  proof (cases "n < 10")
    case True
    with "1.prems" digit [of n] show ?thesis by (simp add: digits_base.simps [of 10 n])
  next
    case False
    with 1 digit [of "n mod 10"] show ?thesis by (auto simp: digits_base.simps [of 10 n])
  qed
qed

lemma httpCodeString_valid: "ValidHeaderFieldValue (httpCodeString code)"
proof -
  have "c \<in> set ''-0123456789''" if "c \<in> set (fmt_di code)" for c
    using that decimal_digits by (fastforce simp: fmt_di_def fmt_d_def split: if_splits)
  then show ?thesis
    by (fastforce simp: ValidHeaderFieldValue_def httpCodeString_def go_bytes_def list_all_iff isCTL_def)
qed

definition response_values_ok :: "writeResHeaders \<Rightarrow> bool" where
  "response_values_ok rw \<longleftrightarrow>
     ValidHeaderFieldValue (rh_contentType rw) \<and> ValidHeaderFieldValue (rh_contentLength rw) \<and> ValidHeaderFieldValue (rh_date rw)"

lemma extra_names_valid:
  "validWireHeaderFieldName (go_bytes ''content-type'')" "validWireHeaderFieldName (go_bytes ''content-length'')"
  "validWireHeaderFieldName (go_bytes ''date'')"
  by (simp_all add: valid_name_octets go_bytes_def IsTokenRune_def isTokenTable_def alphanumerics_def)

lemma res_fields_ok:
  assumes "response_values_ok rw" "total_size (res_fields ulow rw) \<le> unat mx"
  shows "fields_ok mx (res_fields ulow rw)"
proof -
  let ?ps = "status_fields (rh_httpResCode rw)"
  obtain rs where rs: "res_fields ulow rw = ?ps @ rs"
      "list_all (\<lambda>hf. validWireHeaderFieldName (Name hf) \<and> ValidHeaderFieldValue (Value hf)) rs"
    using assms(1) header_fields_valid extra_names_valid by (auto simp: res_fields_def response_values_ok_def optional_field_valid)
  have ps: "list_all IsPseudo ?ps" "list_all (\<lambda>hf. ValidHeaderFieldValue (Value hf)) ?ps" "distinct (map Name ?ps)"
      "set (map Name ?ps) \<subseteq> {status_pseudo}"
    by (auto simp: status_fields_def plain_field_def IsPseudo_def status_pseudo_def go_bytes_def httpCodeString_valid)
  have "list_all (\<lambda>hf. \<not> IsPseudo hf) rs"
    using rs(2) wire_name_not_pseudo by (auto simp: list_all_iff)
  from pseudo_then_regular [OF ps(1) this] this show ?thesis
    using ps rs assms(2) by (auto simp: fields_ok_def list_all_iff)
qed

definition response_ok :: "(bytes \<Rightarrow> bytes) \<Rightarrow> u32 \<Rightarrow> writeResHeaders \<Rightarrow> bool" where
  "response_ok ulow mx rw \<longleftrightarrow>
     validStreamID (rh_streamID rw) \<and> response_values_ok rw \<and> res_fields ulow rw \<noteq> [] \<and> total_size (res_fields ulow rw) \<le> unat mx"

lemma fields_of_Field [simp]: "fields_of (map Field fs) = fs"
  by (induction fs) simp_all

lemma hf_size_total: "f \<in> set fs \<Longrightarrow> hf_size f \<le> total_size fs"
  by (auto simp: total_size_def intro: member_le_sum_list)

lemma response_list_ok:
  assumes "response_ok ulow mx rw" "mx < 2 ^ 31"
  shows "list_ok allowed mx (res_block ulow rw)"
proof -
  have "unat mx < 2 ^ 31"
    using assms(2) by (simp add: word_less_nat_alt)
  moreover have "hf_size f \<le> unat mx" if "f \<in> set (res_fields ulow rw)" for f
    using hf_size_total [OF that] assms(1) by (simp add: response_ok_def)
  ultimately have "field_ok f \<and> fits mx f" if "f \<in> set (res_fields ulow rw)" for f
    using that by (fastforce simp: field_ok_def fits_def hf_size_def)
  then show ?thesis
    using assms(1)
    by (simp add: list_ok_def res_block_def list_all_iff op_ok_def response_ok_def res_param_def zero_priority_def validStreamIDOrZero_def)
qed

text \<open>
  C3.  Responses over a connection.  The server writes any sequence of response headers and trailers, in any
  valid streams, with its one HPACK encoder; every write succeeds and nothing is flushed.  The peer, which
  reads with its HPACK decoder and a limit no response exceeds, gets them back in order, each in its stream and
  with its end-of-stream mark: the status, then the entries of the header map (or the declared trailers) in
  the order of their keys, with the names in lower case and less the fields that may not be sent, then the
  content type, the content length and the date.  The header block of a response may need any number of
  CONTINUATION frames.  Each response has a field to send, valid values for content type, content length and
  date, and fields of a total size within the limit, which is below 2 GiB.
\<close>

theorem responses_arrive:
  fixes x :: "'x option"
  assumes "4096 \<le> allowed" "allowed < 2 ^ 31" "mx \<noteq> 0" "mx < 2 ^ 31" "takes_all w"
    and "list_all (response_ok ulow mx) rws" "length (concat (map (res_fields ulow) rws)) < 2 ^ 64"
  shows "\<exists>e d cx g rs.
    NewEncoder = Some e \<and> NewDecoder allowed = Some d \<and>
    write_frames ulow fl w (map WriteResHeaders rws) (new_context e (NewFramer [] r)) = (replicate (length rws) None, cx) \<and>
    cx_events cx = [] \<and>
    ReadFrame_run (length rws)
      ((NewFramer [] \<lparr>rd_data = concat (fr_w (cx_Framer cx)), rd_end = x\<rparr>)
         \<lparr>fr_ReadMetaHeaders := Some d, fr_MaxHeaderListSize := mx\<rparr>) = (rs, g) \<and>
    list_all2 (\<lambda>rw r. \<exists>m. r = Inr (MetaFrame m) \<and> mh_Fields m = res_fields ulow rw \<and> \<not> mh_Truncated m \<and>
      fh_StreamID (mh_Header m) = rh_streamID rw \<and> Frame_StreamEnded (MetaFrame m) = rh_endStream rw) rws rs \<and>
    rd_data (fr_r g) = []"
proof -
  let ?bs = "map (res_block ulow) rws"
  obtain e d where new: "NewEncoder = Some e" "NewDecoder allowed = Some d" "in_sync e d" "maxStrLen d = 0" "saveBuf d = []"
      "dyn_used (edynTab e) = 0" "dyn_used (dynTab d) = 0" "allowedMaxSize (dynTab d) = allowed"
    by (rule new_in_sync [OF assms(1,2)])
  have ok: "list_all (list_ok allowed mx) ?bs" "length (concat (map fst ?bs)) < 2 ^ 64"
    using assms(4,6,7) response_list_ok by (auto simp: list_all_iff length_concat res_block_def o_def)
  obtain cs where cs: "block_run fragments ?bs e = Some cs" "\<forall>c \<in> set cs. call_legal c"
      "\<And>(g :: 'x Framer) rest. fr_ReadMetaHeaders g = Some d \<and> maxHeaderListSize g = mx \<and> fr_maxReadSize g = 0xffffff \<and>
       rd_data (fr_r g) = concat (map call_wire cs) @ rest \<and> \<not> fr_AllowIllegalReads g \<and> fr_lastHeaderStream g = 0 \<Longrightarrow>
       \<exists>rs g'. ReadFrame_run (length ?bs) g = (rs, g') \<and> list_all2 (arrives mx) ?bs rs \<and> rd_data (fr_r g') = rest"
    using blocks_received [OF in_sync_fresh_new [OF new(3)] new(5) cuts_fragments, of mx ?bs] ok new(6-8) by auto
  have "\<forall>rw \<in> set rws. validStreamID (rh_streamID rw) \<and> res_fields ulow rw \<noteq> []"
    using assms(6) by (auto simp: list_all_iff response_ok_def)
  from responses_written [OF assms(5) this, of "new_context e (NewFramer [] r)" cs fl] obtain cx where
    cx: "write_frames ulow fl w (map WriteResHeaders rws) (new_context e (NewFramer [] r)) = (replicate (length rws) None, cx)"
      "cx_Framer cx = snd (write_run w cs (NewFramer [] r))" "cx_events cx = []"
    using cs(1) by (auto simp: new_context_def)
  have w: "fr_w (cx_Framer cx) = map call_wire cs"
    using write_run_calls [OF cs(2), of w "NewFramer [] r"] assms(5) cx(2) by (auto simp: takes_all_def)
  let ?g = "(NewFramer [] \<lparr>rd_data = concat (fr_w (cx_Framer cx)), rd_end = x\<rparr>)\<lparr>fr_ReadMetaHeaders := Some d, fr_MaxHeaderListSize := mx\<rparr>"
  obtain rs g where rs: "ReadFrame_run (length rws) ?g = (rs, g)" "list_all2 (arrives mx) ?bs rs" "rd_data (fr_r g) = []"
    using cs(3) [of ?g "[]"] w assms(3) by (auto simp: maxHeaderListSize_def)
  have "\<exists>m. y = Inr (MetaFrame m) \<and> mh_Fields m = res_fields ulow rw \<and> \<not> mh_Truncated m \<and>
      fh_StreamID (mh_Header m) = rh_streamID rw \<and> Frame_StreamEnded (MetaFrame m) = rh_endStream rw"
    if "arrives mx (res_block ulow rw) y" "rw \<in> set rws" for rw and y :: "'x http2_error + Frame"
  proof -
    have "fields_ok mx (res_fields ulow rw)" "total_size (res_fields ulow rw) \<le> unat mx"
      using assms(6) that(2) res_fields_ok by (auto simp: list_all_iff response_ok_def)
    with that(1) show ?thesis
      by (auto simp: arrives_def res_block_def received_whole invalid_header_def res_param_def)
  qed
  then have "list_all2 (\<lambda>rw r. \<exists>m. r = Inr (MetaFrame m) \<and> mh_Fields m = res_fields ulow rw \<and> \<not> mh_Truncated m \<and>
      fh_StreamID (mh_Header m) = rh_streamID rw \<and> Frame_StreamEnded (MetaFrame m) = rh_endStream rw) rws rs"
    using rs(2) unfolding list.rel_map by (rule list.rel_mono_strong [rotated])
  with new(1,2) cx(1,3) rs show ?thesis
    by blast
qed

definition sample_response :: writeResHeaders where
  "sample_response = \<lparr>rh_streamID = 1, rh_httpResCode = 200,
     rh_h = [(go_bytes ''X-B'', [go_bytes ''v'', go_bytes ''w'']), (go_bytes ''Transfer-Encoding'', [go_bytes ''chunked'']),
       (go_bytes ''Accept'', [go_bytes ''a''])],
     rh_trailers = None, rh_endStream = False, rh_date = [], rh_contentType = go_bytes ''text/plain'', rh_contentLength = go_bytes ''5''\<rparr>"

definition sample_trailers :: writeResHeaders where
  "sample_trailers = \<lparr>rh_streamID = 1, rh_httpResCode = 0, rh_h = [(go_bytes ''X-B'', [go_bytes ''v'']), (go_bytes ''Sum'', [go_bytes ''7''])],
     rh_trailers = Some [go_bytes ''Sum''], rh_endStream = True, rh_date = [], rh_contentType = [], rh_contentLength = []\<rparr>"

lemmas sample_simps = go_bytes_def header_values_def lowerHeader_ToLower ToLower_def lowerASCII_def valid_name_octets IsTokenRune_def
  isTokenTable_def alphanumerics_def value_sent_def ValidHeaderFieldValue_def isCTL_def isLWS_def

lemma sample_fields:
  "res_fields (\<lambda>s. s) sample_response =
     [entry '':status'' ''200'', entry ''accept'' ''a'', entry ''x-b'' ''v'', entry ''x-b'' ''w'', entry ''content-type'' ''text/plain'',
      entry ''content-length'' ''5'']"
  "res_fields (\<lambda>s. s) sample_trailers = [entry ''sum'' ''7'']"
proof -
  have code: "httpCodeString 200 = go_bytes ''200''"
    by code_simp
  have keys: "sorter_Keys (rh_h sample_response) = map go_bytes [''Accept'', ''Transfer-Encoding'', ''X-B'']"
    by (simp add: sample_response_def sorter_Keys_def go_bytes_def)
  show "res_fields (\<lambda>s. s) sample_response =
     [entry '':status'' ''200'', entry ''accept'' ''a'', entry ''x-b'' ''v'', entry ''x-b'' ''w'', entry ''content-type'' ''text/plain'',
      entry ''content-length'' ''5'']"
    using code keys
    by (simp add: sample_response_def res_fields_def header_fields_def status_fields_def optional_field_def key_fields_def plain_field_def
        entry_def status_pseudo_def sample_simps)
  show "res_fields (\<lambda>s. s) sample_trailers = [entry ''sum'' ''7'']"
    by (simp add: sample_trailers_def res_fields_def header_fields_def status_fields_def optional_field_def key_fields_def plain_field_def
        entry_def sample_simps)
qed

lemma sample_values:
  "validStreamID (rh_streamID sample_response)" "validStreamID (rh_streamID sample_trailers)"
  "response_values_ok sample_response" "response_values_ok sample_trailers"
  by (simp_all add: response_values_ok_def sample_response_def sample_trailers_def validStreamID_def sample_simps)

theorem responses_arrive_witness:
  "\<exists>e d cx g rs.
    NewEncoder = Some e \<and> NewDecoder 8192 = Some d \<and>
    write_frames (\<lambda>s. s) None (\<lambda>b. (int (length b), None)) [WriteResHeaders sample_response, WriteResHeaders sample_trailers]
      (new_context e (NewFramer [] \<lparr>rd_data = [], rd_end = None :: nat option\<rparr>)) = ([None, None], cx) \<and>
    ReadFrame_run 2
      ((NewFramer [] \<lparr>rd_data = concat (fr_w (cx_Framer cx)), rd_end = None :: nat option\<rparr>)
         \<lparr>fr_ReadMetaHeaders := Some d, fr_MaxHeaderListSize := 1000\<rparr>) = (rs, g) \<and>
    (\<exists>m n. rs = [Inr (MetaFrame m), Inr (MetaFrame n)] \<and> length (mh_Fields m) = 6 \<and> mh_Fields n = [entry ''sum'' ''7''])"
proof -
  have "response_ok (\<lambda>s. s) 1000 sample_response" "response_ok (\<lambda>s. s) 1000 sample_trailers"
    using sample_values by (simp_all add: response_ok_def sample_fields total_size_def hf_size_def entry_def go_bytes_def)
  moreover have "takes_all (\<lambda>b. (int (length b), None :: nat option))"
    by (simp add: takes_all_def)
  ultimately obtain e d cx g rs where r: "NewEncoder = Some e" "NewDecoder 8192 = Some d"
      "write_frames (\<lambda>s. s) None (\<lambda>b. (int (length b), None)) (map WriteResHeaders [sample_response, sample_trailers])
        (new_context e (NewFramer [] \<lparr>rd_data = [], rd_end = None :: nat option\<rparr>)) =
        (replicate (length [sample_response, sample_trailers]) None, cx)"
      "ReadFrame_run (length [sample_response, sample_trailers])
        ((NewFramer [] \<lparr>rd_data = concat (fr_w (cx_Framer cx)), rd_end = None :: nat option\<rparr>)
           \<lparr>fr_ReadMetaHeaders := Some d, fr_MaxHeaderListSize := 1000\<rparr>) = (rs, g)"
      "list_all2 (\<lambda>rw r. \<exists>m. r = Inr (MetaFrame m) \<and> mh_Fields m = res_fields (\<lambda>s. s) rw \<and> \<not> mh_Truncated m \<and>
        fh_StreamID (mh_Header m) = rh_streamID rw \<and> Frame_StreamEnded (MetaFrame m) = rh_endStream rw)
        [sample_response, sample_trailers] rs"
    using responses_arrive [of 8192 1000 "\<lambda>b. (int (length b), None :: nat option)" "\<lambda>s. s" "[sample_response, sample_trailers]"
        None "\<lparr>rd_data = [], rd_end = None\<rparr>" "None :: nat option"] by (auto simp: sample_fields)
  then show ?thesis
    by (intro exI [of _ e] exI [of _ d] exI [of _ cx] exI [of _ g] exI [of _ rs])
      (auto simp: list_all2_Cons1 sample_fields numeral_2_eq_2)
qed

text \<open>
  C40.  Trailers that are declared but cannot be sent: the header block is empty and nothing is written, though
  the request says that it ends the stream and the write succeeds.  The peer never sees the stream end.
\<close>

theorem trailers_write_nothing:
  assumes "rh_trailers rw = Some ks" "rh_httpResCode rw = 0" "rh_contentType rw = []" "rh_contentLength rw = []" "rh_date rw = []"
    and "\<forall>k \<in> set ks. \<forall>v \<in> set (header_values (rh_h rw) k). \<not> ValidHeaderFieldValue v"
  shows "writeFrame ulow fl w (WriteResHeaders rw) cx = (None, cx\<lparr>cx_buf := []\<rparr>) \<and>
    writeEndsStream (Some (WriteResHeaders rw)) = Some (rh_endStream rw)"
proof -
  have "key_fields ulow (rh_h rw) k = []" if "k \<in> set ks" for k
    using assms(6) that by (auto simp: key_fields_def filter_empty_conv value_sent_def)
  then have "res_fields ulow rw = []"
    using assms(1-5) by (simp add: res_fields_def header_fields_def status_fields_def optional_field_def concat_eq_Nil_conv)
  then show ?thesis
    using assms(1) by (simp add: res_writeFrame_def encode_response_fields splitHeaderBlock_def split_loop.simps [of _ _ "[]"])
qed

definition undefined_trailers :: writeResHeaders where
  "undefined_trailers = sample_trailers\<lparr>rh_trailers := Some [go_bytes ''Missing'']\<rparr>"

theorem trailers_write_nothing_witness:
  "rh_endStream undefined_trailers \<and>
   (\<forall>cx :: nat writeContext.
      writeFrame (\<lambda>s. s) None (\<lambda>b. (int (length b), None)) (WriteResHeaders undefined_trailers) cx = (None, cx\<lparr>cx_buf := []\<rparr>))"
  by (intro conjI allI conjunct1 [OF trailers_write_nothing [where ks = "[go_bytes ''Missing'']"]])
    (simp_all add: undefined_trailers_def sample_trailers_def header_values_def go_bytes_def)

section \<open>Writers that stay within a buffer\<close>

definition writes :: "nat \<Rightarrow> 'e Framer \<Rightarrow> 'e Framer \<Rightarrow> bool" where
  "writes n f f' \<longleftrightarrow> (\<exists>ps. fr_w f' = fr_w f @ ps \<and> length (concat ps) \<le> n)"

lemma writes_nothing [simp]: "writes n f f" "writes n f (f\<lparr>fr_wbuf := b\<rparr>)"
  by (simp_all add: writes_def)

lemma writes_endWrite:
  assumes "fr_w f = fr_w g" "9 \<le> length (fr_wbuf f)" "length (fr_wbuf f) \<le> n"
  shows "writes n g (snd (endWrite w f))"
  using assms by (auto simp: writes_def endWrite_def Let_def split: prod.split option.split)

lemma do_call_within: "writes (9 + length (call_payload c)) f (snd (do_call w c f))"
  by (cases c)
    (auto simp: write_defs octets32_def octets16_def length_octet_def pad_octets_def priority_octets_def
      intro!: writes_endWrite split: option.split)

text \<open>The octets of a 100-continue response, with two changes of the table size before it.\<close>

lemma size_update_octets:
  "length (ebuf (flush_size_update (e\<lparr>ebuf := []\<rparr>))) \<le> 12" "edynTab (flush_size_update (e\<lparr>ebuf := []\<rparr>)) = edynTab e"
proof -
  have "length (int_octets 0x20 5 (ucast (v :: u32))) \<le> 6" for v
    using int_octets_length [of "ucast v" 5 "0x20" 5] unsigned_less [of v, where 'a = nat] ucast_u32_u64(1) [of v] by simp
  from this [of "minSize e"] this [of "maxSize (edynTab e)"]
  show "length (ebuf (flush_size_update (e\<lparr>ebuf := []\<rparr>))) \<le> 12" "edynTab (flush_size_update (e\<lparr>ebuf := []\<rparr>)) = edynTab e"
    by (auto simp: flush_size_update_def Let_def appendTableSize_octets)
qed

lemma string_octets_short:
  assumes "length s < 128"
  shows "length (string_octets s) \<le> length s + 2"
proof -
  have len: "unat (of_nat (length s) :: u64) = length s"
    using assms by (simp add: unat_u64_of_nat)
  show ?thesis
  proof (cases "HuffmanEncodeLength s < of_nat (length s)")
    case False
    with int_octets_length [of "of_nat (length s)" 1 0 7] len assms string_octets_plain show ?thesis by simp
  next
    case True
    have "unat (HuffmanEncodeLength s) = length (AppendHuffmanString [] s)"
      using HuffmanEncodeLength_eq assms by simp
    moreover have "unat (HuffmanEncodeLength s) < length s"
      using True len by (simp add: word_less_nat_alt)
    ultimately show ?thesis
      using int_octets_length [of "HuffmanEncodeLength s" 1 "0x80" 7] assms string_octets_huffman [OF True] by simp
  qed
qed

lemma search_status:
  assumes "dyn_inv (edynTab e)" "searchTable e (plain_field status_pseudo v) = Some (i, b)"
  shows "unat i < 2 ^ 35 \<and> (\<not> b \<longrightarrow> i \<noteq> 0 \<and> unat i < 128)"
proof -
  let ?f = "plain_field status_pseudo v" and ?E = "dyn_items (edynTab e)"
  have len: "length ?E < 2 ^ 32"
    using assms(1) length_le_total [of ?E] unsigned_less [of "maxSize (edynTab e)", where 'a = nat] by (auto simp: dyn_inv_def)
  have "entry '':status'' ''200'' \<in> set staticTableEntries"
    by (simp add: staticTableEntries_def)
  then have "last_idx (same_name status_pseudo) staticTableEntries \<noteq> None"
    unfolding last_idx_None by (force simp: same_name_def entry_def status_pseudo_def)
  then obtain k c where k: "newest_match staticTableEntries ?f = Some (k, c)"
    by (cases "last_idx (same_pair (status_pseudo, v)) staticTableEntries") (auto simp: newest_match_def plain_field_def)
  then have "k < 61"
    using newest_match_Some [OF k] by (simp add: length_staticTableEntries)
  then have st: "unat (of_nat (k + 1) :: u64) = k + 1"
    by (intro unat_u64_of_nat) simp
  consider "i = of_nat (k + 1)" | j where "i = of_nat (length ?E - j) + 61" b
    using searchTable_eq [OF assms(1), of ?f] assms(2) k by (auto split: option.splits bool.splits)
  then show ?thesis
  proof cases
    case 1
    with st \<open>k < 61\<close> show ?thesis by (auto simp: unat_eq_zero)
  next
    case 2
    have "i = of_nat (length ?E - j + 61)"
      using 2(1) by simp
    moreover have "length ?E - j + 61 < 2 ^ 64"
      using len by simp
    ultimately have "unat i = length ?E - j + 61"
      by (simp only: unat_u64_of_nat)
    with len 2(2) show ?thesis by simp
  qed
qed

lemma continue_octets:
  assumes "dyn_inv (edynTab e)" "encode_field (plain_field status_pseudo (go_bytes ''100'')) e = Some e'"
  shows "length (ebuf e') \<le> 20"
proof -
  let ?f = "plain_field status_pseudo (go_bytes ''100'')" and ?e = "flush_size_update (e\<lparr>ebuf := []\<rparr>)"
  obtain i b where s: "searchTable ?e ?f = Some (i, b)"
    using assms(2) by (auto simp: encode_field_def Let_def split: option.splits)
  have i: "unat i < 2 ^ 35" "\<not> b \<Longrightarrow> i \<noteq> 0 \<and> unat i < 128"
    using search_status [OF _ s] assms(1) size_update_octets(2) by auto
  show ?thesis
  proof (cases b)
    case True
    then have "ebuf e' = ebuf ?e @ int_octets 0x80 7 i"
      using assms(2) s by (auto simp: encode_field_def Let_def appendIndexed_octets)
    with int_octets_length [of i 5 "0x80" 7] i(1) size_update_octets(1) [of e] show ?thesis by simp
  next
    case False
    let ?n = "shouldIndex ?e ?f"
    have "ebuf e' = ebuf ?e @ int_octets (literal_flags (index_kind ?f ?n)) (literal_prefix (index_kind ?f ?n)) i @ string_octets (go_bytes ''100'')"
      using assms(2) s False i(2) literal_octets [of ?n ?f i "ebuf ?e"]
      by (auto simp: encode_field_def Let_def name_octets_def plain_field_def split: option.splits if_splits)
    with int_octets_length [of i 1 "literal_flags (index_kind ?f ?n)" "literal_prefix (index_kind ?f ?n)"] i(2) False
      size_update_octets(1) [of e] string_octets_short [of "go_bytes ''100''"] show ?thesis by (simp add: go_bytes_def)
  qed
qed

text \<open>The one call of the framer that each of the other writers makes.\<close>

fun frame_call :: "writeFramer \<Rightarrow> write_call" where
  "frame_call (WriteSettings s) = CallSettings (map (\<lambda>(i, v). \<lparr>set_ID = i, set_Val = v\<rparr>) s)"
| "frame_call (WriteData wd) = CallData (wd_streamID wd) (wd_endStream wd) (wd_p wd) None"
| "frame_call (HandlerPanicRST i) = CallRSTStream i ErrCodeInternal"
| "frame_call (WriteStreamError se) = CallRSTStream (se_StreamID se) (se_Code se)"
| "frame_call (WritePingAck d) = CallPing True d"
| "frame_call (WriteWindowUpdate i n) = CallWindowUpdate i n"
| "frame_call _ = CallSettingsAck"

lemma settings_octets_length: "length (concat (map setting_octets ss)) = 6 * length ss"
  by (induction ss) (simp_all add: setting_octets_def octets16_def octets32_def)

lemma writeFrame_call:
  assumes "staysWithinBuffer fw mx" "\<nexists>i. fw = Write100Continue i"
  shows "writeFrame ulow fl w fw cx = on_framer (do_call w (frame_call fw)) cx \<and> int (9 + length (call_payload (frame_call fw))) \<le> mx"
  using assms
  by (cases fw; simp add: on_framer_def Framer_WriteData_def settings_octets_length octets32_def frameHeaderLen_def del: map_map)

lemma within_call:
  assumes "cx_Framer cx1 = cx_Framer cx" "cx_events cx1 = cx_events cx" "int (9 + length (call_payload c)) \<le> mx"
  shows "\<exists>ps. fr_w (cx_Framer (snd (on_framer (do_call w c) cx1))) = fr_w (cx_Framer cx) @ ps \<and> int (length (concat ps)) \<le> mx \<and>
    cx_events (snd (on_framer (do_call w c) cx1)) = cx_events cx"
proof -
  obtain ps where "fr_w (snd (do_call w c (cx_Framer cx))) = fr_w (cx_Framer cx) @ ps" "length (concat ps) \<le> 9 + length (call_payload c)"
    using do_call_within [of c "cx_Framer cx" w] unfolding writes_def by blast
  with assms show ?thesis
    by (cases "do_call w c (cx_Framer cx)") (auto simp: on_framer_def)
qed

text \<open>
  C32.  The promise of \<^verbatim>\<open>staysWithinBuffer\<close>.  A writer that says it stays within a buffer of the given size writes
  no more octets than that and does not flush, whatever the underlying writer answers.  For a 100-continue
  response this holds in every state of the HPACK encoder, even with two changes of the table size pending.
\<close>

theorem stays_within_buffer:
  assumes "staysWithinBuffer fw mx" "dyn_inv (edynTab (cx_enc cx))"
  shows "\<exists>ps. fr_w (cx_Framer (snd (writeFrame ulow fl w fw cx))) = fr_w (cx_Framer cx) @ ps \<and> int (length (concat ps)) \<le> mx \<and>
    cx_events (snd (writeFrame ulow fl w fw cx)) = cx_events cx"
proof (cases "\<exists>i. fw = Write100Continue i")
  case False
  have "writeFrame ulow fl w fw cx = on_framer (do_call w (frame_call fw)) cx" "int (9 + length (call_payload (frame_call fw))) \<le> mx"
    using writeFrame_call [OF assms(1) False] by blast+
  with within_call [of cx cx "frame_call fw" mx w] show ?thesis by simp
next
  case True
  then obtain i where i: "fw = Write100Continue i" by blast
  show ?thesis
  proof (cases "encode_field (plain_field status_pseudo (go_bytes ''100'')) (cx_enc cx)")
    case None
    then have "writeFrame ulow fl w fw cx = (Some Panic, cx)"
      using i by (simp add: continue_writeFrame_def encKV_def WriteField_def plain_field_def status_pseudo_def)
    with assms(1) i show ?thesis by simp
  next
    case (Some e)
    let ?cx = "cx\<lparr>cx_enc := e, cx_buf := ebuf e\<rparr>"
    let ?c = "CallHeaders \<lparr>hp_StreamID = i, hp_BlockFragment = ebuf e, hp_EndStream = False, hp_EndHeaders = True, hp_PadLength = 0,
             hp_Priority = zero_priority\<rparr>"
    have "writeFrame ulow fl w fw cx = on_framer (do_call w ?c) ?cx"
      using Some i by (simp add: continue_writeFrame_def encKV_def WriteField_def plain_field_def status_pseudo_def on_framer_def)
    moreover have "int (9 + length (call_payload ?c)) \<le> mx"
      using continue_octets [OF assms(2) Some] assms(1) i
      by (simp add: length_octet_def pad_octets_def PriorityParam_IsZero_def zero_priority_def)
    ultimately show ?thesis
      using within_call [of ?cx cx ?c mx w] by simp
  qed
qed

theorem stays_within_buffer_witness:
  "\<exists>e. NewEncoder = Some e \<and> staysWithinBuffer (Write100Continue 1) 29 \<and>
    int (length (concat (fr_w (cx_Framer (snd (writeFrame (\<lambda>s. s) None (\<lambda>b. (int (length b), None)) (Write100Continue 1)
      (new_context e (NewFramer [] \<lparr>rd_data = [], rd_end = None :: nat option\<rparr>)))))))) \<le> 29"
proof -
  obtain e d where e: "NewEncoder = Some e" "in_sync e d"
    by (rule new_in_sync [of 4096]) auto
  let ?cx = "new_context e (NewFramer [] \<lparr>rd_data = [], rd_end = None :: nat option\<rparr>)"
  have "staysWithinBuffer (Write100Continue 1) 29" "dyn_inv (edynTab (cx_enc ?cx))" "fr_w (cx_Framer ?cx) = []"
    using e(2) by (simp_all add: in_sync_def new_context_def NewFramer_def SetMaxReadFrameSize_def)
  with stays_within_buffer [OF this(1,2), of "\<lambda>s. s" None "\<lambda>b. (int (length b), None)"] e(1) show ?thesis
    by auto
qed

end
