(* ===== verification/DNS_Message.thy ===== *)
theory DNS_Message
  imports GoPrelude
begin

text \<open>
  Package \<^verbatim>\<open>dnsmessage\<close>, file \<^verbatim>\<open>dns/dnsmessage/message.go\<close>: constants and errors, the data of DNS messages,
  packing and unpacking of integers, texts, names, questions, resource headers and resource bodies, and the
  packing of a whole message.  The incremental parser and the builder are in theories of their own.

  A message under construction is a slice: its octets, its capacity and the backing array, which \<^verbatim>\<open>append\<close>
  replaces when the capacity does not suffice.  The code keeps a second slice into the same array (the two
  octets of the length of a resource), so that the identity of the array matters; it is counted.
\<close>

section \<open>Wire constants\<close>

type_synonym dns_Type = u16
type_synonym dns_Class = u16
type_synonym OpCode = u16
type_synonym RCode = u16

definition TypeA :: dns_Type where [go_defs]: "TypeA = 1"
definition TypeNS :: dns_Type where [go_defs]: "TypeNS = 2"
definition TypeCNAME :: dns_Type where [go_defs]: "TypeCNAME = 5"
definition TypeSOA :: dns_Type where [go_defs]: "TypeSOA = 6"
definition TypePTR :: dns_Type where [go_defs]: "TypePTR = 12"
definition TypeMX :: dns_Type where [go_defs]: "TypeMX = 15"
definition TypeTXT :: dns_Type where [go_defs]: "TypeTXT = 16"
definition TypeAAAA :: dns_Type where [go_defs]: "TypeAAAA = 28"
definition TypeSRV :: dns_Type where [go_defs]: "TypeSRV = 33"
definition TypeWKS :: dns_Type where [go_defs]: "TypeWKS = 11"
definition TypeHINFO :: dns_Type where [go_defs]: "TypeHINFO = 13"
definition TypeMINFO :: dns_Type where [go_defs]: "TypeMINFO = 14"
definition TypeAXFR :: dns_Type where [go_defs]: "TypeAXFR = 252"
definition TypeALL :: dns_Type where [go_defs]: "TypeALL = 255"
definition ClassINET :: dns_Class where [go_defs]: "ClassINET = 1"
definition ClassCSNET :: dns_Class where [go_defs]: "ClassCSNET = 2"
definition ClassCHAOS :: dns_Class where [go_defs]: "ClassCHAOS = 3"
definition ClassHESIOD :: dns_Class where [go_defs]: "ClassHESIOD = 4"
definition ClassANY :: dns_Class where [go_defs]: "ClassANY = 255"
definition RCodeSuccess :: RCode where [go_defs]: "RCodeSuccess = 0"
definition RCodeFormatError :: RCode where [go_defs]: "RCodeFormatError = 1"
definition RCodeServerFailure :: RCode where [go_defs]: "RCodeServerFailure = 2"
definition RCodeNameError :: RCode where [go_defs]: "RCodeNameError = 3"
definition RCodeNotImplemented :: RCode where [go_defs]: "RCodeNotImplemented = 4"
definition RCodeRefused :: RCode where [go_defs]: "RCodeRefused = 5"

text \<open>The errors.  An index or a slice out of range is \<open>DnsPanic\<close>.\<close>

datatype dns_error =
  ErrNotStarted | ErrSectionDone | errBaseLen | errCalcLen | errReserved | errTooManyPtr | errInvalidPtr
| errNilResouceBody | errResourceLen | errSegTooLong | errZeroSegLen | errResTooLong
| errTooManyQuestions | errTooManyAnswers | errTooManyAuthorities | errTooManyAdditionals | errNonCanonicalName
| invalidResourceType dns_Type
| nestedError string dns_error
| DnsPanic

definition packStartingCap :: nat where [go_defs]: "packStartingCap = 512"
definition uint16Len :: nat where [go_defs]: "uint16Len = 2"
definition uint32Len :: nat where [go_defs]: "uint32Len = 4"
definition headerLen :: nat where [go_defs]: "headerLen = 6 * uint16Len"
definition nameLen :: nat where [go_defs]: "nameLen = 255"

text \<open>\<^verbatim>\<open>nestedError\<close> around the error of a call.\<close>

definition nest :: "string \<Rightarrow> dns_error + 'a \<Rightarrow> dns_error + 'a" where
  "nest s r = (case r of Inl e \<Rightarrow> Inl (nestedError s e) | Inr x \<Rightarrow> Inr x)"

section \<open>Slices\<close>

definition dns_index :: "bytes \<Rightarrow> nat \<Rightarrow> dns_error + u8" where
  "dns_index msg i = (if i < length msg then Inr (msg ! i) else Inl DnsPanic)"

definition dns_slice :: "bytes \<Rightarrow> nat \<Rightarrow> nat \<Rightarrow> dns_error + bytes" where
  "dns_slice msg lo hi = (if lo \<le> hi \<and> hi \<le> length msg then Inr (drop lo (take hi msg)) else Inl DnsPanic)"

record packer =
  pk_msg :: bytes
  pk_cap :: nat
  pk_array :: nat

text \<open>\<^verbatim>\<open>append\<close>; the capacity of a new array for \<open>n\<close> octets is \<open>grow n\<close>.\<close>

definition go_append :: "(nat \<Rightarrow> nat) \<Rightarrow> bytes \<Rightarrow> packer \<Rightarrow> packer" where
  "go_append grow xs p =
     (let n = length (pk_msg p) + length xs in
      if n \<le> pk_cap p then p\<lparr>pk_msg := pk_msg p @ xs\<rparr>
      else \<lparr>pk_msg = pk_msg p @ xs, pk_cap = grow n, pk_array = pk_array p + 1\<rparr>)"

section \<open>Data\<close>

record dns_Name =
  name_Data :: bytes
  name_Length :: u8

definition zero_name :: dns_Name where
  "zero_name = \<lparr>name_Data = replicate nameLen 0, name_Length = 0\<rparr>"

definition NewName :: "bytes \<Rightarrow> dns_error + dns_Name" where
  "NewName s =
     (if length s > nameLen then Inl errCalcLen
      else Inr \<lparr>name_Data = s @ replicate (nameLen - length s) 0, name_Length = of_nat (length s)\<rparr>)"

definition Name_String :: "dns_Name \<Rightarrow> bytes" where
  "Name_String n = take (unat (name_Length n)) (name_Data n)"

record dns_Header =
  dh_ID :: u16
  dh_Response :: bool
  dh_OpCode :: OpCode
  dh_Authoritative :: bool
  dh_Truncated :: bool
  dh_RecursionDesired :: bool
  dh_RecursionAvailable :: bool
  dh_RCode :: RCode

record wire_header =
  wh_id :: u16
  wh_bits :: u16
  wh_questions :: u16
  wh_answers :: u16
  wh_authorities :: u16
  wh_additionals :: u16

record Question =
  q_Name :: dns_Name
  q_Type :: dns_Type
  q_Class :: dns_Class

record ResourceHeader =
  rr_Name :: dns_Name
  rr_Type :: dns_Type
  rr_Class :: dns_Class
  rr_TTL :: u32
  rr_Length :: u16

text \<open>The resource bodies.  The arrays of \<^verbatim>\<open>AResource\<close> and \<^verbatim>\<open>AAAAResource\<close> have 4 and 16 octets.\<close>

datatype ResourceBody =
  CNAMEResource dns_Name
| MXResource u16 dns_Name
| NSResource dns_Name
| PTRResource dns_Name
| SOAResource dns_Name dns_Name u32 u32 u32 u32 u32
| TXTResource bytes
| SRVResource u16 u16 u16 dns_Name
| AResource bytes
| AAAAResource bytes

record Resource =
  rs_Header :: ResourceHeader
  rs_Body :: "ResourceBody option"

record Message =
  m_Header :: dns_Header
  m_Questions :: "Question list"
  m_Answers :: "Resource list"
  m_Authorities :: "Resource list"
  m_Additionals :: "Resource list"

section \<open>The message header\<close>

definition headerBitQR :: u16 where [go_defs]: "headerBitQR = push_bit 15 1"
definition headerBitAA :: u16 where [go_defs]: "headerBitAA = push_bit 10 1"
definition headerBitTC :: u16 where [go_defs]: "headerBitTC = push_bit 9 1"
definition headerBitRD :: u16 where [go_defs]: "headerBitRD = push_bit 8 1"
definition headerBitRA :: u16 where [go_defs]: "headerBitRA = push_bit 7 1"

definition or_if :: "bool \<Rightarrow> u16 \<Rightarrow> u16 \<Rightarrow> u16" where
  "or_if c b bits = (if c then bits OR b else bits)"

definition Header_pack :: "dns_Header \<Rightarrow> u16 \<times> u16" where
  "Header_pack m =
     (dh_ID m,
      or_if (dh_Response m) headerBitQR (or_if (dh_Authoritative m) headerBitAA (or_if (dh_Truncated m) headerBitTC
        (or_if (dh_RecursionDesired m) headerBitRD (or_if (dh_RecursionAvailable m) headerBitRA
          (push_bit 11 (dh_OpCode m) OR dh_RCode m))))))"

definition header_header :: "wire_header \<Rightarrow> dns_Header" where
  "header_header h =
     \<lparr>dh_ID = wh_id h, dh_Response = (wh_bits h AND headerBitQR \<noteq> 0), dh_OpCode = drop_bit 11 (wh_bits h) AND 0xF,
      dh_Authoritative = (wh_bits h AND headerBitAA \<noteq> 0), dh_Truncated = (wh_bits h AND headerBitTC \<noteq> 0),
      dh_RecursionDesired = (wh_bits h AND headerBitRD \<noteq> 0), dh_RecursionAvailable = (wh_bits h AND headerBitRA \<noteq> 0),
      dh_RCode = wh_bits h AND 0xF\<rparr>"

section \<open>Integers, texts and octets\<close>

definition packUint16 :: "(nat \<Rightarrow> nat) \<Rightarrow> u16 \<Rightarrow> packer \<Rightarrow> packer" where
  "packUint16 grow field p = go_append grow [ucast (drop_bit 8 field), ucast field] p"

definition unpackUint16 :: "bytes \<Rightarrow> nat \<Rightarrow> dns_error + u16 \<times> nat" where
  "unpackUint16 msg off =
     (if off + uint16Len > length msg then Inl errBaseLen
      else res_bind (dns_index msg off) (\<lambda>b0. res_bind (dns_index msg (off + 1)) (\<lambda>b1.
        Inr (push_bit 8 (ucast b0) OR ucast b1, off + uint16Len))))"

definition skipUint16 :: "bytes \<Rightarrow> nat \<Rightarrow> dns_error + nat" where
  "skipUint16 msg off = (if off + uint16Len > length msg then Inl errBaseLen else Inr (off + uint16Len))"

definition packType :: "(nat \<Rightarrow> nat) \<Rightarrow> dns_Type \<Rightarrow> packer \<Rightarrow> packer" where
  "packType grow field p = packUint16 grow field p"

definition unpackType :: "bytes \<Rightarrow> nat \<Rightarrow> dns_error + dns_Type \<times> nat" where
  "unpackType msg off = unpackUint16 msg off"

definition skipType :: "bytes \<Rightarrow> nat \<Rightarrow> dns_error + nat" where
  "skipType msg off = skipUint16 msg off"

definition packClass :: "(nat \<Rightarrow> nat) \<Rightarrow> dns_Class \<Rightarrow> packer \<Rightarrow> packer" where
  "packClass grow field p = packUint16 grow field p"

definition unpackClass :: "bytes \<Rightarrow> nat \<Rightarrow> dns_error + dns_Class \<times> nat" where
  "unpackClass msg off = unpackUint16 msg off"

definition skipClass :: "bytes \<Rightarrow> nat \<Rightarrow> dns_error + nat" where
  "skipClass msg off = skipUint16 msg off"

definition packUint32 :: "(nat \<Rightarrow> nat) \<Rightarrow> u32 \<Rightarrow> packer \<Rightarrow> packer" where
  "packUint32 grow field p =
     go_append grow [ucast (drop_bit 24 field), ucast (drop_bit 16 field), ucast (drop_bit 8 field), ucast field] p"

definition unpackUint32 :: "bytes \<Rightarrow> nat \<Rightarrow> dns_error + u32 \<times> nat" where
  "unpackUint32 msg off =
     (if off + uint32Len > length msg then Inl errBaseLen
      else res_bind (dns_index msg off) (\<lambda>b0. res_bind (dns_index msg (off + 1)) (\<lambda>b1.
        res_bind (dns_index msg (off + 2)) (\<lambda>b2. res_bind (dns_index msg (off + 3)) (\<lambda>b3.
          Inr (push_bit 24 (ucast b0) OR push_bit 16 (ucast b1) OR push_bit 8 (ucast b2) OR ucast b3, off + uint32Len))))))"

definition skipUint32 :: "bytes \<Rightarrow> nat \<Rightarrow> dns_error + nat" where
  "skipUint32 msg off = (if off + uint32Len > length msg then Inl errBaseLen else Inr (off + uint32Len))"

function packText :: "(nat \<Rightarrow> nat) \<Rightarrow> bytes \<Rightarrow> packer \<Rightarrow> packer" where
  "packText grow field p =
     (if field = [] then p
      else
        let l = (if length field > 255 then 255 else length field);
            p = go_append grow [of_nat l] p;
            p = go_append grow (take l field) p
        in packText grow (drop l field) p)"
  by pat_completeness auto
termination
  by (relation "measure (\<lambda>(grow, field, p). length field)") auto

declare packText.simps [simp del]

definition unpackText :: "bytes \<Rightarrow> nat \<Rightarrow> dns_error + bytes \<times> nat" where
  "unpackText msg off =
     (if off \<ge> length msg then Inl errBaseLen
      else res_bind (dns_index msg off) (\<lambda>b.
        let beginOff = off + 1; endOff = beginOff + unat b in
        if endOff > length msg then Inl errCalcLen
        else res_bind (dns_slice msg beginOff endOff) (\<lambda>t. Inr (t, endOff))))"

definition skipText :: "bytes \<Rightarrow> nat \<Rightarrow> dns_error + nat" where
  "skipText msg off =
     (if off \<ge> length msg then Inl errBaseLen
      else res_bind (dns_index msg off) (\<lambda>b.
        let endOff = off + 1 + unat b in if endOff > length msg then Inl errCalcLen else Inr endOff))"

definition packBytes :: "(nat \<Rightarrow> nat) \<Rightarrow> bytes \<Rightarrow> packer \<Rightarrow> packer" where
  "packBytes grow field p = go_append grow field p"

text \<open>The array to be filled is given by its length.\<close>

definition unpackBytes :: "bytes \<Rightarrow> nat \<Rightarrow> nat \<Rightarrow> dns_error + bytes \<times> nat" where
  "unpackBytes msg off n =
     (let newOff = off + n in
      if newOff > length msg then Inl errBaseLen
      else res_bind (dns_slice msg off newOff) (\<lambda>b. Inr (b, newOff)))"

definition skipBytes :: "bytes \<Rightarrow> nat \<Rightarrow> nat \<Rightarrow> dns_error + nat" where
  "skipBytes msg off n = (let newOff = off + n in if newOff > length msg then Inl errBaseLen else Inr newOff)"

definition wire_header_pack :: "(nat \<Rightarrow> nat) \<Rightarrow> wire_header \<Rightarrow> packer \<Rightarrow> packer" where
  "wire_header_pack grow h p =
     packUint16 grow (wh_additionals h) (packUint16 grow (wh_authorities h) (packUint16 grow (wh_answers h)
       (packUint16 grow (wh_questions h) (packUint16 grow (wh_bits h) (packUint16 grow (wh_id h) p)))))"

definition wire_header_unpack :: "bytes \<Rightarrow> nat \<Rightarrow> dns_error + wire_header \<times> nat" where
  "wire_header_unpack msg off =
     res_bind (nest ''id'' (unpackUint16 msg off)) (\<lambda>(i, off).
     res_bind (nest ''bits'' (unpackUint16 msg off)) (\<lambda>(b, off).
     res_bind (nest ''questions'' (unpackUint16 msg off)) (\<lambda>(q, off).
     res_bind (nest ''answers'' (unpackUint16 msg off)) (\<lambda>(an, off).
     res_bind (nest ''authorities'' (unpackUint16 msg off)) (\<lambda>(au, off).
     res_bind (nest ''additionals'' (unpackUint16 msg off)) (\<lambda>(ad, off).
       Inr (\<lparr>wh_id = i, wh_bits = b, wh_questions = q, wh_answers = an, wh_authorities = au, wh_additionals = ad\<rparr>, off)))))))"

section \<open>Names\<close>

text \<open>
  The compression table maps the rest of the array \<^verbatim>\<open>Data\<close>, not only of the name, to an offset; \<open>None\<close> is the nil
  map.  It keeps what was added even if packing fails.
\<close>

type_synonym compression = "(bytes \<rightharpoonup> nat) option"

definition pointer_octets :: "nat \<Rightarrow> bytes" where
  "pointer_octets ptr = [of_nat (drop_bit 8 ptr OR 0xC0), of_nat ptr]"

definition remember :: "dns_Name \<Rightarrow> nat \<Rightarrow> packer \<Rightarrow> compression \<Rightarrow> compression" where
  "remember n i p cmp =
     (if length (pk_msg p) \<le> 0x3fff then map_option (\<lambda>m. m(drop i (name_Data n) \<mapsto> length (pk_msg p))) cmp else cmp)"

definition lookup :: "compression \<Rightarrow> bytes \<Rightarrow> nat option" where
  "lookup cmp key = (case cmp of None \<Rightarrow> None | Some m \<Rightarrow> m key)"

function name_pack_loop :: "(nat \<Rightarrow> nat) \<Rightarrow> dns_Name \<Rightarrow> nat \<Rightarrow> nat \<Rightarrow> packer \<Rightarrow> compression \<Rightarrow> (dns_error + packer) \<times> compression" where
  "name_pack_loop grow n i start p cmp =
     (if i < unat (name_Length n) then
        (if name_Data n ! i = 0x2e then
           (if i - start \<ge> 64 then (Inl errSegTooLong, cmp)
            else if i - start = 0 then (Inl errZeroSegLen, cmp)
            else
              let p = go_append grow [of_nat (i - start)] p;
                  p = fold (\<lambda>j. go_append grow [name_Data n ! j]) [start..<i] p
              in name_pack_loop grow n (i + 1) (i + 1) p cmp)
         else if (i = 0 \<or> name_Data n ! (i - 1) = 0x2e) \<and> cmp \<noteq> None then
           (case lookup cmp (drop i (name_Data n)) of
              Some ptr \<Rightarrow> (Inr (go_append grow (pointer_octets ptr) p), cmp)
            | None \<Rightarrow> name_pack_loop grow n (i + 1) start p (remember n i p cmp))
         else name_pack_loop grow n (i + 1) start p cmp)
      else (Inr (go_append grow [0] p), cmp))"
  by pat_completeness auto
termination
  by (relation "measure (\<lambda>(grow, n, i, start, p, cmp). unat (name_Length n) - i)") auto

declare name_pack_loop.simps [simp del]

definition Name_pack :: "(nat \<Rightarrow> nat) \<Rightarrow> dns_Name \<Rightarrow> packer \<Rightarrow> compression \<Rightarrow> (dns_error + packer) \<times> compression" where
  "Name_pack grow n p cmp =
     (if name_Length n = 0 \<or> name_Data n ! (unat (name_Length n) - 1) \<noteq> 0x2e then (Inl errNonCanonicalName, cmp)
      else if name_Data n ! 0 = 0x2e \<and> name_Length n = 1 then (Inr (go_append grow [0] p), cmp)
      else name_pack_loop grow n 0 0 p cmp)"

text \<open>
  The loop of \<^verbatim>\<open>unpack\<close>, with the current and the new offset, the number of pointers followed and the name so
  far.
\<close>

definition pointer_target :: "u8 \<Rightarrow> u8 \<Rightarrow> nat" where
  "pointer_target c c1 = push_bit 8 (unat (c XOR 0xC0)) OR unat c1"

function name_unpack_loop :: "bytes \<Rightarrow> nat \<Rightarrow> nat \<Rightarrow> nat \<Rightarrow> bytes \<Rightarrow> dns_error + bytes \<times> nat" where
  "name_unpack_loop msg currOff newOff ptr name =
     (if currOff \<ge> length msg then Inl errBaseLen
      else
        (case dns_index msg currOff of
           Inl e \<Rightarrow> Inl e
         | Inr c \<Rightarrow>
             if c AND 0xC0 = 0 then
               (if c = 0 then Inr (name, if ptr = 0 then currOff + 1 else newOff)
                else
                  let endOff = currOff + 1 + unat c in
                  if endOff > length msg then Inl errCalcLen
                  else
                    (case dns_slice msg (currOff + 1) endOff of
                       Inl e \<Rightarrow> Inl e
                     | Inr s \<Rightarrow> name_unpack_loop msg endOff newOff ptr (name @ s @ [0x2e])))
             else if c AND 0xC0 = 0xC0 then
               (if currOff + 1 \<ge> length msg then Inl errInvalidPtr
                else
                  (case dns_index msg (currOff + 1) of
                     Inl e \<Rightarrow> Inl e
                   | Inr c1 \<Rightarrow>
                       let newOff = (if ptr = 0 then currOff + 2 else newOff) in
                       if ptr + 1 > 10 then Inl errTooManyPtr
                       else name_unpack_loop msg (pointer_target c c1) newOff (ptr + 1) name))
             else Inl errReserved))"
  by pat_completeness auto
termination
  by (relation "measures [\<lambda>(msg, currOff, newOff, ptr, name). 10 - ptr, \<lambda>(msg, currOff, newOff, ptr, name). length msg - currOff]") auto

declare name_unpack_loop.simps [simp del]

text \<open>The guards keep the index and slice expressions in range.\<close>

lemma name_unpack_loop_eq:
  "name_unpack_loop msg currOff newOff ptr name =
     (if currOff \<ge> length msg then Inl errBaseLen
      else
        let c = msg ! currOff in
        if c AND 0xC0 = 0 then
          (if c = 0 then Inr (name, if ptr = 0 then currOff + 1 else newOff)
           else
             let endOff = currOff + 1 + unat c in
             if endOff > length msg then Inl errCalcLen
             else name_unpack_loop msg endOff newOff ptr (name @ drop (currOff + 1) (take endOff msg) @ [0x2e]))
        else if c AND 0xC0 = 0xC0 then
          (if currOff + 1 \<ge> length msg then Inl errInvalidPtr
           else
             let c1 = msg ! (currOff + 1); newOff = (if ptr = 0 then currOff + 2 else newOff) in
             if ptr + 1 > 10 then Inl errTooManyPtr
             else name_unpack_loop msg (pointer_target c c1) newOff (ptr + 1) name)
        else Inl errReserved)"
  by (subst name_unpack_loop.simps) (simp add: dns_index_def dns_slice_def Let_def)

lemma name_unpack_loop_induct [case_names step]:
  assumes "\<And>msg cur (new :: nat) (ptr :: nat) name.
      (cur < length msg \<Longrightarrow> msg ! cur \<noteq> 0 \<Longrightarrow> cur + 1 + unat (msg ! cur) \<le> length msg \<Longrightarrow>
        P msg (cur + 1 + unat (msg ! cur)) new ptr (name @ drop (cur + 1) (take (cur + 1 + unat (msg ! cur)) msg) @ [0x2e])) \<Longrightarrow>
      (\<And>new'. cur + 1 < length msg \<Longrightarrow> ptr + 1 \<le> 10 \<Longrightarrow>
        P msg (pointer_target (msg ! cur) (msg ! (cur + 1))) new' (ptr + 1) name) \<Longrightarrow>
      P msg cur new ptr name"
  shows "P msg cur new ptr name"
  using assms
  by induction_schema
    (pat_completeness,
     relation "measures [\<lambda>(msg, cur, new, ptr, name). 10 - ptr, \<lambda>(msg, cur, new, ptr, name). length msg - cur]",
     auto)

text \<open>Every name is unpacked into one that is zero.\<close>

definition Name_unpack :: "bytes \<Rightarrow> nat \<Rightarrow> dns_error + dns_Name \<times> nat" where
  "Name_unpack msg off =
     res_bind (name_unpack_loop msg off off 0 []) (\<lambda>(name, newOff).
       let name = (if name = [] then [0x2e] else name) in
       if length name > nameLen then Inl errCalcLen
       else Inr (\<lparr>name_Data = name @ replicate (nameLen - length name) 0, name_Length = of_nat (length name)\<rparr>, newOff))"

function skip_name_loop :: "bytes \<Rightarrow> nat \<Rightarrow> dns_error + nat" where
  "skip_name_loop msg newOff =
     (if newOff \<ge> length msg then Inl errBaseLen
      else
        (case dns_index msg newOff of
           Inl e \<Rightarrow> Inl e
         | Inr c \<Rightarrow>
             if c AND 0xC0 = 0 then
               (if c = 0 then Inr (newOff + 1)
                else if newOff + 1 + unat c > length msg then Inl errCalcLen
                else skip_name_loop msg (newOff + 1 + unat c))
             else if c AND 0xC0 = 0xC0 then Inr (newOff + 2)
             else Inl errReserved))"
  by pat_completeness auto
termination
  by (relation "measure (\<lambda>(msg, newOff). length msg - newOff)") auto

declare skip_name_loop.simps [simp del]

lemma skip_name_loop_eq:
  "skip_name_loop msg newOff =
     (if newOff \<ge> length msg then Inl errBaseLen
      else
        let c = msg ! newOff in
        if c AND 0xC0 = 0 then
          (if c = 0 then Inr (newOff + 1)
           else if newOff + 1 + unat c > length msg then Inl errCalcLen
           else skip_name_loop msg (newOff + 1 + unat c))
        else if c AND 0xC0 = 0xC0 then Inr (newOff + 2)
        else Inl errReserved)"
  by (subst skip_name_loop.simps) (simp add: dns_index_def Let_def)

definition skipName :: "bytes \<Rightarrow> nat \<Rightarrow> dns_error + nat" where
  "skipName msg off = skip_name_loop msg off"

section \<open>Questions and resource headers\<close>

type_synonym 'a packed = "(dns_error + 'a) \<times> compression"

definition pack_bind :: "'a packed \<Rightarrow> ('a \<Rightarrow> compression \<Rightarrow> 'b packed) \<Rightarrow> 'b packed" where
  "pack_bind r f = (case r of (Inl e, cmp) \<Rightarrow> (Inl e, cmp) | (Inr x, cmp) \<Rightarrow> f x cmp)"

definition pack_nest :: "string \<Rightarrow> 'a packed \<Rightarrow> 'a packed" where
  "pack_nest s r = (case r of (x, cmp) \<Rightarrow> (nest s x, cmp))"

definition Question_pack :: "(nat \<Rightarrow> nat) \<Rightarrow> Question \<Rightarrow> packer \<Rightarrow> compression \<Rightarrow> packer packed" where
  "Question_pack grow q p cmp =
     pack_bind (pack_nest ''Name'' (Name_pack grow (q_Name q) p cmp)) (\<lambda>p cmp.
       (Inr (packClass grow (q_Class q) (packType grow (q_Type q) p)), cmp))"

text \<open>The slice of the two octets of the length: the array it is in and its offset.\<close>

record length_slice =
  ls_array :: nat
  ls_off :: nat

definition ResourceHeader_pack ::
  "(nat \<Rightarrow> nat) \<Rightarrow> ResourceHeader \<Rightarrow> packer \<Rightarrow> compression \<Rightarrow> (packer \<times> length_slice) packed" where
  "ResourceHeader_pack grow h p cmp =
     pack_bind (pack_nest ''Name'' (Name_pack grow (rr_Name h) p cmp)) (\<lambda>p cmp.
       let p = packUint32 grow (rr_TTL h) (packClass grow (rr_Class h) (packType grow (rr_Type h) p));
           lenBegin = length (pk_msg p);
           p = packUint16 grow (rr_Length h) p
       in (Inr (p, \<lparr>ls_array = pk_array p, ls_off = lenBegin\<rparr>), cmp))"

definition ResourceHeader_unpack :: "bytes \<Rightarrow> nat \<Rightarrow> dns_error + ResourceHeader \<times> nat" where
  "ResourceHeader_unpack msg off =
     res_bind (nest ''Name'' (Name_unpack msg off)) (\<lambda>(name, off).
     res_bind (nest ''Type'' (unpackType msg off)) (\<lambda>(typ, off).
     res_bind (nest ''Class'' (unpackClass msg off)) (\<lambda>(class, off).
     res_bind (nest ''TTL'' (unpackUint32 msg off)) (\<lambda>(ttl, off).
     res_bind (nest ''Length'' (unpackUint16 msg off)) (\<lambda>(len, off).
       Inr (\<lparr>rr_Name = name, rr_Type = typ, rr_Class = class, rr_TTL = ttl, rr_Length = len\<rparr>, off))))))"

text \<open>
  Filling in the length writes to the array the slice was taken from; the message sees it only if it is still in
  that array.
\<close>

definition store_length :: "length_slice \<Rightarrow> u16 \<Rightarrow> packer \<Rightarrow> packer" where
  "store_length sl v p =
     (if ls_array sl = pk_array p
      then p\<lparr>pk_msg := (pk_msg p)[ls_off sl := ucast (drop_bit 8 v), ls_off sl + 1 := ucast v]\<rparr> else p)"

definition fixLen :: "ResourceHeader \<Rightarrow> length_slice \<Rightarrow> nat \<Rightarrow> packer \<Rightarrow> dns_error + packer \<times> ResourceHeader" where
  "fixLen h sl preLen p =
     (let conLen = length (pk_msg p) - preLen in
      if conLen > 0xffff then Inl errResTooLong
      else Inr (store_length sl (of_nat conLen) p, h\<lparr>rr_Length := of_nat conLen\<rparr>))"

definition skipResource :: "bytes \<Rightarrow> nat \<Rightarrow> dns_error + nat" where
  "skipResource msg off =
     res_bind (nest ''Name'' (skipName msg off)) (\<lambda>off.
     res_bind (nest ''Type'' (skipType msg off)) (\<lambda>off.
     res_bind (nest ''Class'' (skipClass msg off)) (\<lambda>off.
     res_bind (nest ''TTL'' (skipUint32 msg off)) (\<lambda>off.
     res_bind (nest ''Length'' (unpackUint16 msg off)) (\<lambda>(len, off).
       let newOff = off + unat len in if newOff > length msg then Inl errResourceLen else Inr newOff)))))"

section \<open>Resource bodies\<close>

fun realType :: "ResourceBody \<Rightarrow> dns_Type" where
  "realType (CNAMEResource n) = TypeCNAME"
| "realType (MXResource pref n) = TypeMX"
| "realType (NSResource n) = TypeNS"
| "realType (PTRResource n) = TypePTR"
| "realType (SOAResource ns mbox se rf rt ex mi) = TypeSOA"
| "realType (TXTResource t) = TypeTXT"
| "realType (SRVResource pr we po n) = TypeSRV"
| "realType (AResource a) = TypeA"
| "realType (AAAAResource a) = TypeAAAA"

definition MX_pack :: "(nat \<Rightarrow> nat) \<Rightarrow> u16 \<Rightarrow> dns_Name \<Rightarrow> packer \<Rightarrow> compression \<Rightarrow> packer packed" where
  "MX_pack grow pref n p cmp = pack_nest ''MXResource.MX'' (Name_pack grow n (packUint16 grow pref p) cmp)"

definition SOA_pack ::
  "(nat \<Rightarrow> nat) \<Rightarrow> dns_Name \<Rightarrow> dns_Name \<Rightarrow> u32 \<Rightarrow> u32 \<Rightarrow> u32 \<Rightarrow> u32 \<Rightarrow> u32 \<Rightarrow> packer \<Rightarrow> compression \<Rightarrow> packer packed" where
  "SOA_pack grow ns mbox se rf rt ex mi p cmp =
     pack_bind (pack_nest ''SOAResource.NS'' (Name_pack grow ns p cmp)) (\<lambda>p cmp.
     pack_bind (pack_nest ''SOAResource.MBox'' (Name_pack grow mbox p cmp)) (\<lambda>p cmp.
       (Inr (packUint32 grow mi (packUint32 grow ex (packUint32 grow rt (packUint32 grow rf (packUint32 grow se p))))), cmp)))"

definition SRV_pack :: "(nat \<Rightarrow> nat) \<Rightarrow> u16 \<Rightarrow> u16 \<Rightarrow> u16 \<Rightarrow> dns_Name \<Rightarrow> packer \<Rightarrow> compression \<Rightarrow> packer packed" where
  "SRV_pack grow pr we po n p cmp =
     (nest ''SRVResource.Target''
        (fst (Name_pack grow n (packUint16 grow po (packUint16 grow we (packUint16 grow pr p))) None)), cmp)"

fun ResourceBody_pack :: "(nat \<Rightarrow> nat) \<Rightarrow> ResourceBody \<Rightarrow> packer \<Rightarrow> compression \<Rightarrow> packer packed" where
  "ResourceBody_pack grow (CNAMEResource n) p cmp = Name_pack grow n p cmp"
| "ResourceBody_pack grow (MXResource pref n) p cmp = MX_pack grow pref n p cmp"
| "ResourceBody_pack grow (NSResource n) p cmp = Name_pack grow n p cmp"
| "ResourceBody_pack grow (PTRResource n) p cmp = Name_pack grow n p cmp"
| "ResourceBody_pack grow (SOAResource ns mbox se rf rt ex mi) p cmp = SOA_pack grow ns mbox se rf rt ex mi p cmp"
| "ResourceBody_pack grow (TXTResource t) p cmp = (Inr (packText grow t p), cmp)"
| "ResourceBody_pack grow (SRVResource pr we po n) p cmp = SRV_pack grow pr we po n p cmp"
| "ResourceBody_pack grow (AResource a) p cmp = (Inr (packBytes grow a p), cmp)"
| "ResourceBody_pack grow (AAAAResource a) p cmp = (Inr (packBytes grow a p), cmp)"

definition unpackCNAMEResource :: "bytes \<Rightarrow> nat \<Rightarrow> dns_error + ResourceBody" where
  "unpackCNAMEResource msg off = res_bind (Name_unpack msg off) (\<lambda>(n, _). Inr (CNAMEResource n))"

definition unpackMXResource :: "bytes \<Rightarrow> nat \<Rightarrow> dns_error + ResourceBody" where
  "unpackMXResource msg off =
     res_bind (nest ''Pref'' (unpackUint16 msg off)) (\<lambda>(pref, off).
     res_bind (nest ''MX'' (Name_unpack msg off)) (\<lambda>(n, _). Inr (MXResource pref n)))"

definition unpackNSResource :: "bytes \<Rightarrow> nat \<Rightarrow> dns_error + ResourceBody" where
  "unpackNSResource msg off = res_bind (Name_unpack msg off) (\<lambda>(n, _). Inr (NSResource n))"

definition unpackPTRResource :: "bytes \<Rightarrow> nat \<Rightarrow> dns_error + ResourceBody" where
  "unpackPTRResource msg off = res_bind (Name_unpack msg off) (\<lambda>(n, _). Inr (PTRResource n))"

definition unpackSOAResource :: "bytes \<Rightarrow> nat \<Rightarrow> dns_error + ResourceBody" where
  "unpackSOAResource msg off =
     res_bind (nest ''NS'' (Name_unpack msg off)) (\<lambda>(ns, off).
     res_bind (nest ''MBox'' (Name_unpack msg off)) (\<lambda>(mbox, off).
     res_bind (nest ''Serial'' (unpackUint32 msg off)) (\<lambda>(se, off).
     res_bind (nest ''Refresh'' (unpackUint32 msg off)) (\<lambda>(rf, off).
     res_bind (nest ''Retry'' (unpackUint32 msg off)) (\<lambda>(rt, off).
     res_bind (nest ''Expire'' (unpackUint32 msg off)) (\<lambda>(ex, off).
     res_bind (nest ''MinTTL'' (unpackUint32 msg off)) (\<lambda>(mi, _).
       Inr (SOAResource ns mbox se rf rt ex mi))))))))"

text \<open>The loop over the texts of a TXT resource; its counter has 16 bits.\<close>

lemma unpackText_length: "unpackText msg off = Inr (t, off') \<Longrightarrow> length t < 256"
  using unsigned_less [of "msg ! off", where 'a = nat]
  by (auto simp: unpackText_def dns_index_def dns_slice_def Let_def split: if_splits)

lemma unat_u16_of_nat: "n < 2 ^ 16 \<Longrightarrow> unat (of_nat n :: u16) = n"
  by (simp add: unsigned_of_nat take_bit_nat_eq_self)

lemma text_step:
  assumes "n < len" "\<not> len - n < of_nat k + 1" "k < 256"
  shows "unat (len - (n + (of_nat k + 1 :: u16))) < unat (len - n)"
proof -
  have "unat (of_nat (k + 1) :: u16) = k + 1"
    using assms(3) by (intro unat_u16_of_nat) simp
  then have k: "unat (of_nat k + 1 :: u16) = k + 1"
    by (simp add: add.commute)
  have "len - (n + (of_nat k + 1)) = (len - n) - (of_nat k + 1)"
    by simp
  then have "unat (len - (n + (of_nat k + 1))) = unat (len - n) - (k + 1)"
    using assms(2) k by (simp only: unat_sub not_less)
  moreover have "0 < unat (len - n)"
    using assms(1) by (simp add: unat_gt_0)
  ultimately show ?thesis by simp
qed

function unpack_texts :: "bytes \<Rightarrow> nat \<Rightarrow> u16 \<Rightarrow> u16 \<Rightarrow> bytes \<Rightarrow> dns_error + bytes" where
  "unpack_texts msg off len n txt =
     (if n < len then
        (case unpackText msg off of
           Inl e \<Rightarrow> Inl (nestedError ''text'' e)
         | Inr (t, off) \<Rightarrow>
             if len - n < of_nat (length t) + 1 then Inl errCalcLen
             else unpack_texts msg off len (n + (of_nat (length t) + 1)) (txt @ t))
      else Inr txt)"
  by pat_completeness auto
termination
  by (relation "measure (\<lambda>(msg, off, len, n, txt). unat (len - n))") (auto intro!: text_step dest!: unpackText_length)

declare unpack_texts.simps [simp del]

definition unpackTXTResource :: "bytes \<Rightarrow> nat \<Rightarrow> u16 \<Rightarrow> dns_error + ResourceBody" where
  "unpackTXTResource msg off len = res_bind (unpack_texts msg off len 0 []) (\<lambda>txt. Inr (TXTResource txt))"

definition unpackSRVResource :: "bytes \<Rightarrow> nat \<Rightarrow> dns_error + ResourceBody" where
  "unpackSRVResource msg off =
     res_bind (nest ''Priority'' (unpackUint16 msg off)) (\<lambda>(pr, off).
     res_bind (nest ''Weight'' (unpackUint16 msg off)) (\<lambda>(we, off).
     res_bind (nest ''Port'' (unpackUint16 msg off)) (\<lambda>(po, off).
     res_bind (nest ''Target'' (Name_unpack msg off)) (\<lambda>(n, _). Inr (SRVResource pr we po n)))))"

definition unpackAResource :: "bytes \<Rightarrow> nat \<Rightarrow> dns_error + ResourceBody" where
  "unpackAResource msg off = res_bind (unpackBytes msg off 4) (\<lambda>(a, _). Inr (AResource a))"

definition unpackAAAAResource :: "bytes \<Rightarrow> nat \<Rightarrow> dns_error + ResourceBody" where
  "unpackAAAAResource msg off = res_bind (unpackBytes msg off 16) (\<lambda>(a, _). Inr (AAAAResource a))"

definition unpack_body :: "bytes \<Rightarrow> nat \<Rightarrow> ResourceHeader \<Rightarrow> dns_error + ResourceBody" where
  "unpack_body msg off hdr =
     (if rr_Type hdr = TypeA then nest ''A record'' (unpackAResource msg off)
      else if rr_Type hdr = TypeNS then nest ''NS record'' (unpackNSResource msg off)
      else if rr_Type hdr = TypeCNAME then nest ''CNAME record'' (unpackCNAMEResource msg off)
      else if rr_Type hdr = TypeSOA then nest ''SOA record'' (unpackSOAResource msg off)
      else if rr_Type hdr = TypePTR then nest ''PTR record'' (unpackPTRResource msg off)
      else if rr_Type hdr = TypeMX then nest ''MX record'' (unpackMXResource msg off)
      else if rr_Type hdr = TypeTXT then nest ''TXT record'' (unpackTXTResource msg off (rr_Length hdr))
      else if rr_Type hdr = TypeAAAA then nest ''AAAA record'' (unpackAAAAResource msg off)
      else if rr_Type hdr = TypeSRV then nest ''SRV record'' (unpackSRVResource msg off)
      else Inl (invalidResourceType (rr_Type hdr)))"

definition unpackResourceBody :: "bytes \<Rightarrow> nat \<Rightarrow> ResourceHeader \<Rightarrow> dns_error + ResourceBody \<times> nat" where
  "unpackResourceBody msg off hdr = res_bind (unpack_body msg off hdr) (\<lambda>r. Inr (r, off + unat (rr_Length hdr)))"

section \<open>Packing a message\<close>

text \<open>Packing a resource fills in type and length of its header, in place.\<close>

definition Resource_pack :: "(nat \<Rightarrow> nat) \<Rightarrow> Resource \<Rightarrow> packer \<Rightarrow> compression \<Rightarrow> (packer \<times> Resource) packed" where
  "Resource_pack grow r p cmp =
     (case rs_Body r of
        None \<Rightarrow> (Inl errNilResouceBody, cmp)
      | Some body \<Rightarrow>
          let h = (rs_Header r)\<lparr>rr_Type := realType body\<rparr> in
          pack_bind (pack_nest ''ResourceHeader'' (ResourceHeader_pack grow h p cmp)) (\<lambda>(p, sl) cmp.
            let preLen = length (pk_msg p) in
            pack_bind (pack_nest ''content'' (ResourceBody_pack grow body p cmp)) (\<lambda>p cmp.
              (case fixLen h sl preLen p of
                 Inl e \<Rightarrow> (Inl e, cmp)
               | Inr (p, h) \<Rightarrow> (Inr (p, r\<lparr>rs_Header := h\<rparr>), cmp)))))"

fun pack_questions :: "(nat \<Rightarrow> nat) \<Rightarrow> Question list \<Rightarrow> packer \<Rightarrow> compression \<Rightarrow> packer packed" where
  "pack_questions grow [] p cmp = (Inr p, cmp)"
| "pack_questions grow (q # qs) p cmp =
     pack_bind (pack_nest ''packing Question'' (Question_pack grow q p cmp)) (\<lambda>p cmp. pack_questions grow qs p cmp)"

fun pack_resources ::
  "(nat \<Rightarrow> nat) \<Rightarrow> string \<Rightarrow> Resource list \<Rightarrow> packer \<Rightarrow> compression \<Rightarrow> (packer \<times> Resource list) packed" where
  "pack_resources grow s [] p cmp = (Inr (p, []), cmp)"
| "pack_resources grow s (r # rs) p cmp =
     pack_bind (pack_nest s (Resource_pack grow r p cmp)) (\<lambda>(p, r) cmp.
       pack_bind (pack_resources grow s rs p cmp) (\<lambda>(p, rs) cmp. (Inr (p, r # rs), cmp)))"

definition message_header :: "Message \<Rightarrow> wire_header" where
  "message_header m =
     \<lparr>wh_id = fst (Header_pack (m_Header m)), wh_bits = snd (Header_pack (m_Header m)), wh_questions = of_nat (length (m_Questions m)),
      wh_answers = of_nat (length (m_Answers m)), wh_authorities = of_nat (length (m_Authorities m)),
      wh_additionals = of_nat (length (m_Additionals m))\<rparr>"

definition Pack :: "(nat \<Rightarrow> nat) \<Rightarrow> Message \<Rightarrow> dns_error + bytes \<times> Message" where
  "Pack grow m =
     (if length (m_Questions m) > 0xffff then Inl errTooManyQuestions
      else if length (m_Answers m) > 0xffff then Inl errTooManyAnswers
      else if length (m_Authorities m) > 0xffff then Inl errTooManyAuthorities
      else if length (m_Additionals m) > 0xffff then Inl errTooManyAdditionals
      else
        let p = wire_header_pack grow (message_header m) \<lparr>pk_msg = [], pk_cap = packStartingCap, pk_array = 0\<rparr> in
        fst (pack_bind (pack_questions grow (m_Questions m) p (Some Map.empty)) (\<lambda>p cmp.
             pack_bind (pack_resources grow ''packing Answer'' (m_Answers m) p cmp) (\<lambda>(p, an) cmp.
             pack_bind (pack_resources grow ''packing Authority'' (m_Authorities m) p cmp) (\<lambda>(p, au) cmp.
             pack_bind (pack_resources grow ''packing Additional'' (m_Additionals m) p cmp) (\<lambda>(p, ad) cmp.
               (Inr (pk_msg p, m\<lparr>m_Answers := an, m_Authorities := au, m_Additionals := ad\<rparr>), cmp)))))))"

end
