(* ===== verification/DNS_Parser.thy ===== *)
theory DNS_Parser
  imports DNS_Message
begin

text \<open>
  Package \<^verbatim>\<open>dnsmessage\<close>: the incremental \<^verbatim>\<open>Parser\<close> and \<^verbatim>\<open>Message.Unpack\<close>.  Each method returns its result and the
  parser it leaves.
\<close>

section \<open>Sections\<close>

type_synonym dns_section = u8

definition sectionNotStarted :: dns_section where [go_defs]: "sectionNotStarted = 0"
definition sectionHeader :: dns_section where [go_defs]: "sectionHeader = 1"
definition sectionQuestions :: dns_section where [go_defs]: "sectionQuestions = 2"
definition sectionAnswers :: dns_section where [go_defs]: "sectionAnswers = 3"
definition sectionAuthorities :: dns_section where [go_defs]: "sectionAuthorities = 4"
definition sectionAdditionals :: dns_section where [go_defs]: "sectionAdditionals = 5"
definition sectionDone :: dns_section where [go_defs]: "sectionDone = 6"

definition sectionNames :: "dns_section \<Rightarrow> string" where
  "sectionNames sec =
     (case [sectionHeader \<mapsto> ''header'', sectionQuestions \<mapsto> ''Question'', sectionAnswers \<mapsto> ''Answer'',
            sectionAuthorities \<mapsto> ''Authority'', sectionAdditionals \<mapsto> ''Additional''] sec of
        None \<Rightarrow> [] | Some s \<Rightarrow> s)"

definition header_count :: "wire_header \<Rightarrow> dns_section \<Rightarrow> u16" where
  "header_count h sec =
     (if sec = sectionQuestions then wh_questions h
      else if sec = sectionAnswers then wh_answers h
      else if sec = sectionAuthorities then wh_authorities h
      else if sec = sectionAdditionals then wh_additionals h
      else 0)"

section \<open>The parser\<close>

record Parser =
  ps_msg :: bytes
  ps_header :: wire_header
  ps_section :: dns_section
  ps_off :: nat
  ps_index :: nat
  ps_resHeaderValid :: bool
  ps_resHeader :: ResourceHeader

type_synonym 'a parsed = "(dns_error + 'a) \<times> Parser"

definition zero_resHeader :: ResourceHeader where
  "zero_resHeader = \<lparr>rr_Name = zero_name, rr_Type = 0, rr_Class = 0, rr_TTL = 0, rr_Length = 0\<rparr>"

definition zero_wire_header :: wire_header where
  "zero_wire_header = \<lparr>wh_id = 0, wh_bits = 0, wh_questions = 0, wh_answers = 0, wh_authorities = 0, wh_additionals = 0\<rparr>"

definition zero_parser :: Parser where
  "zero_parser = \<lparr>ps_msg = [], ps_header = zero_wire_header, ps_section = sectionNotStarted, ps_off = 0, ps_index = 0,
     ps_resHeaderValid = False, ps_resHeader = zero_resHeader\<rparr>"

text \<open>
  \<^verbatim>\<open>Start\<close> begins with a zero parser, whatever the parser was used for before.  What a failed \<^verbatim>\<open>Start\<close> leaves of the
  header is never looked at.
\<close>

definition Parser_Start :: "bytes \<Rightarrow> dns_Header parsed" where
  "Parser_Start msg =
     (let p = zero_parser\<lparr>ps_msg := msg\<rparr> in
      case nest ''unpacking header'' (wire_header_unpack msg 0) of
        Inl e \<Rightarrow> (Inl e, p)
      | Inr (h, off) \<Rightarrow> (Inr (header_header h), p\<lparr>ps_header := h, ps_off := off, ps_section := sectionQuestions\<rparr>))"

definition checkAdvance :: "dns_section \<Rightarrow> Parser \<Rightarrow> dns_error option \<times> Parser" where
  "checkAdvance sec p =
     (if ps_section p < sec then (Some ErrNotStarted, p)
      else if ps_section p > sec then (Some ErrSectionDone, p)
      else
        let p = p\<lparr>ps_resHeaderValid := False\<rparr> in
        if ps_index p = unat (header_count (ps_header p) sec)
        then (Some ErrSectionDone, p\<lparr>ps_index := 0, ps_section := ps_section p + 1\<rparr>)
        else (None, p))"

definition resourceHeader :: "dns_section \<Rightarrow> Parser \<Rightarrow> ResourceHeader parsed" where
  "resourceHeader sec p =
     (if ps_resHeaderValid p then (Inr (ps_resHeader p), p)
      else
        (case checkAdvance sec p of
           (Some e, p) \<Rightarrow> (Inl e, p)
         | (None, p) \<Rightarrow>
             (case ResourceHeader_unpack (ps_msg p) (ps_off p) of
                Inl e \<Rightarrow> (Inl e, p)
              | Inr (hdr, off) \<Rightarrow> (Inr hdr, p\<lparr>ps_resHeaderValid := True, ps_resHeader := hdr, ps_off := off\<rparr>))))"

definition parse_resource :: "dns_section \<Rightarrow> Parser \<Rightarrow> Resource parsed" where
  "parse_resource sec p =
     (case resourceHeader sec p of
        (Inl e, p) \<Rightarrow> (Inl e, p)
      | (Inr hdr, p) \<Rightarrow>
          let p = p\<lparr>ps_resHeaderValid := False\<rparr> in
          (case nest (''unpacking '' @ sectionNames sec) (unpackResourceBody (ps_msg p) (ps_off p) hdr) of
             Inl e \<Rightarrow> (Inl e, p)
           | Inr (body, off) \<Rightarrow>
               (Inr \<lparr>rs_Header = hdr, rs_Body = Some body\<rparr>, p\<lparr>ps_off := off, ps_index := ps_index p + 1\<rparr>)))"

definition parser_skipResource :: "dns_section \<Rightarrow> Parser \<Rightarrow> unit parsed" where
  "parser_skipResource sec p =
     (if ps_resHeaderValid p then
        let newOff = ps_off p + unat (rr_Length (ps_resHeader p)) in
        if newOff > length (ps_msg p) then (Inl errResourceLen, p)
        else (Inr (), p\<lparr>ps_off := newOff, ps_resHeaderValid := False, ps_index := ps_index p + 1\<rparr>)
      else
        (case checkAdvance sec p of
           (Some e, p) \<Rightarrow> (Inl e, p)
         | (None, p) \<Rightarrow>
             (case nest (''skipping: '' @ sectionNames sec) (skipResource (ps_msg p) (ps_off p)) of
                Inl e \<Rightarrow> (Inl e, p)
              | Inr off \<Rightarrow> (Inr (), p\<lparr>ps_off := off, ps_index := ps_index p + 1\<rparr>))))"

definition unpack_question :: "bytes \<Rightarrow> nat \<Rightarrow> dns_error + Question \<times> nat" where
  "unpack_question msg off =
     res_bind (nest ''unpacking Question.Name'' (Name_unpack msg off)) (\<lambda>(name, off).
     res_bind (nest ''unpacking Question.Type'' (unpackType msg off)) (\<lambda>(typ, off).
     res_bind (nest ''unpacking Question.Class'' (unpackClass msg off)) (\<lambda>(class, off).
       Inr (\<lparr>q_Name = name, q_Type = typ, q_Class = class\<rparr>, off))))"

definition parser_Question :: "Parser \<Rightarrow> Question parsed" where
  "parser_Question p =
     (case checkAdvance sectionQuestions p of
        (Some e, p) \<Rightarrow> (Inl e, p)
      | (None, p) \<Rightarrow>
          (case unpack_question (ps_msg p) (ps_off p) of
             Inl e \<Rightarrow> (Inl e, p)
           | Inr (q, off) \<Rightarrow> (Inr q, p\<lparr>ps_off := off, ps_index := ps_index p + 1\<rparr>)))"

definition skip_question :: "bytes \<Rightarrow> nat \<Rightarrow> dns_error + nat" where
  "skip_question msg off =
     res_bind (nest ''skipping Question Name'' (skipName msg off)) (\<lambda>off.
     res_bind (nest ''skipping Question Type'' (skipType msg off)) (\<lambda>off.
       nest ''skipping Question Class'' (skipClass msg off)))"

definition SkipQuestion :: "Parser \<Rightarrow> unit parsed" where
  "SkipQuestion p =
     (case checkAdvance sectionQuestions p of
        (Some e, p) \<Rightarrow> (Inl e, p)
      | (None, p) \<Rightarrow>
          (case skip_question (ps_msg p) (ps_off p) of
             Inl e \<Rightarrow> (Inl e, p)
           | Inr off \<Rightarrow> (Inr (), p\<lparr>ps_off := off, ps_index := ps_index p + 1\<rparr>)))"

section \<open>Progress\<close>

text \<open>Each record takes the parser forward, which is why its loops end.\<close>

lemma name_unpack_loop_progress:
  "name_unpack_loop msg cur new ptr name = Inr (nm, off) \<Longrightarrow> cur < length msg \<and> (if ptr = 0 then cur < off else off = new)"
proof (induction msg cur new ptr name rule: name_unpack_loop_induct)
  case (step msg cur new ptr name)
  note seg = step.IH(1) [simplified] and ref = step.IH(2) [simplified]
  show ?case
    using step.prems by (auto simp: name_unpack_loop_eq [of msg cur new ptr name] Let_def not_le not_less split: if_splits dest!: seg ref)
qed

lemma Name_unpack_progress: "Name_unpack msg off = Inr (n, off') \<Longrightarrow> off < length msg \<and> off < off'"
  by (auto simp: Name_unpack_def Let_def split: if_splits dest: name_unpack_loop_progress)

lemma skip_name_loop_progress: "skip_name_loop msg off = Inr off' \<Longrightarrow> off < length msg \<and> off < off'"
proof (induction msg off rule: skip_name_loop.induct)
  case (1 msg off)
  show ?case
    using "1.prems" "1.IH" [of "msg ! off"]
    by (auto simp: skip_name_loop_eq [of msg off] dns_index_def Let_def split: if_splits)
qed

lemma nest_eq_Inr [simp]: "nest s r = Inr x \<longleftrightarrow> r = Inr x"
  by (simp add: nest_def split: sum.split)

lemma unpack_integers_progress:
  "unpackUint16 msg off = Inr (v, off') \<Longrightarrow> off' = off + 2 \<and> off' \<le> length msg"
  "unpackUint32 msg off = Inr (u, off') \<Longrightarrow> off' = off + 4 \<and> off' \<le> length msg"
  by (auto simp: unpackUint16_def unpackUint32_def go_defs split: if_splits)

lemma skip_integers_progress:
  "skipUint16 msg off = Inr off' \<longleftrightarrow> off' = off + 2 \<and> off' \<le> length msg"
  "skipUint32 msg off = Inr off' \<longleftrightarrow> off' = off + 4 \<and> off' \<le> length msg"
  by (auto simp: skipUint16_def skipUint32_def go_defs)

lemma unpack_question_progress: "unpack_question msg off = Inr (q, off') \<Longrightarrow> off < length msg \<and> off < off'"
  by (auto simp: unpack_question_def unpackType_def unpackClass_def dest!: Name_unpack_progress unpack_integers_progress)

lemma skip_question_progress: "skip_question msg off = Inr off' \<Longrightarrow> off < length msg \<and> off < off'"
  by (auto simp: skip_question_def skipName_def skipType_def skipClass_def skip_integers_progress dest!: skip_name_loop_progress)

lemma ResourceHeader_unpack_progress: "ResourceHeader_unpack msg off = Inr (h, off') \<Longrightarrow> off < length msg \<and> off < off'"
  by (auto simp: ResourceHeader_unpack_def unpackType_def unpackClass_def dest!: Name_unpack_progress unpack_integers_progress)

lemma skipResource_progress: "skipResource msg off = Inr off' \<Longrightarrow> off < length msg \<and> off < off'"
  by (auto simp: skipResource_def skipName_def skipType_def skipClass_def skip_integers_progress Let_def
      dest!: skip_name_loop_progress unpack_integers_progress split: if_splits)

text \<open>The octets ahead of the parser, counted twice, and a header that was parsed without its body.\<close>

definition ahead :: "Parser \<Rightarrow> nat" where
  "ahead p = 2 * (length (ps_msg p) - ps_off p) + (if ps_resHeaderValid p then 1 else 0)"

lemma checkAdvance_keeps:
  "checkAdvance sec p = (eo, p') \<Longrightarrow> ps_msg p' = ps_msg p \<and> ps_off p' = ps_off p \<and> (eo = None \<longrightarrow> \<not> ps_resHeaderValid p')"
  by (auto simp: checkAdvance_def Let_def split: if_splits)

lemma Question_ahead: "parser_Question p = (Inr q, p') \<Longrightarrow> ahead p' < ahead p"
  by (auto simp: parser_Question_def ahead_def split: prod.splits option.splits sum.splits dest!: checkAdvance_keeps unpack_question_progress)

lemma SkipQuestion_ahead: "SkipQuestion p = (Inr u, p') \<Longrightarrow> ahead p' < ahead p"
  by (auto simp: SkipQuestion_def ahead_def split: prod.splits option.splits sum.splits dest!: checkAdvance_keeps skip_question_progress)

lemma resourceHeader_ahead:
  "resourceHeader sec p = (Inr h, p') \<Longrightarrow> ahead p' \<le> ahead p \<and> ps_resHeaderValid p' \<and> ps_msg p' = ps_msg p"
  by (auto simp: resourceHeader_def ahead_def split: prod.splits option.splits sum.splits if_splits
      dest!: checkAdvance_keeps ResourceHeader_unpack_progress)

lemma parse_resource_ahead: "parse_resource sec p = (Inr r, p') \<Longrightarrow> ahead p' < ahead p"
  by (auto simp: parse_resource_def unpackResourceBody_def Let_def ahead_def split: prod.splits sum.splits dest!: resourceHeader_ahead)

lemma skipResource_ahead: "parser_skipResource sec p = (Inr u, p') \<Longrightarrow> ahead p' < ahead p"
  by (auto simp: parser_skipResource_def Let_def ahead_def split: prod.splits option.splits sum.splits if_splits
      dest!: checkAdvance_keeps skipResource_progress)

section \<open>Whole sections\<close>

function all_questions :: "Question list \<Rightarrow> Parser \<Rightarrow> Question list parsed" where
  "all_questions qs p =
     (case parser_Question p of
        (Inl e, p) \<Rightarrow> if e = ErrSectionDone then (Inr qs, p) else (Inl e, p)
      | (Inr q, p) \<Rightarrow> all_questions (qs @ [q]) p)"
  by pat_completeness auto
termination
  by (relation "measure (\<lambda>(qs, p). ahead p)") (auto dest: Question_ahead [OF sym])

definition AllQuestions :: "Parser \<Rightarrow> Question list parsed" where
  "AllQuestions p = all_questions [] p"

function SkipAllQuestions :: "Parser \<Rightarrow> unit parsed" where
  "SkipAllQuestions p =
     (case SkipQuestion p of
        (Inl e, p) \<Rightarrow> if e = ErrSectionDone then (Inr (), p) else (Inl e, p)
      | (Inr _, p) \<Rightarrow> SkipAllQuestions p)"
  by pat_completeness auto
termination
  by (relation "measure ahead") (auto dest: SkipQuestion_ahead [OF sym])

function all_resources :: "dns_section \<Rightarrow> Resource list \<Rightarrow> Parser \<Rightarrow> Resource list parsed" where
  "all_resources sec rs p =
     (case parse_resource sec p of
        (Inl e, p) \<Rightarrow> if e = ErrSectionDone then (Inr rs, p) else (Inl e, p)
      | (Inr r, p) \<Rightarrow> all_resources sec (rs @ [r]) p)"
  by pat_completeness auto
termination
  by (relation "measure (\<lambda>(sec, rs, p). ahead p)") (auto dest: parse_resource_ahead [OF sym])

function skip_all_resources :: "dns_section \<Rightarrow> Parser \<Rightarrow> unit parsed" where
  "skip_all_resources sec p =
     (case parser_skipResource sec p of
        (Inl e, p) \<Rightarrow> if e = ErrSectionDone then (Inr (), p) else (Inl e, p)
      | (Inr _, p) \<Rightarrow> skip_all_resources sec p)"
  by pat_completeness auto
termination
  by (relation "measure (\<lambda>(sec, p). ahead p)") (auto dest: skipResource_ahead [OF sym])

declare all_questions.simps [simp del] SkipAllQuestions.simps [simp del] all_resources.simps [simp del] skip_all_resources.simps [simp del]

definition AnswerHeader :: "Parser \<Rightarrow> ResourceHeader parsed" where "AnswerHeader = resourceHeader sectionAnswers"
definition Answer :: "Parser \<Rightarrow> Resource parsed" where "Answer = parse_resource sectionAnswers"
definition AllAnswers :: "Parser \<Rightarrow> Resource list parsed" where "AllAnswers = all_resources sectionAnswers []"
definition SkipAnswer :: "Parser \<Rightarrow> unit parsed" where "SkipAnswer = parser_skipResource sectionAnswers"
definition SkipAllAnswers :: "Parser \<Rightarrow> unit parsed" where "SkipAllAnswers = skip_all_resources sectionAnswers"

definition AuthorityHeader :: "Parser \<Rightarrow> ResourceHeader parsed" where "AuthorityHeader = resourceHeader sectionAuthorities"
definition Authority :: "Parser \<Rightarrow> Resource parsed" where "Authority = parse_resource sectionAuthorities"
definition AllAuthorities :: "Parser \<Rightarrow> Resource list parsed" where "AllAuthorities = all_resources sectionAuthorities []"
definition SkipAuthority :: "Parser \<Rightarrow> unit parsed" where "SkipAuthority = parser_skipResource sectionAuthorities"
definition SkipAllAuthorities :: "Parser \<Rightarrow> unit parsed" where "SkipAllAuthorities = skip_all_resources sectionAuthorities"

definition AdditionalHeader :: "Parser \<Rightarrow> ResourceHeader parsed" where "AdditionalHeader = resourceHeader sectionAdditionals"
definition Additional :: "Parser \<Rightarrow> Resource parsed" where "Additional = parse_resource sectionAdditionals"
definition AllAdditionals :: "Parser \<Rightarrow> Resource list parsed" where "AllAdditionals = all_resources sectionAdditionals []"
definition SkipAdditional :: "Parser \<Rightarrow> unit parsed" where "SkipAdditional = parser_skipResource sectionAdditionals"
definition SkipAllAdditionals :: "Parser \<Rightarrow> unit parsed" where "SkipAllAdditionals = skip_all_resources sectionAdditionals"

section \<open>Bodies of known type\<close>

definition parse_typed :: "dns_Type \<Rightarrow> (Parser \<Rightarrow> dns_error + ResourceBody) \<Rightarrow> Parser \<Rightarrow> ResourceBody parsed" where
  "parse_typed typ unpack p =
     (if \<not> ps_resHeaderValid p \<or> rr_Type (ps_resHeader p) \<noteq> typ then (Inl ErrNotStarted, p)
      else
        (case unpack p of
           Inl e \<Rightarrow> (Inl e, p)
         | Inr r \<Rightarrow>
             (Inr r, p\<lparr>ps_off := ps_off p + unat (rr_Length (ps_resHeader p)), ps_resHeaderValid := False, ps_index := ps_index p + 1\<rparr>)))"

definition parser_CNAMEResource :: "Parser \<Rightarrow> ResourceBody parsed" where
  "parser_CNAMEResource = parse_typed TypeCNAME (\<lambda>p. unpackCNAMEResource (ps_msg p) (ps_off p))"
definition parser_MXResource :: "Parser \<Rightarrow> ResourceBody parsed" where
  "parser_MXResource = parse_typed TypeMX (\<lambda>p. unpackMXResource (ps_msg p) (ps_off p))"
definition parser_NSResource :: "Parser \<Rightarrow> ResourceBody parsed" where
  "parser_NSResource = parse_typed TypeNS (\<lambda>p. unpackNSResource (ps_msg p) (ps_off p))"
definition parser_PTRResource :: "Parser \<Rightarrow> ResourceBody parsed" where
  "parser_PTRResource = parse_typed TypePTR (\<lambda>p. unpackPTRResource (ps_msg p) (ps_off p))"
definition parser_SOAResource :: "Parser \<Rightarrow> ResourceBody parsed" where
  "parser_SOAResource = parse_typed TypeSOA (\<lambda>p. unpackSOAResource (ps_msg p) (ps_off p))"
definition parser_TXTResource :: "Parser \<Rightarrow> ResourceBody parsed" where
  "parser_TXTResource = parse_typed TypeTXT (\<lambda>p. unpackTXTResource (ps_msg p) (ps_off p) (rr_Length (ps_resHeader p)))"
definition parser_SRVResource :: "Parser \<Rightarrow> ResourceBody parsed" where
  "parser_SRVResource = parse_typed TypeSRV (\<lambda>p. unpackSRVResource (ps_msg p) (ps_off p))"
definition parser_AResource :: "Parser \<Rightarrow> ResourceBody parsed" where
  "parser_AResource = parse_typed TypeA (\<lambda>p. unpackAResource (ps_msg p) (ps_off p))"
definition parser_AAAAResource :: "Parser \<Rightarrow> ResourceBody parsed" where
  "parser_AAAAResource = parse_typed TypeAAAA (\<lambda>p. unpackAAAAResource (ps_msg p) (ps_off p))"

section \<open>Whole messages\<close>

text \<open>\<^verbatim>\<open>Unpack\<close>; what it leaves in the message when it fails is not described.\<close>

definition Unpack :: "bytes \<Rightarrow> dns_error + Message" where
  "Unpack msg =
     (case Parser_Start msg of (Inl e, p) \<Rightarrow> Inl e | (Inr h, p) \<Rightarrow>
     (case AllQuestions p of (Inl e, p) \<Rightarrow> Inl e | (Inr qs, p) \<Rightarrow>
     (case AllAnswers p of (Inl e, p) \<Rightarrow> Inl e | (Inr an, p) \<Rightarrow>
     (case AllAuthorities p of (Inl e, p) \<Rightarrow> Inl e | (Inr au, p) \<Rightarrow>
     (case AllAdditionals p of (Inl e, p) \<Rightarrow> Inl e | (Inr ad, p) \<Rightarrow>
       Inr \<lparr>m_Header = h, m_Questions = qs, m_Answers = an, m_Authorities = au, m_Additionals = ad\<rparr>)))))"

end
