(* ===== verification/DNS_Builder.thy ===== *)
theory DNS_Builder
  imports DNS_Parser
begin

text \<open>
  Package \<^verbatim>\<open>dnsmessage\<close>: the \<^verbatim>\<open>Builder\<close>, which packs a message record by record.  Each method returns its error
  and the builder it leaves.  The compression table is a map shared by all methods, so that a method that
  fails still leaves in it what it has added.
\<close>

record Builder =
  b_msg :: packer
  b_header :: wire_header
  b_section :: dns_section
  b_compression :: compression

type_synonym built = "dns_error option \<times> Builder"

text \<open>The buffer given to \<^verbatim>\<open>Start\<close> by its array up to its capacity; a nil buffer has none.\<close>

definition StartWithoutCompression :: "bytes \<Rightarrow> dns_Header \<Rightarrow> Builder" where
  "StartWithoutCompression buf h =
     (let arr = (if length buf < headerLen then replicate packStartingCap 0 else buf) in
      \<lparr>b_msg = \<lparr>pk_msg = take headerLen arr, pk_cap = length arr, pk_array = 0\<rparr>,
       b_header = zero_wire_header\<lparr>wh_id := fst (Header_pack h), wh_bits := snd (Header_pack h)\<rparr>,
       b_section = sectionHeader, b_compression = None\<rparr>)"

definition Builder_Start :: "bytes \<Rightarrow> dns_Header \<Rightarrow> Builder" where
  "Builder_Start buf h = (StartWithoutCompression buf h)\<lparr>b_compression := Some Map.empty\<rparr>"

definition startCheck :: "dns_section \<Rightarrow> Builder \<Rightarrow> dns_error option" where
  "startCheck s b =
     (if b_section b \<le> sectionNotStarted then Some ErrNotStarted
      else if b_section b > s then Some ErrSectionDone else None)"

definition start_section :: "dns_section \<Rightarrow> Builder \<Rightarrow> built" where
  "start_section s b = (case startCheck s b of Some e \<Rightarrow> (Some e, b) | None \<Rightarrow> (None, b\<lparr>b_section := s\<rparr>))"

definition StartQuestions :: "Builder \<Rightarrow> built" where "StartQuestions = start_section sectionQuestions"
definition StartAnswers :: "Builder \<Rightarrow> built" where "StartAnswers = start_section sectionAnswers"
definition StartAuthorities :: "Builder \<Rightarrow> built" where "StartAuthorities = start_section sectionAuthorities"
definition StartAdditionals :: "Builder \<Rightarrow> built" where "StartAdditionals = start_section sectionAdditionals"

text \<open>In a section without a counter the pointer to the counter is nil.\<close>

definition incrementSectionCount :: "Builder \<Rightarrow> built" where
  "incrementSectionCount b =
     (let h = b_header b; s = b_section b in
      if s = sectionQuestions then
        (if wh_questions h = 0xffff then (Some errTooManyQuestions, b)
         else (None, b\<lparr>b_header := h\<lparr>wh_questions := wh_questions h + 1\<rparr>\<rparr>))
      else if s = sectionAnswers then
        (if wh_answers h = 0xffff then (Some errTooManyAnswers, b)
         else (None, b\<lparr>b_header := h\<lparr>wh_answers := wh_answers h + 1\<rparr>\<rparr>))
      else if s = sectionAuthorities then
        (if wh_authorities h = 0xffff then (Some errTooManyAuthorities, b)
         else (None, b\<lparr>b_header := h\<lparr>wh_authorities := wh_authorities h + 1\<rparr>\<rparr>))
      else if s = sectionAdditionals then
        (if wh_additionals h = 0xffff then (Some errTooManyAdditionals, b)
         else (None, b\<lparr>b_header := h\<lparr>wh_additionals := wh_additionals h + 1\<rparr>\<rparr>))
      else (Some DnsPanic, b))"

text \<open>The end of each method: count the record and keep the longer message.\<close>

definition accept_record :: "packer \<Rightarrow> Builder \<Rightarrow> built" where
  "accept_record p b =
     (case incrementSectionCount b of (Some e, b) \<Rightarrow> (Some e, b) | (None, b) \<Rightarrow> (None, b\<lparr>b_msg := p\<rparr>))"

definition builder_Question :: "(nat \<Rightarrow> nat) \<Rightarrow> Question \<Rightarrow> Builder \<Rightarrow> built" where
  "builder_Question grow q b =
     (if b_section b < sectionQuestions then (Some ErrNotStarted, b)
      else if b_section b > sectionQuestions then (Some ErrSectionDone, b)
      else
        (case Question_pack grow q (b_msg b) (b_compression b) of
           (Inl e, cmp) \<Rightarrow> (Some e, b\<lparr>b_compression := cmp\<rparr>)
         | (Inr p, cmp) \<Rightarrow> accept_record p (b\<lparr>b_compression := cmp\<rparr>)))"

definition checkResourceSection :: "Builder \<Rightarrow> dns_error option" where
  "checkResourceSection b =
     (if b_section b < sectionAnswers then Some ErrNotStarted
      else if b_section b > sectionAdditionals then Some ErrSectionDone else None)"

text \<open>The methods for the nine types of resources differ in the name of the type in their error.\<close>

definition resource_name :: "ResourceBody \<Rightarrow> string" where
  "resource_name body =
     (case body of CNAMEResource _ \<Rightarrow> ''CNAMEResource'' | MXResource _ _ \<Rightarrow> ''MXResource'' | NSResource _ \<Rightarrow> ''NSResource''
      | PTRResource _ \<Rightarrow> ''PTRResource'' | SOAResource _ _ _ _ _ _ _ \<Rightarrow> ''SOAResource'' | TXTResource _ \<Rightarrow> ''TXTResource''
      | SRVResource _ _ _ _ \<Rightarrow> ''SRVResource'' | AResource _ \<Rightarrow> ''AResource'' | AAAAResource _ \<Rightarrow> ''AAAAResource'')"

definition builder_resource :: "(nat \<Rightarrow> nat) \<Rightarrow> ResourceHeader \<Rightarrow> ResourceBody \<Rightarrow> Builder \<Rightarrow> built" where
  "builder_resource grow h body b =
     (case checkResourceSection b of
        Some e \<Rightarrow> (Some e, b)
      | None \<Rightarrow>
          let h = h\<lparr>rr_Type := realType body\<rparr> in
          (case pack_bind (pack_nest ''ResourceHeader'' (ResourceHeader_pack grow h (b_msg b) (b_compression b))) (\<lambda>(p, sl) cmp.
             let preLen = length (pk_msg p) in
             pack_bind (pack_nest (resource_name body @ '' body'') (ResourceBody_pack grow body p cmp)) (\<lambda>p cmp.
               (map_sum (\<lambda>e. e) fst (fixLen h sl preLen p), cmp))) of
             (Inl e, cmp) \<Rightarrow> (Some e, b\<lparr>b_compression := cmp\<rparr>)
           | (Inr p, cmp) \<Rightarrow> accept_record p (b\<lparr>b_compression := cmp\<rparr>)))"

definition builder_CNAMEResource :: "(nat \<Rightarrow> nat) \<Rightarrow> ResourceHeader \<Rightarrow> dns_Name \<Rightarrow> Builder \<Rightarrow> built" where
  "builder_CNAMEResource grow h n b = builder_resource grow h (CNAMEResource n) b"
definition builder_MXResource :: "(nat \<Rightarrow> nat) \<Rightarrow> ResourceHeader \<Rightarrow> u16 \<Rightarrow> dns_Name \<Rightarrow> Builder \<Rightarrow> built" where
  "builder_MXResource grow h pref n b = builder_resource grow h (MXResource pref n) b"
definition builder_NSResource :: "(nat \<Rightarrow> nat) \<Rightarrow> ResourceHeader \<Rightarrow> dns_Name \<Rightarrow> Builder \<Rightarrow> built" where
  "builder_NSResource grow h n b = builder_resource grow h (NSResource n) b"
definition builder_PTRResource :: "(nat \<Rightarrow> nat) \<Rightarrow> ResourceHeader \<Rightarrow> dns_Name \<Rightarrow> Builder \<Rightarrow> built" where
  "builder_PTRResource grow h n b = builder_resource grow h (PTRResource n) b"
definition builder_SOAResource :: "(nat \<Rightarrow> nat) \<Rightarrow> ResourceHeader \<Rightarrow> dns_Name \<Rightarrow> dns_Name \<Rightarrow> u32 \<Rightarrow> u32 \<Rightarrow> u32 \<Rightarrow> u32 \<Rightarrow> u32 \<Rightarrow> Builder \<Rightarrow> built" where
  "builder_SOAResource grow h ns mbox se rf rt ex mi b = builder_resource grow h (SOAResource ns mbox se rf rt ex mi) b"
definition builder_TXTResource :: "(nat \<Rightarrow> nat) \<Rightarrow> ResourceHeader \<Rightarrow> bytes \<Rightarrow> Builder \<Rightarrow> built" where
  "builder_TXTResource grow h t b = builder_resource grow h (TXTResource t) b"
definition builder_SRVResource :: "(nat \<Rightarrow> nat) \<Rightarrow> ResourceHeader \<Rightarrow> u16 \<Rightarrow> u16 \<Rightarrow> u16 \<Rightarrow> dns_Name \<Rightarrow> Builder \<Rightarrow> built" where
  "builder_SRVResource grow h pr we po n b = builder_resource grow h (SRVResource pr we po n) b"
definition builder_AResource :: "(nat \<Rightarrow> nat) \<Rightarrow> ResourceHeader \<Rightarrow> bytes \<Rightarrow> Builder \<Rightarrow> built" where
  "builder_AResource grow h a b = builder_resource grow h (AResource a) b"
definition builder_AAAAResource :: "(nat \<Rightarrow> nat) \<Rightarrow> ResourceHeader \<Rightarrow> bytes \<Rightarrow> Builder \<Rightarrow> built" where
  "builder_AAAAResource grow h a b = builder_resource grow h (AAAAResource a) b"

text \<open>\<^verbatim>\<open>Finish\<close> writes the header over the first octets of the message.\<close>

definition Finish :: "(nat \<Rightarrow> nat) \<Rightarrow> Builder \<Rightarrow> (dns_error + bytes) \<times> Builder" where
  "Finish grow b =
     (if b_section b < sectionHeader then (Inl ErrNotStarted, b)
      else
        let hd = pk_msg (wire_header_pack grow (b_header b) ((b_msg b)\<lparr>pk_msg := []\<rparr>));
            p = (b_msg b)\<lparr>pk_msg := hd @ drop (length hd) (pk_msg (b_msg b))\<rparr>
        in (Inr (pk_msg p), b\<lparr>b_section := sectionDone, b_msg := p\<rparr>))"

end
