(* ===== verification/DNS_Names.thy ===== *)
theory DNS_Names
  imports DNS_Builder
begin

text \<open>
  Domain names on the wire: what packing a name appends, as a function of its labels and of the offset alone, and
  what unpacking makes of it, pointers into earlier parts of the message included.
\<close>

section \<open>Names by their labels\<close>

definition dotted :: "bytes list \<Rightarrow> bytes" where
  "dotted ls = concat (map (\<lambda>l. l @ [0x2e]) ls)"

lemma dotted_simps [simp]: "dotted [] = []" "dotted (l # ls) = l @ 0x2e # dotted ls" "dotted (ls @ ms) = dotted ls @ dotted ms"
  by (simp_all add: dotted_def)

definition label_ok :: "bytes \<Rightarrow> bool" where
  "label_ok l \<longleftrightarrow> l \<noteq> [] \<and> length l < 64 \<and> 0x2e \<notin> set l"

definition name_of :: "bytes list \<Rightarrow> dns_Name" where
  "name_of ls =
     (let s = (if ls = [] then [0x2e] else dotted ls) in
      \<lparr>name_Data = s @ replicate (nameLen - length s) 0, name_Length = of_nat (length s)\<rparr>)"

definition labels_ok :: "bytes list \<Rightarrow> bool" where
  "labels_ok ls \<longleftrightarrow> list_all label_ok ls \<and> length (dotted ls) \<le> nameLen"

lemma NewName_labels: "labels_ok ls \<Longrightarrow> NewName (if ls = [] then [0x2e] else dotted ls) = Inr (name_of ls)"
  by (auto simp: NewName_def name_of_def labels_ok_def Let_def nameLen_def)

lemma cut_at_dot: "x \<notin> set a \<Longrightarrow> x \<notin> set b \<Longrightarrow> a @ x # s = b @ x # t \<longleftrightarrow> a = b \<and> s = t"
proof (induction a arbitrary: b)
  case Nil
  then show ?case by (cases b) auto
next
  case (Cons y a)
  then show ?case by (cases b) auto
qed

lemma dotted_inject: "list_all label_ok ls \<Longrightarrow> list_all label_ok ms \<Longrightarrow> dotted ls = dotted ms \<longleftrightarrow> ls = ms"
proof (induction ls arbitrary: ms)
  case Nil
  then show ?case by (cases ms) auto
next
  case (Cons l ls)
  then show ?case by (cases ms) (auto simp: label_ok_def cut_at_dot)
qed

text \<open>Zeros after a name do not hide where it ends.\<close>

lemma dotted_snoc: "ls \<noteq> [] \<Longrightarrow> \<exists>s. dotted ls = s @ [0x2e]"
  by (cases ls rule: rev_cases) auto

lemma dotted_zeros:
  assumes "dotted ls @ replicate z 0 = dotted ms @ replicate y 0" "ls \<noteq> []" "ms \<noteq> []"
  shows "dotted ls = dotted ms"
proof -
  have "dropWhile (\<lambda>b. b = 0) (rev (s @ [0x2e] @ replicate x 0)) = rev (s @ [0x2e :: u8])" for s x
    by (simp add: dropWhile_append)
  then have "dropWhile (\<lambda>b. b = 0) (rev (dotted ns @ replicate x 0)) = rev (dotted ns)" if "ns \<noteq> []" for ns x
    using dotted_snoc [OF that] by (metis append.assoc)
  then show ?thesis
    using assms by (metis rev_is_rev_conv)
qed

section \<open>What packing appends\<close>

text \<open>The octets of the labels from position \<open>i\<close> of a name on, when they go to offset \<open>off\<close>.\<close>

definition note_suffix :: "bytes \<Rightarrow> nat \<Rightarrow> compression \<Rightarrow> compression" where
  "note_suffix key off cmp = (if off \<le> 0x3fff then map_option (\<lambda>m. m(key \<mapsto> off)) cmp else cmp)"

fun labels_wire :: "bytes \<Rightarrow> bytes list \<Rightarrow> nat \<Rightarrow> compression \<Rightarrow> bytes \<times> compression" where
  "labels_wire key [] off cmp = ([0], cmp)"
| "labels_wire key (l # ls) off cmp =
     (case lookup cmp key of
        Some ptr \<Rightarrow> (pointer_octets ptr, cmp)
      | None \<Rightarrow>
          (case labels_wire (drop (length l + 1) key) ls (off + length l + 1) (note_suffix key off cmp) of
             (xs, cmp') \<Rightarrow> (of_nat (length l) # l @ xs, cmp')))"

definition name_wire :: "bytes list \<Rightarrow> nat \<Rightarrow> compression \<Rightarrow> bytes \<times> compression" where
  "name_wire ls off cmp = labels_wire (name_Data (name_of ls)) ls off cmp"

text \<open>Appending, and when it stays within the array.\<close>

definition appended :: "packer \<Rightarrow> packer \<Rightarrow> bytes \<Rightarrow> bool" where
  "appended p p' xs \<longleftrightarrow>
     pk_msg p' = pk_msg p @ xs \<and>
     (length (pk_msg p) + length xs \<le> pk_cap p \<longrightarrow> pk_cap p' = pk_cap p \<and> pk_array p' = pk_array p)"

lemma appended_append [simp]: "appended p (go_append grow xs p) xs"
  by (simp add: appended_def go_append_def Let_def)

lemma appended_refl: "appended p p []"
  by (simp add: appended_def)

lemma appended_trans: "appended p q xs \<Longrightarrow> appended q r ys \<Longrightarrow> appended p r (xs @ ys)"
  by (auto simp: appended_def)

lemma appended_length: "appended p q xs \<Longrightarrow> length (pk_msg q) = length (pk_msg p) + length xs"
  by (simp add: appended_def)

lemma appended_fold: "appended p (fold (\<lambda>j. go_append grow [f j]) js p) (map f js)"
proof (induction js arbitrary: p)
  case (Cons j js)
  show ?case
    using appended_trans [OF appended_append Cons.IH, of p grow "[f j]"] by simp
qed (simp add: appended_refl)

text \<open>The scan of one label.\<close>

lemma pack_skip_label:
  assumes "name_Data n = pre @ l @ rest" "start = length pre" "0x2e \<notin> set l" "length pre + length l \<le> unat (name_Length n)"
    and "0 < j" "j \<le> length l"
  shows "name_pack_loop grow n (start + j) start p cmp = name_pack_loop grow n (start + length l) start p cmp"
  using assms(5,6)
proof (induction "length l - j" arbitrary: j)
  case 0
  then show ?case by simp
next
  case (Suc k)
  have at: "name_Data n ! (start + i) = l ! i" if "i < length l" for i
    using that assms(1,2) by (simp add: nth_append)
  have "l ! j \<noteq> 0x2e" "l ! (j - 1) \<noteq> 0x2e"
    using Suc.hyps(2) Suc.prems assms(3) by (auto simp: in_set_conv_nth)
  moreover have "start + j - 1 = start + (j - 1)"
    using Suc.prems by simp
  ultimately have "name_pack_loop grow n (start + j) start p cmp = name_pack_loop grow n (start + Suc j) start p cmp"
    using at [of j] at [of "j - 1"] Suc.hyps(2) Suc.prems assms(2,4)
    by (subst name_pack_loop.simps) auto
  then show ?case
    using Suc.hyps(1) [of "Suc j"] Suc.hyps(2) Suc.prems by (cases "j = length l") auto
qed

lemma remember_note: "remember n i p cmp = note_suffix (drop i (name_Data n)) (length (pk_msg p)) cmp"
  by (simp add: remember_def note_suffix_def)

lemma pack_first_octet:
  assumes "name_Data n = pre @ l @ rest" "l \<noteq> []" "0x2e \<notin> set l" "length pre < unat (name_Length n)" "pre = [] \<or> last pre = 0x2e"
  shows "name_pack_loop grow n (length pre) (length pre) p cmp =
    (case lookup cmp (l @ rest) of
       Some ptr \<Rightarrow> (Inr (go_append grow (pointer_octets ptr) p), cmp)
     | None \<Rightarrow> name_pack_loop grow n (length pre + 1) (length pre) p (note_suffix (l @ rest) (length (pk_msg p)) cmp))"
proof -
  have "name_Data n ! length pre = hd l"
    using assms(1,2) by (cases l) (simp_all add: nth_append)
  then have "name_Data n ! length pre \<noteq> 0x2e"
    using assms(2,3) by (metis hd_in_set)
  moreover have "pre = [] \<or> name_Data n ! (length pre - 1) = 0x2e"
    using assms(1,5) by (cases pre rule: rev_cases) (auto simp: nth_append)
  moreover have "drop (length pre) (name_Data n) = l @ rest"
    using assms(1) by simp
  ultimately show ?thesis
    using assms(4)
    by (subst name_pack_loop.simps) (cases cmp; auto simp: remember_note lookup_def note_suffix_def split: option.split)
qed

lemma pack_label:
  assumes "name_Data n = pre @ l @ 0x2e # rest" "label_ok l" "length pre + length l < unat (name_Length n)" "pre = [] \<or> last pre = 0x2e"
    and "lookup cmp (l @ 0x2e # rest) = None"
  shows "\<exists>p'. name_pack_loop grow n (length pre) (length pre) p cmp =
      name_pack_loop grow n (length pre + length l + 1) (length pre + length l + 1) p'
        (note_suffix (l @ 0x2e # rest) (length (pk_msg p)) cmp) \<and> appended p p' (of_nat (length l) # l)"
proof -
  have l: "l \<noteq> []" "length l < 64" "0x2e \<notin> set l"
    using assms(2) by (auto simp: label_ok_def)
  let ?cmp = "note_suffix (l @ 0x2e # rest) (length (pk_msg p)) cmp" and ?i = "length pre + length l"
  let ?p = "fold (\<lambda>j. go_append grow [name_Data n ! j]) [length pre..<?i] (go_append grow [of_nat (length l)] p)"
  have "name_pack_loop grow n (length pre) (length pre) p cmp = name_pack_loop grow n (length pre + 1) (length pre) p ?cmp"
    using pack_first_octet [of n pre l "0x2e # rest" grow p cmp] assms l by simp
  also have "\<dots> = name_pack_loop grow n ?i (length pre) p ?cmp"
    using pack_skip_label [of n pre l "0x2e # rest" "length pre" 1] assms(1,3) l by (simp add: Suc_le_eq)
  also have "\<dots> = name_pack_loop grow n (?i + 1) (?i + 1) ?p ?cmp"
    using assms(1,3) l by (subst name_pack_loop.simps) (simp add: nth_append)
  moreover have "map (\<lambda>j. name_Data n ! j) [length pre..<?i] = l"
    using assms(1) by (intro nth_equalityI) (simp_all add: nth_append)
  then have "appended (go_append grow [of_nat (length l)] p) ?p l"
    using appended_fold [of "go_append grow [of_nat (length l)] p" grow "(!) (name_Data n)" "[length pre..<?i]"] by simp
  then have "appended p ?p (of_nat (length l) # l)"
    using appended_trans [OF appended_append] by fastforce
  ultimately show ?thesis
    by (intro exI [of _ ?p]) simp
qed

lemma pack_labels:
  assumes "name_Data n = pre @ dotted ls @ zs" "unat (name_Length n) = length pre + length (dotted ls)" "list_all label_ok ls"
    and "pre = [] \<or> last pre = 0x2e" "labels_wire (dotted ls @ zs) ls (length (pk_msg p)) cmp = (xs, cmp')"
  shows "\<exists>p'. name_pack_loop grow n (length pre) (length pre) p cmp = (Inr p', cmp') \<and> appended p p' xs"
  using assms
proof (induction ls arbitrary: pre p cmp xs)
  case Nil
  then show ?case by (subst name_pack_loop.simps) auto
next
  case (Cons l ls)
  let ?rest = "dotted ls @ zs" and ?pre = "pre @ l @ [0x2e]"
  have n: "name_Data n = pre @ l @ 0x2e # ?rest" "name_Data n = ?pre @ dotted ls @ zs" "label_ok l" "l \<noteq> []" "0x2e \<notin> set l"
    using Cons.prems(1,3) by (auto simp: label_ok_def)
  show ?case
  proof (cases "lookup cmp (l @ 0x2e # ?rest)")
    case (Some ptr)
    then have "xs = pointer_octets ptr" "cmp' = cmp"
      using Cons.prems(5) by simp_all
    with Some pack_first_octet [of n pre l "0x2e # ?rest" grow p cmp] n Cons.prems(2,4) show ?thesis by auto
  next
    case None
    let ?cmp = "note_suffix (l @ 0x2e # ?rest) (length (pk_msg p)) cmp"
    obtain p1 where p1: "name_pack_loop grow n (length pre) (length pre) p cmp =
        name_pack_loop grow n (length ?pre) (length ?pre) p1 ?cmp" "appended p p1 (of_nat (length l) # l)"
      using pack_label [OF n(1,3) _ Cons.prems(4) None] Cons.prems(2) by (auto simp: add.assoc)
    obtain ys where ys: "labels_wire ?rest ls (length (pk_msg p1)) ?cmp = (ys, cmp')" "xs = of_nat (length l) # l @ ys"
      using Cons.prems(5) None appended_length [OF p1(2)] by (auto simp: add.assoc split: prod.splits)
    obtain p2 where "name_pack_loop grow n (length ?pre) (length ?pre) p1 ?cmp = (Inr p2, cmp')" "appended p1 p2 ys"
      using Cons.IH [OF n(2) _ _ _ ys(1)] Cons.prems(2,3) by auto
    with p1 appended_trans [OF p1(2)] ys(2) show ?thesis by fastforce
  qed
qed

lemma Name_pack_wire:
  assumes "labels_ok ls" "name_wire ls (length (pk_msg p)) cmp = (xs, cmp')"
  shows "\<exists>p'. Name_pack grow (name_of ls) p cmp = (Inr p', cmp') \<and> appended p p' xs"
proof (cases "ls = []")
  case True
  then show ?thesis
    using assms(2) by (simp add: Name_pack_def name_of_def name_wire_def nameLen_def)
next
  case False
  let ?n = "name_of ls" and ?zs = "replicate (nameLen - length (dotted ls)) 0"
  obtain s where s: "dotted ls = s @ [0x2e]"
    using dotted_snoc [OF False] by blast
  have len: "unat (name_Length ?n) = length (dotted ls)" "name_Data ?n = dotted ls @ ?zs"
    using False assms(1) by (simp_all add: name_of_def labels_ok_def nameLen_def Let_def unsigned_of_nat take_bit_nat_eq_self)
  have "\<not> (name_Data ?n ! 0 = 0x2e \<and> name_Length ?n = 1)"
  proof
    assume "name_Data ?n ! 0 = 0x2e \<and> name_Length ?n = 1"
    then show False
      using len False assms(1) by (cases ls; cases "hd ls") (auto simp: labels_ok_def label_ok_def)
  qed
  moreover have "name_Length ?n \<noteq> 0" "name_Data ?n ! (unat (name_Length ?n) - 1) = 0x2e"
    using len s by (auto simp: nth_append)
  ultimately have "Name_pack grow ?n p cmp = name_pack_loop grow ?n 0 0 p cmp"
    unfolding Name_pack_def by auto
  with pack_labels [of ?n "[]" ls ?zs p cmp xs cmp' grow] assms len show ?thesis
    by (simp add: labels_ok_def name_wire_def)
qed

section \<open>What unpacking reads\<close>

text \<open>
  The labels read from an offset of a message, the number of pointers followed and the offset behind the name.
\<close>

inductive name_reads :: "bytes \<Rightarrow> nat \<Rightarrow> bytes list \<Rightarrow> nat \<Rightarrow> nat \<Rightarrow> bool" for msg :: bytes where
  name_reads_end: "off < length msg \<Longrightarrow> msg ! off = 0 \<Longrightarrow> name_reads msg off [] 0 (off + 1)"
| name_reads_label: "label_ok l \<Longrightarrow> off < length msg \<Longrightarrow> msg ! off = of_nat (length l) \<Longrightarrow> take (length l) (drop (off + 1) msg) = l \<Longrightarrow>
    name_reads msg (off + 1 + length l) ls k e \<Longrightarrow> name_reads msg off (l # ls) k e"
| name_reads_pointer: "off + 1 < length msg \<Longrightarrow> ptr < 0x4000 \<Longrightarrow> msg ! off = hd (pointer_octets ptr) \<Longrightarrow> msg ! (off + 1) = last (pointer_octets ptr) \<Longrightarrow>
    name_reads msg ptr ls k e \<Longrightarrow> name_reads msg off ls (k + 1) (off + 2)"

lemma name_reads_bound: "name_reads msg off ls k e \<Longrightarrow> off < length msg"
  by (auto elim: name_reads.cases)

lemma name_reads_append: "name_reads msg off ls k e \<Longrightarrow> name_reads (msg @ xs) off ls k e"
proof (induction rule: name_reads.induct)
  case (name_reads_label l off ls k e)
  then show ?case
    using name_reads_bound [OF name_reads_label.hyps(5)] by (intro name_reads.name_reads_label) (simp_all add: nth_append)
next
  case (name_reads_end off)
  then show ?case by (intro name_reads.name_reads_end) (simp_all add: nth_append)
next
  case (name_reads_pointer off ptr ls k e)
  show ?case
    by (rule name_reads.name_reads_pointer [OF _ name_reads_pointer.hyps(2) _ _ name_reads_pointer.IH]) (use name_reads_pointer.hyps in \<open>simp_all add: nth_append\<close>)
qed

lemma pointer_octets_read:
  assumes "ptr < 0x4000"
  shows "hd (pointer_octets ptr) AND 0xC0 = 0xC0" "pointer_target (hd (pointer_octets ptr)) (last (pointer_octets ptr)) = ptr"
proof -
  have "list_all (\<lambda>h. (of_nat (h OR 0xC0) :: u8) AND 0xC0 = 0xC0 \<and> unat ((of_nat (h OR 0xC0) :: u8) XOR 0xC0) = h) [0..<64]"
    by code_simp
  moreover have "drop_bit 8 ptr \<in> set [0..<64]"
    using assms by (simp add: drop_bit_eq_div)
  ultimately have h: "(of_nat (drop_bit 8 ptr OR 0xC0) :: u8) AND 0xC0 = 0xC0" "unat ((of_nat (drop_bit 8 ptr OR 0xC0) :: u8) XOR 0xC0) = drop_bit 8 ptr"
    by (simp_all only: list_all_iff)
  show "hd (pointer_octets ptr) AND 0xC0 = 0xC0"
    using h(1) by (simp add: pointer_octets_def)
  have "push_bit 8 (drop_bit 8 ptr) OR take_bit 8 ptr = ptr"
    by (rule bit_eqI) (auto simp: bit_simps)
  then show "pointer_target (hd (pointer_octets ptr)) (last (pointer_octets ptr)) = ptr"
    using h(2) by (simp add: pointer_target_def pointer_octets_def unsigned_of_nat)
qed

lemma label_length_octet:
  assumes "label_ok l"
  shows "(of_nat (length l) :: u8) AND 0xC0 = 0" "(of_nat (length l) :: u8) \<noteq> 0" "unat (of_nat (length l) :: u8) = length l"
proof -
  have "list_all (\<lambda>h. (of_nat h :: u8) AND 0xC0 = 0) [0..<64]"
    by code_simp
  then show "(of_nat (length l) :: u8) AND 0xC0 = 0"
    using assms by (simp add: list_all_iff label_ok_def)
  show u: "unat (of_nat (length l) :: u8) = length l"
    using assms by (simp add: label_ok_def unsigned_of_nat take_bit_nat_eq_self)
  show "(of_nat (length l) :: u8) \<noteq> 0"
    using u assms by (auto simp: label_ok_def)
qed

lemma unpack_name_reads:
  assumes "name_reads msg off ls k e" "ptr + k \<le> 10"
  shows "name_unpack_loop msg off new ptr name = Inr (name @ dotted ls, if ptr = 0 then e else new)"
  using assms
proof (induction arbitrary: ptr new name rule: name_reads.induct)
  case (name_reads_end off)
  then show ?case by (simp add: name_unpack_loop_eq [of msg off])
next
  case (name_reads_label l off ls k e)
  note len = label_length_octet [OF name_reads_label.hyps(1)]
  have "off + 1 + length l \<le> length msg"
    using name_reads_bound [OF name_reads_label.hyps(5)] by simp
  moreover have "drop (off + 1) (take (off + 1 + length l) msg) = l"
    using name_reads_label.hyps(4) by (simp add: drop_take)
  ultimately show ?case
    using name_reads_label.IH [of ptr new "name @ l @ [0x2e]"] name_reads_label.hyps(2,3) name_reads_label.prems len
    by (simp add: name_unpack_loop_eq [of msg off] Let_def)
next
  case (name_reads_pointer off ptr' ls k e)
  note po = pointer_octets_read [OF name_reads_pointer.hyps(2)]
  have "hd (pointer_octets ptr') AND 0xC0 \<noteq> 0"
    using po(1) by simp
  then show ?case
    using name_reads_pointer.IH [of "ptr + 1" "if ptr = 0 then off + 2 else new" name] name_reads_pointer.hyps name_reads_pointer.prems po
    by (simp add: name_unpack_loop_eq [of msg off] Let_def)
qed

lemma Name_unpack_name_reads:
  assumes "name_reads msg off ls k e" "k \<le> 10" "labels_ok ls"
  shows "Name_unpack msg off = Inr (name_of ls, e)"
proof -
  have "dotted ls = [] \<longleftrightarrow> ls = []"
    by (cases ls) auto
  then show ?thesis
    using unpack_name_reads [OF assms(1), of 0 off "[]"] assms(2,3)
    by (simp add: Name_unpack_def name_of_def labels_ok_def nameLen_def Let_def)
qed

section \<open>The compression table\<close>

definition entry_ok :: "bytes \<Rightarrow> bytes \<Rightarrow> nat \<Rightarrow> bool" where
  "entry_ok msg key off \<longleftrightarrow>
     off < 0x4000 \<and>
     (\<exists>ls z k e. key = dotted ls @ replicate z 0 \<and> ls \<noteq> [] \<and> list_all label_ok ls \<and> name_reads msg off ls k e \<and> k < length ls)"

lemma entry_ok_append: "entry_ok msg key off \<Longrightarrow> entry_ok (msg @ xs) key off"
  unfolding entry_ok_def using name_reads_append by blast

lemma entry_ok_labels:
  assumes "entry_ok msg (dotted ls @ replicate z 0) off" "ls \<noteq> []" "list_all label_ok ls"
  shows "off < 0x4000 \<and> (\<exists>k e. name_reads msg off ls k e \<and> k < length ls)"
proof -
  obtain ms y k e where m: "dotted ls @ replicate z 0 = dotted ms @ replicate y 0" "ms \<noteq> []" "list_all label_ok ms" "name_reads msg off ms k e"
      "k < length ms" "off < 0x4000"
    using assms(1) unfolding entry_ok_def by blast
  have "ls = ms"
    using dotted_zeros [OF m(1) assms(2) m(2)] dotted_inject [OF assms(3) m(3)] by simp
  with m show ?thesis by blast
qed

lemma labels_wire_reads:
  assumes "\<And>key w. lookup cmp key = Some w \<Longrightarrow> length key \<le> length (dotted ls) + z \<Longrightarrow> entry_ok msg key w"
    and "list_all label_ok ls" "labels_wire (dotted ls @ replicate z 0) ls (length msg) cmp = (xs, cmp')"
  shows "\<exists>k \<le> length ls. name_reads (msg @ xs) (length msg) ls k (length msg + length xs) \<and>
    (\<forall>key w. lookup cmp' key = Some w \<longrightarrow> lookup cmp key = Some w \<or> entry_ok (msg @ xs) key w)"
  using assms
proof (induction ls arbitrary: msg cmp xs)
  case Nil
  then show ?case
    by (auto intro!: exI [of _ 0] name_reads_end [of "length msg" "msg @ [0]", simplified])
next
  case (Cons l ls)
  let ?key = "dotted (l # ls) @ replicate z 0"
  show ?case
  proof (cases "lookup cmp ?key")
    case (Some ptr)
    then have xs: "xs = pointer_octets ptr" "cmp' = cmp"
      using Cons.prems(3) by simp_all
    obtain k e where r: "ptr < 0x4000" "name_reads msg ptr (l # ls) k e" "k < length (l # ls)"
      using entry_ok_labels [OF Cons.prems(1) [OF Some] _ Cons.prems(2)] by auto
    have "name_reads (msg @ xs) (length msg) (l # ls) (k + 1) (length msg + 2)"
      by (rule name_reads_pointer [OF _ r(1) _ _ name_reads_append [OF r(2)]]) (simp_all add: xs pointer_octets_def nth_append)
    with r(3) xs show ?thesis
      by (intro exI [of _ "k + 1"]) (simp add: pointer_octets_def)
  next
    case None
    let ?msg = "msg @ of_nat (length l) # l" and ?cmp = "note_suffix ?key (length msg) cmp"
    obtain ys where ys: "labels_wire (dotted ls @ replicate z 0) ls (length ?msg) ?cmp = (ys, cmp')" "xs = of_nat (length l) # l @ ys"
      using Cons.prems(3) None by (auto split: prod.splits)
    have note_cases: "lookup ?cmp key = Some w \<Longrightarrow> lookup cmp key = Some w \<or> key = ?key \<and> w = length msg \<and> length msg < 0x4000" for key w
      by (cases cmp) (auto simp: note_suffix_def lookup_def split: if_splits)
    have "entry_ok ?msg key w" if "lookup ?cmp key = Some w" "length key \<le> length (dotted ls) + z" for key w
      using note_cases [OF that(1)] that(2) Cons.prems(1) [of key w] entry_ok_append by auto
    from Cons.IH [OF this _ ys(1)] Cons.prems(2) obtain k where k: "k \<le> length ls"
        "name_reads (?msg @ ys) (length ?msg) ls k (length ?msg + length ys)"
        "\<And>key w. lookup cmp' key = Some w \<Longrightarrow> lookup ?cmp key = Some w \<or> entry_ok (?msg @ ys) key w"
      by auto
    have all: "?msg @ ys = msg @ xs"
      using ys(2) by simp
    have r: "name_reads (msg @ xs) (length msg) (l # ls) k (length msg + length xs)"
      by (rule name_reads_label) (use k(2) all ys(2) Cons.prems(2) in \<open>simp_all add: nth_append add.assoc\<close>)
    have new: "length msg < 0x4000 \<Longrightarrow> entry_ok (msg @ xs) ?key (length msg)"
      unfolding entry_ok_def using Cons.prems(2) k(1) r by (intro conjI exI [of _ "l # ls"] exI [of _ z] exI [of _ k] exI [of _ "length msg + length xs"]) auto
    show ?thesis
      using k(1,3) r new note_cases all by (intro exI [of _ k]) fastforce
  qed
qed

end
