(* ===== verification/DNS_Roundtrip.thy ===== *)
theory DNS_Roundtrip
  imports DNS_Names
begin

text \<open>
  Packing against unpacking, built up from integers to whole messages, and the builder against \<^verbatim>\<open>Pack\<close>.
\<close>

section \<open>Packing and unpacking that agree\<close>

definition tab_ok :: "bytes \<Rightarrow> compression \<Rightarrow> bool" where
  "tab_ok msg cmp \<longleftrightarrow> (\<forall>key off. lookup cmp key = Some off \<longrightarrow> entry_ok msg key off)"

lemma tab_ok_append: "tab_ok msg cmp \<Longrightarrow> tab_ok (msg @ xs) cmp"
  by (auto simp: tab_ok_def intro: entry_ok_append)

lemma tab_ok_empty: "tab_ok msg None" "tab_ok msg (Some Map.empty)"
  by (simp_all add: tab_ok_def lookup_def)

text \<open>
  \<open>f\<close> appends at most \<open>N\<close> octets, which depend only on the offset and on the compression table, and yields a
  value that \<open>g\<close> reads back from them.  The octets are in the message if they fit in its array.
\<close>

definition stored :: "packer \<Rightarrow> packer \<Rightarrow> bytes \<Rightarrow> bool" where
  "stored p p' xs \<longleftrightarrow>
     length (pk_msg p') = length (pk_msg p) + length xs \<and> (length (pk_msg p) + length xs \<le> pk_cap p \<longrightarrow> appended p p' xs)"

definition sent ::
  "nat \<Rightarrow> (packer \<Rightarrow> compression \<Rightarrow> (packer \<times> 'a) packed) \<Rightarrow> (bytes \<Rightarrow> nat \<Rightarrow> dns_error + 'a \<times> nat) \<Rightarrow> ('a \<Rightarrow> bool) \<Rightarrow>
     nat \<Rightarrow> compression \<Rightarrow> bytes \<Rightarrow> compression \<Rightarrow> 'a \<Rightarrow> bool" where
  "sent N f g P off cmp xs cmp' v \<longleftrightarrow>
     P v \<and> length xs \<le> N \<and>
     (\<forall>p. length (pk_msg p) = off \<longrightarrow> (\<exists>p'. f p cmp = (Inr (p', v), cmp') \<and> stored p p' xs)) \<and>
     (\<forall>msg. length msg = off \<and> tab_ok msg cmp \<longrightarrow>
        tab_ok (msg @ xs) cmp' \<and> (\<forall>post. g (msg @ xs @ post) off = Inr (v, off + length xs)))"

definition sends ::
  "nat \<Rightarrow> (packer \<Rightarrow> compression \<Rightarrow> (packer \<times> 'a) packed) \<Rightarrow> (bytes \<Rightarrow> nat \<Rightarrow> dns_error + 'a \<times> nat) \<Rightarrow> ('a \<Rightarrow> bool) \<Rightarrow> bool" where
  "sends N f g P \<longleftrightarrow> (\<forall>off cmp. \<exists>xs cmp' v. sent N f g P off cmp xs cmp' v)"

definition with_val :: "'a \<Rightarrow> (packer \<Rightarrow> compression \<Rightarrow> packer packed) \<Rightarrow> packer \<Rightarrow> compression \<Rightarrow> (packer \<times> 'a) packed" where
  "with_val v f p cmp = pack_bind (f p cmp) (\<lambda>p cmp. (Inr (p, v), cmp))"

lemma pack_bind_simps [simp]: "pack_bind (Inl e, cmp) f = (Inl e, cmp)" "pack_bind (Inr x, cmp) f = f x cmp"
  by (simp_all add: pack_bind_def)

lemma pack_nest_simps [simp]: "pack_nest s (Inr x, cmp) = (Inr x, cmp)" "nest s (Inr x) = Inr x"
  by (simp_all add: pack_nest_def nest_def)

lemma stored_appended: "appended p p' xs \<Longrightarrow> stored p p' xs"
  by (simp add: stored_def appended_length)

lemma stored_trans: "stored p q xs \<Longrightarrow> stored q r ys \<Longrightarrow> stored p r (xs @ ys)"
  unfolding stored_def using appended_trans [of p q xs r ys] by (auto simp: appended_def)

lemma sentD:
  assumes "sent N f g P off cmp xs cmp' v"
  shows "P v" "length xs \<le> N" "length (pk_msg p) = off \<Longrightarrow> \<exists>p'. f p cmp = (Inr (p', v), cmp') \<and> stored p p' xs"
    "length msg = off \<Longrightarrow> tab_ok msg cmp \<Longrightarrow> tab_ok (msg @ xs) cmp'"
    "length msg = off \<Longrightarrow> tab_ok msg cmp \<Longrightarrow> g (msg @ xs @ post) off = Inr (v, off + length xs)"
  using assms by (simp_all add: sent_def)

lemma sent_bind:
  assumes "sent N f g P off cmp xs cmp1 v" "sent M (f' v) (g' v) Q (off + length xs) cmp1 ys cmp2 u"
  shows "sent (N + M) (\<lambda>p cmp. pack_bind (f p cmp) (\<lambda>(p, v) cmp. f' v p cmp)) (\<lambda>msg off. res_bind (g msg off) (\<lambda>(v, off). g' v msg off)) Q
    off cmp (xs @ ys) cmp2 u"
proof -
  note 1 = sentD [OF assms(1)] and 2 = sentD [OF assms(2)]
  have "\<exists>p'. pack_bind (f p cmp) (\<lambda>(p, v) cmp. f' v p cmp) = (Inr (p', u), cmp2) \<and> stored p p' (xs @ ys)"
    if p: "length (pk_msg p) = off" for p
  proof -
    obtain p1 where p1: "f p cmp = (Inr (p1, v), cmp1)" "stored p p1 xs"
      using 1(3) [OF p] by blast
    obtain p2 where "f' v p1 cmp1 = (Inr (p2, u), cmp2)" "stored p1 p2 ys"
      using 2(3) [of p1] p p1(2) by (auto simp: stored_def)
    with p1 stored_trans [OF p1(2)] show ?thesis by auto
  qed
  moreover have "tab_ok (msg @ xs @ ys) cmp2 \<and>
      (\<forall>post. res_bind (g (msg @ (xs @ ys) @ post) off) (\<lambda>(v, off). g' v (msg @ (xs @ ys) @ post) off) = Inr (u, off + length (xs @ ys)))"
    if m: "length msg = off" "tab_ok msg cmp" for msg
    using 2(4,5) [of "msg @ xs"] 1(4,5) [OF m] m(1) by (simp add: add.assoc)
  ultimately show ?thesis
    using 1(2) 2(1,2) by (simp add: sent_def)
qed

lemma sends_sent:
  assumes "sends N f g P"
  obtains xs cmp' v where "sent N f g P off cmp xs cmp' v"
  using assms unfolding sends_def by blast

lemma sends_bind:
  assumes "sends N f g P" "\<And>v. P v \<Longrightarrow> sends M (f' v) (g' v) Q"
  shows "sends (N + M) (\<lambda>p cmp. pack_bind (f p cmp) (\<lambda>(p, v) cmp. f' v p cmp)) (\<lambda>msg off. res_bind (g msg off) (\<lambda>(v, off). g' v msg off)) Q"
  unfolding sends_def
proof (intro allI)
  fix off cmp
  obtain xs cmp1 v where 1: "sent N f g P off cmp xs cmp1 v"
    using assms(1) unfolding sends_def by blast
  obtain ys cmp2 u where "sent M (f' v) (g' v) Q (off + length xs) cmp1 ys cmp2 u"
    using assms(2) [OF sentD(1) [OF 1]] unfolding sends_def by blast
  from sent_bind [where f' = f' and g' = g', OF 1 this] show "\<exists>xs cmp' v. sent (N + M) (\<lambda>p cmp. pack_bind (f p cmp) (\<lambda>(p, v) cmp. f' v p cmp))
      (\<lambda>msg off. res_bind (g msg off) (\<lambda>(v, off). g' v msg off)) Q off cmp xs cmp' v"
    by blast
qed

lemma sent_nest_pack: "sent N f g P off cmp xs cmp' v \<Longrightarrow> sent N (\<lambda>p cmp. pack_nest s (f p cmp)) g P off cmp xs cmp' v"
  unfolding sent_def by fastforce

lemma sends_nest_pack: "sends N f g P \<Longrightarrow> sends N (\<lambda>p cmp. pack_nest s (f p cmp)) g P"
  unfolding sends_def using sent_nest_pack [of N f g P] by (intro allI) blast

lemma sends_return: "P v \<Longrightarrow> sends 0 (\<lambda>p cmp. (Inr (p, v), cmp)) (\<lambda>msg off. Inr (v, off)) P"
  unfolding sends_def sent_def by (auto intro!: exI [of _ "[]"] exI [of _ v] simp: stored_appended appended_refl)

lemma sends_mono:
  assumes "sends N f g P" "N \<le> M" "\<And>v. P v \<Longrightarrow> Q v"
  shows "sends M f g Q"
proof -
  have "sent M f g Q off cmp xs cmp' v" if "sent N f g P off cmp xs cmp' v" for off cmp xs cmp' v
    using that assms(2,3) by (auto simp: sent_def)
  with assms(1) show ?thesis unfolding sends_def by meson
qed

text \<open>A packer whose octets do not depend on anything.\<close>

lemma sends_plain:
  assumes "\<And>p. appended p (f p) xs" "\<And>msg post. g (msg @ xs @ post) (length msg) = Inr (v, length msg + length xs)" "length xs = n"
  shows "sends n (with_val v (\<lambda>p cmp. (Inr (f p), cmp))) g (\<lambda>u. u = v)"
proof -
  have "sent n (with_val v (\<lambda>p cmp. (Inr (f p), cmp))) g (\<lambda>u. u = v) off cmp xs cmp v" for off cmp
    using assms by (auto simp: sent_def with_val_def stored_appended tab_ok_append)
  then show ?thesis unfolding sends_def by blast
qed

section \<open>Integers, octets and texts\<close>

lemma octets_u16: "push_bit 8 (ucast (ucast (drop_bit 8 v) :: u8)) OR ucast (ucast v :: u8) = (v :: u16)"
  by (rule bit_word_eqI) (auto simp: bit_simps)

lemma octets_u32:
  "push_bit 24 (ucast (ucast (drop_bit 24 v) :: u8)) OR push_bit 16 (ucast (ucast (drop_bit 16 v) :: u8)) OR
     push_bit 8 (ucast (ucast (drop_bit 8 v) :: u8)) OR ucast (ucast v :: u8) = (v :: u32)"
  (is "?w = v")
proof (rule bit_word_eqI)
  fix n assume n: "n < LENGTH(32)"
  consider "n < 8" | "8 \<le> n" "n < 16" | "16 \<le> n" "n < 24" | "24 \<le> n"
    by linarith
  then show "bit ?w n = bit v n"
    using n by cases (auto simp: bit_simps)
qed

lemma unpackUint16_octets:
  "unpackUint16 (msg @ [ucast (drop_bit 8 v), ucast v] @ post) (length msg) = Inr (v, length msg + 2)"
  by (simp add: unpackUint16_def dns_index_def nth_append go_defs octets_u16)

lemma sends_u16: "sends 2 (with_val v (\<lambda>p cmp. (Inr (packUint16 grow v p), cmp))) unpackUint16 (\<lambda>u. u = v)"
  by (rule sends_plain [where xs = "[ucast (drop_bit 8 v), ucast v]"])
    (simp_all add: packUint16_def unpackUint16_def dns_index_def nth_append go_defs octets_u16)

lemma sends_u32: "sends 4 (with_val v (\<lambda>p cmp. (Inr (packUint32 grow v p), cmp))) unpackUint32 (\<lambda>u. u = v)"
  by (rule sends_plain [where xs = "[ucast (drop_bit 24 v), ucast (drop_bit 16 v), ucast (drop_bit 8 v), ucast v]"])
    (simp_all add: packUint32_def unpackUint32_def dns_index_def nth_append go_defs octets_u32)

lemma sends_bytes:
  "sends (length a) (with_val a (\<lambda>p cmp. (Inr (packBytes grow a p), cmp))) (\<lambda>msg off. unpackBytes msg off (length a)) (\<lambda>u. u = a)"
  by (rule sends_plain [where xs = a]) (simp_all add: packBytes_def unpackBytes_def dns_slice_def)

section \<open>Names, questions and headers\<close>

text \<open>Names that survive: at most ten labels, since a pointer may be followed once per label.\<close>

definition name_ok :: "dns_Name \<Rightarrow> bool" where
  "name_ok n \<longleftrightarrow> (\<exists>ls. n = name_of ls \<and> labels_ok ls \<and> length ls \<le> 10)"

lemma labels_wire_length: "labels_wire key ls off cmp = (xs, cmp') \<Longrightarrow> length xs \<le> length (dotted ls) + 2"
  by (induction key ls off cmp arbitrary: xs rule: labels_wire.induct) (fastforce simp: pointer_octets_def split: option.splits prod.splits)+

definition name_size :: "dns_Name \<Rightarrow> nat" where
  "name_size n = unat (name_Length n) + 2"

lemma name_size_bound: "name_size n \<le> 257"
  using unsigned_less [of "name_Length n", where 'a = nat] by (simp add: name_size_def)

lemma name_wire_size:
  assumes "labels_ok ls" "name_wire ls off cmp = (xs, cmp')"
  shows "length xs \<le> name_size (name_of ls)"
proof (cases "ls = []")
  case True
  with assms(2) show ?thesis by (auto simp: name_wire_def name_size_def)
next
  case False
  have "length (dotted ls) < 256"
    using assms(1) by (simp add: labels_ok_def nameLen_def)
  then have "name_size (name_of ls) = length (dotted ls) + 2"
    using False by (simp add: name_size_def name_of_def Let_def unsigned_of_nat take_bit_nat_eq_self)
  with labels_wire_length assms(2) show ?thesis by (fastforce simp: name_wire_def)
qed

lemma sends_name_gen:
  assumes "name_ok n" "tab_fun = (\<lambda>cmp. cmp) \<or> tab_fun = (\<lambda>cmp. None)"
  shows "sends (name_size n) (with_val n (\<lambda>p cmp. case Name_pack grow n p (tab_fun cmp) of (r, cmp') \<Rightarrow> (r, if tab_fun cmp = None then cmp else cmp')))
    Name_unpack (\<lambda>u. u = n)"
  unfolding sends_def
proof (intro allI)
  fix off cmp
  obtain ls where ls: "n = name_of ls" "labels_ok ls" "length ls \<le> 10"
    using assms(1) by (auto simp: name_ok_def)
  obtain xs cmp1 where w: "name_wire ls off (tab_fun cmp) = (xs, cmp1)" by fastforce
  define cmp' where "cmp' = (if tab_fun cmp = None then cmp else cmp1)"
  have size: "length xs \<le> name_size n"
    using name_wire_size [OF ls(2) w] ls(1) by simp
  have pack: "\<exists>p'. Name_pack grow n p (tab_fun cmp) = (Inr p', cmp1) \<and> appended p p' xs" if "length (pk_msg p) = off" for p
    using Name_pack_wire [OF ls(2), of p "tab_fun cmp" xs cmp1] w that ls(1) by simp
  have read: "tab_ok (msg @ xs) cmp' \<and> (\<forall>post. Name_unpack (msg @ xs @ post) off = Inr (n, off + length xs))"
    if m: "length msg = off" "tab_ok msg cmp" for msg
  proof -
    have t: "tab_ok msg (tab_fun cmp)"
      using assms(2) m(2) tab_ok_empty by auto
    obtain k where k: "k \<le> length ls" "name_reads (msg @ xs) off ls k (off + length xs)" "tab_ok (msg @ xs) cmp1"
    proof (cases "ls = []")
      case True
      then have "xs = [0]" "cmp1 = tab_fun cmp"
        using w by (simp_all add: name_wire_def)
      with True that [of 0] name_reads_end [of off "msg @ [0]"] m t tab_ok_append show ?thesis by auto
    next
      case False
      let ?z = "nameLen - length (dotted ls)"
      have key: "name_Data (name_of ls) = dotted ls @ replicate ?z 0"
        using False by (simp add: name_of_def Let_def)
      from labels_wire_reads [of "tab_fun cmp" ls ?z msg xs cmp1] w key t ls(2) m(1) obtain k where "k \<le> length ls"
          "name_reads (msg @ xs) off ls k (off + length xs)"
          "\<forall>key w. lookup cmp1 key = Some w \<longrightarrow> lookup (tab_fun cmp) key = Some w \<or> entry_ok (msg @ xs) key w"
        by (auto simp: name_wire_def labels_ok_def tab_ok_def)
      with that t show ?thesis unfolding tab_ok_def by (metis entry_ok_append)
    qed
    have "Name_unpack (msg @ xs @ post) off = Inr (n, off + length xs)" for post
      using Name_unpack_name_reads [OF name_reads_append [OF k(2)], of post] k(1) ls by simp
    with k(3) m(2) tab_ok_append show ?thesis by (simp add: cmp'_def)
  qed
  have "sent (name_size n) (with_val n (\<lambda>p cmp. case Name_pack grow n p (tab_fun cmp) of (r, cmp') \<Rightarrow> (r, if tab_fun cmp = None then cmp else cmp')))
      Name_unpack (\<lambda>u. u = n) off cmp xs cmp' n"
    using size pack read by (fastforce simp: sent_def with_val_def cmp'_def intro: stored_appended)
  then show "\<exists>xs cmp' v. sent (name_size n) (with_val n (\<lambda>p cmp. case Name_pack grow n p (tab_fun cmp) of (r, cmp') \<Rightarrow>
      (r, if tab_fun cmp = None then cmp else cmp'))) Name_unpack (\<lambda>u. u = n) off cmp xs cmp' v"
    by blast
qed

lemma name_pack_loop_None: "snd (name_pack_loop grow n i start p None) = None"
proof (induction grow n i start p "None :: compression" rule: name_pack_loop.induct)
  case (1 grow n i start p)
  show ?case
    using 1 by (subst name_pack_loop.simps) (simp add: Let_def)
qed

lemma Name_pack_None: "snd (Name_pack grow n p None) = None"
  by (simp add: Name_pack_def name_pack_loop_None)

lemma sends_name:
  assumes "name_ok n"
  shows "sends (name_size n) (with_val n (Name_pack grow n)) Name_unpack (\<lambda>u. u = n)"
proof -
  have "(\<lambda>p cmp. case Name_pack grow n p cmp of (r, cmp') \<Rightarrow> (r, if cmp = None then cmp else cmp')) = Name_pack grow n"
    using Name_pack_None [of grow n] by (intro ext) (auto simp: split_beta prod_eq_iff)
  with sends_name_gen [OF assms, of "\<lambda>cmp. cmp" grow] show ?thesis by simp
qed

lemma sends_name_uncompressed:
  "name_ok n \<Longrightarrow> sends (name_size n) (with_val n (\<lambda>p cmp. (fst (Name_pack grow n p None), cmp))) Name_unpack (\<lambda>u. u = n)"
  using sends_name_gen [of n "\<lambda>cmp. None" grow] by (simp add: split_beta)

text \<open>One after the other.\<close>

lemma sends_then:
  assumes "sends N (with_val v f) g (\<lambda>x. x = v)" "sends M (with_val u f') (g' v) Q"
  shows "sends (N + M) (with_val u (\<lambda>p cmp. pack_bind (f p cmp) f')) (\<lambda>msg off. res_bind (g msg off) (\<lambda>(v, off). g' v msg off)) Q"
proof -
  have "with_val u (\<lambda>p cmp. pack_bind (f p cmp) f') = (\<lambda>p cmp. pack_bind (with_val v f p cmp) (\<lambda>(p, v) cmp. with_val u f' p cmp))"
    by (intro ext) (simp add: with_val_def pack_bind_def split: prod.split sum.split)
  with sends_bind [OF assms(1), where f' = "\<lambda>v. with_val u f'" and g' = g' and M = M and Q = Q] assms(2) show ?thesis by simp
qed

lemma sends_nest_read: "sends N f g P \<Longrightarrow> sends N f (\<lambda>msg off. nest t (g msg off)) P"
  unfolding sends_def sent_def by fastforce

lemma sends_nest_pack_val:
  assumes "sends N (with_val v f) g P"
  shows "sends N (with_val v (\<lambda>p cmp. pack_nest s (f p cmp))) g P"
proof -
  have "with_val v (\<lambda>p cmp. pack_nest s (f p cmp)) = (\<lambda>p cmp. pack_nest s (with_val v f p cmp))"
    by (intro ext) (simp add: with_val_def pack_nest_def nest_def pack_bind_def split: prod.split sum.split)
  with sends_nest_pack [OF assms] show ?thesis by simp
qed

lemma sends_nest_val:
  "sends N (with_val v f) g P \<Longrightarrow> sends N (with_val v (\<lambda>p cmp. pack_nest s (f p cmp))) (\<lambda>msg off. nest t (g msg off)) P"
  by (rule sends_nest_read [OF sends_nest_pack_val])

lemma sends_last:
  assumes "sends N (with_val v f) g (\<lambda>x. x = v)"
  shows "sends N (with_val (h v) f) (\<lambda>msg off. res_bind (g msg off) (\<lambda>(v, off). Inr (h v, off))) (\<lambda>x. x = h v)"
proof -
  have "with_val (h v) f = (\<lambda>p cmp. pack_bind (with_val v f p cmp) (\<lambda>(p, v) cmp. (Inr (p, h v), cmp)))"
    by (intro ext) (simp add: with_val_def pack_bind_def split: prod.split sum.split)
  then show ?thesis
    using sends_bind [OF assms, where f' = "\<lambda>v p cmp. (Inr (p, h v), cmp)" and g' = "\<lambda>v msg off. Inr (h v, off)" and M = 0]
      sends_return [of "\<lambda>x. x = h v" "h v"] by simp
qed

lemmas sends_type = sends_u16 [folded packType_def unpackType_def [abs_def]]
lemmas sends_class = sends_u16 [folded packClass_def unpackClass_def [abs_def]]

lemma sends_question:
  assumes "name_ok (q_Name q)"
  shows "sends (name_size (q_Name q) + 4) (with_val q (Question_pack grow q)) unpack_question (\<lambda>u. u = q)"
proof -
  have q: "\<lparr>q_Name = q_Name q, q_Type = q_Type q, q_Class = q_Class q\<rparr> = q"
    by simp
  have "sends (name_size (q_Name q) + (2 + 2)) (with_val q (\<lambda>p cmp. pack_bind (pack_nest ''Name'' (Name_pack grow (q_Name q) p cmp))
      (\<lambda>p cmp. pack_bind (Inr (packType grow (q_Type q) p), cmp) (\<lambda>p cmp. (Inr (packClass grow (q_Class q) p), cmp)))))
      unpack_question (\<lambda>u. u = q)"
    unfolding unpack_question_def [abs_def]
    apply (rule sends_then [OF sends_nest_val [OF sends_name [OF assms]]])
    apply (rule sends_then [OF sends_nest_read [OF sends_type]])
    using sends_last [OF sends_nest_read [where t = "''unpacking Question.Class''", OF sends_class [where v = "q_Class q" and grow = grow]], where h = "\<lambda>c. \<lparr>q_Name = q_Name q, q_Type = q_Type q, q_Class = c\<rparr>"]
    by (simp only: q)
  then show ?thesis
    by (simp add: Question_pack_def [abs_def])
qed

text \<open>The header of a resource up to its length.\<close>

definition pack_core :: "(nat \<Rightarrow> nat) \<Rightarrow> ResourceHeader \<Rightarrow> packer \<Rightarrow> compression \<Rightarrow> packer packed" where
  "pack_core grow h p cmp =
     pack_bind (pack_nest ''Name'' (Name_pack grow (rr_Name h) p cmp)) (\<lambda>p cmp.
       (Inr (packUint32 grow (rr_TTL h) (packClass grow (rr_Class h) (packType grow (rr_Type h) p))), cmp))"

definition unpack_core :: "bytes \<Rightarrow> nat \<Rightarrow> dns_error + (dns_Name \<times> dns_Type \<times> dns_Class \<times> u32) \<times> nat" where
  "unpack_core msg off =
     res_bind (nest ''Name'' (Name_unpack msg off)) (\<lambda>(name, off).
     res_bind (nest ''Type'' (unpackType msg off)) (\<lambda>(typ, off).
     res_bind (nest ''Class'' (unpackClass msg off)) (\<lambda>(class, off).
     res_bind (nest ''TTL'' (unpackUint32 msg off)) (\<lambda>(ttl, off). Inr ((name, typ, class, ttl), off)))))"

definition core_of :: "ResourceHeader \<Rightarrow> dns_Name \<times> dns_Type \<times> dns_Class \<times> u32" where
  "core_of h = (rr_Name h, rr_Type h, rr_Class h, rr_TTL h)"

lemma sends_core:
  assumes "name_ok (rr_Name h)"
  shows "sends (name_size (rr_Name h) + 8) (with_val (core_of h) (pack_core grow h)) unpack_core (\<lambda>u. u = core_of h)"
proof -
  have "sends (name_size (rr_Name h) + (2 + (2 + 4))) (with_val (core_of h) (\<lambda>p cmp. pack_bind (pack_nest ''Name'' (Name_pack grow (rr_Name h) p cmp))
      (\<lambda>p cmp. pack_bind (Inr (packType grow (rr_Type h) p), cmp) (\<lambda>p cmp. pack_bind (Inr (packClass grow (rr_Class h) p), cmp)
        (\<lambda>p cmp. (Inr (packUint32 grow (rr_TTL h) p), cmp))))))
      unpack_core (\<lambda>u. u = core_of h)"
    unfolding unpack_core_def [abs_def]
    apply (rule sends_then [OF sends_nest_val [OF sends_name [OF assms]]])
    apply (rule sends_then [OF sends_nest_read [OF sends_type]])
    apply (rule sends_then [OF sends_nest_read [OF sends_class]])
    using sends_last [OF sends_nest_read [where t = "''TTL''", OF sends_u32 [where v = "rr_TTL h" and grow = grow]], where h = "\<lambda>t. (rr_Name h, rr_Type h, rr_Class h, t)"]
    by (simp add: core_of_def)
  then show ?thesis
    by (simp add: pack_core_def [abs_def])
qed

lemma ResourceHeader_pack_core:
  "ResourceHeader_pack grow h p cmp =
     pack_bind (pack_core grow h p cmp) (\<lambda>p cmp.
       (Inr (packUint16 grow (rr_Length h) p, \<lparr>ls_array = pk_array (packUint16 grow (rr_Length h) p), ls_off = length (pk_msg p)\<rparr>), cmp))"
  by (simp add: ResourceHeader_pack_def pack_core_def pack_bind_def Let_def split: prod.split sum.split)

lemma ResourceHeader_unpack_core:
  "ResourceHeader_unpack msg off =
     res_bind (unpack_core msg off) (\<lambda>((name, typ, class, ttl), off).
     res_bind (nest ''Length'' (unpackUint16 msg off)) (\<lambda>(len, off).
       Inr (\<lparr>rr_Name = name, rr_Type = typ, rr_Class = class, rr_TTL = ttl, rr_Length = len\<rparr>, off)))"
  by (simp add: ResourceHeader_unpack_def unpack_core_def res_bind_def split: sum.split prod.split)

section \<open>Resource bodies\<close>

function text_wire :: "bytes \<Rightarrow> bytes" where
  "text_wire t = (if t = [] then [] else of_nat (min 255 (length t)) # take 255 t @ text_wire (drop 255 t))"
  by pat_completeness auto
termination
  by (relation "measure length") auto

declare text_wire.simps [simp del]

lemma packText_wire: "appended p (packText grow t p) (text_wire t)"
proof (induction grow t p rule: packText.induct)
  case (1 grow t p)
  show ?case
  proof (cases "t = []")
    case True
    then show ?thesis by (simp add: packText.simps text_wire.simps appended_refl)
  next
    case False
    let ?l = "if length t > 255 then 255 else length t"
    let ?p1 = "go_append grow [of_nat ?l] p"
    have "appended (go_append grow (take ?l t) ?p1) (packText grow (drop ?l t) (go_append grow (take ?l t) ?p1)) (text_wire (drop ?l t))"
      by (rule "1.IH" [OF False refl refl refl])
    from appended_trans [OF appended_trans [OF appended_append appended_append] this] show ?thesis
      using False by (cases "255 < length t") (simp_all add: packText.simps [of grow t] text_wire.simps [of t] Let_def min_def)
  qed
qed

lemma unpackText_octets:
  assumes "length t < 256"
  shows "unpackText (msg @ of_nat (length t) # t @ post) (length msg) = Inr (t, length msg + 1 + length t)"
proof -
  have "unat (of_nat (length t) :: u8) = length t"
    using assms by (simp add: unsigned_of_nat take_bit_nat_eq_self)
  then show ?thesis
    by (simp add: unpackText_def dns_index_def dns_slice_def Let_def nth_append)
qed

lemma unpack_texts_wire:
  assumes "unat len = unat n + length (text_wire t)"
  shows "unpack_texts (msg @ text_wire t @ post) (length msg) len n tx = Inr (tx @ t)"
  using assms
proof (induction t arbitrary: msg n tx rule: text_wire.induct)
  case (1 t)
  show ?case
  proof (cases "t = []")
    case True
    with "1.prems" show ?thesis
      by (simp add: unpack_texts.simps text_wire.simps word_less_nat_alt)
  next
    case False
    let ?t = "take 255 t" and ?rest = "drop 255 t"
    let ?msg = "msg @ of_nat (length ?t) # ?t" and ?k = "of_nat (length ?t) + 1 :: u16"
    have w: "text_wire t = of_nat (length ?t) # ?t @ text_wire ?rest"
      using False by (simp add: text_wire.simps [of t] min.commute)
    have "unat (of_nat (length ?t + 1) :: u16) = length ?t + 1"
      by (intro unat_u16_of_nat) simp
    then have k: "unat ?k = length ?t + 1"
      by (simp add: add.commute)
    have len: "unat len = unat n + (length ?t + 1) + length (text_wire ?rest)"
      using "1.prems" w by simp
    have "unat n + unat ?k < 2 ^ 16"
      using len k unsigned_less [of len, where 'a = nat] by simp
    then have n: "unat (n + ?k) = unat n + (length ?t + 1)"
      using k by (simp only: unat_word_ariths(1)) simp
    have "unat (len - n) = unat len - unat n"
      using len by (intro unat_sub) (simp add: word_le_nat_alt)
    then have "\<not> len - n < ?k" "n < len"
      using len k by (simp_all only: word_less_nat_alt)
    moreover have "unpackText (msg @ text_wire t @ post) (length msg) = Inr (?t, length msg + 1 + length ?t)"
      using unpackText_octets [of ?t msg "text_wire ?rest @ post"] w by simp
    ultimately have "unpack_texts (msg @ text_wire t @ post) (length msg) len n tx =
        unpack_texts (msg @ text_wire t @ post) (length ?msg) len (n + ?k) (tx @ ?t)"
      by (subst unpack_texts.simps) (simp del: length_take)
    also have "\<dots> = unpack_texts (?msg @ text_wire ?rest @ post) (length ?msg) len (n + ?k) (tx @ ?t)"
      using w by simp
    also have "\<dots> = Inr ((tx @ ?t) @ ?rest)"
      using "1.IH" [OF False, of "n + ?k" ?msg "tx @ ?t"] len n by simp
    finally show ?thesis by simp
  qed
qed

definition rdata_ok :: "ResourceBody \<Rightarrow> bool" where
  "rdata_ok b \<longleftrightarrow>
     (case b of CNAMEResource n \<Rightarrow> name_ok n | MXResource _ n \<Rightarrow> name_ok n | NSResource n \<Rightarrow> name_ok n | PTRResource n \<Rightarrow> name_ok n
      | SOAResource ns mbox _ _ _ _ _ \<Rightarrow> name_ok ns \<and> name_ok mbox | TXTResource t \<Rightarrow> length (text_wire t) \<le> 0xffff
      | SRVResource _ _ _ n \<Rightarrow> name_ok n | AResource a \<Rightarrow> length a = 4 | AAAAResource a \<Rightarrow> length a = 16)"

fun body_size :: "ResourceBody \<Rightarrow> nat" where
  "body_size (CNAMEResource n) = name_size n"
| "body_size (MXResource pref n) = 2 + name_size n"
| "body_size (NSResource n) = name_size n"
| "body_size (PTRResource n) = name_size n"
| "body_size (SOAResource ns mbox se rf rt ex mi) = name_size ns + name_size mbox + 20"
| "body_size (TXTResource t) = length (text_wire t)"
| "body_size (SRVResource pr we po n) = 6 + name_size n"
| "body_size (AResource a) = length a"
| "body_size (AAAAResource a) = length a"

lemma body_size_bound: "rdata_ok b \<Longrightarrow> body_size b \<le> 0xffff"
proof (cases b)
  case (SOAResource ns mbox)
  then show ?thesis using name_size_bound [of ns] name_size_bound [of mbox] by simp
qed (auto simp: rdata_ok_def intro: order_trans [OF name_size_bound] order_trans [OF add_left_mono [OF name_size_bound]])

text \<open>What a body is packed as is read back under a header with its type and length.\<close>

definition body_sent :: "(nat \<Rightarrow> nat) \<Rightarrow> ResourceBody \<Rightarrow> nat \<Rightarrow> compression \<Rightarrow> bytes \<Rightarrow> compression \<Rightarrow> bool" where
  "body_sent grow b off cmp xs cmp' \<longleftrightarrow>
     length xs \<le> body_size b \<and>
     (\<forall>p. length (pk_msg p) = off \<longrightarrow> (\<exists>p'. ResourceBody_pack grow b p cmp = (Inr p', cmp') \<and> stored p p' xs)) \<and>
     (\<forall>msg. length msg = off \<and> tab_ok msg cmp \<longrightarrow> tab_ok (msg @ xs) cmp' \<and>
        (\<forall>post hdr. rr_Type hdr = realType b \<and> rr_Length hdr = of_nat (length xs) \<longrightarrow> unpack_body (msg @ xs @ post) off hdr = Inr b))"

lemma body_sentD:
  assumes "body_sent grow b off cmp xs cmp'"
  shows "length xs \<le> body_size b" "length (pk_msg p) = off \<Longrightarrow> \<exists>p'. ResourceBody_pack grow b p cmp = (Inr p', cmp') \<and> stored p p' xs"
    "length msg = off \<Longrightarrow> tab_ok msg cmp \<Longrightarrow> tab_ok (msg @ xs) cmp'"
    "length msg = off \<Longrightarrow> tab_ok msg cmp \<Longrightarrow> rr_Type hdr = realType b \<Longrightarrow> rr_Length hdr = of_nat (length xs) \<Longrightarrow>
       unpack_body (msg @ xs @ post) off hdr = Inr b"
  using assms unfolding body_sent_def by blast+

lemma body_sends:
  assumes "sends N (with_val b (ResourceBody_pack grow b)) g (\<lambda>u. u = b)" "N = body_size b"
    and "\<And>msg off hdr off'. rr_Type hdr = realType b \<Longrightarrow> g msg off = Inr (b, off') \<Longrightarrow> unpack_body msg off hdr = Inr b"
  shows "\<exists>xs cmp'. body_sent grow b off cmp xs cmp'"
proof -
  obtain xs cmp' v where s: "sent N (with_val b (ResourceBody_pack grow b)) g (\<lambda>u. u = b) off cmp xs cmp' v"
    using assms(1) unfolding sends_def by blast
  have "with_val b (ResourceBody_pack grow b) p cmp = (Inr (p', b), cmp') \<Longrightarrow> ResourceBody_pack grow b p cmp = (Inr p', cmp')" for p p'
    by (auto simp: with_val_def pack_bind_def split: prod.splits sum.splits)
  moreover have "v = b" "length xs \<le> body_size b"
    using sentD(1,2) [OF s] assms(2) by simp_all
  moreover have "unpack_body (msg @ xs @ post) off hdr = Inr b"
    if "length msg = off" "tab_ok msg cmp" "rr_Type hdr = realType b" for msg post hdr
    using assms(3) [OF that(3)] sentD(5) [OF s that(1,2)] \<open>v = b\<close> by blast
  ultimately have "body_sent grow b off cmp xs cmp'"
    using sentD(3,4) [OF s] unfolding body_sent_def by blast
  then show ?thesis by blast
qed


lemma body_name:
  assumes "name_ok n" "ResourceBody_pack grow (C n) = Name_pack grow n" "body_size (C n) = name_size n"
    and "\<And>msg off hdr. rr_Type hdr = realType (C n) \<Longrightarrow> unpack_body msg off hdr = nest s (res_bind (Name_unpack msg off) (\<lambda>(n, _). Inr (C n)))"
  shows "\<exists>xs cmp'. body_sent grow (C n) off cmp xs cmp'"
proof (rule body_sends)
  show "sends (name_size n) (with_val (C n) (ResourceBody_pack grow (C n))) (\<lambda>msg off. res_bind (Name_unpack msg off) (\<lambda>(n, off). Inr (C n, off))) (\<lambda>u. u = C n)"
    unfolding assms(2) by (rule sends_last [OF sends_name [OF assms(1)]])
qed (auto simp: assms(3,4))

lemma body_bytes:
  assumes "length a = k" "body_size (C a) = length a" "\<And>p cmp. ResourceBody_pack grow (C a) p cmp = (Inr (packBytes grow a p), cmp)"
    and "\<And>msg off hdr. rr_Type hdr = realType (C a) \<Longrightarrow> unpack_body msg off hdr = nest s (res_bind (unpackBytes msg off k) (\<lambda>(n, _). Inr (C n)))"
  shows "\<exists>xs cmp'. body_sent grow (C a) off cmp xs cmp'"
proof (rule body_sends)
  show "sends (length a) (with_val (C a) (ResourceBody_pack grow (C a))) (\<lambda>msg off. res_bind (unpackBytes msg off k) (\<lambda>(n, off). Inr (C n, off))) (\<lambda>u. u = C a)"
    using sends_last [OF sends_bytes [of a grow], of C] assms(1,3) by (simp add: with_val_def [abs_def])
qed (auto simp: assms)

lemma body_text:
  assumes "length (text_wire t) \<le> 0xffff"
  shows "body_sent grow (TXTResource t) off cmp (text_wire t) cmp"
proof -
  have "unat (of_nat (length (text_wire t)) :: u16) = length (text_wire t)"
    using assms by (intro unat_u16_of_nat) simp
  then have "unpack_body (msg @ text_wire t @ post) (length msg) hdr = Inr (TXTResource t)"
    if "rr_Type hdr = TypeTXT" "rr_Length hdr = of_nat (length (text_wire t))" for msg post hdr
    using that unpack_texts_wire [of "rr_Length hdr" 0 t msg post "[]"] by (simp add: unpack_body_def unpackTXTResource_def go_defs)
  with assms stored_appended [OF packText_wire] tab_ok_append show ?thesis
    by (auto simp: body_sent_def)
qed

lemma body_mx:
  assumes "name_ok n"
  shows "\<exists>xs cmp'. body_sent grow (MXResource pref n) off cmp xs cmp'"
proof (rule body_sends)
  have "sends (2 + name_size n) (with_val (MXResource pref n) (\<lambda>p cmp. pack_bind (Inr (packUint16 grow pref p), cmp)
      (\<lambda>p cmp. pack_nest ''MXResource.MX'' (Name_pack grow n p cmp))))
      (\<lambda>msg off. res_bind (unpackUint16 msg off) (\<lambda>(v, off). res_bind (nest ''MX'' (Name_unpack msg off)) (\<lambda>(n, off). Inr (MXResource v n, off))))
      (\<lambda>u. u = MXResource pref n)"
    by (rule sends_then [OF sends_u16], rule sends_last [OF sends_nest_val [OF sends_name [OF assms]]])
  then show "sends (2 + name_size n) (with_val (MXResource pref n) (ResourceBody_pack grow (MXResource pref n)))
      (\<lambda>msg off. res_bind (unpackUint16 msg off) (\<lambda>(v, off). res_bind (nest ''MX'' (Name_unpack msg off)) (\<lambda>(n, off). Inr (MXResource v n, off))))
      (\<lambda>u. u = MXResource pref n)"
    by (simp add: MX_pack_def with_val_def [abs_def])
qed (auto simp: unpack_body_def unpackMXResource_def go_defs)

lemma body_srv:
  assumes "name_ok n"
  shows "\<exists>xs cmp'. body_sent grow (SRVResource pr we po n) off cmp xs cmp'"
proof (rule body_sends)
  let ?b = "SRVResource pr we po n"
  let ?g = "\<lambda>msg off. res_bind (unpackUint16 msg off) (\<lambda>(pr, off). res_bind (unpackUint16 msg off) (\<lambda>(we, off).
    res_bind (unpackUint16 msg off) (\<lambda>(po, off). res_bind (nest ''Target'' (Name_unpack msg off)) (\<lambda>(n, off). Inr (SRVResource pr we po n, off)))))"
  have "sends (2 + (2 + (2 + name_size n))) (with_val ?b (\<lambda>p cmp. pack_bind (Inr (packUint16 grow pr p), cmp)
      (\<lambda>p cmp. pack_bind (Inr (packUint16 grow we p), cmp) (\<lambda>p cmp. pack_bind (Inr (packUint16 grow po p), cmp)
      (\<lambda>p cmp. pack_nest ''SRVResource.Target'' (fst (Name_pack grow n p None), cmp)))))) ?g (\<lambda>u. u = ?b)"
    by (rule sends_then [OF sends_u16], rule sends_then [OF sends_u16], rule sends_then [OF sends_u16],
        rule sends_last [OF sends_nest_val [OF sends_name_uncompressed [OF assms]]])
  then show "sends (2 + (2 + (2 + name_size n))) (with_val ?b (ResourceBody_pack grow ?b)) ?g (\<lambda>u. u = ?b)"
    by (simp add: SRV_pack_def with_val_def [abs_def] pack_nest_def)
qed (auto simp: unpack_body_def unpackSRVResource_def go_defs)

lemma body_soa:
  assumes "name_ok ns" "name_ok mbox"
  shows "\<exists>xs cmp'. body_sent grow (SOAResource ns mbox se rf rt ex mi) off cmp xs cmp'"
proof (rule body_sends)
  let ?b = "SOAResource ns mbox se rf rt ex mi"
  let ?g = "\<lambda>msg off. res_bind (nest ''NS'' (Name_unpack msg off)) (\<lambda>(ns, off). res_bind (nest ''MBox'' (Name_unpack msg off)) (\<lambda>(mbox, off).
    res_bind (unpackUint32 msg off) (\<lambda>(se, off). res_bind (unpackUint32 msg off) (\<lambda>(rf, off). res_bind (unpackUint32 msg off) (\<lambda>(rt, off).
    res_bind (unpackUint32 msg off) (\<lambda>(ex, off). res_bind (unpackUint32 msg off) (\<lambda>(mi, off).
      Inr (SOAResource ns mbox se rf rt ex mi, off))))))))"
  have "sends (name_size ns + (name_size mbox + (4 + (4 + (4 + (4 + 4)))))) (with_val ?b (\<lambda>p cmp.
      pack_bind (pack_nest ''SOAResource.NS'' (Name_pack grow ns p cmp)) (\<lambda>p cmp.
      pack_bind (pack_nest ''SOAResource.MBox'' (Name_pack grow mbox p cmp)) (\<lambda>p cmp.
      pack_bind (Inr (packUint32 grow se p), cmp) (\<lambda>p cmp. pack_bind (Inr (packUint32 grow rf p), cmp) (\<lambda>p cmp.
      pack_bind (Inr (packUint32 grow rt p), cmp) (\<lambda>p cmp. pack_bind (Inr (packUint32 grow ex p), cmp) (\<lambda>p cmp.
        (Inr (packUint32 grow mi p), cmp))))))))) ?g (\<lambda>u. u = ?b)"
    by (rule sends_then [OF sends_nest_val [OF sends_name [OF assms(1)]]], rule sends_then [OF sends_nest_val [OF sends_name [OF assms(2)]]],
        (rule sends_then [OF sends_u32])+, rule sends_last [OF sends_u32])
  then show "sends (name_size ns + (name_size mbox + (4 + (4 + (4 + (4 + 4)))))) (with_val ?b (ResourceBody_pack grow ?b)) ?g (\<lambda>u. u = ?b)"
    by (simp add: SOA_pack_def with_val_def [abs_def])
qed (auto simp: unpack_body_def unpackSOAResource_def go_defs)

lemma body_sent_ex: "rdata_ok b \<Longrightarrow> \<exists>xs cmp'. body_sent grow b off cmp xs cmp'"
proof (cases b)
  case (CNAMEResource n)
  assume "rdata_ok b"
  with CNAMEResource show ?thesis
    by (auto simp: rdata_ok_def unpack_body_def unpackCNAMEResource_def go_defs intro!: ext body_name)
next
  case (NSResource n)
  assume "rdata_ok b"
  with NSResource show ?thesis
    by (auto simp: rdata_ok_def unpack_body_def unpackNSResource_def go_defs intro!: ext body_name)
next
  case (PTRResource n)
  assume "rdata_ok b"
  with PTRResource show ?thesis
    by (auto simp: rdata_ok_def unpack_body_def unpackPTRResource_def go_defs intro!: ext body_name)
next
  case (AResource a)
  assume "rdata_ok b"
  with AResource show ?thesis
    by (auto simp: rdata_ok_def unpack_body_def unpackAResource_def go_defs intro!: body_bytes [where k = 4])
next
  case (AAAAResource a)
  assume "rdata_ok b"
  with AAAAResource show ?thesis
    by (auto simp: rdata_ok_def unpack_body_def unpackAAAAResource_def go_defs intro!: body_bytes [where k = 16])
next
  case (TXTResource t)
  assume "rdata_ok b"
  with TXTResource body_text [of t grow off cmp] show ?thesis by (auto simp: rdata_ok_def)
qed (auto simp: rdata_ok_def intro: body_mx body_srv body_soa)

section \<open>Resources\<close>

definition resource_ok :: "Resource \<Rightarrow> bool" where
  "resource_ok r \<longleftrightarrow> name_ok (rr_Name (rs_Header r)) \<and> (case rs_Body r of None \<Rightarrow> False | Some b \<Rightarrow> rdata_ok b)"

text \<open>Packing fills in the type and the length.\<close>

definition filled :: "Resource \<Rightarrow> Resource \<Rightarrow> bool" where
  "filled r r' \<longleftrightarrow>
     (\<exists>b len. rs_Body r = Some b \<and> r' = r\<lparr>rs_Header := (rs_Header r)\<lparr>rr_Type := realType b, rr_Length := len\<rparr>\<rparr>)"

definition resource_size :: "Resource \<Rightarrow> nat" where
  "resource_size r = name_size (rr_Name (rs_Header r)) + 10 + (case rs_Body r of None \<Rightarrow> 0 | Some b \<Rightarrow> body_size b)"

definition unpack_resource :: "bytes \<Rightarrow> nat \<Rightarrow> dns_error + Resource \<times> nat" where
  "unpack_resource msg off =
     res_bind (ResourceHeader_unpack msg off) (\<lambda>(h, off).
     res_bind (unpackResourceBody msg off h) (\<lambda>(b, off). Inr (\<lparr>rs_Header = h, rs_Body = Some b\<rparr>, off)))"

definition rdlength_octets :: "bytes \<Rightarrow> bytes" where
  "rdlength_octets xs = [ucast (drop_bit 8 (of_nat (length xs) :: u16)), ucast (of_nat (length xs) :: u16)]"

lemma with_val_Inr: "with_val v f p cmp = (Inr (p', v), cmp') \<Longrightarrow> f p cmp = (Inr p', cmp')"
  by (auto simp: with_val_def pack_bind_def split: prod.splits sum.splits)

lemma store_length_stored:
  assumes p1: "stored p p1 xs1" and p3: "stored (packUint16 grow v p1) p3 xs2"
    and sl: "sl = \<lparr>ls_array = pk_array (packUint16 grow v p1), ls_off = length (pk_msg p1)\<rparr>"
  shows "stored p (store_length sl (of_nat (length xs2)) p3) (xs1 @ rdlength_octets xs2 @ xs2)"
proof -
  let ?p2 = "packUint16 grow v p1"
  have p2: "appended p1 ?p2 [ucast (drop_bit 8 v), ucast v]"
    by (simp add: packUint16_def)
  show ?thesis
    using p1 p3 p2
    by (auto simp: stored_def appended_def store_length_def rdlength_octets_def sl list_update_append split: if_splits)
qed

lemma Resource_pack_step:
  assumes "rs_Body r = Some b" "h = (rs_Header r)\<lparr>rr_Type := realType b\<rparr>" "pack_core grow h p cmp = (Inr p1, cmp1)" "stored p p1 xs1"
    and "ResourceBody_pack grow b (packUint16 grow (rr_Length h) p1) cmp1 = (Inr p3, cmp2)" "stored (packUint16 grow (rr_Length h) p1) p3 xs2"
    and "length xs2 \<le> 0xffff"
  shows "\<exists>p'. Resource_pack grow r p cmp = (Inr (p', r\<lparr>rs_Header := h\<lparr>rr_Length := of_nat (length xs2)\<rparr>\<rparr>), cmp2) \<and>
    stored p p' (xs1 @ rdlength_octets xs2 @ xs2)"
proof -
  let ?p2 = "packUint16 grow (rr_Length h) p1"
  let ?sl = "\<lparr>ls_array = pk_array ?p2, ls_off = length (pk_msg p1)\<rparr>"
  have "ResourceHeader_pack grow h p cmp = (Inr (?p2, ?sl), cmp1)"
    using assms(3) by (simp add: ResourceHeader_pack_core)
  moreover have "fixLen h ?sl (length (pk_msg ?p2)) p3 = Inr (store_length ?sl (of_nat (length xs2)) p3, h\<lparr>rr_Length := of_nat (length xs2)\<rparr>)"
    using assms(6,7) by (simp add: fixLen_def stored_def Let_def)
  ultimately have "Resource_pack grow r p cmp =
      (Inr (store_length ?sl (of_nat (length xs2)) p3, r\<lparr>rs_Header := h\<lparr>rr_Length := of_nat (length xs2)\<rparr>\<rparr>), cmp2)"
    using assms(1,2,5) by (simp add: Resource_pack_def)
  with store_length_stored [OF assms(4,6) refl] show ?thesis by blast
qed

lemma sends_resource:
  assumes "resource_ok r"
  shows "sends (resource_size r) (Resource_pack grow r) unpack_resource (filled r)"
  unfolding sends_def
proof (intro allI)
  fix off cmp
  obtain b where b: "rs_Body r = Some b" "rdata_ok b"
    using assms by (auto simp: resource_ok_def split: option.splits)
  define h where "h = (rs_Header r)\<lparr>rr_Type := realType b\<rparr>"
  have "name_ok (rr_Name h)"
    using assms by (simp add: resource_ok_def h_def)
  then obtain xs1 cmp1 v where s: "sent (name_size (rr_Name h) + 8) (with_val (core_of h) (pack_core grow h)) unpack_core (\<lambda>u. u = core_of h) off cmp xs1 cmp1 v"
    using sends_core unfolding sends_def by blast
  note core = sentD [OF s]
  obtain xs2 cmp2 where body: "body_sent grow b (off + length xs1 + 2) cmp1 xs2 cmp2"
    using body_sent_ex [OF b(2)] by blast
  let ?len = "of_nat (length xs2) :: u16"
  let ?xs = "xs1 @ rdlength_octets xs2 @ xs2"
  let ?r = "r\<lparr>rs_Header := h\<lparr>rr_Length := ?len\<rparr>\<rparr>"
  have small: "length xs2 \<le> 0xffff"
    using body_sentD(1) [OF body] body_size_bound [OF b(2)] by simp
  then have len: "unat ?len = length xs2"
    by (intro unat_u16_of_nat) simp
  have pack: "\<exists>p'. Resource_pack grow r p cmp = (Inr (p', ?r), cmp2) \<and> stored p p' ?xs" if p: "length (pk_msg p) = off" for p
  proof -
    obtain p1 where p1: "pack_core grow h p cmp = (Inr p1, cmp1)" "stored p p1 xs1"
      using core(1) core(3) [OF p] by (auto dest: with_val_Inr)
    then have "length (pk_msg (packUint16 grow (rr_Length h) p1)) = off + length xs1 + 2"
      using p by (simp add: stored_def packUint16_def go_append_def Let_def)
    then obtain p3 where "ResourceBody_pack grow b (packUint16 grow (rr_Length h) p1) cmp1 = (Inr p3, cmp2)"
        "stored (packUint16 grow (rr_Length h) p1) p3 xs2"
      using body_sentD(2) [OF body] by blast
    then show ?thesis
      using Resource_pack_step [OF b(1) h_def p1] small by blast
  qed
  have read: "tab_ok (msg @ ?xs) cmp2 \<and> (\<forall>post. unpack_resource (msg @ ?xs @ post) off = Inr (?r, off + length ?xs))"
    if m: "length msg = off" "tab_ok msg cmp" for msg
  proof (intro conjI allI)
    let ?msg = "msg @ xs1 @ rdlength_octets xs2"
    have l: "length ?msg = off + length xs1 + 2"
      using m(1) by (simp add: rdlength_octets_def)
    have t: "tab_ok ?msg cmp1"
      using tab_ok_append [OF core(4) [OF m], of "rdlength_octets xs2"] by simp
    then show "tab_ok (msg @ ?xs) cmp2"
      using body_sentD(3) [OF body l] by simp
    fix post
    have "unpackUint16 (msg @ ?xs @ post) (off + length xs1) = Inr (?len, off + length xs1 + 2)"
      using unpackUint16_octets [of "msg @ xs1" ?len "xs2 @ post"] m(1) by (simp add: rdlength_octets_def)
    then have h: "ResourceHeader_unpack (msg @ ?xs @ post) off = Inr (h\<lparr>rr_Length := ?len\<rparr>, off + length xs1 + 2)"
      using core(1) core(5) [OF m, of "rdlength_octets xs2 @ xs2 @ post"] by (simp add: ResourceHeader_unpack_core core_of_def)
    have "unpack_body (?msg @ xs2 @ post) (off + length xs1 + 2) (h\<lparr>rr_Length := ?len\<rparr>) = Inr b"
      by (rule body_sentD(4) [OF body l t]) (simp_all add: h_def)
    then show "unpack_resource (msg @ ?xs @ post) off = Inr (?r, off + length ?xs)"
      using h len b(1) by (simp add: unpack_resource_def unpackResourceBody_def rdlength_octets_def)
  qed
  have "length ?xs \<le> resource_size r"
    using core(2) body_sentD(1) [OF body] b(1) by (simp add: resource_size_def rdlength_octets_def h_def)
  then have "sent (resource_size r) (Resource_pack grow r) unpack_resource (filled r) off cmp ?xs cmp2 ?r"
    using pack read b(1) unfolding sent_def by (auto simp: filled_def h_def)
  then show "\<exists>xs cmp' v. sent (resource_size r) (Resource_pack grow r) unpack_resource (filled r) off cmp xs cmp' v"
    by blast
qed

section \<open>Lists of records\<close>

fun read_n :: "(bytes \<Rightarrow> nat \<Rightarrow> dns_error + 'a \<times> nat) \<Rightarrow> nat \<Rightarrow> bytes \<Rightarrow> nat \<Rightarrow> dns_error + 'a list \<times> nat" where
  "read_n g 0 msg off = Inr ([], off)"
| "read_n g (Suc n) msg off =
     res_bind (g msg off) (\<lambda>(x, off). res_bind (read_n g n msg off) (\<lambda>(xs, off). Inr (x # xs, off)))"

lemma sends_map:
  assumes "sends N f g P" "\<And>v. P v \<Longrightarrow> Q (h v)"
  shows "sends N (\<lambda>p cmp. pack_bind (f p cmp) (\<lambda>(p, v) cmp. (Inr (p, h v), cmp)))
    (\<lambda>msg off. res_bind (g msg off) (\<lambda>(v, off). Inr (h v, off))) Q"
  using sends_bind [OF assms(1), where f' = "\<lambda>v p cmp. (Inr (p, h v), cmp)" and g' = "\<lambda>v msg off. Inr (h v, off)" and M = 0 and Q = Q]
    sends_return [of Q] assms(2) by simp

text \<open>Records that are packed one by one, and read one by one, are packed and read as a list.\<close>

fun pack_list :: "string \<Rightarrow> ('a \<Rightarrow> packer \<Rightarrow> compression \<Rightarrow> (packer \<times> 'b) packed) \<Rightarrow> 'a list \<Rightarrow> packer \<Rightarrow> compression \<Rightarrow> (packer \<times> 'b list) packed" where
  "pack_list s f [] p cmp = (Inr (p, []), cmp)"
| "pack_list s f (r # rs) p cmp =
     pack_bind (pack_nest s (f r p cmp)) (\<lambda>(p, r) cmp. pack_bind (pack_list s f rs p cmp) (\<lambda>(p, rs) cmp. (Inr (p, r # rs), cmp)))"

locale record_codec =
  fixes pack :: "'a \<Rightarrow> packer \<Rightarrow> compression \<Rightarrow> (packer \<times> 'b) packed"
    and unpack :: "bytes \<Rightarrow> nat \<Rightarrow> dns_error + 'b \<times> nat"
    and size_of :: "'a \<Rightarrow> nat"
    and sound :: "'a \<Rightarrow> bool"
    and same :: "'a \<Rightarrow> 'b \<Rightarrow> bool"
  assumes sends_record: "sound r \<Longrightarrow> sends (size_of r) (pack r) unpack (same r)"
begin

lemma sends_list:
  "list_all sound rs \<Longrightarrow> sends (sum_list (map size_of rs)) (pack_list s pack rs) (read_n unpack (length rs)) (list_all2 same rs)"
proof (induction rs)
  case Nil
  then show ?case
    using sends_return [of "\<lambda>v. v = []" "[]"] by simp
next
  case (Cons r rs)
  have "sends (size_of r + sum_list (map size_of rs)) (\<lambda>p cmp. pack_bind (pack_nest s (pack r p cmp)) (\<lambda>(p, r) cmp.
      pack_bind (pack_list s pack rs p cmp) (\<lambda>(p, rs) cmp. (Inr (p, r # rs), cmp))))
      (\<lambda>msg off. res_bind (unpack msg off) (\<lambda>(x, off). res_bind (read_n unpack (length rs) msg off) (\<lambda>(xs, off). Inr (x # xs, off))))
      (list_all2 same (r # rs))"
  proof (rule sends_bind)
    show "sends (size_of r) (\<lambda>p cmp. pack_nest s (pack r p cmp)) unpack (same r)"
      using sends_nest_pack [OF sends_record] Cons.prems by simp
    show "sends (sum_list (map size_of rs)) (\<lambda>p cmp. pack_bind (pack_list s pack rs p cmp) (\<lambda>(p, rs) cmp. (Inr (p, r' # rs), cmp)))
        (\<lambda>msg off. res_bind (read_n unpack (length rs) msg off) (\<lambda>(xs, off). Inr (r' # xs, off))) (list_all2 same (r # rs))"
      if "same r r'" for r'
      using that Cons by (intro sends_map [where P = "list_all2 same rs"]) auto
  qed
  then show ?case by simp
qed

end

definition question_size :: "Question \<Rightarrow> nat" where
  "question_size q = name_size (q_Name q) + 4"

lemmas sends_question_size = sends_question [folded question_size_def]

interpretation resource_codec: record_codec "Resource_pack grow" unpack_resource resource_size resource_ok filled for grow
  by unfold_locales (rule sends_resource)

interpretation question_codec: record_codec "\<lambda>q. with_val q (Question_pack grow q)" unpack_question question_size
  "\<lambda>q. name_ok (q_Name q)" "\<lambda>q u. u = q" for grow
  by unfold_locales (rule sends_question_size)

lemma sends_resources:
  assumes "list_all resource_ok rs"
  shows "sends (sum_list (map resource_size rs)) (pack_resources grow s rs) (read_n unpack_resource (length rs)) (list_all2 filled rs)"
proof -
  have "pack_resources grow s rs = pack_list s (Resource_pack grow) rs"
    by (induction rs) (simp_all add: fun_eq_iff)
  with resource_codec.sends_list [OF assms] show ?thesis by simp
qed

lemma sends_questions:
  assumes "list_all (\<lambda>q. name_ok (q_Name q)) qs"
  shows "sends (sum_list (map question_size qs)) (with_val qs (pack_questions grow qs)) (read_n unpack_question (length qs)) (\<lambda>u. u = qs)"
proof -
  have "with_val qs (pack_questions grow qs) = pack_list ''packing Question'' (\<lambda>q. with_val q (Question_pack grow q)) qs"
  proof (induction qs)
    case (Cons q qs)
    show ?case
      by (intro ext) (simp add: Cons.IH [symmetric], simp add: with_val_def pack_bind_def pack_nest_def nest_def split: prod.split sum.split)
  qed (simp add: fun_eq_iff with_val_def)
  moreover have "list_all2 (\<lambda>q u. u = q) qs = (\<lambda>u. u = qs)"
    by (auto simp: fun_eq_iff list_all2_conv_all_nth intro: nth_equalityI)
  ultimately show ?thesis
    using question_codec.sends_list [OF assms, of "''packing Question''" grow] by simp
qed

end
