(* ===== verification/DNS_Properties.thy ===== *)
theory DNS_Properties
  imports DNS_Roundtrip
begin

text \<open>
  Whole DNS messages: what \<^verbatim>\<open>Pack\<close> and the \<^verbatim>\<open>Builder\<close> produce, what \<^verbatim>\<open>Unpack\<close> makes of it, and where they fail.
\<close>

section \<open>The message header\<close>

lemma sends_wire_header:
  "sends 12 (with_val h (\<lambda>p cmp. (Inr (wire_header_pack grow h p), cmp))) wire_header_unpack (\<lambda>u. u = h)"
proof -
  have h: "\<lparr>wh_id = wh_id h, wh_bits = wh_bits h, wh_questions = wh_questions h, wh_answers = wh_answers h,
      wh_authorities = wh_authorities h, wh_additionals = wh_additionals h\<rparr> = h"
    by simp
  have "sends (2 + (2 + (2 + (2 + (2 + 2))))) (with_val h (\<lambda>p cmp.
      pack_bind (Inr (packUint16 grow (wh_id h) p), cmp) (\<lambda>p cmp. pack_bind (Inr (packUint16 grow (wh_bits h) p), cmp) (\<lambda>p cmp.
      pack_bind (Inr (packUint16 grow (wh_questions h) p), cmp) (\<lambda>p cmp. pack_bind (Inr (packUint16 grow (wh_answers h) p), cmp) (\<lambda>p cmp.
      pack_bind (Inr (packUint16 grow (wh_authorities h) p), cmp) (\<lambda>p cmp. (Inr (packUint16 grow (wh_additionals h) p), cmp))))))))
      wire_header_unpack (\<lambda>u. u = h)"
    unfolding wire_header_unpack_def [abs_def]
    by (rule sends_then [OF sends_nest_read [OF sends_u16]])+
      (use sends_last [OF sends_nest_read [where t = "''additionals''", OF sends_u16 [where v = "wh_additionals h" and grow = grow]],
        where h = "\<lambda>ad. \<lparr>wh_id = wh_id h, wh_bits = wh_bits h, wh_questions = wh_questions h, wh_answers = wh_answers h,
          wh_authorities = wh_authorities h, wh_additionals = ad\<rparr>"] in \<open>simp only: h\<close>)
  then show ?thesis
    by (simp add: wire_header_pack_def [abs_def])
qed

lemma small_code_bit:
  assumes "w < 16" "bit (w :: u16) n"
  shows "n < 4"
proof (rule ccontr)
  assume "\<not> n < 4"
  then have "(2 :: nat) ^ 4 \<le> 2 ^ n"
    by (intro power_increasing) simp_all
  then have "unat w < 2 ^ n"
    using assms(1) by (simp add: word_less_nat_alt)
  moreover have "bit (unat w) n"
    using assms(2) by (simp add: bit_unsigned_iff)
  ultimately show False
    by (simp add: bit_iff_odd)
qed

lemma header_masks:
  "(w :: u16) AND headerBitQR \<noteq> 0 \<longleftrightarrow> bit w 15" "w AND headerBitAA \<noteq> 0 \<longleftrightarrow> bit w 10" "w AND headerBitTC \<noteq> 0 \<longleftrightarrow> bit w 9"
  "w AND headerBitRD \<noteq> 0 \<longleftrightarrow> bit w 8" "w AND headerBitRA \<noteq> 0 \<longleftrightarrow> bit w 7"
  unfolding headerBitQR_def headerBitAA_def headerBitTC_def headerBitRD_def headerBitRA_def
  by (simp_all only: bit_iff_and_push_bit_not_eq_0)

lemma bit_or_if:
  "bit (or_if c headerBitQR v) n \<longleftrightarrow> c \<and> n = 15 \<or> bit v n" "bit (or_if c headerBitAA v) n \<longleftrightarrow> c \<and> n = 10 \<or> bit v n"
  "bit (or_if c headerBitTC v) n \<longleftrightarrow> c \<and> n = 9 \<or> bit v n" "bit (or_if c headerBitRD v) n \<longleftrightarrow> c \<and> n = 8 \<or> bit v n"
  "bit (or_if c headerBitRA v) n \<longleftrightarrow> c \<and> n = 7 \<or> bit v n"
  unfolding headerBitQR_def headerBitAA_def headerBitTC_def headerBitRD_def headerBitRA_def or_if_def
  by (cases c; simp only: if_True if_False bit_or_iff bit_push_bit_iff possible_bit_word bit_1_iff; auto)+

lemma and_low4: "(w :: u16) AND 0xF = take_bit 4 w"
  by (simp add: take_bit_eq_mask mask_eq_exp_minus_1)

lemma header_roundtrip:
  assumes "dh_OpCode hdr < 16" "dh_RCode hdr < 16" "wh_id h = fst (Header_pack hdr)" "wh_bits h = snd (Header_pack hdr)"
  shows "header_header h = hdr"
proof -
  let ?bits = "wh_bits h"
  have b: "bit ?bits n \<longleftrightarrow> dh_Response hdr \<and> n = 15 \<or> dh_Authoritative hdr \<and> n = 10 \<or> dh_Truncated hdr \<and> n = 9 \<or>
      dh_RecursionDesired hdr \<and> n = 8 \<or> dh_RecursionAvailable hdr \<and> n = 7 \<or>
      11 \<le> n \<and> n < 16 \<and> bit (dh_OpCode hdr) (n - 11) \<or> bit (dh_RCode hdr) n" for n
    using assms(4) by (simp add: Header_pack_def bit_or_if bit_or_iff bit_push_bit_iff conj_ac)
  note codes = small_code_bit [OF assms(1)] small_code_bit [OF assms(2)]
  have op: "drop_bit 11 ?bits AND 0xF = dh_OpCode hdr"
    by (rule bit_word_eqI) (auto simp: and_low4 bit_take_bit_iff bit_drop_bit_eq b dest: codes)
  have rc: "?bits AND 0xF = dh_RCode hdr"
    by (rule bit_word_eqI) (auto simp: and_low4 bit_take_bit_iff b dest: codes)
  have "\<not> bit (dh_RCode hdr) 15" "\<not> bit (dh_RCode hdr) 10" "\<not> bit (dh_RCode hdr) 9" "\<not> bit (dh_RCode hdr) 8" "\<not> bit (dh_RCode hdr) 7"
      "\<not> bit (dh_OpCode hdr) 4"
    using codes by fastforce+
  then show ?thesis
    using assms(3) op rc
    by (simp add: header_header_def header_masks [unfolded not_not] b Header_pack_def)
qed

section \<open>The parser over a section\<close>

lemma section_next:
  assumes "ps_section p = sec" "ps_index p < unat (header_count (ps_header p) sec)"
  shows "checkAdvance sec p = (None, p\<lparr>ps_resHeaderValid := False\<rparr>)"
  using assms by (simp add: checkAdvance_def)

lemma section_end:
  assumes "ps_section p = sec" "ps_index p = unat (header_count (ps_header p) sec)"
  shows "checkAdvance sec p = (Some ErrSectionDone, p\<lparr>ps_resHeaderValid := False, ps_index := 0, ps_section := sec + 1\<rparr>)"
  using assms by (simp add: checkAdvance_def)

lemma all_questions_read:
  assumes "read_n unpack_question n (ps_msg p) (ps_off p) = Inr (qs, off)" "ps_section p = sectionQuestions"
    and "ps_index p + n = unat (header_count (ps_header p) sectionQuestions)"
  shows "all_questions acc p =
    (Inr (acc @ qs), p\<lparr>ps_off := off, ps_index := 0, ps_section := sectionQuestions + 1, ps_resHeaderValid := False\<rparr>)"
  using assms
proof (induction n arbitrary: p acc qs)
  case 0
  then show ?case
    by (subst all_questions.simps) (simp add: parser_Question_def section_end)
next
  case (Suc n)
  obtain q o1 qs' where q: "unpack_question (ps_msg p) (ps_off p) = Inr (q, o1)"
      "read_n unpack_question n (ps_msg p) o1 = Inr (qs', off)" "qs = q # qs'"
    using Suc.prems(1) by auto
  let ?p = "p\<lparr>ps_resHeaderValid := False, ps_off := o1, ps_index := ps_index p + 1\<rparr>"
  have "parser_Question p = (Inr q, ?p)"
    using section_next [OF Suc.prems(2)] Suc.prems(3) q(1) by (simp add: parser_Question_def)
  then have "all_questions acc p = all_questions (acc @ [q]) ?p"
    by (subst all_questions.simps) simp
  also have "\<dots> = (Inr (acc @ qs), p\<lparr>ps_off := off, ps_index := 0, ps_section := sectionQuestions + 1, ps_resHeaderValid := False\<rparr>)"
    using Suc.IH [of ?p qs' "acc @ [q]"] Suc.prems(2,3) q(2,3) by simp
  finally show ?case .
qed

lemma parse_resource_read:
  assumes "unpack_resource (ps_msg p) (ps_off p) = Inr (r, off)" "ps_section p = sec" "\<not> ps_resHeaderValid p"
    and "ps_index p < unat (header_count (ps_header p) sec)"
  shows "parse_resource sec p =
    (Inr r, p\<lparr>ps_off := off, ps_index := ps_index p + 1, ps_resHeaderValid := False, ps_resHeader := rs_Header r\<rparr>)"
  using assms(1,3) section_next [OF assms(2,4)]
  by (auto simp: parse_resource_def resourceHeader_def unpack_resource_def)

lemma all_resources_read:
  assumes "read_n unpack_resource n (ps_msg p) (ps_off p) = Inr (rs, off)" "ps_section p = sec" "\<not> ps_resHeaderValid p"
    and "ps_index p + n = unat (header_count (ps_header p) sec)"
  shows "\<exists>h. all_resources sec acc p =
    (Inr (acc @ rs), p\<lparr>ps_off := off, ps_index := 0, ps_section := sec + 1, ps_resHeaderValid := False, ps_resHeader := h\<rparr>)"
  using assms
proof (induction n arbitrary: p acc rs)
  case 0
  then have "all_resources sec acc p = (Inr acc, p\<lparr>ps_resHeaderValid := False, ps_index := 0, ps_section := sec + 1\<rparr>)"
    by (subst all_resources.simps) (simp add: parse_resource_def resourceHeader_def section_end)
  with 0 show ?case
    by (intro exI [of _ "ps_resHeader p"]) simp
next
  case (Suc n)
  obtain r o1 rs' where r: "unpack_resource (ps_msg p) (ps_off p) = Inr (r, o1)"
      "read_n unpack_resource n (ps_msg p) o1 = Inr (rs', off)" "rs = r # rs'"
    using Suc.prems(1) by auto
  let ?p = "p\<lparr>ps_off := o1, ps_index := ps_index p + 1, ps_resHeaderValid := False, ps_resHeader := rs_Header r\<rparr>"
  have "parse_resource sec p = (Inr r, ?p)"
    using parse_resource_read [OF r(1) Suc.prems(2,3)] Suc.prems(4) by simp
  then have "all_resources sec acc p = all_resources sec (acc @ [r]) ?p"
    by (subst all_resources.simps) simp
  then show ?case
    using Suc.IH [of ?p rs' "acc @ [r]"] Suc.prems r(2,3) by simp
qed

lemma Unpack_read:
  assumes "wire_header_unpack w 0 = Inr (h, o1)" "read_n unpack_question (unat (wh_questions h)) w o1 = Inr (qs, o2)"
    and "read_n unpack_resource (unat (wh_answers h)) w o2 = Inr (an, o3)" "read_n unpack_resource (unat (wh_authorities h)) w o3 = Inr (au, o4)"
    and "read_n unpack_resource (unat (wh_additionals h)) w o4 = Inr (ad, o5)"
  shows "Unpack w = Inr \<lparr>m_Header = header_header h, m_Questions = qs, m_Answers = an, m_Authorities = au, m_Additionals = ad\<rparr>"
proof -
  let ?p0 = "zero_parser\<lparr>ps_msg := w, ps_header := h, ps_off := o1, ps_section := sectionQuestions\<rparr>"
  let ?p1 = "?p0\<lparr>ps_off := o2, ps_section := sectionAnswers\<rparr>"
  have start: "Parser_Start w = (Inr (header_header h), ?p0)"
    using assms(1) by (simp add: Parser_Start_def Let_def nest_def)
  have "all_questions [] ?p0 = (Inr qs, ?p1)"
    using all_questions_read [of "unat (wh_questions h)" ?p0 qs o2 "[]"] assms(2)
    by (simp add: zero_parser_def header_count_def go_defs)
  moreover obtain h1 where "all_resources sectionAnswers [] ?p1 =
      (Inr an, ?p1\<lparr>ps_off := o3, ps_section := sectionAuthorities, ps_resHeader := h1\<rparr>)"
    using all_resources_read [of "unat (wh_answers h)" ?p1 an o3 sectionAnswers "[]"] assms(3)
    by (auto simp: zero_parser_def header_count_def go_defs)
  moreover obtain h2 where "all_resources sectionAuthorities [] (?p1\<lparr>ps_off := o3, ps_section := sectionAuthorities, ps_resHeader := h1\<rparr>) =
      (Inr au, ?p1\<lparr>ps_off := o4, ps_section := sectionAdditionals, ps_resHeader := h2\<rparr>)"
    using all_resources_read [of "unat (wh_authorities h)" "?p1\<lparr>ps_off := o3, ps_section := sectionAuthorities, ps_resHeader := h1\<rparr>"
      au o4 sectionAuthorities "[]"] assms(4)
    by (auto simp: zero_parser_def header_count_def go_defs)
  moreover obtain p where "all_resources sectionAdditionals [] (?p1\<lparr>ps_off := o4, ps_section := sectionAdditionals, ps_resHeader := h2\<rparr>) =
      (Inr ad, p)"
    using all_resources_read [of "unat (wh_additionals h)" "?p1\<lparr>ps_off := o4, ps_section := sectionAdditionals, ps_resHeader := h2\<rparr>"
      ad o5 sectionAdditionals "[]"] assms(5)
    by (auto simp: zero_parser_def header_count_def go_defs)
  ultimately show ?thesis
    using start by (simp add: Unpack_def AllQuestions_def AllAnswers_def AllAuthorities_def AllAdditionals_def)
qed

section \<open>Whole messages\<close>

text \<open>The messages that survive: what a DNS message may hold, with names of at most ten labels.\<close>

definition message_ok :: "Message \<Rightarrow> bool" where
  "message_ok m \<longleftrightarrow>
     dh_OpCode (m_Header m) < 16 \<and> dh_RCode (m_Header m) < 16 \<and>
     list_all (\<lambda>q. name_ok (q_Name q)) (m_Questions m) \<and> length (m_Questions m) \<le> 0xffff \<and>
     (\<forall>rs \<in> {m_Answers m, m_Authorities m, m_Additionals m}. list_all resource_ok rs \<and> length rs \<le> 0xffff)"

definition filled_message :: "Message \<Rightarrow> Message \<Rightarrow> bool" where
  "filled_message m m' \<longleftrightarrow>
     m_Header m' = m_Header m \<and> m_Questions m' = m_Questions m \<and> list_all2 filled (m_Answers m) (m_Answers m') \<and>
     list_all2 filled (m_Authorities m) (m_Authorities m') \<and> list_all2 filled (m_Additionals m) (m_Additionals m')"

definition pack_message :: "(nat \<Rightarrow> nat) \<Rightarrow> Message \<Rightarrow> packer \<Rightarrow> compression \<Rightarrow> (packer \<times> Message) packed" where
  "pack_message grow m p cmp =
     pack_bind (with_val (message_header m) (\<lambda>p cmp. (Inr (wire_header_pack grow (message_header m) p), cmp)) p cmp) (\<lambda>(p, h) cmp.
     pack_bind (with_val (m_Questions m) (pack_questions grow (m_Questions m)) p cmp) (\<lambda>(p, qs) cmp.
     pack_bind (pack_resources grow ''packing Answer'' (m_Answers m) p cmp) (\<lambda>(p, an) cmp.
     pack_bind (pack_resources grow ''packing Authority'' (m_Authorities m) p cmp) (\<lambda>(p, au) cmp.
     pack_bind (pack_resources grow ''packing Additional'' (m_Additionals m) p cmp) (\<lambda>(p, ad) cmp.
       (Inr (p, \<lparr>m_Header = header_header h, m_Questions = qs, m_Answers = an, m_Authorities = au, m_Additionals = ad\<rparr>), cmp))))))"

definition read_message :: "bytes \<Rightarrow> nat \<Rightarrow> dns_error + Message \<times> nat" where
  "read_message msg off =
     res_bind (wire_header_unpack msg off) (\<lambda>(h, off).
     res_bind (read_n unpack_question (unat (wh_questions h)) msg off) (\<lambda>(qs, off).
     res_bind (read_n unpack_resource (unat (wh_answers h)) msg off) (\<lambda>(an, off).
     res_bind (read_n unpack_resource (unat (wh_authorities h)) msg off) (\<lambda>(au, off).
     res_bind (read_n unpack_resource (unat (wh_additionals h)) msg off) (\<lambda>(ad, off).
       Inr (\<lparr>m_Header = header_header h, m_Questions = qs, m_Answers = an, m_Authorities = au, m_Additionals = ad\<rparr>, off))))))"

text \<open>A bound for the octets, compressed or not.\<close>

definition message_size :: "Message \<Rightarrow> nat" where
  "message_size m =
     12 + (sum_list (map question_size (m_Questions m)) + (sum_list (map resource_size (m_Answers m)) +
       (sum_list (map resource_size (m_Authorities m)) + sum_list (map resource_size (m_Additionals m)))))"

lemma Unpack_read_message: "read_message w 0 = Inr (m, off) \<Longrightarrow> Unpack w = Inr m"
  by (auto simp: read_message_def intro!: Unpack_read)

lemma message_okD:
  assumes "message_ok m"
  shows "header_header (message_header m) = m_Header m" "unat (wh_questions (message_header m)) = length (m_Questions m)"
    "unat (wh_answers (message_header m)) = length (m_Answers m)" "unat (wh_authorities (message_header m)) = length (m_Authorities m)"
    "unat (wh_additionals (message_header m)) = length (m_Additionals m)"
  using assms header_roundtrip [of "m_Header m" "message_header m"] by (simp_all add: message_ok_def message_header_def unat_u16_of_nat)

lemma sends_message:
  assumes "message_ok m"
  shows "sends (message_size m) (pack_message grow m) read_message (filled_message m)"
proof -
  note c = message_okD [OF assms]
  have ok: "list_all (\<lambda>q. name_ok (q_Name q)) (m_Questions m)" "list_all resource_ok (m_Answers m)" "list_all resource_ok (m_Authorities m)"
      "list_all resource_ok (m_Additionals m)"
    using assms by (auto simp: message_ok_def)
  show ?thesis
    unfolding pack_message_def [abs_def] read_message_def [abs_def] message_size_def
    apply (rule sends_bind [OF sends_wire_header])
    apply (simp only: c)
    apply (rule sends_bind [OF sends_questions [OF ok(1)]])
    apply (rule sends_bind [OF sends_resources [OF ok(2)]])
    apply (rule sends_bind [OF sends_resources [OF ok(3)]])
    apply (rule sends_map [OF sends_resources [OF ok(4)]])
    apply (simp add: filled_message_def)
    done
qed

lemma Pack_message:
  assumes "message_ok m"
  shows "Pack grow m = (case fst (pack_message grow m \<lparr>pk_msg = [], pk_cap = packStartingCap, pk_array = 0\<rparr> (Some Map.empty)) of
    Inl e \<Rightarrow> Inl e | Inr (p, m') \<Rightarrow> Inr (pk_msg p, m'))"
proof -
  have "\<not> 0xffff < length (m_Questions m)" "\<not> 0xffff < length (m_Answers m)" "\<not> 0xffff < length (m_Authorities m)"
      "\<not> 0xffff < length (m_Additionals m)"
    using assms by (auto simp: message_ok_def)
  then show ?thesis
    by (auto simp: Pack_def pack_message_def with_val_def pack_bind_def Let_def message_okD(1) [OF assms] split: prod.splits sum.splits)
qed

lemma message_sent:
  assumes "message_ok m"
  obtains w m' p where "Pack grow m = Inr (pk_msg p, m')" "filled_message m m'" "stored \<lparr>pk_msg = [], pk_cap = packStartingCap, pk_array = 0\<rparr> p w"
    "Unpack w = Inr m'" "length w \<le> message_size m"
proof -
  obtain w cmp m' where s: "sent (message_size m) (pack_message grow m) read_message (filled_message m) 0 (Some Map.empty) w cmp m'"
    by (rule sends_sent [OF sends_message [OF assms]])
  let ?p = "\<lparr>pk_msg = [], pk_cap = packStartingCap, pk_array = 0\<rparr>"
  obtain p where p: "pack_message grow m ?p (Some Map.empty) = (Inr (p, m'), cmp)" "stored ?p p w"
    using sentD(3) [OF s, of ?p] by auto
  have "Unpack w = Inr m'"
    using Unpack_read_message sentD(5) [OF s, of "[]" "[]"] tab_ok_empty(2) by simp
  with p show ?thesis
    using that [of p m' w] sentD(1,2) [OF s] by (simp add: Pack_message [OF assms])
qed

lemma Pack_fills: "message_ok m \<Longrightarrow> \<exists>w m'. Pack grow m = Inr (w, m') \<and> filled_message m m'"
  by (metis message_sent)

text \<open>
  C4.  A packed message is unpacked to the same message: \<^verbatim>\<open>Pack\<close> succeeds on every message with clean names and
  bodies that fit, it fills in the types and lengths of the resources, the octets are no more than without
  compression, and if they are within the 512 octets of the first buffer, \<^verbatim>\<open>Unpack\<close> gives the message with the
  types and lengths filled in, whatever was compressed.
\<close>

theorem dns_pack_unpack:
  assumes "message_ok m"
  shows "\<exists>w m'. Pack grow m = Inr (w, m') \<and> filled_message m m' \<and> length w \<le> message_size m \<and>
    (length w \<le> packStartingCap \<longrightarrow> Unpack w = Inr m')"
proof -
  obtain w m' p where p: "Pack grow m = Inr (pk_msg p, m')" "filled_message m m'"
      "stored \<lparr>pk_msg = [], pk_cap = packStartingCap, pk_array = 0\<rparr> p w" "Unpack w = Inr m'" "length w \<le> message_size m"
    by (rule message_sent [OF assms])
  then have "pk_msg p = w" if "length (pk_msg p) \<le> packStartingCap"
    using that by (simp add: stored_def appended_def)
  moreover have "length (pk_msg p) \<le> message_size m"
    using p(3,5) by (simp add: stored_def)
  ultimately show ?thesis
    using p(1,2,4) by metis
qed

text \<open>A question and its answer; the name of the answer is compressed.\<close>

definition plain_header :: dns_Header where
  "plain_header = \<lparr>dh_ID = 0, dh_Response = True, dh_OpCode = 0, dh_Authoritative = False, dh_Truncated = False,
     dh_RecursionDesired = False, dh_RecursionAvailable = False, dh_RCode = 0\<rparr>"

definition sample_name :: dns_Name where
  "sample_name = name_of [[0x61], [0x62]]"

definition sample_message :: Message where
  "sample_message =
     \<lparr>m_Header = plain_header, m_Questions = [\<lparr>q_Name = sample_name, q_Type = TypeA, q_Class = ClassINET\<rparr>],
      m_Answers = [\<lparr>rs_Header = \<lparr>rr_Name = sample_name, rr_Type = TypeA, rr_Class = ClassINET, rr_TTL = 60, rr_Length = 0\<rparr>,
        rs_Body = Some (AResource [1, 2, 3, 4])\<rparr>],
      m_Authorities = [], m_Additionals = []\<rparr>"

lemma sample_ok: "message_ok sample_message" "message_size sample_message \<le> packStartingCap"
proof -
  have "name_ok sample_name"
    unfolding name_ok_def by (rule exI [of _ "[[0x61], [0x62]]"]) (simp add: sample_name_def labels_ok_def label_ok_def nameLen_def)
  then show "message_ok sample_message"
    by (simp add: message_ok_def sample_message_def plain_header_def resource_ok_def rdata_ok_def)
  show "message_size sample_message \<le> packStartingCap"
    by (simp add: message_size_def sample_message_def question_size_def resource_size_def name_size_def sample_name_def name_of_def packStartingCap_def)
qed

theorem dns_pack_unpack_witness:
  "\<exists>w m'. Pack (\<lambda>n. 2 * n) sample_message = Inr (w, m') \<and> filled_message sample_message m' \<and> Unpack w = Inr m'"
  using dns_pack_unpack [OF sample_ok(1), of "\<lambda>n. 2 * n"] sample_ok(2) by (meson order_trans)

end
