(* ===== verification/DNS_Build.thy ===== *)
theory DNS_Build
  imports DNS_Properties
begin

text \<open>
  A message built record by record, against \<^verbatim>\<open>Pack\<close>.
\<close>

section \<open>A client of the builder\<close>

definition built_bind :: "built \<Rightarrow> (Builder \<Rightarrow> built) \<Rightarrow> built" where
  "built_bind r f = (case r of (Some e, b) \<Rightarrow> (Some e, b) | (None, b) \<Rightarrow> f b)"

lemma built_bind_simps [simp]: "built_bind (Some e, b) f = (Some e, b)" "built_bind (None, b) f = f b"
  by (simp_all add: built_bind_def)

fun build_questions :: "(nat \<Rightarrow> nat) \<Rightarrow> Question list \<Rightarrow> Builder \<Rightarrow> built" where
  "build_questions grow [] b = (None, b)"
| "build_questions grow (q # qs) b = built_bind (builder_Question grow q b) (build_questions grow qs)"

fun build_resources :: "(nat \<Rightarrow> nat) \<Rightarrow> Resource list \<Rightarrow> Builder \<Rightarrow> built" where
  "build_resources grow [] b = (None, b)"
| "build_resources grow (r # rs) b =
     built_bind (builder_resource grow (rs_Header r) (the (rs_Body r)) b) (build_resources grow rs)"

text \<open>All records of a message in order, each section after it has been started.\<close>

definition build :: "(nat \<Rightarrow> nat) \<Rightarrow> bytes \<Rightarrow> Message \<Rightarrow> dns_error + bytes" where
  "build grow buf m =
     (case built_bind (built_bind (StartQuestions (Builder_Start buf (m_Header m))) (build_questions grow (m_Questions m))) (\<lambda>b.
           built_bind (built_bind (StartAnswers b) (build_resources grow (m_Answers m))) (\<lambda>b.
           built_bind (built_bind (StartAuthorities b) (build_resources grow (m_Authorities m))) (\<lambda>b.
             built_bind (StartAdditionals b) (build_resources grow (m_Additionals m))))) of
        (Some e, b) \<Rightarrow> Inl e
      | (None, b) \<Rightarrow> fst (Finish grow b))"

definition buffer_cap :: "bytes \<Rightarrow> nat" where
  "buffer_cap buf = (if length buf < headerLen then packStartingCap else length buf)"

section \<open>Counting records\<close>

definition set_count :: "dns_section \<Rightarrow> u16 \<Rightarrow> wire_header \<Rightarrow> wire_header" where
  "set_count sec v h =
     (if sec = sectionQuestions then h\<lparr>wh_questions := v\<rparr>
      else if sec = sectionAnswers then h\<lparr>wh_answers := v\<rparr>
      else if sec = sectionAuthorities then h\<lparr>wh_authorities := v\<rparr>
      else if sec = sectionAdditionals then h\<lparr>wh_additionals := v\<rparr> else h)"

definition record_section :: "dns_section \<Rightarrow> bool" where
  "record_section sec \<longleftrightarrow> sec \<in> {sectionQuestions, sectionAnswers, sectionAuthorities, sectionAdditionals}"

lemma accept_counted:
  assumes "record_section (b_section b)" "header_count (b_header b) (b_section b) \<noteq> 0xffff"
  shows "accept_record p b =
    (None, b\<lparr>b_header := set_count (b_section b) (header_count (b_header b) (b_section b) + 1) (b_header b), b_msg := p\<rparr>)"
  using assms by (auto simp: record_section_def accept_record_def incrementSectionCount_def header_count_def set_count_def Let_def go_defs)

lemma set_count_count [simp]: "record_section sec \<Longrightarrow> header_count (set_count sec v h) sec = v"
  "set_count sec v (set_count sec u h) = set_count sec v h"
  "set_count sec (header_count h sec) h = h"
  by (auto simp: record_section_def set_count_def header_count_def go_defs)

text \<open>
  Builder \<open>b\<close> has become \<open>b'\<close> by \<open>k\<close> more records, of the octets \<open>xs\<close>.
\<close>

definition grown :: "Builder \<Rightarrow> Builder \<Rightarrow> nat \<Rightarrow> bytes \<Rightarrow> compression \<Rightarrow> bool" where
  "grown b b' k xs cmp \<longleftrightarrow>
     stored (b_msg b) (b_msg b') xs \<and> b_section b' = b_section b \<and> b_compression b' = cmp \<and>
     b_header b' = set_count (b_section b) (header_count (b_header b) (b_section b) + of_nat k) (b_header b)"

lemma grown_refl: "grown b b 0 [] (b_compression b)"
  by (simp add: grown_def stored_appended appended_refl)

lemma grown_step:
  assumes "record_section (b_section b)" "grown b b1 1 xs cmp1" "grown b1 b2 k ys cmp2"
  shows "grown b b2 (Suc k) (xs @ ys) cmp2"
  using assms stored_trans by (auto simp: grown_def ac_simps)

lemma count_below:
  assumes "unat (header_count h sec) + Suc n \<le> 0xffff"
  shows "header_count h sec \<noteq> 0xffff" "unat (header_count h sec + 1) = unat (header_count h sec) + 1"
proof -
  show "header_count h sec \<noteq> 0xffff"
    using assms by (auto dest: arg_cong [where f = unat])
  have "unat (header_count h sec) + unat (1 :: u16) < 2 ^ LENGTH(16)"
    using assms by simp
  then show "unat (header_count h sec + 1) = unat (header_count h sec) + 1"
    by (simp add: unat_word_ariths(1))
qed

lemma build_questions_grown:
  assumes "list_all (\<lambda>q. name_ok (q_Name q)) qs" "b_section b = sectionQuestions"
    and "unat (header_count (b_header b) sectionQuestions) + length qs \<le> 0xffff" "length (pk_msg p) = length (pk_msg (b_msg b))"
  shows "\<exists>p' cmp xs b'. pack_questions grow qs p (b_compression b) = (Inr p', cmp) \<and> stored p p' xs \<and>
    build_questions grow qs b = (None, b') \<and> grown b b' (length qs) xs cmp"
  using assms
proof (induction qs arbitrary: b p)
  case Nil
  then show ?case
    using grown_refl stored_appended [OF appended_refl] by auto
next
  case (Cons q qs)
  let ?off = "length (pk_msg p)" and ?cmp = "b_compression b"
  obtain xs cmp v where s: "sent (question_size q) (with_val q (Question_pack grow q)) unpack_question (\<lambda>u. u = q) ?off ?cmp xs cmp v"
    using sends_question_size [of q grow] Cons.prems(1) by (auto elim!: sends_sent)
  have v: "v = q" using sentD(1) [OF s] .
  obtain p1 where p1: "Question_pack grow q p ?cmp = (Inr p1, cmp)" "stored p p1 xs"
    using sentD(3) [OF s, of p] v by (auto dest: with_val_Inr)
  obtain m1 where m1: "Question_pack grow q (b_msg b) ?cmp = (Inr m1, cmp)" "stored (b_msg b) m1 xs"
    using sentD(3) [OF s, of "b_msg b"] v Cons.prems(4) by (auto dest: with_val_Inr)
  note below = count_below [of "b_header b" sectionQuestions "length qs"]
  let ?b = "b\<lparr>b_compression := cmp, b_header := set_count sectionQuestions (header_count (b_header b) sectionQuestions + 1) (b_header b), b_msg := m1\<rparr>"
  have b1: "builder_Question grow q b = (None, ?b)"
    using m1(1) below Cons.prems(2,3) accept_counted [of "b\<lparr>b_compression := cmp\<rparr>" m1]
    by (simp add: builder_Question_def record_section_def)
  have g: "grown b ?b 1 xs cmp"
    using m1(2) Cons.prems(2) by (simp add: grown_def)
  have "length (pk_msg p1) = length (pk_msg (b_msg ?b))"
    using p1(2) m1(2) Cons.prems(4) by (simp add: stored_def)
  then obtain p' cmp' ys b' where "pack_questions grow qs p1 cmp = (Inr p', cmp')" "stored p1 p' ys"
      "build_questions grow qs ?b = (None, b')" "grown ?b b' (length qs) ys cmp'"
    using Cons.IH [of ?b p1] Cons.prems below by (auto simp: record_section_def)
  then show ?case
    using p1 b1 grown_step [OF _ g] stored_trans [OF p1(2)] Cons.prems(2)
    by (intro exI [of _ p'] exI [of _ cmp'] exI [of _ "xs @ ys"] exI [of _ b']) (simp add: record_section_def)
qed

lemma builder_resource_packs:
  assumes "rs_Body r = Some body" "Resource_pack grow r (b_msg b) (b_compression b) = (Inr (m1, r'), cmp)" "checkResourceSection b = None"
  shows "builder_resource grow (rs_Header r) body b = accept_record m1 (b\<lparr>b_compression := cmp\<rparr>)"
  using assms
  by (auto simp: builder_resource_def Resource_pack_def Let_def pack_bind_def pack_nest_def nest_def split: prod.splits sum.splits)

lemma build_resources_grown:
  assumes "list_all resource_ok rs" "b_section b = sec" "sec \<in> {sectionAnswers, sectionAuthorities, sectionAdditionals}"
    and "unat (header_count (b_header b) sec) + length rs \<le> 0xffff" "length (pk_msg p) = length (pk_msg (b_msg b))"
  shows "\<exists>p' rs' cmp xs b'. pack_resources grow s rs p (b_compression b) = (Inr (p', rs'), cmp) \<and> stored p p' xs \<and>
    build_resources grow rs b = (None, b') \<and> grown b b' (length rs) xs cmp"
  using assms
proof (induction rs arbitrary: b p)
  case Nil
  then show ?case
    using grown_refl stored_appended [OF appended_refl] by auto
next
  case (Cons r rs)
  let ?off = "length (pk_msg p)" and ?cmp = "b_compression b"
  have sec: "record_section sec" "checkResourceSection b = None"
    using Cons.prems(2,3) by (auto simp: record_section_def checkResourceSection_def go_defs)
  obtain xs cmp r' where s: "sent (resource_size r) (Resource_pack grow r) unpack_resource (filled r) ?off ?cmp xs cmp r'"
    using sends_resource [of r grow] Cons.prems(1) by (auto elim!: sends_sent)
  obtain body where body: "rs_Body r = Some body"
    using sentD(1) [OF s] by (auto simp: filled_def)
  obtain p1 where p1: "Resource_pack grow r p ?cmp = (Inr (p1, r'), cmp)" "stored p p1 xs"
    using sentD(3) [OF s, of p] by auto
  obtain m1 where m1: "Resource_pack grow r (b_msg b) ?cmp = (Inr (m1, r'), cmp)" "stored (b_msg b) m1 xs"
    using sentD(3) [OF s, of "b_msg b"] Cons.prems(5) by auto
  note below = count_below [of "b_header b" sec "length rs"]
  let ?b = "b\<lparr>b_compression := cmp, b_header := set_count sec (header_count (b_header b) sec + 1) (b_header b), b_msg := m1\<rparr>"
  have b1: "builder_resource grow (rs_Header r) body b = (None, ?b)"
    using builder_resource_packs [OF body m1(1) sec(2)] sec(1) below Cons.prems(2,4) accept_counted [of "b\<lparr>b_compression := cmp\<rparr>" m1]
    by simp
  have g: "grown b ?b 1 xs cmp"
    using m1(2) Cons.prems(2) by (simp add: grown_def)
  have "length (pk_msg p1) = length (pk_msg (b_msg ?b))"
    using p1(2) m1(2) Cons.prems(5) by (simp add: stored_def)
  then obtain p' rs' cmp' ys b' where "pack_resources grow s rs p1 cmp = (Inr (p', rs'), cmp')" "stored p1 p' ys"
      "build_resources grow rs ?b = (None, b')" "grown ?b b' (length rs) ys cmp'"
    using Cons.IH [of ?b p1] Cons.prems below sec(1) by auto
  then show ?case
    using p1 b1 body grown_step [OF _ g] stored_trans [OF p1(2)] Cons.prems(2) sec(1)
    by (intro exI [of _ p'] exI [of _ "r' # rs'"] exI [of _ cmp'] exI [of _ "xs @ ys"] exI [of _ b']) simp
qed

section \<open>The whole message\<close>

definition header_octets :: "wire_header \<Rightarrow> bytes" where
  "header_octets h =
     concat (map (\<lambda>v. [ucast (drop_bit 8 v), ucast v])
       [wh_id h, wh_bits h, wh_questions h, wh_answers h, wh_authorities h, wh_additionals h])"

lemma wire_header_octets: "appended p (wire_header_pack grow h p) (header_octets h)"
proof -
  have u: "appended q (packUint16 grow v q) [ucast (drop_bit 8 v), ucast v]" for q v
    by (simp add: packUint16_def)
  show ?thesis
    unfolding wire_header_pack_def header_octets_def
    by (simp only: list.map concat.simps, (rule appended_trans, rule u)+, rule appended_refl)
qed

lemma section_started: "0 < b_section b \<Longrightarrow> b_section b \<le> sec \<Longrightarrow> start_section sec b = (None, b\<lparr>b_section := sec\<rparr>)"
  by (auto simp: start_section_def startCheck_def go_defs)

text \<open>Since \<open>p0\<close> and \<open>b0\<close>, a packer and a builder have got the same octets.\<close>

definition level :: "packer \<Rightarrow> Builder \<Rightarrow> packer \<Rightarrow> compression \<Rightarrow> Builder \<Rightarrow> bool" where
  "level p0 b0 p cmp b \<longleftrightarrow>
     length (pk_msg p0) = length (pk_msg (b_msg b0)) \<and> b_compression b = cmp \<and>
     (\<exists>xs. stored p0 p xs \<and> stored (b_msg b0) (b_msg b) xs)"

lemma level_grown:
  "level p0 b0 p cmp b \<Longrightarrow> stored p p' xs \<Longrightarrow> grown (b\<lparr>b_section := sec\<rparr>) b' k xs cmp' \<Longrightarrow> level p0 b0 p' cmp' b'"
  using stored_trans by (fastforce simp: level_def grown_def)

lemma level_length: "level p0 b0 p cmp b \<Longrightarrow> length (pk_msg p) = length (pk_msg (b_msg b))"
  by (auto simp: level_def stored_def)

lemma build_section:
  assumes "level p0 b0 p cmp b" "list_all resource_ok rs" "length rs \<le> 0xffff" "sec \<in> {sectionAnswers, sectionAuthorities, sectionAdditionals}"
    and "0 < b_section b" "b_section b \<le> sec" "header_count (b_header b) sec = 0"
  obtains p' rs' cmp' b' where "pack_resources grow s rs p cmp = (Inr (p', rs'), cmp')"
    "built_bind (start_section sec b) (build_resources grow rs) = (None, b')" "level p0 b0 p' cmp' b'"
    "b_section b' = sec" "b_header b' = set_count sec (of_nat (length rs)) (b_header b)"
proof -
  obtain p' rs' cmp' xs b' where "pack_resources grow s rs p cmp = (Inr (p', rs'), cmp')" "stored p p' xs"
      "build_resources grow rs (b\<lparr>b_section := sec\<rparr>) = (None, b')" "grown (b\<lparr>b_section := sec\<rparr>) b' (length rs) xs cmp'"
    using build_resources_grown [of rs "b\<lparr>b_section := sec\<rparr>" sec p grow s] assms level_length [OF assms(1)] by (auto simp: level_def)
  with assms level_grown [OF assms(1)] show ?thesis
    by (intro that [of p' rs' cmp' b']) (auto simp: section_started grown_def)
qed

lemma build_first_section:
  assumes "list_all (\<lambda>q. name_ok (q_Name q)) qs" "length qs \<le> 0xffff" "length (pk_msg p0) = headerLen"
  obtains p cmp b where "pack_questions grow qs p0 (Some Map.empty) = (Inr p, cmp)"
    "built_bind (StartQuestions (Builder_Start buf h)) (build_questions grow qs) = (None, b)" "level p0 (Builder_Start buf h) p cmp b"
    "b_section b = sectionQuestions" "b_header b = set_count sectionQuestions (of_nat (length qs)) (b_header (Builder_Start buf h))"
proof -
  let ?b = "Builder_Start buf h"
  have b: "StartQuestions ?b = (None, ?b\<lparr>b_section := sectionQuestions\<rparr>)" "b_compression ?b = Some Map.empty"
      "header_count (b_header ?b) sectionQuestions = 0" "length (pk_msg (b_msg ?b)) = headerLen"
    by (simp_all add: StartQuestions_def section_started Builder_Start_def StartWithoutCompression_def Let_def header_count_def
        zero_wire_header_def go_defs)
  have l: "level p0 ?b p0 (Some Map.empty) ?b"
    using b(2,4) assms(3) stored_appended [OF appended_refl] by (auto simp: level_def)
  obtain p cmp xs b where "pack_questions grow qs p0 (Some Map.empty) = (Inr p, cmp)" "stored p0 p xs"
      "build_questions grow qs (?b\<lparr>b_section := sectionQuestions\<rparr>) = (None, b)" "grown (?b\<lparr>b_section := sectionQuestions\<rparr>) b (length qs) xs cmp"
    using build_questions_grown [of qs "?b\<lparr>b_section := sectionQuestions\<rparr>" p0 grow] assms b by auto
  with b level_grown [OF l] show ?thesis
    by (intro that [of p cmp b]) (auto simp: grown_def)
qed

lemma build_level:
  assumes "message_ok m" "length (pk_msg p0) = headerLen"
  shows "\<exists>p1 cmp1 an p2 cmp2 au p3 cmp3 ad p4 cmp4 b.
    pack_questions grow (m_Questions m) p0 (Some Map.empty) = (Inr p1, cmp1) \<and>
    pack_resources grow ''packing Answer'' (m_Answers m) p1 cmp1 = (Inr (p2, an), cmp2) \<and>
    pack_resources grow ''packing Authority'' (m_Authorities m) p2 cmp2 = (Inr (p3, au), cmp3) \<and>
    pack_resources grow ''packing Additional'' (m_Additionals m) p3 cmp3 = (Inr (p4, ad), cmp4) \<and>
    level p0 (Builder_Start buf (m_Header m)) p4 cmp4 b \<and> b_header b = message_header m \<and> b_section b = sectionAdditionals \<and>
    build grow buf m = fst (Finish grow b)"
proof -
  note ok = assms(1) [unfolded message_ok_def]
  let ?b0 = "Builder_Start buf (m_Header m)"
  have h0: "b_header ?b0 = zero_wire_header\<lparr>wh_id := fst (Header_pack (m_Header m)), wh_bits := snd (Header_pack (m_Header m))\<rparr>"
    by (simp add: Builder_Start_def StartWithoutCompression_def Let_def)
  obtain p1 cmp1 b1 where 1: "pack_questions grow (m_Questions m) p0 (Some Map.empty) = (Inr p1, cmp1)"
      "built_bind (StartQuestions ?b0) (build_questions grow (m_Questions m)) = (None, b1)" "level p0 ?b0 p1 cmp1 b1"
      "b_section b1 = sectionQuestions" "b_header b1 = set_count sectionQuestions (of_nat (length (m_Questions m))) (b_header ?b0)"
    by (rule build_first_section [of "m_Questions m" p0 grow buf "m_Header m"]) (use ok assms(2) in auto)
  obtain p2 an cmp2 b2 where 2: "pack_resources grow ''packing Answer'' (m_Answers m) p1 cmp1 = (Inr (p2, an), cmp2)"
      "built_bind (start_section sectionAnswers b1) (build_resources grow (m_Answers m)) = (None, b2)" "level p0 ?b0 p2 cmp2 b2"
      "b_section b2 = sectionAnswers" "b_header b2 = set_count sectionAnswers (of_nat (length (m_Answers m))) (b_header b1)"
    by (rule build_section [OF 1(3), of "m_Answers m" sectionAnswers grow "''packing Answer''"])
      (use ok 1(4,5) h0 in \<open>auto simp: go_defs set_count_def header_count_def zero_wire_header_def\<close>)
  obtain p3 au cmp3 b3 where 3: "pack_resources grow ''packing Authority'' (m_Authorities m) p2 cmp2 = (Inr (p3, au), cmp3)"
      "built_bind (start_section sectionAuthorities b2) (build_resources grow (m_Authorities m)) = (None, b3)" "level p0 ?b0 p3 cmp3 b3"
      "b_section b3 = sectionAuthorities" "b_header b3 = set_count sectionAuthorities (of_nat (length (m_Authorities m))) (b_header b2)"
    by (rule build_section [OF 2(3), of "m_Authorities m" sectionAuthorities grow "''packing Authority''"])
      (use ok 1(5) 2(4,5) h0 in \<open>auto simp: go_defs set_count_def header_count_def zero_wire_header_def\<close>)
  obtain p4 ad cmp4 b4 where 4: "pack_resources grow ''packing Additional'' (m_Additionals m) p3 cmp3 = (Inr (p4, ad), cmp4)"
      "built_bind (start_section sectionAdditionals b3) (build_resources grow (m_Additionals m)) = (None, b4)" "level p0 ?b0 p4 cmp4 b4"
      "b_section b4 = sectionAdditionals" "b_header b4 = set_count sectionAdditionals (of_nat (length (m_Additionals m))) (b_header b3)"
    by (rule build_section [OF 3(3), of "m_Additionals m" sectionAdditionals grow "''packing Additional''"])
      (use ok 1(5) 2(5) 3(4,5) h0 in \<open>auto simp: go_defs set_count_def header_count_def zero_wire_header_def\<close>)
  have "b_header b4 = message_header m"
    using 1(5) 2(5) 3(5) 4(5) h0 by (simp add: set_count_def message_header_def zero_wire_header_def go_defs)
  moreover have "build grow buf m = fst (Finish grow b4)"
    using 1(2) 2(2) 3(2) 4(2) by (simp add: build_def StartAnswers_def StartAuthorities_def StartAdditionals_def)
  ultimately show ?thesis
    using 1(1) 2(1) 3(1) 4(1,3,4) by blast
qed

lemma header_octets_length: "length (header_octets h) = headerLen"
  by (simp add: header_octets_def go_defs)

lemma Finish_header:
  assumes "0 < b_section b"
  shows "fst (Finish grow b) = Inr (header_octets (b_header b) @ drop headerLen (pk_msg (b_msg b)))"
proof -
  have "pk_msg (wire_header_pack grow (b_header b) q) = pk_msg q @ header_octets (b_header b)" for q
    using wire_header_octets by (simp add: appended_def)
  moreover have "\<not> b_section b < sectionHeader"
    using assms by (simp add: word_less_nat_alt sectionHeader_def)
  ultimately show ?thesis
    by (simp add: Finish_def Let_def header_octets_length)
qed

lemma Finish_octets:
  assumes "b_section b = sectionAdditionals" "stored (b_msg (Builder_Start buf h)) (b_msg b) xs" "stored p0 p xs" "pk_msg p0 = header_octets (b_header b)"
    and "pk_cap p0 = buffer_cap buf"
  obtains w where "fst (Finish grow b) = Inr w" "length w = length (pk_msg p)" "length w \<le> buffer_cap buf \<Longrightarrow> w = pk_msg p"
proof -
  let ?w = "header_octets (b_header b) @ drop headerLen (pk_msg (b_msg b))"
  note l = header_octets_length
  have b0: "length (pk_msg (b_msg (Builder_Start buf h))) = headerLen" "pk_cap (b_msg (Builder_Start buf h)) = buffer_cap buf"
    by (auto simp: Builder_Start_def StartWithoutCompression_def buffer_cap_def Let_def go_defs)
  have "fst (Finish grow b) = Inr ?w"
    using assms(1) by (intro Finish_header) (simp add: go_defs)
  moreover have "length ?w = length (pk_msg p)"
    using assms(2-4) b0 l by (simp add: stored_def)
  moreover have "?w = pk_msg p" if "length ?w \<le> buffer_cap buf"
    using that assms(2-5) b0 l by (auto simp: stored_def appended_def)
  ultimately show ?thesis
    using that by blast
qed

lemma build_packs:
  assumes "message_ok m" "pack_message grow m \<lparr>pk_msg = [], pk_cap = buffer_cap buf, pk_array = 0\<rparr> (Some Map.empty) = (Inr (p, m'), cmp)"
  shows "\<exists>w. build grow buf m = Inr w \<and> length w = length (pk_msg p) \<and> (length w \<le> buffer_cap buf \<longrightarrow> w = pk_msg p)"
proof -
  let ?start = "\<lparr>pk_msg = [], pk_cap = buffer_cap buf, pk_array = 0\<rparr>"
  let ?p0 = "wire_header_pack grow (message_header m) ?start"
  have p0: "pk_msg ?p0 = header_octets (message_header m)" "pk_cap ?p0 = buffer_cap buf" "length (pk_msg ?p0) = headerLen"
    using wire_header_octets [of ?start grow "message_header m"]
    by (auto simp: appended_def header_octets_def buffer_cap_def go_defs split: if_splits)
  obtain p1 cmp1 an p2 cmp2 au p3 cmp3 ad p4 cmp4 b where b:
      "pack_questions grow (m_Questions m) ?p0 (Some Map.empty) = (Inr p1, cmp1)"
      "pack_resources grow ''packing Answer'' (m_Answers m) p1 cmp1 = (Inr (p2, an), cmp2)"
      "pack_resources grow ''packing Authority'' (m_Authorities m) p2 cmp2 = (Inr (p3, au), cmp3)"
      "pack_resources grow ''packing Additional'' (m_Additionals m) p3 cmp3 = (Inr (p4, ad), cmp4)"
      "level ?p0 (Builder_Start buf (m_Header m)) p4 cmp4 b" "b_header b = message_header m" "b_section b = sectionAdditionals"
      "build grow buf m = fst (Finish grow b)"
    using build_level [OF assms(1) p0(3), of grow buf] by blast
  have "p = p4"
    using assms(2) b(1-4) by (simp add: pack_message_def with_val_def)
  obtain xs where "stored ?p0 p4 xs" "stored (b_msg (Builder_Start buf (m_Header m))) (b_msg b) xs"
    using b(5) by (auto simp: level_def)
  then obtain w where "fst (Finish grow b) = Inr w" "length w = length (pk_msg p4)" "length w \<le> buffer_cap buf \<Longrightarrow> w = pk_msg p4"
    using Finish_octets [OF b(7), of buf "m_Header m" xs ?p0 p4 grow] p0(1,2) b(6) by metis
  with \<open>p = p4\<close> b(8) show ?thesis by simp
qed

text \<open>
  C10.  The builder and \<^verbatim>\<open>Pack\<close> agree on every message with canonical names of at most ten labels, codes of four
  bits, and texts and counts that fit: a client that adds its records section by section gets a
  message without an error; if it fits in the buffer it was started with, \<^verbatim>\<open>Unpack\<close> gives the records back, and
  if it also fits in the first buffer of \<^verbatim>\<open>Pack\<close>, these are the octets of \<^verbatim>\<open>Pack\<close>.
\<close>

theorem dns_builder_packs:
  assumes "message_ok m"
  shows "\<exists>w m'. build grow buf m = Inr w \<and> filled_message m m' \<and> length w \<le> message_size m \<and>
    (length w \<le> buffer_cap buf \<longrightarrow> Unpack w = Inr m') \<and>
    (length w \<le> buffer_cap buf \<and> length w \<le> packStartingCap \<longrightarrow> Pack grow m = Inr (w, m'))"
proof -
  let ?start = "\<lambda>cap. \<lparr>pk_msg = [], pk_cap = cap, pk_array = 0\<rparr>"
  obtain xs cmp m' where s: "sent (message_size m) (pack_message grow m) read_message (filled_message m) 0 (Some Map.empty) xs cmp m'"
    by (rule sends_sent [OF sends_message [OF assms]])
  obtain p q where p: "pack_message grow m (?start (buffer_cap buf)) (Some Map.empty) = (Inr (p, m'), cmp)" "stored (?start (buffer_cap buf)) p xs"
    and q: "pack_message grow m (?start packStartingCap) (Some Map.empty) = (Inr (q, m'), cmp)" "stored (?start packStartingCap) q xs"
    using sentD(3) [OF s, of "?start (buffer_cap buf)"] sentD(3) [OF s, of "?start packStartingCap"] by auto
  obtain w where w: "build grow buf m = Inr w" "length w = length (pk_msg p)" "length w \<le> buffer_cap buf \<Longrightarrow> w = pk_msg p"
    using build_packs [OF assms p(1)] by blast
  then have "w = xs" if "length w \<le> buffer_cap buf"
    using that p(2) by (auto simp: stored_def appended_def)
  moreover have "length w \<le> message_size m"
    using w(2) p(2) sentD(2) [OF s] by (simp add: stored_def)
  moreover have "Pack grow m = Inr (xs, m')" if "length xs \<le> packStartingCap"
    using that q by (simp add: Pack_message [OF assms] stored_def appended_def)
  moreover have "Unpack xs = Inr m'"
    using Unpack_read_message sentD(5) [OF s, of "[]" "[]"] tab_ok_empty(2) by simp
  ultimately show ?thesis
    using w(1) sentD(1) [OF s] by metis
qed

theorem dns_builder_packs_witness:
  "\<exists>w m'. build (\<lambda>n. 2 * n) [] sample_message = Inr w \<and> filled_message sample_message m' \<and> Unpack w = Inr m' \<and>
     Pack (\<lambda>n. 2 * n) sample_message = Inr (w, m')"
proof -
  have "buffer_cap [] = packStartingCap"
    by (simp add: buffer_cap_def go_defs)
  with dns_builder_packs [OF sample_ok(1), of "\<lambda>n. 2 * n" "[]"] sample_ok(2) show ?thesis by (metis order_trans)
qed

end
