(* ===== verification/DNS_Faults.thy ===== *)
theory DNS_Faults
  imports DNS_Build
begin

text \<open>
  Where the messages of the package do not survive: a message that outgrows its first buffer, and a builder
  that goes on after an error.
\<close>

section \<open>A length written to an old array\<close>

lemma packText_array: "pk_array p \<le> pk_array (packText grow t p)"
proof (induction grow t p rule: packText.induct)
  case (1 grow t p)
  have a: "pk_array q \<le> pk_array (go_append grow xs q)" for xs q
    by (simp add: go_append_def Let_def)
  show ?case
    using "1.IH" [OF _ refl refl refl] by (subst packText.simps) (fastforce simp: Let_def intro: order_trans [OF a] order_trans [OF order_trans [OF a a]])
qed

lemma packText_moves:
  "pk_cap p < length (pk_msg p) + length (text_wire t) \<Longrightarrow> length (pk_msg p) \<le> pk_cap p \<Longrightarrow> pk_array p < pk_array (packText grow t p)"
proof (induction grow t p rule: packText.induct)
  case (1 grow t p)
  let ?l = "if length t > 255 then 255 else length t"
  let ?p1 = "go_append grow [of_nat ?l] p"
  let ?p2 = "go_append grow (take ?l t) ?p1"
  have t: "t \<noteq> []" using "1.prems" by (auto simp: text_wire.simps)
  then have eq: "packText grow t p = packText grow (drop ?l t) ?p2" and w: "length (text_wire t) = 1 + length (take ?l t) + length (text_wire (drop ?l t))"
    by (auto simp: packText.simps [of grow t p] text_wire.simps [of t] Let_def)
  show ?case
  proof (cases "length (pk_msg p) + 1 + length (take ?l t) \<le> pk_cap p")
    case True
    then have "pk_array ?p2 = pk_array p" "pk_cap ?p2 = pk_cap p" "length (pk_msg ?p2) = length (pk_msg p) + 1 + length (take ?l t)"
      by (simp_all add: go_append_def Let_def)
    then show ?thesis
      using "1.IH" [OF t refl refl refl] "1.prems" w True eq by simp
  next
    case False
    then have "pk_array p < pk_array ?p2"
      by (auto simp: go_append_def Let_def)
    then show ?thesis
      using packText_array [of ?p2 grow "drop ?l t"] eq by simp
  qed
qed

text \<open>A message with a single text, at the root.\<close>

definition txt_header :: ResourceHeader where
  "txt_header = \<lparr>rr_Name = name_of [], rr_Type = TypeTXT, rr_Class = ClassINET, rr_TTL = 0, rr_Length = 0\<rparr>"

definition txt_message :: "bytes \<Rightarrow> Message" where
  "txt_message t =
     \<lparr>m_Header = plain_header, m_Questions = [], m_Answers = [\<lparr>rs_Header = txt_header, rs_Body = Some (TXTResource t)\<rparr>],
      m_Authorities = [], m_Additionals = []\<rparr>"

lemma Name_pack_root: "Name_pack grow (name_of []) p cmp = (Inr (go_append grow [0] p), cmp)"
  by (simp add: Name_pack_def name_of_def)

lemma txt_message_ok: "length (text_wire t) \<le> 0xffff \<Longrightarrow> message_ok (txt_message t)"
  by (auto simp: message_ok_def txt_message_def txt_header_def plain_header_def resource_ok_def rdata_ok_def name_ok_def labels_ok_def intro!: exI [of _ "[]"])

definition txt_octets :: "bytes \<Rightarrow> bytes" where
  "txt_octets t = [0, 0, 0x80, 0, 0, 0, 0, 1, 0, 0, 0, 0, 0, 0, 16, 0, 1, 0, 0, 0, 0, 0, 0] @ text_wire t"

lemma Pack_txt:
  assumes "489 < length (text_wire t)" "length (text_wire t) \<le> 0xffff"
  shows "\<exists>m'. Pack grow (txt_message t) = Inr (txt_octets t, m')"
proof -
  let ?hd = "[0, 0, 0x80, 0, 0, 0, 0, 1, 0, 0, 0, 0] :: bytes"
  let ?p = "\<lparr>pk_msg = ?hd, pk_cap = 512, pk_array = 0\<rparr>"
  let ?p2 = "\<lparr>pk_msg = ?hd @ [0, 0, 16, 0, 1, 0, 0, 0, 0, 0, 0], pk_cap = 512, pk_array = 0\<rparr>"
  have hd: "wire_header_pack grow (message_header (txt_message t)) \<lparr>pk_msg = [], pk_cap = 512, pk_array = 0\<rparr> = ?p"
    by (simp add: wire_header_pack_def packUint16_def go_append_def message_header_def txt_message_def plain_header_def Header_pack_def
        or_if_def headerBitQR_def)
  have rh: "ResourceHeader_pack grow txt_header ?p cmp =
      (Inr (?p2, \<lparr>ls_array = 0, ls_off = 21\<rparr>), cmp)" for cmp
    by (simp add: ResourceHeader_pack_def Name_pack_root packUint16_def packUint32_def packType_def packClass_def go_append_def txt_header_def go_defs)
  have txt_type: "txt_header\<lparr>rr_Type := TypeTXT\<rparr> = txt_header"
    by (simp add: txt_header_def)
  have "pk_array ?p2 < pk_array (packText grow t ?p2)"
    by (rule packText_moves) (use assms in simp_all)
  moreover have "pk_msg (packText grow t ?p2) = txt_octets t"
    using packText_wire [of ?p2 grow t] by (simp add: appended_def txt_octets_def)
  ultimately show ?thesis
    using assms(2) rh hd
    by (simp add: Pack_def txt_message_def txt_type Resource_pack_def fixLen_def store_length_def Let_def packStartingCap_def txt_octets_def)
qed

lemma Unpack_txt: "Unpack (txt_octets t) = Inr (txt_message [])"
proof -
  let ?h = "\<lparr>wh_id = 0, wh_bits = 0x8000, wh_questions = 0, wh_answers = 1, wh_authorities = 0, wh_additionals = 0\<rparr>"
  let ?rh = "\<lparr>rr_Name = name_of [], rr_Type = TypeTXT, rr_Class = ClassINET, rr_TTL = 0, rr_Length = 0\<rparr>"
  note octets = unpackUint16_def unpackUint32_def unpackType_def unpackClass_def dns_index_def txt_octets_def go_defs
  have h: "wire_header_unpack (txt_octets t) 0 = Inr (?h, 12)"
    by (simp add: wire_header_unpack_def octets del: res_bind_eq_Inr)
  have "Name_unpack (txt_octets t) 12 = Inr (name_of [], 13)"
    by (subst Name_unpack_def, subst name_unpack_loop_eq) (simp add: txt_octets_def name_of_def nameLen_def)
  then have rh: "ResourceHeader_unpack (txt_octets t) 12 = Inr (?rh, 23)"
    by (simp add: ResourceHeader_unpack_def octets del: res_bind_eq_Inr)
  have "unpack_texts (txt_octets t) 23 0 0 [] = Inr []"
    by (subst unpack_texts.simps) simp
  then have "unpack_resource (txt_octets t) 12 = Inr (\<lparr>rs_Header = ?rh, rs_Body = Some (TXTResource [])\<rparr>, 23)"
    using rh by (simp add: unpack_resource_def unpackResourceBody_def unpack_body_def unpackTXTResource_def go_defs)
  then have "read_n unpack_resource (Suc 0) (txt_octets t) 12 = Inr ([\<lparr>rs_Header = ?rh, rs_Body = Some (TXTResource [])\<rparr>], 23)"
    by simp
  then show ?thesis
    using Unpack_read [OF h, of "[]" 12 _ 23 "[]" 23 "[]" 23]
    by (simp add: txt_message_def txt_header_def header_header_def plain_header_def go_defs)
qed

lemma txt_length_lost:
  assumes "489 < length (text_wire t)" "length (text_wire t) \<le> 0xffff"
  shows "\<exists>w m'. Pack grow (txt_message t) = Inr (w, m') \<and> filled_message (txt_message t) m' \<and> Unpack w = Inr (txt_message [])"
proof -
  obtain w m' where "Pack grow (txt_message t) = Inr (w, m')" "filled_message (txt_message t) m'"
    using Pack_fills [OF txt_message_ok [OF assms(2)]] by blast
  with Pack_txt [OF assms, of grow] Unpack_txt show ?thesis by auto
qed

text \<open>
  C34.  A text that does not fit into the array the message is in loses its length.  For a TXT resource with any
  header, anywhere in a message: if the header of the resource is packed and the text takes more than the
  capacity that is left, the resource is packed without an error and its header is given the length of the text,
  but that length goes to the array that \<^verbatim>\<open>append\<close> has left behind, so the octets before the text on the wire still
  are those of the length the caller had in the header.
\<close>

theorem length_lost:
  assumes "rs_Body r = Some (TXTResource t)" "length (text_wire t) \<le> 0xffff"
    and "ResourceHeader_pack grow ((rs_Header r)\<lparr>rr_Type := TypeTXT\<rparr>) p cmp = (Inr (p1, sl), cmp1)"
    and "length (pk_msg p1) \<le> pk_cap p1" "pk_cap p1 < length (pk_msg p1) + length (text_wire t)"
  shows "\<exists>p2 pre.
    Resource_pack grow r p cmp =
      (Inr (p2, r\<lparr>rs_Header := (rs_Header r)\<lparr>rr_Type := TypeTXT, rr_Length := of_nat (length (text_wire t))\<rparr>\<rparr>), cmp1) \<and>
    pk_msg p1 = pre @ [ucast (drop_bit 8 (rr_Length (rs_Header r))), ucast (rr_Length (rs_Header r))] \<and>
    pk_msg p2 = pk_msg p1 @ text_wire t"
proof -
  have moved: "pk_array p1 < pk_array (packText grow t p1)"
    by (rule packText_moves) fact+
  have wire: "pk_msg (packText grow t p1) = pk_msg p1 @ text_wire t"
    using packText_wire [of p1 grow t] by (simp add: appended_def)
  have sl: "ls_array sl = pk_array p1" and pre: "\<exists>pre. pk_msg p1 = pre @ [ucast (drop_bit 8 (rr_Length (rs_Header r))), ucast (rr_Length (rs_Header r))]"
    using assms(3)
    by (auto simp: ResourceHeader_pack_def pack_bind_def Let_def packUint16_def go_append_def split: prod.splits sum.splits if_splits)
  show ?thesis
    using assms(1-3) moved sl pre wire by (simp add: Resource_pack_def fixLen_def store_length_def Let_def pack_nest_def nest_def pack_bind_def)
qed

text \<open>A text of 500 octets in the first answer of a message: the message is packed, and unpacked with an empty text.\<close>

theorem length_lost_witness:
  "(\<exists>p2 pre.
     Resource_pack (\<lambda>n. 2 * n) \<lparr>rs_Header = txt_header, rs_Body = Some (TXTResource (replicate 500 0x61))\<rparr>
         \<lparr>pk_msg = replicate 12 0, pk_cap = 512, pk_array = 0\<rparr> (Some Map.empty) =
       (Inr (p2, \<lparr>rs_Header = txt_header\<lparr>rr_Length := 502\<rparr>, rs_Body = Some (TXTResource (replicate 500 0x61))\<rparr>), Some Map.empty) \<and>
     pk_msg p2 = pre @ [0, 0] @ text_wire (replicate 500 0x61)) \<and>
   (\<exists>w m'. Pack (\<lambda>n. 2 * n) (txt_message (replicate 500 0x61)) = Inr (w, m') \<and>
     filled_message (txt_message (replicate 500 0x61)) m' \<and> Unpack w = Inr (txt_message []))"
proof -
  let ?t = "replicate 500 0x61 :: bytes"
  let ?r = "\<lparr>rs_Header = txt_header, rs_Body = Some (TXTResource ?t)\<rparr>"
  have w: "length (text_wire ?t) = 502"
    by (simp add: text_wire.simps [of ?t] text_wire.simps [of "replicate 245 0x61"] text_wire.simps [of "[]"])
  have rh: "ResourceHeader_pack (\<lambda>n. 2 * n) ((rs_Header ?r)\<lparr>rr_Type := TypeTXT\<rparr>) \<lparr>pk_msg = replicate 12 0, pk_cap = 512, pk_array = 0\<rparr> (Some Map.empty) =
      (Inr (\<lparr>pk_msg = replicate 12 0 @ [0, 0, 16, 0, 1, 0, 0, 0, 0, 0, 0], pk_cap = 512, pk_array = 0\<rparr>, \<lparr>ls_array = 0, ls_off = 21\<rparr>), Some Map.empty)"
    by (simp add: ResourceHeader_pack_def Name_pack_root packUint16_def packUint32_def packType_def packClass_def go_append_def txt_header_def go_defs)
  have "txt_header\<lparr>rr_Type := TypeTXT, rr_Length := 502\<rparr> = txt_header\<lparr>rr_Length := 502\<rparr>" "rr_Length txt_header = 0"
    by (simp_all add: txt_header_def)
  then show ?thesis
    using length_lost [OF _ _ rh, of ?t] txt_length_lost [of ?t "\<lambda>n. 2 * n"] w by auto
qed

section \<open>A name remembered from a record that failed\<close>

lemma lookup_note_suffix: "k \<noteq> key \<Longrightarrow> lookup (note_suffix key off cmp) k = lookup cmp k"
  by (simp add: note_suffix_def lookup_def split: option.split)

lemma labels_wire_keeps:
  "lookup cmp k = Some v \<Longrightarrow> length key < length k \<Longrightarrow> lookup (snd (labels_wire key ls off cmp)) k = Some v"
proof (induction key ls off cmp rule: labels_wire.induct)
  case (2 key l ls off cmp)
  then have "k \<noteq> key" by auto
  with 2 show ?case
    by (cases "lookup cmp key") (simp_all add: lookup_note_suffix split_beta)
qed simp

lemma name_remembered:
  assumes "labels_ok ls" "ls \<noteq> []" "name_wire ls off cmp0 = (xs, cmp)" "off \<le> 0x3fff"
    and "cmp0 \<noteq> None" "lookup cmp0 (name_Data (name_of ls)) = None"
  shows "lookup cmp (name_Data (name_of ls)) = Some off"
proof -
  let ?key = "name_Data (name_of ls)"
  obtain l ls' where ls: "ls = l # ls'" using assms(2) by (cases ls) auto
  have "lookup (note_suffix ?key off cmp0) ?key = Some off"
    using assms(4,5) by (auto simp: note_suffix_def lookup_def)
  moreover have "length (drop (length l + 1) ?key) < length ?key"
    using assms(1,2) by (simp add: name_of_def Let_def labels_ok_def nameLen_def ls)
  ultimately have "lookup (snd (labels_wire (drop (length l + 1) ?key) ls' (off + length l + 1) (note_suffix ?key off cmp0))) ?key = Some off"
    by (rule labels_wire_keeps)
  then show ?thesis
    using assms(3,6) by (auto simp: name_wire_def ls split: prod.splits)
qed

text \<open>What a name adds to the table leaves the entries that are there.\<close>

lemma remember_keeps:
  "lookup cmp k = Some v \<Longrightarrow> lookup cmp (drop i (name_Data n)) = None \<Longrightarrow> lookup (remember n i p cmp) k = Some v"
  by (auto simp: remember_def lookup_def split: option.splits)

lemma name_pack_loop_keeps: "lookup cmp k = Some v \<Longrightarrow> lookup (snd (name_pack_loop grow n i start p cmp)) k = Some v"
proof (induction "unat (name_Length n) - i" arbitrary: i start p cmp rule: less_induct)
  case less
  have later: "lookup (snd (name_pack_loop grow n j start' p' cmp')) k = Some v"
    if "j = i + 1" "i < unat (name_Length n)" "lookup cmp' k = Some v" for j start' p' cmp'
    using that by (intro less.hyps) auto
  show ?case
    using less.prems
    by (subst name_pack_loop.simps) (auto simp: Let_def split: option.split intro!: later remember_keeps)
qed

lemma Name_pack_keeps: "lookup cmp k = Some v \<Longrightarrow> lookup (snd (Name_pack grow n p cmp)) k = Some v"
  by (simp add: Name_pack_def name_pack_loop_keeps)

lemma snd_pack_nest [simp]: "snd (pack_nest s r) = snd r"
  by (simp add: pack_nest_def split: prod.split)

lemma pack_bind_keeps:
  assumes "lookup (snd r) k = Some v" "\<And>x cmp. lookup cmp k = Some v \<Longrightarrow> lookup (snd (f x cmp)) k = Some v"
  shows "lookup (snd (pack_bind r f)) k = Some v"
  using assms by (auto simp: pack_bind_def split: prod.split sum.split)

lemma ResourceBody_pack_keeps: "lookup cmp k = Some v \<Longrightarrow> lookup (snd (ResourceBody_pack grow body p cmp)) k = Some v"
  by (cases body) (auto simp: MX_pack_def SOA_pack_def SRV_pack_def Name_pack_keeps intro!: pack_bind_keeps)

lemma resource_section:
  assumes "checkResourceSection b = None"
  shows "b_section b \<in> {sectionAnswers, sectionAuthorities, sectionAdditionals}"
proof -
  have "unat (b_section b) \<in> {3, 4, 5}"
    using assms by (auto simp: checkResourceSection_def word_less_nat_alt sectionAnswers_def sectionAdditionals_def split: if_splits)
  then show ?thesis
    by (simp add: go_defs word_unat_eq_iff)
qed

lemma self_pointer:
  assumes "off + 1 < length msg" "msg ! off = hd (pointer_octets off)" "msg ! (off + 1) = last (pointer_octets off)" "off \<le> 0x3fff" "ptr \<le> 10"
  shows "name_unpack_loop msg off new ptr name = Inl errTooManyPtr"
  using assms(5)
proof (induction "10 - ptr" arbitrary: ptr new)
  case 0
  have "hd (pointer_octets off) AND 0xC0 = 0xC0"
    using pointer_octets_read [of off] assms(4) by simp
  with 0 assms(1-3) show ?case by (subst name_unpack_loop_eq) simp
next
  case (Suc n)
  have "hd (pointer_octets off) AND 0xC0 = 0xC0" "pointer_target (hd (pointer_octets off)) (last (pointer_octets off)) = off"
    using pointer_octets_read [of off] assms(4) by simp_all
  with Suc assms(1-3) show ?case by (subst name_unpack_loop_eq) (simp add: Let_def)
qed

lemma wire_header_unpack_octets: "wire_header_unpack (header_octets h @ post) 0 = Inr (h, 12)"
  by (simp add: wire_header_unpack_def header_octets_def unpackUint16_def dns_index_def go_defs octets_u16 del: res_bind_eq_Inr)

lemma Unpack_self_pointer:
  assumes "wh_questions h = 0" "wh_answers h = 1"
  shows "Unpack (header_octets h @ 0xC0 # 12 # post) = Inl (nestedError ''Name'' errTooManyPtr)"
proof -
  let ?w = "header_octets h @ 0xC0 # 12 # post"
  let ?p0 = "zero_parser\<lparr>ps_msg := ?w, ps_header := h, ps_off := 12, ps_section := sectionQuestions\<rparr>"
  let ?p1 = "?p0\<lparr>ps_section := sectionAnswers\<rparr>"
  have start: "Parser_Start ?w = (Inr (header_header h), ?p0)"
    by (simp add: Parser_Start_def wire_header_unpack_octets Let_def nest_def)
  have q: "all_questions [] ?p0 = (Inr [], ?p1)"
    using all_questions_read [of 0 ?p0 "[]" 12 "[]"] assms(1) by (simp add: zero_parser_def header_count_def go_defs)
  have l: "length (header_octets h) = 12"
    by (simp add: header_octets_def)
  have "name_unpack_loop ?w 12 12 0 [] = Inl errTooManyPtr"
    by (rule self_pointer) (simp_all add: l nth_append pointer_octets_def)
  then have "ResourceHeader_unpack ?w 12 = Inl (nestedError ''Name'' errTooManyPtr)"
    by (simp add: ResourceHeader_unpack_def Name_unpack_def nest_def)
  then have "parse_resource sectionAnswers ?p1 = (Inl (nestedError ''Name'' errTooManyPtr), ?p1)"
    using section_next [of ?p1 sectionAnswers] assms(2)
    by (simp add: parse_resource_def resourceHeader_def zero_parser_def header_count_def go_defs)
  then have "all_resources sectionAnswers [] ?p1 = (Inl (nestedError ''Name'' errTooManyPtr), ?p1)"
    by (subst all_resources.simps) simp
  with start q show ?thesis
    by (simp add: Unpack_def AllQuestions_def AllAnswers_def)
qed

definition answering :: "dns_Header \<Rightarrow> Builder" where
  "answering h = snd (StartAnswers (Builder_Start [] h))"

lemma answering_msg:
  "b_msg (answering h) = \<lparr>pk_msg = replicate 12 0, pk_cap = 512, pk_array = 0\<rparr>" "b_compression (answering h) = Some Map.empty"
  "b_section (answering h) = sectionAnswers"
  "b_header (answering h) = zero_wire_header\<lparr>wh_id := fst (Header_pack h), wh_bits := snd (Header_pack h)\<rparr>"
  by (simp_all add: answering_def StartAnswers_def section_started Builder_Start_def StartWithoutCompression_def Let_def go_defs)

lemma refused_record_remembered:
  assumes "checkResourceSection b = None" "b_compression b \<noteq> None" "length (pk_msg (b_msg b)) \<le> 0x3fff"
    and "labels_ok ls" "ls \<noteq> []" "lookup (b_compression b) (name_Data (name_of ls)) = None" "rr_Name hdr = name_of ls"
    and "builder_resource grow hdr body b = (Some e, b1)"
  shows "\<exists>cmp. b1 = b\<lparr>b_compression := cmp\<rparr> \<and> lookup cmp (name_Data (name_of ls)) = Some (length (pk_msg (b_msg b)))"
proof -
  obtain xs cmp where w: "name_wire ls (length (pk_msg (b_msg b))) (b_compression b) = (xs, cmp)" by fastforce
  note known = name_remembered [OF assms(4,5) w assms(3,2,6)]
  obtain p1 where "Name_pack grow (name_of ls) (b_msg b) (b_compression b) = (Inr p1, cmp)"
    using Name_pack_wire [OF assms(4) w, of grow] by blast
  then obtain p2 sl where rh: "ResourceHeader_pack grow (hdr\<lparr>rr_Type := realType body\<rparr>) (b_msg b) (b_compression b) = (Inr (p2, sl), cmp)"
    using assms(7) by (simp add: ResourceHeader_pack_def Let_def pack_nest_def nest_def)
  obtain r cmp2 where body: "ResourceBody_pack grow body p2 cmp = (r, cmp2)" by fastforce
  have "lookup cmp2 (name_Data (name_of ls)) = Some (length (pk_msg (b_msg b)))"
    using ResourceBody_pack_keeps [OF known, of grow body p2] body by simp
  moreover have "b1 = b\<lparr>b_compression := cmp2\<rparr>"
    using assms(1,8) rh body
    by (auto simp: builder_resource_def Let_def pack_bind_def pack_nest_def nest_def accept_record_def incrementSectionCount_def
        split: sum.splits prod.splits option.splits if_splits)
  ultimately show ?thesis by blast
qed

lemma known_name_points:
  assumes "checkResourceSection b = None" "header_count (b_header b) (b_section b) \<noteq> 0xffff"
    and "labels_ok ls" "ls \<noteq> []" "rr_Name hdr = name_of ls" "length a = 4"
    and "lookup (b_compression b) (name_Data (name_of ls)) = Some off"
  shows "\<exists>b' post. builder_AResource grow hdr a b = (None, b') \<and> 0 < b_section b' \<and>
    b_header b' = set_count (b_section b) (header_count (b_header b) (b_section b) + 1) (b_header b) \<and>
    pk_msg (b_msg b') = pk_msg (b_msg b) @ pointer_octets off @ post"
proof -
  let ?h = "hdr\<lparr>rr_Type := realType (AResource a)\<rparr>" and ?cmp = "b_compression b"
  have "name_wire ls (length (pk_msg (b_msg b))) ?cmp = (pointer_octets off, ?cmp)"
    using assms(4,7) by (cases ls) (simp_all add: name_wire_def)
  then obtain p1 where p1: "Name_pack grow (name_of ls) (b_msg b) ?cmp = (Inr p1, ?cmp)" "appended (b_msg b) p1 (pointer_octets off)"
    using Name_pack_wire [OF assms(3)] by blast
  let ?p2 = "packUint32 grow (rr_TTL ?h) (packClass grow (rr_Class ?h) (packType grow (rr_Type ?h) p1))"
  let ?p3 = "packUint16 grow (rr_Length ?h) ?p2"
  let ?sl = "\<lparr>ls_array = pk_array ?p3, ls_off = length (pk_msg ?p2)\<rparr>" and ?p4 = "packBytes grow a ?p3"
  have "pk_msg (go_append grow xs q) = pk_msg q @ xs" for xs q
    using appended_append [of q grow xs] by (simp only: appended_def)
  note msgs = packUint32_def packClass_def packType_def packUint16_def packBytes_def this append_assoc
  have p2: "\<exists>post. pk_msg ?p2 = pk_msg p1 @ post" "\<exists>post. pk_msg ?p4 = pk_msg ?p2 @ post" "length (pk_msg ?p4) = length (pk_msg ?p3) + 4"
    using assms(6) by (simp_all add: msgs)
  let ?p5 = "store_length ?sl (of_nat (length (pk_msg ?p4) - length (pk_msg ?p3))) ?p4"
  have "\<exists>post. pk_msg ?p5 = pk_msg ?p2 @ post"
    using p2(2) by (elim exE) (simp add: store_length_def list_update_append)
  then obtain post where post: "pk_msg ?p5 = pk_msg (b_msg b) @ pointer_octets off @ post"
    using p2(1) p1(2) by (auto simp: appended_def)
  have "builder_AResource grow hdr a b = accept_record ?p5 b"
    using assms(1,5) p1(1) p2(3)
    by (simp add: builder_AResource_def builder_resource_def ResourceHeader_pack_def Let_def pack_nest_def nest_def fixLen_def)
  moreover have sec: "record_section (b_section b)" "0 < b_section b"
    using resource_section [OF assms(1)] by (auto simp: record_section_def go_defs)
  ultimately show ?thesis
    using post assms(2) by (simp add: accept_counted)
qed

text \<open>
  C35.  A builder does not recover from a resource it has refused.  In a section of resources, with compression,
  let a resource be refused, for any reason, whose name is canonical, not the root, not in the compression table,
  and starts within the range of pointers.  Then the name stays in the table with an offset in octets that were discarded: an A resource
  of that name is accepted next, its name is a pointer to itself, and in the finished message that name cannot be
  unpacked.
\<close>

theorem failed_record_corrupts:
  assumes "checkResourceSection b = None" "header_count (b_header b) (b_section b) \<noteq> 0xffff" "b_compression b \<noteq> None"
    and "headerLen \<le> length (pk_msg (b_msg b))" "length (pk_msg (b_msg b)) \<le> 0x3fff"
    and "labels_ok ls" "ls \<noteq> []" "lookup (b_compression b) (name_Data (name_of ls)) = None" "rr_Name hdr = name_of ls"
    and "builder_resource grow hdr body b = (Some e, b1)" "rr_Name hdr' = name_of ls" "length a = 4"
  shows "\<exists>b2 w. builder_AResource grow hdr' a b1 = (None, b2) \<and> fst (Finish grow b2) = Inr w \<and>
    Name_unpack w (length (pk_msg (b_msg b))) = Inl errTooManyPtr"
proof -
  let ?off = "length (pk_msg (b_msg b))"
  obtain cmp where b1: "b1 = b\<lparr>b_compression := cmp\<rparr>" "lookup cmp (name_Data (name_of ls)) = Some ?off"
    using refused_record_remembered [OF assms(1,3,5-10)] by blast
  have "checkResourceSection b1 = None"
    using assms(1) by (auto simp: b1(1) checkResourceSection_def split: if_splits)
  then obtain b2 post where b2: "builder_AResource grow hdr' a b1 = (None, b2)" "0 < b_section b2"
      "pk_msg (b_msg b2) = pk_msg (b_msg b) @ pointer_octets ?off @ post"
    using known_name_points [of b1 ls hdr' a ?off grow] assms(2,6,7,11,12) b1 by auto
  let ?w = "header_octets (b_header b2) @ drop headerLen (pk_msg (b_msg b2))"
  have "length (header_octets (b_header b2)) = headerLen"
    by (simp add: header_octets_def headerLen_def uint16Len_def)
  then have "name_unpack_loop ?w ?off ?off 0 [] = Inl errTooManyPtr"
    using assms(4,5) b2(3) by (intro self_pointer) (simp_all add: nth_append pointer_octets_def Suc_diff_le)
  with b2 Finish_header [OF b2(2)] show ?thesis
    by (simp add: Name_unpack_def)
qed

text \<open>
  The first answer of a fresh builder is a CNAME without a target, which is refused; the next is an address of the
  same name.  The finished message cannot be unpacked at all.
\<close>

definition sample_header :: ResourceHeader where
  "sample_header = \<lparr>rr_Name = name_of [[0x61], [0x62]], rr_Type = 0, rr_Class = ClassINET, rr_TTL = 60, rr_Length = 0\<rparr>"

lemma sample_labels: "labels_ok [[0x61], [0x62]]"
  by (simp add: labels_ok_def label_ok_def nameLen_def)

lemma sample_refused:
  "\<exists>e b1. builder_CNAMEResource grow sample_header zero_name (answering h) = (Some e, b1)"
proof -
  obtain xs cmp where w: "name_wire [[0x61], [0x62]] (length (pk_msg (b_msg (answering h)))) (b_compression (answering h)) = (xs, cmp)" by fastforce
  obtain p1 where "Name_pack grow (name_of [[0x61], [0x62]]) (b_msg (answering h)) (b_compression (answering h)) = (Inr p1, cmp)"
    using Name_pack_wire [OF sample_labels w, of grow] by blast
  moreover have "Name_pack grow zero_name p cmp = (Inl errNonCanonicalName, cmp)" for p cmp
    by (simp add: Name_pack_def zero_name_def)
  ultimately show ?thesis
    by (simp add: builder_CNAMEResource_def builder_resource_def checkResourceSection_def answering_msg ResourceHeader_pack_def
        sample_header_def Let_def pack_nest_def nest_def go_defs)
qed

lemma refused_first_answer:
  assumes "labels_ok ls" "ls \<noteq> []" "rr_Name hdr = name_of ls" "builder_resource grow hdr body (answering h) = (Some e, b1)"
    and "rr_Name hdr' = name_of ls" "length a = 4"
  shows "\<exists>b2 w. builder_AResource grow hdr' a b1 = (None, b2) \<and> fst (Finish grow b2) = Inr w \<and>
    Unpack w = Inl (nestedError ''Name'' errTooManyPtr)"
proof -
  have sec: "checkResourceSection (answering h) = None"
    by (simp add: checkResourceSection_def answering_msg go_defs)
  obtain cmp where b1: "b1 = (answering h)\<lparr>b_compression := cmp\<rparr>" "lookup cmp (name_Data (name_of ls)) = Some 12"
    using refused_record_remembered [OF sec _ _ assms(1,2) _ assms(3,4)] by (auto simp: answering_msg lookup_def)
  have "checkResourceSection b1 = None"
    by (simp add: b1(1) checkResourceSection_def answering_msg go_defs)
  then obtain b2 post where b2: "builder_AResource grow hdr' a b1 = (None, b2)" "0 < b_section b2"
      "b_header b2 = set_count sectionAnswers 1 (b_header (answering h))" "pk_msg (b_msg b2) = replicate 12 0 @ pointer_octets 12 @ post"
    using known_name_points [of b1 ls hdr' a 12 grow] assms(1,2,5,6) b1
    by (auto simp: answering_msg header_count_def zero_wire_header_def go_defs)
  with Finish_header [OF b2(2)] Unpack_self_pointer [of "b_header b2" post] show ?thesis
    by (simp add: answering_msg set_count_def zero_wire_header_def pointer_octets_def go_defs)
qed

theorem failed_record_corrupts_witness:
  "\<exists>e b1. builder_CNAMEResource (\<lambda>n. 2 * n) sample_header zero_name (answering plain_header) = (Some e, b1) \<and>
    (\<exists>b2 w. builder_AResource (\<lambda>n. 2 * n) sample_header [1, 2, 3, 4] b1 = (None, b2) \<and> fst (Finish (\<lambda>n. 2 * n) b2) = Inr w \<and>
      Name_unpack w 12 = Inl errTooManyPtr) \<and>
    (\<exists>b2 w. builder_AResource (\<lambda>n. 2 * n) sample_header [1, 2, 3, 4] b1 = (None, b2) \<and> fst (Finish (\<lambda>n. 2 * n) b2) = Inr w \<and>
      Unpack w = Inl (nestedError ''Name'' errTooManyPtr))"
proof -
  let ?b = "answering plain_header"
  obtain e b1 where 1: "builder_CNAMEResource (\<lambda>n. 2 * n) sample_header zero_name ?b = (Some e, b1)"
    using sample_refused by blast
  then have r: "builder_resource (\<lambda>n. 2 * n) sample_header (CNAMEResource zero_name) ?b = (Some e, b1)"
    by (simp add: builder_CNAMEResource_def)
  have n: "rr_Name sample_header = name_of [[0x61], [0x62]]"
    by (simp add: sample_header_def)
  have "checkResourceSection ?b = None" "header_count (b_header ?b) (b_section ?b) \<noteq> 0xffff" "b_compression ?b \<noteq> None"
    "headerLen \<le> length (pk_msg (b_msg ?b))" "length (pk_msg (b_msg ?b)) \<le> 0x3fff" "lookup (b_compression ?b) k = None" for k
    by (simp_all add: checkResourceSection_def answering_msg header_count_def zero_wire_header_def lookup_def headerLen_def uint16Len_def go_defs)
  note corrupts = failed_record_corrupts [OF this(1-5) sample_labels _ this(6) n r n, of "[1, 2, 3, 4]"]
  show ?thesis
    using 1 corrupts refused_first_answer [OF sample_labels _ n r n, of "[1, 2, 3, 4]"] by (auto simp: answering_msg)
qed

end
