(* ===== verification/DNS_Parse_Properties.thy ===== *)
theory DNS_Parse_Properties
  imports DNS_Parser
begin

text \<open>
  The parser on arbitrary octets: it never leaves the message, what it returns has the shape of Go's arrays and
  of canonical names, and skipping a record leads where parsing it does.
\<close>

section \<open>Results without a panic\<close>

primrec panics :: "dns_error \<Rightarrow> bool" where
  "panics DnsPanic \<longleftrightarrow> True"
| "panics (nestedError s e) \<longleftrightarrow> panics e"
| "panics ErrNotStarted \<longleftrightarrow> False" | "panics ErrSectionDone \<longleftrightarrow> False" | "panics errBaseLen \<longleftrightarrow> False" | "panics errCalcLen \<longleftrightarrow> False"
| "panics errReserved \<longleftrightarrow> False" | "panics errTooManyPtr \<longleftrightarrow> False" | "panics errInvalidPtr \<longleftrightarrow> False" | "panics errNilResouceBody \<longleftrightarrow> False"
| "panics errResourceLen \<longleftrightarrow> False" | "panics errSegTooLong \<longleftrightarrow> False" | "panics errZeroSegLen \<longleftrightarrow> False" | "panics errResTooLong \<longleftrightarrow> False"
| "panics errTooManyQuestions \<longleftrightarrow> False" | "panics errTooManyAnswers \<longleftrightarrow> False" | "panics errTooManyAuthorities \<longleftrightarrow> False"
| "panics errTooManyAdditionals \<longleftrightarrow> False" | "panics errNonCanonicalName \<longleftrightarrow> False" | "panics (invalidResourceType t) \<longleftrightarrow> False"

definition yields :: "('a \<Rightarrow> bool) \<Rightarrow> dns_error + 'a \<Rightarrow> bool" where
  "yields P r \<longleftrightarrow> (case r of Inl e \<Rightarrow> \<not> panics e | Inr x \<Rightarrow> P x)"

lemma yields_simps [simp]: "yields P (Inl e) \<longleftrightarrow> \<not> panics e" "yields P (Inr x) \<longleftrightarrow> P x"
  by (simp_all add: yields_def)

lemma yields_nest [simp]: "yields P (nest s r) \<longleftrightarrow> yields P r"
  by (cases r) (simp_all add: nest_def)

lemma yields_bind: "yields P r \<Longrightarrow> (\<And>x. P x \<Longrightarrow> yields Q (f x)) \<Longrightarrow> yields Q (res_bind r f)"
  by (cases r) simp_all

lemma yields_bind_pair: "yields (\<lambda>(v, off). P v) r \<Longrightarrow> (\<And>v off. P v \<Longrightarrow> yields Q (f (v, off))) \<Longrightarrow> yields Q (res_bind r f)"
  by (cases r) auto

lemma yields_step:
  "yields (\<lambda>(v, off). P v) r \<Longrightarrow> (\<And>v off. P v \<Longrightarrow> yields Q (f v off)) \<Longrightarrow> yields Q (res_bind (nest s r) (\<lambda>(v, off). f v off))"
  by (cases r) (auto simp: nest_def)

lemma yields_mono: "yields P r \<Longrightarrow> (\<And>x. P x \<Longrightarrow> Q x) \<Longrightarrow> yields Q r"
  by (cases r) simp_all

section \<open>What the parser returns\<close>

definition name_shape :: "dns_Name \<Rightarrow> bool" where
  "name_shape n \<longleftrightarrow> length (name_Data n) = nameLen \<and> 0 < name_Length n \<and> name_Data n ! (unat (name_Length n) - 1) = 0x2e"

fun body_shape :: "ResourceBody \<Rightarrow> bool" where
  "body_shape (CNAMEResource n) \<longleftrightarrow> name_shape n"
| "body_shape (MXResource pref n) \<longleftrightarrow> name_shape n"
| "body_shape (NSResource n) \<longleftrightarrow> name_shape n"
| "body_shape (PTRResource n) \<longleftrightarrow> name_shape n"
| "body_shape (SOAResource ns mbox se rf rt ex mi) \<longleftrightarrow> name_shape ns \<and> name_shape mbox"
| "body_shape (TXTResource t) \<longleftrightarrow> length t \<le> 0xffff"
| "body_shape (SRVResource pr we po n) \<longleftrightarrow> name_shape n"
| "body_shape (AResource a) \<longleftrightarrow> length a = 4"
| "body_shape (AAAAResource a) \<longleftrightarrow> length a = 16"

definition resource_shape :: "Resource \<Rightarrow> bool" where
  "resource_shape r \<longleftrightarrow>
     name_shape (rr_Name (rs_Header r)) \<and>
     (case rs_Body r of None \<Rightarrow> False | Some b \<Rightarrow> body_shape b \<and> rr_Type (rs_Header r) = realType b)"

definition message_shape :: "Message \<Rightarrow> bool" where
  "message_shape m \<longleftrightarrow>
     dh_OpCode (m_Header m) < 16 \<and> dh_RCode (m_Header m) < 16 \<and> list_all (\<lambda>q. name_shape (q_Name q)) (m_Questions m) \<and>
     list_all resource_shape (m_Answers m) \<and> list_all resource_shape (m_Authorities m) \<and> list_all resource_shape (m_Additionals m)"

lemma yields_uint16: "yields (\<lambda>(v, off). True) (unpackUint16 msg off)"
  by (auto simp: unpackUint16_def dns_index_def go_defs)

lemma yields_uint32: "yields (\<lambda>(v, off). True) (unpackUint32 msg off)"
  by (auto simp: unpackUint32_def dns_index_def go_defs)

lemma yields_bytes: "yields (\<lambda>(a, off). length a = n) (unpackBytes msg off n)"
  by (auto simp: unpackBytes_def dns_slice_def Let_def)

lemma yields_text: "yields (\<lambda>(t, off). True) (unpackText msg off)"
  by (auto simp: unpackText_def dns_index_def dns_slice_def Let_def)

lemma name_loop_dot:
  "name_unpack_loop msg cur new ptr name = Inr (nm, off) \<Longrightarrow> name = [] \<or> last name = 0x2e \<Longrightarrow> nm = [] \<or> last nm = 0x2e"
proof (induction msg cur new ptr name rule: name_unpack_loop_induct)
  case (step msg cur new ptr name)
  note seg = step.IH(1) [simplified] and ref = step.IH(2) [simplified]
  show ?case
    using step.prems by (auto simp: name_unpack_loop_eq [of msg cur new ptr name] Let_def not_le not_less split: if_splits dest!: seg ref)
qed

lemma name_loop_calm: "name_unpack_loop msg cur new ptr name = Inl e \<Longrightarrow> \<not> panics e"
proof (induction msg cur new ptr name rule: name_unpack_loop_induct)
  case (step msg cur new ptr name)
  note seg = step.IH(1) [simplified] and ref = step.IH(2) [simplified]
  show ?case
    using step.prems by (auto simp: name_unpack_loop_eq [of msg cur new ptr name] Let_def not_le not_less split: if_splits dest!: seg ref)
qed

lemma yields_name: "yields (\<lambda>(n, off). name_shape n) (Name_unpack msg off)"
proof -
  have "yields (\<lambda>(nm, off). nm = [] \<or> last nm = 0x2e) (name_unpack_loop msg off off 0 [])"
    by (auto simp: yields_def split: sum.split dest: name_loop_dot name_loop_calm)
  moreover have "name_shape \<lparr>name_Data = nm @ replicate (nameLen - length nm) 0, name_Length = of_nat (length nm)\<rparr>"
    if "nm \<noteq> []" "last nm = 0x2e" "length nm \<le> nameLen" for nm
  proof -
    have "unat (of_nat (length nm) :: u8) = length nm"
      using that(3) by (simp add: unsigned_of_nat take_bit_nat_eq_self nameLen_def)
    moreover from this have "0 < (of_nat (length nm) :: u8)"
      using that(1) by (simp add: word_less_nat_alt)
    ultimately show ?thesis
      using that by (simp add: name_shape_def nth_append last_conv_nth)
  qed
  moreover have "name_shape \<lparr>name_Data = 0x2e # replicate (nameLen - Suc 0) 0, name_Length = 1\<rparr>"
    by (simp add: name_shape_def nameLen_def)
  ultimately show ?thesis
    unfolding Name_unpack_def by (elim yields_bind_pair) (auto simp: Let_def)
qed

lemma yields_texts:
  "length tx \<le> unat n \<Longrightarrow> yields (\<lambda>t. length t \<le> 0xffff) (unpack_texts msg off len n tx)"
proof (induction msg off len n tx rule: unpack_texts.induct)
  case (1 msg off len n tx)
  have small: "length tx \<le> 0xffff"
    using "1.prems" unsigned_less [of n, where 'a = nat] by simp
  have next_ok: "length (tx @ t) \<le> unat (n + (of_nat (length t) + 1))"
    if "\<not> len - n < of_nat (length t) + 1" "n < len" "length t < 256" for t
  proof -
    have k: "unat (of_nat (length t) + 1 :: u16) = length t + 1"
      using that(3) unat_u16_of_nat [of "length t + 1"] by (simp add: add.commute)
    have "unat (of_nat (length t) + 1 :: u16) \<le> unat len - unat n"
      using that(1,2) unat_sub [of n len] by (simp add: word_le_nat_alt word_less_nat_alt not_less)
    then have "unat n + (length t + 1) < 2 ^ 16"
      using k that(2) unsigned_less [of len, where 'a = nat] by (simp add: word_less_nat_alt)
    then have "unat (n + (of_nat (length t) + 1)) = unat n + (length t + 1)"
      using k by (simp only: unat_word_ariths(1)) simp
    then show ?thesis using "1.prems" by simp
  qed
  have step: "yields (\<lambda>t. length t \<le> 0xffff) (unpack_texts msg off' len (n + (of_nat (length t) + 1)) (tx @ t))"
    if "n < len" "unpackText msg off = Inr (t, off')" "\<not> len - n < of_nat (length t) + 1" for t off'
    by (rule "1.IH" [OF that(1,2) refl that(3) next_ok [OF that(3,1) unpackText_length [OF that(2)]]])
  show ?case
    using yields_text [of msg off] small
    by (subst unpack_texts.simps) (auto split: sum.split intro!: step)
qed

lemmas yields_steps = yields_step [OF yields_uint16] yields_step [OF yields_uint32] yields_step [OF yields_name]

lemma yields_wire_header: "yields (\<lambda>(h, off). True) (wire_header_unpack msg off)"
  unfolding wire_header_unpack_def by (intro yields_steps) simp

lemma yields_header: "yields (\<lambda>(h, off). name_shape (rr_Name h)) (ResourceHeader_unpack msg off)"
  unfolding ResourceHeader_unpack_def unpackType_def unpackClass_def by (intro yields_steps) simp

lemma yields_question: "yields (\<lambda>(q, off). name_shape (q_Name q)) (unpack_question msg off)"
  unfolding unpack_question_def unpackType_def unpackClass_def by (intro yields_steps) simp

lemma yields_soa: "yields (\<lambda>b. body_shape b \<and> TypeSOA = realType b) (unpackSOAResource msg off)"
  unfolding unpackSOAResource_def by (intro yields_steps) simp

lemma yields_mx: "yields (\<lambda>b. body_shape b \<and> TypeMX = realType b) (unpackMXResource msg off)"
  unfolding unpackMXResource_def by (intro yields_steps) simp

lemma yields_srv: "yields (\<lambda>b. body_shape b \<and> TypeSRV = realType b) (unpackSRVResource msg off)"
  unfolding unpackSRVResource_def by (intro yields_steps) simp

lemma yields_named:
  "yields (\<lambda>b. body_shape b \<and> TypeCNAME = realType b) (unpackCNAMEResource msg off)"
  "yields (\<lambda>b. body_shape b \<and> TypeNS = realType b) (unpackNSResource msg off)"
  "yields (\<lambda>b. body_shape b \<and> TypePTR = realType b) (unpackPTRResource msg off)"
  unfolding unpackCNAMEResource_def unpackNSResource_def unpackPTRResource_def by (rule yields_bind_pair [OF yields_name], simp)+

lemma yields_addresses:
  "yields (\<lambda>b. body_shape b \<and> TypeA = realType b) (unpackAResource msg off)"
  "yields (\<lambda>b. body_shape b \<and> TypeAAAA = realType b) (unpackAAAAResource msg off)"
  unfolding unpackAResource_def unpackAAAAResource_def by (rule yields_bind_pair [OF yields_bytes], simp)+

lemma yields_txt: "yields (\<lambda>b. body_shape b \<and> TypeTXT = realType b) (unpackTXTResource msg off len)"
  unfolding unpackTXTResource_def by (rule yields_bind [OF yields_texts]) simp_all

lemma yields_body: "yields (\<lambda>(b, off). body_shape b \<and> rr_Type h = realType b) (unpackResourceBody msg off h)"
proof -
  have "yields (\<lambda>b. body_shape b \<and> rr_Type h = realType b) (unpack_body msg off h)"
    unfolding unpack_body_def by (simp add: yields_soa yields_mx yields_srv yields_named yields_addresses yields_txt)
  then show ?thesis
    unfolding unpackResourceBody_def by (rule yields_bind) simp
qed

section \<open>The parser as a whole\<close>

lemma checkAdvance_calm: "checkAdvance sec p = (Some e, p') \<Longrightarrow> \<not> panics e"
  by (auto simp: checkAdvance_def Let_def split: if_splits)

lemma Question_yields: "yields (\<lambda>q. name_shape (q_Name q)) (fst (parser_Question p))"
  using yields_question by (fastforce simp: parser_Question_def yields_def split: prod.splits option.splits sum.splits dest: checkAdvance_calm)

text \<open>A header that waits for its body has been parsed.\<close>

definition parser_inv :: "Parser \<Rightarrow> bool" where
  "parser_inv p \<longleftrightarrow> (ps_resHeaderValid p \<longrightarrow> name_shape (rr_Name (ps_resHeader p)))"

lemma checkAdvance_inv: "checkAdvance sec p = (eo, p') \<Longrightarrow> parser_inv p \<Longrightarrow> parser_inv p'"
  by (auto simp: checkAdvance_def parser_inv_def Let_def split: if_splits)

lemma resourceHeader_yields:
  assumes "parser_inv p"
  shows "yields (\<lambda>h. name_shape (rr_Name h)) (fst (resourceHeader sec p)) \<and> parser_inv (snd (resourceHeader sec p))"
proof (cases "ps_resHeaderValid p")
  case True
  with assms show ?thesis by (simp add: resourceHeader_def parser_inv_def)
next
  case False
  obtain eo p' where c: "checkAdvance sec p = (eo, p')" by fastforce
  with False assms checkAdvance_inv [OF c] checkAdvance_calm [of sec p] yields_header [of "ps_msg p'" "ps_off p'"] show ?thesis
    by (auto simp: resourceHeader_def yields_def parser_inv_def split: option.splits sum.splits prod.splits)
qed

lemma parse_resource_yields:
  assumes "parser_inv p"
  shows "yields resource_shape (fst (parse_resource sec p)) \<and> parser_inv (snd (parse_resource sec p))"
proof -
  obtain r p' where h: "resourceHeader sec p = (r, p')" by fastforce
  note y = resourceHeader_yields [OF assms, of sec, unfolded h, simplified]
  show ?thesis
  proof (cases r)
    case (Inl e)
    with h y show ?thesis by (simp add: parse_resource_def)
  next
    case (Inr hdr)
    with h y yields_body [of hdr "ps_msg p'" "ps_off p'"] show ?thesis
      by (cases "unpackResourceBody (ps_msg p') (ps_off p') hdr")
        (auto simp: parse_resource_def resource_shape_def parser_inv_def Let_def nest_def)
  qed
qed

lemma all_questions_yields:
  "list_all (\<lambda>q. name_shape (q_Name q)) qs \<Longrightarrow> parser_inv p \<Longrightarrow>
     yields (list_all (\<lambda>q. name_shape (q_Name q))) (fst (all_questions qs p)) \<and> parser_inv (snd (all_questions qs p))"
proof (induction qs p rule: all_questions.induct)
  case (1 qs p)
  obtain r p' where q: "parser_Question p = (r, p')" by fastforce
  have "parser_inv p'"
    using q 1(3) checkAdvance_inv [of sectionQuestions p] by (auto simp: parser_Question_def parser_inv_def split: prod.splits option.splits sum.splits)
  then show ?case
    using q 1 Question_yields [of p] by (subst (1 2) all_questions.simps) (cases r; auto)
qed

lemma all_resources_yields:
  "list_all resource_shape rs \<Longrightarrow> parser_inv p \<Longrightarrow>
     yields (list_all resource_shape) (fst (all_resources sec rs p)) \<and> parser_inv (snd (all_resources sec rs p))"
proof (induction sec rs p rule: all_resources.induct)
  case (1 sec rs p)
  obtain r p' where r: "parse_resource sec p = (r, p')" by fastforce
  show ?case
    using r 1 parse_resource_yields [OF 1(3), of sec] by (subst (1 2) all_resources.simps) (cases r; auto)
qed

lemma yields_Unpack: "yields message_shape (Unpack msg)"
proof -
  have and15: "(w :: u16) AND 0xF < 16" for w
    using word_and_le2 [of "0xF" w] by (simp add: and.commute le_less_trans [where y = "0xF"])
  obtain r p where start: "Parser_Start msg = (r, p)" by fastforce
  show ?thesis
  proof (cases r)
    case (Inl e)
    with start yields_wire_header [of msg 0] show ?thesis
      by (auto simp: Unpack_def Parser_Start_def Let_def yields_def nest_def split: sum.splits)
  next
    case (Inr h)
    have p: "parser_inv p" and h: "dh_OpCode h < 16" "dh_RCode h < 16"
      using start Inr and15
      by (auto simp: Parser_Start_def Let_def nest_def parser_inv_def zero_parser_def header_header_def split: sum.splits)
    obtain qs p1 where q: "all_questions [] p = (qs, p1)" by fastforce
    obtain an p2 where an: "all_resources sectionAnswers [] p1 = (an, p2)" by fastforce
    obtain au p3 where au: "all_resources sectionAuthorities [] p2 = (au, p3)" by fastforce
    obtain ad p4 where ad: "all_resources sectionAdditionals [] p3 = (ad, p4)" by fastforce
    note y = all_questions_yields [of "[]", OF _ p, unfolded q, simplified]
    note yn = all_resources_yields [of "[]" p1 sectionAnswers, unfolded an, simplified]
    note yu = all_resources_yields [of "[]" p2 sectionAuthorities, unfolded au, simplified]
    note yd = all_resources_yields [of "[]" p3 sectionAdditionals, unfolded ad, simplified]
    show ?thesis
      using start Inr q an au ad y yn yu yd h
      by (cases qs; cases an; cases au; cases ad)
        (simp_all add: Unpack_def AllQuestions_def AllAnswers_def AllAuthorities_def AllAdditionals_def message_shape_def)
  qed
qed

lemma skip_name_calm: "yields (\<lambda>off. True) (skip_name_loop msg off)"
proof (induction msg off rule: skip_name_loop.induct)
  case (1 msg off)
  show ?case
    using "1.IH" [of "msg ! off"] by (subst skip_name_loop_eq) (auto simp: dns_index_def Let_def)
qed

lemma yields_skip:
  "yields (\<lambda>off. True) (skip_question msg off)" "yields (\<lambda>off. True) (skipResource msg off)"
proof -
  have 16: "yields (\<lambda>off. True) (skipUint16 msg off)" and 32: "yields (\<lambda>off. True) (skipUint32 msg off)" for off
    by (simp_all add: skipUint16_def skipUint32_def)
  show "yields (\<lambda>off. True) (skip_question msg off)"
    unfolding skip_question_def skipName_def skipType_def skipClass_def
    by (intro yields_bind [where P = "\<lambda>off. True"]) (simp_all add: skip_name_calm 16)
  show "yields (\<lambda>off. True) (skipResource msg off)"
    unfolding skipResource_def skipName_def skipType_def skipClass_def
    by (intro yields_bind [where P = "\<lambda>off. True"] yields_step [where P = "\<lambda>len. True", OF yields_uint16])
      (simp_all add: skip_name_calm 16 32 Let_def)
qed

lemma skip_calm:
  "skip_question msg off = Inl e \<Longrightarrow> \<not> panics e" "skipResource msg off = Inl e \<Longrightarrow> \<not> panics e"
  using yields_skip [of msg off] by simp_all

text \<open>
  C11.  On any octets, the parser stays within the message: the error of \<^verbatim>\<open>Unpack\<close> is never an index or a slice out of
  range, and neither is the error of skipping a question or a resource in any state of the parser.  A
  message that \<^verbatim>\<open>Unpack\<close> returns has canonical names in full arrays, codes of four bits, and resources whose body
  has the type that their header says and addresses of four or sixteen octets.
\<close>

theorem unpack_shape:
  "(case Unpack msg of Inl e \<Rightarrow> \<not> panics e | Inr m \<Rightarrow> message_shape m) \<and>
   (case fst (SkipQuestion p) of Inl e \<Rightarrow> \<not> panics e | Inr _ \<Rightarrow> True) \<and>
   (case fst (parser_skipResource sec p) of Inl e \<Rightarrow> \<not> panics e | Inr _ \<Rightarrow> True)"
proof -
  have "case fst (SkipQuestion p) of Inl e \<Rightarrow> \<not> panics e | Inr _ \<Rightarrow> True"
    by (auto simp: SkipQuestion_def split: sum.splits prod.splits option.splits dest: checkAdvance_calm skip_calm)
  moreover have "case fst (parser_skipResource sec p) of Inl e \<Rightarrow> \<not> panics e | Inr _ \<Rightarrow> True"
    by (auto simp: parser_skipResource_def nest_def Let_def split: sum.splits prod.splits option.splits dest: checkAdvance_calm skip_calm)
  ultimately show ?thesis
    using yields_Unpack [of msg] by (simp add: yields_def)
qed

text \<open>A question and an answer whose name is a pointer, and the same message without its last octet.\<close>

definition sample_message :: bytes where
  "sample_message = [0, 7, 0x81, 0x80, 0, 1, 0, 1, 0, 0, 0, 0, 1, 0x61, 0, 0, 1, 0, 1,
     0xC0, 12, 0, 1, 0, 1, 0, 0, 0, 60, 0, 4, 1, 2, 3, 4]"

definition sample_unpacked :: Message where
  "sample_unpacked =
     (let n = \<lparr>name_Data = [0x61, 0x2e] @ replicate 253 0, name_Length = 2\<rparr> in
      \<lparr>m_Header = \<lparr>dh_ID = 7, dh_Response = True, dh_OpCode = 0, dh_Authoritative = False, dh_Truncated = False,
         dh_RecursionDesired = True, dh_RecursionAvailable = True, dh_RCode = 0\<rparr>,
       m_Questions = [\<lparr>q_Name = n, q_Type = TypeA, q_Class = ClassINET\<rparr>],
       m_Answers = [\<lparr>rs_Header = \<lparr>rr_Name = n, rr_Type = TypeA, rr_Class = ClassINET, rr_TTL = 60, rr_Length = 4\<rparr>,
         rs_Body = Some (AResource [1, 2, 3, 4])\<rparr>],
       m_Authorities = [], m_Additionals = []\<rparr>)"

lemma sample_unpacks: "Unpack sample_message = Inr sample_unpacked"
  by code_simp

lemma sample_cut: "case Unpack (butlast sample_message) of Inl e \<Rightarrow> True | Inr _ \<Rightarrow> False"
  by code_simp

theorem unpack_shape_witness:
  "Unpack sample_message = Inr sample_unpacked \<and> message_shape sample_unpacked \<and>
   (\<exists>e. Unpack (butlast sample_message) = Inl e \<and> \<not> panics e)"
  using unpack_shape [of sample_message] unpack_shape [of "butlast sample_message"] sample_unpacks sample_cut
  by (auto split: sum.splits)

section \<open>Skipping\<close>

lemma skip_name_agrees:
  "name_unpack_loop msg cur new 0 name = Inr (nm, off) \<Longrightarrow> skip_name_loop msg cur = Inr off"
proof (induction msg cur new "0 :: nat" name rule: name_unpack_loop_induct)
  case (step msg cur new name)
  note seg = step.hyps(1) [simplified]
  show ?case
    using step.prems
    by (auto simp: name_unpack_loop_eq [of msg cur new 0 name] skip_name_loop_eq [of msg cur] Let_def not_le not_less split: if_splits
        dest: seg name_unpack_loop_progress)
qed

lemma skipName_agrees: "Name_unpack msg off = Inr (n, off') \<Longrightarrow> skipName msg off = Inr off'"
  by (auto simp: Name_unpack_def skipName_def Let_def split: if_splits dest: skip_name_agrees)

lemma skip_integers_agree:
  "unpackUint16 msg off = Inr (v, off') \<Longrightarrow> skipUint16 msg off = Inr off'"
  "unpackUint32 msg off = Inr (u, off') \<Longrightarrow> skipUint32 msg off = Inr off'"
  using unpack_integers_progress skip_integers_progress by blast+

lemma nest_Inr [simp]: "nest s (Inr x) = Inr x"
  by (simp add: nest_def)

lemma skip_question_agrees: "unpack_question msg off = Inr (q, off') \<Longrightarrow> skip_question msg off = Inr off'"
  by (auto simp: unpack_question_def skip_question_def unpackType_def unpackClass_def skipType_def skipClass_def
      dest!: skipName_agrees skip_integers_agree)

lemma skipResource_agrees:
  assumes "ResourceHeader_unpack msg off = Inr (h, off')"
  shows "skipResource msg off = (if off' + unat (rr_Length h) > length msg then Inl errResourceLen else Inr (off' + unat (rr_Length h)))"
proof -
  obtain a o1 b o2 c o3 d o4 where "Name_unpack msg off = Inr (a, o1)" "unpackUint16 msg o1 = Inr (b, o2)" "unpackUint16 msg o2 = Inr (c, o3)"
      "unpackUint32 msg o3 = Inr (d, o4)" "unpackUint16 msg o4 = Inr (rr_Length h, off')"
    using assms by (auto simp: ResourceHeader_unpack_def unpackType_def unpackClass_def)
  then show ?thesis
    by (simp add: skipResource_def skipType_def skipClass_def Let_def skipName_agrees skip_integers_agree)
qed

lemma SkipQuestion_agrees: "parser_Question p = (Inr q, p') \<Longrightarrow> SkipQuestion p = (Inr (), p')"
  by (auto simp: parser_Question_def SkipQuestion_def split: prod.splits option.splits sum.splits dest: skip_question_agrees)

lemma parser_skipResource_agrees:
  assumes "parse_resource sec p = (Inr r, p')"
  shows "if ps_off p' \<le> length (ps_msg p) then \<exists>h. parser_skipResource sec p = (Inr (), p'\<lparr>ps_resHeader := h\<rparr>)
    else \<exists>e p''. parser_skipResource sec p = (Inl e, p'')"
proof (cases "ps_resHeaderValid p")
  case True
  with assms show ?thesis
    by (auto simp: parse_resource_def resourceHeader_def parser_skipResource_def unpackResourceBody_def Let_def nest_def
        split: sum.splits prod.splits intro!: exI [of _ "ps_resHeader p"])
next
  case False
  then obtain p1 h off where p1: "checkAdvance sec p = (None, p1)" "ResourceHeader_unpack (ps_msg p1) (ps_off p1) = Inr (h, off)"
      "p' = p1\<lparr>ps_resHeaderValid := False, ps_resHeader := h, ps_off := off + unat (rr_Length h), ps_index := ps_index p1 + 1\<rparr>"
    using assms by (auto simp: parse_resource_def resourceHeader_def unpackResourceBody_def Let_def nest_def
        split: sum.splits prod.splits option.splits)
  have keeps: "ps_msg p1 = ps_msg p" "\<not> ps_resHeaderValid p1"
    using checkAdvance_keeps [OF p1(1)] by simp_all
  then have same: "p1\<lparr>ps_resHeaderValid := False\<rparr> = p1"
    by (cases p1) simp
  have "p'\<lparr>ps_resHeader := ps_resHeader p1\<rparr> = p1\<lparr>ps_resHeaderValid := False\<rparr>\<lparr>ps_off := off + unat (rr_Length h), ps_index := ps_index p1 + 1\<rparr>"
    by (simp add: p1(3))
  with False p1 keeps skipResource_agrees [OF p1(2)] show ?thesis
    by (auto simp: parser_skipResource_def nest_def same intro!: exI [of _ "ps_resHeader p1"])
qed

text \<open>
  C33.  Skipping agrees with parsing: a question that parses is skipped to the same parser, and so is a resource,
  but for the header it keeps, unless its declared length leads past the end of the message: parsing accepts
  that, and skipping does not.
\<close>

theorem skip_agrees:
  "(parser_Question p = (Inr q, p') \<longrightarrow> SkipQuestion p = (Inr (), p')) \<and>
   (parse_resource sec p1 = (Inr r, p2) \<longrightarrow>
      (if ps_off p2 \<le> length (ps_msg p1) then \<exists>h. parser_skipResource sec p1 = (Inr (), p2\<lparr>ps_resHeader := h\<rparr>)
       else \<exists>e p3. parser_skipResource sec p1 = (Inl e, p3)))"
  using SkipQuestion_agrees parser_skipResource_agrees by blast

text \<open>Octets that are a question and also a resource, at the root.\<close>

definition sample_parser :: "dns_section \<Rightarrow> Parser" where
  "sample_parser sec =
     zero_parser\<lparr>ps_msg := [0, 0, 1, 0, 1, 0, 0, 0, 60, 0, 4, 1, 2, 3, 4],
       ps_header := zero_wire_header\<lparr>wh_questions := 1, wh_answers := 1\<rparr>, ps_section := sec\<rparr>"

definition root_name :: dns_Name where
  "root_name = \<lparr>name_Data = 0x2e # replicate 254 0, name_Length = 1\<rparr>"

lemma sample_name_unpack: "Name_unpack [0, 0, 1, 0, 1, 0, 0, 0, 60, 0, 4, 1, 2, 3, 4] 0 = Inr (root_name, 1)"
  by (subst Name_unpack_def, subst name_unpack_loop_eq) (simp add: root_name_def nameLen_def)

lemmas sample_octets = sample_parser_def zero_parser_def zero_wire_header_def checkAdvance_def header_count_def sample_name_unpack
  unpackType_def unpackClass_def unpackUint16_def unpackUint32_def dns_index_def go_defs

lemma sample_question:
  "parser_Question (sample_parser sectionQuestions) =
     (Inr \<lparr>q_Name = root_name, q_Type = TypeA, q_Class = ClassINET\<rparr>, (sample_parser sectionQuestions)\<lparr>ps_off := 5, ps_index := 1\<rparr>)"
  by (simp add: parser_Question_def unpack_question_def sample_octets del: res_bind_eq_Inr)

lemma sample_resource:
  "parse_resource sectionAnswers (sample_parser sectionAnswers) =
     (Inr \<lparr>rs_Header = \<lparr>rr_Name = root_name, rr_Type = TypeA, rr_Class = ClassINET, rr_TTL = 60, rr_Length = 4\<rparr>,
       rs_Body = Some (AResource [1, 2, 3, 4])\<rparr>,
      (sample_parser sectionAnswers)\<lparr>ps_off := 15, ps_index := 1,
        ps_resHeader := \<lparr>rr_Name = root_name, rr_Type = TypeA, rr_Class = ClassINET, rr_TTL = 60, rr_Length = 4\<rparr>\<rparr>)"
  by (simp add: parse_resource_def resourceHeader_def ResourceHeader_unpack_def unpackResourceBody_def unpack_body_def unpackAResource_def
      unpackBytes_def dns_slice_def sample_octets del: res_bind_eq_Inr)

theorem skip_agrees_witness:
  "SkipQuestion (sample_parser sectionQuestions) = (Inr (), (sample_parser sectionQuestions)\<lparr>ps_off := 5, ps_index := 1\<rparr>) \<and>
   (\<exists>h. parser_skipResource sectionAnswers (sample_parser sectionAnswers) =
      (Inr (), (sample_parser sectionAnswers)\<lparr>ps_off := 15, ps_index := 1, ps_resHeader := h\<rparr>))"
proof -
  have l: "length (ps_msg (sample_parser sectionAnswers)) = 15"
    by (simp add: sample_parser_def zero_parser_def)
  show ?thesis
    using skip_agrees [THEN conjunct1, THEN mp, OF sample_question] skip_agrees [THEN conjunct2, THEN mp, OF sample_resource] l by simp
qed

end
