(* ===== verification/WebDAV_Names.thy ===== *)
theory WebDAV_Names
  imports GoPrelude
begin

text \<open>
  Package \<^verbatim>\<open>webdav\<close>: names of resources.  \<^verbatim>\<open>slashClean\<close> of \<^verbatim>\<open>webdav/file.go\<close> with what it uses of \<^verbatim>\<open>path.Clean\<close>, and
  \<^verbatim>\<open>walkToRoot\<close> of \<^verbatim>\<open>webdav/lock.go\<close>.  A name is clean when it is the name of a list of components; the walk goes
  through the prefixes of that list.
\<close>

section \<open>Clean names\<close>

fun split_slash :: "string \<Rightarrow> string list" where
  "split_slash [] = [[]]"
| "split_slash (c # s) =
     (if c = CHR ''/'' then [] # split_slash s
      else (case split_slash s of [] \<Rightarrow> [[c]] | p # ps \<Rightarrow> (c # p) # ps))"

fun clean_parts :: "string list \<Rightarrow> string list \<Rightarrow> string list" where
  "clean_parts acc [] = rev acc"
| "clean_parts acc (p # ps) =
     (if p = [] \<or> p = ''.'' then clean_parts acc ps
      else if p = ''..'' then clean_parts (tl acc) ps
      else clean_parts (p # acc) ps)"

definition path_name :: "string list \<Rightarrow> string" where
  "path_name cs = (if cs = [] then ''/'' else concat (map (\<lambda>p. CHR ''/'' # p) cs))"

text \<open>\<^verbatim>\<open>path.Clean\<close> on a name that begins with a slash.\<close>

definition path_Clean :: "string \<Rightarrow> string" where
  "path_Clean name = path_name (clean_parts [] (split_slash name))"

definition slashClean :: "string \<Rightarrow> string" where
  "slashClean name = path_Clean (if name = [] \<or> hd name \<noteq> CHR ''/'' then CHR ''/'' # name else name)"

definition part_ok :: "string \<Rightarrow> bool" where
  "part_ok p \<longleftrightarrow> p \<noteq> [] \<and> CHR ''/'' \<notin> set p"

lemma split_slash_parts: "p \<in> set (split_slash s) \<Longrightarrow> CHR ''/'' \<notin> set p"
  by (induction s arbitrary: p rule: split_slash.induct) (auto split: if_splits list.splits)

lemma clean_parts_ok: "list_all (\<lambda>p. CHR ''/'' \<notin> set p) ps \<Longrightarrow> list_all part_ok acc \<Longrightarrow> list_all part_ok (clean_parts acc ps)"
proof (induction acc ps rule: clean_parts.induct)
  case (2 acc p ps)
  then have "list_all part_ok (tl acc)"
    by (cases acc) simp_all
  moreover have "p \<noteq> [] \<Longrightarrow> part_ok p"
    using 2(4) by (simp add: part_ok_def)
  ultimately show ?case
    using 2 by simp
qed (simp add: list_all_iff)

lemma slashClean_clean: "\<exists>cs. list_all part_ok cs \<and> slashClean name = path_name cs"
proof -
  have "list_all part_ok (clean_parts [] (split_slash s))" for s
    using split_slash_parts by (intro clean_parts_ok) (simp_all add: list_all_iff)
  then show ?thesis
    unfolding slashClean_def path_Clean_def by blast
qed

lemma part_first: "CHR ''/'' \<notin> set p \<Longrightarrow> takeWhile (\<lambda>c. c \<noteq> CHR ''/'') (p @ concat (map (\<lambda>p. CHR ''/'' # p) ps)) = p"
  by (cases ps) (auto simp: takeWhile_append)

lemma parts_cut:
  assumes "CHR ''/'' \<notin> set p" "CHR ''/'' \<notin> set q" "p @ concat (map (\<lambda>p. CHR ''/'' # p) ps) = q @ concat (map (\<lambda>p. CHR ''/'' # p) qs)"
  shows "p = q \<and> concat (map (\<lambda>p. CHR ''/'' # p) ps) = concat (map (\<lambda>p. CHR ''/'' # p) qs)"
proof -
  have "p = q"
    using part_first [OF assms(1), of ps] part_first [OF assms(2), of qs] assms(3) by simp
  with assms(3) show ?thesis by simp
qed

lemma concat_parts_inject:
  "list_all part_ok ps \<Longrightarrow> list_all part_ok qs \<Longrightarrow> concat (map (\<lambda>p. CHR ''/'' # p) ps) = concat (map (\<lambda>p. CHR ''/'' # p) qs) \<Longrightarrow> ps = qs"
proof (induction ps arbitrary: qs)
  case Nil
  then show ?case by (cases qs) auto
next
  case (Cons p ps)
  then obtain q qs' where qs: "qs = q # qs'" by (cases qs) auto
  with Cons.prems have "p = q \<and> concat (map (\<lambda>p. CHR ''/'' # p) ps) = concat (map (\<lambda>p. CHR ''/'' # p) qs')"
    by (intro parts_cut) (simp_all add: part_ok_def)
  with Cons.IH [of qs'] Cons.prems qs show ?case by simp
qed

lemma path_name_root: "list_all part_ok cs \<Longrightarrow> path_name cs = ''/'' \<longleftrightarrow> cs = []"
  by (cases cs) (auto simp: path_name_def part_ok_def)

lemma path_name_inject: "list_all part_ok ps \<Longrightarrow> list_all part_ok qs \<Longrightarrow> path_name ps = path_name qs \<longleftrightarrow> ps = qs"
  using concat_parts_inject [of ps qs] path_name_root [of ps] path_name_root [of qs] by (auto simp: path_name_def split: if_splits)

section \<open>The walk to the root\<close>

text \<open>\<^verbatim>\<open>name[:strings.LastIndex(name, "/")]\<close>; without a slash the index is -1 and the slice panics.\<close>

definition before_last_slash :: "string \<Rightarrow> string option" where
  "before_last_slash name =
     (if CHR ''/'' \<in> set name then Some (rev (tl (dropWhile (\<lambda>c. c \<noteq> CHR ''/'') (rev name)))) else None)"

lemma before_last_slash_length:
  assumes "before_last_slash name = Some n"
  shows "length n < length name"
proof -
  have "length (dropWhile (\<lambda>c. c \<noteq> CHR ''/'') (rev name)) \<le> length name" "0 < length name"
    using assms length_dropWhile_le [of _ "rev name"] by (auto simp: before_last_slash_def split: if_splits)
  moreover have "n = rev (tl (dropWhile (\<lambda>c. c \<noteq> CHR ''/'') (rev name)))"
    using assms by (simp add: before_last_slash_def split: if_splits)
  ultimately show ?thesis by (simp del: length_greater_0_conv)
qed

lemma before_last_slash_snoc: "part_ok p \<Longrightarrow> before_last_slash (s @ CHR ''/'' # p) = Some s"
proof -
  assume p: "part_ok p"
  have "dropWhile (\<lambda>c. c \<noteq> CHR ''/'') (rev p @ CHR ''/'' # rev s) = CHR ''/'' # rev s"
    using p by (subst dropWhile_append2) (auto simp: part_ok_def)
  then show ?thesis by (simp add: before_last_slash_def)
qed

text \<open>The callback may panic and changes a state.\<close>

function walkToRoot :: "(string \<Rightarrow> bool \<Rightarrow> 's \<Rightarrow> (bool \<times> 's) option) \<Rightarrow> bool \<Rightarrow> string \<Rightarrow> 's \<Rightarrow> (bool \<times> 's) option" where
  "walkToRoot f first name st =
     (case f name first st of
        None \<Rightarrow> None
      | Some (ok, st) \<Rightarrow>
          if \<not> ok then Some (False, st)
          else if name = ''/'' then Some (True, st)
          else
            (case before_last_slash name of
               None \<Rightarrow> None
             | Some name \<Rightarrow> walkToRoot f False (if name = [] then ''/'' else name) st))"
  by pat_completeness auto
termination
proof (relation "measure (\<lambda>(f, first, name, st). length name)", goal_cases)
  case (2 f first name st x ok st' n)
  note n = before_last_slash_length [OF 2(5)]
  have "CHR ''/'' \<in> set name"
    using 2(5) by (auto simp: before_last_slash_def split: if_splits)
  with 2(4) have "length name \<noteq> 1"
    by (cases name) auto
  with n show ?case by auto
qed simp

declare walkToRoot.simps [simp del]

fun walk_list :: "(string \<Rightarrow> bool \<Rightarrow> 's \<Rightarrow> (bool \<times> 's) option) \<Rightarrow> bool \<Rightarrow> string list \<Rightarrow> 's \<Rightarrow> (bool \<times> 's) option" where
  "walk_list f first [] st = Some (True, st)"
| "walk_list f first (n # ns) st =
     (case f n first st of None \<Rightarrow> None | Some (ok, st) \<Rightarrow> if \<not> ok then Some (False, st) else walk_list f False ns st)"

text \<open>The prefixes of a list of components, the longest first.\<close>

fun ups :: "string list \<Rightarrow> string list list" where
  "ups cs = (if cs = [] then [[]] else cs # ups (butlast cs))"

declare ups.simps [simp del]

lemma path_name_snoc: "path_name (cs @ [p]) = concat (map (\<lambda>p. CHR ''/'' # p) cs) @ CHR ''/'' # p"
  by (simp add: path_name_def)

lemma walkToRoot_ups:
  "list_all part_ok cs \<Longrightarrow> walkToRoot f first (path_name cs) st = walk_list f first (map path_name (ups cs)) st"
proof (induction cs arbitrary: first st rule: rev_induct)
  case Nil
  then show ?case
    by (subst walkToRoot.simps) (simp add: ups.simps path_name_def split: option.split)
next
  case (snoc p cs)
  have p: "part_ok p" and cs: "list_all part_ok cs"
    using snoc.prems by simp_all
  have "path_name (cs @ [p]) \<noteq> ''/''"
    using snoc.prems by (simp add: path_name_root)
  moreover have "before_last_slash (path_name (cs @ [p])) = Some (concat (map (\<lambda>p. CHR ''/'' # p) cs))"
    unfolding path_name_snoc by (rule before_last_slash_snoc [OF p])
  moreover have "(if concat (map (\<lambda>p. CHR ''/'' # p) cs) = [] then ''/'' else concat (map (\<lambda>p. CHR ''/'' # p) cs)) = path_name cs"
    by (auto simp: path_name_def)
  ultimately show ?case
    using snoc.IH [OF cs] by (subst walkToRoot.simps) (simp add: ups.simps [of "cs @ [p]"] split: option.split)
qed

lemma set_ups: "set (ups cs) = {ps. prefix ps cs}"
proof (induction cs rule: rev_induct)
  case (snoc p cs)
  then show ?case by (subst ups.simps) auto
qed (simp add: ups.simps)

lemma distinct_ups: "distinct (ups cs)"
proof (induction cs rule: rev_induct)
  case (snoc p cs)
  then show ?case by (subst ups.simps) (auto simp: set_ups)
qed (simp add: ups.simps)

lemma hd_ups: "ups cs = cs # tl (ups cs)"
  by (subst (1 2) ups.simps) simp

end
