(* ===== verification/WebDAV_Heap.thy ===== *)
theory WebDAV_Heap
  imports WebDAV_Names
begin

text \<open>
  Package \<^verbatim>\<open>webdav\<close>, file \<^verbatim>\<open>webdav/lock.go\<close>: the state of the lock system and its heap of expiring locks, with what it
  uses of \<^verbatim>\<open>container/heap\<close>.  Nodes live in a store and are named by addresses, as the code names them by
  pointers; a node knows its index in the heap.  Instants and durations are integers.
\<close>

section \<open>State\<close>

record LockDetails =
  ld_Root :: string
  ld_Duration :: int
  ld_OwnerXML :: string
  ld_ZeroDepth :: bool

record memLSNode =
  nd_details :: LockDetails
  nd_token :: string
  nd_refCount :: int
  nd_expiry :: int
  nd_byExpiryIndex :: int
  nd_held :: bool

record memLS =
  ls_nodes :: "nat \<Rightarrow> memLSNode"
  ls_fresh :: nat
  ls_byName :: "string \<rightharpoonup> nat"
  ls_byToken :: "string \<rightharpoonup> nat"
  ls_gen :: u64
  ls_byExpiry :: "nat list"

definition set_node :: "nat \<Rightarrow> memLSNode \<Rightarrow> memLS \<Rightarrow> memLS" where
  "set_node a n m = m\<lparr>ls_nodes := (ls_nodes m)(a := n)\<rparr>"

section \<open>The heap interface\<close>

definition exp_Less :: "memLS \<Rightarrow> nat \<Rightarrow> nat \<Rightarrow> bool" where
  "exp_Less m i j \<longleftrightarrow> nd_expiry (ls_nodes m (ls_byExpiry m ! i)) < nd_expiry (ls_nodes m (ls_byExpiry m ! j))"

definition exp_Swap :: "nat \<Rightarrow> nat \<Rightarrow> memLS \<Rightarrow> memLS" where
  "exp_Swap i j m =
     (let b = ls_byExpiry m; b = b[i := b ! j, j := b ! i];
          m = m\<lparr>ls_byExpiry := b\<rparr>;
          m = set_node (b ! i) ((ls_nodes m (b ! i))\<lparr>nd_byExpiryIndex := int i\<rparr>) m
      in set_node (b ! j) ((ls_nodes m (b ! j))\<lparr>nd_byExpiryIndex := int j\<rparr>) m)"

definition exp_Push :: "nat \<Rightarrow> memLS \<Rightarrow> memLS" where
  "exp_Push n m =
     (set_node n ((ls_nodes m n)\<lparr>nd_byExpiryIndex := int (length (ls_byExpiry m))\<rparr>) m)\<lparr>ls_byExpiry := ls_byExpiry m @ [n]\<rparr>"

definition exp_Pop :: "memLS \<Rightarrow> memLS" where
  "exp_Pop m =
     (let n = last (ls_byExpiry m) in
      (set_node n ((ls_nodes m n)\<lparr>nd_byExpiryIndex := - 1\<rparr>) m)\<lparr>ls_byExpiry := butlast (ls_byExpiry m)\<rparr>)"

function heap_up :: "nat \<Rightarrow> memLS \<Rightarrow> memLS" where
  "heap_up j m = (let i = (j - 1) div 2 in if i = j \<or> \<not> exp_Less m j i then m else heap_up i (exp_Swap i j m))"
  by pat_completeness auto
termination
  by (relation "measure fst") auto

text \<open>\<^verbatim>\<open>down\<close> tells where the element ends up.\<close>

function heap_down :: "nat \<Rightarrow> nat \<Rightarrow> memLS \<Rightarrow> nat \<times> memLS" where
  "heap_down i n m =
     (let j1 = 2 * i + 1 in
      if j1 \<ge> n then (i, m)
      else
        let j = (if j1 + 1 < n \<and> exp_Less m (j1 + 1) j1 then j1 + 1 else j1) in
        if \<not> exp_Less m j i then (i, m) else heap_down j n (exp_Swap i j m))"
  by pat_completeness auto
termination
  by (relation "measure (\<lambda>(i, n, m). n - i)") auto

declare heap_up.simps [simp del] heap_down.simps [simp del]

definition heap_Push :: "nat \<Rightarrow> memLS \<Rightarrow> memLS" where
  "heap_Push n m = heap_up (length (ls_byExpiry m)) (exp_Push n m)"

text \<open>An index out of range is a panic.\<close>

definition heap_Remove :: "int \<Rightarrow> memLS \<Rightarrow> memLS option" where
  "heap_Remove ix m =
     (let n = length (ls_byExpiry m) - 1; i = nat ix in
      if ix < 0 \<or> ix \<ge> int (length (ls_byExpiry m)) then None
      else if n \<noteq> i then
        (case heap_down i n (exp_Swap i n m) of
           (k, m) \<Rightarrow> Some (exp_Pop (if k > i then m else heap_up i m)))
      else Some (exp_Pop m))"

section \<open>Order\<close>

text \<open>The heap by its keys; \<open>edge\<close> is the order between a position and its parent.\<close>

definition edge :: "(nat \<Rightarrow> int) \<Rightarrow> nat \<Rightarrow> bool" where
  "edge k c \<longleftrightarrow> k ((c - 1) div 2) \<le> k c"

definition swapped :: "nat \<Rightarrow> nat \<Rightarrow> (nat \<Rightarrow> int) \<Rightarrow> nat \<Rightarrow> int" where
  "swapped i j k = k(i := k j, j := k i)"

definition keys :: "memLS \<Rightarrow> nat \<Rightarrow> int" where
  "keys m i = nd_expiry (ls_nodes m (ls_byExpiry m ! i))"

definition heap_ordered :: "memLS \<Rightarrow> bool" where
  "heap_ordered m \<longleftrightarrow> (\<forall>c. 0 < c \<and> c < length (ls_byExpiry m) \<longrightarrow> edge (keys m) c)"

lemma child_cases: "0 < c \<Longrightarrow> (c - 1) div 2 = i \<longleftrightarrow> c = 2 * i + 1 \<or> c = 2 * i + (2 :: nat)"
  by presburger

lemma parent_less: "0 < c \<Longrightarrow> (c - 1) div 2 < (c :: nat)"
  by presburger

text \<open>One step up: the position above is larger.\<close>

lemma up_step:
  assumes "0 < j" "i = (j - 1) div 2" "k j < k i"
    and "\<And>c. 0 < c \<Longrightarrow> c < n \<Longrightarrow> c \<noteq> j \<Longrightarrow> edge k c" "\<And>c. 0 < c \<Longrightarrow> c < n \<Longrightarrow> (c - 1) div 2 = j \<Longrightarrow> k i \<le> k c" "j < n"
    and "0 < c" "c < n"
  shows "c \<noteq> i \<Longrightarrow> edge (swapped i j k) c" "(c - 1) div 2 = i \<Longrightarrow> 0 < i \<Longrightarrow> swapped i j k ((i - 1) div 2) \<le> swapped i j k c"
proof -
  have ij: "i < j" using assms(1,2) parent_less by simp
  show "edge (swapped i j k) c" if "c \<noteq> i"
  proof (cases "c = j")
    case True
    then show ?thesis using assms(2,3) ij by (simp add: edge_def swapped_def)
  next
    case False
    have e: "edge k c" using assms(4,7,8) False by simp
    show ?thesis
    proof (cases "(c - 1) div 2 = j")
      case True
      then show ?thesis using assms(5) [OF assms(7,8) True] that False ij by (auto simp: edge_def swapped_def)
    next
      case nj: False
      show ?thesis
        using e that False nj assms(3) by (auto simp: edge_def swapped_def)
    qed
  qed
  show "swapped i j k ((i - 1) div 2) \<le> swapped i j k c" if c: "(c - 1) div 2 = i" and i: "0 < i"
  proof -
    have p: "(i - 1) div 2 < i" by (rule parent_less [OF i])
    have up: "k ((i - 1) div 2) \<le> k i" using assms(4) [OF i] assms(6) ij by (simp add: edge_def)
    have "c \<noteq> i" using c parent_less [OF assms(7)] by auto
    show ?thesis
    proof (cases "c = j")
      case True
      then show ?thesis using p ij up by (simp add: swapped_def)
    next
      case False
      then have "k i \<le> k c" using assms(4) [OF assms(7,8)] c by (simp add: edge_def)
      with up p ij False \<open>c \<noteq> i\<close> show ?thesis by (simp add: swapped_def)
    qed
  qed
qed

section \<open>Indices\<close>

text \<open>\<open>m'\<close> differs from \<open>m\<close> at most in the heap and in the indices of the nodes of \<open>S\<close>.\<close>

definition ls_kept :: "nat set \<Rightarrow> memLS \<Rightarrow> memLS \<Rightarrow> bool" where
  "ls_kept S m m' \<longleftrightarrow>
     (\<exists>ns b. m' = m\<lparr>ls_nodes := ns, ls_byExpiry := b\<rparr> \<and> (\<forall>a. (\<exists>ix. ns a = (ls_nodes m a)\<lparr>nd_byExpiryIndex := ix\<rparr>) \<and> (a \<notin> S \<longrightarrow> ns a = ls_nodes m a)))"

definition heap_indexed :: "memLS \<Rightarrow> bool" where
  "heap_indexed m \<longleftrightarrow>
     distinct (ls_byExpiry m) \<and>
     (\<forall>i < length (ls_byExpiry m). nd_byExpiryIndex (ls_nodes m (ls_byExpiry m ! i)) = int i)"

lemma node_index_self: "\<exists>ix. n = n\<lparr>nd_byExpiryIndex := ix\<rparr>" for n :: memLSNode
  by (rule exI [of _ "nd_byExpiryIndex n"]) simp

lemma ls_kept_refl: "ls_kept S m m"
  unfolding ls_kept_def by (intro exI [of _ "ls_nodes m"] exI [of _ "ls_byExpiry m"]) (simp add: node_index_self)

lemma ls_kept_node: "ls_kept S m m' \<Longrightarrow> \<exists>ix. ls_nodes m' a = (ls_nodes m a)\<lparr>nd_byExpiryIndex := ix\<rparr>"
  by (auto simp: ls_kept_def)

lemma ls_kept_other: "ls_kept S m m' \<Longrightarrow> a \<notin> S \<Longrightarrow> ls_nodes m' a = ls_nodes m a"
  by (auto simp: ls_kept_def)

lemma ls_kept_fields [simp]:
  assumes "ls_kept S m m'"
  shows "ls_fresh m' = ls_fresh m" "ls_byName m' = ls_byName m" "ls_byToken m' = ls_byToken m" "ls_gen m' = ls_gen m"
    "nd_details (ls_nodes m' a) = nd_details (ls_nodes m a)" "nd_token (ls_nodes m' a) = nd_token (ls_nodes m a)"
    "nd_refCount (ls_nodes m' a) = nd_refCount (ls_nodes m a)" "nd_expiry (ls_nodes m' a) = nd_expiry (ls_nodes m a)"
    "nd_held (ls_nodes m' a) = nd_held (ls_nodes m a)"
  using assms ls_kept_node [OF assms, of a] by (auto simp: ls_kept_def)

lemma ls_kept_trans:
  assumes "ls_kept S m m1" "ls_kept T m1 m2" "S \<subseteq> U" "T \<subseteq> U"
  shows "ls_kept U m m2"
proof -
  have "\<exists>ix. ls_nodes m2 a = (ls_nodes m a)\<lparr>nd_byExpiryIndex := ix\<rparr>" for a
    using ls_kept_node [OF assms(1), of a] ls_kept_node [OF assms(2), of a] by auto
  moreover have "ls_nodes m2 a = ls_nodes m a" if "a \<notin> U" for a
  proof -
    have "a \<notin> S" "a \<notin> T" using that assms(3,4) by auto
    then show ?thesis using ls_kept_other [OF assms(1)] ls_kept_other [OF assms(2)] by simp
  qed
  moreover have "m2 = m\<lparr>ls_nodes := ls_nodes m2, ls_byExpiry := ls_byExpiry m2\<rparr>"
    by (rule memLS.equality) (simp_all add: ls_kept_fields [OF assms(1)] ls_kept_fields [OF assms(2)])
  ultimately show ?thesis
    unfolding ls_kept_def by (intro exI [of _ "ls_nodes m2"] exI [of _ "ls_byExpiry m2"]) blast
qed

lemma exp_Swap_facts:
  assumes "heap_indexed m" "i < length (ls_byExpiry m)" "j < length (ls_byExpiry m)"
  shows "ls_kept (set (ls_byExpiry m)) m (exp_Swap i j m)" "heap_indexed (exp_Swap i j m)" "set (ls_byExpiry (exp_Swap i j m)) = set (ls_byExpiry m)"
    "length (ls_byExpiry (exp_Swap i j m)) = length (ls_byExpiry m)" "keys (exp_Swap i j m) = swapped i j (keys m)"
    "x \<noteq> i \<Longrightarrow> x \<noteq> j \<Longrightarrow> ls_byExpiry (exp_Swap i j m) ! x = ls_byExpiry m ! x"
proof -
  let ?b = "ls_byExpiry m" and ?m = "exp_Swap i j m"
  have b: "ls_byExpiry ?m = ?b[i := ?b ! j, j := ?b ! i]"
    by (simp add: exp_Swap_def Let_def set_node_def)
  have dist: "distinct ?b" using assms(1) by (simp add: heap_indexed_def)
  have nodes: "ls_nodes ?m a = (if a = ?b ! i then (ls_nodes m a)\<lparr>nd_byExpiryIndex := int j\<rparr>
      else if a = ?b ! j then (ls_nodes m a)\<lparr>nd_byExpiryIndex := int i\<rparr> else ls_nodes m a)" for a
    using assms(2,3) by (auto simp: exp_Swap_def Let_def set_node_def nth_list_update)
  show k: "ls_kept (set ?b) m ?m"
    unfolding ls_kept_def
  proof (intro exI [of _ "ls_nodes ?m"] exI [of _ "ls_byExpiry ?m"] conjI allI impI)
    show "?m = m\<lparr>ls_nodes := ls_nodes ?m, ls_byExpiry := ls_byExpiry ?m\<rparr>"
      by (simp add: exp_Swap_def Let_def set_node_def)
    show "\<exists>ix. ls_nodes ?m a = (ls_nodes m a)\<lparr>nd_byExpiryIndex := ix\<rparr>" for a
      by (cases "ls_nodes m a") (auto simp: nodes intro: exI [of _ "nd_byExpiryIndex (ls_nodes m a)"])
    show "ls_nodes ?m a = ls_nodes m a" if "a \<notin> set ?b" for a
      using that assms(2,3) by (auto simp: nodes)
  qed
  show "set (ls_byExpiry ?m) = set ?b" "length (ls_byExpiry ?m) = length ?b"
    using assms(2,3) by (simp_all add: b set_swap)
  show "x \<noteq> i \<Longrightarrow> x \<noteq> j \<Longrightarrow> ls_byExpiry ?m ! x = ?b ! x"
    by (simp add: b)
  show "keys ?m = swapped i j (keys m)"
    using assms(2,3) by (auto simp: keys_def ls_kept_fields(8) [OF k] b swapped_def nth_list_update fun_eq_iff)
  show "heap_indexed ?m"
    using assms(1) dist assms(2,3) nth_eq_iff_index_eq [OF dist]
    by (auto simp: heap_indexed_def b distinct_swap nodes nth_list_update)
qed

section \<open>Up and down\<close>

text \<open>What the loops promise: the first \<open>n\<close> positions are permuted, into order.\<close>

definition sifted :: "nat \<Rightarrow> memLS \<Rightarrow> memLS \<Rightarrow> bool" where
  "sifted n m m' \<longleftrightarrow>
     ls_kept (set (ls_byExpiry m)) m m' \<and> heap_indexed m' \<and> set (ls_byExpiry m') = set (ls_byExpiry m) \<and>
     length (ls_byExpiry m') = length (ls_byExpiry m) \<and> (\<forall>x \<ge> n. ls_byExpiry m' ! x = ls_byExpiry m ! x)"

lemma sifted_refl: "heap_indexed m \<Longrightarrow> sifted n m m"
  by (simp add: sifted_def ls_kept_refl)

lemma sifted_trans: "sifted n m m1 \<Longrightarrow> sifted n m1 m2 \<Longrightarrow> sifted n m m2"
  unfolding sifted_def using ls_kept_trans [of _ m m1 _ m2] by auto

lemma sifted_swap:
  assumes "heap_indexed m" "i < n" "j < n" "n \<le> length (ls_byExpiry m)"
  shows "sifted n m (exp_Swap i j m)"
  using exp_Swap_facts [OF assms(1), of i j] assms(2-4) by (simp add: sifted_def)

lemma heap_up_orders:
  assumes "heap_indexed m" "j < n" "n \<le> length (ls_byExpiry m)" "\<And>c. 0 < c \<Longrightarrow> c < n \<Longrightarrow> c \<noteq> j \<Longrightarrow> edge (keys m) c"
    and "\<And>c. 0 < j \<Longrightarrow> 0 < c \<Longrightarrow> c < n \<Longrightarrow> (c - 1) div 2 = j \<Longrightarrow> keys m ((j - 1) div 2) \<le> keys m c"
  shows "sifted n m (heap_up j m) \<and> (\<forall>c. 0 < c \<and> c < n \<longrightarrow> edge (keys (heap_up j m)) c)"
  using assms
proof (induction j m rule: heap_up.induct)
  case (1 j m)
  let ?i = "(j - 1) div 2"
  show ?case
  proof (cases "?i = j \<or> \<not> exp_Less m j ?i")
    case True
    have "edge (keys m) c" if "0 < c" "c < n" for c
    proof (cases "c = j")
      case j: True
      then have "\<not> exp_Less m j ?i"
        using True parent_less [OF that(1)] by auto
      with j show ?thesis by (simp add: edge_def exp_Less_def keys_def)
    qed (use that "1.prems"(4) in simp)
    with True "1.prems"(1) show ?thesis
      by (subst (1 2) heap_up.simps) (simp add: Let_def sifted_refl)
  next
    case False
    then have j: "0 < j" "keys m j < keys m ?i" "?i < n"
      using "1.prems"(2) parent_less [of j] by (auto simp: exp_Less_def keys_def intro: gr0I)
    let ?m = "exp_Swap ?i j m"
    note sw = exp_Swap_facts [OF "1.prems"(1), of ?i j]
    have len: "?i < length (ls_byExpiry m)" "j < length (ls_byExpiry m)"
      using "1.prems"(2,3) j(3) by simp_all
    have "sifted n ?m (heap_up ?i ?m) \<and> (\<forall>c. 0 < c \<and> c < n \<longrightarrow> edge (keys (heap_up ?i ?m)) c)"
    proof (rule "1.IH" [OF refl False])
      show "heap_indexed ?m" "?i < n" "n \<le> length (ls_byExpiry ?m)"
        using sw len j(3) "1.prems"(3) by simp_all
      show "edge (keys ?m) c" if "0 < c" "c < n" "c \<noteq> ?i" for c
        unfolding sw(5) [OF len] by (rule up_step(1) [where n = n, OF j(1) refl j(2)]) (use "1.prems" j(1) that in blast)+
      show "keys ?m ((?i - 1) div 2) \<le> keys ?m c" if "0 < ?i" "0 < c" "c < n" "(c - 1) div 2 = ?i" for c
        unfolding sw(5) [OF len] by (rule up_step(2) [where n = n, OF j(1) refl j(2)]) (use "1.prems" j(1) that in blast)+
    qed
    then show ?thesis
      using False sifted_trans [OF sifted_swap [OF "1.prems"(1) j(3) "1.prems"(2,3)]] by (subst (1 2) heap_up.simps) (simp add: Let_def)
  qed
qed

text \<open>One step down: \<open>j\<close> is the smaller child of \<open>i\<close>.\<close>

lemma down_step:
  assumes "j = 2 * i + 1 \<or> j = 2 * i + 2" "j < n" "k j < k i" "\<And>c. 0 < c \<Longrightarrow> c < n \<Longrightarrow> (c - 1) div 2 = i \<Longrightarrow> k j \<le> k c"
    and "\<And>c. 0 < c \<Longrightarrow> c < n \<Longrightarrow> c \<noteq> i \<Longrightarrow> (c - 1) div 2 \<noteq> i \<Longrightarrow> edge k c"
    and "\<And>c. 0 < i \<Longrightarrow> 0 < c \<Longrightarrow> c < n \<Longrightarrow> (c - 1) div 2 = i \<Longrightarrow> k ((i - 1) div 2) \<le> k c"
    and "0 < c" "c < n"
  shows "(c - 1) div 2 \<noteq> j \<Longrightarrow> edge (swapped i j k) c" "(c - 1) div 2 = j \<Longrightarrow> swapped i j k ((j - 1) div 2) \<le> swapped i j k c"
proof -
  have ij: "i < j" "0 < j" "(j - 1) div 2 = i" using assms(1) by auto
  show "edge (swapped i j k) c" if c: "(c - 1) div 2 \<noteq> j"
  proof (cases "(c - 1) div 2 = i")
    case True
    then have "c \<noteq> i" using parent_less [OF assms(7)] by auto
    then show ?thesis using True assms(3) assms(4) [OF assms(7,8) True] ij by (auto simp: edge_def swapped_def)
  next
    case False
    then have "c \<noteq> j" using ij by auto
    show ?thesis
    proof (cases "c = i")
      case True
      then show ?thesis
        using assms(6) [of j] assms(2,7) ij c False parent_less [of i] by (auto simp: edge_def swapped_def)
    next
      case ci: False
      then show ?thesis using assms(5) [OF assms(7,8) ci False] False c \<open>c \<noteq> j\<close> by (simp add: edge_def swapped_def)
    qed
  qed
  show "swapped i j k ((j - 1) div 2) \<le> swapped i j k c" if c: "(c - 1) div 2 = j"
  proof -
    have "j < c" using parent_less [OF assms(7)] c by simp
    then have "edge k c" using assms(5) [OF assms(7,8)] c ij by simp
    with c ij \<open>j < c\<close> show ?thesis by (simp add: edge_def swapped_def)
  qed
qed

text \<open>The smaller child, and a stop of the loop.\<close>

definition min_child :: "nat \<Rightarrow> nat \<Rightarrow> memLS \<Rightarrow> nat" where
  "min_child i n m = (if 2 * i + 1 + 1 < n \<and> exp_Less m (2 * i + 1 + 1) (2 * i + 1) then 2 * i + 1 + 1 else 2 * i + 1)"

lemma heap_down_unfold:
  "heap_down i n m = (if 2 * i + 1 \<ge> n \<or> \<not> exp_Less m (min_child i n m) i then (i, m) else heap_down (min_child i n m) n (exp_Swap i (min_child i n m) m))"
  by (subst heap_down.simps) (simp add: Let_def min_child_def)

lemma down_stops:
  assumes "2 * i + 1 \<ge> n \<or> \<not> exp_Less m (min_child i n m) i" "0 < c" "c < n" "(c - 1) div 2 = i"
  shows "edge (keys m) c"
proof -
  have "c = 2 * i + 1 \<or> c = 2 * i + 2"
    by (rule child_cases [OF assms(2), THEN iffD1, OF assms(4)])
  then show ?thesis
    using assms by (auto simp: edge_def exp_Less_def keys_def min_child_def split: if_splits)
qed

lemma down_goes:
  assumes "\<not> (2 * i + 1 \<ge> n \<or> \<not> exp_Less m (min_child i n m) i)"
  shows "min_child i n m = 2 * i + 1 \<or> min_child i n m = 2 * i + 2" "min_child i n m < n" "keys m (min_child i n m) < keys m i"
    "0 < c \<Longrightarrow> c < n \<Longrightarrow> (c - 1) div 2 = i \<Longrightarrow> keys m (min_child i n m) \<le> keys m c"
  using assms child_cases [of c i] by (auto simp: exp_Less_def keys_def min_child_def)

lemma heap_down_orders:
  assumes "heap_indexed m" "n \<le> length (ls_byExpiry m)" "\<And>c. 0 < c \<Longrightarrow> c < n \<Longrightarrow> (c - 1) div 2 \<noteq> i \<Longrightarrow> edge (keys m) c"
    and "\<And>c. 0 < i \<Longrightarrow> 0 < c \<Longrightarrow> c < n \<Longrightarrow> (c - 1) div 2 = i \<Longrightarrow> keys m ((i - 1) div 2) \<le> keys m c" "heap_down i n m = (k, m')" "i < n"
  shows "sifted n m m' \<and> (\<forall>c. 0 < c \<and> c < n \<longrightarrow> edge (keys m') c) \<and> i \<le> k"
  using assms
proof (induction i n m rule: heap_down.induct)
  case (1 i n m)
  let ?j = "min_child i n m"
  show ?case
  proof (cases "2 * i + 1 \<ge> n \<or> \<not> exp_Less m ?j i")
    case True
    then have "k = i" "m' = m"
      using "1.prems"(5) by (simp_all add: heap_down_unfold [of i n m])
    with down_stops [OF True] "1.prems"(1,3) sifted_refl show ?thesis by blast
  next
    case False
    note j = down_goes [OF False]
    let ?m = "exp_Swap i ?j m"
    note sw = exp_Swap_facts [OF "1.prems"(1), of i ?j]
    have len: "i < length (ls_byExpiry m)" "?j < length (ls_byExpiry m)"
      using "1.prems"(2,6) j(2) by linarith+
    have "sifted n ?m m' \<and> (\<forall>c. 0 < c \<and> c < n \<longrightarrow> edge (keys m') c) \<and> ?j \<le> k"
    proof (rule "1.IH" [OF refl _ min_child_def])
      show "\<not> n \<le> 2 * i + 1" "\<not> \<not> exp_Less m ?j i" "?j < n" "heap_down ?j n ?m = (k, m')"
        using False j(2) "1.prems"(5) by (simp_all add: heap_down_unfold [of i n m])
      show "heap_indexed ?m" "n \<le> length (ls_byExpiry ?m)"
        using sw len "1.prems"(2) by simp_all
      show "edge (keys ?m) c" if "0 < c" "c < n" "(c - 1) div 2 \<noteq> ?j" for c
        unfolding sw(5) [OF len] by (rule down_step(1) [where n = n, OF j(1-3)]) (use "1.prems" j(4) that in blast)+
      show "keys ?m ((?j - 1) div 2) \<le> keys ?m c" if "0 < ?j" "0 < c" "c < n" "(c - 1) div 2 = ?j" for c
        unfolding sw(5) [OF len] by (rule down_step(2) [where n = n, OF j(1-3)]) (use "1.prems" j(4) that in blast)+
    qed
    then show ?thesis
      using sifted_trans [OF sifted_swap [OF "1.prems"(1,6) j(2) "1.prems"(2)]] j(1) by auto
  qed
qed

text \<open>A position that may be too small or too large is put in order by both loops.\<close>

lemma heap_fix_orders:
  assumes "heap_indexed m" "n \<le> length (ls_byExpiry m)" "\<And>c. 0 < c \<Longrightarrow> c < n \<Longrightarrow> c \<noteq> i \<Longrightarrow> (c - 1) div 2 \<noteq> i \<Longrightarrow> edge (keys m) c"
    and "\<And>c. 0 < i \<Longrightarrow> 0 < c \<Longrightarrow> c < n \<Longrightarrow> (c - 1) div 2 = i \<Longrightarrow> keys m ((i - 1) div 2) \<le> keys m c" "heap_down i n m = (k, m1)" "i < n"
    and "m' = (if k > i then m1 else heap_up i m1)"
  shows "sifted n m m' \<and> (\<forall>c. 0 < c \<and> c < n \<longrightarrow> edge (keys m') c)"
proof (cases "2 * i + 1 \<ge> n \<or> \<not> exp_Less m (min_child i n m) i")
  case True
  then have "k = i" "m1 = m"
    using assms(5) by (simp_all add: heap_down_unfold [of i n m])
  then have m': "m' = heap_up i m" using assms(7) by simp
  show ?thesis
    unfolding m'
  proof (rule heap_up_orders [OF assms(1,6,2)])
    show "edge (keys m) c" if "0 < c" "c < n" "c \<noteq> i" for c
      using that assms(3) down_stops [OF True] by blast
  qed (use assms(4) in blast)
next
  case False
  let ?j = "min_child i n m"
  note j = down_goes [OF False]
  let ?m = "exp_Swap i ?j m"
  note sw = exp_Swap_facts [OF assms(1), of i ?j]
  have len: "i < length (ls_byExpiry m)" "?j < length (ls_byExpiry m)"
    using assms(2,6) j(2) by linarith+
  have "sifted n ?m m1 \<and> (\<forall>c. 0 < c \<and> c < n \<longrightarrow> edge (keys m1) c) \<and> ?j \<le> k"
  proof (rule heap_down_orders)
    show "heap_down ?j n ?m = (k, m1)" "?j < n"
      using False j(2) assms(5) by (simp_all add: heap_down_unfold [of i n m])
    show "heap_indexed ?m" "n \<le> length (ls_byExpiry ?m)"
      using sw len assms(2) by simp_all
    show "edge (keys ?m) c" if "0 < c" "c < n" "(c - 1) div 2 \<noteq> ?j" for c
      unfolding sw(5) [OF len] by (rule down_step(1) [where n = n, OF j(1-3)]) (use assms(3,4) j(4) that in blast)+
    show "keys ?m ((?j - 1) div 2) \<le> keys ?m c" if "0 < ?j" "0 < c" "c < n" "(c - 1) div 2 = ?j" for c
      unfolding sw(5) [OF len] by (rule down_step(2) [where n = n, OF j(1-3)]) (use assms(3,4) j(4) that in blast)+
  qed
  then have s: "sifted n ?m m1" "\<And>c. 0 < c \<Longrightarrow> c < n \<Longrightarrow> edge (keys m1) c" "?j \<le> k"
    by blast+
  have "i < k" using s(3) j(1) by linarith
  then have "m' = m1" using assms(7) by simp
  with s(2) sifted_trans [OF sifted_swap [OF assms(1,6) j(2) assms(2)] s(1)] show ?thesis by blast
qed

section \<open>The heap as a priority queue\<close>

lemma exp_Pop_facts:
  assumes "heap_indexed m" "ls_byExpiry m = b @ [a]"
  shows "ls_kept {a} m (exp_Pop m)" "heap_indexed (exp_Pop m)" "ls_byExpiry (exp_Pop m) = b" "nd_byExpiryIndex (ls_nodes (exp_Pop m) a) = - 1"
proof -
  show "ls_byExpiry (exp_Pop m) = b" "nd_byExpiryIndex (ls_nodes (exp_Pop m) a) = - 1"
    using assms(2) by (simp_all add: exp_Pop_def Let_def set_node_def)
  show "ls_kept {a} m (exp_Pop m)"
    unfolding ls_kept_def
    by (intro exI [of _ "ls_nodes (exp_Pop m)"] exI [of _ b])
      (use assms(2) node_index_self in \<open>auto simp: exp_Pop_def Let_def set_node_def\<close>)
  have "a \<notin> set b" "distinct b"
    using assms by (simp_all add: heap_indexed_def)
  moreover have "nd_byExpiryIndex (ls_nodes m (b ! i)) = int i" if "i < length b" for i
    using assms that unfolding heap_indexed_def by (metis length_append less_SucI length_Cons list.size(3) add_Suc_right add_0_right nth_append)
  ultimately show "heap_indexed (exp_Pop m)"
    using assms(2) nth_mem by (auto simp: heap_indexed_def exp_Pop_def Let_def set_node_def)
qed

lemma heap_min:
  assumes "heap_ordered m" "i < length (ls_byExpiry m)"
  shows "keys m 0 \<le> keys m i"
  using assms(2)
proof (induction i rule: less_induct)
  case (less i)
  show ?case
  proof (cases "i = 0")
    case False
    then have "keys m 0 \<le> keys m ((i - 1) div 2)" "keys m ((i - 1) div 2) \<le> keys m i"
      using less parent_less [of i] assms(1) by (auto simp: heap_ordered_def edge_def)
    then show ?thesis by (rule order_trans)
  qed simp
qed

lemma heap_Push_facts:
  assumes "heap_indexed m" "heap_ordered m" "a \<notin> set (ls_byExpiry m)"
  shows "ls_kept (insert a (set (ls_byExpiry m))) m (heap_Push a m)" "heap_indexed (heap_Push a m)" "heap_ordered (heap_Push a m)"
    "set (ls_byExpiry (heap_Push a m)) = insert a (set (ls_byExpiry m))"
proof -
  let ?b = "ls_byExpiry m" and ?m = "exp_Push a m"
  have b: "ls_byExpiry ?m = ?b @ [a]" by (simp add: exp_Push_def)
  have k: "ls_kept {a} m ?m"
    unfolding ls_kept_def by (intro exI [of _ "ls_nodes ?m"] exI [of _ "?b @ [a]"]) (use node_index_self in \<open>auto simp: exp_Push_def set_node_def\<close>)
  have ix: "heap_indexed ?m"
    using assms(1,3) nth_mem by (auto simp: heap_indexed_def exp_Push_def set_node_def nth_append less_Suc_eq)
  have "keys ?m c = keys m c" if "c < length ?b" for c
    using that by (simp add: keys_def ls_kept_fields(8) [OF k] b nth_append)
  then have e: "edge (keys ?m) c" if "0 < c" "c < length ?b" for c
    using that assms(2) parent_less [OF that(1)] by (auto simp: heap_ordered_def edge_def)
  have "sifted (length ?b + 1) ?m (heap_Push a m) \<and> (\<forall>c. 0 < c \<and> c < length ?b + 1 \<longrightarrow> edge (keys (heap_Push a m)) c)"
    unfolding heap_Push_def
  proof (rule heap_up_orders [OF ix])
    show "edge (keys ?m) c" if "0 < c" "c < length ?b + 1" "c \<noteq> length ?b" for c
      using e that by simp
    show "keys ?m ((length ?b - 1) div 2) \<le> keys ?m c" if "0 < c" "c < length ?b + 1" "(c - 1) div 2 = length ?b" for c
      using that parent_less [OF that(1)] by simp
  qed (simp_all add: b)
  then show "ls_kept (insert a (set ?b)) m (heap_Push a m)" "heap_indexed (heap_Push a m)" "heap_ordered (heap_Push a m)"
      "set (ls_byExpiry (heap_Push a m)) = insert a (set ?b)"
    using ls_kept_trans [OF k, of _ "heap_Push a m"] by (auto simp: sifted_def heap_ordered_def b)
qed

lemma remove_ready:
  assumes "heap_indexed m" "heap_ordered m" "ls_byExpiry m = b @ [z]" "i < length b" "k = keys (exp_Swap i (length b) m)"
  shows "0 < c \<Longrightarrow> c < length b \<Longrightarrow> c \<noteq> i \<Longrightarrow> (c - 1) div 2 \<noteq> i \<Longrightarrow> edge k c"
    "0 < i \<Longrightarrow> 0 < c \<Longrightarrow> c < length b \<Longrightarrow> (c - 1) div 2 = i \<Longrightarrow> k ((i - 1) div 2) \<le> k c"
proof -
  have "k = swapped i (length b) (keys m)"
    using exp_Swap_facts(5) [OF assms(1), of i "length b"] assms(3-5) by simp
  then have k: "k x = keys m x" if "x \<noteq> i" "x < length b" for x
    using that by (simp add: swapped_def)
  have e: "edge (keys m) c" if "0 < c" "c < length b" for c
    using that assms(2,3) by (simp add: heap_ordered_def)
  show "edge k c" if "0 < c" "c < length b" "c \<noteq> i" "(c - 1) div 2 \<noteq> i"
    using e [OF that(1,2)] that parent_less [OF that(1)] by (simp add: edge_def k)
  show "k ((i - 1) div 2) \<le> k c" if "0 < i" "0 < c" "c < length b" "(c - 1) div 2 = i"
  proof -
    have "(i - 1) div 2 < i" "i < c" using parent_less [OF that(1)] parent_less [OF that(2)] that(4) by simp_all
    moreover have "keys m ((i - 1) div 2) \<le> keys m i" "keys m i \<le> keys m c"
      using e [OF that(1)] e [OF that(2,3)] that(4) assms(4) by (simp_all add: edge_def)
    ultimately show ?thesis using that assms(4) by (simp add: k)
  qed
qed

lemma heap_Remove_facts:
  assumes "heap_indexed m" "heap_ordered m" "a \<in> set (ls_byExpiry m)"
  shows "\<exists>m'. heap_Remove (nd_byExpiryIndex (ls_nodes m a)) m = Some m' \<and> ls_kept (set (ls_byExpiry m)) m m' \<and> heap_indexed m' \<and> heap_ordered m' \<and>
    set (ls_byExpiry m') = set (ls_byExpiry m) - {a} \<and> nd_byExpiryIndex (ls_nodes m' a) = - 1"
proof -
  obtain b z where b: "ls_byExpiry m = b @ [z]" using assms(3) by (cases "ls_byExpiry m" rule: rev_cases) auto
  obtain i where i: "i < length (ls_byExpiry m)" "ls_byExpiry m ! i = a" using assms(3) by (auto simp: in_set_conv_nth)
  then have ix: "nd_byExpiryIndex (ls_nodes m a) = int i" using assms(1) by (auto simp: heap_indexed_def)
  have dist: "distinct (b @ [z])" using assms(1) b by (simp add: heap_indexed_def)
  obtain m1 where m1: "heap_Remove (int i) m = Some (exp_Pop m1)" "heap_indexed m1" "last (ls_byExpiry m1) = a" "set (ls_byExpiry m1) = set (b @ [z])" "length (ls_byExpiry m1) = Suc (length b)"
      "ls_kept (set (ls_byExpiry m)) m m1" "\<And>c. 0 < c \<Longrightarrow> c < length b \<Longrightarrow> edge (keys m1) c"
  proof (cases "i = length b")
    case True
    then have "heap_Remove (int i) m = Some (exp_Pop m)" "last (ls_byExpiry m) = a"
      using b i by (simp_all add: heap_Remove_def Let_def)
    then show ?thesis
      using that [of m] assms(1,2) b ls_kept_refl by (simp add: heap_ordered_def)
  next
    case False
    then have il: "i < length b" using i(1) b by simp
    let ?m = "exp_Swap i (length b) m"
    note sw = exp_Swap_facts [OF assms(1), of i "length b"]
    have len: "i < length (ls_byExpiry m)" "length b < length (ls_byExpiry m)" using i(1) b by simp_all
    obtain k m2 where d: "heap_down i (length b) ?m = (k, m2)" by fastforce
    define m3 where "m3 = (if k > i then m2 else heap_up i m2)"
    have s: "sifted (length b) ?m m3 \<and> (\<forall>c. 0 < c \<and> c < length b \<longrightarrow> edge (keys m3) c)"
      by (rule heap_fix_orders [OF _ _ _ _ d il m3_def]) (use sw len b remove_ready [OF assms(1,2) b il refl] in auto)
    have "ls_byExpiry ?m ! length b = a"
      using i il b by (simp add: exp_Swap_def Let_def set_node_def nth_append)
    then have "ls_byExpiry m3 ! length b = a" "length (ls_byExpiry m3) = Suc (length b)"
      using s sw(4) [OF len] b by (simp_all add: sifted_def)
    then have "last (ls_byExpiry m3) = a"
      by (metis last_conv_nth diff_Suc_1 list.size(3) nat.simps(3))
    moreover have "heap_Remove (int i) m = Some (exp_Pop m3)"
      using False b d i(1) by (simp add: heap_Remove_def Let_def m3_def)
    moreover have "ls_kept (set (ls_byExpiry m)) m m3"
      using ls_kept_trans [OF sw(1) [OF len], of "set (ls_byExpiry ?m)" m3] s sw(3) [OF len] by (simp add: sifted_def)
    ultimately show ?thesis
      using that [of m3] s sw(3) [OF len] b \<open>length (ls_byExpiry m3) = Suc (length b)\<close> by (auto simp: sifted_def)
  qed
  obtain b' where b': "ls_byExpiry m1 = b' @ [a]"
    using m1(3,5) by (cases "ls_byExpiry m1" rule: rev_cases) auto
  note pop = exp_Pop_facts [OF m1(2) b']
  have "a \<notin> set b'" using m1(2) b' by (simp add: heap_indexed_def)
  then have set: "set b' = set (ls_byExpiry m) - {a}" using m1(4) b b' by auto
  have "keys (exp_Pop m1) c = keys m1 c" if "c < length b'" for c
    using that by (simp add: keys_def ls_kept_fields(8) [OF pop(1)] pop(3) b' nth_append)
  then have "heap_ordered (exp_Pop m1)"
    using m1(5,7) b' parent_less by (auto simp: heap_ordered_def edge_def pop(3))
  moreover have "ls_kept (set (ls_byExpiry m)) m (exp_Pop m1)"
    using ls_kept_trans [OF m1(6) pop(1)] assms(3) by simp
  ultimately show ?thesis
    using ix m1(1) pop set by auto
qed

end
