(* ===== verification/WebDAV_Lock.thy ===== *)
theory WebDAV_Lock
  imports WebDAV_Heap
begin

text \<open>
  Package \<^verbatim>\<open>webdav\<close>, file \<^verbatim>\<open>webdav/lock.go\<close>: the in-memory lock system and the \<^verbatim>\<open>Timeout\<close> header.  Every method runs
  under the mutex of the lock system, so that a run is a sequence of method calls.  \<open>None\<close> is a panic, or a loop
  that does not end.
\<close>

section \<open>Data\<close>

datatype lock_error = ErrConfirmationFailed | ErrForbidden | ErrLocked | ErrNoSuchLock

record Condition =
  cond_Not :: bool
  cond_Token :: string
  cond_ETag :: string

text \<open>\<^verbatim>\<open>NewMemLS\<close> starts the tokens at the time of the clock.\<close>

definition zero_details :: LockDetails where
  "zero_details = \<lparr>ld_Root = [], ld_Duration = 0, ld_OwnerXML = [], ld_ZeroDepth = False\<rparr>"

definition new_memLSNode :: "string \<Rightarrow> memLSNode" where
  "new_memLSNode name =
     \<lparr>nd_details = zero_details\<lparr>ld_Root := name\<rparr>, nd_token = [], nd_refCount = 0, nd_expiry = 0, nd_byExpiryIndex = - 1, nd_held = False\<rparr>"

definition NewMemLS :: "u64 \<Rightarrow> memLS" where
  "NewMemLS unix =
     \<lparr>ls_nodes = (\<lambda>_. new_memLSNode []), ls_fresh = 0, ls_byName = Map.empty, ls_byToken = Map.empty, ls_gen = unix, ls_byExpiry = []\<rparr>"

definition nextToken :: "memLS \<Rightarrow> string \<times> memLS" where
  "nextToken m = (let g = ls_gen m + 1 in (fmt_d (unat g), m\<lparr>ls_gen := g\<rparr>))"

section \<open>Creating and removing nodes\<close>

text \<open>The callbacks of the walks to the root.\<close>

definition may_create :: "bool \<Rightarrow> memLS \<Rightarrow> string \<Rightarrow> bool \<Rightarrow> bool" where
  "may_create zeroDepth m name0 first =
     (case ls_byName m name0 of
        None \<Rightarrow> True
      | Some a \<Rightarrow>
          let n = ls_nodes m a in
          if first then nd_token n = [] \<and> zeroDepth
          else \<not> (nd_token n \<noteq> [] \<and> \<not> ld_ZeroDepth (nd_details n)))"

definition canCreate :: "string \<Rightarrow> bool \<Rightarrow> memLS \<Rightarrow> bool option" where
  "canCreate name zeroDepth m =
     map_option fst (walkToRoot (\<lambda>name0 first m. Some (may_create zeroDepth m name0 first, m)) True name m)"

definition node_at :: "string \<Rightarrow> memLS \<Rightarrow> nat \<times> memLS" where
  "node_at name0 m =
     (case ls_byName m name0 of
        Some a \<Rightarrow> (a, m)
      | None \<Rightarrow>
          let a = ls_fresh m in
          (a, (set_node a (new_memLSNode name0) m)\<lparr>ls_fresh := a + 1, ls_byName := (ls_byName m)(name0 \<mapsto> a)\<rparr>))"

definition create_step :: "string \<Rightarrow> bool \<Rightarrow> memLS \<times> nat \<Rightarrow> (bool \<times> memLS \<times> nat) option" where
  "create_step name0 first s =
     (case s of (m, ret) \<Rightarrow>
      case node_at name0 m of (a, m) \<Rightarrow>
        Some (True, set_node a ((ls_nodes m a)\<lparr>nd_refCount := nd_refCount (ls_nodes m a) + 1\<rparr>) m, if first then a else ret))"

definition create :: "string \<Rightarrow> memLS \<Rightarrow> (nat \<times> memLS) option" where
  "create name m = map_option (\<lambda>(_, m, a). (a, m)) (walkToRoot create_step True name (m, 0))"

definition remove_step :: "string \<Rightarrow> bool \<Rightarrow> memLS \<Rightarrow> (bool \<times> memLS) option" where
  "remove_step name0 first m =
     (case ls_byName m name0 of
        None \<Rightarrow> None
      | Some x \<Rightarrow>
          let c = nd_refCount (ls_nodes m x) - 1;
              m = set_node x ((ls_nodes m x)\<lparr>nd_refCount := c\<rparr>) m
          in Some (True, if c = 0 then m\<lparr>ls_byName := (ls_byName m)(name0 := None)\<rparr> else m))"

definition remove_node :: "nat \<Rightarrow> memLS \<Rightarrow> memLS option" where
  "remove_node n m =
     (let m = m\<lparr>ls_byToken := (ls_byToken m)(nd_token (ls_nodes m n) := None)\<rparr>;
          m = set_node n ((ls_nodes m n)\<lparr>nd_token := []\<rparr>) m
      in case walkToRoot remove_step True (ld_Root (nd_details (ls_nodes m n))) m of
           None \<Rightarrow> None
         | Some (_, m) \<Rightarrow>
             if nd_byExpiryIndex (ls_nodes m n) \<ge> 0 then heap_Remove (nd_byExpiryIndex (ls_nodes m n)) m else Some m)"

partial_function (option) collectExpiredNodes :: "int \<Rightarrow> memLS \<Rightarrow> memLS option" where
  "collectExpiredNodes now m =
     (if ls_byExpiry m = [] then Some m
      else if now < nd_expiry (ls_nodes m (ls_byExpiry m ! 0)) then Some m
      else Option.bind (remove_node (ls_byExpiry m ! 0) m) (\<lambda>m. collectExpiredNodes now m))"

declare collectExpiredNodes.simps [code]

section \<open>Holding\<close>

definition hold :: "nat \<Rightarrow> memLS \<Rightarrow> memLS option" where
  "hold n m =
     (if nd_held (ls_nodes m n) then None
      else
        let m = set_node n ((ls_nodes m n)\<lparr>nd_held := True\<rparr>) m in
        if ld_Duration (nd_details (ls_nodes m n)) \<ge> 0 \<and> nd_byExpiryIndex (ls_nodes m n) \<ge> 0
        then heap_Remove (nd_byExpiryIndex (ls_nodes m n)) m else Some m)"

definition unhold :: "nat \<Rightarrow> memLS \<Rightarrow> memLS option" where
  "unhold n m =
     (if \<not> nd_held (ls_nodes m n) then None
      else
        let m = set_node n ((ls_nodes m n)\<lparr>nd_held := False\<rparr>) m in
        Some (if ld_Duration (nd_details (ls_nodes m n)) \<ge> 0 then heap_Push n m else m))"

definition matches :: "string \<Rightarrow> memLS \<Rightarrow> Condition \<Rightarrow> nat option" where
  "matches name m c =
     (case ls_byToken m (cond_Token c) of
        None \<Rightarrow> None
      | Some a \<Rightarrow>
          let n = ls_nodes m a; root = ld_Root (nd_details n) in
          if nd_held n then None
          else if name = root then Some a
          else if ld_ZeroDepth (nd_details n) then None
          else if root = ''/'' \<or> prefix (root @ ''/'') name then Some a else None)"

fun lookup_lock :: "string \<Rightarrow> Condition list \<Rightarrow> memLS \<Rightarrow> nat option" where
  "lookup_lock name [] m = None"
| "lookup_lock name (c # cs) m = (case matches name m c of Some a \<Rightarrow> Some a | None \<Rightarrow> lookup_lock name cs m)"

section \<open>Methods\<close>

text \<open>The release function is given by the nodes it lets go.\<close>

type_synonym release = "nat option \<times> nat option"

definition hold_opt :: "nat option \<Rightarrow> memLS \<Rightarrow> memLS option" where
  "hold_opt n m = (case n of None \<Rightarrow> Some m | Some a \<Rightarrow> hold a m)"

definition unhold_opt :: "nat option \<Rightarrow> memLS \<Rightarrow> memLS option" where
  "unhold_opt n m = (case n of None \<Rightarrow> Some m | Some a \<Rightarrow> unhold a m)"

definition Confirm ::
  "int \<Rightarrow> string \<Rightarrow> string \<Rightarrow> Condition list \<Rightarrow> memLS \<Rightarrow> ((lock_error + release) \<times> memLS) option" where
  "Confirm now name0 name1 conditions m =
     Option.bind (collectExpiredNodes now m) (\<lambda>m.
       let n0 = (if name0 = [] then None else lookup_lock (slashClean name0) conditions m);
           n1 = (if name1 = [] then None else lookup_lock (slashClean name1) conditions m)
       in
       if name0 \<noteq> [] \<and> n0 = None then Some (Inl ErrConfirmationFailed, m)
       else if name1 \<noteq> [] \<and> n1 = None then Some (Inl ErrConfirmationFailed, m)
       else
         let n1 = (if n1 = n0 then None else n1) in
         Option.bind (hold_opt n0 m) (\<lambda>m. Option.bind (hold_opt n1 m) (\<lambda>m. Some (Inr (n0, n1), m))))"

definition Release :: "release \<Rightarrow> memLS \<Rightarrow> memLS option" where
  "Release r m = Option.bind (unhold_opt (snd r) m) (unhold_opt (fst r))"

text \<open>A lock with a deadline enters the heap.\<close>

definition set_expiry :: "int \<Rightarrow> nat \<Rightarrow> memLS \<Rightarrow> memLS" where
  "set_expiry now n m =
     (if ld_Duration (nd_details (ls_nodes m n)) \<ge> 0
      then heap_Push n (set_node n ((ls_nodes m n)\<lparr>nd_expiry := now + ld_Duration (nd_details (ls_nodes m n))\<rparr>) m)
      else m)"

definition lock_Create :: "int \<Rightarrow> LockDetails \<Rightarrow> memLS \<Rightarrow> ((lock_error + string) \<times> memLS) option" where
  "lock_Create now details m =
     Option.bind (collectExpiredNodes now m) (\<lambda>m.
       let details = details\<lparr>ld_Root := slashClean (ld_Root details)\<rparr> in
       Option.bind (canCreate (ld_Root details) (ld_ZeroDepth details) m) (\<lambda>ok.
         if \<not> ok then Some (Inl ErrLocked, m)
         else
           Option.bind (create (ld_Root details) m) (\<lambda>(n, m).
             case nextToken m of (token, m) \<Rightarrow>
               let m = set_node n ((ls_nodes m n)\<lparr>nd_token := token\<rparr>) m;
                   m = m\<lparr>ls_byToken := (ls_byToken m)(token \<mapsto> n)\<rparr>;
                   m = set_node n ((ls_nodes m n)\<lparr>nd_details := details\<rparr>) m
               in Some (Inr token, set_expiry now n m))))"

definition lock_Refresh :: "int \<Rightarrow> string \<Rightarrow> int \<Rightarrow> memLS \<Rightarrow> ((lock_error + LockDetails) \<times> memLS) option" where
  "lock_Refresh now token duration m =
     Option.bind (collectExpiredNodes now m) (\<lambda>m.
       case ls_byToken m token of
         None \<Rightarrow> Some (Inl ErrNoSuchLock, m)
       | Some n \<Rightarrow>
           if nd_held (ls_nodes m n) then Some (Inl ErrLocked, m)
           else
             Option.bind (if nd_byExpiryIndex (ls_nodes m n) \<ge> 0 then heap_Remove (nd_byExpiryIndex (ls_nodes m n)) m else Some m) (\<lambda>m.
               let d = (nd_details (ls_nodes m n))\<lparr>ld_Duration := duration\<rparr>;
                   m = set_node n ((ls_nodes m n)\<lparr>nd_details := d\<rparr>) m
               in Some (Inr d, set_expiry now n m)))"

definition lock_Unlock :: "int \<Rightarrow> string \<Rightarrow> memLS \<Rightarrow> (lock_error option \<times> memLS) option" where
  "lock_Unlock now token m =
     Option.bind (collectExpiredNodes now m) (\<lambda>m.
       case ls_byToken m token of
         None \<Rightarrow> Some (Some ErrNoSuchLock, m)
       | Some n \<Rightarrow>
           if nd_held (ls_nodes m n) then Some (Some ErrLocked, m)
           else map_option (\<lambda>m. (None, m)) (remove_node n m))"

section \<open>Timeouts\<close>

text \<open>\<^verbatim>\<open>strings.TrimSpace\<close> on octets: the spaces of Unicode in their UTF-8 form.\<close>

definition utf8_spaces :: "string list" where
  "utf8_spaces =
     [[CHR 0x09], [CHR 0x0A], [CHR 0x0B], [CHR 0x0C], [CHR 0x0D], [CHR 0x20], [CHR 0xC2, CHR 0x85], [CHR 0xC2, CHR 0xA0],
      [CHR 0xE1, CHR 0x9A, CHR 0x80], [CHR 0xE2, CHR 0x80, CHR 0x80], [CHR 0xE2, CHR 0x80, CHR 0x81],
      [CHR 0xE2, CHR 0x80, CHR 0x82], [CHR 0xE2, CHR 0x80, CHR 0x83], [CHR 0xE2, CHR 0x80, CHR 0x84],
      [CHR 0xE2, CHR 0x80, CHR 0x85], [CHR 0xE2, CHR 0x80, CHR 0x86], [CHR 0xE2, CHR 0x80, CHR 0x87],
      [CHR 0xE2, CHR 0x80, CHR 0x88], [CHR 0xE2, CHR 0x80, CHR 0x89], [CHR 0xE2, CHR 0x80, CHR 0x8A],
      [CHR 0xE2, CHR 0x80, CHR 0xA8], [CHR 0xE2, CHR 0x80, CHR 0xA9], [CHR 0xE2, CHR 0x80, CHR 0xAF],
      [CHR 0xE2, CHR 0x81, CHR 0x9F], [CHR 0xE3, CHR 0x80, CHR 0x80]]"

function trim_left :: "string list \<Rightarrow> string \<Rightarrow> string" where
  "trim_left ws s =
     (case find (\<lambda>w. w \<noteq> [] \<and> prefix w s) ws of None \<Rightarrow> s | Some w \<Rightarrow> trim_left ws (drop (length w) s))"
  by pat_completeness auto
termination
  by (relation "measure (\<lambda>(ws, s). length s)") (auto simp: find_Some_iff prefix_def)

declare trim_left.simps [simp del]

definition TrimSpace :: "string \<Rightarrow> string" where
  "TrimSpace s = rev (trim_left (map rev utf8_spaces) (rev (trim_left utf8_spaces s)))"

definition digit_value :: "char \<Rightarrow> nat" where
  "digit_value c = of_char c - 48"

fun dec_value :: "nat \<Rightarrow> string \<Rightarrow> nat" where
  "dec_value n [] = n"
| "dec_value n (c # s) = dec_value (10 * n + digit_value c) s"

lemma dec_value_append: "dec_value n (s @ s') = dec_value (dec_value n s) s'"
  by (induction s arbitrary: n) auto

lemma digit_value_char: "d < 10 \<Longrightarrow> digit_value (digit_char d) = d"
  by (simp add: digit_value_def digit_char_def of_char_of)

lemma dec_value_fmt: "dec_value 0 (fmt_d n) = n"
  unfolding fmt_d_def
proof (induction n rule: less_induct)
  case (less n)
  show ?case
  proof (cases "n < 10")
    case True
    then show ?thesis by (subst digits_base.simps) (simp add: digit_value_char)
  next
    case False
    then show ?thesis using less.IH [of "n div 10"] by (subst digits_base.simps) (simp add: dec_value_append digit_value_char)
  qed
qed

lemma fmt_d_inject: "fmt_d n = fmt_d k \<longleftrightarrow> n = k"
  by (metis dec_value_fmt)

text \<open>\<^verbatim>\<open>strconv.ParseInt\<close> in base 10 and 64 bits, on a string that begins with a digit.\<close>

definition is_digit :: "char \<Rightarrow> bool" where
  "is_digit c \<longleftrightarrow> c \<in> set ''0123456789''"

definition ParseInt_digits :: "string \<Rightarrow> int option" where
  "ParseInt_digits s = (if list_all is_digit s \<and> dec_value 0 s < 2 ^ 63 then Some (int (dec_value 0 s)) else None)"

datatype timeout_error = errInvalidTimeout

definition infiniteTimeout :: int where
  "infiniteTimeout = - 1"

text \<open>Nanoseconds of a number of seconds, in 64 bits.\<close>

definition seconds :: "int \<Rightarrow> int" where
  "seconds n = sint (word_of_int (n * 1000000000) :: u64)"

definition parseTimeout :: "string \<Rightarrow> timeout_error + int" where
  "parseTimeout s =
     (if s = [] then Inr infiniteTimeout
      else
        let s = TrimSpace (takeWhile (\<lambda>c. c \<noteq> CHR '','') s) in
        if s = ''Infinite'' then Inr infiniteTimeout
        else if \<not> prefix ''Second-'' s then Inl errInvalidTimeout
        else
          let s = drop 7 s in
          if s = [] \<or> \<not> is_digit (hd s) then Inl errInvalidTimeout
          else
            (case ParseInt_digits s of
               None \<Rightarrow> Inl errInvalidTimeout
             | Some n \<Rightarrow> if 2 ^ 32 - 1 < n then Inl errInvalidTimeout else Inr (seconds n)))"

text \<open>A timeout is infinite or a number of seconds that fits 32 bits, and never negative by overflow.\<close>

lemma seconds_exact: "0 \<le> n \<Longrightarrow> n < 2 ^ 32 \<Longrightarrow> seconds n = n * 1000000000"
  unfolding seconds_def sint_sbintrunc' by (simp add: signed_take_bit_int_eq_self)

lemma parseTimeout_bounds:
  assumes "parseTimeout s = Inr d"
  shows "d = infiniteTimeout \<or> (\<exists>n. 0 \<le> n \<and> n < 2 ^ 32 \<and> d = n * 1000000000)"
proof -
  have "0 \<le> n" if "ParseInt_digits z = Some n" for z n
    using that by (auto simp: ParseInt_digits_def split: if_splits)
  with assms have "d = infiniteTimeout \<or> (\<exists>n. 0 \<le> n \<and> n \<le> 4294967295 \<and> d = seconds n)"
    by (auto simp: parseTimeout_def Let_def not_less split: if_splits option.splits)
  then show ?thesis using seconds_exact by force
qed

text \<open>A number of seconds in decimal is read back.\<close>

lemma trim_left_stop: "\<forall>w \<in> set ws. hd w \<noteq> c \<Longrightarrow> trim_left ws (c # s) = c # s"
proof -
  assume c: "\<forall>w \<in> set ws. hd w \<noteq> c"
  then have "find (\<lambda>w. w \<noteq> [] \<and> prefix w (c # s)) ws = None"
    by (auto simp: find_None_iff prefix_Cons)
  then show ?thesis by (subst trim_left.simps) simp
qed

lemma fmt_d_digits: "list_all is_digit (fmt_d n)"
proof -
  have d: "is_digit (digit_char k)" if "k < 10" for k
  proof -
    have "k \<in> set [0..<10]" using that by simp
    moreover have "list_all (\<lambda>k. is_digit (digit_char k)) [0..<10]" by code_simp
    ultimately show ?thesis by (simp only: list_all_iff)
  qed
  show ?thesis
    unfolding fmt_d_def
  proof (induction n rule: less_induct)
    case (less n)
    then show ?case by (subst digits_base.simps) (simp add: d)
  qed
qed

lemma fmt_d_nonempty: "fmt_d n \<noteq> []"
  unfolding fmt_d_def by (subst digits_base.simps) simp

lemma TrimSpace_seconds: "TrimSpace (''Second-'' @ fmt_d n) = ''Second-'' @ fmt_d n"
proof -
  have "\<forall>w \<in> set utf8_spaces. hd w \<noteq> CHR ''S''" by code_simp
  then have l: "trim_left utf8_spaces (''Second-'' @ fmt_d n) = ''Second-'' @ fmt_d n"
    using trim_left_stop by simp
  obtain c s where c: "rev (fmt_d n) = c # s" using fmt_d_nonempty [of n] by (cases "rev (fmt_d n)") auto
  then have "c \<in> set (fmt_d n)" by (metis list.set_intros(1) set_rev)
  then have "is_digit c" using fmt_d_digits [of n] by (simp add: list_all_iff)
  moreover have "list_all (\<lambda>c. 47 < (of_char c :: nat) \<and> (of_char c :: nat) < 58) ''0123456789''" by code_simp
  moreover have "list_all (\<lambda>w. (of_char (hd w) :: nat) < 47 \<or> (of_char (hd w) :: nat) > 58) (map rev utf8_spaces)" by code_simp
  ultimately have "\<forall>w \<in> set (map rev utf8_spaces). hd w \<noteq> c"
    unfolding list_all_iff is_digit_def by fastforce
  then have "trim_left (map rev utf8_spaces) (rev (''Second-'' @ fmt_d n)) = rev (''Second-'' @ fmt_d n)"
    using trim_left_stop [of "map rev utf8_spaces" c] c by simp
  with l show ?thesis unfolding TrimSpace_def by simp
qed

lemma parseTimeout_seconds:
  assumes "n < 2 ^ 32"
  shows "parseTimeout (''Second-'' @ fmt_d n) = Inr (int n * 1000000000)"
proof -
  have c: "c \<noteq> CHR '',''" if "c \<in> set (fmt_d n)" for c
  proof -
    have "\<not> is_digit (CHR '','')" by code_simp
    moreover have "is_digit c" using that fmt_d_digits [of n] by (simp add: list_all_iff)
    ultimately show ?thesis by metis
  qed
  then have tw: "takeWhile (\<lambda>c. c \<noteq> CHR '','') (''Second-'' @ fmt_d n) = ''Second-'' @ fmt_d n"
    by (subst takeWhile_eq_all_conv) auto
  have h: "is_digit (hd (fmt_d n))"
    using fmt_d_digits [of n] fmt_d_nonempty [of n] by (simp add: list_all_iff)
  have p: "ParseInt_digits (fmt_d n) = Some (int n)"
    using assms fmt_d_digits [of n] by (simp add: ParseInt_digits_def dec_value_fmt)
  show ?thesis
    unfolding parseTimeout_def Let_def tw TrimSpace_seconds
    using assms h p fmt_d_nonempty [of n] seconds_exact [of "int n"] by simp
qed

end
