(* ===== verification/WebDAV_Lock_Inv.thy ===== *)
theory WebDAV_Lock_Inv
  imports WebDAV_Lock
begin

text \<open>
  The lock system against its specification: a map from tokens to locks, of which no two conflict.
\<close>

section \<open>Names and their components\<close>

definition name_parts :: "string \<Rightarrow> string list" where
  "name_parts s = filter (\<lambda>p. p \<noteq> []) (split_slash s)"

lemma split_slash_append: "CHR ''/'' \<notin> set p \<Longrightarrow> split_slash (p @ CHR ''/'' # s) = p # split_slash s"
  by (induction p) auto

lemma split_slash_part: "CHR ''/'' \<notin> set p \<Longrightarrow> split_slash p = [p]"
  by (induction p) auto

lemma split_parts:
  "CHR ''/'' \<notin> set p \<Longrightarrow> list_all part_ok cs \<Longrightarrow> split_slash (p @ concat (map (\<lambda>p. CHR ''/'' # p) cs)) = p # cs"
proof (induction cs arbitrary: p)
  case (Cons c cs)
  then show ?case using split_slash_append [of p] by (simp add: part_ok_def)
qed (simp add: split_slash_part)

lemma name_parts_path: "list_all part_ok cs \<Longrightarrow> name_parts (path_name cs) = cs"
proof -
  assume cs: "list_all part_ok cs"
  then have "filter (\<lambda>p. p \<noteq> []) cs = cs"
    by (simp add: filter_id_conv list_all_iff part_ok_def)
  then show ?thesis
    using split_parts [of "[]" cs] cs by (auto simp: name_parts_def path_name_def)
qed

definition clean :: "string \<Rightarrow> bool" where
  "clean s \<longleftrightarrow> list_all part_ok (name_parts s) \<and> path_name (name_parts s) = s"

lemma clean_path: "list_all part_ok cs \<Longrightarrow> clean (path_name cs)"
  by (simp add: clean_def name_parts_path)

lemma clean_slashClean: "clean (slashClean s)"
  using slashClean_clean [of s] clean_path by auto

lemma cleanE: "clean s \<Longrightarrow> (\<And>cs. list_all part_ok cs \<Longrightarrow> s = path_name cs \<Longrightarrow> name_parts s = cs \<Longrightarrow> thesis) \<Longrightarrow> thesis"
  by (auto simp: clean_def)

text \<open>The names on the way from a name to the root.\<close>

definition up_names :: "string \<Rightarrow> string list" where
  "up_names s = map path_name (ups (name_parts s))"

lemma ups_ok: "list_all part_ok cs \<Longrightarrow> ps \<in> set (ups cs) \<Longrightarrow> list_all part_ok ps"
  by (auto simp: set_ups list_all_iff dest: set_mono_prefix)

lemma up_names_facts:
  assumes "clean s"
  shows "walkToRoot f first s st = walk_list f first (up_names s) st" "distinct (up_names s)" "up_names s = s # tl (up_names s)"
    "clean x \<Longrightarrow> x \<in> set (up_names s) \<longleftrightarrow> prefix (name_parts x) (name_parts s)" "x \<in> set (up_names s) \<Longrightarrow> clean x"
proof -
  obtain cs where cs: "list_all part_ok cs" "s = path_name cs" "name_parts s = cs"
    using assms by (rule cleanE)
  show "walkToRoot f first s st = walk_list f first (up_names s) st"
    using cs walkToRoot_ups by (simp add: up_names_def)
  have "inj_on path_name (set (ups cs))"
    using path_name_inject ups_ok [OF cs(1)] by (auto simp: inj_on_def)
  then show "distinct (up_names s)"
    using cs(3) distinct_ups by (simp add: up_names_def distinct_map)
  show "up_names s = s # tl (up_names s)"
    using cs hd_ups [of cs] by (metis up_names_def list.map(2) list.sel(3))
  show "x \<in> set (up_names s) \<Longrightarrow> clean x"
    using cs ups_ok clean_path by (auto simp: up_names_def)
  show "clean x \<Longrightarrow> x \<in> set (up_names s) \<longleftrightarrow> prefix (name_parts x) (name_parts s)"
    using cs ups_ok [OF cs(1)] by (auto simp: up_names_def set_ups name_parts_path clean_def image_iff)
qed

section \<open>Specification\<close>

record lock =
  lk_details :: LockDetails
  lk_expiry :: "int option"
  lk_held :: bool

definition conflict :: "LockDetails \<Rightarrow> LockDetails \<Rightarrow> bool" where
  "conflict d d' \<longleftrightarrow>
     ld_Root d = ld_Root d' \<or>
     \<not> ld_ZeroDepth d \<and> prefix (name_parts (ld_Root d)) (name_parts (ld_Root d')) \<or>
     \<not> ld_ZeroDepth d' \<and> prefix (name_parts (ld_Root d')) (name_parts (ld_Root d))"

definition expired :: "int \<Rightarrow> lock \<Rightarrow> bool" where
  "expired now l \<longleftrightarrow> \<not> lk_held l \<and> (case lk_expiry l of None \<Rightarrow> False | Some e \<Rightarrow> e \<le> now)"

definition spec_collect :: "int \<Rightarrow> (string \<rightharpoonup> lock) \<Rightarrow> string \<rightharpoonup> lock" where
  "spec_collect now A = (\<lambda>t. case A t of None \<Rightarrow> None | Some l \<Rightarrow> if expired now l then None else Some l)"

definition node_lock :: "memLSNode \<Rightarrow> lock" where
  "node_lock n = \<lparr>lk_details = nd_details n, lk_expiry = (if ld_Duration (nd_details n) \<ge> 0 then Some (nd_expiry n) else None), lk_held = nd_held n\<rparr>"

definition abs_locks :: "memLS \<Rightarrow> string \<rightharpoonup> lock" where
  "abs_locks m t = map_option (\<lambda>a. node_lock (ls_nodes m a)) (ls_byToken m t)"

section \<open>Invariant\<close>

definition lock_root :: "memLS \<Rightarrow> string \<Rightarrow> string list" where
  "lock_root m t = name_parts (ld_Root (nd_details (ls_nodes m (the (ls_byToken m t)))))"

definition refs :: "memLS \<Rightarrow> string \<Rightarrow> nat" where
  "refs m s = card {t \<in> dom (ls_byToken m). prefix (name_parts s) (lock_root m t)}"

definition names_inv :: "memLS \<Rightarrow> bool" where
  "names_inv m \<longleftrightarrow>
     (\<forall>s a. ls_byName m s = Some a \<longrightarrow> a < ls_fresh m \<and> ld_Root (nd_details (ls_nodes m a)) = s \<and> clean s \<and>
        (nd_token (ls_nodes m a) \<noteq> [] \<longrightarrow> ls_byToken m (nd_token (ls_nodes m a)) = Some a) \<and>
        (nd_held (ls_nodes m a) \<longrightarrow> nd_token (ls_nodes m a) \<noteq> []) \<and>
        (a \<notin> set (ls_byExpiry m) \<longrightarrow> nd_byExpiryIndex (ls_nodes m a) = - 1))"

definition tokens_inv :: "memLS \<Rightarrow> bool" where
  "tokens_inv m \<longleftrightarrow>
     finite (dom (ls_byToken m)) \<and>
     (\<forall>t a. ls_byToken m t = Some a \<longrightarrow> t \<noteq> [] \<and> nd_token (ls_nodes m a) = t \<and> ls_byName m (ld_Root (nd_details (ls_nodes m a))) = Some a \<and>
        (\<exists>g \<le> ls_gen m. t = fmt_d (unat g)))"

definition refs_inv :: "memLS \<Rightarrow> bool" where
  "refs_inv m \<longleftrightarrow>
     (\<forall>s. clean s \<longrightarrow> (case ls_byName m s of None \<Rightarrow> refs m s = 0 | Some a \<Rightarrow> nd_refCount (ls_nodes m a) = int (refs m s) \<and> 0 < refs m s))"

definition heap_inv :: "memLS \<Rightarrow> bool" where
  "heap_inv m \<longleftrightarrow>
     heap_indexed m \<and> heap_ordered m \<and>
     (\<forall>a. a \<in> set (ls_byExpiry m) \<longleftrightarrow> (\<exists>t. ls_byToken m t = Some a) \<and> ld_Duration (nd_details (ls_nodes m a)) \<ge> 0 \<and> \<not> nd_held (ls_nodes m a))"

definition exclusive :: "(string \<rightharpoonup> lock) \<Rightarrow> bool" where
  "exclusive A \<longleftrightarrow> (\<forall>t t' l l'. A t = Some l \<and> A t' = Some l' \<and> t \<noteq> t' \<longrightarrow> \<not> conflict (lk_details l) (lk_details l'))"

definition lock_inv :: "memLS \<Rightarrow> bool" where
  "lock_inv m \<longleftrightarrow> names_inv m \<and> tokens_inv m \<and> refs_inv m \<and> heap_inv m \<and> exclusive (abs_locks m)"

lemma set_node_simps [simp]:
  "ls_nodes (set_node a n m) = (ls_nodes m)(a := n)" "ls_fresh (set_node a n m) = ls_fresh m" "ls_byName (set_node a n m) = ls_byName m"
  "ls_byToken (set_node a n m) = ls_byToken m" "ls_gen (set_node a n m) = ls_gen m" "ls_byExpiry (set_node a n m) = ls_byExpiry m"
  by (simp_all add: set_node_def)

lemma lock_invD:
  assumes "lock_inv m"
  shows "ls_byName m s = Some a \<Longrightarrow> a < ls_fresh m" "ls_byName m s = Some a \<Longrightarrow> ld_Root (nd_details (ls_nodes m a)) = s"
    "ls_byName m s = Some a \<Longrightarrow> clean s" "ls_byName m s = Some a \<Longrightarrow> nd_token (ls_nodes m a) \<noteq> [] \<Longrightarrow> ls_byToken m (nd_token (ls_nodes m a)) = Some a"
    "ls_byName m s = Some a \<Longrightarrow> nd_held (ls_nodes m a) \<Longrightarrow> nd_token (ls_nodes m a) \<noteq> []"
    "ls_byName m s = Some a \<Longrightarrow> a \<notin> set (ls_byExpiry m) \<Longrightarrow> nd_byExpiryIndex (ls_nodes m a) = - 1"
    "finite (dom (ls_byToken m))" "ls_byToken m t = Some a \<Longrightarrow> t \<noteq> []" "ls_byToken m t = Some a \<Longrightarrow> nd_token (ls_nodes m a) = t"
    "ls_byToken m t = Some a \<Longrightarrow> ls_byName m (ld_Root (nd_details (ls_nodes m a))) = Some a"
    "ls_byToken m t = Some a \<Longrightarrow> \<exists>g \<le> ls_gen m. t = fmt_d (unat g)"
    "clean s \<Longrightarrow> case ls_byName m s of None \<Rightarrow> refs m s = 0 | Some a \<Rightarrow> nd_refCount (ls_nodes m a) = int (refs m s) \<and> 0 < refs m s"
    "heap_indexed m" "heap_ordered m"
    "a \<in> set (ls_byExpiry m) \<longleftrightarrow> (\<exists>t. ls_byToken m t = Some a) \<and> ld_Duration (nd_details (ls_nodes m a)) \<ge> 0 \<and> \<not> nd_held (ls_nodes m a)"
    "exclusive (abs_locks m)"
  using assms unfolding lock_inv_def names_inv_def tokens_inv_def refs_inv_def heap_inv_def by blast+

lemma byName_inject: "lock_inv m \<Longrightarrow> ls_byName m s = Some a \<Longrightarrow> ls_byName m s' = Some a \<Longrightarrow> s = s'"
  using lock_invD(2) by metis

lemma byToken_inject: "lock_inv m \<Longrightarrow> ls_byToken m t = Some a \<Longrightarrow> ls_byToken m t' = Some a \<Longrightarrow> t = t'"
  using lock_invD(9) by metis

section \<open>Walks\<close>

definition released :: "string list \<Rightarrow> memLS \<Rightarrow> memLS" where
  "released ns m =
     m\<lparr>ls_nodes := (\<lambda>a. if \<exists>s \<in> set ns. ls_byName m s = Some a then (ls_nodes m a)\<lparr>nd_refCount := nd_refCount (ls_nodes m a) - 1\<rparr> else ls_nodes m a),
       ls_byName := (\<lambda>s. if s \<in> set ns \<and> nd_refCount (ls_nodes m (the (ls_byName m s))) = 1 then None else ls_byName m s)\<rparr>"

lemma walk_remove:
  assumes "distinct ns" "\<forall>s \<in> set ns. ls_byName m s \<noteq> None" "\<And>s s' a. ls_byName m s = Some a \<Longrightarrow> ls_byName m s' = Some a \<Longrightarrow> s = s'"
  shows "walk_list remove_step first ns m = Some (True, released ns m)"
  using assms
proof (induction ns arbitrary: m first)
  case Nil
  then show ?case by (simp add: released_def)
next
  case (Cons s ns)
  obtain x where x: "ls_byName m s = Some x" using Cons.prems(2) by auto
  let ?c = "nd_refCount (ls_nodes m x) - 1"
  let ?m0 = "set_node x ((ls_nodes m x)\<lparr>nd_refCount := ?c\<rparr>) m"
  let ?m = "if ?c = 0 then ?m0\<lparr>ls_byName := (ls_byName m)(s := None)\<rparr> else ?m0"
  have step: "remove_step s first m = Some (True, ?m)"
    using x by (simp add: remove_step_def Let_def set_node_def)
  have n: "ls_nodes ?m = (ls_nodes m)(x := (ls_nodes m x)\<lparr>nd_refCount := ?c\<rparr>)" "ls_byName ?m = (if ?c = 0 then (ls_byName m)(s := None) else ls_byName m)"
    by (simp_all add: set_node_def)
  have ne: "a \<noteq> x" if "s' \<in> set ns" "ls_byName m s' = Some a" for s' a
    using Cons.prems(1,3) x that by auto
  have "walk_list remove_step False ns ?m = Some (True, released ns ?m)"
    by (rule Cons.IH) (use Cons.prems in \<open>auto simp: n split: if_splits\<close>)
  moreover have "released ns ?m = released (s # ns) m"
  proof (rule memLS.equality)
    show "ls_nodes (released ns ?m) = ls_nodes (released (s # ns) m)"
      using x ne Cons.prems(1) by (auto simp: released_def n fun_eq_iff)
    show "ls_byName (released ns ?m) = ls_byName (released (s # ns) m)"
    proof
      fix s'
      show "ls_byName (released ns ?m) s' = ls_byName (released (s # ns) m) s'"
      proof (cases "s' \<in> set ns")
        case True
        then obtain a where "ls_byName m s' = Some a" using Cons.prems(2) by auto
        with ne [OF True this] True Cons.prems(1) show ?thesis by (auto simp: released_def n)
      next
        case False
        then show ?thesis using x by (auto simp: released_def n)
      qed
    qed
  qed (simp_all add: released_def set_node_def)
  ultimately show ?case using step by simp
qed

section \<open>Removing a lock\<close>

text \<open>The names after the walk, for a lock with token \<open>t\<close> at node \<open>n\<close>.\<close>

definition forgotten :: "string \<Rightarrow> nat \<Rightarrow> memLS \<Rightarrow> memLS" where
  "forgotten t n m =
     released (up_names (ld_Root (nd_details (ls_nodes m n))))
       (set_node n ((ls_nodes m n)\<lparr>nd_token := []\<rparr>) (m\<lparr>ls_byToken := (ls_byToken m)(t := None)\<rparr>))"

lemma forgotten_fields:
  "ls_fresh (forgotten t n m) = ls_fresh m" "ls_byToken (forgotten t n m) = (ls_byToken m)(t := None)" "ls_gen (forgotten t n m) = ls_gen m"
  "ls_byExpiry (forgotten t n m) = ls_byExpiry m" "nd_details (ls_nodes (forgotten t n m) a) = nd_details (ls_nodes m a)"
  "nd_expiry (ls_nodes (forgotten t n m) a) = nd_expiry (ls_nodes m a)" "nd_held (ls_nodes (forgotten t n m) a) = nd_held (ls_nodes m a)"
  "nd_byExpiryIndex (ls_nodes (forgotten t n m) a) = nd_byExpiryIndex (ls_nodes m a)"
  "nd_token (ls_nodes (forgotten t n m) a) = (if a = n then [] else nd_token (ls_nodes m a))"
  "ls_byName (forgotten t n m) s = Some a \<Longrightarrow> ls_byName m s = Some a"
  by (auto simp: forgotten_def released_def split: if_splits)

lemma forgotten_walk:
  assumes "lock_inv m" "ls_byToken m t = Some n"
  shows "walkToRoot remove_step True (ld_Root (nd_details (ls_nodes m n)))
      (set_node n ((ls_nodes m n)\<lparr>nd_token := []\<rparr>) (m\<lparr>ls_byToken := (ls_byToken m)(t := None)\<rparr>)) = Some (True, forgotten t n m)"
proof -
  let ?s = "ld_Root (nd_details (ls_nodes m n))"
  note inv = lock_invD [OF assms(1)]
  have clean: "clean ?s" using inv(3,10) assms(2) by blast
  note up = up_names_facts [OF clean]
  have "ls_byName m x \<noteq> None" if x: "x \<in> set (up_names ?s)" for x
  proof -
    have "prefix (name_parts x) (name_parts ?s)" "clean x" using up(4,5) x by auto
    then have "t \<in> {t \<in> dom (ls_byToken m). prefix (name_parts x) (lock_root m t)}"
      using assms(2) by (auto simp: lock_root_def)
    then have "refs m x \<noteq> 0"
      using inv(7) by (auto simp: refs_def)
    then show ?thesis using inv(12) [OF \<open>clean x\<close>] by (auto split: option.splits)
  qed
  then show ?thesis
    unfolding up(1) forgotten_def using up(2) byName_inject [OF assms(1)]
    by (intro walk_remove) auto
qed

lemma forgotten_refs:
  assumes "lock_inv m" "ls_byToken m t = Some n"
  shows "refs (forgotten t n m) s = refs m s - (if prefix (name_parts s) (name_parts (ld_Root (nd_details (ls_nodes m n)))) then 1 else 0)"
proof -
  let ?T = "{t \<in> dom (ls_byToken m). prefix (name_parts s) (lock_root m t)}"
  have "{t' \<in> dom (ls_byToken (forgotten t n m)). prefix (name_parts s) (lock_root (forgotten t n m) t')} = ?T - {t}"
    by (auto simp: forgotten_fields lock_root_def)
  moreover have "finite ?T" using lock_invD(7) [OF assms(1)] by simp
  moreover have "t \<in> ?T \<longleftrightarrow> prefix (name_parts s) (name_parts (ld_Root (nd_details (ls_nodes m n))))"
    using assms(2) by (auto simp: lock_root_def)
  ultimately show ?thesis
    by (simp add: refs_def card_Diff_singleton_if)
qed

lemma forgotten_refs_inv:
  assumes "lock_inv m" "ls_byToken m t = Some n"
  shows "refs_inv (forgotten t n m)"
  unfolding refs_inv_def
proof (intro allI impI)
  fix s assume s: "clean s"
  let ?r = "ld_Root (nd_details (ls_nodes m n))" and ?m = "forgotten t n m"
  note inv = lock_invD [OF assms(1)]
  have clean: "clean ?r" using inv(3,10) assms(2) by blast
  have up: "s \<in> set (up_names ?r) \<longleftrightarrow> prefix (name_parts s) (name_parts ?r)"
    using up_names_facts(4) [OF clean s] .
  show "case ls_byName ?m s of None \<Rightarrow> refs ?m s = 0 | Some a \<Rightarrow> nd_refCount (ls_nodes ?m a) = int (refs ?m s) \<and> 0 < refs ?m s"
  proof (cases "ls_byName m s")
    case None
    then show ?thesis
      using inv(12) [OF s] forgotten_refs [OF assms, of s] by (auto simp: forgotten_def released_def)
  next
    case (Some a)
    have c: "nd_refCount (ls_nodes m a) = int (refs m s)" "0 < refs m s"
      using inv(12) [OF s] Some by simp_all
    have "(\<exists>s' \<in> set (up_names ?r). ls_byName m s' = Some a) \<longleftrightarrow> s \<in> set (up_names ?r)"
      using byName_inject [OF assms(1) Some] Some by blast
    with Some c up forgotten_refs [OF assms, of s] show ?thesis
      by (auto simp: forgotten_def released_def)
  qed
qed

text \<open>What removing the lock at \<open>n\<close> leaves.\<close>

definition removed :: "string \<Rightarrow> nat \<Rightarrow> memLS \<Rightarrow> memLS \<Rightarrow> bool" where
  "removed t n m m' \<longleftrightarrow>
     lock_inv m' \<and> ls_byToken m' = (ls_byToken m)(t := None) \<and> ls_gen m' = ls_gen m \<and>
     (\<forall>a. node_lock (ls_nodes m' a) = node_lock (ls_nodes m a)) \<and> set (ls_byExpiry m') = set (ls_byExpiry m) - {n}"

text \<open>The guarded \<^verbatim>\<open>heap.Remove\<close> of \<^verbatim>\<open>remove\<close>, \<^verbatim>\<open>hold\<close> and \<^verbatim>\<open>Refresh\<close>.\<close>

definition dequeue :: "nat \<Rightarrow> memLS \<Rightarrow> memLS option" where
  "dequeue n m = (if nd_byExpiryIndex (ls_nodes m n) \<ge> 0 then heap_Remove (nd_byExpiryIndex (ls_nodes m n)) m else Some m)"

lemma dequeue_ok:
  assumes "heap_indexed m" "heap_ordered m" "n \<notin> set (ls_byExpiry m) \<Longrightarrow> nd_byExpiryIndex (ls_nodes m n) = - 1"
  shows "\<exists>m'. dequeue n m = Some m' \<and> ls_kept (set (ls_byExpiry m)) m m' \<and> heap_indexed m' \<and> heap_ordered m' \<and>
    set (ls_byExpiry m') = set (ls_byExpiry m) - {n} \<and> nd_byExpiryIndex (ls_nodes m' n) = - 1"
proof (cases "n \<in> set (ls_byExpiry m)")
  case True
  then have "nd_byExpiryIndex (ls_nodes m n) \<ge> 0"
    using assms(1) by (auto simp: heap_indexed_def in_set_conv_nth)
  then have "dequeue n m = heap_Remove (nd_byExpiryIndex (ls_nodes m n)) m" by (simp add: dequeue_def)
  with heap_Remove_facts [OF assms(1,2) True] show ?thesis by (simp only:)
next
  case False
  then have "dequeue n m = Some m" using assms(3) by (simp add: dequeue_def)
  with False assms ls_kept_refl [of "set (ls_byExpiry m)" m] show ?thesis
    by (intro exI [of _ m]) (simp del: ls_kept_fields)
qed

definition dropped :: "string \<Rightarrow> nat \<Rightarrow> memLS \<Rightarrow> memLS \<Rightarrow> bool" where
  "dropped t n m m' \<longleftrightarrow>
     ls_kept (set (ls_byExpiry m)) (forgotten t n m) m' \<and> heap_indexed m' \<and> heap_ordered m' \<and>
     set (ls_byExpiry m') = set (ls_byExpiry m) - {n} \<and> nd_byExpiryIndex (ls_nodes m' n) = - 1"

lemma forgotten_heap:
  assumes "lock_inv m" "ls_byToken m t = Some n"
  shows "\<exists>m'. dequeue n (forgotten t n m) = Some m' \<and> dropped t n m m'"
proof -
  let ?m = "forgotten t n m"
  note inv = lock_invD [OF assms(1)]
  have "heap_indexed ?m" "heap_ordered ?m"
    using inv(13,14) by (simp_all add: heap_indexed_def heap_ordered_def edge_def keys_def forgotten_fields)
  moreover have "nd_byExpiryIndex (ls_nodes ?m n) = - 1" if "n \<notin> set (ls_byExpiry ?m)"
    using inv(6) [OF inv(10) [OF assms(2)]] that by (simp add: forgotten_fields(4,8))
  ultimately show ?thesis
    using dequeue_ok [of ?m n] unfolding forgotten_fields(4) dropped_def by blast
qed

lemma dropped_fields:
  assumes "dropped t n m m'"
  shows "ls_fresh m' = ls_fresh m" "ls_byToken m' = (ls_byToken m)(t := None)" "ls_gen m' = ls_gen m"
    "nd_details (ls_nodes m' a) = nd_details (ls_nodes m a)" "nd_expiry (ls_nodes m' a) = nd_expiry (ls_nodes m a)"
    "nd_held (ls_nodes m' a) = nd_held (ls_nodes m a)" "nd_token (ls_nodes m' a) = (if a = n then [] else nd_token (ls_nodes m a))"
    "ls_byName m' s = Some a \<Longrightarrow> ls_byName m s = Some a"
    "a \<notin> set (ls_byExpiry m) \<Longrightarrow> nd_byExpiryIndex (ls_nodes m' a) = nd_byExpiryIndex (ls_nodes m a)"
proof -
  have k: "ls_kept (set (ls_byExpiry m)) (forgotten t n m) m'" using assms by (simp add: dropped_def)
  note kf = ls_kept_fields [OF k] and f = forgotten_fields [of t n m]
  show "ls_fresh m' = ls_fresh m" "ls_byToken m' = (ls_byToken m)(t := None)" "ls_gen m' = ls_gen m"
    "nd_details (ls_nodes m' a) = nd_details (ls_nodes m a)" "nd_expiry (ls_nodes m' a) = nd_expiry (ls_nodes m a)"
    "nd_held (ls_nodes m' a) = nd_held (ls_nodes m a)" "nd_token (ls_nodes m' a) = (if a = n then [] else nd_token (ls_nodes m a))"
    by (simp_all only: kf f)
  show "ls_byName m' s = Some a \<Longrightarrow> ls_byName m s = Some a" using f(10) by (simp only: kf)
  show "a \<notin> set (ls_byExpiry m) \<Longrightarrow> nd_byExpiryIndex (ls_nodes m' a) = nd_byExpiryIndex (ls_nodes m a)"
    using ls_kept_other [OF k, of a] f(8) [of a] by simp
qed

lemma dropped_refs:
  assumes "lock_inv m" "ls_byToken m t = Some n" "dropped t n m m'"
  shows "refs_inv m'"
proof -
  note kf = ls_kept_fields [OF assms(3) [unfolded dropped_def, THEN conjunct1]]
  have "refs m' = refs (forgotten t n m)" by (simp add: fun_eq_iff refs_def lock_root_def kf)
  with forgotten_refs_inv [OF assms(1,2)] show ?thesis by (auto simp: refs_inv_def kf split: option.splits)
qed

lemma dropped_names:
  assumes "lock_inv m" "ls_byToken m t = Some n" "\<not> nd_held (ls_nodes m n)" "dropped t n m m'"
  shows "names_inv m'"
  unfolding names_inv_def
proof (intro allI impI)
  note inv = lock_invD [OF assms(1)] and f = dropped_fields [OF assms(4)]
  fix s a assume "ls_byName m' s = Some a"
  then have s: "ls_byName m s = Some a" by (rule f(8))
  have "nd_byExpiryIndex (ls_nodes m' a) = - 1" if "a \<notin> set (ls_byExpiry m')"
  proof (cases "a = n")
    case False
    then have "a \<notin> set (ls_byExpiry m)" using that assms(4) by (simp add: dropped_def)
    with inv(6) [OF s] show ?thesis by (simp add: f(9))
  qed (use assms(4) in \<open>simp add: dropped_def\<close>)
  moreover have "ls_byToken m' (nd_token (ls_nodes m' a)) = Some a" if "nd_token (ls_nodes m' a) \<noteq> []"
  proof -
    have "a \<noteq> n" "nd_token (ls_nodes m a) \<noteq> []" using that by (auto simp: f split: if_splits)
    with inv(4) [OF s] assms(2) show ?thesis by (auto simp: f)
  qed
  ultimately show "a < ls_fresh m' \<and> ld_Root (nd_details (ls_nodes m' a)) = s \<and> clean s \<and>
      (nd_token (ls_nodes m' a) \<noteq> [] \<longrightarrow> ls_byToken m' (nd_token (ls_nodes m' a)) = Some a) \<and>
      (nd_held (ls_nodes m' a) \<longrightarrow> nd_token (ls_nodes m' a) \<noteq> []) \<and>
      (a \<notin> set (ls_byExpiry m') \<longrightarrow> nd_byExpiryIndex (ls_nodes m' a) = - 1)"
    using inv(1-3,5) [OF s] assms(3) by (auto simp: f)
qed

lemma dropped_tokens:
  assumes "lock_inv m" "ls_byToken m t = Some n" "dropped t n m m'"
  shows "tokens_inv m'"
  unfolding tokens_inv_def
proof (intro conjI allI impI)
  note inv = lock_invD [OF assms(1)] and f = dropped_fields [OF assms(3)]
  show fin: "finite (dom (ls_byToken m'))" using inv(7) by (simp add: f)
  fix t' a assume t': "ls_byToken m' t' = Some a"
  then have a: "ls_byToken m t' = Some a" "t' \<noteq> t" by (auto simp: f split: if_splits)
  then have "a \<noteq> n" using byToken_inject [OF assms(1,2)] by auto
  note i = inv(8-11) [OF a(1)]
  show "t' \<noteq> []" "nd_token (ls_nodes m' a) = t'" "\<exists>g \<le> ls_gen m'. t' = fmt_d (unat g)"
    using i \<open>a \<noteq> n\<close> by (simp_all add: f)
  let ?s = "ld_Root (nd_details (ls_nodes m' a))"
  have "t' \<in> {x \<in> dom (ls_byToken m'). prefix (name_parts ?s) (lock_root m' x)}"
    using t' by (auto simp: lock_root_def)
  then have "refs m' ?s \<noteq> 0"
    using fin by (auto simp: refs_def)
  moreover have "clean ?s" using inv(3) i(3) by (simp add: f)
  ultimately obtain x where x: "ls_byName m' ?s = Some x"
    using dropped_refs [OF assms] by (fastforce simp: refs_inv_def split: option.splits)
  with f(8) [OF x] i(3) show "ls_byName m' ?s = Some a" by (simp add: f(4))
qed

lemma dropped_heap:
  assumes "lock_inv m" "ls_byToken m t = Some n" "dropped t n m m'"
  shows "heap_inv m'"
  unfolding heap_inv_def
proof (intro conjI allI)
  note f = dropped_fields [OF assms(3)]
  show "heap_indexed m'" "heap_ordered m'" using assms(3) by (simp_all add: dropped_def)
  fix a
  have "(\<exists>t'. ls_byToken m' t' = Some a) \<longleftrightarrow> (\<exists>t'. ls_byToken m t' = Some a) \<and> a \<noteq> n"
    using byToken_inject [OF assms(1)] assms(2) unfolding f fun_upd_apply by (metis option.distinct(1) option.inject)
  with lock_invD(15) [OF assms(1), of a] assms(3) show "a \<in> set (ls_byExpiry m') \<longleftrightarrow>
      (\<exists>t. ls_byToken m' t = Some a) \<and> ld_Duration (nd_details (ls_nodes m' a)) \<ge> 0 \<and> \<not> nd_held (ls_nodes m' a)"
    by (auto simp: f dropped_def)
qed

lemma remove_node_ok:
  assumes "lock_inv m" "ls_byToken m t = Some n" "\<not> nd_held (ls_nodes m n)"
  shows "\<exists>m'. remove_node n m = Some m' \<and> removed t n m m'"
proof -
  obtain m' where m': "dequeue n (forgotten t n m) = Some m'" and d: "dropped t n m m'"
    using forgotten_heap [OF assms(1,2)] by blast
  have "remove_node n m = Some m'"
    using m' forgotten_walk [OF assms(1,2)] lock_invD(9) [OF assms(1,2)] by (simp add: remove_node_def Let_def dequeue_def)
  moreover have "exclusive (abs_locks m')"
    using lock_invD(16) [OF assms(1)] by (auto simp: exclusive_def abs_locks_def node_lock_def dropped_fields [OF d] split: if_splits)
  then have "removed t n m m'"
    using dropped_names [OF assms d] dropped_tokens [OF assms(1,2) d] dropped_refs [OF assms(1,2) d] dropped_heap [OF assms(1,2) d] d
    by (simp add: removed_def lock_inv_def node_lock_def dropped_fields [OF d]) (simp add: dropped_def)
  ultimately show ?thesis by blast
qed

end
