(* ===== verification/WebDAV_Lock_Create.thy ===== *)
theory WebDAV_Lock_Create
  imports WebDAV_Lock_Inv
begin

text \<open>
  Collecting expired locks and creating a lock, as steps from one state in the invariant to another.
\<close>

section \<open>Expired locks\<close>

definition live_node :: "int \<Rightarrow> memLS \<Rightarrow> nat \<Rightarrow> bool" where
  "live_node now m a \<longleftrightarrow> \<not> expired now (node_lock (ls_nodes m a))"

definition collected :: "int \<Rightarrow> memLS \<Rightarrow> memLS \<Rightarrow> bool" where
  "collected now m m' \<longleftrightarrow>
     lock_inv m' \<and> ls_gen m' = ls_gen m \<and> (\<forall>a. node_lock (ls_nodes m' a) = node_lock (ls_nodes m a)) \<and>
     (\<forall>t a. ls_byToken m' t = Some a \<longleftrightarrow> ls_byToken m t = Some a \<and> live_node now m a)"

lemma heap_expired:
  assumes "lock_inv m" "ls_byToken m t = Some a" "\<not> live_node now m a"
  shows "a \<in> set (ls_byExpiry m)" "nd_expiry (ls_nodes m (ls_byExpiry m ! 0)) \<le> now"
proof -
  note inv = lock_invD [OF assms(1)]
  have e: "ld_Duration (nd_details (ls_nodes m a)) \<ge> 0" "\<not> nd_held (ls_nodes m a)" "nd_expiry (ls_nodes m a) \<le> now"
    using assms(3) by (auto simp: live_node_def expired_def node_lock_def split: if_splits)
  then show a: "a \<in> set (ls_byExpiry m)" using inv(15) [of a] assms(2) by blast
  then obtain i where "i < length (ls_byExpiry m)" "ls_byExpiry m ! i = a" by (auto simp: in_set_conv_nth)
  with heap_min [OF inv(14)] e(3) show "nd_expiry (ls_nodes m (ls_byExpiry m ! 0)) \<le> now"
    by (fastforce simp: keys_def)
qed

lemma collect_ok:
  assumes "lock_inv m"
  shows "\<exists>m'. collectExpiredNodes now m = Some m' \<and> collected now m m'"
  using assms
proof (induction "card (set (ls_byExpiry m))" arbitrary: m rule: less_induct)
  case less
  note inv = lock_invD [OF less.prems]
  show ?case
  proof (cases "ls_byExpiry m = [] \<or> now < nd_expiry (ls_nodes m (ls_byExpiry m ! 0))")
    case True
    then have "collectExpiredNodes now m = Some m"
      by (subst collectExpiredNodes.simps) auto
    moreover have "live_node now m a" if "ls_byToken m t = Some a" for t a
      using heap_expired [OF less.prems that, of now] True by force
    ultimately show ?thesis
      using less.prems by (auto simp: collected_def)
  next
    case False
    let ?n = "ls_byExpiry m ! 0"
    have n: "?n \<in> set (ls_byExpiry m)" using False by (simp add: nth_mem)
    then obtain t where t: "ls_byToken m t = Some ?n" "ld_Duration (nd_details (ls_nodes m ?n)) \<ge> 0" "\<not> nd_held (ls_nodes m ?n)"
      using inv(15) [of ?n] by blast
    obtain m1 where m1: "remove_node ?n m = Some m1" "removed t ?n m m1"
      using remove_node_ok [OF less.prems t(1,3)] by blast
    have "card (set (ls_byExpiry m1)) < card (set (ls_byExpiry m))"
      using m1(2) card_Diff1_less [OF _ n] by (simp add: removed_def del: card_Diff_singleton card_Diff_insert)
    then obtain m2 where m2: "collectExpiredNodes now m1 = Some m2" "collected now m1 m2"
      using less.hyps [of m1] m1(2) by (auto simp: removed_def)
    have "collectExpiredNodes now m = Some m2"
      using False m1(1) m2(1) by (subst collectExpiredNodes.simps) simp
    moreover have "\<not> live_node now m ?n"
      using False t(2,3) by (simp add: live_node_def expired_def node_lock_def)
    then have "ls_byToken m t' = Some a \<and> live_node now m a \<longleftrightarrow> ls_byToken m1 t' = Some a \<and> live_node now m1 a" for t' a
      using m1(2) t(1) by (auto simp: removed_def live_node_def)
    then have "collected now m m2"
      using m1(2) m2(2) by (simp add: collected_def removed_def)
    ultimately show ?thesis by blast
  qed
qed

lemma collected_abs: "collected now m m' \<Longrightarrow> abs_locks m' = spec_collect now (abs_locks m)"
proof
  fix t assume c: "collected now m m'"
  show "abs_locks m' t = spec_collect now (abs_locks m) t"
  proof (cases "ls_byToken m' t")
    case None
    then have "\<not> live_node now m a" if "ls_byToken m t = Some a" for a
      using c that unfolding collected_def by (metis option.distinct(1))
    with None show ?thesis
      by (cases "ls_byToken m t") (simp_all add: abs_locks_def spec_collect_def live_node_def)
  next
    case (Some a)
    with c have "ls_byToken m t = Some a" "live_node now m a" "node_lock (ls_nodes m' a) = node_lock (ls_nodes m a)"
      by (auto simp: collected_def)
    with Some show ?thesis by (simp add: abs_locks_def spec_collect_def live_node_def)
  qed
qed

section \<open>The check\<close>

lemma walk_check:
  "walk_list (\<lambda>n f m. Some (may_create z m n f, m)) first (x # xs) m = Some (may_create z m x first \<and> (\<forall>y \<in> set xs. may_create z m y False), m)"
  by (induction xs arbitrary: first x) auto

lemma refs_zero:
  "lock_inv m \<Longrightarrow> clean s \<Longrightarrow> ls_byName m s = None \<longleftrightarrow> (\<forall>t a. ls_byToken m t = Some a \<longrightarrow> \<not> prefix (name_parts s) (name_parts (ld_Root (nd_details (ls_nodes m a)))))"
proof -
  assume m: "lock_inv m" and s: "clean s"
  have "finite {t \<in> dom (ls_byToken m). prefix (name_parts s) (lock_root m t)}" using lock_invD(7) [OF m] by simp
  then have "refs m s = 0 \<longleftrightarrow> (\<forall>t a. ls_byToken m t = Some a \<longrightarrow> \<not> prefix (name_parts s) (name_parts (ld_Root (nd_details (ls_nodes m a)))))"
    by (auto simp: refs_def lock_root_def)
  then show ?thesis using lock_invD(12) [OF m s] by (auto split: option.splits)
qed

lemma canCreate_iff:
  assumes "lock_inv m" "clean (ld_Root d)"
  shows "canCreate (ld_Root d) (ld_ZeroDepth d) m = Some (\<forall>t a. ls_byToken m t = Some a \<longrightarrow> \<not> conflict d (nd_details (ls_nodes m a)))"
proof -
  let ?r = "ld_Root d" and ?z = "ld_ZeroDepth d"
  note inv = lock_invD [OF assms(1)] and up = up_names_facts [OF assms(2)]
  let ?ok = "may_create ?z m ?r True \<and> (\<forall>y \<in> set (tl (up_names ?r)). may_create ?z m y False)"
  have ok: "canCreate ?r ?z m = Some ?ok"
    unfolding canCreate_def up(1) by (subst up(3)) (simp only: walk_check option.map fst_conv)
  have tl: "y \<in> set (tl (up_names ?r)) \<longleftrightarrow> y \<in> set (up_names ?r) \<and> y \<noteq> ?r" for y
    using up(2,3) by (metis distinct.simps(2) set_ConsD list.set_intros)
  have "?ok \<longleftrightarrow> (\<forall>t a. ls_byToken m t = Some a \<longrightarrow> \<not> conflict d (nd_details (ls_nodes m a)))" (is "_ \<longleftrightarrow> ?no")
  proof
    assume ?ok
    show ?no
    proof (intro allI impI)
      fix t a assume t: "ls_byToken m t = Some a"
      let ?s = "ld_Root (nd_details (ls_nodes m a))"
      have a: "ls_byName m ?s = Some a" "nd_token (ls_nodes m a) \<noteq> []" "clean ?s"
        using inv(3,8,9,10) t by auto
      have "?r \<noteq> ?s" using \<open>?ok\<close> a by (auto simp: may_create_def)
      moreover have "ld_ZeroDepth d" if "prefix (name_parts ?r) (name_parts ?s)"
        using refs_zero [OF assms] t that \<open>?ok\<close> by (auto simp: may_create_def Let_def split: option.splits)
      moreover have "ld_ZeroDepth (nd_details (ls_nodes m a))" if "prefix (name_parts ?s) (name_parts ?r)" "?r \<noteq> ?s"
        using \<open>?ok\<close> that a tl [of ?s] up(4) [OF a(3)] by (auto simp: may_create_def Let_def)
      ultimately show "\<not> conflict d (nd_details (ls_nodes m a))"
        by (auto simp: conflict_def)
    qed
  next
    assume no: ?no
    have "may_create ?z m ?r True"
    proof (cases "ls_byName m ?r")
      case (Some a)
      have "nd_token (ls_nodes m a) = []"
        using inv(2,4) [OF Some] no by (fastforce simp: conflict_def)
      moreover have "?z"
        using refs_zero [OF assms] Some no by (auto simp: conflict_def)
      ultimately show ?thesis using Some by (simp add: may_create_def)
    qed (simp add: may_create_def)
    moreover have "may_create ?z m y False" if "y \<in> set (tl (up_names ?r))" for y
    proof (cases "ls_byName m y")
      case (Some a)
      have "prefix (name_parts y) (name_parts ?r)" using that tl up(4,5) by blast
      then show ?thesis
        using Some no inv(2,4) [OF Some] by (auto simp: may_create_def Let_def conflict_def)
    qed (simp add: may_create_def)
    ultimately show ?ok by blast
  qed
  with ok show ?thesis by simp
qed

section \<open>The walk of create\<close>

definition old_node :: "memLS \<Rightarrow> string \<Rightarrow> memLSNode" where
  "old_node m s = (case ls_byName m s of Some a \<Rightarrow> ls_nodes m a | None \<Rightarrow> new_memLSNode s)"

definition same_rest :: "memLS \<Rightarrow> memLS \<Rightarrow> bool" where
  "same_rest m m' \<longleftrightarrow> ls_byToken m' = ls_byToken m \<and> ls_gen m' = ls_gen m \<and> ls_byExpiry m' = ls_byExpiry m \<and> ls_fresh m \<le> ls_fresh m'"

definition counted :: "string list \<Rightarrow> memLS \<Rightarrow> memLS \<Rightarrow> bool" where
  "counted ns m m' \<longleftrightarrow>
     same_rest m m' \<and>
     (\<forall>s. s \<notin> set ns \<longrightarrow> ls_byName m' s = ls_byName m s) \<and>
     (\<forall>s \<in> set ns. \<exists>a < ls_fresh m'. ls_byName m' s = Some a \<and> ls_nodes m' a = (old_node m s)\<lparr>nd_refCount := nd_refCount (old_node m s) + 1\<rparr> \<and>
        (case ls_byName m s of Some b \<Rightarrow> a = b | None \<Rightarrow> ls_fresh m \<le> a)) \<and>
     (\<forall>a < ls_fresh m. (\<forall>s \<in> set ns. ls_byName m' s \<noteq> Some a) \<longrightarrow> ls_nodes m' a = ls_nodes m a)"

definition names_ok :: "memLS \<Rightarrow> bool" where
  "names_ok m \<longleftrightarrow> (\<forall>s a. ls_byName m s = Some a \<longrightarrow> a < ls_fresh m \<and> (\<forall>s'. ls_byName m s' = Some a \<longrightarrow> s' = s))"

lemma create_step_facts:
  assumes "names_ok m"
  obtains m1 a where "create_step s first (m, r) = Some (True, m1, if first then a else r)" "ls_byName m1 s = Some a" "a < ls_fresh m1"
    "ls_nodes m1 a = (old_node m s)\<lparr>nd_refCount := nd_refCount (old_node m s) + 1\<rparr>" "names_ok m1" "same_rest m m1"
    "\<And>y. y \<noteq> s \<Longrightarrow> ls_byName m1 y = ls_byName m y" "\<And>b. b \<noteq> a \<Longrightarrow> ls_nodes m1 b = ls_nodes m b"
    "case ls_byName m s of Some b \<Rightarrow> a = b | None \<Rightarrow> a = ls_fresh m"
proof (cases "ls_byName m s")
  case None
  let ?a = "ls_fresh m"
  show thesis
    by (rule that [of "(set_node ?a ((new_memLSNode s)\<lparr>nd_refCount := 1\<rparr>) m)\<lparr>ls_fresh := ?a + 1, ls_byName := (ls_byName m)(s \<mapsto> ?a)\<rparr>" ?a])
      (use None assms in \<open>auto simp: create_step_def node_at_def Let_def old_node_def same_rest_def names_ok_def new_memLSNode_def set_node_def less_Suc_eq split: if_splits\<close>)
next
  case (Some a)
  show thesis
    by (rule that [of "set_node a ((ls_nodes m a)\<lparr>nd_refCount := nd_refCount (ls_nodes m a) + 1\<rparr>) m" a])
      (use Some assms in \<open>auto simp: create_step_def node_at_def old_node_def same_rest_def names_ok_def\<close>)
qed

lemma walk_create:
  assumes "names_ok m" "distinct ns"
  shows "\<exists>m' r'. walk_list create_step first ns (m, r) = Some (True, m', r') \<and> counted ns m m' \<and> names_ok m' \<and>
    (if first \<and> ns \<noteq> [] then ls_byName m' (hd ns) = Some r' else r' = r)"
  using assms
proof (induction ns arbitrary: m first r)
  case Nil
  then show ?case by (simp add: counted_def same_rest_def)
next
  case (Cons s ns)
  obtain m1 a where step: "create_step s first (m, r) = Some (True, m1, if first then a else r)" and a: "ls_byName m1 s = Some a" "a < ls_fresh m1"
      "ls_nodes m1 a = (old_node m s)\<lparr>nd_refCount := nd_refCount (old_node m s) + 1\<rparr>" and m1: "names_ok m1" "same_rest m m1"
      "\<And>y. y \<noteq> s \<Longrightarrow> ls_byName m1 y = ls_byName m y" "\<And>b. b \<noteq> a \<Longrightarrow> ls_nodes m1 b = ls_nodes m b"
      "case ls_byName m s of Some b \<Rightarrow> a = b | None \<Rightarrow> a = ls_fresh m"
    using create_step_facts [OF Cons.prems(1)] by metis
  obtain m' r' where w: "walk_list create_step False ns (m1, if first then a else r) = Some (True, m', r')" "counted ns m1 m'" "names_ok m'"
      "r' = (if first then a else r)"
    using Cons.IH [OF m1(1), of False] Cons.prems(2) by fastforce
  have s: "s \<notin> set ns" using Cons.prems(2) by simp
  have "ls_byName m' s = Some a" using w(2) s a(1) by (simp add: counted_def)
  moreover have "ls_nodes m' a = ls_nodes m1 a"
    using w(2,3) s a(2) \<open>ls_byName m' s = Some a\<close> unfolding counted_def names_ok_def by metis
  moreover have old: "old_node m1 y = old_node m y" if "y \<in> set ns" for y
  proof -
    have "y \<noteq> s" using that s by auto
    moreover have "b \<noteq> a" if "ls_byName m1 y = Some b" for b
      using m1(1) a(1) that \<open>y \<noteq> s\<close> unfolding names_ok_def by blast
    ultimately show ?thesis using m1(3,4) by (auto simp: old_node_def split: option.split)
  qed
  moreover have "\<exists>a < ls_fresh m'. ls_byName m' y = Some a \<and> ls_nodes m' a = (old_node m y)\<lparr>nd_refCount := nd_refCount (old_node m y) + 1\<rparr> \<and>
      (case ls_byName m y of Some b \<Rightarrow> a = b | None \<Rightarrow> ls_fresh m \<le> a)" if "y \<in> set ns" for y
  proof -
    have "y \<noteq> s" using that s by auto
    then have "ls_byName m1 y = ls_byName m y" by (rule m1(3))
    with that w(2) old [OF that] m1(2) show ?thesis
      unfolding counted_def same_rest_def by (fastforce split: option.splits)
  qed
  moreover have "a < ls_fresh m'" "same_rest m m'"
    using w(2) m1(2) a(2) by (auto simp: counted_def same_rest_def)
  moreover have "ls_nodes m' b = ls_nodes m b" if "b < ls_fresh m" "\<forall>y \<in> set (s # ns). ls_byName m' y \<noteq> Some b" for b
    using w(2) m1(2,4) that \<open>ls_byName m' s = Some a\<close> by (auto simp: counted_def same_rest_def)
  moreover have "ls_byName m' y = ls_byName m y" if "y \<notin> set (s # ns)" for y
    using w(2) m1(3) that by (simp add: counted_def)
  moreover have "case ls_byName m s of Some b \<Rightarrow> a = b | None \<Rightarrow> ls_fresh m \<le> a"
    using m1(5) by (simp split: option.splits)
  ultimately have "counted (s # ns) m m'"
    using a(3) unfolding counted_def by simp
  then show ?case
    using step w \<open>ls_byName m' s = Some a\<close> by auto
qed

end
