(* ===== verification/WebDAV_Lock_Steps.thy ===== *)
theory WebDAV_Lock_Steps
  imports WebDAV_Lock_Create
begin

text \<open>
  A new lock enters the state, and a lock of the state changes; both keep the invariant.
\<close>

section \<open>Tokens\<close>

lemma next_token_fresh:
  assumes "lock_inv m" "ls_gen m \<noteq> - 1"
  shows "ls_byToken m (fmt_d (unat (ls_gen m + 1))) = None" "ls_gen m < ls_gen m + 1"
proof -
  show l: "ls_gen m < ls_gen m + 1"
    using assms(2) unatSuc [of "ls_gen m"] by (simp add: word_less_nat_alt add.commute eq_neg_iff_add_eq_0)
  show "ls_byToken m (fmt_d (unat (ls_gen m + 1))) = None"
  proof (rule ccontr)
    assume "ls_byToken m (fmt_d (unat (ls_gen m + 1))) \<noteq> None"
    then obtain g where "g \<le> ls_gen m" "fmt_d (unat (ls_gen m + 1)) = fmt_d (unat g)"
      using lock_invD(11) [OF assms(1)] by blast
    then show False using l by (simp add: fmt_d_inject word_less_nat_alt word_le_nat_alt)
  qed
qed

section \<open>A new lock\<close>

lemma conflict_sym: "conflict d d' \<longleftrightarrow> conflict d' d"
  by (auto simp: conflict_def)

lemma inv_names_ok: "lock_inv m \<Longrightarrow> names_ok m"
  using lock_invD(1) byName_inject unfolding names_ok_def by metis

lemma counted_node:
  assumes "lock_inv m" "counted ns m m1" "names_ok m1" "ls_byName m1 s = Some a"
  shows "ls_nodes m1 a = (old_node m s)\<lparr>nd_refCount := nd_refCount (old_node m s) + (if s \<in> set ns then 1 else 0)\<rparr>"
    "ls_byName m s = Some a \<or> ls_byName m s = None \<and> s \<in> set ns \<and> ls_fresh m \<le> a" "a < ls_fresh m1"
proof -
  show "a < ls_fresh m1" using assms(3,4) by (auto simp: names_ok_def)
  show "ls_byName m s = Some a \<or> ls_byName m s = None \<and> s \<in> set ns \<and> ls_fresh m \<le> a"
  proof (cases "s \<in> set ns")
    case True
    then obtain b where "ls_byName m1 s = Some b" "case ls_byName m s of Some b' \<Rightarrow> b = b' | None \<Rightarrow> ls_fresh m \<le> b"
      using assms(2) unfolding counted_def by blast
    with assms(4) True show ?thesis by (cases "ls_byName m s") simp_all
  qed (use assms(2,4) in \<open>simp add: counted_def\<close>)
  show "ls_nodes m1 a = (old_node m s)\<lparr>nd_refCount := nd_refCount (old_node m s) + (if s \<in> set ns then 1 else 0)\<rparr>"
  proof (cases "s \<in> set ns")
    case True
    then obtain b where "ls_byName m1 s = Some b" "ls_nodes m1 b = (old_node m s)\<lparr>nd_refCount := nd_refCount (old_node m s) + 1\<rparr>"
      using assms(2) unfolding counted_def by blast
    with assms(4) True show ?thesis by simp
  next
    case False
    then have s: "ls_byName m s = Some a" using assms(2,4) by (simp add: counted_def)
    moreover have "\<forall>y \<in> set ns. ls_byName m1 y \<noteq> Some a"
      using False assms(3,4) unfolding names_ok_def by blast
    ultimately have "ls_nodes m1 a = ls_nodes m a"
      using assms(2) lock_invD(1) [OF assms(1) s] by (simp add: counted_def)
    with s False show ?thesis by (simp add: old_node_def)
  qed
qed

definition entered :: "nat \<Rightarrow> LockDetails \<Rightarrow> memLS \<Rightarrow> memLS" where
  "entered n d m =
     (set_node n ((ls_nodes m n)\<lparr>nd_token := fmt_d (unat (ls_gen m + 1)), nd_details := d\<rparr>) m)
       \<lparr>ls_gen := ls_gen m + 1, ls_byToken := (ls_byToken m)(fmt_d (unat (ls_gen m + 1)) \<mapsto> n)\<rparr>"

text \<open>A lock with no deadline is about to enter; \<open>m1\<close> is what the walk of \<^verbatim>\<open>create\<close> leaves.\<close>

definition new_token :: "memLS \<Rightarrow> string" where
  "new_token m = fmt_d (unat (ls_gen m + 1))"

definition enters :: "nat \<Rightarrow> LockDetails \<Rightarrow> memLS \<Rightarrow> memLS \<Rightarrow> bool" where
  "enters n d m m1 \<longleftrightarrow>
     lock_inv m \<and> ls_gen m \<noteq> - 1 \<and> clean (ld_Root d) \<and> counted (up_names (ld_Root d)) m m1 \<and> names_ok m1 \<and> ls_byName m1 (ld_Root d) = Some n \<and>
     ld_Duration d < 0 \<and> (\<forall>t a. ls_byToken m t = Some a \<longrightarrow> \<not> conflict d (nd_details (ls_nodes m a)))"

lemma entersD:
  assumes "enters n d m m1"
  shows "lock_inv m" "ls_gen m \<noteq> - 1" "clean (ld_Root d)" "counted (up_names (ld_Root d)) m m1" "names_ok m1" "ls_byName m1 (ld_Root d) = Some n"
    "ld_Duration d < 0" "ls_byToken m t = Some a \<Longrightarrow> \<not> conflict d (nd_details (ls_nodes m a))"
  using assms by (auto simp: enters_def)

lemma entered_fields:
  assumes "enters n d m m1"
  shows "ls_byToken (entered n d m1) = (ls_byToken m)(new_token m \<mapsto> n)" "ls_gen (entered n d m1) = ls_gen m + 1"
    "ls_byExpiry (entered n d m1) = ls_byExpiry m" "ls_byName (entered n d m1) = ls_byName m1" "ls_fresh (entered n d m1) = ls_fresh m1"
    "ls_nodes (entered n d m1) a = (if a = n then (ls_nodes m1 n)\<lparr>nd_token := new_token m, nd_details := d\<rparr> else ls_nodes m1 a)"
  using entersD(4) [OF assms] by (simp_all add: entered_def counted_def same_rest_def new_token_def)

lemma old_kept:
  assumes "enters n d m m1" "ls_byName m s = Some a"
  shows "ls_byName m1 s = Some a" "old_node m s = ls_nodes m a"
    "ls_nodes m1 a = (ls_nodes m a)\<lparr>nd_refCount := nd_refCount (ls_nodes m a) + (if s \<in> set (up_names (ld_Root d)) then 1 else 0)\<rparr>"
proof -
  note e = entersD [OF assms(1)]
  show "ls_byName m1 s = Some a"
    using e(4) assms(2) unfolding counted_def by (cases "s \<in> set (up_names (ld_Root d))") fastforce+
  show "old_node m s = ls_nodes m a" using assms(2) by (simp add: old_node_def)
  with counted_node(1) [OF e(1,4,5) \<open>ls_byName m1 s = Some a\<close>]
  show "ls_nodes m1 a = (ls_nodes m a)\<lparr>nd_refCount := nd_refCount (ls_nodes m a) + (if s \<in> set (up_names (ld_Root d)) then 1 else 0)\<rparr>"
    by simp
qed

lemma other_lock:
  assumes "enters n d m m1" "ls_byToken m t = Some a"
  shows "a \<noteq> n" "t \<noteq> new_token m" "nd_details (ls_nodes m1 a) = nd_details (ls_nodes m a)" "nd_token (ls_nodes m1 a) = t"
    "nd_expiry (ls_nodes m1 a) = nd_expiry (ls_nodes m a)" "nd_held (ls_nodes m1 a) = nd_held (ls_nodes m a)"
    "nd_byExpiryIndex (ls_nodes m1 a) = nd_byExpiryIndex (ls_nodes m a)"
proof -
  note e = entersD [OF assms(1)] and k = old_kept [OF assms(1) lock_invD(10) [OF entersD(1) [OF assms(1)] assms(2)]]
  show "a \<noteq> n"
  proof
    assume "a = n"
    then have "ld_Root (nd_details (ls_nodes m a)) = ld_Root d"
      using e(5,6) k(1) unfolding names_ok_def by blast
    with e(8) [OF assms(2)] show False by (simp add: conflict_def)
  qed
  show "t \<noteq> new_token m" using next_token_fresh(1) [OF e(1,2)] assms(2) by (auto simp: new_token_def)
  show "nd_details (ls_nodes m1 a) = nd_details (ls_nodes m a)" "nd_token (ls_nodes m1 a) = t"
    "nd_expiry (ls_nodes m1 a) = nd_expiry (ls_nodes m a)" "nd_held (ls_nodes m1 a) = nd_held (ls_nodes m a)"
    "nd_byExpiryIndex (ls_nodes m1 a) = nd_byExpiryIndex (ls_nodes m a)"
    using k(3) lock_invD(9) [OF e(1) assms(2)] by simp_all
qed

lemma enters_target:
  assumes "enters n d m m1"
  shows "nd_token (ls_nodes m1 n) = []" "\<not> nd_held (ls_nodes m1 n)" "nd_byExpiryIndex (ls_nodes m1 n) = - 1" "n \<notin> set (ls_byExpiry m)"
proof -
  note e = entersD [OF assms] and inv = lock_invD [OF entersD(1) [OF assms]] and other = other_lock(1) [OF assms]
  show heap: "n \<notin> set (ls_byExpiry m)" using inv(15) [of n] other by blast
  have "nd_token (old_node m (ld_Root d)) = [] \<and> \<not> nd_held (old_node m (ld_Root d)) \<and> nd_byExpiryIndex (old_node m (ld_Root d)) = - 1"
  proof (cases "ls_byName m (ld_Root d)")
    case (Some a)
    then have "a = n" using old_kept(1) [OF assms Some] e(6) by simp
    with Some inv(4,5,6) [OF Some] other heap show ?thesis
      by (auto simp: old_node_def)
  qed (simp add: old_node_def new_memLSNode_def)
  then show "nd_token (ls_nodes m1 n) = []" "\<not> nd_held (ls_nodes m1 n)" "nd_byExpiryIndex (ls_nodes m1 n) = - 1"
    using counted_node(1) [OF e(1,4-6)] by simp_all
qed

lemma filter_insert: "{y \<in> insert x D. P y} = {y \<in> D. P y} \<union> (if P x then {x} else {})"
  by auto

lemma refs_entered:
  assumes "enters n d m m1"
  shows "refs (entered n d m1) s = refs m s + (if prefix (name_parts s) (name_parts (ld_Root d)) then 1 else 0)"
proof -
  note f = entered_fields [OF assms] and other = other_lock [OF assms]
  let ?T = "{t \<in> dom (ls_byToken m). prefix (name_parts s) (lock_root m t)}" and ?t = "new_token m"
  have l: "lock_root (entered n d m1) t = lock_root m t" "t \<noteq> ?t" if "ls_byToken m t = Some a" for t a
    using other [OF that] that by (simp_all add: lock_root_def f)
  have "lock_root (entered n d m1) ?t = name_parts (ld_Root d)"
    by (simp add: lock_root_def f)
  moreover have "dom (ls_byToken (entered n d m1)) = insert ?t (dom (ls_byToken m))"
    by (simp add: f)
  ultimately have "{t \<in> dom (ls_byToken (entered n d m1)). prefix (name_parts s) (lock_root (entered n d m1) t)} =
      {t \<in> dom (ls_byToken m). prefix (name_parts s) (lock_root (entered n d m1) t)} \<union>
      (if prefix (name_parts s) (name_parts (ld_Root d)) then {?t} else {})"
    by (simp only: filter_insert)
  also have "{t \<in> dom (ls_byToken m). prefix (name_parts s) (lock_root (entered n d m1) t)} = ?T"
    using l(1) by (intro Collect_cong) auto
  finally have "{t \<in> dom (ls_byToken (entered n d m1)). prefix (name_parts s) (lock_root (entered n d m1) t)} =
      ?T \<union> (if prefix (name_parts s) (name_parts (ld_Root d)) then {?t} else {})" .
  moreover have "finite ?T" "?t \<notin> ?T" using lock_invD(7) [OF entersD(1) [OF assms]] l(2) by auto
  ultimately show ?thesis by (simp add: refs_def)
qed

lemma entered_names:
  assumes "enters n d m m1"
  shows "names_inv (entered n d m1)"
  unfolding names_inv_def
proof (intro allI impI)
  let ?e = "entered n d m1"
  note e = entersD [OF assms] and inv = lock_invD [OF entersD(1) [OF assms]] and f = entered_fields [OF assms] and target = enters_target [OF assms]
  fix s a assume "ls_byName ?e s = Some a"
  then have s: "ls_byName m1 s = Some a" by (simp add: f)
  note c = counted_node [OF e(1,4,5) s]
  have root: "s = ld_Root d" if "a = n" using e(5,6) s that unfolding names_ok_def by blast
  have new: "a < ls_fresh ?e" using c(3) by (simp add: f)
  show "a < ls_fresh ?e \<and> ld_Root (nd_details (ls_nodes ?e a)) = s \<and> clean s \<and>
      (nd_token (ls_nodes ?e a) \<noteq> [] \<longrightarrow> ls_byToken ?e (nd_token (ls_nodes ?e a)) = Some a) \<and>
      (nd_held (ls_nodes ?e a) \<longrightarrow> nd_token (ls_nodes ?e a) \<noteq> []) \<and>
      (a \<notin> set (ls_byExpiry ?e) \<longrightarrow> nd_byExpiryIndex (ls_nodes ?e a) = - 1)"
  proof (cases "ls_byName m s = Some a")
    case True
    note i = inv(2-6) [OF True] and k = old_kept(3) [OF assms True]
    show ?thesis
    proof (cases "a = n")
      case False
      moreover have "nd_token (ls_nodes m a) \<noteq> [] \<Longrightarrow> nd_token (ls_nodes m a) \<noteq> new_token m"
        using i(3) other_lock(2) [OF assms] by blast
      ultimately show ?thesis using new i k by (simp add: f)
    qed (use new root target e(3) in \<open>simp add: f\<close>)
  next
    case False
    then have o: "old_node m s = new_memLSNode s" and up: "s \<in> set (up_names (ld_Root d))" using c(2) by (auto simp: old_node_def)
    have "clean s" using up_names_facts(5) [OF e(3) up] .
    with new c(1) o root target show ?thesis by (cases "a = n") (simp_all add: f new_memLSNode_def)
  qed
qed

lemma entered_tokens:
  assumes "enters n d m m1"
  shows "tokens_inv (entered n d m1)"
  unfolding tokens_inv_def
proof (intro conjI allI impI)
  let ?e = "entered n d m1"
  note e = entersD [OF assms] and inv = lock_invD [OF entersD(1) [OF assms]] and f = entered_fields [OF assms]
  have g: "ls_gen m < ls_gen m + 1" using next_token_fresh(2) [OF e(1,2)] .
  show "finite (dom (ls_byToken ?e))" using inv(7) by (simp add: f)
  fix t a assume t: "ls_byToken ?e t = Some a"
  have "t \<noteq> [] \<and> nd_token (ls_nodes ?e a) = t \<and> ls_byName ?e (ld_Root (nd_details (ls_nodes ?e a))) = Some a \<and> (\<exists>g \<le> ls_gen ?e. t = fmt_d (unat g))"
  proof (cases "t = new_token m")
    case True
    then have "a = n" using t by (simp add: f)
    then show ?thesis using True e(6) fmt_d_nonempty by (auto simp: f new_token_def)
  next
    case False
    then have a: "ls_byToken m t = Some a" using t by (simp add: f)
    note other = other_lock [OF assms a]
    obtain x where "x \<le> ls_gen m" "t = fmt_d (unat x)" using inv(11) [OF a] by blast
    then have "\<exists>g \<le> ls_gen ?e. t = fmt_d (unat g)" using g by (intro exI [of _ x]) (auto simp: f)
    then show ?thesis using inv(8,10) [OF a] other old_kept(1) [OF assms inv(10) [OF a]] by (simp add: f)
  qed
  then show "t \<noteq> []" "nd_token (ls_nodes ?e a) = t" "ls_byName ?e (ld_Root (nd_details (ls_nodes ?e a))) = Some a" "\<exists>g \<le> ls_gen ?e. t = fmt_d (unat g)"
    by blast+
qed

lemma entered_refs:
  assumes "enters n d m m1"
  shows "refs_inv (entered n d m1)"
  unfolding refs_inv_def
proof (intro allI impI)
  let ?e = "entered n d m1"
  note e = entersD [OF assms] and f = entered_fields [OF assms]
  fix s assume s: "clean s"
  note r = refs_entered [OF assms, of s] and up = up_names_facts(4) [OF e(3) s]
  note old = lock_invD(12) [OF e(1) s]
  show "case ls_byName ?e s of None \<Rightarrow> refs ?e s = 0 | Some a \<Rightarrow> nd_refCount (ls_nodes ?e a) = int (refs ?e s) \<and> 0 < refs ?e s"
  proof (cases "ls_byName m1 s")
    case None
    then have "s \<notin> set (up_names (ld_Root d))"
      using e(4) unfolding counted_def by (metis option.distinct(1))
    moreover from this None have "ls_byName m s = None"
      using e(4) by (simp add: counted_def)
    ultimately show ?thesis using None old r up by (simp add: f)
  next
    case (Some a)
    note c = counted_node [OF e(1,4,5) Some]
    have "nd_refCount (old_node m s) = int (refs m s)" "0 < refs ?e s"
      using old c(2) r up by (auto simp: old_node_def new_memLSNode_def)
    moreover have "nd_refCount (ls_nodes ?e a) = nd_refCount (ls_nodes m1 a)" by (simp add: f)
    ultimately show ?thesis using Some c(1) r up by (simp add: f(4))
  qed
qed

lemma entered_inv:
  assumes "enters n d m m1"
  shows "lock_inv (entered n d m1)" "abs_locks (entered n d m1) = (abs_locks m)(new_token m \<mapsto> \<lparr>lk_details = d, lk_expiry = None, lk_held = False\<rparr>)"
proof -
  let ?e = "entered n d m1"
  note e = entersD [OF assms] and inv = lock_invD [OF entersD(1) [OF assms]] and f = entered_fields [OF assms]
    and target = enters_target [OF assms] and other = other_lock [OF assms]
  show a: "abs_locks ?e = (abs_locks m)(new_token m \<mapsto> \<lparr>lk_details = d, lk_expiry = None, lk_held = False\<rparr>)"
  proof
    fix t
    show "abs_locks ?e t = ((abs_locks m)(new_token m \<mapsto> \<lparr>lk_details = d, lk_expiry = None, lk_held = False\<rparr>)) t"
    proof (cases "t = new_token m")
      case True
      then show ?thesis using target(2) e(7) by (simp add: abs_locks_def node_lock_def f)
    next
      case False
      then show ?thesis
        using other by (cases "ls_byToken m t") (simp_all add: abs_locks_def node_lock_def f)
    qed
  qed
  have h: "nd_byExpiryIndex (ls_nodes ?e x) = nd_byExpiryIndex (ls_nodes m x)" "nd_expiry (ls_nodes ?e x) = nd_expiry (ls_nodes m x)"
    if x: "x \<in> set (ls_byExpiry m)" for x
  proof -
    obtain t where "ls_byToken m t = Some x" using inv(15) [of x] x by blast
    from other [OF this] show "nd_byExpiryIndex (ls_nodes ?e x) = nd_byExpiryIndex (ls_nodes m x)" "nd_expiry (ls_nodes ?e x) = nd_expiry (ls_nodes m x)"
      by (simp_all add: f)
  qed
  have "heap_inv ?e"
    unfolding heap_inv_def
  proof (intro conjI allI)
    show "heap_indexed ?e" using inv(13) h(1) nth_mem by (simp add: heap_indexed_def f(3))
    have "keys ?e i = keys m i" if "i < length (ls_byExpiry m)" for i
      using h(2) [OF nth_mem [OF that]] by (simp add: keys_def f(3))
    then show "heap_ordered ?e" using inv(14) parent_less by (auto simp: heap_ordered_def edge_def f(3))
    fix x
    show "x \<in> set (ls_byExpiry ?e) \<longleftrightarrow> (\<exists>t. ls_byToken ?e t = Some x) \<and> ld_Duration (nd_details (ls_nodes ?e x)) \<ge> 0 \<and> \<not> nd_held (ls_nodes ?e x)"
    proof (cases "x = n")
      case True
      then show ?thesis using target(4) e(7) by (simp add: f)
    next
      case False
      then have "(\<exists>t. ls_byToken ?e t = Some x) \<longleftrightarrow> (\<exists>t. ls_byToken m t = Some x)"
        using other(2) unfolding f by (metis fun_upd_apply option.inject)
      moreover have "nd_details (ls_nodes ?e x) = nd_details (ls_nodes m x) \<and> nd_held (ls_nodes ?e x) = nd_held (ls_nodes m x)" if "ls_byToken m t = Some x" for t
        using other(3,6) [OF that] False by (simp add: f)
      ultimately show ?thesis using inv(15) [of x] unfolding f(3) by auto
    qed
  qed
  moreover have "exclusive (abs_locks ?e)"
    unfolding a exclusive_def
  proof (intro allI impI)
    fix t t' l l'
    assume l: "((abs_locks m)(new_token m \<mapsto> \<lparr>lk_details = d, lk_expiry = None, lk_held = False\<rparr>)) t = Some l \<and>
      ((abs_locks m)(new_token m \<mapsto> \<lparr>lk_details = d, lk_expiry = None, lk_held = False\<rparr>)) t' = Some l' \<and> t \<noteq> t'"
    have free: "\<not> conflict d (lk_details k)" if "abs_locks m x = Some k" for x k
      using that e(8) by (auto simp: abs_locks_def node_lock_def)
    with l inv(16) conflict_sym show "\<not> conflict (lk_details l) (lk_details l')"
      by (auto simp: exclusive_def split: if_splits)
  qed
  ultimately show "lock_inv ?e"
    using entered_names [OF assms] entered_tokens [OF assms] entered_refs [OF assms] by (simp add: lock_inv_def)
qed

end
