(* ===== verification/WebDAV_Lock_Methods.thy ===== *)
theory WebDAV_Lock_Methods
  imports WebDAV_Lock_Steps
begin

text \<open>
  Every method of the lock system returns in a state of the invariant, and does what the specification says.
\<close>

section \<open>A lock changes\<close>

definition queued :: "memLSNode \<Rightarrow> bool" where
  "queued n \<longleftrightarrow> ld_Duration (nd_details n) \<ge> 0 \<and> \<not> nd_held n"

definition touched :: "nat \<Rightarrow> memLS \<Rightarrow> memLS \<Rightarrow> bool" where
  "touched n m m' \<longleftrightarrow>
     ls_byToken m' = ls_byToken m \<and> ls_byName m' = ls_byName m \<and> ls_gen m' = ls_gen m \<and> ls_fresh m' = ls_fresh m \<and>
     (\<forall>a. nd_token (ls_nodes m' a) = nd_token (ls_nodes m a) \<and> nd_refCount (ls_nodes m' a) = nd_refCount (ls_nodes m a) \<and>
        ld_Root (nd_details (ls_nodes m' a)) = ld_Root (nd_details (ls_nodes m a)) \<and>
        ld_ZeroDepth (nd_details (ls_nodes m' a)) = ld_ZeroDepth (nd_details (ls_nodes m a)) \<and>
        (a \<noteq> n \<longrightarrow> node_lock (ls_nodes m' a) = node_lock (ls_nodes m a)))"

definition requeued :: "nat \<Rightarrow> memLS \<Rightarrow> memLS \<Rightarrow> bool" where
  "requeued n m m' \<longleftrightarrow>
     heap_indexed m' \<and> heap_ordered m' \<and>
     set (ls_byExpiry m') = (if queued (ls_nodes m' n) then insert n (set (ls_byExpiry m)) else set (ls_byExpiry m) - {n}) \<and>
     (\<forall>a. a \<noteq> n \<and> a \<notin> set (ls_byExpiry m) \<longrightarrow> nd_byExpiryIndex (ls_nodes m' a) = nd_byExpiryIndex (ls_nodes m a)) \<and>
     (\<not> queued (ls_nodes m' n) \<longrightarrow> nd_byExpiryIndex (ls_nodes m' n) = - 1)"

lemma node_lock_simps [simp]: "lk_details (node_lock n) = nd_details n" "lk_held (node_lock n) = nd_held n"
  by (simp_all add: node_lock_def)

lemma exclusive_nodes:
  "exclusive (abs_locks m) \<longleftrightarrow>
    (\<forall>t t' a b. ls_byToken m t = Some a \<and> ls_byToken m t' = Some b \<and> t \<noteq> t' \<longrightarrow> \<not> conflict (nd_details (ls_nodes m a)) (nd_details (ls_nodes m b)))"
  unfolding exclusive_def abs_locks_def by (auto simp: map_option_case split: option.splits)

lemma touched_fields:
  assumes "touched n m m'"
  shows "ls_byToken m' = ls_byToken m" "ls_byName m' = ls_byName m" "ls_gen m' = ls_gen m" "ls_fresh m' = ls_fresh m"
    "nd_token (ls_nodes m' a) = nd_token (ls_nodes m a)" "nd_refCount (ls_nodes m' a) = nd_refCount (ls_nodes m a)"
    "ld_Root (nd_details (ls_nodes m' a)) = ld_Root (nd_details (ls_nodes m a))" "ld_ZeroDepth (nd_details (ls_nodes m' a)) = ld_ZeroDepth (nd_details (ls_nodes m a))"
  using assms by (simp_all add: touched_def)

lemma touched_other:
  assumes "touched n m m'" "a \<noteq> n"
  shows "nd_details (ls_nodes m' a) = nd_details (ls_nodes m a)" "nd_held (ls_nodes m' a) = nd_held (ls_nodes m a)"
    "node_lock (ls_nodes m' a) = node_lock (ls_nodes m a)"
  using assms unfolding touched_def by (metis node_lock_simps)+

lemma touched_names:
  assumes "lock_inv m" "ls_byToken m t = Some n" "touched n m m'" "requeued n m m'"
  shows "names_inv m'"
  unfolding names_inv_def
proof (intro allI impI)
  note inv = lock_invD [OF assms(1)] and f = touched_fields [OF assms(3)]
  have n: "nd_token (ls_nodes m n) \<noteq> []" using inv(8,9) [OF assms(2)] by auto
  fix s a assume "ls_byName m' s = Some a"
  then have s: "ls_byName m s = Some a" by (simp add: f)
  note i = inv(1-6) [OF s]
  have "nd_byExpiryIndex (ls_nodes m' a) = - 1" if "a \<notin> set (ls_byExpiry m')"
    using that assms(4) i(6) by (auto simp: requeued_def split: if_splits)
  moreover have "nd_held (ls_nodes m' a) \<Longrightarrow> nd_token (ls_nodes m a) \<noteq> []"
    using i(5) n touched_other(2) [OF assms(3)] by (cases "a = n") auto
  ultimately show "a < ls_fresh m' \<and> ld_Root (nd_details (ls_nodes m' a)) = s \<and> clean s \<and>
      (nd_token (ls_nodes m' a) \<noteq> [] \<longrightarrow> ls_byToken m' (nd_token (ls_nodes m' a)) = Some a) \<and>
      (nd_held (ls_nodes m' a) \<longrightarrow> nd_token (ls_nodes m' a) \<noteq> []) \<and>
      (a \<notin> set (ls_byExpiry m') \<longrightarrow> nd_byExpiryIndex (ls_nodes m' a) = - 1)"
    using i(1-4) by (simp add: f)
qed

lemma touched_heap:
  assumes "lock_inv m" "ls_byToken m t = Some n" "touched n m m'" "requeued n m m'"
  shows "heap_inv m'"
  unfolding heap_inv_def
proof (intro conjI allI)
  note f = touched_fields [OF assms(3)]
  show "heap_indexed m'" "heap_ordered m'" using assms(4) by (simp_all add: requeued_def)
  fix a
  have s: "a \<in> set (ls_byExpiry m') \<longleftrightarrow> (if a = n then queued (ls_nodes m' n) else a \<in> set (ls_byExpiry m))"
    using assms(4) by (auto simp: requeued_def)
  show "a \<in> set (ls_byExpiry m') \<longleftrightarrow> (\<exists>t. ls_byToken m' t = Some a) \<and> ld_Duration (nd_details (ls_nodes m' a)) \<ge> 0 \<and> \<not> nd_held (ls_nodes m' a)"
  proof (cases "a = n")
    case True
    then show ?thesis unfolding s using assms(2) by (auto simp: queued_def f)
  next
    case False
    then show ?thesis unfolding s using lock_invD(15) [OF assms(1), of a] by (simp add: touched_other [OF assms(3)] f)
  qed
qed

lemma touch_inv:
  assumes "lock_inv m" "ls_byToken m t = Some n" "touched n m m'" "requeued n m m'"
  shows "lock_inv m'" "abs_locks m' = (abs_locks m)(t \<mapsto> node_lock (ls_nodes m' n))"
proof -
  note inv = lock_invD [OF assms(1)] and f = touched_fields [OF assms(3)]
  have r: "refs m' = refs m" by (simp add: fun_eq_iff refs_def lock_root_def f)
  have "refs_inv m" using assms(1) by (simp add: lock_inv_def)
  then have "refs_inv m'" by (auto simp: refs_inv_def f r split: option.splits)
  moreover have "tokens_inv m'"
    using inv(7-11) unfolding tokens_inv_def f by blast
  moreover have "exclusive (abs_locks m')"
    using inv(16) by (simp add: exclusive_nodes conflict_def f)
  ultimately show "lock_inv m'"
    using touched_names [OF assms] touched_heap [OF assms] by (simp add: lock_inv_def)
  show "abs_locks m' = (abs_locks m)(t \<mapsto> node_lock (ls_nodes m' n))"
  proof
    fix t'
    have "a \<noteq> n" if "t' \<noteq> t" "ls_byToken m t' = Some a" for a
      using that byToken_inject [OF assms(1,2)] by auto
    then show "abs_locks m' t' = ((abs_locks m)(t \<mapsto> node_lock (ls_nodes m' n))) t'"
      using assms(2) touched_other(3) [OF assms(3)] by (cases "ls_byToken m t'") (auto simp: abs_locks_def f)
  qed
qed

lemma heap_same:
  assumes "heap_indexed m" "heap_ordered m" "ls_byExpiry m' = ls_byExpiry m" "\<And>a. a \<in> set (ls_byExpiry m) \<Longrightarrow> nd_expiry (ls_nodes m' a) = nd_expiry (ls_nodes m a)"
    "\<And>a. a \<in> set (ls_byExpiry m) \<Longrightarrow> nd_byExpiryIndex (ls_nodes m' a) = nd_byExpiryIndex (ls_nodes m a)"
  shows "heap_indexed m'" "heap_ordered m'"
proof -
  show "heap_indexed m'" using assms(1,3,5) by (simp add: heap_indexed_def)
  have "keys m' i = keys m i" if "i < length (ls_byExpiry m)" for i
    using assms(4) [OF nth_mem [OF that]] by (simp add: keys_def assms(3))
  then show "heap_ordered m'" using assms(2) parent_less by (auto simp: heap_ordered_def edge_def assms(3))
qed

text \<open>The node leaves the heap, changes, and enters the heap again when it has a deadline and is not held.\<close>

lemma change_ok:
  assumes "ls_kept (set (ls_byExpiry m)) m m1" "heap_indexed m1" "heap_ordered m1" "set (ls_byExpiry m1) = set (ls_byExpiry m) - {n}"
    and "nd_token nd = nd_token (ls_nodes m n)" "nd_refCount nd = nd_refCount (ls_nodes m n)" "ld_Root (nd_details nd) = ld_Root (nd_details (ls_nodes m n))"
    and "ld_ZeroDepth (nd_details nd) = ld_ZeroDepth (nd_details (ls_nodes m n))" "nd_byExpiryIndex nd = - 1"
    and "m' = (if queued nd then heap_Push n (set_node n nd m1) else set_node n nd m1)"
  shows "touched n m m'" "requeued n m m'" "node_lock (ls_nodes m' n) = node_lock nd"
proof -
  let ?m = "set_node n nd m1"
  note k = ls_kept_fields [OF assms(1)]
  have n: "n \<notin> set (ls_byExpiry ?m)" using assms(4) by simp
  have h: "heap_indexed ?m" "heap_ordered ?m"
    by (rule heap_same [OF assms(2,3)]; use n in auto)+
  have kept: "ls_kept (insert n (set (ls_byExpiry m1))) ?m m'"
    using heap_Push_facts(1) [OF h n] ls_kept_refl [of "insert n (set (ls_byExpiry m1))" ?m] assms(10) by simp
  note k' = ls_kept_fields [OF kept]
  have q: "queued (ls_nodes m' n) \<longleftrightarrow> queued nd" by (simp add: queued_def k')
  show "node_lock (ls_nodes m' n) = node_lock nd" by (simp add: node_lock_def k')
  show "touched n m m'"
    using assms(5-8) by (auto simp: touched_def k k' node_lock_def)
  have "nd_byExpiryIndex (ls_nodes m' a) = nd_byExpiryIndex (ls_nodes m a)" if "a \<noteq> n" "a \<notin> set (ls_byExpiry m)" for a
  proof -
    have "ls_nodes m' a = ls_nodes ?m a" by (rule ls_kept_other [OF kept]) (use that assms(4) in auto)
    then show ?thesis using ls_kept_other [OF assms(1) that(2)] that(1) by simp
  qed
  then show "requeued n m m'"
    using heap_Push_facts(2-4) [OF h n] h n assms(4,9,10) q by (auto simp: requeued_def)
qed

section \<open>Single locks\<close>

definition updated :: "string \<Rightarrow> lock \<Rightarrow> memLS \<Rightarrow> memLS \<Rightarrow> bool" where
  "updated t l m m' \<longleftrightarrow> lock_inv m' \<and> ls_byToken m' = ls_byToken m \<and> ls_gen m' = ls_gen m \<and> abs_locks m' = (abs_locks m)(t \<mapsto> l)"

lemma updatedI:
  assumes "lock_inv m" "ls_byToken m t = Some n" "touched n m m'" "requeued n m m'"
  shows "updated t (node_lock (ls_nodes m' n)) m m'"
  using touch_inv [OF assms] assms(3) by (simp add: updated_def touched_def)

lemma lock_index: "lock_inv m \<Longrightarrow> ls_byToken m t = Some n \<Longrightarrow> n \<notin> set (ls_byExpiry m) \<Longrightarrow> nd_byExpiryIndex (ls_nodes m n) = - 1"
  using lock_invD(6,10) by blast

lemma unhold_ok:
  assumes "lock_inv m" "ls_byToken m t = Some n" "nd_held (ls_nodes m n)"
  shows "\<exists>m'. unhold n m = Some m' \<and> updated t ((node_lock (ls_nodes m n))\<lparr>lk_held := False\<rparr>) m m'"
proof -
  let ?n = "(ls_nodes m n)\<lparr>nd_held := False\<rparr>"
  note inv = lock_invD [OF assms(1)]
  have out: "n \<notin> set (ls_byExpiry m)" using inv(15) [of n] assms(3) by blast
  define m' where "m' = (if queued ?n then heap_Push n (set_node n ?n m) else set_node n ?n m)"
  have "unhold n m = Some m'"
    using assms(3) by (simp add: unhold_def Let_def m'_def queued_def)
  moreover note c = change_ok [OF ls_kept_refl inv(13,14) _ _ _ _ _ _ m'_def]
  have "updated t (node_lock ?n) m m'"
    using updatedI [OF assms(1,2) c(1,2)] c(3) out lock_index [OF assms(1,2) out] by simp
  ultimately show ?thesis by (auto simp: node_lock_def)
qed

lemma refresh_ok:
  assumes "lock_inv m" "ls_byToken m t = Some n" "\<not> nd_held (ls_nodes m n)" "ld_Root d = ld_Root (nd_details (ls_nodes m n))"
    and "ld_ZeroDepth d = ld_ZeroDepth (nd_details (ls_nodes m n))"
  shows "\<exists>m1. dequeue n m = Some m1 \<and> nd_details (ls_nodes m1 n) = nd_details (ls_nodes m n) \<and>
    updated t \<lparr>lk_details = d, lk_expiry = (if ld_Duration d \<ge> 0 then Some (now + ld_Duration d) else None), lk_held = False\<rparr> m
      (set_expiry now n (set_node n ((ls_nodes m1 n)\<lparr>nd_details := d\<rparr>) m1))"
proof -
  note inv = lock_invD [OF assms(1)]
  obtain m1 where m1: "dequeue n m = Some m1" "ls_kept (set (ls_byExpiry m)) m m1" "heap_indexed m1" "heap_ordered m1"
      "set (ls_byExpiry m1) = set (ls_byExpiry m) - {n}" "nd_byExpiryIndex (ls_nodes m1 n) = - 1"
    using dequeue_ok [OF inv(13,14) lock_index [OF assms(1,2)]] by blast
  note k = ls_kept_fields [OF m1(2)]
  define nd where "nd = (if ld_Duration d \<ge> 0 then (ls_nodes m1 n)\<lparr>nd_details := d, nd_expiry := now + ld_Duration d\<rparr> else (ls_nodes m1 n)\<lparr>nd_details := d\<rparr>)"
  define m' where "m' = (if queued nd then heap_Push n (set_node n nd m1) else set_node n nd m1)"
  note c = change_ok [OF m1(2-5) _ _ _ _ _ m'_def]
  have "updated t (node_lock nd) m m'"
    using updatedI [OF assms(1,2) c(1,2)] c(3) m1(6) assms(4,5) by (simp add: nd_def k)
  moreover have "node_lock nd = \<lparr>lk_details = d, lk_expiry = (if ld_Duration d \<ge> 0 then Some (now + ld_Duration d) else None), lk_held = False\<rparr>"
    using assms(3) by (simp add: nd_def node_lock_def k)
  moreover have "set_expiry now n (set_node n ((ls_nodes m1 n)\<lparr>nd_details := d\<rparr>) m1) = m'"
    using assms(3) by (simp add: set_expiry_def m'_def nd_def queued_def k set_node_def)
  ultimately show ?thesis using m1(1) k(5) by auto
qed

lemma hold_ok:
  assumes "lock_inv m" "ls_byToken m t = Some n" "\<not> nd_held (ls_nodes m n)"
  shows "\<exists>m'. hold n m = Some m' \<and> updated t ((node_lock (ls_nodes m n))\<lparr>lk_held := True\<rparr>) m m'"
proof -
  let ?m = "set_node n ((ls_nodes m n)\<lparr>nd_held := True\<rparr>) m"
  note inv = lock_invD [OF assms(1)]
  have h: "heap_indexed ?m" "heap_ordered ?m"
    by (rule heap_same [OF inv(13,14)]; auto)+
  have ix: "n \<notin> set (ls_byExpiry ?m) \<Longrightarrow> nd_byExpiryIndex (ls_nodes ?m n) = - 1"
    using lock_index [OF assms(1,2)] by simp
  obtain m' where m': "dequeue n ?m = Some m'" "ls_kept (set (ls_byExpiry ?m)) ?m m'" "heap_indexed m'" "heap_ordered m'"
      "set (ls_byExpiry m') = set (ls_byExpiry ?m) - {n}" "nd_byExpiryIndex (ls_nodes m' n) = - 1"
    using dequeue_ok [OF h ix] by blast
  note k = ls_kept_fields [OF m'(2)]
  have "nd_byExpiryIndex (ls_nodes m n) \<ge> 0 \<Longrightarrow> ld_Duration (nd_details (ls_nodes m n)) \<ge> 0"
    using inv(15) [of n] lock_index [OF assms(1,2)] by force
  then have "hold n m = dequeue n ?m"
    using assms(3) by (cases "nd_byExpiryIndex (ls_nodes m n) \<ge> 0") (simp_all add: hold_def Let_def dequeue_def)
  moreover have "touched n m m'" by (auto simp: touched_def k node_lock_def)
  moreover have "requeued n m m'"
    using m'(3-6) ls_kept_other [OF m'(2)] by (auto simp: requeued_def queued_def k)
  ultimately show ?thesis
    using updatedI [OF assms(1,2), of m'] m'(1) by (auto simp: node_lock_def k)
qed

end
