(* ===== verification/WebDAV_Lock_Spec.thy ===== *)
theory WebDAV_Lock_Spec
  imports WebDAV_Lock_Methods
begin

text \<open>
  The specification of the lock system, a map from tokens to locks, and the refinement of every method.
\<close>

section \<open>Specification\<close>

definition deadline :: "int \<Rightarrow> LockDetails \<Rightarrow> int option" where
  "deadline now d = (if ld_Duration d \<ge> 0 then Some (now + ld_Duration d) else None)"

definition fresh_lock :: "int \<Rightarrow> LockDetails \<Rightarrow> lock" where
  "fresh_lock now d = \<lparr>lk_details = d, lk_expiry = deadline now d, lk_held = False\<rparr>"

definition covers :: "LockDetails \<Rightarrow> string \<Rightarrow> bool" where
  "covers d name \<longleftrightarrow> name = ld_Root d \<or> \<not> ld_ZeroDepth d \<and> prefix (name_parts (ld_Root d)) (name_parts name)"

type_synonym locks = "string \<rightharpoonup> lock"

definition spec_Create :: "int \<Rightarrow> LockDetails \<Rightarrow> locks \<Rightarrow> nat \<Rightarrow> (lock_error + string) \<times> locks \<times> nat" where
  "spec_Create now details A g =
     (let A = spec_collect now A; d = details\<lparr>ld_Root := slashClean (ld_Root details)\<rparr> in
      if \<exists>t l. A t = Some l \<and> conflict d (lk_details l) then (Inl ErrLocked, A, g)
      else (Inr (fmt_d (g + 1)), A(fmt_d (g + 1) \<mapsto> fresh_lock now d), g + 1))"

definition spec_Refresh :: "int \<Rightarrow> string \<Rightarrow> int \<Rightarrow> locks \<Rightarrow> (lock_error + LockDetails) \<times> locks" where
  "spec_Refresh now t duration A =
     (let A = spec_collect now A in
      case A t of
        None \<Rightarrow> (Inl ErrNoSuchLock, A)
      | Some l \<Rightarrow>
          if lk_held l then (Inl ErrLocked, A)
          else let d = (lk_details l)\<lparr>ld_Duration := duration\<rparr> in (Inr d, A(t \<mapsto> fresh_lock now d)))"

definition spec_Unlock :: "int \<Rightarrow> string \<Rightarrow> locks \<Rightarrow> lock_error option \<times> locks" where
  "spec_Unlock now t A =
     (let A = spec_collect now A in
      case A t of
        None \<Rightarrow> (Some ErrNoSuchLock, A)
      | Some l \<Rightarrow> if lk_held l then (Some ErrLocked, A) else (None, A(t := None)))"

definition claimable :: "string \<Rightarrow> locks \<Rightarrow> string \<Rightarrow> bool" where
  "claimable name A t = (case A t of None \<Rightarrow> False | Some l \<Rightarrow> \<not> lk_held l \<and> covers (lk_details l) name)"

definition spec_hold :: "bool \<Rightarrow> string option \<Rightarrow> locks \<Rightarrow> locks" where
  "spec_hold b x A = (case x of None \<Rightarrow> A | Some t \<Rightarrow> A(t := map_option (\<lambda>l. l\<lparr>lk_held := b\<rparr>) (A t)))"

type_synonym claim = "string option \<times> string option"

definition spec_Confirm :: "int \<Rightarrow> string \<Rightarrow> string \<Rightarrow> string list \<Rightarrow> locks \<Rightarrow> (lock_error + claim) \<times> locks" where
  "spec_Confirm now name0 name1 tokens A =
     (let A = spec_collect now A;
          t0 = (if name0 = [] then None else find (claimable (slashClean name0) A) tokens);
          t1 = (if name1 = [] then None else find (claimable (slashClean name1) A) tokens)
      in
      if name0 \<noteq> [] \<and> t0 = None \<or> name1 \<noteq> [] \<and> t1 = None then (Inl ErrConfirmationFailed, A)
      else let t1 = (if t1 = t0 then None else t1) in (Inr (t0, t1), spec_hold True t1 (spec_hold True t0 A)))"

definition spec_Release :: "claim \<Rightarrow> locks \<Rightarrow> locks" where
  "spec_Release c A = spec_hold False (fst c) (spec_hold False (snd c) A)"

section \<open>Methods\<close>

text \<open>A lock that is held stays where it is.\<close>

definition keeps_held :: "memLS \<Rightarrow> memLS \<Rightarrow> bool" where
  "keeps_held m m' \<longleftrightarrow> (\<forall>t a. ls_byToken m t = Some a \<and> nd_held (ls_nodes m a) \<longrightarrow> ls_byToken m' t = Some a)"

lemma collected_keeps: "collected now m m' \<Longrightarrow> keeps_held m m'"
  by (auto simp: collected_def keeps_held_def live_node_def expired_def)

lemma collected_node: "collected now m m' \<Longrightarrow> node_lock (ls_nodes m' a) = node_lock (ls_nodes m a)"
  by (simp add: collected_def)

lemma keeps_trans:
  assumes "collected now m m1" "\<And>t a. ls_byToken m1 t = Some a \<Longrightarrow> nd_held (ls_nodes m1 a) \<Longrightarrow> ls_byToken m' t = Some a"
  shows "keeps_held m m'"
  unfolding keeps_held_def
proof (intro allI impI)
  fix t a assume a: "ls_byToken m t = Some a \<and> nd_held (ls_nodes m a)"
  moreover have "nd_held (ls_nodes m1 a) = nd_held (ls_nodes m a)"
    using collected_node [OF assms(1), of a] by (metis node_lock_simps(2))
  ultimately show "ls_byToken m' t = Some a"
    using collected_keeps [OF assms(1)] assms(2) by (auto simp: keeps_held_def)
qed

lemma collecting:
  assumes "lock_inv m"
  obtains m1 where "collectExpiredNodes now m = Some m1" "lock_inv m1" "ls_gen m1 = ls_gen m" "spec_collect now (abs_locks m) = abs_locks m1"
    "\<And>m'. (\<And>t a. ls_byToken m1 t = Some a \<Longrightarrow> nd_held (ls_nodes m1 a) \<Longrightarrow> ls_byToken m' t = Some a) \<Longrightarrow> keeps_held m m'"
proof -
  obtain m1 where m1: "collectExpiredNodes now m = Some m1" "collected now m m1"
    using collect_ok [OF assms] by blast
  have c: "lock_inv m1" "ls_gen m1 = ls_gen m" using m1(2) by (simp_all add: collected_def)
  show thesis
    by (rule that [OF m1(1) c]) (use collected_abs [OF m1(2)] keeps_trans [OF m1(2)] in auto)
qed

lemma abs_locks_at: "ls_byToken m t = None \<Longrightarrow> abs_locks m t = None" "ls_byToken m t = Some n \<Longrightarrow> abs_locks m t = Some (node_lock (ls_nodes m n))"
  by (simp_all add: abs_locks_def)

lemma lock_Unlock_ok:
  assumes "lock_inv m"
  shows "\<exists>r m'. lock_Unlock now t m = Some (r, m') \<and> lock_inv m' \<and> ls_gen m' = ls_gen m \<and> keeps_held m m' \<and>
    spec_Unlock now t (abs_locks m) = (r, abs_locks m')"
proof -
  obtain m1 where m1: "collectExpiredNodes now m = Some m1" "lock_inv m1" "ls_gen m1 = ls_gen m" "spec_collect now (abs_locks m) = abs_locks m1"
      and keeps: "\<And>m'. (\<And>t a. ls_byToken m1 t = Some a \<Longrightarrow> nd_held (ls_nodes m1 a) \<Longrightarrow> ls_byToken m' t = Some a) \<Longrightarrow> keeps_held m m'"
    using collecting [OF assms] by metis
  show ?thesis
  proof (cases "ls_byToken m1 t")
    case None
    then show ?thesis
      using m1 keeps [of m1] abs_locks_at(1) [OF None] by (simp add: lock_Unlock_def spec_Unlock_def)
  next
    case (Some n)
    show ?thesis
    proof (cases "nd_held (ls_nodes m1 n)")
      case True
      with Some show ?thesis
        using m1 keeps [of m1] abs_locks_at(2) [OF Some] by (simp add: lock_Unlock_def spec_Unlock_def)
    next
      case False
      then obtain m2 where m2: "remove_node n m1 = Some m2" "removed t n m1 m2"
        using remove_node_ok [OF m1(2) Some] by blast
      have "abs_locks m2 = (abs_locks m1)(t := None)"
        using m2(2) by (auto simp: removed_def abs_locks_def fun_eq_iff map_option_case split: option.splits)
      moreover have "keeps_held m m2"
        using m2(2) Some False by (intro keeps) (auto simp: removed_def)
      moreover have "lock_Unlock now t m = Some (None, m2)"
        using m1(1) m2(1) Some False by (simp add: lock_Unlock_def)
      moreover have "spec_Unlock now t (abs_locks m) = (None, (abs_locks m1)(t := None))"
        using abs_locks_at(2) [OF Some] False m1(4) by (simp add: spec_Unlock_def)
      ultimately show ?thesis using m2(2) m1(3) by (auto simp: removed_def)
    qed
  qed
qed

lemma lock_Refresh_ok:
  assumes "lock_inv m"
  shows "\<exists>r m'. lock_Refresh now t duration m = Some (r, m') \<and> lock_inv m' \<and> ls_gen m' = ls_gen m \<and> keeps_held m m' \<and>
    spec_Refresh now t duration (abs_locks m) = (r, abs_locks m')"
proof -
  obtain m1 where m1: "collectExpiredNodes now m = Some m1" "lock_inv m1" "ls_gen m1 = ls_gen m" "spec_collect now (abs_locks m) = abs_locks m1"
      and keeps: "\<And>m'. (\<And>t a. ls_byToken m1 t = Some a \<Longrightarrow> nd_held (ls_nodes m1 a) \<Longrightarrow> ls_byToken m' t = Some a) \<Longrightarrow> keeps_held m m'"
    using collecting [OF assms] by metis
  show ?thesis
  proof (cases "ls_byToken m1 t")
    case None
    then show ?thesis
      using m1 keeps [of m1] abs_locks_at(1) [OF None] by (simp add: lock_Refresh_def spec_Refresh_def)
  next
    case (Some n)
    show ?thesis
    proof (cases "nd_held (ls_nodes m1 n)")
      case True
      with Some show ?thesis
        using m1 keeps [of m1] abs_locks_at(2) [OF Some] by (simp add: lock_Refresh_def spec_Refresh_def)
    next
      case False
      let ?d = "(nd_details (ls_nodes m1 n))\<lparr>ld_Duration := duration\<rparr>"
      obtain m2 where m2: "dequeue n m1 = Some m2" "nd_details (ls_nodes m2 n) = nd_details (ls_nodes m1 n)"
          "updated t (fresh_lock now ?d) m1 (set_expiry now n (set_node n ((ls_nodes m2 n)\<lparr>nd_details := ?d\<rparr>) m2))"
        using refresh_ok [OF m1(2) Some False, of ?d now] by (auto simp: fresh_lock_def deadline_def)
      let ?m = "set_expiry now n (set_node n ((ls_nodes m2 n)\<lparr>nd_details := ?d\<rparr>) m2)"
      have "lock_Refresh now t duration m = Some (Inr ?d, ?m)"
        using m1(1) m2(1,2) Some False by (simp add: lock_Refresh_def dequeue_def [symmetric] Let_def)
      moreover have "spec_Refresh now t duration (abs_locks m) = (Inr ?d, abs_locks ?m)"
        using m2(3) abs_locks_at(2) [OF Some] False m1(4) by (simp add: spec_Refresh_def updated_def Let_def)
      moreover have "keeps_held m ?m"
        using m2(3) by (intro keeps) (simp add: updated_def)
      ultimately show ?thesis using m2(3) m1(3) by (auto simp: updated_def)
    qed
  qed
qed

lemma abs_locks_ex: "(\<exists>t l. abs_locks m t = Some l \<and> P (lk_details l)) \<longleftrightarrow> (\<exists>t a. ls_byToken m t = Some a \<and> P (nd_details (ls_nodes m a)))"
  unfolding abs_locks_def by (fastforce simp: map_option_case split: option.splits)

lemma create_ok:
  assumes "lock_inv m" "clean s"
  shows "\<exists>n m1. create s m = Some (n, m1) \<and> counted (up_names s) m m1 \<and> names_ok m1 \<and> ls_byName m1 s = Some n"
proof -
  note up = up_names_facts [OF assms(2)]
  have ne: "up_names s \<noteq> []" "hd (up_names s) = s" by (subst up(3), simp)+
  obtain m1 r where "walk_list create_step True (up_names s) (m, 0) = Some (True, m1, r)" "counted (up_names s) m m1" "names_ok m1"
      "ls_byName m1 (hd (up_names s)) = Some r"
    using walk_create [OF inv_names_ok [OF assms(1)] up(2), of True 0] ne by auto
  then show ?thesis by (simp add: create_def up(1) ne)
qed

lemma lock_Create_ok:
  assumes "lock_inv m" "unat (ls_gen m) + 1 < 2 ^ 64"
  shows "\<exists>r m'. lock_Create now details m = Some (r, m') \<and> lock_inv m' \<and> keeps_held m m' \<and>
    spec_Create now details (abs_locks m) (unat (ls_gen m)) = (r, abs_locks m', unat (ls_gen m'))"
proof -
  let ?d = "details\<lparr>ld_Root := slashClean (ld_Root details)\<rparr>"
  obtain m1 where m1: "collectExpiredNodes now m = Some m1" "lock_inv m1" "ls_gen m1 = ls_gen m" "spec_collect now (abs_locks m) = abs_locks m1"
      and keeps: "\<And>m'. (\<And>t a. ls_byToken m1 t = Some a \<Longrightarrow> nd_held (ls_nodes m1 a) \<Longrightarrow> ls_byToken m' t = Some a) \<Longrightarrow> keeps_held m m'"
    using collecting [OF assms(1)] by metis
  let ?free = "\<forall>t a. ls_byToken m1 t = Some a \<longrightarrow> \<not> conflict ?d (nd_details (ls_nodes m1 a))"
  have root: "clean (ld_Root ?d)" using clean_slashClean by simp
  note can = canCreate_iff [OF m1(2) root]
  have abs: "(\<exists>t l. abs_locks m1 t = Some l \<and> conflict ?d (lk_details l)) \<longleftrightarrow> \<not> ?free"
    by (simp add: abs_locks_ex)
  show ?thesis
  proof (cases ?free)
    case False
    then have "lock_Create now details m = Some (Inl ErrLocked, m1)"
      using m1(1) can by (simp add: lock_Create_def Let_def)
    moreover have "spec_Create now details (abs_locks m) (unat (ls_gen m)) = (Inl ErrLocked, abs_locks m1, unat (ls_gen m1))"
      using False abs m1(3,4) by (simp add: spec_Create_def Let_def)
    ultimately show ?thesis using m1(2) keeps [of m1] by auto
  next
    case True
    obtain n m2 where m2: "create (ld_Root ?d) m1 = Some (n, m2)" "counted (up_names (ld_Root ?d)) m1 m2" "names_ok m2" "ls_byName m2 (ld_Root ?d) = Some n"
      using create_ok [OF m1(2) root] by blast
    let ?dn = "?d\<lparr>ld_Duration := - 1\<rparr>" and ?t = "fmt_d (unat (ls_gen m1 + 1))"
    have gen: "unat (ls_gen m1 + 1) = unat (ls_gen m) + 1"
      using assms(2) m1(3) by (simp add: unat_word_ariths)
    then have "ls_gen m1 \<noteq> - 1" by auto
    then have e: "enters n ?dn m1 m2"
      using m1(2) m2 root True by (simp add: enters_def conflict_def)
    let ?m = "entered n ?dn m2"
    note f = entered_fields [OF e] and inv = entered_inv [OF e]
    have n: "ls_byToken ?m ?t = Some n" "\<not> nd_held (ls_nodes ?m n)" "dequeue n ?m = Some ?m" "nd_details (ls_nodes ?m n) = ?dn"
      using enters_target [OF e] by (simp_all add: f new_token_def dequeue_def)
    let ?m' = "set_expiry now n (set_node n ((ls_nodes ?m n)\<lparr>nd_details := ?d\<rparr>) ?m)"
    have u: "updated ?t (fresh_lock now ?d) ?m ?m'"
      using refresh_ok [OF inv(1) n(1,2), of ?d now] n(3,4) by (simp add: fresh_lock_def deadline_def)
    have gen2: "ls_gen m2 = ls_gen m1" using m2(2) by (simp add: counted_def same_rest_def)
    have "set_node n ((ls_nodes ?m n)\<lparr>nd_details := ?d\<rparr>) ?m =
        (let m = set_node n ((ls_nodes m2 n)\<lparr>nd_token := ?t\<rparr>) (m2\<lparr>ls_gen := ls_gen m2 + 1\<rparr>); m = m\<lparr>ls_byToken := (ls_byToken m)(?t \<mapsto> n)\<rparr>
         in set_node n ((ls_nodes m n)\<lparr>nd_details := ?d\<rparr>) m)"
      unfolding Let_def by (rule memLS.equality) (simp_all add: entered_def gen2)
    then have "lock_Create now details m = Some (Inr ?t, ?m')"
      using m1(1) can True m2(1) by (simp add: lock_Create_def Let_def nextToken_def gen2)
    moreover have "spec_Create now details (abs_locks m) (unat (ls_gen m)) = (Inr ?t, abs_locks ?m', unat (ls_gen ?m'))"
      using True abs m1(4) u inv(2) gen f(2) by (simp add: spec_Create_def Let_def updated_def new_token_def)
    moreover have "keeps_held m ?m'"
      using u other_lock(2) [OF e] by (intro keeps) (auto simp: updated_def f new_token_def)
    ultimately show ?thesis using u by (auto simp: updated_def)
  qed
qed

section \<open>Confirm and release\<close>

lemma split_slash_ne: "split_slash s \<noteq> []"
  by (induction s) (auto split: list.split)

lemma split_slash_join: "split_slash (s @ CHR ''/'' # z) = split_slash s @ split_slash z"
proof (induction s)
  case (Cons c s)
  then show ?case using split_slash_ne [of s] by (cases "split_slash s") auto
qed simp

text \<open>The comparison of strings in \<^verbatim>\<open>lookup\<close> is the one of components.\<close>

lemma below_root:
  assumes "clean r" "clean name"
  shows "(name = r \<or> r = ''/'' \<or> prefix (r @ ''/'') name) \<longleftrightarrow> prefix (name_parts r) (name_parts name)"
proof -
  obtain cs where cs: "list_all part_ok cs" "r = path_name cs" "name_parts r = cs" using assms(1) by (rule cleanE)
  obtain ds where ds: "list_all part_ok ds" "name = path_name ds" "name_parts name = ds" using assms(2) by (rule cleanE)
  have split: "split_slash (path_name xs) = [] # xs" if "list_all part_ok xs" "xs \<noteq> []" for xs
    using split_parts [of "[]" xs] that by (simp add: path_name_def)
  show ?thesis
  proof (cases "cs = []")
    case True
    then show ?thesis using cs ds by (simp add: path_name_def)
  next
    case False
    have r: "r \<noteq> ''/''" using cs False path_name_root by simp
    have "prefix cs ds" if p: "prefix (r @ ''/'') name"
    proof -
      obtain z where z: "name = r @ CHR ''/'' # z" using p by (auto simp: prefix_def)
      have "ds \<noteq> []"
      proof
        assume "ds = []"
        then have "r = []" using z ds(2) by (cases r) (auto simp: path_name_def)
        with cs False show False by (auto simp: path_name_def neq_Nil_conv)
      qed
      then have "[] # ds = ([] # cs) @ split_slash z"
        using split_slash_join [of r z] split [OF cs(1) False] split [OF ds(1)] z cs(2) ds(2) by simp
      then show ?thesis by simp
    qed
    moreover have "name = r \<or> prefix (r @ ''/'') name" if p: "prefix cs ds"
    proof -
      obtain es where es: "ds = cs @ es" using p by (auto simp: prefix_def)
      then show ?thesis
        using False cs(2) ds(2) by (cases es) (auto simp: path_name_def)
    qed
    ultimately show ?thesis using r cs ds by auto
  qed
qed

lemma matches_iff:
  assumes "lock_inv m" "clean name"
  shows "matches name m c = (if claimable name (abs_locks m) (cond_Token c) then ls_byToken m (cond_Token c) else None)"
proof (cases "ls_byToken m (cond_Token c)")
  case None
  then show ?thesis by (simp add: matches_def claimable_def abs_locks_at)
next
  case (Some a)
  have "clean (ld_Root (nd_details (ls_nodes m a)))" using lock_invD(3,10) [OF assms(1)] Some by blast
  from below_root [OF this assms(2)] Some show ?thesis
    by (auto simp: matches_def claimable_def abs_locks_at(2) [OF Some] covers_def Let_def)
qed

lemma lookup_lock_find:
  assumes "lock_inv m" "clean name"
  shows "lookup_lock name cs m = Option.bind (find (claimable name (abs_locks m)) (map cond_Token cs)) (ls_byToken m)"
proof (induction cs)
  case (Cons c cs)
  have "ls_byToken m (cond_Token c) \<noteq> None" if "claimable name (abs_locks m) (cond_Token c)"
    using that by (auto simp: claimable_def abs_locks_def split: option.splits)
  then show ?case using Cons by (auto simp: matches_iff [OF assms])
qed simp

lemma find_claimable:
  assumes "find (claimable name (abs_locks m)) ts = Some t"
  obtains a where "ls_byToken m t = Some a" "\<not> nd_held (ls_nodes m a)"
  using assms by (auto simp: find_Some_iff claimable_def abs_locks_def split: option.splits)

definition claims_at :: "memLS \<Rightarrow> nat option \<Rightarrow> string option \<Rightarrow> bool" where
  "claims_at m x y = (case y of None \<Rightarrow> x = None | Some t \<Rightarrow> x \<noteq> None \<and> ls_byToken m t = x)"

lemma hold_opt_ok:
  assumes "lock_inv m" "claims_at m x y" "\<And>t l. y = Some t \<Longrightarrow> abs_locks m t = Some l \<Longrightarrow> \<not> lk_held l"
  shows "\<exists>m'. hold_opt x m = Some m' \<and> lock_inv m' \<and> ls_byToken m' = ls_byToken m \<and> ls_gen m' = ls_gen m \<and> abs_locks m' = spec_hold True y (abs_locks m)"
proof (cases y)
  case None
  then show ?thesis using assms by (simp add: hold_opt_def claims_at_def spec_hold_def)
next
  case (Some t)
  then obtain a where a: "x = Some a" "ls_byToken m t = Some a" using assms(2) by (auto simp: claims_at_def)
  have "\<not> nd_held (ls_nodes m a)" using assms(3) [OF Some abs_locks_at(2) [OF a(2)]] by simp
  from hold_ok [OF assms(1) a(2) this] show ?thesis
    by (auto simp: hold_opt_def spec_hold_def Some a(1) updated_def abs_locks_at(2) [OF a(2)])
qed

lemma unhold_opt_ok:
  assumes "lock_inv m" "claims_at m x y" "\<And>t l. y = Some t \<Longrightarrow> abs_locks m t = Some l \<Longrightarrow> lk_held l"
  shows "\<exists>m'. unhold_opt x m = Some m' \<and> lock_inv m' \<and> ls_byToken m' = ls_byToken m \<and> ls_gen m' = ls_gen m \<and> abs_locks m' = spec_hold False y (abs_locks m)"
proof (cases y)
  case None
  then show ?thesis using assms by (simp add: unhold_opt_def claims_at_def spec_hold_def)
next
  case (Some t)
  then obtain a where a: "x = Some a" "ls_byToken m t = Some a" using assms(2) by (auto simp: claims_at_def)
  have "nd_held (ls_nodes m a)" using assms(3) [OF Some abs_locks_at(2) [OF a(2)]] by simp
  from unhold_ok [OF assms(1) a(2) this] show ?thesis
    by (auto simp: unhold_opt_def spec_hold_def Some a(1) updated_def abs_locks_at(2) [OF a(2)])
qed

text \<open>What \<^verbatim>\<open>lookup\<close> gives for a name, and the token of the specification.\<close>

lemma lookup_holds:
  assumes "lock_inv m" "y = (if name = [] then None else find (claimable (slashClean name) (abs_locks m)) (map cond_Token cs))"
  shows "claims_at m (if name = [] then None else lookup_lock (slashClean name) cs m) y" "y = Some t \<Longrightarrow> abs_locks m t = Some l \<Longrightarrow> \<not> lk_held l"
proof -
  have free: "\<exists>a. ls_byToken m t = Some a \<and> \<not> nd_held (ls_nodes m a)" if "y = Some t" for t
    using that assms(2) find_claimable [of "slashClean name" m "map cond_Token cs" t] by (auto split: if_splits)
  then show "y = Some t \<Longrightarrow> abs_locks m t = Some l \<Longrightarrow> \<not> lk_held l"
    using abs_locks_at(2) [of m t] by fastforce
  show "claims_at m (if name = [] then None else lookup_lock (slashClean name) cs m) y"
  proof -
    have l: "(if name = [] then None else lookup_lock (slashClean name) cs m) = Option.bind y (ls_byToken m)"
      using assms(2) lookup_lock_find [OF assms(1) clean_slashClean] by simp
    show ?thesis
      unfolding l using free by (cases y) (auto simp: claims_at_def)
  qed
qed

lemma claims_at_cong: "ls_byToken m' = ls_byToken m \<Longrightarrow> claims_at m' x y = claims_at m x y"
  by (cases y) (simp_all add: claims_at_def)

lemma claims_at_None: "claims_at m x y \<Longrightarrow> x = None \<longleftrightarrow> y = None"
  by (auto simp: claims_at_def split: option.splits)

lemma claims_at_same: "lock_inv m \<Longrightarrow> claims_at m x y \<Longrightarrow> claims_at m x' y' \<Longrightarrow> x = x' \<longleftrightarrow> y = y'"
  using byToken_inject by (fastforce simp: claims_at_def split: option.splits)

lemma Confirm_ok:
  assumes "lock_inv m"
  shows "\<exists>r m'. Confirm now name0 name1 cs m = Some (r, m') \<and> lock_inv m' \<and> ls_gen m' = ls_gen m \<and> keeps_held m m' \<and>
    (\<exists>r'. spec_Confirm now name0 name1 (map cond_Token cs) (abs_locks m) = (r', abs_locks m') \<and>
       rel_sum (=) (\<lambda>(x, x') (y, y'). claims_at m' x y \<and> claims_at m' x' y') r r')"
proof -
  obtain m1 where m1: "collectExpiredNodes now m = Some m1" "lock_inv m1" "ls_gen m1 = ls_gen m" "spec_collect now (abs_locks m) = abs_locks m1"
      and keeps: "\<And>m'. (\<And>t a. ls_byToken m1 t = Some a \<Longrightarrow> nd_held (ls_nodes m1 a) \<Longrightarrow> ls_byToken m' t = Some a) \<Longrightarrow> keeps_held m m'"
    using collecting [OF assms] by metis
  define x y where "x name = (if name = [] then None else lookup_lock (slashClean name) cs m1)"
    and "y name = (if name = [] then None else find (claimable (slashClean name) (abs_locks m1)) (map cond_Token cs))" for name
  have h: "claims_at m1 (x name) (y name)" and free: "\<And>t l. y name = Some t \<Longrightarrow> abs_locks m1 t = Some l \<Longrightarrow> \<not> lk_held l" for name
    unfolding x_def using lookup_holds [OF m1(2) y_def] by blast+
  define x' y' where "x' = (if x name1 = x name0 then None else x name1)" and "y' = (if y name1 = y name0 then None else y name1)"
  have same: "x name1 = x name0 \<longleftrightarrow> y name1 = y name0" using claims_at_same [OF m1(2) h h] .
  have h': "claims_at m1 x' y'" using h [of name1] same by (auto simp: x'_def y'_def claims_at_def)
  let ?fail = "name0 \<noteq> [] \<and> x name0 = None \<or> name1 \<noteq> [] \<and> x name1 = None"
  have fail: "?fail \<longleftrightarrow> name0 \<noteq> [] \<and> y name0 = None \<or> name1 \<noteq> [] \<and> y name1 = None"
    using claims_at_None [OF h] by simp
  show ?thesis
  proof (cases ?fail)
    case True
    then have "Confirm now name0 name1 cs m = Some (Inl ErrConfirmationFailed, m1)"
      using m1(1) by (auto simp: Confirm_def Let_def x_def)
    moreover have "spec_Confirm now name0 name1 (map cond_Token cs) (abs_locks m) = (Inl ErrConfirmationFailed, abs_locks m1)"
      using True fail m1(4) by (simp add: spec_Confirm_def Let_def y_def)
    ultimately show ?thesis using m1(2,3) keeps [of m1] by auto
  next
    case False
    obtain m2 where m2: "hold_opt (x name0) m1 = Some m2" "lock_inv m2" "ls_byToken m2 = ls_byToken m1" "ls_gen m2 = ls_gen m1"
        "abs_locks m2 = spec_hold True (y name0) (abs_locks m1)"
      using hold_opt_ok [OF m1(2) h [of name0]] free [of name0] by blast
    have "claims_at m2 x' y'" using h' claims_at_cong [OF m2(3)] by simp
    moreover have "\<not> lk_held l" if "y' = Some t" "abs_locks m2 t = Some l" for t l
      using that free [of name1 t] m2(5) by (auto simp: y'_def spec_hold_def split: if_splits option.splits)
    ultimately obtain m3 where m3: "hold_opt x' m2 = Some m3" "lock_inv m3" "ls_byToken m3 = ls_byToken m2" "ls_gen m3 = ls_gen m2"
        "abs_locks m3 = spec_hold True y' (abs_locks m2)"
      using hold_opt_ok [OF m2(2)] by blast
    have "Confirm now name0 name1 cs m = Some (Inr (x name0, x'), m3)"
      using False m2(1) m3(1) unfolding Confirm_def m1(1) Option.bind.simps Let_def x_def [symmetric] x'_def [symmetric] by auto
    moreover have "spec_Confirm now name0 name1 (map cond_Token cs) (abs_locks m) = (Inr (y name0, y'), abs_locks m3)"
      using False fail m1(4) m2(5) m3(5) unfolding spec_Confirm_def Let_def m1(4) y_def [symmetric] by (simp add: y'_def [symmetric])
    moreover have "claims_at m3 (x name0) (y name0)" "claims_at m3 x' y'"
      using h h' claims_at_cong [of m3 m1] m2(3) m3(3) by simp_all
    ultimately show ?thesis using m1(3) m2(3,4) m3(2-4) keeps [of m3] by auto
  qed
qed

lemma Release_ok:
  assumes "lock_inv m" "claims_at m (fst r) (fst c)" "claims_at m (snd r) (snd c)" "fst c \<noteq> None \<Longrightarrow> snd c \<noteq> fst c"
    and "\<And>t. fst c = Some t \<or> snd c = Some t \<Longrightarrow> \<exists>l. abs_locks m t = Some l \<and> lk_held l"
  shows "\<exists>m'. Release r m = Some m' \<and> lock_inv m' \<and> ls_byToken m' = ls_byToken m \<and> ls_gen m' = ls_gen m \<and> abs_locks m' = spec_Release c (abs_locks m)"
proof -
  have "lk_held l" if "snd c = Some t" "abs_locks m t = Some l" for t l
    using assms(5) [of t] that by auto
  then obtain m1 where m1: "unhold_opt (snd r) m = Some m1" "lock_inv m1" "ls_byToken m1 = ls_byToken m" "ls_gen m1 = ls_gen m"
      "abs_locks m1 = spec_hold False (snd c) (abs_locks m)"
    using unhold_opt_ok [OF assms(1,3)] by blast
  have "claims_at m1 (fst r) (fst c)" using assms(2) claims_at_cong [OF m1(3)] by simp
  moreover have "lk_held l" if "fst c = Some t" "abs_locks m1 t = Some l" for t l
    using assms(4) assms(5) [of t] that m1(5) by (auto simp: spec_hold_def split: option.splits if_splits)
  ultimately obtain m2 where "unhold_opt (fst r) m1 = Some m2" "lock_inv m2" "ls_byToken m2 = ls_byToken m1" "ls_gen m2 = ls_gen m1"
      "abs_locks m2 = spec_hold False (fst c) (abs_locks m1)"
    using unhold_opt_ok [OF m1(2)] by blast
  with m1 show ?thesis by (simp add: Release_def spec_Release_def)
qed

end
