(* ===== verification/WebDAV_Lock_System.thy ===== *)
theory WebDAV_Lock_System
  imports WebDAV_Lock_Spec
begin

text \<open>
  Runs of the lock system: any sequence of method calls, with every release function called at most once, answers as
  the specification does.
\<close>

section \<open>Simulation\<close>

fun run_calls :: "('c \<Rightarrow> 's \<Rightarrow> ('r \<times> 's) option) \<Rightarrow> 'c list \<Rightarrow> 's \<Rightarrow> ('r list \<times> 's) option" where
  "run_calls f [] s = Some ([], s)"
| "run_calls f (c # cs) s =
     (case f c s of
        None \<Rightarrow> None
      | Some (r, s) \<Rightarrow> (case run_calls f cs s of None \<Rightarrow> None | Some (rs, s) \<Rightarrow> Some (r # rs, s)))"

locale simulation =
  fixes exec :: "'c \<Rightarrow> 's \<Rightarrow> ('r \<times> 's) option" and spec :: "'c \<Rightarrow> 'a \<Rightarrow> ('r \<times> 'a) option" and rel :: "'s \<Rightarrow> 'a \<Rightarrow> bool"
  assumes answers: "rel s A \<Longrightarrow> spec c A = Some (r, A') \<Longrightarrow> \<exists>s'. exec c s = Some (r, s') \<and> rel s' A'"
begin

lemma runs: "rel s A \<Longrightarrow> run_calls spec cs A = Some (rs, A') \<Longrightarrow> \<exists>s'. run_calls exec cs s = Some (rs, s') \<and> rel s' A'"
proof (induction cs arbitrary: s A rs)
  case (Cons c cs)
  then obtain r A1 rs1 where r: "spec c A = Some (r, A1)" "run_calls spec cs A1 = Some (rs1, A')" "rs = r # rs1"
    by (auto split: option.splits)
  obtain s1 where s1: "exec c s = Some (r, s1)" "rel s1 A1"
    using answers [OF Cons.prems(1) r(1)] by blast
  obtain s' where "run_calls exec cs s1 = Some (rs1, s')" "rel s' A'"
    using Cons.IH [OF s1(2) r(2)] by blast
  with s1(1) r(3) show ?case by simp
qed auto

end

section \<open>Calls\<close>

datatype lock_call =
  Call_Create int LockDetails
| Call_Refresh int string int
| Call_Unlock int string
| Call_Confirm int string string "Condition list"
| Call_release nat

datatype lock_reply =
  Reply_Create "lock_error + string"
| Reply_Refresh "lock_error + LockDetails"
| Reply_Unlock "lock_error option"
| Reply_Confirm "lock_error option"
| Reply_release

text \<open>The state of a run has the release functions that have not been called yet.\<close>

definition remove_at :: "nat \<Rightarrow> 'a list \<Rightarrow> 'a list" where
  "remove_at i xs = take i xs @ drop (Suc i) xs"

fun lock_exec :: "lock_call \<Rightarrow> memLS \<times> release list \<Rightarrow> (lock_reply \<times> memLS \<times> release list) option" where
  "lock_exec (Call_Create now d) (m, rs) = map_option (\<lambda>(r, m). (Reply_Create r, m, rs)) (lock_Create now d m)"
| "lock_exec (Call_Refresh now t d) (m, rs) = map_option (\<lambda>(r, m). (Reply_Refresh r, m, rs)) (lock_Refresh now t d m)"
| "lock_exec (Call_Unlock now t) (m, rs) = map_option (\<lambda>(r, m). (Reply_Unlock r, m, rs)) (lock_Unlock now t m)"
| "lock_exec (Call_Confirm now n0 n1 cs) (m, rs) =
     map_option (\<lambda>(r, m). case r of Inl e \<Rightarrow> (Reply_Confirm (Some e), m, rs) | Inr x \<Rightarrow> (Reply_Confirm None, m, rs @ [x])) (Confirm now n0 n1 cs m)"
| "lock_exec (Call_release i) (m, rs) =
     (if i < length rs then map_option (\<lambda>m. (Reply_release, m, remove_at i rs)) (Release (rs ! i) m) else None)"

record lock_state =
  sp_locks :: locks
  sp_gen :: nat
  sp_claims :: "claim list"

text \<open>The specification says nothing once the counter of tokens would wrap around.\<close>

fun spec_exec :: "lock_call \<Rightarrow> lock_state \<Rightarrow> (lock_reply \<times> lock_state) option" where
  "spec_exec (Call_Create now d) S =
     (if sp_gen S + 1 < 2 ^ 64 then
        (case spec_Create now d (sp_locks S) (sp_gen S) of (r, A, g) \<Rightarrow> Some (Reply_Create r, S\<lparr>sp_locks := A, sp_gen := g\<rparr>))
      else None)"
| "spec_exec (Call_Refresh now t d) S = (case spec_Refresh now t d (sp_locks S) of (r, A) \<Rightarrow> Some (Reply_Refresh r, S\<lparr>sp_locks := A\<rparr>))"
| "spec_exec (Call_Unlock now t) S = (case spec_Unlock now t (sp_locks S) of (r, A) \<Rightarrow> Some (Reply_Unlock r, S\<lparr>sp_locks := A\<rparr>))"
| "spec_exec (Call_Confirm now n0 n1 cs) S =
     (case spec_Confirm now n0 n1 (map cond_Token cs) (sp_locks S) of
        (Inl e, A) \<Rightarrow> Some (Reply_Confirm (Some e), S\<lparr>sp_locks := A\<rparr>)
      | (Inr c, A) \<Rightarrow> Some (Reply_Confirm None, S\<lparr>sp_locks := A, sp_claims := sp_claims S @ [c]\<rparr>))"
| "spec_exec (Call_release i) S =
     (if i < length (sp_claims S) then
        Some (Reply_release, S\<lparr>sp_locks := spec_Release (sp_claims S ! i) (sp_locks S), sp_claims := remove_at i (sp_claims S)\<rparr>)
      else None)"

section \<open>Claims\<close>

text \<open>The tokens that are held by a claim, each by one.\<close>

definition opt_list :: "'a option \<Rightarrow> 'a list" where
  "opt_list x = (case x of None \<Rightarrow> [] | Some y \<Rightarrow> [y])"

definition claimed :: "claim list \<Rightarrow> string list" where
  "claimed cs = concat (map (\<lambda>c. opt_list (fst c) @ opt_list (snd c)) cs)"

definition claims_held :: "claim list \<Rightarrow> locks \<Rightarrow> bool" where
  "claims_held cs A \<longleftrightarrow> distinct (claimed cs) \<and> (\<forall>t \<in> set (claimed cs). \<exists>l. A t = Some l \<and> lk_held l)"

lemma claimed_simps: "claimed [] = []" "claimed (c # cs) = opt_list (fst c) @ opt_list (snd c) @ claimed cs" "claimed (cs @ ds) = claimed cs @ claimed ds"
  by (simp_all add: claimed_def)

lemma set_opt_list [simp]: "set (opt_list x) = set_option x" "distinct (opt_list x)"
  by (cases x; simp add: opt_list_def)+

lemma claims_held_mono:
  "claims_held cs A \<Longrightarrow> (\<And>t l. A t = Some l \<Longrightarrow> lk_held l \<Longrightarrow> A' t = Some l) \<Longrightarrow> claims_held cs A'"
  unfolding claims_held_def by blast

lemma spec_collect_held: "A t = Some l \<Longrightarrow> lk_held l \<Longrightarrow> spec_collect now A t = Some l"
  by (simp add: spec_collect_def expired_def)

lemma spec_held:
  assumes "A t = Some l" "lk_held l"
  shows "spec_Refresh now x d A = (r, A') \<Longrightarrow> A' t = Some l" "spec_Unlock now x A = (r', A') \<Longrightarrow> A' t = Some l"
    "A (fmt_d (g + 1)) = None \<Longrightarrow> spec_Create now dt A g = (r'', A', g') \<Longrightarrow> A' t = Some l"
  using spec_collect_held [of A t l now] assms
  by (auto simp: spec_Refresh_def spec_Unlock_def spec_Create_def Let_def split: option.splits if_splits)

lemma claimable_free: "find (claimable name A) ts = Some t \<Longrightarrow> \<exists>l. A t = Some l \<and> \<not> lk_held l"
  by (auto simp: find_Some_iff claimable_def split: option.splits)

lemma spec_hold_at: "spec_hold b x A t = (if x = Some t then map_option (\<lambda>l. l\<lparr>lk_held := b\<rparr>) (A t) else A t)"
  by (auto simp: spec_hold_def split: option.split)

lemma confirm_claims:
  assumes "claims_held cs A" "spec_Confirm now name0 name1 ts A = (Inr c, A')"
  shows "claims_held (cs @ [c]) A'"
proof -
  let ?A = "spec_collect now A"
  obtain t0 t1 where c: "c = (t0, t1)" by (cases c)
  have A': "A' = spec_hold True t1 (spec_hold True t0 ?A)" and ne: "t0 \<noteq> None \<Longrightarrow> t1 \<noteq> t0"
      and free: "\<And>t. t0 = Some t \<or> t1 = Some t \<Longrightarrow> \<exists>l. ?A t = Some l \<and> \<not> lk_held l"
    using assms(2) claimable_free by (auto simp: spec_Confirm_def Let_def c split: if_splits)
  have held: "\<exists>l. ?A t = Some l \<and> lk_held l" if "t \<in> set (claimed cs)" for t
    using assms(1) that spec_collect_held by (fastforce simp: claims_held_def)
  then have new: "t \<notin> set (claimed cs)" if "t0 = Some t \<or> t1 = Some t" for t
    using free [OF that] by fastforce
  have "distinct (claimed (cs @ [c]))"
    using assms(1) new ne by (auto simp: claimed_simps claims_held_def c)
  moreover have "\<exists>l. A' t = Some l \<and> lk_held l" if "t \<in> set (claimed (cs @ [c]))" for t
    using that held free [of t] by (auto simp: claimed_simps c A' spec_hold_at)
  ultimately show ?thesis by (simp add: claims_held_def)
qed

lemma release_claims:
  assumes "claims_held cs A" "i < length cs"
  shows "claims_held (remove_at i cs) (spec_Release (cs ! i) A)"
proof -
  let ?b = "take i cs" and ?d = "drop (Suc i) cs"
  have cs: "cs = ?b @ cs ! i # ?d" by (rule id_take_nth_drop [OF assms(2)])
  have "distinct (claimed (?b @ cs ! i # ?d))" "\<forall>t \<in> set (claimed (?b @ cs ! i # ?d)). \<exists>l. A t = Some l \<and> lk_held l"
    using assms(1) cs by (auto simp: claims_held_def)
  then show ?thesis
    unfolding claims_held_def remove_at_def claimed_simps by (auto simp: spec_Release_def spec_hold_at)
qed

lemma claims_node:
  assumes "claims_held cs A" "i < length cs" "fst (cs ! i) = Some t \<or> snd (cs ! i) = Some t"
  shows "\<exists>l. A t = Some l \<and> lk_held l"
proof -
  have "t \<in> set (claimed cs)"
    using assms(2,3) nth_mem [OF assms(2)] by (auto simp: claimed_def intro!: bexI [of _ "cs ! i"])
  with assms(1) show ?thesis by (simp add: claims_held_def)
qed

lemma claims_differ:
  assumes "claims_held cs A" "i < length cs" "fst (cs ! i) \<noteq> None"
  shows "snd (cs ! i) \<noteq> fst (cs ! i)"
proof -
  have "distinct (claimed (take i cs @ cs ! i # drop (Suc i) cs))"
    using assms(1,2) by (simp add: claims_held_def id_take_nth_drop [symmetric])
  with assms(3) show ?thesis by (auto simp: claimed_simps)
qed

definition releases_ok :: "memLS \<Rightarrow> release list \<Rightarrow> claim list \<Rightarrow> bool" where
  "releases_ok m rs cs = list_all2 (\<lambda>r c. claims_at m (fst r) (fst c) \<and> claims_at m (snd r) (snd c)) rs cs"

lemma keeps_releases:
  assumes "keeps_held m m'" "claims_held cs (abs_locks m)" "releases_ok m rs cs"
  shows "releases_ok m' rs cs"
  unfolding releases_ok_def list_all2_conv_all_nth
proof (intro conjI allI impI)
  show len: "length rs = length cs" using assms(3) by (simp add: releases_ok_def list_all2_lengthD)
  fix i assume i: "i < length rs"
  have h: "claims_at m (fst (rs ! i)) (fst (cs ! i))" "claims_at m (snd (rs ! i)) (snd (cs ! i))"
    using assms(3) i by (simp_all add: releases_ok_def list_all2_conv_all_nth)
  have keep: "ls_byToken m' t = ls_byToken m t" if t: "fst (cs ! i) = Some t \<or> snd (cs ! i) = Some t" for t
  proof -
    obtain l where "abs_locks m t = Some l" "lk_held l" using claims_node [OF assms(2) _ t] i len by auto
    then obtain a where "ls_byToken m t = Some a" "nd_held (ls_nodes m a)" by (auto simp: abs_locks_def)
    with assms(1) show ?thesis by (auto simp: keeps_held_def)
  qed
  show "claims_at m' (fst (rs ! i)) (fst (cs ! i))"
    using h(1) keep by (cases "fst (cs ! i)") (auto simp: claims_at_def)
  show "claims_at m' (snd (rs ! i)) (snd (cs ! i))"
    using h(2) keep by (cases "snd (cs ! i)") (auto simp: claims_at_def)
qed

definition lock_rel :: "memLS \<times> release list \<Rightarrow> lock_state \<Rightarrow> bool" where
  "lock_rel s S \<longleftrightarrow>
     (case s of (m, rs) \<Rightarrow>
        lock_inv m \<and> sp_locks S = abs_locks m \<and> sp_gen S = unat (ls_gen m) \<and> claims_held (sp_claims S) (sp_locks S) \<and>
        releases_ok m rs (sp_claims S))"

section \<open>Refinement\<close>

lemma lock_relI:
  assumes "lock_rel (m, rs) S" "lock_inv m'" "keeps_held m m'" "abs_locks m' = A'" "\<And>t l. sp_locks S t = Some l \<Longrightarrow> lk_held l \<Longrightarrow> A' t = Some l"
  shows "lock_rel (m', rs) (S\<lparr>sp_locks := A', sp_gen := unat (ls_gen m')\<rparr>)"
  using assms keeps_releases [OF assms(3), of "sp_claims S" rs] claims_held_mono [of "sp_claims S" "sp_locks S" A'] by (auto simp: lock_rel_def)

lemma same_gen: "lock_rel (m, rs) S \<Longrightarrow> ls_gen m' = ls_gen m \<Longrightarrow> S\<lparr>sp_locks := A, sp_gen := unat (ls_gen m')\<rparr> = S\<lparr>sp_locks := A\<rparr>"
  by (cases S) (simp add: lock_rel_def)

lemma lock_relD:
  assumes "lock_rel (m, rs) S"
  shows "lock_inv m" "sp_locks S = abs_locks m" "sp_gen S = unat (ls_gen m)" "claims_held (sp_claims S) (abs_locks m)" "releases_ok m rs (sp_claims S)"
  using assms by (auto simp: lock_rel_def)

lemma Create_answers:
  assumes "lock_rel (m, rs) S" "spec_exec (Call_Create now d) S = Some (r, S')"
  shows "\<exists>s'. lock_exec (Call_Create now d) (m, rs) = Some (r, s') \<and> lock_rel s' S'"
proof -
  note R = lock_relD [OF assms(1)]
  have lt: "unat (ls_gen m) + 1 < 2 ^ 64" using assms(2) R(3) by (simp split: if_splits)
  obtain r' m' where m': "lock_Create now d m = Some (r', m')" "lock_inv m'" "keeps_held m m'"
      "spec_Create now d (abs_locks m) (unat (ls_gen m)) = (r', abs_locks m', unat (ls_gen m'))"
    using lock_Create_ok [OF R(1) lt] by blast
  have "unat (ls_gen m + 1) = unat (ls_gen m) + 1" using lt by (simp add: unat_word_ariths)
  moreover from this have "ls_gen m \<noteq> - 1" by auto
  ultimately have "abs_locks m (fmt_d (unat (ls_gen m) + 1)) = None"
    using next_token_fresh(1) [OF R(1)] by (simp add: abs_locks_def)
  then have "lock_rel (m', rs) (S\<lparr>sp_locks := abs_locks m', sp_gen := unat (ls_gen m')\<rparr>)"
    by (intro lock_relI [OF assms(1) m'(2,3) refl] spec_held(3) [OF _ _ _ m'(4)]) (simp_all add: R(2))
  then show ?thesis using assms(2) m'(1,4) lt R(2,3) by (auto split: if_splits)
qed

lemma Refresh_answers:
  assumes "lock_rel (m, rs) S" "spec_exec (Call_Refresh now t d) S = Some (r, S')"
  shows "\<exists>s'. lock_exec (Call_Refresh now t d) (m, rs) = Some (r, s') \<and> lock_rel s' S'"
proof -
  note R = lock_relD [OF assms(1)]
  obtain r' m' where m': "lock_Refresh now t d m = Some (r', m')" "lock_inv m'" "ls_gen m' = ls_gen m" "keeps_held m m'"
      "spec_Refresh now t d (abs_locks m) = (r', abs_locks m')"
    using lock_Refresh_ok [OF R(1)] by blast
  have "lock_rel (m', rs) (S\<lparr>sp_locks := abs_locks m'\<rparr>)"
    using lock_relI [OF assms(1) m'(2,4) refl] spec_held(1) [OF _ _ m'(5)] R(2) same_gen [OF assms(1) m'(3)] by metis
  then show ?thesis using assms(2) m'(1,5) R(2) by auto
qed

lemma Unlock_answers:
  assumes "lock_rel (m, rs) S" "spec_exec (Call_Unlock now t) S = Some (r, S')"
  shows "\<exists>s'. lock_exec (Call_Unlock now t) (m, rs) = Some (r, s') \<and> lock_rel s' S'"
proof -
  note R = lock_relD [OF assms(1)]
  obtain r' m' where m': "lock_Unlock now t m = Some (r', m')" "lock_inv m'" "ls_gen m' = ls_gen m" "keeps_held m m'"
      "spec_Unlock now t (abs_locks m) = (r', abs_locks m')"
    using lock_Unlock_ok [OF R(1)] by blast
  have "lock_rel (m', rs) (S\<lparr>sp_locks := abs_locks m'\<rparr>)"
    using lock_relI [OF assms(1) m'(2,4) refl] spec_held(2) [OF _ _ m'(5)] R(2) same_gen [OF assms(1) m'(3)] by metis
  then show ?thesis using assms(2) m'(1,5) R(2) by auto
qed

lemma Confirm_answers:
  assumes "lock_rel (m, rs) S" "spec_exec (Call_Confirm now n0 n1 cs) S = Some (r, S')"
  shows "\<exists>s'. lock_exec (Call_Confirm now n0 n1 cs) (m, rs) = Some (r, s') \<and> lock_rel s' S'"
proof -
  note R = lock_relD [OF assms(1)]
  obtain r' m' x where m': "Confirm now n0 n1 cs m = Some (r', m')" "lock_inv m'" "ls_gen m' = ls_gen m" "keeps_held m m'"
      "spec_Confirm now n0 n1 (map cond_Token cs) (abs_locks m) = (x, abs_locks m')"
      "rel_sum (=) (\<lambda>(x, x') (y, y'). claims_at m' x y \<and> claims_at m' x' y') r' x"
    using Confirm_ok [OF R(1)] by blast
  note k = keeps_releases [OF m'(4) R(4,5)]
  show ?thesis
  proof (cases x)
    case (Inl e)
    then have "abs_locks m' = spec_collect now (abs_locks m)"
      using m'(5) by (auto simp: spec_Confirm_def Let_def split: if_splits)
    then have "claims_held (sp_claims S) (abs_locks m')"
      using claims_held_mono [OF R(4)] spec_collect_held by metis
    then show ?thesis
      using assms(2) m' Inl R(2,3) k by (auto simp: lock_rel_def rel_sum.simps)
  next
    case (Inr cl)
    have "claims_held (sp_claims S @ [cl]) (abs_locks m')"
      using confirm_claims [OF R(4)] m'(5) Inr by blast
    then show ?thesis
      using assms(2) m' Inr R(2,3) k by (auto simp: lock_rel_def rel_sum.simps releases_ok_def list_all2_appendI)
  qed
qed

lemma release_answers:
  assumes "lock_rel (m, rs) S" "spec_exec (Call_release i) S = Some (r, S')"
  shows "\<exists>s'. lock_exec (Call_release i) (m, rs) = Some (r, s') \<and> lock_rel s' S'"
proof -
  note R = lock_relD [OF assms(1)]
  have i: "i < length (sp_claims S)" using assms(2) by (simp split: if_splits)
  have len: "length rs = length (sp_claims S)" using R(5) by (simp add: releases_ok_def list_all2_lengthD)
  have h: "claims_at m (fst (rs ! i)) (fst (sp_claims S ! i))" "claims_at m (snd (rs ! i)) (snd (sp_claims S ! i))"
    using R(5) i len by (simp_all add: releases_ok_def list_all2_conv_all_nth)
  obtain m' where m': "Release (rs ! i) m = Some m'" "lock_inv m'" "ls_byToken m' = ls_byToken m" "ls_gen m' = ls_gen m"
      "abs_locks m' = spec_Release (sp_claims S ! i) (abs_locks m)"
    using Release_ok [OF R(1) h claims_differ [OF R(4) i] claims_node [OF R(4) i]] by blast
  have "releases_ok m' (remove_at i rs) (remove_at i (sp_claims S))"
    using R(5) claims_at_cong [OF m'(3)] unfolding releases_ok_def remove_at_def
    by (simp add: list_all2_appendI list_all2_takeI list_all2_dropI)
  then show ?thesis
    using assms(2) m' R(2,3) i len release_claims [OF R(4) i] by (auto simp: lock_rel_def)
qed

lemmas answers_by_call = Create_answers Refresh_answers Unlock_answers Confirm_answers release_answers

lemma lock_answers: "lock_rel s S \<Longrightarrow> spec_exec c S = Some (r, S') \<Longrightarrow> \<exists>s'. lock_exec c s = Some (r, s') \<and> lock_rel s' S'"
  by (cases s; cases c; hypsubst; rule answers_by_call; assumption)

interpretation lock_system: simulation lock_exec spec_exec lock_rel
  by unfold_locales (rule lock_answers)

definition spec_init :: "nat \<Rightarrow> lock_state" where
  "spec_init g = \<lparr>sp_locks = Map.empty, sp_gen = g, sp_claims = []\<rparr>"

lemma lock_rel_init: "lock_rel (NewMemLS g, []) (spec_init (unat g))"
proof -
  have "lock_inv (NewMemLS g)"
    by (simp add: lock_inv_def names_inv_def tokens_inv_def refs_inv_def heap_inv_def NewMemLS_def refs_def heap_indexed_def heap_ordered_def exclusive_def abs_locks_def)
  then show ?thesis
    by (simp add: lock_rel_def spec_init_def NewMemLS_def abs_locks_def claims_held_def claimed_def releases_ok_def fun_eq_iff)
qed

text \<open>A call that returns is one the specification speaks of, while the counter has room.\<close>

lemma spec_exec_defined:
  assumes "lock_rel s S" "lock_exec c s = Some (r, s')" "sp_gen S + 1 < 2 ^ 64"
  obtains S' where "spec_exec c S = Some (r, S')" "lock_rel s' S'" "sp_gen S' \<le> sp_gen S + 1"
proof -
  have "length (snd s) = length (sp_claims S)"
    using assms(1) by (auto simp: lock_rel_def releases_ok_def list_all2_lengthD)
  then have "spec_exec c S \<noteq> None"
    using assms(2,3) by (cases s; cases c) (auto split: prod.splits sum.splits if_splits)
  then obtain r' S' where S': "spec_exec c S = Some (r', S')" by auto
  have "sp_gen S' \<le> sp_gen S + 1"
    using S' by (cases c) (auto simp: spec_Create_def Let_def split: prod.splits sum.splits if_splits)
  with lock_answers [OF assms(1) S'] assms(2) S' that show thesis by auto
qed

lemma run_inv:
  assumes "lock_rel s S" "run_calls lock_exec cs s = Some (rs, s')" "sp_gen S + length cs < 2 ^ 64"
  shows "\<exists>S'. run_calls spec_exec cs S = Some (rs, S') \<and> lock_rel s' S'"
  using assms
proof (induction cs arbitrary: s S rs)
  case (Cons c cs)
  then obtain r s1 rs1 where r: "lock_exec c s = Some (r, s1)" "run_calls lock_exec cs s1 = Some (rs1, s')" "rs = r # rs1"
    by (auto split: option.splits)
  obtain S1 where S1: "spec_exec c S = Some (r, S1)" "lock_rel s1 S1" "sp_gen S1 \<le> sp_gen S + 1"
    using spec_exec_defined [OF Cons.prems(1) r(1)] Cons.prems(3) by auto
  then show ?case using Cons.IH [OF S1(2) r(2)] Cons.prems(3) r(3) by auto
qed auto

lemma reached_inv: "run_calls lock_exec cs (NewMemLS g, []) = Some (rs, m, hs) \<Longrightarrow> unat g + length cs < 2 ^ 64 \<Longrightarrow> lock_inv m"
  using run_inv [OF lock_rel_init] by (fastforce simp: lock_rel_def spec_init_def)

end
