(* ===== verification/WebDAV_Lock_Properties.thy ===== *)
theory WebDAV_Lock_Properties
  imports WebDAV_Lock_System
begin

text \<open>
  The properties of the lock system: it refines its specification, no two locks and no two claims are in conflict, and
  its tables and heap describe exactly the locks that exist.
\<close>

section \<open>Claims and nodes\<close>

definition claimed_nodes :: "release list \<Rightarrow> nat list" where
  "claimed_nodes rs = concat (map (\<lambda>r. opt_list (fst r) @ opt_list (snd r)) rs)"

lemma claims_at_list: "claims_at m x y \<Longrightarrow> opt_list x = map (\<lambda>t. the (ls_byToken m t)) (opt_list y)"
  by (cases y) (auto simp: claims_at_def opt_list_def)

lemma claimed_nodes_map: "releases_ok m rs cs \<Longrightarrow> claimed_nodes rs = map (\<lambda>t. the (ls_byToken m t)) (claimed cs)"
  unfolding releases_ok_def
proof (induction rule: list_all2_induct)
  case (Cons r rs c cs)
  then show ?case using claims_at_list by (fastforce simp: claimed_nodes_def claimed_simps)
qed (simp add: claimed_nodes_def claimed_simps)

lemma claimed_nodes_facts:
  assumes "lock_rel (m, rs) S"
  shows "distinct (claimed_nodes rs)" "a \<in> set (claimed_nodes rs) \<Longrightarrow> \<exists>t. ls_byToken m t = Some a \<and> nd_held (ls_nodes m a)"
proof -
  let ?cs = "sp_claims S"
  have m: "lock_inv m" "releases_ok m rs ?cs" "distinct (claimed ?cs)" "\<And>t. t \<in> set (claimed ?cs) \<Longrightarrow> \<exists>l. abs_locks m t = Some l \<and> lk_held l"
    using assms by (auto simp: lock_rel_def claims_held_def)
  have node: "\<exists>a. ls_byToken m t = Some a \<and> nd_held (ls_nodes m a)" if "t \<in> set (claimed ?cs)" for t
    using m(4) [OF that] by (auto simp: abs_locks_def)
  then show "a \<in> set (claimed_nodes rs) \<Longrightarrow> \<exists>t. ls_byToken m t = Some a \<and> nd_held (ls_nodes m a)"
    unfolding claimed_nodes_map [OF m(2)] by fastforce
  have "inj_on (\<lambda>t. the (ls_byToken m t)) (set (claimed ?cs))"
  proof (rule inj_onI)
    fix t t' assume t: "t \<in> set (claimed ?cs)" "t' \<in> set (claimed ?cs)" "the (ls_byToken m t) = the (ls_byToken m t')"
    obtain a b where "ls_byToken m t = Some a" "ls_byToken m t' = Some b" using node [OF t(1)] node [OF t(2)] by blast
    with t(3) byToken_inject [OF m(1)] show "t = t'" by simp
  qed
  then show "distinct (claimed_nodes rs)"
    unfolding claimed_nodes_map [OF m(2)] by (simp add: distinct_map m(3))
qed

lemma reached_rel:
  assumes "run_calls lock_exec cs (NewMemLS g, []) = Some (rs, m, hs)" "unat g + length cs < 2 ^ 64"
  shows "\<exists>S. lock_rel (m, hs) S"
  using run_inv [OF lock_rel_init assms(1)] assms(2) by (auto simp: spec_init_def)

section \<open>A sample run\<close>

text \<open>
  Two locks, a refused one, a confirmation and a refused unlock.
\<close>

definition sample_details :: "string \<Rightarrow> int \<Rightarrow> bool \<Rightarrow> LockDetails" where
  "sample_details s d z = \<lparr>ld_Root = s, ld_Duration = d, ld_OwnerXML = [], ld_ZeroDepth = z\<rparr>"

definition sample_lock_calls :: "lock_call list" where
  "sample_lock_calls =
     [Call_Create 0 (sample_details ''a'' 10 False), Call_Create 1 (sample_details ''/a/b'' 5 True), Call_Create 2 (sample_details ''/c/../c'' (- 1) True),
      Call_Confirm 3 ''/a/b'' [] [\<lparr>cond_Not = False, cond_Token = ''8'', cond_ETag = []\<rparr>], Call_Unlock 12 ''8'']"

definition sample_replies :: "lock_reply list" where
  "sample_replies = [Reply_Create (Inr ''8''), Reply_Create (Inl ErrLocked), Reply_Create (Inr ''9''), Reply_Confirm None, Reply_Unlock (Some ErrLocked)]"

definition sample_lock8 :: lock where
  "sample_lock8 = \<lparr>lk_details = sample_details ''/a'' 10 False, lk_expiry = Some 10, lk_held = False\<rparr>"

definition sample_lock9 :: lock where
  "sample_lock9 = \<lparr>lk_details = sample_details ''/c'' (- 1) True, lk_expiry = None, lk_held = False\<rparr>"

lemma sample_names:
  "slashClean ''a'' = ''/a''" "slashClean ''/a/b'' = ''/a/b''" "slashClean ''/c/../c'' = ''/c''" "name_parts ''/a'' = [''a'']" "name_parts ''/a/b'' = [''a'', ''b'']" "name_parts ''/c'' = [''c'']"
  "fmt_d 8 = ''8''" "fmt_d 9 = ''9''"
  by code_simp+

lemma spec_collect_update:
  "spec_collect now Map.empty = Map.empty" "\<not> expired now l \<Longrightarrow> spec_collect now (A(t \<mapsto> l)) = (spec_collect now A)(t \<mapsto> l)"
  by (auto simp: spec_collect_def fun_eq_iff)

lemma sample_run:
  "run_calls spec_exec sample_lock_calls (spec_init 7) =
     Some (sample_replies, \<lparr>sp_locks = [''8'' \<mapsto> sample_lock8\<lparr>lk_held := True\<rparr>, ''9'' \<mapsto> sample_lock9], sp_gen = 9, sp_claims = [(Some ''8'', None)]\<rparr>)"
proof -
  note defs = sample_details_def sample_names sample_lock8_def sample_lock9_def spec_collect_update fresh_lock_def deadline_def conflict_def expired_def Let_def
  have 1: "spec_Create 0 (sample_details ''a'' 10 False) Map.empty 7 = (Inr ''8'', [''8'' \<mapsto> sample_lock8], 8)"
    by (simp add: spec_Create_def defs)
  have 2: "spec_Create 1 (sample_details ''/a/b'' 5 True) [''8'' \<mapsto> sample_lock8] 8 = (Inl ErrLocked, [''8'' \<mapsto> sample_lock8], 8)"
    by (simp add: spec_Create_def defs)
  have 3: "spec_Create 2 (sample_details ''/c/../c'' (- 1) True) [''8'' \<mapsto> sample_lock8] 8 = (Inr ''9'', [''8'' \<mapsto> sample_lock8, ''9'' \<mapsto> sample_lock9], 9)"
    by (simp add: spec_Create_def defs)
  have 4: "spec_Confirm 3 ''/a/b'' [] [''8''] [''8'' \<mapsto> sample_lock8, ''9'' \<mapsto> sample_lock9] =
      (Inr (Some ''8'', None), [''8'' \<mapsto> sample_lock8\<lparr>lk_held := True\<rparr>, ''9'' \<mapsto> sample_lock9])"
    by (simp add: spec_Confirm_def claimable_def covers_def spec_hold_def defs fun_upd_twist)
  have 5: "spec_Unlock 12 ''8'' [''8'' \<mapsto> sample_lock8\<lparr>lk_held := True\<rparr>, ''9'' \<mapsto> sample_lock9] =
      (Some ErrLocked, [''8'' \<mapsto> sample_lock8\<lparr>lk_held := True\<rparr>, ''9'' \<mapsto> sample_lock9])"
    by (simp add: spec_Unlock_def defs)
  show ?thesis
    by (simp add: sample_lock_calls_def sample_replies_def spec_init_def 1 2 3 4 5)
qed

lemma sample_exec:
  "\<exists>m hs. run_calls lock_exec sample_lock_calls (NewMemLS 7, []) = Some (sample_replies, m, hs) \<and> abs_locks m ''8'' \<noteq> None \<and> abs_locks m ''9'' \<noteq> None"
proof -
  have "run_calls spec_exec sample_lock_calls (spec_init (unat (7 :: u64))) =
      Some (sample_replies, \<lparr>sp_locks = [''8'' \<mapsto> sample_lock8\<lparr>lk_held := True\<rparr>, ''9'' \<mapsto> sample_lock9], sp_gen = 9, sp_claims = [(Some ''8'', None)]\<rparr>)"
    using sample_run by simp
  from lock_system.runs [OF lock_rel_init this] obtain m hs
    where "run_calls lock_exec sample_lock_calls (NewMemLS 7, []) = Some (sample_replies, m, hs)"
      "abs_locks m = [''8'' \<mapsto> sample_lock8\<lparr>lk_held := True\<rparr>, ''9'' \<mapsto> sample_lock9]"
    by (auto simp: lock_rel_def)
  then show ?thesis by auto
qed

section \<open>Properties\<close>

text \<open>
  C14.  The lock system refines its specification, a map from tokens to locks: for every sequence of calls to which the
  specification gives answers, the methods return without a panic, give the same answers, and leave the same locks.
\<close>

theorem lock_system_refines:
  assumes "run_calls spec_exec cs (spec_init (unat g)) = Some (rs, S)"
  shows "\<exists>m hs. run_calls lock_exec cs (NewMemLS g, []) = Some (rs, m, hs) \<and> abs_locks m = sp_locks S \<and> unat (ls_gen m) = sp_gen S"
  using lock_system.runs [OF lock_rel_init assms] by (auto simp: lock_rel_def)

theorem lock_system_refines_witness:
  "\<exists>m hs. run_calls lock_exec sample_lock_calls (NewMemLS 7, []) = Some (sample_replies, m, hs) \<and>
     abs_locks m = [''8'' \<mapsto> sample_lock8\<lparr>lk_held := True\<rparr>, ''9'' \<mapsto> sample_lock9] \<and> unat (ls_gen m) = 9"
  using lock_system_refines [of sample_lock_calls 7] sample_run by simp

text \<open>
  C15.  In every state that calls lead to, no two locks are in conflict: they have different roots, and none of infinite
  depth is above the other; and no lock is held by two confirmations at a time.
\<close>

theorem locks_exclusive:
  assumes "run_calls lock_exec cs (NewMemLS g, []) = Some (rs, m, hs)" "unat g + length cs < 2 ^ 64"
  shows "(\<forall>t t' a b. ls_byToken m t = Some a \<and> ls_byToken m t' = Some b \<and> t \<noteq> t' \<longrightarrow> \<not> conflict (nd_details (ls_nodes m a)) (nd_details (ls_nodes m b))) \<and>
    distinct (claimed_nodes hs) \<and> (\<forall>a \<in> set (claimed_nodes hs). nd_held (ls_nodes m a) \<and> (\<exists>t. ls_byToken m t = Some a))"
proof -
  obtain S where S: "lock_rel (m, hs) S" using reached_rel [OF assms] by blast
  then have "exclusive (abs_locks m)" by (simp add: lock_rel_def lock_inv_def)
  with claimed_nodes_facts [OF S] show ?thesis by (auto simp: exclusive_nodes)
qed

theorem locks_exclusive_witness:
  "\<exists>m hs a b. run_calls lock_exec sample_lock_calls (NewMemLS 7, []) = Some (sample_replies, m, hs) \<and>
     ls_byToken m ''8'' = Some a \<and> ls_byToken m ''9'' = Some b \<and> \<not> conflict (nd_details (ls_nodes m a)) (nd_details (ls_nodes m b)) \<and>
     distinct (claimed_nodes hs)"
proof -
  obtain m hs where run: "run_calls lock_exec sample_lock_calls (NewMemLS 7, []) = Some (sample_replies, m, hs)" "abs_locks m ''8'' \<noteq> None" "abs_locks m ''9'' \<noteq> None"
    using sample_exec by blast
  then obtain a b where ab: "ls_byToken m ''8'' = Some a" "ls_byToken m ''9'' = Some b" by (auto simp: abs_locks_def)
  have "unat (7 :: u64) + length sample_lock_calls < 2 ^ 64" by (simp add: sample_lock_calls_def)
  from locks_exclusive [OF run(1) this] run(1) ab show ?thesis by fastforce
qed

text \<open>
  C16.  In every state that calls lead to, a name is in the table exactly when a lock is at or below it, and its node
  counts those locks; the heap has exactly the locks with a deadline that no confirmation holds, each at the index its
  node says, and the first to expire in front.
\<close>

theorem lock_bookkeeping:
  assumes "run_calls lock_exec cs (NewMemLS g, []) = Some (rs, m, hs)" "unat g + length cs < 2 ^ 64"
    and "L = {t. \<exists>a. ls_byToken m t = Some a \<and> prefix (name_parts (slashClean s)) (name_parts (ld_Root (nd_details (ls_nodes m a))))}"
  shows "(case ls_byName m (slashClean s) of None \<Rightarrow> L = {} | Some x \<Rightarrow> L \<noteq> {} \<and> nd_refCount (ls_nodes m x) = int (card L)) \<and>
    set (ls_byExpiry m) = {a. (\<exists>t. ls_byToken m t = Some a) \<and> ld_Duration (nd_details (ls_nodes m a)) \<ge> 0 \<and> \<not> nd_held (ls_nodes m a)} \<and>
    distinct (ls_byExpiry m) \<and>
    (\<forall>i < length (ls_byExpiry m). nd_byExpiryIndex (ls_nodes m (ls_byExpiry m ! i)) = int i \<and>
       nd_expiry (ls_nodes m (ls_byExpiry m ! 0)) \<le> nd_expiry (ls_nodes m (ls_byExpiry m ! i)))"
proof (intro conjI allI impI)
  note inv = lock_invD [OF reached_inv [OF assms(1,2)]]
  have "L = {t \<in> dom (ls_byToken m). prefix (name_parts (slashClean s)) (lock_root m t)}"
    unfolding assms(3) by (auto simp: lock_root_def)
  moreover have "finite (dom (ls_byToken m))" by (rule inv(7))
  ultimately have L: "card L = refs m (slashClean s)" "refs m (slashClean s) = 0 \<longleftrightarrow> L = {}" by (simp_all add: refs_def)
  show "case ls_byName m (slashClean s) of None \<Rightarrow> L = {} | Some x \<Rightarrow> L \<noteq> {} \<and> nd_refCount (ls_nodes m x) = int (card L)"
    using inv(12) [OF clean_slashClean, of s] L by (auto split: option.splits)
  show "set (ls_byExpiry m) = {a. (\<exists>t. ls_byToken m t = Some a) \<and> ld_Duration (nd_details (ls_nodes m a)) \<ge> 0 \<and> \<not> nd_held (ls_nodes m a)}"
    using inv(15) by blast
  show "distinct (ls_byExpiry m)"
    using inv(13) by (simp add: heap_indexed_def)
  fix i assume i: "i < length (ls_byExpiry m)"
  show "nd_byExpiryIndex (ls_nodes m (ls_byExpiry m ! i)) = int i"
    using inv(13) i by (simp add: heap_indexed_def)
  show "nd_expiry (ls_nodes m (ls_byExpiry m ! 0)) \<le> nd_expiry (ls_nodes m (ls_byExpiry m ! i))"
    using heap_min [OF inv(14) i] by (simp add: keys_def)
qed

theorem lock_bookkeeping_witness:
  "\<exists>m hs. run_calls lock_exec sample_lock_calls (NewMemLS 7, []) = Some (sample_replies, m, hs) \<and>
     (case ls_byName m (slashClean ''a'') of
        None \<Rightarrow> {t. \<exists>a. ls_byToken m t = Some a \<and> prefix (name_parts (slashClean ''a'')) (name_parts (ld_Root (nd_details (ls_nodes m a))))} = {}
      | Some x \<Rightarrow> nd_refCount (ls_nodes m x) =
          int (card {t. \<exists>a. ls_byToken m t = Some a \<and> prefix (name_parts (slashClean ''a'')) (name_parts (ld_Root (nd_details (ls_nodes m a))))})) \<and>
     distinct (ls_byExpiry m)"
proof -
  obtain m hs where run: "run_calls lock_exec sample_lock_calls (NewMemLS 7, []) = Some (sample_replies, m, hs)"
    using sample_exec by blast
  have "unat (7 :: u64) + length sample_lock_calls < 2 ^ 64" by (simp add: sample_lock_calls_def)
  from lock_bookkeeping [OF run this refl, of "''a''"] run show ?thesis by (auto split: option.splits)
qed

end
