(* ===== verification/Spec2Isabelle.thy ===== *)
theory Spec2Isabelle
  imports BPF_Format BPF_VM HPACK_Roundtrip HTTP2_Pipe HTTP2_Priority_Properties HTTP2_Write DNS_Faults DNS_Parse_Properties WebDAV_Lock_Properties
begin

text \<open>
  Verification library for the Go packages kept under \<^verbatim>\<open>src/Go_source/src\<close> (the networking packages
  \<^verbatim>\<open>golang.org/x/net\<close>; paths below are relative to that directory).  The repository has no other Go
  code.  Modelled are the packages with protocol logic of their own: the BPF assembler and virtual
  machine, header compression, the layers of HTTP/2 between the octets of a connection and the streams of
  an application, DNS messages, and the lock system of WebDAV.

  \<^bold>\<open>How the parts interact.\<close>  An HTTP/2 endpoint reads octets with a \<^verbatim>\<open>Framer\<close> (\<^verbatim>\<open>http2/frame.go\<close>), which
  checks each frame and the order of header frames, feeds header blocks to an HPACK decoder
  (\<^verbatim>\<open>http2/hpack\<close>) and validates the fields (\<^verbatim>\<open>lex/httplex\<close>).  Data of a stream goes through a pipe over
  a chunked buffer (\<^verbatim>\<open>pipe.go\<close>, \<^verbatim>\<open>databuffer.go\<close>).  Frames to be sent are queued with a write scheduler
  (\<^verbatim>\<open>writesched.go\<close> and its two implementations), which splits DATA frames under the flow-control windows
  (\<^verbatim>\<open>flow.go\<close>) and hands them to the Framer again.  Packages \<^verbatim>\<open>bpf\<close> and
  \<^verbatim>\<open>dns/dnsmessage\<close> stand by themselves; in the latter \<^verbatim>\<open>Pack\<close> and the \<^verbatim>\<open>Builder\<close> share the packing of names,
  questions and resources, and \<^verbatim>\<open>Unpack\<close> runs the incremental \<^verbatim>\<open>Parser\<close>.  So does \<^verbatim>\<open>webdav/lock.go\<close>, whose
  nodes are in a table of names, a table of tokens and a heap of deadlines at the same time.

  \<^bold>\<open>Theories.\<close>
  \<^item> \<^verbatim>\<open>GoPrelude\<close>: machine integers, results with errors, number printing, big-endian reads, reachable
    states; the locale \<open>inductive_invariant\<close>.
  \<^item> \<^verbatim>\<open>BPF_Constants\<close>, \<^verbatim>\<open>BPF_Instructions\<close>, \<^verbatim>\<open>BPF_Asm\<close>, \<^verbatim>\<open>BPF_Format\<close>, \<^verbatim>\<open>BPF_VM\<close>: \<^verbatim>\<open>bpf/constants.go\<close>,
    \<^verbatim>\<open>instructions.go\<close>, \<^verbatim>\<open>asm.go\<close>, the \<^verbatim>\<open>String\<close> methods, and \<^verbatim>\<open>vm.go\<close> with \<^verbatim>\<open>vm_instructions.go\<close>.  An instruction
    is a datatype with one constructor per Go type; the machine is a state with program counter, registers and
    scratch memory, both as a function (\<open>run_from\<close>) and as a step relation (\<open>vm_step\<close>).
  \<^item> \<^verbatim>\<open>HPACK_Varint\<close>, \<^verbatim>\<open>HPACK_Huffman_Tables\<close>, \<^verbatim>\<open>HPACK_Huffman\<close>, \<^verbatim>\<open>HPACK_Huffman_Correct\<close>,
    \<^verbatim>\<open>HPACK_Huffman_Roundtrip\<close>, \<^verbatim>\<open>HPACK_Tables\<close>, \<^verbatim>\<open>HPACK_Decode\<close>, \<^verbatim>\<open>HPACK_Encode\<close>, \<^verbatim>\<open>HPACK_Roundtrip\<close>:
    \<^verbatim>\<open>http2/hpack\<close>, all of it but debug printing.  The decoding trie is built by the code's own loop; the
    tables keep the search maps beside the entries; the decoder's callback is the list of its calls.  The
    locale \<open>incremental_parser\<close> states what a parser of a prefix promises when more octets follow.
  \<^item> \<^verbatim>\<open>HTTP2_Flow\<close>, \<^verbatim>\<open>HTTP2_DataBuffer\<close>, \<^verbatim>\<open>HTTP2_Pipe\<close>: \<^verbatim>\<open>flow.go\<close>, \<^verbatim>\<open>databuffer.go\<close>, \<^verbatim>\<open>pipe.go\<close>.  Windows live
    in a store, because a stream shares the window of its connection.  The pipe is written over any buffer;
    a locale states what it needs of one, and the data buffer is the interpretation.
  \<^item> \<^verbatim>\<open>HTTP2_Protocol\<close>: the error values of \<^verbatim>\<open>errors.go\<close>, the settings of \<^verbatim>\<open>http2.go\<close>, priorities.
  \<^item> \<^verbatim>\<open>HTTP2_WriteSched\<close>: \<^verbatim>\<open>writesched.go\<close>, and the locale \<open>write_scheduler\<close>: whatever the calls, the octets
    popped on a stream are those pushed on it, in order.
  \<^item> \<^verbatim>\<open>HTTP2_WriteSched_Random\<close>: \<^verbatim>\<open>writesched_random.go\<close>, an interpretation of that locale.
  \<^item> \<^verbatim>\<open>HTTP2_Priority\<close>, \<^verbatim>\<open>HTTP2_Priority_Tree\<close>, \<^verbatim>\<open>HTTP2_Priority_Walk\<close>, \<^verbatim>\<open>HTTP2_WriteSched_Priority\<close>,
    \<^verbatim>\<open>HTTP2_Priority_Properties\<close>: \<^verbatim>\<open>writesched_priority.go\<close>.  The nodes of the tree live in a store linked by
    addresses as the code links them by pointers; the abstraction of the links is the list of children of every
    node.  The second interpretation of the locale.
  \<^item> \<^verbatim>\<open>HTTP2_Frame\<close>, \<^verbatim>\<open>HTTP2_Frame_Roundtrip\<close>, \<^verbatim>\<open>HTTP2_Frame_Properties\<close>: \<^verbatim>\<open>frame.go\<close>: headers, the parser and the
    writing method of every frame type, the order of frames.
  \<^item> \<^verbatim>\<open>HTTPLex\<close>: \<^verbatim>\<open>lex/httplex/httplex.go\<close>.
  \<^item> \<^verbatim>\<open>HTTP2_Meta\<close>, \<^verbatim>\<open>HTTP2_Meta_Properties\<close>, \<^verbatim>\<open>HTTP2_Meta_Roundtrip\<close>: the rest of \<^verbatim>\<open>frame.go\<close>: \<^verbatim>\<open>ReadFrame\<close> with
    \<^verbatim>\<open>readMetaFrame\<close>, which merges header frames and checks the fields in the callback of the HPACK decoder.  The
    variables the callback captures are a record; the decoder runs with that callback in \<open>meta_Write\<close>, which
    repeats \<open>Write\<close> of \<^verbatim>\<open>HPACK_Decode\<close> around the same parser.  The last theory composes encoder, framer and
    decoder: \<open>steps\<close> of \<^verbatim>\<open>HPACK_Roundtrip\<close> describes a header block as a list of representations, so that it
    may be cut anywhere; \<open>judge\<close> is the specification of what a list of fields is received as.
  \<^item> \<^verbatim>\<open>HTTP2_Write\<close>: \<^verbatim>\<open>write.go\<close>, \<^verbatim>\<open>headermap.go\<close> and the sorting of keys of \<^verbatim>\<open>http2.go\<close>: what each queued frame writer
    does with the framer and the HPACK encoder of its connection.  \<open>res_fields\<close> is the specification of the
    header list of a response.
  \<^item> \<^verbatim>\<open>DNS_Message\<close>, \<^verbatim>\<open>DNS_Parser\<close>, \<^verbatim>\<open>DNS_Builder\<close>: \<^verbatim>\<open>dns/dnsmessage/message.go\<close>.  A message under construction is a
    slice with its capacity and the number of its array, since \<^verbatim>\<open>fixLen\<close> writes through a slice that \<^verbatim>\<open>append\<close> may
    have left behind; the compression table is threaded through and survives errors, as the map of the code
    does.
  \<^item> \<^verbatim>\<open>DNS_Names\<close>, \<^verbatim>\<open>DNS_Roundtrip\<close>, \<^verbatim>\<open>DNS_Properties\<close>, \<^verbatim>\<open>DNS_Build\<close>, \<^verbatim>\<open>DNS_Faults\<close>, \<^verbatim>\<open>DNS_Parse_Properties\<close>: what names
    are on the wire (the relation \<open>name_reads\<close> says which labels octets and pointers stand for), the relation
    \<open>sends\<close> between a packer and the unpacker that reads what it wrote, lifted from integers to lists of records
    in the locale \<open>record_codec\<close> (interpreted on questions and on resources), whole messages, the builder
    against \<^verbatim>\<open>Pack\<close>, the faults, and the parser on arbitrary octets.
  \<^item> \<^verbatim>\<open>WebDAV_Names\<close>, \<^verbatim>\<open>WebDAV_Heap\<close>, \<^verbatim>\<open>WebDAV_Lock\<close>: \<^verbatim>\<open>slashClean\<close> of \<^verbatim>\<open>webdav/file.go\<close> and \<^verbatim>\<open>webdav/lock.go\<close>.  Nodes live in
    a store; the heap is the one of \<^verbatim>\<open>container/heap\<close> over addresses.  Every method runs under the mutex, so a run
    is a sequence of calls; the release function that \<^verbatim>\<open>Confirm\<close> returns is given by the nodes it holds.
  \<^item> \<^verbatim>\<open>WebDAV_Lock_Inv\<close>, \<^verbatim>\<open>WebDAV_Lock_Create\<close>, \<^verbatim>\<open>WebDAV_Lock_Steps\<close>, \<^verbatim>\<open>WebDAV_Lock_Methods\<close>, \<^verbatim>\<open>WebDAV_Lock_Spec\<close>,
    \<^verbatim>\<open>WebDAV_Lock_System\<close>, \<^verbatim>\<open>WebDAV_Lock_Properties\<close>: the invariant \<open>lock_inv\<close> of the tables and the heap, what each
    method makes of it, the specification (a map from tokens to locks), and runs.  The locale \<open>simulation\<close> lifts
    the agreement on single calls to runs; it is interpreted on the lock system.

  \<^bold>\<open>What the lemmas show.\<close>
  \<^item> Round trips: assembler and disassembler; integers, strings and whole sessions of header compression; the
    Huffman code (exactly the encodings decode); frames; header lists from the encoder through frames to the
    merged header frame, where malformed lists and lists of too large a total leave both ends in step (a single
    name or value beyond the limit ends the connection); responses from the header map of the server to the
    fields the peer sees, if they are within the limit of the peer; DNS messages with compressed names of at most
    ten labels, packed at once or built record by record.
  \<^item> Safety on any input: an accepted BPF program runs to its end without panic (with one exception, which is a
    finding), the HPACK decoder, the frame reader and the DNS parser return errors and never panic, and
    what they return is well formed.  In these models an index or slice expression of the code that may be out of
    range has a panic among its results (\<open>index_expr\<close>, \<open>slice_at\<close>, \<open>dns_index\<close>, \<open>dns_slice\<close>, \<open>slice_to\<close>), so
    that the theorems depend on the bounds checks before it.
  \<^item> Refinement: the dynamic table is the longest suffix of its history that fits; the chunked buffer is a
    queue of octets; the pipe delivers in order in every interleaving of its methods; the lock system is a map from
    tokens to locks of which no two are in conflict, and its reference counts and heap describe exactly those.
  \<^item> The two schedulers: order, exactness unless a stream is closed or its node removed, progress of
    \<^verbatim>\<open>Pop\<close>; for the priority tree also the shape of the links, RFC 7540 section 5.3.3, and termination of every
    walk over the links.
  \<^item> Equivalences: a header block written in pieces, a disassembled program, token search, the DNS builder and \<^verbatim>\<open>Pack\<close>,
    skipping and parsing of DNS records.
  \<^item> Behaviours that contradict the documentation, each as a theorem: the memory-shift load at the end of a
    packet, additions to negative windows, printing of negated jumps, orphaned children in the priority tree,
    open streams evicted with idle ones, the highest weight treated as the lowest, PUSH_PROMISE without
    continuation, header blocks interrupted by a frame with a stream error, trailers without a value, the length of a DNS
    text lost when the message outgrows its array, names remembered from a record that a builder refused.

  \<^bold>\<open>Bounds.\<close>  Go's \<^verbatim>\<open>int\<close> is an integer of HOL where it counts octets in memory, and every conversion to a
  narrower type is written out; other integers are words of their width.  Loops are recursive functions with a
  termination proof; loops over pointers are partial functions whose value \<open>None\<close> means that they do not end or
  panic, and the theorems show that they return.  There is no fuel.

  \<^bold>\<open>Parameters.\<close>  The underlying reader is what it delivers, then end of file or an error; the underlying
  writer is what its calls return.  \<^verbatim>\<open>sort.Sort\<close> is any function that permutes (its comparison is no strict
  order, so nothing more is promised), and the iteration order of a map is any list of its keys.  What
  \<^verbatim>\<open>strings.ToLower\<close> does beyond ASCII is a parameter, and so is the capacity of the array that \<^verbatim>\<open>append\<close> allocates
  (\<open>grow\<close>).  Instants and durations of the lock system are integers, and the clock is an argument of every call.

  \<^bold>\<open>Not modelled.\<close>  The server and the client of HTTP/2 (goroutines, timers, \<^verbatim>\<open>net/http\<close>), logging and debug
  printing by reflection, the reuse of frame objects by the framer, and the packages that are tables, system
  calls or network clients: their list with reasons is in the manifest.  Packages with further logic that
  the library may grow to: punycode, the If header of WebDAV, HTML node trees.
\<close>

end
